(* ===== verification/Prelude.thy ===== *)
theory Prelude
  imports Main "HOL-Library.Monad_Syntax" "HOL-Library.Code_Target_Nat"
begin

text \<open>
  What every component theory shares. A Rust vector is a HOL list; a read or write out of
  range panics, so \<open>vget\<close>, \<open>vset\<close> and the slice \<open>vslice\<close> return \<open>None\<close> there and a whole
  operation that can panic is a computation in the option monad, with \<open>None\<close> as the panic.
  A loop over a vector that updates some state is \<open>foldM\<close>, a \<open>collect\<close> of a
  mapping that can panic is \<open>mapM\<close>. The newtypes of \<^verbatim>\<open>trace-ir/src/ids.rs\<close>
  are numbers; where the code casts to \<^verbatim>\<open>u32\<close> the cast is written out as \<open>as_u32\<close>. Builds have no
  debug assertions and no overflow checks: counters of 32 bits wrap.
\<close>

section \<open>Identifiers and spans\<close>

type_synonym FileId = nat
type_synonym FnId = nat
type_synonym VarId = nat
type_synonym TypeId = nat
type_synonym LocId = nat
type_synonym CallSiteId = nat
type_synonym PagNodeId = nat
type_synonym FieldId = nat
type_synonym BlockId = nat
type_synonym EventId = nat

record Span =
  sp_file :: FileId
  sp_line :: nat
  sp_col :: nat

definition usize_max :: nat where
  "usize_max = 18446744073709551615"

definition u32_max :: nat where
  "u32_max = 4294967295"

definition as_u32 :: "nat \<Rightarrow> nat" where
  "as_u32 n = n mod 4294967296"

lemma as_u32_Suc [simp]: "as_u32 (as_u32 n + 1) = as_u32 (n + 1)" "as_u32 (Suc (as_u32 n)) = as_u32 (Suc n)" "as_u32 (as_u32 n) = as_u32 n"
  "as_u32 (Suc 0) = Suc 0" "as_u32 1 = 1"
  by (simp_all add: as_u32_def mod_Suc_eq)

lemma as_u32_id: "n \<le> u32_max \<Longrightarrow> as_u32 n = n"
  by (simp add: as_u32_def u32_max_def)

named_theorems vec_simps \<open>in-range reads and writes of vectors succeed\<close>

section \<open>Vectors\<close>

definition vget :: "'a list \<Rightarrow> nat \<Rightarrow> 'a option" where
  "vget xs i = (if i < length xs then Some (xs ! i) else None)"

definition vset :: "'a list \<Rightarrow> nat \<Rightarrow> 'a \<Rightarrow> 'a list option" where
  "vset xs i v = (if i < length xs then Some (xs[i := v]) else None)"

text \<open>The slice \<^verbatim>\<open>&xs[a..b]\<close>.\<close>

definition vslice :: "'a list \<Rightarrow> nat \<Rightarrow> nat \<Rightarrow> 'a list option" where
  "vslice xs a b = (if a \<le> b \<and> b \<le> length xs then Some (drop a (take b xs)) else None)"

fun foldM :: "('s \<Rightarrow> 'a \<Rightarrow> 's option) \<Rightarrow> 's \<Rightarrow> 'a list \<Rightarrow> 's option" where
  "foldM f s [] = Some s"
| "foldM f s (x # xs) = (case f s x of None \<Rightarrow> None | Some s' \<Rightarrow> foldM f s' xs)"

fun mapM :: "('a \<Rightarrow> 'b option) \<Rightarrow> 'a list \<Rightarrow> 'b list option" where
  "mapM f [] = Some []"
| "mapM f (x # xs) =
     (case f x of None \<Rightarrow> None
      | Some y \<Rightarrow> (case mapM f xs of None \<Rightarrow> None | Some ys \<Rightarrow> Some (y # ys)))"

fun position :: "('a \<Rightarrow> bool) \<Rightarrow> 'a list \<Rightarrow> nat option" where
  "position p [] = None"
| "position p (x # xs) = (if p x then Some 0 else map_option Suc (position p xs))"

lemma vget_in [vec_simps]: "i < length xs \<Longrightarrow> vget xs i = Some (xs ! i)"
  by (simp add: vget_def)

lemma vget_Some: "vget xs i = Some v \<longleftrightarrow> i < length xs \<and> xs ! i = v"
  by (auto simp: vget_def)

lemma vget_None: "vget xs i = None \<longleftrightarrow> length xs \<le> i"
  by (auto simp: vget_def)

lemma vset_in [vec_simps]: "i < length xs \<Longrightarrow> vset xs i v = Some (xs[i := v])"
  by (simp add: vset_def)

lemma vset_Some: "vset xs i v = Some ys \<longleftrightarrow> i < length xs \<and> ys = xs[i := v]"
  by (auto simp: vset_def)

lemma vset_length: "vset xs i v = Some ys \<Longrightarrow> length ys = length xs"
  by (auto simp: vset_Some)

lemma foldM_append:
  "foldM f s (xs @ ys) = (case foldM f s xs of None \<Rightarrow> None | Some s' \<Rightarrow> foldM f s' ys)"
  by (induction xs arbitrary: s) (auto split: option.splits)

lemma foldM_total:
  assumes "\<And>s x. I s \<Longrightarrow> x \<in> set xs \<Longrightarrow> f s x = Some (g s x) \<and> I (g s x)"
    and "I s"
  shows "foldM f s xs = Some (foldl g s xs) \<and> I (foldl g s xs)"
  using assms by (induction xs arbitrary: s) auto

lemma foldM_invariant:
  assumes "foldM f s xs = Some s'" and "I s"
    and "\<And>s x t. I s \<Longrightarrow> x \<in> set xs \<Longrightarrow> f s x = Some t \<Longrightarrow> I t"
  shows "I s'"
  using assms
proof (induction xs arbitrary: s)
  case (Cons x xs)
  from Cons.prems(1) obtain t where t: "f s x = Some t" and r: "foldM f t xs = Some s'"
    by (auto split: option.splits)
  have "I t" using Cons.prems(2,3) t by (meson list.set_intros(1))
  moreover have "\<And>s y u. I s \<Longrightarrow> y \<in> set xs \<Longrightarrow> f s y = Some u \<Longrightarrow> I u"
    using Cons.prems(3) by (meson list.set_intros(2))
  ultimately show ?case using Cons.IH [OF r] by blast
qed simp

lemma foldM_rule:
  assumes "I s" and "\<And>s x. I s \<Longrightarrow> x \<in> set xs \<Longrightarrow> \<exists>t. f s x = Some t \<and> I t"
  shows "\<exists>t. foldM f s xs = Some t \<and> I t"
  using assms
proof (induction xs arbitrary: s)
  case (Cons x xs)
  from Cons.prems obtain t where t: "f s x = Some t" "I t" by (meson list.set_intros(1))
  with Cons.IH [OF t(2)] Cons.prems(2) show ?case by (simp add: list.set_intros(2))
qed simp

lemma foldM_prefix_rule:
  assumes "I [] s"
    and "\<And>done x s. I done s \<Longrightarrow> x \<in> set xs \<Longrightarrow> \<exists>t. f s x = Some t \<and> I (done @ [x]) t"
  shows "\<exists>t. foldM f s xs = Some t \<and> I xs t"
  using assms(2)
proof (induction xs rule: rev_induct)
  case Nil
  show ?case using assms(1) by simp
next
  case (snoc x xs)
  then obtain t where t: "foldM f s xs = Some t" "I xs t" by auto
  with snoc.prems [OF t(2), of x] show ?case by (auto simp: foldM_append)
qed

lemma mapM_Some: "mapM f xs = Some ys \<longleftrightarrow> map f xs = map Some ys"
proof (induction xs arbitrary: ys)
  case (Cons x xs)
  then show ?case by (cases ys) (force split: option.splits)+
qed auto

lemma mapM_total: "(\<And>x. x \<in> set xs \<Longrightarrow> f x = Some (g x)) \<Longrightarrow> mapM f xs = Some (map g xs)"
  by (simp add: mapM_Some)

lemma mapM_length: "mapM f xs = Some ys \<Longrightarrow> length ys = length xs"
  by (metis mapM_Some length_map)

lemma position_Some:
  "position p xs = Some i \<longleftrightarrow> i < length xs \<and> p (xs ! i) \<and> (\<forall>j < i. \<not> p (xs ! j))"
proof (induction xs arbitrary: i)
  case (Cons x xs)
  then show ?case by (cases i) (auto simp: less_Suc_eq_0_disj)
qed simp

lemma position_None: "position p xs = None \<longleftrightarrow> (\<forall>x \<in> set xs. \<not> p x)"
  by (induction xs) auto

section \<open>Rust's filter-map\<close>

lemma map_filter_app: "List.map_filter f (xs @ ys) = List.map_filter f xs @ List.map_filter f ys"
  by (simp add: List.map_filter_def)

lemma map_filter_one: "List.map_filter f [x] = (case f x of None \<Rightarrow> [] | Some y \<Rightarrow> [y])"
  by (simp add: List.map_filter_def split: option.splits)

lemma set_map_filter: "set (List.map_filter f xs) = {y. \<exists>x \<in> set xs. f x = Some y}"
  by (force simp: List.map_filter_def)

lemma map_filter_cong:
  "(\<And>x. x \<in> set xs \<Longrightarrow> f x = g x) \<Longrightarrow> List.map_filter f xs = List.map_filter g xs"
  by (induction xs) (auto simp: List.map_filter_def)

lemma map_filter_Some: "List.map_filter (\<lambda>x. Some (f x)) xs = map f xs"
  by (induction xs) (auto simp: List.map_filter_def)

text \<open>A \<open>filter_map\<close> whose mapping may panic: \<open>None\<close> panics, \<open>Some None\<close> drops.\<close>

definition filter_mapM :: "('a \<Rightarrow> 'b option option) \<Rightarrow> 'a list \<Rightarrow> 'b list option" where
  "filter_mapM f xs = map_option (List.map_filter id) (mapM f xs)"

lemma filter_mapM_total:
  "(\<And>x. x \<in> set xs \<Longrightarrow> f x = Some (g x)) \<Longrightarrow> filter_mapM f xs = Some (List.map_filter g xs)"
  by (simp add: filter_mapM_def mapM_total List.map_filter_def filter_map o_def)

section \<open>Positions among the elements kept\<close>

definition rank :: "('a \<Rightarrow> bool) \<Rightarrow> 'a list \<Rightarrow> nat \<Rightarrow> nat" where
  "rank p xs i = length (filter p (take i xs))"

lemma rank_split:
  "i < length xs \<Longrightarrow> p (xs ! i) \<Longrightarrow>
   filter p xs = filter p (take i xs) @ xs ! i # filter p (drop (Suc i) xs)"
  by (metis append_take_drop_id Cons_nth_drop_Suc filter.simps(2) filter_append)

lemma rank_less: "i < length xs \<Longrightarrow> p (xs ! i) \<Longrightarrow> rank p xs i < length (filter p xs)"
  by (drule (1) rank_split) (simp add: rank_def)

lemma nth_filter_rank: "i < length xs \<Longrightarrow> p (xs ! i) \<Longrightarrow> filter p xs ! rank p xs i = xs ! i"
  by (drule (1) rank_split) (simp add: rank_def nth_append)

lemma rank_strict_mono:
  assumes "i < j" "i < length xs" "p (xs ! i)"
  shows "rank p xs i < rank p xs j"
proof -
  have "i < length (take j xs)" "p (take j xs ! i)" using assms by auto
  then have "rank p (take j xs) i < length (filter p (take j xs))" by (rule rank_less)
  then show ?thesis using assms(1) by (simp add: rank_def min_absorb1)
qed

lemma rank_inj:
  "i < length xs \<Longrightarrow> j < length xs \<Longrightarrow> p (xs ! i) \<Longrightarrow> p (xs ! j) \<Longrightarrow> rank p xs i = rank p xs j \<Longrightarrow> i = j"
  by (metis linorder_neqE_nat nat_neq_iff rank_strict_mono)

lemma rank_surj:
  "k < length (filter p xs) \<Longrightarrow> \<exists>i < length xs. p (xs ! i) \<and> rank p xs i = k"
proof (induction xs rule: rev_induct)
  case (snoc x xs)
  show ?case
  proof (cases "k < length (filter p xs)")
    case True
    with snoc.IH obtain i where "i < length xs" "p (xs ! i)" "rank p xs i = k" by blast
    then show ?thesis by (intro exI [of _ i]) (auto simp: nth_append rank_def)
  next
    case False
    with snoc.prems have "p x" "k = length (filter p xs)" by (auto split: if_splits)
    then show ?thesis by (intro exI [of _ "length xs"]) (auto simp: rank_def)
  qed
qed simp

section \<open>Keeping first occurrences\<close>

text \<open>What a \<open>retain\<close> over a set of seen values, or a push guarded by \<open>contains\<close>, leaves.\<close>

fun dedup_onto :: "'a list \<Rightarrow> 'a list \<Rightarrow> 'a list" where
  "dedup_onto acc [] = acc"
| "dedup_onto acc (x # xs) = dedup_onto (if x \<in> set acc then acc else acc @ [x]) xs"

lemma set_dedup_onto [simp]: "set (dedup_onto acc xs) = set acc \<union> set xs"
  by (induction acc xs rule: dedup_onto.induct) auto

lemma distinct_dedup_onto: "distinct acc \<Longrightarrow> distinct (dedup_onto acc xs)"
  by (induction acc xs rule: dedup_onto.induct) auto

lemma dedup_onto_id: "distinct (acc @ xs) \<Longrightarrow> dedup_onto acc xs = acc @ xs"
  by (induction acc xs rule: dedup_onto.induct) auto

lemma dedup_onto_prefix: "\<exists>zs. dedup_onto acc xs = acc @ zs"
proof (induction acc xs rule: dedup_onto.induct)
  case (2 acc x xs)
  then show ?case by (cases "x \<in> set acc") auto
qed simp

lemma dedup_onto_subset: "set xs \<subseteq> set acc \<Longrightarrow> dedup_onto acc xs = acc"
  by (induction acc xs rule: dedup_onto.induct) auto

lemma dedup_onto_append: "dedup_onto acc (xs @ ys) = dedup_onto (dedup_onto acc xs) ys"
  by (induction acc xs rule: dedup_onto.induct) auto

section \<open>Quantifying over fallible tests\<close>

text \<open>\<open>all\<close> and \<open>any\<close> of an iterator whose closure may panic: both stop at the first answer.\<close>

fun allM :: "('a \<Rightarrow> bool option) \<Rightarrow> 'a list \<Rightarrow> bool option" where
  "allM p [] = Some True"
| "allM p (x # xs) = (case p x of None \<Rightarrow> None | Some ok \<Rightarrow> if ok then allM p xs else Some False)"

fun anyM :: "('a \<Rightarrow> bool option) \<Rightarrow> 'a list \<Rightarrow> bool option" where
  "anyM p [] = Some False"
| "anyM p (x # xs) = (case p x of None \<Rightarrow> None | Some ok \<Rightarrow> if ok then Some True else anyM p xs)"

lemma allM_total: "(\<And>x. x \<in> set xs \<Longrightarrow> p x \<noteq> None) \<Longrightarrow> allM p xs = Some (\<forall>x \<in> set xs. p x = Some True)"
  by (induction xs) (fastforce split: option.splits)+

lemma anyM_total: "(\<And>x. x \<in> set xs \<Longrightarrow> p x \<noteq> None) \<Longrightarrow> anyM p xs = Some (\<exists>x \<in> set xs. p x = Some True)"
  by (induction xs) (fastforce split: option.splits)+

end
