(* ===== verification/Kinds.thy ===== *)
theory Kinds
  imports Prelude
begin

text \<open>
  The enumerations of \<^verbatim>\<open>trace-ir/src/cfg.rs\<close> with the names they have in exports and query
  output. Each has a table \<^verbatim>\<open>ALL\<close>, a printer \<^verbatim>\<open>as_str\<close> and a parser that looks the
  printed name up in the table; the locale \<open>named_kind\<close> is that contract, and its
  interpretations on the four kinds give the round trips between names and kinds.
\<close>

section \<open>The contract of a named kind\<close>

locale named_kind =
  fixes all :: "'k list"
    and as_str :: "'k \<Rightarrow> string"
    and parse :: "string \<Rightarrow> 'k option"
  assumes all_complete: "k \<in> set all"
    and names_distinct: "distinct (map as_str all)"
    and parse_eq: "parse name = find (\<lambda>k. as_str k = name) all"
begin

lemma as_str_inject: "as_str k = as_str l \<longleftrightarrow> k = l"
  using names_distinct all_complete by (metis distinct_map inj_onD)

lemma parse_Some_iff: "parse name = Some k \<longleftrightarrow> as_str k = name"
proof
  assume "parse name = Some k"
  then show "as_str k = name" by (auto simp: parse_eq find_Some_iff)
next
  assume name: "as_str k = name"
  have "parse name \<noteq> None" using all_complete [of k] name by (auto simp: parse_eq find_None_iff)
  then obtain l where l: "parse name = Some l" by auto
  then have "as_str l = name" by (auto simp: parse_eq find_Some_iff)
  with name have "l = k" by (metis as_str_inject)
  with l show "parse name = Some k" by simp
qed

lemma parse_as_str: "parse (as_str k) = Some k"
  by (simp add: parse_Some_iff)

lemma parse_None_iff: "parse name = None \<longleftrightarrow> name \<notin> range as_str"
  by (metis not_Some_eq parse_Some_iff rangeE rangeI)

end

section \<open>Block kinds\<close>

datatype BlockKind = Entry | Exit | ExceptionalExit | Ordinary | Landing

definition BlockKind_ALL :: "BlockKind list" where
  "BlockKind_ALL = [Entry, Exit, ExceptionalExit, Ordinary, Landing]"

fun BlockKind_as_str :: "BlockKind \<Rightarrow> string" where
  "BlockKind_as_str Entry = ''entry''"
| "BlockKind_as_str Exit = ''exit''"
| "BlockKind_as_str ExceptionalExit = ''exceptional_exit''"
| "BlockKind_as_str Ordinary = ''ordinary''"
| "BlockKind_as_str Landing = ''landing''"

definition BlockKind_parse :: "string \<Rightarrow> BlockKind option" where
  "BlockKind_parse name = find (\<lambda>kind. BlockKind_as_str kind = name) BlockKind_ALL"

section \<open>Edge kinds\<close>

datatype EdgeKind = Fallthrough | BranchTrue | BranchFalse | SwitchCase | BackEdge
  | Return | Exception | Unsupported | Sequenced

definition EdgeKind_ALL :: "EdgeKind list" where
  "EdgeKind_ALL = [Fallthrough, BranchTrue, BranchFalse, SwitchCase, BackEdge,
     Return, Exception, Unsupported, Sequenced]"

fun EdgeKind_as_str :: "EdgeKind \<Rightarrow> string" where
  "EdgeKind_as_str Fallthrough = ''fallthrough''"
| "EdgeKind_as_str BranchTrue = ''branch_true''"
| "EdgeKind_as_str BranchFalse = ''branch_false''"
| "EdgeKind_as_str SwitchCase = ''switch_case''"
| "EdgeKind_as_str BackEdge = ''back_edge''"
| "EdgeKind_as_str Return = ''return''"
| "EdgeKind_as_str Exception = ''exception''"
| "EdgeKind_as_str Unsupported = ''unsupported''"
| "EdgeKind_as_str Sequenced = ''sequenced''"

definition EdgeKind_parse :: "string \<Rightarrow> EdgeKind option" where
  "EdgeKind_parse name = find (\<lambda>kind. EdgeKind_as_str kind = name) EdgeKind_ALL"

section \<open>Event kinds\<close>

datatype EventKind = Call | Construct | Destroy | Delete

definition EventKind_ALL :: "EventKind list" where
  "EventKind_ALL = [Call, Construct, Destroy, Delete]"

fun EventKind_as_str :: "EventKind \<Rightarrow> string" where
  "EventKind_as_str Call = ''call''"
| "EventKind_as_str Construct = ''construct''"
| "EventKind_as_str Destroy = ''destroy''"
| "EventKind_as_str Delete = ''delete''"

definition EventKind_parse :: "string \<Rightarrow> EventKind option" where
  "EventKind_parse name = find (\<lambda>kind. EventKind_as_str kind = name) EventKind_ALL"

section \<open>Gap kinds\<close>

datatype GapKind = ParseError | DepthExceeded | UnsupportedConstruct | UnresolvedGoto
  | UnorderedBranch | InitializerOrder | OmittedSites | Unevaluated

definition GapKind_ALL :: "GapKind list" where
  "GapKind_ALL = [ParseError, DepthExceeded, UnsupportedConstruct, UnresolvedGoto,
     UnorderedBranch, InitializerOrder, OmittedSites, Unevaluated]"

fun GapKind_as_str :: "GapKind \<Rightarrow> string" where
  "GapKind_as_str ParseError = ''parse_error''"
| "GapKind_as_str DepthExceeded = ''depth_exceeded''"
| "GapKind_as_str UnsupportedConstruct = ''unsupported_construct''"
| "GapKind_as_str UnresolvedGoto = ''unresolved_goto''"
| "GapKind_as_str UnorderedBranch = ''unordered_branch''"
| "GapKind_as_str InitializerOrder = ''initializer_order''"
| "GapKind_as_str OmittedSites = ''omitted_sites''"
| "GapKind_as_str Unevaluated = ''unevaluated''"

definition GapKind_parse :: "string \<Rightarrow> GapKind option" where
  "GapKind_parse name = find (\<lambda>kind. GapKind_as_str kind = name) GapKind_ALL"

section \<open>The four kinds meet the contract\<close>

lemmas kind_tables = BlockKind_ALL_def EdgeKind_ALL_def EventKind_ALL_def GapKind_ALL_def

interpretation block_kind: named_kind BlockKind_ALL BlockKind_as_str BlockKind_parse
proof unfold_locales
  show "k \<in> set BlockKind_ALL" for k by (cases k) (simp_all add: kind_tables)
qed (simp_all add: kind_tables BlockKind_parse_def)

interpretation edge_kind: named_kind EdgeKind_ALL EdgeKind_as_str EdgeKind_parse
proof unfold_locales
  show "k \<in> set EdgeKind_ALL" for k by (cases k) (simp_all add: kind_tables)
qed (simp_all add: kind_tables EdgeKind_parse_def)

interpretation event_kind: named_kind EventKind_ALL EventKind_as_str EventKind_parse
proof unfold_locales
  show "k \<in> set EventKind_ALL" for k by (cases k) (simp_all add: kind_tables)
qed (simp_all add: kind_tables EventKind_parse_def)

interpretation gap_kind: named_kind GapKind_ALL GapKind_as_str GapKind_parse
proof unfold_locales
  show "k \<in> set GapKind_ALL" for k by (cases k) (simp_all add: kind_tables)
qed (simp_all add: kind_tables GapKind_parse_def)

section \<open>Properties\<close>

text \<open>Printing then parsing a block, edge, event or gap kind gives the kind back, and a name
  parses to a kind only when it is that kind's printed name.\<close>

theorem kinds_roundtrip:
  "BlockKind_parse (BlockKind_as_str b) = Some b \<and> EdgeKind_parse (EdgeKind_as_str e) = Some e \<and>
   EventKind_parse (EventKind_as_str v) = Some v \<and> GapKind_parse (GapKind_as_str g) = Some g \<and>
   (BlockKind_parse name = Some b \<longleftrightarrow> BlockKind_as_str b = name) \<and>
   (EdgeKind_parse name = Some e \<longleftrightarrow> EdgeKind_as_str e = name) \<and>
   (EventKind_parse name = Some v \<longleftrightarrow> EventKind_as_str v = name) \<and>
   (GapKind_parse name = Some g \<longleftrightarrow> GapKind_as_str g = name)"
  by (simp add: block_kind.parse_Some_iff edge_kind.parse_Some_iff event_kind.parse_Some_iff
      gap_kind.parse_Some_iff)

end
