(* ===== verification/Cfg.thy ===== *)
theory Cfg
  imports Kinds
begin

text \<open>
  The call-order control-flow graph of one function body (\<^verbatim>\<open>trace-ir/src/cfg.rs\<close>): the
  record types, the operations on one event's alternative sites, the removal of repeated
  edges, structural equality and the files a graph names. \<open>wf_cfg\<close> is the
  well-formedness every other theory of the graph preserves: all indices are in range and a
  block lists exactly the events that name it.
\<close>

section \<open>Data\<close>

record CallOccurrence =
  occ_span :: Span
  occ_expansion_span :: "Span option"
  occ_expansion_id :: nat

record Block =
  blk_kind :: BlockKind
  blk_span :: "Span option"
  blk_events :: "EventId list"

record CfgEdge =
  e_from :: BlockId
  e_to :: BlockId
  e_kind :: EdgeKind

record CallEvent =
  ev_block :: BlockId
  ev_kind :: EventKind
  ev_occurrence :: CallOccurrence
  ev_sites :: "CallSiteId list"

record Gap =
  gap_kind :: GapKind
  gap_span :: "Span option"
  gap_events :: "(EventId \<times> EventId) option"

record FunctionCfg =
  cfg_function :: FnId
  cfg_tu :: "FileId option"
  cfg_variant :: nat
  cfg_entry :: BlockId
  cfg_exit :: BlockId
  cfg_exceptional_exit :: "BlockId option"
  cfg_blocks :: "Block list"
  cfg_edges :: "CfgEdge list"
  cfg_events :: "CallEvent list"
  cfg_order :: "(EventId \<times> EventId) list"
  cfg_gaps :: "Gap list"

section \<open>Sites\<close>

text \<open>\<^verbatim>\<open>add_alternative_sites\<close>: push each site the event does not list yet.\<close>

definition add_alternative_sites :: "CallEvent \<Rightarrow> CallSiteId list \<Rightarrow> CallEvent" where
  "add_alternative_sites event sites = event\<lparr>ev_sites := dedup_onto (ev_sites event) sites\<rparr>"

text \<open>\<^verbatim>\<open>mapped_sites\<close>: an unmapped site is dropped, and so is one an earlier site already gave.\<close>

definition mapped_sites :: "CallSiteId list \<Rightarrow> (CallSiteId \<Rightarrow> CallSiteId option) \<Rightarrow> CallSiteId list"
  where
  "mapped_sites sites map_site = List.map_filter (\<lambda>i.
     case map_site (sites ! i) of
       None \<Rightarrow> None
     | Some site \<Rightarrow>
         if list_ex (\<lambda>p. map_site p = Some site) (take i sites) then None else Some site)
     [0..<length sites]"

section \<open>Repeated edges\<close>

text \<open>
  \<^verbatim>\<open>dedup_edges\<close>. The scan branch compacts the vector in place: \<open>kept\<close> counts the
  edges moved to the front, and the final \<^verbatim>\<open>truncate\<close> cuts the rest. The other branch is a
  \<^verbatim>\<open>retain\<close> guarded by a set of the edges seen.
\<close>

fun dedup_scan :: "'a list \<Rightarrow> nat \<Rightarrow> nat list \<Rightarrow> 'a list" where
  "dedup_scan edges kept [] = take kept edges"
| "dedup_scan edges kept (at # ats) =
     (let edge = edges ! at in
      if edge \<in> set (take kept edges) then dedup_scan edges kept ats
      else dedup_scan (edges[kept := edge]) (Suc kept) ats)"

fun dedup_retain :: "'a set \<Rightarrow> 'a list \<Rightarrow> 'a list" where
  "dedup_retain seen [] = []"
| "dedup_retain seen (e # es) =
     (if e \<in> seen then dedup_retain seen es else e # dedup_retain (insert e seen) es)"

definition dedup_edges :: "CfgEdge list \<Rightarrow> CfgEdge list" where
  "dedup_edges edges =
     (if length edges < 2 then edges
      else if length edges \<le> 32 then dedup_scan edges 0 [0..<length edges]
      else dedup_retain {} edges)"

section \<open>Whole graphs\<close>

definition structurally_equal :: "FunctionCfg \<Rightarrow> FunctionCfg \<Rightarrow> bool" where
  "structurally_equal a b \<longleftrightarrow>
     cfg_function a = cfg_function b \<and> cfg_entry a = cfg_entry b \<and> cfg_exit a = cfg_exit b \<and>
     cfg_exceptional_exit a = cfg_exceptional_exit b \<and> cfg_blocks a = cfg_blocks b \<and>
     cfg_edges a = cfg_edges b \<and> cfg_events a = cfg_events b \<and> cfg_order a = cfg_order b \<and>
     cfg_gaps a = cfg_gaps b"

definition cfg_files :: "FunctionCfg \<Rightarrow> FileId list" where
  "cfg_files g =
     (case cfg_tu g of None \<Rightarrow> [] | Some f \<Rightarrow> [f]) @
     map sp_file
       (List.map_filter blk_span (cfg_blocks g) @
        concat (map (\<lambda>e. occ_span (ev_occurrence e) #
          (case occ_expansion_span (ev_occurrence e) of None \<Rightarrow> [] | Some s \<Rightarrow> [s])) (cfg_events g)) @
        List.map_filter gap_span (cfg_gaps g))"

text \<open>A gap range is inclusive; a reversed one covers no event and is never dereferenced.\<close>

definition gap_ok :: "nat \<Rightarrow> Gap \<Rightarrow> bool" where
  "gap_ok n g \<longleftrightarrow> (case gap_events g of None \<Rightarrow> True | Some (lo, hi) \<Rightarrow> lo \<le> hi \<longrightarrow> hi < n)"

definition wf_cfg :: "FunctionCfg \<Rightarrow> bool" where
  "wf_cfg g \<longleftrightarrow>
     (let nb = length (cfg_blocks g); ne = length (cfg_events g) in
      cfg_entry g < nb \<and> cfg_exit g < nb \<and> (case cfg_exceptional_exit g of None \<Rightarrow> True | Some b \<Rightarrow> b < nb) \<and>
      list_all (\<lambda>e. e_from e < nb \<and> e_to e < nb) (cfg_edges g) \<and>
      list_all (\<lambda>e. ev_block e < nb) (cfg_events g) \<and> ne \<le> u32_max \<and>
      list_all (\<lambda>(a, b). a < ne \<and> b < ne) (cfg_order g) \<and>
      list_all (gap_ok ne) (cfg_gaps g) \<and>
      list_all (\<lambda>b. distinct (blk_events (cfg_blocks g ! b)) \<and>
         set (blk_events (cfg_blocks g ! b)) = set (filter (\<lambda>e. ev_block (cfg_events g ! e) = b) [0..<ne])) [0..<nb])"

section \<open>What well-formedness gives\<close>

lemma wf_cfgD:
  assumes "wf_cfg g"
  shows "cfg_entry g < length (cfg_blocks g)" "cfg_exit g < length (cfg_blocks g)"
    and "x \<in> set (cfg_edges g) \<Longrightarrow> e_from x < length (cfg_blocks g)"
    and "x \<in> set (cfg_edges g) \<Longrightarrow> e_to x < length (cfg_blocks g)"
    and "e < length (cfg_events g) \<Longrightarrow> ev_block (cfg_events g ! e) < length (cfg_blocks g)"
    and "(a, c) \<in> set (cfg_order g) \<Longrightarrow> a < length (cfg_events g) \<and> c < length (cfg_events g)"
    and "y \<in> set (cfg_gaps g) \<Longrightarrow> gap_ok (length (cfg_events g)) y"
    and "b < length (cfg_blocks g) \<Longrightarrow> distinct (blk_events (cfg_blocks g ! b))"
    and "b < length (cfg_blocks g) \<Longrightarrow>
      set (blk_events (cfg_blocks g ! b)) = {e. e < length (cfg_events g) \<and> ev_block (cfg_events g ! e) = b}"
    and "cfg_exceptional_exit g = Some b \<Longrightarrow> b < length (cfg_blocks g)"
    and "length (cfg_events g) \<le> u32_max"
  using assms by (auto simp: wf_cfg_def Let_def list_all_iff)

lemma wf_cfgI:
  assumes "cfg_entry g < length (cfg_blocks g)" "cfg_exit g < length (cfg_blocks g)"
    and "\<And>b. cfg_exceptional_exit g = Some b \<Longrightarrow> b < length (cfg_blocks g)"
    and "\<And>x. x \<in> set (cfg_edges g) \<Longrightarrow> e_from x < length (cfg_blocks g) \<and> e_to x < length (cfg_blocks g)"
    and "\<And>x. x \<in> set (cfg_events g) \<Longrightarrow> ev_block x < length (cfg_blocks g)"
    and "\<And>a c. (a, c) \<in> set (cfg_order g) \<Longrightarrow> a < length (cfg_events g) \<and> c < length (cfg_events g)"
    and "\<And>y. y \<in> set (cfg_gaps g) \<Longrightarrow> gap_ok (length (cfg_events g)) y"
    and "\<And>b. b < length (cfg_blocks g) \<Longrightarrow> distinct (blk_events (cfg_blocks g ! b))"
    and "\<And>b. b < length (cfg_blocks g) \<Longrightarrow>
      set (blk_events (cfg_blocks g ! b)) = {e. e < length (cfg_events g) \<and> ev_block (cfg_events g ! e) = b}"
    and "length (cfg_events g) \<le> u32_max"
  shows "wf_cfg g"
proof -
  have "case cfg_exceptional_exit g of None \<Rightarrow> True | Some b \<Rightarrow> b < length (cfg_blocks g)"
    using assms(3) by (cases "cfg_exceptional_exit g") simp_all
  then show ?thesis using assms unfolding wf_cfg_def Let_def list_all_iff by auto
qed

section \<open>Sites: what the operations compute\<close>

lemma mapped_sites_snoc:
  "mapped_sites (sites @ [s]) m =
     (case m s of None \<Rightarrow> mapped_sites sites m
      | Some t \<Rightarrow> if t \<in> set (List.map_filter m sites) then mapped_sites sites m
               else mapped_sites sites m @ [t])"
proof -
  have "List.map_filter (\<lambda>i. case m ((sites @ [s]) ! i) of None \<Rightarrow> None
       | Some site \<Rightarrow> if list_ex (\<lambda>p. m p = Some site) (take i (sites @ [s])) then None else Some site)
       [0..<length sites] = mapped_sites sites m"
    unfolding mapped_sites_def
    by (rule map_filter_cong) (auto simp: nth_append split: option.splits)
  then show ?thesis
    by (auto simp: mapped_sites_def map_filter_app map_filter_one list_ex_iff set_map_filter
        split: option.splits)
qed

lemma mapped_sites_dedup: "mapped_sites sites m = dedup_onto [] (List.map_filter m sites)"
proof (induction sites rule: rev_induct)
  case Nil
  show ?case by (simp add: mapped_sites_def List.map_filter_def)
next
  case (snoc s sites)
  then show ?case
    by (simp add: mapped_sites_snoc map_filter_app map_filter_one dedup_onto_append
        split: option.splits)
qed

lemma set_mapped_sites: "set (mapped_sites sites m) = {t. \<exists>s \<in> set sites. m s = Some t}"
  by (simp add: mapped_sites_dedup set_map_filter)

lemma distinct_mapped_sites: "distinct (mapped_sites sites m)"
  by (simp add: mapped_sites_dedup distinct_dedup_onto)

lemma mapped_sites_Some: "distinct sites \<Longrightarrow> mapped_sites sites Some = sites"
  using map_filter_Some [of "\<lambda>x. x" sites] by (simp add: mapped_sites_dedup dedup_onto_id)

section \<open>Repeated edges: both branches keep first occurrences\<close>

lemma dedup_scan_dedup:
  "kept \<le> at \<Longrightarrow> at \<le> length xs \<Longrightarrow>
   dedup_scan xs kept [at..<length xs] = dedup_onto (take kept xs) (drop at xs)"
proof (induction "length xs - at" arbitrary: xs kept at)
  case 0
  then show ?case by simp
next
  case (Suc d)
  then have lt: "at < length xs" by simp
  have d: "d = length ys - Suc at" if "length ys = length xs" for ys :: "'a list"
    using Suc.hyps(2) that by simp
  have up: "[at..<length xs] = at # [Suc at..<length xs]" using lt by (rule upt_conv_Cons)
  have dr: "drop at xs = xs ! at # drop (Suc at) xs" using lt by (rule Cons_nth_drop_Suc [symmetric])
  show ?case
  proof (cases "xs ! at \<in> set (take kept xs)")
    case True
    with Suc.hyps(1) [OF d [OF refl], of kept] Suc.prems lt show ?thesis by (simp add: up dr Let_def)
  next
    case False
    let ?ys = "xs[kept := xs ! at]"
    have k: "kept < length xs" using Suc.prems lt by simp
    have "dedup_scan ?ys (Suc kept) [Suc at..<length ?ys]
        = dedup_onto (take (Suc kept) ?ys) (drop (Suc at) ?ys)"
      using Suc.prems lt by (intro Suc.hyps(1) d) simp_all
    moreover have "take (Suc kept) ?ys = take kept xs @ [xs ! at]"
      using k by (simp add: take_Suc_conv_app_nth)
    moreover have "drop (Suc at) ?ys = drop (Suc at) xs" using Suc.prems by (simp add: drop_update_cancel)
    ultimately show ?thesis using False by (simp add: up dr Let_def)
  qed
qed

lemma dedup_retain_dedup: "acc @ dedup_retain (set acc) xs = dedup_onto acc xs"
proof (induction xs arbitrary: acc)
  case (Cons x xs)
  show ?case
    using Cons.IH [of acc] Cons.IH [of "acc @ [x]"] by (cases "x \<in> set acc") simp_all
qed simp

lemma dedup_edges_eq: "dedup_edges edges = dedup_onto [] edges"
proof (cases "length edges < 2")
  case True
  then show ?thesis by (cases edges) (auto simp: dedup_edges_def)
next
  case False
  then show ?thesis
    using dedup_scan_dedup [of 0 0 edges] dedup_retain_dedup [of "[]" edges]
    by (simp add: dedup_edges_def)
qed

section \<open>Properties\<close>

text \<open>Removing repeated edges, by the in-place scan or by the hashed set depending on the
  length, gives the same result: the first occurrence of each edge, in order.\<close>

theorem dedup_edges_first_occurrences:
  "dedup_edges edges = dedup_onto [] edges \<and> distinct (dedup_edges edges) \<and>
   set (dedup_edges edges) = set edges"
  by (simp add: dedup_edges_eq distinct_dedup_onto)

text \<open>The sites of one invocation through a site mapping are exactly the images of the mapped
  sites, each listed once, in the order of the first site that gives it.\<close>

theorem mapped_sites_correct:
  "set (mapped_sites sites m) = {t. \<exists>s \<in> set sites. m s = Some t} \<and> distinct (mapped_sites sites m) \<and>
   mapped_sites sites m = dedup_onto [] (List.map_filter m sites)"
  by (intro conjI set_mapped_sites distinct_mapped_sites mapped_sites_dedup)

end
