(* ===== verification/Cfg_Order.thy ===== *)
theory Cfg_Order
  imports Cfg
begin

text \<open>
  Splicing events out of a block's local order (\<^verbatim>\<open>splice_order\<close> of
  \<^verbatim>\<open>trace-ir/src/cfg.rs\<close>). The code keeps the pairs in one growing vector with tombstones,
  two index vectors and a set of live pairs; \<open>splice_state_ok\<close> ties them together. The
  abstract specification is \<open>splice_rel\<close> on relations; the detailed step refines it, and
  splicing any number of events keeps every order fact between the events that stay.
\<close>

section \<open>The implementation\<close>

type_synonym event_pair = "EventId \<times> EventId"

record SpliceState =
  ss_pairs :: "event_pair option list"
  ss_outgoing :: "nat list list"
  ss_incoming :: "nat list list"
  ss_live :: "event_pair set"

definition push_at :: "'a list list \<Rightarrow> nat \<Rightarrow> 'a \<Rightarrow> 'a list list option" where
  "push_at xss i v = do { row \<leftarrow> vget xss i; vset xss i (row @ [v]) }"

definition splice_index :: "SpliceState \<Rightarrow> nat \<times> event_pair \<Rightarrow> SpliceState option" where
  "splice_index st ip = (case ip of (i, a, b) \<Rightarrow> do {
     out \<leftarrow> push_at (ss_outgoing st) a i;
     inc \<leftarrow> push_at (ss_incoming st) b i;
     Some (st\<lparr>ss_outgoing := out, ss_incoming := inc, ss_live := insert (a, b) (ss_live st)\<rparr>) })"

definition splice_take :: "SpliceState \<Rightarrow> nat \<Rightarrow> SpliceState option" where
  "splice_take st i = do {
     p \<leftarrow> vget (ss_pairs st) i;
     (case p of None \<Rightarrow> Some st
      | Some pair \<Rightarrow> Some (st\<lparr>ss_pairs := (ss_pairs st)[i := None], ss_live := ss_live st - {pair}\<rparr>)) }"

definition splice_add :: "SpliceState \<Rightarrow> event_pair \<Rightarrow> SpliceState option" where
  "splice_add st pair =
     (if pair \<in> ss_live st then Some st
      else do {
        out \<leftarrow> push_at (ss_outgoing st) (fst pair) (length (ss_pairs st));
        inc \<leftarrow> push_at (ss_incoming st) (snd pair) (length (ss_pairs st));
        Some (st\<lparr>ss_pairs := ss_pairs st @ [Some pair], ss_outgoing := out, ss_incoming := inc,
          ss_live := insert pair (ss_live st)\<rparr>) })"

definition splice_event :: "SpliceState \<Rightarrow> nat \<times> EventId option \<Rightarrow> SpliceState option" where
  "splice_event st slot = (case slot of (old, new) \<Rightarrow>
     if new \<noteq> None then Some st
     else do {
       inc \<leftarrow> vget (ss_incoming st) old;
       out \<leftarrow> vget (ss_outgoing st) old;
       ins \<leftarrow> mapM (vget (ss_pairs st)) inc;
       outs \<leftarrow> mapM (vget (ss_pairs st)) out;
       st1 \<leftarrow> foldM splice_take st (inc @ out);
       inc' \<leftarrow> vset (ss_incoming st1) old [];
       out' \<leftarrow> vset (ss_outgoing st1) old [];
       foldM splice_add (st1\<lparr>ss_incoming := inc', ss_outgoing := out'\<rparr>)
         (List.product (map fst (List.map_filter id ins)) (map snd (List.map_filter id outs))) })"

definition splice_order :: "event_pair list \<Rightarrow> EventId option list \<Rightarrow> event_pair list option" where
  "splice_order order renumber = do {
     st \<leftarrow> foldM splice_index
       \<lparr>ss_pairs = map Some order, ss_outgoing = replicate (length renumber) [],
        ss_incoming = replicate (length renumber) [], ss_live = {}\<rparr> (List.enumerate 0 order);
     st' \<leftarrow> foldM splice_event st (List.enumerate 0 renumber);
     Some (List.map_filter id (ss_pairs st')) }"

section \<open>The abstract specification\<close>

definition splice_rel :: "'a \<Rightarrow> ('a \<times> 'a) set \<Rightarrow> ('a \<times> 'a) set" where
  "splice_rel v r = {(a, b) \<in> r. a \<noteq> v \<and> b \<noteq> v} \<union> {(a, b). (a, v) \<in> r \<and> (v, b) \<in> r}"

definition bypassed :: "'a \<Rightarrow> ('a \<times> 'a) set \<Rightarrow> bool" where
  "bypassed v r \<longleftrightarrow> (\<forall>a b. (a, v) \<in> r \<longrightarrow> (v, b) \<in> r \<longrightarrow> (a, b) \<in> r)"

lemma bypassed_splice_rel: "bypassed v (splice_rel v r)"
  by (auto simp: bypassed_def splice_rel_def)

lemma bypassed_splice_rel_other: "bypassed v r \<Longrightarrow> bypassed v (splice_rel w r)"
  unfolding bypassed_def splice_rel_def by blast

lemma splice_rel_subset: "splice_rel v r \<subseteq> r\<^sup>+"
  by (auto simp: splice_rel_def intro: trancl_into_trancl)

text \<open>A path that avoids a set of nodes at its ends can step over the nodes of the set.\<close>

lemma step_over:
  assumes ab: "(a, b) \<in> r\<^sup>+" and a: "a \<notin> d"
    and over: "\<And>p v c. (p, v) \<in> r \<Longrightarrow> v \<in> d \<Longrightarrow> (v, c) \<in> r \<Longrightarrow> p \<notin> d \<Longrightarrow> c \<notin> d \<Longrightarrow> (p, c) \<in> s"
    and loop: "\<And>p v c. (p, v) \<in> r \<Longrightarrow> v \<in> d \<Longrightarrow> (v, c) \<in> r \<Longrightarrow> p \<notin> d \<Longrightarrow> c \<in> d \<Longrightarrow> (p, c) \<in> r"
    and keep: "\<And>p c. (p, c) \<in> r \<Longrightarrow> p \<notin> d \<Longrightarrow> c \<notin> d \<Longrightarrow> (p, c) \<in> s"
  shows "if b \<in> d then \<exists>p. p \<notin> d \<and> (a, p) \<in> s\<^sup>* \<and> (p, b) \<in> r else (a, b) \<in> s\<^sup>+"
  using ab
proof (induction rule: trancl_induct)
  case (base c)
  then show ?case using a keep by auto
next
  case (step b c)
  show ?case
  proof (cases "b \<in> d")
    case True
    with step.IH obtain p where "p \<notin> d" "(a, p) \<in> s\<^sup>*" "(p, b) \<in> r" by auto
    with True step.hyps(2) over loop show ?thesis by (auto intro: rtrancl_into_trancl1)
  next
    case False
    with step.IH have "(a, b) \<in> s\<^sup>+" by simp
    with False step.hyps(2) keep show ?thesis
      by (auto intro: trancl_into_trancl dest: trancl_into_rtrancl)
  qed
qed

lemma splice_rel_trancl:
  assumes "a \<noteq> v" "b \<noteq> v"
  shows "(a, b) \<in> (splice_rel v r)\<^sup>+ \<longleftrightarrow> (a, b) \<in> r\<^sup>+"
proof
  assume "(a, b) \<in> (splice_rel v r)\<^sup>+"
  then have "(a, b) \<in> (r\<^sup>+)\<^sup>+" using splice_rel_subset by (rule trancl_mono)
  then show "(a, b) \<in> r\<^sup>+" by simp
next
  assume "(a, b) \<in> r\<^sup>+"
  from step_over [OF this, of "{v}" "splice_rel v r"] assms
  show "(a, b) \<in> (splice_rel v r)\<^sup>+" by (auto simp: splice_rel_def)
qed

lemma bypassed_restrict:
  assumes byp: "\<And>v. v \<in> d \<Longrightarrow> bypassed v r" and "a \<notin> d" "b \<notin> d"
  shows "(a, b) \<in> (r \<inter> (- d) \<times> (- d))\<^sup>+ \<longleftrightarrow> (a, b) \<in> r\<^sup>+"
proof
  assume "(a, b) \<in> (r \<inter> (- d) \<times> (- d))\<^sup>+"
  then show "(a, b) \<in> r\<^sup>+" by (rule trancl_mono) simp
next
  assume "(a, b) \<in> r\<^sup>+"
  moreover have "(p, c) \<in> r" if "(p, v) \<in> r" "v \<in> d" "(v, c) \<in> r" for p v c
    using byp [OF that(2)] that(1,3) by (auto simp: bypassed_def)
  ultimately have "if b \<in> d then \<exists>p. p \<notin> d \<and> (a, p) \<in> (r \<inter> (- d) \<times> (- d))\<^sup>* \<and> (p, b) \<in> r
      else (a, b) \<in> (r \<inter> (- d) \<times> (- d))\<^sup>+"
    using assms(2) by (intro step_over) simp_all
  with assms(3) show "(a, b) \<in> (r \<inter> (- d) \<times> (- d))\<^sup>+" by simp
qed

lemma splice_all_trancl:
  assumes "a \<notin> set vs" "b \<notin> set vs"
  shows "(a, b) \<in> (foldl (\<lambda>r v. splice_rel v r) r vs)\<^sup>+ \<longleftrightarrow> (a, b) \<in> r\<^sup>+"
  using assms by (induction vs arbitrary: r) (auto simp: splice_rel_trancl)

lemma splice_all_bypassed_keep:
  "bypassed v r \<Longrightarrow> bypassed v (foldl (\<lambda>r v. splice_rel v r) r vs)"
  by (induction vs arbitrary: r) (auto simp: bypassed_splice_rel_other)

lemma splice_all_bypassed:
  "v \<in> set vs \<Longrightarrow> bypassed v (foldl (\<lambda>r v. splice_rel v r) r vs)"
  by (induction vs arbitrary: r) (auto simp: bypassed_splice_rel splice_all_bypassed_keep)

section \<open>The implementation refines the specification\<close>

definition live_pairs :: "SpliceState \<Rightarrow> event_pair set" where
  "live_pairs st = {p. Some p \<in> set (ss_pairs st)}"

text \<open>
  \<open>index_ok end n pairs rows\<close>: row \<open>e\<close> lists the position of every live pair whose
  \<open>end\<close> is \<open>e\<close>, and only positions of such pairs or of tombstones.
\<close>

definition index_ok :: "('p \<Rightarrow> nat) \<Rightarrow> nat \<Rightarrow> 'p option list \<Rightarrow> nat list list \<Rightarrow> bool" where
  "index_ok side n pairs rows \<longleftrightarrow> length rows = n \<and>
     (\<forall>i < length pairs. \<forall>p. pairs ! i = Some p \<longrightarrow> side p < n \<and> i \<in> set (rows ! side p)) \<and>
     (\<forall>e < n. \<forall>i \<in> set (rows ! e).
        i < length pairs \<and> (\<forall>p. pairs ! i = Some p \<longrightarrow> side p = e))"

definition splice_state_ok :: "nat \<Rightarrow> SpliceState \<Rightarrow> bool" where
  "splice_state_ok n st \<longleftrightarrow> ss_live st = live_pairs st \<and>
     index_ok fst n (ss_pairs st) (ss_outgoing st) \<and> index_ok snd n (ss_pairs st) (ss_incoming st)"

lemma push_at_in: "i < length xss \<Longrightarrow> push_at xss i v = Some (xss[i := xss ! i @ [v]])"
  by (simp add: push_at_def vec_simps)

lemma index_ok_length: "index_ok side n pairs rows \<Longrightarrow> length rows = n"
  by (simp add: index_ok_def)

lemma index_okD:
  assumes "index_ok side n pairs rows"
  shows "i < length pairs \<Longrightarrow> pairs ! i = Some p \<Longrightarrow> side p < n"
    and "i < length pairs \<Longrightarrow> pairs ! i = Some p \<Longrightarrow> i \<in> set (rows ! side p)"
    and "e < n \<Longrightarrow> i \<in> set (rows ! e) \<Longrightarrow> i < length pairs"
    and "e < n \<Longrightarrow> i \<in> set (rows ! e) \<Longrightarrow> pairs ! i = Some p \<Longrightarrow> side p = e"
  using assms by (simp_all add: index_ok_def)

lemma index_okI:
  assumes "length rows = n"
    and "\<And>i p. i < length pairs \<Longrightarrow> pairs ! i = Some p \<Longrightarrow> side p < n \<and> i \<in> set (rows ! side p)"
    and "\<And>e i. e < n \<Longrightarrow> i \<in> set (rows ! e) \<Longrightarrow> i < length pairs"
    and "\<And>e i p. e < n \<Longrightarrow> i \<in> set (rows ! e) \<Longrightarrow> pairs ! i = Some p \<Longrightarrow> side p = e"
  shows "index_ok side n pairs rows"
  using assms by (simp add: index_ok_def)

lemma index_ok_push:
  assumes ok: "index_ok side n pairs rows" and q: "side q < n"
  shows "index_ok side n (pairs @ [Some q]) (rows[side q := rows ! side q @ [length pairs]])"
proof (rule index_okI)
  note len = index_ok_length [OF ok]
  show "length (rows[side q := rows ! side q @ [length pairs]]) = n" by (simp add: len)
  show "side p < n \<and> i \<in> set (rows[side q := rows ! side q @ [length pairs]] ! side p)"
    if "i < length (pairs @ [Some q])" "(pairs @ [Some q]) ! i = Some p" for i p
    using that index_okD(1,2) [OF ok, of i p] q
    by (cases "i = length pairs") (auto simp: nth_append nth_list_update len)
  have row: "i \<in> set (rows ! e) \<or> e = side q \<and> i = length pairs"
    if "i \<in> set (rows[side q := rows ! side q @ [length pairs]] ! e)" for e i
    using that q len by (cases "e = side q") auto
  show "i < length (pairs @ [Some q])"
    if "e < n" "i \<in> set (rows[side q := rows ! side q @ [length pairs]] ! e)" for e i
    using row [OF that(2)] index_okD(3) [OF ok that(1), of i] by (auto simp: less_Suc_eq)
  show "side p = e"
    if "e < n" "i \<in> set (rows[side q := rows ! side q @ [length pairs]] ! e)"
      "(pairs @ [Some q]) ! i = Some p" for e i p
    using row [OF that(2)] index_okD(3,4) [OF ok that(1)] that(3) by (auto simp: nth_append)
qed

lemma index_ok_row:
  assumes ok: "index_ok side n pairs rows" and e: "e < n"
  shows "(\<exists>i \<in> set (rows ! e). pairs ! i = Some p) \<longleftrightarrow> Some p \<in> set pairs \<and> side p = e"
proof
  assume "\<exists>i \<in> set (rows ! e). pairs ! i = Some p"
  then show "Some p \<in> set pairs \<and> side p = e"
    using index_okD(3,4) [OF ok e] by (metis nth_mem)
next
  assume "Some p \<in> set pairs \<and> side p = e"
  then show "\<exists>i \<in> set (rows ! e). pairs ! i = Some p"
    using index_okD(2) [OF ok] by (auto simp: in_set_conv_nth)
qed

lemma index_ok_remove:
  assumes ok: "index_ok side n pairs rows" and len: "length pairs' = length pairs"
    and sub: "\<And>i p. i < length pairs \<Longrightarrow> pairs' ! i = Some p \<Longrightarrow> pairs ! i = Some p"
    and ne: "\<And>i p. i < length pairs \<Longrightarrow> pairs' ! i = Some p \<Longrightarrow> side p \<noteq> v"
  shows "index_ok side n pairs' (rows[v := []])"
proof (rule index_okI)
  note lr = index_ok_length [OF ok]
  show "length (rows[v := []]) = n" by (simp add: lr)
  show "side p < n \<and> i \<in> set (rows[v := []] ! side p)"
    if "i < length pairs'" "pairs' ! i = Some p" for i p
    using that sub [of i p] ne [of i p] index_okD(1,2) [OF ok, of i p] len by simp
  show "i < length pairs'" if "e < n" "i \<in> set (rows[v := []] ! e)" for e i
    using that index_okD(3) [OF ok, of e i] len by (cases "e = v") (simp_all add: lr)
  show "side p = e" if "e < n" "i \<in> set (rows[v := []] ! e)" "pairs' ! i = Some p" for e i p
    using that index_okD(3,4) [OF ok, of e i] sub [of i p] by (cases "e = v") (simp_all add: lr)
qed

lemma splice_add_ok:
  assumes ok: "splice_state_ok n st" and p: "fst p < n" "snd p < n"
  shows "\<exists>st'. splice_add st p = Some st' \<and> splice_state_ok n st' \<and>
    live_pairs st' = insert p (live_pairs st)"
proof (cases "p \<in> ss_live st")
  case True
  then show ?thesis using ok by (auto simp: splice_add_def splice_state_ok_def)
next
  case False
  have "length (ss_outgoing st) = n" "length (ss_incoming st) = n"
    using ok by (auto simp: splice_state_ok_def dest: index_ok_length)
  then show ?thesis
    using False ok p
    by (auto simp: splice_add_def splice_state_ok_def push_at_in index_ok_push live_pairs_def)
qed

lemma splice_add_all_ok:
  assumes "splice_state_ok n st" and "\<And>p. p \<in> set ps \<Longrightarrow> fst p < n \<and> snd p < n"
  shows "\<exists>st'. foldM splice_add st ps = Some st' \<and> splice_state_ok n st' \<and>
    live_pairs st' = live_pairs st \<union> set ps"
  using assms
proof (induction ps arbitrary: st)
  case (Cons p ps)
  from splice_add_ok [OF Cons.prems(1), of p] Cons.prems(2) obtain st1
    where st1: "splice_add st p = Some st1" "splice_state_ok n st1" "live_pairs st1 = insert p (live_pairs st)"
    by auto
  from Cons.IH [OF st1(2)] Cons.prems(2) obtain st2
    where "foldM splice_add st1 ps = Some st2" "splice_state_ok n st2"
      "live_pairs st2 = live_pairs st1 \<union> set ps" by auto
  with st1 show ?case by auto
qed simp

definition tombstoned :: "SpliceState \<Rightarrow> nat list \<Rightarrow> SpliceState" where
  "tombstoned st is = st\<lparr>
     ss_pairs := map (\<lambda>i. if i \<in> set is then None else ss_pairs st ! i) [0..<length (ss_pairs st)],
     ss_live := ss_live st - {p. \<exists>i \<in> set is. ss_pairs st ! i = Some p}\<rparr>"

lemma splice_take_all:
  assumes "\<And>i. i \<in> set is \<Longrightarrow> i < length (ss_pairs st)"
  shows "foldM splice_take st is = Some (tombstoned st is)"
  using assms
proof (induction "is" rule: rev_induct)
  case Nil
  have "map ((!) (ss_pairs st)) [0..<length (ss_pairs st)] = ss_pairs st" by (rule map_nth)
  then show ?case by (simp add: tombstoned_def)
next
  case (snoc i "is")
  then have IH: "foldM splice_take st is = Some (tombstoned st is)" and i: "i < length (ss_pairs st)"
    by auto
  let ?pairs = "\<lambda>is. map (\<lambda>i. if i \<in> set is then None else ss_pairs st ! i) [0..<length (ss_pairs st)]"
  have upd: "(?pairs is)[i := None] = ?pairs (is @ [i])"
    using i by (intro nth_equalityI) (simp_all add: nth_list_update)
  have "splice_take (tombstoned st is) i = Some (tombstoned st (is @ [i]))"
  proof (cases "?pairs is ! i")
    case None
    then have "?pairs (is @ [i]) = ?pairs is" using upd i by (metis list_update_id)
    moreover have "(\<exists>j \<in> set (is @ [i]). ss_pairs st ! j = Some p) =
        (\<exists>j \<in> set is. ss_pairs st ! j = Some p)" for p
      using None i by (auto split: if_splits)
    ultimately show ?thesis using None i by (simp add: splice_take_def tombstoned_def vec_simps)
  next
    case (Some p)
    then have "ss_pairs st ! i = Some p" using i by (auto split: if_splits)
    then have "ss_live st - {p. \<exists>j \<in> set is. ss_pairs st ! j = Some p} - {p}
        = ss_live st - {p. \<exists>j \<in> set (is @ [i]). ss_pairs st ! j = Some p}" by auto
    with Some upd i show ?thesis by (simp add: splice_take_def tombstoned_def vec_simps)
  qed
  with IH show ?case by (simp add: foldM_append)
qed

lemma tombstoned_ok:
  assumes ok: "splice_state_ok n st" and v: "v < n"
    and rows: "is = ss_incoming st ! v @ ss_outgoing st ! v"
  defines "st' \<equiv> (tombstoned st is)\<lparr>ss_incoming := (ss_incoming st)[v := []],
      ss_outgoing := (ss_outgoing st)[v := []]\<rparr>"
  shows "splice_state_ok n st'"
    and "live_pairs st' = {p \<in> live_pairs st. fst p \<noteq> v \<and> snd p \<noteq> v}"
proof -
  have out: "index_ok fst n (ss_pairs st) (ss_outgoing st)"
    and inc: "index_ok snd n (ss_pairs st) (ss_incoming st)"
    using ok by (simp_all add: splice_state_ok_def)
  have gone: "(\<exists>i \<in> set is. ss_pairs st ! i = Some p) \<longleftrightarrow>
      Some p \<in> set (ss_pairs st) \<and> (fst p = v \<or> snd p = v)" for p
    using index_ok_row [OF out v, of p] index_ok_row [OF inc v, of p] by (auto simp: rows)
  have pairs: "ss_pairs st' = map (\<lambda>i. if i \<in> set is then None else ss_pairs st ! i) [0..<length (ss_pairs st)]"
    by (simp add: st'_def tombstoned_def)
  have stay: "ss_pairs st' ! i = Some p \<longleftrightarrow> ss_pairs st ! i = Some p \<and> fst p \<noteq> v \<and> snd p \<noteq> v"
    if "i < length (ss_pairs st)" for i p
    using that gone [of p] index_okD(2) [OF out that, of p] index_okD(2) [OF inc that, of p]
    by (auto simp: pairs rows)
  have len: "length (ss_pairs st') = length (ss_pairs st)" by (simp add: pairs)
  show live: "live_pairs st' = {p \<in> live_pairs st. fst p \<noteq> v \<and> snd p \<noteq> v}"
    unfolding live_pairs_def in_set_conv_nth len using stay by auto
  have "ss_live st' = live_pairs st - {p. \<exists>i \<in> set is. ss_pairs st ! i = Some p}"
    using ok by (simp add: st'_def tombstoned_def splice_state_ok_def)
  then have "ss_live st' = live_pairs st'"
    unfolding gone live by (auto simp: live_pairs_def)
  moreover have "index_ok fst n (ss_pairs st') (ss_outgoing st')"
    using index_ok_remove [OF out len] stay by (simp add: st'_def)
  moreover have "index_ok snd n (ss_pairs st') (ss_incoming st')"
    using index_ok_remove [OF inc len] stay by (simp add: st'_def)
  ultimately show "splice_state_ok n st'" by (simp add: splice_state_ok_def)
qed

lemma set_collected: "set (map f (List.map_filter id (map g xs))) = f ` {p. \<exists>i \<in> set xs. g i = Some p}"
  by (force simp: set_map_filter)

lemma splice_event_ok:
  assumes ok: "splice_state_ok n st" and v: "v < n"
  shows "\<exists>st'. splice_event st (v, None) = Some st' \<and> splice_state_ok n st' \<and>
    live_pairs st' = splice_rel v (live_pairs st)"
proof -
  have out: "index_ok fst n (ss_pairs st) (ss_outgoing st)"
    and inc: "index_ok snd n (ss_pairs st) (ss_incoming st)"
    using ok by (simp_all add: splice_state_ok_def)
  note len = index_ok_length [OF out] index_ok_length [OF inc]
  let ?inc = "ss_incoming st ! v" and ?out = "ss_outgoing st ! v"
  let ?at = "(!) (ss_pairs st)"
  let ?preds = "map fst (List.map_filter id (map ?at ?inc))"
  let ?succs = "map snd (List.map_filter id (map ?at ?out))"
  have in_range: "i < length (ss_pairs st)" if "i \<in> set (?inc @ ?out)" for i
    using that index_okD(3) [OF out v] index_okD(3) [OF inc v] by auto
  have reads: "mapM (vget (ss_pairs st)) ?inc = Some (map ?at ?inc)"
      "mapM (vget (ss_pairs st)) ?out = Some (map ?at ?out)"
    using in_range by (auto intro!: mapM_total vget_in)
  have preds: "set ?preds = {a. (a, v) \<in> live_pairs st}"
    unfolding set_collected index_ok_row [OF inc v] by (force simp: live_pairs_def)
  have succs: "set ?succs = {b. (v, b) \<in> live_pairs st}"
    unfolding set_collected index_ok_row [OF out v] by (force simp: live_pairs_def)
  have bound: "fst p < n \<and> snd p < n" if "p \<in> live_pairs st" for p
    using that index_okD(1) [OF out, where p = p] index_okD(1) [OF inc, where p = p]
    by (auto simp: live_pairs_def in_set_conv_nth)
  let ?st = "(tombstoned st (?inc @ ?out))\<lparr>ss_incoming := (ss_incoming st)[v := []],
      ss_outgoing := (ss_outgoing st)[v := []]\<rparr>"
  have "fst p < n \<and> snd p < n" if "p \<in> set (List.product ?preds ?succs)" for p
    using that preds succs bound by force
  from splice_add_all_ok [OF tombstoned_ok(1) [OF ok v refl] this]
  obtain st' where st': "foldM splice_add ?st (List.product ?preds ?succs) = Some st'"
      "splice_state_ok n st'" "live_pairs st' = live_pairs ?st \<union> set (List.product ?preds ?succs)"
    by blast
  have "live_pairs st' = splice_rel v (live_pairs st)"
    using st'(3) tombstoned_ok(2) [OF ok v refl] preds succs by (auto simp: splice_rel_def)
  moreover have "splice_event st (v, None) = Some st'"
    using st'(1) v len splice_take_all [of "?inc @ ?out" st] in_range
    by (simp add: splice_event_def reads vec_simps tombstoned_def)
  ultimately show ?thesis using st'(2) by blast
qed

section \<open>The whole loop\<close>

definition dropped_events :: "EventId option list \<Rightarrow> EventId list" where
  "dropped_events renumber = filter (\<lambda>e. renumber ! e = None) [0..<length renumber]"

lemma dropped_events_enumerate:
  "dropped_events renumber = map fst (filter (\<lambda>s. snd s = None) (List.enumerate 0 renumber))"
proof (induction renumber rule: rev_induct)
  case (snoc x xs)
  have "filter (\<lambda>e. (xs @ [x]) ! e = None) [0..<length xs] = dropped_events xs"
    unfolding dropped_events_def by (rule filter_cong) (simp_all add: nth_append)
  with snoc show ?case by (simp add: dropped_events_def enumerate_append_eq)
qed (simp add: dropped_events_def)

lemma splice_events_ok:
  assumes "splice_state_ok n st" and "\<And>s. s \<in> set slots \<Longrightarrow> fst s < n"
  shows "\<exists>st'. foldM splice_event st slots = Some st' \<and> splice_state_ok n st' \<and>
    live_pairs st' = foldl (\<lambda>r v. splice_rel v r) (live_pairs st)
      (map fst (filter (\<lambda>s. snd s = None) slots))"
  using assms
proof (induction slots arbitrary: st)
  case (Cons s slots)
  obtain v new where s: "s = (v, new)" by (cases s)
  show ?case
  proof (cases new)
    case None
    from splice_event_ok [OF Cons.prems(1), of v] Cons.prems(2) [of s] s obtain st1
      where st1: "splice_event st (v, None) = Some st1" "splice_state_ok n st1"
        "live_pairs st1 = splice_rel v (live_pairs st)" by auto
    with Cons.IH [OF st1(2)] Cons.prems(2) s None show ?thesis by auto
  next
    case (Some x)
    with Cons.IH [OF Cons.prems(1)] Cons.prems(2) s show ?thesis by (auto simp: splice_event_def)
  qed
qed simp

text \<open>The indexing loop establishes the state invariant: \<open>k\<close> pairs have been indexed.\<close>

definition indexed :: "nat \<Rightarrow> event_pair list \<Rightarrow> SpliceState \<Rightarrow> bool" where
  "indexed n order st \<longleftrightarrow> ss_live st = set order \<and>
     index_ok fst n (map Some order) (ss_outgoing st) \<and> index_ok snd n (map Some order) (ss_incoming st)"

lemma index_ok_empty: "index_ok side n [] (replicate n [])"
  by (simp add: index_ok_def)

lemma splice_index_all:
  assumes "\<And>a b. (a, b) \<in> set order \<Longrightarrow> a < n \<and> b < n"
    and "ss_outgoing st = replicate n []" "ss_incoming st = replicate n []" "ss_live st = {}"
  shows "\<exists>st'. foldM splice_index st (List.enumerate 0 order) = Some st' \<and>
    ss_pairs st' = ss_pairs st \<and> indexed n order st'"
  using assms(1)
proof (induction order rule: rev_induct)
  case Nil
  then show ?case using assms(2-4) by (auto simp: indexed_def index_ok_empty)
next
  case (snoc p order)
  obtain a b where p: "p = (a, b)" by (cases p)
  have ab: "a < n" "b < n" using snoc.prems [of a b] p by auto
  from snoc.IH snoc.prems obtain st1 where st1: "foldM splice_index st (List.enumerate 0 order) = Some st1"
      "ss_pairs st1 = ss_pairs st" "indexed n order st1" by auto
  have out: "index_ok fst n (map Some order) (ss_outgoing st1)"
    and inc: "index_ok snd n (map Some order) (ss_incoming st1)"
    using st1(3) by (simp_all add: indexed_def)
  let ?st2 = "st1\<lparr>ss_outgoing := (ss_outgoing st1)[a := ss_outgoing st1 ! a @ [length order]],
      ss_incoming := (ss_incoming st1)[b := ss_incoming st1 ! b @ [length order]],
      ss_live := insert (a, b) (ss_live st1)\<rparr>"
  have "splice_index st1 (length order, p) = Some ?st2"
    using ab index_ok_length [OF out] index_ok_length [OF inc]
    by (simp add: splice_index_def push_at_in p)
  moreover have "indexed n (order @ [p]) ?st2"
    using ab st1(3) index_ok_push [OF out, of p] index_ok_push [OF inc, of p]
    by (simp add: indexed_def p)
  ultimately show ?case
    using st1(1,2) by (simp add: foldM_append enumerate_append_eq)
qed

lemma splice_order_refines:
  assumes "\<And>a b. (a, b) \<in> set order \<Longrightarrow> a < length renumber \<and> b < length renumber"
  shows "\<exists>out. splice_order order renumber = Some out \<and>
    set out = foldl (\<lambda>r v. splice_rel v r) (set order) (dropped_events renumber)"
proof -
  let ?n = "length renumber"
  let ?st = "\<lparr>ss_pairs = map Some order, ss_outgoing = replicate ?n [],
        ss_incoming = replicate ?n [], ss_live = {}\<rparr>"
  from splice_index_all [of order ?n ?st] assms obtain st1
    where st1: "foldM splice_index ?st (List.enumerate 0 order) = Some st1"
      "ss_pairs st1 = map Some order" "indexed ?n order st1" by auto
  then have live: "live_pairs st1 = set order" and ok: "splice_state_ok ?n st1"
    by (auto simp: live_pairs_def splice_state_ok_def indexed_def)
  have "fst s < ?n" if "s \<in> set (List.enumerate 0 renumber)" for s
    using that by (auto simp: in_set_enumerate_eq)
  from splice_events_ok [OF ok this] obtain st2
    where st2: "foldM splice_event st1 (List.enumerate 0 renumber) = Some st2"
      "live_pairs st2 = foldl (\<lambda>r v. splice_rel v r) (set order) (dropped_events renumber)"
    by (auto simp: live dropped_events_enumerate)
  moreover have "set (List.map_filter id (ss_pairs st2)) = live_pairs st2"
    by (auto simp: set_map_filter live_pairs_def)
  ultimately show ?thesis using st1(1) by (simp add: splice_order_def)
qed

section \<open>Properties\<close>

text \<open>C4: splicing events out of a local order never panics when the order names events of the
  graph, implements the relational specification that joins the predecessors of each spliced
  event to its successors, and keeps every sequenced-before fact between events that stay.\<close>

theorem splice_order_correct:
  assumes "list_all (\<lambda>(a, b). a < length renumber \<and> b < length renumber) order"
  shows "\<exists>out. splice_order order renumber = Some out \<and>
    set out = foldl (\<lambda>r v. splice_rel v r) (set order) (dropped_events renumber) \<and>
    (\<forall>a b. a \<notin> set (dropped_events renumber) \<longrightarrow> b \<notin> set (dropped_events renumber) \<longrightarrow>
       ((a, b) \<in> (set out)\<^sup>+ \<longleftrightarrow> (a, b) \<in> (set order)\<^sup>+))"
proof -
  have "\<And>a b. (a, b) \<in> set order \<Longrightarrow> a < length renumber \<and> b < length renumber"
    using assms by (auto simp: list_all_iff)
  from splice_order_refines [OF this] splice_all_trancl show ?thesis by metis
qed

theorem splice_order_correct_witness:
  "\<exists>out. splice_order [(0, 1), (1, 2)] [Some 0, None, Some 1] = Some out \<and>
     ((0, 2) \<in> (set out)\<^sup>+ \<longleftrightarrow> (0::nat, 2::nat) \<in> (set [(0, 1), (1, 2)])\<^sup>+)"
proof -
  have "0 \<notin> set (dropped_events [Some 0, None, Some (1::nat)])" "2 \<notin> set (dropped_events [Some 0, None, Some (1::nat)])"
    by (simp_all add: dropped_events_def)
  moreover have "list_all (\<lambda>(a, b). a < length [Some 0, None, Some (1::nat)] \<and>
      b < length [Some 0, None, Some (1::nat)]) [(0, 1), (1, 2)]" by simp
  from splice_order_correct [OF this] obtain out where
    out: "splice_order [(0, 1), (1, 2)] [Some 0, None, Some 1] = Some out" and
    kept: "\<forall>a b. a \<notin> set (dropped_events [Some 0, None, Some (1::nat)]) \<longrightarrow>
       b \<notin> set (dropped_events [Some 0, None, Some (1::nat)]) \<longrightarrow>
       ((a, b) \<in> (set out)\<^sup>+ \<longleftrightarrow> (a, b) \<in> (set [(0, 1), (1, 2)])\<^sup>+)"
    by (elim exE conjE) (rule that)
  ultimately show ?thesis by (intro exI [of _ out] conjI out kept [rule_format])
qed

end
