(* ===== verification/Cfg_Remap.thy ===== *)
theory Cfg_Remap
  imports Cfg_Order
begin

text \<open>
  \<^verbatim>\<open>FunctionCfg::remap\<close> (\<^verbatim>\<open>trace-ir/src/cfg.rs\<close>): a graph in another program's ids. An event
  none of whose sites is mapped is spliced out, the others are renumbered, and a gap marks
  each splice. On a well-formed graph the operation never panics, its result is well formed,
  and the events that stay keep their sequencing.
\<close>

section \<open>The operation\<close>

definition map_span :: "(FileId \<Rightarrow> FileId) \<Rightarrow> Span \<Rightarrow> Span" where
  "map_span map_file span = span\<lparr>sp_file := map_file (sp_file span)\<rparr>"

definition map_occurrence :: "(FileId \<Rightarrow> FileId) \<Rightarrow> CallOccurrence \<Rightarrow> CallOccurrence" where
  "map_occurrence map_file occ = occ\<lparr>occ_span := map_span map_file (occ_span occ),
     occ_expansion_span := map_option (map_span map_file) (occ_expansion_span occ)\<rparr>"

text \<open>The loop over the events: events kept, old index to new id, positions of those spliced out.\<close>

definition remap_event ::
  "(CallSiteId \<Rightarrow> CallSiteId option) \<Rightarrow> (FileId \<Rightarrow> FileId) \<Rightarrow>
   CallEvent list \<times> EventId option list \<times> Span list \<Rightarrow> CallEvent \<Rightarrow>
   CallEvent list \<times> EventId option list \<times> Span list" where
  "remap_event map_site map_file acc event = (case acc of (events, renumber, omitted) \<Rightarrow>
     let sites = mapped_sites (ev_sites event) map_site;
         occurrence = map_occurrence map_file (ev_occurrence event)
     in if sites = [] then (events, renumber @ [None], omitted @ [occ_span occurrence])
        else (events @ [\<lparr>ev_block = ev_block event, ev_kind = ev_kind event,
                ev_occurrence = occurrence, ev_sites = sites\<rparr>],
              renumber @ [Some (as_u32 (length events))], omitted))"

definition remap_pair :: "EventId option list \<Rightarrow> event_pair \<Rightarrow> event_pair option option" where
  "remap_pair renumber p = (case p of (a, b) \<Rightarrow>
     (case vget renumber a of
        None \<Rightarrow> None
      | Some None \<Rightarrow> Some None
      | Some (Some a') \<Rightarrow> map_option (map_option (\<lambda>b'. (a', b'))) (vget renumber b)))"

definition remap_block ::
  "(FileId \<Rightarrow> FileId) \<Rightarrow> EventId option list \<Rightarrow> Block \<Rightarrow> Block option" where
  "remap_block map_file renumber b = do {
     events \<leftarrow> filter_mapM (vget renumber) (blk_events b);
     Some \<lparr>blk_kind = blk_kind b, blk_span = map_option (map_span map_file) (blk_span b),
       blk_events = events\<rparr> }"

text \<open>
  The range shrinks to the events still in it. The code reads the first kept event from the
  front and the last from the back; between them the two walks read the end of a non-empty
  range, so they panic exactly when reading the whole range does.
\<close>

definition remap_range ::
  "EventId option list \<Rightarrow> EventId \<times> EventId \<Rightarrow> (EventId \<times> EventId) option option" where
  "remap_range renumber r = (case r of (lo, hi) \<Rightarrow> do {
     kept \<leftarrow> filter_mapM (vget renumber) [lo..<Suc hi];
     Some (if kept = [] then None else Some (hd kept, last kept)) })"

definition remap_gap :: "(FileId \<Rightarrow> FileId) \<Rightarrow> EventId option list \<Rightarrow> Gap \<Rightarrow> Gap option" where
  "remap_gap map_file renumber g = do {
     events \<leftarrow> (case gap_events g of None \<Rightarrow> Some None | Some r \<Rightarrow> remap_range renumber r);
     Some \<lparr>gap_kind = gap_kind g, gap_span = map_option (map_span map_file) (gap_span g),
       gap_events = events\<rparr> }"

definition omitted_gap :: "Span \<Rightarrow> Gap" where
  "omitted_gap span = \<lparr>gap_kind = OmittedSites, gap_span = Some span, gap_events = None\<rparr>"

definition remap ::
  "FunctionCfg \<Rightarrow> FnId \<Rightarrow> (CallSiteId \<Rightarrow> CallSiteId option) \<Rightarrow> (FileId \<Rightarrow> FileId) \<Rightarrow>
   FunctionCfg option" where
  "remap g function map_site map_file =
     (case foldl (remap_event map_site map_file) ([], [], []) (cfg_events g) of
        (events, renumber, omitted) \<Rightarrow> do {
          spliced \<leftarrow> (if omitted = [] then Some (cfg_order g) else splice_order (cfg_order g) renumber);
          order \<leftarrow> filter_mapM (remap_pair renumber) spliced;
          blocks \<leftarrow> mapM (remap_block map_file renumber) (cfg_blocks g);
          gaps \<leftarrow> mapM (remap_gap map_file renumber) (cfg_gaps g);
          Some \<lparr>cfg_function = function, cfg_tu = map_option map_file (cfg_tu g),
            cfg_variant = cfg_variant g, cfg_entry = cfg_entry g, cfg_exit = cfg_exit g,
            cfg_exceptional_exit = cfg_exceptional_exit g, cfg_blocks = blocks,
            cfg_edges = cfg_edges g, cfg_events = events, cfg_order = order,
            cfg_gaps = gaps @ map omitted_gap omitted\<rparr> })"

definition splices :: "FunctionCfg \<Rightarrow> (CallSiteId \<Rightarrow> CallSiteId option) \<Rightarrow> bool" where
  "splices g map_site = list_ex (\<lambda>e. mapped_sites (ev_sites e) map_site = []) (cfg_events g)"

section \<open>The renumbering\<close>

definition keeps :: "(CallSiteId \<Rightarrow> CallSiteId option) \<Rightarrow> CallEvent \<Rightarrow> bool" where
  "keeps map_site e \<longleftrightarrow> mapped_sites (ev_sites e) map_site \<noteq> []"

definition renumbering :: "('a \<Rightarrow> bool) \<Rightarrow> 'a list \<Rightarrow> nat option list" where
  "renumbering p xs = map (\<lambda>i. if p (xs ! i) then Some (rank p xs i) else None) [0..<length xs]"

definition remapped_event ::
  "(CallSiteId \<Rightarrow> CallSiteId option) \<Rightarrow> (FileId \<Rightarrow> FileId) \<Rightarrow> CallEvent \<Rightarrow> CallEvent" where
  "remapped_event map_site map_file e =
     \<lparr>ev_block = ev_block e, ev_kind = ev_kind e, ev_occurrence = map_occurrence map_file (ev_occurrence e),
      ev_sites = mapped_sites (ev_sites e) map_site\<rparr>"

lemma renumbering_snoc:
  "renumbering p (xs @ [x]) =
     renumbering p xs @ [if p x then Some (length (filter p xs)) else None]"
  by (simp add: renumbering_def rank_def nth_append)

lemma length_renumbering [simp]: "length (renumbering p xs) = length xs"
  by (simp add: renumbering_def)

lemma nth_renumbering:
  "i < length xs \<Longrightarrow> renumbering p xs ! i = (if p (xs ! i) then Some (rank p xs i) else None)"
  by (simp add: renumbering_def)

lemma remap_events_eq:
  "length es \<le> u32_max \<Longrightarrow> foldl (remap_event ms mf) ([], [], []) es =
     (map (remapped_event ms mf) (filter (keeps ms) es), renumbering (keeps ms) es,
      map (\<lambda>e. occ_span (map_occurrence mf (ev_occurrence e))) (filter (\<lambda>e. \<not> keeps ms e) es))"
proof (induction es rule: rev_induct)
  case Nil
  show ?case by (simp add: renumbering_def)
next
  case (snoc e es)
  have "as_u32 (length (filter (keeps ms) es)) = length (filter (keeps ms) es)"
    using snoc.prems by (intro as_u32_id order_trans [OF length_filter_le]) simp
  with snoc show ?case
    by (simp add: remap_event_def [of _ _ _ e] renumbering_snoc keeps_def [of ms e] remapped_event_def Let_def)
qed

text \<open>What the total part of the renumbering computes once every index is in range.\<close>

definition new_id :: "nat option list \<Rightarrow> nat \<Rightarrow> nat option" where
  "new_id renumber e = (if e < length renumber then renumber ! e else None)"

definition at_pair :: "nat option list \<Rightarrow> event_pair \<Rightarrow> event_pair option" where
  "at_pair renumber p =
     (case new_id renumber (fst p) of None \<Rightarrow> None
      | Some a \<Rightarrow> map_option (\<lambda>b. (a, b)) (new_id renumber (snd p)))"

definition at_range :: "nat option list \<Rightarrow> EventId \<times> EventId \<Rightarrow> (EventId \<times> EventId) option" where
  "at_range renumber r =
     (let kept = List.map_filter (new_id renumber) [fst r..<Suc (snd r)]
      in if kept = [] then None else Some (hd kept, last kept))"

definition at_block :: "(FileId \<Rightarrow> FileId) \<Rightarrow> nat option list \<Rightarrow> Block \<Rightarrow> Block" where
  "at_block map_file renumber b = \<lparr>blk_kind = blk_kind b,
     blk_span = map_option (map_span map_file) (blk_span b),
     blk_events = List.map_filter (new_id renumber) (blk_events b)\<rparr>"

definition at_gap :: "(FileId \<Rightarrow> FileId) \<Rightarrow> nat option list \<Rightarrow> Gap \<Rightarrow> Gap" where
  "at_gap map_file renumber g = \<lparr>gap_kind = gap_kind g,
     gap_span = map_option (map_span map_file) (gap_span g),
     gap_events = (case gap_events g of None \<Rightarrow> None | Some r \<Rightarrow> at_range renumber r)\<rparr>"

lemma at_renumbering:
  "new_id (renumbering p xs) e = Some k \<longleftrightarrow> e < length xs \<and> p (xs ! e) \<and> k = rank p xs e"
  by (auto simp: new_id_def nth_renumbering)

lemma at_renumbering_less: "new_id (renumbering p xs) e = Some k \<Longrightarrow> k < length (filter p xs)"
  by (auto simp: at_renumbering rank_less)

lemma at_renumbering_inj:
  "new_id (renumbering p xs) d = Some k \<Longrightarrow> new_id (renumbering p xs) e = Some k \<Longrightarrow> d = e"
  by (auto simp: at_renumbering dest: rank_inj)

lemma at_renumbering_surj: "k < length (filter p xs) \<Longrightarrow> \<exists>e. new_id (renumbering p xs) e = Some k"
  by (drule rank_surj) (auto simp: at_renumbering)

lemma vget_at: "e < length renumber \<Longrightarrow> vget renumber e = Some (new_id renumber e)"
  by (simp add: vget_def new_id_def)

lemma remap_pair_at:
  "fst p < length renumber \<Longrightarrow> snd p < length renumber \<Longrightarrow> remap_pair renumber p = Some (at_pair renumber p)"
  by (cases p) (auto simp: remap_pair_def at_pair_def vget_at split: option.splits)

lemma remap_block_at:
  assumes "\<And>e. e \<in> set (blk_events b) \<Longrightarrow> e < length renumber"
  shows "remap_block mf renumber b = Some (at_block mf renumber b)"
proof -
  have "filter_mapM (vget renumber) (blk_events b) = Some (List.map_filter (new_id renumber) (blk_events b))"
    using assms by (intro filter_mapM_total) (simp add: vget_at)
  then show ?thesis by (simp add: remap_block_def at_block_def)
qed

lemma remap_gap_at:
  assumes "gap_ok (length renumber) g"
  shows "remap_gap mf renumber g = Some (at_gap mf renumber g)"
proof (cases "gap_events g")
  case (Some r)
  have "filter_mapM (vget renumber) [fst r..<Suc (snd r)]
      = Some (List.map_filter (new_id renumber) [fst r..<Suc (snd r)])"
    using assms Some by (intro filter_mapM_total vget_at) (auto simp: gap_ok_def split: prod.splits)
  then have "remap_range renumber r = Some (at_range renumber r)"
    by (cases r) (simp add: remap_range_def at_range_def Let_def)
  with Some show ?thesis by (simp add: remap_gap_def at_gap_def)
qed (simp add: remap_gap_def at_gap_def)

section \<open>The result on a well-formed graph\<close>

lemma splice_rel_bounded:
  "(\<And>a b. (a, b) \<in> r \<Longrightarrow> a < n \<and> b < n) \<Longrightarrow> (a, b) \<in> foldl (\<lambda>r v. splice_rel v r) r vs \<Longrightarrow> a < n \<and> b < (n :: nat)"
proof (induction vs arbitrary: r)
  case (Cons v vs)
  have "a < n \<and> b < n" if "(a, b) \<in> splice_rel v r" for a b
    using that Cons.prems(1) by (auto simp: splice_rel_def)
  with Cons.IH [of "splice_rel v r"] Cons.prems(2) show ?case by simp
qed simp

lemma dropped_renumbering:
  "set (dropped_events (renumbering p xs)) = {e. e < length xs \<and> \<not> p (xs ! e)}"
  by (auto simp: dropped_events_def nth_renumbering)

definition remapped ::
  "FunctionCfg \<Rightarrow> FnId \<Rightarrow> (CallSiteId \<Rightarrow> CallSiteId option) \<Rightarrow> (FileId \<Rightarrow> FileId) \<Rightarrow>
   event_pair list \<Rightarrow> FunctionCfg" where
  "remapped g f ms mf spliced = (let renumber = renumbering (keeps ms) (cfg_events g) in
     \<lparr>cfg_function = f, cfg_tu = map_option mf (cfg_tu g), cfg_variant = cfg_variant g,
      cfg_entry = cfg_entry g, cfg_exit = cfg_exit g, cfg_exceptional_exit = cfg_exceptional_exit g,
      cfg_blocks = map (at_block mf renumber) (cfg_blocks g), cfg_edges = cfg_edges g,
      cfg_events = map (remapped_event ms mf) (filter (keeps ms) (cfg_events g)),
      cfg_order = List.map_filter (at_pair renumber) spliced,
      cfg_gaps = map (at_gap mf renumber) (cfg_gaps g) @
        map (\<lambda>e. omitted_gap (occ_span (map_occurrence mf (ev_occurrence e))))
          (filter (\<lambda>e. \<not> keeps ms e) (cfg_events g))\<rparr>)"

lemma remap_result:
  assumes wf: "wf_cfg g"
  shows "\<exists>spliced. remap g f ms mf = Some (remapped g f ms mf spliced) \<and>
    set spliced = foldl (\<lambda>r v. splice_rel v r) (set (cfg_order g))
      (dropped_events (renumbering (keeps ms) (cfg_events g))) \<and>
    (\<not> splices g ms \<longrightarrow> spliced = cfg_order g)"
proof -
  let ?es = "cfg_events g" and ?ren = "renumbering (keeps ms) (cfg_events g)"
  let ?gone = "filter (\<lambda>e. \<not> keeps ms e) ?es"
  have bounded: "a < length ?ren \<and> b < length ?ren" if "(a, b) \<in> set (cfg_order g)" for a b
    using wf_cfgD(6) [OF wf that] by simp
  have none: "dropped_events ?ren = []" if "?gone = []"
  proof -
    have "set (dropped_events ?ren) = {}"
      using that unfolding dropped_renumbering by (auto simp: filter_empty_conv)
    then show ?thesis by simp
  qed
  obtain spliced where spliced: "(if ?gone = [] then Some (cfg_order g) else splice_order (cfg_order g) ?ren)
        = Some spliced"
      "set spliced = foldl (\<lambda>r v. splice_rel v r) (set (cfg_order g)) (dropped_events ?ren)"
    using splice_order_refines [of "cfg_order g" ?ren] bounded none by (cases "?gone = []") auto
  have "fst p < length ?ren \<and> snd p < length ?ren" if "p \<in> set spliced" for p
    using that spliced(2) splice_rel_bounded [where r = "set (cfg_order g)", OF bounded, of "fst p" "snd p" "dropped_events ?ren"]
    by simp
  then have "filter_mapM (remap_pair ?ren) spliced = Some (List.map_filter (at_pair ?ren) spliced)"
    by (intro filter_mapM_total remap_pair_at) auto
  moreover have "mapM (remap_block mf ?ren) (cfg_blocks g) = Some (map (at_block mf ?ren) (cfg_blocks g))"
    using wf_cfgD(9) [OF wf] by (intro mapM_total remap_block_at) (auto simp: in_set_conv_nth [of _ "cfg_blocks g"])
  moreover have "mapM (remap_gap mf ?ren) (cfg_gaps g) = Some (map (at_gap mf ?ren) (cfg_gaps g))"
    using wf_cfgD(7) [OF wf] by (intro mapM_total remap_gap_at) simp
  moreover have "spliced = cfg_order g" if "\<not> splices g ms"
    using that spliced(1) by (auto simp: splices_def keeps_def list_ex_iff filter_empty_conv)
  ultimately show ?thesis
    using spliced by (intro exI [of _ spliced]) (simp add: remap_def remap_events_eq [OF wf_cfgD(11) [OF wf]] remapped_def Let_def o_def)
qed

section \<open>The result is well formed\<close>

lemma at_range_Some:
  assumes "at_range renumber r = Some s"
  shows "\<exists>e. new_id renumber e = Some (snd s)"
proof -
  let ?kept = "List.map_filter (new_id renumber) [fst r..<Suc (snd r)]"
  from assms have "?kept \<noteq> []" "snd s = last ?kept" by (auto simp: at_range_def Let_def split: if_splits)
  then have "snd s \<in> set ?kept" by (metis last_in_set)
  then show ?thesis unfolding set_map_filter by blast
qed

lemma at_gap_ok: "gap_ok (length (filter p xs)) (at_gap mf (renumbering p xs) g)"
proof (cases "gap_events (at_gap mf (renumbering p xs) g)")
  case (Some s)
  then obtain r where "at_range (renumbering p xs) r = Some s"
    by (auto simp: at_gap_def split: option.splits)
  then have "snd s < length (filter p xs)" by (metis at_range_Some at_renumbering_less)
  with Some show ?thesis by (cases s) (simp add: gap_ok_def)
qed (simp add: gap_ok_def)

lemma distinct_at: "distinct es \<Longrightarrow> distinct (List.map_filter (new_id (renumbering p xs)) es)"
  by (induction es) (auto simp: List.map_filter_def dest: at_renumbering_inj)

lemma remapped_wf:
  assumes wf: "wf_cfg g"
    and sp: "set spliced = foldl (\<lambda>r v. splice_rel v r) (set (cfg_order g)) vs"
  shows "wf_cfg (remapped g f ms mf spliced)"
proof (rule wf_cfgI)
  let ?es = "cfg_events g" and ?ren = "renumbering (keeps ms) (cfg_events g)"
  let ?kept = "filter (keeps ms) ?es"
  note [simp] = remapped_def Let_def
  note D = wf_cfgD [OF wf]
  show "length (cfg_events (remapped g f ms mf spliced)) \<le> u32_max"
    using D(11) by (simp add: order_trans [OF length_filter_le])
  show "cfg_entry (remapped g f ms mf spliced) < length (cfg_blocks (remapped g f ms mf spliced))"
    "cfg_exit (remapped g f ms mf spliced) < length (cfg_blocks (remapped g f ms mf spliced))"
    using D(1,2) by simp_all
  show "b < length (cfg_blocks (remapped g f ms mf spliced))"
    if "cfg_exceptional_exit (remapped g f ms mf spliced) = Some b" for b
    using that D(10) by simp
  show "e_from x < length (cfg_blocks (remapped g f ms mf spliced)) \<and>
      e_to x < length (cfg_blocks (remapped g f ms mf spliced))"
    if "x \<in> set (cfg_edges (remapped g f ms mf spliced))" for x
    using that D(3,4) by simp
  show "ev_block x < length (cfg_blocks (remapped g f ms mf spliced))"
    if "x \<in> set (cfg_events (remapped g f ms mf spliced))" for x
    using that D(5) by (auto simp: remapped_event_def in_set_conv_nth [of _ ?es])
  show "a < length (cfg_events (remapped g f ms mf spliced)) \<and>
      c < length (cfg_events (remapped g f ms mf spliced))"
    if "(a, c) \<in> set (cfg_order (remapped g f ms mf spliced))" for a c
    using that by (auto simp: set_map_filter at_pair_def split: option.splits dest: at_renumbering_less)
  show "gap_ok (length (cfg_events (remapped g f ms mf spliced))) y"
    if "y \<in> set (cfg_gaps (remapped g f ms mf spliced))" for y
    using that at_gap_ok by (auto simp: omitted_gap_def gap_ok_def)
  fix b assume b: "b < length (cfg_blocks (remapped g f ms mf spliced))"
  then show "distinct (blk_events (cfg_blocks (remapped g f ms mf spliced) ! b))"
    using distinct_at [OF D(8) [of b]] by (simp add: at_block_def)
  have ev: "ev_block (map (remapped_event ms mf) ?kept ! k) = ev_block (?es ! e)"
    if "new_id ?ren e = Some k" for e k
    using that at_renumbering_less [OF that] by (auto simp: at_renumbering remapped_event_def nth_filter_rank)
  have "(\<exists>e. e < length ?es \<and> ev_block (?es ! e) = b \<and> new_id ?ren e = Some k) \<longleftrightarrow>
      k < length ?kept \<and> ev_block (map (remapped_event ms mf) ?kept ! k) = b" for k
    using ev at_renumbering_less at_renumbering_surj [of k "keeps ms" ?es] by (metis at_renumbering)
  then show "set (blk_events (cfg_blocks (remapped g f ms mf spliced) ! b)) =
      {e. e < length (cfg_events (remapped g f ms mf spliced)) \<and>
        ev_block (cfg_events (remapped g f ms mf spliced) ! e) = b}"
    using b D(9) by (auto simp: at_block_def set_map_filter)
qed

section \<open>The result keeps the sequencing of the events that stay\<close>

lemma at_pair_Some:
  "at_pair renumber p = Some q \<longleftrightarrow> new_id renumber (fst p) = Some (fst q) \<and> new_id renumber (snd p) = Some (snd q)"
  by (cases q) (auto simp: at_pair_def split: option.splits)

lemma trancl_renamed:
  assumes inj: "\<And>d e k. \<phi> d = Some k \<Longrightarrow> \<phi> e = Some k \<Longrightarrow> d = e"
    and kept: "\<And>a b. (a, b) \<in> t \<Longrightarrow> \<phi> a \<noteq> None \<and> \<phi> b \<noteq> None"
    and s: "s = {(x, y). \<exists>a b. (a, b) \<in> t \<and> \<phi> a = Some x \<and> \<phi> b = Some y}"
    and ab: "\<phi> a = Some x" "\<phi> b = Some y"
  shows "(x, y) \<in> s\<^sup>+ \<longleftrightarrow> (a, b) \<in> t\<^sup>+"
proof
  assume "(x, y) \<in> s\<^sup>+"
  then have "\<exists>b. \<phi> b = Some y \<and> (a, b) \<in> t\<^sup>+"
  proof (induction rule: trancl_induct)
    case (base y)
    then show ?case using inj ab(1) unfolding s by blast
  next
    case (step y z)
    then obtain b where b: "\<phi> b = Some y" "(a, b) \<in> t\<^sup>+" by blast
    from step.hyps(2) inj b(1) obtain c where "(b, c) \<in> t" "\<phi> c = Some z" unfolding s by blast
    with b show ?case by (meson trancl_into_trancl)
  qed
  with inj ab(2) show "(a, b) \<in> t\<^sup>+" by blast
next
  assume "(a, b) \<in> t\<^sup>+"
  then have "\<forall>y. \<phi> b = Some y \<longrightarrow> (x, y) \<in> s\<^sup>+"
  proof (induction rule: trancl_induct)
    case (base b)
    then show ?case using ab(1) unfolding s by blast
  next
    case (step b c)
    from kept [OF step.hyps(2)] obtain y where y: "\<phi> b = Some y" by auto
    show ?case
    proof (intro allI impI)
      fix z assume "\<phi> c = Some z"
      with step.hyps(2) y have "(y, z) \<in> s" unfolding s by blast
      with step.IH y show "(x, z) \<in> s\<^sup>+" by (meson trancl_into_trancl)
    qed
  qed
  with ab(2) show "(x, y) \<in> s\<^sup>+" by blast
qed

lemma remapped_order:
  assumes wf: "wf_cfg g"
    and sp: "set spliced = foldl (\<lambda>r v. splice_rel v r) (set (cfg_order g))
      (dropped_events (renumbering (keeps ms) (cfg_events g)))"
    and ab: "new_id (renumbering (keeps ms) (cfg_events g)) a = Some x"
      "new_id (renumbering (keeps ms) (cfg_events g)) b = Some y"
  shows "(x, y) \<in> (set (cfg_order (remapped g f ms mf spliced)))\<^sup>+ \<longleftrightarrow> (a, b) \<in> (set (cfg_order g))\<^sup>+"
proof -
  let ?ren = "renumbering (keeps ms) (cfg_events g)" and ?d = "dropped_events (renumbering (keeps ms) (cfg_events g))"
  let ?t = "set spliced \<inter> (- set ?d) \<times> (- set ?d)"
  have "a < length (cfg_events g) \<and> b < length (cfg_events g)" if "(a, b) \<in> set spliced" for a b
    using that sp splice_rel_bounded [of "set (cfg_order g)" "length (cfg_events g)" a b ?d] wf_cfgD(6) [OF wf]
    by simp
  then have kept: "new_id ?ren a \<noteq> None \<and> new_id ?ren b \<noteq> None" if "(a, b) \<in> ?t" for a b
    using that unfolding dropped_renumbering new_id_def by (auto simp: nth_renumbering)
  have out: "a \<notin> set ?d" if "new_id ?ren a = Some x" for a x
    using that unfolding dropped_renumbering by (auto simp: at_renumbering)
  have "(x, y) \<in> set (cfg_order (remapped g f ms mf spliced)) \<longleftrightarrow>
      (\<exists>a b. (a, b) \<in> set spliced \<and> new_id ?ren a = Some x \<and> new_id ?ren b = Some y)" for x y
    by (simp add: remapped_def Let_def set_map_filter at_pair_Some Bex_def)
  then have ord: "set (cfg_order (remapped g f ms mf spliced))
      = {(x, y). \<exists>a b. (a, b) \<in> ?t \<and> new_id ?ren a = Some x \<and> new_id ?ren b = Some y}"
    using out by blast
  have "(x, y) \<in> (set (cfg_order (remapped g f ms mf spliced)))\<^sup>+ \<longleftrightarrow> (a, b) \<in> ?t\<^sup>+"
  proof (rule trancl_renamed [where \<phi> = "new_id ?ren", OF _ _ ord ab])
    show "d = e" if "new_id ?ren d = Some k" "new_id ?ren e = Some k" for d e k
      using that by (rule at_renumbering_inj)
  qed (rule kept)
  also have "\<dots> \<longleftrightarrow> (a, b) \<in> (set spliced)\<^sup>+"
    using out ab unfolding sp by (intro bypassed_restrict splice_all_bypassed) auto
  also have "\<dots> \<longleftrightarrow> (a, b) \<in> (set (cfg_order g))\<^sup>+"
    using out ab unfolding sp by (intro splice_all_trancl) auto
  finally show ?thesis .
qed

section \<open>Properties\<close>

text \<open>C2: remapping a well-formed graph into another program's ids never panics, and the result is
  well formed: every index is in range and each block lists exactly its own events.\<close>

theorem remap_well_formed:
  assumes "wf_cfg g"
  shows "\<exists>g'. remap g f ms mf = Some g' \<and> wf_cfg g' \<and> cfg_function g' = f \<and>
    length (cfg_blocks g') = length (cfg_blocks g)"
proof -
  from remap_result [OF assms, of f ms mf] obtain spliced where
    sp: "remap g f ms mf = Some (remapped g f ms mf spliced)"
      "set spliced = foldl (\<lambda>r v. splice_rel v r) (set (cfg_order g))
        (dropped_events (renumbering (keeps ms) (cfg_events g)))" by blast
  with remapped_wf [OF assms sp(2)] show ?thesis by (auto simp: remapped_def Let_def)
qed

definition sample_span :: Span where
  "sample_span = \<lparr>sp_file = 0, sp_line = 1, sp_col = 1\<rparr>"

definition sample_event :: "BlockId \<Rightarrow> CallSiteId \<Rightarrow> CallEvent" where
  "sample_event b s = \<lparr>ev_block = b, ev_kind = Call,
     ev_occurrence = \<lparr>occ_span = sample_span, occ_expansion_span = None, occ_expansion_id = 0\<rparr>,
     ev_sites = [s]\<rparr>"

definition sample_cfg :: FunctionCfg where
  "sample_cfg = \<lparr>cfg_function = 0, cfg_tu = None, cfg_variant = 0, cfg_entry = 0, cfg_exit = 1,
     cfg_exceptional_exit = None,
     cfg_blocks = [\<lparr>blk_kind = Entry, blk_span = None, blk_events = [0, 1, 2]\<rparr>,
       \<lparr>blk_kind = Exit, blk_span = None, blk_events = []\<rparr>],
     cfg_edges = [\<lparr>e_from = 0, e_to = 1, e_kind = Fallthrough\<rparr>],
     cfg_events = [sample_event 0 10, sample_event 0 11, sample_event 0 12],
     cfg_order = [(0, 1), (1, 2)], cfg_gaps = []\<rparr>"

lemma sample_cfg_wf: "wf_cfg sample_cfg"
  by code_simp

theorem remap_well_formed_witness:
  "\<exists>g'. remap sample_cfg 7 (\<lambda>s. if s = 11 then None else Some s) (\<lambda>f. f) = Some g' \<and> wf_cfg g'"
  using remap_well_formed [OF sample_cfg_wf, of 7 "\<lambda>s. if s = 11 then None else Some s" "\<lambda>f. f"] by blast

text \<open>C3: an event whose every site is dropped is spliced out of the graph and of the local order,
  and the events that stay, renumbered by their rank among the kept ones, are sequenced in
  the new graph exactly as they were in the old one.\<close>

theorem remap_keeps_sequencing:
  assumes "wf_cfg g" and "remap g f ms mf = Some g'"
    and "a < length (cfg_events g)" "keeps ms (cfg_events g ! a)"
    and "b < length (cfg_events g)" "keeps ms (cfg_events g ! b)"
  shows "cfg_events g' ! rank (keeps ms) (cfg_events g) a = remapped_event ms mf (cfg_events g ! a) \<and>
    ((rank (keeps ms) (cfg_events g) a, rank (keeps ms) (cfg_events g) b) \<in> (set (cfg_order g'))\<^sup>+
      \<longleftrightarrow> (a, b) \<in> (set (cfg_order g))\<^sup>+)"
proof
  from remap_result [OF assms(1), of f ms mf] assms(2) obtain spliced where
    sp: "g' = remapped g f ms mf spliced"
      "set spliced = foldl (\<lambda>r v. splice_rel v r) (set (cfg_order g))
        (dropped_events (renumbering (keeps ms) (cfg_events g)))" by auto
  show "(rank (keeps ms) (cfg_events g) a, rank (keeps ms) (cfg_events g) b) \<in> (set (cfg_order g'))\<^sup>+
      \<longleftrightarrow> (a, b) \<in> (set (cfg_order g))\<^sup>+"
    unfolding sp(1) using assms(3-) by (intro remapped_order [OF assms(1) sp(2)]) (simp_all add: at_renumbering)
  show "cfg_events g' ! rank (keeps ms) (cfg_events g) a = remapped_event ms mf (cfg_events g ! a)"
    using assms(3,4) rank_less [of a "cfg_events g" "keeps ms"] by (simp add: sp(1) remapped_def Let_def nth_filter_rank)
qed

theorem remap_keeps_sequencing_witness:
  "(0, 1) \<in> (set (cfg_order (the (remap sample_cfg 7 (\<lambda>s. if s = 11 then None else Some s) (\<lambda>f. f)))))\<^sup>+"
proof -
  let ?ms = "\<lambda>s. if s = 11 then None else Some s"
  let ?g = "the (remap sample_cfg 7 ?ms (\<lambda>f. f))"
  have r: "remap sample_cfg 7 ?ms (\<lambda>f. f) = Some ?g"
    and a: "0 < length (cfg_events sample_cfg)" "keeps ?ms (cfg_events sample_cfg ! 0)"
    and b: "2 < length (cfg_events sample_cfg)" "keeps ?ms (cfg_events sample_cfg ! 2)"
    and ranks: "rank (keeps ?ms) (cfg_events sample_cfg) 0 = 0" "rank (keeps ?ms) (cfg_events sample_cfg) 2 = 1"
    by code_simp+
  have "(0, 2) \<in> (set (cfg_order sample_cfg))\<^sup>+"
    by (rule trancl_into_trancl [of _ 1]) (auto simp: sample_cfg_def)
  with remap_keeps_sequencing [OF sample_cfg_wf r a b] show ?thesis unfolding ranks by simp
qed

end
