(* ===== verification/Cfg_Variants.thy ===== *)
theory Cfg_Variants
  imports Cfg_Remap
begin

text \<open>
  Configuration variants of one function's graph (\<^verbatim>\<open>add_variant\<close>, \<^verbatim>\<open>find_variant\<close> and
  \<^verbatim>\<open>Mapped\<close> of \<^verbatim>\<open>trace-ir/src/cfg.rs\<close>). A candidate graph is compared with the kept ones
  through its id mappings, without being built; \<open>mapped_form\<close> is what the comparison and
  the fingerprint look at. The hasher itself (\<^verbatim>\<open>rustc_hash::FxHasher\<close>, a third-party crate) is
  the parameter \<open>fx\<close>, a function of the sequence of values fed to it.
\<close>

section \<open>A graph seen through id mappings\<close>

record Mapped =
  mp_cfg :: FunctionCfg
  mp_function :: FnId
  mp_site :: "CallSiteId \<Rightarrow> CallSiteId option"
  mp_file :: "FileId \<Rightarrow> FileId"

definition Mapped_new ::
  "FunctionCfg \<Rightarrow> FnId \<Rightarrow> (CallSiteId \<Rightarrow> CallSiteId option) \<Rightarrow> (FileId \<Rightarrow> FileId) \<Rightarrow> Mapped" where
  "Mapped_new cfg function site file =
     \<lparr>mp_cfg = cfg, mp_function = function, mp_site = site, mp_file = file\<rparr>"

definition mapped_span :: "Mapped \<Rightarrow> Span \<Rightarrow> Span" where
  "mapped_span m span = span\<lparr>sp_file := mp_file m (sp_file span)\<rparr>"

definition mapped_occurrence :: "Mapped \<Rightarrow> CallOccurrence \<Rightarrow> CallOccurrence" where
  "mapped_occurrence m occ = occ\<lparr>occ_span := mapped_span m (occ_span occ),
     occ_expansion_span := map_option (mapped_span m) (occ_expansion_span occ)\<rparr>"

definition mapped_gap_events :: "Gap \<Rightarrow> (EventId \<times> EventId) option" where
  "mapped_gap_events gap =
     (case gap_events gap of None \<Rightarrow> None
      | Some (lo, hi) \<Rightarrow> if lo \<le> hi then Some (lo, hi) else None)"

definition mapped_equals :: "Mapped \<Rightarrow> Mapped \<Rightarrow> bool" where
  "mapped_equals m n = (let a = mp_cfg m; b = mp_cfg n in
     mp_function m = mp_function n \<and> cfg_entry a = cfg_entry b \<and> cfg_exit a = cfg_exit b \<and>
     cfg_exceptional_exit a = cfg_exceptional_exit b \<and> cfg_edges a = cfg_edges b \<and>
     cfg_order a = cfg_order b \<and>
     list_all2 (\<lambda>x y. blk_kind x = blk_kind y \<and>
        map_option (mapped_span m) (blk_span x) = map_option (mapped_span n) (blk_span y) \<and>
        blk_events x = blk_events y) (cfg_blocks a) (cfg_blocks b) \<and>
     list_all2 (\<lambda>x y. ev_block x = ev_block y \<and> ev_kind x = ev_kind y \<and>
        mapped_occurrence m (ev_occurrence x) = mapped_occurrence n (ev_occurrence y) \<and>
        mapped_sites (ev_sites x) (mp_site m) = mapped_sites (ev_sites y) (mp_site n))
        (cfg_events a) (cfg_events b) \<and>
     list_all2 (\<lambda>x y. gap_kind x = gap_kind y \<and>
        map_option (mapped_span m) (gap_span x) = map_option (mapped_span n) (gap_span y) \<and>
        mapped_gap_events x = mapped_gap_events y) (cfg_gaps a) (cfg_gaps b))"

text \<open>The values fed to the hasher, in order.\<close>

datatype hash_item =
    HashHead FnId BlockId BlockId "BlockId option" "CfgEdge list" "event_pair list"
  | HashLen nat
  | HashBlock BlockKind "Span option" "EventId list"
  | HashEvent BlockId EventKind CallOccurrence
  | HashSite CallSiteId
  | HashGap GapKind "Span option" "(EventId \<times> EventId) option"

definition mapped_hash_items :: "Mapped \<Rightarrow> hash_item list" where
  "mapped_hash_items m = (let a = mp_cfg m in
     [HashHead (mp_function m) (cfg_entry a) (cfg_exit a) (cfg_exceptional_exit a)
        (cfg_edges a) (cfg_order a), HashLen (length (cfg_blocks a))] @
     map (\<lambda>b. HashBlock (blk_kind b) (map_option (mapped_span m) (blk_span b)) (blk_events b))
       (cfg_blocks a) @
     [HashLen (length (cfg_events a))] @
     concat (map (\<lambda>e. let sites = mapped_sites (ev_sites e) (mp_site m) in
        [HashEvent (ev_block e) (ev_kind e) (mapped_occurrence m (ev_occurrence e))] @
        map HashSite sites @ [HashLen (length sites)]) (cfg_events a)) @
     [HashLen (length (cfg_gaps a))] @
     map (\<lambda>g. HashGap (gap_kind g) (map_option (mapped_span m) (gap_span g)) (mapped_gap_events g))
       (cfg_gaps a))"

definition mapped_hash :: "(hash_item list \<Rightarrow> nat) \<Rightarrow> Mapped \<Rightarrow> nat" where
  "mapped_hash fx m = fx (mapped_hash_items m)"

definition structural_hash :: "(hash_item list \<Rightarrow> nat) \<Rightarrow> FunctionCfg \<Rightarrow> nat" where
  "structural_hash fx g = mapped_hash fx (Mapped_new g (cfg_function g) Some (\<lambda>f. f))"

section \<open>Finding and adding variants\<close>

text \<open>\<open>None\<close> is the panic of a fingerprint vector shorter than the variants.\<close>

definition fingerprint_matches :: "nat list option \<Rightarrow> nat option \<Rightarrow> nat \<Rightarrow> bool option" where
  "fingerprint_matches hashes hash at =
     (case hashes of
        None \<Rightarrow> Some True
      | Some hs \<Rightarrow> (case hash of
            None \<Rightarrow> Some True
          | Some h \<Rightarrow> map_option (\<lambda>x. x = h) (vget hs at)))"

fun position_from :: "(nat \<Rightarrow> 'a \<Rightarrow> bool option) \<Rightarrow> nat \<Rightarrow> 'a list \<Rightarrow> nat option option" where
  "position_from p at [] = Some None"
| "position_from p at (v # vs) =
     (case p at v of None \<Rightarrow> None
      | Some b \<Rightarrow> if b then Some (Some at) else position_from p (Suc at) vs)"

definition find_variant ::
  "(hash_item list \<Rightarrow> nat) \<Rightarrow> FunctionCfg list \<Rightarrow> nat list option \<Rightarrow> Mapped \<Rightarrow>
   (CallSiteId \<Rightarrow> CallSiteId option) \<Rightarrow> (nat option + nat) option" where
  "find_variant fx variants hashes graph key =
     (let hash = map_option (\<lambda>_. mapped_hash fx graph) hashes in
      case position_from (\<lambda>at v.
          map_option (\<lambda>b. b \<and> mapped_equals graph (Mapped_new v (cfg_function v) key (\<lambda>f. f)))
            (fingerprint_matches hashes hash at)) 0 variants of
        None \<Rightarrow> None
      | Some (Some at) \<Rightarrow> Some (Inr at)
      | Some None \<Rightarrow> Some (Inl hash))"

text \<open>
  The outcome is \<open>Inr i\<close> for the variant added at position \<open>i\<close> and \<open>Inl i\<close> for the equal
  one kept at \<open>i\<close>, as the code's \<^verbatim>\<open>Ok\<close> and \<^verbatim>\<open>Err\<close>.
\<close>

definition add_variant ::
  "(hash_item list \<Rightarrow> nat) \<Rightarrow> FunctionCfg list \<Rightarrow> nat list option \<Rightarrow> FunctionCfg \<Rightarrow> FnId \<Rightarrow>
   (CallSiteId \<Rightarrow> CallSiteId option) \<Rightarrow> (FileId \<Rightarrow> FileId) \<Rightarrow> (CallSiteId \<Rightarrow> CallSiteId) \<Rightarrow>
   (FunctionCfg list \<times> nat list option \<times> (nat + nat)) option" where
  "add_variant fx variants hashes cfg function map_site map_file rekey = do {
     let key = (\<lambda>s. Some (rekey s));
     built \<leftarrow> (if splices cfg map_site then map_option Some (remap cfg function map_site map_file)
       else Some None);
     found \<leftarrow> (case built of
         Some graph \<Rightarrow> find_variant fx variants hashes (Mapped_new graph function key (\<lambda>f. f)) key
       | None \<Rightarrow> find_variant fx variants hashes
           (Mapped_new cfg function (\<lambda>s. map_option rekey (map_site s)) map_file) key);
     (case found of
        Inr at \<Rightarrow> Some (variants, hashes, Inl at)
      | Inl hash \<Rightarrow> do {
          kept \<leftarrow> (case built of Some graph \<Rightarrow> Some graph | None \<Rightarrow> remap cfg function map_site map_file);
          Some (variants @ [kept\<lparr>cfg_variant := as_u32 (length variants)\<rparr>],
            (case hashes of None \<Rightarrow> None
             | Some hs \<Rightarrow> (case hash of None \<Rightarrow> Some hs | Some h \<Rightarrow> Some (hs @ [h]))),
            Inr (length variants)) }) }"

text \<open>
  \<^verbatim>\<open>add_alternatives_from\<close>: the kept events of the other graph, in order, meet the events here;
  the zip stops at the shorter side.
\<close>

definition add_alternatives_from ::
  "FunctionCfg \<Rightarrow> FunctionCfg \<Rightarrow> (CallSiteId \<Rightarrow> CallSiteId option) \<Rightarrow> FunctionCfg" where
  "add_alternatives_from g other map_site =
     (let kept = filter (\<lambda>sites. sites \<noteq> []) (map (\<lambda>e. mapped_sites (ev_sites e) map_site) (cfg_events other))
      in g\<lparr>cfg_events := map (\<lambda>(event, sites). add_alternative_sites event sites) (zip (cfg_events g) kept)
           @ drop (length kept) (cfg_events g)\<rparr>)"

section \<open>What is compared\<close>

definition mapped_form :: "Mapped \<Rightarrow> FnId \<times> FunctionCfg" where
  "mapped_form m = (let a = mp_cfg m in (mp_function m,
     a\<lparr>cfg_function := mp_function m, cfg_tu := None, cfg_variant := 0,
       cfg_blocks := map (\<lambda>b. b\<lparr>blk_span := map_option (mapped_span m) (blk_span b)\<rparr>) (cfg_blocks a),
       cfg_events := map (\<lambda>e. e\<lparr>ev_occurrence := mapped_occurrence m (ev_occurrence e),
          ev_sites := mapped_sites (ev_sites e) (mp_site m)\<rparr>) (cfg_events a),
       cfg_gaps := map (\<lambda>g. g\<lparr>gap_span := map_option (mapped_span m) (gap_span g),
          gap_events := mapped_gap_events g\<rparr>) (cfg_gaps a)\<rparr>))"

lemma map_eq_list_all2: "map f xs = map g ys \<longleftrightarrow> list_all2 (\<lambda>x y. f x = g y) xs ys"
  by (auto simp: list_eq_iff_nth_eq list_all2_conv_all_nth)

lemma mapped_equals_form: "mapped_equals m n \<longleftrightarrow> mapped_form m = mapped_form n"
proof -
  have blk: "x\<lparr>blk_span := s\<rparr> = y\<lparr>blk_span := t\<rparr> \<longleftrightarrow>
      blk_kind x = blk_kind y \<and> s = t \<and> blk_events x = blk_events y" for x y :: Block and s t
    by (cases x; cases y) auto
  have ev: "x\<lparr>ev_occurrence := p, ev_sites := s\<rparr> = y\<lparr>ev_occurrence := q, ev_sites := t\<rparr> \<longleftrightarrow>
      ev_block x = ev_block y \<and> ev_kind x = ev_kind y \<and> p = q \<and> s = t" for x y :: CallEvent and p q s t
    by (cases x; cases y) auto
  have gap: "x\<lparr>gap_span := s, gap_events := p\<rparr> = y\<lparr>gap_span := t, gap_events := q\<rparr> \<longleftrightarrow>
      gap_kind x = gap_kind y \<and> s = t \<and> p = q" for x y :: Gap and p q s t
    by (cases x; cases y) auto
  show ?thesis
    by (cases "mp_cfg m"; cases "mp_cfg n")
       (auto simp: mapped_equals_def mapped_form_def Let_def map_eq_list_all2 blk ev gap)
qed

text \<open>The fingerprint is a function of the form, so equal graphs hash alike.\<close>

definition form_items :: "FnId \<times> FunctionCfg \<Rightarrow> hash_item list" where
  "form_items fc = (case fc of (f, a) \<Rightarrow>
     [HashHead f (cfg_entry a) (cfg_exit a) (cfg_exceptional_exit a) (cfg_edges a) (cfg_order a),
      HashLen (length (cfg_blocks a))] @
     map (\<lambda>b. HashBlock (blk_kind b) (blk_span b) (blk_events b)) (cfg_blocks a) @
     [HashLen (length (cfg_events a))] @
     concat (map (\<lambda>e. [HashEvent (ev_block e) (ev_kind e) (ev_occurrence e)] @
        map HashSite (ev_sites e) @ [HashLen (length (ev_sites e))]) (cfg_events a)) @
     [HashLen (length (cfg_gaps a))] @
     map (\<lambda>g. HashGap (gap_kind g) (gap_span g) (gap_events g)) (cfg_gaps a))"

lemma mapped_hash_items_form: "mapped_hash_items m = form_items (mapped_form m)"
  by (simp add: mapped_hash_items_def form_items_def mapped_form_def Let_def o_def)

lemma mapped_equals_hash: "mapped_equals m n \<Longrightarrow> mapped_hash fx m = mapped_hash fx n"
  by (simp add: mapped_equals_form mapped_hash_def mapped_hash_items_form)

section \<open>A remap that splices nothing is its mapped view\<close>

lemma dedup_map_filter: "dedup_onto [] (List.map_filter f (dedup_onto [] xs)) = dedup_onto [] (List.map_filter f xs)"
proof (induction xs rule: rev_induct)
  case (snoc x xs)
  have "dedup_onto (dedup_onto [] (List.map_filter f xs)) [y] = dedup_onto [] (List.map_filter f xs)"
    if "x \<in> set xs" "f x = Some y" for y
    using that by (intro dedup_onto_subset) (auto simp: set_map_filter)
  with snoc show ?case
    by (auto simp: dedup_onto_append map_filter_app map_filter_one split: option.splits)
qed simp

lemma mapped_sites_compose:
  "mapped_sites (mapped_sites sites ms) key = mapped_sites sites (\<lambda>s. Option.bind (ms s) key)"
proof -
  have "List.map_filter key (List.map_filter ms sites) = List.map_filter (\<lambda>s. Option.bind (ms s) key) sites"
    by (induction sites) (auto simp: List.map_filter_simps split: option.splits)
  then show ?thesis unfolding mapped_sites_dedup dedup_map_filter by simp
qed

lemma new_id_all_kept:
  assumes "\<forall>x \<in> set xs. p x"
  shows "new_id (renumbering p xs) e = (if e < length xs then Some e else None)"
proof -
  have "filter p (take e xs) = take e xs" using assms by (auto simp: filter_id_conv dest: in_set_takeD)
  then show ?thesis using assms by (auto simp: new_id_def nth_renumbering rank_def)
qed

lemma at_range_all_kept:
  assumes kept: "\<forall>x \<in> set xs. p x" and ok: "lo \<le> hi \<longrightarrow> hi < length xs"
  shows "at_range (renumbering p xs) (lo, hi) = (if lo \<le> hi then Some (lo, hi) else None)"
proof (cases "lo \<le> hi")
  case True
  have "List.map_filter (new_id (renumbering p xs)) [lo..<Suc hi] = List.map_filter (\<lambda>e. Some e) [lo..<Suc hi]"
    using ok True new_id_all_kept [OF kept] by (intro map_filter_cong) auto
  also have "\<dots> = [lo..<Suc hi]" using map_filter_Some [of "\<lambda>e. e" "[lo..<Suc hi]"] by (simp del: upt_Suc)
  finally have "at_range (renumbering p xs) (lo, hi) =
      (if [lo..<Suc hi] = [] then None else Some (hd [lo..<Suc hi], last [lo..<Suc hi]))"
    by (simp only: at_range_def Let_def fst_conv snd_conv)
  then show ?thesis using True by (simp add: hd_append)
next
  case False
  then show ?thesis by (simp add: at_range_def List.map_filter_simps)
qed

lemma remapped_form:
  assumes wf: "wf_cfg g" and ns: "\<not> splices g ms"
  shows "mapped_form (Mapped_new (remapped g f ms mf (cfg_order g)) f key (\<lambda>f. f)) =
    mapped_form (Mapped_new g f (\<lambda>s. Option.bind (ms s) key) mf)"
proof -
  let ?es = "cfg_events g" and ?ren = "renumbering (keeps ms) (cfg_events g)"
  have kept: "\<forall>e \<in> set ?es. keeps ms e"
    using ns by (auto simp: splices_def list_ex_iff keeps_def)
  note ids = new_id_all_kept [OF kept]
  have all: "filter (keeps ms) ?es = ?es" and none: "filter (\<lambda>e. \<not> keeps ms e) ?es = []"
    using kept by (simp_all add: filter_id_conv filter_empty_conv)
  have blk: "List.map_filter (new_id ?ren) (blk_events b) = blk_events b" if "b \<in> set (cfg_blocks g)" for b
  proof -
    have "e < length ?es" if "e \<in> set (blk_events b)" for e
      using that \<open>b \<in> set (cfg_blocks g)\<close> wf_cfgD(9) [OF wf] by (auto simp: in_set_conv_nth [of b])
    then have "List.map_filter (new_id ?ren) (blk_events b) = List.map_filter (\<lambda>e. Some e) (blk_events b)"
      using ids by (intro map_filter_cong) simp
    then show ?thesis using map_filter_Some [of "\<lambda>e. e"] by simp
  qed
  have "at_pair ?ren p = Some p" if "p \<in> set (cfg_order g)" for p
    using wf_cfgD(6) [OF wf, of "fst p" "snd p"] that ids by (cases p) (simp add: at_pair_def)
  then have "List.map_filter (at_pair ?ren) (cfg_order g) = List.map_filter (\<lambda>p. Some p) (cfg_order g)"
    by (rule map_filter_cong)
  then have ord: "List.map_filter (at_pair ?ren) (cfg_order g) = cfg_order g"
    using map_filter_Some [of "\<lambda>p. p"] by simp
  have gap: "mapped_gap_events (at_gap mf ?ren y) = mapped_gap_events y" if "y \<in> set (cfg_gaps g)" for y
    using wf_cfgD(7) [OF wf that] at_range_all_kept [OF kept]
    by (auto simp: mapped_gap_events_def at_gap_def gap_ok_def split: option.splits)
  let ?m' = "Mapped_new (remapped g f ms mf (cfg_order g)) f key (\<lambda>f. f)"
  let ?m = "Mapped_new g f (\<lambda>s. Option.bind (ms s) key) mf"
  have span: "mapped_span ?m' (map_span mf s) = mapped_span ?m s" for s
    by (simp add: mapped_span_def map_span_def Mapped_new_def)
  have spans: "map_option (mapped_span ?m') (map_option (map_span mf) s) = map_option (mapped_span ?m) s" for s
    by (simp add: option.map_comp o_def span)
  have occ: "mapped_occurrence ?m' (map_occurrence mf x) = mapped_occurrence ?m x" for x
    using span [of "occ_span x"] spans [of "occ_expansion_span x"]
    by (simp add: mapped_occurrence_def map_occurrence_def)
  have B: "map (\<lambda>b. b\<lparr>blk_span := map_option (mapped_span ?m') (blk_span b)\<rparr>) (map (at_block mf ?ren) (cfg_blocks g))
      = map (\<lambda>b. b\<lparr>blk_span := map_option (mapped_span ?m) (blk_span b)\<rparr>) (cfg_blocks g)"
    using blk spans by (auto simp: at_block_def)
  have E: "map (\<lambda>e. e\<lparr>ev_occurrence := mapped_occurrence ?m' (ev_occurrence e), ev_sites := mapped_sites (ev_sites e) key\<rparr>)
        (map (remapped_event ms mf) ?es)
      = map (\<lambda>e. e\<lparr>ev_occurrence := mapped_occurrence ?m (ev_occurrence e),
          ev_sites := mapped_sites (ev_sites e) (\<lambda>s. Option.bind (ms s) key)\<rparr>) ?es"
    using occ by (auto simp: remapped_event_def mapped_sites_compose)
  have "gap_kind (at_gap mf ?ren y) = gap_kind y"
      "map_option (mapped_span ?m') (gap_span (at_gap mf ?ren y)) = map_option (mapped_span ?m) (gap_span y)" for y
    using spans by (simp_all add: at_gap_def)
  then have G: "map (\<lambda>y. y\<lparr>gap_span := map_option (mapped_span ?m') (gap_span y), gap_events := mapped_gap_events y\<rparr>)
        (map (at_gap mf ?ren) (cfg_gaps g))
      = map (\<lambda>y. y\<lparr>gap_span := map_option (mapped_span ?m) (gap_span y), gap_events := mapped_gap_events y\<rparr>) (cfg_gaps g)"
    using gap by (auto intro!: Gap.equality)
  have form: "mapped_form ?m' = (f, (remapped g f ms mf (cfg_order g))\<lparr>cfg_function := f, cfg_tu := None,
      cfg_variant := 0,
      cfg_blocks := map (\<lambda>b. b\<lparr>blk_span := map_option (mapped_span ?m') (blk_span b)\<rparr>) (map (at_block mf ?ren) (cfg_blocks g)),
      cfg_events := map (\<lambda>e. e\<lparr>ev_occurrence := mapped_occurrence ?m' (ev_occurrence e), ev_sites := mapped_sites (ev_sites e) key\<rparr>)
        (map (remapped_event ms mf) ?es),
      cfg_gaps := map (\<lambda>y. y\<lparr>gap_span := map_option (mapped_span ?m') (gap_span y), gap_events := mapped_gap_events y\<rparr>)
        (map (at_gap mf ?ren) (cfg_gaps g))\<rparr>)"
    by (simp add: mapped_form_def Let_def Mapped_new_def remapped_def all none)
  show ?thesis
    unfolding form B E G
    by (simp add: mapped_form_def Let_def Mapped_new_def remapped_def ord FunctionCfg.equality)
qed

section \<open>Adding a variant\<close>

text \<open>A kept graph as the comparison sees it, and fingerprints in step with the variants.\<close>

definition keyed :: "(CallSiteId \<Rightarrow> CallSiteId) \<Rightarrow> FunctionCfg \<Rightarrow> Mapped" where
  "keyed rekey g = Mapped_new g (cfg_function g) (\<lambda>s. Some (rekey s)) (\<lambda>f. f)"

definition in_step ::
  "(hash_item list \<Rightarrow> nat) \<Rightarrow> (CallSiteId \<Rightarrow> CallSiteId) \<Rightarrow> FunctionCfg list \<Rightarrow> nat list option \<Rightarrow> bool" where
  "in_step fx rekey variants hashes \<longleftrightarrow>
     (case hashes of None \<Rightarrow> True | Some hs \<Rightarrow> hs = map (\<lambda>v. mapped_hash fx (keyed rekey v)) variants)"

definition variants_ok :: "FnId \<Rightarrow> (CallSiteId \<Rightarrow> CallSiteId) \<Rightarrow> FunctionCfg list \<Rightarrow> bool" where
  "variants_ok function rekey variants \<longleftrightarrow>
     (\<forall>i < length variants. cfg_variant (variants ! i) = i \<and> cfg_function (variants ! i) = function \<and>
        wf_cfg (variants ! i)) \<and>
     distinct (map (\<lambda>v. mapped_form (keyed rekey v)) variants)"

lemma position_from_total:
  assumes "\<And>i. i < length vs \<Longrightarrow> p (at + i) (vs ! i) = Some (q (vs ! i))"
  shows "position_from p at vs = Some (map_option (\<lambda>i. at + i) (position q vs))"
  using assms
proof (induction vs arbitrary: at)
  case (Cons v vs)
  have "p at v = Some (q v)" using Cons.prems [of 0] by simp
  moreover have "position_from p (Suc at) vs = Some (map_option (\<lambda>i. Suc at + i) (position q vs))"
    using Cons.prems by (intro Cons.IH) force
  ultimately show ?case by (simp add: option.map_comp o_def)
qed simp

lemma find_variant_eq:
  assumes "in_step fx rekey variants hashes"
  shows "find_variant fx variants hashes graph (\<lambda>s. Some (rekey s)) =
    Some (case position (\<lambda>v. mapped_form graph = mapped_form (keyed rekey v)) variants of
      Some i \<Rightarrow> Inr i | None \<Rightarrow> Inl (map_option (\<lambda>_. mapped_hash fx graph) hashes))"
proof -
  let ?eq = "\<lambda>v. mapped_form graph = mapped_form (keyed rekey v)"
  let ?hash = "map_option (\<lambda>_. mapped_hash fx graph) hashes"
  have "map_option (\<lambda>b. b \<and> mapped_equals graph (Mapped_new (variants ! i) (cfg_function (variants ! i)) (\<lambda>s. Some (rekey s)) (\<lambda>f. f)))
      (fingerprint_matches hashes ?hash (0 + i)) = Some (?eq (variants ! i))" if "i < length variants" for i
    using assms that mapped_equals_hash [of graph "keyed rekey (variants ! i)" fx]
    by (auto simp: fingerprint_matches_def in_step_def keyed_def mapped_equals_form vget_def split: option.splits)
  then show ?thesis
    using position_from_total [of variants _ 0 ?eq]
    by (simp add: find_variant_def Let_def split: option.splits)
qed

lemma mapped_span_fun: "mapped_span m = map_span (mp_file m)"
  by (rule ext) (simp add: mapped_span_def map_span_def)

lemma mapped_occurrence_fun: "mapped_occurrence m = map_occurrence (mp_file m)"
  by (rule ext) (simp add: mapped_occurrence_def map_occurrence_def mapped_span_fun)

lemma keyed_variant: "mapped_form (keyed rekey (g\<lparr>cfg_variant := k\<rparr>)) = mapped_form (keyed rekey g)"
  by (simp add: mapped_form_def keyed_def Mapped_new_def Let_def mapped_span_fun mapped_occurrence_fun)

lemma keyed_variant_hash: "mapped_hash fx (keyed rekey (g\<lparr>cfg_variant := k\<rparr>)) = mapped_hash fx (keyed rekey g)"
  by (simp add: mapped_hash_def mapped_hash_items_form keyed_variant)

lemma remap_Some:
  assumes "wf_cfg g"
  obtains g' where "remap g f ms mf = Some g'" "wf_cfg g'" "cfg_function g' = f"
    "\<not> splices g ms \<Longrightarrow> mapped_form (keyed rekey g') =
       mapped_form (Mapped_new g f (\<lambda>s. map_option rekey (ms s)) mf)"
proof -
  from remap_result [OF assms, of f ms mf] obtain spliced where
    sp: "remap g f ms mf = Some (remapped g f ms mf spliced)"
      "set spliced = foldl (\<lambda>r v. splice_rel v r) (set (cfg_order g))
        (dropped_events (renumbering (keeps ms) (cfg_events g)))"
      "\<not> splices g ms \<Longrightarrow> spliced = cfg_order g" by blast
  have bind: "(\<lambda>s. Option.bind (ms s) (\<lambda>s. Some (rekey s))) = (\<lambda>s. map_option rekey (ms s))"
    by (rule ext) (simp add: map_conv_bind_option o_def)
  have fn: "cfg_function (remapped g f ms mf spliced) = f" by (simp add: remapped_def Let_def)
  show thesis
  proof
    show "mapped_form (keyed rekey (remapped g f ms mf spliced)) =
        mapped_form (Mapped_new g f (\<lambda>s. map_option rekey (ms s)) mf)" if "\<not> splices g ms"
      using remapped_form [OF assms that, of f mf "\<lambda>s. Some (rekey s)"] sp(3) [OF that] fn
      by (simp add: keyed_def bind)
  qed (use sp(1) remapped_wf [OF assms sp(2)] fn in auto)
qed

lemma add_variant_result:
  assumes wf: "wf_cfg cfg" and step: "in_step fx rekey variants hashes"
    and remap: "remap cfg function map_site map_file = Some g'" "cfg_function g' = function"
    and form: "\<not> splices cfg map_site \<Longrightarrow> mapped_form (keyed rekey g') =
       mapped_form (Mapped_new cfg function (\<lambda>s. map_option rekey (map_site s)) map_file)"
  shows "add_variant fx variants hashes cfg function map_site map_file rekey = Some
    (case position (\<lambda>v. mapped_form (keyed rekey g') = mapped_form (keyed rekey v)) variants of
       Some i \<Rightarrow> (variants, hashes, Inl i)
     | None \<Rightarrow> (variants @ [g'\<lparr>cfg_variant := as_u32 (length variants)\<rparr>],
         map_option (\<lambda>hs. hs @ [mapped_hash fx (keyed rekey g')]) hashes, Inr (length variants)))"
proof (cases "splices cfg map_site")
  case True
  then show ?thesis
    using find_variant_eq [OF step, of "keyed rekey g'"] remap
    by (auto simp: add_variant_def Let_def keyed_def split: option.splits)
next
  case False
  let ?m = "Mapped_new cfg function (\<lambda>s. map_option rekey (map_site s)) map_file"
  have "mapped_hash fx ?m = mapped_hash fx (keyed rekey g')"
    using form [OF False] by (simp add: mapped_hash_def mapped_hash_items_form)
  then show ?thesis
    using find_variant_eq [OF step, of ?m] False remap form [OF False]
    by (auto simp: add_variant_def Let_def split: option.splits)
qed

lemma variants_ok_snoc:
  assumes "variants_ok function rekey variants" "wf_cfg g'" "cfg_function g' = function"
    and "position (\<lambda>v. mapped_form (keyed rekey g') = mapped_form (keyed rekey v)) variants = None"
  shows "variants_ok function rekey (variants @ [g'\<lparr>cfg_variant := length variants\<rparr>])"
proof -
  have "wf_cfg (g'\<lparr>cfg_variant := length variants\<rparr>)"
    using assms(2) by (simp add: wf_cfg_def Let_def)
  then show ?thesis
    using assms by (auto simp: variants_ok_def position_None less_Suc_eq nth_append keyed_variant)
qed

section \<open>Alternatives of an equal graph\<close>

lemma mapped_nonempty_keeps:
  "filter (\<lambda>sites. sites \<noteq> []) (map (\<lambda>e. mapped_sites (ev_sites e) ms) es) =
   map (\<lambda>e. mapped_sites (ev_sites e) ms) (filter (keeps ms) es)"
  by (simp add: filter_map o_def keeps_def [abs_def])

lemma add_alternatives_from_nth:
  assumes "length (filter (keeps ms) (cfg_events other)) = length (cfg_events g)"
    and "i < length (cfg_events g)"
  shows "cfg_events (add_alternatives_from g other ms) ! i =
    add_alternative_sites (cfg_events g ! i)
      (mapped_sites (ev_sites (filter (keeps ms) (cfg_events other) ! i)) ms)"
  using assms
  by (simp add: add_alternatives_from_def Let_def nth_append mapped_nonempty_keeps)

section \<open>A built graph is its own form\<close>

lemma sorted_map_filter:
  assumes "sorted xs"
    and "\<And>x y i j. x \<in> set xs \<Longrightarrow> y \<in> set xs \<Longrightarrow> x \<le> y \<Longrightarrow> f x = Some i \<Longrightarrow> f y = Some j \<Longrightarrow> i \<le> j"
  shows "sorted (List.map_filter f xs)"
  using assms
proof (induction xs)
  case (Cons x xs)
  have "sorted (List.map_filter f xs)" using Cons.prems by (intro Cons.IH) auto
  moreover have "i \<le> j" if "f x = Some i" "y \<in> set xs" "f y = Some j" for y i j
    using that Cons.prems(1) by (intro Cons.prems(2) [of x y]) auto
  ultimately show ?case
    by (auto simp: List.map_filter_simps set_map_filter split: option.splits)
qed (simp add: List.map_filter_simps)

lemma at_range_ordered:
  assumes "at_range (renumbering p xs) r = Some (lo, hi)"
  shows "lo \<le> hi"
proof -
  let ?kept = "List.map_filter (new_id (renumbering p xs)) [fst r..<Suc (snd r)]"
  have "sorted ?kept"
    by (rule sorted_map_filter)
       (auto simp: at_renumbering order_le_less dest: rank_strict_mono [of _ _ xs p] simp del: upt_Suc)
  moreover from assms have "?kept \<noteq> []" "lo = hd ?kept" "hi = last ?kept"
    by (auto simp: at_range_def Let_def split: if_splits simp del: upt_Suc)
  ultimately show ?thesis by (cases ?kept) (auto simp del: upt_Suc)
qed

lemma remapped_normal:
  "mapped_form (Mapped_new (remapped g f ms mf spliced) f Some (\<lambda>f. f)) =
    (f, (remapped g f ms mf spliced)\<lparr>cfg_tu := None, cfg_variant := 0\<rparr>)"
proof -
  let ?m = "Mapped_new (remapped g f ms mf spliced) f Some (\<lambda>f. f)"
  let ?ren = "renumbering (keeps ms) (cfg_events g)"
  have span: "mapped_span ?m = (\<lambda>s. s)" by (rule ext) (simp add: mapped_span_def Mapped_new_def)
  have occ: "mapped_occurrence ?m = (\<lambda>x. x)" by (rule ext) (simp add: mapped_occurrence_def span option.map_ident)
  have sites: "mapped_sites (mapped_sites xs ms) Some = mapped_sites xs ms" for xs
    by (simp add: mapped_sites_compose)
  have gap: "mapped_gap_events (at_gap mf ?ren y) = gap_events (at_gap mf ?ren y)"
      "mapped_gap_events (omitted_gap s) = gap_events (omitted_gap s)" for y s
    by (auto simp: mapped_gap_events_def at_gap_def omitted_gap_def split: option.splits dest!: at_range_ordered)
  have E: "e\<lparr>ev_occurrence := mapped_occurrence ?m (ev_occurrence e), ev_sites := mapped_sites (ev_sites e) Some\<rparr> = e"
    if "e \<in> remapped_event ms mf ` A" for e A
    using that by (auto simp: occ remapped_event_def sites)
  have G: "y\<lparr>gap_span := map_option (mapped_span ?m) (gap_span y), gap_events := mapped_gap_events y\<rparr> = y"
    if "y \<in> set (cfg_gaps (remapped g f ms mf spliced))" for y
    unfolding span using that gap by (auto simp: remapped_def Let_def option.map_ident)
  have "map (\<lambda>e. e\<lparr>ev_occurrence := mapped_occurrence ?m (ev_occurrence e), ev_sites := mapped_sites (ev_sites e) Some\<rparr>)
      (cfg_events (remapped g f ms mf spliced)) = cfg_events (remapped g f ms mf spliced)"
    by (rule map_idI, rule E) (simp add: remapped_def Let_def)
  moreover have "map (\<lambda>y. y\<lparr>gap_span := map_option (mapped_span ?m) (gap_span y), gap_events := mapped_gap_events y\<rparr>)
      (cfg_gaps (remapped g f ms mf spliced)) = cfg_gaps (remapped g f ms mf spliced)"
    by (rule map_idI) (rule G)
  moreover have "cfg_function (remapped g f ms mf spliced) = f" by (simp add: remapped_def Let_def)
  moreover have "mp_cfg ?m = remapped g f ms mf spliced" "mp_function ?m = f" "mp_site ?m = Some"
    by (simp_all add: Mapped_new_def)
  moreover have "map (\<lambda>b. b\<lparr>blk_span := map_option (mapped_span ?m) (blk_span b)\<rparr>) bs = bs" for bs :: "Block list"
    by (rule map_idI) (simp add: span option.map_ident)
  ultimately show ?thesis by (simp add: mapped_form_def Let_def FunctionCfg.equality)
qed

section \<open>Properties\<close>

text \<open>C6: comparing two graphs through their id mappings, without building either, decides exactly
  whether the graphs the remap would build are structurally equal, when neither mapping drops
  an event.\<close>

theorem mapped_equals_remaps:
  assumes "wf_cfg g" "\<not> splices g ms" "remap g f ms mf = Some g'"
    and "wf_cfg h" "\<not> splices h ks" "remap h f ks kf = Some h'"
  shows "mapped_equals (Mapped_new g f ms mf) (Mapped_new h f ks kf) \<longleftrightarrow> structurally_equal g' h'"
proof -
  have "mapped_form (Mapped_new x f xs xf) = (f, x'\<lparr>cfg_tu := None, cfg_variant := 0\<rparr>) \<and> cfg_function x' = f"
    if "wf_cfg x" "\<not> splices x xs" "remap x f xs xf = Some x'" for x xs xf x'
  proof -
    from remap_result [OF that(1), of f xs xf] that have x': "x' = remapped x f xs xf (cfg_order x)" by auto
    then show ?thesis
      using remapped_form [OF that(1,2), of f xf Some] remapped_normal [of x f xs xf "cfg_order x"]
      by (simp add: remapped_def Let_def)
  qed
  with assms show ?thesis by (cases g'; cases h') (auto simp: mapped_equals_form structurally_equal_def)
qed

theorem mapped_equals_remaps_witness:
  "structurally_equal (the (remap sample_cfg 7 Some (\<lambda>f. f + 1))) (the (remap sample_cfg 7 Some (\<lambda>f. f + 1)))"
proof -
  have r: "remap sample_cfg 7 Some (\<lambda>f. f + 1) = Some (the (remap sample_cfg 7 Some (\<lambda>f. f + 1)))"
    and s: "\<not> splices sample_cfg Some" by code_simp+
  show ?thesis
    using mapped_equals_remaps [OF sample_cfg_wf s r sample_cfg_wf s r] by (simp add: mapped_equals_form)
qed

text \<open>C5: adding a configuration variant never panics on a well-formed graph with fingerprints in
  step, while the number of the new variant fits the 32 bits it is kept in. When a kept variant is structurally the same (up to the site keys) its position is
  returned and nothing changes; otherwise the remapped graph is appended with its own
  position. Either way the list stays well formed, free of duplicates and numbered by
  position, and the fingerprints stay in step.\<close>

theorem add_variant_correct:
  assumes "wf_cfg cfg" and "in_step fx rekey variants hashes" and "variants_ok function rekey variants"
    and "length variants \<le> u32_max"
  shows "\<exists>g' variants' hashes' outcome. remap cfg function map_site map_file = Some g' \<and>
    add_variant fx variants hashes cfg function map_site map_file rekey = Some (variants', hashes', outcome) \<and>
    in_step fx rekey variants' hashes' \<and> variants_ok function rekey variants' \<and>
    (case outcome of
       Inl i \<Rightarrow> variants' = variants \<and> i < length variants \<and>
         mapped_equals (keyed rekey g') (keyed rekey (variants ! i))
     | Inr i \<Rightarrow> i = length variants \<and> variants' = variants @ [g'\<lparr>cfg_variant := i\<rparr>] \<and>
         (\<forall>v \<in> set variants. \<not> mapped_equals (keyed rekey g') (keyed rekey v)))"
proof -
  from remap_Some [OF assms(1)] obtain g' where
    g': "remap cfg function map_site map_file = Some g'" "wf_cfg g'" "cfg_function g' = function"
      "\<not> splices cfg map_site \<Longrightarrow> mapped_form (keyed rekey g') =
       mapped_form (Mapped_new cfg function (\<lambda>s. map_option rekey (map_site s)) map_file)" by metis
  note add = add_variant_result [OF assms(1,2) g'(1,3,4), unfolded as_u32_id [OF assms(4)]]
  show ?thesis
  proof (cases "position (\<lambda>v. mapped_form (keyed rekey g') = mapped_form (keyed rekey v)) variants")
    case None
    have "in_step fx rekey (variants @ [g'\<lparr>cfg_variant := length variants\<rparr>])
        (map_option (\<lambda>hs. hs @ [mapped_hash fx (keyed rekey g')]) hashes)"
      using assms(2) by (auto simp: in_step_def keyed_variant_hash split: option.splits)
    moreover have "\<forall>v \<in> set variants. \<not> mapped_equals (keyed rekey g') (keyed rekey v)"
      using None by (simp add: position_None mapped_equals_form)
    ultimately show ?thesis
      using g'(1) add [unfolded None option.case] variants_ok_snoc [OF assms(3) g'(2,3) None] by auto
  next
    case (Some i)
    then have "i < length variants \<and> mapped_equals (keyed rekey g') (keyed rekey (variants ! i))"
      by (simp add: position_Some mapped_equals_form)
    then show ?thesis using g'(1) add [unfolded Some option.case] assms(2,3) by auto
  qed
qed

theorem add_variant_correct_witness:
  "\<exists>variants' hashes' outcome.
    add_variant length [sample_cfg] (Some [15]) sample_cfg 0 (\<lambda>s. if s = 11 then None else Some s) (\<lambda>f. f) (\<lambda>s. s)
      = Some (variants', hashes', outcome) \<and> variants_ok 0 (\<lambda>s. s) variants'"
proof -
  have "in_step length (\<lambda>s. s) [sample_cfg] (Some [15])" by code_simp
  moreover have "variants_ok 0 (\<lambda>s. s) [sample_cfg]"
    using sample_cfg_wf by (simp add: variants_ok_def) (simp add: sample_cfg_def)
  moreover have "length [sample_cfg] \<le> u32_max" by (simp add: u32_max_def)
  ultimately show ?thesis using add_variant_correct [OF sample_cfg_wf] by blast
qed

text \<open>C40: looking a candidate up through the stored fingerprints gives the same answer as comparing
  it with every kept variant: the fingerprint never hides an equal graph, whatever the hasher.\<close>

theorem find_variant_fingerprints:
  assumes "in_step fx rekey variants (Some hashes)"
  shows "find_variant fx variants (Some hashes) graph (\<lambda>s. Some (rekey s)) =
    map_option (map_sum (\<lambda>_. Some (mapped_hash fx graph)) id)
      (find_variant fx variants None graph (\<lambda>s. Some (rekey s)))"
proof -
  have "in_step fx rekey variants None" by (simp add: in_step_def)
  from find_variant_eq [OF this, of graph] find_variant_eq [OF assms, of graph] show ?thesis
    by (auto split: option.splits)
qed

theorem find_variant_fingerprints_witness:
  "find_variant length [sample_cfg] (Some [15]) (keyed (\<lambda>s. s) sample_cfg) (\<lambda>s. Some s) = Some (Inr 0)"
proof -
  have "in_step length (\<lambda>s. s) [sample_cfg] (Some [15])" by code_simp
  moreover have "find_variant length [sample_cfg] None (keyed (\<lambda>s. s) sample_cfg) (\<lambda>s. Some s) = Some (Inr 0)"
    by code_simp
  ultimately show ?thesis using find_variant_fingerprints by fastforce
qed

text \<open>The kept variant of an equal graph takes the other graph's sites as alternatives: each
  event gains exactly the mapped sites of the event at its rank among the kept ones, after
  its own and without repeats, and the rest of the graph is unchanged.\<close>

theorem add_alternatives_from_correct:
  assumes "length (filter (keeps ms) (cfg_events other)) = length (cfg_events g)"
    and "i < length (cfg_events g)"
  shows "(let new = mapped_sites (ev_sites (filter (keeps ms) (cfg_events other) ! i)) ms;
       e = cfg_events g ! i; e' = cfg_events (add_alternatives_from g other ms) ! i in
     ev_sites e' = dedup_onto (ev_sites e) new \<and> e'\<lparr>ev_sites := ev_sites e\<rparr> = e) \<and>
    add_alternatives_from g other ms = g\<lparr>cfg_events := cfg_events (add_alternatives_from g other ms)\<rparr> \<and>
    length (cfg_events (add_alternatives_from g other ms)) = length (cfg_events g)"
  using add_alternatives_from_nth [OF assms] assms(1)
  by (simp add: Let_def add_alternative_sites_def add_alternatives_from_def mapped_nonempty_keeps)

theorem add_alternatives_from_correct_witness:
  "ev_sites (cfg_events (add_alternatives_from sample_cfg sample_cfg (\<lambda>s. Some (s + 1))) ! 0) = [10, 11]"
proof -
  have "length (filter (keeps (\<lambda>s. Some (s + 1))) (cfg_events sample_cfg)) = length (cfg_events sample_cfg)"
    "0 < length (cfg_events sample_cfg)" by code_simp+
  from add_alternatives_from_correct [OF this]
  have "ev_sites (cfg_events (add_alternatives_from sample_cfg sample_cfg (\<lambda>s. Some (s + 1))) ! 0) =
    dedup_onto (ev_sites (cfg_events sample_cfg ! 0)) (mapped_sites
      (ev_sites (filter (keeps (\<lambda>s. Some (s + 1))) (cfg_events sample_cfg) ! 0)) (\<lambda>s. Some (s + 1)))"
    by (simp add: Let_def)
  also have "\<dots> = [10, 11]" by code_simp
  finally show ?thesis .
qed

end
