(* ===== verification/Cfg_Compact.thy ===== *)
theory Cfg_Compact
  imports Cfg
begin

text \<open>
  \<^verbatim>\<open>FunctionCfg::compact\<close> (\<^verbatim>\<open>trace-ir/src/cfg.rs\<close>): event-free ordinary blocks that only fall
  through are removed and their incoming edges redirected. Chains of removable blocks are
  resolved through a vector of targets with two sentinel values of \<^verbatim>\<open>u32\<close>; a cycle of removable
  blocks keeps the block the walk met it at. On a well-formed graph the operation never
  panics, keeps well-formedness and keeps reachability between the blocks that stay. The count of
  a block's outgoing edges has no width: a \<^verbatim>\<open>u32\<close> overflows only past 2 ^ 32 - 1 edges of one block.
\<close>

section \<open>The operation\<close>

definition unresolved :: nat where
  "unresolved = u32_max"

definition on_path :: nat where
  "on_path = u32_max - 1"

definition count_out :: "nat list \<Rightarrow> CfgEdge \<Rightarrow> nat list option" where
  "count_out out_degree e = do { d \<leftarrow> vget out_degree (e_from e); vset out_degree (e_from e) (d + 1) }"

text \<open>The one successor of each removable block; the conditions are read left to right.\<close>

definition mark_forward ::
  "Block list \<Rightarrow> nat list \<Rightarrow> BlockId option list \<Rightarrow> CfgEdge \<Rightarrow> BlockId option list option" where
  "mark_forward blocks out_degree forward e = (let b = e_from e in
     if e_kind e \<noteq> Fallthrough \<or> e_to e = e_from e then Some forward
     else do {
       d \<leftarrow> vget out_degree b;
       if d \<noteq> 1 then Some forward
       else do {
         blk \<leftarrow> vget blocks b;
         if blk_kind blk = Ordinary \<and> blk_events blk = [] then vset forward b (Some (e_to e))
         else Some forward } })"

text \<open>
  The inner loop from one start: the state is the forward vector, the targets, the path walked
  and the current block.
\<close>

function walk ::
  "BlockId option list \<Rightarrow> nat list \<Rightarrow> BlockId list \<Rightarrow> BlockId \<Rightarrow>
   (BlockId option list \<times> nat list \<times> BlockId list \<times> BlockId) option" where
  "walk forward target path b =
     (case vget target b of
        None \<Rightarrow> None
      | Some t \<Rightarrow>
          if t = on_path then Some (forward[b := None], target[b := as_u32 b], path, b)
          else if t \<noteq> unresolved then Some (forward, target, path, b)
          else (case vget forward b of
              None \<Rightarrow> None
            | Some None \<Rightarrow> Some (forward, target[b := as_u32 b], path, b)
            | Some (Some nxt) \<Rightarrow> walk forward (target[b := on_path]) (path @ [b]) nxt))"
  by pat_completeness auto
termination
proof (relation "measure (\<lambda>(forward, target, path, b). length (filter (\<lambda>t. t = unresolved) target))", simp)
  fix target :: "nat list" and b t :: nat and forward :: "BlockId option list" and path f nxt
  assume "vget target b = Some t" and "\<not> t \<noteq> unresolved"
  then have b: "b < length target" and u: "target ! b = unresolved" by (auto simp: vget_Some)
  have "target[b := on_path] = take b target @ on_path # drop (Suc b) target"
    using b by (rule upd_conv_take_nth_drop)
  moreover have "target = take b target @ unresolved # drop (Suc b) target"
    using b u by (metis id_take_nth_drop)
  then have "filter (\<lambda>t. t = unresolved) target =
      filter (\<lambda>t. t = unresolved) (take b target) @ unresolved # filter (\<lambda>t. t = unresolved) (drop (Suc b) target)"
    by (metis (full_types) filter.simps(2) filter_append)
  ultimately show "((forward, target[b := on_path], path @ [b], nxt), forward, target, path, b)
      \<in> measure (\<lambda>(forward, target, path, b). length (filter (\<lambda>t. t = unresolved) target))"
    by (simp add: on_path_def unresolved_def u32_max_def)
qed

declare walk.simps [simp del]

definition resolve_from ::
  "BlockId option list \<times> nat list \<Rightarrow> BlockId \<Rightarrow> (BlockId option list \<times> nat list) option" where
  "resolve_from ft start = (case ft of (forward, target) \<Rightarrow> do {
     (forward', target', path, b) \<leftarrow> walk forward target [] start;
     stop \<leftarrow> vget target' b;
     target'' \<leftarrow> foldM (\<lambda>t p. vset t p stop) target' path;
     Some (forward', target'') })"

definition renumber_kept :: "BlockId option list \<Rightarrow> nat list" where
  "renumber_kept forward = fst (foldl (\<lambda>(renumber, kept) f.
     if f = None then (renumber @ [kept], kept + 1) else (renumber @ [unresolved], kept)) ([], 0) forward)"

definition map_block :: "nat list \<Rightarrow> nat list \<Rightarrow> BlockId \<Rightarrow> BlockId option" where
  "map_block renumber target b = do { t \<leftarrow> vget target b; vget renumber t }"

definition redirect_edge ::
  "BlockId option list \<Rightarrow> nat list \<Rightarrow> nat list \<Rightarrow> CfgEdge \<Rightarrow> CfgEdge option" where
  "redirect_edge forward renumber target e = do {
     kind \<leftarrow> (if e_kind e = Sequenced
       then do { f \<leftarrow> vget forward (e_to e); Some (if f \<noteq> None then Fallthrough else Sequenced) }
       else Some (e_kind e));
     from \<leftarrow> map_block renumber target (e_from e);
     to \<leftarrow> map_block renumber target (e_to e);
     Some \<lparr>e_from = from, e_to = to, e_kind = kind\<rparr> }"

definition retain_edge :: "BlockId option list \<Rightarrow> CfgEdge \<Rightarrow> CfgEdge option option" where
  "retain_edge forward e = do { f \<leftarrow> vget forward (e_from e); Some (if f = None then Some e else None) }"

definition compact :: "FunctionCfg \<Rightarrow> FunctionCfg option" where
  "compact g = (let n = length (cfg_blocks g) in do {
     out_degree \<leftarrow> foldM count_out (replicate n 0) (cfg_edges g);
     forward \<leftarrow> foldM (mark_forward (cfg_blocks g) out_degree) (replicate n None) (cfg_edges g);
     if list_all (\<lambda>f. f = None) forward then Some (g\<lparr>cfg_edges := dedup_edges (cfg_edges g)\<rparr>)
     else do {
       (forward', target) \<leftarrow> foldM resolve_from (forward, replicate n unresolved) [0..<n];
       let renumber = renumber_kept forward';
       retained \<leftarrow> filter_mapM (retain_edge forward') (cfg_edges g);
       edges \<leftarrow> mapM (redirect_edge forward' renumber target) retained;
       events \<leftarrow> mapM (\<lambda>e. do { b \<leftarrow> map_block renumber target (ev_block e); Some (e\<lparr>ev_block := b\<rparr>) })
         (cfg_events g);
       entry \<leftarrow> map_block renumber target (cfg_entry g);
       exit \<leftarrow> map_block renumber target (cfg_exit g);
       exceptional_exit \<leftarrow> (case cfg_exceptional_exit g of
           None \<Rightarrow> Some None | Some b \<Rightarrow> map_option Some (map_block renumber target b));
       Some (g\<lparr>cfg_edges := dedup_edges edges,
         cfg_blocks := map fst (filter (\<lambda>(b, f). f = None) (zip (cfg_blocks g) forward')),
         cfg_events := events, cfg_entry := entry, cfg_exit := exit,
         cfg_exceptional_exit := exceptional_exit\<rparr>) } })"

section \<open>Out-degrees and removable blocks\<close>

lemma count_out_all:
  assumes "\<And>e. e \<in> set edges \<Longrightarrow> e_from e < n"
  shows "\<exists>d. foldM count_out (replicate n 0) edges = Some d \<and> length d = n \<and>
    (\<forall>b < n. d ! b = length (filter (\<lambda>e. e_from e = b) edges))"
proof (rule foldM_prefix_rule)
  show "length (replicate n (0::nat)) = n \<and>
      (\<forall>b < n. replicate n 0 ! b = length (filter (\<lambda>e. e_from e = b) []))" by simp
  show "\<exists>t. count_out d e = Some t \<and> length t = n \<and>
      (\<forall>b < n. t ! b = length (filter (\<lambda>e. e_from e = b) (don @ [e])))"
    if "length d = n \<and> (\<forall>b < n. d ! b = length (filter (\<lambda>e. e_from e = b) don))" "e \<in> set edges" for don e d
    using that assms [of e] by (auto simp: count_out_def vec_simps nth_list_update)
qed

definition removable :: "FunctionCfg \<Rightarrow> BlockId option list \<Rightarrow> bool" where
  "removable g forward \<longleftrightarrow> length forward = length (cfg_blocks g) \<and>
     (\<forall>b < length forward. \<forall>y. forward ! b = Some y \<longrightarrow>
        y < length forward \<and> blk_events (cfg_blocks g ! b) = [] \<and> blk_kind (cfg_blocks g ! b) = Ordinary \<and>
        (\<exists>e. filter (\<lambda>e. e_from e = b) (cfg_edges g) = [e] \<and> e_to e = y))"

lemma removableD:
  assumes "removable g forward" "b < length (cfg_blocks g)" "forward ! b = Some y"
  shows "y < length (cfg_blocks g)" "blk_events (cfg_blocks g ! b) = []"
    "blk_kind (cfg_blocks g ! b) = Ordinary"
    "\<exists>e. filter (\<lambda>e. e_from e = b) (cfg_edges g) = [e] \<and> e_to e = y"
  using assms by (auto simp: removable_def)

lemma singleton_filter: "length (filter p xs) = 1 \<Longrightarrow> x \<in> set xs \<Longrightarrow> p x \<Longrightarrow> filter p xs = [x]"
proof -
  assume one: "length (filter p xs) = 1" and x: "x \<in> set xs" "p x"
  from one obtain a where a: "filter p xs = [a]" by (auto simp: length_Suc_conv)
  from x have "x \<in> set (filter p xs)" by simp
  with a show ?thesis by simp
qed

lemma mark_forward_all:
  assumes wf: "wf_cfg g" and d: "length d = length (cfg_blocks g)"
    and deg: "\<And>b. b < length (cfg_blocks g) \<Longrightarrow> d ! b = length (filter (\<lambda>e. e_from e = b) (cfg_edges g))"
  shows "\<exists>forward. foldM (mark_forward (cfg_blocks g) d) (replicate (length (cfg_blocks g)) None) (cfg_edges g)
      = Some forward \<and> removable g forward"
proof (rule foldM_rule)
  show "removable g (replicate (length (cfg_blocks g)) None)" by (simp add: removable_def)
  show "\<exists>t. mark_forward (cfg_blocks g) d forward e = Some t \<and> removable g t"
    if r: "removable g forward" and e: "e \<in> set (cfg_edges g)" for forward e
  proof -
    let ?b = "e_from e"
    have b: "?b < length (cfg_blocks g)" and y: "e_to e < length (cfg_blocks g)"
      using wf_cfgD(3,4) [OF wf e] by auto
    have len: "length forward = length (cfg_blocks g)" using r by (simp add: removable_def)
    have "removable g (forward[?b := Some (e_to e)])"
      if one: "d ! ?b = 1" and blk: "blk_kind (cfg_blocks g ! ?b) = Ordinary" "blk_events (cfg_blocks g ! ?b) = []"
    proof -
      have "filter (\<lambda>x. e_from x = ?b) (cfg_edges g) = [e]"
        using one deg [OF b] e by (intro singleton_filter) auto
      with r b blk y len show ?thesis unfolding removable_def by (auto simp: nth_list_update)
    qed
    with r b len d show ?thesis by (auto simp: mark_forward_def Let_def vec_simps)
  qed
qed

section \<open>Resolving chains\<close>

definition resolved :: "BlockId option list \<Rightarrow> nat list \<Rightarrow> BlockId \<Rightarrow> bool" where
  "resolved forward target x \<longleftrightarrow>
     target ! x < length target \<and> forward ! (target ! x) = None \<and> target ! (target ! x) = target ! x \<and>
     (case forward ! x of None \<Rightarrow> target ! x = x
      | Some y \<Rightarrow> y < length target \<and> target ! y = target ! x)"

definition forward_ok :: "nat \<Rightarrow> (BlockId \<times> BlockId) set \<Rightarrow> BlockId option list \<Rightarrow> bool" where
  "forward_ok n r forward \<longleftrightarrow> length forward = n \<and>
     (\<forall>x < n. \<forall>y. forward ! x = Some y \<longrightarrow> y < n \<and> (x, y) \<in> r)"

text \<open>
  \<open>settling\<close>: off the path every block is unresolved or resolved; on the path every block
  carries the path sentinel and falls through to the path or to the current block.
\<close>

definition settling ::
  "nat \<Rightarrow> (BlockId \<times> BlockId) set \<Rightarrow> BlockId option list \<Rightarrow> nat list \<Rightarrow> BlockId list \<Rightarrow> BlockId \<Rightarrow> bool" where
  "settling n r forward target path b \<longleftrightarrow> forward_ok n r forward \<and> length target = n \<and> b < n \<and>
     (\<forall>x < n. x \<notin> set path \<longrightarrow>
        target ! x = unresolved \<or> resolved forward target x \<and> (x, target ! x) \<in> r\<^sup>*) \<and>
     (\<forall>x \<in> set path. x < n \<and> target ! x = on_path \<and> (x, b) \<in> r\<^sup>* \<and>
        (\<exists>y. forward ! x = Some y \<and> (y \<in> set path \<or> y = b)))"

text \<open>
  \<open>settled\<close>: where a walk stops. The block it stops at is resolved, and every block of the
  path leads to it.
\<close>

definition settled ::
  "nat \<Rightarrow> (BlockId \<times> BlockId) set \<Rightarrow> BlockId option list \<Rightarrow> nat list \<Rightarrow> BlockId list \<Rightarrow> BlockId \<Rightarrow> bool" where
  "settled n r forward target path b \<longleftrightarrow> forward_ok n r forward \<and> length target = n \<and> b < n \<and>
     resolved forward target b \<and> (b, target ! b) \<in> r\<^sup>* \<and>
     (\<forall>x < n. x \<notin> set path \<longrightarrow>
        target ! x = unresolved \<or> resolved forward target x \<and> (x, target ! x) \<in> r\<^sup>*) \<and>
     (\<forall>x \<in> set path. x < n \<and> (x, b) \<in> r\<^sup>* \<and>
        (x \<noteq> b \<longrightarrow> target ! x = on_path \<and> (\<exists>y. forward ! x = Some y \<and> (y \<in> set path \<or> y = b))))"

text \<open>A resolved block stays resolved when a block that is not resolved changes.\<close>

lemma resolved_frame:
  assumes "resolved forward target x" "length target \<le> on_path"
    and "target ! b = on_path \<or> target ! b = unresolved" and "x \<noteq> b"
    and "\<And>z. z \<noteq> b \<Longrightarrow> forward' ! z = forward ! z"
  shows "resolved forward' (target[b := t]) x"
proof -
  have big: "length target \<le> target ! b" using assms(2,3) by (auto simp: on_path_def unresolved_def u32_max_def)
  from assms(1) have "target ! x \<noteq> b" using big by (auto simp: resolved_def)
  moreover have "y \<noteq> b" if "forward ! x = Some y" for y
    using assms(1) that big by (auto simp: resolved_def)
  ultimately show ?thesis
    using assms(1,4,5) by (auto simp: resolved_def split: option.splits)
qed

lemma settling_step:
  assumes st: "settling n r forward target path b" and n: "n \<le> on_path"
    and u: "target ! b = unresolved" and f: "forward ! b = Some nxt"
  shows "settling n r forward (target[b := on_path]) (path @ [b]) nxt"
proof -
  have b: "b < n" and len: "length target = n" and ok: "forward_ok n r forward"
    using st by (auto simp: settling_def)
  have nxt: "nxt < n" "(b, nxt) \<in> r" using ok b f by (auto simp: forward_ok_def)
  have ne: "on_path \<noteq> unresolved" by (simp add: on_path_def unresolved_def u32_max_def)
  have off: "target[b := on_path] ! x = unresolved \<or>
      resolved forward (target[b := on_path]) x \<and> (x, target[b := on_path] ! x) \<in> r\<^sup>*"
    if "x < n" "x \<notin> set (path @ [b])" for x
    using that st n u len resolved_frame [of forward target x b forward on_path]
    by (auto simp: settling_def)
  have "\<exists>y. forward ! x = Some y \<and> (y \<in> set (path @ [b]) \<or> y = nxt)" if "x \<in> set (path @ [b])" for x
    using that st f by (auto simp: settling_def)
  moreover have "x < n \<and> target[b := on_path] ! x = on_path \<and> (x, nxt) \<in> r\<^sup>*" if "x \<in> set (path @ [b])" for x
    using that st b nxt(2) len by (cases "x = b") (auto simp: settling_def intro: rtrancl_into_rtrancl)
  ultimately show ?thesis using ok len nxt(1) off by (auto simp: settling_def)
qed

text \<open>The three ways a walk stops.\<close>

lemma settled_cycle:
  assumes st: "settling n r forward target path b" and n: "n \<le> on_path" and t: "target ! b = on_path"
  shows "settled n r (forward[b := None]) (target[b := b]) path b"
proof -
  have b: "b < n" and len: "length target = n" "length forward = n" and ok: "forward_ok n r forward"
    using st by (auto simp: settling_def forward_ok_def)
  have path: "b \<in> set path"
  proof (rule ccontr)
    assume "b \<notin> set path"
    with st b t have "resolved forward target b" by (auto simp: settling_def on_path_def unresolved_def u32_max_def)
    with t n len show False by (simp add: resolved_def)
  qed
  have "target[b := b] ! x = unresolved \<or>
      resolved (forward[b := None]) (target[b := b]) x \<and> (x, target[b := b] ! x) \<in> r\<^sup>*"
    if "x < n" "x \<notin> set path" for x
  proof -
    have "x \<noteq> b" using that(2) path by auto
    then show ?thesis
      using that st t len n resolved_frame [of forward target x b "forward[b := None]" b]
      by (auto simp: settling_def)
  qed
  moreover have "forward_ok n r (forward[b := None])"
    using ok b len by (auto simp: forward_ok_def nth_list_update split: if_splits)
  moreover have "resolved (forward[b := None]) (target[b := b]) b" using b len by (simp add: resolved_def)
  moreover have "x < n \<and> (x, b) \<in> r\<^sup>* \<and> (x \<noteq> b \<longrightarrow> target[b := b] ! x = on_path \<and>
      (\<exists>y. forward[b := None] ! x = Some y \<and> (y \<in> set path \<or> y = b)))" if "x \<in> set path" for x
    using that st by (auto simp: settling_def)
  ultimately show ?thesis using b len by (auto simp: settled_def)
qed

lemma settled_known:
  assumes st: "settling n r forward target path b" and n: "n \<le> on_path"
    and t: "target ! b \<noteq> on_path" "target ! b \<noteq> unresolved"
  shows "settled n r forward target path b"
proof -
  have "b \<notin> set path" using st t(1) by (auto simp: settling_def)
  with st t(2) have "resolved forward target b \<and> (b, target ! b) \<in> r\<^sup>*" by (auto simp: settling_def)
  with st show ?thesis by (auto simp: settling_def settled_def)
qed

lemma settled_end:
  assumes st: "settling n r forward target path b" and n: "n \<le> on_path"
    and t: "target ! b = unresolved" and f: "forward ! b = None"
  shows "settled n r forward (target[b := b]) path b"
proof -
  have b: "b < n" and len: "length target = n" "length forward = n"
    using st by (auto simp: settling_def forward_ok_def)
  have path: "b \<notin> set path" using st t by (auto simp: settling_def on_path_def unresolved_def u32_max_def)
  have "resolved forward (target[b := b]) b" using b f len by (simp add: resolved_def)
  moreover have "target[b := b] ! x = unresolved \<or>
      resolved forward (target[b := b]) x \<and> (x, target[b := b] ! x) \<in> r\<^sup>*"
    if "x < n" "x \<notin> set path" for x
    using that st t len n b calculation resolved_frame [of forward target x b forward b]
    by (cases "x = b") (auto simp: settling_def)
  moreover have "target[b := b] ! x = target ! x" if "x \<in> set path" for x
    using that path by (cases "x = b") auto
  ultimately show ?thesis using st b len by (auto simp: settling_def settled_def)
qed

lemma walk_settles:
  assumes "settling n r forward target path b" and "n \<le> on_path"
  shows "\<exists>forward' target' path' b'. walk forward target path b = Some (forward', target', path', b') \<and>
    settled n r forward' target' path' b' \<and> insert b (set path) \<subseteq> insert b' (set path') \<and>
    (\<forall>x < n. target ! x \<noteq> unresolved \<longrightarrow> target' ! x \<noteq> unresolved)"
  using assms(1)
proof (induction forward target path b rule: walk.induct)
  case (1 forward target path b)
  note st = "1.prems"
  have b: "b < n" and len: "length target = n" "length forward = n"
    using st by (auto simp: settling_def forward_ok_def)
  have ub: "as_u32 b = b" "b \<noteq> unresolved"
    using b assms(2) by (auto simp: as_u32_def on_path_def unresolved_def u32_max_def)
  have step: "walk forward target path b =
      (if target ! b = on_path then Some (forward[b := None], target[b := b], path, b)
       else if target ! b \<noteq> unresolved then Some (forward, target, path, b)
       else (case forward ! b of None \<Rightarrow> Some (forward, target[b := b], path, b)
          | Some nxt \<Rightarrow> walk forward (target[b := on_path]) (path @ [b]) nxt))"
    using b len ub by (subst walk.simps) (simp add: vec_simps split: option.splits)
  consider "target ! b = on_path" | "target ! b \<noteq> on_path" "target ! b \<noteq> unresolved"
    | "target ! b = unresolved" "target ! b \<noteq> on_path" "forward ! b = None"
    | nxt where "target ! b = unresolved" "target ! b \<noteq> on_path" "forward ! b = Some nxt"
    by (metis not_None_eq)
  then show ?case
  proof cases
    case 1
    with settled_cycle [OF st assms(2) 1] ub b len show ?thesis by (auto simp: step nth_list_update)
  next
    case 2
    with settled_known [OF st assms(2) 2] show ?thesis by (auto simp: step)
  next
    case 3
    with settled_end [OF st assms(2) 3(1,3)] ub b len show ?thesis by (auto simp: step nth_list_update)
  next
    case 4
    have "settling n r forward (target[b := on_path]) (path @ [b]) nxt"
      using settling_step [OF st assms(2) 4(1,3)] .
    with "1.IH" [of "target ! b" "Some nxt" nxt] 4 b len obtain f' t' p' b' where
      w: "walk forward (target[b := on_path]) (path @ [b]) nxt = Some (f', t', p', b')"
        "settled n r f' t' p' b'" "insert nxt (set (path @ [b])) \<subseteq> insert b' (set p')"
        "\<forall>x < n. target[b := on_path] ! x \<noteq> unresolved \<longrightarrow> t' ! x \<noteq> unresolved"
      by (auto simp: vec_simps)
    moreover have "target[b := on_path] ! x \<noteq> unresolved" if "x < n" "target ! x \<noteq> unresolved" for x
      using that 4(1) by (cases "x = b") auto
    ultimately show ?thesis using 4 by (auto simp: step)
  qed
qed

text \<open>Writing the end of the walk over its path resolves every block of the path.\<close>

definition overwrite :: "nat list \<Rightarrow> nat list \<Rightarrow> nat \<Rightarrow> nat list" where
  "overwrite target path stop = map (\<lambda>x. if x \<in> set path then stop else target ! x) [0..<length target]"

lemma overwrite_all:
  assumes "\<And>p. p \<in> set path \<Longrightarrow> p < length target"
  shows "foldM (\<lambda>t p. vset t p stop) target path = Some (overwrite target path stop)"
  using assms
proof (induction path rule: rev_induct)
  case Nil
  then show ?case by (simp add: overwrite_def map_nth)
next
  case (snoc p path)
  have "(overwrite target path stop)[p := stop] = overwrite target (path @ [p]) stop"
    using snoc.prems by (intro nth_equalityI) (auto simp: overwrite_def nth_list_update)
  then show ?case
    using snoc.IH snoc.prems by (simp add: foldM_append vset_def) (simp add: overwrite_def)
qed

definition targets_ok :: "nat \<Rightarrow> (BlockId \<times> BlockId) set \<Rightarrow> BlockId option list \<times> nat list \<Rightarrow> bool" where
  "targets_ok n r ft \<longleftrightarrow> forward_ok n r (fst ft) \<and> length (snd ft) = n \<and>
     (\<forall>x < n. snd ft ! x = unresolved \<or> resolved (fst ft) (snd ft) x \<and> (x, snd ft ! x) \<in> r\<^sup>*)"

lemma settled_overwrite:
  assumes st: "settled n r forward target path b" and n: "n \<le> on_path"
  defines "t \<equiv> overwrite target path (target ! b)"
  shows "targets_ok n r (forward, t)" "\<forall>x \<in> insert b (set path). t ! x \<noteq> unresolved"
    "\<forall>x < n. target ! x \<noteq> unresolved \<longrightarrow> t ! x \<noteq> unresolved"
proof -
  let ?stop = "target ! b"
  have len: "length target = n" "length t = n" and b: "b < n"
    using st by (auto simp: settled_def t_def overwrite_def)
  have t: "t ! x = (if x \<in> set path then ?stop else target ! x)" if "x < n" for x
    using that len by (simp add: t_def overwrite_def)
  have rb: "resolved forward target b" "(b, ?stop) \<in> r\<^sup>*" using st by (auto simp: settled_def)
  have stop: "?stop < n" "forward ! ?stop = None" "target ! ?stop = ?stop" using rb(1) len by (auto simp: resolved_def)
  have big: "\<not> on_path < n" "\<not> unresolved < n" using n by (auto simp: on_path_def unresolved_def u32_max_def)
  have same: "t ! z = target ! z" if "z < n" "target ! z < n" for z
    using that st t [of z] big by (auto simp: settled_def split: if_splits)
  have tb: "t ! b = ?stop" using t [OF b] by simp
  have on: "resolved forward t x \<and> (x, t ! x) \<in> r\<^sup>*" if x: "x \<in> insert b (set path)" for x
  proof -
    have "x < n" "(x, b) \<in> r\<^sup>*" using x st b by (auto simp: settled_def)
    moreover have tx: "t ! x = ?stop" using x t [of x] \<open>x < n\<close> tb by auto
    moreover have "case forward ! x of None \<Rightarrow> ?stop = x | Some y \<Rightarrow> y < n \<and> t ! y = ?stop"
    proof (cases "x = b")
      case True
      with rb(1) len same stop(1) show ?thesis by (auto simp: resolved_def split: option.splits)
    next
      case False
      with x st obtain y where "forward ! x = Some y" "y \<in> set path \<or> y = b" by (auto simp: settled_def)
      with st t tb b show ?thesis by (auto simp: settled_def)
    qed
    ultimately show ?thesis using stop same len rb(2) by (auto simp: resolved_def split: option.splits)
  qed
  have off: "t ! x = unresolved \<or> resolved forward t x \<and> (x, t ! x) \<in> r\<^sup>*" if x: "x < n" "x \<notin> set path" for x
    using x st t [OF x(1)] same len unfolding settled_def resolved_def by (auto split: option.splits)
  show "targets_ok n r (forward, t)"
    using st on off len by (auto simp: targets_ok_def settled_def)
  show "\<forall>x \<in> insert b (set path). t ! x \<noteq> unresolved"
  proof
    fix x assume "x \<in> insert b (set path)"
    then have "t ! x < n" using on len by (simp add: resolved_def)
    with big show "t ! x \<noteq> unresolved" by auto
  qed
  show "\<forall>x < n. target ! x \<noteq> unresolved \<longrightarrow> t ! x \<noteq> unresolved"
    using t stop(1) big by auto
qed

lemma resolve_from_ok:
  assumes ok: "targets_ok n r ft" and s: "s < n" and n: "n \<le> on_path"
  shows "\<exists>ft'. resolve_from ft s = Some ft' \<and> targets_ok n r ft' \<and> snd ft' ! s \<noteq> unresolved \<and>
    (\<forall>x < n. snd ft ! x \<noteq> unresolved \<longrightarrow> snd ft' ! x \<noteq> unresolved)"
proof -
  obtain forward target where ft: "ft = (forward, target)" by (cases ft)
  have "settling n r forward target [] s" using ok s by (simp add: ft targets_ok_def settling_def)
  from walk_settles [OF this n] obtain f' t' p' b' where
    w: "walk forward target [] s = Some (f', t', p', b')" "settled n r f' t' p' b'"
      "insert s {} \<subseteq> insert b' (set p')" "\<forall>x < n. target ! x \<noteq> unresolved \<longrightarrow> t' ! x \<noteq> unresolved"
    by auto
  have "b' < length t'" and "\<And>p. p \<in> set p' \<Longrightarrow> p < length t'" using w(2) by (auto simp: settled_def)
  then have "resolve_from ft s = Some (f', overwrite t' p' (t' ! b'))"
    using w(1) overwrite_all [of p' t' "t' ! b'"] by (simp add: resolve_from_def ft vec_simps)
  with settled_overwrite [OF w(2) n] w(3,4) show ?thesis by (auto simp: ft)
qed

lemma resolve_all:
  assumes ok: "forward_ok n r forward" and n: "n \<le> on_path"
  shows "\<exists>forward' target. foldM resolve_from (forward, replicate n unresolved) [0..<n] = Some (forward', target) \<and>
    forward_ok n r forward' \<and> length target = n \<and>
    (\<forall>x < n. resolved forward' target x \<and> (x, target ! x) \<in> r\<^sup>*)"
proof -
  have "\<exists>ft. foldM resolve_from (forward, replicate n unresolved) [0..<n] = Some ft \<and>
      targets_ok n r ft \<and> (\<forall>s \<in> set [0..<n]. s < n \<and> snd ft ! s \<noteq> unresolved)"
  proof (rule foldM_prefix_rule)
    show "targets_ok n r (forward, replicate n unresolved) \<and>
        (\<forall>s \<in> set []. s < n \<and> snd (forward, replicate n unresolved) ! s \<noteq> unresolved)"
      using ok by (simp add: targets_ok_def)
  next
    fix don s ft
    assume I: "targets_ok n r ft \<and> (\<forall>s \<in> set don. s < n \<and> snd ft ! s \<noteq> unresolved)" and s: "s \<in> set [0..<n]"
    from I s resolve_from_ok [of n r ft s] n obtain ft' where
      "resolve_from ft s = Some ft'" "targets_ok n r ft'" "snd ft' ! s \<noteq> unresolved"
      "\<forall>x < n. snd ft ! x \<noteq> unresolved \<longrightarrow> snd ft' ! x \<noteq> unresolved" by auto
    with I s show "\<exists>ft'. resolve_from ft s = Some ft' \<and> targets_ok n r ft' \<and>
        (\<forall>s \<in> set (don @ [s]). s < n \<and> snd ft' ! s \<noteq> unresolved)"
      by auto
  qed
  then show ?thesis by (auto simp: targets_ok_def)
qed

section \<open>The compacted graph\<close>

definition edge_rel :: "FunctionCfg \<Rightarrow> (BlockId \<times> BlockId) set" where
  "edge_rel g = (\<lambda>e. (e_from e, e_to e)) ` set (cfg_edges g)"

text \<open>Blocks that are never removed: those with an event and those that are not ordinary.\<close>

definition anchored :: "FunctionCfg \<Rightarrow> BlockId \<Rightarrow> bool" where
  "anchored g b \<longleftrightarrow> b < length (cfg_blocks g) \<and>
     (blk_kind (cfg_blocks g ! b) \<noteq> Ordinary \<or> blk_events (cfg_blocks g ! b) \<noteq> [])"

lemma renumber_kept_eq:
  "renumber_kept forward =
     map (\<lambda>b. if forward ! b = None then rank (\<lambda>f. f = None) forward b else unresolved) [0..<length forward]"
proof -
  have "foldl (\<lambda>(renumber, kept) f.
      if f = None then (renumber @ [kept], kept + 1) else (renumber @ [unresolved], kept)) ([], 0) forward =
    (map (\<lambda>b. if forward ! b = None then rank (\<lambda>f. f = None) forward b else unresolved) [0..<length forward],
     length (filter (\<lambda>f. f = None) forward))"
  proof (induction forward rule: rev_induct)
    case (snoc f forward)
    then show ?case by (simp add: rank_def nth_append)
  qed simp
  then show ?thesis by (simp add: renumber_kept_def)
qed

text \<open>What resolving the chains of a graph leaves.\<close>

definition chained :: "FunctionCfg \<Rightarrow> BlockId option list \<Rightarrow> nat list \<Rightarrow> bool" where
  "chained g forward target \<longleftrightarrow> removable g forward \<and> length target = length (cfg_blocks g) \<and>
     (\<forall>x < length (cfg_blocks g). resolved forward target x \<and> (x, target ! x) \<in> (edge_rel g)\<^sup>*)"

definition new_block :: "BlockId option list \<Rightarrow> nat list \<Rightarrow> BlockId \<Rightarrow> BlockId" where
  "new_block forward target b = rank (\<lambda>f. f = None) forward (target ! b)"

lemma chainsD:
  assumes "chained g forward target" "x < length (cfg_blocks g)"
  shows "target ! x < length (cfg_blocks g)" "forward ! (target ! x) = None"
    and "forward ! x = None \<Longrightarrow> target ! x = x"
    and "forward ! x = Some y \<Longrightarrow> target ! y = target ! x"
    and "(x, target ! x) \<in> (edge_rel g)\<^sup>*"
    and "length forward = length (cfg_blocks g)" "length target = length (cfg_blocks g)"
  using assms by (auto simp: chained_def removable_def resolved_def)

lemma chains_map_block:
  assumes "chained g forward target" "b < length (cfg_blocks g)"
  shows "map_block (renumber_kept forward) target b = Some (new_block forward target b)"
  using assms chainsD [OF assms]
  by (simp add: map_block_def vec_simps renumber_kept_eq new_block_def)

lemma chains_anchored:
  assumes "chained g forward target" "anchored g b"
  shows "forward ! b = None"
  using assms by (cases "forward ! b") (auto simp: chained_def removable_def anchored_def)

lemma filter_zip_rank:
  assumes "length xs = length ys" "i < length ys" "p (ys ! i)"
  shows "map fst (filter (\<lambda>(x, y). p y) (zip xs ys)) ! rank p ys i = xs ! i"
    and "length (filter (\<lambda>(x, y). p y) (zip xs ys)) = length (filter p ys)"
proof -
  have len: "length (filter (\<lambda>(x, y). p y) (zip as bs)) = length (filter p bs)"
    if "length as = length bs" for as :: "'a list" and bs
    using that by (induction as bs rule: list_induct2) auto
  show "length (filter (\<lambda>(x, y). p y) (zip xs ys)) = length (filter p ys)" using assms(1) by (rule len)
  have "rank (\<lambda>(x, y). p y) (zip xs ys) i = rank p ys i"
    using len [of "take i xs" "take i ys"] assms(1) by (simp add: rank_def take_zip)
  moreover have "filter (\<lambda>(x, y). p y) (zip xs ys) ! rank (\<lambda>(x, y). p y) (zip xs ys) i = zip xs ys ! i"
    using assms by (intro nth_filter_rank) simp_all
  moreover have "rank (\<lambda>(x, y). p y) (zip xs ys) i < length (filter (\<lambda>(x, y). p y) (zip xs ys))"
    using assms by (intro rank_less) simp_all
  ultimately show "map fst (filter (\<lambda>(x, y). p y) (zip xs ys)) ! rank p ys i = xs ! i"
    using assms(1,2) by simp
qed

definition redirected :: "BlockId option list \<Rightarrow> nat list \<Rightarrow> CfgEdge \<Rightarrow> CfgEdge" where
  "redirected forward target e =
     \<lparr>e_from = new_block forward target (e_from e), e_to = new_block forward target (e_to e),
      e_kind = (if e_kind e = Sequenced \<and> forward ! e_to e \<noteq> None then Fallthrough else e_kind e)\<rparr>"

definition compacted :: "FunctionCfg \<Rightarrow> BlockId option list \<Rightarrow> nat list \<Rightarrow> FunctionCfg" where
  "compacted g forward target = g\<lparr>
     cfg_edges := dedup_edges (map (redirected forward target)
       (filter (\<lambda>e. forward ! e_from e = None) (cfg_edges g))),
     cfg_blocks := map fst (filter (\<lambda>(b, f). f = None) (zip (cfg_blocks g) forward)),
     cfg_events := map (\<lambda>e. e\<lparr>ev_block := new_block forward target (ev_block e)\<rparr>) (cfg_events g),
     cfg_entry := new_block forward target (cfg_entry g),
     cfg_exit := new_block forward target (cfg_exit g),
     cfg_exceptional_exit := map_option (new_block forward target) (cfg_exceptional_exit g)\<rparr>"

lemma chains_exist:
  assumes wf: "wf_cfg g" and n: "length (cfg_blocks g) \<le> on_path" and rem: "removable g forward"
  shows "\<exists>forward' target.
    foldM resolve_from (forward, replicate (length (cfg_blocks g)) unresolved) [0..<length (cfg_blocks g)]
      = Some (forward', target) \<and> chained g forward' target"
proof -
  let ?n = "length (cfg_blocks g)" and ?r = "{(x, y). x < length (cfg_blocks g) \<and> forward ! x = Some y}"
  have "forward_ok ?n ?r forward" using rem by (auto simp: forward_ok_def removable_def)
  from resolve_all [OF this n] obtain forward' target where
    res: "foldM resolve_from (forward, replicate ?n unresolved) [0..<?n] = Some (forward', target)"
      "forward_ok ?n ?r forward'" "length target = ?n"
      "\<forall>x < ?n. resolved forward' target x \<and> (x, target ! x) \<in> ?r\<^sup>*" by blast
  have "removable g forward'"
    using res(2) rem unfolding removable_def forward_ok_def by auto
  moreover have "?r \<subseteq> edge_rel g"
  proof clarify
    fix x y assume "x < ?n" "forward ! x = Some y"
    from removableD(4) [OF rem this] obtain e where e: "filter (\<lambda>e. e_from e = x) (cfg_edges g) = [e]" "e_to e = y"
      by auto
    then have "{e' \<in> set (cfg_edges g). e_from e' = x} = {e}" by (metis list.simps(15) set_empty2 set_filter)
    then have "e \<in> set (cfg_edges g)" "e_from e = x" by blast+
    with e(2) show "(x, y) \<in> edge_rel g" by (auto simp: edge_rel_def)
  qed
  then have "?r\<^sup>* \<subseteq> (edge_rel g)\<^sup>*" by (rule rtrancl_mono)
  ultimately show ?thesis using res by (auto simp: chained_def)
qed

lemma compact_chains:
  assumes wf: "wf_cfg g" and ch: "chained g forward target"
  shows "filter_mapM (retain_edge forward) (cfg_edges g) = Some (filter (\<lambda>e. forward ! e_from e = None) (cfg_edges g))"
    and "mapM (redirect_edge forward (renumber_kept forward) target)
        (filter (\<lambda>e. forward ! e_from e = None) (cfg_edges g)) =
      Some (map (redirected forward target) (filter (\<lambda>e. forward ! e_from e = None) (cfg_edges g)))"
    and "mapM (\<lambda>e. do { b \<leftarrow> map_block (renumber_kept forward) target (ev_block e); Some (e\<lparr>ev_block := b\<rparr>) })
        (cfg_events g) = Some (map (\<lambda>e. e\<lparr>ev_block := new_block forward target (ev_block e)\<rparr>) (cfg_events g))"
proof -
  have len: "length forward = length (cfg_blocks g)" using ch by (simp add: chained_def removable_def)
  note E = wf_cfgD(3,4) [OF wf] and M = chains_map_block [OF ch]
  have "filter_mapM (retain_edge forward) (cfg_edges g)
      = Some (List.map_filter (\<lambda>e. if forward ! e_from e = None then Some e else None) (cfg_edges g))"
    using E len by (intro filter_mapM_total) (simp add: retain_edge_def vec_simps)
  moreover have "List.map_filter (\<lambda>e. if forward ! e_from e = None then Some e else None) es
      = filter (\<lambda>e. forward ! e_from e = None) es" for es
    by (induction es) (simp_all add: List.map_filter_simps)
  ultimately show "filter_mapM (retain_edge forward) (cfg_edges g)
      = Some (filter (\<lambda>e. forward ! e_from e = None) (cfg_edges g))" by simp
  show "mapM (redirect_edge forward (renumber_kept forward) target)
        (filter (\<lambda>e. forward ! e_from e = None) (cfg_edges g)) =
      Some (map (redirected forward target) (filter (\<lambda>e. forward ! e_from e = None) (cfg_edges g)))"
    using E M len by (intro mapM_total) (auto simp: redirect_edge_def redirected_def vec_simps)
  show "mapM (\<lambda>e. do { b \<leftarrow> map_block (renumber_kept forward) target (ev_block e); Some (e\<lparr>ev_block := b\<rparr>) })
        (cfg_events g) = Some (map (\<lambda>e. e\<lparr>ev_block := new_block forward target (ev_block e)\<rparr>) (cfg_events g))"
    using wf_cfgD(5) [OF wf] M by (intro mapM_total) (auto simp: in_set_conv_nth)
qed

lemma compact_cases:
  assumes wf: "wf_cfg g" and n: "length (cfg_blocks g) \<le> on_path"
  obtains "compact g = Some (g\<lparr>cfg_edges := dedup_edges (cfg_edges g)\<rparr>)"
  | forward target where "chained g forward target" "compact g = Some (compacted g forward target)"
proof -
  let ?n = "length (cfg_blocks g)"
  from count_out_all [of "cfg_edges g" ?n] wf_cfgD(3) [OF wf] obtain d where
    d: "foldM count_out (replicate ?n 0) (cfg_edges g) = Some d" "length d = ?n"
      "\<And>b. b < ?n \<Longrightarrow> d ! b = length (filter (\<lambda>e. e_from e = b) (cfg_edges g))" by auto
  from mark_forward_all [OF wf d(2,3)] obtain forward0 where
    f0: "foldM (mark_forward (cfg_blocks g) d) (replicate ?n None) (cfg_edges g) = Some forward0"
      "removable g forward0" by auto
  from chains_exist [OF wf n f0(2)] obtain forward target where
    ch: "foldM resolve_from (forward0, replicate ?n unresolved) [0..<?n] = Some (forward, target)"
      "chained g forward target" by auto
  show thesis
  proof (cases "list_all (\<lambda>f. f = None) forward0")
    case True
    with d(1) f0(1) that(1) show ?thesis by (simp add: compact_def Let_def)
  next
    case False
    have ends: "map_block (renumber_kept forward) target (cfg_entry g) = Some (new_block forward target (cfg_entry g))"
        "map_block (renumber_kept forward) target (cfg_exit g) = Some (new_block forward target (cfg_exit g))"
        "(case cfg_exceptional_exit g of None \<Rightarrow> Some None
          | Some b \<Rightarrow> map_option Some (map_block (renumber_kept forward) target b)) =
         Some (map_option (new_block forward target) (cfg_exceptional_exit g))"
      using chains_map_block [OF ch(2)] wf_cfgD(1,2,10) [OF wf] by (auto split: option.splits)
    have "compact g = Some (compacted g forward target)"
      using False d(1) f0(1) ch(1)
      by (simp add: compact_def Let_def compact_chains [OF wf ch(2)] ends compacted_def)
    with ch(2) show ?thesis by (rule that(2))
  qed
qed

lemma new_block_less:
  assumes "chained g forward target" "b < length (cfg_blocks g)"
  shows "new_block forward target b < length (cfg_blocks (compacted g forward target))"
proof -
  note C = chainsD [OF assms]
  have "rank (\<lambda>f. f = None) forward (target ! b) < length (filter (\<lambda>f. f = None) forward)"
    using C by (intro rank_less) simp_all
  then show ?thesis
    using filter_zip_rank(2) [of "cfg_blocks g" forward "target ! b" "\<lambda>f. f = None"] C
    by (simp add: new_block_def compacted_def)
qed

lemma new_block_kept:
  assumes "chained g forward target" "b < length (cfg_blocks g)" "forward ! b = None"
  shows "cfg_blocks (compacted g forward target) ! new_block forward target b = cfg_blocks g ! b"
  using filter_zip_rank(1) [of "cfg_blocks g" forward b "\<lambda>f. f = None"] chainsD [OF assms(1,2)] assms(2,3)
  by (simp add: new_block_def compacted_def)

lemma new_block_inj:
  assumes "chained g forward target" "a < length (cfg_blocks g)" "b < length (cfg_blocks g)"
    and "forward ! a = None" "forward ! b = None" "new_block forward target a = new_block forward target b"
  shows "a = b"
proof -
  have "target ! a = a" "target ! b = b" "length forward = length (cfg_blocks g)"
    using assms chainsD(3,6) [OF assms(1)] by auto
  with assms show ?thesis by (intro rank_inj [of a forward b "\<lambda>f. f = None"]) (simp_all add: new_block_def)
qed

lemma new_block_onto:
  assumes "chained g forward target" "k < length (cfg_blocks (compacted g forward target))"
  shows "\<exists>b < length (cfg_blocks g). forward ! b = None \<and> new_block forward target b = k"
proof -
  have len: "length forward = length (cfg_blocks g)" using assms(1) by (simp add: chained_def removable_def)
  have "length (filter (\<lambda>(b, f). f = None) (zip as fs)) = length (filter (\<lambda>f. f = None) fs)"
    if "length as = length fs" for as :: "Block list" and fs :: "BlockId option list"
    using that by (induction as fs rule: list_induct2) auto
  with assms(2) len have "k < length (filter (\<lambda>f. f = None) forward)" by (simp add: compacted_def)
  from rank_surj [OF this] chainsD(3) [OF assms(1)] len show ?thesis by (force simp: new_block_def)
qed

lemma event_block_kept:
  assumes wf: "wf_cfg g" and ch: "chained g forward target" and e: "e < length (cfg_events g)"
  shows "forward ! ev_block (cfg_events g ! e) = None"
proof (rule chains_anchored [OF ch])
  let ?b = "ev_block (cfg_events g ! e)"
  have b: "?b < length (cfg_blocks g)" using wf_cfgD(5) [OF wf e] .
  then have "e \<in> set (blk_events (cfg_blocks g ! ?b))" using wf_cfgD(9) [OF wf b] e by auto
  with b show "anchored g ?b" by (auto simp: anchored_def)
qed

lemma compacted_wf:
  assumes wf: "wf_cfg g" and ch: "chained g forward target"
  shows "wf_cfg (compacted g forward target)"
proof (rule wf_cfgI)
  let ?g = "compacted g forward target"
  note D = wf_cfgD [OF wf] and less = new_block_less [OF ch]
  have ne: "length (cfg_events ?g) = length (cfg_events g)" by (simp add: compacted_def)
  show "length (cfg_events ?g) \<le> u32_max" using D(11) ne by simp
  show "cfg_entry ?g < length (cfg_blocks ?g)" "cfg_exit ?g < length (cfg_blocks ?g)"
    using less [OF D(1)] less [OF D(2)] by (simp_all add: compacted_def)
  show "b < length (cfg_blocks ?g)" if "cfg_exceptional_exit ?g = Some b" for b
    using that less D(10) by (auto simp: compacted_def)
  show "e_from x < length (cfg_blocks ?g) \<and> e_to x < length (cfg_blocks ?g)" if "x \<in> set (cfg_edges ?g)" for x
  proof -
    from that obtain e where "e \<in> set (cfg_edges g)" "x = redirected forward target e"
      by (auto simp: compacted_def dedup_edges_eq)
    with less D(3,4) show ?thesis by (simp add: redirected_def)
  qed
  show "ev_block x < length (cfg_blocks ?g)" if "x \<in> set (cfg_events ?g)" for x
    using that less D(5) by (auto simp: compacted_def in_set_conv_nth)
  show "a < length (cfg_events ?g) \<and> c < length (cfg_events ?g)" if "(a, c) \<in> set (cfg_order ?g)" for a c
    using that D(6) by (simp add: compacted_def)
  show "gap_ok (length (cfg_events ?g)) y" if "y \<in> set (cfg_gaps ?g)" for y
    using that D(7) by (simp add: compacted_def)
  fix k assume "k < length (cfg_blocks ?g)"
  then obtain b where b: "b < length (cfg_blocks g)" "forward ! b = None" "new_block forward target b = k"
    using new_block_onto [OF ch] by blast
  have blk: "cfg_blocks ?g ! k = cfg_blocks g ! b" using new_block_kept [OF ch b(1,2)] b(3) by simp
  show "distinct (blk_events (cfg_blocks ?g ! k))" using D(8) [OF b(1)] by (simp add: blk)
  have ev: "ev_block (cfg_events ?g ! e) = k \<longleftrightarrow> ev_block (cfg_events g ! e) = b" if e: "e < length (cfg_events g)" for e
    using e b new_block_inj [OF ch D(5) [OF e] b(1) event_block_kept [OF wf ch e] b(2)]
    by (auto simp: compacted_def)
  show "set (blk_events (cfg_blocks ?g ! k)) =
      {e. e < length (cfg_events ?g) \<and> ev_block (cfg_events ?g ! e) = k}"
    unfolding blk D(9) [OF b(1)] ne using ev by auto
qed

section \<open>Reachability\<close>

lemma edge_rel_dedup: "edge_rel (g\<lparr>cfg_edges := dedup_edges (cfg_edges g)\<rparr>) = edge_rel g"
  by (simp add: edge_rel_def dedup_edges_eq)

lemma edge_rel_compacted:
  "edge_rel (compacted g forward target) =
     {(new_block forward target (e_from e), new_block forward target (e_to e)) | e.
        e \<in> set (cfg_edges g) \<and> forward ! e_from e = None}"
proof -
  have "edge_rel (compacted g forward target) = (\<lambda>e. (e_from (redirected forward target e), e_to (redirected forward target e)))
      ` set (filter (\<lambda>e. forward ! e_from e = None) (cfg_edges g))"
    by (simp add: edge_rel_def compacted_def dedup_edges_eq image_image)
  then show ?thesis by (auto simp: redirected_def)
qed

lemma reach_forward:
  assumes wf: "wf_cfg g" and ch: "chained g forward target" and ab: "(a, b) \<in> (edge_rel g)\<^sup>*"
  shows "(new_block forward target a, new_block forward target b) \<in> (edge_rel (compacted g forward target))\<^sup>*"
  using ab
proof (induction rule: rtrancl_induct)
  case (step x y)
  then obtain e where e: "e \<in> set (cfg_edges g)" "x = e_from e" "y = e_to e" by (auto simp: edge_rel_def)
  have x: "x < length (cfg_blocks g)" using wf_cfgD(3) [OF wf e(1)] e(2) by simp
  show ?case
  proof (cases "forward ! x")
    case None
    with e have "(new_block forward target x, new_block forward target y) \<in> edge_rel (compacted g forward target)"
      unfolding edge_rel_compacted by blast
    with step.IH show ?thesis by (rule rtrancl_into_rtrancl)
  next
    case (Some z)
    have "removable g forward" using ch by (simp add: chained_def)
    from removableD(4) [OF this x Some] obtain e' where "filter (\<lambda>e. e_from e = x) (cfg_edges g) = [e']" "e_to e' = z"
      by auto
    moreover have "e \<in> set (filter (\<lambda>e. e_from e = x) (cfg_edges g))" using e by simp
    ultimately have "y = z" using e(3) by simp
    then have "new_block forward target x = new_block forward target y"
      using chainsD(4) [OF ch x Some] by (simp add: new_block_def)
    with step.IH show ?thesis by simp
  qed
qed simp

lemma reach_backward:
  assumes wf: "wf_cfg g" and ch: "chained g forward target"
    and a: "a < length (cfg_blocks g)" "forward ! a = None"
    and k: "(new_block forward target a, k) \<in> (edge_rel (compacted g forward target))\<^sup>*"
  shows "\<exists>b < length (cfg_blocks g). forward ! b = None \<and> new_block forward target b = k \<and> (a, b) \<in> (edge_rel g)\<^sup>*"
  using k
proof (induction rule: rtrancl_induct)
  case base
  with a show ?case by blast
next
  case (step k l)
  then obtain b where b: "b < length (cfg_blocks g)" "forward ! b = None" "new_block forward target b = k"
    "(a, b) \<in> (edge_rel g)\<^sup>*" by blast
  from step.hyps(2) obtain e where e: "e \<in> set (cfg_edges g)" "forward ! e_from e = None"
    "k = new_block forward target (e_from e)" "l = new_block forward target (e_to e)"
    unfolding edge_rel_compacted by blast
  note lt = wf_cfgD(3,4) [OF wf e(1)]
  have "b = e_from e" using new_block_inj [OF ch b(1) lt(1) b(2) e(2)] b(3) e(3) by simp
  moreover have "(e_from e, e_to e) \<in> edge_rel g" using e(1) by (auto simp: edge_rel_def)
  moreover have "(e_to e, target ! e_to e) \<in> (edge_rel g)\<^sup>*" using chainsD(5) [OF ch lt(2)] .
  ultimately have "(a, target ! e_to e) \<in> (edge_rel g)\<^sup>*"
    using b(4) by (meson rtrancl_into_rtrancl rtrancl_trans)
  moreover have "new_block forward target (target ! e_to e) = l"
    using chainsD(1,2,3) [OF ch lt(2)] chainsD(3) [OF ch chainsD(1) [OF ch lt(2)]] e(4) by (simp add: new_block_def)
  ultimately show ?case using chainsD(1,2) [OF ch lt(2)] by blast
qed

lemma reach_anchored:
  assumes wf: "wf_cfg g" and ch: "chained g forward target" and ab: "anchored g a" "anchored g b"
  shows "(a, b) \<in> (edge_rel g)\<^sup>* \<longleftrightarrow>
    (new_block forward target a, new_block forward target b) \<in> (edge_rel (compacted g forward target))\<^sup>*"
proof -
  have lt: "a < length (cfg_blocks g)" "b < length (cfg_blocks g)" using ab by (auto simp: anchored_def)
  note kept = chains_anchored [OF ch]
  show ?thesis
    using reach_forward [OF wf ch] reach_backward [OF wf ch lt(1) kept [OF ab(1)]]
      new_block_inj [OF ch _ lt(2) _ kept [OF ab(2)]] by blast
qed

section \<open>Properties\<close>

text \<open>
  What compaction promises of the renumbering \<open>\<phi>\<close> of the blocks that stay: anchored blocks (not
  ordinary, or with an event) keep their content and their reachability, and the ends and the
  events follow the renumbering.
\<close>

definition compacts_to :: "FunctionCfg \<Rightarrow> (BlockId \<Rightarrow> BlockId) \<Rightarrow> FunctionCfg \<Rightarrow> bool" where
  "compacts_to g \<phi> g' \<longleftrightarrow>
     cfg_entry g' = \<phi> (cfg_entry g) \<and> cfg_exit g' = \<phi> (cfg_exit g) \<and>
     cfg_exceptional_exit g' = map_option \<phi> (cfg_exceptional_exit g) \<and>
     cfg_events g' = map (\<lambda>e. e\<lparr>ev_block := \<phi> (ev_block e)\<rparr>) (cfg_events g) \<and>
     cfg_order g' = cfg_order g \<and> cfg_gaps g' = cfg_gaps g \<and> distinct (cfg_edges g') \<and>
     length (cfg_blocks g') \<le> length (cfg_blocks g) \<and>
     (\<forall>a. anchored g a \<longrightarrow> cfg_blocks g' ! \<phi> a = cfg_blocks g ! a) \<and>
     (\<forall>a b. anchored g a \<longrightarrow> anchored g b \<longrightarrow>
        (\<phi> a = \<phi> b \<longleftrightarrow> a = b) \<and> ((\<phi> a, \<phi> b) \<in> (edge_rel g')\<^sup>* \<longleftrightarrow> (a, b) \<in> (edge_rel g)\<^sup>*))"

lemma compacts_to_dedup:
  "compacts_to g (\<lambda>b. b) (g\<lparr>cfg_edges := dedup_edges (cfg_edges g)\<rparr>)"
proof -
  have "distinct (dedup_edges (cfg_edges g))" by (simp add: dedup_edges_eq distinct_dedup_onto)
  then show ?thesis by (simp add: compacts_to_def edge_rel_dedup option.map_ident)
qed

lemma compacts_to_compacted:
  assumes wf: "wf_cfg g" and ch: "chained g forward target"
  shows "compacts_to g (new_block forward target) (compacted g forward target)"
proof -
  have lt: "a < length (cfg_blocks g)" if "anchored g a" for a using that by (simp add: anchored_def)
  have len: "length (map fst (filter (\<lambda>(b, f). f = None) (zip (cfg_blocks g) forward))) \<le> length (cfg_blocks g)"
    by (simp add: order_trans [OF length_filter_le])
  have "cfg_blocks (compacted g forward target) ! new_block forward target a = cfg_blocks g ! a"
    if "anchored g a" for a
    by (rule new_block_kept [OF ch lt [OF that] chains_anchored [OF ch that]])
  moreover have "new_block forward target a = new_block forward target b \<longleftrightarrow> a = b"
    if "anchored g a" "anchored g b" for a b
    using new_block_inj [OF ch lt [OF that(1)] lt [OF that(2)] chains_anchored [OF ch that(1)] chains_anchored [OF ch that(2)]]
    by auto
  moreover have "(new_block forward target a, new_block forward target b) \<in> (edge_rel (compacted g forward target))\<^sup>*
      \<longleftrightarrow> (a, b) \<in> (edge_rel g)\<^sup>*" if "anchored g a" "anchored g b" for a b
    using reach_anchored [OF wf ch that] ..
  moreover have "length (cfg_blocks (compacted g forward target)) \<le> length (cfg_blocks g)"
    using len by (simp add: compacted_def)
  moreover have "distinct (cfg_edges (compacted g forward target))"
    by (simp add: compacted_def dedup_edges_eq distinct_dedup_onto)
  ultimately show ?thesis unfolding compacts_to_def by (simp add: compacted_def [of g forward target])
qed

text \<open>C1: compacting a well-formed graph (whose block count leaves the two sentinels free) never
  panics, terminates and gives a well-formed graph in which every block that carries an event
  or is not an ordinary one is kept, and one such block reaches another exactly when it did
  before.\<close>

theorem compact_correct:
  assumes "wf_cfg g" and "length (cfg_blocks g) \<le> on_path"
  shows "\<exists>g' \<phi>. compact g = Some g' \<and> wf_cfg g' \<and> compacts_to g \<phi> g'"
  using assms
proof (rule compact_cases)
  assume c: "compact g = Some (g\<lparr>cfg_edges := dedup_edges (cfg_edges g)\<rparr>)"
  have "wf_cfg (g\<lparr>cfg_edges := dedup_edges (cfg_edges g)\<rparr>)"
    using assms(1) by (simp add: wf_cfg_def Let_def list_all_iff dedup_edges_eq)
  with c compacts_to_dedup show ?thesis by blast
next
  fix forward target
  assume ch: "chained g forward target" and c: "compact g = Some (compacted g forward target)"
  with compacted_wf [OF assms(1) ch] compacts_to_compacted [OF assms(1) ch] show ?thesis by blast
qed

text \<open>An empty ordinary block between the entry and the exit.\<close>

definition hop_cfg :: FunctionCfg where
  "hop_cfg = \<lparr>cfg_function = 0, cfg_tu = None, cfg_variant = 0, cfg_entry = 0, cfg_exit = 2,
     cfg_exceptional_exit = None,
     cfg_blocks = [\<lparr>blk_kind = Entry, blk_span = None, blk_events = []\<rparr>,
       \<lparr>blk_kind = Ordinary, blk_span = None, blk_events = []\<rparr>,
       \<lparr>blk_kind = Exit, blk_span = None, blk_events = []\<rparr>],
     cfg_edges = [\<lparr>e_from = 0, e_to = 1, e_kind = Sequenced\<rparr>, \<lparr>e_from = 1, e_to = 2, e_kind = Fallthrough\<rparr>],
     cfg_events = [], cfg_order = [], cfg_gaps = []\<rparr>"

theorem compact_correct_witness:
  "\<exists>g'. compact hop_cfg = Some g' \<and> wf_cfg g' \<and> length (cfg_blocks g') = 2"
proof -
  have "wf_cfg hop_cfg" by code_simp
  moreover have "length (cfg_blocks hop_cfg) \<le> on_path" by (simp add: hop_cfg_def on_path_def u32_max_def)
  ultimately obtain g' where g': "compact hop_cfg = Some g'" "wf_cfg g'" using compact_correct by blast
  moreover have "map_option (\<lambda>g. length (cfg_blocks g)) (compact hop_cfg) = Some 2"
    by (simp add: compact_def hop_cfg_def Let_def count_out_def mark_forward_def resolve_from_def vget_def vset_def
        walk.simps unresolved_def on_path_def u32_max_def as_u32_def renumber_kept_def filter_mapM_def
        retain_edge_def redirect_edge_def map_block_def upt_rec List.map_filter_def)
  ultimately show ?thesis by simp
qed

end
