(* ===== verification/Line_Map.thy ===== *)
theory Line_Map
  imports Prelude "HOL-Library.Mapping" "HOL-Library.AList_Mapping"
begin

text \<open>
  The map from offsets of the preprocessed output back to source locations
  (\<^verbatim>\<open>trace-preproc/src/line_map.rs\<close>). Paths and macro names are interned; an entry names
  them by index, with \<^verbatim>\<open>u32::MAX\<close> for none. A path is the list of its components, which is
  what the equality of \<^verbatim>\<open>Path\<close> compares. \<open>origin\<close> is what an entry means, free of the
  intern numbering; the theorems say that slicing, truncating and splicing act on the
  origins as on plain lists. Arithmetic on \<^verbatim>\<open>u32\<close> offsets that would overflow is \<open>None\<close>,
  like a panic, so a result also says that no overflow happened.
\<close>

section \<open>Data\<close>

type_synonym Path = "string list"

record LineMapEntry =
  le_expansion_id :: nat
  le_output_offset :: nat
  le_file :: nat
  le_line :: nat
  le_col :: nat
  le_expansion_file :: nat
  le_expansion_line :: nat
  le_expansion_col :: nat
  le_expansion_macro :: nat

record LineMap =
  lm_files :: "Path list"
  lm_macros :: "string list"
  lm_macro_indices :: "(string, nat) mapping"
  lm_entries :: "LineMapEntry list"

definition line_map_eq :: "LineMap \<Rightarrow> LineMap \<Rightarrow> bool" where
  "line_map_eq a b \<longleftrightarrow>
     lm_files a = lm_files b \<and> lm_macros a = lm_macros b \<and> lm_entries a = lm_entries b"

definition LineMap_new :: LineMap where
  "LineMap_new = \<lparr>lm_files = [], lm_macros = [], lm_macro_indices = Mapping.empty, lm_entries = []\<rparr>"

definition index_names :: "(string, nat) mapping \<Rightarrow> string list \<Rightarrow> (string, nat) mapping" where
  "index_names indices names =
     foldl (\<lambda>mp (idx, m). Mapping.update m (as_u32 idx) mp) indices (List.enumerate 0 names)"

definition from_raw_parts :: "Path list \<Rightarrow> string list \<Rightarrow> LineMapEntry list \<Rightarrow> LineMap" where
  "from_raw_parts files macros entries =
     \<lparr>lm_files = files, lm_macros = macros, lm_macro_indices = index_names Mapping.empty macros,
      lm_entries = entries\<rparr>"

section \<open>Interning\<close>

definition intern_file :: "LineMap \<Rightarrow> Path \<Rightarrow> LineMap \<times> nat" where
  "intern_file m path =
     (case position (\<lambda>p. p = path) (lm_files m) of
        Some pos \<Rightarrow> (m, as_u32 pos)
      | None \<Rightarrow> let files = lm_files m @ [path]
               in (m\<lparr>lm_files := files\<rparr>, as_u32 (length files - 1)))"

text \<open>The index is rebuilt when it is empty and the table is not.\<close>

definition intern_macro :: "LineMap \<Rightarrow> string \<Rightarrow> LineMap \<times> nat" where
  "intern_macro m name =
     (case Mapping.lookup (lm_macro_indices m) name of
        Some pos \<Rightarrow> (m, pos)
      | None \<Rightarrow>
          (let m' = (if Mapping.is_empty (lm_macro_indices m) \<and> lm_macros m \<noteq> []
                then m\<lparr>lm_macro_indices := index_names (lm_macro_indices m) (lm_macros m)\<rparr> else m)
           in case (if Mapping.is_empty (lm_macro_indices m) \<and> lm_macros m \<noteq> []
                then Mapping.lookup (lm_macro_indices m') name else None) of
                Some pos \<Rightarrow> (m', pos)
              | None \<Rightarrow> (let pos = as_u32 (length (lm_macros m'))
                   in (m'\<lparr>lm_macros := lm_macros m' @ [name],
                          lm_macro_indices := Mapping.update name pos (lm_macro_indices m')\<rparr>, pos))))"

section \<open>Recording and looking up\<close>

definition lm_push :: "LineMap \<Rightarrow> nat \<Rightarrow> nat \<Rightarrow> nat \<Rightarrow> nat \<Rightarrow> LineMap" where
  "lm_push m output_offset file line col = m\<lparr>lm_entries := lm_entries m @
     [\<lparr>le_expansion_id = 0, le_output_offset = as_u32 output_offset, le_file = file, le_line = line,
       le_col = col, le_expansion_file = u32_max, le_expansion_line = 0, le_expansion_col = 0,
       le_expansion_macro = u32_max\<rparr>]\<rparr>"

definition push_expansion ::
  "LineMap \<Rightarrow> nat \<Rightarrow> nat \<Rightarrow> nat \<Rightarrow> nat \<Rightarrow> nat \<Rightarrow> nat \<Rightarrow> nat \<Rightarrow> nat \<Rightarrow> nat \<Rightarrow> LineMap" where
  "push_expansion m output_offset file line col expansion_file expansion_line expansion_col
     expansion_id expansion_macro = m\<lparr>lm_entries := lm_entries m @
     [\<lparr>le_expansion_id = expansion_id, le_output_offset = as_u32 output_offset, le_file = file,
       le_line = line, le_col = col, le_expansion_file = expansion_file,
       le_expansion_line = expansion_line, le_expansion_col = expansion_col,
       le_expansion_macro = expansion_macro\<rparr>]\<rparr>"

text \<open>\<open>None\<close> panics, \<open>Some None\<close> is the code's \<^verbatim>\<open>None\<close>.\<close>

definition expansion_path_of :: "LineMap \<Rightarrow> LineMapEntry \<Rightarrow> Path option option" where
  "expansion_path_of m e =
     (if le_expansion_file e \<noteq> u32_max then map_option Some (vget (lm_files m) (le_expansion_file e))
      else Some None)"

definition expansion_macro_of :: "LineMap \<Rightarrow> LineMapEntry \<Rightarrow> string option option" where
  "expansion_macro_of m e =
     (if le_expansion_macro e \<noteq> u32_max then map_option Some (vget (lm_macros m) (le_expansion_macro e))
      else Some None)"

definition path_of :: "LineMap \<Rightarrow> LineMapEntry \<Rightarrow> Path option" where
  "path_of m e = vget (lm_files m) (le_file e)"

text \<open>\<^verbatim>\<open>slice::partition_point\<close>: a binary search for the end of the prefix that satisfies \<open>p\<close>.\<close>

function partition_between :: "('a \<Rightarrow> bool) \<Rightarrow> 'a list \<Rightarrow> nat \<Rightarrow> nat \<Rightarrow> nat" where
  "partition_between p xs lo hi =
     (if lo < hi then
        (let mid = lo + (hi - lo) div 2
         in if p (xs ! mid) then partition_between p xs (Suc mid) hi
            else partition_between p xs lo mid)
      else lo)"
  by pat_completeness auto
termination by (relation "measure (\<lambda>(p, xs, lo, hi). hi - lo)") auto

declare partition_between.simps [simp del]

definition partition_point :: "('a \<Rightarrow> bool) \<Rightarrow> 'a list \<Rightarrow> nat" where
  "partition_point p xs = partition_between p xs 0 (length xs)"

definition lm_lookup :: "LineMap \<Rightarrow> nat \<Rightarrow> LineMapEntry option" where
  "lm_lookup m output_offset =
     (let idx = partition_point (\<lambda>e. le_output_offset e \<le> output_offset) (lm_entries m)
      in if idx = 0 then None else vget (lm_entries m) (idx - 1))"

definition lookup_line :: "LineMap \<Rightarrow> nat \<Rightarrow> LineMapEntry option" where
  "lookup_line m output_line = (if lm_entries m = [] then None else Some (last (lm_entries m)))"

section \<open>Cutting and joining\<close>

text \<open>Checked \<^verbatim>\<open>u32\<close> arithmetic.\<close>

definition u32_sub :: "nat \<Rightarrow> nat \<Rightarrow> nat option" where
  "u32_sub a b = (if b \<le> a then Some (a - b) else None)"

definition u32_add :: "nat \<Rightarrow> nat \<Rightarrow> nat option" where
  "u32_add a b = (if a + b \<le> u32_max then Some (a + b) else None)"

text \<open>
  The memo tables of \<^verbatim>\<open>slice_from\<close> and \<^verbatim>\<open>splice_range\<close>: an index of the source table that has no
  number yet (\<^verbatim>\<open>u32::MAX\<close>) is interned in the target.
\<close>

definition through ::
  "('s \<Rightarrow> 'a \<Rightarrow> 's \<times> nat) \<Rightarrow> 'a list \<Rightarrow> 's \<times> nat list \<Rightarrow> nat \<Rightarrow> ('s \<times> nat list) option" where
  "through intern src st f = (case st of (s, remap) \<Rightarrow> do {
     r \<leftarrow> vget remap f;
     if r = u32_max then do {
       x \<leftarrow> vget src f;
       let (s', i) = intern s x;
       remap' \<leftarrow> vset remap f i;
       Some (s', remap') }
     else Some (s, remap) })"

definition through_unless_max ::
  "('s \<Rightarrow> 'a \<Rightarrow> 's \<times> nat) \<Rightarrow> 'a list \<Rightarrow> 's \<times> nat list \<Rightarrow> nat \<Rightarrow> ('s \<times> nat list) option" where
  "through_unless_max intern src st f = (if f = u32_max then Some st else through intern src st f)"

definition renamed :: "nat list \<Rightarrow> nat \<Rightarrow> nat option" where
  "renamed remap f = (if f = u32_max then Some u32_max else vget remap f)"

definition slice_scan ::
  "LineMap \<Rightarrow> LineMap \<times> nat list \<times> nat list \<Rightarrow> LineMapEntry \<Rightarrow> (LineMap \<times> nat list \<times> nat list) option" where
  "slice_scan m st e = (case st of (out, remap, macro_remap) \<Rightarrow> do {
     (out1, remap1) \<leftarrow> through intern_file (lm_files m) (out, remap) (le_file e);
     (out2, macro_remap1) \<leftarrow> through_unless_max intern_macro (lm_macros m) (out1, macro_remap) (le_expansion_macro e);
     Some (out2, remap1, macro_remap1) })"

definition slice_entry ::
  "LineMap \<Rightarrow> nat \<Rightarrow> nat list \<Rightarrow> LineMap \<times> nat list \<times> LineMapEntry list \<Rightarrow> LineMapEntry \<Rightarrow>
   (LineMap \<times> nat list \<times> LineMapEntry list) option" where
  "slice_entry m start macro_remap st e = (case st of (out, remap, entries) \<Rightarrow> do {
     offset \<leftarrow> u32_sub (le_output_offset e) (as_u32 start);
     file \<leftarrow> vget remap (le_file e);
     (out', remap') \<leftarrow> through_unless_max intern_file (lm_files m) (out, remap) (le_expansion_file e);
     expansion_file \<leftarrow> renamed remap' (le_expansion_file e);
     expansion_macro \<leftarrow> renamed macro_remap (le_expansion_macro e);
     Some (out', remap', entries @ [e\<lparr>le_output_offset := offset, le_file := file,
       le_expansion_file := expansion_file, le_expansion_macro := expansion_macro\<rparr>]) })"

definition slice_from :: "LineMap \<Rightarrow> nat \<Rightarrow> LineMap option" where
  "slice_from m start = do {
     let tail = drop (partition_point (\<lambda>e. le_output_offset e < start) (lm_entries m)) (lm_entries m);
     (out, remap, macro_remap) \<leftarrow> foldM (slice_scan m)
       (LineMap_new, replicate (length (lm_files m)) u32_max, replicate (length (lm_macros m)) u32_max) tail;
     (out', remap', entries) \<leftarrow> foldM (slice_entry m start macro_remap) (out, remap, []) tail;
     Some (out'\<lparr>lm_entries := entries\<rparr>) }"

definition truncate_at :: "LineMap \<Rightarrow> nat \<Rightarrow> LineMap" where
  "truncate_at m at = (let keep = partition_point (\<lambda>e. le_output_offset e < at) (lm_entries m)
     in m\<lparr>lm_entries := take keep (lm_entries m)\<rparr>)"

fun intern_macros :: "LineMap \<Rightarrow> string list \<Rightarrow> LineMap \<times> nat list" where
  "intern_macros m [] = (m, [])"
| "intern_macros m (x # xs) =
     (let (m', i) = intern_macro m x; (m'', is) = intern_macros m' xs in (m'', i # is))"

definition splice_entry :: "nat \<Rightarrow> nat list \<Rightarrow> nat list \<Rightarrow> LineMapEntry \<Rightarrow> LineMapEntry option" where
  "splice_entry offset remap macro_remap e = do {
     output_offset \<leftarrow> u32_add (le_output_offset e) (as_u32 offset);
     file \<leftarrow> vget remap (le_file e);
     expansion_file \<leftarrow> renamed remap (le_expansion_file e);
     expansion_macro \<leftarrow> renamed macro_remap (le_expansion_macro e);
     Some (e\<lparr>le_output_offset := output_offset, le_file := file,
       le_expansion_file := expansion_file, le_expansion_macro := expansion_macro\<rparr>) }"

definition lm_splice :: "LineMap \<Rightarrow> LineMap \<Rightarrow> nat \<Rightarrow> nat list \<Rightarrow> LineMap option" where
  "lm_splice m other offset remap = (case intern_macros m (lm_macros other) of (m', macro_remap) \<Rightarrow> do {
     added \<leftarrow> mapM (splice_entry offset remap macro_remap) (lm_entries other);
     Some (m'\<lparr>lm_entries := lm_entries m' @ added\<rparr>) })"

text \<open>\<^verbatim>\<open>(e.output_offset as usize - range.start + offset) as u32\<close>: the subtraction is checked.\<close>

definition rebased :: "nat \<Rightarrow> nat \<Rightarrow> nat \<Rightarrow> nat option" where
  "rebased start offset at = map_option (\<lambda>d. as_u32 (d + offset)) (u32_sub at start)"

definition splice_one :: "LineMap \<Rightarrow> nat \<Rightarrow> nat \<Rightarrow> LineMap \<Rightarrow> LineMapEntry \<Rightarrow> LineMap option" where
  "splice_one other start offset m e = do {
     path \<leftarrow> vget (lm_files other) (le_file e);
     let (m1, file) = intern_file m path;
     expansion_path \<leftarrow> expansion_path_of other e;
     let (m2, expansion_file) = (case expansion_path of None \<Rightarrow> (m1, u32_max) | Some p \<Rightarrow> intern_file m1 p);
     name \<leftarrow> expansion_macro_of other e;
     let (m3, expansion_macro) = (case name of None \<Rightarrow> (m2, u32_max) | Some x \<Rightarrow> intern_macro m2 x);
     output_offset \<leftarrow> rebased start offset (le_output_offset e);
     Some (m3\<lparr>lm_entries := lm_entries m3 @ [e\<lparr>le_output_offset := output_offset, le_file := file,
       le_expansion_file := expansion_file, le_expansion_macro := expansion_macro\<rparr>]\<rparr>) }"

definition splice_memo ::
  "LineMap \<Rightarrow> nat \<Rightarrow> nat \<Rightarrow> LineMap \<times> nat list \<times> nat list \<Rightarrow> LineMapEntry \<Rightarrow>
   (LineMap \<times> nat list \<times> nat list) option" where
  "splice_memo other start offset st e = (case st of (m, remap, macro_remap) \<Rightarrow> do {
     (m1, remap1) \<leftarrow> through intern_file (lm_files other) (m, remap) (le_file e);
     (m2, remap2) \<leftarrow> through_unless_max intern_file (lm_files other) (m1, remap1) (le_expansion_file e);
     (m3, macro_remap1) \<leftarrow> through_unless_max intern_macro (lm_macros other) (m2, macro_remap) (le_expansion_macro e);
     output_offset \<leftarrow> rebased start offset (le_output_offset e);
     file \<leftarrow> vget remap2 (le_file e);
     expansion_file \<leftarrow> renamed remap2 (le_expansion_file e);
     expansion_macro \<leftarrow> renamed macro_remap1 (le_expansion_macro e);
     Some (m3\<lparr>lm_entries := lm_entries m3 @ [e\<lparr>le_output_offset := output_offset, le_file := file,
       le_expansion_file := expansion_file, le_expansion_macro := expansion_macro\<rparr>]\<rparr>, remap2, macro_remap1) })"

definition splice_range :: "LineMap \<Rightarrow> LineMap \<Rightarrow> nat \<Rightarrow> nat \<Rightarrow> nat \<Rightarrow> LineMap option" where
  "splice_range m other range_start range_end offset =
     (if range_end \<le> range_start then Some m
      else (let start = partition_point (\<lambda>e. le_output_offset e < range_start) (lm_entries other);
                stop = start + partition_point (\<lambda>e. le_output_offset e < range_end) (drop start (lm_entries other));
                chunk = take (stop - start) (drop start (lm_entries other))
            in if start = stop then Some m
               else if stop - start \<le> 2 then foldM (splice_one other range_start offset) m chunk
               else map_option fst (foldM (splice_memo other range_start offset)
                 (m, replicate (length (lm_files other)) u32_max, replicate (length (lm_macros other)) u32_max)
                 chunk)))"

text \<open>
  The values \<^verbatim>\<open>declaration_signature\<close> feeds to its hasher, with the fingerprints of paths and
  names as parameters (the standard library's \<^verbatim>\<open>DefaultHasher\<close> on their content).
\<close>

type_synonym signature_item =
  "nat \<times> nat \<times> nat \<times> nat \<times> nat option \<times> nat \<times> nat \<times> nat \<times> nat option"

definition signature_item :: "nat list \<Rightarrow> nat list \<Rightarrow> LineMapEntry \<Rightarrow> signature_item option" where
  "signature_item files macros e = do {
     file \<leftarrow> vget files (le_file e);
     expansion_file \<leftarrow> (if le_expansion_file e \<noteq> u32_max
       then map_option Some (vget files (le_expansion_file e)) else Some None);
     expansion_macro \<leftarrow> (if le_expansion_macro e \<noteq> u32_max
       then map_option Some (vget macros (le_expansion_macro e)) else Some None);
     Some (le_output_offset e, file, le_line e, le_col e, expansion_file, le_expansion_line e,
       le_expansion_col e, le_expansion_id e, expansion_macro) }"

definition declaration_signature ::
  "(Path \<Rightarrow> nat) \<Rightarrow> (string \<Rightarrow> nat) \<Rightarrow> (nat \<times> string \<Rightarrow> signature_item list \<Rightarrow> nat) \<Rightarrow>
   LineMap \<Rightarrow> string \<Rightarrow> nat \<Rightarrow> nat option" where
  "declaration_signature hash_path hash_name digest m text cpp_standard =
     map_option (digest (cpp_standard, text))
       (mapM (signature_item (map hash_path (lm_files m)) (map hash_name (lm_macros m))) (lm_entries m))"

section \<open>Binary search\<close>

definition partitioned :: "('a \<Rightarrow> bool) \<Rightarrow> 'a list \<Rightarrow> bool" where
  "partitioned p xs \<longleftrightarrow> (\<forall>i j. i < j \<longrightarrow> j < length xs \<longrightarrow> p (xs ! j) \<longrightarrow> p (xs ! i))"

lemma partition_between_split:
  assumes "partitioned p xs" "lo \<le> hi" "hi \<le> length xs"
    and "\<And>i. i < lo \<Longrightarrow> p (xs ! i)" and "\<And>i. hi \<le> i \<Longrightarrow> i < length xs \<Longrightarrow> \<not> p (xs ! i)"
  shows "let k = partition_between p xs lo hi in
    k \<le> length xs \<and> (\<forall>i < k. p (xs ! i)) \<and> (\<forall>i. k \<le> i \<longrightarrow> i < length xs \<longrightarrow> \<not> p (xs ! i))"
  using assms
proof (induction p xs lo hi rule: partition_between.induct)
  case (1 p xs lo hi)
  let ?mid = "lo + (hi - lo) div 2"
  show ?case
  proof (cases "lo < hi")
    case False
    then have "partition_between p xs lo hi = lo" by (simp add: partition_between.simps)
    with 1 False show ?thesis by (simp add: Let_def)
  next
    case True
    then have mid: "lo \<le> ?mid" "?mid < hi" by auto
    show ?thesis
    proof (cases "p (xs ! ?mid)")
      case t: True
      have "p (xs ! i)" if "i < Suc ?mid" for i
        using that t mid 1(5) 1(3) [unfolded partitioned_def, rule_format, of i ?mid]
        by (cases "i = ?mid") auto
      then show ?thesis
        using 1(1) [OF True refl t 1(3)] mid 1(5,7) t True
        by (simp add: partition_between.simps [of p xs lo hi] Let_def)
    next
      case f: False
      have "\<not> p (xs ! i)" if "?mid \<le> i" "i < length xs" for i
        using that f 1(3) [unfolded partitioned_def, rule_format, of ?mid i] by (cases "i = ?mid") auto
      then show ?thesis
        using 1(2) [OF True refl f 1(3)] mid 1(5,6) f True
        by (simp add: partition_between.simps [of p xs lo hi] Let_def)
    qed
  qed
qed

lemma partition_point_split:
  assumes "partitioned p xs"
  shows "take (partition_point p xs) xs = filter p xs" "drop (partition_point p xs) xs = filter (\<lambda>x. \<not> p x) xs"
    "partition_point p xs = length (filter p xs)"
proof -
  let ?k = "partition_point p xs"
  have k: "?k \<le> length xs" "\<And>i. i < ?k \<Longrightarrow> p (xs ! i)" "\<And>i. ?k \<le> i \<Longrightarrow> i < length xs \<Longrightarrow> \<not> p (xs ! i)"
    using partition_between_split [OF assms, of 0 "length xs"] by (auto simp: partition_point_def Let_def)
  have t: "\<forall>x \<in> set (take ?k xs). p x" and d: "\<forall>x \<in> set (drop ?k xs). \<not> p x"
    using k by (auto simp: in_set_conv_nth)
  have "filter p xs = filter p (take ?k xs) @ filter p (drop ?k xs)"
    "filter (\<lambda>x. \<not> p x) xs = filter (\<lambda>x. \<not> p x) (take ?k xs) @ filter (\<lambda>x. \<not> p x) (drop ?k xs)"
    by (metis append_take_drop_id filter_append)+
  moreover have "filter p (take ?k xs) = take ?k xs" "filter p (drop ?k xs) = []"
    "filter (\<lambda>x. \<not> p x) (take ?k xs) = []" "filter (\<lambda>x. \<not> p x) (drop ?k xs) = drop ?k xs"
    using t d by (simp_all add: filter_id_conv filter_empty_conv)
  ultimately show e: "take ?k xs = filter p xs" "drop ?k xs = filter (\<lambda>x. \<not> p x) xs" by simp_all
  show "?k = length (filter p xs)" using e(1) k(1) by (metis length_take min.absorb2)
qed

section \<open>Well-formed maps and what an entry means\<close>

definition macros_ok :: "LineMap \<Rightarrow> bool" where
  "macros_ok m \<longleftrightarrow> distinct (lm_macros m) \<and>
     (Mapping.is_empty (lm_macro_indices m) \<or>
      Mapping.lookup (lm_macro_indices m) = (\<lambda>x. position (\<lambda>y. y = x) (lm_macros m)))"

definition entry_ok :: "LineMap \<Rightarrow> LineMapEntry \<Rightarrow> bool" where
  "entry_ok m e \<longleftrightarrow> le_file e < length (lm_files m) \<and> le_output_offset e \<le> u32_max \<and>
     (le_expansion_file e = u32_max \<or> le_expansion_file e < length (lm_files m)) \<and>
     (le_expansion_macro e = u32_max \<or> le_expansion_macro e < length (lm_macros m))"

definition wf_line_map :: "LineMap \<Rightarrow> bool" where
  "wf_line_map m \<longleftrightarrow> distinct (lm_files m) \<and> length (lm_files m) \<le> u32_max \<and>
     macros_ok m \<and> length (lm_macros m) \<le> u32_max \<and>
     list_all (entry_ok m) (lm_entries m) \<and> sorted (map le_output_offset (lm_entries m))"

record Origin =
  or_offset :: nat
  or_path :: Path
  or_line :: nat
  or_col :: nat
  or_expansion_path :: "Path option"
  or_expansion_line :: nat
  or_expansion_col :: nat
  or_expansion_id :: nat
  or_expansion_macro :: "string option"

definition origin :: "LineMap \<Rightarrow> LineMapEntry \<Rightarrow> Origin" where
  "origin m e = \<lparr>or_offset = le_output_offset e, or_path = lm_files m ! le_file e, or_line = le_line e,
     or_col = le_col e,
     or_expansion_path = (if le_expansion_file e = u32_max then None else Some (lm_files m ! le_expansion_file e)),
     or_expansion_line = le_expansion_line e, or_expansion_col = le_expansion_col e,
     or_expansion_id = le_expansion_id e,
     or_expansion_macro =
       (if le_expansion_macro e = u32_max then None else Some (lm_macros m ! le_expansion_macro e))\<rparr>"

definition origins :: "LineMap \<Rightarrow> Origin list" where
  "origins m = map (origin m) (lm_entries m)"

lemma partitioned_offsets:
  assumes "sorted (map le_output_offset es)"
  shows "partitioned (\<lambda>e. le_output_offset e < k) es" "partitioned (\<lambda>e. le_output_offset e \<le> k) es"
proof -
  have "le_output_offset (es ! i) \<le> le_output_offset (es ! j)" if "i < j" "j < length es" for i j
    using assms that by (simp add: sorted_iff_nth_mono)
  then show "partitioned (\<lambda>e. le_output_offset e < k) es" "partitioned (\<lambda>e. le_output_offset e \<le> k) es"
    unfolding partitioned_def by (meson le_less_trans, meson order_trans)
qed

lemma wf_line_mapD:
  assumes "wf_line_map m"
  shows "distinct (lm_files m)" "length (lm_files m) \<le> u32_max" "macros_ok m"
    "length (lm_macros m) \<le> u32_max" "e \<in> set (lm_entries m) \<Longrightarrow> entry_ok m e"
    "sorted (map le_output_offset (lm_entries m))"
  using assms by (auto simp: wf_line_map_def list_all_iff)

section \<open>Interners\<close>

text \<open>
  The contract of an interner: the value has the number returned, numbers given before keep their
  value, and a new value takes the next free number. Both tables of a line map meet it; the
  memo tables of slicing and splicing rest on the contract alone.
\<close>

definition interned_table :: "'a list \<Rightarrow> 'a \<Rightarrow> 'a list" where
  "interned_table xs x = (if x \<in> set xs then xs else xs @ [x])"

lemma interned_table_prefix: "\<exists>zs. interned_table xs x = xs @ zs \<and> set zs \<subseteq> {x}"
  by (cases "x \<in> set xs") (auto simp: interned_table_def)

locale interner =
  fixes table :: "'s \<Rightarrow> 'a list" and intern :: "'s \<Rightarrow> 'a \<Rightarrow> 's \<times> nat" and ok :: "'s \<Rightarrow> bool"
  assumes ok_distinct: "ok s \<Longrightarrow> distinct (table s)"
    and intern_ok: "ok s \<Longrightarrow> length (interned_table (table s) x) \<le> u32_max \<Longrightarrow> intern s x = (s', i) \<Longrightarrow> ok s'"
    and intern_table: "ok s \<Longrightarrow> length (interned_table (table s) x) \<le> u32_max \<Longrightarrow> intern s x = (s', i) \<Longrightarrow>
      table s' = interned_table (table s) x"
    and intern_number: "ok s \<Longrightarrow> length (interned_table (table s) x) \<le> u32_max \<Longrightarrow> intern s x = (s', i) \<Longrightarrow>
      i < length (table s') \<and> table s' ! i = x"
begin

text \<open>Room for everything of the source table, whatever is shared already.\<close>

definition room :: "'s \<Rightarrow> 'a set \<Rightarrow> bool" where
  "room s xs \<longleftrightarrow> ok s \<and> card (set (table s) \<union> xs) \<le> u32_max"

definition memo_ok :: "'a list \<Rightarrow> 's \<Rightarrow> nat list \<Rightarrow> bool" where
  "memo_ok src s remap \<longleftrightarrow> length remap = length src \<and>
     (\<forall>i < length src. remap ! i = u32_max \<or> remap ! i < length (table s) \<and> table s ! (remap ! i) = src ! i)"

lemma room_length:
  assumes "room s xs" "x \<in> xs" "finite xs"
  shows "length (interned_table (table s) x) \<le> u32_max"
proof -
  have "distinct (table s)" using assms(1) ok_distinct by (simp add: room_def)
  then have "length (interned_table (table s) x) = card (set (interned_table (table s) x))"
    by (simp add: interned_table_def distinct_card)
  also have "\<dots> \<le> card (set (table s) \<union> xs)"
    using assms(2,3) by (intro card_mono) (auto simp: interned_table_def)
  finally show ?thesis using assms(1) by (simp add: room_def)
qed

lemma room_intern:
  assumes "room s xs" "x \<in> xs" "finite xs" "intern s x = (s', i)"
  shows "room s' xs" "i < length (table s')" "table s' ! i = x" "i \<noteq> u32_max"
    "table s' = interned_table (table s) x"
proof -
  have ok: "ok s" using assms(1) by (simp add: room_def)
  note len = room_length [OF assms(1-3)]
  note t = intern_table [OF ok len assms(4)] and n = intern_number [OF ok len assms(4)]
  from t show "table s' = interned_table (table s) x" .
  have "set (table s') \<union> xs = set (table s) \<union> xs" using t assms(2) by (auto simp: interned_table_def)
  then show "room s' xs" using assms(1) intern_ok [OF ok len assms(4)] by (simp add: room_def)
  show "i < length (table s')" "table s' ! i = x" "i \<noteq> u32_max"
    using n t len by auto
qed

lemma through_resolves:
  assumes memo: "memo_ok src s remap" and room: "room s (set src)" and f: "f < length src"
  shows "\<exists>s' remap' zs. through intern src (s, remap) f = Some (s', remap') \<and> memo_ok src s' remap' \<and>
    room s' (set src) \<and> remap' ! f < length (table s') \<and> table s' ! (remap' ! f) = src ! f \<and> remap' ! f \<noteq> u32_max \<and>
    table s' = table s @ zs \<and> set zs \<subseteq> {src ! f} \<and> (\<forall>i. remap ! i \<noteq> u32_max \<longrightarrow> remap' ! i = remap ! i)"
proof (cases "remap ! f = u32_max")
  case False
  have "through intern src (s, remap) f = Some (s, remap)"
    using memo f False by (simp add: through_def memo_ok_def vec_simps)
  with False memo room f show ?thesis by (auto simp: memo_ok_def)
next
  case True
  obtain s' i where it: "intern s (src ! f) = (s', i)" by fastforce
  note R = room_intern [OF room nth_mem [OF f] finite_set it]
  obtain zs where zs: "table s' = table s @ zs" "set zs \<subseteq> {src ! f}"
    using R(5) interned_table_prefix by metis
  have len: "length remap = length src" using memo by (simp add: memo_ok_def)
  have th: "through intern src (s, remap) f = Some (s', remap[f := i])"
    using len f True it by (simp add: through_def vec_simps)
  have "memo_ok src s' (remap[f := i])"
    using memo R(2,3) zs(1) f by (auto simp: memo_ok_def nth_list_update nth_append)
  with th R zs len f True show ?thesis by (intro exI [of _ s'] exI [of _ "remap[f := i]"] exI [of _ zs])
      (auto simp: nth_list_update)
qed

end

lemma position_eq_less: "position (\<lambda>y. y = x) xs = Some i \<Longrightarrow> i < length xs \<and> xs ! i = x"
  by (simp add: position_Some)

lemma position_distinct: "distinct xs \<Longrightarrow> i < length xs \<Longrightarrow> position (\<lambda>y. y = xs ! i) xs = Some i"
  by (auto simp: position_Some nth_eq_iff_index_eq)

interpretation files: interner lm_files intern_file "\<lambda>m. distinct (lm_files m)"
proof
  fix m m' :: LineMap and x :: Path and i :: nat
  assume d: "distinct (lm_files m)" and len: "length (interned_table (lm_files m) x) \<le> u32_max"
    and it: "intern_file m x = (m', i)"
  show t: "lm_files m' = interned_table (lm_files m) x"
    using it by (auto simp: intern_file_def interned_table_def Let_def position_None position_Some split: option.splits)
  show "distinct (lm_files m')" using d by (simp add: t interned_table_def)
  have "as_u32 p = p" if "p < length (interned_table (lm_files m) x)" for p
    using that len by (intro as_u32_id) simp
  with it show "i < length (lm_files m') \<and> lm_files m' ! i = x"
    by (auto simp: intern_file_def interned_table_def Let_def position_None position_Some split: option.splits)
qed simp

lemma position_eq_None: "position (\<lambda>y. y = x) xs = None \<longleftrightarrow> x \<notin> set xs"
  by (auto simp: position_None)

lemma position_fresh:
  "x \<notin> set xs \<Longrightarrow> position (\<lambda>y. y = z) (xs @ [x]) = (if z = x then Some (length xs) else position (\<lambda>y. y = z) xs)"
  by (induction xs) auto

lemma is_empty_lookup: "Mapping.is_empty mp \<longleftrightarrow> Mapping.lookup mp = (\<lambda>x. None)"
  by (simp add: Mapping.is_empty_def keys_dom_lookup fun_eq_iff)

lemma lookup_index_names:
  assumes "distinct names" "length names \<le> u32_max" "Mapping.is_empty mp"
  shows "Mapping.lookup (index_names mp names) = (\<lambda>x. position (\<lambda>y. y = x) names)"
  using assms
proof (induction names rule: rev_induct)
  case Nil
  then show ?case by (auto simp: index_names_def is_empty_lookup)
next
  case (snoc n ns)
  have "index_names mp (ns @ [n]) = Mapping.update n (length ns) (index_names mp ns)"
    using snoc.prems by (simp add: index_names_def enumerate_append_eq as_u32_id)
  then show ?case using snoc by (simp add: lookup_update' position_fresh fun_eq_iff)
qed

definition macros_room :: "LineMap \<Rightarrow> bool" where
  "macros_room m \<longleftrightarrow> macros_ok m \<and> length (lm_macros m) \<le> u32_max"

definition macros_indexed :: "LineMap \<Rightarrow> bool" where
  "macros_indexed m \<longleftrightarrow> distinct (lm_macros m) \<and>
     Mapping.lookup (lm_macro_indices m) = (\<lambda>x. position (\<lambda>y. y = x) (lm_macros m))"

text \<open>A table whose index is empty is interned as if the index had been rebuilt first.\<close>

definition rebuilt :: "LineMap \<Rightarrow> LineMap" where
  "rebuilt m = (if Mapping.is_empty (lm_macro_indices m) \<and> lm_macros m \<noteq> []
     then m\<lparr>lm_macro_indices := index_names (lm_macro_indices m) (lm_macros m)\<rparr> else m)"

lemma rebuilt_indexed: "macros_room m \<Longrightarrow> macros_indexed (rebuilt m)"
  using lookup_index_names [of "lm_macros m" "lm_macro_indices m"]
  by (auto simp: macros_room_def macros_ok_def macros_indexed_def rebuilt_def is_empty_lookup)

lemma intern_macro_rebuilt:
  assumes "macros_room m"
  shows "intern_macro m x =
    (if x \<in> set (lm_macros m) then
       (if Mapping.lookup (lm_macro_indices m) x = None then rebuilt m else m, the (position (\<lambda>y. y = x) (lm_macros m)))
     else ((rebuilt m)\<lparr>lm_macros := lm_macros m @ [x],
       lm_macro_indices := Mapping.update x (length (lm_macros m)) (lm_macro_indices (rebuilt m))\<rparr>, length (lm_macros m)))"
proof -
  have mem: "Mapping.lookup (lm_macro_indices (rebuilt m)) x = position (\<lambda>y. y = x) (lm_macros m)"
    using rebuilt_indexed [OF assms] by (simp add: macros_indexed_def rebuilt_def)
  have same: "lm_macros (rebuilt m) = lm_macros m" by (simp add: rebuilt_def)
  note none = position_eq_None [of x "lm_macros m"]
  have u: "as_u32 (length (lm_macros m)) = length (lm_macros m)"
    using assms by (simp add: macros_room_def as_u32_id)
  show ?thesis
  proof (cases "Mapping.lookup (lm_macro_indices m) x")
    case (Some i)
    then have "\<not> Mapping.is_empty (lm_macro_indices m)" by (auto simp: is_empty_lookup)
    then have "rebuilt m = m" by (simp add: rebuilt_def)
    with Some mem none show ?thesis by (auto simp: intern_macro_def)
  next
    case None
    with mem none u same show ?thesis
      by (auto simp: intern_macro_def Let_def rebuilt_def split: option.splits if_splits)
  qed
qed

interpretation macros: interner lm_macros intern_macro macros_room
proof
  fix m m' :: LineMap and x :: string and i :: nat
  show "distinct (lm_macros m)" if "macros_room m"
    using that by (simp add: macros_room_def macros_ok_def)
  assume r: "macros_room m" and len: "length (interned_table (lm_macros m) x) \<le> u32_max"
    and it: "intern_macro m x = (m', i)"
  note eq = intern_macro_rebuilt [OF r, of x, unfolded it]
  have same: "lm_macros (rebuilt m) = lm_macros m" by (simp add: rebuilt_def)
  show t: "lm_macros m' = interned_table (lm_macros m) x"
    using eq same by (auto simp: interned_table_def split: if_splits)
  have "position (\<lambda>y. y = x) (lm_macros m) = Some (the (position (\<lambda>y. y = x) (lm_macros m)))"
    if "x \<in> set (lm_macros m)"
    using that by (cases "position (\<lambda>y. y = x) (lm_macros m)") (auto simp: position_None)
  then show "i < length (lm_macros m') \<and> lm_macros m' ! i = x"
    using eq t by (auto simp: interned_table_def dest: position_eq_less split: if_splits)
  have "macros_ok m'"
    using eq rebuilt_indexed [OF r] r same
    by (auto simp: macros_indexed_def macros_ok_def macros_room_def position_fresh lookup_update' fun_eq_iff
        split: if_splits)
  then show "macros_room m'" using len t by (simp add: macros_room_def)
qed

section \<open>Growing tables keep what entries mean\<close>

definition grows :: "LineMap \<Rightarrow> LineMap \<Rightarrow> bool" where
  "grows m m' \<longleftrightarrow> (\<exists>xs. lm_files m' = lm_files m @ xs) \<and> (\<exists>ys. lm_macros m' = lm_macros m @ ys)"

lemma grows_refl [simp]: "grows m m"
  by (simp add: grows_def)

lemma grows_trans: "grows a b \<Longrightarrow> grows b c \<Longrightarrow> grows a c"
  by (auto simp: grows_def)

lemma grows_entries [simp]: "grows a (b\<lparr>lm_entries := es\<rparr>) \<longleftrightarrow> grows a b"
  by (simp add: grows_def)

lemma origin_entries [simp]: "origin (m\<lparr>lm_entries := es\<rparr>) = origin m" "entry_ok (m\<lparr>lm_entries := es\<rparr>) = entry_ok m"
  by (simp_all add: origin_def entry_ok_def fun_eq_iff)

lemma origin_grows:
  assumes "entry_ok m e" "grows m m'"
  shows "origin m' e = origin m e" "entry_ok m' e"
  using assms by (auto simp: origin_def entry_ok_def grows_def nth_append)

lemma intern_file_frame:
  "intern_file m x = (m', i) \<Longrightarrow> lm_macros m' = lm_macros m \<and> lm_macro_indices m' = lm_macro_indices m \<and>
     lm_entries m' = lm_entries m"
  by (auto simp: intern_file_def Let_def split: option.splits)

lemma intern_macro_frame:
  "intern_macro m x = (m', i) \<Longrightarrow> lm_files m' = lm_files m \<and> lm_entries m' = lm_entries m"
  by (auto simp: intern_macro_def Let_def split: option.splits if_splits)

text \<open>Both tables have room for everything another map names.\<close>

definition fits :: "LineMap \<Rightarrow> LineMap \<Rightarrow> bool" where
  "fits m other \<longleftrightarrow> files.room m (set (lm_files other)) \<and> macros.room m (set (lm_macros other))"

lemma fits_entries [simp]: "fits (m\<lparr>lm_entries := es\<rparr>) other = fits m other"
  by (simp add: fits_def files.room_def macros.room_def macros_room_def macros_ok_def)

lemma fits_intern_file:
  assumes "fits m other" "x \<in> set (lm_files other)" "intern_file m x = (m', i)"
  shows "fits m' other" "grows m m'" "lm_entries m' = lm_entries m" "lm_macros m' = lm_macros m"
    "i < length (lm_files m')" "lm_files m' ! i = x" "i \<noteq> u32_max"
proof -
  have room: "files.room m (set (lm_files other))" using assms(1) by (simp add: fits_def)
  note R = files.room_intern [OF room assms(2) finite_set assms(3)] and F = intern_file_frame [OF assms(3)]
  show "i < length (lm_files m')" "lm_files m' ! i = x" "i \<noteq> u32_max" using R by simp_all
  show "lm_entries m' = lm_entries m" "lm_macros m' = lm_macros m" using F by simp_all
  show "grows m m'" using R(5) F interned_table_prefix by (metis append_Nil2 grows_def)
  show "fits m' other"
    using assms(1) R(1) F by (simp add: fits_def macros.room_def macros_room_def macros_ok_def)
qed

lemma fits_intern_macro:
  assumes "fits m other" "x \<in> set (lm_macros other)" "intern_macro m x = (m', i)"
  shows "fits m' other" "grows m m'" "lm_entries m' = lm_entries m" "lm_files m' = lm_files m"
    "i < length (lm_macros m')" "lm_macros m' ! i = x" "i \<noteq> u32_max"
proof -
  have room: "macros.room m (set (lm_macros other))" using assms(1) by (simp add: fits_def)
  note R = macros.room_intern [OF room assms(2) finite_set assms(3)] and F = intern_macro_frame [OF assms(3)]
  show "i < length (lm_macros m')" "lm_macros m' ! i = x" "i \<noteq> u32_max" using R by simp_all
  show "lm_entries m' = lm_entries m" "lm_files m' = lm_files m" using F by simp_all
  show "grows m m'" using R(5) F interned_table_prefix by (metis append_Nil2 grows_def)
  show "fits m' other" using assms(1) R(1) F by (simp add: fits_def files.room_def)
qed

section \<open>Entries copied from another map\<close>

text \<open>\<open>names table src f g\<close>: index \<open>g\<close> of the table names what \<open>f\<close> names in the source, or both are none.\<close>

definition names :: "'a list \<Rightarrow> 'a list \<Rightarrow> nat \<Rightarrow> nat \<Rightarrow> bool" where
  "names table src f g \<longleftrightarrow>
     (if f = u32_max then g = u32_max else g < length table \<and> table ! g = src ! f \<and> g \<noteq> u32_max)"

lemma names_append: "names table src f g \<Longrightarrow> names (table @ xs) src f g"
  by (auto simp: names_def nth_append split: if_splits)

lemma names_grows:
  "grows m m' \<Longrightarrow> names (lm_files m) src f g \<Longrightarrow> names (lm_files m') src f g"
  "grows m m' \<Longrightarrow> names (lm_macros m) src' f g \<Longrightarrow> names (lm_macros m') src' f g"
  by (auto simp: grows_def names_append)

lemma origin_copied:
  assumes "entry_ok other e" "length (lm_files other) \<le> u32_max" "at \<le> u32_max"
    and "names (lm_files m) (lm_files other) (le_file e) file"
    and "names (lm_files m) (lm_files other) (le_expansion_file e) exp"
    and "names (lm_macros m) (lm_macros other) (le_expansion_macro e) mac"
  shows "origin m (e\<lparr>le_output_offset := at, le_file := file, le_expansion_file := exp, le_expansion_macro := mac\<rparr>)
      = (origin other e)\<lparr>or_offset := at\<rparr>"
    and "entry_ok m (e\<lparr>le_output_offset := at, le_file := file, le_expansion_file := exp, le_expansion_macro := mac\<rparr>)"
  using assms by (auto simp: origin_def entry_ok_def names_def split: if_splits)

text \<open>The entries appended so far to a map by a loop over entries of another one.\<close>

definition appended :: "LineMap \<Rightarrow> (nat \<Rightarrow> nat) \<Rightarrow> LineMap \<Rightarrow> LineMapEntry list \<Rightarrow> LineMap \<Rightarrow> bool" where
  "appended other shift m es m' \<longleftrightarrow> fits m' other \<and> grows m m' \<and> list_all (entry_ok m') (lm_entries m') \<and>
     origins m' = origins m @ map (\<lambda>e. (origin other e)\<lparr>or_offset := shift (le_output_offset e)\<rparr>) es"

lemma appended_start:
  "fits m other \<Longrightarrow> list_all (entry_ok m) (lm_entries m) \<Longrightarrow> appended other shift m [] m"
  by (simp add: appended_def)

lemma appended_push:
  assumes "appended other shift m es m1" "grows m1 m2" "lm_entries m2 = lm_entries m1" "fits m2 other"
    and "entry_ok m2 e'" "origin m2 e' = (origin other e)\<lparr>or_offset := shift (le_output_offset e)\<rparr>"
  shows "appended other shift m (es @ [e]) (m2\<lparr>lm_entries := lm_entries m2 @ [e']\<rparr>)"
proof -
  have ok: "x \<in> set (lm_entries m1) \<Longrightarrow> entry_ok m1 x" for x
    using assms(1) by (simp add: appended_def list_all_iff)
  then have "origins (m2\<lparr>lm_entries := lm_entries m2 @ [e']\<rparr>) = origins m1 @ [origin m2 e']"
    using origin_grows(1) [OF _ assms(2)] assms(3) by (simp add: origins_def)
  moreover have "list_all (entry_ok m2) (lm_entries m1)"
    using ok origin_grows(2) [OF _ assms(2)] by (simp add: list_all_iff)
  moreover have "grows m m2" using assms(1,2) grows_trans by (auto simp: appended_def)
  ultimately show ?thesis using assms by (simp add: appended_def)
qed

definition memos_ok :: "LineMap \<Rightarrow> LineMap \<Rightarrow> nat list \<Rightarrow> nat list \<Rightarrow> bool" where
  "memos_ok other m remap macro_remap \<longleftrightarrow> fits m other \<and>
     files.memo_ok (lm_files other) m remap \<and> macros.memo_ok (lm_macros other) m macro_remap"

lemma memos_ok_entries [simp]: "memos_ok other (m\<lparr>lm_entries := es\<rparr>) r q = memos_ok other m r q"
  by (simp add: memos_ok_def files.memo_ok_def macros.memo_ok_def)

lemma memos_ok_start:
  "fits m other \<Longrightarrow>
   memos_ok other m (replicate (length (lm_files other)) u32_max) (replicate (length (lm_macros other)) u32_max)"
  by (simp add: memos_ok_def files.memo_ok_def macros.memo_ok_def)

lemma through_intern_file_frame:
  "through intern_file src (m, r) f = Some (m', r') \<Longrightarrow>
   lm_macros m' = lm_macros m \<and> lm_macro_indices m' = lm_macro_indices m \<and> lm_entries m' = lm_entries m"
  by (cases "intern_file m (src ! f)")
     (auto simp: through_def Option.bind_eq_Some_conv vget_Some dest!: intern_file_frame split: if_splits)

lemma through_intern_macro_frame:
  "through intern_macro src (m, r) f = Some (m', r') \<Longrightarrow> lm_files m' = lm_files m \<and> lm_entries m' = lm_entries m"
  by (cases "intern_macro m (src ! f)")
     (auto simp: through_def Option.bind_eq_Some_conv vget_Some dest!: intern_macro_frame split: if_splits)

lemma file_through:
  assumes "memos_ok other m r q" "f < length (lm_files other)" "length (lm_files other) \<le> u32_max"
  obtains m' r' where "through intern_file (lm_files other) (m, r) f = Some (m', r')" "memos_ok other m' r' q"
    "grows m m'" "lm_entries m' = lm_entries m" "lm_macros m' = lm_macros m"
    "names (lm_files m') (lm_files other) f (r' ! f)"
    "\<And>i. r ! i \<noteq> u32_max \<Longrightarrow> r' ! i = r ! i" "f < length r'"
    "set (lm_files m') \<subseteq> insert (lm_files other ! f) (set (lm_files m))"
proof -
  have "files.memo_ok (lm_files other) m r" "files.room m (set (lm_files other))"
    using assms(1) by (auto simp: memos_ok_def fits_def)
  from files.through_resolves [OF this assms(2)] obtain m' r' zs where
    T: "through intern_file (lm_files other) (m, r) f = Some (m', r')" "files.memo_ok (lm_files other) m' r'"
      "files.room m' (set (lm_files other))" "r' ! f < length (lm_files m')"
      "lm_files m' ! (r' ! f) = lm_files other ! f" "r' ! f \<noteq> u32_max" "lm_files m' = lm_files m @ zs"
      "set zs \<subseteq> {lm_files other ! f}"
      "\<forall>i. r ! i \<noteq> u32_max \<longrightarrow> r' ! i = r ! i" by blast
  note F = through_intern_file_frame [OF T(1)]
  have "memos_ok other m' r' q"
    using assms(1) T(2,3) F
    by (simp add: memos_ok_def fits_def macros.memo_ok_def macros.room_def macros_room_def macros_ok_def)
  moreover have "grows m m'" using T(7) F by (simp add: grows_def)
  moreover have "names (lm_files m') (lm_files other) f (r' ! f)" using T(4-6) assms(2,3) by (simp add: names_def)
  moreover have "f < length r'" using T(2) assms(2) by (simp add: files.memo_ok_def)
  moreover have "set (lm_files m') \<subseteq> insert (lm_files other ! f) (set (lm_files m))" using T(7,8) by auto
  ultimately show thesis using that T(1,9) F by blast
qed

lemma macro_through:
  assumes "memos_ok other m r q" "f < length (lm_macros other)" "length (lm_macros other) \<le> u32_max"
  obtains m' q' where "through intern_macro (lm_macros other) (m, q) f = Some (m', q')" "memos_ok other m' r q'"
    "grows m m'" "lm_entries m' = lm_entries m" "lm_files m' = lm_files m"
    "names (lm_macros m') (lm_macros other) f (q' ! f)"
    "\<And>i. q ! i \<noteq> u32_max \<Longrightarrow> q' ! i = q ! i" "f < length q'"
proof -
  have "macros.memo_ok (lm_macros other) m q" "macros.room m (set (lm_macros other))"
    using assms(1) by (auto simp: memos_ok_def fits_def)
  from macros.through_resolves [OF this assms(2)] obtain m' q' zs where
    T: "through intern_macro (lm_macros other) (m, q) f = Some (m', q')" "macros.memo_ok (lm_macros other) m' q'"
      "macros.room m' (set (lm_macros other))" "q' ! f < length (lm_macros m')"
      "lm_macros m' ! (q' ! f) = lm_macros other ! f" "q' ! f \<noteq> u32_max" "lm_macros m' = lm_macros m @ zs"
      "\<forall>i. q ! i \<noteq> u32_max \<longrightarrow> q' ! i = q ! i" by blast
  note F = through_intern_macro_frame [OF T(1)]
  have "memos_ok other m' r q'"
    using assms(1) T(2,3) F by (simp add: memos_ok_def fits_def files.memo_ok_def files.room_def)
  moreover have "grows m m'" using T(7) F by (simp add: grows_def)
  moreover have "names (lm_macros m') (lm_macros other) f (q' ! f)" using T(4-6) assms(2,3) by (simp add: names_def)
  moreover have "f < length q'" using T(2) assms(2) by (simp add: macros.memo_ok_def)
  ultimately show thesis using that T(1,8) F by blast
qed

text \<open>The same for an index that may be none.\<close>

lemma file_through_unless:
  assumes "memos_ok other m r q" "f = u32_max \<or> f < length (lm_files other)" "length (lm_files other) \<le> u32_max"
  obtains m' r' g where "through_unless_max intern_file (lm_files other) (m, r) f = Some (m', r')"
    "memos_ok other m' r' q" "grows m m'" "lm_entries m' = lm_entries m" "lm_macros m' = lm_macros m"
    "renamed r' f = Some g" "names (lm_files m') (lm_files other) f g"
    "\<And>i. r ! i \<noteq> u32_max \<Longrightarrow> r' ! i = r ! i" "length r' = length r"
    "set (lm_files m') \<subseteq> set (lm_files m) \<union> (if f = u32_max then {} else {lm_files other ! f})"
proof (cases "f = u32_max")
  case True
  then show thesis using that assms(1) by (simp add: through_unless_max_def renamed_def names_def)
next
  case False
  with assms(2) have f: "f < length (lm_files other)" by simp
  from file_through [OF assms(1) f assms(3)] obtain m' r' where
    T: "through intern_file (lm_files other) (m, r) f = Some (m', r')" "memos_ok other m' r' q"
      "grows m m'" "lm_entries m' = lm_entries m" "lm_macros m' = lm_macros m"
      "names (lm_files m') (lm_files other) f (r' ! f)" "\<And>i. r ! i \<noteq> u32_max \<Longrightarrow> r' ! i = r ! i" "f < length r'"
      "set (lm_files m') \<subseteq> insert (lm_files other ! f) (set (lm_files m))" by blast
  have "length r' = length r" using assms(1) T(2) by (simp add: memos_ok_def files.memo_ok_def)
  with False T that show thesis by (simp add: through_unless_max_def renamed_def vec_simps)
qed

lemma macro_through_unless:
  assumes "memos_ok other m r q" "f = u32_max \<or> f < length (lm_macros other)" "length (lm_macros other) \<le> u32_max"
  obtains m' q' g where "through_unless_max intern_macro (lm_macros other) (m, q) f = Some (m', q')"
    "memos_ok other m' r q'" "grows m m'" "lm_entries m' = lm_entries m" "lm_files m' = lm_files m"
    "renamed q' f = Some g" "names (lm_macros m') (lm_macros other) f g"
    "\<And>i. q ! i \<noteq> u32_max \<Longrightarrow> q' ! i = q ! i"
proof (cases "f = u32_max")
  case True
  then show thesis using that assms(1) by (simp add: through_unless_max_def renamed_def names_def)
next
  case False
  with assms(2) have f: "f < length (lm_macros other)" by simp
  from macro_through [OF assms(1) f assms(3)] obtain m' q' where
    T: "through intern_macro (lm_macros other) (m, q) f = Some (m', q')" "memos_ok other m' r q'"
      "grows m m'" "lm_entries m' = lm_entries m" "lm_files m' = lm_files m"
      "names (lm_macros m') (lm_macros other) f (q' ! f)" "\<And>i. q ! i \<noteq> u32_max \<Longrightarrow> q' ! i = q ! i" "f < length q'"
    by blast
  with False that show thesis by (simp add: through_unless_max_def renamed_def vec_simps)
qed

section \<open>Splicing a range\<close>

lemma vget_file: "entry_ok other e \<Longrightarrow> vget (lm_files other) (le_file e) = Some (lm_files other ! le_file e)"
  by (simp add: entry_ok_def vec_simps)

lemma names_known:
  "i < length table \<Longrightarrow> table ! i = src ! f \<Longrightarrow> i \<noteq> u32_max \<Longrightarrow> f \<noteq> u32_max \<Longrightarrow> names table src f i"
  by (simp add: names_def)

lemma rebased_id:
  "start \<le> at \<Longrightarrow> at - start + offset \<le> u32_max \<Longrightarrow> rebased start offset at = Some (at - start + offset)"
  by (simp add: rebased_def u32_sub_def as_u32_id)

text \<open>The optional interning of \<open>splice_one\<close>.\<close>

lemma intern_expansion_file:
  assumes "fits m other" "entry_ok other e" "length (lm_files other) \<le> u32_max"
  obtains p m' g where "expansion_path_of other e = Some p"
    "(case p of None \<Rightarrow> (m, u32_max) | Some x \<Rightarrow> intern_file m x) = (m', g)" "fits m' other" "grows m m'"
    "lm_entries m' = lm_entries m" "names (lm_files m') (lm_files other) (le_expansion_file e) g"
proof (cases "le_expansion_file e = u32_max")
  case True
  then show thesis using that assms(1) by (simp add: expansion_path_of_def names_def)
next
  case False
  with assms(2) have f: "le_expansion_file e < length (lm_files other)" by (simp add: entry_ok_def)
  obtain m' g where it: "intern_file m (lm_files other ! le_expansion_file e) = (m', g)" by fastforce
  note F = fits_intern_file [OF assms(1) nth_mem [OF f] it]
  have "expansion_path_of other e = Some (Some (lm_files other ! le_expansion_file e))"
    using False f by (simp add: expansion_path_of_def vec_simps)
  with it F names_known [OF F(5-7) False] that show thesis by simp
qed

lemma intern_expansion_macro:
  assumes "fits m other" "entry_ok other e" "length (lm_macros other) \<le> u32_max"
  obtains p m' g where "expansion_macro_of other e = Some p"
    "(case p of None \<Rightarrow> (m, u32_max) | Some x \<Rightarrow> intern_macro m x) = (m', g)" "fits m' other" "grows m m'"
    "lm_entries m' = lm_entries m" "names (lm_macros m') (lm_macros other) (le_expansion_macro e) g"
proof (cases "le_expansion_macro e = u32_max")
  case True
  then show thesis using that assms(1) by (simp add: expansion_macro_of_def names_def)
next
  case False
  with assms(2) have f: "le_expansion_macro e < length (lm_macros other)" by (simp add: entry_ok_def)
  obtain m' g where it: "intern_macro m (lm_macros other ! le_expansion_macro e) = (m', g)" by fastforce
  note F = fits_intern_macro [OF assms(1) nth_mem [OF f] it]
  have "expansion_macro_of other e = Some (Some (lm_macros other ! le_expansion_macro e))"
    using False f by (simp add: expansion_macro_of_def vec_simps)
  with it F names_known [OF F(5-7) False] that show thesis by simp
qed

lemma splice_one_appends:
  assumes ap: "appended other (\<lambda>at. at - start + offset) m es m1" and e: "entry_ok other e"
    and len: "length (lm_files other) \<le> u32_max" "length (lm_macros other) \<le> u32_max"
    and at: "start \<le> le_output_offset e" "le_output_offset e - start + offset \<le> u32_max"
  shows "\<exists>m2. splice_one other start offset m1 e = Some m2 \<and>
    appended other (\<lambda>at. at - start + offset) m (es @ [e]) m2"
proof -
  have f: "le_file e < length (lm_files other)" using e by (simp add: entry_ok_def)
  have fits: "fits m1 other" using ap by (simp add: appended_def)
  obtain m2 fi where i1: "intern_file m1 (lm_files other ! le_file e) = (m2, fi)" by fastforce
  note F = fits_intern_file [OF fits nth_mem [OF f] i1]
  have nf: "names (lm_files m2) (lm_files other) (le_file e) fi"
    using F(5-7) f len by (intro names_known) auto
  from intern_expansion_file [OF F(1) e len(1)] obtain p m3 exp where
    E: "expansion_path_of other e = Some p" "(case p of None \<Rightarrow> (m2, u32_max) | Some x \<Rightarrow> intern_file m2 x) = (m3, exp)"
      "fits m3 other" "grows m2 m3" "lm_entries m3 = lm_entries m2"
      "names (lm_files m3) (lm_files other) (le_expansion_file e) exp" by blast
  from intern_expansion_macro [OF E(3) e len(2)] obtain x m4 mac where
    M: "expansion_macro_of other e = Some x" "(case x of None \<Rightarrow> (m3, u32_max) | Some y \<Rightarrow> intern_macro m3 y) = (m4, mac)"
      "fits m4 other" "grows m3 m4" "lm_entries m4 = lm_entries m3"
      "names (lm_macros m4) (lm_macros other) (le_expansion_macro e) mac" by blast
  let ?e = "e\<lparr>le_output_offset := le_output_offset e - start + offset, le_file := fi,
    le_expansion_file := exp, le_expansion_macro := mac\<rparr>"
  have "splice_one other start offset m1 e = Some (m4\<lparr>lm_entries := lm_entries m4 @ [?e]\<rparr>)"
    using E(1,2) M(1,2) i1 rebased_id [OF at] by (simp add: splice_one_def vget_file [OF e] Let_def)
  moreover have "grows m1 m4" using F(2) E(4) M(4) grows_trans by blast
  moreover note origin_copied [OF e len(1) at(2) names_grows(1) [OF grows_trans [OF E(4) M(4)] nf]
      names_grows(1) [OF M(4) E(6)] M(6)]
  ultimately show ?thesis
    using appended_push [OF ap _ _ M(3), of ?e e] F(3) E(5) M(5) by auto
qed

lemma splice_memo_appends:
  assumes ap: "appended other (\<lambda>at. at - start + offset) m es m1" and memo: "memos_ok other m1 r q"
    and e: "entry_ok other e"
    and len: "length (lm_files other) \<le> u32_max" "length (lm_macros other) \<le> u32_max"
    and at: "start \<le> le_output_offset e" "le_output_offset e - start + offset \<le> u32_max"
  shows "\<exists>m2 r' q'. splice_memo other start offset (m1, r, q) e = Some (m2, r', q') \<and> memos_ok other m2 r' q' \<and>
    appended other (\<lambda>at. at - start + offset) m (es @ [e]) m2"
proof -
  have f: "le_file e < length (lm_files other)"
    "le_expansion_file e = u32_max \<or> le_expansion_file e < length (lm_files other)"
    "le_expansion_macro e = u32_max \<or> le_expansion_macro e < length (lm_macros other)"
    using e by (simp_all add: entry_ok_def)
  obtain m2 r2 where
    A: "through intern_file (lm_files other) (m1, r) (le_file e) = Some (m2, r2)" "memos_ok other m2 r2 q"
      "grows m1 m2" "lm_entries m2 = lm_entries m1" "names (lm_files m2) (lm_files other) (le_file e) (r2 ! le_file e)"
      "le_file e < length r2"
    by (rule file_through [OF memo f(1) len(1)], rule that)
  obtain m3 r3 exp where
    B: "through_unless_max intern_file (lm_files other) (m2, r2) (le_expansion_file e) = Some (m3, r3)"
      "memos_ok other m3 r3 q" "grows m2 m3" "lm_entries m3 = lm_entries m2" "lm_macros m3 = lm_macros m2"
      "renamed r3 (le_expansion_file e) = Some exp" "names (lm_files m3) (lm_files other) (le_expansion_file e) exp"
      "\<And>i. r2 ! i \<noteq> u32_max \<Longrightarrow> r3 ! i = r2 ! i" "length r3 = length r2"
    by (rule file_through_unless [OF A(2) f(2) len(1)], rule that)
  obtain m4 q4 mac where
    C: "through_unless_max intern_macro (lm_macros other) (m3, q) (le_expansion_macro e) = Some (m4, q4)"
      "memos_ok other m4 r3 q4" "grows m3 m4" "lm_entries m4 = lm_entries m3" "renamed q4 (le_expansion_macro e) = Some mac"
      "names (lm_macros m4) (lm_macros other) (le_expansion_macro e) mac"
    by (rule macro_through_unless [OF B(2) f(3) len(2)], rule that)
  have "le_file e \<noteq> u32_max" using f(1) len(1) by simp
  with A(5) have same: "r3 ! le_file e = r2 ! le_file e" using B(8) by (simp add: names_def)
  let ?e = "e\<lparr>le_output_offset := le_output_offset e - start + offset, le_file := r2 ! le_file e,
    le_expansion_file := exp, le_expansion_macro := mac\<rparr>"
  have "splice_memo other start offset (m1, r, q) e = Some (m4\<lparr>lm_entries := lm_entries m4 @ [?e]\<rparr>, r3, q4)"
    using A(1,6) B(1,6,9) C(1,5) same rebased_id [OF at] by (simp add: splice_memo_def vec_simps)
  moreover have "grows m1 m4" using A(3) B(3) C(3) grows_trans by blast
  moreover have "fits m4 other" using C(2) by (simp add: memos_ok_def)
  moreover note origin_copied [OF e len(1) at(2) names_grows(1) [OF grows_trans [OF B(3) C(3)] A(5)]
      names_grows(1) [OF C(3) B(7)] C(6)]
  ultimately show ?thesis
    using appended_push [OF ap, of m4 ?e e] A(4) B(4) C(2,4) by auto
qed

lemma fits_wf:
  assumes "fits m other" "list_all (entry_ok m) (lm_entries m)" "sorted (map or_offset (origins m))"
  shows "wf_line_map m"
proof -
  have R: "distinct (lm_files m)" "card (set (lm_files m) \<union> set (lm_files other)) \<le> u32_max"
    "macros_room m" using assms(1) by (auto simp: fits_def files.room_def macros.room_def)
  have "card (set (lm_files m)) \<le> card (set (lm_files m) \<union> set (lm_files other))" by (rule card_mono) auto
  with R(1,2) have "length (lm_files m) \<le> u32_max" by (simp add: distinct_card)
  moreover have "map or_offset (origins m) = map le_output_offset (lm_entries m)"
    by (simp add: origins_def origin_def)
  ultimately show ?thesis using R assms(2,3) by (simp add: wf_line_map_def macros_room_def)
qed

lemma fits_self:
  assumes "wf_line_map m" "card (set (lm_files m) \<union> set (lm_files other)) \<le> u32_max"
    "card (set (lm_macros m) \<union> set (lm_macros other)) \<le> u32_max"
  shows "fits m other"
  using assms by (simp add: fits_def files.room_def macros.room_def macros_room_def wf_line_map_def)

definition in_range :: "nat \<Rightarrow> nat \<Rightarrow> LineMapEntry \<Rightarrow> bool" where
  "in_range lo hi e \<longleftrightarrow> lo \<le> le_output_offset e \<and> le_output_offset e < hi"

lemma range_chunk:
  assumes "sorted (map le_output_offset es)"
  shows "take (partition_point (\<lambda>e. le_output_offset e < hi) (drop (partition_point (\<lambda>e. le_output_offset e < lo) es) es))
      (drop (partition_point (\<lambda>e. le_output_offset e < lo) es) es) = filter (in_range lo hi) es"
proof -
  let ?tail = "drop (partition_point (\<lambda>e. le_output_offset e < lo) es) es"
  have "sorted (map le_output_offset ?tail)" using assms by (simp add: drop_map [symmetric] sorted_wrt_drop)
  from partition_point_split(1) [OF partitioned_offsets(1) [OF this, of hi]]
  show ?thesis
    unfolding partition_point_split(2) [OF partitioned_offsets(1) [OF assms, of lo]]
    by (simp add: in_range_def [abs_def] not_less conj_commute)
qed

lemma splice_range_appends:
  assumes m: "wf_line_map m" and other: "wf_line_map other" and fits: "fits m other"
    and at: "\<And>e. in_range lo hi e \<Longrightarrow> le_output_offset e - lo + offset \<le> u32_max"
  shows "\<exists>m'. splice_range m other lo hi offset = Some m' \<and>
    appended other (\<lambda>at. at - lo + offset) m (filter (in_range lo hi) (lm_entries other)) m'"
proof -
  let ?chunk = "filter (in_range lo hi) (lm_entries other)" and ?shift = "\<lambda>at. at - lo + offset"
  note O = wf_line_mapD [OF other]
  have start: "appended other ?shift m [] m" using fits m by (intro appended_start) (simp_all add: wf_line_map_def)
  have ok: "entry_ok other e \<and> lo \<le> le_output_offset e \<and> ?shift (le_output_offset e) \<le> u32_max" if "e \<in> set ?chunk" for e
    using that O(5) at by (auto simp: in_range_def)
  have one: "\<exists>m'. foldM (splice_one other lo offset) m ?chunk = Some m' \<and> appended other ?shift m ?chunk m'"
  proof (rule foldM_prefix_rule [where I = "\<lambda>es. appended other ?shift m es", OF start])
    show "\<exists>t. splice_one other lo offset m1 e = Some t \<and> appended other ?shift m (es @ [e]) t"
      if "appended other ?shift m es m1" "e \<in> set ?chunk" for es e m1
      using splice_one_appends [OF that(1) _ O(2,4)] ok [OF that(2)] by blast
  qed
  have memo: "\<exists>st. foldM (splice_memo other lo offset) (m, replicate (length (lm_files other)) u32_max,
      replicate (length (lm_macros other)) u32_max) ?chunk = Some st \<and>
      (case st of (m', r, q) \<Rightarrow> memos_ok other m' r q \<and> appended other ?shift m ?chunk m')"
  proof (rule foldM_prefix_rule [where I = "\<lambda>es st. case st of (m', r, q) \<Rightarrow> memos_ok other m' r q \<and> appended other ?shift m es m'"])
    show "case (m, replicate (length (lm_files other)) u32_max, replicate (length (lm_macros other)) u32_max) of
        (m', r, q) \<Rightarrow> memos_ok other m' r q \<and> appended other ?shift m [] m'"
      using start memos_ok_start [OF fits] by simp
    show "\<exists>t. splice_memo other lo offset st e = Some t \<and>
        (case t of (m', r, q) \<Rightarrow> memos_ok other m' r q \<and> appended other ?shift m (es @ [e]) m')"
      if "case st of (m', r, q) \<Rightarrow> memos_ok other m' r q \<and> appended other ?shift m es m'" "e \<in> set ?chunk" for es e st
      using that splice_memo_appends [OF _ _ _ O(2,4)] ok [OF that(2)] by (cases st) fastforce
  qed
  show ?thesis
  proof (cases "hi \<le> lo")
    case True
    then have "?chunk = []" by (auto simp: filter_empty_conv in_range_def)
    with True start show ?thesis by (simp add: splice_range_def)
  next
    case False
    let ?k = "partition_point (\<lambda>e. le_output_offset e < hi)
      (drop (partition_point (\<lambda>e. le_output_offset e < lo) (lm_entries other)) (lm_entries other))"
    note chunk = range_chunk [OF O(6), of hi lo]
    have "?chunk = []" if "?k = 0" using that chunk by simp
    with False one memo start chunk show ?thesis
      by (auto simp: splice_range_def Let_def)
  qed
qed

section \<open>Slicing\<close>

text \<open>The paths an entry names.\<close>

definition paths_of :: "LineMap \<Rightarrow> LineMapEntry \<Rightarrow> Path set" where
  "paths_of m e = insert (lm_files m ! le_file e)
     (if le_expansion_file e = u32_max then {} else {lm_files m ! le_expansion_file e})"

definition numbered :: "nat list \<Rightarrow> nat list \<Rightarrow> LineMapEntry list \<Rightarrow> bool" where
  "numbered r q es \<longleftrightarrow> (\<forall>e \<in> set es. r ! le_file e \<noteq> u32_max \<and>
     (le_expansion_macro e \<noteq> u32_max \<longrightarrow> q ! le_expansion_macro e \<noteq> u32_max))"

lemma numbered_mono:
  assumes "numbered r q es" "\<And>i. r ! i \<noteq> u32_max \<Longrightarrow> r' ! i = r ! i" "\<And>i. q ! i \<noteq> u32_max \<Longrightarrow> q' ! i = q ! i"
  shows "numbered r' q' es"
  using assms by (auto simp: numbered_def)

lemma names_not_max: "f \<noteq> u32_max \<Longrightarrow> names table src f g \<Longrightarrow> g \<noteq> u32_max"
  by (simp add: names_def)

definition scanning :: "LineMap \<Rightarrow> LineMapEntry list \<Rightarrow> LineMap \<times> nat list \<times> nat list \<Rightarrow> bool" where
  "scanning m es st \<longleftrightarrow> (case st of (out, r, q) \<Rightarrow> memos_ok m out r q \<and> lm_entries out = [] \<and> numbered r q es \<and>
     set (lm_files out) \<subseteq> (\<Union>e \<in> set es. paths_of m e))"

lemma slice_scan_step:
  assumes wf: "wf_line_map m" and e: "e \<in> set (lm_entries m)" and sc: "scanning m es st"
  shows "\<exists>st'. slice_scan m st e = Some st' \<and> scanning m (es @ [e]) st'"
proof -
  obtain out r q where st: "st = (out, r, q)" by (cases st)
  have memo: "memos_ok m out r q" using sc by (simp add: scanning_def st)
  note D = wf_line_mapD [OF wf]
  have f: "le_file e < length (lm_files m)"
    "le_expansion_macro e = u32_max \<or> le_expansion_macro e < length (lm_macros m)"
    using D(5) [OF e] by (simp_all add: entry_ok_def)
  obtain out1 r1 where
    A: "through intern_file (lm_files m) (out, r) (le_file e) = Some (out1, r1)" "memos_ok m out1 r1 q"
      "lm_entries out1 = lm_entries out" "names (lm_files out1) (lm_files m) (le_file e) (r1 ! le_file e)"
      "\<And>i. r ! i \<noteq> u32_max \<Longrightarrow> r1 ! i = r ! i"
      "set (lm_files out1) \<subseteq> insert (lm_files m ! le_file e) (set (lm_files out))"
    by (rule file_through [OF memo f(1) D(2)], rule that)
  obtain out2 q2 mac where
    B: "through_unless_max intern_macro (lm_macros m) (out1, q) (le_expansion_macro e) = Some (out2, q2)"
      "memos_ok m out2 r1 q2" "lm_entries out2 = lm_entries out1" "lm_files out2 = lm_files out1"
      "renamed q2 (le_expansion_macro e) = Some mac"
      "names (lm_macros out2) (lm_macros m) (le_expansion_macro e) mac" "\<And>i. q ! i \<noteq> u32_max \<Longrightarrow> q2 ! i = q ! i"
    by (rule macro_through_unless [OF A(2) f(2) D(4)], rule that)
  have "le_file e \<noteq> u32_max" using f(1) D(2) by simp
  then have "r1 ! le_file e \<noteq> u32_max" using A(4) by (rule names_not_max)
  moreover have "q2 ! le_expansion_macro e \<noteq> u32_max" if "le_expansion_macro e \<noteq> u32_max"
    using names_not_max [OF that B(6)] B(5) that by (auto simp: renamed_def vget_Some)
  moreover have "numbered r q es" using sc by (simp add: scanning_def st)
  from numbered_mono [OF this A(5) B(7)] have "numbered r1 q2 es" .
  ultimately have "numbered r1 q2 (es @ [e])" by (auto simp: numbered_def)
  moreover have "set (lm_files out2) \<subseteq> (\<Union>e \<in> set (es @ [e]). paths_of m e)"
    using A(6) B(4) sc by (auto simp: scanning_def st paths_of_def)
  ultimately have "scanning m (es @ [e]) (out2, r1, q2)"
    using B(2,3) A(3) sc by (simp add: scanning_def st)
  then show ?thesis using A(1) B(1) by (simp add: slice_scan_def st)
qed

definition slicing ::
  "LineMap \<Rightarrow> nat \<Rightarrow> nat list \<Rightarrow> LineMapEntry list \<Rightarrow> LineMapEntry list \<Rightarrow> LineMap \<times> nat list \<times> LineMapEntry list \<Rightarrow> bool" where
  "slicing m start q tail es st \<longleftrightarrow> (case st of (out, r, entries) \<Rightarrow> memos_ok m out r q \<and> numbered r q tail \<and>
     set (lm_files out) \<subseteq> (\<Union>e \<in> set tail. paths_of m e) \<and>
     appended m (\<lambda>at. at - start) LineMap_new es (out\<lparr>lm_entries := entries\<rparr>))"

lemma slice_entry_step:
  assumes wf: "wf_line_map m" and e: "e \<in> set (lm_entries m)" "e \<in> set tail" "start \<le> le_output_offset e"
    and sl: "slicing m start q tail es st"
  shows "\<exists>st'. slice_entry m start q st e = Some st' \<and> slicing m start q tail (es @ [e]) st'"
proof -
  obtain out r entries where st: "st = (out, r, entries)" by (cases st)
  have memo: "memos_ok m out r q" and num: "numbered r q tail"
    and ap: "appended m (\<lambda>at. at - start) LineMap_new es (out\<lparr>lm_entries := entries\<rparr>)"
    using sl by (simp_all add: slicing_def st)
  note D = wf_line_mapD [OF wf]
  have ok: "entry_ok m e" using D(5) [OF e(1)] .
  then have f: "le_file e < length (lm_files m)"
    "le_expansion_file e = u32_max \<or> le_expansion_file e < length (lm_files m)"
    "le_expansion_macro e = u32_max \<or> le_expansion_macro e < length (lm_macros m)"
    and off: "le_output_offset e \<le> u32_max" by (simp_all add: entry_ok_def)
  have lens: "length r = length (lm_files m)" "length q = length (lm_macros m)"
    using memo by (simp_all add: memos_ok_def files.memo_ok_def macros.memo_ok_def)
  have rf: "r ! le_file e \<noteq> u32_max" using num e(2) by (simp add: numbered_def)
  then have nf: "names (lm_files out) (lm_files m) (le_file e) (r ! le_file e)"
    using memo f(1) D(2) by (intro names_known) (auto simp: memos_ok_def files.memo_ok_def)
  obtain out1 r1 exp where
    A: "through_unless_max intern_file (lm_files m) (out, r) (le_expansion_file e) = Some (out1, r1)"
      "memos_ok m out1 r1 q" "grows out out1" "lm_entries out1 = lm_entries out" "lm_macros out1 = lm_macros out"
      "renamed r1 (le_expansion_file e) = Some exp" "names (lm_files out1) (lm_files m) (le_expansion_file e) exp"
      "\<And>i. r ! i \<noteq> u32_max \<Longrightarrow> r1 ! i = r ! i"
      "set (lm_files out1) \<subseteq> set (lm_files out) \<union> (if le_expansion_file e = u32_max then {} else {lm_files m ! le_expansion_file e})"
    by (rule file_through_unless [OF memo f(2) D(2)], rule that)
  obtain mac where mac: "renamed q (le_expansion_macro e) = Some mac"
      "names (lm_macros out1) (lm_macros m) (le_expansion_macro e) mac"
  proof (cases "le_expansion_macro e = u32_max")
    case True
    then show thesis using that by (simp add: renamed_def names_def)
  next
    case False
    with num e(2) have "q ! le_expansion_macro e \<noteq> u32_max" by (simp add: numbered_def)
    with False f(3) A(2) have "names (lm_macros out1) (lm_macros m) (le_expansion_macro e) (q ! le_expansion_macro e)"
      by (intro names_known) (auto simp: memos_ok_def macros.memo_ok_def)
    with that False f(3) lens show thesis by (simp add: renamed_def vec_simps)
  qed
  let ?e = "e\<lparr>le_output_offset := le_output_offset e - start, le_file := r ! le_file e,
    le_expansion_file := exp, le_expansion_macro := mac\<rparr>"
  have "as_u32 start = start" using e(3) off by (simp add: as_u32_id)
  then have step: "slice_entry m start q st e = Some (out1, r1, entries @ [?e])"
    using A(1,6) mac(1) f(1) lens e(3) by (simp add: slice_entry_def st u32_sub_def vec_simps)
  note copied = origin_copied [OF ok D(2), of "le_output_offset e - start", OF _ names_grows(1) [OF A(3) nf] A(7) mac(2)]
  have "appended m (\<lambda>at. at - start) LineMap_new (es @ [e])
      (out1\<lparr>lm_entries := entries\<rparr>\<lparr>lm_entries := lm_entries (out1\<lparr>lm_entries := entries\<rparr>) @ [?e]\<rparr>)"
  proof (rule appended_push [OF ap])
    show "grows (out\<lparr>lm_entries := entries\<rparr>) (out1\<lparr>lm_entries := entries\<rparr>)" using A(3) by (simp add: grows_def)
    show "fits (out1\<lparr>lm_entries := entries\<rparr>) m" using A(2) by (simp add: memos_ok_def)
  qed (use copied off in simp_all)
  moreover have "set (lm_files out1) \<subseteq> (\<Union>e \<in> set tail. paths_of m e)"
  proof -
    have "(if le_expansion_file e = u32_max then {} else {lm_files m ! le_expansion_file e}) \<subseteq> paths_of m e"
      by (auto simp: paths_of_def)
    moreover have "set (lm_files out) \<subseteq> (\<Union>e \<in> set tail. paths_of m e)" using sl by (simp add: slicing_def st)
    ultimately show ?thesis using A(9) e(2) by blast
  qed
  moreover from numbered_mono [OF num A(8)] have "numbered r1 q tail" by simp
  ultimately show ?thesis using step A(2) by (simp add: slicing_def)
qed

lemma slice_from_appends:
  assumes wf: "wf_line_map m"
  shows "\<exists>m'. slice_from m start = Some m' \<and>
    appended m (\<lambda>at. at - start) LineMap_new (filter (\<lambda>e. start \<le> le_output_offset e) (lm_entries m)) m' \<and>
    set (lm_files m') \<subseteq> (\<Union>e \<in> set (filter (\<lambda>e. start \<le> le_output_offset e) (lm_entries m)). paths_of m e)"
proof -
  let ?tail = "filter (\<lambda>e. start \<le> le_output_offset e) (lm_entries m)"
  note D = wf_line_mapD [OF wf]
  have tail: "drop (partition_point (\<lambda>e. le_output_offset e < start) (lm_entries m)) (lm_entries m) = ?tail"
    using partition_point_split(2) [OF partitioned_offsets(1) [OF D(6), of start]] by (simp add: not_less)
  have "distinct (lm_macros m)" using D(3) by (simp add: macros_ok_def)
  then have fits: "fits LineMap_new m"
    using D by (simp add: fits_def files.room_def macros.room_def macros_room_def macros_ok_def LineMap_new_def distinct_card)
  have "scanning m [] (LineMap_new, replicate (length (lm_files m)) u32_max, replicate (length (lm_macros m)) u32_max)"
    using memos_ok_start [OF fits] by (simp add: scanning_def numbered_def LineMap_new_def)
  then have "\<exists>st. foldM (slice_scan m) (LineMap_new, replicate (length (lm_files m)) u32_max,
      replicate (length (lm_macros m)) u32_max) ?tail = Some st \<and> scanning m ?tail st"
    by (rule foldM_prefix_rule) (rule slice_scan_step [OF wf], auto)
  then obtain out r q where scan: "foldM (slice_scan m)
      (LineMap_new, replicate (length (lm_files m)) u32_max, replicate (length (lm_macros m)) u32_max) ?tail = Some (out, r, q)"
      "scanning m ?tail (out, r, q)" by auto
  have "slicing m start q ?tail [] (out, r, [])"
    using scan(2) by (simp add: slicing_def scanning_def appended_def memos_ok_def origins_def LineMap_new_def grows_def)
  then have "\<exists>st. foldM (slice_entry m start q) (out, r, []) ?tail = Some st \<and> slicing m start q ?tail ?tail st"
    by (rule foldM_prefix_rule) (rule slice_entry_step [OF wf], auto)
  then obtain out' r' entries where sl: "foldM (slice_entry m start q) (out, r, []) ?tail = Some (out', r', entries)"
      "slicing m start q ?tail ?tail (out', r', entries)" by auto
  then show ?thesis using scan(1) tail by (simp add: slice_from_def Let_def slicing_def)
qed

section \<open>Splicing a whole map\<close>

lemma intern_macros_fits:
  assumes "fits m other" "set xs \<subseteq> set (lm_macros other)"
  shows "\<exists>m' ks. intern_macros m xs = (m', ks) \<and> fits m' other \<and> grows m m' \<and> lm_entries m' = lm_entries m \<and>
    length ks = length xs \<and>
    (\<forall>k < length xs. ks ! k < length (lm_macros m') \<and> lm_macros m' ! (ks ! k) = xs ! k \<and> ks ! k \<noteq> u32_max)"
  using assms
proof (induction xs arbitrary: m)
  case (Cons x xs)
  obtain m1 i where it: "intern_macro m x = (m1, i)" by fastforce
  have "x \<in> set (lm_macros other)" using Cons.prems(2) by simp
  note F = fits_intern_macro [OF Cons.prems(1) this it]
  from Cons.IH [OF F(1)] Cons.prems(2) obtain m2 ks where
    R: "intern_macros m1 xs = (m2, ks)" "fits m2 other" "grows m1 m2" "lm_entries m2 = lm_entries m1" "length ks = length xs"
      "\<forall>k < length xs. ks ! k < length (lm_macros m2) \<and> lm_macros m2 ! (ks ! k) = xs ! k \<and> ks ! k \<noteq> u32_max"
    by auto
  from R(3) obtain ys where "lm_macros m2 = lm_macros m1 @ ys" by (auto simp: grows_def)
  then have "i < length (lm_macros m2) \<and> lm_macros m2 ! i = x \<and> i \<noteq> u32_max" using F(5-7) by (simp add: nth_append)
  then have "\<forall>k < length (x # xs). (i # ks) ! k < length (lm_macros m2) \<and> lm_macros m2 ! ((i # ks) ! k) = (x # xs) ! k \<and>
      (i # ks) ! k \<noteq> u32_max" using R(6) by (auto simp: less_Suc_eq_0_disj)
  moreover have "intern_macros m (x # xs) = (m2, i # ks)" using it R(1) by simp
  ultimately show ?case using R F(2,3) grows_trans [OF F(2) R(3)] by (intro exI conjI) auto
qed simp

lemma splice_entry_names:
  assumes e: "entry_ok other e" and len: "length (lm_files other) \<le> u32_max" "length (lm_macros other) \<le> u32_max"
    and r: "length remap = length (lm_files other)"
      "\<And>f. f < length (lm_files other) \<Longrightarrow> names (lm_files m) (lm_files other) f (remap ! f)"
    and q: "length ks = length (lm_macros other)"
      "\<And>f. f < length (lm_macros other) \<Longrightarrow> names (lm_macros m) (lm_macros other) f (ks ! f)"
    and at: "le_output_offset e + offset \<le> u32_max"
  shows "\<exists>e'. splice_entry offset remap ks e = Some e' \<and> entry_ok m e' \<and>
    origin m e' = (origin other e)\<lparr>or_offset := le_output_offset e + offset\<rparr>"
proof -
  have f: "le_file e < length (lm_files other)"
    "le_expansion_file e = u32_max \<or> le_expansion_file e < length (lm_files other)"
    "le_expansion_macro e = u32_max \<or> le_expansion_macro e < length (lm_macros other)"
    using e by (simp_all add: entry_ok_def)
  obtain exp where E: "renamed remap (le_expansion_file e) = Some exp"
      "names (lm_files m) (lm_files other) (le_expansion_file e) exp"
    using f(2) r by (cases "le_expansion_file e = u32_max") (auto simp: renamed_def names_def vec_simps)
  obtain mac where M: "renamed ks (le_expansion_macro e) = Some mac"
      "names (lm_macros m) (lm_macros other) (le_expansion_macro e) mac"
    using f(3) q by (cases "le_expansion_macro e = u32_max") (auto simp: renamed_def names_def vec_simps)
  have "u32_add (le_output_offset e) (as_u32 offset) = Some (le_output_offset e + offset)"
    using at by (simp add: u32_add_def as_u32_id)
  then have "splice_entry offset remap ks e = Some (e\<lparr>le_output_offset := le_output_offset e + offset,
      le_file := remap ! le_file e, le_expansion_file := exp, le_expansion_macro := mac\<rparr>)"
    using E(1) M(1) f(1) r(1) by (simp add: splice_entry_def vec_simps)
  with origin_copied [OF e len(1) at r(2) [OF f(1)] E(2) M(2)] show ?thesis by simp
qed

lemma mapM_related:
  assumes "\<And>x. x \<in> set xs \<Longrightarrow> \<exists>y. f x = Some y \<and> P x y"
  shows "\<exists>ys. mapM f xs = Some ys \<and> list_all2 P xs ys"
  using assms
proof (induction xs)
  case (Cons x xs)
  obtain y where "f x = Some y" "P x y" using Cons.prems [of x] by auto
  moreover obtain ys where "mapM f xs = Some ys" "list_all2 P xs ys" using Cons by auto
  ultimately show ?case by simp
qed simp

text \<open>\<open>files_through\<close>: what the caller's renumbering of another map's files must satisfy.\<close>

definition files_through :: "LineMap \<Rightarrow> LineMap \<Rightarrow> nat list \<Rightarrow> bool" where
  "files_through m other remap \<longleftrightarrow> length remap = length (lm_files other) \<and>
     list_all (\<lambda>f. remap ! f < length (lm_files m) \<and> lm_files m ! (remap ! f) = lm_files other ! f)
       [0..<length (lm_files other)]"

lemma lm_splice_origins:
  assumes m: "wf_line_map m" and other: "wf_line_map other" and fits: "fits m other"
    and through: "files_through m other remap"
    and at: "\<And>e. e \<in> set (lm_entries other) \<Longrightarrow> le_output_offset e + offset \<le> u32_max"
  shows "\<exists>m'. lm_splice m other offset remap = Some m' \<and> fits m' other \<and> list_all (entry_ok m') (lm_entries m') \<and>
    origins m' = origins m @ map (\<lambda>o'. o'\<lparr>or_offset := or_offset o' + offset\<rparr>) (origins other)"
proof -
  note M = wf_line_mapD [OF m] and O = wf_line_mapD [OF other]
  from intern_macros_fits [OF fits subset_refl] obtain m1 ks where
    I: "intern_macros m (lm_macros other) = (m1, ks)" "fits m1 other" "grows m m1" "lm_entries m1 = lm_entries m"
      "length ks = length (lm_macros other)"
      "\<forall>k < length (lm_macros other). ks ! k < length (lm_macros m1) \<and> lm_macros m1 ! (ks ! k) = lm_macros other ! k \<and> ks ! k \<noteq> u32_max"
    by blast
  have q: "names (lm_macros m1) (lm_macros other) f (ks ! f)" if "f < length (lm_macros other)" for f
    using that I(6) O(4) by (simp add: names_def)
  have r: "names (lm_files m1) (lm_files other) f (remap ! f)" if "f < length (lm_files other)" for f
    using that through M(2) O(2)
    by (intro names_grows(1) [OF I(3)] names_known) (force simp: files_through_def list_all_iff)+
  have len: "length remap = length (lm_files other)" using through by (simp add: files_through_def)
  let ?P = "\<lambda>e e'. entry_ok m1 e' \<and> origin m1 e' = (origin other e)\<lparr>or_offset := le_output_offset e + offset\<rparr>"
  have "\<exists>e'. splice_entry offset remap ks e = Some e' \<and> ?P e e'" if "e \<in> set (lm_entries other)" for e
    using splice_entry_names [OF O(5) [OF that] O(2,4) len r I(5) q at [OF that]] by blast
  from mapM_related [where P = ?P, OF this] obtain es where
    es: "mapM (splice_entry offset remap ks) (lm_entries other) = Some es" "list_all2 ?P (lm_entries other) es" by blast
  then have "map (origin m1) es = map (\<lambda>o'. o'\<lparr>or_offset := or_offset o' + offset\<rparr>) (origins other)"
    by (simp add: origins_def list_all2_conv_all_nth list_eq_iff_nth_eq) (simp add: origin_def)
  moreover have "map (origin m1) (lm_entries m) = origins m"
    using origin_grows(1) [OF M(5) I(3)] by (simp add: origins_def)
  moreover have "list_all (entry_ok m1) (lm_entries m1 @ es)"
    using es(2) origin_grows(2) [OF M(5) I(3)] I(4) by (auto simp: list_all_length list_all2_conv_all_nth nth_append)
  ultimately show ?thesis using I(1,2,4) es(1) by (simp add: lm_splice_def origins_def [of "_\<lparr>lm_entries := _\<rparr>"])
qed

section \<open>Samples\<close>

lemma from_raw_parts_wf:
  assumes "distinct fs" "length fs \<le> u32_max" "distinct ms" "length ms \<le> u32_max"
    and "list_all (entry_ok (from_raw_parts fs ms es)) es" "sorted (map le_output_offset es)"
  shows "wf_line_map (from_raw_parts fs ms es)"
  using assms lookup_index_names [OF assms(3,4), of Mapping.empty]
  by (simp add: wf_line_map_def macros_ok_def from_raw_parts_def)

definition sample_entry :: "nat \<Rightarrow> nat \<Rightarrow> nat \<Rightarrow> nat \<Rightarrow> LineMapEntry" where
  "sample_entry off f x mac = \<lparr>le_expansion_id = 1, le_output_offset = off, le_file = f, le_line = off, le_col = 1,
     le_expansion_file = x, le_expansion_line = 2, le_expansion_col = 3, le_expansion_macro = mac\<rparr>"

definition sample_map :: LineMap where
  "sample_map = from_raw_parts [[''a.c'']] [''M''] [sample_entry 0 0 u32_max u32_max, sample_entry 4 0 0 0]"

definition other_map :: LineMap where
  "other_map = from_raw_parts [[''inc'', ''b.h''], [''a.c''], [''unused'']] [''N'', ''M'']
     [sample_entry 0 0 u32_max u32_max, sample_entry 2 1 0 1, sample_entry 2 0 1 0, sample_entry 5 0 0 1]"

lemma sample_maps_wf: "wf_line_map sample_map" "wf_line_map other_map"
  unfolding sample_map_def other_map_def by (rule from_raw_parts_wf; code_simp)+

section \<open>Properties\<close>

text \<open>On a well-formed map the binary search of a lookup finds the last entry at or before the
  offset, and finds nothing only when no entry is.\<close>

theorem lm_lookup_correct:
  assumes "wf_line_map m"
  shows "lm_lookup m off =
    (let before = filter (\<lambda>e. le_output_offset e \<le> off) (lm_entries m)
     in if before = [] then None else Some (last before))"
proof -
  let ?p = "\<lambda>e. le_output_offset e \<le> off" and ?es = "lm_entries m"
  note P = partition_point_split [OF partitioned_offsets(2) [OF wf_line_mapD(6) [OF assms], of off]]
  show ?thesis
  proof (cases "filter ?p ?es = []")
    case True
    then show ?thesis using P(3) by (simp add: lm_lookup_def)
  next
    case False
    then have "0 < length (filter ?p ?es)" by simp
    then have k: "0 < partition_point ?p ?es" "partition_point ?p ?es - 1 < length ?es"
      using P(3) length_filter_le [of ?p ?es] by linarith+
    have "last (filter ?p ?es) = take (partition_point ?p ?es) ?es ! (partition_point ?p ?es - 1)"
      using last_conv_nth [OF False] by (simp add: P(1)) (simp add: P(3))
    also have "\<dots> = ?es ! (partition_point ?p ?es - 1)" using k(1) by simp
    finally show ?thesis using False k by (simp add: lm_lookup_def Let_def vget_def)
  qed
qed

theorem lm_lookup_correct_witness: "lm_lookup sample_map 3 = Some (sample_entry 0 0 u32_max u32_max)"
  using lm_lookup_correct [OF sample_maps_wf(1), of 3]
  by (simp add: sample_map_def from_raw_parts_def sample_entry_def)

text \<open>C7: splicing a range of another map appends exactly the locations of that half-open range, in
  order and rebased, whether through the short path or the memo tables: no index panics,
  nothing that was recorded changes its meaning, and the result is well formed.\<close>

theorem splice_range_correct:
  assumes "wf_line_map m" "wf_line_map other"
    and "card (set (lm_files m) \<union> set (lm_files other)) \<le> u32_max"
    and "card (set (lm_macros m) \<union> set (lm_macros other)) \<le> u32_max"
    and "list_all (\<lambda>e. le_output_offset e \<le> offset) (lm_entries m)" and "hi - lo + offset \<le> u32_max"
  shows "\<exists>m'. splice_range m other lo hi offset = Some m' \<and> wf_line_map m' \<and>
    origins m' = origins m @ map (\<lambda>o'. o'\<lparr>or_offset := or_offset o' - lo + offset\<rparr>)
      (filter (\<lambda>o'. lo \<le> or_offset o' \<and> or_offset o' < hi) (origins other))"
proof -
  have at: "le_output_offset e - lo + offset \<le> u32_max" if "in_range lo hi e" for e
    using that assms(6) unfolding in_range_def by arith
  from splice_range_appends [OF assms(1,2) fits_self [OF assms(1,3,4)] at] obtain m' where
    m': "splice_range m other lo hi offset = Some m'"
      "appended other (\<lambda>at. at - lo + offset) m (filter (in_range lo hi) (lm_entries other)) m'" by blast
  have eq: "map (\<lambda>e. (origin other e)\<lparr>or_offset := le_output_offset e - lo + offset\<rparr>) (filter (in_range lo hi) (lm_entries other))
      = map (\<lambda>o'. o'\<lparr>or_offset := or_offset o' - lo + offset\<rparr>)
        (filter (\<lambda>o'. lo \<le> or_offset o' \<and> or_offset o' < hi) (origins other))"
    by (simp add: origins_def filter_map o_def in_range_def [abs_def]) (simp add: origin_def)
  have "sorted (map or_offset (origins m'))"
    using m'(2) assms(5) wf_line_mapD(6) [OF assms(1)] wf_line_mapD(6) [OF assms(2)]
    by (auto simp: appended_def sorted_append origins_def origin_def o_def list_all_iff in_range_def
        sorted_map sorted_wrt_filter elim!: sorted_wrt_mono_rel [rotated] intro!: sorted_wrt_filter)
  with m' fits_wf [of m' other] show ?thesis by (auto simp: appended_def eq)
qed

theorem splice_range_correct_witness:
  "\<exists>m'. splice_range sample_map other_map 1 6 10 = Some m' \<and> wf_line_map m' \<and> length (origins m') = 5"
proof -
  have "card (set (lm_files sample_map) \<union> set (lm_files other_map)) \<le> u32_max"
    "card (set (lm_macros sample_map) \<union> set (lm_macros other_map)) \<le> u32_max"
    "list_all (\<lambda>e. le_output_offset e \<le> 10) (lm_entries sample_map)" "6 - 1 + 10 \<le> u32_max" by code_simp+
  from splice_range_correct [OF sample_maps_wf this] obtain m' where
    m': "splice_range sample_map other_map 1 6 10 = Some m'" "wf_line_map m'"
      "origins m' = origins sample_map @ map (\<lambda>o'. o'\<lparr>or_offset := or_offset o' - 1 + 10\<rparr>)
        (filter (\<lambda>o'. 1 \<le> or_offset o' \<and> or_offset o' < 6) (origins other_map))" by blast
  moreover have "length (origins sample_map) = 2"
    "length (filter (\<lambda>o'. 1 \<le> or_offset o' \<and> or_offset o' < 6) (origins other_map)) = 3" by code_simp+
  ultimately show ?thesis by simp
qed

text \<open>Splicing a whole map through a renumbering of its files appends all its locations, shifted,
  and changes nothing that was recorded.\<close>

theorem lm_splice_correct:
  assumes "wf_line_map m" "wf_line_map other"
    and "card (set (lm_files m) \<union> set (lm_files other)) \<le> u32_max"
    and "card (set (lm_macros m) \<union> set (lm_macros other)) \<le> u32_max"
    and "files_through m other remap"
    and "list_all (\<lambda>e. le_output_offset e \<le> offset) (lm_entries m)"
    and "list_all (\<lambda>e. le_output_offset e + offset \<le> u32_max) (lm_entries other)"
  shows "\<exists>m'. lm_splice m other offset remap = Some m' \<and> wf_line_map m' \<and>
    origins m' = origins m @ map (\<lambda>o'. o'\<lparr>or_offset := or_offset o' + offset\<rparr>) (origins other)"
proof -
  have at: "le_output_offset e + offset \<le> u32_max" if "e \<in> set (lm_entries other)" for e
    using that assms(7) by (simp add: list_all_iff)
  from lm_splice_origins [OF assms(1,2) fits_self [OF assms(1,3,4)] assms(5) at] obtain m' where
    m': "lm_splice m other offset remap = Some m'" "fits m' other" "list_all (entry_ok m') (lm_entries m')"
      "origins m' = origins m @ map (\<lambda>o'. o'\<lparr>or_offset := or_offset o' + offset\<rparr>) (origins other)" by blast
  have "sorted (map or_offset (origins m'))"
    using m'(4) assms(6) wf_line_mapD(6) [OF assms(1)] wf_line_mapD(6) [OF assms(2)]
    by (auto simp: sorted_append origins_def origin_def o_def list_all_iff sorted_map trans_le_add2
        elim!: sorted_wrt_mono_rel [rotated])
  with m' fits_wf [OF m'(2,3)] show ?thesis by blast
qed

theorem lm_splice_correct_witness:
  "\<exists>m'. lm_splice other_map sample_map 10 [1] = Some m' \<and> wf_line_map m' \<and> length (origins m') = 6"
proof -
  have "card (set (lm_files other_map) \<union> set (lm_files sample_map)) \<le> u32_max"
    "card (set (lm_macros other_map) \<union> set (lm_macros sample_map)) \<le> u32_max" "files_through other_map sample_map [1]"
    "list_all (\<lambda>e. le_output_offset e \<le> 10) (lm_entries other_map)"
    "list_all (\<lambda>e. le_output_offset e + 10 \<le> u32_max) (lm_entries sample_map)" by code_simp+
  from lm_splice_correct [OF sample_maps_wf(2,1) this] obtain m' where
    "lm_splice other_map sample_map 10 [1] = Some m'" "wf_line_map m'"
    "origins m' = origins other_map @ map (\<lambda>o'. o'\<lparr>or_offset := or_offset o' + 10\<rparr>) (origins sample_map)" by blast
  moreover have "length (origins other_map) = 4" "length (origins sample_map) = 2" by code_simp+
  ultimately show ?thesis by simp
qed

text \<open>C8: slicing a map from an offset gives the locations at or after it, rebased to zero, in a
  well-formed map whose file table holds exactly the files those locations name.\<close>

theorem slice_from_correct:
  assumes "wf_line_map m"
  shows "\<exists>m'. slice_from m start = Some m' \<and> wf_line_map m' \<and>
    origins m' = map (\<lambda>o'. o'\<lparr>or_offset := or_offset o' - start\<rparr>) (filter (\<lambda>o'. start \<le> or_offset o') (origins m)) \<and>
    set (lm_files m') = (\<Union>o' \<in> set (origins m'). insert (or_path o') (set_option (or_expansion_path o')))"
proof -
  let ?tail = "filter (\<lambda>e. start \<le> le_output_offset e) (lm_entries m)"
  from slice_from_appends [OF assms, of start] obtain m' where
    m': "slice_from m start = Some m'" "appended m (\<lambda>at. at - start) LineMap_new ?tail m'"
      "set (lm_files m') \<subseteq> (\<Union>e \<in> set ?tail. paths_of m e)" by blast
  have tail: "origins m' = map (\<lambda>e. (origin m e)\<lparr>or_offset := le_output_offset e - start\<rparr>) ?tail"
    using m'(2) by (simp add: appended_def origins_def LineMap_new_def)
  then have eq: "origins m' = map (\<lambda>o'. o'\<lparr>or_offset := or_offset o' - start\<rparr>) (filter (\<lambda>o'. start \<le> or_offset o') (origins m))"
    by (simp add: origins_def [of m] filter_map o_def) (simp add: origin_def)
  have "sorted (map or_offset (origins m'))"
    using wf_line_mapD(6) [OF assms] unfolding tail
    by (auto simp: o_def sorted_map sorted_wrt_filter elim!: sorted_wrt_mono_rel [rotated] intro!: sorted_wrt_filter)
  then have wf: "wf_line_map m'" using m'(2) fits_wf [of m' m] by (simp add: appended_def)
  have "paths_of m e = insert (or_path (origin m e)) (set_option (or_expansion_path (origin m e)))" for e
    by (simp add: paths_of_def origin_def)
  then have "(\<Union>e \<in> set ?tail. paths_of m e) = (\<Union>o' \<in> set (origins m'). insert (or_path o') (set_option (or_expansion_path o')))"
    unfolding tail by simp
  moreover have "insert (or_path o') (set_option (or_expansion_path o')) \<subseteq> set (lm_files m')" if "o' \<in> set (origins m')" for o'
  proof -
    from that obtain e where "e \<in> set (lm_entries m')" and o': "o' = origin m' e" by (auto simp: origins_def)
    then have "entry_ok m' e" using wf_line_mapD(5) [OF wf] by blast
    then show ?thesis by (auto simp: o' origin_def entry_ok_def)
  qed
  ultimately have "set (lm_files m') = (\<Union>o' \<in> set (origins m'). insert (or_path o') (set_option (or_expansion_path o')))"
    using m'(3) by (intro equalityI UN_least) simp_all
  then show ?thesis using m'(1) wf eq by (intro exI [of _ m'] conjI)
qed

theorem slice_from_correct_witness:
  "\<exists>m'. slice_from other_map 2 = Some m' \<and> wf_line_map m' \<and> length (origins m') = 3"
proof -
  from slice_from_correct [OF sample_maps_wf(2), of 2] obtain m' where
    "slice_from other_map 2 = Some m'" "wf_line_map m'"
    "origins m' = map (\<lambda>o'. o'\<lparr>or_offset := or_offset o' - 2\<rparr>) (filter (\<lambda>o'. 2 \<le> or_offset o') (origins other_map))"
    by blast
  moreover have "length (filter (\<lambda>o'. 2 \<le> or_offset o') (origins other_map)) = 3" by code_simp
  ultimately show ?thesis by simp
qed

text \<open>Truncating keeps exactly the entries before the cut, as a filter of the whole map would.\<close>

theorem truncate_at_correct:
  assumes "wf_line_map m"
  shows "truncate_at m at = m\<lparr>lm_entries := filter (\<lambda>e. le_output_offset e < at) (lm_entries m)\<rparr> \<and>
    wf_line_map (truncate_at m at)"
proof -
  have eq: "truncate_at m at = m\<lparr>lm_entries := filter (\<lambda>e. le_output_offset e < at) (lm_entries m)\<rparr>"
    using partition_point_split(1) [OF partitioned_offsets(1) [OF wf_line_mapD(6) [OF assms], of at]]
    by (simp add: truncate_at_def Let_def)
  have "wf_line_map (truncate_at m at)"
    using assms unfolding eq
    by (auto simp: wf_line_map_def macros_ok_def list_all_iff sorted_map sorted_wrt_filter)
  with eq show ?thesis by blast
qed

theorem truncate_at_correct_witness:
  "wf_line_map (truncate_at other_map 2) \<and> length (lm_entries (truncate_at other_map 2)) = 1"
proof -
  have "length (filter (\<lambda>e. le_output_offset e < 2) (lm_entries other_map)) = 1" by code_simp
  moreover note T = truncate_at_correct [OF sample_maps_wf(2), of 2]
  ultimately have "length (lm_entries (truncate_at other_map 2)) = 1" by (simp only: conjunct1 [OF T]) simp
  with T show ?thesis by blast
qed

text \<open>The declaration signature of a well-formed map is defined and depends only on what the
  entries mean: two maps with the same origins have the same signature, whatever their intern
  numbering and unused files, and whatever the hash functions.\<close>

theorem declaration_signature_origins:
  assumes "wf_line_map a" "wf_line_map b" "origins a = origins b"
  shows "declaration_signature hp hn digest a text std = declaration_signature hp hn digest b text std \<and>
    declaration_signature hp hn digest a text std \<noteq> None"
proof -
  let ?item = "\<lambda>o'. (or_offset o', hp (or_path o'), or_line o', or_col o', map_option hp (or_expansion_path o'),
    or_expansion_line o', or_expansion_col o', or_expansion_id o', map_option hn (or_expansion_macro o'))"
  have "declaration_signature hp hn digest m text std = Some (digest (std, text) (map ?item (origins m)))"
    if "wf_line_map m" for m
  proof -
    have "signature_item (map hp (lm_files m)) (map hn (lm_macros m)) e = Some (?item (origin m e))"
      if "e \<in> set (lm_entries m)" for e
      using wf_line_mapD(5) [OF \<open>wf_line_map m\<close> that]
      by (auto simp: signature_item_def origin_def entry_ok_def vec_simps)
    then have "mapM (signature_item (map hp (lm_files m)) (map hn (lm_macros m))) (lm_entries m) =
        Some (map (\<lambda>e. ?item (origin m e)) (lm_entries m))" by (rule mapM_total)
    then show ?thesis by (simp add: declaration_signature_def origins_def o_def)
  qed
  with assms show ?thesis by simp
qed

text \<open>The same locations under another numbering.\<close>

definition renumbered_map :: LineMap where
  "renumbered_map = from_raw_parts [[''x''], [''a.c'']] [''K'', ''M''] [sample_entry 0 1 u32_max u32_max, sample_entry 4 1 1 1]"

theorem declaration_signature_origins_witness:
  "declaration_signature length length (\<lambda>_. length) sample_map ''int f();'' 17 =
   declaration_signature length length (\<lambda>_. length) renumbered_map ''int f();'' 17"
proof -
  have "wf_line_map renumbered_map" unfolding renumbered_map_def by (rule from_raw_parts_wf; code_simp)
  moreover have "origins sample_map = origins renumbered_map" by code_simp
  ultimately show ?thesis using declaration_signature_origins [OF sample_maps_wf(1)] by blast
qed

end
