(* ===== verification/Seq_Search.thy ===== *)
theory Seq_Search
  imports Cfg
begin

text \<open>
  Graph search of the call-sequence query (\<^verbatim>\<open>trace-db/src/inspect/sequence.rs\<close>): the adjacency
  vectors of a loaded graph, the marking search, and the depth-first postorder. Stacks are
  lists with their top first. The searches terminate because a node is pushed only when it is
  marked; the theorems say what is marked at the end.
\<close>

section \<open>Adjacency\<close>

definition push_row :: "nat list list \<Rightarrow> nat \<Rightarrow> nat \<Rightarrow> nat list list option" where
  "push_row rows i v = do { row \<leftarrow> vget rows i; vset rows i (row @ [v]) }"

definition add_edge :: "nat list list \<times> nat list list \<Rightarrow> CfgEdge \<Rightarrow> (nat list list \<times> nat list list) option" where
  "add_edge sp edge = (case sp of (succ, pred) \<Rightarrow> do {
     succ' \<leftarrow> push_row succ (e_from edge) (e_to edge);
     pred' \<leftarrow> push_row pred (e_to edge) (e_from edge);
     Some (succ', pred') })"

definition adjacency :: "FunctionCfg \<Rightarrow> (nat list list \<times> nat list list) option" where
  "adjacency g = (let n = length (cfg_blocks g)
     in foldM add_edge (replicate n [], replicate n []) (cfg_edges g))"

definition next_events :: "FunctionCfg \<Rightarrow> nat list list option" where
  "next_events g = foldM (\<lambda>rows (a, b). push_row rows a b) (replicate (length (cfg_events g)) []) (cfg_order g)"

section \<open>Marking search\<close>

text \<open>The inner loop over the neighbours of one node; the flag is the early return.\<close>

fun expand :: "(nat \<Rightarrow> bool) \<Rightarrow> nat list \<Rightarrow> nat list \<Rightarrow> bool list \<Rightarrow> (bool \<times> nat list \<times> bool list) option" where
  "expand stop [] stack seen = Some (False, stack, seen)"
| "expand stop (y # ys) stack seen =
     (if stop y then Some (True, stack, seen)
      else (case vget seen y of
          None \<Rightarrow> None
        | Some s \<Rightarrow> if \<not> s then expand stop ys (y # stack) (seen[y := True]) else expand stop ys stack seen))"

definition unseen :: "bool list \<Rightarrow> nat" where
  "unseen seen = length (filter (\<lambda>s. \<not> s) seen)"

lemma unseen_mark: "y < length seen \<Longrightarrow> \<not> seen ! y \<Longrightarrow> Suc (unseen (seen[y := True])) = unseen seen"
proof -
  assume y: "y < length seen" "\<not> seen ! y"
  then have "seen = take y seen @ False # drop (Suc y) seen" using id_take_nth_drop [OF y(1)] by simp
  then have "unseen seen = unseen (take y seen) + Suc (unseen (drop (Suc y) seen))"
    unfolding unseen_def by (metis (full_types) filter.simps(2) filter_append length_Cons length_append)
  moreover have "seen[y := True] = take y seen @ True # drop (Suc y) seen" using y(1) by (rule upd_conv_take_nth_drop)
  then have "unseen (seen[y := True]) = unseen (take y seen) + unseen (drop (Suc y) seen)" by (simp add: unseen_def)
  ultimately show ?thesis by simp
qed

lemma expand_measure:
  "expand stop ys stack seen = Some (r, stack', seen') \<Longrightarrow> length stack' + unseen seen' = length stack + unseen seen"
proof (induction ys arbitrary: stack seen)
  case (Cons y ys)
  show ?case
  proof (cases "stop y")
    case False
    with Cons.prems obtain s where s: "vget seen y = Some s" by (auto split: option.splits)
    with Cons.prems False Cons.IH [of stack seen] Cons.IH [of "y # stack" "seen[y := True]"] unseen_mark [of y seen]
    show ?thesis by (auto simp: vget_Some split: if_splits)
  qed (use Cons.prems in simp)
qed simp

function search_loop ::
  "(nat \<Rightarrow> nat list option) \<Rightarrow> (nat \<Rightarrow> bool) \<Rightarrow> nat list \<Rightarrow> bool list \<Rightarrow> (bool \<times> bool list) option" where
  "search_loop nxt stop [] seen = Some (False, seen)"
| "search_loop nxt stop (x # stack) seen =
     (case nxt x of
        None \<Rightarrow> None
      | Some ys \<Rightarrow> (case expand stop ys stack seen of
          None \<Rightarrow> None
        | Some (stopped, stack', seen') \<Rightarrow>
            if stopped then Some (True, seen') else search_loop nxt stop stack' seen'))"
  by pat_completeness auto
termination
  by (relation "measure (\<lambda>(nxt, stop, stack, seen). length stack + unseen seen)")
     (auto dest!: expand_measure)

definition search :: "nat \<Rightarrow> bool list \<Rightarrow> (nat \<Rightarrow> nat list option) \<Rightarrow> (nat \<Rightarrow> bool) \<Rightarrow> (bool \<times> bool list) option" where
  "search from seen nxt stop = search_loop nxt stop [from] seen"

definition reach :: "nat list list \<Rightarrow> nat \<Rightarrow> bool list option" where
  "reach adjacent from = map_option snd (search from (replicate (length adjacent) False) (vget adjacent) (\<lambda>_. False))"

section \<open>What is marked\<close>

definition rows_ok :: "nat list list \<Rightarrow> bool" where
  "rows_ok rows \<longleftrightarrow> list_all (list_all (\<lambda>y. y < length rows)) rows"

definition row_rel :: "nat list list \<Rightarrow> (nat \<times> nat) set" where
  "row_rel rows = {(x, y). x < length rows \<and> y \<in> set (rows ! x)}"

lemma rows_okD: "rows_ok rows \<Longrightarrow> x < length rows \<Longrightarrow> y \<in> set (rows ! x) \<Longrightarrow> y < length rows"
  by (auto simp: rows_ok_def list_all_iff)

definition marked :: "bool list \<Rightarrow> nat set" where
  "marked seen = {x. x < length seen \<and> seen ! x}"

lemma marked_update: "y < length seen \<Longrightarrow> marked (seen[y := True]) = insert y (marked seen)"
  by (auto simp: marked_def nth_list_update)

lemma expand_result:
  assumes "\<And>y. y \<in> set ys \<Longrightarrow> y < length seen"
  shows "\<exists>r stack' seen'. expand stop ys stack seen = Some (r, stack', seen') \<and> length seen' = length seen \<and>
    marked seen \<subseteq> marked seen' \<and> marked seen' \<subseteq> marked seen \<union> set ys \<and>
    set stack' = set stack \<union> (marked seen' - marked seen) \<and>
    (if r then \<exists>y \<in> set ys. stop y else set ys \<subseteq> marked seen' \<and> (\<forall>y \<in> set ys. \<not> stop y))"
  using assms
proof (induction ys arbitrary: stack seen)
  case (Cons y ys)
  have y: "y < length seen" using Cons.prems by simp
  show ?case
  proof (cases "stop y")
    case False
    show ?thesis
    proof (cases "seen ! y")
      case True
      then have m: "y \<in> marked seen" using y by (simp add: marked_def)
      from Cons.IH [of seen stack] Cons.prems obtain r stack' seen' where
        "expand stop ys stack seen = Some (r, stack', seen')" "length seen' = length seen"
        "marked seen \<subseteq> marked seen'" "marked seen' \<subseteq> marked seen \<union> set ys"
        "set stack' = set stack \<union> (marked seen' - marked seen)"
        "if r then \<exists>y \<in> set ys. stop y else set ys \<subseteq> marked seen' \<and> (\<forall>y \<in> set ys. \<not> stop y)" by auto
      with False True y m show ?thesis by (auto simp: vec_simps split: if_splits)
    next
      case unmarked: False
      note mk = marked_update [OF y]
      have notin: "y \<notin> marked seen" using unmarked by (simp add: marked_def)
      from Cons.IH [of "seen[y := True]" "y # stack"] Cons.prems obtain r stack' seen' where
        "expand stop ys (y # stack) (seen[y := True]) = Some (r, stack', seen')" "length seen' = length seen"
        "insert y (marked seen) \<subseteq> marked seen'" "marked seen' \<subseteq> insert y (marked seen) \<union> set ys"
        "set stack' = insert y (set stack) \<union> (marked seen' - insert y (marked seen))"
        "if r then \<exists>y \<in> set ys. stop y else set ys \<subseteq> marked seen' \<and> (\<forall>y \<in> set ys. \<not> stop y)"
        unfolding mk by auto
      with False unmarked y notin show ?thesis by (auto simp: vec_simps split: if_splits)
    qed
  qed auto
qed auto

text \<open>
  The state of a search from one node over the marks it started with: what it marked is reachable,
  and every marked node off the stack has been expanded.
\<close>

definition searching :: "(nat \<times> nat) set \<Rightarrow> (nat \<Rightarrow> bool) \<Rightarrow> nat \<Rightarrow> nat set \<Rightarrow> nat list \<Rightarrow> nat set \<Rightarrow> bool" where
  "searching r stop from before stack now \<longleftrightarrow>
     before \<subseteq> now \<and> now \<subseteq> before \<union> r\<^sup>+ `` {from} \<and> set stack \<subseteq> insert from (now - before) \<and>
     (\<forall>x y. x \<in> insert from (now - before) \<longrightarrow> x \<notin> set stack \<longrightarrow> (x, y) \<in> r \<longrightarrow> y \<in> now \<and> \<not> stop y)"

definition searched :: "(nat \<times> nat) set \<Rightarrow> (nat \<Rightarrow> bool) \<Rightarrow> nat \<Rightarrow> nat set \<Rightarrow> bool \<Rightarrow> nat set \<Rightarrow> bool" where
  "searched r stop from before stopped now \<longleftrightarrow>
     before \<subseteq> now \<and> now \<subseteq> before \<union> r\<^sup>+ `` {from} \<and>
     (if stopped then \<exists>y. (from, y) \<in> r\<^sup>+ \<and> stop y
      else \<forall>x y. x \<in> insert from (now - before) \<longrightarrow> (x, y) \<in> r \<longrightarrow> y \<in> now \<and> \<not> stop y)"

lemma search_loop_result:
  assumes "rows_ok rows" "length seen = length rows" "set stack \<subseteq> {..<length rows}"
    and "searching (row_rel rows) stop from before stack (marked seen)"
  shows "\<exists>b seen'. search_loop (vget rows) stop stack seen = Some (b, seen') \<and> length seen' = length rows \<and>
    searched (row_rel rows) stop from before b (marked seen')"
  using assms(2-)
proof (induction "vget rows" stop stack seen rule: search_loop.induct)
  case (1 stop seen)
  then show ?case by (auto simp: searching_def searched_def)
next
  case (2 stop x stack seen)
  let ?r = "row_rel rows"
  have x: "x < length rows" using 2(3) by simp
  then have nx: "vget rows x = Some (rows ! x)" by (simp add: vec_simps)
  have lt: "y < length seen" if "y \<in> set (rows ! x)" for y using rows_okD [OF assms(1) x that] 2(2) by simp
  have step: "(x, y) \<in> ?r \<longleftrightarrow> y \<in> set (rows ! x)" for y using x by (simp add: row_rel_def)
  have inv: "before \<subseteq> marked seen" "marked seen \<subseteq> before \<union> ?r\<^sup>+ `` {from}" "x = from \<or> (from, x) \<in> ?r\<^sup>+"
    using 2(4) by (auto simp: searching_def)
  then have succ: "(from, y) \<in> ?r\<^sup>+" if "y \<in> set (rows ! x)" for y
    using that step by (auto intro: trancl_into_trancl)
  from expand_result [OF lt, where stop = stop and stack = stack] obtain b stack' seen' where
    e: "expand stop (rows ! x) stack seen = Some (b, stack', seen')" "length seen' = length seen"
      "marked seen \<subseteq> marked seen'" "marked seen' \<subseteq> marked seen \<union> set (rows ! x)"
      "set stack' = set stack \<union> (marked seen' - marked seen)"
      "if b then \<exists>y \<in> set (rows ! x). stop y else set (rows ! x) \<subseteq> marked seen' \<and> (\<forall>y \<in> set (rows ! x). \<not> stop y)"
    by blast
  have range: "before \<subseteq> marked seen'" "marked seen' \<subseteq> before \<union> ?r\<^sup>+ `` {from}"
    using inv e(3,4) succ by auto
  show ?case
  proof (cases b)
    case True
    then obtain y where "(from, y) \<in> ?r\<^sup>+" "stop y" using e(6) succ by auto
    with True range have "searched ?r stop from before True (marked seen')" unfolding searched_def by auto
    moreover have "search_loop (vget rows) stop (x # stack) seen = Some (True, seen')" using True nx e(1) by simp
    ultimately show ?thesis using e(2) 2(2) by auto
  next
    case False
    have old: "set (x # stack) \<subseteq> insert from (marked seen - before)"
      "\<And>z y. z \<in> insert from (marked seen - before) \<Longrightarrow> z \<notin> set (x # stack) \<Longrightarrow> (z, y) \<in> ?r \<Longrightarrow> y \<in> marked seen \<and> \<not> stop y"
      using 2(4) unfolding searching_def by blast+
    have "y \<in> marked seen' \<and> \<not> stop y"
      if z: "z \<in> insert from (marked seen' - before)" "z \<notin> set stack'" "(z, y) \<in> ?r" for z y
    proof (cases "z = x")
      case True
      with z(3) step have "y \<in> set (rows ! x)" by simp
      with e(6) False show ?thesis by auto
    next
      case ne: False
      have "z \<in> insert from (marked seen - before)" "z \<notin> set (x # stack)" using z(1,2) e(5) ne by auto
      with old(2) z(3) e(3) show ?thesis by blast
    qed
    moreover have "set stack' \<subseteq> insert from (marked seen' - before)" using old(1) e(3,5) inv(1) by auto
    ultimately have "searching ?r stop from before stack' (marked seen')"
      using range unfolding searching_def by blast
    moreover have "set stack' \<subseteq> {..<length rows}" using e(2,5) 2(2,3) by (auto simp: marked_def)
    ultimately show ?thesis
      using 2(1) [OF nx e(1)] e(1,2) False 2(2) nx by simp
  qed
qed

lemma search_result:
  assumes "rows_ok rows" "length seen = length rows" "from < length rows"
  shows "\<exists>b seen'. search from seen (vget rows) stop = Some (b, seen') \<and> length seen' = length rows \<and>
    searched (row_rel rows) stop from (marked seen) b (marked seen')"
  unfolding search_def using assms by (intro search_loop_result) (auto simp: searching_def)

text \<open>A search that starts from no mark marks exactly what is reachable in one or more steps.\<close>

lemma searched_fresh:
  assumes "searched r stop from {} b now"
  shows "b \<longleftrightarrow> (\<exists>y. (from, y) \<in> r\<^sup>+ \<and> stop y)" "\<not> b \<Longrightarrow> now = r\<^sup>+ `` {from}"
proof -
  have all: "y \<in> now \<and> \<not> stop y" if "\<not> b" "(from, y) \<in> r\<^sup>+" for y
    using that(2)
  proof (induction rule: trancl_induct)
    case (base y)
    with assms that(1) show ?case by (auto simp: searched_def)
  next
    case (step y z)
    with assms that(1) show ?case by (auto simp: searched_def)
  qed
  show "b \<longleftrightarrow> (\<exists>y. (from, y) \<in> r\<^sup>+ \<and> stop y)" using all assms by (auto simp: searched_def)
  show "now = r\<^sup>+ `` {from}" if "\<not> b" using all [OF that] assms by (auto simp: searched_def)
qed

lemma marked_replicate [simp]: "marked (replicate n False) = {}"
  by (auto simp: marked_def)

lemma reach_result:
  assumes "rows_ok rows" "from < length rows"
  shows "\<exists>seen. reach rows from = Some seen \<and> length seen = length rows \<and> marked seen = (row_rel rows)\<^sup>+ `` {from}"
proof -
  from search_result [OF assms(1) _ assms(2), of "replicate (length rows) False" "\<lambda>_. False"] obtain b seen where
    s: "search from (replicate (length rows) False) (vget rows) (\<lambda>_. False) = Some (b, seen)" "length seen = length rows"
      "searched (row_rel rows) (\<lambda>_. False) from {} b (marked seen)" by auto
  with searched_fresh [OF s(3)] show ?thesis by (auto simp: reach_def)
qed

section \<open>Adjacency of a well-formed graph\<close>

definition rows_by :: "nat \<Rightarrow> ('e \<Rightarrow> nat) \<Rightarrow> ('e \<Rightarrow> nat) \<Rightarrow> 'e list \<Rightarrow> nat list list" where
  "rows_by n f g es = map (\<lambda>x. map g (filter (\<lambda>e. f e = x) es)) [0..<n]"

lemma rows_by_simps [simp]: "length (rows_by n f g es) = n"
  "x < n \<Longrightarrow> rows_by n f g es ! x = map g (filter (\<lambda>e. f e = x) es)" "rows_by n f g [] = replicate n []"
  by (auto simp: rows_by_def intro: nth_equalityI)

lemma push_rows_by:
  assumes "f e < n"
  shows "push_row (rows_by n f g es) (f e) (g e) = Some (rows_by n f g (es @ [e]))"
proof -
  have "(rows_by n f g es)[f e := map g (filter (\<lambda>x. f x = f e) es) @ [g e]] = rows_by n f g (es @ [e])"
    using assms by (intro nth_equalityI) (auto simp: nth_list_update)
  then show ?thesis using assms by (simp add: push_row_def vec_simps)
qed

lemma rel_rows_by: "(\<And>e. e \<in> set es \<Longrightarrow> f e < n) \<Longrightarrow> row_rel (rows_by n f g es) = (\<lambda>e. (f e, g e)) ` set es"
  by (auto simp: row_rel_def)

lemma rows_by_ok: "(\<And>e. e \<in> set es \<Longrightarrow> g e < n) \<Longrightarrow> rows_ok (rows_by n f g es)"
  by (auto simp: rows_ok_def list_all_iff rows_by_def)

definition block_rel :: "FunctionCfg \<Rightarrow> (nat \<times> nat) set" where
  "block_rel g = (\<lambda>e. (e_from e, e_to e)) ` set (cfg_edges g)"

definition succ_rows :: "FunctionCfg \<Rightarrow> nat list list" where
  "succ_rows g = rows_by (length (cfg_blocks g)) e_from e_to (cfg_edges g)"

definition pred_rows :: "FunctionCfg \<Rightarrow> nat list list" where
  "pred_rows g = rows_by (length (cfg_blocks g)) e_to e_from (cfg_edges g)"

definition order_rows :: "FunctionCfg \<Rightarrow> nat list list" where
  "order_rows g = rows_by (length (cfg_events g)) fst snd (cfg_order g)"

lemma adjacency_rows:
  assumes "wf_cfg g"
  shows "adjacency g = Some (succ_rows g, pred_rows g)"
proof -
  let ?n = "length (cfg_blocks g)"
  have "\<exists>sp. foldM add_edge (replicate ?n [], replicate ?n []) (cfg_edges g) = Some sp \<and>
      sp = (rows_by ?n e_from e_to (cfg_edges g), rows_by ?n e_to e_from (cfg_edges g))"
  proof (rule foldM_prefix_rule)
    show "\<exists>t. add_edge sp e = Some t \<and> t = (rows_by ?n e_from e_to (es @ [e]), rows_by ?n e_to e_from (es @ [e]))"
      if "sp = (rows_by ?n e_from e_to es, rows_by ?n e_to e_from es)" "e \<in> set (cfg_edges g)" for es e sp
      using that wf_cfgD(3,4) [OF assms that(2)] push_rows_by [of e_from e ?n e_to es] push_rows_by [of e_to e ?n e_from es]
      by (simp add: add_edge_def)
  qed simp
  then show ?thesis by (simp add: adjacency_def Let_def succ_rows_def pred_rows_def)
qed

lemma next_events_rows:
  assumes "wf_cfg g"
  shows "next_events g = Some (order_rows g)"
proof -
  let ?n = "length (cfg_events g)"
  have "\<exists>rows. foldM (\<lambda>rows (a, b). push_row rows a b) (replicate ?n []) (cfg_order g) = Some rows \<and>
      rows = rows_by ?n fst snd (cfg_order g)"
  proof (rule foldM_prefix_rule)
    show "\<exists>t. (case p of (a, b) \<Rightarrow> push_row rows a b) = Some t \<and> t = rows_by ?n fst snd (ps @ [p])"
      if "rows = rows_by ?n fst snd ps" "p \<in> set (cfg_order g)" for ps p rows
      using that wf_cfgD(6) [OF assms, of "fst p" "snd p"] push_rows_by [of fst p ?n snd ps] by (cases p) simp
  qed simp
  then show ?thesis by (simp add: next_events_def order_rows_def)
qed

lemma rows_facts:
  assumes "wf_cfg g"
  shows "rows_ok (succ_rows g)" "rows_ok (pred_rows g)" "rows_ok (order_rows g)"
    "length (succ_rows g) = length (cfg_blocks g)" "length (pred_rows g) = length (cfg_blocks g)"
    "length (order_rows g) = length (cfg_events g)"
    "row_rel (succ_rows g) = block_rel g" "row_rel (pred_rows g) = (block_rel g)\<inverse>"
    "row_rel (order_rows g) = set (cfg_order g)"
proof -
  note D = wf_cfgD(3,4,6) [OF assms]
  have ord: "fst p < length (cfg_events g) \<and> snd p < length (cfg_events g)" if "p \<in> set (cfg_order g)" for p
    using D(3) [of "fst p" "snd p"] that by simp
  show "row_rel (order_rows g) = set (cfg_order g)"
    using rel_rows_by [of "cfg_order g" fst "length (cfg_events g)" snd] ord by (simp add: order_rows_def)
  show "row_rel (pred_rows g) = (block_rel g)\<inverse>"
    using rel_rows_by [of "cfg_edges g" e_to "length (cfg_blocks g)" e_from] D(2) by (auto simp: pred_rows_def block_rel_def)
  show "row_rel (succ_rows g) = block_rel g"
    using rel_rows_by [of "cfg_edges g" e_from "length (cfg_blocks g)" e_to] D(1) by (simp add: succ_rows_def block_rel_def)
qed (use wf_cfgD(3,4,6) [OF assms] in \<open>auto simp: succ_rows_def pred_rows_def order_rows_def intro!: rows_by_ok\<close>)

section \<open>Postorder\<close>

function postorder_loop ::
  "nat list list \<Rightarrow> (nat \<times> nat) list \<Rightarrow> bool list \<Rightarrow> nat list \<Rightarrow> (nat list \<times> bool list) option" where
  "postorder_loop succ [] visited post = Some (post, visited)"
| "postorder_loop succ ((b, i) # stack) visited post =
     (case vget succ b of
        None \<Rightarrow> None
      | Some row \<Rightarrow>
          if i < length row then
            (case vget visited (row ! i) of
               None \<Rightarrow> None
             | Some v \<Rightarrow>
                 if v then postorder_loop succ ((b, i + 1) # stack) visited post
                 else postorder_loop succ ((row ! i, 0) # (b, i + 1) # stack) (visited[row ! i := True]) post)
          else postorder_loop succ stack visited (post @ [b]))"
  by pat_completeness auto
termination
proof (relation "measures [\<lambda>(succ, stack, visited, post). unseen visited,
    \<lambda>(succ, stack, visited, post). sum_list (map (\<lambda>(b, i). Suc (length (succ ! b) - i)) stack)]", simp)
qed (auto simp: vget_Some dest!: unseen_mark)

definition postorder :: "nat \<Rightarrow> nat list list \<Rightarrow> (nat list \<times> bool list) option" where
  "postorder entry succ = do {
     visited \<leftarrow> vset (replicate (length succ) False) entry True;
     postorder_loop succ [(entry, 0)] visited [] }"

text \<open>
  The state of the walk: the stack is a path from the entry, a block is on it or in the postorder
  exactly when visited, and the parent of a finished block is still on the stack or finishes
  later.
\<close>

definition walking :: "nat list list \<Rightarrow> nat \<Rightarrow> (nat \<times> nat) list \<Rightarrow> bool list \<Rightarrow> nat list \<Rightarrow> bool" where
  "walking succ entry stack visited post \<longleftrightarrow>
     length visited = length succ \<and> marked visited = fst ` set stack \<union> set post \<and>
     distinct (map fst stack @ post) \<and> marked visited \<subseteq> (row_rel succ)\<^sup>* `` {entry} \<and>
     (stack = [] \<longrightarrow> post \<noteq> [] \<and> last post = entry) \<and> (stack \<noteq> [] \<longrightarrow> fst (last stack) = entry) \<and>
     successively (\<lambda>x y. (fst y, fst x) \<in> row_rel succ) stack \<and>
     (\<forall>b \<in> set post. \<forall>y. (b, y) \<in> row_rel succ \<longrightarrow> y \<in> marked visited) \<and>
     (\<forall>x \<in> set stack. \<forall>j < snd x. j < length (succ ! fst x) \<longrightarrow> succ ! fst x ! j \<in> marked visited) \<and>
     (\<forall>k < length post. post ! k \<noteq> entry \<longrightarrow>
        (\<exists>u. (u, post ! k) \<in> row_rel succ \<and> (u \<in> set (drop (Suc k) post) \<or> u \<in> fst ` set stack))) \<and>
     (\<forall>k < length post. \<forall>y. (post ! k, y) \<in> row_rel succ \<longrightarrow>
        y \<in> set (take k post) \<or> (y, post ! k) \<in> (row_rel succ)\<^sup>*)"

lemma walkingD:
  assumes "walking succ entry stack visited post"
  shows "length visited = length succ" "marked visited = fst ` set stack \<union> set post" "distinct (map fst stack @ post)"
    "marked visited \<subseteq> (row_rel succ)\<^sup>* `` {entry}" "stack = [] \<Longrightarrow> post \<noteq> [] \<and> last post = entry"
    "stack \<noteq> [] \<Longrightarrow> fst (last stack) = entry" "successively (\<lambda>x y. (fst y, fst x) \<in> row_rel succ) stack"
    "b \<in> set post \<Longrightarrow> (b, y) \<in> row_rel succ \<Longrightarrow> y \<in> marked visited"
    "x \<in> set stack \<Longrightarrow> j < snd x \<Longrightarrow> j < length (succ ! fst x) \<Longrightarrow> succ ! fst x ! j \<in> marked visited"
    "k < length post \<Longrightarrow> post ! k \<noteq> entry \<Longrightarrow>
      \<exists>u. (u, post ! k) \<in> row_rel succ \<and> (u \<in> set (drop (Suc k) post) \<or> u \<in> fst ` set stack)"
    "k < length post \<Longrightarrow> (post ! k, y) \<in> row_rel succ \<Longrightarrow> y \<in> set (take k post) \<or> (y, post ! k) \<in> (row_rel succ)\<^sup>*"
  using assms unfolding walking_def by blast+

lemma stack_reaches_top:
  assumes "successively (\<lambda>x y. (fst y, fst x) \<in> r) (x # stack)" "y \<in> set (x # stack)"
  shows "(fst y, fst x) \<in> r\<^sup>*"
  using assms
proof (induction stack arbitrary: x)
  case (Cons z stack)
  have "(fst z, fst x) \<in> r" "successively (\<lambda>x y. (fst y, fst x) \<in> r) (z # stack)" using Cons.prems(1) by simp_all
  with Cons.IH [of z] Cons.prems(2) show ?case by (cases "y = x") (auto intro: rtrancl_into_rtrancl)
qed simp

lemma walking_advance:
  assumes w: "walking succ entry ((b, i) # stack) visited post" and v: "succ ! b ! i \<in> marked visited"
  shows "walking succ entry ((b, i + 1) # stack) visited post"
proof -
  note D = walkingD [OF w]
  have "succ ! fst x ! j \<in> marked visited"
    if "x \<in> set ((b, i + 1) # stack)" "j < snd x" "j < length (succ ! fst x)" for x j
    using that D(9) [of "(b, i)" j] D(9) [of x j] v by (auto simp: less_Suc_eq)
  moreover have "stack = [] \<Longrightarrow> b = entry" "stack \<noteq> [] \<Longrightarrow> fst (last stack) = entry" using D(6) by auto
  moreover have "successively (\<lambda>x y. (fst y, fst x) \<in> row_rel succ) ((b, i + 1) # stack)"
    using D(7) by (cases stack) auto
  ultimately show ?thesis using w unfolding walking_def by auto
qed

lemma walking_descend:
  assumes w: "walking succ entry ((b, i) # stack) visited post" and b: "b < length succ" "i < length (succ ! b)"
    and y: "succ ! b ! i < length succ" "succ ! b ! i \<notin> marked visited"
  shows "walking succ entry ((succ ! b ! i, 0) # (b, i + 1) # stack) (visited[succ ! b ! i := True]) post"
proof -
  note D = walkingD [OF w]
  let ?y = "succ ! b ! i"
  have e: "(b, ?y) \<in> row_rel succ" using b by (simp add: row_rel_def)
  have mk: "marked (visited[?y := True]) = insert ?y (marked visited)" using y(1) D(1) by (simp add: marked_update)
  have "succ ! fst x ! j \<in> marked (visited[?y := True])"
    if "x \<in> set ((?y, 0) # (b, i + 1) # stack)" "j < snd x" "j < length (succ ! fst x)" for x j
    using that D(9) [of "(b, i)" j] D(9) [of x j] unfolding mk by (auto simp: less_Suc_eq)
  moreover have "(entry, ?y) \<in> (row_rel succ)\<^sup>*" using D(2,4) e by (auto intro: rtrancl_into_rtrancl)
  moreover have "successively (\<lambda>x y. (fst y, fst x) \<in> row_rel succ) ((?y, 0) # (b, i + 1) # stack)"
    using D(7) e by (cases stack) auto
  moreover have "distinct (map fst ((?y, 0) # (b, i + 1) # stack) @ post)" using D(2,3) y(2) by auto
  moreover have "\<exists>u. (u, post ! k) \<in> row_rel succ \<and>
      (u \<in> set (drop (Suc k) post) \<or> u \<in> fst ` set ((?y, 0) # (b, i + 1) # stack))"
    if "k < length post" "post ! k \<noteq> entry" for k using D(10) [OF that] by auto
  ultimately show ?thesis using D(1,2,4,6,8,11) unfolding walking_def mk by auto
qed

lemma walking_finish:
  assumes w: "walking succ entry ((b, i) # stack) visited post" and b: "b < length succ" "length (succ ! b) \<le> i"
  shows "walking succ entry stack visited (post @ [b])"
proof -
  note D = walkingD [OF w]
  have "y \<in> marked visited" if "c \<in> set (post @ [b])" "(c, y) \<in> row_rel succ" for c y
  proof (cases "c \<in> set post")
    case False
    with that obtain j where "j < length (succ ! b)" "y = succ ! b ! j" by (auto simp: row_rel_def in_set_conv_nth)
    with D(9) [of "(b, i)" j] b(2) show ?thesis by simp
  qed (use that D(8) in blast)
  moreover have "\<exists>u. (u, (post @ [b]) ! k) \<in> row_rel succ \<and>
      (u \<in> set (drop (Suc k) (post @ [b])) \<or> u \<in> fst ` set stack)"
    if "k < length (post @ [b])" "(post @ [b]) ! k \<noteq> entry" for k
  proof (cases "k < length post")
    case True
    with D(10) [of k] that show ?thesis by (auto simp: nth_append)
  next
    case False
    with that D(6,7) show ?thesis by (cases stack) (auto simp: nth_append)
  qed
  moreover have "y \<in> set (take k (post @ [b])) \<or> (y, (post @ [b]) ! k) \<in> (row_rel succ)\<^sup>*"
    if e: "k < length (post @ [b])" "((post @ [b]) ! k, y) \<in> row_rel succ" for k y
  proof (cases "k < length post")
    case True
    with D(11) [of k y] that show ?thesis by (auto simp: nth_append)
  next
    case False
    then have k: "k = length post" using that by simp
    then obtain j where j: "j < length (succ ! b)" "y = succ ! b ! j"
      using e(2) by (auto simp: row_rel_def in_set_conv_nth)
    with D(9) [of "(b, i)" j] b(2) D(2) have "y \<in> fst ` set ((b, i) # stack) \<or> y \<in> set post" by auto
    then show ?thesis using stack_reaches_top [OF D(7)] k by (auto simp: nth_append)
  qed
  moreover have "successively (\<lambda>x y. (fst y, fst x) \<in> row_rel succ) stack" using D(7) by (cases stack) auto
  moreover have "stack = [] \<Longrightarrow> b = entry" "stack \<noteq> [] \<Longrightarrow> fst (last stack) = entry" using D(6) by auto
  moreover have "x \<in> set stack \<Longrightarrow> j < snd x \<Longrightarrow> j < length (succ ! fst x) \<Longrightarrow> succ ! fst x ! j \<in> marked visited" for x j
    using D(9) by simp
  ultimately show ?thesis using D(1-4) unfolding walking_def by auto
qed

lemma postorder_loop_result:
  assumes "rows_ok succ" "walking succ entry stack visited post"
  shows "\<exists>post' visited'. postorder_loop succ stack visited post = Some (post', visited') \<and> walking succ entry [] visited' post'"
  using assms
proof (induction succ stack visited post rule: postorder_loop.induct)
  case (2 succ b i stack visited post)
  note D = walkingD [OF 2(5)]
  have b: "b < length succ" using D(1,2) by (auto simp: marked_def)
  then have row: "vget succ b = Some (succ ! b)" by (simp add: vec_simps)
  show ?case
  proof (cases "i < length (succ ! b)")
    case True
    let ?y = "succ ! b ! i"
    have y: "?y < length succ" using rows_okD [OF 2(4) b] True by simp
    then have vy: "vget visited ?y = Some (visited ! ?y)" using D(1) by (simp add: vec_simps)
    show ?thesis
    proof (cases "visited ! ?y")
      case v: True
      then have "?y \<in> marked visited" using y D(1) by (simp add: marked_def)
      from 2(1) [OF row True vy v 2(4) walking_advance [OF 2(5) this]] row vy v True show ?thesis by simp
    next
      case v: False
      then have "?y \<notin> marked visited" by (simp add: marked_def)
      from 2(2) [OF row True vy v 2(4) walking_descend [OF 2(5) b True y this]] row vy v True show ?thesis by simp
    qed
  next
    case False
    then have "length (succ ! b) \<le> i" by simp
    from 2(3) [OF row False 2(4) walking_finish [OF 2(5) b this]] row False show ?thesis by simp
  qed
qed simp

lemma postorder_result:
  assumes "rows_ok succ" "entry < length succ"
  shows "\<exists>post visited. postorder entry succ = Some (post, visited) \<and> length visited = length succ \<and>
    marked visited = (row_rel succ)\<^sup>* `` {entry} \<and> set post = marked visited \<and> distinct post \<and>
    post \<noteq> [] \<and> last post = entry \<and>
    (\<forall>k < length post. post ! k \<noteq> entry \<longrightarrow> (\<exists>u. (u, post ! k) \<in> row_rel succ \<and> u \<in> set (drop (Suc k) post))) \<and>
    (\<forall>k < length post. \<forall>y. (post ! k, y) \<in> row_rel succ \<longrightarrow>
       y \<in> set (take k post) \<or> (y, post ! k) \<in> (row_rel succ)\<^sup>*)"
proof -
  let ?v = "(replicate (length succ) False)[entry := True]"
  have "walking succ entry [(entry, 0)] ?v []" using assms(2) by (auto simp: walking_def marked_update)
  from postorder_loop_result [OF assms(1) this] obtain post visited where
    p: "postorder_loop succ [(entry, 0)] ?v [] = Some (post, visited)" "walking succ entry [] visited post" by blast
  note D = walkingD [OF p(2)]
  have last: "post \<noteq> []" "last post = entry" using D(5) by auto
  have "y \<in> set post" if "(entry, y) \<in> (row_rel succ)\<^sup>*" for y
    using that
  proof (induction rule: rtrancl_induct)
    case base
    show ?case using last last_in_set by metis
  next
    case (step y z)
    with D(2,8) show ?case by auto
  qed
  then have "marked visited = (row_rel succ)\<^sup>* `` {entry}" using D(2,4) by auto
  moreover have "postorder entry succ = Some (post, visited)" using p(1) assms(2) by (simp add: postorder_def vec_simps)
  ultimately show ?thesis using D last by auto
qed

section \<open>Layout\<close>

text \<open>Rows sorted by descending ordinal, as the code sorts them before the walk.\<close>

definition layout :: "nat \<Rightarrow> nat list list \<Rightarrow> nat list option" where
  "layout entry succ = do {
     let sorted_succ = map (\<lambda>s. rev (sort s)) succ;
     (order, visited) \<leftarrow> postorder entry sorted_succ;
     Some (rev order @ filter (\<lambda>b. \<not> visited ! b) [0..<length sorted_succ]) }"

lemma sorted_rows: "row_rel (map (\<lambda>s. rev (sort s)) rows) = row_rel rows"
    "rows_ok (map (\<lambda>s. rev (sort s)) rows) = rows_ok rows"
  by (auto simp: row_rel_def rows_ok_def list_all_iff)

definition comes_before :: "'a list \<Rightarrow> 'a \<Rightarrow> 'a \<Rightarrow> bool" where
  "comes_before xs a b \<longleftrightarrow> (\<exists>i j. i < j \<and> j < length xs \<and> xs ! i = a \<and> xs ! j = b)"

lemma in_set_drop_ge: "y \<in> set (drop k xs) \<Longrightarrow> \<exists>j \<ge> k. j < length xs \<and> xs ! j = y"
proof -
  assume "y \<in> set (drop k xs)"
  then obtain i where "i < length (drop k xs)" "drop k xs ! i = y" by (auto simp: in_set_conv_nth)
  then show ?thesis by (intro exI [of _ "k + i"]) auto
qed

lemma before_rev_drop: "k < length xs \<Longrightarrow> u \<in> set (drop (Suc k) xs) \<Longrightarrow> comes_before (rev xs @ ys) u (xs ! k)"
proof -
  assume k: "k < length xs" and "u \<in> set (drop (Suc k) xs)"
  then obtain j where j: "Suc k \<le> j" "j < length xs" "u = xs ! j" by (auto dest: in_set_drop_ge)
  then show ?thesis unfolding comes_before_def using k
    by (intro exI [of _ "length xs - Suc j"] exI [of _ "length xs - Suc k"]) (auto simp: nth_append rev_nth)
qed

lemma in_set_take_less: "y \<in> set (take k xs) \<Longrightarrow> \<exists>j < k. j < length xs \<and> xs ! j = y"
  by (auto simp: in_set_conv_nth)

lemma before_rev_take: "k < length xs \<Longrightarrow> y \<in> set (take k xs) \<Longrightarrow> comes_before (rev xs @ ys) (xs ! k) y"
proof -
  assume k: "k < length xs" and "y \<in> set (take k xs)"
  then obtain j where "j < k" "xs ! j = y" by (auto dest: in_set_take_less)
  then show ?thesis unfolding comes_before_def using k
    by (intro exI [of _ "length xs - Suc k"] exI [of _ "length xs - Suc j"]) (auto simp: nth_append rev_nth)
qed

section \<open>Properties\<close>

text \<open>C13: the marking search over a graph's adjacency never indexes out of range and terminates; from
  fresh marks it marks exactly the nodes reachable over one or more edges, and with a stop
  condition it answers whether such a node satisfies it.\<close>

theorem search_correct:
  assumes "rows_ok rows" and "from < length rows"
  shows "\<exists>found seen. search from (replicate (length rows) False) (vget rows) stop = Some (found, seen) \<and>
    (found \<longleftrightarrow> (\<exists>y. (from, y) \<in> (row_rel rows)\<^sup>+ \<and> stop y)) \<and>
    (\<not> found \<longrightarrow> marked seen = (row_rel rows)\<^sup>+ `` {from})"
proof -
  from search_result [OF assms(1) _ assms(2), of "replicate (length rows) False" stop] obtain b seen where
    s: "search from (replicate (length rows) False) (vget rows) stop = Some (b, seen)"
      "searched (row_rel rows) stop from {} b (marked seen)" by auto
  with searched_fresh [OF s(2)] show ?thesis by blast
qed

theorem search_correct_witness:
  "\<exists>seen. search 0 (replicate 3 False) (vget [[1], [2], [1]]) (\<lambda>_. False) = Some (False, seen) \<and>
     marked seen = (row_rel [[1], [2], [1]])\<^sup>+ `` {0}"
proof -
  have "rows_ok [[1], [2], [1]]" "0 < length [[1], [2], [1 :: nat]]" by code_simp+
  from search_correct [OF this, of "\<lambda>_. False"] obtain found seen where
    "search 0 (replicate (length [[1], [2], [1 :: nat]]) False) (vget [[1], [2], [1]]) (\<lambda>_. False) = Some (found, seen)"
    "\<not> found" "marked seen = (row_rel [[1], [2], [1]])\<^sup>+ `` {0}" by auto
  then show ?thesis by (simp add: numeral_3_eq_3)
qed

text \<open>C12: the layout of a well-formed graph is defined and lists every block exactly once, the entry
  first; a block the entry reaches comes after one of its predecessors, and every edge that
  is not part of a cycle goes forward in it, so the arms of a branch precede their join.\<close>

theorem layout_correct:
  assumes "wf_cfg g"
  shows "\<exists>order. layout (cfg_entry g) (succ_rows g) = Some order \<and> distinct order \<and>
    set order = {..<length (cfg_blocks g)} \<and> hd order = cfg_entry g \<and>
    (\<forall>b. (cfg_entry g, b) \<in> (block_rel g)\<^sup>* \<longrightarrow> b \<noteq> cfg_entry g \<longrightarrow> (\<exists>p. (p, b) \<in> block_rel g \<and> comes_before order p b)) \<and>
    (\<forall>a b. (cfg_entry g, a) \<in> (block_rel g)\<^sup>* \<longrightarrow> (a, b) \<in> block_rel g \<longrightarrow> (b, a) \<notin> (block_rel g)\<^sup>* \<longrightarrow> comes_before order a b)"
proof -
  let ?rows = "map (\<lambda>s. rev (sort s)) (succ_rows g)" and ?e = "cfg_entry g" and ?n = "length (cfg_blocks g)"
  note R = rows_facts [OF assms]
  have rel: "row_rel ?rows = block_rel g" and ok: "rows_ok ?rows" and len: "length ?rows = ?n"
    using R by (simp_all add: sorted_rows)
  have "?e < length ?rows" using wf_cfgD(1) [OF assms] len by simp
  from postorder_result [OF ok this] obtain post visited where
    P: "postorder ?e ?rows = Some (post, visited)" "length visited = ?n" "marked visited = (block_rel g)\<^sup>* `` {?e}"
      "set post = marked visited" "distinct post" "post \<noteq> []" "last post = ?e"
      "\<And>k. k < length post \<Longrightarrow> post ! k \<noteq> ?e \<Longrightarrow> \<exists>u. (u, post ! k) \<in> block_rel g \<and> u \<in> set (drop (Suc k) post)"
      "\<And>k y. k < length post \<Longrightarrow> (post ! k, y) \<in> block_rel g \<Longrightarrow> y \<in> set (take k post) \<or> (y, post ! k) \<in> (block_rel g)\<^sup>*"
    unfolding rel len by blast
  let ?rest = "filter (\<lambda>b. \<not> visited ! b) [0..<?n]"
  have lay: "layout ?e (succ_rows g) = Some (rev post @ ?rest)" using P(1) R(4) by (simp add: layout_def Let_def)
  have "distinct (rev post @ ?rest)" "set (rev post @ ?rest) = {..<?n}" using P(2,4,5) by (auto simp: marked_def)
  moreover have "hd (rev post @ ?rest) = ?e" using P(6,7) by (simp add: hd_append hd_rev)
  moreover have "\<exists>p. (p, b) \<in> block_rel g \<and> comes_before (rev post @ ?rest) p b"
    if b: "(?e, b) \<in> (block_rel g)\<^sup>*" "b \<noteq> ?e" for b
  proof -
    have "b \<in> set post" using b(1) P(3,4) by auto
    then obtain k where "k < length post" "b = post ! k" by (metis in_set_conv_nth)
    with P(8) b(2) before_rev_drop [of k post _ ?rest] show ?thesis by metis
  qed
  moreover have "comes_before (rev post @ ?rest) a b"
    if "(?e, a) \<in> (block_rel g)\<^sup>*" "(a, b) \<in> block_rel g" "(b, a) \<notin> (block_rel g)\<^sup>*" for a b
  proof -
    have "a \<in> set post" using that(1) P(3,4) by auto
    then obtain k where "k < length post" "a = post ! k" by (metis in_set_conv_nth)
    with P(9) [of k b] that before_rev_take [of k post b ?rest] show ?thesis by blast
  qed
  ultimately show ?thesis using lay by blast
qed

text \<open>A diamond: the entry branches to two arms that meet in the exit.\<close>

definition diamond_cfg :: FunctionCfg where
  "diamond_cfg = \<lparr>cfg_function = 0, cfg_tu = None, cfg_variant = 0, cfg_entry = 0, cfg_exit = 3,
     cfg_exceptional_exit = None,
     cfg_blocks = [\<lparr>blk_kind = Entry, blk_span = None, blk_events = [0]\<rparr>,
       \<lparr>blk_kind = Ordinary, blk_span = None, blk_events = [1]\<rparr>,
       \<lparr>blk_kind = Ordinary, blk_span = None, blk_events = [2]\<rparr>,
       \<lparr>blk_kind = Exit, blk_span = None, blk_events = []\<rparr>],
     cfg_edges = [\<lparr>e_from = 0, e_to = 1, e_kind = BranchTrue\<rparr>, \<lparr>e_from = 0, e_to = 2, e_kind = BranchFalse\<rparr>,
       \<lparr>e_from = 1, e_to = 3, e_kind = Fallthrough\<rparr>, \<lparr>e_from = 2, e_to = 3, e_kind = Fallthrough\<rparr>],
     cfg_events = map (\<lambda>b. \<lparr>ev_block = b, ev_kind = Call,
       ev_occurrence = \<lparr>occ_span = \<lparr>sp_file = 0, sp_line = 1, sp_col = 1\<rparr>, occ_expansion_span = None, occ_expansion_id = 0\<rparr>,
       ev_sites = [b]\<rparr>) [0, 1, 2],
     cfg_order = [], cfg_gaps = []\<rparr>"

lemma diamond_wf: "wf_cfg diamond_cfg"
  by code_simp

theorem layout_correct_witness:
  "\<exists>order. layout (cfg_entry diamond_cfg) (succ_rows diamond_cfg) = Some order \<and> distinct order \<and> hd order = 0"
proof -
  have "cfg_entry diamond_cfg = 0" by (simp add: diamond_cfg_def)
  with layout_correct [OF diamond_wf] show ?thesis by (elim exE conjE) (intro exI conjI, simp_all)
qed

end
