(* ===== verification/Seq_Control.thy ===== *)
theory Seq_Control
  imports Seq_Search
begin

text \<open>
  Where control may move without an edge (\<^verbatim>\<open>ControlFacts\<close> of
  \<^verbatim>\<open>trace-db/src/inspect/sequence.rs\<close>): the blocks that escape, throw or are loose, the gaps over each
  event, and the segments of a split block. The theorems give each vector its meaning in
  terms of the graph's edges and gaps.
\<close>

section \<open>The operations\<close>

definition hides_control :: "GapKind \<Rightarrow> bool" where
  "hides_control kind \<longleftrightarrow>
     (case kind of ParseError \<Rightarrow> True | DepthExceeded \<Rightarrow> True | UnsupportedConstruct \<Rightarrow> True
      | UnresolvedGoto \<Rightarrow> True | _ \<Rightarrow> False)"

definition hidden_transfer_events :: "FunctionCfg \<Rightarrow> nat list" where
  "hidden_transfer_events g = (let n = length (cfg_events g) in
     concat (map (\<lambda>(lo, hi). [lo..<min (hi + 1) n])
       (List.map_filter gap_events (filter (\<lambda>x. hides_control (gap_kind x)) (cfg_gaps g)))))"

record EventGaps =
  eg_hides_control :: "GapKind option"
  eg_unorders :: "GapKind option"
  eg_unordered_branch :: "nat list"
  eg_unevaluated :: bool

definition EventGaps_default :: EventGaps where
  "EventGaps_default =
     \<lparr>eg_hides_control = None, eg_unorders = None, eg_unordered_branch = [], eg_unevaluated = False\<rparr>"

record ControlFacts =
  cf_escapes :: "bool list"
  cf_loose :: "bool list"
  cf_throws :: "bool list"
  cf_hidden :: "EventId list list"
  cf_event_gaps :: "EventGaps list"
  cf_segment :: "(nat \<times> nat) list"

definition mark_edge :: "bool list \<times> bool list \<Rightarrow> CfgEdge \<Rightarrow> (bool list \<times> bool list) option" where
  "mark_edge st edge = (case st of (escapes, throws) \<Rightarrow>
     (case e_kind edge of
        Unsupported \<Rightarrow> map_option (\<lambda>x. (x, throws)) (vset escapes (e_from edge) True)
      | Exception \<Rightarrow> map_option (\<lambda>x. (escapes, x)) (vset throws (e_from edge) True)
      | _ \<Rightarrow> Some st))"

definition mark_hidden ::
  "FunctionCfg \<Rightarrow> nat list list \<Rightarrow> bool list \<times> bool list \<times> EventId list list \<Rightarrow> nat \<Rightarrow>
   (bool list \<times> bool list \<times> EventId list list) option" where
  "mark_hidden g succ st e = (case st of (escapes, resumed, hidden) \<Rightarrow> do {
     ev \<leftarrow> vget (cfg_events g) e;
     let b = ev_block ev;
     row \<leftarrow> vget hidden b;
     hidden' \<leftarrow> vset hidden b (row @ [as_u32 e]);
     escapes' \<leftarrow> vset escapes b True;
     r \<leftarrow> vget resumed b;
     if \<not> r then do {
       resumed1 \<leftarrow> vset resumed b True;
       (_, resumed') \<leftarrow> search b resumed1 (vget succ) (\<lambda>_. False);
       Some (escapes', resumed', hidden') }
     else Some (escapes', resumed, hidden') })"

definition spread_loose :: "nat list list \<Rightarrow> bool list \<Rightarrow> bool list option" where
  "spread_loose pred escapes =
     foldM (\<lambda>loose b. map_option snd (search b loose (vget pred) (\<lambda>_. False))) escapes
       (filter (\<lambda>b. escapes ! b) [0..<length escapes])"

definition note_gap :: "nat \<Rightarrow> Gap \<Rightarrow> EventGaps \<Rightarrow> EventGaps" where
  "note_gap i gap over0 =
     (let over1 = (if hides_control (gap_kind gap)
            then over0\<lparr>eg_hides_control := (case eg_hides_control over0 of None \<Rightarrow> Some (gap_kind gap) | Some k \<Rightarrow> Some k)\<rparr>
            else over0);
          over2 = over1\<lparr>eg_unevaluated := (eg_unevaluated over1 \<or> gap_kind gap = Unevaluated)\<rparr>
      in if gap_kind gap = UnorderedBranch
         then over2\<lparr>eg_unordered_branch := eg_unordered_branch over2 @ [i]\<rparr>
         else over2\<lparr>eg_unorders := (case eg_unorders over2 of None \<Rightarrow> Some (gap_kind gap) | Some k \<Rightarrow> Some k)\<rparr>)"

definition add_gap :: "nat \<Rightarrow> EventGaps list \<Rightarrow> nat \<times> Gap \<Rightarrow> EventGaps list" where
  "add_gap events event_gaps ig = (case ig of (i, gap) \<Rightarrow>
     (case gap_events gap of
        None \<Rightarrow> event_gaps
      | Some (lo, hi) \<Rightarrow>
          (let stop = min (hi + 1) events; start = min lo stop
           in map (\<lambda>(e, over0). if start \<le> e \<and> e < stop then note_gap i gap over0 else over0)
                (List.enumerate 0 event_gaps))))"

definition mark_continues :: "nat list list \<Rightarrow> nat option list \<Rightarrow> CfgEdge \<Rightarrow> nat option list option" where
  "mark_continues pred continues edge =
     (if e_kind edge = Sequenced then do {
        row \<leftarrow> vget pred (e_to edge);
        if length row = 1 then vset continues (e_to edge) (Some (e_from edge)) else Some continues }
      else Some continues)"

text \<open>
  The walk up a chain of continued blocks. The arm that sets the segment of the current block
  ends the loop, whose condition then fails.
\<close>

function seg_walk ::
  "nat \<Rightarrow> nat option list \<Rightarrow> (nat \<times> nat) option list \<Rightarrow> nat list \<Rightarrow> nat \<Rightarrow>
   ((nat \<times> nat) option list \<times> nat list \<times> nat) option" where
  "seg_walk n continues segment chain at =
     (case vget segment at of
        None \<Rightarrow> None
      | Some (Some s) \<Rightarrow> Some (segment, chain, at)
      | Some None \<Rightarrow>
          (case vget continues at of
             None \<Rightarrow> None
           | Some None \<Rightarrow> Some (segment[at := Some (at, 0)], chain, at)
           | Some (Some from) \<Rightarrow>
               if length chain < n then seg_walk n continues segment (at # chain) from
               else Some (segment[at := Some (at, 0)], chain, at)))"
  by pat_completeness auto
termination by (relation "measure (\<lambda>(n, continues, segment, chain, at). n - length chain)") auto

declare seg_walk.simps [simp del]

fun seg_unwind :: "nat \<times> nat \<Rightarrow> nat list \<Rightarrow> (nat \<times> nat) option list \<Rightarrow> (nat \<times> nat) option list option" where
  "seg_unwind base [] segment = Some segment"
| "seg_unwind base (c # chain) segment =
     (let base' = (fst base, snd base + 1) in
      case vset segment c (Some base') of None \<Rightarrow> None | Some segment' \<Rightarrow> seg_unwind base' chain segment')"

definition seg_block :: "nat \<Rightarrow> nat option list \<Rightarrow> (nat \<times> nat) option list \<Rightarrow> nat \<Rightarrow> (nat \<times> nat) option list option" where
  "seg_block n continues segment b = do {
     (segment', chain, at) \<leftarrow> seg_walk n continues segment [] b;
     s \<leftarrow> vget segment' at;
     seg_unwind (case s of None \<Rightarrow> (at, 0) | Some p \<Rightarrow> p) chain segment' }"

definition ControlFacts_of :: "FunctionCfg \<Rightarrow> nat list list \<Rightarrow> nat list list \<Rightarrow> ControlFacts option" where
  "ControlFacts_of g succ pred = do {
     let n = length (cfg_blocks g);
     (escapes0, throws) \<leftarrow> foldM mark_edge (replicate n False, replicate n False) (cfg_edges g);
     (escapes, resumed, hidden) \<leftarrow> foldM (mark_hidden g succ) (escapes0, replicate n False, replicate n [])
       (hidden_transfer_events g);
     loose \<leftarrow> spread_loose pred escapes;
     let events = length (cfg_events g);
     continues \<leftarrow> foldM (mark_continues pred) (replicate n None) (cfg_edges g);
     segment \<leftarrow> foldM (seg_block n continues) (replicate n None) [0..<n];
     Some \<lparr>cf_escapes = escapes, cf_loose = map2 (\<or>) loose resumed, cf_throws = throws, cf_hidden = hidden,
       cf_event_gaps = foldl (add_gap events) (replicate events EventGaps_default) (List.enumerate 0 (cfg_gaps g)),
       cf_segment = List.map_filter id segment\<rparr> }"

section \<open>Edges and hidden transfers\<close>

definition edge_sources :: "EdgeKind \<Rightarrow> CfgEdge list \<Rightarrow> nat set" where
  "edge_sources k es = {b. \<exists>e \<in> set es. e_kind e = k \<and> e_from e = b}"

lemma mark_edges:
  assumes "\<And>e. e \<in> set es \<Longrightarrow> e_from e < n"
  shows "\<exists>esc thr. foldM mark_edge (replicate n False, replicate n False) es = Some (esc, thr) \<and>
    length esc = n \<and> length thr = n \<and> marked esc = edge_sources Unsupported es \<and> marked thr = edge_sources Exception es"
proof -
  have "\<exists>st. foldM mark_edge (replicate n False, replicate n False) es = Some st \<and> (case st of (esc, thr) \<Rightarrow>
      length esc = n \<and> length thr = n \<and> marked esc = edge_sources Unsupported es \<and> marked thr = edge_sources Exception es)"
  proof (rule foldM_prefix_rule)
    show "\<exists>t. mark_edge st e = Some t \<and> (case t of (esc, thr) \<Rightarrow> length esc = n \<and> length thr = n \<and>
        marked esc = edge_sources Unsupported (ds @ [e]) \<and> marked thr = edge_sources Exception (ds @ [e]))"
      if st: "case st of (esc, thr) \<Rightarrow> length esc = n \<and> length thr = n \<and>
        marked esc = edge_sources Unsupported ds \<and> marked thr = edge_sources Exception ds" and e: "e \<in> set es" for ds e st
    proof -
      obtain esc thr where eq: "st = (esc, thr)" by (cases st)
      have src: "edge_sources k (ds @ [e]) = (if e_kind e = k then insert (e_from e) (edge_sources k ds) else edge_sources k ds)" for k
        by (auto simp: edge_sources_def)
      show ?thesis using st assms [OF e]
        by (cases "e_kind e") (auto simp: eq mark_edge_def vec_simps marked_update src)
    qed
  qed (simp add: edge_sources_def)
  then show ?thesis by auto
qed

lemma in_hidden_transfer_events:
  "e \<in> set (hidden_transfer_events g) \<longleftrightarrow> e < length (cfg_events g) \<and>
     (\<exists>gap \<in> set (cfg_gaps g). hides_control (gap_kind gap) \<and> (\<exists>lo hi. gap_events gap = Some (lo, hi) \<and> lo \<le> e \<and> e \<le> hi))"
  by (force simp: hidden_transfer_events_def Let_def set_map_filter)

section \<open>Resumed and loose blocks\<close>

lemma searched_never: "searched r (\<lambda>_. False) from before st now \<Longrightarrow> \<not> st"
  by (auto simp: searched_def split: if_splits)

lemma closed_rtrancl: "r `` M \<subseteq> M \<Longrightarrow> A \<subseteq> M \<Longrightarrow> r\<^sup>* `` A \<subseteq> M"
  by (metis Image_closed_trancl Image_mono order_refl order_trans)

lemma search_closes:
  assumes "r `` M \<subseteq> M" "searched r (\<lambda>_. False) b (insert b M) st now"
  shows "now = M \<union> r\<^sup>* `` {b}"
proof
  have st: "\<not> st" using searched_never [OF assms(2)] .
  have now: "insert b M \<subseteq> now" "now \<subseteq> insert b M \<union> r\<^sup>+ `` {b}"
    "\<And>x y. x \<in> insert b (now - insert b M) \<Longrightarrow> (x, y) \<in> r \<Longrightarrow> y \<in> now"
    using assms(2) st by (auto simp: searched_def)
  show "now \<subseteq> M \<union> r\<^sup>* `` {b}" using now(2) by auto
  have "r `` now \<subseteq> now" using now(1,3) assms(1) by blast
  then show "M \<union> r\<^sup>* `` {b} \<subseteq> now" using closed_rtrancl [of r now "{b}"] now(1) by auto
qed

definition event_blocks :: "FunctionCfg \<Rightarrow> nat list \<Rightarrow> nat set" where
  "event_blocks g es = (\<lambda>e. ev_block (cfg_events g ! e)) ` set es"

definition hidden_ok :: "FunctionCfg \<Rightarrow> nat set \<Rightarrow> nat list \<Rightarrow> bool list \<times> bool list \<times> EventId list list \<Rightarrow> bool" where
  "hidden_ok g esc0 ds st \<longleftrightarrow> (case st of (escapes, resumed, hidden) \<Rightarrow> let n = length (cfg_blocks g) in
     length escapes = n \<and> length resumed = n \<and> length hidden = n \<and>
     marked escapes = esc0 \<union> event_blocks g ds \<and> marked resumed = (block_rel g)\<^sup>* `` event_blocks g ds \<and>
     (\<forall>b < n. hidden ! b = filter (\<lambda>e. ev_block (cfg_events g ! e) = b) ds))"

lemma mark_hidden_step:
  assumes wf: "wf_cfg g" and e: "e < length (cfg_events g)" and ok: "hidden_ok g esc0 ds st"
  shows "\<exists>st'. mark_hidden g (succ_rows g) st e = Some st' \<and> hidden_ok g esc0 (ds @ [e]) st'"
proof -
  obtain escapes resumed hidden where st: "st = (escapes, resumed, hidden)" by (cases st)
  let ?n = "length (cfg_blocks g)" and ?b = "ev_block (cfg_events g ! e)" and ?r = "block_rel g"
  have O: "length escapes = ?n" "length resumed = ?n" "length hidden = ?n" "marked escapes = esc0 \<union> event_blocks g ds"
      "marked resumed = ?r\<^sup>* `` event_blocks g ds" "\<And>b. b < ?n \<Longrightarrow> hidden ! b = filter (\<lambda>e. ev_block (cfg_events g ! e) = b) ds"
    using ok by (simp_all add: hidden_ok_def st Let_def)
  note R = rows_facts [OF wf]
  have b: "?b < ?n" using wf_cfgD(5) [OF wf e] .
  have u: "as_u32 e = e" using e wf_cfgD(11) [OF wf] by (simp add: as_u32_id)
  have blocks: "event_blocks g (ds @ [e]) = insert ?b (event_blocks g ds)" by (auto simp: event_blocks_def)
  let ?esc = "escapes[?b := True]" and ?hid = "hidden[?b := hidden ! ?b @ [e]]"
  have fixed: "marked ?esc = esc0 \<union> event_blocks g (ds @ [e])" "length ?esc = ?n" "length ?hid = ?n"
    "\<And>b. b < ?n \<Longrightarrow> ?hid ! b = filter (\<lambda>e. ev_block (cfg_events g ! e) = b) (ds @ [e])"
    using O b blocks by (auto simp: marked_update nth_list_update)
  have closed: "?r `` marked resumed \<subseteq> marked resumed" unfolding O(5) by (auto intro: rtrancl_into_rtrancl)
  show ?thesis
  proof (cases "resumed ! ?b")
    case True
    then have "?b \<in> marked resumed" using b O(2) by (simp add: marked_def)
    then have "?r\<^sup>* `` {?b} \<subseteq> marked resumed" using closed_rtrancl [OF closed] by simp
    then have "marked resumed = ?r\<^sup>* `` event_blocks g (ds @ [e])" using O(5) blocks by auto
    with fixed O(2) have "hidden_ok g esc0 (ds @ [e]) (?esc, resumed, ?hid)" by (simp add: hidden_ok_def Let_def)
    then show ?thesis using True e b u O(1-3) by (simp add: mark_hidden_def st Let_def vec_simps)
  next
    case False
    have "marked (resumed[?b := True]) = insert ?b (marked resumed)" using b O(2) by (simp add: marked_update)
    with search_result [OF R(1), of "resumed[?b := True]" ?b "\<lambda>_. False"] O(2) b R(4,7) obtain fl now where
      s: "search ?b (resumed[?b := True]) (vget (succ_rows g)) (\<lambda>_. False) = Some (fl, now)" "length now = ?n"
        "searched ?r (\<lambda>_. False) ?b (insert ?b (marked resumed)) fl (marked now)" by auto
    have "marked now = ?r\<^sup>* `` event_blocks g (ds @ [e])" using search_closes [OF closed s(3)] O(5) blocks by auto
    with fixed s(2) have "hidden_ok g esc0 (ds @ [e]) (?esc, now, ?hid)" by (simp add: hidden_ok_def Let_def)
    then show ?thesis using False e b u O(1-3) s(1) by (simp add: mark_hidden_def st Let_def vec_simps)
  qed
qed

lemma spread_loose_result:
  assumes wf: "wf_cfg g" and len: "length escapes = length (cfg_blocks g)"
  shows "\<exists>loose. spread_loose (pred_rows g) escapes = Some loose \<and> length loose = length (cfg_blocks g) \<and>
    marked loose = ((block_rel g)\<inverse>)\<^sup>* `` marked escapes"
proof -
  let ?n = "length (cfg_blocks g)" and ?p = "(block_rel g)\<inverse>" and ?E = "marked escapes"
  let ?bs = "filter (\<lambda>b. escapes ! b) [0..<length escapes]"
  note R = rows_facts [OF wf]
  have bs: "set ?bs = ?E" by (auto simp: marked_def)
  let ?I = "\<lambda>ds loose. length loose = ?n \<and> ?E \<subseteq> marked loose \<and> marked loose \<subseteq> ?p\<^sup>* `` ?E \<and>
    (\<forall>x \<in> marked loose. x \<in> ?E - set ds \<or> ?p `` {x} \<subseteq> marked loose)"
  have "\<exists>loose. foldM (\<lambda>loose b. map_option snd (search b loose (vget (pred_rows g)) (\<lambda>_. False))) escapes ?bs = Some loose \<and>
      ?I ?bs loose"
  proof (rule foldM_prefix_rule [where I = ?I])
    show "?I [] escapes" using len by auto
    fix ds b loose assume I: "?I ds loose" and "b \<in> set ?bs"
    then have bE: "b \<in> ?E" and b: "b < ?n" using bs len by (auto simp: marked_def)
    from search_result [OF R(2), of loose b "\<lambda>_. False"] I b R(5,8) obtain fl now where
      s: "search b loose (vget (pred_rows g)) (\<lambda>_. False) = Some (fl, now)" "length now = ?n"
        "searched ?p (\<lambda>_. False) b (marked loose) fl (marked now)" by auto
    have now: "marked loose \<subseteq> marked now" "marked now \<subseteq> marked loose \<union> ?p\<^sup>+ `` {b}"
      "\<And>x y. x \<in> insert b (marked now - marked loose) \<Longrightarrow> (x, y) \<in> ?p \<Longrightarrow> y \<in> marked now"
      using s(3) searched_never [OF s(3)] by (auto simp: searched_def)
    have "?p\<^sup>+ `` {b} \<subseteq> ?p\<^sup>* `` ?E" using bE by (auto dest: trancl_into_rtrancl)
    then have "marked now \<subseteq> ?p\<^sup>* `` ?E" using now(2) I by blast
    moreover have "x \<in> ?E - set (ds @ [b]) \<or> ?p `` {x} \<subseteq> marked now" if "x \<in> marked now" for x
    proof (cases "x = b \<or> x \<notin> marked loose")
      case True
      then show ?thesis using that now(3) by auto
    next
      case False
      then have "x \<in> ?E - set ds \<or> ?p `` {x} \<subseteq> marked loose" using I by blast
      with False now(1) show ?thesis by auto
    qed
    ultimately have "?I (ds @ [b]) now" using s(2) I now(1) by auto
    then show "\<exists>t. map_option snd (search b loose (vget (pred_rows g)) (\<lambda>_. False)) = Some t \<and> ?I (ds @ [b]) t"
      using s(1) by simp
  qed
  then obtain loose where L: "spread_loose (pred_rows g) escapes = Some loose" "?I ?bs loose" by (auto simp: spread_loose_def)
  have "?p `` {x} \<subseteq> marked loose" if "x \<in> marked loose" for x using L(2) that unfolding bs by simp
  then have "?p `` marked loose \<subseteq> marked loose" by auto
  then have "?p\<^sup>* `` ?E \<subseteq> marked loose" using L(2) by (intro closed_rtrancl) simp_all
  with L have "marked loose = ?p\<^sup>* `` ?E" by (intro equalityI) simp_all
  with L show ?thesis by simp
qed

section \<open>The gaps over an event\<close>

definition covers :: "Gap \<Rightarrow> nat \<Rightarrow> bool" where
  "covers gap event = (case gap_events gap of None \<Rightarrow> False | Some (a, b) \<Rightarrow> a \<le> event \<and> event \<le> b)"

text \<open>What the gaps over one event add up to.\<close>

definition gaps_over :: "(nat \<times> Gap) list \<Rightarrow> nat \<Rightarrow> EventGaps" where
  "gaps_over igs e = foldl (\<lambda>over0 (i, gap). note_gap i gap over0) EventGaps_default (filter (\<lambda>(i, gap). covers gap e) igs)"

lemma add_gap_nth:
  "length (add_gap n xs ig) = length xs"
  "e < length xs \<Longrightarrow> e < n \<Longrightarrow> add_gap n xs ig ! e = (if covers (snd ig) e then note_gap (fst ig) (snd ig) (xs ! e) else xs ! e)"
  by (auto simp: add_gap_def covers_def Let_def nth_enumerate_eq split: prod.splits option.splits)

lemma add_gaps_nth:
  "length (foldl (add_gap n) (replicate n EventGaps_default) igs) = n \<and>
   (\<forall>e < n. foldl (add_gap n) (replicate n EventGaps_default) igs ! e = gaps_over igs e)"
proof (induction igs rule: rev_induct)
  case (snoc ig igs)
  then show ?case by (cases ig) (auto simp: add_gap_nth gaps_over_def)
qed (simp add: gaps_over_def)

lemma gaps_over_facts:
  "eg_hides_control (gaps_over igs e) = (if \<exists>ig \<in> set igs. covers (snd ig) e \<and> hides_control (gap_kind (snd ig))
     then Some (gap_kind (snd (hd (filter (\<lambda>ig. covers (snd ig) e \<and> hides_control (gap_kind (snd ig))) igs)))) else None)"
  "eg_unevaluated (gaps_over igs e) \<longleftrightarrow> (\<exists>ig \<in> set igs. covers (snd ig) e \<and> gap_kind (snd ig) = Unevaluated)"
  "eg_unorders (gaps_over igs e) = None \<longleftrightarrow> \<not> (\<exists>ig \<in> set igs. covers (snd ig) e \<and> gap_kind (snd ig) \<noteq> UnorderedBranch)"
  "eg_unordered_branch (gaps_over igs e) = map fst (filter (\<lambda>ig. covers (snd ig) e \<and> gap_kind (snd ig) = UnorderedBranch) igs)"
proof (induction igs rule: rev_induct)
  case (snoc ig igs)
  obtain i gap where ig: "ig = (i, gap)" by (cases ig)
  have step: "gaps_over (igs @ [ig]) e = (if covers gap e then note_gap i gap (gaps_over igs e) else gaps_over igs e)"
    by (simp add: gaps_over_def ig)
  let ?p = "\<lambda>ig. covers (snd ig) e \<and> hides_control (gap_kind (snd ig))"
  have ex: "(\<exists>ig \<in> set igs. ?p ig) \<longleftrightarrow> filter ?p igs \<noteq> []" by (auto simp: filter_empty_conv)
  {
    case 1
    show ?case using snoc(1) unfolding step
      by (auto simp: note_gap_def Let_def ig hd_append filter_empty_conv split: option.splits if_splits)
  next
    case 2
    show ?case using snoc(2) unfolding step by (auto simp: note_gap_def Let_def ig)
  next
    case 3
    show ?case using snoc(3) unfolding step by (auto simp: note_gap_def Let_def ig split: option.splits)
  next
    case 4
    show ?case using snoc(4) unfolding step by (auto simp: note_gap_def Let_def ig)
  }
qed (simp_all add: gaps_over_def EventGaps_default_def)

section \<open>Segments\<close>

text \<open>\<open>rooted\<close>: following the continued blocks up ends at a root, so many steps above.\<close>

inductive rooted :: "nat option list \<Rightarrow> nat \<Rightarrow> nat \<Rightarrow> nat \<Rightarrow> bool" for continues where
  root: "continues ! b = None \<Longrightarrow> rooted continues b b 0"
| step: "continues ! b = Some a \<Longrightarrow> rooted continues a root d \<Longrightarrow> rooted continues b root (Suc d)"

inductive_cases rooted_Some: "rooted continues b root d"

lemma rooted_unique: "rooted continues b root d \<Longrightarrow> rooted continues b root' d' \<Longrightarrow> root = root' \<and> d = d'"
proof (induction arbitrary: root' d' rule: rooted.induct)
  case (root b)
  then show ?case by (auto elim: rooted_Some)
next
  case (step b a root d)
  from step.prems step.hyps(1) show ?case by (cases rule: rooted_Some) (use step.IH in auto)
qed

lemma rooted_up: "rooted continues b root d \<Longrightarrow> continues ! b = Some a \<Longrightarrow> \<exists>d'. d = Suc d' \<and> rooted continues a root d'"
  by (erule rooted_Some) auto

definition continues_ok :: "nat \<Rightarrow> nat option list \<Rightarrow> bool" where
  "continues_ok n continues \<longleftrightarrow> length continues = n \<and> (\<forall>b < n. \<forall>a. continues ! b = Some a \<longrightarrow> a < n)"

fun linked :: "nat option list \<Rightarrow> nat list \<Rightarrow> nat \<Rightarrow> bool" where
  "linked continues [] at \<longleftrightarrow> True"
| "linked continues (c # chain) at \<longleftrightarrow> c < length continues \<and> continues ! c = Some at \<and> linked continues chain c"

text \<open>A chain below a rooted block is shorter than the graph: its depths differ.\<close>

lemma linked_depths:
  assumes "linked continues chain at" "rooted continues at root d" "at < length continues"
  shows "\<exists>f. (\<forall>x \<in> insert at (set chain). rooted continues x root (f x)) \<and> f ` insert at (set chain) = {d..d + length chain} \<and>
    insert at (set chain) \<subseteq> {..<length continues}"
  using assms
proof (induction chain arbitrary: at d)
  case Nil
  then show ?case by (intro exI [of _ "\<lambda>_. d"]) simp
next
  case (Cons c chain)
  then have c: "rooted continues c root (Suc d)" "c < length continues" "linked continues chain c" by (auto intro: rooted.step)
  from Cons.IH [OF c(3,1,2)] obtain f where
    f: "\<forall>x \<in> insert c (set chain). rooted continues x root (f x)" "f ` insert c (set chain) = {Suc d..Suc d + length chain}"
      "insert c (set chain) \<subseteq> {..<length continues}" by blast
  have at: "at \<notin> insert c (set chain)"
  proof
    assume "at \<in> insert c (set chain)"
    then have "f at = d" "f at \<in> {Suc d..Suc d + length chain}" using f(1,2) rooted_unique [OF Cons.prems(2)] by blast+
    then show False by simp
  qed
  have "(f(at := d)) ` insert at (set (c # chain)) = insert d (f ` insert c (set chain))" using at by auto
  then have "(f(at := d)) ` insert at (set (c # chain)) = {d..d + length (c # chain)}" using f(2) by auto
  moreover have "\<forall>x \<in> insert at (set (c # chain)). rooted continues x root ((f(at := d)) x)" using f(1) at Cons.prems(2) by auto
  moreover have "insert at (set (c # chain)) \<subseteq> {..<length continues}" using f(3) Cons.prems(3) by simp
  ultimately show ?case by blast
qed

lemma linked_short:
  assumes "linked continues chain at" "rooted continues at root d" "at < length continues"
  shows "length chain < length continues"
proof -
  from linked_depths [OF assms] obtain f where
    f: "f ` insert at (set chain) = {d..d + length chain}" "insert at (set chain) \<subseteq> {..<length continues}" by blast
  have "Suc (length chain) = card (f ` insert at (set chain))" unfolding f(1) by simp
  also have "\<dots> \<le> card (insert at (set chain))" by (rule card_image_le) simp
  also have "\<dots> \<le> length continues" using card_mono [OF _ f(2)] by simp
  finally show ?thesis by simp
qed

definition segments_ok :: "nat option list \<Rightarrow> (nat \<times> nat) option list \<Rightarrow> bool" where
  "segments_ok continues segment \<longleftrightarrow> length segment = length continues \<and>
     (\<forall>b < length continues. \<forall>p root d. segment ! b = Some p \<longrightarrow> rooted continues b root d \<longrightarrow> p = (root, d))"

lemma segments_okD:
  "segments_ok continues segment \<Longrightarrow> b < length continues \<Longrightarrow> segment ! b = Some p \<Longrightarrow> rooted continues b root d \<Longrightarrow> p = (root, d)"
  unfolding segments_ok_def by blast

lemma segments_ok_update:
  assumes "segments_ok continues segment" "at < length continues" "\<And>root d. rooted continues at root d \<Longrightarrow> p = (root, d)"
  shows "segments_ok continues (segment[at := Some p])"
  unfolding segments_ok_def
proof (intro conjI allI impI)
  fix b q root d assume b: "b < length continues" "segment[at := Some p] ! b = Some q" "rooted continues b root d"
  show "q = (root, d)"
  proof (cases "b = at")
    case True
    then have "q = p" using b(2) assms(1,2) by (simp add: segments_ok_def)
    then show ?thesis using assms(3) b(3) True by simp
  next
    case False
    then have "segment ! b = Some q" using b(2) by simp
    then show ?thesis using assms(1) b(1,3) unfolding segments_ok_def by blast
  qed
qed (use assms(1) in \<open>simp add: segments_ok_def\<close>)

lemma set_keeps: "\<forall>b < n. xs ! b \<noteq> None \<longrightarrow> xs[i := Some p] ! b \<noteq> None"
  by (metis list_update_beyond not_le nth_list_update option.distinct(1))

lemma seg_walk_result:
  assumes "continues_ok n continues" "segments_ok continues segment" "linked continues chain at" "at < n"
  shows "\<exists>segment' chain' at' zs. seg_walk n continues segment chain at = Some (segment', chain', at') \<and>
    chain' = zs @ chain \<and> segments_ok continues segment' \<and> linked continues chain' at' \<and> at' < n \<and> segment' ! at' \<noteq> None \<and>
    (zs = [] \<longrightarrow> at' = at) \<and> (zs \<noteq> [] \<longrightarrow> last zs = at) \<and> (\<forall>b < n. segment ! b \<noteq> None \<longrightarrow> segment' ! b \<noteq> None)"
  using assms
proof (induction n continues segment chain at rule: seg_walk.induct)
  case (1 n continues segment chain at)
  have len: "length continues = n" "length segment = n" using 1(2,3) by (auto simp: continues_ok_def segments_ok_def)
  have stop: "segments_ok continues (segment[at := Some (at, 0)]) \<and> (\<forall>b < n. segment ! b \<noteq> None \<longrightarrow> segment[at := Some (at, 0)] ! b \<noteq> None)"
    if "\<And>root d. rooted continues at root d \<Longrightarrow> root = at \<and> d = 0"
  proof
    show "segments_ok continues (segment[at := Some (at, 0)])"
      using segments_ok_update [OF 1(3), of at "(at, 0)"] that 1(5) len by auto
  qed (rule set_keeps)
  show ?case
  proof (cases "segment ! at")
    case (Some s)
    then have "seg_walk n continues segment chain at = Some (segment, chain, at)"
      using 1(5) len by (subst seg_walk.simps) (simp add: vec_simps)
    with Some 1(3-5) show ?thesis by auto
  next
    case None
    show ?thesis
    proof (cases "continues ! at")
      case c: None
      then have "seg_walk n continues segment chain at = Some (segment[at := Some (at, 0)], chain, at)"
        using None 1(5) len by (subst seg_walk.simps) (simp add: vec_simps)
      moreover have "root = at \<and> d = 0" if "rooted continues at root d" for root d using that c by (auto elim: rooted_Some)
      ultimately show ?thesis using stop 1(4,5) len by auto
    next
      case c: (Some a)
      have v: "vget segment at = Some None" "vget continues at = Some (Some a)" using None c 1(5) len by (simp_all add: vec_simps)
      show ?thesis
      proof (cases "length chain < n")
        case True
        have "a < n" using 1(2,5) c by (auto simp: continues_ok_def)
        moreover have "linked continues (at # chain) a" using 1(4,5) c len by simp
        ultimately obtain segment' chain' at' zs where
          R: "seg_walk n continues segment (at # chain) a = Some (segment', chain', at')" "chain' = zs @ at # chain"
            "segments_ok continues segment'" "linked continues chain' at'" "at' < n" "segment' ! at' \<noteq> None"
            "\<forall>b < n. segment ! b \<noteq> None \<longrightarrow> segment' ! b \<noteq> None"
          using 1(1) [OF v(1) refl v(2) refl True 1(2,3)] by blast
        moreover have "seg_walk n continues segment chain at = Some (segment', chain', at')"
          using v True R(1) by (subst seg_walk.simps) simp
        moreover have "chain' = (zs @ [at]) @ chain" using R(2) by simp
        ultimately show ?thesis by (intro exI [of _ segment'] exI [of _ chain'] exI [of _ at'] exI [of _ "zs @ [at]"]) simp
      next
        case False
        then have "seg_walk n continues segment chain at = Some (segment[at := Some (at, 0)], chain, at)"
          using v by (subst seg_walk.simps) simp
        moreover have "root = at \<and> d = 0" if "rooted continues at root d" for root d
          using linked_short [OF 1(4) that] 1(5) len False by simp
        ultimately show ?thesis using stop 1(4,5) len by auto
      qed
    qed
  qed
qed

lemma seg_unwind_result:
  assumes "segments_ok continues segment" "linked continues chain at" "at < length continues"
    and "\<And>root d. rooted continues at root d \<Longrightarrow> base = (root, d)"
  shows "\<exists>segment'. seg_unwind base chain segment = Some segment' \<and> segments_ok continues segment' \<and>
    (\<forall>b < length continues. segment ! b \<noteq> None \<or> b \<in> set chain \<longrightarrow> segment' ! b \<noteq> None)"
  using assms
proof (induction base chain segment arbitrary: at rule: seg_unwind.induct)
  case (2 base c chain segment)
  let ?b = "(fst base, snd base + 1)" and ?s = "segment[c := Some (fst base, snd base + 1)]"
  have c: "c < length continues" "continues ! c = Some at" "linked continues chain c" using 2(3) by auto
  have len: "length segment = length continues" using 2(2) by (simp add: segments_ok_def)
  have base: "?b = (root, d)" if "rooted continues c root d" for root d
    using rooted_up [OF that c(2)] 2(5) by fastforce
  then have "segments_ok continues ?s" using segments_ok_update [OF 2(2) c(1)] by simp
  from 2(1) [OF refl _ this c(3,1) base] len c(1) obtain segment' where
    "seg_unwind ?b chain ?s = Some segment'" "segments_ok continues segment'"
    "\<forall>b < length continues. ?s ! b \<noteq> None \<or> b \<in> set chain \<longrightarrow> segment' ! b \<noteq> None" by (auto simp: vec_simps)
  with len c(1) show ?case by (auto simp: vec_simps nth_list_update Let_def)
qed simp

lemma seg_block_result:
  assumes ok: "continues_ok n continues" "segments_ok continues segment" and b: "b < n"
  shows "\<exists>segment'. seg_block n continues segment b = Some segment' \<and> segments_ok continues segment' \<and>
    (\<forall>x < n. segment ! x \<noteq> None \<or> x = b \<longrightarrow> segment' ! x \<noteq> None)"
proof -
  have len: "length continues = n" using ok by (simp add: continues_ok_def)
  have "linked continues [] b" by simp
  from seg_walk_result [OF ok this b] obtain seg1 chain at zs where
    W0: "seg_walk n continues segment [] b = Some (seg1, chain, at)" "chain = zs @ []" "segments_ok continues seg1" "linked continues chain at"
      "at < n" "seg1 ! at \<noteq> None" "zs = [] \<longrightarrow> at = b" "zs \<noteq> [] \<longrightarrow> last zs = b"
      "\<forall>x < n. segment ! x \<noteq> None \<longrightarrow> seg1 ! x \<noteq> None" by (elim exE conjE) (rule that)
  then have W: "seg_walk n continues segment [] b = Some (seg1, chain, at)" "segments_ok continues seg1" "linked continues chain at"
      "at < n" "seg1 ! at \<noteq> None" "chain = [] \<longrightarrow> at = b" "chain \<noteq> [] \<longrightarrow> last chain = b"
      "\<forall>x < n. segment ! x \<noteq> None \<longrightarrow> seg1 ! x \<noteq> None" by simp_all
  then obtain p where p: "seg1 ! at = Some p" by auto
  have len1: "length seg1 = n" using W(2) len by (simp add: segments_ok_def)
  have "p = (root, d)" if "rooted continues at root d" for root d
    using W(2,4) p that len unfolding segments_ok_def by blast
  from seg_unwind_result [OF W(2,3) _ this] W(4) len obtain seg2 where
    U: "seg_unwind p chain seg1 = Some seg2" "segments_ok continues seg2"
      "\<forall>x < n. seg1 ! x \<noteq> None \<or> x \<in> set chain \<longrightarrow> seg2 ! x \<noteq> None" by auto
  have "seg_block n continues segment b = Some seg2"
    using W(1,4) p len1 U(1) by (simp add: seg_block_def vec_simps)
  moreover have "seg2 ! b \<noteq> None"
    using U(3) W(4-7) b last_in_set [of chain] by (cases "chain = []") auto
  ultimately show ?thesis using U(2,3) W(8) by blast
qed

lemma seg_blocks_result:
  assumes "continues_ok n continues"
  shows "\<exists>segment. foldM (seg_block n continues) (replicate n None) [0..<n] = Some segment \<and>
    segments_ok continues segment \<and> (\<forall>b < n. segment ! b \<noteq> None)"
proof -
  have len: "length continues = n" using assms by (simp add: continues_ok_def)
  have "\<exists>segment. foldM (seg_block n continues) (replicate n None) [0..<n] = Some segment \<and>
      (segments_ok continues segment \<and> (\<forall>x \<in> set [0..<n]. segment ! x \<noteq> None))"
  proof (rule foldM_prefix_rule [where I = "\<lambda>ds segment. segments_ok continues segment \<and> (\<forall>x \<in> set ds. x < n \<longrightarrow> segment ! x \<noteq> None)", THEN exE])
    show "segments_ok continues (replicate n None) \<and> (\<forall>x \<in> set []. x < n \<longrightarrow> replicate n None ! x \<noteq> None)"
      using len by (simp add: segments_ok_def)
    fix ds b segment
    assume I: "segments_ok continues segment \<and> (\<forall>x \<in> set ds. x < n \<longrightarrow> segment ! x \<noteq> None)" and b: "b \<in> set [0..<n]"
    from b have "b < n" by simp
    from seg_block_result [OF assms _ this] I obtain segment' where
      "seg_block n continues segment b = Some segment'" "segments_ok continues segment'"
      "\<forall>x < n. segment ! x \<noteq> None \<or> x = b \<longrightarrow> segment' ! x \<noteq> None" by blast
    with I show "\<exists>t. seg_block n continues segment b = Some t \<and>
        (segments_ok continues t \<and> (\<forall>x \<in> set (ds @ [b]). x < n \<longrightarrow> t ! x \<noteq> None))" by (intro exI [of _ segment']) simp
  qed auto
  then show ?thesis by auto
qed

text \<open>The block a block continues: the source of its one way in, when that is a \<open>sequenced\<close> edge.\<close>

definition continued :: "FunctionCfg \<Rightarrow> nat \<Rightarrow> nat option" where
  "continued g b = (case filter (\<lambda>e. e_to e = b) (cfg_edges g) of
     [e] \<Rightarrow> if e_kind e = Sequenced then Some (e_from e) else None | _ \<Rightarrow> None)"

lemma mark_continues_result:
  assumes "wf_cfg g"
  shows "foldM (mark_continues (pred_rows g)) (replicate (length (cfg_blocks g)) None) (cfg_edges g) =
    Some (map (continued g) [0..<length (cfg_blocks g)])"
proof -
  let ?n = "length (cfg_blocks g)" and ?es = "cfg_edges g"
  define part where "part ds b = (if length (filter (\<lambda>e. e_to e = b) ?es) = 1
      then (let xs = filter (\<lambda>e. e_to e = b \<and> e_kind e = Sequenced) ds in if xs = [] then None else Some (e_from (last xs))) else None)" for ds :: "CfgEdge list" and b
  have "\<exists>cs. foldM (mark_continues (pred_rows g)) (replicate ?n None) ?es = Some cs \<and> cs = map (part ?es) [0..<?n]"
  proof (rule foldM_prefix_rule [where I = "\<lambda>ds cs. cs = map (part ds) [0..<?n]"])
    show "replicate ?n None = map (part []) [0..<?n]" by (auto simp: part_def intro: nth_equalityI)
    fix ds e cs assume cs: "cs = map (part ds) [0..<?n]" and e: "e \<in> set ?es"
    have to: "e_to e < ?n" using wf_cfgD(4) [OF assms e] .
    have row: "vget (pred_rows g) (e_to e) = Some (map e_from (filter (\<lambda>e'. e_to e' = e_to e) ?es))"
      using to by (simp add: pred_rows_def vec_simps)
    show "\<exists>t. mark_continues (pred_rows g) cs e = Some t \<and> t = map (part (ds @ [e])) [0..<?n]"
    proof (cases "e_kind e = Sequenced \<and> length (filter (\<lambda>e'. e_to e' = e_to e) ?es) = 1")
      case True
      have "cs[e_to e := Some (e_from e)] = map (part (ds @ [e])) [0..<?n]"
        using True to by (intro nth_equalityI) (auto simp: cs nth_list_update part_def Let_def)
      then show ?thesis using True row to by (simp add: mark_continues_def cs vec_simps)
    next
      case False
      then have "part (ds @ [e]) b = part ds b" for b by (auto simp: part_def)
      then have "cs = map (part (ds @ [e])) [0..<?n]" by (simp add: cs)
      then show ?thesis using False row by (auto simp: mark_continues_def)
    qed
  qed
  moreover have "part ?es b = continued g b" for b
  proof (cases "filter (\<lambda>e. e_to e = b) ?es")
    case Nil
    then show ?thesis by (simp add: part_def continued_def)
  next
    case (Cons e rest)
    have "filter (\<lambda>e. e_to e = b \<and> e_kind e = Sequenced) ?es = filter (\<lambda>e. e_kind e = Sequenced) (filter (\<lambda>e. e_to e = b) ?es)"
      by (auto intro: filter_cong)
    then show ?thesis using Cons by (cases rest) (auto simp: part_def continued_def)
  qed
  ultimately show ?thesis by simp
qed

lemma continued_ok: "wf_cfg g \<Longrightarrow> continues_ok (length (cfg_blocks g)) (map (continued g) [0..<length (cfg_blocks g)])"
proof -
  assume wf: "wf_cfg g"
  have "a < length (cfg_blocks g)" if c: "continued g b = Some a" for a b
  proof -
    from c obtain e where "filter (\<lambda>e. e_to e = b) (cfg_edges g) = [e]" "e_from e = a"
      by (auto simp: continued_def split: list.splits if_splits)
    then have "e \<in> set (filter (\<lambda>e. e_to e = b) (cfg_edges g))" by simp
    then have "e \<in> set (cfg_edges g)" by simp
    then show ?thesis using wf_cfgD(3) [OF wf] \<open>e_from e = a\<close> by blast
  qed
  then show ?thesis by (auto simp: continues_ok_def)
qed

lemma map_filter_all: "(\<And>x. x \<in> set xs \<Longrightarrow> x \<noteq> None) \<Longrightarrow> List.map_filter id xs = map the xs"
proof (induction xs)
  case (Cons x xs)
  from Cons.prems [of x] obtain y where "x = Some y" by auto
  with Cons show ?case by (simp add: List.map_filter_simps)
qed (simp add: List.map_filter_simps)

section \<open>The facts of a graph\<close>

definition hidden_events :: "FunctionCfg \<Rightarrow> nat set" where
  "hidden_events g = {e. e < length (cfg_events g) \<and> (\<exists>gap \<in> set (cfg_gaps g). hides_control (gap_kind gap) \<and> covers gap e)}"

lemma covers_iff: "covers gap e \<longleftrightarrow> (\<exists>lo hi. gap_events gap = Some (lo, hi) \<and> lo \<le> e \<and> e \<le> hi)"
  by (auto simp: covers_def split: option.splits)

lemma set_hidden_transfer_events: "set (hidden_transfer_events g) = hidden_events g"
  unfolding set_eq_iff in_hidden_transfer_events hidden_events_def covers_iff by simp

lemma map2_marked: "length xs = length ys \<Longrightarrow> marked (map2 (\<or>) xs ys) = marked xs \<union> marked ys"
  by (auto simp: marked_def)

lemma control_facts_result:
  assumes wf: "wf_cfg g"
  shows "\<exists>f. ControlFacts_of g (succ_rows g) (pred_rows g) = Some f \<and>
    (let n = length (cfg_blocks g); hit = event_blocks g (hidden_transfer_events g); esc = edge_sources Unsupported (cfg_edges g) \<union> hit in
      marked (cf_escapes f) = esc \<and> marked (cf_throws f) = edge_sources Exception (cfg_edges g) \<and>
      marked (cf_loose f) = {b. \<exists>x \<in> esc. (b, x) \<in> (block_rel g)\<^sup>*} \<union> {b. \<exists>x \<in> hit. (x, b) \<in> (block_rel g)\<^sup>*} \<and>
      length (cf_escapes f) = n \<and> length (cf_throws f) = n \<and> length (cf_loose f) = n \<and>
      length (cf_hidden f) = n \<and> (\<forall>b < n. set (cf_hidden f ! b) = {e \<in> hidden_events g. ev_block (cfg_events g ! e) = b}) \<and>
      length (cf_event_gaps f) = length (cfg_events g) \<and>
      (\<forall>e < length (cfg_events g). cf_event_gaps f ! e = gaps_over (List.enumerate 0 (cfg_gaps g)) e) \<and>
      length (cf_segment f) = n \<and>
      (\<forall>b < n. \<forall>root d. rooted (map (continued g) [0..<n]) b root d \<longrightarrow> cf_segment f ! b = (root, d)))"
proof -
  let ?n = "length (cfg_blocks g)" and ?r = "block_rel g" and ?h = "hidden_transfer_events g" and ?c = "map (continued g) [0..<length (cfg_blocks g)]"
  from mark_edges [of "cfg_edges g" ?n] wf_cfgD(3) [OF wf] obtain esc0 thr where
    E: "foldM mark_edge (replicate ?n False, replicate ?n False) (cfg_edges g) = Some (esc0, thr)" "length esc0 = ?n" "length thr = ?n"
      "marked esc0 = edge_sources Unsupported (cfg_edges g)" "marked thr = edge_sources Exception (cfg_edges g)" by blast
  have "\<exists>st. foldM (mark_hidden g (succ_rows g)) (esc0, replicate ?n False, replicate ?n []) ?h = Some st \<and> hidden_ok g (marked esc0) ?h st"
  proof (rule foldM_prefix_rule)
    show "hidden_ok g (marked esc0) [] (esc0, replicate ?n False, replicate ?n [])"
      using E(2) by (simp add: hidden_ok_def Let_def event_blocks_def)
    show "\<exists>t. mark_hidden g (succ_rows g) st e = Some t \<and> hidden_ok g (marked esc0) (ds @ [e]) t"
      if "hidden_ok g (marked esc0) ds st" "e \<in> set ?h" for ds e st
      using mark_hidden_step [OF wf _ that(1)] that(2) in_hidden_transfer_events by blast
  qed
  then obtain esc res hid where
    H: "foldM (mark_hidden g (succ_rows g)) (esc0, replicate ?n False, replicate ?n []) ?h = Some (esc, res, hid)"
      "hidden_ok g (marked esc0) ?h (esc, res, hid)" by (metis prod_cases3)
  have O: "length esc = ?n" "length res = ?n" "length hid = ?n" "marked esc = marked esc0 \<union> event_blocks g ?h"
      "marked res = ?r\<^sup>* `` event_blocks g ?h" "\<And>b. b < ?n \<Longrightarrow> hid ! b = filter (\<lambda>e. ev_block (cfg_events g ! e) = b) ?h"
    using H(2) by (simp_all add: hidden_ok_def Let_def)
  from spread_loose_result [OF wf O(1)] obtain loose where
    L: "spread_loose (pred_rows g) esc = Some loose" "length loose = ?n" "marked loose = (?r\<inverse>)\<^sup>* `` marked esc" by blast
  from seg_blocks_result [OF continued_ok [OF wf]] obtain seg where
    S: "foldM (seg_block ?n ?c) (replicate ?n None) [0..<?n] = Some seg" "segments_ok ?c seg" "\<forall>b < ?n. seg ! b \<noteq> None" by blast
  let ?gaps = "foldl (add_gap (length (cfg_events g))) (replicate (length (cfg_events g)) EventGaps_default) (List.enumerate 0 (cfg_gaps g))"
  have seglen: "length seg = ?n" using S(2) by (simp add: segments_ok_def)
  have seg: "List.map_filter id seg = map the seg" using S(3) seglen by (intro map_filter_all) (metis in_set_conv_nth)
  let ?f = "\<lparr>cf_escapes = esc, cf_loose = map2 (\<or>) loose res, cf_throws = thr, cf_hidden = hid, cf_event_gaps = ?gaps, cf_segment = map the seg\<rparr>"
  have eq: "ControlFacts_of g (succ_rows g) (pred_rows g) = Some ?f"
    using E(1) H(1) L(1) S(1) mark_continues_result [OF wf] seg by (simp add: ControlFacts_of_def Let_def)
  have loose: "marked (map2 (\<or>) loose res) =
      {b. \<exists>x \<in> marked esc. (b, x) \<in> ?r\<^sup>*} \<union> {b. \<exists>x \<in> event_blocks g ?h. (x, b) \<in> ?r\<^sup>*}" "length (map2 (\<or>) loose res) = ?n"
    using L(2,3) O(2,5) by (auto simp: map2_marked rtrancl_converse)
  have hid: "set (hid ! b) = {e \<in> hidden_events g. ev_block (cfg_events g ! e) = b}" if "b < ?n" for b
    using O(6) [OF that] by (auto simp: set_hidden_transfer_events)
  have place: "map the seg ! b = (root, d)" if b: "b < ?n" "rooted ?c b root d" for b root d
  proof -
    obtain p where "seg ! b = Some p" using S(3) b(1) by blast
    then show ?thesis using segments_okD [OF S(2) _ _ b(2)] b(1) seglen by simp
  qed
  have gaps: "length ?gaps = length (cfg_events g)"
    "\<forall>e < length (cfg_events g). ?gaps ! e = gaps_over (List.enumerate 0 (cfg_gaps g)) e" using add_gaps_nth by blast+
  obtain f where f: "ControlFacts_of g (succ_rows g) (pred_rows g) = Some f" "cf_escapes f = esc" "cf_loose f = map2 (\<or>) loose res"
      "cf_throws f = thr" "cf_hidden f = hid" "cf_event_gaps f = ?gaps" "cf_segment f = map the seg" by (rule that [OF eq]) simp_all
  show ?thesis unfolding Let_def
  proof (intro exI [of _ f] conjI allI impI)
    show "cf_segment f ! b = (root, d)" if "b < ?n" "rooted ?c b root d" for b root d unfolding f(7) by (rule place [OF that])
    show "marked (cf_loose f) = {b. \<exists>x \<in> edge_sources Unsupported (cfg_edges g) \<union> event_blocks g ?h. (b, x) \<in> ?r\<^sup>*} \<union>
        {b. \<exists>x \<in> event_blocks g ?h. (x, b) \<in> ?r\<^sup>*}" using loose(1) unfolding f(3) O(4) E(4) .
    show "set (cf_hidden f ! b) = {e \<in> hidden_events g. ev_block (cfg_events g ! e) = b}" if "b < ?n" for b
      unfolding f(5) by (rule hid [OF that])
    show "cf_event_gaps f ! e = gaps_over (List.enumerate 0 (cfg_gaps g)) e" if "e < length (cfg_events g)" for e
      using gaps(2) that unfolding f(6) by blast
    show "length (cf_event_gaps f) = length (cfg_events g)" unfolding f(6) by (rule gaps(1))
    show "length (cf_loose f) = ?n" unfolding f(3) by (rule loose(2))
    show "length (cf_segment f) = ?n" using seglen unfolding f(7) by simp
  qed (simp_all add: f(1,2,4,5) E(3-5) O(1,3,4))
qed

text \<open>C11: \<open>ControlFacts::of\<close> returns on every well-formed graph, and its vectors mean what they say.
  A block escapes when an \<open>unsupported\<close> edge leaves it or one of its events lies under a gap that
  may hide a control transfer; it throws when an \<open>exception\<close> edge leaves it. It is loose exactly
  when it reaches an escaping block over the edges or is reached from the block of a hidden
  event. Each event carries the gaps over it, and each block its place below the root of the
  \<open>sequenced\<close> chain it continues.
\<close>

theorem control_facts_correct:
  assumes wf: "wf_cfg g"
  shows "\<exists>f. ControlFacts_of g (succ_rows g) (pred_rows g) = Some f \<and>
    (let n = length (cfg_blocks g); hit = event_blocks g (hidden_transfer_events g); esc = edge_sources Unsupported (cfg_edges g) \<union> hit in
      marked (cf_escapes f) = esc \<and> marked (cf_throws f) = edge_sources Exception (cfg_edges g) \<and>
      marked (cf_loose f) = {b. \<exists>x \<in> esc. (b, x) \<in> (block_rel g)\<^sup>*} \<union> {b. \<exists>x \<in> hit. (x, b) \<in> (block_rel g)\<^sup>*} \<and>
      length (cf_escapes f) = n \<and> length (cf_throws f) = n \<and> length (cf_loose f) = n \<and>
      length (cf_hidden f) = n \<and> (\<forall>b < n. set (cf_hidden f ! b) = {e \<in> hidden_events g. ev_block (cfg_events g ! e) = b}) \<and>
      length (cf_event_gaps f) = length (cfg_events g) \<and>
      (\<forall>e < length (cfg_events g). cf_event_gaps f ! e = gaps_over (List.enumerate 0 (cfg_gaps g)) e) \<and>
      length (cf_segment f) = n \<and>
      (\<forall>b < n. \<forall>root d. rooted (map (continued g) [0..<n]) b root d \<longrightarrow> cf_segment f ! b = (root, d)))"
  by (rule control_facts_result [OF assms])

theorem control_facts_correct_witness:
  "\<exists>f. ControlFacts_of diamond_cfg (succ_rows diamond_cfg) (pred_rows diamond_cfg) = Some f \<and>
     length (cf_loose f) = 4 \<and> marked (cf_throws f) = edge_sources Exception (cfg_edges diamond_cfg)"
proof -
  have n: "length (cfg_blocks diamond_cfg) = 4" by (simp add: diamond_cfg_def)
  from control_facts_correct [OF diamond_wf, unfolded Let_def n] show ?thesis by (elim exE conjE) (intro exI conjI)
qed

end
