(* ===== verification/Seq_Dominance.thy ===== *)
theory Seq_Dominance
  imports Seq_Search
begin

text \<open>
  Immediate dominators of a loaded graph (\<^verbatim>\<open>LoadedCfg::dominators\<close> and \<^verbatim>\<open>dominates\<close> of
  \<^verbatim>\<open>trace-db/src/inspect/sequence.rs\<close>), the iteration of Cooper, Harvey and Kennedy over a tree kept
  in one vector. Loops without an evident bound are partial functions to \<open>option\<close>; the
  theorems prove that they return. The argument that the iteration ends counts, along a path
  from the entry, the steps that go against the reverse postorder: after pass \<open>k\<close> the chain of
  a block stays within every path with fewer than \<open>k\<close> such steps, and never loses a true
  dominator, so after as many passes as there are blocks it is exact and nothing changes.
\<close>

section \<open>The operations\<close>

definition post_numbers :: "nat \<Rightarrow> nat list \<Rightarrow> nat list option" where
  "post_numbers n order = foldM (\<lambda>post (i, b). vset post b i) (replicate n usize_max) (List.enumerate 0 order)"

partial_function (option) climb :: "nat option list \<Rightarrow> nat list \<Rightarrow> nat \<Rightarrow> nat \<Rightarrow> nat option" where
  "climb idom post a b = do {
     pa \<leftarrow> vget post a;
     pb \<leftarrow> vget post b;
     if pa < pb then do { d \<leftarrow> vget idom a; up \<leftarrow> d; climb idom post up b } else Some a }"

partial_function (option) intersect :: "nat option list \<Rightarrow> nat list \<Rightarrow> nat \<Rightarrow> nat \<Rightarrow> nat option" where
  "intersect idom post a b =
     (if a = b then Some a
      else do { a' \<leftarrow> climb idom post a b; b' \<leftarrow> climb idom post b a'; intersect idom post a' b' })"

definition merge_pred :: "nat list \<Rightarrow> nat option list \<Rightarrow> nat option \<Rightarrow> nat \<Rightarrow> nat option option" where
  "merge_pred post idom acc p = do {
     d \<leftarrow> vget idom p;
     if d \<noteq> None then (case acc of None \<Rightarrow> Some (Some p) | Some q \<Rightarrow> map_option Some (intersect idom post p q))
     else Some acc }"

definition update_block ::
  "nat list list \<Rightarrow> nat list \<Rightarrow> nat option list \<times> bool \<Rightarrow> nat \<Rightarrow> (nat option list \<times> bool) option" where
  "update_block pred post st b = (case st of (idom, changed) \<Rightarrow> do {
     ps \<leftarrow> vget pred b;
     new \<leftarrow> foldM (merge_pred post idom) None ps;
     old \<leftarrow> vget idom b;
     if new \<noteq> None \<and> old \<noteq> new then Some (idom[b := new], True) else Some (idom, changed) })"

definition dom_pass :: "nat list list \<Rightarrow> nat list \<Rightarrow> nat list \<Rightarrow> nat option list \<Rightarrow> (nat option list \<times> bool) option" where
  "dom_pass pred post rpo idom = foldM (update_block pred post) (idom, False) (drop 1 rpo)"

partial_function (option) dom_iterate :: "nat list list \<Rightarrow> nat list \<Rightarrow> nat list \<Rightarrow> nat option list \<Rightarrow> nat option list option" where
  "dom_iterate pred post rpo idom = do {
     (idom', changed) \<leftarrow> dom_pass pred post rpo idom;
     if changed then dom_iterate pred post rpo idom' else Some idom' }"

record Dominance =
  dm_idom :: "nat option list"
  dm_normal :: "bool list"

definition normal_succ :: "FunctionCfg \<Rightarrow> nat list list option" where
  "normal_succ g = foldM (\<lambda>rows edge.
       if e_kind edge \<noteq> Exception then push_row rows (e_from edge) (e_to edge) else Some rows)
     (replicate (length (cfg_blocks g)) []) (cfg_edges g)"

definition dominators :: "FunctionCfg \<Rightarrow> nat list list \<Rightarrow> nat list list \<Rightarrow> Dominance option" where
  "dominators g succ pred = do {
     let n = length (cfg_blocks g);
     let entry = cfg_entry g;
     (order, _) \<leftarrow> postorder entry succ;
     post \<leftarrow> post_numbers n order;
     let rpo = rev order;
     idom \<leftarrow> vset (replicate n None) entry (Some entry);
     idom' \<leftarrow> dom_iterate pred post rpo idom;
     normal_rows \<leftarrow> normal_succ g;
     (_, normal) \<leftarrow> postorder entry normal_rows;
     Some \<lparr>dm_idom = idom', dm_normal = normal\<rparr> }"

partial_function (option) dominates :: "nat option list \<Rightarrow> nat \<Rightarrow> nat \<Rightarrow> bool option" where
  "dominates idom a at =
     (if at = a then Some True
      else do {
        d \<leftarrow> vget idom at;
        case d of
          None \<Rightarrow> Some False
        | Some up \<Rightarrow> if up \<noteq> at then dominates idom a up else Some False })"

section \<open>Paths and dominance\<close>

definition is_path :: "(nat \<times> nat) set \<Rightarrow> nat \<Rightarrow> nat list \<Rightarrow> bool" where
  "is_path r entry xs \<longleftrightarrow> xs \<noteq> [] \<and> hd xs = entry \<and> successively (\<lambda>x y. (x, y) \<in> r) xs"

definition doms :: "(nat \<times> nat) set \<Rightarrow> nat \<Rightarrow> nat \<Rightarrow> nat set" where
  "doms r entry x = {a. \<forall>xs. is_path r entry xs \<longrightarrow> last xs = x \<longrightarrow> a \<in> set xs}"

lemma is_path_snoc: "is_path r e (xs @ [y]) \<longleftrightarrow> (if xs = [] then y = e else is_path r e xs \<and> (last xs, y) \<in> r)"
  by (auto simp: is_path_def successively_append_iff)

lemma is_path_single [simp]: "is_path r e [x] \<longleftrightarrow> x = e"
  by (auto simp: is_path_def)

lemma is_path_prefix: "is_path r e (us @ b # vs) \<Longrightarrow> is_path r e (us @ [b])"
  using successively_append_iff [of "\<lambda>x y. (x, y) \<in> r" "us @ [b]" vs] by (cases us) (auto simp: is_path_def)

lemma is_path_join:
  "is_path r e us \<Longrightarrow> is_path r e (vs @ last us # ws) \<Longrightarrow> is_path r e (us @ ws) \<and> last (us @ ws) = last (vs @ last us # ws)"
  by (cases ws) (auto simp: is_path_def successively_append_iff successively_Cons)

lemma is_path_reach:
  assumes "is_path r e xs"
  shows "(e, last xs) \<in> r\<^sup>*"
  using assms
proof (induction xs rule: rev_induct)
  case (snoc x xs)
  then show ?case by (cases "xs = []") (auto simp: is_path_snoc intro: rtrancl_into_rtrancl)
qed (simp add: is_path_def)

lemma is_path_nodes:
  assumes "is_path r e xs" "x \<in> set xs"
  shows "(e, x) \<in> r\<^sup>*"
proof -
  from assms(2) obtain us vs where "xs = us @ x # vs" by (meson split_list)
  then have "is_path r e (us @ [x])" using assms(1) is_path_prefix by blast
  then show ?thesis using is_path_reach by fastforce
qed

lemma doms_self: "x \<in> doms r e x"
  by (auto simp: doms_def is_path_def)

lemma doms_pred:
  assumes "(p, b) \<in> r" "y \<in> doms r e b" "y \<noteq> b"
  shows "y \<in> doms r e p"
proof -
  have "y \<in> set xs" if "is_path r e xs" "last xs = p" for xs
  proof -
    have "xs \<noteq> []" using that(1) by (simp add: is_path_def)
    then have "is_path r e (xs @ [b])" using that assms(1) by (simp add: is_path_snoc)
    then show ?thesis using assms(2,3) by (fastforce simp: doms_def)
  qed
  then show ?thesis by (simp add: doms_def)
qed

text \<open>A path can be cut to one without repeats.\<close>

lemma simple_path:
  assumes "is_path r e xs"
  shows "\<exists>ys. is_path r e ys \<and> last ys = last xs \<and> distinct ys \<and> set ys \<subseteq> set xs"
  using assms
proof (induction "length xs" arbitrary: xs rule: less_induct)
  case less
  show ?case
  proof (cases "distinct xs")
    case False
    then obtain us a vs ws where xs: "xs = us @ [a] @ vs @ [a] @ ws" using not_distinct_decomp by blast
    let ?ys = "us @ [a] @ ws"
    have "is_path r e (us @ [a])" using less.prems xs is_path_prefix [of r e us a "vs @ [a] @ ws"] by simp
    from is_path_join [OF this, of "us @ [a] @ vs" ws] less.prems xs
    have "is_path r e ?ys" "last ?ys = last xs" by auto
    with less.hyps [of ?ys] xs show ?thesis by fastforce
  qed (use less.prems in blast)
qed

text \<open>The steps of a path that do not go down the postorder numbers.\<close>

fun retreats :: "(nat \<Rightarrow> nat) \<Rightarrow> nat list \<Rightarrow> nat" where
  "retreats num (x # y # ys) = (if num x \<le> num y then 1 else 0) + retreats num (y # ys)"
| "retreats num _ = 0"

lemma retreats_snoc:
  "retreats num (xs @ [y]) = retreats num xs + (if xs \<noteq> [] \<and> num (last xs) \<le> num y then 1 else 0)"
  by (induction num xs rule: retreats.induct) auto

lemma retreats_append_le: "retreats num (us @ [b]) \<le> retreats num (us @ b # vs)"
proof (induction vs rule: rev_induct)
  case (snoc v vs)
  have "retreats num (us @ b # vs @ [v]) \<ge> retreats num (us @ b # vs)"
    using retreats_snoc [of num "us @ b # vs" v] by simp
  with snoc show ?case by simp
qed simp

lemma retreats_length: "xs \<noteq> [] \<Longrightarrow> retreats num xs < length xs"
  by (induction num xs rule: retreats.induct) auto

lemma retreats_decreasing: "sorted_wrt (\<lambda>x y. num y < num x) xs \<Longrightarrow> retreats num xs = 0"
  by (induction num xs rule: retreats.induct) auto

section \<open>The tree in the vector\<close>

text \<open>
  \<open>rpo_ok\<close>: the blocks the entry reaches, numbered so that each but the entry has a predecessor
  before it.
\<close>

definition rpo_ok :: "(nat \<times> nat) set \<Rightarrow> nat \<Rightarrow> nat list list \<Rightarrow> nat list \<Rightarrow> nat list \<Rightarrow> bool" where
  "rpo_ok r entry pred post rpo \<longleftrightarrow>
     r \<subseteq> {..<length pred} \<times> {..<length pred} \<and> length post = length pred \<and>
     (\<forall>b < length pred. set (pred ! b) = {p. (p, b) \<in> r}) \<and>
     distinct rpo \<and> rpo \<noteq> [] \<and> hd rpo = entry \<and> set rpo = r\<^sup>* `` {entry} \<and> set rpo \<subseteq> {..<length pred} \<and>
     (\<forall>i < length rpo. post ! (rpo ! i) = length rpo - Suc i) \<and>
     (\<forall>i < length rpo. 0 < i \<longrightarrow> (\<exists>u. (u, rpo ! i) \<in> r \<and> u \<in> set (take i rpo)))"

lemma rpo_okD:
  assumes "rpo_ok r entry pred post rpo"
  shows "(p, b) \<in> r \<Longrightarrow> p < length pred \<and> b < length pred" "length post = length pred"
    "b < length pred \<Longrightarrow> set (pred ! b) = {p. (p, b) \<in> r}" "distinct rpo" "rpo \<noteq> []" "hd rpo = entry"
    "set rpo = r\<^sup>* `` {entry}" "b \<in> set rpo \<Longrightarrow> b < length pred"
    "i < length rpo \<Longrightarrow> post ! (rpo ! i) = length rpo - Suc i"
    "i < length rpo \<Longrightarrow> 0 < i \<Longrightarrow> \<exists>u. (u, rpo ! i) \<in> r \<and> u \<in> set (take i rpo)"
    "entry \<in> set rpo"
proof -
  show "(p, b) \<in> r \<Longrightarrow> p < length pred \<and> b < length pred" "b \<in> set rpo \<Longrightarrow> b < length pred"
    using assms unfolding rpo_ok_def by blast+
  show "hd rpo = entry" "rpo \<noteq> []" using assms unfolding rpo_ok_def by blast+
  then show "entry \<in> set rpo" by auto
qed (use assms in \<open>simp_all add: rpo_ok_def\<close>)

lemma rpo_post_less:
  assumes "rpo_ok r entry pred post rpo" "i < length rpo" "j < length rpo"
  shows "post ! (rpo ! i) < post ! (rpo ! j) \<longleftrightarrow> j < i"
  using rpo_okD(9) [OF assms(1)] assms(2,3) by auto

lemma rpo_post_inj:
  assumes "rpo_ok r entry pred post rpo" "a \<in> set rpo" "b \<in> set rpo" "post ! a = post ! b"
  shows "a = b"
proof -
  from assms(2,3) obtain i j where "i < length rpo" "a = rpo ! i" "j < length rpo" "b = rpo ! j"
    by (metis in_set_conv_nth)
  with assms(4) rpo_okD(9) [OF assms(1)] show ?thesis by (metis Suc_diff_Suc diff_Suc_eq_diff_pred diff_diff_cancel less_imp_le_nat nat.inject)
qed

lemma rpo_post_bound:
  assumes "rpo_ok r entry pred post rpo" "a \<in> set rpo"
  shows "post ! a < length rpo" "post ! a \<le> post ! entry" "a \<noteq> entry \<Longrightarrow> post ! a < post ! entry"
proof -
  from assms(2) obtain i where i: "i < length rpo" "a = rpo ! i" by (metis in_set_conv_nth)
  have e: "entry = rpo ! 0" "0 < length rpo" using rpo_okD(5,6) [OF assms(1)] by (auto simp: hd_conv_nth)
  show "post ! a < length rpo" using rpo_okD(9) [OF assms(1) i(1)] i by auto
  show "post ! a \<le> post ! entry" using rpo_okD(9) [OF assms(1)] i e by auto
  show "post ! a < post ! entry" if "a \<noteq> entry"
    using rpo_post_less [OF assms(1) i(1) e(2)] that i e by (cases i) auto
qed

definition tree_ok :: "nat set \<Rightarrow> nat \<Rightarrow> nat list \<Rightarrow> nat \<Rightarrow> nat option list \<Rightarrow> bool" where
  "tree_ok nodes entry post n idom \<longleftrightarrow> length idom = n \<and> idom ! entry = Some entry \<and> nodes \<subseteq> {..<n} \<and> entry \<in> nodes \<and>
     (\<forall>b < n. \<forall>d. idom ! b = Some d \<longrightarrow> b \<in> nodes \<and> d \<in> nodes \<and> idom ! d \<noteq> None \<and> (b \<noteq> entry \<longrightarrow> post ! b < post ! d))"

lemma tree_okD:
  assumes "tree_ok nodes entry post n idom"
  shows "length idom = n" "idom ! entry = Some entry" "b \<in> nodes \<Longrightarrow> b < n" "entry \<in> nodes"
    "b < n \<Longrightarrow> idom ! b = Some d \<Longrightarrow> b \<in> nodes" "b < n \<Longrightarrow> idom ! b = Some d \<Longrightarrow> d \<in> nodes"
    "b < n \<Longrightarrow> idom ! b = Some d \<Longrightarrow> idom ! d \<noteq> None"
    "b < n \<Longrightarrow> idom ! b = Some d \<Longrightarrow> b \<noteq> entry \<Longrightarrow> post ! b < post ! d"
  using assms unfolding tree_ok_def by blast+

definition up :: "nat option list \<Rightarrow> (nat \<times> nat) set" where
  "up idom = {(b, d). b < length idom \<and> idom ! b = Some d \<and> d \<noteq> b}"

definition anc :: "nat option list \<Rightarrow> nat \<Rightarrow> nat set" where
  "anc idom b = (up idom)\<^sup>* `` {b}"

lemma up_single: "single_valued (up idom)"
  by (auto simp: single_valued_def up_def)

lemma anc_refl [simp]: "b \<in> anc idom b"
  by (simp add: anc_def)

lemma anc_trans: "c \<in> anc idom b \<Longrightarrow> b \<in> anc idom a \<Longrightarrow> c \<in> anc idom a"
  by (auto simp: anc_def)

lemma anc_linear: "a \<in> anc idom b \<Longrightarrow> c \<in> anc idom b \<Longrightarrow> c \<in> anc idom a \<or> a \<in> anc idom c"
  using single_valued_confluent [OF up_single, of b a idom c] by (auto simp: anc_def)

lemma anc_step:
  assumes "b < length idom" "idom ! b = Some d" "d \<noteq> b"
  shows "anc idom b = insert b (anc idom d)"
proof -
  have "(b, x) \<in> up idom \<longleftrightarrow> x = d" for x using assms by (auto simp: up_def)
  then show ?thesis by (auto simp: anc_def elim: converse_rtranclE intro: converse_rtrancl_into_rtrancl)
qed

lemma anc_entry: "idom ! b = Some b \<or> idom ! b = None \<Longrightarrow> anc idom b = {b}"
  by (auto simp: anc_def up_def elim: converse_rtranclE)

lemma anc_above:
  assumes t: "tree_ok nodes entry post n idom" and "a \<in> anc idom b" "b < n" "idom ! b \<noteq> None"
  shows "a < n \<and> idom ! a \<noteq> None \<and> (a = b \<or> post ! b < post ! a)"
proof -
  have "(b, a) \<in> (up idom)\<^sup>*" using assms(2) by (simp add: anc_def)
  then show ?thesis
  proof (induction rule: rtrancl_induct)
    case (step x y)
    then have x: "x < n" "idom ! x = Some y" "y \<noteq> x" using tree_okD(1) [OF t] by (auto simp: up_def)
    then have "x \<noteq> entry" using tree_okD(2) [OF t] by auto
    with tree_okD(3,6,7,8) [OF t] x step.IH show ?case by fastforce
  qed (use assms in auto)
qed

lemma anc_post_le:
  assumes "tree_ok nodes entry post n idom" "a \<in> anc idom b" "b < n" "idom ! b \<noteq> None"
  shows "post ! b \<le> post ! a"
  using anc_above [OF assms] by auto

section \<open>Climbing and intersecting\<close>

text \<open>\<open>setting\<close>: the numbering of a graph and a tree over the blocks it reaches.\<close>

definition setting :: "(nat \<times> nat) set \<Rightarrow> nat \<Rightarrow> nat list list \<Rightarrow> nat list \<Rightarrow> nat list \<Rightarrow> nat option list \<Rightarrow> bool" where
  "setting r entry pred post rpo idom \<longleftrightarrow>
     rpo_ok r entry pred post rpo \<and> tree_ok (set rpo) entry post (length pred) idom"

lemma settingD:
  assumes "setting r entry pred post rpo idom"
  shows "rpo_ok r entry pred post rpo" "tree_ok (set rpo) entry post (length pred) idom"
  using assms by (simp_all add: setting_def)

lemma entry_in_anc:
  assumes s: "setting r entry pred post rpo idom" and "b < length pred" "idom ! b \<noteq> None"
  shows "entry \<in> anc idom b"
  using assms(2,3)
proof (induction "length rpo - post ! b" arbitrary: b rule: less_induct)
  case less
  note t = settingD(2) [OF s] and o' = settingD(1) [OF s]
  show ?case
  proof (cases "b = entry")
    case False
    from less.prems obtain d where d: "idom ! b = Some d" by auto
    have up: "post ! b < post ! d" "d \<in> set rpo" "idom ! d \<noteq> None" "d < length pred"
      using tree_okD(3,6,7,8) [OF t] less.prems(1) d False by auto
    then have "entry \<in> anc idom d" using less.hyps [of d] rpo_post_bound(1) [OF o'] by fastforce
    moreover have "d \<noteq> b" using up(1) by auto
    ultimately show ?thesis using anc_step [of b idom d] d less.prems(1) tree_okD(1) [OF t] by simp
  qed simp
qed

lemma climb_result:
  assumes s: "setting r entry pred post rpo idom" and b: "b < length pred" "idom ! b \<noteq> None"
    and "a < length pred" "idom ! a \<noteq> None"
  shows "\<exists>c. climb idom post a b = Some c \<and> c \<in> anc idom a \<and> post ! b \<le> post ! c \<and>
    (\<forall>x \<in> anc idom a. post ! b \<le> post ! x \<longrightarrow> x \<in> anc idom c)"
  using assms(4,5)
proof (induction "length rpo - post ! a" arbitrary: a rule: less_induct)
  case less
  note t = settingD(2) [OF s] and o' = settingD(1) [OF s]
  have len: "length post = length pred" "length idom = length pred" using rpo_okD(2) [OF o'] tree_okD(1) [OF t] by auto
  obtain db where "idom ! b = Some db" using b(2) by auto
  then have bin: "b \<in> set rpo" using tree_okD(5) [OF t b(1)] by simp
  show ?case
  proof (cases "post ! a < post ! b")
    case True
    have ne: "a \<noteq> entry" using True rpo_post_bound(2) [OF o' bin] by auto
    from less.prems obtain d where d: "idom ! a = Some d" by auto
    have up: "post ! a < post ! d" "d \<in> set rpo" "idom ! d \<noteq> None" "d < length pred"
      using tree_okD(3,6,7,8) [OF t] less.prems(1) d ne by auto
    from less.hyps [of d] up rpo_post_bound(1) [OF o' up(2)] obtain c where
      c: "climb idom post d b = Some c" "c \<in> anc idom d" "post ! b \<le> post ! c"
        "\<forall>x \<in> anc idom d. post ! b \<le> post ! x \<longrightarrow> x \<in> anc idom c" by fastforce
    have "anc idom a = insert a (anc idom d)" using anc_step [of a idom d] d up(1) less.prems(1) len by auto
    moreover have "climb idom post a b = climb idom post d b"
      using True d less.prems(1) b(1) len by (subst climb.simps) (simp add: vec_simps)
    ultimately show ?thesis using c True by auto
  next
    case False
    then have "climb idom post a b = Some a"
      using less.prems(1) b(1) len by (subst climb.simps) (simp add: vec_simps)
    with False show ?thesis by auto
  qed
qed

lemma intersect_result:
  assumes s: "setting r entry pred post rpo idom" and "a < length pred" "idom ! a \<noteq> None" "b < length pred" "idom ! b \<noteq> None"
  shows "\<exists>c. intersect idom post a b = Some c \<and> anc idom c = anc idom a \<inter> anc idom b"
  using assms(2-)
proof (induction "(length rpo - post ! a) + (length rpo - post ! b)" arbitrary: a b rule: less_induct)
  case less
  note t = settingD(2) [OF s] and o' = settingD(1) [OF s]
  have inset: "x \<in> set rpo" if "x < length pred" "idom ! x \<noteq> None" for x using that tree_okD(5) [OF t] by blast
  show ?case
  proof (cases "a = b")
    case True
    then show ?thesis by (subst intersect.simps) simp
  next
    case False
    from climb_result [OF s less.prems(3,4,1,2)] obtain a' where
      a': "climb idom post a b = Some a'" "a' \<in> anc idom a" "post ! b \<le> post ! a'"
        "\<forall>x \<in> anc idom a. post ! b \<le> post ! x \<longrightarrow> x \<in> anc idom a'" by blast
    have pa: "a' < length pred" "idom ! a' \<noteq> None" "post ! a \<le> post ! a'"
      using anc_above [OF t a'(2) less.prems(1,2)] by auto
    from climb_result [OF s pa(1,2) less.prems(3,4)] obtain b' where
      b': "climb idom post b a' = Some b'" "b' \<in> anc idom b" "post ! a' \<le> post ! b'"
        "\<forall>x \<in> anc idom b. post ! a' \<le> post ! x \<longrightarrow> x \<in> anc idom b'" by blast
    have pb: "b' < length pred" "idom ! b' \<noteq> None" "post ! b \<le> post ! b'"
      using anc_above [OF t b'(2) less.prems(3,4)] by auto
    have "anc idom a' \<inter> anc idom b = anc idom a \<inter> anc idom b"
      using a'(2,4) anc_post_le [OF t _ less.prems(3,4)] anc_trans by blast
    moreover have "anc idom a' \<inter> anc idom b' = anc idom a' \<inter> anc idom b"
      using b'(2,4) anc_post_le [OF t _ pa(1,2)] anc_trans by blast
    moreover have "post ! a \<noteq> post ! b" using rpo_post_inj [OF o' inset inset] less.prems False by blast
    then have "(length rpo - post ! a') + (length rpo - post ! b') < (length rpo - post ! a) + (length rpo - post ! b)"
      using a'(3) b'(3) pa(3) pb(3) rpo_post_bound(1) [OF o' inset [OF pa(1,2)]] rpo_post_bound(1) [OF o' inset [OF pb(1,2)]]
      by arith
    from less.hyps [OF this pa(1,2) pb(1,2)] obtain c where
      "intersect idom post a' b' = Some c" "anc idom c = anc idom a' \<inter> anc idom b'" by blast
    moreover have "intersect idom post a b = intersect idom post a' b'"
      using False a'(1) b'(1) by (subst intersect.simps) simp
    ultimately show ?thesis by auto
  qed
qed

text \<open>Merging the predecessors that have a dominator intersects their chains.\<close>

lemma merge_preds:
  assumes s: "setting r entry pred post rpo idom" and ps: "\<And>p. p \<in> set ps \<Longrightarrow> p < length pred"
  shows "\<exists>acc. foldM (merge_pred post idom) None ps = Some acc \<and>
    (case acc of None \<Rightarrow> \<forall>p \<in> set ps. idom ! p = None
     | Some c \<Rightarrow> c < length pred \<and> idom ! c \<noteq> None \<and> (\<exists>p \<in> set ps. idom ! p \<noteq> None) \<and>
         anc idom c = (\<Inter>p \<in> {p \<in> set ps. idom ! p \<noteq> None}. anc idom p))"
proof (rule foldM_prefix_rule [where I = "\<lambda>qs acc. case acc of None \<Rightarrow> \<forall>p \<in> set qs. idom ! p = None
     | Some c \<Rightarrow> c < length pred \<and> idom ! c \<noteq> None \<and> (\<exists>p \<in> set qs. idom ! p \<noteq> None) \<and>
         anc idom c = (\<Inter>p \<in> {p \<in> set qs. idom ! p \<noteq> None}. anc idom p)"])
  note t = settingD(2) [OF s]
  fix qs p acc
  assume inv: "case acc of None \<Rightarrow> \<forall>p \<in> set qs. idom ! p = None
     | Some c \<Rightarrow> c < length pred \<and> idom ! c \<noteq> None \<and> (\<exists>p \<in> set qs. idom ! p \<noteq> None) \<and>
         anc idom c = (\<Inter>p \<in> {p \<in> set qs. idom ! p \<noteq> None}. anc idom p)" and p: "p \<in> set ps"
  have lp: "p < length pred" "p < length idom" using ps [OF p] tree_okD(1) [OF t] by auto
  let ?J = "\<lambda>t. case t of None \<Rightarrow> \<forall>x \<in> set (qs @ [p]). idom ! x = None
     | Some c \<Rightarrow> c < length pred \<and> idom ! c \<noteq> None \<and> (\<exists>x \<in> set (qs @ [p]). idom ! x \<noteq> None) \<and>
         anc idom c = (\<Inter>x \<in> {x \<in> set (qs @ [p]). idom ! x \<noteq> None}. anc idom x)"
  show "\<exists>t. merge_pred post idom acc p = Some t \<and> ?J t"
  proof (cases "idom ! p")
    case None
    then have same: "{q \<in> set (qs @ [p]). idom ! q \<noteq> None} = {q \<in> set qs. idom ! q \<noteq> None}" by auto
    have "?J acc"
    proof (cases acc)
      case (Some c)
      with inv have q: "c < length pred" "idom ! c \<noteq> None" "\<exists>p \<in> set qs. idom ! p \<noteq> None"
        "anc idom c = (\<Inter>p \<in> {p \<in> set qs. idom ! p \<noteq> None}. anc idom p)" by simp_all
      have "\<exists>q \<in> set (qs @ [p]). idom ! q \<noteq> None" using q(3) by auto
      with q(1,2,4) show ?thesis unfolding Some option.case same by (intro conjI)
    qed (use inv None in auto)
    moreover have "merge_pred post idom acc p = Some acc" using None lp by (simp add: merge_pred_def vec_simps)
    ultimately show ?thesis by blast
  next
    case (Some d)
    then have split: "{q \<in> set (qs @ [p]). idom ! q \<noteq> None} = insert p {q \<in> set qs. idom ! q \<noteq> None}" by auto
    show ?thesis
    proof (cases acc)
      case None
      then have "{q \<in> set qs. idom ! q \<noteq> None} = {}" using inv by auto
      with Some None lp split show ?thesis by (auto simp: merge_pred_def vec_simps)
    next
      case acc: (Some q)
      from inv acc have q: "q < length pred" "idom ! q \<noteq> None"
        "anc idom q = (\<Inter>p \<in> {p \<in> set qs. idom ! p \<noteq> None}. anc idom p)" by auto
      from intersect_result [OF s lp(1) _ q(1,2)] Some obtain c where
        c: "intersect idom post p q = Some c" "anc idom c = anc idom p \<inter> anc idom q" by auto
      have "c \<in> anc idom p" using c(2) anc_refl [of c idom] by blast
      then have "c < length pred" "idom ! c \<noteq> None" using anc_above [OF t _ lp(1)] Some by auto
      with c acc lp Some split q(3) show ?thesis by (auto simp: merge_pred_def vec_simps)
    qed
  qed
qed simp

section \<open>One update\<close>

lemma up_update: "y \<noteq> b \<Longrightarrow> (y, z) \<in> up (idom[b := v]) \<longleftrightarrow> (y, z) \<in> up idom"
  by (simp add: up_def)

lemma anc_update_off:
  assumes "b \<notin> anc idom x"
  shows "anc (idom[b := v]) x = anc idom x"
proof -
  have "(x, y) \<in> (up idom)\<^sup>*" if "(x, y) \<in> (up (idom[b := v]))\<^sup>*" for y
    using that
  proof (induction rule: rtrancl_induct)
    case (step y z)
    then have "y \<noteq> b" using assms by (auto simp: anc_def)
    with step up_update show ?case by (metis rtrancl_into_rtrancl)
  qed simp
  moreover have "(x, y) \<in> (up (idom[b := v]))\<^sup>*" if "(x, y) \<in> (up idom)\<^sup>*" for y
    using that
  proof (induction rule: rtrancl_induct)
    case (step y z)
    then have "y \<noteq> b" using assms by (auto simp: anc_def)
    with step up_update show ?case by (metis rtrancl_into_rtrancl)
  qed simp
  ultimately show ?thesis by (auto simp: anc_def)
qed

lemma anc_update_sub:
  assumes "b < length idom" "c \<noteq> b" "b \<notin> anc idom c" "y \<in> anc (idom[b := Some c]) x"
  shows "y \<in> anc idom x \<or> b \<in> anc idom x \<and> y \<in> anc idom c"
proof -
  have "(x, y) \<in> (up (idom[b := Some c]))\<^sup>*" using assms(4) by (simp add: anc_def)
  then show ?thesis
  proof (induction rule: rtrancl_induct)
    case (step y z)
    show ?case
    proof (cases "y = b")
      case True
      with step.hyps(2) assms(1,2) have "z = c" by (auto simp: up_def)
      with True step.IH assms(3) show ?thesis by auto
    next
      case False
      with step.hyps(2) have "(y, z) \<in> up idom" by (simp add: up_update)
      then have "z \<in> anc idom y" by (auto simp: anc_def)
      with step.IH anc_trans show ?thesis by metis
    qed
  qed simp
qed

lemma anc_update_keep:
  assumes t: "tree_ok nodes entry post n idom" and x: "x < n" "idom ! x \<noteq> None" and y: "y \<in> anc idom x"
  shows "y \<in> anc (idom[b := v]) x \<or> b \<in> anc idom x \<and> b \<in> anc (idom[b := v]) x \<and> y \<in> anc idom b \<and> y \<noteq> b"
proof -
  have "(x, y) \<in> (up idom)\<^sup>*" using y by (simp add: anc_def)
  then show ?thesis
  proof (induction rule: rtrancl_induct)
    case (step y z)
    have yx: "y \<in> anc idom x" and zy: "z \<in> anc idom y" "z \<noteq> y" using step.hyps by (auto simp: anc_def up_def)
    consider (a) "y \<in> anc (idom[b := v]) x" "y \<noteq> b" | (b) "y \<in> anc (idom[b := v]) x" "y = b"
      | (c) "b \<in> anc idom x" "b \<in> anc (idom[b := v]) x" "y \<in> anc idom b" "y \<noteq> b" using step.IH by blast
    then show ?case
    proof cases
      case a
      then have "(y, z) \<in> up (idom[b := v])" using step.hyps(2) by (simp add: up_update)
      with a(1) show ?thesis by (auto simp: anc_def intro: rtrancl_into_rtrancl)
    next
      case b
      with yx zy show ?thesis by auto
    next
      case c
      have "b < n" "idom ! b \<noteq> None" using anc_above [OF t c(1) x] by auto
      from anc_above [OF t c(3) this] c(4) have py: "y < n" "idom ! y \<noteq> None" "post ! b < post ! y" by auto
      from anc_post_le [OF t zy(1) py(1,2)] py(3) have "z \<noteq> b" by auto
      with c zy anc_trans show ?thesis by metis
    qed
  qed simp
qed

section \<open>The invariant of the iteration\<close>

definition converging ::
  "(nat \<times> nat) set \<Rightarrow> nat \<Rightarrow> nat list list \<Rightarrow> nat list \<Rightarrow> nat list \<Rightarrow> (nat \<Rightarrow> nat) \<Rightarrow> nat option list \<Rightarrow> bool" where
  "converging r entry pred post rpo level idom \<longleftrightarrow> setting r entry pred post rpo idom \<and>
     (\<forall>x \<in> set rpo. x \<noteq> entry \<longrightarrow> (idom ! x \<noteq> None \<longleftrightarrow> 0 < level x)) \<and>
     (\<forall>x \<in> set rpo. idom ! x \<noteq> None \<longrightarrow> doms r entry x \<subseteq> anc idom x) \<and>
     (\<forall>x \<in> set rpo. x \<noteq> entry \<longrightarrow> (\<forall>xs. is_path r entry xs \<longrightarrow> last xs = x \<longrightarrow>
        retreats (nth post) xs < level x \<longrightarrow> anc idom x \<subseteq> set xs))"

lemma convergingD:
  assumes "converging r entry pred post rpo level idom"
  shows "setting r entry pred post rpo idom"
    "x \<in> set rpo \<Longrightarrow> x \<noteq> entry \<Longrightarrow> idom ! x \<noteq> None \<longleftrightarrow> 0 < level x"
    "x \<in> set rpo \<Longrightarrow> idom ! x \<noteq> None \<Longrightarrow> y \<in> doms r entry x \<Longrightarrow> y \<in> anc idom x"
    "x \<in> set rpo \<Longrightarrow> x \<noteq> entry \<Longrightarrow> is_path r entry xs \<Longrightarrow> last xs = x \<Longrightarrow> retreats (nth post) xs < level x \<Longrightarrow>
      y \<in> anc idom x \<Longrightarrow> y \<in> set xs"
  using assms unfolding converging_def by blast+

text \<open>Every reached block has a path that only goes down the numbers.\<close>

lemma tree_path:
  assumes o': "rpo_ok r entry pred post rpo" and "i < length rpo"
  shows "\<exists>xs. is_path r entry xs \<and> last xs = rpo ! i \<and> sorted_wrt (\<lambda>x y. post ! y < post ! x) xs"
  using assms(2)
proof (induction i rule: less_induct)
  case (less i)
  show ?case
  proof (cases "i = 0")
    case True
    then have "rpo ! i = entry" using rpo_okD(5,6) [OF o'] by (simp add: hd_conv_nth)
    then show ?thesis by (intro exI [of _ "[entry]"]) simp
  next
    case False
    from rpo_okD(10) [OF o' less.prems] False obtain u where u: "(u, rpo ! i) \<in> r" "u \<in> set (take i rpo)" by auto
    then obtain j where j: "j < i" "rpo ! j = u" "j < length rpo" by (auto dest: in_set_take_less)
    from less.IH [OF j(1,3)] obtain xs where
      xs: "is_path r entry xs" "last xs = u" "sorted_wrt (\<lambda>x y. post ! y < post ! x) xs" using j(2) by auto
    have ne: "xs \<noteq> []" using xs(1) by (simp add: is_path_def)
    have lt: "post ! (rpo ! i) < post ! u" using rpo_post_less [OF o' less.prems j(3)] j by simp
    have "post ! (rpo ! i) < post ! x" if "x \<in> set xs" for x
    proof -
      have "xs = butlast xs @ [u]" using ne xs(2) by (metis append_butlast_last_id)
      with xs(3) have "\<forall>x \<in> set (butlast xs). post ! u < post ! x" by (metis sorted_wrt_append list.set_intros(1))
      with that lt \<open>xs = butlast xs @ [u]\<close> show ?thesis by (metis Un_iff empty_iff insert_iff less_trans list.set(1) list.simps(15) set_append)
    qed
    then have "sorted_wrt (\<lambda>x y. post ! y < post ! x) (xs @ [rpo ! i])" using xs(3) by (simp add: sorted_wrt_append)
    moreover have "is_path r entry (xs @ [rpo ! i])" using xs u(1) ne by (simp add: is_path_snoc)
    ultimately show ?thesis by (intro exI [of _ "xs @ [rpo ! i]"]) simp
  qed
qed

definition level_at :: "nat list \<Rightarrow> nat \<Rightarrow> nat \<Rightarrow> nat \<Rightarrow> nat" where
  "level_at rpo k i x = (if x \<in> set (take i rpo) then Suc k else k)"

text \<open>
  \<open>chosen\<close>: the block at position \<open>i\<close> of a pass and the dominator its predecessors give it.
\<close>

definition chosen ::
  "(nat \<times> nat) set \<Rightarrow> nat \<Rightarrow> nat list list \<Rightarrow> nat list \<Rightarrow> nat list \<Rightarrow> nat \<Rightarrow> nat \<Rightarrow> nat option list \<Rightarrow> nat \<Rightarrow> nat \<Rightarrow> bool" where
  "chosen r entry pred post rpo k i idom b c \<longleftrightarrow>
     converging r entry pred post rpo (level_at rpo k i) idom \<and> 0 < i \<and> i < length rpo \<and> b = rpo ! i \<and>
     c < length pred \<and> idom ! c \<noteq> None \<and>
     anc idom c = (\<Inter>p \<in> {p. (p, b) \<in> r \<and> idom ! p \<noteq> None}. anc idom p)"

lemma chosen_facts:
  assumes "chosen r entry pred post rpo k i idom b c"
  shows "setting r entry pred post rpo idom" "b \<in> set rpo" "b < length pred" "b \<noteq> entry" "c \<in> set rpo"
    "post ! b < post ! c" "c \<noteq> b" "b \<notin> anc idom c" "length idom = length pred"
    "\<And>p. (p, b) \<in> r \<Longrightarrow> idom ! p \<noteq> None \<Longrightarrow> anc idom c \<subseteq> anc idom p"
proof -
  from assms have cv: "converging r entry pred post rpo (level_at rpo k i) idom" and i: "0 < i" "i < length rpo" "b = rpo ! i"
    and c: "c < length pred" "idom ! c \<noteq> None" "anc idom c = (\<Inter>p \<in> {p. (p, b) \<in> r \<and> idom ! p \<noteq> None}. anc idom p)"
    by (auto simp: chosen_def)
  note s = convergingD(1) [OF cv]
  note o' = settingD(1) [OF s] and t = settingD(2) [OF s]
  show "setting r entry pred post rpo idom" by (rule s)
  show bin: "b \<in> set rpo" using i by simp
  then show "b < length pred" using rpo_okD(8) [OF o'] by blast
  have e0: "entry = rpo ! 0" using rpo_okD(5,6) [OF o'] by (simp add: hd_conv_nth)
  then show "b \<noteq> entry" using i rpo_okD(4,5) [OF o'] nth_eq_iff_index_eq [of rpo i 0] by auto
  show "length idom = length pred" using tree_okD(1) [OF t] .
  show cin: "c \<in> set rpo" using c tree_okD(5) [OF t] by blast
  from rpo_okD(10) [OF o' i(2,1)] obtain u where u: "(u, b) \<in> r" "u \<in> set (take i rpo)" using i(3) by auto
  then obtain j where j: "j < i" "rpo ! j = u" by (auto dest: in_set_take_less)
  have "u \<in> set rpo" using u(2) by (rule in_set_takeD)
  then have proc: "idom ! u \<noteq> None"
    using convergingD(2) [OF cv, of u] u(2) tree_okD(2) [OF t] by (cases "u = entry") (auto simp: level_at_def)
  show sub: "\<And>p. (p, b) \<in> r \<Longrightarrow> idom ! p \<noteq> None \<Longrightarrow> anc idom c \<subseteq> anc idom p" unfolding c(3) by blast
  then have "c \<in> anc idom u" using u(1) proc anc_refl by blast
  then have "post ! u \<le> post ! c" using anc_post_le [OF t] rpo_okD(8) [OF o' \<open>u \<in> set rpo\<close>] proc by blast
  then show lt: "post ! b < post ! c" using rpo_post_less [OF o' i(2), of j] i j by simp
  then show "c \<noteq> b" by auto
  show "b \<notin> anc idom c" using anc_post_le [OF t _ c(1,2)] lt by fastforce
qed

lemma chosen_anc:
  assumes "chosen r entry pred post rpo k i idom b c"
  shows "anc (idom[b := Some c]) b = insert b (anc idom c)"
  using anc_step [of b "idom[b := Some c]" c] chosen_facts [OF assms] anc_update_off [of b idom c] by simp

lemma chosen_tree:
  assumes "chosen r entry pred post rpo k i idom b c"
  shows "setting r entry pred post rpo (idom[b := Some c])"
proof -
  note F = chosen_facts [OF assms]
  note t = settingD(2) [OF F(1)]
  have "c < length pred" "idom ! c \<noteq> None" using assms by (auto simp: chosen_def)
  then have "tree_ok (set rpo) entry post (length pred) (idom[b := Some c])"
    using t F unfolding tree_ok_def by (auto simp: nth_list_update)
  then show ?thesis using settingD(1) [OF F(1)] by (simp add: setting_def)
qed

lemma chosen_doms_self:
  assumes "chosen r entry pred post rpo k i idom b c" "y \<in> doms r entry b" "y \<noteq> b"
  shows "y \<in> anc idom c"
proof -
  have cv: "converging r entry pred post rpo (level_at rpo k i) idom"
    and c: "anc idom c = (\<Inter>p \<in> {p. (p, b) \<in> r \<and> idom ! p \<noteq> None}. anc idom p)" using assms(1) by (auto simp: chosen_def)
  note F = chosen_facts [OF assms(1)]
  note t = settingD(2) [OF F(1)] and o' = settingD(1) [OF F(1)]
  have "y \<in> anc idom p" if "(p, b) \<in> r" "idom ! p \<noteq> None" for p
  proof -
    have "p \<in> set rpo" using that tree_okD(5) [OF t] rpo_okD(1) [OF o'] by blast
    then show ?thesis using convergingD(3) [OF cv] that doms_pred [OF that(1) assms(2,3)] by blast
  qed
  then show ?thesis unfolding c by blast
qed

lemma chosen_doms:
  assumes ch: "chosen r entry pred post rpo k i idom b c"
    and x: "x \<in> set rpo" "idom[b := Some c] ! x \<noteq> None" and y: "y \<in> doms r entry x"
  shows "y \<in> anc (idom[b := Some c]) x"
proof (cases "x = b")
  case True
  then show ?thesis using chosen_doms_self [OF ch] y chosen_anc [OF ch] by (cases "y = b") auto
next
  case False
  let ?idom = "idom[b := Some c]"
  have cv: "converging r entry pred post rpo (level_at rpo k i) idom" using ch by (simp add: chosen_def)
  note F = chosen_facts [OF ch]
  note t = settingD(2) [OF F(1)] and o' = settingD(1) [OF F(1)]
  have px: "idom ! x \<noteq> None" "x < length pred" using x False tree_okD(3) [OF t] by auto
  have "y \<in> anc idom x" using convergingD(3) [OF cv x(1) px(1) y] .
  from anc_update_keep [OF t px(2,1) this, of b "Some c"] show ?thesis
  proof
    assume b: "b \<in> anc idom x \<and> b \<in> anc ?idom x \<and> y \<in> anc idom b \<and> y \<noteq> b"
    show ?thesis
    proof (cases "y \<in> anc idom c")
      case True
      then show ?thesis using chosen_anc [OF ch] b anc_trans by blast
    next
      case no: False
      then have "y \<notin> doms r entry b" using chosen_doms_self [OF ch] b by blast
      then obtain zs where zs: "is_path r entry zs" "last zs = b" "y \<notin> set zs" by (auto simp: doms_def)
      have "x \<noteq> entry" using b anc_entry [of idom entry] tree_okD(2) [OF t] F(4) by auto
      obtain j where "j < length rpo" "x = rpo ! j" using x(1) by (metis in_set_conv_nth)
      with tree_path [OF o'] obtain xs where
        xs: "is_path r entry xs" "last xs = x" "sorted_wrt (\<lambda>x y. post ! y < post ! x) xs" by blast
      have "0 < level_at rpo k i x" using convergingD(2) [OF cv x(1) \<open>x \<noteq> entry\<close>] px by blast
      then have "b \<in> set xs"
        using convergingD(4) [OF cv x(1) \<open>x \<noteq> entry\<close> xs(1,2)] retreats_decreasing [OF xs(3)] b by simp
      then obtain us ws where split: "xs = us @ b # ws" by (meson split_list)
      have "idom ! b \<noteq> None" using anc_above [OF t _ px(2,1)] b by blast
      then have "post ! b < post ! y" using anc_above [OF t _ F(3)] b by blast
      then have "y \<notin> set ws" using xs(3) split by (auto simp: sorted_wrt_append)
      moreover have "is_path r entry (zs @ ws) \<and> last (zs @ ws) = x"
        using is_path_join [OF zs(1), of us ws] xs(1,2) zs(2) split by auto
      then have "y \<in> set (zs @ ws)" using y by (auto simp: doms_def)
      ultimately show ?thesis using zs(3) by simp
    qed
  qed
qed

lemma chosen_path_self:
  assumes ch: "chosen r entry pred post rpo k i idom b c"
    and xs: "is_path r entry xs" "last xs = b" "retreats (nth post) xs < Suc k"
  shows "anc (idom[b := Some c]) b \<subseteq> set xs"
proof -
  have cv: "converging r entry pred post rpo (level_at rpo k i) idom" and i: "0 < i" "i < length rpo" "b = rpo ! i"
    using ch by (simp_all add: chosen_def)
  note F = chosen_facts [OF ch]
  note t = settingD(2) [OF F(1)] and o' = settingD(1) [OF F(1)]
  have "xs \<noteq> []" using xs(1) by (simp add: is_path_def)
  then obtain ys where ys: "xs = ys @ [b]" using xs(2) by (metis append_butlast_last_id)
  have ne: "ys \<noteq> []" using xs(1) ys F(4) by auto
  with xs(1) ys have path: "is_path r entry ys" "(last ys, b) \<in> r" by (simp_all add: is_path_snoc)
  let ?p = "last ys"
  have pin: "?p \<in> set rpo" using is_path_reach [OF path(1)] rpo_okD(7) [OF o'] by simp
  have ret: "retreats (nth post) xs = retreats (nth post) ys + (if post ! ?p \<le> post ! b then 1 else 0)"
    using retreats_snoc [of "nth post" ys b] ne ys by simp
  have "idom ! ?p \<noteq> None \<and> anc idom ?p \<subseteq> set ys"
  proof (cases "?p = entry")
    case True
    then show ?thesis using anc_entry [of idom entry] tree_okD(2) [OF t] ne by (metis insertCI last_in_set option.distinct(1) singletonD subsetI)
  next
    case False
    have "retreats (nth post) ys < level_at rpo k i ?p"
    proof (cases "post ! ?p \<le> post ! b")
      case True
      then show ?thesis using ret xs(3) by (simp add: level_at_def)
    next
      case adv: False
      obtain j where j: "j < length rpo" "?p = rpo ! j" using pin by (metis in_set_conv_nth)
      then have "j < i" using rpo_post_less [OF o' i(2) j(1)] adv i(3) by simp
      then have "?p \<in> set (take i rpo)" using j by (metis in_set_conv_nth length_take min_less_iff_conj nth_take)
      then show ?thesis using ret xs(3) by (simp add: level_at_def)
    qed
    then show ?thesis using convergingD(2,4) [OF cv pin False] path(1) by fastforce
  qed
  then show ?thesis using chosen_anc [OF ch] F(10) [OF path(2)] ys by auto
qed

lemma chosen_path:
  assumes ch: "chosen r entry pred post rpo k i idom b c" and x: "x \<in> set rpo" "x \<noteq> entry"
    and xs: "is_path r entry xs" "last xs = x" "retreats (nth post) xs < level_at rpo k (Suc i) x"
  shows "anc (idom[b := Some c]) x \<subseteq> set xs"
proof (cases "x = b")
  case True
  have "level_at rpo k (Suc i) x \<le> Suc k" by (simp add: level_at_def)
  with True xs chosen_path_self [OF ch xs(1)] show ?thesis by simp
next
  case False
  have cv: "converging r entry pred post rpo (level_at rpo k i) idom" and i: "i < length rpo" "b = rpo ! i"
    using ch by (simp_all add: chosen_def)
  note F = chosen_facts [OF ch]
  have lev: "level_at rpo k i x = level_at rpo k (Suc i) x" "level_at rpo k (Suc i) x \<le> Suc k"
    using False i by (auto simp: level_at_def take_Suc_conv_app_nth)
  have old: "z \<in> set xs" if "z \<in> anc idom x" for z using convergingD(4) [OF cv x xs(1,2)] xs(3) lev that by simp
  show ?thesis
  proof
    fix y assume "y \<in> anc (idom[b := Some c]) x"
    from anc_update_sub [OF _ F(7,8) this] F(3,9) consider "y \<in> anc idom x" | "b \<in> anc idom x" "y \<in> anc idom c" by auto
    then show "y \<in> set xs"
    proof cases
      case 2
      then obtain us vs where split: "xs = us @ b # vs" using old by (meson split_list)
      have "is_path r entry (us @ [b])" using xs(1) split is_path_prefix by blast
      moreover have "retreats (nth post) (us @ [b]) < Suc k"
        using retreats_append_le [of "nth post" us b vs] xs(3) lev(2) split by simp
      ultimately have "anc (idom[b := Some c]) b \<subseteq> set (us @ [b])" using chosen_path_self [OF ch, of "us @ [b]"] by simp
      with chosen_anc [OF ch] 2(2) split show ?thesis by auto
    qed (rule old)
  qed
qed

lemma chosen_converging:
  assumes ch: "chosen r entry pred post rpo k i idom b c"
  shows "converging r entry pred post rpo (level_at rpo k (Suc i)) (idom[b := Some c])"
proof -
  have cv: "converging r entry pred post rpo (level_at rpo k i) idom" and i: "i < length rpo" "b = rpo ! i"
    using ch by (simp_all add: chosen_def)
  note F = chosen_facts [OF ch]
  have "idom[b := Some c] ! x \<noteq> None \<longleftrightarrow> 0 < level_at rpo k (Suc i) x" if "x \<in> set rpo" "x \<noteq> entry" for x
    using convergingD(2) [OF cv that] F(3,9) i
    by (cases "x = b") (auto simp: level_at_def take_Suc_conv_app_nth)
  then show ?thesis
    unfolding converging_def using chosen_tree [OF ch] chosen_doms [OF ch] chosen_path [OF ch] by blast
qed

section \<open>Passes\<close>

lemma update_block_converging:
  assumes cv: "converging r entry pred post rpo (level_at rpo k i) idom" and i: "0 < i" "i < length rpo"
  shows "\<exists>idom' changed'. update_block pred post (idom, changed) (rpo ! i) = Some (idom', changed') \<and>
    converging r entry pred post rpo (level_at rpo k (Suc i)) idom' \<and>
    (\<exists>c. chosen r entry pred post rpo k i idom (rpo ! i) c \<and> idom' = idom[rpo ! i := Some c]) \<and>
    (if idom' = idom then changed' = changed else changed')"
proof -
  note s = convergingD(1) [OF cv]
  note o' = settingD(1) [OF s] and t = settingD(2) [OF s]
  let ?b = "rpo ! i"
  have b: "?b < length pred" using rpo_okD(8) [OF o'] i by simp
  then have ps: "set (pred ! ?b) = {p. (p, ?b) \<in> r}" using rpo_okD(3) [OF o'] by blast
  then have lt: "p < length pred" if "p \<in> set (pred ! ?b)" for p using that rpo_okD(1) [OF o'] by blast
  from merge_preds [OF s lt] obtain acc where
    acc: "foldM (merge_pred post idom) None (pred ! ?b) = Some acc"
      "case acc of None \<Rightarrow> \<forall>p \<in> set (pred ! ?b). idom ! p = None
       | Some c \<Rightarrow> c < length pred \<and> idom ! c \<noteq> None \<and> (\<exists>p \<in> set (pred ! ?b). idom ! p \<noteq> None) \<and>
           anc idom c = (\<Inter>p \<in> {p \<in> set (pred ! ?b). idom ! p \<noteq> None}. anc idom p)" by blast
  from rpo_okD(10) [OF o' i(2,1)] obtain u where u: "(u, ?b) \<in> r" "u \<in> set (take i rpo)" by auto
  have "u \<in> set rpo" using u(2) by (rule in_set_takeD)
  then have proc: "idom ! u \<noteq> None"
    using convergingD(2) [OF cv, of u] u(2) tree_okD(2) [OF t] by (cases "u = entry") (auto simp: level_at_def)
  from acc(2) u(1) proc ps obtain c where c: "acc = Some c" "c < length pred" "idom ! c \<noteq> None"
      "anc idom c = (\<Inter>p \<in> {p. (p, ?b) \<in> r \<and> idom ! p \<noteq> None}. anc idom p)"
    by (cases acc) auto
  then have ch: "chosen r entry pred post rpo k i idom ?b c" using cv i by (simp add: chosen_def)
  have "length idom = length pred" using tree_okD(1) [OF t] .
  have same: "idom[?b := Some c] = idom" if "idom ! ?b = Some c" using that by (metis list_update_id)
  have upd: "update_block pred post (idom, changed) ?b =
      Some (idom[?b := Some c], if idom ! ?b \<noteq> Some c then True else changed)"
    using acc(1) c(1) b \<open>length idom = length pred\<close> same by (auto simp: update_block_def vec_simps)
  moreover have "idom[?b := Some c] = idom \<longleftrightarrow> idom ! ?b = Some c"
    using b \<open>length idom = length pred\<close> by (auto simp: list_update_same_conv)
  ultimately show ?thesis using ch chosen_converging [OF ch] by (intro exI conjI) auto
qed

lemma dom_pass_result:
  assumes cv: "converging r entry pred post rpo (level_at rpo k 1) idom"
  shows "\<exists>idom' changed. dom_pass pred post rpo idom = Some (idom', changed) \<and>
    converging r entry pred post rpo (level_at rpo k (length rpo)) idom' \<and> (\<not> changed \<longrightarrow> idom' = idom) \<and>
    (changed \<longrightarrow> (\<exists>i c idom1. chosen r entry pred post rpo k i idom1 (rpo ! i) c \<and> idom1 ! (rpo ! i) \<noteq> Some c))"
proof -
  note o' = settingD(1) [OF convergingD(1) [OF cv]]
  have ne: "0 < length rpo" using rpo_okD(5) [OF o'] by simp
  let ?I = "\<lambda>ys st. case st of (idom', changed) \<Rightarrow>
    converging r entry pred post rpo (level_at rpo k (Suc (length ys))) idom' \<and> (\<not> changed \<longrightarrow> idom' = idom) \<and>
    (changed \<longrightarrow> (\<exists>i c idom1. chosen r entry pred post rpo k i idom1 (rpo ! i) c \<and> idom1 ! (rpo ! i) \<noteq> Some c))"
  have "\<exists>st. foldM (update_block pred post) (idom, False) (take m (drop 1 rpo)) = Some st \<and> ?I (take m (drop 1 rpo)) st"
    if "m \<le> length rpo - 1" for m
    using that
  proof (induction m)
    case 0
    then show ?case using cv by simp
  next
    case (Suc m)
    then obtain idom1 changed where st: "foldM (update_block pred post) (idom, False) (take m (drop 1 rpo)) = Some (idom1, changed)"
      "?I (take m (drop 1 rpo)) (idom1, changed)" by fastforce
    have len: "length (take m (drop 1 rpo)) = m" "Suc m < length rpo" using Suc.prems by auto
    have nx: "take (Suc m) (drop 1 rpo) = take m (drop 1 rpo) @ [rpo ! Suc m]"
      using len by (simp add: take_Suc_conv_app_nth)
    have cv1: "converging r entry pred post rpo (level_at rpo k (Suc m)) idom1" using st(2) len by simp
    from update_block_converging [OF cv1 _ len(2), of changed] obtain idom2 changed2 c where
      U: "update_block pred post (idom1, changed) (rpo ! Suc m) = Some (idom2, changed2)"
        "converging r entry pred post rpo (level_at rpo k (Suc (Suc m))) idom2"
        "chosen r entry pred post rpo k (Suc m) idom1 (rpo ! Suc m) c" "idom2 = idom1[rpo ! Suc m := Some c]"
        "if idom2 = idom1 then changed2 = changed else changed2" by auto
    have "?I (take m (drop 1 rpo) @ [rpo ! Suc m]) (idom2, changed2)"
    proof (cases "idom2 = idom1")
      case True
      then show ?thesis using U(2,5) st(2) len by auto
    next
      case False
      then have "idom1 ! (rpo ! Suc m) \<noteq> Some c" using U(4) by (metis list_update_id)
      with False U(2,3,5) len show ?thesis by auto
    qed
    then show ?case unfolding nx by (simp add: foldM_append st(1) [simplified] U(1))
  qed
  from this [of "length rpo - 1"] ne show ?thesis by (auto simp: dom_pass_def)
qed

text \<open>At a level no simple path exceeds, the chain of every block is its set of dominators.\<close>

lemma converging_exact:
  assumes cv: "converging r entry pred post rpo level idom" and x: "x \<in> set rpo"
    and lev: "\<And>x. x \<in> set rpo \<Longrightarrow> length rpo \<le> level x"
  shows "anc idom x = doms r entry x" "idom ! x \<noteq> None"
proof -
  note s = convergingD(1) [OF cv]
  note o' = settingD(1) [OF s] and t = settingD(2) [OF s]
  have ne: "0 < length rpo" using rpo_okD(5) [OF o'] by simp
  show proc: "idom ! x \<noteq> None"
    using convergingD(2) [OF cv x] lev [OF x] ne tree_okD(2) [OF t] by (cases "x = entry") auto
  have "y \<in> set xs" if y: "y \<in> anc idom x" and xs: "is_path r entry xs" "last xs = x" for y xs
  proof (cases "x = entry")
    case True
    then have "y = entry" using y anc_entry [of idom entry] tree_okD(2) [OF t] by auto
    then show ?thesis using xs(1) by (auto simp: is_path_def)
  next
    case False
    from simple_path [OF xs(1)] obtain ys where ys: "is_path r entry ys" "last ys = last xs" "distinct ys" "set ys \<subseteq> set xs"
      by blast
    have "set ys \<subseteq> set rpo" using is_path_nodes [OF ys(1)] rpo_okD(7) [OF o'] by auto
    then have "length ys \<le> length rpo" using ys(3) rpo_okD(4) [OF o'] by (metis card_mono distinct_card finite_set)
    moreover have "retreats (nth post) ys < length ys" using ys(1) by (intro retreats_length) (simp add: is_path_def)
    ultimately have "retreats (nth post) ys < level x" using lev [OF x] by simp
    then have "y \<in> set ys" using convergingD(4) [OF cv x False ys(1)] ys(2) xs(2) y by simp
    with ys(4) show ?thesis by blast
  qed
  then show "anc idom x = doms r entry x"
    using convergingD(3) [OF cv x proc] by (auto simp: doms_def)
qed

section \<open>The iteration ends and is exact\<close>

text \<open>Two blocks with the same chain are the same block.\<close>

lemma anc_inj:
  assumes t: "tree_ok nodes entry post n idom" and "a < n" "idom ! a \<noteq> None" "b < n" "idom ! b \<noteq> None"
    and eq: "anc idom a = anc idom b"
  shows "a = b"
proof (rule ccontr)
  assume "a \<noteq> b"
  moreover have "a \<in> anc idom b" "b \<in> anc idom a" using eq anc_refl by blast+
  ultimately have "post ! b < post ! a" "post ! a < post ! b"
    using anc_above [OF t _ assms(4,5), of a] anc_above [OF t _ assms(2,3), of b] by auto
  then show False by simp
qed

lemma exact_no_change:
  assumes ch: "chosen r entry pred post rpo k i idom (rpo ! i) c" and k: "length rpo \<le> k"
  shows "idom ! (rpo ! i) = Some c"
proof -
  have cv: "converging r entry pred post rpo (level_at rpo k i) idom" and i: "i < length rpo"
    using ch by (simp_all add: chosen_def)
  note F = chosen_facts [OF ch]
  note t = settingD(2) [OF F(1)] and o' = settingD(1) [OF F(1)]
  let ?b = "rpo ! i"
  have lev: "length rpo \<le> level_at rpo k i x" for x using k by (simp add: level_at_def)
  note E = converging_exact [OF cv _ lev]
  note E' = converging_exact [OF chosen_converging [OF ch] F(2)]
  have lev': "length rpo \<le> level_at rpo k (Suc i) x" for x using k by (simp add: level_at_def)
  have "anc idom ?b = anc (idom[?b := Some c]) ?b" using E(1) [OF F(2)] E'(1) lev' by simp
  then have b: "anc idom ?b = insert ?b (anc idom c)" using chosen_anc [OF ch] by simp
  obtain d where d: "idom ! ?b = Some d" using E(2) [OF F(2)] by auto
  have up: "d \<in> set rpo" "idom ! d \<noteq> None" "post ! ?b < post ! d" "d < length pred"
    using tree_okD(3,6,7,8) [OF t] F(3,4) d by auto
  have bd: "?b \<notin> anc idom d" using anc_post_le [OF t _ up(4,2)] up(3) by fastforce
  have "anc idom ?b = insert ?b (anc idom d)" using anc_step [of ?b idom d] d up(3) F(3,9) by auto
  with b bd F(8) have "anc idom d = anc idom c" by (metis insert_ident)
  moreover have "c < length pred" "idom ! c \<noteq> None" using ch by (auto simp: chosen_def)
  ultimately have "d = c" using anc_inj [OF t up(4,2)] by blast
  with d show ?thesis by simp
qed

lemma level_all: "converging r entry pred post rpo (level_at rpo k (length rpo)) idom \<Longrightarrow>
  converging r entry pred post rpo (level_at rpo (Suc k) 1) idom"
proof -
  assume cv: "converging r entry pred post rpo (level_at rpo k (length rpo)) idom"
  note o' = settingD(1) [OF convergingD(1) [OF cv]]
  have "take 1 rpo = [entry]" using rpo_okD(5,6) [OF o'] by (cases rpo) auto
  then have lev: "level_at rpo (Suc k) 1 x = level_at rpo k (length rpo) x" if "x \<in> set rpo" "x \<noteq> entry" for x
    using that by (simp add: level_at_def)
  show ?thesis using cv lev unfolding converging_def by auto
qed

lemma dom_iterate_result:
  assumes "converging r entry pred post rpo (level_at rpo k 1) idom"
  shows "\<exists>idom'. dom_iterate pred post rpo idom = Some idom' \<and>
    (\<exists>k'. converging r entry pred post rpo (level_at rpo k' 1) idom' \<and> length rpo \<le> k')"
  using assms
proof (induction "length rpo - k" arbitrary: k idom rule: less_induct)
  case less
  from dom_pass_result [OF less.prems] obtain idom' changed where
    P: "dom_pass pred post rpo idom = Some (idom', changed)"
      "converging r entry pred post rpo (level_at rpo k (length rpo)) idom'" "\<not> changed \<longrightarrow> idom' = idom"
      "changed \<longrightarrow> (\<exists>i c idom1. chosen r entry pred post rpo k i idom1 (rpo ! i) c \<and> idom1 ! (rpo ! i) \<noteq> Some c)" by blast
  show ?case
  proof (cases changed)
    case True
    then have k: "k < length rpo" using P(4) exact_no_change by (meson not_le)
    from less.hyps [of "Suc k", OF _ level_all [OF P(2)]] k True P(1) show ?thesis
      by (subst dom_iterate.simps) simp
  next
    case False
    have stays: "converging r entry pred post rpo (level_at rpo (k + j) 1) idom" for j
    proof (induction j)
      case (Suc j)
      from dom_pass_result [OF Suc] P(1,3) False show ?case using level_all [of r entry pred post rpo "k + j" idom] by auto
    qed (use less.prems in simp)
    have "dom_iterate pred post rpo idom = Some idom" using P(1,3) False by (subst dom_iterate.simps) simp
    with stays [of "length rpo"] show ?thesis by (intro exI [of _ idom]) auto
  qed
qed

lemma converging_start:
  assumes o': "rpo_ok r entry pred post rpo"
  shows "converging r entry pred post rpo (level_at rpo 0 1) ((replicate (length pred) None)[entry := Some entry])"
proof -
  let ?idom = "(replicate (length pred) None)[entry := Some entry]"
  have e: "entry < length pred" "entry \<in> set rpo" using rpo_okD(8,11) [OF o'] by auto
  have one: "take 1 rpo = [entry]" using rpo_okD(5,6) [OF o'] by (cases rpo) auto
  have val: "?idom ! x = (if x = entry then Some entry else None)" if "x < length pred" for x using that by (simp add: nth_list_update)
  have "tree_ok (set rpo) entry post (length pred) ?idom"
    using e rpo_okD(8) [OF o'] unfolding tree_ok_def by (auto simp: val nth_list_update split: if_splits)
  moreover have "anc ?idom entry = {entry}" using e by (intro anc_entry) simp
  moreover have "doms r entry entry \<subseteq> {entry}" by (auto simp: doms_def dest: spec [of _ "[entry]"])
  ultimately show ?thesis
    using o' rpo_okD(8) [OF o'] one unfolding converging_def setting_def by (auto simp: val level_at_def)
qed

section \<open>The dominators of a graph\<close>

lemma post_numbers_result:
  assumes "distinct order" "set order \<subseteq> {..<n}"
  shows "\<exists>post. post_numbers n order = Some post \<and> length post = n \<and> (\<forall>i < length order. post ! (order ! i) = i)"
  using assms unfolding post_numbers_def
proof (induction order rule: rev_induct)
  case (snoc b order)
  then obtain post where post: "foldM (\<lambda>post (i, b). vset post b i) (replicate n usize_max) (List.enumerate 0 order) = Some post"
    "length post = n" "\<forall>i < length order. post ! (order ! i) = i" by auto
  have "b < n" using snoc.prems by simp
  moreover have "order ! i \<noteq> b" if "i < length order" for i using that snoc.prems(1) by (metis distinct.simps(2) distinct_append nth_mem not_distinct_conv_prefix)
  ultimately show ?case using post
    by (auto simp: enumerate_append_eq foldM_append vec_simps nth_append nth_list_update less_Suc_eq)
qed simp

definition normal_rel :: "FunctionCfg \<Rightarrow> (nat \<times> nat) set" where
  "normal_rel g = (\<lambda>e. (e_from e, e_to e)) ` {e \<in> set (cfg_edges g). e_kind e \<noteq> Exception}"

lemma normal_succ_result:
  assumes "wf_cfg g"
  shows "\<exists>rows. normal_succ g = Some rows \<and> rows_ok rows \<and> length rows = length (cfg_blocks g) \<and> row_rel rows = normal_rel g"
proof -
  let ?n = "length (cfg_blocks g)" and ?f = "\<lambda>e. e_kind e \<noteq> Exception"
  have "\<exists>rows. foldM (\<lambda>rows edge. if e_kind edge \<noteq> Exception then push_row rows (e_from edge) (e_to edge) else Some rows)
      (replicate ?n []) (cfg_edges g) = Some rows \<and> rows = rows_by ?n e_from e_to (filter ?f (cfg_edges g))"
  proof (rule foldM_prefix_rule)
    show "\<exists>t. (if e_kind e \<noteq> Exception then push_row rows (e_from e) (e_to e) else Some rows) = Some t \<and>
        t = rows_by ?n e_from e_to (filter ?f (es @ [e]))"
      if "rows = rows_by ?n e_from e_to (filter ?f es)" "e \<in> set (cfg_edges g)" for es e rows
      using that wf_cfgD(3) [OF assms that(2)] push_rows_by [of e_from e ?n e_to "filter ?f es"] by simp
  qed simp
  moreover have "rows_ok (rows_by ?n e_from e_to (filter ?f (cfg_edges g)))"
    using wf_cfgD(4) [OF assms] by (intro rows_by_ok) simp
  moreover have "row_rel (rows_by ?n e_from e_to (filter ?f (cfg_edges g))) = normal_rel g"
    using wf_cfgD(3) [OF assms] by (subst rel_rows_by) (auto simp: normal_rel_def)
  ultimately show ?thesis by (auto simp: normal_succ_def)
qed

lemma rpo_ok_postorder:
  assumes wf: "wf_cfg g"
  shows "\<exists>order visited post. postorder (cfg_entry g) (succ_rows g) = Some (order, visited) \<and>
    post_numbers (length (cfg_blocks g)) order = Some post \<and>
    rpo_ok (block_rel g) (cfg_entry g) (pred_rows g) post (rev order)"
proof -
  let ?e = "cfg_entry g" and ?n = "length (cfg_blocks g)" and ?r = "block_rel g"
  note R = rows_facts [OF wf]
  have "?e < length (succ_rows g)" using wf_cfgD(1) [OF wf] R(4) by simp
  from postorder_result [OF R(1) this] obtain order visited where
    P: "postorder ?e (succ_rows g) = Some (order, visited)" "length visited = ?n" "marked visited = ?r\<^sup>* `` {?e}"
      "set order = marked visited" "distinct order" "order \<noteq> []" "last order = ?e"
      "\<And>k. k < length order \<Longrightarrow> order ! k \<noteq> ?e \<Longrightarrow> \<exists>u. (u, order ! k) \<in> ?r \<and> u \<in> set (drop (Suc k) order)"
    unfolding R(4,7) by blast
  have sub: "set order \<subseteq> {..<?n}" using P(2,4) by (auto simp: marked_def)
  from post_numbers_result [OF P(5) sub] obtain post where
    N: "post_numbers ?n order = Some post" "length post = ?n" "\<forall>i < length order. post ! (order ! i) = i" by blast
  have preds: "set (pred_rows g ! b) = {p. (p, b) \<in> ?r}" if "b < ?n" for b
  proof -
    have "(b, p) \<in> row_rel (pred_rows g) \<longleftrightarrow> p \<in> set (pred_rows g ! b)" for p using that R(5) by (simp add: row_rel_def)
    then show ?thesis unfolding R(8) by auto
  qed
  have parent: "\<exists>u. (u, rev order ! i) \<in> ?r \<and> u \<in> set (take i (rev order))" if i: "i < length order" "0 < i" for i
  proof -
    let ?k = "length order - Suc i"
    have at: "rev order ! i = order ! ?k" using i by (simp add: rev_nth)
    have "order ! ?k \<noteq> ?e"
      using i P(5,6,7) nth_eq_iff_index_eq [of order ?k "length order - 1"] by (auto simp: last_conv_nth)
    moreover have "?k < length order" using i(1) by arith
    ultimately obtain u where u: "(u, order ! ?k) \<in> ?r" "u \<in> set (drop (Suc ?k) order)" using P(8) by blast
    have "take i (rev order) = rev (drop (length order - i) order)" by (simp add: take_rev)
    then have "u \<in> set (take i (rev order))" using u(2) i by (simp add: Suc_diff_Suc)
    with u(1) at show ?thesis by auto
  qed
  have "rpo_ok ?r ?e (pred_rows g) post (rev order)"
    unfolding rpo_ok_def R(5)
  proof (intro conjI allI impI)
    show "?r \<subseteq> {..<?n} \<times> {..<?n}" using wf_cfgD(3,4) [OF wf] by (auto simp: block_rel_def)
    show "post ! (rev order ! i) = length (rev order) - Suc i" if "i < length (rev order)" for i
      using that N(3) by (simp add: rev_nth)
  qed (use P sub N preds parent in \<open>auto simp: hd_rev\<close>)
  with P(1) N(1) show ?thesis by blast
qed

lemma dominates_result:
  assumes s: "setting r entry pred post rpo idom" and "b < length pred" "idom ! b \<noteq> None"
  shows "dominates idom a b = Some (a \<in> anc idom b)"
  using assms(2,3)
proof (induction "length rpo - post ! b" arbitrary: b rule: less_induct)
  case less
  note t = settingD(2) [OF s] and o' = settingD(1) [OF s]
  have len: "length idom = length pred" using tree_okD(1) [OF t] .
  from less.prems obtain d where d: "idom ! b = Some d" by auto
  show ?case
  proof (cases "d = b")
    case True
    with d less.prems len anc_entry [of idom b] show ?thesis by (subst dominates.simps) (auto simp: vec_simps)
  next
    case False
    then have "b \<noteq> entry" using d tree_okD(2) [OF t] by auto
    then have up: "post ! b < post ! d" "d \<in> set rpo" "idom ! d \<noteq> None" "d < length pred"
      using tree_okD(3,6,7,8) [OF t] less.prems(1) d by auto
    then have "dominates idom a d = Some (a \<in> anc idom d)" using less.hyps [of d] rpo_post_bound(1) [OF o' up(2)] by fastforce
    with False d less.prems len anc_step [of b idom d] show ?thesis by (subst dominates.simps) (auto simp: vec_simps)
  qed
qed

lemma dominators_result:
  assumes "wf_cfg g"
  shows "\<exists>dm. dominators g (succ_rows g) (pred_rows g) = Some dm \<and>
    (\<forall>a b. (cfg_entry g, b) \<in> (block_rel g)\<^sup>* \<longrightarrow>
       dominates (dm_idom dm) a b = Some (a \<in> doms (block_rel g) (cfg_entry g) b)) \<and>
    (\<forall>a b. b < length (cfg_blocks g) \<longrightarrow> (cfg_entry g, b) \<notin> (block_rel g)\<^sup>* \<longrightarrow>
       dominates (dm_idom dm) a b = Some (a = b)) \<and>
    length (dm_normal dm) = length (cfg_blocks g) \<and> marked (dm_normal dm) = (normal_rel g)\<^sup>* `` {cfg_entry g}"
proof -
  let ?e = "cfg_entry g" and ?n = "length (cfg_blocks g)" and ?r = "block_rel g"
  note R = rows_facts [OF assms]
  from rpo_ok_postorder [OF assms] obtain order visited post where
    P: "postorder ?e (succ_rows g) = Some (order, visited)" "post_numbers ?n order = Some post"
      "rpo_ok ?r ?e (pred_rows g) post (rev order)" by blast
  from dom_iterate_result [OF converging_start [OF P(3)]] obtain idom k where
    I: "dom_iterate (pred_rows g) post (rev order) ((replicate ?n None)[?e := Some ?e]) = Some idom"
      "converging ?r ?e (pred_rows g) post (rev order) (level_at (rev order) k 1) idom" "length (rev order) \<le> k"
    unfolding R(5) by blast
  from normal_succ_result [OF assms] obtain rows where
    N: "normal_succ g = Some rows" "rows_ok rows" "length rows = ?n" "row_rel rows = normal_rel g" by blast
  have e: "?e < ?n" using wf_cfgD(1) [OF assms] .
  from postorder_result [OF N(2), of ?e] e N obtain order' normal where
    Q: "postorder ?e rows = Some (order', normal)" "length normal = ?n" "marked normal = (normal_rel g)\<^sup>* `` {?e}" by auto
  have "dominators g (succ_rows g) (pred_rows g) = Some \<lparr>dm_idom = idom, dm_normal = normal\<rparr>"
    using P(1,2) I(1) N(1) Q(1) e by (simp add: dominators_def Let_def vec_simps)
  moreover have "dominates idom a b = Some (a \<in> doms ?r ?e b)" if "(?e, b) \<in> ?r\<^sup>*" for a b
  proof -
    have lev: "length (rev order) \<le> level_at (rev order) k 1 x" for x using I(3) by (simp add: level_at_def)
    have b: "b \<in> set (rev order)" using that rpo_okD(7) [OF P(3)] by simp
    then have "b < length (pred_rows g)" using rpo_okD(8) [OF P(3)] by blast
    then show ?thesis
      using dominates_result [OF convergingD(1) [OF I(2)]] converging_exact [OF I(2) b lev] by simp
  qed
  moreover have "dominates idom a b = Some (a = b)" if "b < ?n" "(?e, b) \<notin> ?r\<^sup>*" for a b
  proof -
    note t = settingD(2) [OF convergingD(1) [OF I(2)]]
    have "b \<notin> set (rev order)" using that(2) rpo_okD(7) [OF P(3)] by simp
    then have "idom ! b = None" using tree_okD(5) [OF t, of b] that(1) R(5) by (cases "idom ! b") auto
    then show ?thesis using tree_okD(1) [OF t] that(1) R(5) by (subst dominates.simps) (auto simp: vec_simps)
  qed
  ultimately show ?thesis using Q(2,3) by auto
qed

section \<open>Properties\<close>

text \<open>C10: computing the dominators of a well-formed graph never panics and terminates, cycles and
  exception edges included, and walking the resulting tree decides dominance exactly: one
  block dominates another that the entry reaches if and only if it lies on every path from
  the entry to it. The normal blocks are those reached without an exception edge.\<close>

theorem dominators_correct:
  assumes "wf_cfg g"
  shows "\<exists>dm. dominators g (succ_rows g) (pred_rows g) = Some dm \<and>
    (\<forall>a b. (cfg_entry g, b) \<in> (block_rel g)\<^sup>* \<longrightarrow>
       dominates (dm_idom dm) a b = Some (a \<in> doms (block_rel g) (cfg_entry g) b)) \<and>
    (\<forall>a b. b < length (cfg_blocks g) \<longrightarrow> (cfg_entry g, b) \<notin> (block_rel g)\<^sup>* \<longrightarrow>
       dominates (dm_idom dm) a b = Some (a = b)) \<and>
    length (dm_normal dm) = length (cfg_blocks g) \<and> marked (dm_normal dm) = (normal_rel g)\<^sup>* `` {cfg_entry g}"
  by (rule dominators_result [OF assms])

theorem dominators_correct_witness:
  "\<exists>dm. dominators diamond_cfg (succ_rows diamond_cfg) (pred_rows diamond_cfg) = Some dm \<and>
     dominates (dm_idom dm) 1 3 = Some (1 \<in> doms (block_rel diamond_cfg) (cfg_entry diamond_cfg) 3)"
proof -
  have "(0, 1) \<in> block_rel diamond_cfg" "(1, 3) \<in> block_rel diamond_cfg" "cfg_entry diamond_cfg = 0"
    by (auto simp: block_rel_def diamond_cfg_def)
  then have "(cfg_entry diamond_cfg, 3) \<in> (block_rel diamond_cfg)\<^sup>*" by (metis r_into_rtrancl rtrancl_trans)
  with dominators_correct [OF diamond_wf] show ?thesis by blast
qed

end
