(* ===== verification/Seq_Relate.thy ===== *)
theory Seq_Relate
  imports Seq_Control Seq_Dominance
begin

text \<open>
  How one event's invocation relates to another's (\<^verbatim>\<open>LoadedCfg::relate\<close> and
  \<^verbatim>\<open>combine\<close> of \<^verbatim>\<open>trace-db/src/inspect/sequence.rs\<close>). A relation is a claim about every
  execution of the graph; the theorems state the claim in terms of paths, over the edges
  and over the transfers the graph does not model, and show that \<open>relate\<close> makes no other.
\<close>

section \<open>The operations\<close>

datatype Relation = SequencedBefore | GuaranteedBefore | MayPrecede | MayFollow | MayBoth | Exclusive | Unordered | Unknown

fun Relation_as_str :: "Relation \<Rightarrow> string" where
  "Relation_as_str SequencedBefore = ''sequenced_before''"
| "Relation_as_str GuaranteedBefore = ''guaranteed_before''"
| "Relation_as_str MayPrecede = ''may_precede''"
| "Relation_as_str MayFollow = ''may_follow''"
| "Relation_as_str MayBoth = ''may_both''"
| "Relation_as_str Exclusive = ''exclusive''"
| "Relation_as_str Unordered = ''unordered''"
| "Relation_as_str Unknown = ''unknown''"

text \<open>The fields of a loaded graph that do not come from the database's other tables.\<close>

record LoadedCfg =
  lc_graph :: FunctionCfg
  lc_succ :: "nat list list"
  lc_pred :: "nat list list"
  lc_next_events :: "nat list list"
  lc_control :: ControlFacts

definition load :: "FunctionCfg \<Rightarrow> LoadedCfg option" where
  "load g = do {
     (succ, pred) \<leftarrow> adjacency g;
     next \<leftarrow> next_events g;
     control \<leftarrow> ControlFacts_of g succ pred;
     Some \<lparr>lc_graph = g, lc_succ = succ, lc_pred = pred, lc_next_events = next, lc_control = control\<rparr> }"

definition block_of :: "LoadedCfg \<Rightarrow> nat \<Rightarrow> nat option" where
  "block_of lc e = map_option ev_block (vget (cfg_events (lc_graph lc)) e)"

definition never_runs :: "LoadedCfg \<Rightarrow> nat \<Rightarrow> bool option" where
  "never_runs lc e = map_option eg_unevaluated (vget (cf_event_gaps (lc_control lc)) e)"

definition events_in_order :: "LoadedCfg \<Rightarrow> nat list" where
  "events_in_order lc = concat (map blk_events (cfg_blocks (lc_graph lc)))"

definition early_exits :: "LoadedCfg \<Rightarrow> nat \<Rightarrow> EventId list option" where
  "early_exits lc b = do {
     t \<leftarrow> vget (cf_throws (lc_control lc)) b;
     if t then map_option blk_events (vget (cfg_blocks (lc_graph lc)) b)
     else vget (cf_hidden (lc_control lc)) b }"

definition push_later :: "nat list \<times> nat set \<Rightarrow> nat \<Rightarrow> nat list \<times> nat set" where
  "push_later st y = (case st of (stack, later) \<Rightarrow> if y \<in> later then (stack, later) else (y # stack, insert y later))"

lemma push_later_simps:
  "y \<in> later \<Longrightarrow> push_later (stack, later) y = (stack, later)"
  "y \<notin> later \<Longrightarrow> push_later (stack, later) y = (y # stack, insert y later)"
  by (simp_all add: push_later_def)

lemma push_later_row:
  "foldl push_later (stack, later) row = (stack', later') \<Longrightarrow>
     later' = later \<union> set row \<and> set stack' = set stack \<union> (set row - later) \<and>
     (set row \<subseteq> later \<longrightarrow> stack' = stack)"
proof (induction row arbitrary: stack later)
  case (Cons y row)
  show ?case
  proof (cases "y \<in> later")
    case True
    with Cons.prems have "foldl push_later (stack, later) row = (stack', later')" by (simp add: push_later_simps)
    from Cons.IH [OF this] True show ?thesis by auto
  next
    case False
    with Cons.prems have "foldl push_later (y # stack, insert y later) row = (stack', later')" by (simp add: push_later_simps)
    from Cons.IH [OF this] False show ?thesis by auto
  qed
qed auto

text \<open>The events after another in the local order, by a loop over a stack and a hash set.\<close>

function later_loop :: "nat list list \<Rightarrow> nat list \<Rightarrow> nat set \<Rightarrow> nat set option" where
  "later_loop rows [] later = Some later"
| "later_loop rows (x # stack) later =
     (case vget rows x of
        None \<Rightarrow> None
      | Some row \<Rightarrow> (case foldl push_later (stack, later) row of (stack', later') \<Rightarrow> later_loop rows stack' later'))"
  by pat_completeness auto
termination
proof (relation "inv_image (less_than <*lex*> less_than) (\<lambda>(rows, stack, later). (card (set (concat rows) - later), length stack))", goal_cases)
  case (2 rows x stack later row stack' later')
  note P = push_later_row [OF 2(2) [symmetric]]
  have sub: "set row \<subseteq> set (concat rows)" using 2(1) by (auto simp: vget_def split: if_splits intro: nth_mem)
  show ?case
  proof (cases "set row \<subseteq> later")
    case True
    then show ?thesis using P by (simp add: sup.absorb1)
  next
    case False
    then have "set (concat rows) - later' \<subset> set (concat rows) - later" using P sub by blast
    then have "card (set (concat rows) - later') < card (set (concat rows) - later)" by (intro psubset_card_mono) simp_all
    then show ?thesis by simp
  qed
qed (rule wf_inv_image, simp add: wf_lex_prod)

definition escapes_follow :: "LoadedCfg \<Rightarrow> nat \<Rightarrow> Dominance \<Rightarrow> bool option" where
  "escapes_follow lc a dm = do {
     ba \<leftarrow> block_of lc a;
     dominated \<leftarrow> allM (\<lambda>(b, escapes). if \<not> escapes \<or> b = ba then Some True else dominates (dm_idom dm) ba b)
       (List.enumerate 0 (cf_escapes (lc_control lc)));
     if \<not> dominated then Some False else do {
       exits \<leftarrow> early_exits lc ba;
       if list_all (\<lambda>e. e = a) exits then Some True else do {
         later \<leftarrow> later_loop (lc_next_events lc) [a] {};
         Some (list_all (\<lambda>e. e = a \<or> e \<in> later) exits) } } }"

definition guarantees :: "LoadedCfg \<Rightarrow> nat \<Rightarrow> nat \<Rightarrow> Dominance \<Rightarrow> bool option" where
  "guarantees lc a to dm = do {
     ba \<leftarrow> block_of lc a;
     seg \<leftarrow> vget (cf_segment (lc_control lc)) ba;
     throws \<leftarrow> (if snd seg > 0 then vget (cf_throws (lc_control lc)) ba else Some False);
     if throws then Some False else do {
       normal \<leftarrow> vget (dm_normal dm) to;
       if \<not> normal then Some False else do {
         d \<leftarrow> dominates (dm_idom dm) ba to;
         if \<not> d then Some False else escapes_follow lc a dm } } }"

definition order_reaches :: "LoadedCfg \<Rightarrow> nat \<Rightarrow> nat \<Rightarrow> bool option" where
  "order_reaches lc a b = do {
     ba \<leftarrow> block_of lc a;
     bb \<leftarrow> block_of lc b;
     if ba \<noteq> bb then do {
       sa \<leftarrow> vget (cf_segment (lc_control lc)) ba;
       sb \<leftarrow> vget (cf_segment (lc_control lc)) bb;
       Some (snd sa < snd sb) }
     else map_option fst (search a (replicate (length (cfg_events (lc_graph lc))) False) (vget (lc_next_events lc)) (\<lambda>y. y = b)) }"

definition NEVER_RUNS :: string where
  "NEVER_RUNS = ''an unevaluated gap covers an end; that call never runs''"

text \<open>The arm of one segment; \<open>Inl\<close> is its early return.\<close>

definition relate_within :: "LoadedCfg \<Rightarrow> nat \<Rightarrow> nat \<Rightarrow> bool \<Rightarrow> (Relation \<times> string list + Relation) option" where
  "relate_within lc a b again =
     (if again then Some (Inr MayBoth)
      else if a = b then Some (Inl (Unknown, [''both positions name the same invocation'']))
      else do {
        ab \<leftarrow> order_reaches lc a b;
        if ab then Some (Inr SequencedBefore) else do {
          ba \<leftarrow> order_reaches lc b a;
          Some (Inr (if ba then MayFollow else Unordered)) } })"

text \<open>The arm of two segments, with whether an unmodelled transfer loosened it.\<close>

definition relate_across :: "LoadedCfg \<Rightarrow> nat \<Rightarrow> nat \<Rightarrow> nat \<Rightarrow> bool list \<Rightarrow> Dominance \<Rightarrow> bool \<Rightarrow> (bool \<times> Relation) option" where
  "relate_across lc a ba bb forward dm a_loose = do {
     back \<leftarrow> reach (lc_succ lc) bb;
     b_loose \<leftarrow> vget (cf_loose (lc_control lc)) bb;
     f \<leftarrow> vget forward bb;
     k \<leftarrow> vget back ba;
     let loosened = (a_loose \<and> \<not> f \<or> b_loose \<and> \<not> k);
     relation \<leftarrow> (if f \<or> a_loose
       then (if k \<or> b_loose then Some MayBoth else do {
         g \<leftarrow> guarantees lc a bb dm;
         Some (if g then GuaranteedBefore else MayPrecede) })
       else Some (if k \<or> b_loose then MayFollow else Exclusive));
     Some (loosened, relation) }"

definition finish_relation ::
  "LoadedCfg \<Rightarrow> EventGaps \<Rightarrow> EventGaps \<Rightarrow> nat \<Rightarrow> bool \<Rightarrow> Relation \<Rightarrow> (Relation \<times> string list) option" where
  "finish_relation lc ga gb b loosened relation = do {
     shared \<leftarrow> anyM (\<lambda>g. map_option (\<lambda>gap. covers gap b) (vget (cfg_gaps (lc_graph lc)) g)) (eg_unordered_branch ga);
     if shared \<and> relation \<in> {SequencedBefore, GuaranteedBefore, MayPrecede, MayFollow}
     then Some (Unordered, [''both lie in one unordered_branch gap''])
     else case (if relation \<in> {SequencedBefore, GuaranteedBefore}
                then (case eg_unorders ga of None \<Rightarrow> eg_unorders gb | Some k \<Rightarrow> Some k) else None) of
       Some kind \<Rightarrow> Some (Unknown, [''a '' @ GapKind_as_str kind @ '' gap covers an end; its order is not modeled''])
     | None \<Rightarrow> Some (relation, if loosened \<and> relation \<noteq> Unordered
         then [''an unmodeled control transfer (unsupported edge or gap) may lead from one to the other''] else []) }"

definition relate :: "LoadedCfg \<Rightarrow> nat \<Rightarrow> nat \<Rightarrow> bool list \<Rightarrow> Dominance \<Rightarrow> (Relation \<times> string list) option" where
  "relate lc a b forward dm = do {
     ga \<leftarrow> vget (cf_event_gaps (lc_control lc)) a;
     gb \<leftarrow> vget (cf_event_gaps (lc_control lc)) b;
     case (case eg_hides_control ga of None \<Rightarrow> eg_hides_control gb | Some k \<Rightarrow> Some k) of
       Some kind \<Rightarrow> Some (Unknown, [''a '' @ GapKind_as_str kind @ '' gap covers an end; its control flow is not modeled''])
     | None \<Rightarrow>
         if eg_unevaluated ga \<or> eg_unevaluated gb then Some (Unknown, [NEVER_RUNS]) else do {
           ba \<leftarrow> block_of lc a;
           bb \<leftarrow> block_of lc b;
           a_loose \<leftarrow> vget (cf_loose (lc_control lc)) ba;
           fa \<leftarrow> (if a_loose then vget forward ba else Some False);
           sa \<leftarrow> vget (cf_segment (lc_control lc)) ba;
           sb \<leftarrow> vget (cf_segment (lc_control lc)) bb;
           if fst sa = fst sb then do {
             fb \<leftarrow> vget forward ba;
             r \<leftarrow> relate_within lc a b (fb \<or> a_loose);
             case r of Inl answer \<Rightarrow> Some answer | Inr relation \<Rightarrow> finish_relation lc ga gb b (a_loose \<and> \<not> fa) relation }
           else do {
             (loosened, relation) \<leftarrow> relate_across lc a ba bb forward dm a_loose;
             finish_relation lc ga gb b loosened relation } } }"

fun conditions :: "Relation \<Rightarrow> string list" where
  "conditions Exclusive = [''no control-flow path joins them either way'']"
| "conditions Unordered = [''the language leaves their order unspecified'']"
| "conditions Unknown = []"
| "conditions r = (if r = SequencedBefore \<or> r = GuaranteedBefore
     then [''given the second event executes'',
       ''and every call between them completes normally (no throw, longjmp, exit or noreturn call)'']
     else [''a control-flow path exists; its feasibility is not checked''])"

definition combine :: "Relation list \<Rightarrow> Relation option" where
  "combine relations =
     (if successively (=) relations then vget relations 0
      else if Unknown \<in> set relations then Some Unknown
      else if list_all (\<lambda>r. r = SequencedBefore \<or> r = GuaranteedBefore) relations then Some GuaranteedBefore
      else
        (let precede = list_ex (\<lambda>r. r \<in> {SequencedBefore, GuaranteedBefore, MayPrecede, MayBoth, Unordered}) relations;
             follow = list_ex (\<lambda>r. r \<in> {MayFollow, MayBoth, Unordered}) relations
         in Some (if precede then (if follow then MayBoth else MayPrecede) else if follow then MayFollow else Exclusive)))"

declare later_loop.simps(2) [simp del]

section \<open>Later events\<close>

definition later_ok :: "(nat \<times> nat) set \<Rightarrow> nat \<Rightarrow> nat list \<Rightarrow> nat set \<Rightarrow> bool" where
  "later_ok r a stack later \<longleftrightarrow> later \<subseteq> r\<^sup>+ `` {a} \<and> set stack \<subseteq> insert a later \<and>
     (\<forall>x \<in> insert a later. x \<in> set stack \<or> r `` {x} \<subseteq> later)"

lemma later_loop_result:
  assumes "rows_ok rows" "a < length rows" "later_ok (row_rel rows) a stack later" "later \<subseteq> {..<length rows}"
  shows "later_loop rows stack later = Some ((row_rel rows)\<^sup>+ `` {a})"
  using assms
proof (induction rows stack later rule: later_loop.induct)
  case (1 rows later)
  let ?r = "row_rel rows"
  have "y \<in> later" if "(a, y) \<in> ?r\<^sup>+" for y
    using that 1(3) by (induction rule: trancl_induct) (auto simp: later_ok_def)
  then show ?case using 1(3) by (auto simp: later_ok_def)
next
  case (2 rows x stack later)
  let ?r = "row_rel rows"
  note I = 2(4) [unfolded later_ok_def]
  have x: "x < length rows" "x \<in> insert a later" using I 2(3,5) by auto
  then have row: "vget rows x = Some (rows ! x)" by (simp add: vec_simps)
  obtain stack' later' where f: "foldl push_later (stack, later) (rows ! x) = (stack', later')" by (cases "foldl push_later (stack, later) (rows ! x)")
  note P = push_later_row [OF f]
  have img: "?r `` {x} = set (rows ! x)" using x by (auto simp: row_rel_def)
  have "(a, y) \<in> ?r\<^sup>+" if "y \<in> set (rows ! x)" for y
  proof -
    have "(x, y) \<in> ?r" using that img by auto
    then show ?thesis using x(2) I by (auto intro: trancl_into_trancl)
  qed
  moreover have "y \<in> set stack' \<or> ?r `` {y} \<subseteq> later'" if "y \<in> insert a later'" for y
  proof (cases "y = x \<or> y \<notin> insert a later")
    case True
    then show ?thesis using that P img by auto
  next
    case False
    then have "y \<in> set stack \<or> ?r `` {y} \<subseteq> later" using I by auto
    then show ?thesis using P by auto
  qed
  moreover have "set stack' \<subseteq> insert a later'" using P I by auto
  ultimately have "later_ok ?r a stack' later'" using P I by (auto simp: later_ok_def)
  moreover have "later' \<subseteq> {..<length rows}" using P 2(5) rows_okD [OF 2(2) x(1)] by auto
  ultimately have "later_loop rows stack' later' = Some (?r\<^sup>+ `` {a})" using 2(1) [OF row f [symmetric] 2(2,3)] by blast
  then show ?case using row f by (simp add: later_loop.simps)
qed

lemma later_result: "rows_ok rows \<Longrightarrow> a < length rows \<Longrightarrow> later_loop rows [a] {} = Some ((row_rel rows)\<^sup>+ `` {a})"
  by (rule later_loop_result) (auto simp: later_ok_def)

section \<open>Transfers the edges do not show\<close>

definition escaping :: "FunctionCfg \<Rightarrow> nat set" where
  "escaping g = edge_sources Unsupported (cfg_edges g) \<union> event_blocks g (hidden_transfer_events g)"

text \<open>Control moves over an edge, or from an escaping block to anywhere.\<close>

definition transfer_rel :: "FunctionCfg \<Rightarrow> (nat \<times> nat) set" where
  "transfer_rel g = block_rel g \<union> escaping g \<times> UNIV"

definition loose_blocks :: "FunctionCfg \<Rightarrow> nat set" where
  "loose_blocks g = {b. \<exists>x \<in> escaping g. (b, x) \<in> (block_rel g)\<^sup>*} \<union>
     {b. \<exists>x \<in> event_blocks g (hidden_transfer_events g). (x, b) \<in> (block_rel g)\<^sup>*}"

lemma transfer_trancl:
  assumes "(x, y) \<in> (transfer_rel g)\<^sup>+" "x \<notin> loose_blocks g"
  shows "(x, y) \<in> (block_rel g)\<^sup>+"
proof -
  have no: "z \<notin> escaping g" if "(x, z) \<in> (block_rel g)\<^sup>*" for z using assms(2) that by (auto simp: loose_blocks_def)
  show ?thesis using assms(1)
  proof (induction rule: trancl_induct)
    case (base y)
    then show ?case using no [of x] by (auto simp: transfer_rel_def)
  next
    case (step y z)
    then show ?case using no [of y] by (auto simp: transfer_rel_def intro: trancl_into_trancl dest: trancl_into_rtrancl)
  qed
qed

text \<open>
  Dominance survives the unmodelled transfers when every escaping block is dominated: the
  first transfer of a path starts in a block that the dominator precedes.
\<close>

lemma first_transfer:
  "is_path (transfer_rel g) e xs \<Longrightarrow> is_path (block_rel g) e xs \<or>
     (\<exists>ys. is_path (block_rel g) e ys \<and> last ys \<in> escaping g \<and> set ys \<subseteq> set xs)"
proof (induction xs rule: rev_induct)
  case (snoc y xs)
  show ?case
  proof (cases "xs = []")
    case True
    then show ?thesis using snoc.prems by (simp add: is_path_snoc)
  next
    case False
    then have step: "is_path (transfer_rel g) e xs" "(last xs, y) \<in> block_rel g \<or> last xs \<in> escaping g"
      using snoc.prems by (simp_all add: is_path_snoc transfer_rel_def)
    from snoc.IH [OF step(1)] show ?thesis
    proof
      assume p: "is_path (block_rel g) e xs"
      show ?thesis
      proof (cases "last xs \<in> escaping g")
        case True
        with p show ?thesis by (intro disjI2 exI [of _ xs]) auto
      next
        case nb: False
        with p step(2) False show ?thesis by (simp add: is_path_snoc)
      qed
    qed auto
  qed
qed (simp add: is_path_def)

lemma dominated_transfers:
  assumes "d \<in> doms (block_rel g) e x" "\<And>z. z \<in> escaping g \<Longrightarrow> d = z \<or> d \<in> doms (block_rel g) e z"
  shows "d \<in> doms (transfer_rel g) e x"
  unfolding doms_def
proof (intro CollectI allI impI)
  fix xs assume xs: "is_path (transfer_rel g) e xs" "last xs = x"
  from first_transfer [OF xs(1)] show "d \<in> set xs"
  proof
    assume "is_path (block_rel g) e xs"
    then show ?thesis using assms(1) xs(2) by (auto simp: doms_def)
  next
    assume "\<exists>ys. is_path (block_rel g) e ys \<and> last ys \<in> escaping g \<and> set ys \<subseteq> set xs"
    then obtain ys where ys: "is_path (block_rel g) e ys" "last ys \<in> escaping g" "set ys \<subseteq> set xs" by blast
    have "last ys \<in> set ys" using ys(1) by (simp add: is_path_def)
    then have "d \<in> set ys" using assms(2) [OF ys(2)] ys(1) by (auto simp: doms_def)
    then show ?thesis using ys(3) by blast
  qed
qed

section \<open>What each relation claims\<close>

definition event_block :: "FunctionCfg \<Rightarrow> nat \<Rightarrow> nat" where
  "event_block g e = ev_block (cfg_events g ! e)"

definition gap_over :: "FunctionCfg \<Rightarrow> (GapKind \<Rightarrow> bool) \<Rightarrow> nat \<Rightarrow> bool" where
  "gap_over g P e \<longleftrightarrow> (\<exists>gap \<in> set (cfg_gaps g). P (gap_kind gap) \<and> covers gap e)"

definition shared_gap :: "FunctionCfg \<Rightarrow> nat \<Rightarrow> nat \<Rightarrow> bool" where
  "shared_gap g a b \<longleftrightarrow> (\<exists>gap \<in> set (cfg_gaps g). gap_kind gap = UnorderedBranch \<and> covers gap a \<and> covers gap b)"

text \<open>One event before another in the local order of a segment.\<close>

definition locally_before :: "FunctionCfg \<Rightarrow> (nat \<times> nat) list \<Rightarrow> nat \<Rightarrow> nat \<Rightarrow> bool" where
  "locally_before g seg a b \<longleftrightarrow>
     (if event_block g a = event_block g b then (a, b) \<in> (set (cfg_order g))\<^sup>+
      else snd (seg ! event_block g a) < snd (seg ! event_block g b))"

text \<open>An event of \<open>a\<close>'s block that may leave it early is \<open>a\<close> or comes after it.\<close>

definition exits_after :: "FunctionCfg \<Rightarrow> nat \<Rightarrow> bool" where
  "exits_after g a \<longleftrightarrow> (\<forall>e < length (cfg_events g). event_block g e = event_block g a \<longrightarrow>
     event_block g a \<in> edge_sources Exception (cfg_edges g) \<or> e \<in> hidden_events g \<longrightarrow>
     e = a \<or> (a, e) \<in> (set (cfg_order g))\<^sup>+)"

definition claim :: "FunctionCfg \<Rightarrow> (nat \<times> nat) list \<Rightarrow> nat \<Rightarrow> nat \<Rightarrow> Relation \<Rightarrow> bool" where
  "claim g seg a b rel =
     (let ba = event_block g a; bb = event_block g b; one = (fst (seg ! ba) = fst (seg ! bb));
          reaches = (\<lambda>x y. (x, y) \<in> (block_rel g)\<^sup>+); may_reach = (\<lambda>x y. (x, y) \<in> (transfer_rel g)\<^sup>+);
          loose = (\<lambda>x. x \<in> loose_blocks g)
      in case rel of
        SequencedBefore \<Rightarrow> one \<and> a \<noteq> b \<and> \<not> may_reach ba ba \<and> locally_before g seg a b
      | GuaranteedBefore \<Rightarrow> \<not> one \<and> \<not> may_reach bb ba \<and> ba \<in> doms (transfer_rel g) (cfg_entry g) bb \<and>
          (cfg_entry g, bb) \<in> (normal_rel g)\<^sup>* \<and> exits_after g a
      | MayPrecede \<Rightarrow> \<not> one \<and> \<not> may_reach bb ba \<and> (reaches ba bb \<or> loose ba)
      | MayFollow \<Rightarrow> if one then a \<noteq> b \<and> \<not> may_reach ba ba \<and> locally_before g seg b a
          else \<not> may_reach ba bb \<and> (reaches bb ba \<or> loose bb)
      | MayBoth \<Rightarrow> if one then reaches ba ba \<or> loose ba else (reaches ba bb \<or> loose ba) \<and> (reaches bb ba \<or> loose bb)
      | Exclusive \<Rightarrow> \<not> one \<and> \<not> may_reach ba bb \<and> \<not> may_reach bb ba
      | Unordered \<Rightarrow> shared_gap g a b \<or>
          one \<and> a \<noteq> b \<and> \<not> may_reach ba ba \<and> \<not> locally_before g seg a b \<and> \<not> locally_before g seg b a
      | Unknown \<Rightarrow> a = b \<or> gap_over g (\<lambda>k. k \<noteq> UnorderedBranch) a \<or> gap_over g (\<lambda>k. k \<noteq> UnorderedBranch) b)"

definition claim_founded :: "FunctionCfg \<Rightarrow> nat \<Rightarrow> nat \<Rightarrow> Relation \<Rightarrow> bool" where
  "claim_founded g a b rel \<longleftrightarrow>
     (rel \<noteq> Unknown \<longrightarrow> \<not> gap_over g hides_control a \<and> \<not> gap_over g hides_control b \<and>
        \<not> gap_over g (\<lambda>k. k = Unevaluated) a \<and> \<not> gap_over g (\<lambda>k. k = Unevaluated) b) \<and>
     (rel \<in> {SequencedBefore, GuaranteedBefore} \<longrightarrow>
        \<not> gap_over g (\<lambda>k. k \<noteq> UnorderedBranch) a \<and> \<not> gap_over g (\<lambda>k. k \<noteq> UnorderedBranch) b) \<and>
     (rel \<in> {SequencedBefore, GuaranteedBefore, MayPrecede, MayFollow} \<longrightarrow> \<not> shared_gap g a b)"

section \<open>A loaded graph\<close>

definition loaded :: "FunctionCfg \<Rightarrow> LoadedCfg \<Rightarrow> bool" where
  "loaded g lc \<longleftrightarrow> wf_cfg g \<and> lc_graph lc = g \<and> lc_succ lc = succ_rows g \<and> lc_pred lc = pred_rows g \<and> lc_next_events lc = order_rows g \<and>
     (let f = lc_control lc; n = length (cfg_blocks g) in
       length (cf_escapes f) = n \<and> length (cf_throws f) = n \<and> length (cf_loose f) = n \<and> length (cf_hidden f) = n \<and>
       length (cf_segment f) = n \<and> length (cf_event_gaps f) = length (cfg_events g) \<and>
       marked (cf_escapes f) = escaping g \<and> marked (cf_throws f) = edge_sources Exception (cfg_edges g) \<and>
       marked (cf_loose f) = loose_blocks g \<and>
       (\<forall>b < n. set (cf_hidden f ! b) = {e \<in> hidden_events g. ev_block (cfg_events g ! e) = b}) \<and>
       (\<forall>e < length (cfg_events g). cf_event_gaps f ! e = gaps_over (List.enumerate 0 (cfg_gaps g)) e))"

lemma load_result:
  assumes "wf_cfg g"
  shows "\<exists>lc. load g = Some lc \<and> loaded g lc"
proof -
  from control_facts_result [OF assms] obtain f where
    f: "ControlFacts_of g (succ_rows g) (pred_rows g) = Some f" and F: "loaded g
      \<lparr>lc_graph = g, lc_succ = succ_rows g, lc_pred = pred_rows g, lc_next_events = order_rows g, lc_control = f\<rparr>"
    unfolding Let_def
    by (elim exE conjE) (rule that, assumption, simp add: assms loaded_def escaping_def loose_blocks_def)
  have "load g = Some \<lparr>lc_graph = g, lc_succ = succ_rows g, lc_pred = pred_rows g, lc_next_events = order_rows g, lc_control = f\<rparr>"
    using f adjacency_rows [OF assms] next_events_rows [OF assms] by (simp add: load_def)
  with F show ?thesis by blast
qed

lemma loadedD:
  assumes "loaded g lc"
  shows "wf_cfg g" "lc_graph lc = g" "lc_succ lc = succ_rows g" "lc_next_events lc = order_rows g"
    and "e < length (cfg_events g) \<Longrightarrow> block_of lc e = Some (event_block g e)"
    and "e < length (cfg_events g) \<Longrightarrow> event_block g e < length (cfg_blocks g)"
    and "b < length (cfg_blocks g) \<Longrightarrow> vget (cf_throws (lc_control lc)) b = Some (b \<in> edge_sources Exception (cfg_edges g))"
    and "b < length (cfg_blocks g) \<Longrightarrow> vget (cf_loose (lc_control lc)) b = Some (b \<in> loose_blocks g)"
    and "b < length (cfg_blocks g) \<Longrightarrow> vget (cf_segment (lc_control lc)) b = Some (cf_segment (lc_control lc) ! b)"
    and "e < length (cfg_events g) \<Longrightarrow> vget (cf_event_gaps (lc_control lc)) e = Some (gaps_over (List.enumerate 0 (cfg_gaps g)) e)"
proof -
  let ?f = "lc_control lc" and ?n = "length (cfg_blocks g)"
  note L = assms [unfolded loaded_def Let_def]
  show wf: "wf_cfg g" "lc_graph lc = g" "lc_succ lc = succ_rows g" "lc_next_events lc = order_rows g" using L by blast+
  show "block_of lc e = Some (event_block g e)" "event_block g e < ?n" if "e < length (cfg_events g)"
    using that wf wf_cfgD(5) [OF wf(1) that] by (simp_all add: block_of_def event_block_def vec_simps)
  have get: "vget xs b = Some (b \<in> marked xs)" if "b < length xs" for xs b using that by (simp add: vec_simps marked_def)
  show "vget (cf_throws ?f) b = Some (b \<in> edge_sources Exception (cfg_edges g))" if "b < ?n"
    using get [of b "cf_throws ?f"] L that by metis
  show "vget (cf_loose ?f) b = Some (b \<in> loose_blocks g)" if "b < ?n" using get [of b "cf_loose ?f"] L that by metis
  show "vget (cf_segment ?f) b = Some (cf_segment ?f ! b)" if "b < ?n" using L that by (simp add: vec_simps)
  show "vget (cf_event_gaps ?f) e = Some (gaps_over (List.enumerate 0 (cfg_gaps g)) e)" if "e < length (cfg_events g)"
    using L that by (simp add: vec_simps)
qed

lemma early_exits_result:
  assumes "loaded g lc" "b < length (cfg_blocks g)"
  shows "\<exists>exits. early_exits lc b = Some exits \<and> set exits = {e. e < length (cfg_events g) \<and> event_block g e = b \<and>
    (b \<in> edge_sources Exception (cfg_edges g) \<or> e \<in> hidden_events g)}"
proof -
  note D = loadedD [OF assms(1)]
  have hid: "length (cf_hidden (lc_control lc)) = length (cfg_blocks g)"
    "set (cf_hidden (lc_control lc) ! b) = {e \<in> hidden_events g. ev_block (cfg_events g ! e) = b}"
    using assms unfolding loaded_def Let_def by blast+
  show ?thesis
  proof (cases "b \<in> edge_sources Exception (cfg_edges g)")
    case True
    then show ?thesis using D(2) D(7) [OF assms(2)] assms(2) wf_cfgD(9) [OF D(1) assms(2)]
      by (simp add: early_exits_def vec_simps event_block_def)
  next
    case False
    then show ?thesis using D(7) [OF assms(2)] assms(2) hid
      by (auto simp: early_exits_def vec_simps event_block_def hidden_events_def)
  qed
qed

section \<open>Guarantees\<close>

definition dominance_ok :: "FunctionCfg \<Rightarrow> Dominance \<Rightarrow> bool" where
  "dominance_ok g dm \<longleftrightarrow>
     (\<forall>a b. b < length (cfg_blocks g) \<longrightarrow> (\<exists>q. dominates (dm_idom dm) a b = Some q \<and>
        (q \<longrightarrow> a = b \<or> a \<in> doms (block_rel g) (cfg_entry g) b))) \<and>
     length (dm_normal dm) = length (cfg_blocks g) \<and> marked (dm_normal dm) = (normal_rel g)\<^sup>* `` {cfg_entry g}"

lemma dominance_result:
  assumes "wf_cfg g"
  shows "\<exists>dm. dominators g (succ_rows g) (pred_rows g) = Some dm \<and> dominance_ok g dm"
proof -
  from dominators_result [OF assms] obtain dm where
    dm: "dominators g (succ_rows g) (pred_rows g) = Some dm"
      "\<forall>a b. (cfg_entry g, b) \<in> (block_rel g)\<^sup>* \<longrightarrow> dominates (dm_idom dm) a b = Some (a \<in> doms (block_rel g) (cfg_entry g) b)"
      "\<forall>a b. b < length (cfg_blocks g) \<longrightarrow> (cfg_entry g, b) \<notin> (block_rel g)\<^sup>* \<longrightarrow> dominates (dm_idom dm) a b = Some (a = b)"
      "length (dm_normal dm) = length (cfg_blocks g)" "marked (dm_normal dm) = (normal_rel g)\<^sup>* `` {cfg_entry g}"
    by (elim exE conjE) (rule that)
  have "\<exists>q. dominates (dm_idom dm) a b = Some q \<and> (q \<longrightarrow> a = b \<or> a \<in> doms (block_rel g) (cfg_entry g) b)"
    if "b < length (cfg_blocks g)" for a b
    using dm(2,3) that by (cases "(cfg_entry g, b) \<in> (block_rel g)\<^sup>*") simp_all
  with dm show ?thesis unfolding dominance_ok_def by blast
qed

lemma dominance_okD:
  "dominance_ok g dm \<Longrightarrow> b < length (cfg_blocks g) \<Longrightarrow> dominates (dm_idom dm) a b = Some True \<Longrightarrow>
     a = b \<or> a \<in> doms (block_rel g) (cfg_entry g) b"
  unfolding dominance_ok_def by (metis option.inject)

lemma dominates_at_self: "a \<in> doms r e a"
  by (auto simp: doms_def is_path_def)

lemma escapes_follow_result:
  assumes l: "loaded g lc" and d: "dominance_ok g dm" and a: "a < length (cfg_events g)"
  shows "\<exists>q. escapes_follow lc a dm = Some q \<and>
    (q \<longrightarrow> (\<forall>z \<in> escaping g. event_block g a = z \<or> event_block g a \<in> doms (block_rel g) (cfg_entry g) z) \<and> exits_after g a)"
proof -
  note D = loadedD [OF l]
  let ?ba = "event_block g a" and ?esc = "cf_escapes (lc_control lc)" and ?n = "length (cfg_blocks g)"
  let ?p = "\<lambda>(b, escapes). if \<not> escapes \<or> b = ?ba then Some True else dominates (dm_idom dm) ?ba b"
  have ba: "?ba < ?n" using D(6) [OF a] .
  have esc: "length ?esc = ?n" "marked ?esc = escaping g" using l unfolding loaded_def Let_def by blast+
  have tot: "?p x \<noteq> None" if "x \<in> set (List.enumerate 0 ?esc)" for x
  proof -
    obtain b e where x: "x = (b, e)" by (cases x)
    then have "b < ?n" using that esc(1) by (simp add: in_set_enumerate_eq)
    then have "dominates (dm_idom dm) ?ba b \<noteq> None" using d unfolding dominance_ok_def by fastforce
    then show ?thesis by (cases "\<not> e \<or> b = ?ba") (simp_all add: x)
  qed
  define ok where "ok \<longleftrightarrow> (\<forall>x \<in> set (List.enumerate 0 ?esc). ?p x = Some True)"
  have all: "allM ?p (List.enumerate 0 ?esc) = Some ok" unfolding ok_def by (rule allM_total) (rule tot)
  have dom: "?ba = z \<or> ?ba \<in> doms (block_rel g) (cfg_entry g) z" if ok "z \<in> escaping g" for z
  proof -
    have z: "z < ?n" "?esc ! z" using that(2) esc by (auto simp: marked_def)
    then have "(z, ?esc ! z) \<in> set (List.enumerate 0 ?esc)" using esc(1) by (simp add: in_set_enumerate_eq)
    then have "?p (z, ?esc ! z) = Some True" using that(1) unfolding ok_def by blast
    then have "z = ?ba \<or> dominates (dm_idom dm) ?ba z = Some True" using z(2) by (auto split: if_splits)
    then show ?thesis using dominance_okD [OF d z(1)] by blast
  qed
  from early_exits_result [OF l ba] obtain exits where
    x: "early_exits lc ?ba = Some exits" "set exits = {e. e < length (cfg_events g) \<and> event_block g e = ?ba \<and>
      (?ba \<in> edge_sources Exception (cfg_edges g) \<or> e \<in> hidden_events g)}" by blast
  have later: "later_loop (lc_next_events lc) [a] {} = Some ((set (cfg_order g))\<^sup>+ `` {a})"
    using later_result [of "order_rows g" a] rows_facts(3,6,9) [OF D(1)] a D(4) by simp
  have ex: "exits_after g a" if "\<forall>e \<in> set exits. e = a \<or> (a, e) \<in> (set (cfg_order g))\<^sup>+"
    using that unfolding x(2) exits_after_def by blast
  show ?thesis
  proof (cases "ok \<and> \<not> list_all (\<lambda>e. e = a) exits")
    case True
    then have "escapes_follow lc a dm = Some (list_all (\<lambda>e. e = a \<or> e \<in> (set (cfg_order g))\<^sup>+ `` {a}) exits)"
      using D(5) [OF a] all x(1) later by (simp add: escapes_follow_def)
    moreover have "exits_after g a" if "list_all (\<lambda>e. e = a \<or> e \<in> (set (cfg_order g))\<^sup>+ `` {a}) exits"
      using that by (intro ex) (auto simp: list_all_iff)
    ultimately show ?thesis using dom True by blast
  next
    case False
    then have "escapes_follow lc a dm = Some ok"
      using D(5) [OF a] all x(1) by (cases ok) (simp_all add: escapes_follow_def)
    moreover have "exits_after g a" if ok using False that by (intro ex) (auto simp: list_all_iff)
    ultimately show ?thesis using dom by blast
  qed
qed

lemma guarantees_result:
  assumes l: "loaded g lc" and d: "dominance_ok g dm" and a: "a < length (cfg_events g)" and to: "to < length (cfg_blocks g)"
  shows "\<exists>q. guarantees lc a to dm = Some q \<and> (q \<longrightarrow> event_block g a \<in> doms (transfer_rel g) (cfg_entry g) to \<and>
    (cfg_entry g, to) \<in> (normal_rel g)\<^sup>* \<and> exits_after g a)"
proof -
  note D = loadedD [OF l]
  let ?ba = "event_block g a" and ?s = "cf_segment (lc_control lc) ! event_block g a"
  note b = D(6) [OF a]
  have n: "vget (dm_normal dm) to = Some ((cfg_entry g, to) \<in> (normal_rel g)\<^sup>*)"
  proof -
    have "dm_normal dm ! to \<longleftrightarrow> to \<in> marked (dm_normal dm)" using d to by (simp add: dominance_ok_def marked_def)
    then show ?thesis using d to by (simp add: dominance_ok_def vec_simps)
  qed
  from d to obtain q where q: "dominates (dm_idom dm) ?ba to = Some q" "q \<longrightarrow> ?ba = to \<or> ?ba \<in> doms (block_rel g) (cfg_entry g) to"
    unfolding dominance_ok_def by blast
  from escapes_follow_result [OF l d a] obtain p where
    p: "escapes_follow lc a dm = Some p"
      "p \<longrightarrow> (\<forall>z \<in> escaping g. ?ba = z \<or> ?ba \<in> doms (block_rel g) (cfg_entry g) z) \<and> exits_after g a" by blast
  have dom: "?ba \<in> doms (transfer_rel g) (cfg_entry g) to" if "q" "p"
  proof (cases "?ba = to")
    case True
    then show ?thesis by (simp add: dominates_at_self)
  next
    case False
    then show ?thesis using q(2) p(2) that by (intro dominated_transfers) blast+
  qed
  define t where "t \<longleftrightarrow> 0 < snd ?s \<and> ?ba \<in> edge_sources Exception (cfg_edges g)"
  have "guarantees lc a to dm = Some (\<not> t \<and> (cfg_entry g, to) \<in> (normal_rel g)\<^sup>* \<and> q \<and> p)"
    using D(5) [OF a] D(9) [OF b] D(7) [OF b] n q(1) p(1) by (simp add: guarantees_def t_def)
  then show ?thesis using dom p(2) by blast
qed

lemma order_reaches_result:
  assumes l: "loaded g lc" and a: "a < length (cfg_events g)" and b: "b < length (cfg_events g)"
  shows "order_reaches lc a b = Some (locally_before g (cf_segment (lc_control lc)) a b)"
proof -
  note D = loadedD [OF l]
  note R = rows_facts(3,6,9) [OF D(1)]
  from search_result [OF R(1), of "replicate (length (cfg_events g)) False" a "\<lambda>y. y = b"] R(2,3) a obtain q seen where
    s: "search a (replicate (length (cfg_events g)) False) (vget (order_rows g)) (\<lambda>y. y = b) = Some (q, seen)"
      "searched (set (cfg_order g)) (\<lambda>y. y = b) a {} q (marked seen)" by auto
  have "q \<longleftrightarrow> (a, b) \<in> (set (cfg_order g))\<^sup>+" using searched_fresh(1) [OF s(2)] by auto
  then show ?thesis using D(2,4) D(5,6) [OF a] D(5,6) [OF b] D(9) s(1)
    by (simp add: order_reaches_def locally_before_def)
qed

section \<open>Relating two events\<close>

lemma relate_within_result:
  assumes l: "loaded g lc" and a: "a < length (cfg_events g)" and b: "b < length (cfg_events g)"
    and one: "fst (cf_segment (lc_control lc) ! event_block g a) = fst (cf_segment (lc_control lc) ! event_block g b)"
    and again: "again \<longleftrightarrow> (event_block g a, event_block g a) \<in> (block_rel g)\<^sup>+ \<or> event_block g a \<in> loose_blocks g"
  shows "(\<exists>rel. relate_within lc a b again = Some (Inr rel) \<and> claim g (cf_segment (lc_control lc)) a b rel \<and> rel \<noteq> Unknown) \<or>
    (a = b \<and> relate_within lc a b again = Some (Inl (Unknown, [''both positions name the same invocation''])))"
proof -
  let ?seg = "cf_segment (lc_control lc)"
  note o = order_reaches_result [OF l a b] order_reaches_result [OF l b a]
  consider "again" | "\<not> again" "a = b" | "\<not> again" "a \<noteq> b" "locally_before g ?seg a b"
    | "\<not> again" "a \<noteq> b" "\<not> locally_before g ?seg a b" "locally_before g ?seg b a"
    | "\<not> again" "a \<noteq> b" "\<not> locally_before g ?seg a b" "\<not> locally_before g ?seg b a" by blast
  then show ?thesis
  proof cases
    case 1
    then show ?thesis using one again by (simp add: relate_within_def claim_def)
  next
    case 2
    then show ?thesis by (simp add: relate_within_def)
  next
    case 3
    then show ?thesis using o one again transfer_trancl by (auto simp: relate_within_def claim_def Let_def)
  next
    case 4
    then show ?thesis using o one again transfer_trancl by (auto simp: relate_within_def claim_def Let_def)
  next
    case 5
    then show ?thesis using o one again transfer_trancl by (auto simp: relate_within_def claim_def Let_def)
  qed
qed

lemma relate_across_result:
  assumes l: "loaded g lc" and d: "dominance_ok g dm" and a: "a < length (cfg_events g)" and b: "b < length (cfg_events g)"
    and two: "fst (cf_segment (lc_control lc) ! event_block g a) \<noteq> fst (cf_segment (lc_control lc) ! event_block g b)"
    and f: "length forward = length (cfg_blocks g)" "marked forward = (block_rel g)\<^sup>+ `` {event_block g a}"
  shows "\<exists>loosened rel. relate_across lc a (event_block g a) (event_block g b) forward dm (event_block g a \<in> loose_blocks g) =
    Some (loosened, rel) \<and> claim g (cf_segment (lc_control lc)) a b rel \<and> rel \<noteq> Unknown"
proof -
  note D = loadedD [OF l]
  let ?ba = "event_block g a" and ?bb = "event_block g b" and ?r = "block_rel g"
  define f where "f \<longleftrightarrow> (?ba, ?bb) \<in> ?r\<^sup>+"
  define k where "k \<longleftrightarrow> (?bb, ?ba) \<in> ?r\<^sup>+"
  define la where "la \<longleftrightarrow> ?ba \<in> loose_blocks g"
  define lb where "lb \<longleftrightarrow> ?bb \<in> loose_blocks g"
  note R = rows_facts(1,4,7) [OF D(1)]
  from reach_result [OF R(1), of ?bb] R(2,3) D(6) [OF b] obtain bk where
    k: "reach (succ_rows g) ?bb = Some bk" "length bk = length (cfg_blocks g)" "marked bk = ?r\<^sup>+ `` {?bb}" by auto
  have "forward ! ?bb \<longleftrightarrow> ?bb \<in> marked forward" "bk ! ?ba \<longleftrightarrow> ?ba \<in> marked bk"
    using D(6) [OF a] D(6) [OF b] assms(6) k(2) by (simp_all add: marked_def)
  then have v: "vget forward ?bb = Some f" "vget bk ?ba = Some k"
    using D(6) [OF a] D(6) [OF b] assms(6,7) k(2,3) by (simp_all add: f_def k_def vec_simps)
  note L = D(8) [OF D(6) [OF b], folded lb_def]
  from guarantees_result [OF l d a D(6) [OF b]] obtain q where
    q: "guarantees lc a ?bb dm = Some q" "q \<longrightarrow> ?ba \<in> doms (transfer_rel g) (cfg_entry g) ?bb \<and>
      (cfg_entry g, ?bb) \<in> (normal_rel g)\<^sup>* \<and> exits_after g a" by blast
  define rel where "rel = (if f \<or> la then (if k \<or> lb then MayBoth else if q then GuaranteedBefore else MayPrecede)
     else if k \<or> lb then MayFollow else Exclusive)"
  have "relate_across lc a ?ba ?bb forward dm la = Some (la \<and> \<not> f \<or> lb \<and> \<not> k, rel)"
    using D(3) k(1) v L q(1) by (auto simp: relate_across_def rel_def)
  moreover have "(?ba, ?bb) \<notin> (transfer_rel g)\<^sup>+" if "\<not> (f \<or> la)" using that transfer_trancl unfolding f_def la_def by blast
  moreover have "(?bb, ?ba) \<notin> (transfer_rel g)\<^sup>+" if "\<not> (k \<or> lb)" using that transfer_trancl unfolding k_def lb_def by blast
  ultimately show ?thesis using two q(2) unfolding la_def [symmetric]
    by (intro exI [of _ "la \<and> \<not> f \<or> lb \<and> \<not> k"] exI [of _ rel])
      (auto simp: rel_def claim_def Let_def f_def [symmetric] k_def [symmetric] la_def [symmetric] lb_def [symmetric])
qed

lemma gap_over_facts:
  "eg_hides_control (gaps_over (List.enumerate 0 (cfg_gaps g)) e) = None \<longleftrightarrow> \<not> gap_over g hides_control e"
  "eg_unevaluated (gaps_over (List.enumerate 0 (cfg_gaps g)) e) \<longleftrightarrow> gap_over g (\<lambda>k. k = Unevaluated) e"
  "eg_unorders (gaps_over (List.enumerate 0 (cfg_gaps g)) e) = None \<longleftrightarrow> \<not> gap_over g (\<lambda>k. k \<noteq> UnorderedBranch) e"
proof -
  have ex: "(\<exists>ig \<in> set (List.enumerate 0 (cfg_gaps g)). P (snd ig)) \<longleftrightarrow> (\<exists>gap \<in> set (cfg_gaps g). P gap)" for P
    by (metis (no_types, lifting) image_iff map_snd_enumerate set_map)
  show "eg_hides_control (gaps_over (List.enumerate 0 (cfg_gaps g)) e) = None \<longleftrightarrow> \<not> gap_over g hides_control e"
    "eg_unevaluated (gaps_over (List.enumerate 0 (cfg_gaps g)) e) \<longleftrightarrow> gap_over g (\<lambda>k. k = Unevaluated) e"
    "eg_unorders (gaps_over (List.enumerate 0 (cfg_gaps g)) e) = None \<longleftrightarrow> \<not> gap_over g (\<lambda>k. k \<noteq> UnorderedBranch) e"
    using ex [of "\<lambda>gap. covers gap e \<and> hides_control (gap_kind gap)"] ex [of "\<lambda>gap. covers gap e \<and> gap_kind gap = Unevaluated"]
      ex [of "\<lambda>gap. covers gap e \<and> gap_kind gap \<noteq> UnorderedBranch"]
    unfolding gaps_over_facts gap_over_def by (simp_all add: conj_commute)
qed

lemma shared_result:
  assumes "lc_graph lc = g"
  shows "anyM (\<lambda>i. map_option (\<lambda>gap. covers gap b) (vget (cfg_gaps (lc_graph lc)) i))
    (eg_unordered_branch (gaps_over (List.enumerate 0 (cfg_gaps g)) a)) = Some (shared_gap g a b)"
proof -
  let ?is = "eg_unordered_branch (gaps_over (List.enumerate 0 (cfg_gaps g)) a)"
  have js: "set ?is = {i. i < length (cfg_gaps g) \<and> covers (cfg_gaps g ! i) a \<and> gap_kind (cfg_gaps g ! i) = UnorderedBranch}"
    unfolding gaps_over_facts by (auto simp: in_set_enumerate_eq image_iff)
  have "(\<exists>i \<in> set ?is. map_option (\<lambda>gap. covers gap b) (vget (cfg_gaps g) i) = Some True) \<longleftrightarrow> shared_gap g a b"
    unfolding js shared_gap_def by (auto simp: vec_simps in_set_conv_nth Bex_def)
  moreover have "map_option (\<lambda>gap. covers gap b) (vget (cfg_gaps g) i) \<noteq> None" if "i \<in> set ?is" for i
    using that unfolding js by (simp add: vec_simps)
  ultimately show ?thesis using anyM_total [of ?is] by (simp add: assms)
qed

lemma finish_relation_result:
  assumes "lc_graph lc = g" "claim g seg a b rel" "rel \<noteq> Unknown"
    and "\<not> gap_over g hides_control a" "\<not> gap_over g hides_control b"
    and "\<not> gap_over g (\<lambda>k. k = Unevaluated) a" "\<not> gap_over g (\<lambda>k. k = Unevaluated) b"
  shows "\<exists>rel' notes. finish_relation lc (gaps_over (List.enumerate 0 (cfg_gaps g)) a) (gaps_over (List.enumerate 0 (cfg_gaps g)) b)
    b loosened rel = Some (rel', notes) \<and> claim g seg a b rel' \<and> claim_founded g a b rel'"
proof -
  let ?ga = "gaps_over (List.enumerate 0 (cfg_gaps g)) a" and ?gb = "gaps_over (List.enumerate 0 (cfg_gaps g)) b"
  note S = shared_result [OF assms(1), of b a]
  note U = gap_over_facts(3) [of g a] gap_over_facts(3) [of g b]
  let ?u = "case eg_unorders ?ga of None \<Rightarrow> eg_unorders ?gb | Some k \<Rightarrow> Some k"
  consider (shared) "shared_gap g a b" "rel \<in> {SequencedBefore, GuaranteedBefore, MayPrecede, MayFollow}"
    | (gap) kind where "\<not> (shared_gap g a b \<and> rel \<in> {SequencedBefore, GuaranteedBefore, MayPrecede, MayFollow})"
        "rel \<in> {SequencedBefore, GuaranteedBefore}" "?u = Some kind"
    | (kept) "\<not> (shared_gap g a b \<and> rel \<in> {SequencedBefore, GuaranteedBefore, MayPrecede, MayFollow})"
        "rel \<in> {SequencedBefore, GuaranteedBefore} \<longrightarrow> ?u = None" by (cases ?u) blast+
  then show ?thesis
  proof cases
    case shared
    then have "finish_relation lc ?ga ?gb b loosened rel = Some (Unordered, [''both lie in one unordered_branch gap''])"
      using S by (auto simp: finish_relation_def)
    then show ?thesis using shared(1) assms(4-7) by (simp add: claim_def Let_def claim_founded_def)
  next
    case gap
    then have "finish_relation lc ?ga ?gb b loosened rel =
        Some (Unknown, [''a '' @ GapKind_as_str kind @ '' gap covers an end; its order is not modeled''])"
      using S by (auto simp: finish_relation_def)
    moreover have "gap_over g (\<lambda>k. k \<noteq> UnorderedBranch) a \<or> gap_over g (\<lambda>k. k \<noteq> UnorderedBranch) b"
      using gap(3) U by (auto split: option.splits)
    ultimately show ?thesis by (simp add: claim_def Let_def claim_founded_def)
  next
    case kept
    then have "\<exists>notes. finish_relation lc ?ga ?gb b loosened rel = Some (rel, notes)"
      using S by (auto simp: finish_relation_def)
    moreover have "claim_founded g a b rel" using kept assms(3-7) U by (auto simp: claim_founded_def split: option.splits)
    ultimately show ?thesis using assms(2) by blast
  qed
qed

lemma hides_control_orders: "gap_over g hides_control e \<Longrightarrow> gap_over g (\<lambda>k. k \<noteq> UnorderedBranch) e"
  "gap_over g (\<lambda>k. k = Unevaluated) e \<Longrightarrow> gap_over g (\<lambda>k. k \<noteq> UnorderedBranch) e"
  unfolding gap_over_def hides_control_def by (metis GapKind.distinct GapKind.simps GapKind.exhaust)+

lemma relate_result:
  assumes l: "loaded g lc" and d: "dominance_ok g dm" and a: "a < length (cfg_events g)" and b: "b < length (cfg_events g)"
    and f: "length forward = length (cfg_blocks g)" "marked forward = (block_rel g)\<^sup>+ `` {event_block g a}"
  shows "\<exists>rel notes. relate lc a b forward dm = Some (rel, notes) \<and> claim g (cf_segment (lc_control lc)) a b rel \<and> claim_founded g a b rel"
proof -
  note D = loadedD [OF l]
  let ?ga = "gaps_over (List.enumerate 0 (cfg_gaps g)) a" and ?gb = "gaps_over (List.enumerate 0 (cfg_gaps g)) b"
  let ?ba = "event_block g a" and ?bb = "event_block g b" and ?seg = "cf_segment (lc_control lc)"
  have fba: "vget forward ?ba = Some ((?ba, ?ba) \<in> (block_rel g)\<^sup>+)"
  proof -
    have "forward ! ?ba \<longleftrightarrow> ?ba \<in> marked forward" using D(6) [OF a] f(1) by (simp add: marked_def)
    then show ?thesis using D(6) [OF a] f by (simp add: vec_simps)
  qed
  note G = D(10) [OF a] D(10) [OF b] D(5) [OF a] D(5) [OF b] D(8) [OF D(6) [OF a]] D(9) [OF D(6) [OF a]] D(9) [OF D(6) [OF b]] fba
  consider (hidden) kind where "(case eg_hides_control ?ga of None \<Rightarrow> eg_hides_control ?gb | Some k \<Rightarrow> Some k) = Some kind"
    | (never) "eg_hides_control ?ga = None" "eg_hides_control ?gb = None" "eg_unevaluated ?ga \<or> eg_unevaluated ?gb"
    | (one) "eg_hides_control ?ga = None" "eg_hides_control ?gb = None" "\<not> (eg_unevaluated ?ga \<or> eg_unevaluated ?gb)"
        "fst (?seg ! ?ba) = fst (?seg ! ?bb)"
    | (two) "eg_hides_control ?ga = None" "eg_hides_control ?gb = None" "\<not> (eg_unevaluated ?ga \<or> eg_unevaluated ?gb)"
        "fst (?seg ! ?ba) \<noteq> fst (?seg ! ?bb)" by (cases "eg_hides_control ?ga"; cases "eg_hides_control ?gb") auto
  then show ?thesis
  proof cases
    case hidden
    then have "gap_over g hides_control a \<or> gap_over g hides_control b" using gap_over_facts(1) [of g a] gap_over_facts(1) [of g b]
      by (cases "eg_hides_control ?ga") simp_all
    then have "gap_over g (\<lambda>k. k \<noteq> UnorderedBranch) a \<or> gap_over g (\<lambda>k. k \<noteq> UnorderedBranch) b" using hides_control_orders(1) by blast
    then show ?thesis using hidden G by (simp add: relate_def claim_def Let_def claim_founded_def)
  next
    case never
    then have "gap_over g (\<lambda>k. k \<noteq> UnorderedBranch) a \<or> gap_over g (\<lambda>k. k \<noteq> UnorderedBranch) b"
      using gap_over_facts(2) [of g] hides_control_orders(2) by blast
    then show ?thesis using never G by (simp add: relate_def claim_def Let_def claim_founded_def)
  next
    case one
    then have clean: "\<not> gap_over g hides_control a" "\<not> gap_over g hides_control b"
      "\<not> gap_over g (\<lambda>k. k = Unevaluated) a" "\<not> gap_over g (\<lambda>k. k = Unevaluated) b" using gap_over_facts [of g] by blast+
    from relate_within_result [OF l a b one(4) refl] show ?thesis
    proof
      assume "\<exists>rel. relate_within lc a b ((?ba, ?ba) \<in> (block_rel g)\<^sup>+ \<or> ?ba \<in> loose_blocks g) = Some (Inr rel) \<and>
        claim g ?seg a b rel \<and> rel \<noteq> Unknown"
      then obtain rel where w: "relate_within lc a b ((?ba, ?ba) \<in> (block_rel g)\<^sup>+ \<or> ?ba \<in> loose_blocks g) = Some (Inr rel)"
        "claim g ?seg a b rel" "rel \<noteq> Unknown" by blast
      have "relate lc a b forward dm = finish_relation lc ?ga ?gb b (?ba \<in> loose_blocks g \<and> (?ba, ?ba) \<notin> (block_rel g)\<^sup>+) rel"
        using one G w(1) by (auto simp: relate_def)
      then show ?thesis using finish_relation_result [OF D(2) w(2,3) clean] by simp
    next
      assume s: "a = b \<and> relate_within lc a b ((?ba, ?ba) \<in> (block_rel g)\<^sup>+ \<or> ?ba \<in> loose_blocks g) =
        Some (Inl (Unknown, [''both positions name the same invocation'']))"
      then have "relate lc a b forward dm = Some (Unknown, [''both positions name the same invocation''])"
        using one G by (auto simp: relate_def)
      then show ?thesis using s by (simp add: claim_def Let_def claim_founded_def)
    qed
  next
    case two
    then have clean: "\<not> gap_over g hides_control a" "\<not> gap_over g hides_control b"
      "\<not> gap_over g (\<lambda>k. k = Unevaluated) a" "\<not> gap_over g (\<lambda>k. k = Unevaluated) b" using gap_over_facts [of g] by blast+
    from relate_across_result [OF l d a b two(4) f] obtain loosened rel where
      w: "relate_across lc a ?ba ?bb forward dm (?ba \<in> loose_blocks g) = Some (loosened, rel)" "claim g ?seg a b rel" "rel \<noteq> Unknown"
      by blast
    have "relate lc a b forward dm = finish_relation lc ?ga ?gb b loosened rel" using two G w(1) by (auto simp: relate_def)
    then show ?thesis using finish_relation_result [OF D(2) w(2,3) clean] by simp
  qed
qed

section \<open>Combining relations\<close>

text \<open>
  One relation is below another when the other claims no more: a proof weakens to a possible
  order, a possible order to both orders, and everything to \<open>unknown\<close>.
\<close>

instantiation Relation :: order
begin

definition less_eq_Relation :: "Relation \<Rightarrow> Relation \<Rightarrow> bool" where
  "less_eq_Relation r s \<longleftrightarrow> r = s \<or> s = Unknown \<or> (s = MayBoth \<and> r \<noteq> Unknown) \<or>
     (s = MayPrecede \<and> r \<in> {SequencedBefore, GuaranteedBefore, Exclusive}) \<or>
     (s = MayFollow \<and> r = Exclusive) \<or> (s = GuaranteedBefore \<and> r = SequencedBefore)"

definition less_Relation :: "Relation \<Rightarrow> Relation \<Rightarrow> bool" where
  "less_Relation r s \<longleftrightarrow> r \<le> s \<and> r \<noteq> s"

instance
proof
  fix x y z :: Relation
  show "x < y \<longleftrightarrow> x \<le> y \<and> \<not> y \<le> x" by (auto simp: less_Relation_def less_eq_Relation_def)
  show "x \<le> x" by (simp add: less_eq_Relation_def)
  show "x \<le> y \<Longrightarrow> y \<le> z \<Longrightarrow> x \<le> z" by (auto simp: less_eq_Relation_def)
  show "x \<le> y \<Longrightarrow> y \<le> x \<Longrightarrow> x = y" by (auto simp: less_eq_Relation_def)
qed

end

lemma successively_eq: "(\<And>x. x \<in> set xs \<Longrightarrow> x = c) \<Longrightarrow> successively (=) xs"
  by (induction xs rule: induct_list012) auto

lemma successively_eqD: "successively (=) (x # xs) \<Longrightarrow> y \<in> set (x # xs) \<Longrightarrow> y = x"
  by (induction xs arbitrary: x) auto

lemma combine_upper: "combine rs = Some c \<Longrightarrow> r \<in> set rs \<Longrightarrow> r \<le> c"
proof (cases "successively (=) rs")
  case True
  assume "combine rs = Some c" "r \<in> set rs"
  with True have "r = c" using successively_eqD [of "hd rs" "tl rs" r] by (cases rs) (auto simp: combine_def vec_simps)
  then show ?thesis by simp
next
  case False
  assume "combine rs = Some c" "r \<in> set rs"
  with False show ?thesis
    by (cases r) (auto simp: combine_def Let_def less_eq_Relation_def list_all_iff list_ex_iff split: if_splits)
qed

lemma combine_least:
  assumes c: "combine rs = Some c" and d: "\<And>r. r \<in> set rs \<Longrightarrow> r \<le> d" and ne: "rs \<noteq> []"
  shows "c \<le> d"
proof (cases "successively (=) rs")
  case True
  then have "c \<in> set rs" using c ne by (cases rs) (auto simp: combine_def vec_simps)
  then show ?thesis using d by blast
next
  case False
  note F = False
  have single: False if "\<And>r. r \<le> d \<Longrightarrow> r = d" using successively_eq [of rs d] False d that by blast
  show ?thesis
  proof (cases d)
    case GuaranteedBefore
    then have "list_all (\<lambda>r. r = SequencedBefore \<or> r = GuaranteedBefore) rs" "Unknown \<notin> set rs"
      using d by (auto simp: less_eq_Relation_def list_all_iff)
    then show ?thesis using c F GuaranteedBefore by (simp add: combine_def)
  next
    case MayPrecede
    then have "\<forall>r \<in> set rs. r \<in> {SequencedBefore, GuaranteedBefore, Exclusive, MayPrecede}"
      using d by (auto simp: less_eq_Relation_def)
    then show ?thesis using c F MayPrecede by (auto simp: combine_def Let_def less_eq_Relation_def list_ex_iff split: if_splits)
  next
    case MayFollow
    then have "\<forall>r \<in> set rs. r \<in> {Exclusive, MayFollow}" using d by (auto simp: less_eq_Relation_def)
    then show ?thesis using c F MayFollow ne
      by (auto simp: combine_def Let_def less_eq_Relation_def list_ex_iff list_all_iff neq_Nil_conv split: if_splits)
  next
    case MayBoth
    then have "Unknown \<notin> set rs" using d by (auto simp: less_eq_Relation_def)
    then show ?thesis using c F MayBoth by (auto simp: combine_def Let_def less_eq_Relation_def split: if_splits)
  qed (use single in \<open>auto simp: less_eq_Relation_def\<close>)
qed

section \<open>Properties\<close>

text \<open>C9: relating two events of a well-formed graph never panics, and the answer claims only what
  every execution shows. \<open>exclusive\<close> and the one-sided answers rule out a path even through a
  transfer the graph does not model; \<open>guaranteed_before\<close> holds because every path from the entry to
  the second event's block, such transfers included, passes the first event's block, whose early
  leaves all come after the event; \<open>sequenced_before\<close> is the local order of one segment off every
  cycle. No proof is claimed under a gap, and no order inside a shared \<open>unordered_branch\<close> gap.
\<close>

theorem relate_sound:
  assumes "wf_cfg g" and "a < length (cfg_events g)" and "b < length (cfg_events g)"
  shows "\<exists>lc forward dm rel notes. load g = Some lc \<and> reach (lc_succ lc) (event_block g a) = Some forward \<and>
    dominators g (lc_succ lc) (lc_pred lc) = Some dm \<and> relate lc a b forward dm = Some (rel, notes) \<and>
    claim g (cf_segment (lc_control lc)) a b rel \<and> claim_founded g a b rel"
proof -
  from load_result [OF assms(1)] obtain lc where lc: "load g = Some lc" "loaded g lc" by blast
  note D = loadedD [OF lc(2)]
  have pred: "lc_pred lc = pred_rows g" using lc(2) by (simp add: loaded_def)
  note R = rows_facts(1,4,7) [OF assms(1)]
  from reach_result [OF R(1), of "event_block g a"] R(2,3) D(6) [OF assms(2)] obtain forward where
    f: "reach (succ_rows g) (event_block g a) = Some forward" "length forward = length (cfg_blocks g)"
      "marked forward = (block_rel g)\<^sup>+ `` {event_block g a}" by auto
  from dominance_result [OF assms(1)] obtain dm where
    dm: "dominators g (succ_rows g) (pred_rows g) = Some dm" "dominance_ok g dm" by blast
  from relate_result [OF lc(2) dm(2) assms(2,3) f(2,3)] lc(1) f(1) dm(1) D(3) pred show ?thesis by metis
qed

theorem relate_sound_witness:
  "\<exists>lc forward dm rel notes. load diamond_cfg = Some lc \<and> relate lc 1 2 forward dm = Some (rel, notes) \<and>
     claim diamond_cfg (cf_segment (lc_control lc)) 1 2 rel"
proof -
  have "1 < length (cfg_events diamond_cfg)" "2 < length (cfg_events diamond_cfg)" by (simp_all add: diamond_cfg_def)
  from relate_sound [OF diamond_wf this] show ?thesis by (elim exE conjE) (intro exI conjI)
qed

text \<open>The relation \<open>combine\<close> gives for several calling events is the strongest claim that all of
  them allow: the least upper bound in the order of weakening. It exists for every
  non-empty list and does not depend on the order or the number of its members.
\<close>

theorem combine_correct:
  assumes "rs \<noteq> []"
  shows "\<exists>c. combine rs = Some c \<and> (\<forall>d. c \<le> d \<longleftrightarrow> (\<forall>r \<in> set rs. r \<le> d)) \<and>
    (\<forall>qs. set qs = set rs \<longrightarrow> combine qs = Some c)"
proof -
  have some: "\<exists>c. combine qs = Some c" if "qs \<noteq> []" for qs using that by (auto simp: combine_def vec_simps Let_def)
  have iff: "c \<le> d \<longleftrightarrow> (\<forall>r \<in> set qs. r \<le> d)" if "combine qs = Some c" "qs \<noteq> []" for qs c d
    using combine_upper [OF that(1)] combine_least [OF that(1) _ that(2)] by (meson order_trans)
  from some [OF assms] obtain c where c: "combine rs = Some c" by blast
  have "combine qs = Some c" if eq: "set qs = set rs" for qs
  proof -
    have ne: "qs \<noteq> []" using eq assms by auto
    with some obtain e where e: "combine qs = Some e" by blast
    have "c \<le> d \<longleftrightarrow> e \<le> d" for d using iff [OF c assms] iff [OF e ne] eq by simp
    then have "c = e" by (simp add: order_eq_iff)
    with e show ?thesis by simp
  qed
  with c iff [OF c assms] show ?thesis by blast
qed

theorem combine_correct_witness:
  "\<exists>c. combine [SequencedBefore, Exclusive] = Some c \<and> combine [Exclusive, SequencedBefore] = Some c \<and> Exclusive \<le> c"
proof -
  have "[SequencedBefore, Exclusive] \<noteq> []" "set [Exclusive, SequencedBefore] = set [SequencedBefore, Exclusive]" by auto
  with combine_correct [of "[SequencedBefore, Exclusive]"] show ?thesis by (metis combine_upper list.set_intros(1))
qed

end
