(* ===== verification/Scc.thy ===== *)
theory Scc
  imports Seq_Search
begin

text \<open>
  Strongly connected components (\<^verbatim>\<open>strongly_connected_components\<close> of
  \<^verbatim>\<open>trace-analysis/src/contexts.rs\<close>): Tarjan's algorithm with an explicit stack of frames. The invariant
  is stated over sets first (visited, done and stacked nodes, processed edges), one lemma per kind of
  step; the loop over the vectors then refines it.
\<close>

section \<open>The algorithm\<close>

definition UNSEEN :: nat where
  "UNSEEN = usize_max"

record Tarjan =
  t_order :: "nat list"
  t_low :: "nat list"
  t_on_stack :: "bool list"
  t_component :: "nat list"
  t_stack :: "nat list"
  t_next :: nat
  t_components :: nat

definition tarjan_init :: "nat \<Rightarrow> Tarjan" where
  "tarjan_init n = \<lparr>t_order = replicate n UNSEEN, t_low = replicate n 0, t_on_stack = replicate n False,
     t_component = replicate n UNSEEN, t_stack = [], t_next = 0, t_components = 0\<rparr>"

text \<open>Both places that see a node for the first time run these statements.\<close>

definition enter_node :: "Tarjan \<Rightarrow> nat \<Rightarrow> Tarjan option" where
  "enter_node s w = do {
     order \<leftarrow> vset (t_order s) w (t_next s);
     low \<leftarrow> vset (t_low s) w (t_next s);
     on_stack \<leftarrow> vset (t_on_stack s) w True;
     Some (s\<lparr>t_order := order, t_low := low, t_on_stack := on_stack, t_stack := w # t_stack s, t_next := t_next s + 1\<rparr>) }"

fun pop_component :: "nat \<Rightarrow> nat \<Rightarrow> nat list \<Rightarrow> bool list \<Rightarrow> nat list \<Rightarrow> (nat list \<times> bool list \<times> nat list) option" where
  "pop_component v c [] on_stack component = Some ([], on_stack, component)"
| "pop_component v c (w # stack) on_stack component =
     (case vset on_stack w False of
        None \<Rightarrow> None
      | Some on_stack' \<Rightarrow>
          (case vset component w c of
             None \<Rightarrow> None
           | Some component' \<Rightarrow>
               if w = v then Some (stack, on_stack', component') else pop_component v c stack on_stack' component'))"

definition lower_parent :: "nat \<Rightarrow> (nat \<times> nat) list \<Rightarrow> Tarjan \<Rightarrow> Tarjan option" where
  "lower_parent v frames s =
     (case frames of
        [] \<Rightarrow> Some s
      | (parent, _) # _ \<Rightarrow> do {
          lp \<leftarrow> vget (t_low s) parent;
          lv \<leftarrow> vget (t_low s) v;
          low \<leftarrow> vset (t_low s) parent (min lp lv);
          Some (s\<lparr>t_low := low\<rparr>) })"

definition close_root :: "nat \<Rightarrow> Tarjan \<Rightarrow> Tarjan option" where
  "close_root v s = do {
     lv \<leftarrow> vget (t_low s) v;
     ov \<leftarrow> vget (t_order s) v;
     if lv = ov then do {
       (stack, on_stack, component) \<leftarrow> pop_component v (t_components s) (t_stack s) (t_on_stack s) (t_component s);
       Some (s\<lparr>t_stack := stack, t_on_stack := on_stack, t_component := component, t_components := t_components s + 1\<rparr>) }
     else Some s }"

definition tarjan_step :: "nat list list \<Rightarrow> nat \<Rightarrow> nat \<Rightarrow> (nat \<times> nat) list \<Rightarrow> Tarjan \<Rightarrow> ((nat \<times> nat) list \<times> Tarjan) option" where
  "tarjan_step succ v pos rest s = do {
     row \<leftarrow> vget succ v;
     if pos < length row then do {
       let w = row ! pos;
       ow \<leftarrow> vget (t_order s) w;
       if ow = UNSEEN then do { s' \<leftarrow> enter_node s w; Some ((w, 0) # (v, pos + 1) # rest, s') }
       else do {
         on \<leftarrow> vget (t_on_stack s) w;
         if on then do {
           lv \<leftarrow> vget (t_low s) v;
           low \<leftarrow> vset (t_low s) v (min lv ow);
           Some ((v, pos + 1) # rest, s\<lparr>t_low := low\<rparr>) }
         else Some ((v, pos + 1) # rest, s) } }
     else do { s1 \<leftarrow> lower_parent v rest s; s2 \<leftarrow> close_root v s1; Some (rest, s2) } }"

partial_function (option) tarjan_loop :: "nat list list \<Rightarrow> (nat \<times> nat) list \<Rightarrow> Tarjan \<Rightarrow> Tarjan option" where
  "tarjan_loop succ frames s =
     (case frames of
        [] \<Rightarrow> Some s
      | (v, pos) # rest \<Rightarrow> do { (frames', s') \<leftarrow> tarjan_step succ v pos rest s; tarjan_loop succ frames' s' })"

declare tarjan_loop.simps [code]

definition tarjan_root :: "nat list list \<Rightarrow> Tarjan \<Rightarrow> nat \<Rightarrow> Tarjan option" where
  "tarjan_root succ s root = do {
     seen \<leftarrow> vget (t_order s) root;
     if seen \<noteq> UNSEEN then Some s
     else do { s' \<leftarrow> enter_node s root; tarjan_loop succ [(root, 0)] s' } }"

definition strongly_connected_components :: "nat list list \<Rightarrow> nat list option" where
  "strongly_connected_components succ =
     map_option t_component (foldM (tarjan_root succ) (tarjan_init (length succ)) [0..<length succ])"

section \<open>The invariant over sets\<close>

text \<open>
  \<open>D\<close> are the nodes with a component, \<open>S\<close> those on the stack, \<open>F\<close> the nodes of the frames from the
  top, \<open>P\<close> the edges looked at. Between two frames lie the finished nodes that still wait
  for the root of their component.
\<close>

definition in_segment :: "(nat \<Rightarrow> nat) \<Rightarrow> nat list \<Rightarrow> nat \<Rightarrow> nat \<Rightarrow> bool" where
  "in_segment ord F v x \<longleftrightarrow> ord v \<le> ord x \<and> (\<forall>u \<in> set F. ord v < ord u \<longrightarrow> ord x < ord u)"

inductive exploring ::
  "(nat \<times> nat) set \<Rightarrow> nat set \<Rightarrow> nat set \<Rightarrow> (nat \<Rightarrow> nat) \<Rightarrow> nat list \<Rightarrow> (nat \<times> nat) set \<Rightarrow> (nat \<Rightarrow> nat) \<Rightarrow> bool"
  for r D S ord F P low where
  exploringI: "D \<inter> S = {} \<Longrightarrow> inj_on ord (D \<union> S) \<Longrightarrow> set F \<subseteq> S \<Longrightarrow> sorted_wrt (\<lambda>a b. ord b < ord a) F \<Longrightarrow>
    successively (\<lambda>a b. (b, a) \<in> r) F \<Longrightarrow> r `` D \<subseteq> D \<Longrightarrow> P \<subseteq> r \<Longrightarrow> P \<subseteq> (D \<union> S) \<times> (D \<union> S) \<Longrightarrow>
    (\<And>x y. x \<in> S \<Longrightarrow> x \<notin> set F \<Longrightarrow> (x, y) \<in> r \<Longrightarrow> (x, y) \<in> P) \<Longrightarrow>
    (\<And>v x. v \<in> set F \<Longrightarrow> x \<in> S \<Longrightarrow> ord v \<le> ord x \<Longrightarrow> (v, x) \<in> r\<^sup>*) \<Longrightarrow>
    (\<And>x. x \<in> S \<Longrightarrow> x \<notin> set F \<Longrightarrow> \<exists>y \<in> S. ord y < ord x \<and> (x, y) \<in> r\<^sup>*) \<Longrightarrow>
    (\<And>v. v \<in> set F \<Longrightarrow> low v \<le> ord v) \<Longrightarrow> (\<And>v. v \<in> set F \<Longrightarrow> \<exists>y \<in> S. ord y = low v \<and> (v, y) \<in> r\<^sup>*) \<Longrightarrow>
    (\<And>v x w. v \<in> set F \<Longrightarrow> x \<in> S \<Longrightarrow> w \<in> S \<Longrightarrow> in_segment ord F v x \<Longrightarrow> (x, w) \<in> P \<Longrightarrow> low v \<le> ord w) \<Longrightarrow>
    (\<And>x. x \<in> S \<Longrightarrow> \<exists>v \<in> set F. ord v \<le> ord x) \<Longrightarrow> exploring r D S ord F P low"

inductive_simps exploring_iff: "exploring r D S ord F P low"

lemma exploringD:
  assumes "exploring r D S ord F P low"
  shows "D \<inter> S = {}" "inj_on ord (D \<union> S)" "set F \<subseteq> S" "sorted_wrt (\<lambda>a b. ord b < ord a) F"
    "successively (\<lambda>a b. (b, a) \<in> r) F" "r `` D \<subseteq> D" "P \<subseteq> r" "P \<subseteq> (D \<union> S) \<times> (D \<union> S)"
    and "x \<in> S \<Longrightarrow> x \<notin> set F \<Longrightarrow> (x, y) \<in> r \<Longrightarrow> (x, y) \<in> P"
    and "v \<in> set F \<Longrightarrow> x \<in> S \<Longrightarrow> ord v \<le> ord x \<Longrightarrow> (v, x) \<in> r\<^sup>*"
    and "x \<in> S \<Longrightarrow> x \<notin> set F \<Longrightarrow> \<exists>y \<in> S. ord y < ord x \<and> (x, y) \<in> r\<^sup>*"
    and "v \<in> set F \<Longrightarrow> low v \<le> ord v" "v \<in> set F \<Longrightarrow> \<exists>y \<in> S. ord y = low v \<and> (v, y) \<in> r\<^sup>*"
    and "v \<in> set F \<Longrightarrow> x \<in> S \<Longrightarrow> w \<in> S \<Longrightarrow> in_segment ord F v x \<Longrightarrow> (x, w) \<in> P \<Longrightarrow> low v \<le> ord w"
    and "x \<in> S \<Longrightarrow> \<exists>v \<in> set F. ord v \<le> ord x"
proof -
  note E1 = assms [unfolded exploring_iff]
  note E2 = E1 [THEN conjunct2]
  note E3 = E2 [THEN conjunct2]
  note E4 = E3 [THEN conjunct2]
  note E5 = E4 [THEN conjunct2]
  note E6 = E5 [THEN conjunct2]
  note E7 = E6 [THEN conjunct2]
  note E8 = E7 [THEN conjunct2]
  note E9 = E8 [THEN conjunct2]
  note E10 = E9 [THEN conjunct2]
  note E11 = E10 [THEN conjunct2]
  note E12 = E11 [THEN conjunct2]
  note E13 = E12 [THEN conjunct2]
  note E14 = E13 [THEN conjunct2]
  note E15 = E14 [THEN conjunct2]
  show "D \<inter> S = {}" by (rule E1 [THEN conjunct1])
  show "inj_on ord (D \<union> S)" by (rule E2 [THEN conjunct1])
  show "set F \<subseteq> S" by (rule E3 [THEN conjunct1])
  show "sorted_wrt (\<lambda>a b. ord b < ord a) F" by (rule E4 [THEN conjunct1])
  show "successively (\<lambda>a b. (b, a) \<in> r) F" by (rule E5 [THEN conjunct1])
  show "r `` D \<subseteq> D" by (rule E6 [THEN conjunct1])
  show "P \<subseteq> r" by (rule E7 [THEN conjunct1])
  show "P \<subseteq> (D \<union> S) \<times> (D \<union> S)" by (rule E8 [THEN conjunct1])
  show "x \<in> S \<Longrightarrow> x \<notin> set F \<Longrightarrow> (x, y) \<in> r \<Longrightarrow> (x, y) \<in> P" using E9 [THEN conjunct1] by blast
  show "v \<in> set F \<Longrightarrow> x \<in> S \<Longrightarrow> ord v \<le> ord x \<Longrightarrow> (v, x) \<in> r\<^sup>*" using E10 [THEN conjunct1] by blast
  show "x \<in> S \<Longrightarrow> x \<notin> set F \<Longrightarrow> \<exists>y \<in> S. ord y < ord x \<and> (x, y) \<in> r\<^sup>*" using E11 [THEN conjunct1] by blast
  show "v \<in> set F \<Longrightarrow> low v \<le> ord v" using E12 [THEN conjunct1] by blast
  show "v \<in> set F \<Longrightarrow> \<exists>y \<in> S. ord y = low v \<and> (v, y) \<in> r\<^sup>*" using E13 [THEN conjunct1] by blast
  show "v \<in> set F \<Longrightarrow> x \<in> S \<Longrightarrow> w \<in> S \<Longrightarrow> in_segment ord F v x \<Longrightarrow> (x, w) \<in> P \<Longrightarrow> low v \<le> ord w" using E14 [THEN conjunct1] by blast
  show "x \<in> S \<Longrightarrow> \<exists>v \<in> set F. ord v \<le> ord x" using E15 by blast
qed

lemma top_frame:
  assumes "exploring r D S ord (v # F) P low" "u \<in> set F"
  shows "ord u < ord v" "v \<in> S" "u \<in> S" "v \<noteq> u"
  using exploringD(3,4) [OF assms(1)] assms(2) by auto

text \<open>An edge into a node that has a component.\<close>

lemma exploring_done:
  assumes E: "exploring r D S ord (v # F) P low" and w: "(v, w) \<in> r" "w \<in> D"
  shows "exploring r D S ord (v # F) (insert (v, w) P) low"
proof (rule exploringI)
  note X = exploringD [OF E]
  show "insert (v, w) P \<subseteq> r" "insert (v, w) P \<subseteq> (D \<union> S) \<times> (D \<union> S)" using X(3,7,8) w by auto
  show "low u \<le> ord y" if "u \<in> set (v # F)" "x \<in> S" "y \<in> S" "in_segment ord (v # F) u x" "(x, y) \<in> insert (v, w) P" for u x y
    using X(1) X(14) [OF that(1-4)] that(3,5) w(2) by blast
  show "(x, y) \<in> insert (v, w) P" if "x \<in> S" "x \<notin> set (v # F)" "(x, y) \<in> r" for x y using X(9) [OF that] by simp
qed (fact exploringD [OF E])+

text \<open>An edge to a node on the stack: the low link takes its number.\<close>

lemma exploring_seen:
  assumes E: "exploring r D S ord (v # F) P low" and w: "(v, w) \<in> r" "w \<in> S"
  shows "exploring r D S ord (v # F) (insert (v, w) P) (low(v := min (low v) (ord w)))"
proof (rule exploringI)
  note X = exploringD [OF E]
  let ?low = "low(v := min (low v) (ord w))"
  have vF: "v \<notin> set F" using top_frame(4) [OF E] by blast
  have le: "?low u \<le> low u" for u by simp
  show "insert (v, w) P \<subseteq> r" "insert (v, w) P \<subseteq> (D \<union> S) \<times> (D \<union> S)" using X(3,7,8) w by auto
  show "(x, y) \<in> insert (v, w) P" if "x \<in> S" "x \<notin> set (v # F)" "(x, y) \<in> r" for x y using X(9) [OF that] by simp
  show "?low u \<le> ord u" if "u \<in> set (v # F)" for u using X(12) [OF that] le [of u] by linarith
  show "\<exists>y \<in> S. ord y = ?low u \<and> (u, y) \<in> r\<^sup>*" if u: "u \<in> set (v # F)" for u
  proof (cases "u = v \<and> ord w < low v")
    case True
    then show ?thesis using w by (intro bexI [of _ w]) (auto simp: min_def)
  next
    case False
    then have "?low u = low u" by (auto simp: min_def)
    then show ?thesis using X(13) [OF u] by simp
  qed
  show "?low u \<le> ord y" if u: "u \<in> set (v # F)" "x \<in> S" "y \<in> S" "in_segment ord (v # F) u x" "(x, y) \<in> insert (v, w) P" for u x y
  proof (cases "(x, y) \<in> P")
    case True
    then show ?thesis using X(14) [OF u(1-4)] le [of u] by fastforce
  next
    case False
    then have xy: "x = v" "y = w" using u(5) by auto
    have "u = v" using u(1,4) top_frame(1) [OF E] xy(1) by (auto simp: in_segment_def)
    then show ?thesis using xy by simp
  qed
qed (fact exploringD [OF E])+

text \<open>A node seen for the first time.\<close>

lemma exploring_enter:
  assumes E: "exploring r D S ord F P low" and w: "w \<notin> D \<union> S" and k: "\<And>x. x \<in> D \<union> S \<Longrightarrow> ord x < k"
    and from_top: "F \<noteq> [] \<Longrightarrow> (hd F, w) \<in> r" "P' = (if F = [] then P else insert (hd F, w) P)"
  shows "exploring r D (insert w S) (ord(w := k)) (w # F) P' (low(w := k))"
proof (rule exploringI)
  note X = exploringD [OF E]
  let ?ord = "ord(w := k)" and ?low = "low(w := k)"
  have o: "?ord x = ord x" if "x \<in> D \<union> S" for x using that w by auto
  have FS: "x \<in> S" "x \<noteq> w" if "x \<in> set F" for x using X(3) that w by auto
  have hd: "hd F \<in> S" if "F \<noteq> []" using FS(1) [OF hd_in_set [OF that]] .
  have PS: "x \<in> D \<union> S \<and> y \<in> D \<union> S" if "(x, y) \<in> P" for x y using X(8) that by auto
  show "D \<inter> insert w S = {}" using X(1) w by simp
  show "inj_on ?ord (D \<union> insert w S)"
  proof (rule inj_onI)
    fix x y assume xy: "x \<in> D \<union> insert w S" "y \<in> D \<union> insert w S" "?ord x = ?ord y"
    show "x = y" using xy k [of x] k [of y] inj_onD [OF X(2), of x y] by (auto split: if_splits)
  qed
  show "set (w # F) \<subseteq> insert w S" using X(3) by auto
  have "sorted_wrt (\<lambda>a b. ?ord b < ?ord a) F" using X(4) by (rule sorted_wrt_mono_rel [rotated]) (use FS in auto)
  then show "sorted_wrt (\<lambda>a b. ?ord b < ?ord a) (w # F)" using FS k by auto
  show "successively (\<lambda>a b. (b, a) \<in> r) (w # F)" using X(5) from_top(1) by (cases F) auto
  show "r `` D \<subseteq> D" by (rule X(6))
  show "P' \<subseteq> r" "P' \<subseteq> (D \<union> insert w S) \<times> (D \<union> insert w S)" using X(7,8) from_top hd by (auto split: if_splits)
  show "(x, y) \<in> P'" if x: "x \<in> insert w S" "x \<notin> set (w # F)" "(x, y) \<in> r" for x y
    using X(9) [of x y] x from_top(2) by auto
  show "(v, x) \<in> r\<^sup>*" if v: "v \<in> set (w # F)" "x \<in> insert w S" "?ord v \<le> ?ord x" for v x
  proof (cases "x = w")
    case True
    show ?thesis
    proof (cases "v = w")
      case False
      then have vF: "v \<in> set F" using v(1) by simp
      then have ne: "F \<noteq> []" by auto
      have "ord v \<le> ord (hd F)" using X(4) vF ne by (cases F) auto
      then have "(v, hd F) \<in> r\<^sup>*" using X(10) [OF vF hd [OF ne]] by blast
      then show ?thesis using from_top(1) [OF ne] True by simp
    qed (simp add: True)
  next
    case False
    then have x: "x \<in> S" using v(2) by simp
    have "v \<noteq> w" using v(3) k [of x] x False by auto
    then show ?thesis using X(10) [of v x] v x False by simp
  qed
  show "\<exists>y \<in> insert w S. ?ord y < ?ord x \<and> (x, y) \<in> r\<^sup>*" if x: "x \<in> insert w S" "x \<notin> set (w # F)" for x
  proof -
    have "x \<in> S" "x \<notin> set F" using x by auto
    then obtain y where y: "y \<in> S" "ord y < ord x" "(x, y) \<in> r\<^sup>*" using X(11) by blast
    then show ?thesis using o \<open>x \<in> S\<close> by (intro bexI [of _ y]) auto
  qed
  show "?low v \<le> ?ord v" if "v \<in> set (w # F)" for v using X(12) [of v] that FS(2) by auto
  show "\<exists>y \<in> insert w S. ?ord y = ?low v \<and> (v, y) \<in> r\<^sup>*" if v: "v \<in> set (w # F)" for v
  proof (cases "v = w")
    case False
    then have "v \<in> set F" using v by simp
    then obtain y where "y \<in> S" "ord y = low v" "(v, y) \<in> r\<^sup>*" using X(13) by blast
    then show ?thesis using False o by (intro bexI [of _ y]) auto
  qed auto
  show "\<exists>v \<in> set (w # F). ?ord v \<le> ?ord x" if x: "x \<in> insert w S" for x
  proof (cases "x = w")
    case False
    then obtain v where v: "v \<in> set F" "ord v \<le> ord x" using X(15) [of x] x by auto
    then show ?thesis using False FS [OF v(1)] by (intro bexI [of _ v]) auto
  qed auto
  show "?low v \<le> ?ord y" if v: "v \<in> set (w # F)" "x \<in> insert w S" "y \<in> insert w S" "in_segment ?ord (w # F) v x" "(x, y) \<in> P'" for v x y
  proof -
    have xw: "x \<noteq> w" using v(5) from_top(2) PS w hd by (auto split: if_splits)
    then have xS: "x \<in> S" using v(2) by simp
    have vw: "v \<noteq> w"
    proof
      assume "v = w"
      then have "k \<le> ord x" using v(4) xw by (simp add: in_segment_def)
      then show False using k [of x] xS by simp
    qed
    then have vF: "v \<in> set F" using v(1) by simp
    have seg: "in_segment ord F v x"
      unfolding in_segment_def
    proof (intro conjI ballI impI)
      show "ord v \<le> ord x" using v(4) vw xw by (simp add: in_segment_def)
      show "ord x < ord u" if u: "u \<in> set F" "ord v < ord u" for u
        using v(4) vw xw u FS(2) [OF u(1)] by (auto simp: in_segment_def)
    qed
    show ?thesis
    proof (cases "(x, y) \<in> P")
      case True
      then have "y \<in> S" "y \<noteq> w" using PS [OF True] w v(3) by auto
      then show ?thesis using X(14) [OF vF xS _ seg True] vw by simp
    next
      case False
      then have "y = w" using v(5) from_top(2) by (auto split: if_splits)
      then show ?thesis using X(12) [OF vF] k [of v] FS(1) [OF vF] vw by auto
    qed
  qed
qed

text \<open>A finished node that is no root leaves its frame and lowers its parent.\<close>

lemma exploring_finish:
  assumes E: "exploring r D S ord (v # p # F) P low" and all: "r `` {v} \<subseteq> P `` {v}" and no: "low v \<noteq> ord v"
  shows "exploring r D S ord (p # F) P (low(p := min (low p) (low v)))"
proof (rule exploringI)
  note X = exploringD [OF E]
  let ?low = "low(p := min (low p) (low v))"
  have vp: "ord p < ord v" "v \<in> S" "p \<in> S" "v \<noteq> p" and vF: "v \<notin> set F" using top_frame [OF E] by auto
  have pv: "(p, v) \<in> r" using X(5) by simp
  obtain y where y: "y \<in> S" "ord y = low v" "(v, y) \<in> r\<^sup>*" using X(13) [of v] by auto
  have below: "ord u < ord p" if "u \<in> set F" for u using X(4) that by simp
  have le: "?low u \<le> low u" for u by simp
  show "set (p # F) \<subseteq> S" "sorted_wrt (\<lambda>a b. ord b < ord a) (p # F)" "successively (\<lambda>a b. (b, a) \<in> r) (p # F)"
    using X(3-5) by simp_all
  show "(x, z) \<in> P" if x: "x \<in> S" "x \<notin> set (p # F)" "(x, z) \<in> r" for x z
    using X(9) [of x z] x all by (cases "x = v") auto
  show "(u, x) \<in> r\<^sup>*" if "u \<in> set (p # F)" "x \<in> S" "ord u \<le> ord x" for u x using X(10) [of u x] that by simp
  show "\<exists>z \<in> S. ord z < ord x \<and> (x, z) \<in> r\<^sup>*" if x: "x \<in> S" "x \<notin> set (p # F)" for x
  proof (cases "x = v")
    case True
    then show ?thesis using y no X(12) [of v] by (intro bexI [of _ y]) auto
  next
    case False
    then show ?thesis using X(11) [of x] x by simp
  qed
  show "?low u \<le> ord u" if "u \<in> set (p # F)" for u
  proof -
    have "low u \<le> ord u" using X(12) [of u] that by simp
    then show ?thesis using le [of u] by linarith
  qed
  show "\<exists>z \<in> S. ord z = ?low u \<and> (u, z) \<in> r\<^sup>*" if u: "u \<in> set (p # F)" for u
  proof (cases "u = p \<and> low v < low p")
    case True
    then have "(u, y) \<in> r\<^sup>*" using pv y(3) by (simp add: converse_rtrancl_into_rtrancl)
    then show ?thesis using y True by (intro bexI [of _ y]) (auto simp: min_def)
  next
    case False
    then have "?low u = low u" by (auto simp: min_def)
    then show ?thesis using X(13) [of u] u by simp
  qed
  show "?low u \<le> ord w" if u: "u \<in> set (p # F)" "x \<in> S" "w \<in> S" "in_segment ord (p # F) u x" "(x, w) \<in> P" for u x w
  proof (cases "u = p \<and> ord v \<le> ord x")
    case True
    then have "in_segment ord (v # p # F) v x" using vp(1) below by (fastforce simp: in_segment_def)
    then have "low v \<le> ord w" using X(14) [of v x w] u by simp
    then show ?thesis using True by simp
  next
    case False
    have "u = p \<or> ord x < ord p" using u(1,4) below by (auto simp: in_segment_def)
    then have "ord x < ord v" using False vp(1) by linarith
    then have "in_segment ord (v # p # F) u x" using u(4) by (simp add: in_segment_def)
    then have "low u \<le> ord w" using X(14) [of u x w] u by simp
    then show ?thesis using le [of u] by linarith
  qed
  show "\<exists>u \<in> set (p # F). ord u \<le> ord x" if "x \<in> S" for x
    using X(15) [OF that] vp(1) by (metis list.set_intros(1) list.set_intros(2) less_imp_le order_trans set_ConsD)
qed (fact exploringD [OF E])+

text \<open>A root closes its component: the nodes on the stack from it on.\<close>

definition closed_by :: "nat set \<Rightarrow> (nat \<Rightarrow> nat) \<Rightarrow> nat \<Rightarrow> nat set" where
  "closed_by S ord v = {x \<in> S. ord v \<le> ord x}"

lemma root_component:
  assumes E: "exploring r D S ord (v # F) P low" and all: "r `` {v} \<subseteq> P `` {v}" and root: "low v = ord v"
  defines "C \<equiv> closed_by S ord v"
  shows "r `` C \<subseteq> C \<union> D" "x \<in> C \<Longrightarrow> (x, v) \<in> r\<^sup>* \<and> (v, x) \<in> r\<^sup>*" "x \<in> C \<Longrightarrow> x \<in> set (v # F) \<Longrightarrow> x = v"
proof -
  note X = exploringD [OF E]
  have vF: "ord u < ord v" if "u \<in> set F" for u using top_frame(1) [OF E that] .
  show only: "x = v" if "x \<in> C" "x \<in> set (v # F)" for x using that vF by (fastforce simp: C_def closed_by_def)
  show closed: "r `` C \<subseteq> C \<union> D"
  proof
    fix w assume "w \<in> r `` C"
    then obtain x where x: "x \<in> S" "ord v \<le> ord x" "(x, w) \<in> r" by (auto simp: C_def closed_by_def)
    have P: "(x, w) \<in> P"
    proof (cases "x = v")
      case True
      then show ?thesis using all x(3) by auto
    next
      case False
      then have "x \<notin> set (v # F)" using only [of x] x by (auto simp: C_def closed_by_def)
      then show ?thesis using X(9) [OF x(1) _ x(3)] by blast
    qed
    have "w \<in> D \<union> S" using X(8) P by auto
    moreover have "ord v \<le> ord w" if "w \<in> S"
    proof -
      have "in_segment ord (v # F) v x" using x(2) vF by (fastforce simp: in_segment_def)
      then show ?thesis using X(14) [of v x w] x(1) that P root by simp
    qed
    ultimately show "w \<in> C \<union> D" by (auto simp: C_def closed_by_def)
  qed
  have star: "y \<in> C \<union> D" if "(x, y) \<in> r\<^sup>*" "x \<in> C" for x y
    using that closed X(6) by (induction rule: rtrancl_induct) auto
  have "(x, v) \<in> r\<^sup>*" if "x \<in> C" for x
    using that
  proof (induction "ord x" arbitrary: x rule: less_induct)
    case less
    show ?case
    proof (cases "x = v")
      case False
      then have x: "x \<in> S" "x \<notin> set (v # F)" using less.prems only by (auto simp: C_def closed_by_def)
      then obtain y where y: "y \<in> S" "ord y < ord x" "(x, y) \<in> r\<^sup>*" using X(11) by blast
      then have "y \<in> C" using star [OF y(3) less.prems] X(1) by auto
      then show ?thesis using less.hyps [OF y(2)] y(3) by (meson rtrancl_trans)
    qed simp
  qed
  then show "(x, v) \<in> r\<^sup>* \<and> (v, x) \<in> r\<^sup>*" if "x \<in> C" for x using X(10) [of v x] that by (auto simp: C_def closed_by_def)
qed

lemma exploring_root:
  assumes E: "exploring r D S ord (v # F) P low" and all: "r `` {v} \<subseteq> P `` {v}" and root: "low v = ord v"
  defines "C \<equiv> closed_by S ord v"
  shows "exploring r (D \<union> C) (S - C) ord F P low"
proof (rule exploringI)
  note X = exploringD [OF E]
  note R = root_component [OF E all root, folded C_def]
  have CS: "C \<subseteq> S" by (auto simp: C_def closed_by_def)
  have less: "ord x < ord v" if "x \<in> S - C" for x using that by (auto simp: C_def closed_by_def)
  have keep: "x \<in> S - C" if "x \<in> S" "ord x < ord v" for x using that by (auto simp: C_def closed_by_def)
  have vF: "ord u < ord v" if "u \<in> set F" for u using top_frame(1) [OF E that] .
  have vC: "v \<in> C" using X(3) by (auto simp: C_def closed_by_def)
  have un: "D \<union> C \<union> (S - C) = D \<union> S" using CS by auto
  show "(D \<union> C) \<inter> (S - C) = {}" using X(1) by auto
  show "inj_on ord (D \<union> C \<union> (S - C))" "P \<subseteq> (D \<union> C \<union> (S - C)) \<times> (D \<union> C \<union> (S - C))" unfolding un by (fact X)+
  show "set F \<subseteq> S - C" using X(3) vF keep by auto
  show "sorted_wrt (\<lambda>a b. ord b < ord a) F" using X(4) by simp
  show "successively (\<lambda>a b. (b, a) \<in> r) F" using X(5) by (cases F) auto
  show "r `` (D \<union> C) \<subseteq> D \<union> C" using X(6) R(1) by auto
  show "P \<subseteq> r" by (fact X)
  show "(x, y) \<in> P" if "x \<in> S - C" "x \<notin> set F" "(x, y) \<in> r" for x y
    using X(9) [of x y] that vC by auto
  show "(u, x) \<in> r\<^sup>*" if "u \<in> set F" "x \<in> S - C" "ord u \<le> ord x" for u x using X(10) [of u x] that by simp
  show "\<exists>y \<in> S - C. ord y < ord x \<and> (x, y) \<in> r\<^sup>*" if x: "x \<in> S - C" "x \<notin> set F" for x
  proof -
    have "x \<noteq> v" using x(1) vC by auto
    then obtain y where y: "y \<in> S" "ord y < ord x" "(x, y) \<in> r\<^sup>*" using X(11) [of x] x by auto
    then have "y \<in> S - C" using less [OF x(1)] keep by fastforce
    then show ?thesis using y by blast
  qed
  show low: "low u \<le> ord u" if "u \<in> set F" for u using X(12) [of u] that by simp
  show "\<exists>y \<in> S - C. ord y = low u \<and> (u, y) \<in> r\<^sup>*" if u: "u \<in> set F" for u
  proof -
    obtain y where y: "y \<in> S" "ord y = low u" "(u, y) \<in> r\<^sup>*" using X(13) [of u] u by auto
    then have "y \<in> S - C" using low [OF u] vF [OF u] keep by fastforce
    then show ?thesis using y by blast
  qed
  show "low u \<le> ord w" if u: "u \<in> set F" "x \<in> S - C" "w \<in> S - C" "in_segment ord F u x" "(x, w) \<in> P" for u x w
  proof -
    have "in_segment ord (v # F) u x" using u(4) less [OF u(2)] by (simp add: in_segment_def)
    then show ?thesis using X(14) [of u x w] u by simp
  qed
  show "\<exists>u \<in> set F. ord u \<le> ord x" if x: "x \<in> S - C" for x
    using X(15) [of x] x less [OF x] by auto
qed

section \<open>The loop refines the invariant\<close>

definition done_nodes :: "Tarjan \<Rightarrow> nat set" where
  "done_nodes s = {x. x < length (t_component s) \<and> t_component s ! x \<noteq> UNSEEN}"

definition vectors_ok :: "nat \<Rightarrow> Tarjan \<Rightarrow> bool" where
  "vectors_ok n s \<longleftrightarrow> length (t_order s) = n \<and> length (t_low s) = n \<and> length (t_on_stack s) = n \<and> length (t_component s) = n \<and>
     set (t_stack s) \<subseteq> {..<n} \<and> marked (t_on_stack s) = set (t_stack s) \<and>
     sorted_wrt (\<lambda>a b. t_order s ! b < t_order s ! a) (t_stack s) \<and>
     {x. x < n \<and> t_order s ! x \<noteq> UNSEEN} = done_nodes s \<union> set (t_stack s) \<and>
     (\<forall>x \<in> done_nodes s \<union> set (t_stack s). t_order s ! x < t_next s) \<and>
     t_next s = card (done_nodes s \<union> set (t_stack s))"

definition components_ok :: "(nat \<times> nat) set \<Rightarrow> Tarjan \<Rightarrow> bool" where
  "components_ok r s \<longleftrightarrow> t_components s \<le> card (done_nodes s) \<and>
     (!) (t_component s) ` done_nodes s = {..<t_components s} \<and>
     (\<forall>x \<in> done_nodes s. \<forall>y \<in> done_nodes s. t_component s ! x = t_component s ! y \<longleftrightarrow> (x, y) \<in> r\<^sup>* \<and> (y, x) \<in> r\<^sup>*) \<and>
     (\<forall>x \<in> done_nodes s. \<forall>y. (x, y) \<in> r \<longrightarrow> t_component s ! y \<le> t_component s ! x)"

definition tarjan_ok :: "nat list list \<Rightarrow> (nat \<times> nat) list \<Rightarrow> Tarjan \<Rightarrow> bool" where
  "tarjan_ok succ frames s \<longleftrightarrow> vectors_ok (length succ) s \<and> components_ok (row_rel succ) s \<and>
     (\<exists>P. exploring (row_rel succ) (done_nodes s) (set (t_stack s)) ((!) (t_order s)) (map fst frames) P ((!) (t_low s)) \<and>
       (\<forall>(v, pos) \<in> set frames. set (take pos (succ ! v)) \<subseteq> P `` {v}))"

lemma vectors_okD:
  assumes "vectors_ok n s"
  shows "length (t_order s) = n" "length (t_low s) = n" "length (t_on_stack s) = n" "length (t_component s) = n"
    and "x \<in> set (t_stack s) \<Longrightarrow> x < n" "marked (t_on_stack s) = set (t_stack s)"
    and "sorted_wrt (\<lambda>a b. t_order s ! b < t_order s ! a) (t_stack s)"
    and "{x. x < n \<and> t_order s ! x \<noteq> UNSEEN} = done_nodes s \<union> set (t_stack s)"
    and "x \<in> done_nodes s \<union> set (t_stack s) \<Longrightarrow> t_order s ! x < t_next s"
    and "t_next s = card (done_nodes s \<union> set (t_stack s))"
  using assms unfolding vectors_ok_def by blast+

lemma nth_update_fun: "w < length xs \<Longrightarrow> (!) (xs[w := k]) = ((!) xs)(w := k)"
  by (rule ext) (simp add: nth_list_update)

lemma vectors_ok_low: "vectors_ok n s \<Longrightarrow> length low' = n \<Longrightarrow> vectors_ok n (s\<lparr>t_low := low'\<rparr>)"
  unfolding vectors_ok_def done_nodes_def by (elim conjE, intro conjI) simp_all

lemma next_bound:
  assumes "vectors_ok n s" "n < UNSEEN"
  shows "t_next s \<le> n" "t_next s \<noteq> UNSEEN"
proof -
  have "done_nodes s \<union> set (t_stack s) \<subseteq> {..<n}" unfolding vectors_okD(8) [OF assms(1), symmetric] by auto
  then have "card (done_nodes s \<union> set (t_stack s)) \<le> n" using card_mono [of "{..<n}"] by fastforce
  then show "t_next s \<le> n" "t_next s \<noteq> UNSEEN" using vectors_okD(10) [OF assms(1)] assms(2) by auto
qed

lemma enter_node_result:
  assumes v: "vectors_ok n s" and n: "n < UNSEEN" and w: "w < n" "t_order s ! w = UNSEEN"
  defines "s' \<equiv> s\<lparr>t_order := (t_order s)[w := t_next s], t_low := (t_low s)[w := t_next s],
    t_on_stack := (t_on_stack s)[w := True], t_stack := w # t_stack s, t_next := t_next s + 1\<rparr>"
  shows "enter_node s w = Some s'" "vectors_ok n s'" "done_nodes s' = done_nodes s" "w \<notin> done_nodes s \<union> set (t_stack s)"
proof -
  note V = vectors_okD [OF v]
  show eq: "enter_node s w = Some s'" using V(1-3) w by (simp add: enter_node_def s'_def vec_simps)
  show D: "done_nodes s' = done_nodes s" by (simp add: done_nodes_def s'_def)
  show new: "w \<notin> done_nodes s \<union> set (t_stack s)" using V(8) w(2) by blast
  let ?N = "done_nodes s \<union> set (t_stack s)"
  have lt: "?N \<subseteq> {..<n}" unfolding V(8) [symmetric] by auto
  then have fin: "finite ?N" by (rule finite_subset) simp
  have un: "done_nodes s' \<union> set (t_stack s') = insert w ?N" unfolding D by (simp add: s'_def)
  have card: "card (insert w ?N) = Suc (card ?N)" using fin new by (rule card_insert_disjoint)
  have o: "t_order s' ! x = (if x = w then t_next s else t_order s ! x)" for x
    using w(1) V(1) by (simp add: s'_def nth_list_update)
  have st: "t_stack s' = w # t_stack s" by (simp add: s'_def)
  show "vectors_ok n s'" unfolding vectors_ok_def un
  proof (intro conjI ballI)
    show "length (t_order s') = n" "length (t_low s') = n" "length (t_on_stack s') = n" "length (t_component s') = n"
      using V(1-4) by (simp_all add: s'_def)
    show "set (t_stack s') \<subseteq> {..<n}" using V(5) w(1) by (auto simp: s'_def)
    show "marked (t_on_stack s') = set (t_stack s')" using V(3,6) w(1) by (simp add: s'_def marked_update)
    have "sorted_wrt (\<lambda>a b. t_order s' ! b < t_order s' ! a) (t_stack s)"
      using V(7) by (rule sorted_wrt_mono_rel [rotated]) (use o new in auto)
    moreover have "t_order s' ! x < t_order s' ! w" if "x \<in> set (t_stack s)" for x
      using V(9) [of x] that new o by auto
    ultimately show "sorted_wrt (\<lambda>a b. t_order s' ! b < t_order s' ! a) (t_stack s')" unfolding st by simp
    show "{x. x < n \<and> t_order s' ! x \<noteq> UNSEEN} = insert w ?N"
      unfolding V(8) [symmetric] using o w(1) next_bound(2) [OF v n] by auto
    show "t_order s' ! x < t_next s'" if "x \<in> insert w ?N" for x using V(9) [of x] that o by (auto simp: s'_def)
    show "t_next s' = card (insert w ?N)" unfolding card using V(10) by (simp add: s'_def)
  qed
qed

lemma pop_component_result:
  assumes "v \<notin> set pre" "set (pre @ [v]) \<subseteq> {..<n}" "length on_stack = n" "length component = n"
  shows "\<exists>on' comp'. pop_component v c (pre @ v # post) on_stack component = Some (post, on', comp') \<and> length on' = n \<and> length comp' = n \<and>
    (\<forall>x < n. on' ! x = (on_stack ! x \<and> x \<notin> set (pre @ [v])) \<and> comp' ! x = (if x \<in> set (pre @ [v]) then c else component ! x))"
  using assms
proof (induction pre arbitrary: on_stack component)
  case Nil
  then show ?case by (auto simp: vec_simps nth_list_update)
next
  case (Cons w pre)
  have w: "w < n" "w \<noteq> v" using Cons.prems by auto
  have len: "length (on_stack[w := False]) = n" "length (component[w := c]) = n" using Cons.prems by simp_all
  from Cons.IH [OF _ _ len] Cons.prems(1,2) obtain on' comp' where
    R: "pop_component v c (pre @ v # post) (on_stack[w := False]) (component[w := c]) = Some (post, on', comp')"
      "length on' = n" "length comp' = n"
      "\<forall>x < n. on' ! x = (on_stack[w := False] ! x \<and> x \<notin> set (pre @ [v])) \<and>
         comp' ! x = (if x \<in> set (pre @ [v]) then c else component[w := c] ! x)" by auto
  then have "pop_component v c ((w # pre) @ v # post) on_stack component = Some (post, on', comp')"
    using w Cons.prems(3,4) by (simp add: vec_simps)
  moreover have "on' ! x = (on_stack ! x \<and> x \<notin> set ((w # pre) @ [v])) \<and>
      comp' ! x = (if x \<in> set ((w # pre) @ [v]) then c else component ! x)" if "x < n" for x
    using R(4) that w Cons.prems(3,4) by (auto simp: nth_list_update)
  ultimately show ?case using R(2,3) by blast
qed

text \<open>The nodes popped for a root are those on the stack from it on.\<close>

lemma stack_split:
  fixes ord :: "nat \<Rightarrow> nat"
  assumes "sorted_wrt (\<lambda>a b. ord b < ord a) (pre @ v # post)"
  shows "set (pre @ [v]) = closed_by (set (pre @ v # post)) ord v" "set post = set (pre @ v # post) - closed_by (set (pre @ v # post)) ord v"
    "v \<notin> set pre"
  using assms by (fastforce simp: sorted_wrt_append closed_by_def)+

lemma components_ok_close:
  fixes s :: Tarjan and st :: "nat list" and os :: "bool list"
  assumes ok: "components_ok r s" and n: "done_nodes s \<subseteq> {..<n}" "n < UNSEEN"
    and E: "exploring r (done_nodes s) S ord (v # F) P low" "r `` {v} \<subseteq> P `` {v}" "low v = ord v"
    and C: "C = closed_by S ord v" "C \<subseteq> {..<n}"
    and comp: "\<And>x. x < n \<Longrightarrow> comp' ! x = (if x \<in> C then t_components s else t_component s ! x)" "length comp' = n" "length (t_component s) = n"
  defines "s' \<equiv> s\<lparr>t_component := comp', t_components := t_components s + 1, t_stack := st, t_on_stack := os\<rparr>"
  shows "done_nodes s' = done_nodes s \<union> C" "components_ok r s'"
proof -
  let ?D = "done_nodes s" and ?k = "t_components s"
  note X = exploringD [OF E(1)]
  note R = root_component [OF E, folded C(1)]
  have im: "(!) (t_component s) ` ?D = {..<?k}" using ok unfolding components_ok_def by blast
  have O: "?k \<le> card ?D" "\<And>x. x \<in> ?D \<Longrightarrow> t_component s ! x < ?k"
    "\<And>x y. x \<in> ?D \<Longrightarrow> y \<in> ?D \<Longrightarrow> t_component s ! x = t_component s ! y \<longleftrightarrow> (x, y) \<in> r\<^sup>* \<and> (y, x) \<in> r\<^sup>*"
    "\<And>x y. x \<in> ?D \<Longrightarrow> (x, y) \<in> r \<Longrightarrow> t_component s ! y \<le> t_component s ! x"
    using ok im unfolding components_ok_def by blast+
  have fin: "finite ?D" using n(1) finite_subset by blast
  have "card ?D \<le> n" using card_mono [OF _ n(1)] by simp
  then have k: "?k \<noteq> UNSEEN" using O(1) n(2) by simp
  have DC: "?D \<inter> C = {}" using X(1) C(1) by (auto simp: closed_by_def)
  have vC: "v \<in> C" using X(3) C(1) by (auto simp: closed_by_def)
  show D': "done_nodes s' = ?D \<union> C"
    using comp C(2) k by (auto simp: done_nodes_def s'_def split: if_splits)
  have c: "t_component s' ! x = (if x \<in> C then ?k else t_component s ! x)" if "x \<in> ?D \<union> C" for x
    using that comp(1) [of x] n(1) C(2) by (auto simp: s'_def)
  have Dstar: "y \<in> ?D" if "(x, y) \<in> r\<^sup>*" "x \<in> ?D" for x y using that X(6) by (induction rule: rtrancl_induct) auto
  show "components_ok r s'" unfolding components_ok_def D'
  proof (intro conjI ballI allI impI)
    have "card (?D \<union> C) = card ?D + card C" using fin C(2) finite_subset DC by (intro card_Un_disjoint) auto
    moreover have "0 < card C" using vC C(2) finite_subset by (auto simp: card_gt_0_iff)
    ultimately show "t_components s' \<le> card (?D \<union> C)" using O(1) by (simp add: s'_def)
    have "(!) (t_component s') ` (?D \<union> C) = (!) (t_component s) ` ?D \<union> {?k}"
      unfolding image_Un using c DC vC by (intro arg_cong2 [where f = "(\<union>)"] image_cong) auto
    then show "(!) (t_component s') ` (?D \<union> C) = {..<t_components s'}" unfolding im by (auto simp: s'_def)
    show "t_component s' ! x = t_component s' ! y \<longleftrightarrow> (x, y) \<in> r\<^sup>* \<and> (y, x) \<in> r\<^sup>*" if xy: "x \<in> ?D \<union> C" "y \<in> ?D \<union> C" for x y
    proof (cases "x \<in> C"; cases "y \<in> C")
      assume "x \<in> C" "y \<in> C"
      then show ?thesis using R(2) [of x] R(2) [of y] c xy by (auto intro: rtrancl_trans)
    next
      assume "x \<in> C" "y \<notin> C"
      then have y: "y \<in> ?D" "t_component s' ! x \<noteq> t_component s' ! y" using xy c O(2) [of y] by auto
      moreover have "(y, x) \<notin> r\<^sup>*" using Dstar [of y x] y(1) \<open>x \<in> C\<close> DC by auto
      ultimately show ?thesis by simp
    next
      assume "x \<notin> C" "y \<in> C"
      then have x: "x \<in> ?D" "t_component s' ! x \<noteq> t_component s' ! y" using xy c O(2) [of x] by auto
      moreover have "(x, y) \<notin> r\<^sup>*" using Dstar [of x y] x(1) \<open>y \<in> C\<close> DC by auto
      ultimately show ?thesis by simp
    next
      assume "x \<notin> C" "y \<notin> C"
      then show ?thesis using O(3) [of x y] xy c by auto
    qed
    show "t_component s' ! y \<le> t_component s' ! x" if x: "x \<in> ?D \<union> C" and y: "(x, y) \<in> r" for x y
    proof (cases "x \<in> C")
      case True
      then have "y \<in> ?D \<union> C" using R(1) y by auto
      then show ?thesis using c [of y] c [OF x] True O(2) [of y] by (cases "y \<in> C") auto
    next
      case False
      then have "x \<in> ?D" using x by simp
      moreover from this have "y \<in> ?D" using X(6) y by auto
      ultimately show ?thesis using c [of y] c [OF x] O(4) [of x y] y DC by auto
    qed
  qed
qed

lemma close_root_result:
  assumes v: "vectors_ok (length succ) s" and c: "components_ok (row_rel succ) s" and n: "length succ < UNSEEN"
    and E: "exploring (row_rel succ) (done_nodes s) (set (t_stack s)) ((!) (t_order s)) (v # F) P ((!) (t_low s))"
    and all: "row_rel succ `` {v} \<subseteq> P `` {v}" and root: "t_low s ! v = t_order s ! v"
  shows "\<exists>s'. close_root v s = Some s' \<and> vectors_ok (length succ) s' \<and> components_ok (row_rel succ) s' \<and>
    exploring (row_rel succ) (done_nodes s') (set (t_stack s')) ((!) (t_order s')) F P ((!) (t_low s')) \<and> t_order s' = t_order s"
proof -
  let ?n = "length succ" and ?C = "closed_by (set (t_stack s)) ((!) (t_order s)) v"
  note V = vectors_okD [OF v]
  have vS: "v \<in> set (t_stack s)" using exploringD(3) [OF E] by simp
  then obtain pre post where st: "t_stack s = pre @ v # post" by (meson split_list)
  note S = stack_split [OF V(7) [unfolded st], folded st]
  have Cn: "?C \<subseteq> {..<?n}" using V(5) by (auto simp: closed_by_def)
  from pop_component_result [OF S(3) _ V(3,4), of "t_components s" post] S(1) Cn obtain on' comp' where
    p: "pop_component v (t_components s) (t_stack s) (t_on_stack s) (t_component s) = Some (post, on', comp')"
      "length on' = ?n" "length comp' = ?n"
      "\<forall>x < ?n. on' ! x = (t_on_stack s ! x \<and> x \<notin> ?C) \<and> comp' ! x = (if x \<in> ?C then t_components s else t_component s ! x)"
    unfolding S(1) st [symmetric] by auto
  let ?s = "s\<lparr>t_component := comp', t_components := t_components s + 1, t_stack := post, t_on_stack := on'\<rparr>"
  have vn: "v < ?n" using V(5) [OF vS] .
  have eq: "close_root v s = Some ?s" using root p(1) V(1,2) vn by (simp add: close_root_def vec_simps)
  have Dn: "done_nodes s \<subseteq> {..<?n}" using V(4) by (auto simp: done_nodes_def)
  have comp: "comp' ! x = (if x \<in> ?C then t_components s else t_component s ! x)" if "x < ?n" for x using p(4) that by blast
  note K = components_ok_close [OF c Dn n E all root refl Cn comp p(3) V(4), where st = post and os = on']
  have un: "done_nodes ?s \<union> set (t_stack ?s) = done_nodes s \<union> set (t_stack s)" using K(1) S(2) Cn by (auto simp: closed_by_def)
  have "vectors_ok ?n ?s" unfolding vectors_ok_def un
  proof (intro conjI ballI)
    show "set (t_stack ?s) \<subseteq> {..<?n}" using V(5) S(2) by auto
    have "marked on' = marked (t_on_stack s) - ?C" using p(2,4) V(3) by (auto simp: marked_def)
    then show "marked (t_on_stack ?s) = set (t_stack ?s)" using V(6) S(2) by simp
    show "sorted_wrt (\<lambda>a b. t_order ?s ! b < t_order ?s ! a) (t_stack ?s)" using V(7) by (simp add: st sorted_wrt_append)
  qed (use V(1,2,8,9,10) p(2,3) in simp_all)
  moreover have "exploring (row_rel succ) (done_nodes ?s) (set (t_stack ?s)) ((!) (t_order ?s)) F P ((!) (t_low ?s))"
  proof -
    have "exploring (row_rel succ) (done_nodes s \<union> ?C) (set post) ((!) (t_order s)) F P ((!) (t_low s))"
      using exploring_root [OF E all root] by (simp add: S(2))
    then have "exploring (row_rel succ) (done_nodes ?s) (set post) ((!) (t_order s)) F P ((!) (t_low s))" by (subst K(1))
    then show ?thesis by simp
  qed
  ultimately show ?thesis using eq K(2) by (intro exI [of _ ?s]) simp
qed

text \<open>What is left to do: every unseen node and the rest of every frame.\<close>

definition todo :: "nat list list \<Rightarrow> (nat \<times> nat) list \<Rightarrow> Tarjan \<Rightarrow> nat" where
  "todo succ frames s = (\<Sum>x \<in> {x. x < length succ \<and> t_order s ! x = UNSEEN}. length (succ ! x) + 2) +
     (\<Sum>(v, pos) \<leftarrow> frames. length (succ ! v) - pos + 1)"

lemma tarjan_okE:
  assumes "tarjan_ok succ frames s"
  obtains P where "vectors_ok (length succ) s" "components_ok (row_rel succ) s"
    "exploring (row_rel succ) (done_nodes s) (set (t_stack s)) ((!) (t_order s)) (map fst frames) P ((!) (t_low s))"
    "\<And>v pos. (v, pos) \<in> set frames \<Longrightarrow> set (take pos (succ ! v)) \<subseteq> P `` {v}"
  using assms unfolding tarjan_ok_def by blast

lemma step_enter:
  assumes rows: "rows_ok succ" and n: "length succ < UNSEEN" and ok: "tarjan_ok succ ((v, pos) # rest) s"
    and pos: "pos < length (succ ! v)" and w: "t_order s ! (succ ! v ! pos) = UNSEEN"
  shows "\<exists>s'. tarjan_step succ v pos rest s = Some ((succ ! v ! pos, 0) # (v, pos + 1) # rest, s') \<and>
    tarjan_ok succ ((succ ! v ! pos, 0) # (v, pos + 1) # rest) s' \<and>
    todo succ ((succ ! v ! pos, 0) # (v, pos + 1) # rest) s' < todo succ ((v, pos) # rest) s"
proof -
  let ?w = "succ ! v ! pos" and ?n = "length succ" and ?r = "row_rel succ"
  from ok obtain P where V: "vectors_ok ?n s" and C: "components_ok ?r s"
    and E: "exploring ?r (done_nodes s) (set (t_stack s)) ((!) (t_order s)) (v # map fst rest) P ((!) (t_low s))"
    and P: "\<And>u k. (u, k) \<in> set ((v, pos) # rest) \<Longrightarrow> set (take k (succ ! u)) \<subseteq> P `` {u}"
    by (rule tarjan_okE) simp
  have vn: "v < ?n" using exploringD(3) [OF E] vectors_okD(5) [OF V] by auto
  have wn: "?w < ?n" using rows_okD [OF rows vn] pos by simp
  have vw: "(v, ?w) \<in> ?r" using vn pos by (simp add: row_rel_def)
  define s' where "s' = s\<lparr>t_order := (t_order s)[?w := t_next s], t_low := (t_low s)[?w := t_next s],
    t_on_stack := (t_on_stack s)[?w := True], t_stack := ?w # t_stack s, t_next := t_next s + 1\<rparr>"
  note N = enter_node_result [OF V n wn w, folded s'_def]
  have "tarjan_step succ v pos rest s = Some ((?w, 0) # (v, pos + 1) # rest, s')"
    using vn wn pos w N(1) vectors_okD(1) [OF V] by (simp add: tarjan_step_def vec_simps)
  moreover have "exploring ?r (done_nodes s') (set (t_stack s')) ((!) (t_order s')) (?w # v # map fst rest) (insert (v, ?w) P) ((!) (t_low s'))"
    using exploring_enter [OF E N(4) vectors_okD(9) [OF V], of "insert (v, ?w) P"] vw wn vectors_okD(1,2) [OF V]
    unfolding N(3) by (simp add: s'_def nth_update_fun)
  moreover have "set (take k (succ ! u)) \<subseteq> insert (v, ?w) P `` {u}" if "(u, k) \<in> set ((?w, 0) # (v, pos + 1) # rest)" for u k
    using that P [of u k] P [of v pos] pos by (auto simp: take_Suc_conv_app_nth)
  moreover have "components_ok ?r s'" using C N(3) by (simp add: components_ok_def s'_def)
  ultimately have step: "tarjan_step succ v pos rest s = Some ((?w, 0) # (v, pos + 1) # rest, s')"
    "tarjan_ok succ ((?w, 0) # (v, pos + 1) # rest) s'" using N(2) unfolding tarjan_ok_def by auto
  let ?U = "{x. x < ?n \<and> t_order s ! x = UNSEEN}"
  have U: "{x. x < ?n \<and> t_order s' ! x = UNSEEN} = ?U - {?w}"
    using next_bound(2) [OF V n] vectors_okD(1) [OF V] wn by (auto simp: s'_def nth_list_update)
  have "(\<Sum>x \<in> ?U. length (succ ! x) + 2) = length (succ ! ?w) + 2 + (\<Sum>x \<in> ?U - {?w}. length (succ ! x) + 2)"
    using wn w by (intro sum.remove) auto
  then have "todo succ ((?w, 0) # (v, pos + 1) # rest) s' < todo succ ((v, pos) # rest) s"
    using pos unfolding todo_def U by simp
  with step show ?thesis by blast
qed

lemma step_seen:
  assumes rows: "rows_ok succ" and n: "length succ < UNSEEN" and ok: "tarjan_ok succ ((v, pos) # rest) s"
    and pos: "pos < length (succ ! v)" and w: "t_order s ! (succ ! v ! pos) \<noteq> UNSEEN"
  shows "\<exists>s'. tarjan_step succ v pos rest s = Some ((v, pos + 1) # rest, s') \<and> tarjan_ok succ ((v, pos + 1) # rest) s' \<and>
    todo succ ((v, pos + 1) # rest) s' < todo succ ((v, pos) # rest) s"
proof -
  let ?w = "succ ! v ! pos" and ?n = "length succ" and ?r = "row_rel succ"
  from ok obtain P where V: "vectors_ok ?n s" and C: "components_ok ?r s"
    and E: "exploring ?r (done_nodes s) (set (t_stack s)) ((!) (t_order s)) (v # map fst rest) P ((!) (t_low s))"
    and P: "\<And>u k. (u, k) \<in> set ((v, pos) # rest) \<Longrightarrow> set (take k (succ ! u)) \<subseteq> P `` {u}"
    by (rule tarjan_okE) simp
  note W = vectors_okD [OF V]
  have vn: "v < ?n" using exploringD(3) [OF E] W(5) by auto
  have wn: "?w < ?n" using rows_okD [OF rows vn] pos by simp
  have vw: "(v, ?w) \<in> ?r" using vn pos by (simp add: row_rel_def)
  have P': "set (take k (succ ! u)) \<subseteq> insert (v, ?w) P `` {u}" if "(u, k) \<in> set ((v, pos + 1) # rest)" for u k
    using that P [of u k] P [of v pos] pos by (auto simp: take_Suc_conv_app_nth)
  have on: "t_on_stack s ! ?w \<longleftrightarrow> ?w \<in> set (t_stack s)" using W(3,6) wn by (auto simp: marked_def)
  have less: "todo succ ((v, pos + 1) # rest) s' < todo succ ((v, pos) # rest) s" if "t_order s' = t_order s" for s'
    using pos that by (simp add: todo_def)
  show ?thesis
  proof (cases "?w \<in> set (t_stack s)")
    case True
    let ?s = "s\<lparr>t_low := (t_low s)[v := min (t_low s ! v) (t_order s ! ?w)]\<rparr>"
    have D: "done_nodes ?s = done_nodes s" by (simp add: done_nodes_def)
    have "tarjan_step succ v pos rest s = Some ((v, pos + 1) # rest, ?s)"
      using vn wn pos w on True W(1-3) by (simp add: tarjan_step_def vec_simps)
    moreover have "exploring ?r (done_nodes ?s) (set (t_stack ?s)) ((!) (t_order ?s)) (map fst ((v, pos + 1) # rest)) (insert (v, ?w) P) ((!) (t_low ?s))"
      using exploring_seen [OF E vw True] W(2) vn unfolding D by (simp add: nth_update_fun)
    moreover have "vectors_ok ?n ?s" using vectors_ok_low [OF V] W(2) by simp
    moreover have "components_ok ?r ?s" using C D by (simp add: components_ok_def)
    ultimately have "tarjan_ok succ ((v, pos + 1) # rest) ?s" using P' unfolding tarjan_ok_def by blast
    then show ?thesis using \<open>tarjan_step succ v pos rest s = Some ((v, pos + 1) # rest, ?s)\<close> less [of ?s] by auto
  next
    case False
    then have wD: "?w \<in> done_nodes s" using W(8) wn w by blast
    have "tarjan_step succ v pos rest s = Some ((v, pos + 1) # rest, s)"
      using vn wn pos w on False W(1-3) by (simp add: tarjan_step_def vec_simps)
    moreover have "tarjan_ok succ ((v, pos + 1) # rest) s"
      using V C exploring_done [OF E vw wD] P' unfolding tarjan_ok_def by auto
    ultimately show ?thesis using less [of s] by auto
  qed
qed

lemma lower_parent_result:
  assumes V: "vectors_ok n s" and "v < n" "\<forall>p \<in> fst ` set rest. p < n"
  defines "low' \<equiv> (case rest of [] \<Rightarrow> t_low s | (p, _) # _ \<Rightarrow> (t_low s)[p := min (t_low s ! p) (t_low s ! v)])"
  shows "lower_parent v rest s = Some (s\<lparr>t_low := low'\<rparr>)"
  using assms vectors_okD(2) [OF V] by (cases rest) (auto simp: lower_parent_def vec_simps)

lemma step_finish:
  assumes rows: "rows_ok succ" and n: "length succ < UNSEEN" and ok: "tarjan_ok succ ((v, pos) # rest) s"
    and pos: "\<not> pos < length (succ ! v)"
  shows "\<exists>s'. tarjan_step succ v pos rest s = Some (rest, s') \<and> tarjan_ok succ rest s' \<and> todo succ rest s' < todo succ ((v, pos) # rest) s"
proof -
  let ?n = "length succ" and ?r = "row_rel succ"
  from ok obtain P where V: "vectors_ok ?n s" and C: "components_ok ?r s"
    and E: "exploring ?r (done_nodes s) (set (t_stack s)) ((!) (t_order s)) (v # map fst rest) P ((!) (t_low s))"
    and P: "\<And>u k. (u, k) \<in> set ((v, pos) # rest) \<Longrightarrow> set (take k (succ ! u)) \<subseteq> P `` {u}"
    by (rule tarjan_okE) simp
  note W = vectors_okD [OF V]
  note X = exploringD [OF E]
  have vn: "v < ?n" and pn: "\<forall>p \<in> fst ` set rest. p < ?n" using X(3) W(5) by auto
  have all: "?r `` {v} \<subseteq> P `` {v}" using P [of v pos] pos by (auto simp: row_rel_def)
  define low' where "low' = (case rest of [] \<Rightarrow> t_low s | (p, _) # _ \<Rightarrow> (t_low s)[p := min (t_low s ! p) (t_low s ! v)])"
  let ?s = "s\<lparr>t_low := low'\<rparr>"
  have lp: "lower_parent v rest s = Some ?s" using lower_parent_result [OF V vn pn] by (simp add: low'_def)
  have D: "done_nodes ?s = done_nodes s" by (simp add: done_nodes_def)
  have len: "length low' = ?n" using W(2) by (auto simp: low'_def split: list.splits)
  have V': "vectors_ok ?n ?s" using vectors_ok_low [OF V len] .
  have C': "components_ok ?r ?s" using C D by (simp add: components_ok_def)
  have lv: "low' ! v = t_low s ! v" using top_frame(4) [OF E] by (force simp: low'_def split: list.splits)
  have row: "vget succ v = Some (succ ! v)" using vn by (simp add: vec_simps)
  have less: "todo succ rest s' < todo succ ((v, pos) # rest) s" if "t_order s' = t_order s" for s' using that by (simp add: todo_def)
  show ?thesis
  proof (cases "t_low s ! v = t_order s ! v")
    case True
    have "low' = t_low s"
    proof (cases rest)
      case (Cons q qs)
      have "t_low s ! fst q \<le> t_order s ! fst q" "t_order s ! fst q < t_order s ! v" using X(12) [of "fst q"] top_frame(1) [OF E, of "fst q"] Cons by auto
      then show ?thesis using Cons True by (cases q) (simp add: low'_def min_def)
    qed (simp add: low'_def)
    then have same: "?s = s" by simp
    from close_root_result [OF V C n E all True] obtain s' where
      R: "close_root v s = Some s'" "vectors_ok ?n s'" "components_ok ?r s'" "t_order s' = t_order s"
        "exploring ?r (done_nodes s') (set (t_stack s')) ((!) (t_order s')) (map fst rest) P ((!) (t_low s'))" by blast
    have "tarjan_step succ v pos rest s = Some (rest, s')" using row pos lp R(1) same by (simp add: tarjan_step_def)
    moreover have "tarjan_ok succ rest s'" using R(2,3,5) P unfolding tarjan_ok_def by auto
    ultimately show ?thesis using less [OF R(4)] by blast
  next
    case False
    have ne: "rest \<noteq> []"
    proof
      assume nil: "rest = []"
      obtain y where y: "y \<in> set (t_stack s)" "t_order s ! y = t_low s ! v" using X(13) [of v] by auto
      then have "t_order s ! v \<le> t_order s ! y" using X(15) [of y] nil by auto
      then show False using y(2) X(12) [of v] False by simp
    qed
    then obtain p k qs where rest: "rest = (p, k) # qs" by (cases rest) auto
    have "exploring ?r (done_nodes s) (set (t_stack s)) ((!) (t_order s)) (p # map fst qs) P ((!) low')"
      using exploring_finish [OF E [unfolded rest, simplified] all False] W(2) pn rest by (simp add: low'_def nth_update_fun)
    then have "tarjan_ok succ rest ?s" using V' C' P D rest unfolding tarjan_ok_def by auto
    moreover have "close_root v ?s = Some ?s" using False lv vn W(1) len by (simp add: close_root_def vec_simps)
    then have "tarjan_step succ v pos rest s = Some (rest, ?s)" using row pos lp by (simp add: tarjan_step_def)
    ultimately show ?thesis using less [of ?s] by auto
  qed
qed

definition seen_nodes :: "Tarjan \<Rightarrow> nat set" where
  "seen_nodes s = {x. t_order s ! x \<noteq> UNSEEN}"

lemma lower_parent_order: "lower_parent v rest s = Some s' \<Longrightarrow> t_order s' = t_order s"
  by (auto simp: lower_parent_def split: list.splits Option.bind_splits)

lemma close_root_order: "close_root v s = Some s' \<Longrightarrow> t_order s' = t_order s"
  by (auto simp: close_root_def split: Option.bind_splits if_splits)

lemma step_keeps_order:
  assumes "tarjan_step succ v pos rest s = Some (frames', s')"
  shows "t_order s' = t_order s \<or> (\<exists>w. t_order s' = (t_order s)[w := t_next s])"
proof -
  from assms obtain row where row: "vget succ v = Some row" by (cases "vget succ v") (auto simp: tarjan_step_def)
  show ?thesis
  proof (cases "pos < length row")
    case True
    with assms row show ?thesis
      by (auto simp: tarjan_step_def enter_node_def vset_def Let_def split: Option.bind_splits if_splits)
  next
    case False
    with assms row obtain s1 where "lower_parent v rest s = Some s1" "close_root v s1 = Some s'"
      by (auto simp: tarjan_step_def split: Option.bind_splits)
    then show ?thesis using lower_parent_order close_root_order by metis
  qed
qed

lemma step_seen_nodes:
  assumes "tarjan_step succ v pos rest s = Some (frames', s')" "t_next s \<noteq> UNSEEN"
  shows "seen_nodes s \<subseteq> seen_nodes s'"
proof -
  from step_keeps_order [OF assms(1)] show ?thesis
  proof
    assume "\<exists>w. t_order s' = (t_order s)[w := t_next s]"
    then obtain w where "t_order s' = (t_order s)[w := t_next s]" by blast
    then show ?thesis using assms(2)
      by (cases "w < length (t_order s)") (auto simp: seen_nodes_def nth_list_update list_update_beyond split: if_splits)
  qed (simp add: seen_nodes_def)
qed

lemma tarjan_loop_result:
  assumes rows: "rows_ok succ" and n: "length succ < UNSEEN"
  shows "tarjan_ok succ frames s \<Longrightarrow> \<exists>s'. tarjan_loop succ frames s = Some s' \<and> tarjan_ok succ [] s' \<and> seen_nodes s \<subseteq> seen_nodes s'"
proof (induction "todo succ frames s" arbitrary: frames s rule: less_induct)
  case less
  show ?case
  proof (cases frames)
    case Nil
    then show ?thesis using less.prems by (subst tarjan_loop.simps) simp
  next
    case (Cons f rest)
    obtain v pos where f: "f = (v, pos)" by (cases f)
    have "\<exists>frames' s'. tarjan_step succ v pos rest s = Some (frames', s') \<and> tarjan_ok succ frames' s' \<and> todo succ frames' s' < todo succ frames s"
      using step_enter [OF rows n] step_seen [OF rows n] step_finish [OF rows n] less.prems unfolding Cons f by metis
    then obtain frames' s' where S: "tarjan_step succ v pos rest s = Some (frames', s')" "tarjan_ok succ frames' s'"
      "todo succ frames' s' < todo succ frames s" by blast
    have "tarjan_loop succ frames s = tarjan_loop succ frames' s'" using S(1) Cons f by (subst tarjan_loop.simps) simp
    moreover have "t_next s \<noteq> UNSEEN" using less.prems next_bound(2) n by (auto simp: tarjan_ok_def)
    ultimately show ?thesis using less.hyps [OF S(3,2)] step_seen_nodes [OF S(1)] by auto
  qed
qed

lemma tarjan_root_result:
  assumes rows: "rows_ok succ" and n: "length succ < UNSEEN" and ok: "tarjan_ok succ [] s" and root: "root < length succ"
  shows "\<exists>s'. tarjan_root succ s root = Some s' \<and> tarjan_ok succ [] s' \<and> insert root (seen_nodes s) \<subseteq> seen_nodes s'"
proof -
  let ?n = "length succ" and ?r = "row_rel succ"
  from ok obtain P where V: "vectors_ok ?n s" and C: "components_ok ?r s"
    and E: "exploring ?r (done_nodes s) (set (t_stack s)) ((!) (t_order s)) [] P ((!) (t_low s))"
    by (rule tarjan_okE) simp
  note W = vectors_okD [OF V]
  show ?thesis
  proof (cases "t_order s ! root = UNSEEN")
    case False
    then show ?thesis using ok root W(1) by (simp add: tarjan_root_def vec_simps seen_nodes_def)
  next
    case True
    define s' where "s' = s\<lparr>t_order := (t_order s)[root := t_next s], t_low := (t_low s)[root := t_next s],
      t_on_stack := (t_on_stack s)[root := True], t_stack := root # t_stack s, t_next := t_next s + 1\<rparr>"
    note N = enter_node_result [OF V n root True, folded s'_def]
    have "exploring ?r (done_nodes s') (set (t_stack s')) ((!) (t_order s')) [root] P ((!) (t_low s'))"
      using exploring_enter [OF E N(4) W(9), of P] root W(1,2) unfolding N(3) by (simp add: s'_def nth_update_fun)
    moreover have "components_ok ?r s'" using C N(3) by (simp add: components_ok_def s'_def)
    ultimately have "tarjan_ok succ [(root, 0)] s'" using N(2) unfolding tarjan_ok_def by auto
    moreover have "insert root (seen_nodes s) \<subseteq> seen_nodes s'"
      using next_bound(2) [OF V n] root W(1) by (auto simp: seen_nodes_def s'_def nth_list_update)
    ultimately show ?thesis using tarjan_loop_result [OF rows n, of "[(root, 0)]" s'] N(1) True root W(1)
      by (auto simp: tarjan_root_def vec_simps)
  qed
qed

lemma loop_keeps_seen:
  assumes "tarjan_ok succ [] s"
  shows "set (t_stack s) = {}" "done_nodes s = {x. x < length succ \<and> t_order s ! x \<noteq> UNSEEN}"
proof -
  from assms obtain P where V: "vectors_ok (length succ) s"
    and E: "exploring (row_rel succ) (done_nodes s) (set (t_stack s)) ((!) (t_order s)) [] P ((!) (t_low s))"
    by (rule tarjan_okE) simp
  show st: "set (t_stack s) = {}" using exploringD(15) [OF E] by force
  show "done_nodes s = {x. x < length succ \<and> t_order s ! x \<noteq> UNSEEN}" using vectors_okD(8) [OF V] st by simp
qed

lemma tarjan_init_ok: "tarjan_ok succ [] (tarjan_init (length succ))"
proof -
  have D: "done_nodes (tarjan_init (length succ)) = {}" by (auto simp: done_nodes_def tarjan_init_def)
  have "exploring (row_rel succ) {} {} ord [] {} low" for ord low by (rule exploringI) auto
  then show ?thesis unfolding tarjan_ok_def vectors_ok_def components_ok_def D by (auto simp: tarjan_init_def)
qed

lemma edges_order_reach:
  fixes c :: "nat \<Rightarrow> nat"
  assumes "\<And>x y. (x, y) \<in> r \<Longrightarrow> c y \<le> c x" "(x, y) \<in> r\<^sup>*"
  shows "c y \<le> c x"
  using assms(2) by (induction rule: rtrancl_induct) (use assms(1) in \<open>auto intro: order_trans\<close>)

lemma scc_result:
  assumes rows: "rows_ok succ" and n: "length succ < UNSEEN"
  shows "\<exists>component k. strongly_connected_components succ = Some component \<and> length component = length succ \<and> set component = {..<k} \<and>
    (\<forall>x < length succ. \<forall>y < length succ. component ! x = component ! y \<longleftrightarrow> (x, y) \<in> (row_rel succ)\<^sup>* \<and> (y, x) \<in> (row_rel succ)\<^sup>*) \<and>
    (\<forall>x < length succ. \<forall>y < length succ. (x, y) \<in> (row_rel succ)\<^sup>* \<longrightarrow> component ! y \<le> component ! x)"
proof -
  let ?n = "length succ" and ?r = "row_rel succ"
  have "\<exists>s. foldM (tarjan_root succ) (tarjan_init ?n) [0..<?n] = Some s \<and> (tarjan_ok succ [] s \<and> set [0..<?n] \<inter> {..<?n} \<subseteq> seen_nodes s)"
  proof (rule foldM_prefix_rule [where I = "\<lambda>ds s. tarjan_ok succ [] s \<and> set ds \<inter> {..<?n} \<subseteq> seen_nodes s"])
    show "tarjan_ok succ [] (tarjan_init ?n) \<and> set [] \<inter> {..<?n} \<subseteq> seen_nodes (tarjan_init ?n)" by (simp add: tarjan_init_ok)
    show "\<exists>t. tarjan_root succ s x = Some t \<and> (tarjan_ok succ [] t \<and> set (ds @ [x]) \<inter> {..<?n} \<subseteq> seen_nodes t)"
      if "tarjan_ok succ [] s \<and> set ds \<inter> {..<?n} \<subseteq> seen_nodes s" "x \<in> set [0..<?n]" for ds x s
      using tarjan_root_result [OF rows n, of s x] that by fastforce
  qed
  then obtain s where s: "foldM (tarjan_root succ) (tarjan_init ?n) [0..<?n] = Some s" "tarjan_ok succ [] s" "{..<?n} \<subseteq> seen_nodes s"
    by (auto simp: atLeast0LessThan)
  have D: "done_nodes s = {..<?n}" using loop_keeps_seen(2) [OF s(2)] s(3) by (auto simp: seen_nodes_def)
  have len: "length (t_component s) = ?n" using s(2) by (simp add: tarjan_ok_def vectors_ok_def)
  have C: "components_ok ?r s" using s(2) by (simp add: tarjan_ok_def)
  have "set (t_component s) = (!) (t_component s) ` {..<?n}" using len by (auto simp: set_conv_nth)
  then have im: "set (t_component s) = {..<t_components s}" using C D by (simp add: components_ok_def)
  have iff: "\<forall>x < ?n. \<forall>y < ?n. t_component s ! x = t_component s ! y \<longleftrightarrow> (x, y) \<in> ?r\<^sup>* \<and> (y, x) \<in> ?r\<^sup>*"
    using C unfolding components_ok_def D by simp
  have "t_component s ! y \<le> t_component s ! x" if "(x, y) \<in> ?r\<^sup>*" for x y
    using edges_order_reach [OF _ that, of "(!) (t_component s)"] C unfolding components_ok_def D by (auto simp: row_rel_def)
  with s(1) len im iff show ?thesis unfolding strongly_connected_components_def by auto
qed

section \<open>Properties\<close>

text \<open>C15: Tarjan's algorithm terminates without a panic on every graph whose successors are nodes, and
  its ids name the strongly connected components: two nodes have the same id exactly when each
  reaches the other, the ids are dense from zero, and a component's id is smaller than that of every other
  component that reaches it.\<close>

theorem strongly_connected_components_correct:
  assumes "rows_ok succ" and "length succ < UNSEEN"
  shows "\<exists>component k. strongly_connected_components succ = Some component \<and> length component = length succ \<and> set component = {..<k} \<and>
    (\<forall>x < length succ. \<forall>y < length succ. component ! x = component ! y \<longleftrightarrow> (x, y) \<in> (row_rel succ)\<^sup>* \<and> (y, x) \<in> (row_rel succ)\<^sup>*) \<and>
    (\<forall>x < length succ. \<forall>y < length succ. (x, y) \<in> (row_rel succ)\<^sup>* \<longrightarrow> component ! y \<le> component ! x)"
  by (rule scc_result [OF assms])

theorem strongly_connected_components_correct_witness:
  "\<exists>component. strongly_connected_components [[1], [0, 2], []] = Some component \<and>
     (component ! 0 = component ! 1 \<longleftrightarrow>
        (0, 1) \<in> (row_rel [[1], [0, 2], []])\<^sup>* \<and> (1, 0) \<in> (row_rel [[1], [0, 2], []])\<^sup>*)"
proof -
  have ok: "rows_ok [[1], [0, 2], []]" "length [[1], [0, 2], [] :: nat list] < UNSEEN" by code_simp+
  have "(0::nat) < length [[1], [0, 2], [] :: nat list]" "(1::nat) < length [[1], [0, 2], [] :: nat list]" by simp_all
  with strongly_connected_components_correct [OF ok] show ?thesis by blast
qed

end
