(* ===== verification/Call_Graph.thy ===== *)
theory Call_Graph
  imports Prelude Kinds "HOL-Library.List_Lexorder" "HOL-Library.Product_Lexorder"
begin

text \<open>
  The call graph and its chains (\<^verbatim>\<open>trace-analysis/src/callgraph.rs\<close>), with the constraint data
  of \<^verbatim>\<open>trace-analysis/src/constraints.rs\<close>. \<open>find_call_chains\<close> is a depth-first search with a set of active
  nodes; the theorem says which chains it returns, and in which order.
\<close>

section \<open>Constraints, edges and locations\<close>

datatype ConstraintKind = Copy | AddrOf | Load | Store | Gep | Dlsym | UnwrapPointer

record FieldAccess =
  fa_field :: nat
  fa_field_name :: string

record Constraint =
  c_kind :: ConstraintKind
  c_dst :: nat
  c_src :: nat
  c_field_info :: "FieldAccess option"

definition Constraint_field :: "Constraint \<Rightarrow> nat option" where
  "Constraint_field c = map_option fa_field (c_field_info c)"

definition Constraint_field_name :: "Constraint \<Rightarrow> string option" where
  "Constraint_field_name c = map_option fa_field_name (c_field_info c)"

datatype ResolutionKind = Direct | Indirect | Ambiguous | External | IpcBridge

record CallGraphEdge =
  ce_call_site :: nat
  ce_caller :: nat
  ce_callee :: nat
  ce_resolution :: ResolutionKind

record ArgFlowEdge =
  af_call_site :: nat
  af_arg_index :: nat
  af_actual_var :: "nat option"
  af_actual_fn :: "nat option"
  af_formal :: nat

datatype LocKind = Global | FileStatic | FnStatic | Local | Heap | Field | FieldSummary | ArraySummary | Function | StringLit

record AbstractLocation =
  al_id :: nat
  al_kind :: LocKind
  al_var :: "nat option"
  al_fn_id :: "nat option"
  al_field :: "nat option"
  al_type_id :: nat
  al_desc :: string

section \<open>The call graph\<close>

record CallGraph =
  cg_edges :: "CallGraphEdge list"

definition callees_of :: "CallGraph \<Rightarrow> nat \<Rightarrow> nat list" where
  "callees_of g caller = map ce_callee (filter (\<lambda>e. ce_caller e = caller) (cg_edges g))"

definition callers_of :: "CallGraph \<Rightarrow> nat \<Rightarrow> (nat \<times> nat) list" where
  "callers_of g callee = map (\<lambda>e. (ce_caller e, ce_call_site e)) (filter (\<lambda>e. ce_callee e = callee) (cg_edges g))"

definition add_adj :: "(nat \<rightharpoonup> CallGraphEdge list) \<Rightarrow> CallGraphEdge \<Rightarrow> (nat \<rightharpoonup> CallGraphEdge list)" where
  "add_adj adj edge = adj(ce_caller edge \<mapsto> (case adj (ce_caller edge) of None \<Rightarrow> [] | Some es \<Rightarrow> es) @ [edge])"

definition adj_of :: "CallGraph \<Rightarrow> (nat \<rightharpoonup> CallGraphEdge list)" where
  "adj_of g = foldl add_adj (\<lambda>_. None) (cg_edges g)"

text \<open>
  The nested \<open>dfs\<close> with its mutable path, active set and result list. The recursion is bounded by
  \<open>depth < max_depth\<close>; the loop over the neighbours is the second function, entered only below that
  bound, where its own test of it never fires.
\<close>

function (sequential)
  dfs :: "nat \<Rightarrow> nat \<Rightarrow> nat \<Rightarrow> nat \<Rightarrow> (nat \<rightharpoonup> CallGraphEdge list) \<Rightarrow> CallGraphEdge list \<Rightarrow> nat set \<Rightarrow> CallGraphEdge list list \<Rightarrow>
    CallGraphEdge list \<times> nat set \<times> CallGraphEdge list list"
  and dfs_edges :: "CallGraphEdge list \<Rightarrow> nat \<Rightarrow> nat \<Rightarrow> nat \<Rightarrow> (nat \<rightharpoonup> CallGraphEdge list) \<Rightarrow> CallGraphEdge list \<Rightarrow> nat set \<Rightarrow>
    CallGraphEdge list list \<Rightarrow> CallGraphEdge list \<times> nat set \<times> CallGraphEdge list list" where
  "dfs u target depth max_depth adj current active found =
     (if depth \<ge> max_depth then (current, active, found)
      else case adj u of
        None \<Rightarrow> (current, active, found)
      | Some neighbors \<Rightarrow> dfs_edges neighbors target depth max_depth adj current active found)"
| "dfs_edges [] target depth max_depth adj current active found = (current, active, found)"
| "dfs_edges (edge # rest) target depth max_depth adj current active found =
     (if depth \<ge> max_depth then (current, active, found)
      else
        (let v = ce_callee edge in
         if v = target then dfs_edges rest target depth max_depth adj current active (found @ [current @ [edge]])
         else if v \<notin> active then
           (case dfs v target (depth + 1) max_depth adj (current @ [edge]) (insert v active) found of
              (current', active', found') \<Rightarrow> dfs_edges rest target depth max_depth adj (butlast current') (active' - {v}) found')
         else dfs_edges rest target depth max_depth adj current active found))"
  by pat_completeness auto
termination
  by (relation "inv_image (less_than <*lex*> less_than <*lex*> less_than)
      (\<lambda>x. case x of Inl (u, target, depth, max_depth, adj, current, active, found) \<Rightarrow> (max_depth - depth, 1, 0)
       | Inr (es, target, depth, max_depth, adj, current, active, found) \<Rightarrow> (max_depth - depth, 0, length es))") auto

text \<open>The comparator of the final sort: by length, then by the callees in order.\<close>

definition chain_key :: "CallGraphEdge list \<Rightarrow> nat \<times> nat list" where
  "chain_key c = (length c, map ce_callee c)"

definition find_call_chains :: "CallGraph \<Rightarrow> nat \<Rightarrow> nat \<Rightarrow> nat \<Rightarrow> CallGraphEdge list list" where
  "find_call_chains g from target max_depth =
     (let found0 = (if from = target then [[]] else []) in
      if max_depth = 0 then found0
      else (case dfs from target 0 max_depth (adj_of g) [] {from} found0 of
              (_, _, found) \<Rightarrow> sort_key chain_key found))"

section \<open>What the search finds\<close>

lemma adj_of_edges: "(case adj_of g u of None \<Rightarrow> [] | Some es \<Rightarrow> es) = filter (\<lambda>e. ce_caller e = u) (cg_edges g)"
proof -
  have "(case foldl add_adj (\<lambda>_. None) es u of None \<Rightarrow> [] | Some xs \<Rightarrow> xs) = filter (\<lambda>e. ce_caller e = u) es" for es
    by (induction es rule: rev_induct) (auto simp: add_adj_def split: option.splits)
  then show ?thesis by (simp add: adj_of_def)
qed

text \<open>A chain of calls: consecutive edges meet, the first leaves \<open>u\<close> and the last enters \<open>t\<close>.\<close>

fun chain_of :: "CallGraphEdge set \<Rightarrow> nat \<Rightarrow> CallGraphEdge list \<Rightarrow> nat \<Rightarrow> bool" where
  "chain_of E u [] t \<longleftrightarrow> u = t"
| "chain_of E u (e # es) t \<longleftrightarrow> e \<in> E \<and> ce_caller e = u \<and> chain_of E (ce_callee e) es t"

text \<open>The functions strictly inside a chain.\<close>

definition inner :: "CallGraphEdge list \<Rightarrow> nat list" where
  "inner es = map ce_callee (butlast es)"

definition fresh_chains :: "CallGraphEdge set \<Rightarrow> nat \<Rightarrow> nat \<Rightarrow> nat \<Rightarrow> nat set \<Rightarrow> CallGraphEdge list set" where
  "fresh_chains E u t k active = {es. es \<noteq> [] \<and> chain_of E u es t \<and> length es \<le> k \<and> distinct (inner es) \<and>
     t \<notin> set (inner es) \<and> set (inner es) \<inter> active = {}}"

lemma fresh_chains_0: "fresh_chains E u t 0 active = {}"
  by (auto simp: fresh_chains_def)

definition via :: "CallGraphEdge set \<Rightarrow> nat \<Rightarrow> nat \<Rightarrow> nat set \<Rightarrow> CallGraphEdge \<Rightarrow> CallGraphEdge list set" where
  "via E t k active e =
     (if ce_callee e = t then {[e]}
      else if ce_callee e \<in> active then {}
      else (\<lambda>es. e # es) ` fresh_chains E (ce_callee e) t k (insert (ce_callee e) active))"

lemma inner_Cons: "inner (e # es) = (if es = [] then [] else ce_callee e # inner es)"
  by (simp add: inner_def)

lemma fresh_chains_Suc:
  "fresh_chains E u t (Suc k) active = (\<Union>e \<in> {e \<in> E. ce_caller e = u}. via E t k active e)"
proof (intro equalityI subsetI)
  fix es assume es: "es \<in> fresh_chains E u t (Suc k) active"
  then obtain e rest where eq: "es = e # rest" by (cases es) (auto simp: fresh_chains_def)
  show "es \<in> (\<Union>e \<in> {e \<in> E. ce_caller e = u}. via E t k active e)"
  proof (cases rest)
    case Nil
    then show ?thesis using es eq by (auto simp: fresh_chains_def via_def)
  next
    case (Cons f fs)
    then have "ce_callee e \<noteq> t" "ce_callee e \<notin> active"
        "rest \<in> fresh_chains E (ce_callee e) t k (insert (ce_callee e) active)"
      using es eq by (auto simp: fresh_chains_def inner_Cons)
    then show ?thesis using es eq by (auto simp: fresh_chains_def via_def)
  qed
next
  fix es assume "es \<in> (\<Union>e \<in> {e \<in> E. ce_caller e = u}. via E t k active e)"
  then show "es \<in> fresh_chains E u t (Suc k) active"
    by (auto simp: via_def fresh_chains_def inner_Cons split: if_splits)
qed

lemma dfs_result:
  fixes g :: CallGraph
  defines "E \<equiv> set (cg_edges g)"
  shows "adj = adj_of g \<Longrightarrow> \<exists>xs. dfs u t depth max_depth adj current active found = (current, active, found @ xs) \<and>
      set xs = (@) current ` fresh_chains E u t (max_depth - depth) active"
    and "adj = adj_of g \<Longrightarrow> depth < max_depth \<Longrightarrow>
      \<exists>xs. dfs_edges es t depth max_depth adj current active found = (current, active, found @ xs) \<and>
      set xs = (@) current ` (\<Union>e \<in> set es. via E t (max_depth - Suc depth) active e)"
proof (induction u t depth max_depth adj current active found and es t depth max_depth adj current active found
    rule: dfs_dfs_edges.induct)
  case (1 u t depth max_depth adj current active found)
  show ?case
  proof (cases "depth < max_depth")
    case False
    then show ?thesis by (simp add: fresh_chains_0)
  next
    case True
    then have k: "max_depth - depth = Suc (max_depth - Suc depth)" by simp
    note adj = adj_of_edges [of g u]
    show ?thesis
    proof (cases "adj u")
      case None
      then have "filter (\<lambda>e. ce_caller e = u) (cg_edges g) = []" using adj 1(2) by simp
      then have "{e \<in> E. ce_caller e = u} = {}" by (auto simp: E_def filter_empty_conv)
      then have "fresh_chains E u t (max_depth - depth) active = {}" unfolding k fresh_chains_Suc by blast
      then show ?thesis using None True by simp
    next
      case (Some es)
      then have "set es = {e \<in> E. ce_caller e = u}" using adj 1(2) by (simp add: E_def)
      then show ?thesis using 1(1) [OF _ Some 1(2)] True Some unfolding k fresh_chains_Suc by simp
    qed
  qed
next
  case (2 t depth max_depth adj current active found)
  then show ?case by simp
next
  case (3 edge rest t depth max_depth adj current active found)
  let ?v = "ce_callee edge"
  have d: "\<not> depth \<ge> max_depth" using 3(6) by simp
  consider "?v = t" | "?v \<noteq> t" "?v \<in> active" | "?v \<noteq> t" "?v \<notin> active" by blast
  then show ?case
  proof cases
    case 1
    from 3(1) [OF d refl 1 3(5,6)] obtain xs where
      "dfs_edges rest t depth max_depth adj current active (found @ [current @ [edge]]) = (current, active, (found @ [current @ [edge]]) @ xs)"
      "set xs = (@) current ` (\<Union>e \<in> set rest. via E t (max_depth - Suc depth) active e)" by blast
    then show ?thesis using 1 d by (intro exI [of _ "(current @ [edge]) # xs"]) (simp add: via_def)
  next
    case 2
    from 3(4) [OF d refl 2(1) _ 3(5,6)] 2(2) obtain xs where
      "dfs_edges rest t depth max_depth adj current active found = (current, active, found @ xs)"
      "set xs = (@) current ` (\<Union>e \<in> set rest. via E t (max_depth - Suc depth) active e)" by blast
    then show ?thesis using 2 d by (simp add: via_def)
  next
    case 3
    note c = 3
    from "3.IH"(2) [OF d refl c "3.prems"(1)] obtain ys where
      y: "dfs ?v t (depth + 1) max_depth adj (current @ [edge]) (insert ?v active) found = (current @ [edge], insert ?v active, found @ ys)"
        "set ys = (@) (current @ [edge]) ` fresh_chains E ?v t (max_depth - (depth + 1)) (insert ?v active)" by blast
    have act: "insert ?v active - {?v} = active" using c(2) by simp
    from "3.IH"(3) [OF d refl c y(1) [symmetric] refl "3.prems"] obtain xs where
      x: "dfs_edges rest t depth max_depth adj current active (found @ ys) = (current, active, (found @ ys) @ xs)"
        "set xs = (@) current ` (\<Union>e \<in> set rest. via E t (max_depth - Suc depth) active e)" unfolding act by auto
    have "dfs_edges (edge # rest) t depth max_depth adj current active found = (current, active, found @ (ys @ xs))"
      using c d x(1) y(1) act by simp
    moreover have "set (ys @ xs) = (@) current ` (\<Union>e \<in> set (edge # rest). via E t (max_depth - Suc depth) active e)"
      using c x(2) y(2) by (simp add: via_def image_Un image_image)
    ultimately show ?thesis by blast
  qed
qed

section \<open>Properties\<close>

text \<open>C14: the chains found from one function to another are exactly those of at most the given number
  of calls whose inner functions are distinct and none of them an end, together with
  the empty chain when the ends are one function; they are listed by length, and
  chains of one length by their callees.\<close>

theorem find_call_chains_correct:
  "set (find_call_chains g from target max_depth) =
     {es. chain_of (set (cg_edges g)) from es target \<and> length es \<le> max_depth \<and> distinct (inner es) \<and>
        from \<notin> set (inner es) \<and> target \<notin> set (inner es)} \<and>
   sorted (map chain_key (find_call_chains g from target max_depth))"
proof -
  let ?E = "set (cg_edges g)" and ?f = "if from = target then [[]] else []"
  let ?C = "{es. chain_of ?E from es target \<and> length es \<le> max_depth \<and> distinct (inner es) \<and>
        from \<notin> set (inner es) \<and> target \<notin> set (inner es)}"
  have parts: "?C = set ?f \<union> fresh_chains ?E from target max_depth {from}"
    by (auto simp: fresh_chains_def inner_def)
  show ?thesis
  proof (cases "max_depth = 0")
    case True
    then show ?thesis using parts by (simp add: find_call_chains_def Let_def fresh_chains_0)
  next
    case False
    from dfs_result(1) [where g = g and adj = "adj_of g" and u = "from" and t = target and depth = 0 and max_depth = max_depth
      and current = "[]" and active = "{from}" and found = ?f, OF refl] obtain xs where
      x: "dfs from target 0 max_depth (adj_of g) [] {from} ?f = ([], {from}, ?f @ xs)"
        "set xs = fresh_chains ?E from target max_depth {from}" by auto
    then have "find_call_chains g from target max_depth = sort_key chain_key (?f @ xs)"
      using False by (simp add: find_call_chains_def Let_def)
    then show ?thesis using x(2) parts by (simp del: sort_key_simps)
  qed
qed

end
