(* ===== verification/Contexts.thy ===== *)
theory Contexts
  imports Scc Call_Graph "HOL-Library.Option_ord" "HOL-Library.Char_ord"
begin

text \<open>
  Execution contexts (\<^verbatim>\<open>trace-analysis/src/contexts.rs\<close>): where threads, tasks and IPC requests start,
  with the evidence that one may run more than once at a time. The call graph is indexed densely; cycles
  come from its strongly connected components and nested starts from one search.
\<close>

section \<open>Contexts and their evidence\<close>

datatype ContextKind = IpcHandler | PoolTask | SerialTask | Thread | UnknownContext

definition ContextKind_ALL :: "ContextKind list" where
  "ContextKind_ALL = [Thread, PoolTask, SerialTask, IpcHandler, UnknownContext]"

fun ContextKind_as_str :: "ContextKind \<Rightarrow> string" where
  "ContextKind_as_str Thread = ''thread''"
| "ContextKind_as_str PoolTask = ''pool_task''"
| "ContextKind_as_str SerialTask = ''serial_task''"
| "ContextKind_as_str IpcHandler = ''ipc_handler''"
| "ContextKind_as_str UnknownContext = ''unknown''"

definition ContextKind_parse :: "string \<Rightarrow> ContextKind option" where
  "ContextKind_parse spelling = find (\<lambda>kind. ContextKind_as_str kind = spelling) ContextKind_ALL"

text \<open>The derived order is the order of declaration.\<close>

fun ContextKind_rank :: "ContextKind \<Rightarrow> nat" where
  "ContextKind_rank IpcHandler = 0" | "ContextKind_rank PoolTask = 1" | "ContextKind_rank SerialTask = 2"
| "ContextKind_rank Thread = 3" | "ContextKind_rank UnknownContext = 4"

instantiation ContextKind :: linorder
begin

definition less_eq_ContextKind :: "ContextKind \<Rightarrow> ContextKind \<Rightarrow> bool" where
  "less_eq_ContextKind a b \<longleftrightarrow> ContextKind_rank a \<le> ContextKind_rank b"

definition less_ContextKind :: "ContextKind \<Rightarrow> ContextKind \<Rightarrow> bool" where
  "less_ContextKind a b \<longleftrightarrow> ContextKind_rank a < ContextKind_rank b"

instance
proof
  fix a b :: ContextKind
  show "a \<le> b \<Longrightarrow> b \<le> a \<Longrightarrow> a = b" by (cases a; cases b) (simp_all add: less_eq_ContextKind_def)
qed (auto simp: less_eq_ContextKind_def less_ContextKind_def)

end

record ContextStart =
  cs_call_site :: nat
  cs_api :: nat
  cs_param :: nat
  cs_receiver :: "nat option"

datatype MultiInstance = Loop | Cycle | Parent | UnknownInstance

definition PRECEDENCE :: "MultiInstance list" where
  "PRECEDENCE = [Loop, Cycle, Parent, UnknownInstance]"

fun MultiInstance_as_str :: "MultiInstance \<Rightarrow> string" where
  "MultiInstance_as_str Loop = ''loop''"
| "MultiInstance_as_str Cycle = ''cycle''"
| "MultiInstance_as_str Parent = ''parent''"
| "MultiInstance_as_str UnknownInstance = ''unknown''"

definition MultiInstance_parse :: "string \<Rightarrow> MultiInstance option" where
  "MultiInstance_parse spelling = find (\<lambda>value. MultiInstance_as_str value = spelling) PRECEDENCE"

fun MultiInstance_rank :: "MultiInstance \<Rightarrow> nat" where
  "MultiInstance_rank Loop = 0" | "MultiInstance_rank Cycle = 1" | "MultiInstance_rank Parent = 2"
| "MultiInstance_rank UnknownInstance = 3"

interpretation context_kind: named_kind ContextKind_ALL ContextKind_as_str ContextKind_parse
proof unfold_locales
  show "k \<in> set ContextKind_ALL" for k by (cases k) (simp_all add: ContextKind_ALL_def)
qed (simp_all add: ContextKind_ALL_def ContextKind_parse_def)

interpretation multi_instance: named_kind PRECEDENCE MultiInstance_as_str MultiInstance_parse
proof unfold_locales
  show "k \<in> set PRECEDENCE" for k by (cases k) (simp_all add: PRECEDENCE_def)
qed (simp_all add: PRECEDENCE_def MultiInstance_parse_def)

record ExecutionContext =
  ec_kind :: ContextKind
  ec_entry :: nat
  ec_start :: "ContextStart option"
  ec_multi_instance :: MultiInstance
  ec_model :: "string option"
  ec_self_concurrent :: bool

type_synonym Invocation = "ContextStart \<times> nat \<times> ContextKind \<times> string"
type_synonym Entry = "nat \<times> ContextKind \<times> string option"

section \<open>The dense call graph\<close>

record Graph =
  gr_index :: "nat \<rightharpoonup> nat"
  gr_successors :: "nat list list"
  gr_calls :: "nat list list"

definition graph_node :: "Graph \<Rightarrow> nat \<Rightarrow> Graph \<times> nat" where
  "graph_node g f =
     (let next = length (gr_successors g);
          index = (case gr_index g f of None \<Rightarrow> next | Some i \<Rightarrow> i);
          g1 = g\<lparr>gr_index := (gr_index g)(f \<mapsto> index)\<rparr>
      in if index = next
         then (g1\<lparr>gr_successors := gr_successors g @ [[]], gr_calls := gr_calls g @ [[]]\<rparr>, index)
         else (g1, index))"

definition graph_edge ::
  "(CallGraphEdge \<Rightarrow> bool) \<Rightarrow> Graph \<times> (nat \<times> nat) set \<times> (nat \<times> nat) set \<Rightarrow> CallGraphEdge \<Rightarrow>
   (Graph \<times> (nat \<times> nat) set \<times> (nat \<times> nat) set) option" where
  "graph_edge starts st edge = (case st of (g0, any, ordinary) \<Rightarrow>
     (case graph_node g0 (ce_caller edge) of (g1, from) \<Rightarrow>
     (case graph_node g1 (ce_callee edge) of (g2, to) \<Rightarrow> do {
       succs \<leftarrow> (if (from, to) \<notin> any then push_row (gr_successors g2) from to else Some (gr_successors g2));
       calls \<leftarrow> (if \<not> starts edge \<and> (from, to) \<notin> ordinary then push_row (gr_calls g2) from to else Some (gr_calls g2));
       Some (g2\<lparr>gr_successors := succs, gr_calls := calls\<rparr>, insert (from, to) any,
         if starts edge then ordinary else insert (from, to) ordinary) })))"

definition Graph_new :: "CallGraphEdge list \<Rightarrow> (CallGraphEdge \<Rightarrow> bool) \<Rightarrow> Graph option" where
  "Graph_new edges starts = map_option fst (foldM (graph_edge starts)
     (\<lparr>gr_index = (\<lambda>_. None), gr_successors = [], gr_calls = []\<rparr>, {}, {}) edges)"

definition Graph_cyclic :: "Graph \<Rightarrow> bool list option" where
  "Graph_cyclic g = do {
     component \<leftarrow> strongly_connected_components (gr_calls g);
     size \<leftarrow> foldM (\<lambda>size c. do { n \<leftarrow> vget size c; vset size c (n + 1) }) (replicate (length (gr_calls g)) (0::nat)) component;
     mapM (\<lambda>(v, c). do {
       n \<leftarrow> vget size c;
       if n > 1 then Some True else map_option (\<lambda>row. v \<in> set row) (vget (gr_calls g) v) }) (List.enumerate 0 component) }"

text \<open>The loop over the successors of one node, then the loop over the work list.\<close>

fun reach_row :: "nat list \<Rightarrow> nat list \<Rightarrow> bool list \<Rightarrow> (nat list \<times> bool list) option" where
  "reach_row [] work reached = Some (work, reached)"
| "reach_row (w # ws) work reached =
     (case vget reached w of
        None \<Rightarrow> None
      | Some r \<Rightarrow> if \<not> r then reach_row ws (w # work) (reached[w := True]) else reach_row ws work reached)"

lemma reach_row_expand:
  "expand (\<lambda>_. False) ws work reached = map_option (\<lambda>(work', reached'). (False, work', reached')) (reach_row ws work reached)"
  by (induction ws arbitrary: work reached) (auto split: option.splits)

function reach_loop :: "nat list list \<Rightarrow> nat list \<Rightarrow> bool list \<Rightarrow> bool list option" where
  "reach_loop succ [] reached = Some reached"
| "reach_loop succ (v # work) reached =
     (case vget succ v of
        None \<Rightarrow> None
      | Some row \<Rightarrow> (case reach_row row work reached of
          None \<Rightarrow> None
        | Some (work', reached') \<Rightarrow> reach_loop succ work' reached'))"
  by pat_completeness auto
termination
proof (relation "measure (\<lambda>(succ, work, reached). length work + unseen reached)", goal_cases)
  case (2 succ v work reached row p work' reached')
  then have "expand (\<lambda>_. False) row work reached = Some (False, work', reached')" by (simp add: reach_row_expand)
  from expand_measure [OF this] show ?case by simp
qed simp

definition reachable_from :: "Graph \<Rightarrow> nat list \<Rightarrow> bool list option" where
  "reachable_from g roots = do {
     let work = List.map_filter (gr_index g) roots;
     reached \<leftarrow> foldM (\<lambda>reached r. vset reached r True) (replicate (length (gr_successors g)) False) work;
     reach_loop (gr_successors g) (rev work) reached }"

section \<open>Execution contexts\<close>

record CallSite =
  site_id :: nat
  site_caller :: nat
  site_in_loop :: bool

definition call_site_slot :: "CallSite list \<Rightarrow> nat \<Rightarrow> nat option" where
  "call_site_slot sites i =
     (case vget sites i of
        Some site \<Rightarrow> if site_id site = i then Some i else position (\<lambda>c. site_id c = i) sites
      | None \<Rightarrow> position (\<lambda>c. site_id c = i) sites)"

definition call_site_by_id :: "CallSite list \<Rightarrow> nat \<Rightarrow> CallSite option" where
  "call_site_by_id sites i = map_option (\<lambda>slot. sites ! slot) (call_site_slot sites i)"

definition invocation_key :: "Invocation \<Rightarrow> nat \<times> nat \<times> nat \<times> nat option \<times> nat \<times> ContextKind \<times> string" where
  "invocation_key i = (case i of (start, entry, kind, model) \<Rightarrow>
     (cs_call_site start, cs_api start, cs_param start, cs_receiver start, entry, kind, model))"

definition sorted_invocations :: "Invocation list \<Rightarrow> Invocation list" where
  "sorted_invocations invs = remdups_adj (sort_key invocation_key invs)"

definition sorted_entries :: "Entry list \<Rightarrow> Entry list" where
  "sorted_entries es = remdups_adj (sort es)"

definition starts_context :: "Invocation list \<Rightarrow> CallGraphEdge \<Rightarrow> bool" where
  "starts_context invs edge \<longleftrightarrow> ce_resolution edge = IpcBridge \<or>
     (ce_call_site edge, ce_callee edge) \<in> set (map (\<lambda>(start, entry, _, _). (cs_call_site start, entry)) invs)"

definition submitter :: "CallSite list \<Rightarrow> ContextStart \<Rightarrow> (nat \<times> bool) option" where
  "submitter sites start = map_option (\<lambda>site. (site_caller site, site_in_loop site)) (call_site_by_id sites (cs_call_site start))"

definition index_marked :: "Graph \<Rightarrow> bool list \<Rightarrow> nat \<Rightarrow> bool option" where
  "index_marked g marks f = (case gr_index g f of None \<Rightarrow> Some False | Some i \<Rightarrow> vget marks i)"

definition invocation_context :: "CallSite list \<Rightarrow> Graph \<Rightarrow> bool list \<Rightarrow> Invocation \<Rightarrow> ExecutionContext option" where
  "invocation_context sites g cyclic i = (case i of (start, entry, kind, model) \<Rightarrow> do {
     multi \<leftarrow> (case submitter sites start of
         Some (caller, in_loop) \<Rightarrow>
           if in_loop then Some Loop
           else map_option (\<lambda>c. if c then Cycle else UnknownInstance) (index_marked g cyclic caller)
       | None \<Rightarrow> Some UnknownInstance);
     Some \<lparr>ec_kind = kind, ec_entry = entry, ec_start = Some start, ec_multi_instance = multi, ec_model = Some model,
       ec_self_concurrent = (kind = IpcHandler \<or> multi \<noteq> UnknownInstance)\<rparr> })"

definition entry_context :: "Entry \<Rightarrow> ExecutionContext" where
  "entry_context e = (case e of (entry, kind, model) \<Rightarrow>
     \<lparr>ec_kind = kind, ec_entry = entry, ec_start = None, ec_multi_instance = UnknownInstance, ec_model = model,
       ec_self_concurrent = (kind = IpcHandler)\<rparr>)"

definition inherit_parent :: "CallSite list \<Rightarrow> Graph \<Rightarrow> bool list \<Rightarrow> ExecutionContext \<Rightarrow> ExecutionContext option" where
  "inherit_parent sites g reached c =
     (if ec_multi_instance c \<noteq> UnknownInstance then Some c
      else do {
        under_parent \<leftarrow> (case Option.bind (ec_start c) (submitter sites) of
            None \<Rightarrow> Some False
          | Some (caller, _) \<Rightarrow> index_marked g reached caller);
        Some (if under_parent then c\<lparr>ec_multi_instance := Parent, ec_self_concurrent := True\<rparr> else c) })"

definition execution_contexts ::
  "CallSite list \<Rightarrow> Invocation list \<Rightarrow> Entry list \<Rightarrow> CallGraphEdge list \<Rightarrow> ExecutionContext list option" where
  "execution_contexts sites invocations0 entries0 call_edges = (
     let invocations = sorted_invocations invocations0; entries = sorted_entries entries0 in
     if invocations = [] \<and> entries = [] then Some []
     else do {
       g \<leftarrow> Graph_new call_edges (starts_context invocations);
       cyclic \<leftarrow> Graph_cyclic g;
       started \<leftarrow> mapM (invocation_context sites g cyclic) invocations;
       let contexts = started @ map entry_context entries;
       reached \<leftarrow> reachable_from g (map ec_entry (filter ec_self_concurrent contexts));
       mapM (inherit_parent sites g reached) contexts })"

section \<open>The dense graph\<close>

definition nodes_of :: "CallGraphEdge list \<Rightarrow> nat set" where
  "nodes_of es = ce_caller ` set es \<union> ce_callee ` set es"

definition calls_rel :: "CallGraphEdge list \<Rightarrow> (nat \<times> nat) set" where
  "calls_rel es = (\<lambda>e. (ce_caller e, ce_callee e)) ` set es"

abbreviation idx :: "Graph \<Rightarrow> nat \<Rightarrow> nat" where
  "idx g \<equiv> \<lambda>f. the (gr_index g f)"

definition index_ok :: "nat set \<Rightarrow> Graph \<Rightarrow> bool" where
  "index_ok N g \<longleftrightarrow> dom (gr_index g) = N \<and> inj_on (idx g) N \<and> idx g ` N = {..<length (gr_successors g)} \<and>
     length (gr_calls g) = length (gr_successors g)"

lemma graph_node_result:
  fixes g :: Graph and f :: nat
  assumes ok: "index_ok N g"
  defines "g' \<equiv> fst (graph_node g f)" and "i \<equiv> snd (graph_node g f)"
  shows "index_ok (insert f N) g'" "gr_index g' f = Some i" "i < length (gr_successors g')"
    "x \<in> N \<Longrightarrow> gr_index g' x = gr_index g x" "gr_successors g' = gr_successors g \<or> gr_successors g' = gr_successors g @ [[]]"
    "gr_calls g' = gr_calls g \<or> gr_calls g' = gr_calls g @ [[]]"
proof -
  let ?n = "length (gr_successors g)"
  have O: "dom (gr_index g) = N" "inj_on (idx g) N" "idx g ` N = {..<?n}" "length (gr_calls g) = ?n"
    using ok by (auto simp: index_ok_def)
  have "index_ok (insert f N) g' \<and> gr_index g' f = Some i \<and> i < length (gr_successors g') \<and> (x \<in> N \<longrightarrow> gr_index g' x = gr_index g x) \<and>
    (gr_successors g' = gr_successors g \<or> gr_successors g' = gr_successors g @ [[]]) \<and> (gr_calls g' = gr_calls g \<or> gr_calls g' = gr_calls g @ [[]])"
  proof (cases "gr_index g f")
    case None
    then have f: "f \<notin> N" using O(1) by auto
    have i: "i = ?n" and g': "g' = g\<lparr>gr_index := (gr_index g)(f \<mapsto> ?n), gr_successors := gr_successors g @ [[]], gr_calls := gr_calls g @ [[]]\<rparr>"
      using None by (simp_all add: g'_def i_def graph_node_def Let_def)
    have same: "idx g' y = idx g y" if "y \<in> N" for y using that f g' by auto
    have "inj_on (idx g') N" using O(2) same by (simp cong: inj_on_cong)
    moreover have "idx g' ` N = {..<?n}" using O(3) same by (simp cong: image_cong)
    moreover have "idx g' f = ?n" using g' by simp
    ultimately have "inj_on (idx g') (insert f N)" "idx g' ` insert f N = {..<Suc ?n}" using f by (auto simp: lessThan_Suc)
    then show ?thesis using O(1,4) f by (auto simp: index_ok_def g' i)
  next
    case (Some j)
    then have f: "f \<in> N" "j < ?n" using O(1,3) by force+
    have i: "i = j" and g': "g' = g" using Some f(2) by (simp_all add: g'_def i_def graph_node_def Let_def map_upd_triv)
    then show ?thesis using ok f Some by (simp add: insert_absorb)
  qed
  then show "index_ok (insert f N) g'" "gr_index g' f = Some i" "i < length (gr_successors g')" "x \<in> N \<Longrightarrow> gr_index g' x = gr_index g x"
    "gr_successors g' = gr_successors g \<or> gr_successors g' = gr_successors g @ [[]]" "gr_calls g' = gr_calls g \<or> gr_calls g' = gr_calls g @ [[]]"
    by auto
qed

text \<open>The rows hold the edges between the indexed functions.\<close>

definition graph_ok :: "(CallGraphEdge \<Rightarrow> bool) \<Rightarrow> CallGraphEdge list \<Rightarrow> Graph \<times> (nat \<times> nat) set \<times> (nat \<times> nat) set \<Rightarrow> bool" where
  "graph_ok starts es st \<longleftrightarrow> (case st of (g, any, ordinary) \<Rightarrow>
     index_ok (nodes_of es) g \<and> rows_ok (gr_successors g) \<and> rows_ok (gr_calls g) \<and>
     any = map_prod (idx g) (idx g) ` calls_rel es \<and> row_rel (gr_successors g) = any \<and>
     ordinary = map_prod (idx g) (idx g) ` calls_rel (filter (\<lambda>e. \<not> starts e) es) \<and> row_rel (gr_calls g) = ordinary)"

lemma row_rel_grow: "row_rel (rows @ [[]]) = row_rel rows"
  by (auto simp: row_rel_def nth_append less_Suc_eq split: if_splits)

lemma rows_ok_grow: "rows_ok rows \<Longrightarrow> rows_ok (rows @ [[]])"
  by (auto simp: rows_ok_def list_all_iff intro: less_SucI)

lemma push_row_result:
  assumes "rows_ok rows" "i < length rows" "j < length rows"
  shows "\<exists>rows'. push_row rows i j = Some rows' \<and> rows_ok rows' \<and> length rows' = length rows \<and> row_rel rows' = insert (i, j) (row_rel rows)"
proof -
  let ?rows = "rows[i := rows ! i @ [j]]"
  have "push_row rows i j = Some ?rows" using assms by (simp add: push_row_def vec_simps)
  moreover have "y < length rows" if "row \<in> set ?rows" "y \<in> set row" for row y
  proof -
    have "row = rows ! i @ [j] \<or> row \<in> set rows" using that(1) set_update_subset_insert by fastforce
    then show ?thesis using that(2) assms(3) rows_okD [OF assms(1,2)] assms(1) by (auto simp: rows_ok_def list_all_iff)
  qed
  then have "rows_ok ?rows" by (auto simp: rows_ok_def list_all_iff)
  moreover have "row_rel ?rows = insert (i, j) (row_rel rows)" using assms by (auto simp: row_rel_def nth_list_update split: if_splits)
  ultimately show ?thesis by simp
qed

lemma grown_rows:
  "rows' = rows \<or> rows' = rows @ [[]] \<Longrightarrow> rows_ok rows \<Longrightarrow> rows_ok rows' \<and> row_rel rows' = row_rel rows \<and> length rows \<le> length rows'"
  by (auto simp: row_rel_grow rows_ok_grow)

lemma two_nodes:
  fixes g0 :: Graph
  assumes ok: "index_ok N g0" and r: "rows_ok (gr_successors g0)" "rows_ok (gr_calls g0)"
  obtains g1 i g2 j where "graph_node g0 a = (g1, i)" "graph_node g1 b = (g2, j)" "index_ok (insert b (insert a N)) g2"
    "gr_index g2 a = Some i" "gr_index g2 b = Some j" "i < length (gr_successors g2)" "j < length (gr_successors g2)"
    "\<And>x. x \<in> N \<Longrightarrow> gr_index g2 x = gr_index g0 x" "rows_ok (gr_successors g2)" "rows_ok (gr_calls g2)"
    "row_rel (gr_successors g2) = row_rel (gr_successors g0)" "row_rel (gr_calls g2) = row_rel (gr_calls g0)"
proof -
  obtain g1 i where g1: "graph_node g0 a = (g1, i)" by (cases "graph_node g0 a")
  obtain g2 j where g2: "graph_node g1 b = (g2, j)" by (cases "graph_node g1 b")
  note A = graph_node_result [OF ok, where f = a, unfolded g1 fst_conv snd_conv]
  note B = graph_node_result [OF A(1), where f = b, unfolded g2 fst_conv snd_conv]
  note S1 = grown_rows [OF A(5) r(1)] and C1 = grown_rows [OF A(6) r(2)]
  have S2: "rows_ok (gr_successors g2) \<and> row_rel (gr_successors g2) = row_rel (gr_successors g1) \<and> length (gr_successors g1) \<le> length (gr_successors g2)"
    using grown_rows [OF B(5)] S1 by blast
  have C2: "rows_ok (gr_calls g2) \<and> row_rel (gr_calls g2) = row_rel (gr_calls g1)"
    using grown_rows [OF B(6)] C1 by blast
  show thesis
  proof (rule that [OF g1 g2 B(1)])
    show "gr_index g2 a = Some i" using B(4) [where x = a] A(2) by simp
    show "i < length (gr_successors g2)" using A(3) S2 by linarith
    show "gr_index g2 x = gr_index g0 x" if "x \<in> N" for x using B(4) [where x = x] A(4) [OF that] that by simp
  qed (use B(2,3) S1 C1 S2 C2 in auto)
qed

lemma graph_edge_result:
  assumes ok: "graph_ok starts es st"
  shows "\<exists>st'. graph_edge starts st e = Some st' \<and> graph_ok starts (es @ [e]) st'"
proof -
  obtain g0 any ord where st: "st = (g0, any, ord)" by (cases st)
  let ?N = "nodes_of es"
  have O: "index_ok ?N g0" "rows_ok (gr_successors g0)" "rows_ok (gr_calls g0)"
    "any = map_prod (idx g0) (idx g0) ` calls_rel es" "row_rel (gr_successors g0) = any"
    "ord = map_prod (idx g0) (idx g0) ` calls_rel (filter (\<lambda>e. \<not> starts e) es)" "row_rel (gr_calls g0) = ord"
    using ok by (auto simp: graph_ok_def st)
  from two_nodes [OF O(1-3), of "ce_caller e" "ce_callee e"] obtain g1 i g2 j where
    G: "graph_node g0 (ce_caller e) = (g1, i)" "graph_node g1 (ce_callee e) = (g2, j)"
      "index_ok (insert (ce_callee e) (insert (ce_caller e) ?N)) g2"
      "gr_index g2 (ce_caller e) = Some i" "gr_index g2 (ce_callee e) = Some j" "i < length (gr_successors g2)" "j < length (gr_successors g2)"
      "\<And>x. x \<in> ?N \<Longrightarrow> gr_index g2 x = gr_index g0 x" "rows_ok (gr_successors g2)" "rows_ok (gr_calls g2)"
      "row_rel (gr_successors g2) = any" "row_rel (gr_calls g2) = ord" unfolding O(5,7) by blast
  have N: "insert (ce_callee e) (insert (ce_caller e) ?N) = nodes_of (es @ [e])" by (auto simp: nodes_of_def)
  have lc: "length (gr_calls g2) = length (gr_successors g2)" using G(3) by (simp add: index_ok_def)
  have R: "calls_rel es \<subseteq> ?N \<times> ?N" "calls_rel (filter (\<lambda>e. \<not> starts e) es) \<subseteq> ?N \<times> ?N" by (auto simp: calls_rel_def nodes_of_def)
  have keep: "map_prod (idx g2) (idx g2) ` R = map_prod (idx g0) (idx g0) ` R" if "R \<subseteq> ?N \<times> ?N" for R
    using that G(8) by (intro image_cong) auto
  obtain succs where succs: "(if (i, j) \<notin> any then push_row (gr_successors g2) i j else Some (gr_successors g2)) = Some succs"
    "rows_ok succs" "length succs = length (gr_successors g2)" "row_rel succs = insert (i, j) any"
    using push_row_result [OF G(9,6,7)] G(9,11) by (cases "(i, j) \<in> any") (auto simp: insert_absorb)
  obtain calls where calls: "(if \<not> starts e \<and> (i, j) \<notin> ord then push_row (gr_calls g2) i j else Some (gr_calls g2)) = Some calls"
    "rows_ok calls" "length calls = length (gr_successors g2)" "row_rel calls = (if starts e then ord else insert (i, j) ord)"
    using push_row_result [OF G(10), of i j] G(6,7,10,12) lc by (cases "\<not> starts e \<and> (i, j) \<notin> ord") (auto simp: insert_absorb)
  let ?g = "g2\<lparr>gr_successors := succs, gr_calls := calls\<rparr>"
  have "graph_edge starts st e = Some (?g, insert (i, j) any, if starts e then ord else insert (i, j) ord)"
    using G(1,2) succs(1) calls(1) by (simp add: graph_edge_def st)
  moreover have "index_ok (nodes_of (es @ [e])) ?g" using G(3) succs(3) calls(3) unfolding N by (simp add: index_ok_def)
  moreover have "insert (i, j) any = map_prod (idx ?g) (idx ?g) ` calls_rel (es @ [e])"
    using keep [OF R(1)] O(4) G(4,5) by (simp add: calls_rel_def)
  moreover have "(if starts e then ord else insert (i, j) ord) = map_prod (idx ?g) (idx ?g) ` calls_rel (filter (\<lambda>e. \<not> starts e) (es @ [e]))"
    using keep [OF R(2)] O(6) G(4,5) by (simp add: calls_rel_def)
  ultimately show ?thesis using succs(2,4) calls(2,4) by (simp add: graph_ok_def)
qed

lemma Graph_new_result:
  "\<exists>g any ord. Graph_new es starts = Some g \<and> graph_ok starts es (g, any, ord)"
proof -
  let ?g0 = "\<lparr>gr_index = (\<lambda>_. None), gr_successors = [], gr_calls = []\<rparr> :: Graph"
  have "\<exists>st. foldM (graph_edge starts) (?g0, {}, {}) es = Some st \<and> graph_ok starts es st"
  proof (rule foldM_prefix_rule)
    show "graph_ok starts [] (?g0, {}, {})" by (simp add: graph_ok_def index_ok_def nodes_of_def calls_rel_def rows_ok_def row_rel_def)
  qed (rule graph_edge_result)
  then obtain st where "foldM (graph_edge starts) (?g0, {}, {}) es = Some st" "graph_ok starts es st" by blast
  then show ?thesis by (cases st) (auto simp: Graph_new_def)
qed

section \<open>Cycles and reachability\<close>

lemma count_sizes:
  assumes "\<forall>c \<in> set cs. c < n"
  shows "foldM (\<lambda>size c. do { k \<leftarrow> vget size c; vset size c (k + 1) }) (replicate n (0::nat)) cs = Some (map (count_list cs) [0..<n])"
proof -
  have "\<exists>size. foldM (\<lambda>size c. do { k \<leftarrow> vget size c; vset size c (k + 1) }) (replicate n (0::nat)) cs = Some size \<and> size = map (count_list cs) [0..<n]"
  proof (rule foldM_prefix_rule [where I = "\<lambda>ds size. size = map (count_list ds) [0..<n]"])
    show "replicate n 0 = map (count_list []) [0..<n]" by (intro nth_equalityI) simp_all
    show "\<exists>t. (do { k \<leftarrow> vget size c; vset size c (k + 1) }) = Some t \<and> t = map (count_list (ds @ [c])) [0..<n]"
      if "size = map (count_list ds) [0..<n]" "c \<in> set cs" for ds c size
    proof -
      have c: "c < n" using assms that(2) by blast
      have "(map (count_list ds) [0..<n])[c := Suc (count_list ds c)] = map (count_list (ds @ [c])) [0..<n]"
        using c by (intro nth_equalityI) (auto simp: nth_list_update)
      then show ?thesis using c that(1) by (simp add: vec_simps)
    qed
  qed
  then show ?thesis by simp
qed

lemma count_two: "1 < count_list xs c \<longleftrightarrow> (\<exists>i < length xs. \<exists>j < length xs. i \<noteq> j \<and> xs ! i = c \<and> xs ! j = c)"
proof -
  have "count_list xs c = card {i. i < length xs \<and> xs ! i = c}"
    using length_filter_conv_card [of "(=) c" xs] by (simp add: count_list_eq_length_filter eq_commute [of c])
  moreover have "1 < card S \<longleftrightarrow> (\<exists>i \<in> S. \<exists>j \<in> S. i \<noteq> j)" if "finite S" for S :: "nat set"
    using that card_le_Suc0_iff_eq [of S] by (auto simp: not_le [symmetric])
  ultimately show ?thesis by auto
qed

lemma trancl_self: "(v, v) \<in> r\<^sup>+ \<longleftrightarrow> (v, v) \<in> r \<or> (\<exists>w. w \<noteq> v \<and> (v, w) \<in> r\<^sup>* \<and> (w, v) \<in> r\<^sup>*)"
proof
  assume "(v, v) \<in> r\<^sup>+"
  then obtain w where w: "(v, w) \<in> r" "(w, v) \<in> r\<^sup>*" by (meson tranclD)
  then show "(v, v) \<in> r \<or> (\<exists>w. w \<noteq> v \<and> (v, w) \<in> r\<^sup>* \<and> (w, v) \<in> r\<^sup>*)" by (cases "w = v") auto
next
  assume "(v, v) \<in> r \<or> (\<exists>w. w \<noteq> v \<and> (v, w) \<in> r\<^sup>* \<and> (w, v) \<in> r\<^sup>*)"
  then show "(v, v) \<in> r\<^sup>+" by (metis rtranclD trancl_rtrancl_trancl r_into_trancl)
qed

lemma row_rel_bounds: "rows_ok rows \<Longrightarrow> row_rel rows \<subseteq> {..<length rows} \<times> {..<length rows}"
  by (auto simp: row_rel_def dest: rows_okD)

lemma rtrancl_bounds: "(v, w) \<in> r\<^sup>* \<Longrightarrow> r \<subseteq> N \<times> N \<Longrightarrow> v \<in> N \<Longrightarrow> w \<in> N"
  by (induction rule: rtrancl_induct) auto

lemma Graph_cyclic_result:
  assumes rows: "rows_ok (gr_calls g)" and n: "length (gr_calls g) < UNSEEN"
  shows "\<exists>cyclic. Graph_cyclic g = Some cyclic \<and> length cyclic = length (gr_calls g) \<and>
    (\<forall>v < length (gr_calls g). cyclic ! v \<longleftrightarrow> (v, v) \<in> (row_rel (gr_calls g))\<^sup>+)"
proof -
  let ?n = "length (gr_calls g)" and ?r = "row_rel (gr_calls g)"
  from scc_result [OF rows n] obtain comp k where
    C: "strongly_connected_components (gr_calls g) = Some comp" "length comp = ?n" "set comp = {..<k}"
      "\<forall>x < ?n. \<forall>y < ?n. comp ! x = comp ! y \<longleftrightarrow> (x, y) \<in> ?r\<^sup>* \<and> (y, x) \<in> ?r\<^sup>*" by blast
  have "k \<le> ?n" using card_length [of comp] C(2,3) by simp
  then have lt: "\<forall>c \<in> set comp. c < ?n" using C(3) by auto
  let ?f = "\<lambda>(v, c). 1 < count_list comp c \<or> v \<in> set (gr_calls g ! v)"
  have "mapM (\<lambda>(v, c). do {
      m \<leftarrow> vget (map (count_list comp) [0..<?n]) c;
      if m > 1 then Some True else map_option (\<lambda>row. v \<in> set row) (vget (gr_calls g) v) }) (List.enumerate 0 comp) =
    Some (map ?f (List.enumerate 0 comp))"
  proof (rule mapM_total)
    fix p assume "p \<in> set (List.enumerate 0 comp)"
    then have "fst p < ?n" "snd p \<in> set comp" using C(2) nth_mem [of "fst p" comp] by (simp_all add: in_set_enumerate_eq)
    then have "fst p < ?n" "snd p < ?n" using lt by auto
    then show "(case p of (v, c) \<Rightarrow> do {
      m \<leftarrow> vget (map (count_list comp) [0..<?n]) c;
      if m > 1 then Some True else map_option (\<lambda>row. v \<in> set row) (vget (gr_calls g) v) }) = Some (?f p)"
      by (cases p) (simp add: vec_simps)
  qed
  then have eq: "Graph_cyclic g = Some (map ?f (List.enumerate 0 comp))"
    unfolding Graph_cyclic_def using C(1) count_sizes [OF lt] by simp
  have "map ?f (List.enumerate 0 comp) ! v \<longleftrightarrow> (v, v) \<in> ?r\<^sup>+" if v: "v < ?n" for v
  proof -
    have "1 < count_list comp (comp ! v) \<longleftrightarrow> (\<exists>w < ?n. w \<noteq> v \<and> (v, w) \<in> ?r\<^sup>* \<and> (w, v) \<in> ?r\<^sup>*)"
      unfolding count_two C(2) using C(4) v by metis
    also have "\<dots> \<longleftrightarrow> (\<exists>w. w \<noteq> v \<and> (v, w) \<in> ?r\<^sup>* \<and> (w, v) \<in> ?r\<^sup>*)"
      using rtrancl_bounds [OF _ row_rel_bounds [OF rows]] v by blast
    finally have "?f (v, comp ! v) \<longleftrightarrow> (v, v) \<in> ?r\<^sup>+" unfolding trancl_self [of v] using v by (auto simp: row_rel_def)
    then show ?thesis using v C(2) by (simp add: nth_enumerate_eq)
  qed
  with eq C(2) show ?thesis by auto
qed

lemma reach_loop_result:
  assumes "rows_ok succ" "length reached = length succ" "set work \<subseteq> marked reached"
    and "\<And>x. x \<in> marked reached \<Longrightarrow> x \<in> set work \<or> row_rel succ `` {x} \<subseteq> marked reached"
  shows "\<exists>reached'. reach_loop succ work reached = Some reached' \<and> length reached' = length succ \<and>
    marked reached' = (row_rel succ)\<^sup>* `` marked reached"
  using assms
proof (induction succ work reached rule: reach_loop.induct)
  case (1 succ reached)
  then have "row_rel succ `` marked reached \<subseteq> marked reached" by auto
  then show ?case using 1 by (simp add: Image_closed_trancl)
next
  case (2 succ v work reached)
  let ?r = "row_rel succ"
  have v: "v < length succ" using 2(3,4) by (auto simp: marked_def)
  then have row: "vget succ v = Some (succ ! v)" by (simp add: vec_simps)
  have lt: "y < length reached" if "y \<in> set (succ ! v)" for y using rows_okD [OF 2(2) v that] 2(3) by simp
  from expand_result [of "succ ! v" reached "\<lambda>_. False" work] lt obtain b work' reached' where
    e: "expand (\<lambda>_. False) (succ ! v) work reached = Some (b, work', reached')" "length reached' = length reached"
      "marked reached \<subseteq> marked reached'" "marked reached' \<subseteq> marked reached \<union> set (succ ! v)"
      "set work' = set work \<union> (marked reached' - marked reached)" "\<not> b" "set (succ ! v) \<subseteq> marked reached'" by (auto split: if_splits)
  then have rr: "reach_row (succ ! v) work reached = Some (work', reached')" by (auto simp: reach_row_expand)
  have img: "?r `` {v} = set (succ ! v)" using v by (auto simp: row_rel_def)
  have "x \<in> set work' \<or> ?r `` {x} \<subseteq> marked reached'" if "x \<in> marked reached'" for x
  proof (cases "x = v \<or> x \<notin> marked reached")
    case True
    then show ?thesis using that e(5-7) img by auto
  next
    case False
    then show ?thesis using 2(5) [of x] e(3,5) by auto
  qed
  moreover have "set work' \<subseteq> marked reached'" using 2(4) e(3,5) by auto
  ultimately obtain final where f: "reach_loop succ work' reached' = Some final" "length final = length succ" "marked final = ?r\<^sup>* `` marked reached'"
    using 2(1) [OF row rr refl 2(2)] e(2) 2(3) by metis
  have "v \<in> marked reached" "\<And>x. x \<in> set (succ ! v) \<Longrightarrow> (v, x) \<in> ?r" using img 2(4) by auto
  then have "marked reached' \<subseteq> ?r\<^sup>* `` marked reached" using e(4) by blast
  then have "?r\<^sup>* `` marked reached' = ?r\<^sup>* `` marked reached"
    using e(3) Image_mono [of "?r\<^sup>*" "?r\<^sup>*"] by (intro equalityI subsetI) (blast intro: rtrancl_trans)+
  then show ?case using f row rr by simp
qed

section \<open>From indexes to functions\<close>

lemma rtrancl_map_inj:
  assumes inj: "inj_on f N" and R: "R \<subseteq> N \<times> N" and ab: "a \<in> N" "b \<in> N"
  shows "(f a, f b) \<in> (map_prod f f ` R)\<^sup>* \<longleftrightarrow> (a, b) \<in> R\<^sup>*"
proof
  assume "(f a, f b) \<in> (map_prod f f ` R)\<^sup>*"
  then have "\<exists>c \<in> N. y = f c \<and> (a, c) \<in> R\<^sup>*" if "y = f b" for y
    unfolding that
  proof (induction rule: rtrancl_induct)
    case (step y z)
    then obtain c where c: "c \<in> N" "y = f c" "(a, c) \<in> R\<^sup>*" by blast
    from step.hyps(2) obtain p q where pq: "(p, q) \<in> R" "y = f p" "z = f q" by auto
    then have "p = c" using inj_onD [OF inj] c R by auto
    then show ?case using pq c R by (auto intro: rtrancl_into_rtrancl)
  qed (use ab in blast)
  then show "(a, b) \<in> R\<^sup>*" using inj_onD [OF inj] ab by blast
next
  assume "(a, b) \<in> R\<^sup>*"
  then show "(f a, f b) \<in> (map_prod f f ` R)\<^sup>*"
  proof (induction rule: rtrancl_induct)
    case (step y z)
    then have "(f y, f z) \<in> map_prod f f ` R" by force
    with step.IH show ?case by (rule rtrancl_into_rtrancl)
  qed simp
qed

lemma trancl_map_inj:
  assumes inj: "inj_on f N" and R: "R \<subseteq> N \<times> N" and ab: "a \<in> N" "b \<in> N"
  shows "(f a, f b) \<in> (map_prod f f ` R)\<^sup>+ \<longleftrightarrow> (a, b) \<in> R\<^sup>+"
proof -
  have "(f a, f b) \<in> (map_prod f f ` R)\<^sup>+ \<longleftrightarrow> (\<exists>c. (a, c) \<in> R \<and> (f c, f b) \<in> (map_prod f f ` R)\<^sup>*)"
  proof
    assume "(f a, f b) \<in> (map_prod f f ` R)\<^sup>+"
    then obtain y where y: "(f a, y) \<in> map_prod f f ` R" "(y, f b) \<in> (map_prod f f ` R)\<^sup>*" by (meson tranclD)
    then obtain p q where pq: "(p, q) \<in> R" "f a = f p" "y = f q" by auto
    then have "a = p" using inj_onD [OF inj] ab R by auto
    with pq y show "\<exists>c. (a, c) \<in> R \<and> (f c, f b) \<in> (map_prod f f ` R)\<^sup>*" by auto
  next
    assume "\<exists>c. (a, c) \<in> R \<and> (f c, f b) \<in> (map_prod f f ` R)\<^sup>*"
    then obtain c where c: "(a, c) \<in> R" "(f c, f b) \<in> (map_prod f f ` R)\<^sup>*" by blast
    then have "(f a, f c) \<in> map_prod f f ` R" by force
    then show "(f a, f b) \<in> (map_prod f f ` R)\<^sup>+" using c(2) by (rule rtrancl_into_trancl2)
  qed
  also have "\<dots> \<longleftrightarrow> (\<exists>c. (a, c) \<in> R \<and> (c, b) \<in> R\<^sup>*)" using rtrancl_map_inj [OF inj R _ ab(2)] R by blast
  also have "\<dots> \<longleftrightarrow> (a, b) \<in> R\<^sup>+" by (meson tranclD rtrancl_into_trancl2)
  finally show ?thesis .
qed

lemma nodes_card: "card (nodes_of es) \<le> 2 * length es"
proof -
  have "card (nodes_of es) \<le> card (ce_caller ` set es) + card (ce_callee ` set es)" unfolding nodes_of_def by (rule card_Un_le)
  also have "\<dots> \<le> length es + length es"
    using card_image_le [of "set es" ce_caller] card_image_le [of "set es" ce_callee] card_length [of es] by fastforce
  finally show ?thesis by simp
qed

lemma graph_size:
  assumes "index_ok (nodes_of es) g"
  shows "length (gr_successors g) \<le> 2 * length es"
proof -
  have "length (gr_successors g) = card (idx g ` nodes_of es)" using assms by (simp add: index_ok_def)
  also have "\<dots> \<le> card (nodes_of es)" by (rule card_image_le) (simp add: nodes_of_def)
  finally show ?thesis using nodes_card [of es] by linarith
qed

lemma calls_rel_nodes: "calls_rel (filter P es) \<subseteq> nodes_of es \<times> nodes_of es" "calls_rel es \<subseteq> nodes_of es \<times> nodes_of es"
  by (auto simp: calls_rel_def nodes_of_def)

lemma index_Some:
  assumes "index_ok N g" "f \<in> N"
  shows "gr_index g f = Some (idx g f)" "idx g f < length (gr_successors g)"
  using assms by (auto simp: index_ok_def dom_def)

lemma index_marked_node:
  assumes "index_ok N g" "f \<in> N" "length marks = length (gr_successors g)"
  shows "index_marked g marks f = Some (marks ! idx g f)"
proof -
  from assms(1,2) obtain i where i: "gr_index g f = Some i" by (auto simp: index_ok_def)
  then have "i < length marks" using index_Some(2) [OF assms(1,2)] assms(3) by simp
  with i show ?thesis by (simp add: index_marked_def vec_simps)
qed

lemma cyclic_functions:
  assumes ok: "graph_ok starts es (g, any, ord)" and n: "2 * length es < UNSEEN"
  shows "\<exists>cyclic. Graph_cyclic g = Some cyclic \<and>
    (\<forall>f. index_marked g cyclic f = Some ((f, f) \<in> (calls_rel (filter (\<lambda>e. \<not> starts e) es))\<^sup>+))"
proof -
  let ?Q = "calls_rel (filter (\<lambda>e. \<not> starts e) es)" and ?N = "nodes_of es"
  have O: "index_ok ?N g" "rows_ok (gr_calls g)" "row_rel (gr_calls g) = map_prod (idx g) (idx g) ` ?Q" using ok by (auto simp: graph_ok_def)
  have len: "length (gr_calls g) = length (gr_successors g)" using O(1) by (simp add: index_ok_def)
  have "length (gr_calls g) < UNSEEN" using graph_size [OF O(1)] n len by simp
  from Graph_cyclic_result [OF O(2) this] obtain cyclic where
    c: "Graph_cyclic g = Some cyclic" "length cyclic = length (gr_calls g)" "\<forall>v < length (gr_calls g). cyclic ! v \<longleftrightarrow> (v, v) \<in> (row_rel (gr_calls g))\<^sup>+"
    by blast
  have "index_marked g cyclic f = Some ((f, f) \<in> ?Q\<^sup>+)" for f
  proof (cases "f \<in> ?N")
    case True
    note I = index_Some [OF O(1) True]
    have "cyclic ! idx g f \<longleftrightarrow> (idx g f, idx g f) \<in> (map_prod (idx g) (idx g) ` ?Q)\<^sup>+" using c(3) I(2) len unfolding O(3) by simp
    also have "\<dots> \<longleftrightarrow> (f, f) \<in> ?Q\<^sup>+" using O(1) by (intro trancl_map_inj [OF _ calls_rel_nodes(1) True True]) (simp add: index_ok_def)
    finally show ?thesis using index_marked_node [OF O(1) True, of cyclic] c(2) len by simp
  next
    case False
    have "(f, f) \<notin> ?Q\<^sup>+" using False trancl_subset_Sigma [OF calls_rel_nodes(1) [of "\<lambda>e. \<not> starts e" es]] by auto
    moreover have "gr_index g f = None" using False O(1) by (auto simp: index_ok_def)
    ultimately show ?thesis by (simp add: index_marked_def)
  qed
  with c(1) show ?thesis by blast
qed

lemma mark_roots:
  assumes "set work \<subseteq> {..<n}"
  shows "\<exists>reached. foldM (\<lambda>reached r. vset reached r True) (replicate n False) work = Some reached \<and> length reached = n \<and> marked reached = set work"
proof (rule foldM_prefix_rule [where I = "\<lambda>ds reached. length reached = n \<and> marked reached = set ds"])
  show "\<exists>t. vset reached r True = Some t \<and> length t = n \<and> marked t = set (ds @ [r])"
    if "length reached = n \<and> marked reached = set ds" "r \<in> set work" for ds r reached
    using that assms by (auto simp: marked_update vec_simps)
qed (simp add: marked_def)

lemma reached_functions:
  assumes ok: "graph_ok starts es (g, any, ord)"
  shows "\<exists>reached. reachable_from g roots = Some reached \<and>
    (\<forall>f. index_marked g reached f = Some (f \<in> nodes_of es \<and> (\<exists>root \<in> set roots. (root, f) \<in> (calls_rel es)\<^sup>*)))"
proof -
  let ?R = "calls_rel es" and ?N = "nodes_of es" and ?n = "length (gr_successors g)"
  let ?work = "List.map_filter (gr_index g) roots"
  have O: "index_ok ?N g" "rows_ok (gr_successors g)" "row_rel (gr_successors g) = map_prod (idx g) (idx g) ` ?R" using ok by (auto simp: graph_ok_def)
  have inj: "inj_on (idx g) ?N" using O(1) by (simp add: index_ok_def)
  have work: "set ?work = idx g ` (set roots \<inter> ?N)" using O(1) by (force simp: set_map_filter index_ok_def dom_def)
  then have "set ?work \<subseteq> {..<?n}" using index_Some(2) [OF O(1)] by auto
  from mark_roots [OF this] obtain r0 where r0: "foldM (\<lambda>reached r. vset reached r True) (replicate ?n False) ?work = Some r0"
    "length r0 = ?n" "marked r0 = set ?work" by blast
  from reach_loop_result [OF O(2) r0(2), of "rev ?work"] r0(3) obtain reached where
    l: "reach_loop (gr_successors g) (rev ?work) r0 = Some reached" "length reached = ?n" "marked reached = (row_rel (gr_successors g))\<^sup>* `` set ?work"
    by auto
  have eq: "reachable_from g roots = Some reached" using r0(1) l(1) by (simp add: reachable_from_def)
  have "index_marked g reached f = Some (f \<in> ?N \<and> (\<exists>root \<in> set roots. (root, f) \<in> ?R\<^sup>*))" for f
  proof (cases "f \<in> ?N")
    case True
    note I = index_Some [OF O(1) True]
    have "reached ! idx g f \<longleftrightarrow> (\<exists>root \<in> set roots \<inter> ?N. (idx g root, idx g f) \<in> (map_prod (idx g) (idx g) ` ?R)\<^sup>*)"
      using l(2,3) I(2) unfolding work O(3) by (auto simp: marked_def)
    also have "\<dots> \<longleftrightarrow> (\<exists>root \<in> set roots \<inter> ?N. (root, f) \<in> ?R\<^sup>*)"
      using rtrancl_map_inj [OF inj calls_rel_nodes(2) _ True] by blast
    also have "\<dots> \<longleftrightarrow> (\<exists>root \<in> set roots. (root, f) \<in> ?R\<^sup>*)"
    proof -
      have "root \<in> ?N" if "(root, f) \<in> ?R\<^sup>*" for root
        using that True calls_rel_nodes(2) by (cases rule: converse_rtranclE) auto
      then show ?thesis by blast
    qed
    finally show ?thesis using index_marked_node [OF O(1) True, of reached] l(2) True by simp
  next
    case False
    then have "gr_index g f = None" using O(1) by (auto simp: index_ok_def)
    with False show ?thesis by (simp add: index_marked_def)
  qed
  with eq show ?thesis by blast
qed

section \<open>The evidence of a context\<close>

text \<open>What the start site alone says.\<close>

definition own_evidence :: "CallSite list \<Rightarrow> (nat \<times> nat) set \<Rightarrow> ContextStart \<Rightarrow> MultiInstance" where
  "own_evidence sites ordinary start =
     (case submitter sites start of
        None \<Rightarrow> UnknownInstance
      | Some (caller, in_loop) \<Rightarrow> if in_loop then Loop else if (caller, caller) \<in> ordinary\<^sup>+ then Cycle else UnknownInstance)"

definition started_context :: "CallSite list \<Rightarrow> (nat \<times> nat) set \<Rightarrow> Invocation \<Rightarrow> ExecutionContext" where
  "started_context sites ordinary i = (case i of (start, entry, kind, model) \<Rightarrow>
     (let multi = own_evidence sites ordinary start in
      \<lparr>ec_kind = kind, ec_entry = entry, ec_start = Some start, ec_multi_instance = multi, ec_model = Some model,
       ec_self_concurrent = (kind = IpcHandler \<or> multi \<noteq> UnknownInstance)\<rparr>))"

text \<open>Started by a function that the entry of a context that may run twice at once reaches.\<close>

definition under_parent :: "CallSite list \<Rightarrow> CallGraphEdge list \<Rightarrow> ExecutionContext list \<Rightarrow> ExecutionContext \<Rightarrow> bool" where
  "under_parent sites edges contexts c \<longleftrightarrow>
     (\<exists>start caller in_loop. ec_start c = Some start \<and> submitter sites start = Some (caller, in_loop) \<and> caller \<in> nodes_of edges \<and>
        (\<exists>p \<in> set contexts. ec_self_concurrent p \<and> (ec_entry p, caller) \<in> (calls_rel edges)\<^sup>*))"

definition with_parent :: "CallSite list \<Rightarrow> CallGraphEdge list \<Rightarrow> ExecutionContext list \<Rightarrow> ExecutionContext \<Rightarrow> ExecutionContext" where
  "with_parent sites edges contexts c =
     (if ec_multi_instance c = UnknownInstance \<and> under_parent sites edges contexts c
      then c\<lparr>ec_multi_instance := Parent, ec_self_concurrent := True\<rparr> else c)"

definition contexts_spec :: "CallSite list \<Rightarrow> Invocation list \<Rightarrow> Entry list \<Rightarrow> CallGraphEdge list \<Rightarrow> ExecutionContext list" where
  "contexts_spec sites invocations entries edges =
     (let invs = sorted_invocations invocations;
          ordinary = calls_rel (filter (\<lambda>e. \<not> starts_context invs e) edges);
          contexts = map (started_context sites ordinary) invs @ map entry_context (sorted_entries entries)
      in map (with_parent sites edges contexts) contexts)"

lemma execution_contexts_result:
  assumes n: "2 * length edges < UNSEEN"
  shows "execution_contexts sites invocations entries edges = Some (contexts_spec sites invocations entries edges)"
proof -
  let ?invs = "sorted_invocations invocations" and ?ents = "sorted_entries entries"
  let ?Q = "calls_rel (filter (\<lambda>e. \<not> starts_context ?invs e) edges)"
  let ?cs = "map (started_context sites ?Q) ?invs @ map entry_context ?ents"
  from Graph_new_result [of edges "starts_context ?invs"] obtain g any ord where
    g: "Graph_new edges (starts_context ?invs) = Some g" "graph_ok (starts_context ?invs) edges (g, any, ord)" by blast
  from cyclic_functions [OF g(2) n] obtain cyclic where
    c: "Graph_cyclic g = Some cyclic" "\<And>f. index_marked g cyclic f = Some ((f, f) \<in> ?Q\<^sup>+)" by blast
  have m1: "mapM (invocation_context sites g cyclic) ?invs = Some (map (started_context sites ?Q) ?invs)"
    by (rule mapM_total)
      (auto simp: invocation_context_def started_context_def own_evidence_def c(2) Let_def split: option.splits prod.splits)
  from reached_functions [OF g(2), of "map ec_entry (filter ec_self_concurrent ?cs)"] obtain reached where
    re: "reachable_from g (map ec_entry (filter ec_self_concurrent ?cs)) = Some reached"
      "\<And>f. index_marked g reached f = Some (f \<in> nodes_of edges \<and> (\<exists>root \<in> set (map ec_entry (filter ec_self_concurrent ?cs)). (root, f) \<in> (calls_rel edges)\<^sup>*))"
    by blast
  have roots: "(\<exists>root \<in> set (map ec_entry (filter ec_self_concurrent ?cs)). (root, f) \<in> (calls_rel edges)\<^sup>*) \<longleftrightarrow>
      (\<exists>p \<in> set ?cs. ec_self_concurrent p \<and> (ec_entry p, f) \<in> (calls_rel edges)\<^sup>*)" for f by auto
  have m2: "mapM (inherit_parent sites g reached) ?cs = Some (map (with_parent sites edges ?cs) ?cs)"
  proof (rule mapM_total)
    fix x assume "x \<in> set ?cs"
    show "inherit_parent sites g reached x = Some (with_parent sites edges ?cs x)"
    proof (cases "Option.bind (ec_start x) (submitter sites)")
      case None
      then have "\<not> under_parent sites edges ?cs x" by (auto simp: under_parent_def)
      with None show ?thesis by (simp add: inherit_parent_def with_parent_def)
    next
      case (Some p)
      obtain caller l where p: "p = (caller, l)" by (cases p)
      have "under_parent sites edges ?cs x \<longleftrightarrow> caller \<in> nodes_of edges \<and> (\<exists>p \<in> set ?cs. ec_self_concurrent p \<and> (ec_entry p, caller) \<in> (calls_rel edges)\<^sup>*)"
        using Some p unfolding under_parent_def by (auto split: Option.bind_splits)
      then have "index_marked g reached caller = Some (under_parent sites edges ?cs x)" unfolding re(2) roots by blast
      then show ?thesis using Some p by (simp add: inherit_parent_def with_parent_def)
    qed
  qed
  show ?thesis
  proof (cases "?invs = [] \<and> ?ents = []")
    case True
    then show ?thesis by (simp add: execution_contexts_def contexts_spec_def Let_def)
  next
    case False
    then have "execution_contexts sites invocations entries edges = Some (map (with_parent sites edges ?cs) ?cs)"
      using g(1) c(1) m1 re(1) m2 by (auto simp: execution_contexts_def Let_def)
    then show ?thesis by (simp add: contexts_spec_def Let_def)
  qed
qed

section \<open>Properties\<close>

text \<open>C16: the execution contexts are exactly those of the specification, and computing them never
  panics: one per distinct submission and entry, in order; a start inside a loop has that as
  evidence, else one whose function is on a cycle of ordinary calls, else one whose
  function a context that may run twice at once reaches; only then none is recorded.\<close>

theorem execution_contexts_correct:
  assumes "2 * length edges < UNSEEN"
  shows "execution_contexts sites invocations entries edges = Some (contexts_spec sites invocations entries edges)"
  by (rule execution_contexts_result [OF assms])

definition two_threads :: "CallGraphEdge list" where
  "two_threads = [\<lparr>ce_call_site = 0, ce_caller = 1, ce_callee = 2, ce_resolution = Direct\<rparr>,
     \<lparr>ce_call_site = 1, ce_caller = 2, ce_callee = 3, ce_resolution = Indirect\<rparr>]"

definition two_starts :: "Invocation list" where
  "two_starts = [(\<lparr>cs_call_site = 0, cs_api = 9, cs_param = 0, cs_receiver = None\<rparr>, 2, Thread, ''pthread_create''),
     (\<lparr>cs_call_site = 1, cs_api = 9, cs_param = 0, cs_receiver = None\<rparr>, 3, Thread, ''pthread_create'')]"

definition two_sites :: "CallSite list" where
  "two_sites = [\<lparr>site_id = 0, site_caller = 1, site_in_loop = True\<rparr>, \<lparr>site_id = 1, site_caller = 2, site_in_loop = False\<rparr>]"

theorem execution_contexts_correct_witness:
  "execution_contexts two_sites two_starts [] two_threads = Some (contexts_spec two_sites two_starts [] two_threads)"
proof -
  have "2 * length two_threads < UNSEEN" by code_simp
  from execution_contexts_correct [OF this] show ?thesis .
qed

text \<open>Self-concurrency is closed under nesting when the call graph holds the edge from every start
  site to what it starts: a context started in a function that the entry of a self-concurrent
  context reaches is itself self-concurrent, so one search is enough.\<close>

theorem self_concurrent_closed:
  assumes "2 * length edges < UNSEEN"
    and "execution_contexts sites invocations entries edges = Some contexts"
    and "\<And>c start caller in_loop. c \<in> set contexts \<Longrightarrow> ec_start c = Some start \<Longrightarrow> submitter sites start = Some (caller, in_loop) \<Longrightarrow>
      (caller, ec_entry c) \<in> calls_rel edges"
    and "p \<in> set contexts" "ec_self_concurrent p" and "c \<in> set contexts" "ec_start c = Some start" "submitter sites start = Some (caller, in_loop)"
    and "(ec_entry p, caller) \<in> (calls_rel edges)\<^sup>*"
  shows "ec_self_concurrent c \<and> ec_multi_instance c \<noteq> UnknownInstance"
proof -
  define cs where "cs = map (started_context sites (calls_rel (filter (\<lambda>e. \<not> starts_context (sorted_invocations invocations) e) edges)))
      (sorted_invocations invocations) @ map entry_context (sorted_entries entries)"
  have contexts: "contexts = map (with_parent sites edges cs) cs"
    using assms(2) execution_contexts_result [OF assms(1)] by (simp add: contexts_spec_def Let_def cs_def)
  have fields: "ec_start (with_parent sites edges cs x) = ec_start x" "ec_entry (with_parent sites edges cs x) = ec_entry x" for x
    by (simp_all add: with_parent_def)
  have own: "ec_self_concurrent x" if "x \<in> set cs" "ec_multi_instance x \<noteq> UnknownInstance" for x
    using that by (auto simp: cs_def started_context_def entry_context_def Let_def split: prod.splits)
  from assms(4) contexts obtain p0 where p0: "p0 \<in> set cs" "p = with_parent sites edges cs p0" by auto
  from assms(6) contexts obtain c0 where c0: "c0 \<in> set cs" "c = with_parent sites edges cs c0" by auto
  have edge: "(caller, ec_entry c) \<in> calls_rel edges" by (rule assms(3) [OF assms(6-8)])
  then have node: "caller \<in> nodes_of edges" using calls_rel_nodes(2) by auto
  have "\<exists>q \<in> set cs. ec_self_concurrent q \<and> (ec_entry q, caller) \<in> (calls_rel edges)\<^sup>*"
  proof (cases "ec_self_concurrent p0")
    case True
    then show ?thesis using p0 assms(9) fields by auto
  next
    case False
    then have u: "under_parent sites edges cs p0" using p0 assms(5) by (auto simp: with_parent_def split: if_splits)
    then obtain start' caller' l' q where q: "ec_start p0 = Some start'" "submitter sites start' = Some (caller', l')" "q \<in> set cs"
      "ec_self_concurrent q" "(ec_entry q, caller') \<in> (calls_rel edges)\<^sup>*" unfolding under_parent_def by blast
    have "(caller', ec_entry p) \<in> calls_rel edges" using assms(3) [OF assms(4), of start' caller' l'] q(1,2) p0 fields by simp
    then have "(ec_entry q, caller) \<in> (calls_rel edges)\<^sup>*" using q(5) assms(9) by (meson rtrancl_into_rtrancl rtrancl_trans)
    then show ?thesis using q(3,4) by blast
  qed
  then have "under_parent sites edges cs c0" using assms(7,8) node c0 fields unfolding under_parent_def by auto
  then show ?thesis using own [OF c0(1)] c0(2) by (auto simp: with_parent_def)
qed

definition nested_contexts :: "ExecutionContext list" where
  "nested_contexts = [\<lparr>ec_kind = Thread, ec_entry = 2, ec_start = Some \<lparr>cs_call_site = 0, cs_api = 9, cs_param = 0, cs_receiver = None\<rparr>,
       ec_multi_instance = Loop, ec_model = Some ''pthread_create'', ec_self_concurrent = True\<rparr>,
     \<lparr>ec_kind = Thread, ec_entry = 3, ec_start = Some \<lparr>cs_call_site = 1, cs_api = 9, cs_param = 0, cs_receiver = None\<rparr>,
       ec_multi_instance = Parent, ec_model = Some ''pthread_create'', ec_self_concurrent = True\<rparr>]"

lemma nested_contexts_computed: "execution_contexts two_sites two_starts [] two_threads = Some nested_contexts"
  by code_simp

theorem self_concurrent_closed_witness:
  "\<exists>c \<in> set nested_contexts. ec_entry c = 3 \<and> ec_self_concurrent c \<and> ec_multi_instance c \<noteq> UnknownInstance"
proof -
  have size: "2 * length two_threads < UNSEEN" by code_simp
  have holds: "(caller, ec_entry c) \<in> calls_rel two_threads"
    if "c \<in> set nested_contexts" "ec_start c = Some start" "submitter two_sites start = Some (caller, in_loop)" for c start caller in_loop
    using that by (auto simp: nested_contexts_def submitter_def call_site_by_id_def call_site_slot_def two_sites_def vget_def
        calls_rel_def two_threads_def)
  define p c where "p = nested_contexts ! 0" and "c = nested_contexts ! 1"
  have pc: "p \<in> set nested_contexts" "c \<in> set nested_contexts" "ec_self_concurrent p" "ec_entry p = 2" "ec_entry c = 3"
    by (simp_all add: p_def c_def nested_contexts_def)
  have start: "ec_start c = Some \<lparr>cs_call_site = 1, cs_api = 9, cs_param = 0, cs_receiver = None\<rparr>"
    "submitter two_sites \<lparr>cs_call_site = 1, cs_api = 9, cs_param = 0, cs_receiver = None\<rparr> = Some (2, False)"
    by (simp_all add: c_def nested_contexts_def submitter_def call_site_by_id_def call_site_slot_def two_sites_def vget_def)
  have reach: "(ec_entry p, 2) \<in> (calls_rel two_threads)\<^sup>*" using pc(4) by simp
  have "ec_self_concurrent c \<and> ec_multi_instance c \<noteq> UnknownInstance"
    by (rule self_concurrent_closed [OF size nested_contexts_computed _ pc(1,3,2) start reach]) (rule holds)
  with pc(2,5) show ?thesis by blast
qed

end
