(* ===== verification/Token.thy ===== *)
theory Token
  imports Prelude "HOL-Library.Word"
begin

unbundle bit_operations_syntax

text \<open>
  Tokens of the preprocessor and their macro provenance (the first part of
  \<^verbatim>\<open>trace-preproc/src/lexer.rs\<close>). A character is its code point and a string the list of them; where the
  code hashes bytes, the encoding is written out. A path is the string \<open>to_string_lossy\<close> gives for it.
\<close>

section \<open>Characters and bytes\<close>

type_synonym uchar = nat
type_synonym ustring = "uchar list"

abbreviation ch :: "char \<Rightarrow> uchar" where
  "ch c \<equiv> of_char c"

definition str :: "string \<Rightarrow> ustring" where
  "str s = map of_char s"

lemma str_eq: "str a = str b \<longleftrightarrow> a = b"
proof -
  have "inj (map (of_char :: char \<Rightarrow> nat))" using inj_mapI [OF inj_of_char] .
  then show ?thesis unfolding str_def by (auto dest: injD)
qed

text \<open>The UTF-8 encoding of a code point (\<open>as_bytes\<close>).\<close>

definition utf8 :: "uchar \<Rightarrow> nat list" where
  "utf8 c =
     (if c < 0x80 then [c]
      else if c < 0x800 then [0xC0 + c div 0x40, 0x80 + c mod 0x40]
      else if c < 0x10000 then [0xE0 + c div 0x1000, 0x80 + c div 0x40 mod 0x40, 0x80 + c mod 0x40]
      else [0xF0 + c div 0x40000, 0x80 + c div 0x1000 mod 0x40, 0x80 + c div 0x40 mod 0x40, 0x80 + c mod 0x40])"

definition as_bytes :: "ustring \<Rightarrow> nat list" where
  "as_bytes s = concat (map utf8 s)"

definition to_le_bytes :: "nat \<Rightarrow> nat \<Rightarrow> nat list" where
  "to_le_bytes n x = map (\<lambda>i. x div 256 ^ i mod 256) [0..<n]"

section \<open>Tokens\<close>

datatype TokenKind = Identifier ustring | Number ustring | String ustring | Char ustring | Punct ustring | Hash | Newline | Eof

record TokenMacroProvenance =
  mp_hidden :: "ustring set option"
  mp_origin :: "(nat \<times> nat) option"
  mp_expansion_id :: "64 word"
  mp_expansion_macro :: "ustring option"
  mp_spelling_file :: "ustring option"

definition TokenMacroProvenance_default :: TokenMacroProvenance where
  "TokenMacroProvenance_default =
     \<lparr>mp_hidden = None, mp_origin = None, mp_expansion_id = 0, mp_expansion_macro = None, mp_spelling_file = None\<rparr>"

record Token =
  tok_kind :: TokenKind
  tok_line :: nat
  tok_col :: nat
  tok_adjacent_before :: bool
  tok_macro_prov :: "TokenMacroProvenance option"

definition Token_new :: "TokenKind \<Rightarrow> nat \<Rightarrow> nat \<Rightarrow> Token" where
  "Token_new kind line col = \<lparr>tok_kind = kind, tok_line = line, tok_col = col, tok_adjacent_before = False, tok_macro_prov = None\<rparr>"

definition tok_hidden :: "Token \<Rightarrow> ustring set option" where
  "tok_hidden t = Option.bind (tok_macro_prov t) mp_hidden"

definition tok_origin :: "Token \<Rightarrow> (nat \<times> nat) option" where
  "tok_origin t = Option.bind (tok_macro_prov t) mp_origin"

definition tok_expansion_id :: "Token \<Rightarrow> 64 word" where
  "tok_expansion_id t = (case tok_macro_prov t of None \<Rightarrow> 0 | Some p \<Rightarrow> mp_expansion_id p)"

definition tok_expansion_macro :: "Token \<Rightarrow> ustring option" where
  "tok_expansion_macro t = Option.bind (tok_macro_prov t) mp_expansion_macro"

definition tok_spelling_file :: "Token \<Rightarrow> ustring option" where
  "tok_spelling_file t = Option.bind (tok_macro_prov t) mp_spelling_file"

definition macro_prov_mut :: "(TokenMacroProvenance \<Rightarrow> TokenMacroProvenance) \<Rightarrow> Token \<Rightarrow> Token" where
  "macro_prov_mut f t = t\<lparr>tok_macro_prov := Some (f (case tok_macro_prov t of None \<Rightarrow> TokenMacroProvenance_default | Some p \<Rightarrow> p))\<rparr>"

definition set_spelling_file :: "ustring \<Rightarrow> Token \<Rightarrow> Token" where
  "set_spelling_file path = macro_prov_mut (\<lambda>p. p\<lparr>mp_spelling_file := Some path\<rparr>)"

definition is_newline :: "Token \<Rightarrow> bool" where
  "is_newline t \<longleftrightarrow> tok_kind t = Newline"

definition is_eof :: "Token \<Rightarrow> bool" where
  "is_eof t \<longleftrightarrow> tok_kind t = Eof"

definition is_punct :: "ustring \<Rightarrow> Token \<Rightarrow> bool" where
  "is_punct punct t \<longleftrightarrow> tok_kind t = Punct punct"

definition is_ident :: "ustring \<Rightarrow> Token \<Rightarrow> bool" where
  "is_ident name t \<longleftrightarrow> tok_kind t = Identifier name"

definition expansion_site :: "Token \<Rightarrow> nat \<times> nat" where
  "expansion_site t = (case tok_origin t of None \<Rightarrow> (tok_line t, tok_col t) | Some o' \<Rightarrow> o')"

definition is_hidden :: "ustring \<Rightarrow> Token \<Rightarrow> bool" where
  "is_hidden name t \<longleftrightarrow> (case tok_hidden t of None \<Rightarrow> False | Some h \<Rightarrow> name \<in> h)"

section \<open>The fingerprint of an expansion step\<close>

definition OFFSET :: "64 word" where "OFFSET = 0xcbf29ce484222325"

definition PRIME :: "64 word" where "PRIME = 0x100000001b3"

definition hash_byte :: "64 word \<Rightarrow> nat \<Rightarrow> 64 word" where
  "hash_byte hash byte = (hash XOR word_of_nat byte) * PRIME"

definition hash_bytes :: "nat list \<Rightarrow> 64 word \<Rightarrow> 64 word" where
  "hash_bytes value hash = (foldl hash_byte hash value XOR 0xff) * PRIME"

definition hash_place :: "Token \<Rightarrow> 64 word \<Rightarrow> 64 word" where
  "hash_place t hash0 =
     (let hash1 = hash_bytes (to_le_bytes 4 (tok_line t)) hash0;
          hash2 = hash_bytes (to_le_bytes 4 (tok_col t)) hash1
      in case tok_spelling_file t of None \<Rightarrow> hash2 | Some path \<Rightarrow> hash_bytes (as_bytes path) hash2)"

definition expansion_fingerprint :: "Token \<Rightarrow> ustring \<Rightarrow> Token option \<Rightarrow> 64 word \<Rightarrow> 64 word" where
  "expansion_fingerprint origin macro_name parameter prior =
     (let hash1 = hash_bytes (to_le_bytes 8 (unat (tok_expansion_id origin))) OFFSET;
          hash2 = hash_bytes (to_le_bytes 8 (unat prior)) hash1;
          hash3 = hash_bytes (as_bytes macro_name) hash2;
          hash4 = hash_place origin hash3;
          hash5 = (case parameter of None \<Rightarrow> hash4 | Some p \<Rightarrow> hash_place p hash4)
      in max hash5 1)"

section \<open>Hide sets\<close>

definition or_name :: "ustring option \<Rightarrow> ustring \<Rightarrow> ustring option" where
  "or_name m name = (case m of None \<Rightarrow> Some name | Some n \<Rightarrow> Some n)"

definition with_macro_hide :: "Token \<Rightarrow> Token \<Rightarrow> ustring \<Rightarrow> Token" where
  "with_macro_hide self origin name =
     (let set1 = (case tok_hidden origin of None \<Rightarrow> {} | Some h \<Rightarrow> h);
          set2 = (case tok_hidden self of None \<Rightarrow> set1 | Some h \<Rightarrow> set1 \<union> h)
      in \<lparr>tok_kind = tok_kind self, tok_line = tok_line self, tok_col = tok_col self,
          tok_adjacent_before = tok_adjacent_before self,
          tok_macro_prov = Some \<lparr>mp_hidden = Some (insert name set2), mp_origin = Some (expansion_site origin),
            mp_expansion_id = expansion_fingerprint origin name None (tok_expansion_id self),
            mp_expansion_macro = or_name (tok_expansion_macro origin) name,
            mp_spelling_file = tok_spelling_file self\<rparr>\<rparr>)"

definition with_substitution_provenance :: "Token \<Rightarrow> Token \<Rightarrow> ustring \<Rightarrow> Token \<Rightarrow> ustring set option \<Rightarrow> Token" where
  "with_substitution_provenance self origin macro_name parameter active_hidden =
     (let new_hidden = (case active_hidden of
            Some active \<Rightarrow> Some (case tok_hidden self of
                None \<Rightarrow> active
              | Some previous \<Rightarrow> if previous \<subseteq> active then active else active \<union> previous)
          | None \<Rightarrow> tok_hidden self)
      in macro_prov_mut (\<lambda>p. p\<lparr>mp_hidden := new_hidden,
           mp_expansion_id := expansion_fingerprint origin macro_name (Some parameter) (tok_expansion_id self),
           mp_expansion_macro := or_name (tok_expansion_macro origin) macro_name\<rparr>) self)"

definition union_hidden :: "Token \<Rightarrow> Token \<Rightarrow> ustring set option" where
  "union_hidden left right =
     (case (tok_hidden left, tok_hidden right) of
        (None, None) \<Rightarrow> None
      | (Some x, None) \<Rightarrow> Some x
      | (None, Some x) \<Rightarrow> Some x
      | (Some x, Some y) \<Rightarrow> Some (x \<union> y))"

section \<open>Properties\<close>

definition hidden_names :: "Token \<Rightarrow> ustring set" where
  "hidden_names t = {name. is_hidden name t}"

lemma hidden_names_eq: "hidden_names t = (case tok_hidden t of None \<Rightarrow> {} | Some h \<Rightarrow> h)"
  by (auto simp: hidden_names_def is_hidden_def split: option.splits)

lemma expansion_fingerprint_nonzero: "expansion_fingerprint origin name parameter prior \<noteq> 0"
proof -
  have "(1::64 word) \<le> expansion_fingerprint origin name parameter prior"
    unfolding expansion_fingerprint_def Let_def by (rule max.cobounded2)
  then show ?thesis by auto
qed

text \<open>Painting a token of a replacement list hides exactly the invoking token's names, its own and
  the macro's: the macro can never expand it again, and a painted token stays painted. Its
  fingerprint is never the zero that means no expansion, its site is the outermost invocation and its macro
  the first of the chain. Substituting an argument adds the active names and keeps its site.\<close>

theorem hide_sets_grow:
  "hidden_names (with_macro_hide self origin name) = insert name (hidden_names origin \<union> hidden_names self) \<and>
   tok_kind (with_macro_hide self origin name) = tok_kind self \<and>
   expansion_site (with_macro_hide self origin name) = expansion_site origin \<and>
   tok_expansion_id (with_macro_hide self origin name) \<noteq> 0 \<and>
   tok_expansion_macro (with_macro_hide self origin name) = or_name (tok_expansion_macro origin) name \<and>
   hidden_names (with_substitution_provenance self origin name parameter (Some active)) = hidden_names self \<union> active \<and>
   hidden_names (with_substitution_provenance self origin name parameter None) = hidden_names self \<and>
   expansion_site (with_substitution_provenance self origin name parameter act) = expansion_site self \<and>
   tok_expansion_id (with_substitution_provenance self origin name parameter act) \<noteq> 0 \<and>
   (case union_hidden self origin of None \<Rightarrow> {} | Some h \<Rightarrow> h) = hidden_names self \<union> hidden_names origin"
proof -
  note defs = hidden_names_eq with_macro_hide_def with_substitution_provenance_def macro_prov_mut_def Let_def
    tok_hidden_def tok_expansion_id_def tok_expansion_macro_def expansion_site_def tok_origin_def TokenMacroProvenance_default_def union_hidden_def
  show ?thesis
  proof (intro conjI)
    show "tok_expansion_id (with_macro_hide self origin name) \<noteq> 0"
      "tok_expansion_id (with_substitution_provenance self origin name parameter act) \<noteq> 0"
      by (simp_all add: with_macro_hide_def with_substitution_provenance_def macro_prov_mut_def Let_def tok_expansion_id_def expansion_fingerprint_nonzero)
  qed (auto simp: defs split: option.splits)
qed

end
