(* ===== verification/Lexer.thy ===== *)
theory Lexer
  imports Token "HOL-Library.Sublist"
begin

text \<open>
  The tokenizer of the preprocessor (\<^verbatim>\<open>trace-preproc/src/lexer.rs\<close>). A position is the index of a
  character of the input; the code's byte offset is that index in UTF-8, and every byte it compares is
  ASCII, so both scan alike. \<open>next_splice\<close> is \<open>None\<close> where the code holds the largest
  \<^verbatim>\<open>usize\<close>, which no offset reaches. Lines and columns are the code's 32-bit counters, which wrap; the properties
  about places bound the text so that they do not.
\<close>

section \<open>Line splices\<close>

datatype Language = C | Cpp

abbreviation NL :: uchar where "NL \<equiv> 10"

abbreviation BS :: uchar where "BS \<equiv> 92"

abbreviation CR :: uchar where "CR \<equiv> 13"

definition is_hspace :: "uchar \<Rightarrow> bool" where
  "is_hspace c \<longleftrightarrow> c \<in> {ch CHR '' '', 9, 11, 12}"

text \<open>The end of a run of horizontal white space from an index on.\<close>

definition hspace_end :: "ustring \<Rightarrow> nat \<Rightarrow> nat" where
  "hspace_end input i = i + length (takeWhile is_hspace (drop i input))"

definition splice_len :: "ustring \<Rightarrow> nat \<Rightarrow> nat" where
  "splice_len input pos =
     (if vget input pos \<noteq> Some BS then 0
      else
        (let i = hspace_end input (pos + 1);
             j = (if vget input i = Some CR then i + 1 else i)
         in if vget input j = Some NL then j + 1 - pos else 0))"

function find_splices_from :: "ustring \<Rightarrow> nat \<Rightarrow> nat list" where
  "find_splices_from input from =
     (case position (\<lambda>c. c = BS) (drop from input) of
        None \<Rightarrow> []
      | Some i \<Rightarrow>
          (let at = from + i
           in if splice_len input at > 0 then at # find_splices_from input (at + 1) else find_splices_from input (at + 1)))"
  by pat_completeness auto
termination
  by (relation "measure (\<lambda>(input, from). length input - from)") (auto simp: position_Some)

declare find_splices_from.simps [simp del]

definition find_splices :: "ustring \<Rightarrow> nat list" where
  "find_splices input = find_splices_from input 0"

function strip_splices :: "ustring \<Rightarrow> ustring" where
  "strip_splices rest =
     (case position (\<lambda>c. c = BS) rest of
        None \<Rightarrow> rest
      | Some i \<Rightarrow>
          (let len = splice_len rest i
           in if len = 0 then take (i + 1) rest @ strip_splices (drop (i + 1) rest)
              else take i rest @ strip_splices (drop (i + len) rest)))"
  by pat_completeness auto
termination
  by (relation "measure length") (auto simp: position_Some)

declare strip_splices.simps [simp del]

function splice_end :: "ustring \<Rightarrow> nat \<Rightarrow> nat" where
  "splice_end input pos = (let len = splice_len input pos in if len = 0 then pos else splice_end input (pos + len))"
  by pat_completeness auto
termination
proof (relation "measure (\<lambda>(input, pos). length input - pos)", goal_cases)
  case (2 input pos len)
  then have "vget input pos = Some BS" by (cases "vget input pos = Some BS") (simp_all add: splice_len_def)
  then have "pos < length input" by (simp add: vget_def split: if_splits)
  with 2 show ?case by simp
qed simp

declare splice_end.simps [simp del]

section \<open>The position in the file\<close>

record Lexer =
  lx_input :: ustring
  lx_pos :: nat
  lx_line :: nat
  lx_col :: nat
  lx_splices :: "nat list"
  lx_next_splice :: "nat option"
  lx_splice_idx :: nat
  lx_after_newline :: bool
  lx_language :: Language

definition aim_next_splice :: "Lexer \<Rightarrow> Lexer" where
  "aim_next_splice s = s\<lparr>lx_next_splice := vget (lx_splices s) (lx_splice_idx s)\<rparr>"

definition skip_one :: "Lexer \<Rightarrow> Lexer" where
  "skip_one s = aim_next_splice (s\<lparr>lx_pos := lx_pos s + splice_len (lx_input s) (lx_pos s), lx_line := as_u32 (lx_line s + 1), lx_col := 1,
     lx_splice_idx := lx_splice_idx s + 1\<rparr>)"

function skip_splices :: "Lexer \<Rightarrow> Lexer" where
  "skip_splices s = (if Some (lx_pos s) = lx_next_splice s then skip_splices (skip_one s) else s)"
  by pat_completeness auto
termination
  by (relation "measure (\<lambda>s. if lx_next_splice s = None then 0 else Suc (length (lx_splices s) - lx_splice_idx s))")
    (auto simp: skip_one_def aim_next_splice_def vget_def dest: sym)

declare skip_splices.simps [simp del]

text \<open>\<open>partition_point\<close> on the ascending splices is the length of their prefix before the position.\<close>

definition resync_splices :: "Lexer \<Rightarrow> Lexer" where
  "resync_splices s = skip_splices (aim_next_splice (s\<lparr>lx_splice_idx := length (takeWhile (\<lambda>at. at < lx_pos s) (lx_splices s))\<rparr>))"

definition Lexer_new :: "ustring \<Rightarrow> Language \<Rightarrow> Lexer" where
  "Lexer_new input language = resync_splices
     \<lparr>lx_input = input, lx_pos = 0, lx_line = 1, lx_col = 1, lx_splices = find_splices input, lx_next_splice = None,
      lx_splice_idx = 0, lx_after_newline = True, lx_language = language\<rparr>"

definition is_cpp :: "Lexer \<Rightarrow> bool" where
  "is_cpp s \<longleftrightarrow> lx_language s = Cpp"

definition is_at_end :: "Lexer \<Rightarrow> bool" where
  "is_at_end s \<longleftrightarrow> lx_pos s \<ge> length (lx_input s)"

definition lex_step :: "uchar \<Rightarrow> Lexer \<Rightarrow> Lexer" where
  "lex_step c s =
     (if c = NL then s\<lparr>lx_pos := lx_pos s + 1, lx_line := as_u32 (lx_line s + 1), lx_col := 1\<rparr>
      else s\<lparr>lx_pos := lx_pos s + 1, lx_col := as_u32 (lx_col s + 1)\<rparr>)"

definition advance_char :: "Lexer \<Rightarrow> Lexer" where
  "advance_char s =
     (case vget (lx_input s) (lx_pos s) of
        None \<Rightarrow> s
      | Some c \<Rightarrow> (let s1 = lex_step c s in if Some (lx_pos s1) = lx_next_splice s1 then skip_splices s1 else s1))"

definition peek_char :: "Lexer \<Rightarrow> uchar" where
  "peek_char s = (case vget (lx_input s) (lx_pos s) of None \<Rightarrow> 0 | Some c \<Rightarrow> c)"

text \<open>The characters ahead in the spliced view.\<close>

function spliced_from :: "ustring \<Rightarrow> nat \<Rightarrow> ustring" where
  "spliced_from input pos =
     (case vget input pos of None \<Rightarrow> [] | Some c \<Rightarrow> c # spliced_from input (splice_end input (pos + 1)))"
  by pat_completeness auto
termination
proof (relation "measure (\<lambda>(input, pos). length input - pos)", goal_cases)
  case (2 input pos c)
  have "p \<le> splice_end input p" for p
    by (induction input p rule: splice_end.induct) (subst splice_end.simps, auto simp: Let_def)
  from this [of "pos + 1"] 2 show ?case by (auto simp: vget_def split: if_splits)
qed simp

declare spliced_from.simps [simp del]

definition spliced_chars :: "Lexer \<Rightarrow> ustring" where
  "spliced_chars s = spliced_from (lx_input s) (lx_pos s)"

definition peek_char_at :: "nat \<Rightarrow> Lexer \<Rightarrow> uchar" where
  "peek_char_at offset s = (case vget (spliced_chars s) offset of None \<Rightarrow> 0 | Some c \<Rightarrow> c)"

definition lookahead :: "nat \<Rightarrow> Lexer \<Rightarrow> uchar list" where
  "lookahead n s = take n (spliced_chars s @ replicate n 0)"

definition lookahead_string :: "nat \<Rightarrow> Lexer \<Rightarrow> ustring" where
  "lookahead_string n s = take n (spliced_chars s)"

definition rewind :: "nat \<Rightarrow> nat \<Rightarrow> nat \<Rightarrow> Lexer \<Rightarrow> Lexer" where
  "rewind pos line col s = resync_splices (s\<lparr>lx_pos := pos, lx_line := line, lx_col := col\<rparr>)"

definition physical_step :: "Lexer \<Rightarrow> Lexer" where
  "physical_step s = lex_step (peek_char s) s"

definition advance_physical :: "nat \<Rightarrow> Lexer \<Rightarrow> Lexer" where
  "advance_physical n s = resync_splices ((physical_step ^^ n) s)"

section \<open>What the splices are\<close>

lemma splice_end_ge: "p \<le> splice_end input p"
  by (induction input p rule: splice_end.induct) (subst splice_end.simps, auto simp: Let_def)

lemma splice_shape:
  assumes "splice_len input p = k" "0 < k"
  shows "p + k \<le> length input" "1 < k" "input ! p = BS" "input ! (p + k - 1) = NL"
    and "p < q \<Longrightarrow> q < p + k \<Longrightarrow> input ! q \<noteq> BS" "p \<le> q \<Longrightarrow> q < p + k - 1 \<Longrightarrow> input ! q \<noteq> NL"
proof -
  define i where "i = hspace_end input (p + 1)"
  define j where "j = (if vget input i = Some CR then i + 1 else i)"
  have bs: "vget input p = Some BS" using assms by (auto simp: splice_len_def split: if_splits)
  then have len: "k = (if vget input j = Some NL then j + 1 - p else 0)" using assms(1) by (auto simp: splice_len_def i_def j_def Let_def)
  then have nl: "vget input j = Some NL" and k: "k = j + 1 - p" using assms(2) by (auto split: if_splits)
  have i: "p + 1 \<le> i" by (simp add: i_def hspace_end_def)
  then have j: "i \<le> j" "j \<le> i + 1" by (auto simp: j_def)
  have jl: "j < length input" "input ! j = NL" using nl by (auto simp: vget_def split: if_splits)
  have sp: "is_hspace (input ! q)" if q: "p < q" "q < i" for q
  proof -
    let ?t = "takeWhile is_hspace (drop (p + 1) input)"
    have "q - (p + 1) < length ?t" using q by (auto simp: i_def hspace_end_def)
    then have "is_hspace (?t ! (q - (p + 1)))" "?t ! (q - (p + 1)) = drop (p + 1) input ! (q - (p + 1))"
      using set_takeWhileD [of _ is_hspace] nth_mem takeWhile_nth by blast+
    then show ?thesis using q jl j by simp
  qed
  have cr: "input ! i = CR" if "j = i + 1" using that by (auto simp: j_def vget_def split: if_splits)
  have mid: "is_hspace (input ! q) \<or> input ! q = CR" if "p < q" "q < j" for q
  proof (cases "q < i")
    case False
    then have "q = i" "j = i + 1" using that j by auto
    then show ?thesis using cr by simp
  qed (use that sp in simp)
  show "p + k \<le> length input" "1 < k" using k jl(1) i j by auto
  show "input ! p = BS" using bs by (auto simp: vget_def split: if_splits)
  have pk: "p + k - 1 = j" using k i j by simp
  show "input ! (p + k - 1) = NL" using pk jl(2) by simp
  show "input ! q \<noteq> BS" if "p < q" "q < p + k" for q
  proof (cases "q = j")
    case False
    then have "q < j" using that pk k by linarith
    then show ?thesis using mid [of q] that by (auto simp: is_hspace_def)
  qed (use jl in simp)
  show "input ! q \<noteq> NL" if "p \<le> q" "q < p + k - 1" for q
    using mid [of q] that pk \<open>input ! p = BS\<close> by (cases "q = p") (auto simp: is_hspace_def)
qed

lemma splice_at_BS: "0 < splice_len input p \<Longrightarrow> p < length input \<and> input ! p = BS"
proof -
  assume k: "0 < splice_len input p"
  then show ?thesis using splice_shape(1-3) [OF refl k] by simp
qed

lemma splice_disjoint: "splice_len input p = k \<Longrightarrow> p < q \<Longrightarrow> q < p + k \<Longrightarrow> splice_len input q = 0"
  using splice_shape(5) [of input p k q] splice_at_BS [of input q] by (cases "k = 0") auto

lemma upt_break: "a \<le> m \<Longrightarrow> m < n \<Longrightarrow> [a..<n] = [a..<m] @ m # [Suc m..<n]"
  using upt_add_eq_append [of a m "n - m"] by (simp add: upt_conv_Cons)

text \<open>The byte search finds every splice, in ascending order.\<close>

lemma find_splices_from_eq: "find_splices_from input from = filter (\<lambda>i. 0 < splice_len input i) [from..<length input]"
proof (induction input "from" rule: find_splices_from.induct)
  case (1 input "from")
  show ?case
  proof (cases "position (\<lambda>c. c = BS) (drop from input)")
    case None
    have "\<not> 0 < splice_len input i" if "i \<in> set [from..<length input]" for i
    proof
      assume "0 < splice_len input i"
      then have "i < length input" "input ! i = BS" using splice_at_BS by auto
      then have "BS \<in> set (drop from input)" using that nth_mem [of "i - from" "drop from input"] by simp
      then show False using None by (auto simp: position_None)
    qed
    then have "filter (\<lambda>i. 0 < splice_len input i) [from..<length input] = []" by (auto simp: filter_empty_conv)
    then show ?thesis using None by (subst find_splices_from.simps) simp
  next
    case (Some i)
    then have i: "from + i < length input" "\<And>j. j < i \<Longrightarrow> input ! (from + j) \<noteq> BS" by (auto simp: position_Some)
    have none: "splice_len input j = 0" if "from \<le> j" "j < from + i" for j
    proof -
      have "j - from < i" using that by linarith
      then show ?thesis using splice_at_BS [of input j] i(2) [of "j - from"] that by (cases "splice_len input j = 0") auto
    qed
    have "[from..<length input] = [from..<from + i] @ (from + i) # [from + i + 1..<length input]"
      using i(1) upt_break [of "from" "from + i" "length input"] by simp
    moreover have "filter (\<lambda>i. 0 < splice_len input i) [from..<from + i] = []" using none by (auto simp: filter_empty_conv)
    ultimately show ?thesis using 1 [OF Some refl] Some by (subst find_splices_from.simps) (simp add: Let_def)
  qed
qed

section \<open>The invariant of the position\<close>

text \<open>Physical line and column of an index.\<close>

definition line_at :: "ustring \<Rightarrow> nat \<Rightarrow> nat" where
  "line_at input p = 1 + length (filter (\<lambda>c. c = NL) (take p input))"

definition col_at :: "ustring \<Rightarrow> nat \<Rightarrow> nat" where
  "col_at input p = 1 + length (takeWhile (\<lambda>c. c \<noteq> NL) (rev (take p input)))"

lemma place_step:
  assumes "p < length input"
  shows "line_at input (Suc p) = (if input ! p = NL then line_at input p + 1 else line_at input p)"
    "col_at input (Suc p) = (if input ! p = NL then 1 else col_at input p + 1)"
  using assms by (simp_all add: line_at_def col_at_def take_Suc_conv_app_nth)

lemma place_run:
  assumes "p + n \<le> length input" "\<And>q. p \<le> q \<Longrightarrow> q < p + n \<Longrightarrow> input ! q \<noteq> NL"
  shows "line_at input (p + n) = line_at input p"
  using assms
proof (induction n)
  case (Suc n)
  then show ?case using place_step [of "p + n" input] by simp
qed simp

lemma place_splice:
  assumes "splice_len input p = k" "0 < k"
  shows "line_at input (p + k) = line_at input p + 1" "col_at input (p + k) = 1"
proof -
  note S = splice_shape [OF assms]
  obtain m where m: "k = Suc m" using assms(2) by (cases k) auto
  have "line_at input (p + m) = line_at input p" using S(1,6) m by (intro place_run) auto
  then show "line_at input (p + k) = line_at input p + 1" "col_at input (p + k) = 1"
    using place_step [of "p + m" input] S(1,4) m by simp_all
qed

text \<open>Everything but whether \<open>next_splice\<close> has been passed.\<close>

definition aimed :: "Lexer \<Rightarrow> bool" where
  "aimed s \<longleftrightarrow> lx_splices s = find_splices (lx_input s) \<and> lx_pos s \<le> length (lx_input s) \<and>
     lx_line s = as_u32 (line_at (lx_input s) (lx_pos s)) \<and> lx_col s = as_u32 (col_at (lx_input s) (lx_pos s)) \<and>
     lx_splice_idx s = length (takeWhile (\<lambda>at. at < lx_pos s) (lx_splices s)) \<and>
     lx_next_splice s = vget (lx_splices s) (lx_splice_idx s)"

definition lexer_ok :: "Lexer \<Rightarrow> bool" where
  "lexer_ok s \<longleftrightarrow> aimed s \<and> splice_len (lx_input s) (lx_pos s) = 0"

definition same_text :: "Lexer \<Rightarrow> Lexer \<Rightarrow> bool" where
  "same_text s s' \<longleftrightarrow> lx_input s' = lx_input s \<and> lx_language s' = lx_language s \<and> lx_after_newline s' = lx_after_newline s"

lemma same_text_refl [simp]: "same_text s s"
  by (simp add: same_text_def)

lemma same_text_trans: "same_text s s' \<Longrightarrow> same_text s' s'' \<Longrightarrow> same_text s s''"
  by (simp add: same_text_def)

text \<open>Where an ascending list of indexes passes a bound.\<close>

lemma takeWhile_filter_upt:
  "takeWhile (\<lambda>at. at < p) (filter P [0..<n]) = filter P [0..<min p n]"
proof (cases "p < n")
  case True
  have "takeWhile (\<lambda>at. at < p) (filter P [0..<p] @ filter P [p..<n]) = filter P [0..<p] @ takeWhile (\<lambda>at. at < p) (filter P [p..<n])"
    by (rule takeWhile_append2) auto
  moreover have "takeWhile (\<lambda>at. at < p) (filter P [p..<n]) = []" proof -
    have "\<forall>x \<in> set (filter P [p..<n]). \<not> x < p" by auto
    then show ?thesis by (cases "filter P [p..<n]") auto
  qed
  ultimately show ?thesis using True upt_add_eq_append [of 0 p "n - p"] by (simp add: min_def)
qed (simp add: min_def takeWhile_eq_all_conv)

lemma splice_rank:
  assumes "lx_splices s = find_splices (lx_input s)"
  shows "length (takeWhile (\<lambda>at. at < p) (lx_splices s)) =
    length (filter (\<lambda>i. 0 < splice_len (lx_input s) i) [0..<min p (length (lx_input s))])"
  unfolding assms find_splices_def find_splices_from_eq takeWhile_filter_upt ..

lemma filter_upt_nth:
  fixes n :: nat
  shows "vget (filter P [0..<n]) (length (filter P [0..<min p n])) = Some p \<longleftrightarrow> p < n \<and> P p"
proof (cases "p < n")
  case True
  then have split: "[0..<n] = [0..<p] @ p # [Suc p..<n]" using upt_break [of 0 p n] by simp
  show ?thesis
  proof (cases "P p")
    case True
    then show ?thesis using \<open>p < n\<close> by (simp add: split vget_def min_def nth_append)
  next
    case False
    have "filter P [0..<n] = filter P [0..<p] @ filter P [Suc p..<n]" using False by (simp add: split)
    moreover have "q \<noteq> p" if "q \<in> set (filter P [Suc p..<n])" for q using that by auto
    ultimately show ?thesis using False \<open>p < n\<close> nth_mem [of 0 "filter P [Suc p..<n]"]
      by (auto simp: vget_def min_def nth_append split: if_splits)
  qed
next
  case False
  then show ?thesis by (simp add: vget_def min_def)
qed

lemma aimed_next:
  assumes "aimed s"
  shows "lx_next_splice s = Some (lx_pos s) \<longleftrightarrow> 0 < splice_len (lx_input s) (lx_pos s)"
proof -
  have sp: "lx_splices s = filter (\<lambda>i. 0 < splice_len (lx_input s) i) [0..<length (lx_input s)]"
    using assms by (simp add: aimed_def find_splices_def find_splices_from_eq)
  have "lx_next_splice s = vget (lx_splices s) (length (filter (\<lambda>i. 0 < splice_len (lx_input s) i) [0..<min (lx_pos s) (length (lx_input s))]))"
    using assms splice_rank [of s] by (simp add: aimed_def)
  then have "lx_next_splice s = Some (lx_pos s) \<longleftrightarrow> lx_pos s < length (lx_input s) \<and> 0 < splice_len (lx_input s) (lx_pos s)"
    unfolding sp by (simp only: filter_upt_nth)
  then show ?thesis using splice_at_BS by blast
qed

text \<open>The part of the invariant that survives any move: the place is that of the position.\<close>

definition placed :: "Lexer \<Rightarrow> bool" where
  "placed s \<longleftrightarrow> lx_splices s = find_splices (lx_input s) \<and> lx_pos s \<le> length (lx_input s) \<and>
     lx_line s = as_u32 (line_at (lx_input s) (lx_pos s)) \<and> lx_col s = as_u32 (col_at (lx_input s) (lx_pos s))"

lemma aimed_placed: "aimed s \<longleftrightarrow> placed s \<and> lx_splice_idx s = length (takeWhile (\<lambda>at. at < lx_pos s) (lx_splices s)) \<and>
    lx_next_splice s = vget (lx_splices s) (lx_splice_idx s)"
  by (auto simp: aimed_def placed_def)

lemma splice_end_done: "splice_len input p = 0 \<Longrightarrow> splice_end input p = p"
  by (subst splice_end.simps) simp

lemma splice_end_step: "0 < splice_len input p \<Longrightarrow> splice_end input p = splice_end input (p + splice_len input p)"
  by (subst splice_end.simps) (simp add: Let_def)

lemma splice_end_free: "splice_len input (splice_end input p) = 0"
  by (induction input p rule: splice_end.induct) (subst splice_end.simps, simp add: Let_def)

lemma splice_end_bound: "p \<le> length input \<Longrightarrow> splice_end input p \<le> length input"
proof (induction input p rule: splice_end.induct)
  case (1 input p)
  then show ?case using splice_shape(1) [OF refl, of input p] by (subst splice_end.simps) (auto simp: Let_def)
qed

lemma skip_one_aimed:
  assumes "aimed s" "lx_next_splice s = Some (lx_pos s)"
  shows "aimed (skip_one s)"
proof -
  let ?i = "lx_input s" and ?p = "lx_pos s"
  let ?k = "splice_len ?i ?p" and ?P = "\<lambda>i. 0 < splice_len ?i i"
  have k: "0 < ?k" using assms aimed_next by blast
  note S = splice_shape(1,2) [OF refl k]
  have sp: "lx_splices s = find_splices ?i" using assms(1) by (simp add: aimed_def)
  have "[0..<?p + ?k] = [0..<?p] @ ?p # [Suc ?p..<?p + ?k]" using k by (intro upt_break) auto
  moreover have "filter ?P [Suc ?p..<?p + ?k] = []" using splice_disjoint [OF refl, of ?p] by (auto simp: filter_empty_conv Suc_le_eq)
  ultimately have "length (filter ?P [0..<?p + ?k]) = Suc (length (filter ?P [0..<?p]))" using k by simp
  then have "length (takeWhile (\<lambda>at. at < ?p + ?k) (lx_splices s)) = Suc (lx_splice_idx s)"
    using assms(1) S k splice_rank [OF sp, of "?p + ?k"] splice_rank [OF sp, of ?p] by (simp add: aimed_def min_def)
  then show ?thesis using assms(1) S k place_splice [OF refl k] by (simp add: aimed_def skip_one_def aim_next_splice_def)
qed

text \<open>Skipping lands on the end of the splices that start at the position.\<close>

lemma skip_splices_ok:
  assumes "aimed s"
  shows "lexer_ok (skip_splices s) \<and> lx_pos (skip_splices s) = splice_end (lx_input s) (lx_pos s) \<and> same_text s (skip_splices s)"
  using assms
proof (induction s rule: skip_splices.induct)
  case (1 s)
  show ?case
  proof (cases "Some (lx_pos s) = lx_next_splice s")
    case True
    then have k: "0 < splice_len (lx_input s) (lx_pos s)" using 1(2) aimed_next by metis
    have f: "lx_input (skip_one s) = lx_input s" "lx_pos (skip_one s) = lx_pos s + splice_len (lx_input s) (lx_pos s)" "same_text s (skip_one s)"
      by (simp_all add: skip_one_def aim_next_splice_def same_text_def)
    have "aimed (skip_one s)" using skip_one_aimed 1(2) True by metis
    from 1(1) [OF True this] show ?thesis using True f splice_end_step [OF k]
      by (subst (1 2 3) skip_splices.simps) (auto intro: same_text_trans)
  next
    case False
    then have "splice_len (lx_input s) (lx_pos s) = 0" using aimed_next [OF 1(2)] by auto
    then show ?thesis using False 1(2) by (subst (1 2 3) skip_splices.simps) (simp add: lexer_ok_def splice_end_done)
  qed
qed

lemma resync_ok:
  assumes "placed s"
  shows "lexer_ok (resync_splices s) \<and> lx_pos (resync_splices s) = splice_end (lx_input s) (lx_pos s) \<and> same_text s (resync_splices s)"
proof -
  let ?t = "aim_next_splice (s\<lparr>lx_splice_idx := length (takeWhile (\<lambda>at. at < lx_pos s) (lx_splices s))\<rparr>)"
  have "aimed ?t" using assms by (simp add: aimed_placed placed_def aim_next_splice_def)
  from skip_splices_ok [OF this] show ?thesis by (simp add: resync_splices_def aim_next_splice_def same_text_def)
qed

lemma lex_step_placed:
  assumes "placed s" "vget (lx_input s) (lx_pos s) = Some c"
  shows "placed (lex_step c s)"
  using assms place_step [of "lx_pos s" "lx_input s"] by (simp add: placed_def lex_step_def vget_Some)

lemma lex_step_fields [simp]:
  "lx_pos (lex_step c s) = lx_pos s + 1" "lx_input (lex_step c s) = lx_input s" "lx_language (lex_step c s) = lx_language s"
  "lx_after_newline (lex_step c s) = lx_after_newline s" "lx_splices (lex_step c s) = lx_splices s"
  "lx_splice_idx (lex_step c s) = lx_splice_idx s" "lx_next_splice (lex_step c s) = lx_next_splice s"
  by (simp_all add: lex_step_def)

lemma lexer_ok_placed: "lexer_ok s \<Longrightarrow> placed s"
  by (simp add: lexer_ok_def aimed_placed)

lemma advance_char_eq: "vget (lx_input s) (lx_pos s) = Some c \<Longrightarrow> advance_char s = skip_splices (lex_step c s)"
  by (simp add: advance_char_def Let_def skip_splices.simps [of "lex_step c s"])

text \<open>Consuming a character lands on the next one of the spliced view, with its physical place.\<close>

lemma advance_char_ok:
  assumes "lexer_ok s" "\<not> is_at_end s"
  shows "lexer_ok (advance_char s)" "lx_pos (advance_char s) = splice_end (lx_input s) (lx_pos s + 1)" "same_text s (advance_char s)"
proof -
  let ?i = "lx_input s" and ?p = "lx_pos s"
  let ?P = "\<lambda>i. 0 < splice_len ?i i"
  have p: "?p < length ?i" using assms(2) by (simp add: is_at_end_def)
  then have c: "vget ?i ?p = Some (?i ! ?p)" by (simp add: vget_in)
  have sp: "lx_splices s = find_splices ?i" and none: "splice_len ?i ?p = 0" using assms(1) by (simp_all add: lexer_ok_def aimed_def)
  have "length (filter ?P [0..<Suc ?p]) = length (filter ?P [0..<?p])" using none by simp
  then have "length (takeWhile (\<lambda>at. at < Suc ?p) (lx_splices s)) = lx_splice_idx s"
    using assms(1) p splice_rank [OF sp, of "Suc ?p"] splice_rank [OF sp, of ?p] by (simp add: lexer_ok_def aimed_def min_def Suc_le_eq del: upt_Suc)
  then have "aimed (lex_step (?i ! ?p) s)"
    using assms(1) lex_step_placed [OF lexer_ok_placed [OF assms(1)] c] by (simp add: lexer_ok_def aimed_placed)
  from skip_splices_ok [OF this] show "lexer_ok (advance_char s)" "lx_pos (advance_char s) = splice_end ?i (?p + 1)" "same_text s (advance_char s)"
    unfolding advance_char_eq [OF c] by (simp_all add: same_text_def)
qed

lemma physical_steps_placed:
  assumes "placed s" "lx_pos s + n \<le> length (lx_input s)"
  shows "placed ((physical_step ^^ n) s) \<and> lx_pos ((physical_step ^^ n) s) = lx_pos s + n \<and> same_text s ((physical_step ^^ n) s)"
  using assms(2)
proof (induction n)
  case (Suc n)
  let ?t = "(physical_step ^^ n) s"
  have t: "placed ?t" "lx_pos ?t = lx_pos s + n" "same_text s ?t" using Suc by auto
  then have c: "vget (lx_input ?t) (lx_pos ?t) = Some (lx_input s ! (lx_pos s + n))" using Suc(2) by (simp add: same_text_def vget_in)
  then have "physical_step ?t = lex_step (lx_input s ! (lx_pos s + n)) ?t" by (simp add: physical_step_def peek_char_def)
  then show ?case using t lex_step_placed [OF t(1) c] by (simp add: same_text_def)
qed (use assms(1) in simp)

lemma advance_physical_ok:
  assumes "placed s" "lx_pos s + n \<le> length (lx_input s)"
  shows "lexer_ok (advance_physical n s) \<and> lx_pos (advance_physical n s) = splice_end (lx_input s) (lx_pos s + n) \<and> same_text s (advance_physical n s)"
  using physical_steps_placed [OF assms] resync_ok [of "(physical_step ^^ n) s"] by (auto simp: advance_physical_def same_text_def)

lemma rewind_back:
  assumes "lexer_ok s" "same_text s t" "lx_splices t = lx_splices s"
  shows "rewind (lx_pos s) (lx_line s) (lx_col s) t = s"
proof -
  have "aimed s" "splice_len (lx_input s) (lx_pos s) = 0" using assms(1) by (auto simp: lexer_ok_def)
  then have "Some (lx_pos s) \<noteq> lx_next_splice s" using aimed_next by fastforce
  then show ?thesis using assms \<open>aimed s\<close>
    by (simp add: rewind_def resync_splices_def aim_next_splice_def same_text_def skip_splices.simps aimed_def)
qed

end
