(* ===== verification/Tokenize.thy ===== *)
theory Tokenize
  imports Lexer
begin

text \<open>
  The readers of the tokenizer (the second part of \<^verbatim>\<open>trace-preproc/src/lexer.rs\<close>): white space and
  comments, identifiers, numbers, literals, punctuators and the token loop. A reader takes the state of the
  lexer and returns the token with the state after it. The loop over tokens is a partial function
  whose value \<open>None\<close> is not returning; that it returns on every input is proved.
\<close>

section \<open>Character classes and punctuators\<close>

abbreviation DQ :: uchar where "DQ \<equiv> 34"

abbreviation SQ :: uchar where "SQ \<equiv> 39"

definition is_ascii_digit :: "uchar \<Rightarrow> bool" where
  "is_ascii_digit c \<longleftrightarrow> ch CHR ''0'' \<le> c \<and> c \<le> ch CHR ''9''"

definition is_ascii_alphabetic :: "uchar \<Rightarrow> bool" where
  "is_ascii_alphabetic c \<longleftrightarrow> ch CHR ''A'' \<le> c \<and> c \<le> ch CHR ''Z'' \<or> ch CHR ''a'' \<le> c \<and> c \<le> ch CHR ''z''"

definition is_ascii_alphanumeric :: "uchar \<Rightarrow> bool" where
  "is_ascii_alphanumeric c \<longleftrightarrow> is_ascii_alphabetic c \<or> is_ascii_digit c"

definition is_ascii_graphic :: "uchar \<Rightarrow> bool" where
  "is_ascii_graphic c \<longleftrightarrow> ch CHR ''!'' \<le> c \<and> c \<le> ch CHR ''~''"

definition is_ident_start :: "uchar \<Rightarrow> bool" where
  "is_ident_start c \<longleftrightarrow> is_ascii_alphabetic c \<or> c = ch CHR ''_''"

definition is_ident_continue :: "uchar \<Rightarrow> bool" where
  "is_ident_continue c \<longleftrightarrow> is_ascii_alphanumeric c \<or> c = ch CHR ''_''"

definition is_d_char :: "uchar \<Rightarrow> bool" where
  "is_d_char c \<longleftrightarrow> is_ascii_graphic c \<and> c \<notin> {ch CHR ''('', ch CHR '')'', BS}"

definition single_char_punct :: "uchar \<Rightarrow> ustring option" where
  "single_char_punct c = (if c \<in> set (str ''+-<>=!&|^~*/%.,;:()[]{}?'') \<or> c = BS then Some [c] else None)"

definition three_char_punct :: "uchar \<Rightarrow> uchar \<Rightarrow> uchar \<Rightarrow> bool \<Rightarrow> ustring option" where
  "three_char_punct a b c cpp =
     (if [a, b, c] = str ''...'' then Some (str ''...'')
      else if [a, b, c] = str ''->*'' \<and> cpp then Some (str ''->*'')
      else None)"

definition two_char_spellings :: "ustring list" where
  "two_char_spellings = map str [''<<'', ''>>'', ''<='', ''>='', ''=='', ''!='', ''&&'', ''||'', ''++'', ''--'', ''+='', ''-='',
     ''*='', ''/='', ''%='', ''&='', ''|='', ''^='', ''->'']"

definition two_char_punct :: "uchar \<Rightarrow> uchar \<Rightarrow> ustring option" where
  "two_char_punct a b = (if [a, b] \<in> set two_char_spellings then Some [a, b] else None)"

fun TokenKind_fmt :: "TokenKind \<Rightarrow> ustring" where
  "TokenKind_fmt (Identifier s) = str ''id('' @ s @ str '')''"
| "TokenKind_fmt (Number s) = str ''num('' @ s @ str '')''"
| "TokenKind_fmt (String s) = str ''str('' @ s @ str '')''"
| "TokenKind_fmt (Char s) = str ''char('' @ s @ str '')''"
| "TokenKind_fmt (Punct s) = s"
| "TokenKind_fmt Hash = str ''#''"
| "TokenKind_fmt Newline = [BS] @ str ''n''"
| "TokenKind_fmt Eof = str ''EOF''"

section \<open>Progress\<close>

lemma skip_splices_mono: "lx_pos s \<le> lx_pos (skip_splices s) \<and> lx_input (skip_splices s) = lx_input s"
proof (induction s rule: skip_splices.induct)
  case (1 s)
  have "lx_pos s \<le> lx_pos (skip_one s)" "lx_input (skip_one s) = lx_input s" by (simp_all add: skip_one_def aim_next_splice_def)
  then show ?case using 1 by (cases "Some (lx_pos s) = lx_next_splice s") (auto simp: skip_splices.simps [of s])
qed

lemma advance_char_input [simp]: "lx_input (advance_char s) = lx_input s"
  using skip_splices_mono by (auto simp: advance_char_def Let_def split: option.splits)

lemma advance_char_less: "\<not> is_at_end s \<Longrightarrow> lx_pos s < lx_pos (advance_char s)"
  using skip_splices_mono [of "lex_step (lx_input s ! lx_pos s) s"]
  by (auto simp: is_at_end_def advance_char_eq vget_in)

lemma advance_char_le: "lx_pos s \<le> lx_pos (advance_char s)"
  using advance_char_less [of s] by (cases "is_at_end s") (auto simp: is_at_end_def advance_char_def vget_def)

text \<open>What is left to read, the measure of every loop.\<close>

definition remaining :: "Lexer \<Rightarrow> nat" where
  "remaining s = length (lx_input s) - lx_pos s"

lemma remaining_less: "\<not> is_at_end s \<Longrightarrow> remaining (advance_char s) < remaining s"
  using advance_char_less [of s] by (simp add: remaining_def is_at_end_def)

lemma remaining_le: "remaining (advance_char s) \<le> remaining s"
  using advance_char_le [of s] by (simp add: remaining_def)

section \<open>White space and comments\<close>

function skip_line :: "Lexer \<Rightarrow> Lexer" where
  "skip_line s = (if \<not> is_at_end s \<and> peek_char s \<noteq> NL then skip_line (advance_char s) else s)"
  by pat_completeness auto
termination
  by (relation "measure remaining") (simp_all add: remaining_less)

function skip_block :: "Lexer \<Rightarrow> Lexer" where
  "skip_block s =
     (if is_at_end s then s
      else if peek_char s = ch CHR ''*'' \<and> peek_char_at 1 s = ch CHR ''/'' then advance_char (advance_char s)
      else skip_block (advance_char s))"
  by pat_completeness auto
termination
  by (relation "measure remaining") (simp_all add: remaining_less)

declare skip_line.simps [simp del] skip_block.simps [simp del]

lemma skip_line_le: "remaining (skip_line s) \<le> remaining s"
proof (induction s rule: skip_line.induct)
  case (1 s)
  then show ?case using remaining_le [of s] by (subst skip_line.simps) auto
qed

lemma skip_block_le: "remaining (skip_block s) \<le> remaining s"
proof (induction s rule: skip_block.induct)
  case (1 s)
  then show ?case using remaining_le [of s] remaining_le [of "advance_char s"] by (subst skip_block.simps) auto
qed

function skip_whitespace_and_comments :: "Lexer \<Rightarrow> Lexer" where
  "skip_whitespace_and_comments s =
     (if is_at_end s then s
      else if peek_char s \<in> {ch CHR '' '', 9, CR} then skip_whitespace_and_comments (advance_char s)
      else if peek_char s = ch CHR ''/'' \<and> peek_char_at 1 s = ch CHR ''/'' then skip_whitespace_and_comments (skip_line s)
      else if peek_char s = ch CHR ''/'' \<and> peek_char_at 1 s = ch CHR ''*''
        then skip_whitespace_and_comments (skip_block (advance_char (advance_char s)))
      else s)"
  by pat_completeness auto
termination
proof (relation "measure remaining", goal_cases)
  case (3 s)
  then have "skip_line s = skip_line (advance_char s)" by (subst skip_line.simps) simp
  then show ?case using 3 skip_line_le [of "advance_char s"] remaining_less [of s] by simp
next
  case (4 s)
  then show ?case using skip_block_le [of "advance_char (advance_char s)"] remaining_le [of "advance_char s"] remaining_less [of s] by simp
qed (simp_all add: remaining_less)

declare skip_whitespace_and_comments.simps [simp del]

section \<open>Identifiers and numbers\<close>

text \<open>The loop that pushes and consumes while a class of characters lasts.\<close>

function collect_while :: "(uchar \<Rightarrow> bool) \<Rightarrow> Lexer \<Rightarrow> ustring \<times> Lexer" where
  "collect_while P s =
     (if \<not> is_at_end s \<and> P (peek_char s)
      then (let (cs, s') = collect_while P (advance_char s) in (peek_char s # cs, s'))
      else ([], s))"
  by pat_completeness auto
termination
  by (relation "measure (\<lambda>(P, s). remaining s)") (simp_all add: remaining_less)

declare collect_while.simps [simp del]

definition read_identifier :: "nat \<Rightarrow> nat \<Rightarrow> Lexer \<Rightarrow> Token \<times> Lexer" where
  "read_identifier line col s = (let (cs, s') = collect_while is_ident_continue s in (Token_new (Identifier cs) line col, s'))"

definition is_number_char :: "uchar \<Rightarrow> bool" where
  "is_number_char c \<longleftrightarrow> is_ascii_alphanumeric c \<or> c \<in> set (str ''_.xXuUlL'')"

function number_chars :: "Lexer \<Rightarrow> ustring \<times> Lexer" where
  "number_chars s =
     (if is_at_end s then ([], s)
      else if is_number_char (peek_char s)
        then (let (cs, s') = number_chars (advance_char s) in (peek_char s # cs, s'))
      else if peek_char s = SQ \<and> is_ascii_alphanumeric (peek_char_at 1 s) then number_chars (advance_char s)
      else ([], s))"
  by pat_completeness auto
termination
  by (relation "measure remaining") (simp_all add: remaining_less)

declare number_chars.simps [simp del]

definition read_number :: "nat \<Rightarrow> nat \<Rightarrow> Lexer \<Rightarrow> Token \<times> Lexer" where
  "read_number line col s = (let (cs, s') = number_chars s in (Token_new (Number cs) line col, s'))"

section \<open>Literals\<close>

text \<open>The loops of \<open>read_string\<close> and \<open>read_char\<close> from after the opening quote.\<close>

definition skip_escape :: "Lexer \<Rightarrow> Lexer" where
  "skip_escape s = (let s1 = advance_char s in if \<not> is_at_end s1 then advance_char s1 else s1)"

lemma skip_escape_less: "\<not> is_at_end s \<Longrightarrow> remaining (skip_escape s) < remaining s"
  using remaining_less [of s] remaining_le [of "advance_char s"] by (simp add: skip_escape_def Let_def)

function string_body :: "Lexer \<Rightarrow> Lexer" where
  "string_body s =
     (if \<not> is_at_end s \<and> peek_char s \<noteq> DQ
      then (if peek_char s = BS then string_body (skip_escape s)
            else if peek_char s = NL then s
            else string_body (advance_char s))
      else s)"
  by pat_completeness auto
termination
  by (relation "measure remaining") (simp_all add: remaining_less skip_escape_less)

function char_body :: "Lexer \<Rightarrow> Lexer" where
  "char_body s =
     (if \<not> is_at_end s \<and> peek_char s \<noteq> SQ
      then (if peek_char s = BS then char_body (skip_escape s) else char_body (advance_char s))
      else s)"
  by pat_completeness auto
termination
  by (relation "measure remaining") (simp_all add: remaining_less skip_escape_less)

declare string_body.simps [simp del] char_body.simps [simp del]

text \<open>The text between two positions, as written.\<close>

definition slice :: "ustring \<Rightarrow> nat \<Rightarrow> nat \<Rightarrow> ustring" where
  "slice input a b = take (b - a) (drop a input)"

definition close_literal :: "nat \<Rightarrow> uchar \<Rightarrow> Lexer \<Rightarrow> ustring \<times> Lexer" where
  "close_literal start quote s =
     (let closed = (\<not> is_at_end s \<and> peek_char s = quote);
          s1 = (if closed then advance_char s else s);
          spelling = strip_splices (slice (lx_input s1) start (lx_pos s1))
      in (if closed then spelling else spelling @ [quote], s1))"

definition read_ud_suffix :: "ustring \<Rightarrow> Lexer \<Rightarrow> ustring \<times> Lexer" where
  "read_ud_suffix spelling s =
     (if \<not> is_cpp s \<or> is_at_end s \<or> \<not> is_ident_start (peek_char s) then (spelling, s)
      else (let (cs, s') = collect_while is_ident_continue s in (spelling @ cs, s')))"

definition read_string :: "nat \<Rightarrow> nat \<Rightarrow> nat \<Rightarrow> Lexer \<Rightarrow> Token \<times> Lexer" where
  "read_string start line col s =
     (let (spelling1, s1) = close_literal start DQ (string_body (advance_char s));
          (spelling2, s2) = read_ud_suffix spelling1 s1
      in (Token_new (String spelling2) line col, s2))"

definition read_char :: "nat \<Rightarrow> nat \<Rightarrow> nat \<Rightarrow> Lexer \<Rightarrow> Token \<times> Lexer" where
  "read_char start line col s =
     (let (spelling1, s1) = close_literal start SQ (char_body (advance_char s));
          (spelling2, s2) = read_ud_suffix spelling1 s1
      in (Token_new (Char spelling2) line col, s2))"

text \<open>The index of the first occurrence of a text (\<open>str::find\<close>).\<close>

fun find_str :: "ustring \<Rightarrow> ustring \<Rightarrow> nat option" where
  "find_str pat [] = (if pat = [] then Some 0 else None)"
| "find_str pat (x # xs) = (if prefix pat (x # xs) then Some 0 else map_option Suc (find_str pat xs))"

definition MAX_DELIM :: nat where
  "MAX_DELIM = 16"

text \<open>The length of the delimiter of a raw string, from the text after its quote.\<close>

definition raw_delim :: "ustring \<Rightarrow> nat option" where
  "raw_delim after_quote =
     (case position (\<lambda>b. b = ch CHR ''('') (take (MAX_DELIM + 1) after_quote) of
        None \<Rightarrow> None
      | Some n \<Rightarrow> if list_all is_d_char (take n after_quote) then Some n else None)"

definition read_raw_string :: "nat \<Rightarrow> nat \<Rightarrow> nat \<Rightarrow> Lexer \<Rightarrow> Token option \<times> Lexer" where
  "read_raw_string enc line col s =
     (let prefix_end = lx_pos s;
          prefix_text = lookahead_string (enc + 1) s;
          s1 = (advance_char ^^ (enc + 1)) s;
          rest = drop (lx_pos s1) (lx_input s1);
          after_quote = drop 1 rest
      in case raw_delim after_quote of
           None \<Rightarrow> (None, rewind prefix_end line col s1)
         | Some delim_len \<Rightarrow>
             (let delim = take delim_len after_quote;
                  body_start = 1 + delim_len + 1;
                  closer = str '')'' @ delim @ [DQ]
              in case find_str closer (drop body_start rest) of
                   None \<Rightarrow> (None, rewind prefix_end line col s1)
                 | Some body_len \<Rightarrow>
                     (let total = body_start + body_len + length closer;
                          s2 = advance_physical total s1;
                          (spelling, s3) = read_ud_suffix (prefix_text @ take total rest) s2
                      in (Some (Token_new (String spelling) line col), s3))))"

definition enc_len :: "uchar list \<Rightarrow> nat" where
  "enc_len ahead =
     (if ahead ! 0 = ch CHR ''u'' \<and> ahead ! 1 = ch CHR ''8'' then 2
      else if ahead ! 0 \<in> {ch CHR ''u'', ch CHR ''U'', ch CHR ''L''} then 1
      else 0)"

definition read_prefixed_literal :: "nat \<Rightarrow> nat \<Rightarrow> Lexer \<Rightarrow> Token option \<times> Lexer" where
  "read_prefixed_literal line col s =
     (let ahead = lookahead 4 s;
          enc = enc_len ahead;
          (raw, s1) = (if is_cpp s \<and> ahead ! enc = ch CHR ''R'' \<and> ahead ! (enc + 1) = DQ
                       then read_raw_string enc line col s else (None, s))
      in case raw of
           Some tok \<Rightarrow> (Some tok, s1)
         | None \<Rightarrow>
             if enc = 0 then (None, s1)
             else (let quote = ahead ! enc
                   in if quote \<noteq> DQ \<and> quote \<noteq> SQ then (None, s1)
                      else (let start = lx_pos s1;
                                s2 = (advance_char ^^ enc) s1;
                                (tok, s3) = (if quote = DQ then read_string start line col s2 else read_char start line col s2)
                            in (Some tok, s3))))"

section \<open>The token loop\<close>

definition read_punct :: "uchar \<Rightarrow> ustring \<Rightarrow> nat \<Rightarrow> nat \<Rightarrow> Lexer \<Rightarrow> Token \<times> Lexer" where
  "read_punct c one line col s =
     (let s1 = advance_char s;
          nxt = peek_char s1;
          three = (if c \<in> {ch CHR ''.'', ch CHR ''-''} then three_char_punct c nxt (peek_char_at 1 s1) (is_cpp s1) else None);
          spelling = (case three of Some p \<Rightarrow> p | None \<Rightarrow> (case two_char_punct c nxt of Some p \<Rightarrow> p | None \<Rightarrow> one))
      in (Token_new (Punct spelling) line col, (advance_char ^^ (length spelling - 1)) s1))"

definition some_token :: "Token \<times> Lexer \<Rightarrow> Token option \<times> Lexer" where
  "some_token r = (Some (fst r), snd r)"

definition lex_token :: "nat \<Rightarrow> nat \<Rightarrow> Lexer \<Rightarrow> Token option \<times> Lexer" where
  "lex_token line col s =
     (if is_at_end s then (Some (Token_new Eof line col), s)
      else
        (let c = peek_char s
         in if c = NL then (Some (Token_new Newline line col), advance_char s)
            else if c = ch CHR ''#'' then
              (if peek_char_at 1 s = ch CHR ''#'' then (Some (Token_new (Punct (str ''##'')) line col), advance_char (advance_char s))
               else (Some (Token_new Hash line col), advance_char s))
            else if c = DQ then some_token (read_string (lx_pos s) line col s)
            else if c = SQ then some_token (read_char (lx_pos s) line col s)
            else if is_ascii_digit c then some_token (read_number line col s)
            else if is_ident_start c then
              (let (tok, s1) = (if c \<in> set (str ''RuUL'') then read_prefixed_literal line col s else (None, s))
               in case tok of Some t \<Rightarrow> (Some t, s1) | None \<Rightarrow> some_token (read_identifier line col s1))
            else (case single_char_punct c of
                    Some one \<Rightarrow> some_token (read_punct c one line col s)
                  | None \<Rightarrow> (None, s))))"

partial_function (option) next_token_loop :: "nat \<Rightarrow> Lexer \<Rightarrow> (Token \<times> Lexer) option" where
  "next_token_loop end_of_prev s0 =
     (let s = skip_whitespace_and_comments s0;
          adjacent = (lx_pos s = end_of_prev \<and> \<not> lx_after_newline s);
          (tok, s1) = lex_token (lx_line s) (lx_col s) s
      in case tok of
           None \<Rightarrow> next_token_loop end_of_prev (advance_char s1)
         | Some t \<Rightarrow> Some (t\<lparr>tok_adjacent_before := adjacent\<rparr>, s1\<lparr>lx_after_newline := is_newline t\<rparr>))"

definition next_token :: "Lexer \<Rightarrow> (Token \<times> Lexer) option" where
  "next_token s = next_token_loop (lx_pos s) s"

partial_function (option) tokenize :: "Lexer \<Rightarrow> Token list option" where
  "tokenize s =
     do {
       (tok, s1) \<leftarrow> next_token s;
       if is_eof tok then Some [tok]
       else do { toks \<leftarrow> tokenize s1; Some (tok # toks) }
     }"

declare next_token_loop.simps [code] tokenize.simps [code]

end
