(* ===== verification/Lexer_View.thy ===== *)
theory Lexer_View
  imports Tokenize
begin

text \<open>
  The readers of the tokenizer against the spliced text. \<open>reads s w s'\<close> says that consuming the characters
  \<open>w\<close> one by one takes the lexer from \<open>s\<close> to \<open>s'\<close>; every loop of a reader is such a run, and
  what it collects is a list function of the characters ahead.
\<close>

section \<open>Runs\<close>

inductive reads :: "Lexer \<Rightarrow> ustring \<Rightarrow> Lexer \<Rightarrow> bool" where
  stop: "reads s [] s"
| more: "\<not> is_at_end s \<Longrightarrow> reads (advance_char s) w s' \<Longrightarrow> reads s (peek_char s # w) s'"

inductive_simps reads_Nil: "reads s [] s'"

inductive_cases reads_ConsE: "reads s (c # w) s'"

lemma reads_append: "reads s w t \<Longrightarrow> reads t v u \<Longrightarrow> reads s (w @ v) u"
  by (induction rule: reads.induct) (auto intro: reads.more)

lemma reads_one: "\<not> is_at_end s \<Longrightarrow> reads s [peek_char s] (advance_char s)"
  by (intro reads.more reads.stop)

lemma reads_snoc: "reads s w t \<Longrightarrow> \<not> is_at_end t \<Longrightarrow> reads s (w @ [peek_char t]) (advance_char t)"
  using reads_append reads_one by blast

lemma spliced_chars_end: "is_at_end s \<Longrightarrow> spliced_chars s = []"
  by (simp add: spliced_chars_def is_at_end_def spliced_from.simps vget_def)

lemma spliced_chars_empty: "spliced_chars s = [] \<longleftrightarrow> is_at_end s"
  by (simp add: spliced_chars_def is_at_end_def spliced_from.simps [of "lx_input s"] vget_def)

lemma spliced_chars_more:
  assumes "lexer_ok s" "\<not> is_at_end s"
  shows "spliced_chars s = peek_char s # spliced_chars (advance_char s)"
proof -
  have c: "vget (lx_input s) (lx_pos s) = Some (peek_char s)" using assms(2) by (simp add: is_at_end_def peek_char_def vget_def)
  show ?thesis using advance_char_ok [OF assms] c
    by (simp add: spliced_chars_def same_text_def spliced_from.simps [of "lx_input s" "lx_pos s"])
qed

text \<open>A run keeps the invariant and eats a prefix of the spliced text.\<close>

lemma reads_ok:
  assumes "reads s w s'" "lexer_ok s"
  shows "lexer_ok s'" "same_text s s'" "spliced_chars s = w @ spliced_chars s'" "lx_pos s \<le> lx_pos s'" "lx_pos s = lx_pos s' \<longleftrightarrow> w = []"
proof -
  have "lexer_ok s' \<and> same_text s s' \<and> spliced_chars s = w @ spliced_chars s' \<and> lx_pos s \<le> lx_pos s' \<and> (lx_pos s = lx_pos s' \<longleftrightarrow> w = [])"
    using assms
  proof (induction rule: reads.induct)
    case (more s w s')
    note A = advance_char_ok [OF more.prems more.hyps(1)]
    have IH: "lexer_ok s'" "same_text (advance_char s) s'" "spliced_chars (advance_char s) = w @ spliced_chars s'" "lx_pos (advance_char s) \<le> lx_pos s'"
      using more.IH [OF A(1)] by auto
    have "lx_pos s < lx_pos s'" using IH(4) advance_char_less [OF more.hyps(1)] by simp
    then show ?case using IH same_text_trans [OF A(3) IH(2)] spliced_chars_more [OF more.prems more.hyps(1)] by simp
  qed simp
  then show "lexer_ok s'" "same_text s s'" "spliced_chars s = w @ spliced_chars s'" "lx_pos s \<le> lx_pos s'" "lx_pos s = lx_pos s' \<longleftrightarrow> w = []"
    by auto
qed

lemma peek_char_hd: "lexer_ok s \<Longrightarrow> \<not> is_at_end s \<Longrightarrow> spliced_chars s = peek_char s # tl (spliced_chars s)"
  using spliced_chars_more by force

text \<open>A state with the same text at the same place is the same state.\<close>

lemma lexer_ok_unique:
  assumes "lexer_ok s" "lexer_ok t" "same_text s t" "lx_pos s = lx_pos t"
  shows "s = t"
  using assms by (intro Lexer.equality) (auto simp: lexer_ok_def aimed_def same_text_def)

section \<open>The spliced text as written\<close>

lemma vget_drop: "vget (drop p xs) q = vget xs (p + q)"
  by (auto simp: vget_def)

lemma vget_take: "vget (take n xs) q = (if q < n then vget xs q else None)"
  by (simp add: vget_def)

lemma takeWhile_take: "takeWhile P (take n xs) = take n (takeWhile P xs)"
  by (induction xs arbitrary: n) (auto simp: take_Cons split: nat.splits)

lemma splice_len_drop: "splice_len (drop p t) q = splice_len t (p + q)"
proof -
  have "p + hspace_end (drop p t) (q + 1) = hspace_end t (p + q + 1)" by (simp add: hspace_end_def add.commute add.left_commute)
  then have h: "hspace_end t (p + q + 1) = p + hspace_end (drop p t) (q + 1)" by simp
  show ?thesis unfolding splice_len_def Let_def vget_drop h by (simp add: add.assoc [symmetric])
qed

text \<open>A splice cut off by the end of the text is none.\<close>

lemma splice_len_take: "splice_len (take n t) p = (if p + splice_len t p \<le> n then splice_len t p else 0)"
proof (cases "vget t p = Some BS \<and> p < n")
  case True
  define h where "h = hspace_end t (p + 1)"
  define j where "j = (if vget t h = Some CR then h + 1 else h)"
  have h: "p + 1 \<le> h" "h \<le> j" by (auto simp: h_def j_def hspace_end_def)
  have h': "hspace_end (take n t) (p + 1) = min h n"
    using True by (simp add: h_def hspace_end_def drop_take takeWhile_take min_def) arith
  have full: "splice_len t p = (if vget t j = Some NL then j + 1 - p else 0)"
    using True by (simp add: splice_len_def Let_def h_def j_def)
  show ?thesis
  proof (cases "h < n")
    case True': True
    then have "splice_len (take n t) p = (if j < n \<and> vget t j = Some NL then j + 1 - p else 0)"
      using True h' by (simp add: splice_len_def Let_def vget_take j_def min_def)
    then show ?thesis using full h by auto
  next
    case False
    then have "splice_len (take n t) p = 0" using True h' by (simp add: splice_len_def Let_def vget_take min_def)
    then show ?thesis using full h False by auto
  qed
next
  case False
  then show ?thesis by (auto simp: splice_len_def vget_take)
qed

text \<open>The byte search of \<open>strip_splices\<close> as a scan.\<close>

lemma strip_splices_Nil [simp]: "strip_splices [] = []"
  by (simp add: strip_splices.simps)

lemma splice_len_Suc: "splice_len (c # r) (Suc i) = splice_len r i"
  using splice_len_drop [of 1 "c # r" i] by simp

lemma strip_splices_Cons:
  "strip_splices (c # r) = (if 0 < splice_len (c # r) 0 then strip_splices (drop (splice_len (c # r) 0) (c # r)) else c # strip_splices r)"
proof (cases "c = BS")
  case True
  then show ?thesis by (subst strip_splices.simps) (simp add: Let_def)
next
  case False
  then have "splice_len (c # r) 0 = 0" by (simp add: splice_len_def vget_def)
  then show ?thesis using False
    by (subst (1 2) strip_splices.simps) (simp add: Let_def splice_len_Suc split: option.splits)
qed

lemma slice_Cons: "p < e \<Longrightarrow> e \<le> length input \<Longrightarrow> slice input p e = input ! p # slice input (p + 1) e"
  by (simp add: slice_def Cons_nth_drop_Suc [symmetric] take_Cons' Suc_diff_Suc)

lemma slice_drop: "drop k (slice input p e) = slice input (p + k) e"
  by (simp add: slice_def drop_take add.commute)

lemma splice_len_slice: "splice_len (slice input p e) 0 = (if splice_len input p \<le> e - p then splice_len input p else 0)"
  by (simp add: slice_def splice_len_take splice_len_drop)

lemma strip_slice_end:
  "splice_end input p \<le> e \<Longrightarrow> e \<le> length input \<Longrightarrow> strip_splices (slice input p e) = strip_splices (slice input (splice_end input p) e)"
proof (induction input p rule: splice_end.induct)
  case (1 input p)
  show ?case
  proof (cases "splice_len input p = 0")
    case False
    let ?k = "splice_len input p"
    have E: "splice_end input p = splice_end input (p + ?k)" using False splice_end_step by simp
    have k: "p + ?k \<le> e" using 1(2) E splice_end_ge [of "p + ?k" input] by simp
    then have "splice_len (slice input p e) 0 = ?k" by (simp add: splice_len_slice)
    then have "strip_splices (slice input p e) = strip_splices (drop ?k (slice input p e))"
      using False k 1(3) slice_Cons [of p e input] strip_splices_Cons [of "input ! p" "slice input (p + 1) e"] by simp
    then show ?thesis using 1(1) [OF refl False] 1(2,3) E by (simp add: slice_drop)
  qed (simp add: splice_end_done)
qed

text \<open>What \<open>close_literal\<close> cuts out of the text is what the reader consumed.\<close>

lemma strip_slice_reads:
  assumes "reads s w s'" "lexer_ok s"
  shows "strip_splices (slice (lx_input s) (lx_pos s) (lx_pos s')) = w"
  using assms
proof (induction rule: reads.induct)
  case (stop s)
  then show ?case by (simp add: slice_def)
next
  case (more s w s')
  let ?i = "lx_input s" and ?p = "lx_pos s" and ?e = "lx_pos s'"
  note A = advance_char_ok [OF more.prems more.hyps(1)]
  note R = reads_ok [OF more.hyps(2) A(1)]
  have c: "?p < length ?i" "?i ! ?p = peek_char s" using more.hyps(1) by (auto simp: is_at_end_def peek_char_def vget_def)
  have e: "?e \<le> length ?i" using R(1,2) by (simp add: lexer_ok_def aimed_def same_text_def)
  have le: "splice_end ?i (?p + 1) \<le> ?e" using R(4) A(2) by simp
  then have lt: "?p < ?e" using splice_end_ge [of "?p + 1" ?i] by simp
  have "splice_len (slice ?i ?p ?e) 0 = 0" using more.prems by (simp add: splice_len_slice lexer_ok_def)
  then have "strip_splices (slice ?i ?p ?e) = peek_char s # strip_splices (slice ?i (?p + 1) ?e)"
    using slice_Cons [OF lt e] c(2) strip_splices_Cons [of "peek_char s" "slice ?i (?p + 1) ?e"] by simp
  then show ?case using strip_slice_end [OF le e] more.IH [OF A(1)] A(2) by simp
qed

end
