(* ===== verification/Lexer_Spec.thy ===== *)
theory Lexer_Spec
  imports Lexer_View
begin

text \<open>
  The tokens of a text as a relation on the list of its characters, without positions, splices or look-ahead
  state, and the proof that the tokenizer implements it. Raw strings are the one shape that is not a
  function of the spliced text; the theorem is for C, and for C++ texts without the characters that open one.
\<close>

section \<open>The tokens of a list of characters\<close>

fun block_rest :: "ustring \<Rightarrow> ustring" where
  "block_rest [] = []"
| "block_rest (c # r) = (if prefix (str ''*/'') (c # r) then tl r else block_rest r)"

lemma block_rest_length: "length (block_rest v) \<le> length v"
  by (induction v) auto

function blank_rest :: "ustring \<Rightarrow> ustring" where
  "blank_rest v =
     (if v = [] then []
      else if hd v \<in> {ch CHR '' '', 9, CR} then blank_rest (tl v)
      else if prefix (str ''//'') v then blank_rest (dropWhile (\<lambda>c. c \<noteq> NL) (drop 2 v))
      else if prefix (str ''/*'') v then blank_rest (block_rest (drop 2 v))
      else v)"
  by pat_completeness auto
termination
proof (relation "measure length", goal_cases)
  case (3 v)
  then show ?case using length_dropWhile_le [of "\<lambda>c. c \<noteq> NL" "drop 2 v"] by (cases v) (auto simp del: length_dropWhile_le)
next
  case (4 v)
  then show ?case using block_rest_length [of "drop 2 v"] by (cases v) auto
qed auto

declare blank_rest.simps [simp del]

fun number_split :: "ustring \<Rightarrow> ustring \<times> ustring" where
  "number_split [] = ([], [])"
| "number_split (c # r) =
     (if is_number_char c then (let (w, x) = number_split r in (c # w, x))
      else if c = SQ \<and> r \<noteq> [] \<and> is_ascii_alphanumeric (hd r) then number_split r
      else ([], c # r))"

lemma number_split_length: "length (snd (number_split v)) \<le> length v"
  by (induction v) (auto simp: split_beta)

text \<open>The body of a literal up to its quote, or to the end of the line where the literal ends there.\<close>

fun body_split :: "uchar \<Rightarrow> bool \<Rightarrow> ustring \<Rightarrow> ustring \<times> ustring" where
  "body_split q nl [] = ([], [])"
| "body_split q nl [c] = (if c = q \<or> nl \<and> c = NL then ([], [c]) else ([c], []))"
| "body_split q nl (c # d # r) =
     (if c = q \<or> nl \<and> c = NL then ([], c # d # r)
      else if c = BS then (let (w, x) = body_split q nl r in (c # d # w, x))
      else (let (w, x) = body_split q nl (d # r) in (c # w, x)))"

definition ident_split :: "ustring \<Rightarrow> ustring \<times> ustring" where
  "ident_split v = (takeWhile is_ident_continue v, dropWhile is_ident_continue v)"

definition suffix_split :: "bool \<Rightarrow> ustring \<Rightarrow> ustring \<times> ustring" where
  "suffix_split cpp v = (if cpp \<and> v \<noteq> [] \<and> is_ident_start (hd v) then ident_split v else ([], v))"

definition literal_split :: "bool \<Rightarrow> ustring \<Rightarrow> uchar \<Rightarrow> bool \<Rightarrow> ustring \<Rightarrow> ustring \<times> ustring" where
  "literal_split cpp pre q nl v =
     (let (w, x) = body_split q nl (drop (length pre + 1) v);
          (suf, y) = suffix_split cpp (if x \<noteq> [] \<and> hd x = q then tl x else x)
      in (pre @ [q] @ w @ [q] @ suf, y))"

definition quoted :: "bool \<Rightarrow> ustring \<Rightarrow> uchar \<Rightarrow> ustring \<Rightarrow> TokenKind \<times> ustring" where
  "quoted cpp pre q v =
     (if q = DQ then map_prod String id (literal_split cpp pre DQ True v)
      else map_prod Char id (literal_split cpp pre SQ False v))"

definition encoding :: "ustring \<Rightarrow> nat" where
  "encoding v =
     (if prefix (str ''u8'') v then 2 else if v \<noteq> [] \<and> hd v \<in> set (str ''uUL'') then 1 else 0)"

text \<open>The longest punctuator of the tables that starts a text.\<close>

definition punct_len :: "bool \<Rightarrow> ustring \<Rightarrow> nat" where
  "punct_len cpp v =
     (if take 3 v = str ''...'' \<or> cpp \<and> take 3 v = str ''->*'' then 3
      else if take 2 v \<in> set two_char_spellings then 2 else 1)"

definition token_split :: "bool \<Rightarrow> ustring \<Rightarrow> (TokenKind \<times> ustring) option" where
  "token_split cpp v =
     (if v = [] then Some (Eof, [])
      else if hd v = NL then Some (Newline, tl v)
      else if prefix (str ''##'') v then Some (Punct (str ''##''), drop 2 v)
      else if hd v = ch CHR ''#'' then Some (Hash, tl v)
      else if hd v = DQ \<or> hd v = SQ then Some (quoted cpp [] (hd v) v)
      else if is_ascii_digit (hd v) then Some (map_prod Number id (number_split v))
      else if is_ident_start (hd v) then
        (let enc = encoding v
         in if 0 < enc \<and> enc < length v \<and> v ! enc \<in> {DQ, SQ} then Some (quoted cpp (take enc v) (v ! enc) v)
            else Some (map_prod Identifier id (ident_split v)))
      else if single_char_punct (hd v) \<noteq> None then Some (Punct (take (punct_len cpp v) v), drop (punct_len cpp v) v)
      else None)"

text \<open>\<open>scan cpp nl n v ts\<close>: with \<open>n\<close> characters left at the end of the previous token, a
  newline if \<open>nl\<close>, the rest \<open>v\<close> has the kinds \<open>ts\<close>, each with whether it touches
  its predecessor.\<close>

inductive scan :: "bool \<Rightarrow> bool \<Rightarrow> nat \<Rightarrow> ustring \<Rightarrow> (TokenKind \<times> bool) list \<Rightarrow> bool" where
  skip: "token_split cpp (blank_rest v) = None \<Longrightarrow> scan cpp nl n (tl (blank_rest v)) ts \<Longrightarrow> scan cpp nl n v ts"
| eof: "token_split cpp (blank_rest v) = Some (Eof, x) \<Longrightarrow> scan cpp nl n v [(Eof, length (blank_rest v) = n \<and> \<not> nl)]"
| token: "token_split cpp (blank_rest v) = Some (k, x) \<Longrightarrow> k \<noteq> Eof \<Longrightarrow> scan cpp (k = Newline) (length x) x ts \<Longrightarrow>
    scan cpp nl n v ((k, length (blank_rest v) = n \<and> \<not> nl) # ts)"

definition raw_free :: "bool \<Rightarrow> ustring \<Rightarrow> bool" where
  "raw_free cpp v \<longleftrightarrow> \<not> cpp \<or> \<not> sublist [ch CHR ''R'', DQ] v"

section \<open>The loops\<close>

lemma at_end_split:
  assumes "lexer_ok s"
  obtains "is_at_end s" "spliced_chars s = []"
  | r where "\<not> is_at_end s" "spliced_chars s = peek_char s # r" "spliced_chars (advance_char s) = r" "lexer_ok (advance_char s)"
      "reads s [peek_char s] (advance_char s)"
  using assms spliced_chars_more [OF assms] advance_char_ok [OF assms] reads_one spliced_chars_empty by metis

lemma prefix_one: "prefix [b] v \<longleftrightarrow> v \<noteq> [] \<and> hd v = b"
  by (cases v) auto

lemma prefix_two: "prefix [a, b] v \<longleftrightarrow> (\<exists>r. v = a # r \<and> r \<noteq> [] \<and> hd r = b)"
  by (cases v; cases "tl v") (auto simp: prefix_Cons)

lemma peek_char_at_1: "spliced_chars s = c # r \<Longrightarrow> peek_char_at 1 s = (if r = [] then 0 else hd r)"
  by (cases r) (auto simp: peek_char_at_def vget_def)

lemma advance_many:
  assumes "lexer_ok s" "n \<le> length (spliced_chars s)"
  shows "reads s (take n (spliced_chars s)) ((advance_char ^^ n) s)" "spliced_chars ((advance_char ^^ n) s) = drop n (spliced_chars s)"
    "lexer_ok ((advance_char ^^ n) s)"
proof -
  have "reads s (take n (spliced_chars s)) ((advance_char ^^ n) s) \<and> spliced_chars ((advance_char ^^ n) s) = drop n (spliced_chars s)"
    using assms(2)
  proof (induction n)
    case (Suc n)
    let ?t = "(advance_char ^^ n) s"
    have t: "reads s (take n (spliced_chars s)) ?t" "spliced_chars ?t = drop n (spliced_chars s)" using Suc by auto
    have ok: "lexer_ok ?t" using reads_ok(1) [OF t(1) assms(1)] .
    have e: "\<not> is_at_end ?t" using t(2) Suc(2) by (simp add: spliced_chars_empty [symmetric])
    have "drop n (spliced_chars s) = peek_char ?t # spliced_chars (advance_char ?t)" using spliced_chars_more [OF ok e] t(2) by simp
    then have "spliced_chars s ! n = peek_char ?t" "spliced_chars (advance_char ?t) = drop (Suc n) (spliced_chars s)"
      using Suc(2) by (metis Cons_nth_drop_Suc Suc_le_eq list.inject)+
    then show ?case using reads_snoc [OF t(1) e] Suc(2) by (simp add: take_Suc_conv_app_nth)
  qed (simp add: reads.stop)
  then show "reads s (take n (spliced_chars s)) ((advance_char ^^ n) s)" "spliced_chars ((advance_char ^^ n) s) = drop n (spliced_chars s)"
    "lexer_ok ((advance_char ^^ n) s)" using reads_ok(1) assms(1) by auto
qed

lemmas advance_two = advance_many [where n = 2, simplified numeral_2_eq_2 funpow.simps o_apply id_apply]

lemma skip_line_view:
  "lexer_ok s \<Longrightarrow> \<exists>w. reads s w (skip_line s) \<and> spliced_chars (skip_line s) = dropWhile (\<lambda>c. c \<noteq> NL) (spliced_chars s)"
proof (induction s rule: skip_line.induct)
  case (1 s)
  show ?case
  proof (cases rule: at_end_split [OF 1(2)])
    case 1
    then show ?thesis by (subst (1 2) skip_line.simps) (auto intro: reads.stop)
  next
    case (2 r)
    show ?thesis
    proof (cases "peek_char s = NL")
      case True
      then show ?thesis using 2 by (subst (1 2) skip_line.simps) (auto intro: reads.stop)
    next
      case False
      then show ?thesis using 2 1 by (subst (1 2) skip_line.simps) (auto intro: reads.more)
    qed
  qed
qed

lemma skip_block_view:
  "lexer_ok s \<Longrightarrow> \<exists>w. reads s w (skip_block s) \<and> spliced_chars (skip_block s) = block_rest (spliced_chars s)"
proof (induction s rule: skip_block.induct)
  case (1 s)
  show ?case
  proof (cases rule: at_end_split [OF 1(2)])
    case 1
    then show ?thesis by (subst (1 2) skip_block.simps) (auto intro: reads.stop)
  next
    case (2 r)
    note P = peek_char_at_1 [OF 2(2)]
    show ?thesis
    proof (cases "prefix (str ''*/'') (peek_char s # r)")
      case True
      then have r: "peek_char s = ch CHR ''*''" "peek_char_at 1 s = ch CHR ''/''" "r \<noteq> []" using P by (auto simp: str_def prefix_one)
      then have "\<not> is_at_end (advance_char s)" using 2(3) by (simp add: spliced_chars_empty [symmetric])
      then have "reads s [peek_char s, peek_char (advance_char s)] (advance_char (advance_char s))"
        "spliced_chars (advance_char (advance_char s)) = tl r"
        using 2 spliced_chars_more [OF 2(4)] by (auto intro!: reads.intros)
      then show ?thesis using True 2 r by (subst (1 2) skip_block.simps) auto
    next
      case False
      then have "\<not> (peek_char s = ch CHR ''*'' \<and> peek_char_at 1 s = ch CHR ''/'')" using P by (auto simp: str_def prefix_one)
      then show ?thesis using 2 1 False by (subst (1 2) skip_block.simps) (auto intro: reads.more)
    qed
  qed
qed

lemma skip_blank_view:
  "lexer_ok s \<Longrightarrow> \<exists>w. reads s w (skip_whitespace_and_comments s) \<and>
     spliced_chars (skip_whitespace_and_comments s) = blank_rest (spliced_chars s)"
proof (induction s rule: skip_whitespace_and_comments.induct)
  case (1 s)
  note IH = "1.IH"
  show ?case
  proof (cases rule: at_end_split [OF "1.prems"])
    case 1
    then show ?thesis by (subst (1 2) skip_whitespace_and_comments.simps) (auto intro: reads.stop simp: blank_rest.simps)
  next
    case (2 r)
    note P = peek_char_at_1 [OF 2(2)]
    have two: "prefix [ch CHR ''/'', d] (spliced_chars s) \<longleftrightarrow> peek_char s = ch CHR ''/'' \<and> peek_char_at 1 s = d" if "d \<noteq> 0" for d
      using 2(2) P that by (auto simp: prefix_one)
    consider (sp) "peek_char s \<in> {ch CHR '' '', 9, CR}"
      | (line) "peek_char s = ch CHR ''/''" "peek_char_at 1 s = ch CHR ''/''"
      | (block) "peek_char s = ch CHR ''/''" "peek_char_at 1 s = ch CHR ''*''"
      | (other) "peek_char s \<notin> {ch CHR '' '', 9, CR}" "\<not> (peek_char s = ch CHR ''/'' \<and> peek_char_at 1 s \<in> {ch CHR ''/'', ch CHR ''*''})"
      by auto
    then show ?thesis
    proof cases
      case sp
      then have "skip_whitespace_and_comments s = skip_whitespace_and_comments (advance_char s)" "blank_rest (spliced_chars s) = blank_rest r"
        using 2 by (auto simp: skip_whitespace_and_comments.simps [of s] blank_rest.simps [of "_ # _"])
      then show ?thesis using IH(1) [OF 2(1) sp 2(4)] 2(3) reads_append [OF 2(5)] by auto
    next
      case line
      have pr: "prefix (str ''//'') (spliced_chars s)" using line two [of "ch CHR ''/''"] by (simp add: str_def)
      obtain w where w: "reads s w (skip_line s)" "spliced_chars (skip_line s) = dropWhile (\<lambda>c. c \<noteq> NL) (spliced_chars s)"
        using skip_line_view [OF "1.prems"] by auto
      obtain r' where r': "r = ch CHR ''/'' # r'" using line P by (cases r) auto
      have "skip_whitespace_and_comments s = skip_whitespace_and_comments (skip_line s)"
        using 2 line by (auto simp: skip_whitespace_and_comments.simps [of s])
      moreover have "blank_rest (spliced_chars s) = blank_rest (dropWhile (\<lambda>c. c \<noteq> NL) (spliced_chars s))"
        using pr 2(2) line r' by (simp add: blank_rest.simps [of "_ # _"])
      moreover have "peek_char s \<notin> {ch CHR '' '', 9, CR}" using line by simp
      note IH(2) [OF 2(1) this conjI [OF line] reads_ok(1) [OF w(1) "1.prems"]]
      ultimately show ?thesis using w reads_append [OF w(1)] by auto
    next
      case block
      let ?t = "advance_char (advance_char s)"
      obtain r' where r': "r = ch CHR ''*'' # r'" using block P by (cases r) auto
      have "Suc (Suc 0) \<le> length (spliced_chars s)" using 2(2) r' by simp
      note A = advance_two [OF "1.prems" this]
      have t: "reads s [peek_char s, ch CHR ''*''] ?t" "lexer_ok ?t" "spliced_chars ?t = r'" using A 2(2) r' by auto
      obtain w where w: "reads ?t w (skip_block ?t)" "spliced_chars (skip_block ?t) = block_rest r'"
        using skip_block_view [OF t(2)] t(3) by auto
      have ns: "peek_char s \<notin> {ch CHR '' '', 9, CR}" "\<not> (peek_char s = ch CHR ''/'' \<and> peek_char_at 1 s = ch CHR ''/'')" using block by auto
      have "skip_whitespace_and_comments s = skip_whitespace_and_comments (skip_block ?t)"
        using 2 block by (auto simp: skip_whitespace_and_comments.simps [of s])
      moreover have "blank_rest (spliced_chars s) = blank_rest (block_rest r')"
        using 2(2) block r' by (simp add: blank_rest.simps [of "_ # _"] str_def)
      moreover note IH(3) [OF 2(1) ns conjI [OF block] reads_ok(1) [OF w(1) t(2)]]
      ultimately show ?thesis using w reads_append [OF reads_append [OF t(1) w(1)]] by auto
    next
      case other
      then have "\<not> prefix (str ''//'') (spliced_chars s)" "\<not> prefix (str ''/*'') (spliced_chars s)" using two by (auto simp: str_def)
      then show ?thesis using other 2 by (subst (1 2) skip_whitespace_and_comments.simps) (auto simp: blank_rest.simps [of "_ # _"] intro: reads.stop)
    qed
  qed
qed

lemma collect_while_view:
  "lexer_ok s \<Longrightarrow> \<exists>s'. collect_while P s = (takeWhile P (spliced_chars s), s') \<and> reads s (takeWhile P (spliced_chars s)) s' \<and>
     spliced_chars s' = dropWhile P (spliced_chars s)"
proof (induction P s rule: collect_while.induct)
  case (1 P s)
  note IH = "1.IH"
  show ?case
  proof (cases rule: at_end_split [OF "1.prems"])
    case 1
    then show ?thesis by (subst collect_while.simps) (auto intro: reads.stop)
  next
    case (2 r)
    show ?thesis
    proof (cases "P (peek_char s)")
      case True
      from IH [OF conjI [OF 2(1) True] 2(4)] show ?thesis using True 2 by (subst collect_while.simps) (auto intro: reads.more)
    next
      case False
      then show ?thesis using 2 by (subst collect_while.simps) (auto intro: reads.stop)
    qed
  qed
qed

lemma is_ascii_alphanumeric_0: "\<not> is_ascii_alphanumeric 0"
  by (simp add: is_ascii_alphanumeric_def is_ascii_alphabetic_def is_ascii_digit_def)

lemma number_chars_view:
  "lexer_ok s \<Longrightarrow> \<exists>w s'. number_chars s = (fst (number_split (spliced_chars s)), s') \<and> reads s w s' \<and>
     spliced_chars s' = snd (number_split (spliced_chars s))"
proof (induction s rule: number_chars.induct)
  case (1 s)
  note IH = "1.IH"
  show ?case
  proof (cases rule: at_end_split [OF "1.prems"])
    case 1
    then show ?thesis by (subst number_chars.simps) (auto intro: reads.stop)
  next
    case (2 r)
    note P = peek_char_at_1 [OF 2(2)]
    consider (char) "is_number_char (peek_char s)"
      | (sep) "\<not> is_number_char (peek_char s)" "peek_char s = SQ \<and> is_ascii_alphanumeric (peek_char_at 1 s)"
      | (other) "\<not> is_number_char (peek_char s)" "\<not> (peek_char s = SQ \<and> is_ascii_alphanumeric (peek_char_at 1 s))" by blast
    then show ?thesis
    proof cases
      case char
      from IH(1) [OF 2(1) char 2(4)] obtain w s' where w: "number_chars (advance_char s) = (fst (number_split r), s')"
        "reads (advance_char s) w s'" "spliced_chars s' = snd (number_split r)" using 2(3) by auto
      have "reads s (peek_char s # w) s'" using 2(1) w(2) by (rule reads.more)
      then show ?thesis using char 2(1,2) w(1,3) by (subst number_chars.simps) (auto simp: split_beta)
    next
      case sep
      then have "r \<noteq> []" "is_ascii_alphanumeric (hd r)" using P is_ascii_alphanumeric_0 by (cases r; simp)+
      then show ?thesis using sep IH(2) [OF 2(1) sep 2(4)] 2 by (subst number_chars.simps) (auto intro: reads.more)
    next
      case other
      then have "\<not> (peek_char s = SQ \<and> r \<noteq> [] \<and> is_ascii_alphanumeric (hd r))" using P by auto
      then show ?thesis using other 2 by (subst number_chars.simps) (auto intro: reads.stop)
    qed
  qed
qed

section \<open>Literals\<close>

lemma skip_escape_view:
  assumes "lexer_ok s" "spliced_chars s = c # r"
  shows "reads s (c # take 1 r) (skip_escape s) \<and> spliced_chars (skip_escape s) = drop 1 r \<and> lexer_ok (skip_escape s)"
proof -
  have e: "\<not> is_at_end s" using assms(2) by (simp add: spliced_chars_empty [symmetric])
  note A = advance_char_ok(1) [OF assms(1) e] spliced_chars_more [OF assms(1) e]
  show ?thesis
  proof (cases r)
    case Nil
    then have "is_at_end (advance_char s)" using A(2) assms(2) by (simp add: spliced_chars_empty [symmetric])
    then show ?thesis using Nil A assms(2) reads_one [OF e] by (simp add: skip_escape_def)
  next
    case (Cons d x)
    then have v: "spliced_chars (advance_char s) = d # x" "spliced_chars s = c # d # x" using A(2) assms(2) by simp_all
    then have "\<not> is_at_end (advance_char s)" "Suc (Suc 0) \<le> length (spliced_chars s)" by (simp_all add: spliced_chars_empty [symmetric])
    then show ?thesis using advance_two [OF assms(1)] Cons assms(2) by (simp add: skip_escape_def)
  qed
qed

lemma body_split_Cons:
  "body_split q nl (c # r) =
     (if c = q \<or> nl \<and> c = NL then ([], c # r)
      else if c = BS then (let (w, x) = body_split q nl (drop 1 r) in (c # take 1 r @ w, x))
      else (let (w, x) = body_split q nl r in (c # w, x)))"
  by (cases r) (auto simp: Let_def split: prod.splits)

lemma string_body_view:
  "lexer_ok s \<Longrightarrow> reads s (fst (body_split DQ True (spliced_chars s))) (string_body s) \<and>
     spliced_chars (string_body s) = snd (body_split DQ True (spliced_chars s))"
proof (induction s rule: string_body.induct)
  case (1 s)
  note IH = "1.IH"
  show ?case
  proof (cases rule: at_end_split [OF "1.prems"])
    case 1
    then show ?thesis by (subst (1 2) string_body.simps) (simp add: reads.stop)
  next
    case (2 r)
    consider (stop) "peek_char s \<in> {DQ, NL}" | (esc) "peek_char s = BS" | (other) "peek_char s \<notin> {DQ, NL, BS}" by blast
    then show ?thesis
    proof cases
      case stop
      then have "string_body s = s" by (auto simp: string_body.simps [of s])
      then show ?thesis using stop 2(2) by (auto simp: body_split_Cons reads.stop)
    next
      case esc
      note E = skip_escape_view [OF "1.prems" 2(2)]
      have "string_body s = string_body (skip_escape s)" using esc 2(1) by (simp add: string_body.simps [of s])
      then show ?thesis using IH(1) [OF _ esc] E esc 2(1,2) reads_append [of s "peek_char s # take 1 r" "skip_escape s"]
        by (simp add: body_split_Cons split_beta)
    next
      case other
      have "string_body s = string_body (advance_char s)" using other 2(1) by (simp add: string_body.simps [of s])
      then show ?thesis using IH(2) other 2 by (simp add: body_split_Cons split_beta reads.more)
    qed
  qed
qed

lemma char_body_view:
  "lexer_ok s \<Longrightarrow> reads s (fst (body_split SQ False (spliced_chars s))) (char_body s) \<and>
     spliced_chars (char_body s) = snd (body_split SQ False (spliced_chars s))"
proof (induction s rule: char_body.induct)
  case (1 s)
  note IH = "1.IH"
  show ?case
  proof (cases rule: at_end_split [OF "1.prems"])
    case 1
    then show ?thesis by (subst (1 2) char_body.simps) (simp add: reads.stop)
  next
    case (2 r)
    consider (stop) "peek_char s = SQ" | (esc) "peek_char s = BS" | (other) "peek_char s \<notin> {SQ, BS}" by blast
    then show ?thesis
    proof cases
      case stop
      then have "char_body s = s" by (auto simp: char_body.simps [of s])
      then show ?thesis using stop 2(2) by (auto simp: body_split_Cons reads.stop)
    next
      case esc
      note E = skip_escape_view [OF "1.prems" 2(2)]
      have "char_body s = char_body (skip_escape s)" using esc 2(1) by (simp add: char_body.simps [of s])
      then show ?thesis using IH(1) [OF _ esc] E esc 2(1,2) reads_append [of s "peek_char s # take 1 r" "skip_escape s"]
        by (simp add: body_split_Cons split_beta)
    next
      case other
      have "char_body s = char_body (advance_char s)" using other 2(1) by (simp add: char_body.simps [of s])
      then show ?thesis using IH(2) other 2 by (simp add: body_split_Cons split_beta reads.more)
    qed
  qed
qed

text \<open>The end of a literal: \<open>s0\<close> is the state at its first character and \<open>t\<close> after its body.\<close>

lemma close_literal_view:
  assumes "lexer_ok s0" "reads s0 w t"
  shows "\<exists>v s'. close_literal (lx_pos s0) q t = (w @ [q], s') \<and> reads s0 (w @ v) s' \<and>
    spliced_chars s' = (if spliced_chars t \<noteq> [] \<and> hd (spliced_chars t) = q then tl (spliced_chars t) else spliced_chars t)"
proof -
  have t: "lexer_ok t" "same_text s0 t" using reads_ok [OF assms(2,1)] by auto
  show ?thesis
  proof (cases rule: at_end_split [OF t(1)])
    case 1
    then show ?thesis using strip_slice_reads [OF assms(2,1)] t(2) assms(2)
      by (auto simp: close_literal_def same_text_def intro: exI [where x = "[]"])
  next
    case (2 r)
    note R = reads_append [OF assms(2) 2(5)]
    show ?thesis
    proof (cases "peek_char t = q")
      case True
      then show ?thesis using 2 strip_slice_reads [OF R assms(1)] t(2) R
        by (auto simp: close_literal_def same_text_def intro: exI [where x = "[q]"])
    next
      case False
      then show ?thesis using 2 strip_slice_reads [OF assms(2,1)] t(2) assms(2)
        by (auto simp: close_literal_def same_text_def intro: exI [where x = "[]"])
    qed
  qed
qed

lemma read_ud_suffix_view:
  assumes "lexer_ok s"
  shows "\<exists>s'. read_ud_suffix spelling s = (spelling @ fst (suffix_split (is_cpp s) (spliced_chars s)), s') \<and>
    reads s (fst (suffix_split (is_cpp s) (spliced_chars s))) s' \<and> spliced_chars s' = snd (suffix_split (is_cpp s) (spliced_chars s))"
proof (cases "\<not> is_cpp s \<or> is_at_end s \<or> \<not> is_ident_start (peek_char s)")
  case True
  then have "\<not> (is_cpp s \<and> spliced_chars s \<noteq> [] \<and> is_ident_start (hd (spliced_chars s)))"
    using peek_char_hd [OF assms] spliced_chars_empty by (metis list.sel(1))
  then show ?thesis using True by (auto simp: read_ud_suffix_def suffix_split_def intro: reads.stop)
next
  case False
  then have "is_cpp s \<and> spliced_chars s \<noteq> [] \<and> is_ident_start (hd (spliced_chars s))"
    using peek_char_hd [OF assms] spliced_chars_empty by (metis list.sel(1))
  then show ?thesis using False collect_while_view [OF assms, of is_ident_continue]
    by (auto simp: read_ud_suffix_def suffix_split_def ident_split_def)
qed

section \<open>One token\<close>

text \<open>A token read at a state: it starts there, and the lexer has moved on in the same text.\<close>

definition lexed :: "Lexer \<Rightarrow> Token \<Rightarrow> Lexer \<Rightarrow> bool" where
  "lexed s t s' \<longleftrightarrow> lexer_ok s' \<and> same_text s s' \<and> lx_pos s < lx_pos s' \<and> \<not> is_eof t \<and> tok_line t = lx_line s \<and> tok_col t = lx_col s"

definition viewed :: "Lexer \<Rightarrow> TokenKind \<times> ustring \<Rightarrow> Token \<times> Lexer \<Rightarrow> bool" where
  "viewed s kx ts \<longleftrightarrow> lexed s (fst ts) (snd ts) \<and> tok_kind (fst ts) = fst kx \<and> spliced_chars (snd ts) = snd kx \<and>
     suffix (spliced_chars (snd ts)) (spliced_chars s)"

lemma viewedI:
  assumes "lexer_ok s" "reads s w s'" "w \<noteq> []" "k \<noteq> Eof" "spliced_chars s' = x"
  shows "viewed s (k, x) (Token_new k (lx_line s) (lx_col s), s')"
  using assms reads_ok [OF assms(2,1)] by (simp add: viewed_def lexed_def Token_new_def is_eof_def suffix_def)

lemma viewed_cong: "viewed s (k, x) ts \<Longrightarrow> k = fst kx \<Longrightarrow> x = snd kx \<Longrightarrow> viewed s kx ts"
  by simp

lemma is_cpp_same: "same_text s t \<Longrightarrow> is_cpp t = is_cpp s"
  by (simp add: same_text_def is_cpp_def)

lemma finish_literal:
  assumes "lexer_ok s" "reads s (pre @ [q]) t" "reads t (fst (body_split q nl (spliced_chars t))) u"
    "spliced_chars u = snd (body_split q nl (spliced_chars t))"
  shows "\<exists>w s' sp1 s1. close_literal (lx_pos s) q u = (sp1, s1) \<and>
    read_ud_suffix sp1 s1 = (fst (literal_split (is_cpp s) pre q nl (spliced_chars s)), s') \<and>
    reads s w s' \<and> w \<noteq> [] \<and> spliced_chars s' = snd (literal_split (is_cpp s) pre q nl (spliced_chars s))"
proof -
  let ?b = "fst (body_split q nl (spliced_chars t))"
  have v: "spliced_chars s = pre @ q # spliced_chars t" using reads_ok(3) [OF assms(2,1)] by simp
  obtain v s1 where s1: "close_literal (lx_pos s) q u = (pre @ [q] @ ?b @ [q], s1)" "reads s ((pre @ [q] @ ?b) @ v) s1"
    "spliced_chars s1 = (if spliced_chars u \<noteq> [] \<and> hd (spliced_chars u) = q then tl (spliced_chars u) else spliced_chars u)"
    using close_literal_view [OF assms(1) reads_append [OF assms(2,3)], of q] by auto
  have ok: "lexer_ok s1" "is_cpp s1 = is_cpp s" using reads_ok [OF s1(2) assms(1)] is_cpp_same by auto
  obtain s' where s': "read_ud_suffix (pre @ [q] @ ?b @ [q]) s1 = ((pre @ [q] @ ?b @ [q]) @ fst (suffix_split (is_cpp s) (spliced_chars s1)), s')"
    "reads s1 (fst (suffix_split (is_cpp s) (spliced_chars s1))) s'" "spliced_chars s' = snd (suffix_split (is_cpp s) (spliced_chars s1))"
    using read_ud_suffix_view [OF ok(1), of "pre @ [q] @ ?b @ [q]"] ok(2) by auto
  have "literal_split (is_cpp s) pre q nl (spliced_chars s) =
      ((pre @ [q] @ ?b @ [q]) @ fst (suffix_split (is_cpp s) (spliced_chars s1)), snd (suffix_split (is_cpp s) (spliced_chars s1)))"
    by (simp add: literal_split_def v split_beta assms(4) [symmetric] s1(3))
  moreover have "reads s (((pre @ [q] @ ?b) @ v) @ fst (suffix_split (is_cpp s) (spliced_chars s1))) s'" by (rule reads_append [OF s1(2) s'(2)])
  ultimately show ?thesis using s1(1) s'(1,3) by fastforce
qed

lemma reads_hd: "lexer_ok t \<Longrightarrow> reads s pre t \<Longrightarrow> spliced_chars t = q # r \<Longrightarrow>
    reads s (pre @ [q]) (advance_char t) \<and> spliced_chars (advance_char t) = r \<and> lexer_ok (advance_char t)"
  by (cases rule: at_end_split [of t]) (auto dest: reads_append)

lemma read_quoted_view:
  assumes "lexer_ok s" "reads s pre t" "spliced_chars t = q # r" "q \<in> {DQ, SQ}"
  shows "viewed s (quoted (is_cpp s) pre q (spliced_chars s))
    (if q = DQ then read_string (lx_pos s) (lx_line s) (lx_col s) t else read_char (lx_pos s) (lx_line s) (lx_col s) t)"
proof -
  let ?a = "advance_char t"
  have a: "reads s (pre @ [q]) ?a" "lexer_ok ?a" using reads_hd [OF reads_ok(1) [OF assms(2,1)] assms(2,3)] by auto
  consider (dq) "q = DQ" | (sq) "q = SQ" using assms(4) by blast
  then show ?thesis
  proof cases
    case dq
    note B = string_body_view [OF a(2)]
    obtain w s' sp1 s1 where F: "close_literal (lx_pos s) DQ (string_body ?a) = (sp1, s1)"
      "read_ud_suffix sp1 s1 = (fst (literal_split (is_cpp s) pre DQ True (spliced_chars s)), s')"
      "reads s w s'" "w \<noteq> []" "spliced_chars s' = snd (literal_split (is_cpp s) pre DQ True (spliced_chars s))"
      using finish_literal [OF assms(1) a(1) [unfolded dq], of True "string_body ?a"] B by auto
    from viewedI [OF assms(1) F(3,4) _ F(5), of "String (fst (literal_split (is_cpp s) pre DQ True (spliced_chars s)))"]
    show ?thesis using F(1,2) dq by (simp add: read_string_def quoted_def map_prod_def split_beta)
  next
    case sq
    note B = char_body_view [OF a(2)]
    obtain w s' sp1 s1 where F: "close_literal (lx_pos s) SQ (char_body ?a) = (sp1, s1)"
      "read_ud_suffix sp1 s1 = (fst (literal_split (is_cpp s) pre SQ False (spliced_chars s)), s')"
      "reads s w s'" "w \<noteq> []" "spliced_chars s' = snd (literal_split (is_cpp s) pre SQ False (spliced_chars s))"
      using finish_literal [OF assms(1) a(1) [unfolded sq], of False "char_body ?a"] B by auto
    from viewedI [OF assms(1) F(3,4) _ F(5), of "Char (fst (literal_split (is_cpp s) pre SQ False (spliced_chars s)))"]
    show ?thesis using F(1,2) sq by (simp add: read_char_def quoted_def map_prod_def split_beta)
  qed
qed

lemma find_str_Some: "find_str pat xs = Some n \<Longrightarrow> prefix pat (drop n xs) \<and> (\<forall>m < n. \<not> prefix pat (drop m xs))"
proof (induction xs arbitrary: n)
  case (Cons x xs)
  then show ?case by (cases n) (auto simp: less_Suc_eq_0_disj split: if_splits)
qed (auto split: if_splits)

lemma raw_string_cases:
  assumes "lexer_ok s" "enc + 1 \<le> length (spliced_chars s)"
  shows "read_raw_string enc (lx_line s) (lx_col s) s = (None, s) \<or>
    (\<exists>t s'. read_raw_string enc (lx_line s) (lx_col s) s = (Some t, s') \<and> lexed s t s')"
proof -
  define s1 where "s1 = (advance_char ^^ (enc + 1)) s"
  define rest where "rest = drop (lx_pos s1) (lx_input s1)"
  define aq where "aq = drop 1 rest"
  note A = advance_many [OF assms, folded s1_def]
  note R = reads_ok [OF A(1) assms(1)]
  have "take (enc + 1) (spliced_chars s) \<noteq> []" using assms(2) by auto
  then have pos: "lx_pos s < lx_pos s1" using R(4,5) by auto
  have undo: "rewind (lx_pos s) (lx_line s) (lx_col s) s1 = s"
    using R(1,2) assms(1) by (intro rewind_back) (auto simp: lexer_ok_def aimed_def same_text_def)
  note D = read_raw_string_def [of enc "lx_line s" "lx_col s" s, folded s1_def, unfolded Let_def, folded rest_def, folded aq_def]
  show ?thesis
  proof (cases "raw_delim aq")
    case None
    then show ?thesis using undo by (simp add: D)
  next
    case (Some n)
    let ?closer = "str '')'' @ take n aq @ [DQ]"
    show ?thesis
    proof (cases "find_str ?closer (drop (1 + n + 1) rest)")
      case None
      then show ?thesis using Some undo by (simp add: D)
    next
      case (Some bl)
      let ?total = "1 + n + 1 + bl + length ?closer"
      have "prefix ?closer (drop bl (drop (1 + n + 1) rest))" using find_str_Some [OF Some] by blast
      then have "length ?closer \<le> length (drop bl (drop (1 + n + 1) rest))" by (rule prefix_length_le)
      then have "?total \<le> length rest" by simp
      then have tot: "lx_pos s1 + ?total \<le> length (lx_input s1)" using R(1) by (simp add: rest_def)
      let ?s2 = "advance_physical ?total s1"
      have s2: "lexer_ok ?s2" "lx_pos s1 \<le> lx_pos ?s2" "same_text s1 ?s2"
        using advance_physical_ok [OF lexer_ok_placed [OF R(1)] tot] splice_end_ge [of "lx_pos s1 + ?total" "lx_input s1"] by auto
      let ?pre = "lookahead_string (enc + 1) s @ take ?total rest"
      obtain w s3 where s3: "read_ud_suffix ?pre ?s2 = (?pre @ w, s3)" "reads ?s2 w s3" using read_ud_suffix_view [OF s2(1), of ?pre] by auto
      note R3 = reads_ok [OF s3(2) s2(1)]
      have "same_text s s3" using R(2) s2(3) R3(2) by (meson same_text_trans)
      then have "lexed s (Token_new (String (?pre @ w)) (lx_line s) (lx_col s)) s3"
        using R3(1,4) s2(2) pos by (simp add: lexed_def Token_new_def is_eof_def)
      moreover have "read_raw_string enc (lx_line s) (lx_col s) s = (Some (Token_new (String (?pre @ w)) (lx_line s) (lx_col s)), s3)"
        using \<open>raw_delim aq = Some n\<close> Some s3(1) by (simp add: D)
      ultimately show ?thesis by blast
    qed
  qed
qed

lemma lookahead_nth: "i < 4 \<Longrightarrow> lookahead 4 s ! i = (if i < length (spliced_chars s) then spliced_chars s ! i else 0)"
  by (simp add: lookahead_def nth_append)

lemma lookahead_eq: "c \<noteq> 0 \<Longrightarrow> i < 4 \<Longrightarrow> lookahead 4 s ! i = c \<longleftrightarrow> i < length (spliced_chars s) \<and> spliced_chars s ! i = c"
  by (auto simp: lookahead_nth)

lemma encoding_lookahead: "spliced_chars s \<noteq> [] \<Longrightarrow> enc_len (lookahead 4 s) = encoding (spliced_chars s)"
  unfolding enc_len_def encoding_def str_def
  by (cases "spliced_chars s"; cases "tl (spliced_chars s)") (auto simp: lookahead_nth)

lemma encoding_le: "encoding v \<le> 2" "encoding v \<le> length v"
  by (cases v; cases "tl v"; auto simp: encoding_def str_def)+

lemma sublist_nth2: "Suc i < length v \<Longrightarrow> v ! i = a \<Longrightarrow> v ! Suc i = b \<Longrightarrow> sublist [a, b] v"
proof -
  assume i: "Suc i < length v" "v ! i = a" "v ! Suc i = b"
  then have "v = take i v @ [a, b] @ drop (Suc (Suc i)) v" by (metis Cons_nth_drop_Suc Suc_lessD append_Cons append_Nil append_take_drop_id)
  then show ?thesis unfolding sublist_def by blast
qed

text \<open>A prefixed literal: the prefix and quote of the spliced text decide, unless a raw string is read.\<close>

lemma read_prefixed_cases:
  assumes "lexer_ok s" "spliced_chars s \<noteq> []"
  defines "v \<equiv> spliced_chars s"
  shows "(\<exists>t s'. read_prefixed_literal (lx_line s) (lx_col s) s = (Some t, s') \<and> lexed s t s' \<and> \<not> raw_free (is_cpp s) v) \<or>
    (if 0 < encoding v \<and> encoding v < length v \<and> v ! encoding v \<in> {DQ, SQ}
     then \<exists>t s'. read_prefixed_literal (lx_line s) (lx_col s) s = (Some t, s') \<and> viewed s (quoted (is_cpp s) (take (encoding v) v) (v ! encoding v) v) (t, s')
     else read_prefixed_literal (lx_line s) (lx_col s) s = (None, s))"
proof -
  let ?a = "lookahead 4 s" and ?e = "encoding v"
  have e: "enc_len ?a = ?e" using encoding_lookahead assms by simp
  have e4: "?e < 4" "?e + 1 < 4" "?e \<le> length v" using encoding_le [of v] by auto
  define raw where "raw = (if is_cpp s \<and> ?a ! ?e = ch CHR ''R'' \<and> ?a ! (?e + 1) = DQ
     then read_raw_string ?e (lx_line s) (lx_col s) s else (None, s))"
  have raws: "raw = (None, s) \<or> (\<exists>t s'. raw = (Some t, s') \<and> lexed s t s' \<and> \<not> raw_free (is_cpp s) v)"
  proof (cases "is_cpp s \<and> ?a ! ?e = ch CHR ''R'' \<and> ?a ! (?e + 1) = DQ")
    case True
    then have R: "?e + 1 < length v" "v ! ?e = ch CHR ''R''" "v ! (?e + 1) = DQ"
      using e4 lookahead_eq [of "ch CHR ''R''" ?e s] lookahead_eq [of DQ "?e + 1" s] by (auto simp: v_def)
    then have "sublist [ch CHR ''R'', DQ] v" by (intro sublist_nth2 [of ?e]) auto
    then have "\<not> raw_free (is_cpp s) v" using True by (simp add: raw_free_def)
    then show ?thesis using raw_string_cases [OF assms(1), of ?e] R(1) True by (auto simp: raw_def v_def)
  qed (auto simp: raw_def)
  have D: "read_prefixed_literal (lx_line s) (lx_col s) s = (let (raw, s1) = raw in case raw of
           Some tok \<Rightarrow> (Some tok, s1)
         | None \<Rightarrow> if ?e = 0 then (None, s1)
             else if ?a ! ?e \<noteq> DQ \<and> ?a ! ?e \<noteq> SQ then (None, s1)
             else (let (tok, s3) = (if ?a ! ?e = DQ then read_string (lx_pos s1) (lx_line s) (lx_col s) ((advance_char ^^ ?e) s1)
               else read_char (lx_pos s1) (lx_line s) (lx_col s) ((advance_char ^^ ?e) s1)) in (Some tok, s3)))"
    by (simp only: read_prefixed_literal_def Let_def e raw_def)
  have none: ?thesis if n: "raw = (None, s)"
  proof (cases "0 < ?e \<and> ?e < length v \<and> v ! ?e \<in> {DQ, SQ}")
    case True
    then have q: "?a ! ?e = v ! ?e" using e4 by (simp add: lookahead_nth v_def)
    note A = advance_many [OF assms(1), of ?e, folded v_def, OF e4(3)]
    have "spliced_chars ((advance_char ^^ ?e) s) = v ! ?e # drop (Suc ?e) v" using A(2) True by (simp add: Cons_nth_drop_Suc)
    note V = read_quoted_view [OF assms(1) A(1) this, folded v_def]
    have "read_prefixed_literal (lx_line s) (lx_col s) s = (let (tok, s3) = (if v ! ?e = DQ
        then read_string (lx_pos s) (lx_line s) (lx_col s) ((advance_char ^^ ?e) s)
        else read_char (lx_pos s) (lx_line s) (lx_col s) ((advance_char ^^ ?e) s)) in (Some tok, s3))"
      using D n True q by auto
    then show ?thesis using True V by (auto simp: split_beta)
  next
    case False
    then have "?e = 0 \<or> ?a ! ?e \<noteq> DQ \<and> ?a ! ?e \<noteq> SQ"
      using e4 lookahead_eq [of DQ ?e s] lookahead_eq [of SQ ?e s] by (auto simp: v_def)
    then show ?thesis using D n False by (auto simp: Let_def)
  qed
  from raws show ?thesis
  proof
    assume "\<exists>t s'. raw = (Some t, s') \<and> lexed s t s' \<and> \<not> raw_free (is_cpp s) v"
    then show ?thesis by (intro disjI1) (auto simp: D)
  qed (rule none)
qed

definition at0 :: "ustring \<Rightarrow> nat \<Rightarrow> uchar" where
  "at0 v i = (case vget v i of None \<Rightarrow> 0 | Some c \<Rightarrow> c)"

lemma at0_simps [simp]: "at0 [] i = 0" "at0 (c # v) 0 = c" "at0 (c # v) (Suc i) = at0 v i"
  by (simp_all add: at0_def vget_def)

lemma peek_char_at0: "lexer_ok s \<Longrightarrow> peek_char s = at0 (spliced_chars s) 0"
  by (cases rule: at_end_split [of s]) (auto simp: peek_char_def is_at_end_def vget_def)

text \<open>The tables give the longest match.\<close>

lemma two_char_spellings_shape: "p \<in> set two_char_spellings \<Longrightarrow> length p = 2 \<and> p ! 1 \<noteq> 0"
  unfolding two_char_spellings_def str_def by (auto simp: nth_Cons')

definition punct_choice :: "bool \<Rightarrow> uchar \<Rightarrow> uchar \<Rightarrow> uchar \<Rightarrow> ustring" where
  "punct_choice cpp c d e =
     (case if c \<in> {ch CHR ''.'', ch CHR ''-''} then three_char_punct c d e cpp else None of
        Some p \<Rightarrow> p
      | None \<Rightarrow> (case two_char_punct c d of Some p \<Rightarrow> p | None \<Rightarrow> [c]))"

lemma punct_choice_eq:
  "punct_choice cpp c d e =
     (if [c, d, e] = str ''...'' \<or> cpp \<and> [c, d, e] = str ''->*'' then [c, d, e] else if [c, d] \<in> set two_char_spellings then [c, d] else [c])"
  unfolding punct_choice_def three_char_punct_def two_char_punct_def str_def by simp

lemma punct_spelling:
  "punct_choice cpp c (at0 r 0) (at0 r 1) = take (punct_len cpp (c # r)) (c # r) \<and> 0 < punct_len cpp (c # r) \<and> punct_len cpp (c # r) \<le> length (c # r)"
proof -
  have one: "[c, 0] \<notin> set two_char_spellings" "[c] \<notin> set two_char_spellings" using two_char_spellings_shape by fastforce+
  have len: "length (str ''...'') = 3" "length (str ''->*'') = 3" by (simp_all add: str_def)
  have zero: "[c, d, 0] \<noteq> str ''...''" "[c, d, 0] \<noteq> str ''->*''" for d by (simp_all add: str_def)
  consider (a) "r = []" | (b) d where "r = [d]" | (c) d e x where "r = d # e # x" by (metis list.exhaust)
  then show ?thesis
  proof cases
    case a
    then have "take 3 (c # r) \<noteq> str ''...''" "take 3 (c # r) \<noteq> str ''->*''" using len by (auto dest: arg_cong [where f = length])
    then show ?thesis using a one zero [of 0] by (simp add: punct_choice_eq punct_len_def)
  next
    case (b d)
    then have "take 3 (c # r) \<noteq> str ''...''" "take 3 (c # r) \<noteq> str ''->*''" using len by (auto dest: arg_cong [where f = length])
    then show ?thesis using b one zero [of d] by (simp add: punct_choice_eq punct_len_def)
  next
    case (c d e x)
    then show ?thesis by (simp add: punct_choice_eq punct_len_def numeral_3_eq_3 numeral_2_eq_2)
  qed
qed

lemma read_punct_view:
  assumes "lexer_ok s" "spliced_chars s = c # r" "single_char_punct c = Some one"
  shows "viewed s (Punct (take (punct_len (is_cpp s) (c # r)) (c # r)), drop (punct_len (is_cpp s) (c # r)) (c # r))
    (read_punct c one (lx_line s) (lx_col s) s)"
proof -
  let ?n = "punct_len (is_cpp s) (c # r)" and ?a = "advance_char s"
  have one: "one = [c]" using assms(3) by (auto simp: single_char_punct_def split: if_splits)
  have a: "lexer_ok ?a" "spliced_chars ?a = r" "is_cpp ?a = is_cpp s"
    using reads_hd [OF assms(1) reads.stop assms(2)] reads_ok(2) [OF _ assms(1)] is_cpp_same by auto
  have P: "punct_choice (is_cpp s) c (at0 r 0) (at0 r 1) = take ?n (c # r)" "0 < ?n" "?n \<le> length (c # r)" using punct_spelling by blast+
  have pk: "peek_char ?a = at0 r 0" "peek_char_at 1 ?a = at0 r 1" using peek_char_at0 [OF a(1)] a(2) by (simp_all add: peek_char_at_def at0_def)
  have n: "?n \<le> length (spliced_chars s)" using P(3) assms(2) by simp
  note A = advance_many [OF assms(1) n]
  have "(advance_char ^^ (?n - 1)) ?a = (advance_char ^^ ?n) s" using P(2) by (cases ?n) (simp_all add: funpow_swap1)
  then have "read_punct c one (lx_line s) (lx_col s) s = (Token_new (Punct (take ?n (c # r))) (lx_line s) (lx_col s), (advance_char ^^ ?n) s)"
    unfolding read_punct_def Let_def one pk a(3) punct_choice_def [symmetric] P(1) using P(3) by (simp add: min_def)
  moreover have "take ?n (spliced_chars s) \<noteq> []" using P(2) assms(2) by simp
  note viewedI [OF assms(1) A(1) this _ A(2), of "Punct (take ?n (c # r))"]
  ultimately show ?thesis using assms(2) by simp
qed

text \<open>What one call of \<open>lex_token\<close> does: a raw string, the end, the token of the spliced text, or
  nothing at a character no token starts with.\<close>

inductive lex_outcome :: "Lexer \<Rightarrow> Token option \<times> Lexer \<Rightarrow> bool" for s where
  raw: "lexed s t s' \<Longrightarrow> \<not> raw_free (is_cpp s) (spliced_chars s) \<Longrightarrow> lex_outcome s (Some t, s')"
| at_eof: "is_at_end s \<Longrightarrow> t = Token_new Eof (lx_line s) (lx_col s) \<Longrightarrow> lex_outcome s (Some t, s)"
| viewed: "token_split (is_cpp s) (spliced_chars s) = Some kx \<Longrightarrow> viewed s kx (t, s') \<Longrightarrow> lex_outcome s (Some t, s')"
| unknown: "token_split (is_cpp s) (spliced_chars s) = None \<Longrightarrow> \<not> is_at_end s \<Longrightarrow> lex_outcome s (None, s)"

lemma lex_outcome_viewed: "token_split (is_cpp s) (spliced_chars s) = Some kx \<Longrightarrow> viewed s kx ts \<Longrightarrow> lex_outcome s (some_token ts)"
  by (cases ts) (auto simp: some_token_def intro: lex_outcome.viewed)

lemma ident_outcome:
  assumes "lexer_ok s" "spliced_chars s = c # r" "is_ident_continue c"
  shows "viewed s (map_prod Identifier id (ident_split (c # r))) (read_identifier (lx_line s) (lx_col s) s)"
proof -
  obtain s' where s': "collect_while is_ident_continue s = (takeWhile is_ident_continue (c # r), s')"
    "reads s (takeWhile is_ident_continue (c # r)) s'" "spliced_chars s' = dropWhile is_ident_continue (c # r)"
    using collect_while_view [OF assms(1), of is_ident_continue] assms(2) by auto
  show ?thesis using viewedI [OF assms(1) s'(2) _ _ s'(3), of "Identifier (takeWhile is_ident_continue (c # r))"] s'(1) assms(3)
    by (simp add: read_identifier_def ident_split_def)
qed

lemma number_outcome:
  assumes "lexer_ok s" "spliced_chars s = c # r" "is_ascii_digit c"
  shows "viewed s (map_prod Number id (number_split (c # r))) (read_number (lx_line s) (lx_col s) s)"
proof -
  obtain w s' where s': "number_chars s = (fst (number_split (c # r)), s')" "reads s w s'" "spliced_chars s' = snd (number_split (c # r))"
    using number_chars_view [OF assms(1)] assms(2) by auto
  have "is_number_char c" using assms(3) by (simp add: is_number_char_def is_ascii_alphanumeric_def)
  then have "length (snd (number_split (c # r))) < length (c # r)" using number_split_length [of r] by (simp add: split_beta)
  then have "w \<noteq> []" using reads_ok(3) [OF s'(2) assms(1)] s'(3) assms(2) by auto
  from viewedI [OF assms(1) s'(2) this _ s'(3), of "Number (fst (number_split (c # r)))"] s'(1) show ?thesis
    by (simp add: read_number_def map_prod_def split_beta)
qed

lemma prefixed_outcome:
  assumes "lexer_ok s" "spliced_chars s = c # r" "is_ident_start c"
    "token_split (is_cpp s) (c # r) = (if 0 < encoding (c # r) \<and> encoding (c # r) < length (c # r) \<and> (c # r) ! encoding (c # r) \<in> {DQ, SQ}
       then Some (quoted (is_cpp s) (take (encoding (c # r)) (c # r)) ((c # r) ! encoding (c # r)) (c # r))
       else Some (map_prod Identifier id (ident_split (c # r))))"
  shows "lex_outcome s
    (let (tok, s1) = (if c \<in> set (str ''RuUL'') then read_prefixed_literal (lx_line s) (lx_col s) s else (None, s))
     in case tok of Some t \<Rightarrow> (Some t, s1) | None \<Rightarrow> some_token (read_identifier (lx_line s) (lx_col s) s1))"
proof -
  have "is_ident_continue c" using assms(3) by (auto simp: is_ident_start_def is_ident_continue_def is_ascii_alphanumeric_def)
  note I = ident_outcome [OF assms(1,2) this]
  let ?q = "0 < encoding (c # r) \<and> encoding (c # r) < length (c # r) \<and> (c # r) ! encoding (c # r) \<in> {DQ, SQ}"
  have id: "lex_outcome s (some_token (read_identifier (lx_line s) (lx_col s) s))" if "\<not> ?q"
    using that assms(2,4) I by (intro lex_outcome_viewed) auto
  show ?thesis
  proof (cases "c \<in> set (str ''RuUL'')")
    case False
    then have "encoding (c # r) = 0" by (auto simp: encoding_def str_def)
    then show ?thesis using False id by simp
  next
    case True
    have "spliced_chars s \<noteq> []" using assms(2) by simp
    note C = read_prefixed_cases [OF assms(1) this, unfolded assms(2)]
    from C show ?thesis
    proof (elim disjE exE conjE)
      fix t s' assume "read_prefixed_literal (lx_line s) (lx_col s) s = (Some t, s')" "lexed s t s'" "\<not> raw_free (is_cpp s) (c # r)"
      then show ?thesis using True assms(2) by (auto intro: lex_outcome.raw)
    next
      assume A: "if ?q then \<exists>t s'. read_prefixed_literal (lx_line s) (lx_col s) s = (Some t, s') \<and>
          viewed s (quoted (is_cpp s) (take (encoding (c # r)) (c # r)) ((c # r) ! encoding (c # r)) (c # r)) (t, s')
        else read_prefixed_literal (lx_line s) (lx_col s) s = (None, s)"
      show ?thesis
      proof (cases ?q)
        case q: True
        then obtain t s' where T: "read_prefixed_literal (lx_line s) (lx_col s) s = (Some t, s')"
          "viewed s (quoted (is_cpp s) (take (encoding (c # r)) (c # r)) ((c # r) ! encoding (c # r)) (c # r)) (t, s')" using A by auto
        have "token_split (is_cpp s) (spliced_chars s) =
            Some (quoted (is_cpp s) (take (encoding (c # r)) (c # r)) ((c # r) ! encoding (c # r)) (c # r))"
          unfolding assms(2,4) if_P [OF q] ..
        from lex_outcome.viewed [OF this T(2)] show ?thesis using T(1) True by simp
      next
        case False
        then show ?thesis using A True id by simp
      qed
    qed
  qed
qed

lemma lex_token_outcome:
  assumes "lexer_ok s"
  shows "lex_outcome s (lex_token (lx_line s) (lx_col s) s)"
proof (cases rule: at_end_split [OF assms])
  case 1
  then show ?thesis by (auto simp: lex_token_def intro: lex_outcome.at_eof)
next
  case (2 r)
  let ?c = "peek_char s"
  note V = 2(2) lex_outcome_viewed [where s = s, unfolded 2(2)]
  have one: "reads s [?c] (advance_char s)" "spliced_chars (advance_char s) = r" using 2(3,5) by auto
  have hash2: "prefix (str ''##'') (?c # r) \<longleftrightarrow> ?c = ch CHR ''#'' \<and> peek_char_at 1 s = ch CHR ''#''"
    using peek_char_at_1 [OF 2(2)] by (auto simp: str_def prefix_one)
  consider (nl) "?c = NL" | (hash) "?c = ch CHR ''#''" | (dq) "?c = DQ" | (sq) "?c = SQ"
    | (digit) "?c \<notin> {NL, ch CHR ''#'', DQ, SQ}" "is_ascii_digit ?c"
    | (ident) "?c \<notin> {NL, ch CHR ''#'', DQ, SQ}" "\<not> is_ascii_digit ?c" "is_ident_start ?c"
    | (punct) "?c \<notin> {NL, ch CHR ''#'', DQ, SQ}" "\<not> is_ascii_digit ?c" "\<not> is_ident_start ?c" by blast
  then show ?thesis
  proof cases
    case nl
    have "lex_token (lx_line s) (lx_col s) s = some_token (Token_new Newline (lx_line s) (lx_col s), advance_char s)"
      using nl 2(1) by (simp add: lex_token_def some_token_def)
    then show ?thesis using V(2) [of "(Newline, r)"] viewedI [OF assms one(1) _ _ one(2), of Newline] nl by (simp add: token_split_def)
  next
    case hash
    show ?thesis
    proof (cases "peek_char_at 1 s = ch CHR ''#''")
      case True
      then have "lex_token (lx_line s) (lx_col s) s = some_token (Token_new (Punct (str ''##'')) (lx_line s) (lx_col s), advance_char (advance_char s))"
        using hash 2(1) by (simp add: lex_token_def some_token_def)
      moreover have pr: "prefix (str ''##'') (?c # r)" using True hash hash2 by blast
      then have "Suc (Suc 0) \<le> length (spliced_chars s)" using 2(2) prefix_length_le [OF pr] by (simp add: str_def)
      note A = advance_two [OF assms this]
      have "viewed s (Punct (str ''##''), drop (Suc (Suc 0)) (?c # r)) (Token_new (Punct (str ''##'')) (lx_line s) (lx_col s), advance_char (advance_char s))"
        using viewedI [OF assms A(1) _ _ A(2), of "Punct (str ''##'')"] 2(2) by simp
      moreover have "token_split (is_cpp s) (?c # r) = Some (Punct (str ''##''), drop (Suc (Suc 0)) (?c # r))"
        using hash pr by (simp add: token_split_def)
      ultimately show ?thesis using V(2) by simp
    next
      case False
      then have "lex_token (lx_line s) (lx_col s) s = some_token (Token_new Hash (lx_line s) (lx_col s), advance_char s)"
        using hash 2(1) by (simp add: lex_token_def some_token_def)
      moreover have "token_split (is_cpp s) (?c # r) = Some (Hash, r)" using hash False hash2 by (simp add: token_split_def)
      ultimately show ?thesis using V(2) [of "(Hash, r)"] viewedI [OF assms one(1) _ _ one(2), of Hash] by simp
    qed
  next
    case dq
    have "lex_token (lx_line s) (lx_col s) s = some_token (read_string (lx_pos s) (lx_line s) (lx_col s) s)" using dq 2(1) by (simp add: lex_token_def)
    moreover have "token_split (is_cpp s) (?c # r) = Some (quoted (is_cpp s) [] DQ (?c # r))" using dq by (simp add: token_split_def str_def)
    ultimately show ?thesis using V(2) read_quoted_view [OF assms reads.stop 2(2)] dq 2(2) by simp
  next
    case sq
    have "lex_token (lx_line s) (lx_col s) s = some_token (read_char (lx_pos s) (lx_line s) (lx_col s) s)" using sq 2(1) by (simp add: lex_token_def)
    moreover have "token_split (is_cpp s) (?c # r) = Some (quoted (is_cpp s) [] SQ (?c # r))" using sq by (simp add: token_split_def str_def)
    ultimately show ?thesis using V(2) read_quoted_view [OF assms reads.stop 2(2)] sq 2(2) by simp
  next
    case digit
    have "lex_token (lx_line s) (lx_col s) s = some_token (read_number (lx_line s) (lx_col s) s)" using digit 2(1) by (simp add: lex_token_def)
    moreover have "token_split (is_cpp s) (?c # r) = Some (map_prod Number id (number_split (?c # r)))"
      using digit hash2 by (simp add: token_split_def del: number_split.simps)
    ultimately show ?thesis using V(2) number_outcome [OF assms 2(2) digit(2)] by simp
  next
    case ident
    then have ts: "token_split (is_cpp s) (?c # r) = (if 0 < encoding (?c # r) \<and> encoding (?c # r) < length (?c # r) \<and> (?c # r) ! encoding (?c # r) \<in> {DQ, SQ}
       then Some (quoted (is_cpp s) (take (encoding (?c # r)) (?c # r)) ((?c # r) ! encoding (?c # r)) (?c # r))
       else Some (map_prod Identifier id (ident_split (?c # r))))"
      using hash2 by (simp add: token_split_def Let_def)
    show ?thesis using prefixed_outcome [OF assms 2(2) ident(3) ts] ident 2(1) by (simp add: lex_token_def)
  next
    case punct
    then have ts: "token_split (is_cpp s) (?c # r) = (if single_char_punct ?c \<noteq> None
        then Some (Punct (take (punct_len (is_cpp s) (?c # r)) (?c # r)), drop (punct_len (is_cpp s) (?c # r)) (?c # r)) else None)"
      using hash2 by (simp add: token_split_def)
    show ?thesis
    proof (cases "single_char_punct ?c")
      case None
      then show ?thesis using punct 2(1,2) ts lex_outcome.unknown [of s] by (simp add: lex_token_def)
    next
      case (Some p)
      then show ?thesis using punct 2(1) ts V(2) read_punct_view [OF assms 2(2) Some] by (simp add: lex_token_def)
    qed
  qed
qed

section \<open>The token loop\<close>

text \<open>The token of a call: its place is that of a position at or after the state of the call and before the
  state after it.\<close>

definition token_from :: "Lexer \<Rightarrow> Token \<Rightarrow> Lexer \<Rightarrow> bool" where
  "token_from s t s' \<longleftrightarrow> lexer_ok s' \<and> lx_input s' = lx_input s \<and> lx_language s' = lx_language s \<and> lx_after_newline s' = is_newline t \<and>
     (\<exists>p. lx_pos s \<le> p \<and> tok_line t = as_u32 (line_at (lx_input s) p) \<and> tok_col t = as_u32 (col_at (lx_input s) p) \<and>
        (if is_eof t then p = length (lx_input s) else p < lx_pos s' \<and> p < length (lx_input s)))"

text \<open>The token of a call in the relation on lists, with what follows it.\<close>

definition scanned :: "Lexer \<Rightarrow> Lexer \<Rightarrow> Token \<Rightarrow> Lexer \<Rightarrow> bool" where
  "scanned b s t s' \<longleftrightarrow>
     (if is_eof t then scan (is_cpp b) (lx_after_newline b) (length (spliced_chars b)) (spliced_chars s) [(tok_kind t, tok_adjacent_before t)]
      else raw_free (is_cpp b) (spliced_chars s') \<and>
        (\<forall>ts. scan (is_cpp b) (is_newline t) (length (spliced_chars s')) (spliced_chars s') ts \<longrightarrow>
           scan (is_cpp b) (lx_after_newline b) (length (spliced_chars b)) (spliced_chars s) ((tok_kind t, tok_adjacent_before t) # ts)))"

lemma raw_free_suffix: "raw_free cpp (w @ v) \<Longrightarrow> raw_free cpp v"
  by (auto simp: raw_free_def intro: sublist_order.order_trans sublist_append_rightI)

lemma lexer_ok_newline: "lexer_ok (s\<lparr>lx_after_newline := b\<rparr>) = lexer_ok s"
  by (simp add: lexer_ok_def aimed_def)

lemma spliced_chars_newline [simp]: "spliced_chars (s\<lparr>lx_after_newline := b\<rparr>) = spliced_chars s"
  by (simp add: spliced_chars_def)

lemma lexer_ok_place:
  "lexer_ok s \<Longrightarrow> lx_line s = as_u32 (line_at (lx_input s) (lx_pos s)) \<and> lx_col s = as_u32 (col_at (lx_input s) (lx_pos s)) \<and> lx_pos s \<le> length (lx_input s)"
  by (simp add: lexer_ok_def aimed_def)

lemma token_fromI:
  assumes "lexer_ok u" "same_text s u" "lx_pos s \<le> lx_pos u" "lexer_ok s1" "same_text u s1" "tok_line t = lx_line u" "tok_col t = lx_col u"
    "if is_eof t then is_at_end u else lx_pos u < lx_pos s1 \<and> \<not> is_at_end u"
  shows "token_from s (t\<lparr>tok_adjacent_before := a\<rparr>) (s1\<lparr>lx_after_newline := is_newline t\<rparr>)"
proof -
  have eq: "is_eof (t\<lparr>tok_adjacent_before := a\<rparr>) = is_eof t" "is_newline (t\<lparr>tok_adjacent_before := a\<rparr>) = is_newline t"
    by (simp_all add: is_eof_def is_newline_def)
  show ?thesis unfolding token_from_def eq lexer_ok_newline using assms lexer_ok_place [OF assms(1)]
    by (intro conjI exI [where x = "lx_pos u"]) (auto simp: same_text_def is_at_end_def split: if_splits)
qed

lemma viewed_not_eof: "viewed s (k, x) (t, s') \<Longrightarrow> k \<noteq> Eof \<and> tok_kind t = k \<and> lexed s t s' \<and> spliced_chars s' = x \<and> suffix x (spliced_chars s)"
  by (auto simp: viewed_def lexed_def is_eof_def)

lemma scan_eof: "blank_rest v = [] \<Longrightarrow> scan cpp nl n v [(Eof, 0 = n \<and> \<not> nl)]"
  using scan.eof [of cpp v "[]" nl n] by (simp add: token_split_def)

lemma token_from_mono:
  assumes "token_from m t s'" "lx_input m = lx_input s" "lx_language m = lx_language s" "lx_pos s \<le> lx_pos m"
  shows "token_from s t s'"
proof -
  obtain p where p: "lx_pos m \<le> p" "tok_line t = as_u32 (line_at (lx_input s) p) \<and> tok_col t = as_u32 (col_at (lx_input s) p)"
    "if is_eof t then p = length (lx_input s) else p < lx_pos s' \<and> p < length (lx_input s)"
    using assms(1) [unfolded token_from_def assms(2,3)] by blast
  have "lx_pos s \<le> p" using assms(4) p(1) by simp
  then show ?thesis unfolding token_from_def using assms p(2,3) by (intro conjI exI [where x = p]) (auto simp: token_from_def)
qed

lemma lexed_not_end: "lexer_ok s \<Longrightarrow> lexed s t s' \<Longrightarrow> \<not> is_at_end s"
  using lexer_ok_place [of s'] by (auto simp: lexed_def is_at_end_def same_text_def)

text \<open>One round of the loop at a state after white space.\<close>

lemma next_token_loop_step:
  "next_token_loop n s = (case lex_token (lx_line (skip_whitespace_and_comments s)) (lx_col (skip_whitespace_and_comments s)) (skip_whitespace_and_comments s) of
     (None, s1) \<Rightarrow> next_token_loop n (advance_char s1)
   | (Some t, s1) \<Rightarrow> Some (t\<lparr>tok_adjacent_before := lx_pos (skip_whitespace_and_comments s) = n \<and> \<not> lx_after_newline (skip_whitespace_and_comments s)\<rparr>,
       s1\<lparr>lx_after_newline := is_newline t\<rparr>))"
  by (subst next_token_loop.simps) (simp add: Let_def split_beta split: option.splits prod.splits)

lemma next_token_loop_ok:
  assumes "lexer_ok b" "reads b w s"
  shows "\<exists>t s'. next_token_loop (lx_pos b) s = Some (t, s') \<and> token_from s t s' \<and> (raw_free (is_cpp b) (spliced_chars b) \<longrightarrow> scanned b s t s')"
  using assms(2)
proof (induction "remaining s" arbitrary: s w rule: less_induct)
  case less
  define u where "u = skip_whitespace_and_comments s"
  note S = reads_ok [OF less.prems assms(1)]
  obtain v where v: "reads s v u" "spliced_chars u = blank_rest (spliced_chars s)" using skip_blank_view [OF S(1)] u_def by auto
  note bu = reads_append [OF less.prems v(1)]
  note U = reads_ok [OF v(1) S(1)] and B = reads_ok [OF bu assms(1)]
  have cpp: "is_cpp u = is_cpp b" using is_cpp_same [OF B(2)] .
  have adj: "lx_pos u = lx_pos b \<and> \<not> lx_after_newline u \<longleftrightarrow> length (blank_rest (spliced_chars s)) = length (spliced_chars b) \<and> \<not> lx_after_newline b"
    using B(2,3,5) v(2) by (auto simp: same_text_def)
  note step = next_token_loop_step [of "lx_pos b" s, folded u_def]
  have rf: "raw_free (is_cpp b) (spliced_chars b) \<Longrightarrow> raw_free (is_cpp u) (spliced_chars u)" using raw_free_suffix [of "is_cpp b" "w @ v" "spliced_chars u"] B(3) cpp by simp
  from lex_token_outcome [OF U(1)] show ?case
  proof cases
    case (raw t s1)
    then have "token_from s (t\<lparr>tok_adjacent_before := a\<rparr>) (s1\<lparr>lx_after_newline := is_newline t\<rparr>)" for a
      using U lexed_not_end [OF U(1)] by (intro token_fromI [of u]) (auto simp: lexed_def)
    then show ?thesis using raw step rf by auto
  next
    case (at_eof t)
    then have e: "is_eof t" "tok_kind t = Eof" by (simp_all add: Token_new_def is_eof_def)
    have "token_from s (t\<lparr>tok_adjacent_before := a\<rparr>) (u\<lparr>lx_after_newline := is_newline t\<rparr>)" for a
      using U at_eof e by (intro token_fromI [of u]) (auto simp: Token_new_def)
    moreover have "blank_rest (spliced_chars s) = []" using v(2) spliced_chars_end [OF at_eof(2)] by simp
    then have "scanned b s (t\<lparr>tok_adjacent_before := lx_pos u = lx_pos b \<and> \<not> lx_after_newline u\<rparr>) (u\<lparr>lx_after_newline := is_newline t\<rparr>)"
      using e adj scan_eof [of "spliced_chars s" "is_cpp b" "lx_after_newline b" "length (spliced_chars b)"] by (simp add: scanned_def is_eof_def)
    ultimately show ?thesis using at_eof step by simp
  next
    case (viewed kx t s1)
    obtain k x where kx: "kx = (k, x)" by (cases kx)
    note W = viewed_not_eof [OF viewed(3) [unfolded kx]]
    have "token_from s (t\<lparr>tok_adjacent_before := a\<rparr>) (s1\<lparr>lx_after_newline := is_newline t\<rparr>)" for a
      using U W lexed_not_end [OF U(1)] by (intro token_fromI [of u]) (auto simp: lexed_def)
    moreover have "scanned b s (t\<lparr>tok_adjacent_before := lx_pos u = lx_pos b \<and> \<not> lx_after_newline u\<rparr>) (s1\<lparr>lx_after_newline := is_newline t\<rparr>)"
      if "raw_free (is_cpp b) (spliced_chars b)"
    proof -
      have "raw_free (is_cpp b) x" using rf [OF that] W raw_free_suffix cpp by (auto simp: suffix_def)
      moreover have "scan (is_cpp b) (lx_after_newline b) (length (spliced_chars b)) (spliced_chars s)
          ((k, length (blank_rest (spliced_chars s)) = length (spliced_chars b) \<and> \<not> lx_after_newline b) # ts)"
        if "scan (is_cpp b) (is_newline t) (length x) x ts" for ts
        using viewed(2) W that kx v(2) cpp by (intro scan.token [of _ _ k x]) (auto simp: is_newline_def)
      ultimately show ?thesis using W adj by (simp add: scanned_def is_eof_def is_newline_def)
    qed
    ultimately show ?thesis using viewed(1) step by auto
  next
    case unknown
    let ?n = "advance_char u"
    have un: "reads u [peek_char u] ?n" "spliced_chars u = peek_char u # spliced_chars ?n" "lexer_ok ?n"
      using reads_one [OF unknown(3)] spliced_chars_more [OF U(1) unknown(3)] advance_char_ok [OF U(1) unknown(3)] by auto
    have "remaining ?n < remaining s" using remaining_less [OF unknown(3)] U(2,4) by (simp add: remaining_def same_text_def)
    from less.hyps [OF this reads_append [OF bu un(1)]] obtain t s'
      where t: "next_token_loop (lx_pos b) ?n = Some (t, s')" "token_from ?n t s'" "raw_free (is_cpp b) (spliced_chars b) \<Longrightarrow> scanned b ?n t s'" by auto
    have "lx_pos s \<le> lx_pos ?n" using U(4) advance_char_le [of u] by simp
    then have "token_from s t s'" using U(2) advance_char_ok(3) [OF U(1) unknown(3)] by (intro token_from_mono [OF t(2)]) (auto simp: same_text_def)
    moreover have "scanned b s t s'" if "raw_free (is_cpp b) (spliced_chars b)"
    proof -
      have "token_split (is_cpp b) (blank_rest (spliced_chars s)) = None" using unknown(2) v(2) cpp by simp
      moreover have "tl (blank_rest (spliced_chars s)) = spliced_chars ?n" using v(2) un(2) by (metis list.sel(3))
      ultimately have "scan (is_cpp b) nl m (spliced_chars ?n) ts \<Longrightarrow> scan (is_cpp b) nl m (spliced_chars s) ts" for nl m ts
        using scan.skip [of "is_cpp b" "spliced_chars s"] by simp
      then show ?thesis using t(3) [OF that] by (auto simp: scanned_def split: if_splits)
    qed
    moreover have "next_token_loop (lx_pos b) s = Some (t, s')" using t(1) unknown(1) step by simp
    ultimately show ?thesis by blast
  qed
qed

text \<open>Every call of the loop returns, and so does the whole tokenizer.\<close>

definition kind_adj :: "Token \<Rightarrow> TokenKind \<times> bool" where
  "kind_adj t = (tok_kind t, tok_adjacent_before t)"

definition at_counters :: "ustring \<Rightarrow> Token \<Rightarrow> nat \<Rightarrow> bool" where
  "at_counters input t p \<longleftrightarrow> tok_line t = as_u32 (line_at input p) \<and> tok_col t = as_u32 (col_at input p) \<and>
     (if is_eof t then p = length input else p < length input)"

lemma tokenize_ok:
  assumes "lexer_ok s"
  shows "\<exists>ts ps. tokenize s = Some ts \<and> ts \<noteq> [] \<and> is_eof (last ts) \<and> (\<forall>t \<in> set (butlast ts). \<not> is_eof t) \<and>
    list_all2 (at_counters (lx_input s)) ts ps \<and> sorted_wrt (<) ps \<and> (\<forall>p \<in> set ps. lx_pos s \<le> p) \<and>
    (raw_free (is_cpp s) (spliced_chars s) \<longrightarrow>
      scan (is_cpp s) (lx_after_newline s) (length (spliced_chars s)) (spliced_chars s) (map kind_adj ts))"
  using assms
proof (induction "remaining s" arbitrary: s rule: less_induct)
  case less
  obtain t s' where t: "next_token s = Some (t, s')" "token_from s t s'" "raw_free (is_cpp s) (spliced_chars s) \<Longrightarrow> scanned s s t s'"
    using next_token_loop_ok [OF less.prems reads.stop] unfolding next_token_def by blast
  obtain p where p: "lx_pos s \<le> p" "at_counters (lx_input s) t p" "\<not> is_eof t \<Longrightarrow> p < lx_pos s' \<and> p < length (lx_input s)"
    using t(2) unfolding token_from_def at_counters_def by (auto split: if_splits)
  show ?case
  proof (cases "is_eof t")
    case True
    then have "tokenize s = Some [t]" using t(1) by (subst tokenize.simps) simp
    then show ?thesis using True p t(3) by (intro exI [where x = "[t]"] exI [where x = "[p]"]) (auto simp: scanned_def kind_adj_def)
  next
    case False
    have s': "lexer_ok s'" "lx_input s' = lx_input s" "is_cpp s' = is_cpp s" "lx_after_newline s' = is_newline t"
      using t(2) by (auto simp: token_from_def is_cpp_def)
    have "remaining s' < remaining s" using p(1) p(3) [OF False] s'(2) by (simp add: remaining_def) arith
    from less.hyps [OF this s'(1)] obtain ts ps where ts: "tokenize s' = Some ts" "ts \<noteq> []" "is_eof (last ts)" "\<forall>t \<in> set (butlast ts). \<not> is_eof t"
      "list_all2 (at_counters (lx_input s)) ts ps" "sorted_wrt (<) ps" "\<forall>p \<in> set ps. lx_pos s' \<le> p"
      "raw_free (is_cpp s) (spliced_chars s') \<longrightarrow> scan (is_cpp s) (is_newline t) (length (spliced_chars s')) (spliced_chars s') (map kind_adj ts)"
      unfolding s'(2,3,4) by blast
    have "tokenize s = Some (t # ts)" using t(1) ts(1) False by (subst tokenize.simps) simp
    moreover have "scan (is_cpp s) (lx_after_newline s) (length (spliced_chars s)) (spliced_chars s) (map kind_adj (t # ts))"
      if "raw_free (is_cpp s) (spliced_chars s)"
      using t(3) [OF that] False ts(8) by (simp add: scanned_def kind_adj_def)
    moreover have "list_all2 (at_counters (lx_input s)) (t # ts) (p # ps)" "sorted_wrt (<) (p # ps)" "\<forall>q \<in> set (p # ps). lx_pos s \<le> q"
      using p False ts(5-7) by fastforce+
    ultimately show ?thesis using ts(2-4) False by (intro exI [where x = "t # ts"] exI [where x = "p # ps"]) simp
  qed
qed

section \<open>From the start of a file\<close>

lemma Lexer_new_ok:
  "lexer_ok (Lexer_new input language)" "lx_input (Lexer_new input language) = input" "is_cpp (Lexer_new input language) = (language = Cpp)"
  "lx_after_newline (Lexer_new input language)" "lx_pos (Lexer_new input language) = splice_end input 0"
proof -
  let ?s = "\<lparr>lx_input = input, lx_pos = 0, lx_line = 1, lx_col = 1, lx_splices = find_splices input, lx_next_splice = None,
      lx_splice_idx = 0, lx_after_newline = True, lx_language = language\<rparr>"
  have "placed ?s" by (simp add: placed_def line_at_def col_at_def as_u32_def)
  from resync_ok [OF this] show "lexer_ok (Lexer_new input language)" "lx_input (Lexer_new input language) = input"
    "is_cpp (Lexer_new input language) = (language = Cpp)" "lx_after_newline (Lexer_new input language)" "lx_pos (Lexer_new input language) = splice_end input 0"
    by (auto simp: Lexer_new_def same_text_def is_cpp_def)
qed

lemma spliced_strip:
  assumes "lexer_ok s"
  shows "spliced_chars s = strip_splices (drop (lx_pos s) (lx_input s))"
proof -
  let ?e = "(advance_char ^^ length (spliced_chars s)) s"
  note A = advance_many [OF assms order_refl]
  have "is_at_end ?e" using A(2) spliced_chars_empty [of ?e] by simp
  then have "lx_pos ?e = length (lx_input s)" using lexer_ok_place [OF A(3)] reads_ok(2) [OF A(1) assms] by (simp add: is_at_end_def same_text_def)
  then show ?thesis using strip_slice_reads [OF A(1) assms] by (simp add: slice_def)
qed

lemma strip_drop_end: "p \<le> length input \<Longrightarrow> strip_splices (drop (splice_end input p) input) = strip_splices (drop p input)"
  using strip_slice_end [of input p "length input"] splice_end_bound [of p input] by (simp add: slice_def)

text \<open>The characters ahead of a new lexer are the text with its splices deleted.\<close>

lemma Lexer_new_view: "spliced_chars (Lexer_new input language) = strip_splices input"
  using spliced_strip [OF Lexer_new_ok(1), of input language] strip_drop_end [of 0 input] by (simp add: Lexer_new_ok)

end
