(* ===== verification/Lexer_Props.thy ===== *)
theory Lexer_Props
  imports Lexer_Spec
begin

text \<open>
  The properties of the tokenizer: it returns on every input with tokens at strictly increasing physical places, its
  tokens are those of the text with the line splices deleted, and raw strings are copied as written.
\<close>

section \<open>Places\<close>

definition before :: "Token \<Rightarrow> Token \<Rightarrow> bool" where
  "before t u \<longleftrightarrow> tok_line t < tok_line u \<or> tok_line t = tok_line u \<and> tok_col t < tok_col u"

lemma place_less:
  assumes "p < q" "q \<le> length input"
  shows "line_at input p < line_at input q \<or> line_at input p = line_at input q \<and> col_at input p < col_at input q"
  using assms
proof (induction q)
  case (Suc q)
  have step: "line_at input q < line_at input (Suc q) \<or> line_at input q = line_at input (Suc q) \<and> col_at input q < col_at input (Suc q)"
    using place_step [of q input] Suc.prems(2) by simp
  show ?case
  proof (cases "p = q")
    case False
    then have "line_at input p < line_at input q \<or> line_at input p = line_at input q \<and> col_at input p < col_at input q" using Suc by simp
    then show ?thesis using step by auto
  qed (use step in simp)
qed simp

definition at_place :: "ustring \<Rightarrow> Token \<Rightarrow> nat \<Rightarrow> bool" where
  "at_place input t p \<longleftrightarrow> tok_line t = line_at input p \<and> tok_col t = col_at input p \<and>
     (if is_eof t then p = length input else p < length input)"

text \<open>The counters do not wrap on a text that is short enough.\<close>

lemma place_bound:
  assumes "length input < u32_max"
  shows "as_u32 (line_at input p) = line_at input p" "as_u32 (col_at input p) = col_at input p"
proof -
  have "length (filter (\<lambda>c. c = NL) (take p input)) \<le> length input" "length (takeWhile (\<lambda>c. c \<noteq> NL) (rev (take p input))) \<le> length input"
    using length_filter_le [of _ "take p input"] length_takeWhile_le [of _ "rev (take p input)"] by (auto intro: le_trans)
  then show "as_u32 (line_at input p) = line_at input p" "as_u32 (col_at input p) = col_at input p"
    using assms by (auto simp: line_at_def col_at_def intro!: as_u32_id)
qed

lemma at_counters_place: "length input < u32_max \<Longrightarrow> at_counters input = at_place input"
  by (intro ext) (simp add: at_counters_def at_place_def place_bound)

lemma at_place_before:
  assumes "list_all2 (at_place input) ts ps" "sorted_wrt (<) ps"
  shows "sorted_wrt before ts"
proof -
  have "before (ts ! i) (ts ! j)" if "i < j" "j < length ts" for i j
  proof -
    have "at_place input (ts ! i) (ps ! i)" "at_place input (ts ! j) (ps ! j)" "ps ! i < ps ! j"
      using assms that by (auto simp: list_all2_conv_all_nth sorted_wrt_iff_nth_less)
    then show ?thesis using place_less [of "ps ! i" "ps ! j" input] by (auto simp: at_place_def before_def split: if_splits)
  qed
  then show ?thesis by (simp add: sorted_wrt_iff_nth_less)
qed

lemma filter_last: "ts \<noteq> [] \<Longrightarrow> P (last ts) \<Longrightarrow> \<forall>t \<in> set (butlast ts). \<not> P t \<Longrightarrow> filter P ts = [last ts]"
  by (induction ts rule: rev_induct) (auto simp: filter_empty_conv)

text \<open>C17: tokenizing any text in either language returns: every reader makes progress. The tokens
  end with the only end-of-file token, at the end of the text; on a text short enough for the 32-bit counters (fewer than
  \<open>u32_max\<close> characters) each other token's line and column are the physical place of one of the text's characters, and
  places strictly increase from token to token, splices or not.\<close>

theorem tokenize_places:
  assumes "length input < u32_max"
  shows "\<exists>ts ps. tokenize (Lexer_new input language) = Some ts \<and> ts \<noteq> [] \<and> filter is_eof ts = [last ts] \<and>
     list_all2 (at_place input) ts ps \<and> sorted_wrt (<) ps \<and> sorted_wrt before ts"
proof -
  obtain ts ps where "tokenize (Lexer_new input language) = Some ts" "ts \<noteq> []" "is_eof (last ts)" "\<forall>t \<in> set (butlast ts). \<not> is_eof t"
    "list_all2 (at_place input) ts ps" "sorted_wrt (<) ps"
    using tokenize_ok [OF Lexer_new_ok(1) [of input language]] unfolding Lexer_new_ok at_counters_place [OF assms] by blast
  then show ?thesis using at_place_before filter_last by blast
qed

theorem tokenize_places_witness:
  "\<exists>ts ps. tokenize (Lexer_new [97, 92, 10, 98, 59] C) = Some ts \<and> ts \<noteq> [] \<and> filter is_eof ts = [last ts] \<and>
     list_all2 (at_place [97, 92, 10, 98, 59]) ts ps \<and> sorted_wrt (<) ps \<and> sorted_wrt before ts"
  by (rule tokenize_places) (simp add: u32_max_def)

section \<open>Tokens of the spliced text\<close>



text \<open>C19: consuming characters one at a time walks the text with its splices deleted: after \<open>n\<close> characters
  the rest of that text is ahead, what was passed is its first \<open>n\<close> characters and is also what
  \<open>strip_splices\<close> cuts out of the physical text between, the position is not on a splice and its line and column are
  physical. So the splice list, the index into it and the comparison with the next splice are an
  exact implementation of deleting splices. The text is short enough for the 32-bit counters of lines and columns.\<close>

theorem advance_walks_view:
  assumes "n \<le> length (strip_splices input)" "length input < u32_max"
  shows "spliced_chars ((advance_char ^^ n) (Lexer_new input language)) = drop n (strip_splices input) \<and>
    strip_splices (slice input (splice_end input 0) (lx_pos ((advance_char ^^ n) (Lexer_new input language)))) = take n (strip_splices input) \<and>
    splice_len input (lx_pos ((advance_char ^^ n) (Lexer_new input language))) = 0 \<and>
    lx_line ((advance_char ^^ n) (Lexer_new input language)) = line_at input (lx_pos ((advance_char ^^ n) (Lexer_new input language))) \<and>
    lx_col ((advance_char ^^ n) (Lexer_new input language)) = col_at input (lx_pos ((advance_char ^^ n) (Lexer_new input language)))"
proof -
  note N = Lexer_new_ok [of input language] and V = Lexer_new_view [of input language]
  note A = advance_many [OF N(1), of n, unfolded V, OF assms(1)]
  have i: "lx_input ((advance_char ^^ n) (Lexer_new input language)) = input" using reads_ok(2) [OF A(1) N(1)] N(2) by (simp add: same_text_def)
  show ?thesis using A(2) strip_slice_reads [OF A(1) N(1)] lexer_ok_place [OF A(3)] A(3) N(2,5) i place_bound [OF assms(2)] by (simp add: lexer_ok_def)
qed

theorem advance_walks_view_witness:
  "spliced_chars ((advance_char ^^ 1) (Lexer_new [97, 92, 10, 98] C)) = drop 1 (strip_splices [97, 92, 10, 98])"
proof -
  have "1 \<le> length (strip_splices [97, 92, 10, 98])" by code_simp
  moreover have "length [97, 92, 10, 98 :: uchar] < u32_max" by (simp add: u32_max_def)
  ultimately show ?thesis using advance_walks_view [of 1 "[97, 92, 10, 98]" C] by blast
qed

section \<open>Raw strings\<close>

lemma find_str_first: "prefix pat (drop n xs) \<Longrightarrow> n \<le> length xs \<Longrightarrow> \<forall>m < n. \<not> prefix pat (drop m xs) \<Longrightarrow> find_str pat xs = Some n"
proof (induction xs arbitrary: n)
  case (Cons x xs)
  show ?case
  proof (cases n)
    case (Suc m)
    have "\<not> prefix pat (x # xs)" using Cons.prems(3) Suc by (metis drop0 zero_less_Suc)
    moreover have "\<forall>k < m. \<not> prefix pat (drop k xs)" using Cons.prems(3) Suc by (metis Suc_less_eq drop_Suc_Cons)
    ultimately show ?thesis using Cons.IH [of m] Cons.prems Suc by simp
  qed (use Cons.prems in simp)
qed simp

lemma raw_delim_ok:
  assumes "list_all is_d_char d" "length d \<le> MAX_DELIM"
  shows "raw_delim (d @ str ''('' @ x) = Some (length d)"
proof -
  have "position (\<lambda>b. b = ch CHR ''('') (take (MAX_DELIM + 1) (d @ str ''('' @ x)) = Some (length d)"
    using assms by (auto simp: position_Some nth_append str_def MAX_DELIM_def list_all_length is_d_char_def)
  then show ?thesis using assms(1) by (simp add: raw_delim_def)
qed

text \<open>A raw string literal is one token spelled exactly as written: the prefix and \<open>R\<close> of the
  spliced text, then the physical text from the quote to the closer, line splices inside it
  included, then its suffix. The delimiter has at most sixteen characters and the first closer ends the literal; the lexer goes on
  in the spliced text after it.\<close>

theorem raw_string_verbatim:
  assumes "lexer_ok s" "is_cpp s" "enc + 1 \<le> length (spliced_chars s)" "closer = str '')'' @ d @ [DQ]"
    and phys: "drop (lx_pos ((advance_char ^^ (enc + 1)) s)) (lx_input s) = [DQ] @ d @ str ''('' @ body @ closer @ rest"
    and d: "list_all is_d_char d" "length d \<le> MAX_DELIM"
    and first: "\<forall>m < length body. \<not> prefix closer (drop m (body @ closer))"
  shows "\<exists>t s'. read_raw_string enc (lx_line s) (lx_col s) s = (Some t, s') \<and> lexed s t s' \<and>
    tok_kind t = String (take (enc + 1) (spliced_chars s) @ [DQ] @ d @ str ''('' @ body @ closer @ fst (suffix_split True (strip_splices rest))) \<and>
    spliced_chars s' = snd (suffix_split True (strip_splices rest))"
proof -
  define s1 where "s1 = (advance_char ^^ (enc + 1)) s"
  define lit where "lit = [DQ] @ d @ str ''('' @ body @ closer"
  define aq where "aq = d @ str ''('' @ body @ closer @ rest"
  note A = advance_many [OF assms(1,3), folded s1_def]
  note R = reads_ok [OF A(1) assms(1)]
  have inp: "lx_input s1 = lx_input s" using R(2) by (simp add: same_text_def)
  have rest: "drop (lx_pos s1) (lx_input s1) = lit @ rest" "drop 1 (lit @ rest) = aq"
    using phys inp by (simp_all add: s1_def lit_def aq_def)
  have delim: "raw_delim aq = Some (length d)" "take (length d) aq = d" using raw_delim_ok [OF d] by (simp_all add: aq_def)
  have after: "drop (1 + length d + 1) (lit @ rest) = body @ closer @ rest" by (simp add: lit_def str_def)
  have "\<not> prefix closer (drop m (body @ closer @ rest))" if m: "m < length body" for m
  proof
    assume "prefix closer (drop m (body @ closer @ rest))"
    then have "take (length closer) (drop m (body @ closer @ rest)) = closer" by (metis prefix_def append_eq_conv_conj)
    then have "take (length closer) (drop m (body @ closer)) = closer" using m by simp
    then show False using first m by (metis take_is_prefix)
  qed
  then have found: "find_str closer (body @ closer @ rest) = Some (length body)" by (intro find_str_first) auto
  have total: "1 + length d + 1 + length body + length closer = length lit" by (simp add: lit_def str_def)
  have "length (lx_input s1) - lx_pos s1 = length lit + length rest" "lx_pos s1 \<le> length (lx_input s1)"
    using arg_cong [OF rest(1), of length] lexer_ok_place [OF R(1)] by simp_all
  then have tot: "lx_pos s1 + length lit \<le> length (lx_input s1)" by linarith
  define s2 where "s2 = advance_physical (length lit) s1"
  have s2: "lexer_ok s2" "lx_pos s2 = splice_end (lx_input s) (lx_pos s1 + length lit)" "same_text s1 s2"
    using advance_physical_ok [OF lexer_ok_placed [OF R(1)] tot] by (simp_all add: s2_def inp)
  have "drop (lx_pos s1 + length lit) (lx_input s) = rest" using rest(1) inp by (metis append_eq_conv_conj drop_drop add.commute)
  then have v2: "spliced_chars s2 = strip_splices rest"
    using spliced_strip [OF s2(1)] strip_drop_end [of "lx_pos s1 + length lit" "lx_input s"] s2(2,3) tot inp by (simp add: same_text_def)
  have cpp: "is_cpp s2" using assms(2) is_cpp_same [OF R(2)] is_cpp_same [OF s2(3)] by simp
  let ?pre = "lookahead_string (enc + 1) s @ lit"
  obtain s3 where s3: "read_ud_suffix ?pre s2 = (?pre @ fst (suffix_split True (strip_splices rest)), s3)" "reads s2 (fst (suffix_split True (strip_splices rest))) s3"
    "spliced_chars s3 = snd (suffix_split True (strip_splices rest))" using read_ud_suffix_view [OF s2(1), of ?pre] cpp v2 by auto
  have raw: "read_raw_string enc (lx_line s) (lx_col s) s = (Some (Token_new (String (?pre @ fst (suffix_split True (strip_splices rest)))) (lx_line s) (lx_col s)), s3)"
    using delim found after total s3(1) assms(4) unfolding read_raw_string_def Let_def s1_def [symmetric] rest by (simp add: s2_def [symmetric])
  then have "lexed s (Token_new (String (?pre @ fst (suffix_split True (strip_splices rest)))) (lx_line s) (lx_col s)) s3"
    using raw_string_cases [OF assms(1,3)] by auto
  then show ?thesis using raw s3(3) by (simp add: Token_new_def lookahead_string_def lit_def)
qed

lemma raw_witness_facts:
  "is_cpp (Lexer_new (str ''R'' @ [DQ] @ str ''x('' @ [92, 10] @ str '')x'' @ [DQ, 59]) Cpp) \<and>
   0 + 1 \<le> length (spliced_chars (Lexer_new (str ''R'' @ [DQ] @ str ''x('' @ [92, 10] @ str '')x'' @ [DQ, 59]) Cpp)) \<and>
   drop (lx_pos ((advance_char ^^ (0 + 1)) (Lexer_new (str ''R'' @ [DQ] @ str ''x('' @ [92, 10] @ str '')x'' @ [DQ, 59]) Cpp)))
     (lx_input (Lexer_new (str ''R'' @ [DQ] @ str ''x('' @ [92, 10] @ str '')x'' @ [DQ, 59]) Cpp)) =
     [DQ] @ str ''x'' @ str ''('' @ [92, 10] @ (str '')'' @ str ''x'' @ [DQ]) @ [59] \<and>
   list_all is_d_char (str ''x'') \<and> length (str ''x'') \<le> MAX_DELIM"
  by code_simp

theorem raw_string_verbatim_witness:
  "\<exists>t s'. read_raw_string 0 (lx_line (Lexer_new (str ''R'' @ [DQ] @ str ''x('' @ [92, 10] @ str '')x'' @ [DQ, 59]) Cpp))
      (lx_col (Lexer_new (str ''R'' @ [DQ] @ str ''x('' @ [92, 10] @ str '')x'' @ [DQ, 59]) Cpp))
      (Lexer_new (str ''R'' @ [DQ] @ str ''x('' @ [92, 10] @ str '')x'' @ [DQ, 59]) Cpp) = (Some t, s') \<and>
    spliced_chars s' = snd (suffix_split True (strip_splices [59]))"
proof -
  have "\<forall>m < length [92, 10 :: nat]. \<not> prefix (str '')'' @ str ''x'' @ [DQ]) (drop m ([92, 10] @ (str '')'' @ str ''x'' @ [DQ])))"
    by (simp add: str_def less_Suc_eq)
  with raw_string_verbatim [OF Lexer_new_ok(1), of "str ''R'' @ [DQ] @ str ''x('' @ [92, 10] @ str '')x'' @ [DQ, 59]" Cpp 0
      "str '')'' @ str ''x'' @ [DQ]" "str ''x''" "[92, 10]" "[59]"] raw_witness_facts
  show ?thesis by blast
qed

section \<open>Unterminated literals\<close>

inductive_cases scanE: "scan cpp nl n v ts"

lemma body_split_open: "q \<notin> set b \<Longrightarrow> BS \<notin> set b \<Longrightarrow> body_split q False b = (b, [])"
  by (induction q False b rule: body_split.induct) auto

lemma strip_splices_none: "BS \<notin> set v \<Longrightarrow> strip_splices v = v"
proof -
  assume "BS \<notin> set v"
  then have "position (\<lambda>c. c = BS) v = None" by (auto simp: position_None)
  then show ?thesis by (subst strip_splices.simps) simp
qed

lemma scan_literal:
  assumes "SQ \<notin> set b" "BS \<notin> set b" "scan False nl n (SQ # b) ts"
  shows "map fst ts = [Char (SQ # b @ [SQ]), Eof]"
proof -
  have b: "blank_rest (SQ # b) = SQ # b" by (simp add: blank_rest.simps [of "_ # _"] str_def)
  have s: "token_split False (blank_rest (SQ # b)) = Some (Char (SQ # b @ [SQ]), [])"
    using body_split_open [OF assms(1,2)] unfolding b by (simp add: token_split_def quoted_def literal_split_def suffix_split_def str_def)
  have e: "map fst us = [Eof]" if "scan False False m [] us" for m us
    using that by (rule scanE) (auto simp: token_split_def blank_rest.simps)
  from assms(3) show ?thesis by (rule scanE) (use s e in auto)
qed

text \<open>A character literal that is not closed does not end with its line: with no further quote or backslash it takes the
  rest of the file, newlines included, and gets its closing quote back at the end.\<close>

theorem char_literal_crosses_lines:
  assumes "SQ \<notin> set b" "BS \<notin> set b"
  shows "\<exists>ts. tokenize (Lexer_new (SQ # b) C) = Some ts \<and> map tok_kind ts = [Char (SQ # b @ [SQ]), Eof]"
proof -
  have v: "spliced_chars (Lexer_new (SQ # b) C) = SQ # b" using strip_splices_none [of "SQ # b"] assms(2) by (simp add: Lexer_new_view)
  obtain ts where ts: "tokenize (Lexer_new (SQ # b) C) = Some ts" "scan False True (length (SQ # b)) (SQ # b) (map kind_adj ts)"
    using tokenize_ok [OF Lexer_new_ok(1) [of "SQ # b" C]] Lexer_new_ok(4) [of "SQ # b" C] unfolding Lexer_new_ok v by (auto simp: raw_free_def)
  have "map fst (map kind_adj ts) = map tok_kind ts" by (simp add: kind_adj_def)
  then show ?thesis using ts(1) scan_literal [OF assms ts(2)] by auto
qed

theorem char_literal_crosses_lines_witness:
  "\<exists>ts. tokenize (Lexer_new [SQ, 116, NL, 120] C) = Some ts \<and> map tok_kind ts = [Char [SQ, 116, NL, 120, SQ], Eof]"
  using char_literal_crosses_lines [of "[116, NL, 120]"] by simp

end
