(* ===== verification/Pp_Macro.thy ===== *)
theory Pp_Macro
  imports Token
begin

text \<open>
  Macro definitions, the arguments of an invocation, and the substitution of a replacement list (\<^verbatim>\<open>trace-preproc/src/macros.rs\<close> and
  the free functions of \<^verbatim>\<open>trace-preproc/src/preprocessor.rs\<close>): stringizing, the placemarker and GNU comma rules of \<^verbatim>\<open>##\<close>,
  pasting, and the projection of how many tokens a substitution makes. Indexing the separators of an argument list out of range
  panics, so a substitution returns an option. The depth of nested parentheses in an argument list is a number without the 32-bit bound of
  the code, which takes 2 ^ 32 open parentheses to reach. Debug assertions are no part of a definition, as in a release build; the one of
  \<^verbatim>\<open>substitute_macro\<close> is \<open>names_tail\<close>.
\<close>

section \<open>Definitions and arguments\<close>

datatype MacroDef =
    MacroObject "Token list"
  | MacroFunction "ustring list" "Token list" bool
  | GmockMethod

record MacroArgs =
  ma_args :: "Token list list"
  ma_separators :: "Token list"

definition is_variadic_tail :: "ustring list \<Rightarrow> bool \<Rightarrow> nat \<Rightarrow> bool" where
  "is_variadic_tail params variadic idx \<longleftrightarrow> variadic \<and> idx + 1 = length params"

definition arg_is_blank :: "Token list \<Rightarrow> bool" where
  "arg_is_blank arg \<longleftrightarrow> list_all is_newline arg"

definition args_are_blank :: "Token list list \<Rightarrow> nat \<Rightarrow> bool" where
  "args_are_blank args idx \<longleftrightarrow> list_all arg_is_blank (drop idx args)"

definition varargs_omitted :: "Token list list \<Rightarrow> nat \<Rightarrow> bool" where
  "varargs_omitted args idx \<longleftrightarrow> length args \<le> idx \<or> idx = 0 \<and> length args = 1 \<and> arg_is_blank (args ! 0)"

definition is_gnu_comma_paste :: "Token list \<Rightarrow> nat \<Rightarrow> bool \<Rightarrow> bool" where
  "is_gnu_comma_paste body op right_is_variadic_tail \<longleftrightarrow>
     right_is_variadic_tail \<and> 0 < op \<and> op - 1 < length body \<and> is_punct (str '','') (body ! (op - 1))"

definition variadic_len :: "MacroArgs \<Rightarrow> nat \<Rightarrow> nat" where
  "variadic_len a idx = fold (\<lambda>ai n. (if idx < ai then n + 1 else n) + length (ma_args a ! ai)) [idx..<length (ma_args a)] 0"

definition variadic_push :: "MacroArgs \<Rightarrow> nat \<Rightarrow> Token list \<Rightarrow> nat \<Rightarrow> Token list option" where
  "variadic_push a idx out ai =
     (if idx < ai then map_option (\<lambda>sep. out @ [sep] @ ma_args a ! ai) (vget (ma_separators a) (ai - 1)) else Some (out @ ma_args a ! ai))"

definition variadic_tokens :: "MacroArgs \<Rightarrow> nat \<Rightarrow> Token list option" where
  "variadic_tokens a idx = foldM (variadic_push a idx) [] [idx..<length (ma_args a)]"

definition arg_tokens :: "MacroArgs \<Rightarrow> nat \<Rightarrow> Token list" where
  "arg_tokens a idx = (if idx < length (ma_args a) then ma_args a ! idx else [])"

section \<open>Stringizing\<close>

fun escape_for_stringize :: "ustring \<Rightarrow> ustring" where
  "escape_for_stringize [] = []"
| "escape_for_stringize (c # s) =
     (if c = 92 \<or> c = 34 then [92, c]
      else if c = 10 then [92, ch CHR ''n'']
      else if c = 13 then (if s \<noteq> [] \<and> hd s = 10 then [] else [92, ch CHR ''r''])
      else [c]) @ escape_for_stringize s"

fun token_spelling :: "(ustring \<Rightarrow> ustring) \<Rightarrow> TokenKind \<Rightarrow> ustring option" where
  "token_spelling literal Newline = None"
| "token_spelling literal Eof = None"
| "token_spelling literal (Identifier s) = Some s"
| "token_spelling literal (Number s) = Some s"
| "token_spelling literal (Punct s) = Some s"
| "token_spelling literal Hash = Some (str ''#'')"
| "token_spelling literal (String s) = Some (literal s)"
| "token_spelling literal (Char s) = Some (literal s)"

primrec spell_loop :: "(ustring \<Rightarrow> ustring) \<Rightarrow> bool \<Rightarrow> ustring \<Rightarrow> Token list \<Rightarrow> ustring" where
  "spell_loop literal first text [] = text"
| "spell_loop literal first text (t # ts) =
     (case token_spelling literal (tok_kind t) of
        None \<Rightarrow> spell_loop literal first text ts
      | Some s \<Rightarrow> spell_loop literal False (text @ (if \<not> first \<and> \<not> tok_adjacent_before t then [32] else []) @ s) ts)"

definition spell_tokens :: "(ustring \<Rightarrow> ustring) \<Rightarrow> Token list \<Rightarrow> ustring" where
  "spell_tokens literal arg = spell_loop literal True [] arg"

definition stringize_spelling :: "Token list \<Rightarrow> ustring" where
  "stringize_spelling arg = spell_tokens escape_for_stringize arg"

section \<open>Pasting\<close>

definition concat_width_at :: "Token list \<Rightarrow> nat \<Rightarrow> nat" where
  "concat_width_at tokens i =
     (if is_punct (str ''##'') (tokens ! i) then 1
      else if tok_kind (tokens ! i) = Hash \<and> i + 1 < length tokens \<and> tok_kind (tokens ! (i + 1)) = Hash then 2
      else 0)"

definition concat_width_after :: "Token list \<Rightarrow> nat \<Rightarrow> nat" where
  "concat_width_after tokens i = (if i + 1 < length tokens then concat_width_at tokens (i + 1) else 0)"

fun token_paste_fragment :: "TokenKind \<Rightarrow> ustring" where
  "token_paste_fragment (Identifier s) = s"
| "token_paste_fragment (Number s) = s"
| "token_paste_fragment (Punct s) = (if s \<noteq> str ''##'' then s else [])"
| "token_paste_fragment _ = []"

definition paste_two_tokens :: "Token \<Rightarrow> Token \<Rightarrow> Token" where
  "paste_two_tokens left right =
     (let (line, col, spelling_file) =
            (case tok_spelling_file left of
               Some sf \<Rightarrow> (tok_line left, tok_col left, Some sf)
             | None \<Rightarrow>
                 (case tok_spelling_file right of
                    Some sf \<Rightarrow> (tok_line right, tok_col right, Some sf)
                  | None \<Rightarrow> (tok_line left, tok_col left, None)));
          hidden = union_hidden left right;
          origin = (case tok_origin left of Some o1 \<Rightarrow> Some o1 | None \<Rightarrow> tok_origin right);
          expansion_id = tok_expansion_id left XOR word_rotl 1 (tok_expansion_id right);
          expansion_macro = (case tok_expansion_macro left of Some m \<Rightarrow> Some m | None \<Rightarrow> tok_expansion_macro right)
      in \<lparr>tok_kind = Identifier (token_paste_fragment (tok_kind left) @ token_paste_fragment (tok_kind right)),
          tok_line = line, tok_col = col, tok_adjacent_before = tok_adjacent_before left,
          tok_macro_prov =
            (if hidden \<noteq> None \<or> origin \<noteq> None \<or> expansion_id \<noteq> 0 \<or> expansion_macro \<noteq> None \<or> spelling_file \<noteq> None
             then Some \<lparr>mp_hidden = hidden, mp_origin = origin, mp_expansion_id = expansion_id,
                        mp_expansion_macro = expansion_macro, mp_spelling_file = spelling_file\<rparr>
             else None)\<rparr>)"

text \<open>One pass over the tokens: what was emitted so far, whether anything was pasted, and the tokens from the position on.\<close>

function concat_pass :: "Token list \<Rightarrow> bool \<Rightarrow> Token list \<Rightarrow> Token list \<times> bool" where
  "concat_pass out pasted [] = (out, pasted)"
| "concat_pass out pasted (t # ts) =
     (let width = concat_width_at (t # ts) 0
      in if 0 < width then
           (if out = [] then concat_pass out pasted (drop width (t # ts))
            else
              (case drop width (t # ts) of
                 r # rest \<Rightarrow> concat_pass (butlast out @ [paste_two_tokens (last out) r]) True rest
               | [] \<Rightarrow> concat_pass out pasted []))
         else concat_pass (out @ [t]) pasted ts)"
  by pat_completeness auto
termination
proof (relation "measure (\<lambda>(out, pasted, ts). length ts)", goal_cases)
  case (4 out pasted t ts width r rest)
  then have "length (drop width (t # ts)) = Suc (length rest)" by simp
  then have "Suc (length ts) - width = Suc (length rest)" by simp
  then show ?case using 4(2) by simp
qed simp_all

lemma concat_pass_length: "length (fst (concat_pass out pasted ts)) \<le> length out + length ts \<and>
   (snd (concat_pass out pasted ts) \<longrightarrow> pasted \<or> length (fst (concat_pass out pasted ts)) < length out + length ts)"
proof (induction out pasted ts rule: concat_pass.induct)
  case (2 out pasted t ts)
  let ?w = "concat_width_at (t # ts) 0"
  show ?case
  proof (cases "0 < ?w")
    case w: True
    show ?thesis
    proof (cases "out = []")
      case True
      then show ?thesis using 2(1) [OF refl w True] w by auto
    next
      case False
      show ?thesis
      proof (cases "drop ?w (t # ts)")
        case Nil
        then show ?thesis using 2(2) [OF refl w False] w False by simp
      next
        case (Cons r rest)
        have "length (drop ?w (t # ts)) = Suc (length rest)" using Cons by simp
        then have "length rest < length ts" using w by simp
        then show ?thesis using 2(3) [OF refl w False Cons] w False Cons by auto
      qed
    qed
  next
    case False
    then show ?thesis using 2(4) [OF refl False] by auto
  qed
qed simp

function apply_concatenation :: "Token list \<Rightarrow> Token list" where
  "apply_concatenation tokens =
     (let (out, pasted) = concat_pass [] False tokens in if \<not> pasted then out else apply_concatenation out)"
  by pat_completeness auto
termination
proof (relation "measure length", goal_cases)
  case (2 tokens x out pasted)
  then have "concat_pass [] False tokens = (out, True)" by simp
  then show ?case using concat_pass_length [of "[]" False tokens] by simp
qed simp

declare apply_concatenation.simps [simp del]

section \<open>Substitution\<close>

definition parameter_is_pasted_or_stringized :: "Token list \<Rightarrow> nat \<Rightarrow> bool" where
  "parameter_is_pasted_or_stringized body i \<longleftrightarrow>
     (1 \<le> i \<and> (tok_kind (body ! (i - 1)) = Hash \<or> concat_width_at body (i - 1) > 0)) \<or>
     (2 \<le> i \<and> concat_width_at body (i - 2) = 2) \<or>
     concat_width_after body i > 0"

definition saturating_add :: "nat \<Rightarrow> nat \<Rightarrow> nat" where
  "saturating_add a b = min (a + b) (2 ^ 64 - 1)"

definition param_of :: "ustring list \<Rightarrow> Token \<Rightarrow> nat option" where
  "param_of params t = (case tok_kind t of Identifier name \<Rightarrow> position (\<lambda>p. p = name) params | _ \<Rightarrow> None)"

definition projected_width :: "ustring list \<Rightarrow> MacroArgs \<Rightarrow> bool \<Rightarrow> Token \<Rightarrow> nat" where
  "projected_width params args variadic tok =
     (case param_of params tok of
        Some idx \<Rightarrow> if is_variadic_tail params variadic idx then variadic_len args idx else length (arg_tokens args idx)
      | None \<Rightarrow> 1)"

definition projected_substitution_len :: "Token list \<Rightarrow> ustring list \<Rightarrow> MacroArgs \<Rightarrow> bool \<Rightarrow> nat" where
  "projected_substitution_len body params args variadic =
     foldl (\<lambda>n tok. saturating_add n (projected_width params args variadic tok)) 0 body"

definition projected_substitution_len_with_prescan :: "Token list \<Rightarrow> ustring list \<Rightarrow> MacroArgs \<Rightarrow> MacroArgs \<Rightarrow> bool \<Rightarrow> nat" where
  "projected_substitution_len_with_prescan body params raw expanded variadic =
     foldl (\<lambda>n (i, tok). saturating_add n
         (projected_width params (if parameter_is_pasted_or_stringized body i then raw else expanded) variadic tok))
       0 (enumerate 0 body)"

text \<open>The arguments of \<open>substitute_macro\<close>, and the variables of its loop.\<close>

record Substitution =
  su_macro_name :: ustring
  su_origin :: Token
  su_body :: "Token list"
  su_params :: "ustring list"
  su_args :: MacroArgs
  su_expanded :: MacroArgs
  su_hidden :: "ustring set option"
  su_variadic :: bool

record SubState =
  ss_out :: "Token list"
  ss_gap :: bool
  ss_paste_adjacency :: "bool option"

definition push_substituted :: "Token \<Rightarrow> SubState \<Rightarrow> SubState" where
  "push_substituted tok st =
     st\<lparr>ss_out := ss_out st @ [if ss_gap st then tok\<lparr>tok_adjacent_before := False\<rparr> else tok], ss_gap := False\<rparr>"

definition param_at :: "Substitution \<Rightarrow> nat \<Rightarrow> nat option" where
  "param_at c i = (if i < length (su_body c) then param_of (su_params c) (su_body c ! i) else None)"

definition collected :: "Substitution \<Rightarrow> MacroArgs \<Rightarrow> nat \<Rightarrow> Token list option" where
  "collected c args idx =
     (if is_variadic_tail (su_params c) (su_variadic c) idx then variadic_tokens args idx else Some (arg_tokens args idx))"

fun set_first_real :: "bool \<Rightarrow> Token list \<Rightarrow> Token list" where
  "set_first_real adj [] = []"
| "set_first_real adj (t # ts) = (if is_newline t then t # set_first_real adj ts else t\<lparr>tok_adjacent_before := adj\<rparr> # ts)"

text \<open>The three branches after the \<^verbatim>\<open>## param\<close> rules: \<^verbatim>\<open>#param\<close>, a parameter, and a token of the replacement list.\<close>

definition sub_stringize :: "Substitution \<Rightarrow> nat \<Rightarrow> bool \<Rightarrow> nat \<Rightarrow> SubState \<Rightarrow> (nat \<times> SubState) option" where
  "sub_stringize c i adjacency idx st =
     do {
       toks \<leftarrow> collected c (su_args c) idx;
       let hash = su_body c ! i;
       let literal = with_macro_hide (Token_new (String (34 # stringize_spelling toks @ [34])) (tok_line hash) (tok_col hash))
             (su_origin c) (su_macro_name c);
       Some (i + 2, push_substituted (literal\<lparr>tok_adjacent_before := adjacency\<rparr>) st)
     }"

definition sub_parameter :: "Substitution \<Rightarrow> nat \<Rightarrow> bool \<Rightarrow> nat \<Rightarrow> SubState \<Rightarrow> (nat \<times> SubState) option" where
  "sub_parameter c i adjacency idx st =
     do {
       toks \<leftarrow> collected c (if parameter_is_pasted_or_stringized (su_body c) i then su_args c else su_expanded c) idx;
       let subst = map (\<lambda>t. with_substitution_provenance t (su_origin c) (su_macro_name c) (su_body c ! i) (su_hidden c)) toks;
       if list_ex (\<lambda>t. \<not> is_newline t) subst then
         Some (i + 1, st\<lparr>ss_out := ss_out st @ set_first_real (adjacency \<and> \<not> ss_gap st) subst, ss_gap := False\<rparr>)
       else
         let width = concat_width_after (su_body c) i
         in if 0 < width then Some (i + 1 + width, st\<lparr>ss_paste_adjacency := Some adjacency\<rparr>)
            else Some (i + 1, st\<lparr>ss_out := ss_out st @ subst, ss_gap := ss_gap st \<or> \<not> adjacency\<rparr>)
     }"

definition sub_plain :: "Substitution \<Rightarrow> nat \<Rightarrow> bool \<Rightarrow> SubState \<Rightarrow> (nat \<times> SubState) option" where
  "sub_plain c i adjacency st =
     Some (i + 1, push_substituted ((with_macro_hide (su_body c ! i) (su_origin c) (su_macro_name c))\<lparr>tok_adjacent_before := adjacency\<rparr>) st)"

definition sub_rest :: "Substitution \<Rightarrow> nat \<Rightarrow> bool \<Rightarrow> SubState \<Rightarrow> (nat \<times> SubState) option" where
  "sub_rest c i adjacency st =
     (case (if tok_kind (su_body c ! i) = Hash then param_at c (i + 1) else None) of
        Some idx \<Rightarrow> sub_stringize c i adjacency idx st
      | None \<Rightarrow> (case param_at c i of Some idx \<Rightarrow> sub_parameter c i adjacency idx st | None \<Rightarrow> sub_plain c i adjacency st))"

definition sub_step :: "Substitution \<Rightarrow> nat \<Rightarrow> SubState \<Rightarrow> (nat \<times> SubState) option" where
  "sub_step c i st0 =
     (let body = su_body c;
          adjacency = (case ss_paste_adjacency st0 of Some a \<Rightarrow> a | None \<Rightarrow> tok_adjacent_before (body ! i));
          st = st0\<lparr>ss_paste_adjacency := None\<rparr>;
          width = concat_width_at body i
      in case (if 0 < width then param_at c (i + width) else None) of
           None \<Rightarrow> sub_rest c i adjacency st
         | Some idx \<Rightarrow>
             (let va_tail = is_variadic_tail (su_params c) (su_variadic c) idx; args = ma_args (su_args c)
              in if is_gnu_comma_paste body i va_tail then
                   (if varargs_omitted args idx then Some (i + width + 1, st\<lparr>ss_out := butlast (ss_out st)\<rparr>)
                    else Some (i + width, st))
                 else if (if va_tail then args_are_blank args idx else arg_is_blank (arg_tokens (su_args c) idx)) then
                   Some (i + width + 1, st)
                 else sub_rest c i adjacency st))"

lemmas sub_defs = sub_step_def sub_rest_def sub_stringize_def sub_parameter_def sub_plain_def

lemma sub_step_forward: "sub_step c i st = Some (j, st') \<Longrightarrow> i < j"
  by (auto simp: sub_defs Let_def split: option.splits if_splits bind_splits)

function sub_loop :: "Substitution \<Rightarrow> nat \<Rightarrow> SubState \<Rightarrow> Token list option" where
  "sub_loop c i st =
     (if i < length (su_body c) then (case sub_step c i st of None \<Rightarrow> None | Some (j, st') \<Rightarrow> sub_loop c j st') else Some (ss_out st))"
  by pat_completeness auto
termination
  by (relation "measure (\<lambda>(c, i, st). length (su_body c) - i)") (use sub_step_forward in \<open>auto intro: diff_less_mono2\<close>)

declare sub_loop.simps [simp del]

text \<open>What \<^verbatim>\<open>substitute_macro\<close> asserts of a definition in debug builds, and \<^verbatim>\<open>MacroDef::Function\<close> documents: a variadic macro names its tail parameter.\<close>

definition names_tail :: "bool \<Rightarrow> ustring list \<Rightarrow> bool" where
  "names_tail variadic params \<longleftrightarrow> \<not> variadic \<or> params \<noteq> []"

definition substitute_macro ::
  "ustring \<Rightarrow> Token \<Rightarrow> Token list \<Rightarrow> ustring list \<Rightarrow> MacroArgs \<Rightarrow> MacroArgs option \<Rightarrow> bool \<Rightarrow> Token list option" where
  "substitute_macro macro_name origin body params args expanded_args variadic =
     sub_loop
       \<lparr>su_macro_name = macro_name, su_origin = origin, su_body = body, su_params = params, su_args = args,
        su_expanded = (case expanded_args of Some e \<Rightarrow> e | None \<Rightarrow> args),
        su_hidden =
          (case expanded_args of
             Some _ \<Rightarrow> Some (insert macro_name (case tok_hidden origin of Some h \<Rightarrow> h | None \<Rightarrow> {}))
           | None \<Rightarrow> None),
        su_variadic = variadic\<rparr>
       0 \<lparr>ss_out = [], ss_gap = False, ss_paste_adjacency = None\<rparr>"

section \<open>Invocations in conditions\<close>

text \<open>The loop of \<open>parse_cond_macro_args\<close>: the position, the arguments so far, the current one, the depth, and the tokens from the position on.\<close>

primrec collect_args :: "nat \<Rightarrow> MacroArgs \<Rightarrow> Token list \<Rightarrow> nat \<Rightarrow> Token list \<Rightarrow> (MacroArgs \<times> nat) option" where
  "collect_args i a current depth [] = None"
| "collect_args i a current depth (t # ts) =
     (if is_punct (str ''('') t then collect_args (i + 1) a (current @ [t]) (depth + 1) ts
      else if is_punct (str '')'') t \<and> depth = 0 then Some (a\<lparr>ma_args := ma_args a @ [current]\<rparr>, i + 1)
      else if is_punct (str '')'') t then collect_args (i + 1) a (current @ [t]) (depth - 1) ts
      else if is_punct (str '','') t \<and> depth = 0 then
        collect_args (i + 1) \<lparr>ma_args = ma_args a @ [current], ma_separators = ma_separators a @ [t]\<rparr> [] depth ts
      else collect_args (i + 1) a (current @ [t]) depth ts)"

definition parse_cond_macro_args :: "Token list \<Rightarrow> nat \<Rightarrow> (MacroArgs \<times> nat) option" where
  "parse_cond_macro_args toks i =
     (case drop i toks of
        t # ts \<Rightarrow> if is_punct (str ''('') t then collect_args (i + 1) \<lparr>ma_args = [], ma_separators = []\<rparr> [] 0 ts else None
      | [] \<Rightarrow> None)"

definition ident_name :: "Token \<Rightarrow> ustring option" where
  "ident_name tok = (case tok_kind tok of Identifier n \<Rightarrow> Some n | _ \<Rightarrow> None)"

definition defined_operand :: "Token list \<Rightarrow> nat \<Rightarrow> ustring option \<times> nat" where
  "defined_operand toks i =
     (case drop (i + 1) toks of
        [] \<Rightarrow> (None, 1)
      | t # ts \<Rightarrow>
          if is_punct (str ''('') t then
            (case ts of
               n # c # _ \<Rightarrow> if ident_name n \<noteq> None \<and> is_punct (str '')'') c then (ident_name n, 4) else (None, 2)
             | _ \<Rightarrow> (None, 2))
          else (case tok_kind t of Identifier n \<Rightarrow> (Some n, 2) | _ \<Rightarrow> (None, 1)))"

definition ends_line :: "Token \<Rightarrow> bool" where
  "ends_line t \<longleftrightarrow> tok_kind t = Newline \<or> tok_kind t = Eof"

definition skip_directive_line :: "Token list \<Rightarrow> nat \<Rightarrow> nat" where
  "skip_directive_line tokens i = i + length (takeWhile (\<lambda>t. \<not> ends_line t) (drop i tokens))"

text \<open>Every caller passes a position of the file at most its length, where the slice does not panic.\<close>

definition directive_rest :: "Token list \<Rightarrow> nat \<Rightarrow> Token list" where
  "directive_rest tokens i = (let e = skip_directive_line tokens i in drop (min i e) (take e tokens))"

definition spell_condition :: "Token list \<Rightarrow> ustring" where
  "spell_condition tokens = spell_tokens (\<lambda>s. s) tokens"

definition is_alternative_token :: "ustring \<Rightarrow> bool" where
  "is_alternative_token name \<longleftrightarrow>
     name \<in> set (map str [''and'', ''and_eq'', ''bitand'', ''bitor'', ''compl'', ''not'', ''not_eq'', ''or'', ''or_eq'', ''xor'', ''xor_eq''])"

record ConditionRead =
  cr_name :: ustring
  cr_bound :: "bool option"

fun dedup_loop :: "ustring set \<Rightarrow> ConditionRead list \<Rightarrow> ConditionRead list" where
  "dedup_loop seen [] = []"
| "dedup_loop seen (r # rs) = (if cr_name r \<in> seen then dedup_loop seen rs else r # dedup_loop (insert (cr_name r) seen) rs)"

definition dedup_reads :: "ConditionRead list \<Rightarrow> ConditionRead list" where
  "dedup_reads reads = dedup_loop {} reads"

definition spelled_name :: "Token list \<Rightarrow> nat \<Rightarrow> ustring option \<times> nat" where
  "spelled_name tokens i =
     (case ident_name (tokens ! i) of
        Some n \<Rightarrow>
          if n = str ''defined'' then (let (operand, consumed) = defined_operand tokens i in (operand, i + consumed))
          else (if n \<noteq> str ''__LINE__'' \<and> \<not> is_alternative_token n then Some n else None, i + 1)
      | None \<Rightarrow> (None, i + 1))"

lemma defined_operand_forward: "0 < snd (defined_operand toks i)"
  by (simp add: defined_operand_def split: list.split TokenKind.split)

lemma spelled_name_forward: "i < snd (spelled_name tokens i)"
  using defined_operand_forward [of tokens i] by (auto simp: spelled_name_def case_prod_beta split: option.split)

function spelled_loop :: "Token list \<Rightarrow> nat \<Rightarrow> ConditionRead list \<Rightarrow> ConditionRead list" where
  "spelled_loop tokens i reads =
     (if i < length tokens then
        spelled_loop tokens (snd (spelled_name tokens i))
          (case fst (spelled_name tokens i) of Some n \<Rightarrow> reads @ [\<lparr>cr_name = n, cr_bound = None\<rparr>] | None \<Rightarrow> reads)
      else reads)"
  by pat_completeness auto
termination
  by (relation "measure (\<lambda>(tokens, i, reads). length tokens - i)") (use spelled_name_forward in \<open>auto intro: diff_less_mono2\<close>)

declare spelled_loop.simps [simp del]

definition spelled_reads :: "Token list \<Rightarrow> ConditionRead list" where
  "spelled_reads tokens = dedup_reads (spelled_loop tokens 0 [])"

definition negated_defined_name :: "Token list \<Rightarrow> ustring option" where
  "negated_defined_name expr =
     (case expr of
        bang # def # rest \<Rightarrow>
          if is_punct (str ''!'') bang \<and> is_ident (str ''defined'') def then
            (case rest of
               [op, name, cl] \<Rightarrow> if is_punct (str ''('') op \<and> is_punct (str '')'') cl then ident_name name else None
             | [name] \<Rightarrow> ident_name name
             | _ \<Rightarrow> None)
          else None
      | _ \<Rightarrow> None)"

end
