(* ===== verification/Pp_Env.thy ===== *)
theory Pp_Env
  imports Pp_Macro "HOL-Library.AList"
begin

text \<open>
  The macro environment of a preprocessing run and the record of what a cached header read of it (\<^verbatim>\<open>PreprocessorState\<close>, \<^verbatim>\<open>CacheFrame\<close> and
  \<^verbatim>\<open>MacroFingerprint\<close> in \<^verbatim>\<open>trace-preproc/src/preprocessor.rs\<close> and \<^verbatim>\<open>options.rs\<close>, reports as in \<^verbatim>\<open>diagnostic.rs\<close>). The state holds the
  fields these operations and the conditional directives touch. The outermost cache frame comes first, as in the code. The standard
  library's hasher is the parameter \<open>H\<close>, a function of the sequence of values fed to it.
\<close>

section \<open>Data\<close>

datatype DiagnosticSeverity = SevError | SevWarning

record Diagnostic =
  dg_severity :: DiagnosticSeverity
  dg_file :: "ustring option"
  dg_line :: nat
  dg_message :: ustring

type_synonym DiagnosticKey = "ustring option \<times> nat \<times> ustring"

definition diagnostic_key :: "Diagnostic \<Rightarrow> DiagnosticKey" where
  "diagnostic_key d = (dg_file d, dg_line d, dg_message d)"

record MacroFingerprint =
  mf_incompatible :: bool
  mf_defined :: "(ustring \<times> 64 word) list"
  mf_undefined :: "ustring list"
  mf_required_headers :: "(ustring \<times> 64 word) list"
  mf_header_context_size :: "nat option"

definition MacroFingerprint_default :: MacroFingerprint where
  "MacroFingerprint_default =
     \<lparr>mf_incompatible = False, mf_defined = [], mf_undefined = [], mf_required_headers = [], mf_header_context_size = None\<rparr>"

text \<open>Why a file may be skipped when it is included again.\<close>

datatype FileGuard = Once | Ifndef ustring

record CacheFrame =
  cf_deps :: MacroFingerprint
  cf_provided_headers :: "ustring set"
  cf_settled :: "ustring set"
  cf_locally_bound :: "ustring set"
  cf_diagnostics :: "Diagnostic list"
  cf_diagnostic_keys :: "DiagnosticKey set"
  cf_guards :: "ustring \<rightharpoonup> FileGuard"

datatype MacroOp = DefineOp ustring MacroDef | UndefOp ustring

datatype ArmDirective = ArmIf | ArmIfdef | ArmIfndef | ArmElif | ArmElse

datatype ArmOutcome = Taken | Skipped | Unevaluated

record ConditionalArm =
  arm_directive :: ArmDirective
  arm_expression :: ustring
  arm_line :: nat
  arm_end_line :: nat
  arm_outcome_of :: ArmOutcome
  arm_evaluated :: bool
  arm_reads :: "ConditionRead list"

record ConditionalChain =
  cc_file :: ustring
  cc_arms :: "ConditionalArm list"
  cc_depth :: nat
  cc_terminated :: bool
  cc_include_guard :: bool

record CondFrame =
  fr_parent_active :: bool
  fr_active :: bool
  fr_taken :: bool
  fr_else_seen :: bool
  fr_line :: nat
  fr_chain :: "nat option"

record PreprocessorState =
  ps_macros :: "ustring \<rightharpoonup> MacroDef"
  ps_fallback_macros :: "ustring set"
  ps_macro_hashes :: "ustring \<rightharpoonup> 64 word"
  ps_system_signatures :: "(ustring \<times> 64 word) list"
  ps_cache_frames :: "CacheFrame list"
  ps_macro_ops :: "MacroOp list"
  ps_diagnostics :: "Diagnostic list"
  ps_diagnostic_keys :: "DiagnosticKey set"
  ps_current_file :: ustring
  ps_cond_reads :: "ConditionRead list option"
  ps_record_conditionals :: bool
  ps_conditional_stack :: "CondFrame list"
  ps_cond_base :: nat
  ps_conditionals :: "ConditionalChain list"
  ps_guarded_file :: bool
  ps_file_guards :: "ustring \<rightharpoonup> FileGuard"

section \<open>Reports\<close>

definition record_cache_diagnostic :: "Diagnostic \<Rightarrow> CacheFrame \<Rightarrow> CacheFrame" where
  "record_cache_diagnostic d f =
     (if diagnostic_key d \<in> cf_diagnostic_keys f then f
      else f\<lparr>cf_diagnostic_keys := insert (diagnostic_key d) (cf_diagnostic_keys f), cf_diagnostics := cf_diagnostics f @ [d]\<rparr>)"

definition push_diagnostic :: "Diagnostic \<Rightarrow> PreprocessorState \<Rightarrow> PreprocessorState" where
  "push_diagnostic d st =
     (let st1 = st\<lparr>ps_cache_frames := map (record_cache_diagnostic d) (ps_cache_frames st)\<rparr>
      in if diagnostic_key d \<in> ps_diagnostic_keys st1 then st1
         else st1\<lparr>ps_diagnostic_keys := insert (diagnostic_key d) (ps_diagnostic_keys st1), ps_diagnostics := ps_diagnostics st1 @ [d]\<rparr>)"

definition report :: "DiagnosticSeverity \<Rightarrow> nat \<Rightarrow> ustring \<Rightarrow> PreprocessorState \<Rightarrow> PreprocessorState" where
  "report severity line message st =
     push_diagnostic \<lparr>dg_severity = severity, dg_file = Some (ps_current_file st), dg_line = line, dg_message = message\<rparr> st"

definition warn :: "nat \<Rightarrow> ustring \<Rightarrow> PreprocessorState \<Rightarrow> PreprocessorState" where
  "warn line message st = report SevWarning line message st"

section \<open>Binding hashes\<close>

datatype HashItem = HBool bool | HU8 nat | HU32 nat | HStr ustring | HPath "ustring option" | HStrings "ustring list"

fun hash_kind :: "TokenKind \<Rightarrow> HashItem list" where
  "hash_kind (Identifier sp) = [HU8 0, HStr sp]"
| "hash_kind (Number sp) = [HU8 0, HStr sp]"
| "hash_kind (String sp) = [HU8 1, HStr sp]"
| "hash_kind (Char sp) = [HU8 2, HStr sp]"
| "hash_kind (Punct sp) = [HU8 3, HStr sp]"
| "hash_kind Hash = [HU8 4]"
| "hash_kind Newline = [HU8 5]"
| "hash_kind Eof = [HU8 6]"

definition hash_tokens :: "Token list \<Rightarrow> HashItem list" where
  "hash_tokens toks =
     concat (map (\<lambda>t. [HBool (tok_adjacent_before t), HPath (tok_spelling_file t)] @
         (if tok_spelling_file t \<noteq> None then [HU32 (tok_line t), HU32 (tok_col t)] else []) @ hash_kind (tok_kind t)) toks)"

fun binding_items :: "MacroDef \<Rightarrow> HashItem list" where
  "binding_items (MacroObject replacement) = HU8 0 # hash_tokens replacement"
| "binding_items (MacroFunction params replacement variadic) = [HU8 1, HStrings params, HBool variadic] @ hash_tokens replacement"
| "binding_items GmockMethod = [HU8 2]"

definition hash_macro_binding :: "(HashItem list \<Rightarrow> 64 word) \<Rightarrow> MacroDef \<Rightarrow> bool \<Rightarrow> 64 word" where
  "hash_macro_binding H d fallback = H (HBool fallback # binding_items d)"

definition binding_hash :: "(HashItem list \<Rightarrow> 64 word) \<Rightarrow> ustring \<Rightarrow> PreprocessorState \<Rightarrow> 64 word option \<times> PreprocessorState" where
  "binding_hash H name st =
     (case ps_macros st name of
        None \<Rightarrow> (None, st)
      | Some d \<Rightarrow>
          (case ps_macro_hashes st name of
             Some h \<Rightarrow> (Some h, st)
           | None \<Rightarrow>
               (let h = hash_macro_binding H d (name \<in> ps_fallback_macros st)
                in (Some h, st\<lparr>ps_macro_hashes := (ps_macro_hashes st)(name \<mapsto> h)\<rparr>))))"

section \<open>Reads\<close>

definition innermost_settled :: "ustring \<Rightarrow> PreprocessorState \<Rightarrow> bool" where
  "innermost_settled name st \<longleftrightarrow> ps_cache_frames st = [] \<or> name \<in> cf_settled (last (ps_cache_frames st))"

definition is_bound :: "ustring \<Rightarrow> PreprocessorState \<Rightarrow> bool" where
  "is_bound name st \<longleftrightarrow> ps_macros st name \<noteq> None \<and> name \<notin> ps_fallback_macros st"

definition set_insert :: "ustring \<Rightarrow> ustring list \<Rightarrow> ustring list" where
  "set_insert x xs = (if x \<in> set xs then xs else xs @ [x])"

definition add_dep :: "ustring \<Rightarrow> 64 word option \<Rightarrow> CacheFrame \<Rightarrow> CacheFrame" where
  "add_dep name hash f =
     (case hash of
        Some h \<Rightarrow> f\<lparr>cf_deps := (cf_deps f)\<lparr>mf_defined := mf_defined (cf_deps f) @ [(name, h)]\<rparr>\<rparr>
      | None \<Rightarrow> f\<lparr>cf_deps := (cf_deps f)\<lparr>mf_undefined := set_insert name (mf_undefined (cf_deps f))\<rparr>\<rparr>)"

definition settle :: "ustring \<Rightarrow> 64 word option \<Rightarrow> CacheFrame \<Rightarrow> CacheFrame" where
  "settle name hash f = (if name \<in> cf_settled f then f else add_dep name hash (f\<lparr>cf_settled := insert name (cf_settled f)\<rparr>))"

definition note_cond_read :: "ustring \<Rightarrow> PreprocessorState \<Rightarrow> PreprocessorState" where
  "note_cond_read name st =
     (case ps_cond_reads st of
        None \<Rightarrow> st
      | Some reads \<Rightarrow>
          if is_bound name st \<or> \<not> is_alternative_token name
          then st\<lparr>ps_cond_reads := Some (reads @ [\<lparr>cr_name = name, cr_bound = Some (is_bound name st)\<rparr>])\<rparr> else st)"

definition record_read :: "(HashItem list \<Rightarrow> 64 word) \<Rightarrow> ustring \<Rightarrow> PreprocessorState \<Rightarrow> PreprocessorState" where
  "record_read H name st0 =
     (let st = note_cond_read name st0
      in if innermost_settled name st then st
         else (let (hash, st1) = binding_hash H name st in st1\<lparr>ps_cache_frames := map (settle name hash) (ps_cache_frames st1)\<rparr>))"

definition is_defined_for_conditionals :: "(HashItem list \<Rightarrow> 64 word) \<Rightarrow> ustring \<Rightarrow> PreprocessorState \<Rightarrow> bool \<times> PreprocessorState" where
  "is_defined_for_conditionals H name st0 =
     (let st = record_read H name st0; bound = is_bound name st
      in (bound,
          if \<not> bound \<and> is_alternative_token name then
            (case ps_cond_reads st of
               None \<Rightarrow> st
             | Some reads \<Rightarrow> st\<lparr>ps_cond_reads := Some (reads @ [\<lparr>cr_name = name, cr_bound = Some False\<rparr>])\<rparr>)
          else st))"

definition note_local_binding :: "ustring \<Rightarrow> PreprocessorState \<Rightarrow> PreprocessorState" where
  "note_local_binding name st =
     (if ps_cache_frames st = [] then st
      else st\<lparr>ps_cache_frames :=
        map (\<lambda>f. f\<lparr>cf_settled := insert name (cf_settled f), cf_locally_bound := insert name (cf_locally_bound f)\<rparr>) (ps_cache_frames st)\<rparr>)"

definition snapshot_frame :: "ustring \<Rightarrow> 64 word option \<Rightarrow> CacheFrame \<Rightarrow> CacheFrame" where
  "snapshot_frame name hash f =
     (if name \<in> cf_locally_bound f then f
      else
        (let deps = cf_deps f;
             clash = (\<exists>(n, h) \<in> set (mf_defined deps). n = name \<and> Some h \<noteq> hash) \<or> hash \<noteq> None \<and> name \<in> set (mf_undefined deps);
             f1 = f\<lparr>cf_deps := deps\<lparr>mf_incompatible := mf_incompatible deps \<or> clash\<rparr>, cf_settled := insert name (cf_settled f)\<rparr>
         in case hash of
              Some h \<Rightarrow> if (name, h) \<in> set (mf_defined deps) then f1 else add_dep name hash f1
            | None \<Rightarrow> add_dep name hash f1))"

definition record_snapshot_read :: "(HashItem list \<Rightarrow> 64 word) \<Rightarrow> ustring \<Rightarrow> PreprocessorState \<Rightarrow> PreprocessorState" where
  "record_snapshot_read H name st =
     (let (hash, st1) = binding_hash H name st in st1\<lparr>ps_cache_frames := map (snapshot_frame name hash) (ps_cache_frames st1)\<rparr>)"

definition require_header :: "ustring \<Rightarrow> 64 word \<Rightarrow> CacheFrame \<Rightarrow> CacheFrame" where
  "require_header path signature f =
     (if path \<in> cf_provided_headers f then f
      else
        (let deps = cf_deps f; previous = map_of (mf_required_headers deps) path
         in f\<lparr>cf_deps := deps\<lparr>mf_required_headers := AList.update path signature (mf_required_headers deps),
                mf_incompatible := mf_incompatible deps \<or> (case previous of None \<Rightarrow> False | Some p \<Rightarrow> p \<noteq> signature)\<rparr>\<rparr>))"

definition require_system_header :: "ustring \<Rightarrow> 64 word \<Rightarrow> PreprocessorState \<Rightarrow> PreprocessorState" where
  "require_system_header path signature st = st\<lparr>ps_cache_frames := map (require_header path signature) (ps_cache_frames st)\<rparr>"

definition merge_dep :: "ustring \<Rightarrow> 64 word option \<Rightarrow> PreprocessorState \<Rightarrow> PreprocessorState" where
  "merge_dep name hash st =
     (if innermost_settled name st then st else st\<lparr>ps_cache_frames := map (settle name hash) (ps_cache_frames st)\<rparr>)"

definition merge_recorded_deps :: "MacroFingerprint \<Rightarrow> PreprocessorState \<Rightarrow> PreprocessorState" where
  "merge_recorded_deps deps st =
     (if ps_cache_frames st = [] then st
      else
        (let st1 = (if mf_incompatible deps
                    then st\<lparr>ps_cache_frames := map (\<lambda>f. f\<lparr>cf_deps := (cf_deps f)\<lparr>mf_incompatible := True\<rparr>\<rparr>) (ps_cache_frames st)\<rparr> else st);
             st2 = fold (\<lambda>(path, signature). require_system_header path signature) (mf_required_headers deps) st1;
             st3 = fold (\<lambda>(name, hash). merge_dep name (Some hash)) (mf_defined deps) st2
         in fold (\<lambda>name. merge_dep name None) (mf_undefined deps) st3))"

section \<open>Include guards\<close>

definition record_guard :: "ustring \<Rightarrow> FileGuard \<Rightarrow> PreprocessorState \<Rightarrow> PreprocessorState" where
  "record_guard path guard0 st =
     (let guard = (case ps_file_guards st path of Some Once \<Rightarrow> Once | _ \<Rightarrow> guard0)
      in st\<lparr>ps_cache_frames := map (\<lambda>f. f\<lparr>cf_guards := (cf_guards f)(path \<mapsto> guard)\<rparr>) (ps_cache_frames st),
            ps_file_guards := (ps_file_guards st)(path \<mapsto> guard)\<rparr>)"

definition propagate_guard :: "ustring \<Rightarrow> PreprocessorState \<Rightarrow> PreprocessorState" where
  "propagate_guard path st = (case ps_file_guards st path of Some guard \<Rightarrow> record_guard path guard st | None \<Rightarrow> st)"

definition merge_guards :: "(ustring \<times> FileGuard) list \<Rightarrow> PreprocessorState \<Rightarrow> PreprocessorState" where
  "merge_guards guards st = fold (\<lambda>(path, guard). record_guard path guard) guards st"

definition guard_suppresses :: "ustring \<Rightarrow> PreprocessorState \<Rightarrow> bool" where
  "guard_suppresses canonical st \<longleftrightarrow>
     (case ps_file_guards st canonical of
        Some Once \<Rightarrow> True
      | Some (Ifndef name) \<Rightarrow> ps_macros st name \<noteq> None \<and> name \<notin> ps_fallback_macros st
      | None \<Rightarrow> False)"

section \<open>Definitions and frames\<close>

definition insert_macro :: "ustring \<Rightarrow> MacroDef \<Rightarrow> PreprocessorState \<Rightarrow> PreprocessorState" where
  "insert_macro name d st0 =
     (let st = (if ps_cache_frames st0 \<noteq> [] then st0\<lparr>ps_macro_ops := ps_macro_ops st0 @ [DefineOp name d]\<rparr> else st0);
          st1 = note_local_binding name st
      in st1\<lparr>ps_macro_hashes := (ps_macro_hashes st1)(name := None), ps_fallback_macros := ps_fallback_macros st1 - {name},
             ps_macros := (ps_macros st1)(name \<mapsto> d)\<rparr>)"

definition remove_macro :: "ustring \<Rightarrow> PreprocessorState \<Rightarrow> PreprocessorState" where
  "remove_macro name st0 =
     (let st = (if ps_cache_frames st0 \<noteq> [] then st0\<lparr>ps_macro_ops := ps_macro_ops st0 @ [UndefOp name]\<rparr> else st0);
          st1 = note_local_binding name st
      in st1\<lparr>ps_macro_hashes := (ps_macro_hashes st1)(name := None), ps_fallback_macros := ps_fallback_macros st1 - {name},
             ps_macros := (ps_macros st1)(name := None)\<rparr>)"

definition fingerprint_satisfied :: "(HashItem list \<Rightarrow> 64 word) \<Rightarrow> MacroFingerprint \<Rightarrow> PreprocessorState \<Rightarrow> bool" where
  "fingerprint_satisfied H deps st \<longleftrightarrow>
     \<not> mf_incompatible deps \<and>
     (case mf_header_context_size deps of None \<Rightarrow> True | Some n \<Rightarrow> n = length (ps_system_signatures st)) \<and>
     list_all (\<lambda>(name, hash). fst (binding_hash H name st) = Some hash) (mf_defined deps) \<and>
     (mf_undefined deps = [] \<or> \<not> list_ex (\<lambda>name. ps_macros st name \<noteq> None) (mf_undefined deps)) \<and>
     list_all (\<lambda>(path, signature). map_of (ps_system_signatures st) path = Some signature) (mf_required_headers deps)"

definition open_frame :: "bool \<Rightarrow> PreprocessorState \<Rightarrow> PreprocessorState" where
  "open_frame system_bundle st =
     st\<lparr>ps_cache_frames := ps_cache_frames st @
       [\<lparr>cf_deps =
           (if system_bundle
            then MacroFingerprint_default\<lparr>mf_header_context_size := Some (length (ps_system_signatures st)), mf_required_headers := ps_system_signatures st\<rparr>
            else MacroFingerprint_default),
          cf_provided_headers = {}, cf_settled = {}, cf_locally_bound = {}, cf_diagnostics = [], cf_diagnostic_keys = {}, cf_guards = Map.empty\<rparr>]\<rparr>"

definition close_frame :: "PreprocessorState \<Rightarrow> PreprocessorState" where
  "close_frame st = st\<lparr>ps_cache_frames := butlast (ps_cache_frames st)\<rparr>"

section \<open>The settled names\<close>

definition frames_nested :: "CacheFrame list \<Rightarrow> bool" where
  "frames_nested fs \<longleftrightarrow> sorted_wrt (\<lambda>outer inner. cf_settled inner \<subseteq> cf_settled outer) fs"

definition frame_ok :: "CacheFrame \<Rightarrow> bool" where
  "frame_ok f \<longleftrightarrow> cf_locally_bound f \<subseteq> cf_settled f \<and>
     fst ` set (mf_defined (cf_deps f)) \<union> set (mf_undefined (cf_deps f)) \<subseteq> cf_settled f"

definition memo_ok :: "(HashItem list \<Rightarrow> 64 word) \<Rightarrow> PreprocessorState \<Rightarrow> bool" where
  "memo_ok H st \<longleftrightarrow> (\<forall>n h. ps_macro_hashes st n = Some h \<longrightarrow>
     (\<exists>d. ps_macros st n = Some d \<and> h = hash_macro_binding H d (n \<in> ps_fallback_macros st)))"

definition env_inv :: "(HashItem list \<Rightarrow> 64 word) \<Rightarrow> PreprocessorState \<Rightarrow> bool" where
  "env_inv H st \<longleftrightarrow> frames_nested (ps_cache_frames st) \<and> list_all frame_ok (ps_cache_frames st) \<and> memo_ok H st"

text \<open>What every writer of the cache frames promises.\<close>

locale frame_writer =
  fixes H :: "HashItem list \<Rightarrow> 64 word" and w :: "PreprocessorState \<Rightarrow> PreprocessorState"
  assumes keeps: "env_inv H st \<Longrightarrow> env_inv H (w st)"
begin

lemma keeps_again: "env_inv H st \<Longrightarrow> env_inv H ((w ^^ n) st)"
  by (induction n) (simp_all add: keeps)

end

lemma frames_nested_map:
  assumes "frames_nested fs" "\<And>f. f \<in> set fs \<Longrightarrow> cf_settled (g f) = S \<union> cf_settled f"
  shows "frames_nested (map g fs)"
  using assms by (induction fs) (auto simp: frames_nested_def)

lemma settled_add_dep [simp]: "cf_settled (add_dep n h f) = cf_settled f" "cf_locally_bound (add_dep n h f) = cf_locally_bound f"
  by (simp_all add: add_dep_def split: option.split)

lemma frame_ok_add_dep: "frame_ok f \<Longrightarrow> n \<in> cf_settled f \<Longrightarrow> frame_ok (add_dep n h f)"
  by (auto simp: frame_ok_def add_dep_def set_insert_def split: option.split)

lemma settled_settle [simp]: "cf_settled (settle n h f) = {n} \<union> cf_settled f"
  by (auto simp: settle_def)

lemma frame_ok_settle: "frame_ok f \<Longrightarrow> frame_ok (settle n h f)"
  unfolding settle_def by (auto intro!: frame_ok_add_dep) (auto simp: frame_ok_def)

lemma settled_snapshot: "frame_ok f \<Longrightarrow> cf_settled (snapshot_frame n h f) = {n} \<union> cf_settled f"
  by (auto simp: snapshot_frame_def Let_def frame_ok_def split: option.split)

lemma frame_ok_snapshot: "frame_ok f \<Longrightarrow> frame_ok (snapshot_frame n h f)"
  by (auto simp: snapshot_frame_def Let_def frame_ok_def add_dep_def set_insert_def split: option.split)

lemma require_header_simps [simp]:
  "cf_settled (require_header p s f) = cf_settled f" "frame_ok (require_header p s f) = frame_ok f"
  by (simp_all add: require_header_def Let_def frame_ok_def)

lemma record_cache_diagnostic_simps [simp]:
  "cf_settled (record_cache_diagnostic d f) = cf_settled f" "frame_ok (record_cache_diagnostic d f) = frame_ok f"
  by (simp_all add: record_cache_diagnostic_def frame_ok_def)

lemma env_inv_map:
  assumes "env_inv H st" "\<And>f. f \<in> set (ps_cache_frames st) \<Longrightarrow> frame_ok f \<Longrightarrow> cf_settled (g f) = S \<union> cf_settled f \<and> frame_ok (g f)"
  shows "env_inv H (st\<lparr>ps_cache_frames := map g (ps_cache_frames st)\<rparr>)"
  using assms frames_nested_map [of "ps_cache_frames st" g S] by (auto simp: env_inv_def memo_ok_def list_all_iff)

lemma env_inv_cond_reads [simp]: "env_inv H (st\<lparr>ps_cond_reads := r\<rparr>) = env_inv H st"
  by (simp add: env_inv_def memo_ok_def)

lemma env_inv_note [simp]: "env_inv H (note_cond_read n st) = env_inv H st"
  by (simp add: note_cond_read_def split: option.split)

lemma binding_hash_inv: "env_inv H st \<Longrightarrow> env_inv H (snd (binding_hash H n st))"
  by (auto simp: binding_hash_def env_inv_def memo_ok_def Let_def split: option.split)

lemma binding_hash_frames [simp]: "ps_cache_frames (snd (binding_hash H n st)) = ps_cache_frames st"
  by (simp add: binding_hash_def Let_def split: option.split)

lemma settle_inv: "env_inv H st \<Longrightarrow> env_inv H (st\<lparr>ps_cache_frames := map (settle n h) (ps_cache_frames st)\<rparr>)"
  by (rule env_inv_map [where S = "{n}"]) (simp_all add: frame_ok_settle)

lemma record_read_inv: "env_inv H st \<Longrightarrow> env_inv H (record_read H n st)"
  using settle_inv [OF binding_hash_inv [of H "note_cond_read n st" n], of n]
  by (simp add: record_read_def Let_def case_prod_beta)

lemma is_defined_inv: "env_inv H st \<Longrightarrow> env_inv H (snd (is_defined_for_conditionals H n st))"
  using record_read_inv [of H st n] by (simp add: is_defined_for_conditionals_def Let_def split: option.split)

lemma snapshot_inv: "env_inv H st \<Longrightarrow> env_inv H (record_snapshot_read H n st)"
  unfolding record_snapshot_read_def case_prod_beta Let_def
  by (rule env_inv_map [where S = "{n}"]) (simp_all add: binding_hash_inv settled_snapshot frame_ok_snapshot)

lemma local_inv: "env_inv H st \<Longrightarrow> env_inv H (note_local_binding n st)"
  unfolding note_local_binding_def frame_ok_def by (simp, intro impI, rule env_inv_map [where S = "{n}"]) (auto simp: frame_ok_def)

lemma merge_dep_inv: "env_inv H st \<Longrightarrow> env_inv H (merge_dep n h st)"
  by (simp add: merge_dep_def settle_inv)

lemma require_inv: "env_inv H st \<Longrightarrow> env_inv H (require_system_header p s st)"
  by (auto simp: require_system_header_def intro!: env_inv_map [where S = "{}"])

lemma fold_inv: "(\<And>x st. env_inv H st \<Longrightarrow> env_inv H (f x st)) \<Longrightarrow> env_inv H st \<Longrightarrow> env_inv H (fold f xs st)"
  by (induction xs arbitrary: st) auto

lemma merge_inv:
  assumes "env_inv H st"
  shows "env_inv H (merge_recorded_deps deps st)"
proof -
  have "env_inv H (st\<lparr>ps_cache_frames := map (\<lambda>f. f\<lparr>cf_deps := (cf_deps f)\<lparr>mf_incompatible := True\<rparr>\<rparr>) (ps_cache_frames st)\<rparr>)"
    using assms by (rule env_inv_map [where S = "{}"]) (simp add: frame_ok_def)
  then show ?thesis using assms unfolding merge_recorded_deps_def Let_def
    by (auto intro!: fold_inv merge_dep_inv require_inv split: prod.split)
qed

lemma insert_inv: "env_inv H st \<Longrightarrow> env_inv H (insert_macro n d st)"
  using local_inv [of H "st\<lparr>ps_macro_ops := ops\<rparr>" n for ops] local_inv [of H st n]
  by (auto simp: insert_macro_def Let_def env_inv_def memo_ok_def note_local_binding_def)

lemma remove_inv: "env_inv H st \<Longrightarrow> env_inv H (remove_macro n st)"
  using local_inv [of H "st\<lparr>ps_macro_ops := ops\<rparr>" n for ops] local_inv [of H st n]
  by (auto simp: remove_macro_def Let_def env_inv_def memo_ok_def note_local_binding_def)

lemma report_inv:
  assumes "env_inv H st"
  shows "env_inv H (report s l m st)"
proof -
  have "env_inv H (st\<lparr>ps_cache_frames := map (record_cache_diagnostic d) (ps_cache_frames st)\<rparr>)" for d
    using assms by (rule env_inv_map [where S = "{}"]) simp
  then show ?thesis by (simp add: report_def push_diagnostic_def Let_def env_inv_def memo_ok_def)
qed

lemma open_frame_inv: "env_inv H st \<Longrightarrow> env_inv H (open_frame b st)"
  by (auto simp: open_frame_def env_inv_def memo_ok_def frames_nested_def sorted_wrt_append frame_ok_def MacroFingerprint_default_def)

interpretation reader: frame_writer H "record_read H n" for H n
  by unfold_locales (rule record_read_inv)

interpretation operand_reader: frame_writer H "\<lambda>st. snd (is_defined_for_conditionals H n st)" for H n
  by unfold_locales (rule is_defined_inv)

interpretation snapshot_reader: frame_writer H "record_snapshot_read H n" for H n
  by unfold_locales (rule snapshot_inv)

interpretation merger: frame_writer H "merge_recorded_deps deps" for H deps
  by unfold_locales (rule merge_inv)

interpretation definer: frame_writer H "insert_macro n d" for H n d
  by unfold_locales (rule insert_inv)

interpretation undefiner: frame_writer H "remove_macro n" for H n
  by unfold_locales (rule remove_inv)

interpretation reporter: frame_writer H "report s l m" for H s l m
  by unfold_locales (rule report_inv)

interpretation opener: frame_writer H "open_frame b" for H b
  by unfold_locales (rule open_frame_inv)

lemma close_frame_inv: "env_inv H st \<Longrightarrow> env_inv H (close_frame st)"
  by (cases "ps_cache_frames st" rule: rev_cases)
    (auto simp: close_frame_def env_inv_def memo_ok_def frames_nested_def sorted_wrt_append)

text \<open>A run of the environment: reads, snapshots, merges, definitions and reports, with cache frames opened and closed in between.\<close>

inductive env_step :: "(HashItem list \<Rightarrow> 64 word) \<Rightarrow> PreprocessorState \<Rightarrow> PreprocessorState \<Rightarrow> bool" for H where
  read_name: "env_step H st (record_read H n st)"
| read_operand: "env_step H st (snd (is_defined_for_conditionals H n st))"
| snapshot: "env_step H st (record_snapshot_read H n st)"
| merge: "env_step H st (merge_recorded_deps deps st)"
| define_macro: "env_step H st (insert_macro n d st)"
| undefine_macro: "env_step H st (remove_macro n st)"
| report_line: "env_step H st (report s l m st)"
| open_header: "env_step H st (open_frame b st)"
| close_header: "env_step H st (close_frame st)"

inductive_cases env_stepE: "env_step H st st'"

lemma env_step_inv: "env_step H st st' \<Longrightarrow> env_inv H st \<Longrightarrow> env_inv H st'"
  by (induction rule: env_step.induct)
    (auto intro: reader.keeps operand_reader.keeps snapshot_reader.keeps merger.keeps definer.keeps undefiner.keeps reporter.keeps
      opener.keeps close_frame_inv)

lemma env_run_inv: "(env_step H)\<^sup>*\<^sup>* st st' \<Longrightarrow> env_inv H st \<Longrightarrow> env_inv H st'"
  by (induction rule: rtranclp_induct) (auto intro: env_step_inv)

lemma innermost_is_least: "frames_nested fs \<Longrightarrow> f \<in> set fs \<Longrightarrow> cf_settled (last fs) \<subseteq> cf_settled f"
  by (cases fs rule: rev_cases) (auto simp: frames_nested_def sorted_wrt_append)

lemma settled_everywhere: "env_inv H st \<Longrightarrow> innermost_settled n st \<longleftrightarrow> (\<forall>f \<in> set (ps_cache_frames st). n \<in> cf_settled f)"
  using innermost_is_least [of "ps_cache_frames st"]
  by (cases "ps_cache_frames st = []") (auto simp: innermost_settled_def env_inv_def)

lemma binding_hash_value: "memo_ok H st \<Longrightarrow>
    fst (binding_hash H n st) = map_option (\<lambda>d. hash_macro_binding H d (n \<in> ps_fallback_macros st)) (ps_macros st n)"
  by (force simp: binding_hash_def memo_ok_def Let_def split: option.split)

text \<open>C25: through any run (reads, merged and snapshot dependencies, definitions and undefinitions, reports, cache frames opened and
  closed) a name the innermost cache frame has settled is settled in every open frame, so the per-identifier read hook may test that
  frame alone; the memo always gives the content hash of the current binding; and what a frame depends on or binds is settled in it.
\<close>

theorem settled_short_circuit:
  assumes "(env_step H)\<^sup>*\<^sup>* st0 st" "ps_cache_frames st0 = []" "ps_macro_hashes st0 = Map.empty"
  shows "(innermost_settled n st \<longleftrightarrow> (\<forall>f \<in> set (ps_cache_frames st). n \<in> cf_settled f)) \<and>
    fst (binding_hash H n st) = map_option (\<lambda>d. hash_macro_binding H d (n \<in> ps_fallback_macros st)) (ps_macros st n) \<and>
    (\<forall>f \<in> set (ps_cache_frames st). cf_locally_bound f \<union> fst ` set (mf_defined (cf_deps f)) \<union> set (mf_undefined (cf_deps f)) \<subseteq> cf_settled f)"
proof -
  have "env_inv H st0" using assms(2,3) by (simp add: env_inv_def memo_ok_def frames_nested_def)
  then have inv: "env_inv H st" using env_run_inv [OF assms(1)] by blast
  then show ?thesis using settled_everywhere [OF inv] binding_hash_value [of H st n] by (auto simp: env_inv_def list_all_iff frame_ok_def)
qed

definition empty_state :: PreprocessorState where
  "empty_state =
     \<lparr>ps_macros = Map.empty, ps_fallback_macros = {}, ps_macro_hashes = Map.empty, ps_system_signatures = [], ps_cache_frames = [],
      ps_macro_ops = [], ps_diagnostics = [], ps_diagnostic_keys = {}, ps_current_file = str ''a.h'', ps_cond_reads = None,
      ps_record_conditionals = False, ps_conditional_stack = [], ps_cond_base = 0, ps_conditionals = [], ps_guarded_file = False,
      ps_file_guards = Map.empty\<rparr>"

theorem settled_short_circuit_witness:
  "let st = record_read (\<lambda>_. 7) (str ''N'') (open_frame False (insert_macro (str ''N'') (MacroObject []) (open_frame False empty_state)))
   in length (ps_cache_frames st) = 2 \<and> (innermost_settled (str ''N'') st \<longleftrightarrow> (\<forall>f \<in> set (ps_cache_frames st). str ''N'' \<in> cf_settled f)) \<and>
      innermost_settled (str ''N'') st"
proof -
  let ?H = "\<lambda>_ :: HashItem list. 7 :: 64 word"
  let ?s1 = "open_frame False empty_state"
  let ?s2 = "insert_macro (str ''N'') (MacroObject []) ?s1"
  let ?s3 = "open_frame False ?s2"
  let ?st = "record_read ?H (str ''N'') ?s3"
  have "(env_step ?H)\<^sup>*\<^sup>* empty_state ?st"
    by (meson open_header define_macro read_name rtranclp.rtrancl_refl rtranclp.rtrancl_into_rtrancl)
  moreover have "length (ps_cache_frames ?st) = 2" "innermost_settled (str ''N'') ?st"
    by (simp_all add: record_read_def note_cond_read_def open_frame_def insert_macro_def note_local_binding_def empty_state_def innermost_settled_def
      binding_hash_def Let_def)
  ultimately show ?thesis using settled_short_circuit [of ?H empty_state ?st "str ''N''"] by (simp add: empty_state_def Let_def)
qed

end
