(* ===== verification/Pp_Expr.thy ===== *)
theory Pp_Expr
  imports Token "HOL-Library.Signed_Division"
begin

text \<open>
  Evaluation of the controlling expression of an \<^verbatim>\<open>#if\<close> after macro expansion (\<^verbatim>\<open>eval_pp_tokens\<close> and
  \<^verbatim>\<open>PpExprParser\<close> in \<^verbatim>\<open>trace-preproc/src/preprocessor.rs\<close>). The parser's position is the list of tokens from it on. The ten
  methods for binary operators share one loop: each reads an operand of the next method and goes on while one of its operators follows;
  they are the entries of \<open>binary_levels\<close>, each with its operators.
\<close>

section \<open>Values\<close>

record PpVal =
  pv_bits :: "64 word"
  pv_unsigned :: bool

definition PpVal_signed :: "64 word \<Rightarrow> PpVal" where
  "PpVal_signed v = \<lparr>pv_bits = v, pv_unsigned = False\<rparr>"

definition from_bool :: "bool \<Rightarrow> PpVal" where
  "from_bool b = PpVal_signed (of_bool b)"

definition truthy :: "PpVal \<Rightarrow> bool" where
  "truthy v \<longleftrightarrow> pv_bits v \<noteq> 0"

definition as_i64 :: "PpVal \<Rightarrow> int" where
  "as_i64 v = sint (pv_bits v)"

definition either_unsigned :: "PpVal \<Rightarrow> PpVal \<Rightarrow> bool" where
  "either_unsigned v r \<longleftrightarrow> pv_unsigned v \<or> pv_unsigned r"

section \<open>Operators\<close>

definition pp_or :: "PpVal \<Rightarrow> PpVal \<Rightarrow> PpVal" where
  "pp_or v r = from_bool (truthy v \<or> truthy r)"

definition pp_and :: "PpVal \<Rightarrow> PpVal \<Rightarrow> PpVal" where
  "pp_and v r = from_bool (truthy v \<and> truthy r)"

definition pp_bit_or :: "PpVal \<Rightarrow> PpVal \<Rightarrow> PpVal" where
  "pp_bit_or v r = \<lparr>pv_bits = pv_bits v OR pv_bits r, pv_unsigned = either_unsigned v r\<rparr>"

definition pp_bit_xor :: "PpVal \<Rightarrow> PpVal \<Rightarrow> PpVal" where
  "pp_bit_xor v r = \<lparr>pv_bits = pv_bits v XOR pv_bits r, pv_unsigned = either_unsigned v r\<rparr>"

definition pp_bit_and :: "PpVal \<Rightarrow> PpVal \<Rightarrow> PpVal" where
  "pp_bit_and v r = \<lparr>pv_bits = pv_bits v AND pv_bits r, pv_unsigned = either_unsigned v r\<rparr>"

definition pp_eq :: "PpVal \<Rightarrow> PpVal \<Rightarrow> PpVal" where
  "pp_eq v r = from_bool (pv_bits v = pv_bits r)"

definition pp_ne :: "PpVal \<Rightarrow> PpVal \<Rightarrow> PpVal" where
  "pp_ne v r = from_bool (pv_bits v \<noteq> pv_bits r)"

definition pp_lt :: "PpVal \<Rightarrow> PpVal \<Rightarrow> bool" where
  "pp_lt a b = (if either_unsigned a b then pv_bits a < pv_bits b else as_i64 a < as_i64 b)"

definition shift_amount :: "PpVal \<Rightarrow> nat" where
  "shift_amount r = unat (pv_bits r AND 63)"

definition pp_shl :: "PpVal \<Rightarrow> PpVal \<Rightarrow> PpVal" where
  "pp_shl v r = \<lparr>pv_bits = push_bit (shift_amount r) (pv_bits v), pv_unsigned = pv_unsigned v\<rparr>"

definition pp_shr :: "PpVal \<Rightarrow> PpVal \<Rightarrow> PpVal" where
  "pp_shr v r =
     \<lparr>pv_bits = (if pv_unsigned v then drop_bit (shift_amount r) (pv_bits v) else signed_drop_bit (shift_amount r) (pv_bits v)),
      pv_unsigned = pv_unsigned v\<rparr>"

definition pp_add :: "PpVal \<Rightarrow> PpVal \<Rightarrow> PpVal" where
  "pp_add v r = \<lparr>pv_bits = pv_bits v + pv_bits r, pv_unsigned = either_unsigned v r\<rparr>"

definition pp_sub :: "PpVal \<Rightarrow> PpVal \<Rightarrow> PpVal" where
  "pp_sub v r = \<lparr>pv_bits = pv_bits v - pv_bits r, pv_unsigned = either_unsigned v r\<rparr>"

definition pp_mul :: "PpVal \<Rightarrow> PpVal \<Rightarrow> PpVal" where
  "pp_mul v r = \<lparr>pv_bits = pv_bits v * pv_bits r, pv_unsigned = either_unsigned v r\<rparr>"

definition divide :: "PpVal \<Rightarrow> PpVal \<Rightarrow> bool \<Rightarrow> PpVal" where
  "divide a b rem =
     (let unsigned = either_unsigned a b
      in if pv_bits b = 0 then \<lparr>pv_bits = 0, pv_unsigned = unsigned\<rparr>
         else
           \<lparr>pv_bits =
              (if unsigned then (if rem then pv_bits a mod pv_bits b else pv_bits a div pv_bits b)
               else if rem then word_of_int (as_i64 a smod as_i64 b)
               else word_of_int (as_i64 a sdiv as_i64 b)),
            pv_unsigned = unsigned\<rparr>)"

definition pp_not :: "PpVal \<Rightarrow> PpVal" where
  "pp_not v = from_bool (\<not> truthy v)"

definition pp_compl :: "PpVal \<Rightarrow> PpVal" where
  "pp_compl v = \<lparr>pv_bits = NOT (pv_bits v), pv_unsigned = pv_unsigned v\<rparr>"

definition pp_neg :: "PpVal \<Rightarrow> PpVal" where
  "pp_neg v = \<lparr>pv_bits = - pv_bits v, pv_unsigned = pv_unsigned v\<rparr>"

definition pp_choose :: "PpVal \<Rightarrow> PpVal \<Rightarrow> PpVal \<Rightarrow> PpVal" where
  "pp_choose c a b = \<lparr>pv_bits = pv_bits (if truthy c then a else b), pv_unsigned = either_unsigned a b\<rparr>"

section \<open>Constants\<close>

text \<open>\<open>char::to_digit\<close> and \<open>u128::from_str_radix\<close>.\<close>

definition to_digit :: "nat \<Rightarrow> uchar \<Rightarrow> nat option" where
  "to_digit radix c =
     (let d = (if ch CHR ''0'' \<le> c \<and> c \<le> ch CHR ''9'' then Some (c - ch CHR ''0'')
               else if ch CHR ''a'' \<le> c \<and> c \<le> ch CHR ''z'' then Some (c - ch CHR ''a'' + 10)
               else if ch CHR ''A'' \<le> c \<and> c \<le> ch CHR ''Z'' then Some (c - ch CHR ''A'' + 10)
               else None)
      in case d of None \<Rightarrow> None | Some n \<Rightarrow> if n < radix then Some n else None)"

primrec digits_value :: "nat \<Rightarrow> nat \<Rightarrow> ustring \<Rightarrow> nat option" where
  "digits_value radix acc [] = Some acc"
| "digits_value radix acc (c # s) =
     do { d \<leftarrow> to_digit radix c; if acc * radix + d < 2 ^ 128 then digits_value radix (acc * radix + d) s else None }"

definition from_str_radix :: "nat \<Rightarrow> ustring \<Rightarrow> nat option" where
  "from_str_radix radix s =
     (case s of
        [] \<Rightarrow> None
      | c # rest \<Rightarrow> if c = ch CHR ''+'' then (if rest = [] then None else digits_value radix 0 rest) else digits_value radix 0 s)"

definition strip_prefix :: "ustring \<Rightarrow> ustring \<Rightarrow> ustring option" where
  "strip_prefix p s = (if take (length p) s = p then Some (drop (length p) s) else None)"

definition is_int_suffix :: "uchar \<Rightarrow> bool" where
  "is_int_suffix c \<longleftrightarrow> c \<in> set (str ''uUlL'')"

definition parse_pp_int :: "ustring \<Rightarrow> PpVal option" where
  "parse_pp_int s =
     (let t = rev (dropWhile is_int_suffix (rev s));
          unsigned_suffix = list_ex (\<lambda>c. c \<in> set (str ''uU'')) (drop (length t) s);
          (digits, radix) =
            (case (case strip_prefix (str ''0x'') t of Some h \<Rightarrow> Some h | None \<Rightarrow> strip_prefix (str ''0X'') t) of
               Some h \<Rightarrow> (h, 16)
             | None \<Rightarrow>
                 (case (case strip_prefix (str ''0b'') t of Some b \<Rightarrow> Some b | None \<Rightarrow> strip_prefix (str ''0B'') t) of
                    Some b \<Rightarrow> (b, 2)
                  | None \<Rightarrow> if length t > 1 \<and> hd t = ch CHR ''0'' then (tl t, 8) else (t, 10)))
      in map_option (\<lambda>v. \<lparr>pv_bits = word_of_nat v, pv_unsigned = unsigned_suffix \<or> v > 2 ^ 63 - 1\<rparr>) (from_str_radix radix digits))"

definition QUOTE :: uchar where "QUOTE = 39"

definition char_literal_body :: "ustring \<Rightarrow> ustring option" where
  "char_literal_body spelling =
     (let open = (case position (\<lambda>c. c = QUOTE) spelling of None \<Rightarrow> 0 | Some i \<Rightarrow> i + 1);
          rest = drop open spelling
      in if rest \<noteq> [] \<and> last rest = QUOTE then Some (butlast rest) else None)"

primrec hex_escape :: "64 word \<Rightarrow> ustring \<Rightarrow> 64 word" where
  "hex_escape v [] = v"
| "hex_escape v (c # s) = (case to_digit 16 c of None \<Rightarrow> v | Some d \<Rightarrow> hex_escape (v * 16 + word_of_nat d) s)"

primrec octal_escape :: "nat \<Rightarrow> 64 word \<Rightarrow> ustring \<Rightarrow> 64 word" where
  "octal_escape n v [] = v"
| "octal_escape n v (c # s) =
     (if n = 0 then v else case to_digit 8 c of None \<Rightarrow> v | Some d \<Rightarrow> octal_escape (n - 1) (v * 8 + word_of_nat d) s)"

definition simple_escape :: "uchar \<Rightarrow> nat option" where
  "simple_escape =
     map_of [(ch CHR ''n'', 10), (ch CHR ''t'', 9), (ch CHR ''r'', 13), (ch CHR ''a'', 7), (ch CHR ''b'', 8), (ch CHR ''f'', 12),
       (ch CHR ''v'', 11), (92, 92), (QUOTE, 39), (34, 34), (ch CHR ''?'', 63)]"

fun char_value :: "ustring \<Rightarrow> 64 word" where
  "char_value [] = 0"
| "char_value (c # s) =
     (if c \<noteq> 92 then word_of_nat c
      else
        (case s of
           [] \<Rightarrow> 0
         | e # s' \<Rightarrow>
             (case simple_escape e of
                Some v \<Rightarrow> word_of_nat v
              | None \<Rightarrow>
                  if e = ch CHR ''x'' then hex_escape 0 s'
                  else if ch CHR ''0'' \<le> e \<and> e \<le> ch CHR ''7'' then octal_escape 2 (word_of_nat (e - ch CHR ''0'')) s'
                  else word_of_nat e)))"

section \<open>The parser\<close>

record PpExprParser =
  pe_toks :: "Token list"
  pe_err :: bool

definition peek_punct :: "PpExprParser \<Rightarrow> ustring option" where
  "peek_punct p = (case pe_toks p of t # _ \<Rightarrow> (case tok_kind t of Punct s \<Rightarrow> Some s | _ \<Rightarrow> None) | [] \<Rightarrow> None)"

definition advance :: "PpExprParser \<Rightarrow> PpExprParser" where
  "advance p = p\<lparr>pe_toks := tl (pe_toks p)\<rparr>"

definition eats :: "ustring \<Rightarrow> PpExprParser \<Rightarrow> bool" where
  "eats s p \<longleftrightarrow> peek_punct p = Some s"

definition fail :: "PpExprParser \<Rightarrow> PpExprParser" where
  "fail p = p\<lparr>pe_err := True\<rparr>"

type_synonym operators = "(ustring \<times> (PpVal \<Rightarrow> PpVal \<Rightarrow> PpVal)) list"

definition logical_or_ops :: operators where "logical_or_ops = [(str ''||'', pp_or)]"
definition logical_and_ops :: operators where "logical_and_ops = [(str ''&&'', pp_and)]"
definition bit_or_ops :: operators where "bit_or_ops = [(str ''|'', pp_bit_or)]"
definition bit_xor_ops :: operators where "bit_xor_ops = [(str ''^'', pp_bit_xor)]"
definition bit_and_ops :: operators where "bit_and_ops = [(str ''&'', pp_bit_and)]"
definition equality_ops :: operators where "equality_ops = [(str ''=='', pp_eq), (str ''!='', pp_ne)]"
definition relational_ops :: operators where
  "relational_ops = [(str ''<='', \<lambda>v r. from_bool (\<not> pp_lt r v)), (str ''>='', \<lambda>v r. from_bool (\<not> pp_lt v r)),
     (str ''<'', \<lambda>v r. from_bool (pp_lt v r)), (str ''>'', \<lambda>v r. from_bool (pp_lt r v))]"
definition shift_ops :: operators where "shift_ops = [(str ''<<'', pp_shl), (str ''>>'', pp_shr)]"
definition additive_ops :: operators where "additive_ops = [(str ''+'', pp_add), (str ''-'', pp_sub)]"
definition multiplicative_ops :: operators where
  "multiplicative_ops = [(str ''*'', pp_mul), (str ''/'', \<lambda>v r. divide v r False), (str ''%'', \<lambda>v r. divide v r True)]"

definition binary_levels :: "operators list" where
  "binary_levels = [logical_or_ops, logical_and_ops, bit_or_ops, bit_xor_ops, bit_and_ops, equality_ops, relational_ops, shift_ops, additive_ops, multiplicative_ops]"

text \<open>The balanced argument list after an identifier: the tokens behind it, and whether it was closed.\<close>

fun swallow_call :: "int \<Rightarrow> Token list \<Rightarrow> Token list \<times> bool" where
  "swallow_call depth [] = ([], False)"
| "swallow_call depth (t # ts) =
     (if is_punct (str ''('') t then swallow_call (depth + 1) ts
      else if is_punct (str '')'') t then (if depth - 1 = 0 then (ts, True) else swallow_call (depth - 1) ts)
      else swallow_call depth ts)"

definition ident_value :: "ustring \<Rightarrow> PpExprParser \<Rightarrow> PpVal \<times> PpExprParser" where
  "ident_value name p =
     (let p1 = advance p
      in if name = str ''true'' then (PpVal_signed 1, p1)
         else if name = str ''false'' then (PpVal_signed 0, p1)
         else if eats (str ''('') p1 then
           (let (rest, closed) = swallow_call 0 (pe_toks p1); p2 = p1\<lparr>pe_toks := rest\<rparr>
            in (PpVal_signed 0, if closed then p2 else fail p2))
         else (PpVal_signed 0, p1))"

definition constant_value :: "PpVal option \<Rightarrow> PpExprParser \<Rightarrow> PpVal \<times> PpExprParser" where
  "constant_value v p = (case v of Some v \<Rightarrow> (v, advance p) | None \<Rightarrow> (PpVal_signed 0, fail (advance p)))"

function (domintros) ternary :: "PpExprParser \<Rightarrow> PpVal \<times> PpExprParser"
  and binary :: "operators list \<Rightarrow> PpExprParser \<Rightarrow> PpVal \<times> PpExprParser"
  and binary_loop :: "operators \<Rightarrow> operators list \<Rightarrow> PpVal \<Rightarrow> PpExprParser \<Rightarrow> PpVal \<times> PpExprParser"
  and unary :: "PpExprParser \<Rightarrow> PpVal \<times> PpExprParser"
  and primary :: "PpExprParser \<Rightarrow> PpVal \<times> PpExprParser" where
  "ternary p =
     (let (c, p1) = binary binary_levels p
      in if eats (str ''?'') p1 then
           (let (a, p2) = ternary (advance p1);
                (b, p3) = (if eats (str '':'') p2 then ternary (advance p2) else (PpVal_signed 0, fail p2))
            in (pp_choose c a b, p3))
         else (c, p1))"
| "binary [] p = unary p"
| "binary (ops # levels) p = (let (v, p1) = binary levels p in binary_loop ops levels v p1)"
| "binary_loop ops levels v p =
     (case Option.bind (peek_punct p) (map_of ops) of
        None \<Rightarrow> (v, p)
      | Some f \<Rightarrow> (let (r, p1) = binary levels (advance p) in binary_loop ops levels (f v r) p1))"
| "unary p =
     (if eats (str ''!'') p then (let (v, p1) = unary (advance p) in (pp_not v, p1))
      else if eats (str ''~'') p then (let (v, p1) = unary (advance p) in (pp_compl v, p1))
      else if eats (str ''-'') p then (let (v, p1) = unary (advance p) in (pp_neg v, p1))
      else if eats (str ''+'') p then unary (advance p)
      else primary p)"
| "primary p =
     (case pe_toks p of
        [] \<Rightarrow> (PpVal_signed 0, fail p)
      | t # _ \<Rightarrow>
          (case tok_kind t of
             Number s \<Rightarrow> constant_value (parse_pp_int s) p
           | Char s \<Rightarrow> constant_value (map_option (\<lambda>body. PpVal_signed (char_value body)) (char_literal_body s)) p
           | Punct s \<Rightarrow>
               if s = str ''('' then
                 (let (v, p1) = ternary (advance p) in (v, if eats (str '')'') p1 then advance p1 else fail p1))
               else (PpVal_signed 0, fail (advance p))
           | Identifier name \<Rightarrow> ident_value name p
           | _ \<Rightarrow> (PpVal_signed 0, fail (advance p))))"
  by pat_completeness auto

text \<open>No method moves the position back, and an eaten operator moves it forward.\<close>

abbreviation left :: "PpExprParser \<Rightarrow> nat" where
  "left p \<equiv> length (pe_toks p)"

lemma advance_left: "peek_punct p = Some s \<Longrightarrow> left (advance p) < left p"
  by (auto simp: peek_punct_def advance_def split: list.splits)

lemma left_simps [simp]: "left (fail p) = left p" "left (advance p) = left p - 1"
  by (simp_all add: fail_def advance_def)

lemma swallow_left: "length (fst (swallow_call d ts)) \<le> length ts"
  by (induction d ts rule: swallow_call.induct) auto

lemma ident_left: "left (snd (ident_value name p)) \<le> left p"
proof -
  have "length (fst (swallow_call 0 (pe_toks (advance p)))) \<le> left p - 1" using swallow_left [of 0 "pe_toks (advance p)"] by simp
  then show ?thesis by (auto simp: ident_value_def Let_def case_prod_beta)
qed

lemma constant_left: "left (snd (constant_value v p)) \<le> left p"
  by (simp add: constant_value_def split: option.split)

lemma parser_left_partial:
  "ternary_binary_binary_loop_unary_primary_dom (Inl (Inl p)) \<Longrightarrow> left (snd (ternary p)) \<le> left p"
  "ternary_binary_binary_loop_unary_primary_dom (Inl (Inr (levels, q))) \<Longrightarrow> left (snd (binary levels q)) \<le> left q"
  "ternary_binary_binary_loop_unary_primary_dom (Inr (Inl (ops, levels, v, r))) \<Longrightarrow> left (snd (binary_loop ops levels v r)) \<le> left r"
  "ternary_binary_binary_loop_unary_primary_dom (Inr (Inr (Inl s))) \<Longrightarrow> left (snd (unary s)) \<le> left s"
  "ternary_binary_binary_loop_unary_primary_dom (Inr (Inr (Inr t))) \<Longrightarrow> left (snd (primary t)) \<le> left t"
proof (induction p and levels q and ops levels v r and s and t rule: ternary_binary_binary_loop_unary_primary.pinduct)
  case (1 p)
  obtain c p1 where b: "binary binary_levels p = (c, p1)" by fastforce
  obtain a p2 where t: "ternary (advance p1) = (a, p2)" by fastforce
  obtain b' p3 where t': "ternary (advance p2) = (b', p3)" by fastforce
  show ?case using 1 b t t' by (auto simp: ternary.psimps Let_def split: if_splits) (meson diff_le_self le_trans)+
next
  case (2 p)
  then show ?case by (simp add: binary.psimps)
next
  case (3 ops levels p)
  obtain v p1 where b: "binary levels p = (v, p1)" by fastforce
  have "left p1 \<le> left p" "left (snd (binary_loop ops levels v p1)) \<le> left p1" using 3 b by auto
  then show ?case using 3(1) b by (simp add: binary.psimps)
next
  case (4 ops levels v p)
  then show ?case by (fastforce simp: binary_loop.psimps Let_def split: option.split prod.split)
next
  case (5 p)
  have "left (advance p) \<le> left p" by simp
  with 5 show ?case by (auto simp del: left_simps(2) simp: unary.psimps Let_def case_prod_beta intro: le_trans)
next
  case (6 p)
  then show ?case using ident_left [of _ p] constant_left [of _ p]
    by (fastforce simp: primary.psimps Let_def split: list.split TokenKind.split prod.split)
qed

lemma eats_left: "eats s p \<Longrightarrow> 0 < left p"
  by (auto simp: eats_def peek_punct_def split: list.splits)

lemma operator_left: "Option.bind (peek_punct p) (map_of ops) = Some f \<Longrightarrow> 0 < left p"
  by (auto simp: peek_punct_def split: list.splits)

termination ternary
proof (relation "measures [\<lambda>x. case x of Inl (Inl p) \<Rightarrow> left p | Inl (Inr (levels, p)) \<Rightarrow> left p | Inr (Inl (ops, levels, v, p)) \<Rightarrow> left p
      | Inr (Inr (Inl p)) \<Rightarrow> left p | Inr (Inr (Inr p)) \<Rightarrow> left p,
    \<lambda>x. case x of Inl (Inl p) \<Rightarrow> 2 * length binary_levels + 3 | Inl (Inr (levels, p)) \<Rightarrow> 2 * length levels + 2
      | Inr (Inl (ops, levels, v, p)) \<Rightarrow> 2 * length levels + 3 | Inr (Inr (Inl p)) \<Rightarrow> 1 | Inr (Inr (Inr p)) \<Rightarrow> 0]", goal_cases)
  case 1
  show ?case by simp
next
  case 2
  show ?case by simp
next
  case (3 p x xa y)
  then have "left y \<le> left p" "0 < left y" using parser_left_partial(2) [of binary_levels p] eats_left [of _ y]
    by (metis snd_conv)+
  then show ?case by (simp del: length_greater_0_conv)
next
  case (4 p x xa y x' xb z)
  then have "left y \<le> left p" "0 < left y" "left z \<le> left (advance y)"
    using parser_left_partial(2) [of binary_levels p] parser_left_partial(1) [of "advance y"] eats_left [of _ y] by (metis snd_conv)+
  then show ?case by (simp del: length_greater_0_conv)
next
  case 5
  show ?case by simp
next
  case 6
  show ?case by simp
next
  case (7 ops levels p x xa y)
  then have "left y \<le> left p" using parser_left_partial(2) [of levels p] by (metis snd_conv)
  then show ?case by auto
next
  case (8 ops levels v p f)
  then show ?case using operator_left [of p ops f] by (simp del: length_greater_0_conv)
next
  case (9 ops levels v p f x xa y)
  then have "left y \<le> left (advance p)" "0 < left p"
    using operator_left [of p ops f] parser_left_partial(2) [of levels "advance p"] by (metis snd_conv)+
  then show ?case by (simp del: length_greater_0_conv)
next
  case (10 p)
  then show ?case using eats_left [of _ p] by (simp del: length_greater_0_conv)
next
  case (11 p)
  then show ?case using eats_left [of _ p] by (simp del: length_greater_0_conv)
next
  case (12 p)
  then show ?case using eats_left [of _ p] by (simp del: length_greater_0_conv)
next
  case (13 p)
  then show ?case using eats_left [of _ p] by (simp del: length_greater_0_conv)
next
  case 14
  show ?case by simp
next
  case (15 p)
  then show ?case by auto
qed

declare ternary.simps [simp del] binary_loop.simps [simp del] unary.simps [simp del] primary.simps [simp del]

definition eval_pp_tokens :: "Token list \<Rightarrow> bool" where
  "eval_pp_tokens toks =
     (let (v, p) = ternary \<lparr>pe_toks = toks, pe_err = False\<rparr> in if pe_err p \<or> pe_toks p \<noteq> [] then False else truthy v)"

end
