(* ===== verification/Pp_Expr_Props.thy ===== *)
theory Pp_Expr_Props
  imports Pp_Expr
begin

text \<open>
  What the evaluator of \<^verbatim>\<open>#if\<close> conditions computes. The reference is the grammar of C's conditional expressions: parse trees over
  token kinds, their printing, the precedence each operand needs, and their value. The recursive descent of \<open>Pp_Expr\<close> accepts
  exactly the printed trees and returns their value.
\<close>

section \<open>Conditional expressions of C\<close>

datatype cexpr = Lit TokenKind | Call ustring "TokenKind list" | Paren cexpr | Unop ustring cexpr | Binop ustring cexpr cexpr
  | Tern cexpr cexpr cexpr

definition op_kind :: "string \<Rightarrow> TokenKind" where
  "op_kind s = Punct (str s)"

fun print_expr :: "cexpr \<Rightarrow> TokenKind list" where
  "print_expr (Lit k) = [k]"
| "print_expr (Call f args) = Identifier f # op_kind ''('' # args @ [op_kind '')'']"
| "print_expr (Paren e) = op_kind ''('' # print_expr e @ [op_kind '')'']"
| "print_expr (Unop op e) = Punct op # print_expr e"
| "print_expr (Binop op a b) = print_expr a @ Punct op # print_expr b"
| "print_expr (Tern c a b) = print_expr c @ op_kind ''?'' # print_expr a @ op_kind '':'' # print_expr b"

text \<open>The binary operators with their precedence, weakest first, and their meaning; a prefix operator binds tighter, a primary tightest.\<close>

definition c_operators :: "(ustring \<times> nat \<times> (PpVal \<Rightarrow> PpVal \<Rightarrow> PpVal)) list" where
  "c_operators =
     [(str ''||'', 1, pp_or), (str ''&&'', 2, pp_and), (str ''|'', 3, pp_bit_or), (str ''^'', 4, pp_bit_xor), (str ''&'', 5, pp_bit_and),
      (str ''=='', 6, pp_eq), (str ''!='', 6, pp_ne),
      (str ''<='', 7, \<lambda>v r. from_bool (\<not> pp_lt r v)), (str ''>='', 7, \<lambda>v r. from_bool (\<not> pp_lt v r)),
      (str ''<'', 7, \<lambda>v r. from_bool (pp_lt v r)), (str ''>'', 7, \<lambda>v r. from_bool (pp_lt r v)),
      (str ''<<'', 8, pp_shl), (str ''>>'', 8, pp_shr), (str ''+'', 9, pp_add), (str ''-'', 9, pp_sub),
      (str ''*'', 10, pp_mul), (str ''/'', 10, \<lambda>v r. divide v r False), (str ''%'', 10, \<lambda>v r. divide v r True)]"

definition prec :: "ustring \<Rightarrow> nat option" where
  "prec op = map_option fst (map_of c_operators op)"

definition meaning :: "ustring \<Rightarrow> PpVal \<Rightarrow> PpVal \<Rightarrow> PpVal" where
  "meaning op = (case map_of c_operators op of Some (l, f) \<Rightarrow> f | None \<Rightarrow> \<lambda>v r. v)"

definition c_prefixes :: "(ustring \<times> (PpVal \<Rightarrow> PpVal)) list" where
  "c_prefixes = [(str ''!'', pp_not), (str ''~'', pp_compl), (str ''-'', pp_neg), (str ''+'', \<lambda>v. v)]"

fun level :: "cexpr \<Rightarrow> nat" where
  "level (Tern c a b) = 0"
| "level (Binop op a b) = (case prec op of Some l \<Rightarrow> l | None \<Rightarrow> 0)"
| "level (Unop op e) = 11"
| "level _ = 12"

fun literal :: "TokenKind \<Rightarrow> PpVal option" where
  "literal (Number s) = parse_pp_int s"
| "literal (Char s) = map_option (\<lambda>body. PpVal_signed (char_value body)) (char_literal_body s)"
| "literal (Identifier x) = Some (from_bool (x = str ''true''))"
| "literal _ = None"

fun balanced :: "nat \<Rightarrow> TokenKind list \<Rightarrow> bool" where
  "balanced d [] \<longleftrightarrow> d = 0"
| "balanced d (k # ks) \<longleftrightarrow>
     (if k = op_kind ''('' then balanced (Suc d) ks else if k = op_kind '')'' then 0 < d \<and> balanced (d - 1) ks else balanced d ks)"

fun wf_expr :: "cexpr \<Rightarrow> bool" where
  "wf_expr (Lit k) \<longleftrightarrow> literal k \<noteq> None"
| "wf_expr (Call f args) \<longleftrightarrow> f \<noteq> str ''true'' \<and> f \<noteq> str ''false'' \<and> balanced 0 args"
| "wf_expr (Paren e) \<longleftrightarrow> wf_expr e"
| "wf_expr (Unop op e) \<longleftrightarrow> map_of c_prefixes op \<noteq> None \<and> wf_expr e \<and> 11 \<le> level e"
| "wf_expr (Binop op a b) \<longleftrightarrow> (case prec op of Some l \<Rightarrow> wf_expr a \<and> l \<le> level a \<and> wf_expr b \<and> l < level b | None \<Rightarrow> False)"
| "wf_expr (Tern c a b) \<longleftrightarrow> wf_expr c \<and> 1 \<le> level c \<and> wf_expr a \<and> wf_expr b"

fun sem :: "cexpr \<Rightarrow> PpVal" where
  "sem (Lit k) = (case literal k of Some v \<Rightarrow> v | None \<Rightarrow> PpVal_signed 0)"
| "sem (Call f args) = PpVal_signed 0"
| "sem (Paren e) = sem e"
| "sem (Unop op e) = (case map_of c_prefixes op of Some f \<Rightarrow> f (sem e) | None \<Rightarrow> sem e)"
| "sem (Binop op a b) = meaning op (sem a) (sem b)"
| "sem (Tern c a b) = pp_choose (sem c) (sem a) (sem b)"

section \<open>The tables agree\<close>

declare str_eq [simp]

lemma op_kind_eq [simp]: "op_kind a = op_kind b \<longleftrightarrow> a = b" "op_kind a = Punct s \<longleftrightarrow> s = str a" "Punct s = op_kind a \<longleftrightarrow> s = str a"
  by (auto simp: op_kind_def)

lemmas op_tables = logical_or_ops_def logical_and_ops_def bit_or_ops_def bit_xor_ops_def bit_and_ops_def equality_ops_def relational_ops_def
  shift_ops_def additive_ops_def multiplicative_ops_def

lemma length_levels [simp]: "length binary_levels = 10"
  by (simp add: binary_levels_def)

lemma operator_level:
  assumes "k < 10"
  shows "map_of (binary_levels ! k) op = (case map_of c_operators op of Some (l, f) \<Rightarrow> if l = Suc k then Some f else None | None \<Rightarrow> None)"
proof -
  have "k \<in> {0, 1, 2, 3, 4, 5, 6, 7, 8, 9}" using assms by auto
  then show ?thesis by (elim insertE emptyE; simp add: binary_levels_def op_tables c_operators_def)
qed

lemma prec_bounds: "prec op = Some l \<Longrightarrow> 1 \<le> l \<and> l \<le> 10"
  by (auto simp: prec_def c_operators_def split: if_splits)

lemma level_bound: "level e \<le> 12"
  by (cases e) (auto split: option.split dest: prec_bounds)

section \<open>Printed expressions are read back\<close>

definition parse_level :: "nat \<Rightarrow> PpExprParser \<Rightarrow> PpVal \<times> PpExprParser" where
  "parse_level k = (if k = 0 then ternary else if k \<le> 11 then binary (drop (k - 1) binary_levels) else primary)"

abbreviation at :: "Token list \<Rightarrow> bool \<Rightarrow> PpExprParser" where
  "at ts err \<equiv> \<lparr>pe_toks = ts, pe_err = err\<rparr>"

text \<open>What may follow an expression read at a precedence: no operator the method would take, and no opening parenthesis.\<close>

fun follow :: "nat \<Rightarrow> Token list \<Rightarrow> bool" where
  "follow k [] \<longleftrightarrow> True"
| "follow k (t # ts) \<longleftrightarrow>
     (case tok_kind t of
        Punct s \<Rightarrow> s \<noteq> str ''('' \<and> (case prec s of Some l \<Rightarrow> l < k | None \<Rightarrow> True) \<and> (s = str ''?'' \<longrightarrow> 0 < k)
      | _ \<Rightarrow> True)"

lemma follow_mono: "follow k ts \<Longrightarrow> k \<le> l \<Longrightarrow> follow l ts"
  by (cases ts) (auto split: TokenKind.splits option.splits)

lemma peek_at: "peek_punct (at (t # ts) err) = (case tok_kind t of Punct s \<Rightarrow> Some s | _ \<Rightarrow> None)" "peek_punct (at [] err) = None"
  by (simp_all add: peek_punct_def)

lemma advance_at [simp]: "advance (at (t # ts) err) = at ts err"
  by (simp add: advance_def)

lemma eats_at [simp]: "eats s (at (t # ts) err) \<longleftrightarrow> tok_kind t = Punct s" "\<not> eats s (at [] err)"
  by (auto simp: eats_def peek_at split: TokenKind.split)

lemma levels_drop: "1 \<le> k \<Longrightarrow> k \<le> 10 \<Longrightarrow> drop (k - 1) binary_levels = binary_levels ! (k - 1) # drop k binary_levels"
  using Cons_nth_drop_Suc [of "k - 1" binary_levels] by simp

lemma loop_stops:
  assumes "follow k rest" "1 \<le> k" "k \<le> 10"
  shows "binary_loop (binary_levels ! (k - 1)) (drop k binary_levels) v (at rest err) = (v, at rest err)"
proof -
  have "Option.bind (peek_punct (at rest err)) (map_of (binary_levels ! (k - 1))) = None"
    using assms by (cases rest) (auto simp: peek_at operator_level prec_def split: TokenKind.splits option.splits)
  then show ?thesis by (simp add: binary_loop.simps)
qed

lemma loop_takes:
  assumes "tok_kind t = Punct op" "prec op = Some k" "parse_level (Suc k) (at ts err) = (r, p)"
  shows "binary_loop (binary_levels ! (k - 1)) (drop k binary_levels) v (at (t # ts) err)
    = binary_loop (binary_levels ! (k - 1)) (drop k binary_levels) (meaning op v r) p"
proof -
  have k: "1 \<le> k" "k \<le> 10" using prec_bounds [OF assms(2)] by auto
  have "Option.bind (peek_punct (at (t # ts) err)) (map_of (binary_levels ! (k - 1))) = Some (meaning op)"
    using assms(1,2) k by (auto simp: peek_at operator_level prec_def meaning_def split: option.splits)
  then show ?thesis using assms(3) k by (subst binary_loop.simps) (simp add: parse_level_def)
qed

text \<open>Reading at one precedence from reading at the next.\<close>

lemma level_loop:
  assumes "1 \<le> k" "k \<le> 10"
  shows "parse_level k p = (let (v, p1) = parse_level (Suc k) p in binary_loop (binary_levels ! (k - 1)) (drop k binary_levels) v p1)"
  using assms levels_drop [OF assms] by (simp add: parse_level_def)

lemma parse_down:
  assumes "parse_level l (at ts err) = (v, at rest err)" "1 \<le> k" "k \<le> l" "l \<le> 11" "follow k rest"
  shows "parse_level k (at ts err) = (v, at rest err)"
  using assms(3,1,2,4,5)
proof (induction k rule: inc_induct)
  case (step n)
  have "parse_level (Suc n) (at ts err) = (v, at rest err)" using step.IH step.prems step.hyps follow_mono [of n rest] by simp
  moreover have n: "1 \<le> n" "n \<le> 10" using step.prems step.hyps by auto
  ultimately show ?case using loop_stops [OF step.prems(4) n] by (simp add: level_loop [OF n])
qed

lemma parse_tern:
  assumes "parse_level 1 (at ts err) = (v, at rest err)" "follow 0 rest"
  shows "parse_level 0 (at ts err) = (v, at rest err)"
proof -
  have "\<not> eats (str ''?'') (at rest err)" using assms(2) by (cases rest) auto
  then show ?thesis using assms(1) by (simp add: parse_level_def ternary.simps)
qed

lemma parse_prefix:
  assumes "parse_level 12 (at (t # ts) err) = (v, p)" "\<And>s. tok_kind t = Punct s \<Longrightarrow> map_of c_prefixes s = None"
  shows "parse_level 11 (at (t # ts) err) = (v, p)"
proof -
  have "tok_kind t \<noteq> Punct (str ''!'')" "tok_kind t \<noteq> Punct (str ''~'')" "tok_kind t \<noteq> Punct (str ''-'')" "tok_kind t \<noteq> Punct (str ''+'')"
    using assms(2) by (auto simp: c_prefixes_def)
  then show ?thesis using assms(1) by (simp add: parse_level_def unary.simps)
qed

lemma parse_unop:
  assumes "tok_kind t = Punct op" "map_of c_prefixes op = Some f" "parse_level 11 (at ts err) = (v, p)"
  shows "parse_level 11 (at (t # ts) err) = (f v, p)"
proof -
  have u: "parse_level 11 = unary" by (simp add: parse_level_def fun_eq_iff)
  show ?thesis using assms unfolding u by (subst unary.simps) (auto simp: c_prefixes_def split: if_splits)
qed

lemma swallow_balanced:
  "balanced n (map tok_kind as) \<Longrightarrow> tok_kind t = op_kind '')'' \<Longrightarrow> swallow_call (int n + 1) (as @ t # rest) = (rest, True)"
proof (induction as arbitrary: n)
  case (Cons a as)
  consider (op) "tok_kind a = op_kind ''(''" | (cl) m where "tok_kind a = op_kind '')''" "n = Suc m"
    | (other) "tok_kind a \<noteq> op_kind ''(''" "tok_kind a \<noteq> op_kind '')''"
    using Cons.prems(1) by (cases n) (auto split: if_splits)
  then show ?case
  proof cases
    case op
    then show ?thesis using Cons.IH [of "Suc n"] Cons.prems by (simp add: is_punct_def algebra_simps)
  next
    case cl
    then show ?thesis using Cons.IH [of m] Cons.prems by (simp add: is_punct_def algebra_simps)
  next
    case other
    then show ?thesis using Cons.IH [of n] Cons.prems by (simp add: is_punct_def op_kind_def)
  qed
qed (simp add: is_punct_def op_kind_def)

lemma primary_literal:
  assumes "literal (tok_kind t) = Some v" "follow 12 rest"
  shows "parse_level 12 (at (t # rest) err) = (v, at rest err)"
proof (cases "tok_kind t")
  case (Identifier x)
  have "\<not> eats (str ''('') (at rest err)" using assms(2) by (cases rest) auto
  then show ?thesis using assms(1) Identifier by (auto simp: parse_level_def primary.simps ident_value_def from_bool_def Let_def)
qed (use assms in \<open>auto simp: parse_level_def primary.simps constant_value_def\<close>)

lemma primary_call:
  assumes "tok_kind t = Identifier f" "f \<noteq> str ''true''" "f \<noteq> str ''false''" "tok_kind o1 = op_kind ''(''" "tok_kind c1 = op_kind '')''"
    "balanced 0 (map tok_kind as)"
  shows "parse_level 12 (at (t # o1 # as @ c1 # rest) err) = (PpVal_signed 0, at rest err)"
proof -
  have "swallow_call 0 (o1 # as @ c1 # rest) = (rest, True)" using swallow_balanced [of 0 as c1 rest] assms by (simp add: is_punct_def)
  then show ?thesis using assms by (simp add: parse_level_def primary.simps ident_value_def)
qed

lemma primary_paren:
  assumes "tok_kind o1 = op_kind ''(''" "tok_kind c1 = op_kind '')''" "parse_level 0 (at (as @ c1 # rest) err) = (v, at (c1 # rest) err)"
  shows "parse_level 12 (at (o1 # as @ c1 # rest) err) = (v, at rest err)"
  using assms by (simp add: parse_level_def primary.simps op_kind_def)

definition reads_at :: "cexpr \<Rightarrow> nat \<Rightarrow> bool" where
  "reads_at e k \<longleftrightarrow> (\<forall>ts rest err. map tok_kind ts = print_expr e \<longrightarrow> follow k rest \<longrightarrow> parse_level k (at (ts @ rest) err) = (sem e, at rest err))"

definition reads_loop :: "cexpr \<Rightarrow> nat \<Rightarrow> bool" where
  "reads_loop e k \<longleftrightarrow> (\<forall>ts rest err. map tok_kind ts = print_expr e \<longrightarrow> follow (Suc k) rest \<longrightarrow>
     parse_level k (at (ts @ rest) err) = binary_loop (binary_levels ! (k - 1)) (drop k binary_levels) (sem e) (at rest err))"

lemma reads_down:
  assumes "reads_at e l" "k \<le> l" "l \<le> 11"
  shows "reads_at e k"
proof -
  have pos: "reads_at e k" if "1 \<le> k" "k \<le> l" for k
    using assms(1,3) that parse_down [of l _ _ "sem e" _ k] follow_mono unfolding reads_at_def by blast
  show ?thesis
  proof (cases "k = 0")
    case True
    show ?thesis
    proof (cases "l = 0")
      case False
      then have "reads_at e 1" using pos by simp
      then show ?thesis using True parse_tern follow_mono [of 0 _ 1] unfolding reads_at_def by blast
    qed (use assms True in simp)
  qed (use pos assms(2) in simp)
qed

lemma reads_loop_step: "reads_at e (Suc k) \<Longrightarrow> 1 \<le> k \<Longrightarrow> k \<le> 10 \<Longrightarrow> reads_loop e k"
  unfolding reads_at_def reads_loop_def by (simp add: level_loop)

lemma reads_of_loop: "reads_loop e k \<Longrightarrow> 1 \<le> k \<Longrightarrow> k \<le> 10 \<Longrightarrow> reads_at e k"
  unfolding reads_at_def reads_loop_def using loop_stops follow_mono [of k _ "Suc k"] by auto

text \<open>An expression that is read at its own precedence is read at every weaker one, also inside an operator loop.\<close>

definition readable :: "cexpr \<Rightarrow> bool" where
  "readable e \<longleftrightarrow> (\<forall>k \<le> level e. reads_at e k) \<and> (\<forall>k. 1 \<le> k \<longrightarrow> k \<le> 10 \<longrightarrow> k \<le> level e \<longrightarrow> reads_loop e k)"

lemma readable_tight:
  assumes "reads_at e 11" "level e = 11 \<or> level e = 12 \<and> reads_at e 12"
  shows "readable e"
  unfolding readable_def
proof (intro conjI allI impI)
  fix k assume "k \<le> level e"
  then show "reads_at e k" using assms reads_down [of e 11 k] by (cases "k = 12") auto
next
  fix k :: nat assume "1 \<le> k" "k \<le> 10"
  then show "reads_loop e k" using assms(1) reads_down [of e 11 "Suc k"] reads_loop_step by simp
qed

lemma readable_loose:
  assumes "reads_loop e (level e)" "1 \<le> level e" "level e \<le> 10"
  shows "readable e"
  unfolding readable_def
proof (intro conjI allI impI)
  fix k assume k: "k \<le> level e"
  show "reads_at e k" using assms k reads_of_loop [of e "level e"] reads_down [of e "level e" k] by simp
next
  fix k assume k: "1 \<le> k" "k \<le> 10" "k \<le> level e"
  show "reads_loop e k"
  proof (cases "k = level e")
    case False
    then have "reads_at e (Suc k)" using k assms reads_of_loop [of e "level e"] reads_down [of e "level e" "Suc k"] by simp
    then show ?thesis using k reads_loop_step by simp
  qed (use assms in simp)
qed

lemma map_tok_append:
  "map tok_kind ts = ks @ ks' \<Longrightarrow> \<exists>as bs. ts = as @ bs \<and> map tok_kind as = ks \<and> map tok_kind bs = ks'"
  by (simp add: map_eq_append_conv) blast

lemma map_tok_Cons: "map tok_kind ts = k # ks \<longleftrightarrow> (\<exists>t bs. ts = t # bs \<and> tok_kind t = k \<and> map tok_kind bs = ks)"
  by (auto simp: map_eq_Cons_conv)

lemma follow_closers: "tok_kind t = op_kind '')'' \<or> tok_kind t = op_kind '':'' \<Longrightarrow> follow k (t # ts)"
  by (auto simp: op_kind_def prec_def c_operators_def)

lemma follow_op: "tok_kind t = Punct op \<Longrightarrow> prec op = Some l \<Longrightarrow> l < k \<Longrightarrow> follow k (t # ts)"
  by (auto simp: prec_def c_operators_def split: if_splits)

lemma reads_primary:
  assumes "reads_at e 12" "\<And>k ks. print_expr e = k # ks \<Longrightarrow> \<forall>s. k = Punct s \<longrightarrow> map_of c_prefixes s = None" "print_expr e \<noteq> []"
  shows "reads_at e 11"
  unfolding reads_at_def
proof (intro allI impI)
  fix ts rest :: "Token list" and err :: bool assume m: "map tok_kind ts = print_expr e" and f: "follow 11 rest"
  then obtain t us where ts: "ts = t # us" using assms(3) by (cases ts) auto
  have "parse_level 12 (at (ts @ rest) err) = (sem e, at rest err)" using assms(1) m f follow_mono unfolding reads_at_def by force
  then show "parse_level 11 (at (ts @ rest) err) = (sem e, at rest err)"
    using assms(2) m parse_prefix unfolding ts by (metis append_Cons list.simps(9))
qed

lemma readable_primary:
  assumes "reads_at e 12" "level e = 12" "\<And>k ks. print_expr e = k # ks \<Longrightarrow> \<forall>s. k = Punct s \<longrightarrow> map_of c_prefixes s = None" "print_expr e \<noteq> []"
  shows "readable e"
  using readable_tight [of e] reads_primary [of e] assms by blast

lemma readable_binop:
  assumes "prec op = Some l" "readable a" "l \<le> level a" "readable b" "l < level b"
  shows "reads_loop (Binop op a b) l"
  unfolding reads_loop_def
proof (intro allI impI)
  fix ts rest :: "Token list" and err :: bool assume m: "map tok_kind ts = print_expr (Binop op a b)" and f: "follow (Suc l) rest"
  note l = prec_bounds [OF assms(1)]
  obtain as bs t where ts: "ts = as @ t # bs" and a: "map tok_kind as = print_expr a" and b: "map tok_kind bs = print_expr b"
    and t: "tok_kind t = Punct op" using m by (auto dest!: map_tok_append simp: map_tok_Cons)
  have "parse_level l (at (as @ t # bs @ rest) err)
      = binary_loop (binary_levels ! (l - 1)) (drop l binary_levels) (sem a) (at (t # bs @ rest) err)"
    using assms(2,3) l a follow_op [OF t assms(1), of "Suc l"] unfolding readable_def reads_loop_def by simp
  moreover have "parse_level (Suc l) (at (bs @ rest) err) = (sem b, at rest err)"
    using assms(4,5) b f unfolding readable_def reads_at_def by simp
  ultimately show "parse_level l (at (ts @ rest) err)
      = binary_loop (binary_levels ! (l - 1)) (drop l binary_levels) (sem (Binop op a b)) (at rest err)"
    using loop_takes [OF t assms(1)] unfolding ts by simp
qed

lemma readable_ternary:
  assumes "readable e" "map tok_kind ts = print_expr e" "follow 0 rest"
  shows "ternary (at (ts @ rest) err) = (sem e, at rest err)"
proof -
  have "reads_at e 0" using assms(1) by (simp add: readable_def)
  then have "parse_level 0 (at (ts @ rest) err) = (sem e, at rest err)" using assms(2,3) unfolding reads_at_def by blast
  then show ?thesis by (simp add: parse_level_def)
qed

lemma readable_tern:
  assumes "readable c" "1 \<le> level c" "readable a" "readable b"
  shows "reads_at (Tern c a b) 0"
  unfolding reads_at_def
proof (intro allI impI)
  fix ts rest :: "Token list" and err :: bool assume m: "map tok_kind ts = print_expr (Tern c a b)" and f: "follow 0 rest"
  obtain cs as bs q s where ts: "ts = cs @ q # as @ s # bs" and c: "map tok_kind cs = print_expr c" and a: "map tok_kind as = print_expr a"
    and b: "map tok_kind bs = print_expr b" and q: "tok_kind q = op_kind ''?''" and s: "tok_kind s = op_kind '':''"
    using m by (auto dest!: map_tok_append simp: map_tok_Cons)
  have "follow 1 (q # as @ s # bs @ rest)" using q by (simp add: op_kind_def prec_def c_operators_def)
  then have "parse_level 1 (at (cs @ q # as @ s # bs @ rest) err) = (sem c, at (q # as @ s # bs @ rest) err)"
    using assms(1,2) c unfolding readable_def reads_at_def by simp
  moreover have "ternary (at (as @ s # bs @ rest) err) = (sem a, at (s # bs @ rest) err)"
    using readable_ternary [OF assms(3) a] follow_closers [of s 0] s by blast
  moreover have "ternary (at (bs @ rest) err) = (sem b, at rest err)"
    using readable_ternary [OF assms(4) b f] .
  ultimately show "parse_level 0 (at (ts @ rest) err) = (sem (Tern c a b), at rest err)"
    using q s unfolding ts by (subst parse_level_def) (simp add: ternary.simps parse_level_def op_kind_def)
qed

lemma wf_readable: "wf_expr e \<Longrightarrow> readable e"
proof (induction e)
  case (Lit k)
  have "reads_at (Lit k) 12" using Lit primary_literal unfolding reads_at_def by (auto simp: map_tok_Cons)
  moreover have "\<forall>s. k \<noteq> Punct s" using Lit by auto
  ultimately show ?case by (intro readable_primary) auto
next
  case (Call f args)
  have "reads_at (Call f args) 12" using Call primary_call unfolding reads_at_def
    by (auto dest!: map_tok_append simp: map_tok_Cons)
  then show ?case by (rule readable_primary) auto
next
  case (Paren e)
  then have "reads_at e 0" by (simp add: readable_def)
  then have "reads_at (Paren e) 12" using primary_paren follow_closers unfolding reads_at_def
    by (auto simp del: follow.simps dest!: map_tok_append simp: map_tok_Cons)
  then show ?case by (rule readable_primary) (auto simp: op_kind_def c_prefixes_def)
next
  case (Unop op e)
  then have "reads_at e 11" by (simp add: readable_def)
  then have "reads_at (Unop op e) 11" using Unop.prems parse_unop unfolding reads_at_def by (auto simp: map_tok_Cons)
  then show ?case by (rule readable_tight) simp
next
  case (Binop op a b)
  then obtain l where l: "prec op = Some l" by (cases "prec op") auto
  then show ?case using Binop readable_binop [OF l] prec_bounds [OF l] readable_loose [of "Binop op a b"] by simp
next
  case (Tern c a b)
  then have "reads_at (Tern c a b) 0" using readable_tern by simp
  then show ?case by (simp add: readable_def)
qed

lemma printed_expression_value:
  assumes "wf_expr e" "map tok_kind ts = print_expr e"
  shows "ternary (at ts err) = (sem e, at [] err)"
  using readable_ternary [OF wf_readable [OF assms(1)] assms(2), of "[]"] by simp

section \<open>What is read was printed\<close>

text \<open>An error is never cleared.\<close>

lemma fail_err [simp]: "pe_err (fail p)" "pe_err (advance p) = pe_err p"
  by (simp_all add: fail_def advance_def)

lemma err_stays:
  "pe_err p \<Longrightarrow> pe_err (snd (ternary p))"
  "pe_err q \<Longrightarrow> pe_err (snd (binary levels q))"
  "pe_err r \<Longrightarrow> pe_err (snd (binary_loop ops levels' v r))"
  "pe_err s \<Longrightarrow> pe_err (snd (unary s))"
  "pe_err t \<Longrightarrow> pe_err (snd (primary t))"
proof (induction p and levels q and ops levels' v r and s and t rule: ternary_binary_binary_loop_unary_primary.induct)
  case (1 p)
  obtain c p1 where b: "binary binary_levels p = (c, p1)" by fastforce
  obtain a p2 where t: "ternary (advance p1) = (a, p2)" by fastforce
  show ?case using 1 b t by (subst ternary.simps) (auto simp: case_prod_beta)
next
  case (4 ops levels v p)
  then show ?case by (subst binary_loop.simps) (auto split: option.split simp: case_prod_beta)
next
  case (5 p)
  then show ?case by (subst unary.simps) (simp add: case_prod_beta)
next
  case (6 p)
  then show ?case by (subst primary.simps)
    (auto simp: case_prod_beta constant_value_def ident_value_def Let_def split: list.split TokenKind.split option.split)
qed (simp_all add: case_prod_beta)

lemma swallow_split:
  "swallow_call (int n + 1) ts = (rest, True) \<Longrightarrow>
     \<exists>as t. ts = as @ t # rest \<and> tok_kind t = op_kind '')'' \<and> balanced n (map tok_kind as)"
proof (induction ts arbitrary: n)
  case (Cons a ts)
  consider (op) "tok_kind a = op_kind ''(''" | (stop) "tok_kind a = op_kind '')''" "n = 0" | (cl) m where "tok_kind a = op_kind '')''" "n = Suc m"
    | (other) "tok_kind a \<noteq> op_kind ''(''" "tok_kind a \<noteq> op_kind '')''"
    by (cases n) auto
  then show ?case
  proof cases
    case op
    then obtain as t where "ts = as @ t # rest" "tok_kind t = op_kind '')''" "balanced (Suc n) (map tok_kind as)"
      using Cons.IH [of "Suc n"] Cons.prems by (auto simp: is_punct_def algebra_simps)
    then show ?thesis using op by (intro exI [of _ "a # as"] exI [of _ t]) simp
  next
    case stop
    then show ?thesis using Cons.prems by (intro exI [of _ "[]"] exI [of _ a]) (auto simp: is_punct_def)
  next
    case cl
    then obtain as t where "ts = as @ t # rest" "tok_kind t = op_kind '')''" "balanced m (map tok_kind as)"
      using Cons.IH [of m] Cons.prems by (auto simp: is_punct_def algebra_simps)
    then show ?thesis using cl by (intro exI [of _ "a # as"] exI [of _ t]) simp
  next
    case other
    then obtain as t where "ts = as @ t # rest" "tok_kind t = op_kind '')''" "balanced n (map tok_kind as)"
      using Cons.IH [of n] Cons.prems by (auto simp: is_punct_def op_kind_def)
    then show ?thesis using other by (intro exI [of _ "a # as"] exI [of _ t]) simp
  qed
qed simp

text \<open>The tokens between two positions print a well-formed expression of at least a precedence, with the value that was returned.\<close>

definition derives :: "nat \<Rightarrow> PpExprParser \<Rightarrow> PpVal \<times> PpExprParser \<Rightarrow> bool" where
  "derives k p r \<longleftrightarrow> (\<exists>e cs. pe_toks p = cs @ pe_toks (snd r) \<and> map tok_kind cs = print_expr e \<and> wf_expr e \<and> k \<le> level e \<and> sem e = fst r)"

lemma derivesI:
  assumes "pe_toks p = cs @ pe_toks p'" "map tok_kind cs = print_expr e" "wf_expr e" "k \<le> level e" "sem e = v"
  shows "derives k p (v, p')"
  using assms unfolding derives_def by auto

lemma derivesE:
  assumes "derives k p (v, p')"
  obtains e cs where "pe_toks p = cs @ pe_toks p'" "map tok_kind cs = print_expr e" "wf_expr e" "k \<le> level e" "v = sem e"
  using assms unfolding derives_def by auto

lemma derives_weaken: "derives k p r \<Longrightarrow> l \<le> k \<Longrightarrow> derives l p r"
  unfolding derives_def using le_trans by blast

lemma eats_toks: "eats s p \<Longrightarrow> \<exists>t. pe_toks p = t # pe_toks (advance p) \<and> tok_kind t = Punct s"
  by (auto simp: eats_def peek_punct_def advance_def split: list.splits TokenKind.splits)

lemma operator_toks:
  assumes "Option.bind (peek_punct p) (map_of (binary_levels ! (k - 1))) = Some f" "1 \<le> k" "k \<le> 10"
  shows "\<exists>t op. pe_toks p = t # pe_toks (advance p) \<and> tok_kind t = Punct op \<and> prec op = Some k \<and> meaning op = f"
proof -
  obtain op where op: "peek_punct p = Some op" "map_of (binary_levels ! (k - 1)) op = Some f" using assms(1) by (cases "peek_punct p") auto
  then have "prec op = Some k" "meaning op = f"
    using assms(2,3) by (auto simp: operator_level prec_def meaning_def split: option.splits if_splits)
  moreover have "\<exists>t. pe_toks p = t # pe_toks (advance p) \<and> tok_kind t = Punct op"
    using op(1) by (auto simp: peek_punct_def advance_def split: list.splits TokenKind.splits)
  ultimately show ?thesis by blast
qed

lemma derives_unop:
  assumes "eats s p" "map_of c_prefixes s = Some f" "derives 11 (advance p) (v, p')"
  shows "derives 11 p (f v, p')"
proof -
  obtain t where t: "pe_toks p = t # pe_toks (advance p)" "tok_kind t = Punct s" using eats_toks [OF assms(1)] by blast
  from assms(3) show ?thesis
  proof (rule derivesE)
    fix e cs assume "pe_toks (advance p) = cs @ pe_toks p'" "map tok_kind cs = print_expr e" "wf_expr e" "11 \<le> level e" "v = sem e"
    then show ?thesis using t assms(2) by (intro derivesI [of _ "t # cs" _ "Unop s e"]) auto
  qed
qed

lemma derives_binop:
  assumes "derives k p (v, p1)" "pe_toks p1 = t # pe_toks (advance p1)" "tok_kind t = Punct op" "prec op = Some k"
    "derives (Suc k) (advance p1) (r, p2)"
  shows "derives k p (meaning op v r, p2)"
proof -
  from assms(1) obtain a as where a: "pe_toks p = as @ pe_toks p1" "map tok_kind as = print_expr a" "wf_expr a" "k \<le> level a" "v = sem a"
    by (rule derivesE)
  from assms(5) obtain b bs where b: "pe_toks (advance p1) = bs @ pe_toks p2" "map tok_kind bs = print_expr b" "wf_expr b"
    "Suc k \<le> level b" "r = sem b" by (rule derivesE)
  have "pe_toks p = (as @ t # bs) @ pe_toks p2" using a(1) assms(2) b(1) by simp
  then show ?thesis using a b assms(3,4) by (intro derivesI [of _ "as @ t # bs" _ "Binop op a b"]) auto
qed

lemma derives_tern:
  assumes "derives 1 p (c, p1)" "eats (str ''?'') p1" "derives 0 (advance p1) (a, p2)" "eats (str '':'') p2" "derives 0 (advance p2) (b, p3)"
  shows "derives 0 p (pp_choose c a b, p3)"
proof -
  obtain q s where q: "pe_toks p1 = q # pe_toks (advance p1)" "tok_kind q = op_kind ''?''"
    and s: "pe_toks p2 = s # pe_toks (advance p2)" "tok_kind s = op_kind '':''"
    using eats_toks [OF assms(2)] eats_toks [OF assms(4)] by (auto simp: op_kind_def)
  from assms(1) obtain ec cs where c: "pe_toks p = cs @ pe_toks p1" "map tok_kind cs = print_expr ec" "wf_expr ec" "1 \<le> level ec" "c = sem ec"
    by (rule derivesE)
  from assms(3) obtain ea as where a: "pe_toks (advance p1) = as @ pe_toks p2" "map tok_kind as = print_expr ea" "wf_expr ea" "a = sem ea"
    by (rule derivesE)
  from assms(5) obtain eb bs where b: "pe_toks (advance p2) = bs @ pe_toks p3" "map tok_kind bs = print_expr eb" "wf_expr eb" "b = sem eb"
    by (rule derivesE)
  have "pe_toks p = (cs @ q # as @ s # bs) @ pe_toks p3" using c(1) q(1) a(1) s(1) b(1) by simp
  then show ?thesis using c a b q s by (intro derivesI [of _ "cs @ q # as @ s # bs" _ "Tern ec ea eb"]) auto
qed

lemma derives_paren:
  assumes "pe_toks p = t # pe_toks (advance p)" "tok_kind t = Punct (str ''('')" "derives 0 (advance p) (v, p1)" "eats (str '')'') p1"
  shows "derives 12 p (v, advance p1)"
proof -
  obtain c where c: "pe_toks p1 = c # pe_toks (advance p1)" "tok_kind c = op_kind '')''"
    using eats_toks [OF assms(4)] by (auto simp: op_kind_def)
  from assms(3) obtain e cs where e: "pe_toks (advance p) = cs @ pe_toks p1" "map tok_kind cs = print_expr e" "wf_expr e" "v = sem e"
    by (rule derivesE)
  have "pe_toks p = (t # cs @ [c]) @ pe_toks (advance p1)" using assms(1) e(1) c(1) by simp
  then show ?thesis using e c assms(2) by (intro derivesI [of _ "t # cs @ [c]" _ "Paren e"]) (auto simp: op_kind_def)
qed

lemma derives_literal:
  assumes "pe_toks p = t # ts" "literal (tok_kind t) = Some v"
  shows "derives 12 p (v, advance p)"
  using assms by (intro derivesI [of _ "[t]" _ "Lit (tok_kind t)"]) (auto simp: advance_def)

lemma derives_ident:
  assumes "pe_toks p = t # ts" "tok_kind t = Identifier f" "\<not> pe_err (snd (ident_value f p))"
  shows "derives 12 p (ident_value f p)"
proof (cases "f \<noteq> str ''true'' \<and> f \<noteq> str ''false'' \<and> eats (str ''('') (advance p)")
  case True
  then obtain o1 where o1: "ts = o1 # pe_toks (advance (advance p))" "tok_kind o1 = op_kind ''(''"
    using eats_toks [of "str ''(''" "advance p"] assms(1) by (auto simp: advance_def op_kind_def)
  obtain rest cl where sw: "swallow_call 0 ts = (rest, cl)" by fastforce
  have "cl" using assms True sw by (auto simp: ident_value_def Let_def advance_def split: if_splits)
  then have "swallow_call (int 0 + 1) (tl ts) = (rest, True)" using sw o1 by (cases ts) (auto simp: is_punct_def op_kind_def)
  then obtain as c where as: "tl ts = as @ c # rest" "tok_kind c = op_kind '')''" "balanced 0 (map tok_kind as)" using swallow_split by blast
  have v: "ident_value f p = (PpVal_signed 0, (advance p)\<lparr>pe_toks := rest\<rparr>)"
    using True sw \<open>cl\<close> assms(1) by (simp add: ident_value_def advance_def)
  have "pe_toks p = (t # o1 # as @ [c]) @ rest" using assms(1) o1 as by (cases ts) auto
  then show ?thesis unfolding v using True assms(2) o1 as
    by (intro derivesI [of _ "t # o1 # as @ [c]" _ "Call f (map tok_kind as)"]) auto
next
  case False
  then have "ident_value f p = (from_bool (f = str ''true''), advance p)" by (auto simp: ident_value_def Let_def from_bool_def)
  then show ?thesis using derives_literal [OF assms(1)] assms(2) by simp
qed

lemma unary_prefix:
  assumes "eats (str ''!'') p \<or> eats (str ''~'') p \<or> eats (str ''-'') p \<or> eats (str ''+'') p" "unary (advance p) = (v, p1)"
  obtains s f where "eats s p" "map_of c_prefixes s = Some f" "unary p = (f v, p1)"
proof -
  obtain s where s: "eats s p" "s \<in> {str ''!'', str ''~'', str ''-'', str ''+''}" using assms(1) by blast
  then have "\<exists>f. map_of c_prefixes s = Some f \<and> unary p = (f v, p1)"
    using assms(2) by (auto simp: unary.simps [of p] c_prefixes_def eats_def)
  then show thesis using s that by blast
qed

lemma derives_primary:
  assumes "\<And>t ts s. pe_toks p = t # ts \<Longrightarrow> tok_kind t = Punct s \<Longrightarrow> s = str ''('' \<Longrightarrow> \<not> pe_err (snd (ternary (advance p))) \<Longrightarrow>
      derives 0 (advance p) (ternary (advance p))"
    and ok: "\<not> pe_err (snd (primary p))"
  shows "derives 12 p (primary p)"
proof -
  obtain t ts where t: "pe_toks p = t # ts" using ok by (cases "pe_toks p") (simp_all add: primary.simps)
  show ?thesis
  proof (cases "tok_kind t")
    case (Identifier f)
    then show ?thesis using ok derives_ident [OF t] t by (simp add: primary.simps)
  next
    case (Number s)
    then show ?thesis using ok derives_literal [OF t] t by (cases "parse_pp_int s") (simp_all add: primary.simps constant_value_def)
  next
    case (Char s)
    then show ?thesis using ok derives_literal [OF t] t by (cases "char_literal_body s") (simp_all add: primary.simps constant_value_def)
  next
    case (Punct s)
    obtain v p1 where v: "ternary (advance p) = (v, p1)" by fastforce
    have s: "s = str ''(''" "eats (str '')'') p1" "\<not> pe_err p1"
      using ok t Punct v by (auto simp: primary.simps split: if_splits)
    have "derives 0 (advance p) (v, p1)" using assms(1) [OF t Punct s(1)] v s(3) by simp
    moreover have "pe_toks p = t # pe_toks (advance p)" using t by (simp add: advance_def)
    ultimately have "derives 12 p (v, advance p1)" using derives_paren Punct s by blast
    then show ?thesis using t Punct v s by (simp add: primary.simps)
  qed (use ok t in \<open>simp_all add: primary.simps\<close>)
qed

lemma parsed_printed:
  "\<not> pe_err (snd (ternary p)) \<Longrightarrow> derives 0 p (ternary p)"
  "\<not> pe_err (snd (binary levels q)) \<Longrightarrow> 1 \<le> k \<Longrightarrow> k \<le> 11 \<Longrightarrow> levels = drop (k - 1) binary_levels \<Longrightarrow> derives k q (binary levels q)"
  "\<not> pe_err (snd (binary_loop ops levels' v r)) \<Longrightarrow> 1 \<le> l \<Longrightarrow> l \<le> 10 \<Longrightarrow> ops = binary_levels ! (l - 1) \<Longrightarrow>
     levels' = drop l binary_levels \<Longrightarrow> derives l p0 (v, r) \<Longrightarrow> derives l p0 (binary_loop ops levels' v r)"
  "\<not> pe_err (snd (unary s)) \<Longrightarrow> derives 11 s (unary s)"
  "\<not> pe_err (snd (primary t)) \<Longrightarrow> derives 12 t (primary t)"
proof (induction p and levels q and ops levels' v r and s and t arbitrary: and k and l p0 and and
    rule: ternary_binary_binary_loop_unary_primary.induct)
  case (1 p)
  obtain c p1 where b: "binary binary_levels p = (c, p1)" by fastforce
  obtain a p2 where t: "ternary (advance p1) = (a, p2)" by fastforce
  obtain b' p3 where t': "ternary (advance p2) = (b', p3)" by fastforce
  show ?case
  proof (cases "eats (str ''?'') p1")
    case True
    have colon: "eats (str '':'') p2" using 1(4) True b t by (subst (asm) ternary.simps) (auto split: if_splits)
    have tp: "ternary p = (pp_choose c a b', p3)" using True b t t' colon by (subst ternary.simps) simp
    have e3: "\<not> pe_err p3" using 1(4) tp by simp
    then have e2: "\<not> pe_err p2" using err_stays(1) [of "advance p2"] t' by auto
    then have e1: "\<not> pe_err p1" using err_stays(1) [of "advance p1"] t by auto
    have "derives 1 p (c, p1)" using 1(1) [of 1] e1 b by simp
    moreover have "derives 0 (advance p1) (a, p2)" using 1(2) [OF refl b [symmetric] True] e2 t by simp
    moreover have "derives 0 (advance p2) (b', p3)"
      using 1(3) [OF refl b [symmetric] True refl t [symmetric] colon] e3 t' by simp
    ultimately show ?thesis unfolding tp using derives_tern [OF _ True _ colon] by blast
  next
    case False
    then have tp: "ternary p = (c, p1)" using b by (subst ternary.simps) simp
    then have "derives 1 p (c, p1)" using 1(1) [of 1] 1(4) b by simp
    then show ?thesis unfolding tp by (rule derives_weaken) simp
  qed
next
  case (2 p)
  then have "k = 11" by simp
  then show ?case using 2 by simp
next
  case (3 ops levels p)
  obtain v p1 where b: "binary levels p = (v, p1)" by fastforce
  have k: "1 \<le> k" "k \<le> 10" using 3(4-6) by (cases "k = 11"; simp)+
  have ops: "ops = binary_levels ! (k - 1)" "levels = drop k binary_levels" using 3(6) levels_drop [OF k] by auto
  have "\<not> pe_err p1" using 3(3) err_stays(3) [of p1] b by auto
  then have "derives (Suc k) p (v, p1)" using 3(1) [of "Suc k"] k ops b by simp
  then have "derives k p (v, p1)" by (rule derives_weaken) simp
  then show ?case using 3(2) [OF refl b [symmetric] _ k ops] 3(3) b by simp
next
  case (4 ops levels v p)
  show ?case
  proof (cases "Option.bind (peek_punct p) (map_of ops)")
    case None
    then show ?thesis using 4(8) by (subst binary_loop.simps) simp
  next
    case (Some f)
    obtain r p1 where b: "binary levels (advance p) = (r, p1)" by fastforce
    have lp: "binary_loop ops levels v p = binary_loop ops levels (f v r) p1" using Some b by (subst binary_loop.simps) simp
    obtain t op where t: "pe_toks p = t # pe_toks (advance p)" "tok_kind t = Punct op" "prec op = Some l" "meaning op = f"
      using operator_toks [of p l f] Some 4(4-6) by auto
    have "\<not> pe_err p1" using 4(3) err_stays(3) [of p1] lp by auto
    then have "derives (Suc l) (advance p) (r, p1)" using 4(1) [OF Some, of "Suc l"] 4(4-7) b by simp
    then have "derives l p0 (f v r, p1)" using derives_binop [OF 4(8) t(1-3)] t(4) by simp
    then show ?thesis unfolding lp using 4(2) [OF Some refl b [symmetric] _ 4(4-7)] 4(3) lp by simp
  qed
next
  case (5 p)
  obtain v p1 where u: "unary (advance p) = (v, p1)" by fastforce
  show ?case
  proof (cases "eats (str ''!'') p \<or> eats (str ''~'') p \<or> eats (str ''-'') p \<or> eats (str ''+'') p")
    case True
    then obtain s f where s: "eats s p" "map_of c_prefixes s = Some f" "unary p = (f v, p1)" by (rule unary_prefix [OF _ u])
    have "derives 11 (advance p) (v, p1)" using 5(1-4,6) s(3) u True by auto
    then show ?thesis unfolding s(3) by (rule derives_unop [OF s(1,2)])
  next
    case False
    then have "unary p = primary p" by (subst unary.simps) simp
    then show ?thesis using 5(5,6) False derives_weaken [of 12 p _ 11] by simp
  qed
next
  case (6 p)
  then show ?case using derives_primary by blast
qed

text \<open>C21: the recursive-descent evaluator of \<^verbatim>\<open>#if\<close> conditions implements the grammar and precedence of C's conditional expressions: a token
  list makes the branch active exactly when it is the printing of a well-formed expression (operands bound by C's precedence,
  binary operators grouping to the left, \<^verbatim>\<open>?:\<close> to the right) whose value is not zero. Everything else (a missing operand, a stray
  token, an unclosed parenthesis, trailing tokens, a constant that is no integer) keeps the branch closed.
\<close>

theorem eval_pp_tokens_correct:
  "eval_pp_tokens toks \<longleftrightarrow> (\<exists>e. wf_expr e \<and> map tok_kind toks = print_expr e \<and> truthy (sem e))"
proof
  assume "eval_pp_tokens toks"
  then obtain v p where v: "ternary (at toks False) = (v, p)" "\<not> pe_err p" "pe_toks p = []" "truthy v"
    by (auto simp: eval_pp_tokens_def split: if_splits prod.splits)
  then have "derives 0 (at toks False) (v, p)" using parsed_printed(1) [of "at toks False"] by simp
  then show "\<exists>e. wf_expr e \<and> map tok_kind toks = print_expr e \<and> truthy (sem e)" using v by (auto simp: derives_def)
next
  assume "\<exists>e. wf_expr e \<and> map tok_kind toks = print_expr e \<and> truthy (sem e)"
  then show "eval_pp_tokens toks" using printed_expression_value by (auto simp: eval_pp_tokens_def)
qed

end
