(* ===== verification/Pp_Expr_Ints.thy ===== *)
theory Pp_Expr_Ints
  imports Pp_Expr_Props
begin

text \<open>
  The integers of the preprocessor. \<open>PpVal\<close> holds 64 bits and a signedness; here its operators are related to C's arithmetic on
  typed integers: the usual arithmetic conversions, results wrapped into the type of the operation, division that truncates.
\<close>

type_synonym cint = "bool \<times> int"

text \<open>A number brought into \<open>uintmax_t\<close> (\<open>True\<close>) or \<open>intmax_t\<close>.\<close>

definition in_type :: "bool \<Rightarrow> int \<Rightarrow> int" where
  "in_type u n = (if u then n mod 2 ^ 64 else (n + 2 ^ 63) mod 2 ^ 64 - 2 ^ 63)"

definition common :: "(int \<Rightarrow> int \<Rightarrow> int) \<Rightarrow> cint \<Rightarrow> cint \<Rightarrow> cint" where
  "common f a b = (let u = fst a \<or> fst b in (u, in_type u (f (in_type u (snd a)) (in_type u (snd b)))))"

definition compare_ints :: "(int \<Rightarrow> int \<Rightarrow> bool) \<Rightarrow> cint \<Rightarrow> cint \<Rightarrow> cint" where
  "compare_ints f a b = (let u = fst a \<or> fst b in (False, of_bool (f (in_type u (snd a)) (in_type u (snd b)))))"

definition shift_by :: "cint \<Rightarrow> nat" where
  "shift_by b = nat (snd b mod 64)"

definition int_operators :: "(ustring \<times> (cint \<Rightarrow> cint \<Rightarrow> cint)) list" where
  "int_operators =
     [(str ''||'', \<lambda>a b. (False, of_bool (snd a \<noteq> 0 \<or> snd b \<noteq> 0))), (str ''&&'', \<lambda>a b. (False, of_bool (snd a \<noteq> 0 \<and> snd b \<noteq> 0))),
      (str ''|'', common (OR)), (str ''^'', common (XOR)), (str ''&'', common (AND)),
      (str ''=='', compare_ints (=)), (str ''!='', compare_ints (\<noteq>)),
      (str ''<='', compare_ints (\<le>)), (str ''>='', compare_ints (\<ge>)), (str ''<'', compare_ints (<)), (str ''>'', compare_ints (>)),
      (str ''<<'', \<lambda>a b. (fst a, in_type (fst a) (snd a * 2 ^ shift_by b))), (str ''>>'', \<lambda>a b. (fst a, snd a div 2 ^ shift_by b)),
      (str ''+'', common (+)), (str ''-'', common (-)), (str ''*'', common (*)),
      (str ''/'', common (\<lambda>a b. if b = 0 then 0 else a sdiv b)), (str ''%'', common (\<lambda>a b. if b = 0 then 0 else a smod b))]"

definition int_prefixes :: "(ustring \<times> (cint \<Rightarrow> cint)) list" where
  "int_prefixes = [(str ''!'', \<lambda>a. (False, of_bool (snd a = 0))), (str ''~'', \<lambda>a. (fst a, in_type (fst a) (- snd a - 1))),
     (str ''-'', \<lambda>a. (fst a, in_type (fst a) (- snd a))), (str ''+'', \<lambda>a. a)]"

definition cint_of :: "PpVal \<Rightarrow> cint" where
  "cint_of v = (pv_unsigned v, if pv_unsigned v then uint (pv_bits v) else sint (pv_bits v))"

fun int_value :: "cexpr \<Rightarrow> cint" where
  "int_value (Lit k) = (case literal k of Some v \<Rightarrow> cint_of v | None \<Rightarrow> (False, 0))"
| "int_value (Call f args) = (False, 0)"
| "int_value (Paren e) = int_value e"
| "int_value (Unop op e) = (case map_of int_prefixes op of Some f \<Rightarrow> f (int_value e) | None \<Rightarrow> int_value e)"
| "int_value (Binop op a b) = (case map_of int_operators op of Some f \<Rightarrow> f (int_value a) (int_value b) | None \<Rightarrow> (False, 0))"
| "int_value (Tern c a b) =
     (let u = fst (int_value a) \<or> fst (int_value b) in (u, in_type u (snd (if snd (int_value c) \<noteq> 0 then int_value a else int_value b))))"

section \<open>Words and their two readings\<close>

lemma in_type_signed: "in_type False n = signed_take_bit 63 n"
  by (simp add: in_type_def signed_take_bit_eq_take_bit_shift take_bit_eq_mod)

lemma in_type_unsigned: "in_type True n = take_bit 64 n"
  by (simp add: in_type_def take_bit_eq_mod)

lemma sint_of_int64: "sint (word_of_int n :: 64 word) = in_type False n"
  by (simp add: in_type_signed signed_of_int)

lemma uint_of_int64: "uint (word_of_int n :: 64 word) = in_type True n"
  by (simp add: in_type_unsigned unsigned_of_int)

lemma in_type_word:
  fixes w :: "64 word"
  shows "in_type True (uint w) = uint w" "in_type True (sint w) = uint w" "in_type False (sint w) = sint w"
  using sint_of_int64 [of "sint w"] uint_of_int64 [of "uint w"] uint_of_int64 [of "sint w"] by simp_all

definition reading :: "bool \<Rightarrow> 64 word \<Rightarrow> int" where
  "reading u w = (if u then uint w else sint w)"

lemma cint_of_word: "cint_of \<lparr>pv_bits = w, pv_unsigned = u\<rparr> = (u, reading u w)"
  by (simp add: cint_of_def reading_def)

lemma reading_of_int: "reading u (word_of_int n) = in_type u n"
  by (simp add: reading_def sint_of_int64 uint_of_int64)

lemma word_of_reading [simp]: "word_of_int (reading u w) = w"
  by (simp add: reading_def)

lemma reading_inj: "reading u a = reading u b \<longleftrightarrow> a = b"
  by (metis word_of_reading)

lemma reading_zero [simp]: "reading u 0 = 0"
  by (simp add: reading_def)

lemma fst_cint_of [simp]: "fst (cint_of v) = pv_unsigned v"
  by (simp add: cint_of_def)

lemma snd_cint_of: "snd (cint_of v) = reading (pv_unsigned v) (pv_bits v)"
  by (simp add: cint_of_def reading_def)

lemma converted: "(pv_unsigned v \<Longrightarrow> u) \<Longrightarrow> in_type u (snd (cint_of v)) = reading u (pv_bits v)"
  by (auto simp: snd_cint_of reading_def in_type_word)

lemma truthy_int: "truthy v \<longleftrightarrow> snd (cint_of v) \<noteq> 0"
  using reading_inj [of _ "pv_bits v" 0] by (simp add: truthy_def snd_cint_of)

lemma from_bool_int: "cint_of (from_bool b) = (False, of_bool b)"
  by (simp add: from_bool_def PpVal_signed_def cint_of_def)

lemma common_cint:
  "common f (cint_of a) (cint_of b) =
     (either_unsigned a b, in_type (either_unsigned a b) (f (reading (either_unsigned a b) (pv_bits a)) (reading (either_unsigned a b) (pv_bits b))))"
  by (simp add: common_def Let_def either_unsigned_def converted)

lemma compare_cint:
  "compare_ints f (cint_of a) (cint_of b) =
     (False, of_bool (f (reading (either_unsigned a b) (pv_bits a)) (reading (either_unsigned a b) (pv_bits b))))"
  by (simp add: compare_ints_def Let_def either_unsigned_def converted)

text \<open>An operation on the common type is the integer one when the word operation agrees with it on every number.\<close>

lemma common_int:
  assumes "\<And>x y. w (word_of_int x) (word_of_int y) = (word_of_int (f x y) :: 64 word)"
  shows "cint_of \<lparr>pv_bits = w (pv_bits a) (pv_bits b), pv_unsigned = either_unsigned a b\<rparr> = common f (cint_of a) (cint_of b)"
  using assms [of "reading (either_unsigned a b) (pv_bits a)" "reading (either_unsigned a b) (pv_bits b)"]
  by (simp add: common_cint cint_of_word reading_of_int)

lemmas value_defs = pp_bit_or_def pp_bit_xor_def pp_bit_and_def pp_add_def pp_sub_def pp_mul_def

lemma bitwise_of_int:
  "(word_of_int x OR word_of_int y :: 64 word) = word_of_int (x OR y)" "(word_of_int x XOR word_of_int y :: 64 word) = word_of_int (x XOR y)"
  "(word_of_int x AND word_of_int y :: 64 word) = word_of_int (x AND y)"
  by (rule bit_word_eqI; simp add: bit_simps)+

lemma arith_int:
  "cint_of (pp_bit_or a b) = common (OR) (cint_of a) (cint_of b)" "cint_of (pp_bit_xor a b) = common (XOR) (cint_of a) (cint_of b)"
  "cint_of (pp_bit_and a b) = common (AND) (cint_of a) (cint_of b)" "cint_of (pp_add a b) = common (+) (cint_of a) (cint_of b)"
  "cint_of (pp_sub a b) = common (-) (cint_of a) (cint_of b)" "cint_of (pp_mul a b) = common (*) (cint_of a) (cint_of b)"
  unfolding value_defs by (rule common_int; simp add: bitwise_of_int)+

lemma pp_lt_int: "pp_lt a b \<longleftrightarrow> reading (either_unsigned a b) (pv_bits a) < reading (either_unsigned a b) (pv_bits b)"
  by (simp add: pp_lt_def reading_def as_i64_def word_less_def)

lemma logical_int:
  "cint_of (pp_or a b) = (False, of_bool (snd (cint_of a) \<noteq> 0 \<or> snd (cint_of b) \<noteq> 0))"
  "cint_of (pp_and a b) = (False, of_bool (snd (cint_of a) \<noteq> 0 \<and> snd (cint_of b) \<noteq> 0))"
  by (simp_all add: pp_or_def pp_and_def from_bool_int truthy_int)

lemma compare_flip: "compare_ints (\<lambda>x y. f y x) a b = compare_ints f b a"
  by (simp add: compare_ints_def Let_def disj_commute)

lemma compare_int:
  "cint_of (pp_eq a b) = compare_ints (=) (cint_of a) (cint_of b)" "cint_of (pp_ne a b) = compare_ints (\<noteq>) (cint_of a) (cint_of b)"
  "cint_of (from_bool (pp_lt a b)) = compare_ints (<) (cint_of a) (cint_of b)"
  "cint_of (from_bool (pp_lt b a)) = compare_ints (>) (cint_of a) (cint_of b)"
  "cint_of (from_bool (\<not> pp_lt b a)) = compare_ints (\<le>) (cint_of a) (cint_of b)"
  "cint_of (from_bool (\<not> pp_lt a b)) = compare_ints (\<ge>) (cint_of a) (cint_of b)"
  by (simp_all add: pp_eq_def pp_ne_def from_bool_int compare_cint reading_inj pp_lt_int not_less)
    (simp_all add: either_unsigned_def disj_commute)

lemma sdiv_nonneg: "0 \<le> x \<Longrightarrow> 0 \<le> y \<Longrightarrow> x sdiv y = x div y" "0 \<le> x \<Longrightarrow> 0 \<le> y \<Longrightarrow> x smod y = x mod y" for x y :: int
  by (auto simp: signed_divide_int_def signed_modulo_int_def sgn_if)

lemma divide_int:
  "cint_of (divide a b False) = common (\<lambda>x y. if y = 0 then 0 else x sdiv y) (cint_of a) (cint_of b)"
  "cint_of (divide a b True) = common (\<lambda>x y. if y = 0 then 0 else x smod y) (cint_of a) (cint_of b)"
proof -
  have z: "pv_bits b = 0 \<longleftrightarrow> reading u (pv_bits b) = 0" for u using reading_inj [of u "pv_bits b" 0] by simp
  have d: "uint (x div y) = in_type True (uint x sdiv uint y)" and m: "uint (x mod y) = in_type True (uint x smod uint y)" for x y :: "64 word"
  proof -
    have "uint x sdiv uint y = uint (x div y)" "uint x smod uint y = uint (x mod y)"
      by (simp_all add: sdiv_nonneg uint_div uint_mod)
    then show "uint (x div y) = in_type True (uint x sdiv uint y)" "uint (x mod y) = in_type True (uint x smod uint y)"
      by (simp_all add: in_type_word)
  qed
  show "cint_of (divide a b False) = common (\<lambda>x y. if y = 0 then 0 else x sdiv y) (cint_of a) (cint_of b)"
    using z d by (auto simp: divide_def Let_def common_cint cint_of_word reading_def as_i64_def sint_of_int64 in_type_def)
  show "cint_of (divide a b True) = common (\<lambda>x y. if y = 0 then 0 else x smod y) (cint_of a) (cint_of b)"
    using z m by (auto simp: divide_def Let_def common_cint cint_of_word reading_def as_i64_def sint_of_int64 in_type_def)
qed

lemma shift_amount_int: "shift_amount b = shift_by (cint_of b)"
proof -
  have "pv_bits b AND 63 = take_bit 6 (pv_bits b)" by (simp add: take_bit_eq_mask mask_eq_exp_minus_1)
  then have "uint (pv_bits b AND 63) = uint (pv_bits b) mod 64"
    using unsigned_take_bit_eq [where 'a = int, of 6 "pv_bits b"] by (simp add: take_bit_eq_mod [where 'a = int])
  moreover have "sint (pv_bits b) mod 64 = uint (pv_bits b) mod 64"
    using in_type_word(2) [of "pv_bits b"] mod_mod_cancel [of 64 "2 ^ 64" "sint (pv_bits b)"] by (simp add: in_type_def)
  ultimately show ?thesis by (simp add: shift_amount_def shift_by_def cint_of_def flip: nat_uint_eq)
qed

lemma shift_int:
  "cint_of (pp_shl a b) = (fst (cint_of a), in_type (fst (cint_of a)) (snd (cint_of a) * 2 ^ shift_by (cint_of b)))"
  "cint_of (pp_shr a b) = (fst (cint_of a), snd (cint_of a) div 2 ^ shift_by (cint_of b))"
proof -
  have "word_of_int (reading u w * 2 ^ n) = push_bit n w" for u w n
    by (simp add: push_bit_eq_mult)
  then show "cint_of (pp_shl a b) = (fst (cint_of a), in_type (fst (cint_of a)) (snd (cint_of a) * 2 ^ shift_by (cint_of b)))"
    by (simp add: pp_shl_def cint_of_word snd_cint_of shift_amount_int reading_of_int [symmetric])
  show "cint_of (pp_shr a b) = (fst (cint_of a), snd (cint_of a) div 2 ^ shift_by (cint_of b))"
    using unsigned_drop_bit_eq [where 'a = int, of "shift_by (cint_of b)" "pv_bits a"] in_type_word(1) [of "pv_bits a"]
    by (simp add: pp_shr_def cint_of_word snd_cint_of reading_def shift_amount_int sint_signed_drop_bit_eq drop_bit_eq_div [where 'a = int]
      in_type_unsigned)
qed

lemma prefix_int:
  "cint_of (pp_not v) = (False, of_bool (snd (cint_of v) = 0))"
  "cint_of (pp_compl v) = (fst (cint_of v), in_type (fst (cint_of v)) (- snd (cint_of v) - 1))"
  "cint_of (pp_neg v) = (fst (cint_of v), in_type (fst (cint_of v)) (- snd (cint_of v)))"
  by (simp_all add: pp_not_def from_bool_int truthy_int)
    (simp_all add: pp_compl_def pp_neg_def cint_of_word snd_cint_of reading_of_int [symmetric] not_eq_complement)

lemma choose_int:
  "cint_of (pp_choose c a b) =
     (let u = fst (cint_of a) \<or> fst (cint_of b) in (u, in_type u (snd (if snd (cint_of c) \<noteq> 0 then cint_of a else cint_of b))))"
  by (simp add: pp_choose_def cint_of_word truthy_int Let_def either_unsigned_def converted)

section \<open>The value of an expression\<close>

lemma operators_int:
  assumes "prec op = Some l"
  shows "\<exists>f. map_of int_operators op = Some f \<and> (\<forall>a b. cint_of (meaning op a b) = f (cint_of a) (cint_of b))"
proof -
  have "op \<in> set (map fst c_operators)" using assms by (auto simp: prec_def map_of_eq_None_iff dest: map_of_SomeD intro: rev_image_eqI)
  then show ?thesis unfolding c_operators_def
    by (auto simp: meaning_def c_operators_def int_operators_def arith_int compare_int divide_int shift_int logical_int
      compare_flip [of "(<)"] compare_flip [of "(\<le>)"])
qed

lemma sem_int: "wf_expr e \<Longrightarrow> cint_of (sem e) = int_value e"
proof (induction e)
  case (Lit k)
  then show ?case by auto
next
  case (Call f args)
  then show ?case by (simp add: PpVal_signed_def cint_of_def)
next
  case (Unop op e)
  then show ?case by (auto simp: c_prefixes_def int_prefixes_def prefix_int)
next
  case (Binop op a b)
  then obtain l where l: "prec op = Some l" by (cases "prec op") auto
  then show ?case using Binop operators_int [OF l] by auto
next
  case (Tern c a b)
  then show ?case by (simp add: choose_int)
qed simp

text \<open>C22: the 64-bit words with a signedness flag implement C's typed integers: a condition that is the printing of a well-formed
  expression opens its branch exactly when the expression's value over the integers is not zero, where each operator converts its
  operands to the common type (unsigned when one operand is), wraps its result into that type, divides towards zero with 0 for a
  zero divisor, and shifts by the amount modulo 64 in the type of the left operand.
\<close>

theorem condition_integer_value:
  assumes "wf_expr e" "map tok_kind toks = print_expr e"
  shows "eval_pp_tokens toks \<longleftrightarrow> snd (int_value e) \<noteq> 0"
  using printed_expression_value [OF assms, of False] sem_int [OF assms(1)] by (simp add: eval_pp_tokens_def truthy_int)

text \<open>\<^verbatim>\<open>-1 < 1U\<close> compares as unsigned and closes the branch.\<close>

theorem condition_integer_value_witness:
  "let e = Binop (str ''<'') (Unop (str ''-'') (Lit (Number (str ''1'')))) (Lit (Number (str ''1U'')))
   in wf_expr e \<and> (eval_pp_tokens (map (\<lambda>k. Token_new k 1 1) (print_expr e)) \<longleftrightarrow> snd (int_value e) \<noteq> 0) \<and> snd (int_value e) = 0"
proof -
  let ?e = "Binop (str ''<'') (Unop (str ''-'') (Lit (Number (str ''1'')))) (Lit (Number (str ''1U'')))"
  have w: "wf_expr ?e" by code_simp
  have m: "map tok_kind (map (\<lambda>k. Token_new k 1 1) (print_expr ?e)) = print_expr ?e" by code_simp
  have "snd (int_value ?e) = 0" by code_simp
  then show ?thesis using condition_integer_value [OF w m] w by simp
qed

end
