(* ===== verification/Pp_Macro_Props.thy ===== *)
theory Pp_Macro_Props
  imports Pp_Macro
begin

text \<open>
  Properties of macro substitution: it never panics and never makes more tokens than the budget was charged, \<^verbatim>\<open>##\<close> needs one pass and
  leaves no operator, and the arguments of an invocation re-spell its source.
\<close>

declare str_eq [simp]

section \<open>How much a substitution makes\<close>

definition separators_fit :: "MacroArgs \<Rightarrow> bool" where
  "separators_fit a \<longleftrightarrow> length (ma_args a) \<le> length (ma_separators a) + 1"

lemma variadic_push_simps:
  "variadic_push a idx out idx = Some (out @ ma_args a ! idx)"
  "idx < ai \<Longrightarrow> ai - 1 < length (ma_separators a) \<Longrightarrow> variadic_push a idx out ai = Some (out @ ma_separators a ! (ai - 1) # ma_args a ! ai)"
  by (simp_all add: variadic_push_def vget_def)

lemma variadic_tokens_upto:
  assumes "separators_fit a" "idx \<le> n" "n \<le> length (ma_args a)"
  shows "\<exists>ts. foldM (variadic_push a idx) [] [idx..<n] = Some ts
     \<and> length ts = fold (\<lambda>ai n. (if idx < ai then n + 1 else n) + length (ma_args a ! ai)) [idx..<n] 0"
  using assms(2,3)
proof (induction n rule: dec_induct)
  case (step m)
  then obtain ts where ts: "foldM (variadic_push a idx) [] [idx..<m] = Some ts"
    "length ts = fold (\<lambda>ai n. (if idx < ai then n + 1 else n) + length (ma_args a ! ai)) [idx..<m] 0" by auto
  have "m - 1 < length (ma_separators a)" if "idx < m" using that step.prems assms(1) by (simp add: separators_fit_def)
  then show ?case using ts step.hyps by (cases "idx = m") (auto simp: foldM_append variadic_push_simps)
qed simp

lemma variadic_tokens_length:
  assumes "separators_fit a"
  shows "\<exists>ts. variadic_tokens a idx = Some ts \<and> length ts = variadic_len a idx"
proof (cases "idx \<le> length (ma_args a)")
  case True
  then show ?thesis unfolding variadic_tokens_def variadic_len_def using variadic_tokens_upto [OF assms True] by blast
next
  case False
  then show ?thesis by (simp add: variadic_tokens_def variadic_len_def)
qed

lemma collected_length:
  assumes "separators_fit a" "param_of (su_params c) t = Some idx"
  shows "\<exists>ts. collected c a idx = Some ts \<and> length ts = projected_width (su_params c) a (su_variadic c) t"
  using variadic_tokens_length [OF assms(1), of idx] assms(2) by (auto simp: collected_def projected_width_def)

text \<open>The width charged to the token at a position, and to a stretch of the replacement list.\<close>

definition charged :: "Substitution \<Rightarrow> nat \<Rightarrow> nat" where
  "charged c i =
     projected_width (su_params c) (if parameter_is_pasted_or_stringized (su_body c) i then su_args c else su_expanded c) (su_variadic c)
       (su_body c ! i)"

definition charge :: "Substitution \<Rightarrow> nat \<Rightarrow> nat \<Rightarrow> nat" where
  "charge c i j = sum (charged c) {i..<j}"

lemma charge_split: "i \<le> j \<Longrightarrow> j \<le> k \<Longrightarrow> charge c i k = charge c i j + charge c j k"
  by (simp add: charge_def sum.atLeastLessThan_concat)

lemma charge_first: "i < j \<Longrightarrow> charge c i j = charged c i + charge c (i + 1) j"
  by (simp add: charge_def sum.atLeast_Suc_lessThan)

lemma charged_other: "param_of (su_params c) (su_body c ! i) = None \<Longrightarrow> charged c i = 1"
  by (simp add: charged_def projected_width_def)

lemma length_set_first_real [simp]: "length (set_first_real adj ts) = length ts"
  by (induction ts) auto

lemma length_push [simp]: "length (ss_out (push_substituted t st)) = length (ss_out st) + 1"
  by (simp add: push_substituted_def)

lemma concat_width_bound: "i < length ts \<Longrightarrow> i + concat_width_at ts i \<le> length ts"
  by (simp add: concat_width_at_def)

lemma concat_width_after_bound: "0 < concat_width_after ts i \<Longrightarrow> i + 1 + concat_width_after ts i \<le> length ts"
  using concat_width_bound [of "i + 1" ts] by (simp add: concat_width_after_def split: if_splits)

lemma param_at_Some: "param_at c i = Some idx \<Longrightarrow> i < length (su_body c) \<and> param_of (su_params c) (su_body c ! i) = Some idx"
  by (simp add: param_at_def split: if_splits)

definition fits :: "Substitution \<Rightarrow> bool" where
  "fits c \<longleftrightarrow> separators_fit (su_args c) \<and> separators_fit (su_expanded c)"

definition bounded_step :: "Substitution \<Rightarrow> nat \<Rightarrow> SubState \<Rightarrow> (nat \<times> SubState) option \<Rightarrow> bool" where
  "bounded_step c i st r \<longleftrightarrow>
     (case r of None \<Rightarrow> False
      | Some (j, st') \<Rightarrow> i < j \<and> j \<le> length (su_body c) \<and> length (ss_out st') \<le> length (ss_out st) + charge c i j)"

lemma sub_stringize_bound:
  assumes "fits c" "param_at c (i + 1) = Some idx" "tok_kind (su_body c ! i) = Hash"
  shows "bounded_step c i st (sub_stringize c i adj idx st)"
proof -
  note p = param_at_Some [OF assms(2)]
  obtain ts where "collected c (su_args c) idx = Some ts" using collected_length p assms(1) by (fastforce simp: fits_def)
  moreover have "1 \<le> charge c i (i + 2)"
    using charge_first [of i "i + 2" c] charged_other [of c i] assms(3) by (simp add: param_of_def)
  ultimately show ?thesis using p by (simp add: bounded_step_def sub_stringize_def Let_def)
qed

lemma sub_parameter_bound:
  assumes "fits c" "param_at c i = Some idx"
  shows "bounded_step c i st (sub_parameter c i adj idx st)"
proof -
  note p = param_at_Some [OF assms(2)]
  let ?a = "if parameter_is_pasted_or_stringized (su_body c) i then su_args c else su_expanded c"
  have "separators_fit ?a" using assms(1) by (simp add: fits_def)
  then obtain ts where ts: "collected c ?a idx = Some ts" "length ts = charged c i"
    using collected_length p by (fastforce simp: charged_def)
  moreover have "charge c i (i + 1) = charged c i" by (simp add: charge_def)
  moreover have "i + 1 + concat_width_after (su_body c) i \<le> length (su_body c)" using concat_width_after_bound [of "su_body c" i] p
    by (cases "concat_width_after (su_body c) i") auto
  ultimately show ?thesis using p by (auto simp: bounded_step_def sub_parameter_def Let_def)
qed

lemma sub_plain_bound: "i < length (su_body c) \<Longrightarrow> param_at c i = None \<Longrightarrow> bounded_step c i st (sub_plain c i adj st)"
  using charged_other [of c i] by (simp add: bounded_step_def sub_plain_def param_at_def charge_def)

lemma sub_rest_bound:
  assumes "fits c" "i < length (su_body c)"
  shows "bounded_step c i st (sub_rest c i adj st)"
  using assms sub_stringize_bound sub_parameter_bound sub_plain_bound
  by (auto simp: sub_rest_def split: option.split)

lemma sub_step_bound:
  assumes "fits c" "i < length (su_body c)"
  shows "bounded_step c i st (sub_step c i st)"
proof -
  have rest: "bounded_step c i st (sub_rest c i adj (st\<lparr>ss_paste_adjacency := None\<rparr>))" for adj
    using sub_rest_bound [OF assms, of "st\<lparr>ss_paste_adjacency := None\<rparr>" adj] by (auto simp: bounded_step_def split: option.splits)
  have skip: "bounded_step c i st (Some (j, st'))" if "i < j" "j \<le> length (su_body c)" "length (ss_out st') \<le> length (ss_out st)" for j st'
    using that by (simp add: bounded_step_def)
  show ?thesis
  proof (cases "if 0 < concat_width_at (su_body c) i then param_at c (i + concat_width_at (su_body c) i) else None")
    case None
    then show ?thesis using rest by (simp add: sub_step_def Let_def)
  next
    case (Some idx)
    then have "0 < concat_width_at (su_body c) i" "i + concat_width_at (su_body c) i < length (su_body c)"
      using param_at_Some by (auto split: if_splits)
    then show ?thesis using rest skip Some by (simp add: sub_step_def Let_def)
  qed
qed

lemma sub_loop_bound:
  assumes "fits c" "i \<le> length (su_body c)"
  shows "\<exists>out. sub_loop c i st = Some out \<and> length out \<le> length (ss_out st) + charge c i (length (su_body c))"
  using assms
proof (induction c i st rule: sub_loop.induct)
  case (1 c i st)
  show ?case
  proof (cases "i < length (su_body c)")
    case True
    then have "bounded_step c i st (sub_step c i st)" using sub_step_bound 1(2) by blast
    then obtain j st' where s: "sub_step c i st = Some (j, st')" "i < j" "j \<le> length (su_body c)"
      "length (ss_out st') \<le> length (ss_out st) + charge c i j" by (auto simp: bounded_step_def split: option.splits)
    then obtain out where "sub_loop c j st' = Some out" "length out \<le> length (ss_out st') + charge c j (length (su_body c))"
      using 1(1) [OF True s(1) refl] 1(2) by auto
    then show ?thesis using s True charge_split [of i j "length (su_body c)" c] by (subst sub_loop.simps) auto
  next
    case False
    then show ?thesis by (subst sub_loop.simps) simp
  qed
qed

lemma saturating_sum: "n \<le> 2 ^ 64 - 1 \<Longrightarrow> foldl (\<lambda>n x. saturating_add n (f x)) n xs = min (n + sum_list (map f xs)) (2 ^ 64 - 1)"
proof (induction xs arbitrary: n)
  case (Cons x xs)
  have "saturating_add n (f x) \<le> 2 ^ 64 - 1" by (simp add: saturating_add_def)
  then show ?case using Cons.IH [of "saturating_add n (f x)"] by (simp add: saturating_add_def min_def split: if_splits)
qed simp

lemma prescan_charge:
  "projected_substitution_len_with_prescan (su_body c) (su_params c) (su_args c) (su_expanded c) (su_variadic c)
    = min (charge c 0 (length (su_body c))) (2 ^ 64 - 1)"
proof -
  let ?w = "\<lambda>(i, tok). projected_width (su_params c) (if parameter_is_pasted_or_stringized (su_body c) i then su_args c else su_expanded c)
    (su_variadic c) tok"
  have "foldl (\<lambda>n x. saturating_add n (?w x)) 0 (enumerate 0 (su_body c)) = min (sum_list (map ?w (enumerate 0 (su_body c)))) (2 ^ 64 - 1)"
    using saturating_sum [of 0 ?w] by simp
  moreover have "map ?w (enumerate 0 (su_body c)) = map (charged c) [0..<length (su_body c)]"
    by (rule nth_equalityI) (simp_all add: nth_enumerate_eq charged_def)
  ultimately show ?thesis
    by (simp add: projected_substitution_len_with_prescan_def charge_def case_prod_beta' interv_sum_list_conv_sum_set_nat)
qed

lemma projected_same: "projected_substitution_len body params args variadic = projected_substitution_len_with_prescan body params args args variadic"
proof -
  have "foldl (\<lambda>n (i, tok). saturating_add n (projected_width params args variadic tok)) a (enumerate k body)
      = foldl (\<lambda>n tok. saturating_add n (projected_width params args variadic tok)) a body" for a k
    by (induction body arbitrary: a k) auto
  then show ?thesis by (simp add: projected_substitution_len_def projected_substitution_len_with_prescan_def)
qed

lemma concatenation_length: "length (apply_concatenation ts) \<le> length ts"
proof (induction ts rule: apply_concatenation.induct)
  case (1 ts)
  obtain out pasted where p: "concat_pass [] False ts = (out, pasted)" by fastforce
  then show ?case using 1 [OF refl p [symmetric]] concat_pass_length [of "[]" False ts] by (subst apply_concatenation.simps) auto
qed

lemma substitution_bound:
  assumes "separators_fit args" "case expanded of None \<Rightarrow> True | Some e \<Rightarrow> separators_fit e"
  shows "\<exists>out. substitute_macro name origin body params args expanded variadic = Some out \<and> length (apply_concatenation out) \<le> length out \<and>
      min (length out) (2 ^ 64 - 1)
        \<le> projected_substitution_len_with_prescan body params args (case expanded of Some e \<Rightarrow> e | None \<Rightarrow> args) variadic"
proof -
  define c where "c = \<lparr>su_macro_name = name, su_origin = origin, su_body = body, su_params = params, su_args = args,
        su_expanded = (case expanded of Some e \<Rightarrow> e | None \<Rightarrow> args),
        su_hidden = (case expanded of Some _ \<Rightarrow> Some (insert name (case tok_hidden origin of Some h \<Rightarrow> h | None \<Rightarrow> {})) | None \<Rightarrow> None),
        su_variadic = variadic\<rparr>"
  have "fits c" using assms by (auto simp: c_def fits_def split: option.splits)
  then obtain out where out: "sub_loop c 0 \<lparr>ss_out = [], ss_gap = False, ss_paste_adjacency = None\<rparr> = Some out"
    "length out \<le> charge c 0 (length (su_body c))" using sub_loop_bound [of c 0] by fastforce
  then have "min (length out) (2 ^ 64 - 1) \<le> min (charge c 0 (length (su_body c))) (2 ^ 64 - 1)" by simp
  then show ?thesis using out(1) concatenation_length [of out] unfolding prescan_charge [of c, symmetric] by (simp add: c_def substitute_macro_def)
qed

text \<open>C26: the expansion budget is charged before anything is built, and the charge is an upper bound: with the argument list of any
  invocation (a separator between each two arguments) and a macro that names its variadic tail, the substitution of a replacement list
  returns (it never indexes past the separators, and its debug assertion holds), what it builds is at most the projected number of
  tokens, and \<^verbatim>\<open>##\<close> pasting only shortens it, for raw arguments as conditions use them and for prescanned ones. The projection is a
  saturating 64-bit sum.
\<close>

theorem substitution_within_projection:
  assumes "separators_fit args" "separators_fit expanded" "names_tail variadic params"
  shows "(\<exists>out. substitute_macro name origin body params args (Some expanded) variadic = Some out \<and>
      length (apply_concatenation out) \<le> length out \<and>
      min (length out) (2 ^ 64 - 1) \<le> projected_substitution_len_with_prescan body params args expanded variadic) \<and>
    (\<exists>out. substitute_macro name origin body params args None variadic = Some out \<and>
      length (apply_concatenation out) \<le> length out \<and>
      min (length out) (2 ^ 64 - 1) \<le> projected_substitution_len body params args variadic)"
  using substitution_bound [of args "Some expanded"] substitution_bound [of args None] assms by (simp add: projected_same)

theorem substitution_within_projection_witness:
  "let x = Token_new (Identifier (str ''x'')) 1 1; one = Token_new (Number (str ''1'')) 1 5;
       args = \<lparr>ma_args = [[one, one]], ma_separators = []\<rparr>
   in separators_fit args \<and> (\<exists>out. substitute_macro (str ''F'') x [x, x] [str ''x''] args None False = Some out \<and>
        length (apply_concatenation out) \<le> length out \<and> min (length out) (2 ^ 64 - 1) \<le> projected_substitution_len [x, x] [str ''x''] args False)"
  using substitution_within_projection [of "\<lparr>ma_args = [[Token_new (Number (str ''1'')) 1 5, Token_new (Number (str ''1'')) 1 5]], ma_separators = []\<rparr>"
      "\<lparr>ma_args = [], ma_separators = []\<rparr>" False "[str ''x'']" "str ''F''" "Token_new (Identifier (str ''x'')) 1 1"
      "[Token_new (Identifier (str ''x'')) 1 1, Token_new (Identifier (str ''x'')) 1 1]"]
  by (simp add: separators_fit_def names_tail_def Let_def)

section \<open>What pasting leaves\<close>

text \<open>A chain is an operand and the operators and operands pasted onto it; an operator is \<^verbatim>\<open>##\<close> or two \<^verbatim>\<open>#\<close>.\<close>

type_synonym paste_chain = "Token \<times> (Token list \<times> Token) list"

definition is_operand :: "Token \<Rightarrow> bool" where
  "is_operand t \<longleftrightarrow> tok_kind t \<noteq> Hash \<and> tok_kind t \<noteq> Punct (str ''##'')"

definition is_paste_op :: "Token list \<Rightarrow> bool" where
  "is_paste_op ts \<longleftrightarrow> (\<exists>t. ts = [t] \<and> tok_kind t = Punct (str ''##'')) \<or> (\<exists>t u. ts = [t, u] \<and> tok_kind t = Hash \<and> tok_kind u = Hash)"

definition wf_chain :: "paste_chain \<Rightarrow> bool" where
  "wf_chain c \<longleftrightarrow> is_operand (fst c) \<and> (\<forall>(op, t) \<in> set (snd c). is_paste_op op \<and> is_operand t)"

definition links :: "(Token list \<times> Token) list \<Rightarrow> Token list" where
  "links rs = concat (map (\<lambda>(op, t). op @ [t]) rs)"

definition spell_chain :: "paste_chain \<Rightarrow> Token list" where
  "spell_chain c = fst c # links (snd c)"

definition pasted_chain :: "paste_chain \<Rightarrow> Token" where
  "pasted_chain c = foldl paste_two_tokens (fst c) (map snd (snd c))"

lemma operand_width: "is_operand t \<Longrightarrow> concat_width_at (t # ts) 0 = 0"
  by (simp add: is_operand_def concat_width_at_def is_punct_def)

lemma paste_is_operand: "is_operand (paste_two_tokens a b)"
  by (simp add: is_operand_def paste_two_tokens_def Let_def split: prod.split)

lemma links_pass:
  assumes "\<forall>(op, t) \<in> set rs. is_paste_op op \<and> is_operand t"
  shows "concat_pass (out @ [x]) p (links rs @ rest) = concat_pass (out @ [foldl paste_two_tokens x (map snd rs)]) (p \<or> rs \<noteq> []) rest"
  using assms
proof (induction rs arbitrary: x p)
  case (Cons r rs)
  obtain op t where r: "r = (op, t)" by fastforce
  have op: "is_paste_op op" using Cons.prems r by simp
  have "concat_pass (out @ [x]) p (op @ t # links rs @ rest) = concat_pass (out @ [paste_two_tokens x t]) True (links rs @ rest)"
    using op by (auto simp: is_paste_op_def concat_width_at_def is_punct_def)
  then show ?case using Cons.IH [of "paste_two_tokens x t" True] Cons.prems r by (simp add: links_def)
qed (simp add: links_def)

lemma chains_pass:
  "list_all wf_chain cs \<Longrightarrow>
     concat_pass out p (concat (map spell_chain cs)) = (out @ map pasted_chain cs, p \<or> (\<exists>c \<in> set cs. snd c \<noteq> []))"
proof (induction cs arbitrary: out p)
  case (Cons c cs)
  have c: "is_operand (fst c)" "\<forall>(op, t) \<in> set (snd c). is_paste_op op \<and> is_operand t" using Cons.prems by (auto simp: wf_chain_def)
  have "concat_pass out p (spell_chain c @ concat (map spell_chain cs)) = concat_pass (out @ [fst c]) p (links (snd c) @ concat (map spell_chain cs))"
    using operand_width [OF c(1)] by (simp add: spell_chain_def)
  then show ?case using links_pass [OF c(2)] Cons by (simp add: pasted_chain_def)
qed simp

lemma operands_pass: "list_all is_operand ts \<Longrightarrow> concat_pass out p ts = (out @ ts, p)"
  using chains_pass [of "map (\<lambda>t. (t, [])) ts" out p]
  by (simp add: list_all_iff wf_chain_def spell_chain_def links_def pasted_chain_def comp_def)

lemma pasted_chain_operand: "wf_chain c \<Longrightarrow> is_operand (pasted_chain c)"
  by (cases "snd c" rule: rev_cases) (auto simp: wf_chain_def pasted_chain_def paste_is_operand)

lemma apply_concatenation_operands: "list_all is_operand ts \<Longrightarrow> apply_concatenation ts = ts"
  by (subst apply_concatenation.simps) (simp add: operands_pass)

text \<open>C27: \<^verbatim>\<open>##\<close> pasting replaces each maximal chain \<^verbatim>\<open>a ## b ## c\<close> of the substituted tokens, whichever way its operators are spelled, by
  the tokens pasted from left to right, and touches nothing else; the repeated passes stop with no operator left.
\<close>

theorem concatenation_pastes_chains:
  assumes "list_all wf_chain cs"
  shows "apply_concatenation (concat (map spell_chain cs)) = map pasted_chain cs \<and> list_all is_operand (map pasted_chain cs)"
proof -
  have ops: "list_all is_operand (map pasted_chain cs)" using assms pasted_chain_operand by (simp add: list_all_iff)
  then show ?thesis using chains_pass [OF assms, of "[]" False] apply_concatenation_operands [OF ops]
    by (subst apply_concatenation.simps) auto
qed

theorem concatenation_pastes_chains_witness:
  "let a = Token_new (Identifier (str ''a'')) 1 1; op = Token_new (Punct (str ''##'')) 1 3; h = Token_new Hash 1 3; b = Token_new (Number (str ''1'')) 1 6;
       cs = [(a, [([op], b), ([h, h], a)]), (b, [])]
   in list_all wf_chain cs \<and> apply_concatenation [a, op, b, h, h, a, b] = map pasted_chain cs \<and>
      map tok_kind (map pasted_chain cs) = [Identifier (str ''a1a''), Number (str ''1'')]"
proof -
  define a op h b where d: "a = Token_new (Identifier (str ''a'')) 1 1" "op = Token_new (Punct (str ''##'')) 1 3" "h = Token_new Hash 1 3"
    "b = Token_new (Number (str ''1'')) 1 6"
  let ?cs = "[(a, [([op], b), ([h, h], a)]), (b, [])]"
  have w: "list_all wf_chain ?cs" by (simp add: d wf_chain_def is_operand_def is_paste_op_def Token_new_def str_def)
  have "map tok_kind (map pasted_chain ?cs) = [Identifier (str ''a1a''), Number (str ''1'')]" unfolding d by code_simp
  then show ?thesis using concatenation_pastes_chains [OF w] w unfolding d [symmetric] by (simp add: spell_chain_def links_def Let_def)
qed

section \<open>Painting\<close>

lemma hidden_adjacent [simp]: "is_hidden n (t\<lparr>tok_adjacent_before := b\<rparr>) = is_hidden n t"
  by (simp add: is_hidden_def tok_hidden_def)

lemma hidden_first_real: "\<forall>t \<in> set ts. is_hidden n t \<Longrightarrow> \<forall>t \<in> set (set_first_real b ts). is_hidden n t"
  by (induction ts) auto

lemma hidden_macro: "is_hidden name (with_macro_hide t origin name)"
  by (simp add: is_hidden_def tok_hidden_def with_macro_hide_def Let_def)

lemma hidden_argument: "name \<in> active \<Longrightarrow> is_hidden name (with_substitution_provenance t origin m p (Some active))"
  by (auto simp: is_hidden_def tok_hidden_def with_substitution_provenance_def macro_prov_mut_def Let_def split: option.splits)

lemma hidden_paste: "is_hidden n l \<Longrightarrow> is_hidden n (paste_two_tokens l r)"
  by (auto simp: paste_two_tokens_def Let_def is_hidden_def tok_hidden_def union_hidden_def split: option.splits)

definition painted :: "Substitution \<Rightarrow> Token list \<Rightarrow> bool" where
  "painted c ts \<longleftrightarrow> (\<forall>t \<in> set ts. is_hidden (su_macro_name c) t)"

lemma painted_push: "painted c (ss_out st) \<Longrightarrow> is_hidden (su_macro_name c) t \<Longrightarrow> painted c (ss_out (push_substituted t st))"
  by (auto simp: painted_def push_substituted_def)

lemma sub_parameter_out:
  assumes "sub_parameter c i adj idx st = Some (j, st')"
  shows "\<exists>toks. let ps = map (\<lambda>t. with_substitution_provenance t (su_origin c) (su_macro_name c) (su_body c ! i) (su_hidden c)) toks
     in ss_out st' = ss_out st \<or> ss_out st' = ss_out st @ ps \<or> ss_out st' = ss_out st @ set_first_real (adj \<and> \<not> ss_gap st) ps"
proof -
  define a where "a = (if parameter_is_pasted_or_stringized (su_body c) i then su_args c else su_expanded c)"
  obtain toks where toks: "collected c a idx = Some toks" using assms by (auto simp: sub_parameter_def a_def split: bind_splits)
  show ?thesis using assms unfolding sub_parameter_def a_def [symmetric] by (intro exI [of _ toks]) (auto simp: toks Let_def split: if_splits)
qed

lemma sub_stringize_out:
  assumes "sub_stringize c i adj idx st = Some (j, st')"
  shows "\<exists>t. is_hidden (su_macro_name c) t \<and> st' = push_substituted t st"
proof -
  obtain toks where "collected c (su_args c) idx = Some toks" using assms by (auto simp: sub_stringize_def split: bind_splits)
  then have "st' = push_substituted ((with_macro_hide (Token_new (String (34 # stringize_spelling toks @ [34])) (tok_line (su_body c ! i)) (tok_col (su_body c ! i)))
      (su_origin c) (su_macro_name c))\<lparr>tok_adjacent_before := adj\<rparr>) st"
    using assms by (simp add: sub_stringize_def Let_def)
  then show ?thesis using hidden_macro hidden_adjacent by blast
qed

lemma painted_step:
  assumes "sub_step c i st = Some (j, st')" "painted c (ss_out st)" "su_hidden c = Some active" "su_macro_name c \<in> active"
  shows "painted c (ss_out st')"
proof -
  let ?st = "st\<lparr>ss_paste_adjacency := None\<rparr>"
  have butl: "painted c (butlast (ss_out st))" using assms(2) by (auto simp: painted_def dest: in_set_butlastD)
  have par: "painted c (ss_out st')" if p: "sub_parameter c i adj idx ?st = Some (j, st')" for adj idx
  proof -
    obtain toks where toks: "let ps = map (\<lambda>t. with_substitution_provenance t (su_origin c) (su_macro_name c) (su_body c ! i) (su_hidden c)) toks
      in ss_out st' = ss_out st \<or> ss_out st' = ss_out st @ ps \<or> ss_out st' = ss_out st @ set_first_real (adj \<and> \<not> ss_gap st) ps"
      using sub_parameter_out [OF p] by auto
    define ps where "ps = map (\<lambda>t. with_substitution_provenance t (su_origin c) (su_macro_name c) (su_body c ! i) (su_hidden c)) toks"
    have ps: "\<forall>t \<in> set ps. is_hidden (su_macro_name c) t" using hidden_argument [OF assms(4)] assms(3) by (auto simp: ps_def)
    then show ?thesis using toks assms(2) hidden_first_real [OF ps] unfolding ps_def [symmetric] Let_def painted_def by auto
  qed
  have lit: "painted c (ss_out st')" if p: "sub_stringize c i adj idx ?st = Some (j, st')" for adj idx
  proof -
    obtain t where "is_hidden (su_macro_name c) t" "st' = push_substituted t ?st" using sub_stringize_out [OF p] by blast
    then show ?thesis using painted_push [of c ?st t] assms(2) by simp
  qed
  have plain: "painted c (ss_out st')" if "sub_plain c i adj ?st = Some (j, st')" for adj
    using that assms(2) painted_push [of c ?st] hidden_macro by (auto simp: sub_plain_def)
  have rest: "painted c (ss_out st')" if "sub_rest c i adj ?st = Some (j, st')" for adj
    using that lit par plain by (auto simp: sub_rest_def split: option.splits if_splits)
  show ?thesis using assms(1,2) butl rest by (auto simp: sub_step_def Let_def split: option.splits if_splits)
qed

lemma painted_loop:
  "sub_loop c i st = Some out \<Longrightarrow> painted c (ss_out st) \<Longrightarrow> su_hidden c = Some active \<Longrightarrow> su_macro_name c \<in> active \<Longrightarrow> painted c out"
proof (induction c i st rule: sub_loop.induct)
  case (1 c i st)
  show ?case
  proof (cases "i < length (su_body c)")
    case True
    then obtain j st' where s: "sub_step c i st = Some (j, st')" using 1(2) by (subst (asm) sub_loop.simps) (auto split: option.splits)
    have "sub_loop c j st' = Some out" using 1(2) True s by (subst (asm) sub_loop.simps) simp
    then show ?thesis using 1(1) [OF True s refl] painted_step [OF s 1(3-5)] 1(4,5) by blast
  next
    case False
    then show ?thesis using 1(2,3) by (subst (asm) sub_loop.simps) simp
  qed
qed

lemma hidden_pass:
  "\<forall>t \<in> set out \<union> set ts. is_hidden n t \<Longrightarrow> \<forall>t \<in> set (fst (concat_pass out p ts)). is_hidden n t"
proof (induction out p ts rule: concat_pass.induct)
  case (2 out pasted t ts)
  let ?w = "concat_width_at (t # ts) 0"
  have sub: "set (drop k (t # ts)) \<subseteq> set (t # ts)" for k by (rule set_drop_subset)
  show ?case
  proof (cases "0 < ?w")
    case w: True
    show ?thesis
    proof (cases "out = []")
      case True
      have "\<forall>x \<in> set out \<union> set (drop ?w (t # ts)). is_hidden n x" using True sub [of ?w] 2(5) by blast
      then show ?thesis using 2(1) [OF refl w True] w True by simp
    next
      case out: False
      show ?thesis
      proof (cases "drop ?w (t # ts)")
        case Nil
        then show ?thesis using w out 2(5) by simp
      next
        case (Cons r rest)
        have "set rest \<subseteq> set (t # ts)" using sub [of ?w] Cons by auto
        then have "\<forall>x \<in> set (butlast out @ [paste_two_tokens (last out) r]) \<union> set rest. is_hidden n x"
          using 2(5) out hidden_paste by (auto dest: in_set_butlastD)
        moreover have "concat_pass out pasted (t # ts) = concat_pass (butlast out @ [paste_two_tokens (last out) r]) True rest"
          using w out Cons by simp
        ultimately show ?thesis using 2(3) [OF refl w out Cons] by presburger
      qed
    qed
  next
    case False
    then show ?thesis using 2(4) [OF refl False] 2(5) by simp
  qed
qed simp

lemma hidden_concatenation: "\<forall>t \<in> set ts. is_hidden n t \<Longrightarrow> \<forall>t \<in> set (apply_concatenation ts). is_hidden n t"
proof (induction ts rule: apply_concatenation.induct)
  case (1 ts)
  obtain out pasted where p: "concat_pass [] False ts = (out, pasted)" by fastforce
  then have "\<forall>t \<in> set out. is_hidden n t" using hidden_pass [of "[]" ts n False] 1(2) by simp
  then show ?case using 1(1) [OF refl p [symmetric]] p by (subst apply_concatenation.simps) auto
qed

text \<open>C28: emitted-source expansion cannot loop through a macro's own name: after substituting prescanned arguments and pasting, every
  token of the result (from the replacement list, from an argument, stringized or pasted) hides the macro that made it, so
  the rescan leaves that name alone.
\<close>

theorem substitution_paints_macro:
  assumes "substitute_macro name origin body params args (Some expanded) variadic = Some out"
  shows "\<forall>t \<in> set (apply_concatenation out). is_hidden name t"
proof -
  have "\<forall>t \<in> set out. is_hidden name t"
    using painted_loop [OF assms [unfolded substitute_macro_def]] by (simp add: painted_def)
  then show ?thesis by (rule hidden_concatenation)
qed

theorem substitution_paints_macro_witness:
  "let f = Token_new (Identifier (str ''F'')) 1 1; x = Token_new (Identifier (str ''x'')) 1 1; args = \<lparr>ma_args = [[f]], ma_separators = []\<rparr>
   in \<exists>out. substitute_macro (str ''F'') f [x, f] [str ''x''] args (Some args) False = Some out \<and>
        (\<forall>t \<in> set (apply_concatenation out). is_hidden (str ''F'') t)"
proof -
  let ?f = "Token_new (Identifier (str ''F'')) 1 1" and ?x = "Token_new (Identifier (str ''x'')) 1 1"
  let ?args = "\<lparr>ma_args = [[?f]], ma_separators = []\<rparr>"
  have "\<exists>out. substitute_macro (str ''F'') ?f [?x, ?f] [str ''x''] ?args (Some ?args) False = Some out"
    using substitution_bound [of ?args "Some ?args"] by (fastforce simp: separators_fit_def)
  then show ?thesis using substitution_paints_macro by (auto simp: Let_def)
qed

section \<open>Plain replacement lists\<close>

text \<open>The tokens an argument stands for: the argument, or for the variadic tail the arguments from it on with their commas.\<close>

definition argument_tokens :: "ustring list \<Rightarrow> bool \<Rightarrow> MacroArgs \<Rightarrow> nat \<Rightarrow> Token list" where
  "argument_tokens params variadic a idx =
     (if is_variadic_tail params variadic idx
      then arg_tokens a idx @ concat (map (\<lambda>(sep, arg). sep # arg) (zip (drop idx (ma_separators a)) (drop (idx + 1) (ma_args a))))
      else arg_tokens a idx)"

definition replaced :: "ustring list \<Rightarrow> bool \<Rightarrow> MacroArgs \<Rightarrow> Token \<Rightarrow> TokenKind list" where
  "replaced params variadic a t =
     (case param_of params t of Some idx \<Rightarrow> map tok_kind (argument_tokens params variadic a idx) | None \<Rightarrow> [tok_kind t])"

lemma variadic_tokens_prefix:
  assumes "separators_fit a" "idx + 1 + k \<le> length (ma_args a)"
  shows "foldM (variadic_push a idx) [] [idx..<idx + 1 + k]
     = Some (ma_args a ! idx @ concat (map (\<lambda>(sep, arg). sep # arg) (take k (zip (drop idx (ma_separators a)) (drop (idx + 1) (ma_args a))))))"
  using assms(2)
proof (induction k)
  case (Suc k)
  have k: "k < length (zip (drop idx (ma_separators a)) (drop (idx + 1) (ma_args a)))" "idx + k < length (ma_separators a)"
    using Suc.prems assms(1) by (auto simp: separators_fit_def)
  have u: "[idx..<idx + 1 + Suc k] = [idx..<idx + 1 + k] @ [idx + 1 + k]" by simp
  show ?case unfolding u foldM_append using Suc k
    by (simp add: variadic_push_simps take_Suc_conv_app_nth del: upt_Suc)
qed (simp add: variadic_push_simps)

lemma variadic_tokens_argument:
  assumes "separators_fit a"
  shows "variadic_tokens a idx = Some (arg_tokens a idx @
    concat (map (\<lambda>(sep, arg). sep # arg) (zip (drop idx (ma_separators a)) (drop (idx + 1) (ma_args a)))))"
proof (cases "idx < length (ma_args a)")
  case True
  define k where "k = length (ma_args a) - idx - 1"
  have k: "idx + 1 + k = length (ma_args a)" using True by (simp add: k_def)
  then have "take k (zip (drop idx (ma_separators a)) (drop (idx + 1) (ma_args a))) = zip (drop idx (ma_separators a)) (drop (idx + 1) (ma_args a))"
    by simp
  then show ?thesis using variadic_tokens_prefix [OF assms, of idx k] True unfolding k by (simp add: variadic_tokens_def arg_tokens_def)
qed (simp add: variadic_tokens_def arg_tokens_def)

lemma collected_argument: "separators_fit a \<Longrightarrow> collected c a idx = Some (argument_tokens (su_params c) (su_variadic c) a idx)"
  by (simp add: collected_def argument_tokens_def variadic_tokens_argument)

lemma kind_simps [simp]:
  "tok_kind (with_macro_hide t o1 n) = tok_kind t" "tok_kind (with_substitution_provenance t o1 n p h) = tok_kind t"
  "map tok_kind (set_first_real b ts) = map tok_kind ts"
  by (simp_all add: with_macro_hide_def with_substitution_provenance_def macro_prov_mut_def Let_def) (induction ts; simp)

lemma plain_step:
  assumes "fits c" "i < length (su_body c)" "\<forall>t \<in> set (su_body c). is_operand t"
  shows "\<exists>st'. sub_step c i st = Some (i + 1, st') \<and>
    map tok_kind (ss_out st') = map tok_kind (ss_out st) @ replaced (su_params c) (su_variadic c) (su_expanded c) (su_body c ! i)"
proof -
  have op: "is_operand (su_body c ! k)" if "k < length (su_body c)" for k using assms(3) that by simp
  have w: "concat_width_at (su_body c) k = 0" if "k < length (su_body c)" for k
    using op [OF that] by (simp add: is_operand_def concat_width_at_def is_punct_def)
  have np: "\<not> parameter_is_pasted_or_stringized (su_body c) i"
    using op assms(2) w by (auto simp: parameter_is_pasted_or_stringized_def concat_width_after_def is_operand_def)
  show ?thesis
  proof (cases "param_of (su_params c) (su_body c ! i)")
    case None
    then show ?thesis using w assms(2) op [OF assms(2)]
      by (simp add: sub_defs Let_def param_at_def is_operand_def push_substituted_def replaced_def)
  next
    case (Some idx)
    then show ?thesis using w assms op [OF assms(2)] np
      by (auto simp: sub_defs Let_def param_at_def is_operand_def replaced_def fits_def collected_argument comp_def concat_width_after_def)
  qed
qed

lemma plain_loop:
  assumes "fits c" "\<forall>t \<in> set (su_body c). is_operand t" "i \<le> length (su_body c)"
  shows "\<exists>out. sub_loop c i st = Some out \<and>
    map tok_kind out = map tok_kind (ss_out st) @ concat (map (replaced (su_params c) (su_variadic c) (su_expanded c)) (drop i (su_body c)))"
  using assms(3)
proof (induction i arbitrary: st rule: inc_induct)
  case base
  show ?case by (subst sub_loop.simps) simp
next
  case (step n)
  then obtain st' where "sub_step c n st = Some (n + 1, st')"
    "map tok_kind (ss_out st') = map tok_kind (ss_out st) @ replaced (su_params c) (su_variadic c) (su_expanded c) (su_body c ! n)"
    using plain_step [OF assms(1) _ assms(2)] by blast
  then show ?case using step.IH [of st'] step.hyps Cons_nth_drop_Suc [of n "su_body c", symmetric] by (subst sub_loop.simps) auto
qed

lemma argument_tokens_operands:
  assumes "\<forall>t \<in> set (concat (ma_args a)) \<union> set (ma_separators a). is_operand t"
  shows "\<forall>t \<in> set (argument_tokens params variadic a idx). is_operand t"
proof -
  have "\<forall>t \<in> set (arg_tokens a idx). is_operand t" using assms nth_mem [of idx "ma_args a"] unfolding arg_tokens_def by fastforce
  moreover have "is_operand s \<and> (\<forall>t \<in> set arg. is_operand t)" if "(s, arg) \<in> set (zip (drop idx (ma_separators a)) (drop (idx + 1) (ma_args a)))" for s arg
    using set_zip_leftD [OF that] set_zip_rightD [OF that] assms by (auto dest: in_set_dropD)
  ultimately show ?thesis by (auto simp: argument_tokens_def)
qed

lemma replaced_operands:
  assumes "\<forall>t \<in> set (concat (ma_args a)) \<union> set (ma_separators a). is_operand t" "\<forall>t \<in> set body. is_operand t"
  shows "\<forall>k \<in> set (concat (map (replaced params variadic a) body)). k \<noteq> Hash \<and> k \<noteq> Punct (str ''##'')"
  using argument_tokens_operands [OF assms(1)] assms(2) by (auto simp: replaced_def is_operand_def split: option.splits)

text \<open>
  For a replacement list without \<^verbatim>\<open>#\<close> and \<^verbatim>\<open>##\<close> the substitution is simultaneous: each parameter is replaced by its argument, the
  variadic tail by the remaining arguments with the commas between them, in the order of the list, and every other token stays (as
  long as no argument holds an operator of its own).
\<close>

theorem plain_substitution:
  assumes "\<forall>t \<in> set body. is_operand t" "separators_fit args" "separators_fit expanded"
    and "\<forall>t \<in> set (concat (ma_args expanded)) \<union> set (ma_separators expanded). is_operand t"
  shows "\<exists>out. substitute_macro name origin body params args (Some expanded) variadic = Some out \<and>
    map tok_kind (apply_concatenation out) = concat (map (replaced params variadic expanded) body)"
proof -
  let ?c = "\<lparr>su_macro_name = name, su_origin = origin, su_body = body, su_params = params, su_args = args, su_expanded = expanded,
    su_hidden = Some (insert name (case tok_hidden origin of Some h \<Rightarrow> h | None \<Rightarrow> {})), su_variadic = variadic\<rparr>"
  have "fits ?c" using assms(2,3) by (simp add: fits_def)
  then obtain out where out: "sub_loop ?c 0 \<lparr>ss_out = [], ss_gap = False, ss_paste_adjacency = None\<rparr> = Some out"
    "map tok_kind out = concat (map (replaced params variadic expanded) body)"
    using plain_loop [of ?c 0 "\<lparr>ss_out = [], ss_gap = False, ss_paste_adjacency = None\<rparr>"] assms(1) by auto
  have "\<forall>k \<in> set (map tok_kind out). k \<noteq> Hash \<and> k \<noteq> Punct (str ''##'')" using replaced_operands [OF assms(4)] assms(1) out(2) by simp
  then have "list_all is_operand out" by (auto simp: list_all_iff is_operand_def)
  then show ?thesis using out by (simp add: substitute_macro_def apply_concatenation_operands)
qed

theorem plain_substitution_witness:
  "let f = Token_new (Identifier (str ''F'')) 1 1; x = Token_new (Identifier (str ''x'')) 1 1; plus = Token_new (Punct (str ''+'')) 1 1;
       n = Token_new (Number (str ''1'')) 1 1; comma = Token_new (Punct (str '','')) 1 1;
       args = \<lparr>ma_args = [[n], [f]], ma_separators = [comma]\<rparr>
   in \<exists>out. substitute_macro (str ''F'') f [f, x, plus] [str ''x''] args (Some args) True = Some out \<and>
        map tok_kind (apply_concatenation out) = [Identifier (str ''F''), Number (str ''1''), Punct (str '',''), Identifier (str ''F''), Punct (str ''+'')]"
proof -
  let ?f = "Token_new (Identifier (str ''F'')) 1 1" and ?x = "Token_new (Identifier (str ''x'')) 1 1" and ?plus = "Token_new (Punct (str ''+'')) 1 1"
    and ?n = "Token_new (Number (str ''1'')) 1 1" and ?comma = "Token_new (Punct (str '','')) 1 1"
  let ?args = "\<lparr>ma_args = [[?n], [?f]], ma_separators = [?comma]\<rparr>"
  have h: "\<forall>t \<in> set [?f, ?x, ?plus]. is_operand t" "separators_fit ?args" "\<forall>t \<in> set (concat (ma_args ?args)) \<union> set (ma_separators ?args). is_operand t"
    by (simp_all add: is_operand_def separators_fit_def Token_new_def str_def)
  have "concat (map (replaced [str ''x''] True ?args) [?f, ?x, ?plus])
      = [Identifier (str ''F''), Number (str ''1''), Punct (str '',''), Identifier (str ''F''), Punct (str ''+'')]" by code_simp
  then show ?thesis using plain_substitution [OF h(1) h(2) h(2) h(3), of "str ''F''" ?f "[str ''x'']" True] by (simp add: Let_def)
qed

text \<open>
  An argument that holds \<^verbatim>\<open>##\<close> is pasted too: with \<^verbatim>\<open>#define ID(x) x\<close>, the invocation \<^verbatim>\<open>ID(a ## b)\<close> becomes \<^verbatim>\<open>ab\<close>, while C pastes
  only the operators of the replacement list.
\<close>

lemmas sub_eval = substitute_macro_def sub_loop.simps sub_defs Let_def concat_width_at_def concat_width_after_def is_punct_def Token_new_def
  param_at_def param_of_def collected_def is_variadic_tail_def arg_tokens_def parameter_is_pasted_or_stringized_def is_newline_def push_substituted_def

theorem argument_operator_pastes:
  "let a = Token_new (Identifier (str ''a'')) 1 1; x = Token_new (Identifier (str ''x'')) 1 1; op = Token_new (Punct (str ''##'')) 1 3;
       args = \<lparr>ma_args = [[a, op, x]], ma_separators = []\<rparr>
   in map_option (\<lambda>out. map tok_kind (apply_concatenation out)) (substitute_macro (str ''ID'') a [x] [str ''x''] args (Some args) False)
      = Some [Identifier (str ''ax'')]"
  by (simp add: sub_eval arg_is_blank_def is_gnu_comma_paste_def apply_concatenation.simps paste_two_tokens_def case_prod_beta) (simp add: str_def)

section \<open>Argument lists\<close>

text \<open>One argument from a nesting depth on: its parentheses close, and neither a closing one nor a comma stands outside them.\<close>

fun arg_ok :: "nat \<Rightarrow> Token list \<Rightarrow> bool" where
  "arg_ok d [] \<longleftrightarrow> d = 0"
| "arg_ok d (t # ts) \<longleftrightarrow>
     (if is_punct (str ''('') t then arg_ok (d + 1) ts
      else if is_punct (str '')'') t then 0 < d \<and> arg_ok (d - 1) ts
      else (is_punct (str '','') t \<longrightarrow> 0 < d) \<and> arg_ok d ts)"

definition others :: "(Token \<times> Token list) list \<Rightarrow> Token list" where
  "others os = concat (map (\<lambda>(sep, arg). sep # arg) os)"

definition respelled :: "MacroArgs \<Rightarrow> Token list" where
  "respelled a = hd (ma_args a) @ others (zip (ma_separators a) (tl (ma_args a)))"

definition others_ok :: "(Token \<times> Token list) list \<Rightarrow> bool" where
  "others_ok os \<longleftrightarrow> (\<forall>(sep, arg) \<in> set os. is_punct (str '','') sep \<and> arg_ok 0 arg)"

lemma punct_distinct: "is_punct p t \<Longrightarrow> is_punct q t \<Longrightarrow> p = q"
  by (simp add: is_punct_def)

lemma collect_sound:
  "collect_args i a cur d ts = Some (b, n) \<Longrightarrow>
     \<exists>first os cl rest. ts = first @ others os @ cl # rest \<and> arg_ok d first \<and> others_ok os \<and> is_punct (str '')'') cl \<and>
       b = \<lparr>ma_args = ma_args a @ (cur @ first) # map snd os, ma_separators = ma_separators a @ map fst os\<rparr> \<and>
       n = i + length first + length (others os) + 1"
proof (induction ts arbitrary: i a cur d)
  case (Cons t ts)
  consider (op) "is_punct (str ''('') t" | (stop) "\<not> is_punct (str ''('') t" "is_punct (str '')'') t" "d = 0"
    | (cl) "\<not> is_punct (str ''('') t" "is_punct (str '')'') t" "0 < d"
    | (comma) "\<not> is_punct (str ''('') t" "\<not> is_punct (str '')'') t" "is_punct (str '','') t" "d = 0"
    | (other) "\<not> is_punct (str ''('') t" "\<not> is_punct (str '')'') t" "is_punct (str '','') t \<longrightarrow> 0 < d" by blast
  then show ?case
  proof cases
    case op
    then have "collect_args (i + 1) a (cur @ [t]) (d + 1) ts = Some (b, n)" using Cons.prems by simp
    from Cons.IH [OF this] obtain first os cl rest where "ts = first @ others os @ cl # rest" "arg_ok (d + 1) first" "others_ok os"
      "is_punct (str '')'') cl" "b = \<lparr>ma_args = ma_args a @ ((cur @ [t]) @ first) # map snd os, ma_separators = ma_separators a @ map fst os\<rparr>"
      "n = i + 1 + length first + length (others os) + 1" by blast
    then show ?thesis using op by (intro exI [of _ "t # first"] exI [of _ os] exI [of _ cl] exI [of _ rest]) simp
  next
    case stop
    then show ?thesis using Cons.prems by (intro exI [of _ "[]"] exI [of _ t] exI [of _ ts]) (auto simp: others_def others_ok_def)
  next
    case cl
    then have "collect_args (i + 1) a (cur @ [t]) (d - 1) ts = Some (b, n)" using Cons.prems by simp
    from Cons.IH [OF this] obtain first os c rest where "ts = first @ others os @ c # rest" "arg_ok (d - 1) first" "others_ok os"
      "is_punct (str '')'') c" "b = \<lparr>ma_args = ma_args a @ ((cur @ [t]) @ first) # map snd os, ma_separators = ma_separators a @ map fst os\<rparr>"
      "n = i + 1 + length first + length (others os) + 1" by blast
    then show ?thesis using cl by (intro exI [of _ "t # first"] exI [of _ os] exI [of _ c] exI [of _ rest]) simp
  next
    case comma
    then have "collect_args (i + 1) \<lparr>ma_args = ma_args a @ [cur], ma_separators = ma_separators a @ [t]\<rparr> [] 0 ts = Some (b, n)"
      using Cons.prems by simp
    from Cons.IH [OF this] obtain first os c rest where ih: "ts = first @ others os @ c # rest" "arg_ok 0 first" "others_ok os" "is_punct (str '')'') c"
      "b = \<lparr>ma_args = (ma_args a @ [cur]) @ ([] @ first) # map snd os, ma_separators = (ma_separators a @ [t]) @ map fst os\<rparr>"
      "n = i + 1 + length first + length (others os) + 1" by auto
    then show ?thesis using comma
      by (intro exI [of _ "[]"] exI [of _ "(t, first) # os"] exI [of _ c] exI [of _ rest]) (auto simp: others_def others_ok_def)
  next
    case other
    then have "collect_args (i + 1) a (cur @ [t]) d ts = Some (b, n)" using Cons.prems by auto
    from Cons.IH [OF this] obtain first os c rest where "ts = first @ others os @ c # rest" "arg_ok d first" "others_ok os"
      "is_punct (str '')'') c" "b = \<lparr>ma_args = ma_args a @ ((cur @ [t]) @ first) # map snd os, ma_separators = ma_separators a @ map fst os\<rparr>"
      "n = i + 1 + length first + length (others os) + 1" by blast
    then show ?thesis using other by (intro exI [of _ "t # first"] exI [of _ os] exI [of _ c] exI [of _ rest]) simp
  qed
qed simp

lemma collect_complete:
  assumes "others_ok os" "is_punct (str '')'') cl"
  shows "arg_ok d first \<Longrightarrow> collect_args i a cur d (first @ others os @ cl # rest) =
    Some (\<lparr>ma_args = ma_args a @ (cur @ first) # map snd os, ma_separators = ma_separators a @ map fst os\<rparr>,
      i + length first + length (others os) + 1)"
  using assms
proof (induction "first @ others os @ cl # rest" arbitrary: i a cur d first os)
  case (Cons t ts)
  note distinct = punct_distinct [of _ t]
  show ?case
  proof (cases first)
    case (Cons u first')
    then have ts: "ts = first' @ others os @ cl # rest" "u = t" using Cons.hyps(2) by auto
    then show ?thesis using Cons Cons.prems Cons.hyps(1) [OF ts(1)] by (auto split: if_splits)
  next
    case Nil
    then have d: "d = 0" using Cons.prems(1) by simp
    show ?thesis
    proof (cases os)
      case Nil
      then show ?thesis using \<open>first = []\<close> d Cons.prems(3) by (auto simp: others_def is_punct_def)
    next
      case (Cons so os')
      obtain s x where so: "so = (s, x)" by fastforce
      have o: "others_ok os'" "arg_ok 0 x" "is_punct (str '','') s" using Cons.prems(2) Cons so by (auto simp: others_ok_def)
      have ts: "ts = x @ others os' @ cl # rest" "s = t" using Cons.hyps(2) \<open>first = []\<close> Cons so by (auto simp: others_def)
      show ?thesis using Cons.hyps(1) [OF ts(1) o(2,1) Cons.prems(3), of "i + 1" "\<lparr>ma_args = ma_args a @ [cur], ma_separators = ma_separators a @ [t]\<rparr>" "[]"]
          \<open>first = []\<close> d Cons so ts o(3) by (auto simp: others_def is_punct_def)
    qed
  qed
qed simp

text \<open>C29: the arguments of an invocation in a condition are exactly the source between its parentheses, split at the commas outside
  nested parentheses: the argument list and its separators, spelled one after the other, give the tokens back, and any
  such spelling followed by the closing parenthesis is read back as that argument list. An unterminated list or a name without
  a parenthesis is no invocation.
\<close>

theorem invocation_arguments_roundtrip:
  "parse_cond_macro_args toks i = Some (a, next) \<longleftrightarrow>
     (\<exists>op cl rest. drop i toks = op # respelled a @ cl # rest \<and> is_punct (str ''('') op \<and> is_punct (str '')'') cl \<and>
        next = i + length (respelled a) + 2 \<and> length (ma_args a) = length (ma_separators a) + 1 \<and>
        list_all (is_punct (str '','')) (ma_separators a) \<and> list_all (arg_ok 0) (ma_args a))"
  (is "?L = ?R")
proof
  assume ?L
  then obtain op ts where op: "drop i toks = op # ts" "is_punct (str ''('') op"
    "collect_args (i + 1) \<lparr>ma_args = [], ma_separators = []\<rparr> [] 0 ts = Some (a, next)"
    by (auto simp: parse_cond_macro_args_def split: list.splits if_splits)
  from collect_sound [OF op(3)] obtain first os cl rest where c: "ts = first @ others os @ cl # rest" "arg_ok 0 first" "others_ok os"
    "is_punct (str '')'') cl" "a = \<lparr>ma_args = first # map snd os, ma_separators = map fst os\<rparr>" "next = i + 1 + length first + length (others os) + 1"
    by auto
  moreover have "respelled a = first @ others os" using c(5) by (simp add: respelled_def zip_map_fst_snd)
  ultimately show ?R using op(1,2) by (intro exI [of _ op] exI [of _ cl] exI [of _ rest]) (auto simp: others_ok_def list_all_iff)
next
  assume ?R
  then obtain op cl rest where r: "drop i toks = op # respelled a @ cl # rest" "is_punct (str ''('') op" "is_punct (str '')'') cl"
    "next = i + length (respelled a) + 2" "length (ma_args a) = length (ma_separators a) + 1"
    "list_all (is_punct (str '','')) (ma_separators a)" "list_all (arg_ok 0) (ma_args a)" by blast
  obtain first args where args: "ma_args a = first # args" "length args = length (ma_separators a)" using r(5) by (cases "ma_args a") auto
  let ?os = "zip (ma_separators a) args"
  have "others_ok ?os" using r(6,7) args by (auto simp: others_ok_def list_all_iff dest: set_zip_leftD set_zip_rightD)
  from collect_complete [OF this r(3), of 0 first "i + 1" "\<lparr>ma_args = [], ma_separators = []\<rparr>" "[]" rest]
  show ?L using r args by (simp add: parse_cond_macro_args_def respelled_def)
qed

end
