(* ===== verification/Pp_Condition.thy ===== *)
theory Pp_Condition
  imports Pp_Env Pp_Expr_Ints Pp_Macro_Props
begin

text \<open>
  Expansion and evaluation of the controlling expression of \<^verbatim>\<open>#if\<close> and \<^verbatim>\<open>#elif\<close> (\<^verbatim>\<open>expand_condition_tokens\<close> and
  \<^verbatim>\<open>expand_and_eval_condition\<close> in \<^verbatim>\<open>trace-preproc/src/preprocessor.rs\<close>). The worklist loop counts its steps, so it ends after at most
  \<open>MAX_STEPS\<close> of them. A run returns the expanded tokens, or none when a budget is exceeded, with the state it leaves; the outer option
  is a panic.
\<close>

section \<open>The worklist\<close>

definition MAX_TOKENS :: nat where "MAX_TOKENS = 2 ^ 16"
definition MAX_STEPS :: nat where "MAX_STEPS = 2 ^ 20"

definition warn_condition_budget :: "nat \<Rightarrow> PreprocessorState \<Rightarrow> PreprocessorState" where
  "warn_condition_budget line st = warn line (str ''macro expansion budget exceeded in #if condition; treating as false'') st"

definition paint_replacement :: "Token list \<Rightarrow> Token \<Rightarrow> ustring \<Rightarrow> Token list" where
  "paint_replacement tokens origin name = map (\<lambda>t. with_macro_hide t origin name) tokens"

text \<open>A number in decimal (\<open>to_string\<close>).\<close>

fun decimal :: "nat \<Rightarrow> ustring" where
  "decimal n = (if n < 10 then [48 + n] else decimal (n div 10) @ [48 + n mod 10])"

declare decimal.simps [simp del]

text \<open>One turn of the loop: it goes on with a worklist, an output and a position, stops over budget, or panics.\<close>

datatype CondStep = Continue "Token list" "Token list" nat PreprocessorState | OverBudget PreprocessorState | Panic

definition expand_function ::
  "Token list \<Rightarrow> Token list \<Rightarrow> nat \<Rightarrow> Token \<Rightarrow> ustring \<Rightarrow> ustring list \<Rightarrow> Token list \<Rightarrow> bool \<Rightarrow> MacroArgs \<Rightarrow> nat \<Rightarrow> PreprocessorState \<Rightarrow> CondStep" where
  "expand_function work out i tok name params replacement variadic args next st =
     (let projected = projected_substitution_len replacement params args variadic;
          kept = length work - (next - i)
      in if saturating_add kept projected > MAX_TOKENS then OverBudget (warn_condition_budget (tok_line tok) st)
         else
           (case substitute_macro name tok replacement params args None variadic of
              None \<Rightarrow> Panic
            | Some substituted \<Rightarrow> Continue (take i work @ apply_concatenation substituted @ drop next work) out i st))"

definition expand_name ::
  "(HashItem list \<Rightarrow> 64 word) \<Rightarrow> Token list \<Rightarrow> Token list \<Rightarrow> nat \<Rightarrow> Token \<Rightarrow> ustring \<Rightarrow> PreprocessorState \<Rightarrow> CondStep" where
  "expand_name H work out i tok name st0 =
     (let st = (if \<not> is_hidden name tok then record_read H name st0 else st0);
          emit = Continue work (out @ [tok]) (i + 1) st
      in if is_hidden name tok \<or> name \<in> ps_fallback_macros st then emit
         else
           (case ps_macros st name of
              Some (MacroObject replacement) \<Rightarrow> Continue (take i work @ paint_replacement replacement tok name @ drop (i + 1) work) out i st
            | Some (MacroFunction params replacement variadic) \<Rightarrow>
                (case parse_cond_macro_args work (i + 1) of
                   Some (args, next) \<Rightarrow> expand_function work out i tok name params replacement variadic args next st
                 | None \<Rightarrow> emit)
            | Some GmockMethod \<Rightarrow> emit
            | None \<Rightarrow> emit))"

definition resolve_defined ::
  "(HashItem list \<Rightarrow> 64 word) \<Rightarrow> Token list \<Rightarrow> Token list \<Rightarrow> nat \<Rightarrow> Token \<Rightarrow> PreprocessorState \<Rightarrow> CondStep" where
  "resolve_defined H work out i tok st =
     (let (operand, consumed) = defined_operand work i;
          (val, st1) = (case operand of Some n \<Rightarrow> is_defined_for_conditionals H n st | None \<Rightarrow> (False, st))
      in Continue work (out @ [Token_new (Number (if val then str ''1'' else str ''0'')) (tok_line tok) (tok_col tok)]) (i + consumed) st1)"

definition cond_step :: "(HashItem list \<Rightarrow> 64 word) \<Rightarrow> Token list \<Rightarrow> Token list \<Rightarrow> nat \<Rightarrow> PreprocessorState \<Rightarrow> CondStep" where
  "cond_step H work out i st =
     (let tok = work ! i
      in case tok_kind tok of
           Identifier name \<Rightarrow>
             if name = str ''defined'' then resolve_defined H work out i tok st
             else if name = str ''__LINE__'' then
               Continue work (out @ [Token_new (Number (decimal (fst (expansion_site tok)))) (tok_line tok) (tok_col tok)]) (i + 1) st
             else expand_name H work out i tok name st
         | _ \<Rightarrow> Continue work (out @ [tok]) (i + 1) st)"

function cond_loop ::
  "(HashItem list \<Rightarrow> 64 word) \<Rightarrow> Token list \<Rightarrow> Token list \<Rightarrow> nat \<Rightarrow> nat \<Rightarrow> PreprocessorState \<Rightarrow> (Token list option \<times> PreprocessorState) option" where
  "cond_loop H work out i steps st =
     (if \<not> i < length work then Some (Some out, st)
      else if steps + 1 > MAX_STEPS \<or> length work > MAX_TOKENS \<or> length out > MAX_TOKENS
      then Some (None, warn_condition_budget (tok_line (work ! i)) st)
      else
        (case cond_step H work out i st of
           Continue work' out' i' st' \<Rightarrow> cond_loop H work' out' i' (steps + 1) st'
         | OverBudget st' \<Rightarrow> Some (None, st')
         | Panic \<Rightarrow> None))"
  by pat_completeness auto
termination
  by (relation "measure (\<lambda>(H, work, out, i, steps, st). MAX_STEPS - steps)") auto

declare cond_loop.simps [simp del]

definition expand_condition_tokens ::
  "(HashItem list \<Rightarrow> 64 word) \<Rightarrow> Token list \<Rightarrow> PreprocessorState \<Rightarrow> (Token list option \<times> PreprocessorState) option" where
  "expand_condition_tokens H toks st = cond_loop H toks [] 0 0 st"

definition expand_and_eval_condition ::
  "(HashItem list \<Rightarrow> 64 word) \<Rightarrow> Token list \<Rightarrow> nat \<Rightarrow> PreprocessorState \<Rightarrow> (bool \<times> nat \<times> PreprocessorState) option" where
  "expand_and_eval_condition H tokens start st =
     do {
       let i = skip_directive_line tokens start;
       toks \<leftarrow> vslice tokens start i;
       (r, st') \<leftarrow> expand_condition_tokens H toks st;
       Some (case r of Some expanded \<Rightarrow> eval_pp_tokens expanded | None \<Rightarrow> False, i, st')
     }"

section \<open>Returning\<close>

text \<open>The slice of a line panics exactly when the line starts behind the last token.\<close>

lemma line_slice: "vslice tokens i (skip_directive_line tokens i) =
    (if i \<le> length tokens then Some (drop i (take (skip_directive_line tokens i) tokens)) else None)"
  using length_takeWhile_le [of "\<lambda>t. \<not> ends_line t" "drop i tokens"] by (auto simp: vslice_def skip_directive_line_def)

lemma eval_condition_within:
  "start \<le> length tokens \<Longrightarrow> expand_and_eval_condition H tokens start st =
     map_option (\<lambda>(r, st'). (case r of Some expanded \<Rightarrow> eval_pp_tokens expanded | None \<Rightarrow> False, skip_directive_line tokens start, st'))
       (expand_condition_tokens H (drop start (take (skip_directive_line tokens start) tokens)) st)"
  by (simp add: expand_and_eval_condition_def line_slice Let_def map_conv_bind_option case_prod_unfold o_def)

lemma cond_args_shape:
  assumes "parse_cond_macro_args toks i = Some (args, next)"
  shows "separators_fit args" "i < next" "next \<le> length toks"
proof -
  obtain op ts where op: "drop i toks = op # ts" "collect_args (i + 1) \<lparr>ma_args = [], ma_separators = []\<rparr> [] 0 ts = Some (args, next)"
    using assms by (auto simp: parse_cond_macro_args_def split: list.splits if_splits)
  from collect_sound [OF this(2)] obtain first os cl rest where c: "ts = first @ others os @ cl # rest"
    "args = \<lparr>ma_args = first # map snd os, ma_separators = map fst os\<rparr>" "next = i + 1 + length first + length (others os) + 1" by auto
  then show "separators_fit args" "i < next" by (simp_all add: separators_fit_def)
  have "length (drop i toks) = length first + length (others os) + 2 + length rest" using op(1) c(1) by simp
  then show "next \<le> length toks" using c(3) by simp
qed

lemma expand_function_returns:
  assumes "parse_cond_macro_args work (i + 1) = Some (args, next)"
  shows "expand_function work out i tok name params replacement variadic args next st \<noteq> Panic"
  using substitution_bound [OF cond_args_shape(1) [OF assms], of None name tok replacement params variadic]
  by (auto simp: expand_function_def Let_def)

lemma cond_step_returns: "cond_step H work out i st \<noteq> Panic"
  using expand_function_returns
  by (auto simp: cond_step_def expand_name_def resolve_defined_def Let_def case_prod_beta split: TokenKind.split option.split MacroDef.split)

lemma cond_loop_returns: "cond_loop H work out i steps st \<noteq> None"
proof (induction H work out i steps st rule: cond_loop.induct)
  case (1 H work out i steps st)
  then show ?case using cond_step_returns [of H work out i st]
    by (subst cond_loop.simps) (auto split: CondStep.split)
qed

text \<open>A splice the projection admits keeps the worklist within the token budget.\<close>

lemma splice_within_budget:
  assumes "parse_cond_macro_args work (i + 1) = Some (args, next)"
    "expand_function work out i tok name params replacement variadic args next st = Continue work' out' i' st'"
  shows "length work' \<le> MAX_TOKENS"
proof -
  note shape = cond_args_shape [OF assms(1)]
  obtain sub where sub: "substitute_macro name tok replacement params args None variadic = Some sub"
    "length (apply_concatenation sub) \<le> length sub" "min (length sub) (2 ^ 64 - 1) \<le> projected_substitution_len replacement params args variadic"
    using substitution_bound [OF shape(1), of None name tok replacement params variadic] by (auto simp: projected_same)
  have b: "saturating_add (length work - (next - i)) (projected_substitution_len replacement params args variadic) \<le> MAX_TOKENS"
    and w: "work' = take i work @ apply_concatenation sub @ drop next work"
    using assms(2) sub(1) by (auto simp: expand_function_def Let_def split: if_splits)
  have "min (length work - (next - i) + projected_substitution_len replacement params args variadic) (2 ^ 64 - 1) \<le> 2 ^ 16"
    using b by (simp add: saturating_add_def MAX_TOKENS_def)
  then have "length work - (next - i) + projected_substitution_len replacement params args variadic \<le> 2 ^ 16"
    by (simp add: min_def split: if_splits)
  moreover have "length (apply_concatenation sub) \<le> projected_substitution_len replacement params args variadic"
    using sub(2,3) calculation by (simp add: min_def split: if_splits)
  ultimately show ?thesis using w shape(2,3) by (simp add: MAX_TOKENS_def)
qed

section \<open>What a condition reads\<close>

definition settled_names :: "PreprocessorState \<Rightarrow> ustring set" where
  "settled_names st = cf_settled (last (ps_cache_frames st))"

definition agree_on :: "ustring set \<Rightarrow> PreprocessorState \<Rightarrow> PreprocessorState \<Rightarrow> bool" where
  "agree_on N st t \<longleftrightarrow> (\<forall>n \<in> N. ps_macros t n = ps_macros st n \<and> (n \<in> ps_fallback_macros t \<longleftrightarrow> n \<in> ps_fallback_macros st))"

text \<open>Evaluating a condition leaves the macros alone, and only adds to what the open frames have settled.\<close>

definition reads_only :: "PreprocessorState \<Rightarrow> PreprocessorState \<Rightarrow> bool" where
  "reads_only st st' \<longleftrightarrow> ps_macros st' = ps_macros st \<and> ps_fallback_macros st' = ps_fallback_macros st \<and>
     ps_conditional_stack st' = ps_conditional_stack st \<and> ps_cond_base st' = ps_cond_base st \<and> ps_conditionals st' = ps_conditionals st \<and>
     ps_record_conditionals st' = ps_record_conditionals st \<and> ps_guarded_file st' = ps_guarded_file st \<and> ps_current_file st' = ps_current_file st \<and>
     ps_macro_ops st' = ps_macro_ops st \<and> ps_file_guards st' = ps_file_guards st \<and>
     length (ps_cache_frames st') = length (ps_cache_frames st) \<and>
     (ps_cache_frames st \<noteq> [] \<longrightarrow> settled_names st \<subseteq> settled_names st')"

lemma reads_only_refl [simp]: "reads_only st st"
  by (simp add: reads_only_def)

lemma reads_only_trans: "reads_only a b \<Longrightarrow> reads_only b c \<Longrightarrow> reads_only a c"
  by (auto simp: reads_only_def)

lemma settle_frames_last: "fs \<noteq> [] \<Longrightarrow> cf_settled (last (map (settle n h) fs)) = insert n (cf_settled (last fs))"
  by (simp add: last_map)

lemma note_cond_read_simps [simp]:
  "ps_macros (note_cond_read n st) = ps_macros st" "ps_fallback_macros (note_cond_read n st) = ps_fallback_macros st"
  "ps_cache_frames (note_cond_read n st) = ps_cache_frames st" "innermost_settled m (note_cond_read n st) = innermost_settled m st"
  by (simp_all add: note_cond_read_def innermost_settled_def split: option.split)

lemma record_read_reads_only: "reads_only st (record_read H n st)"
proof -
  let ?a = "note_cond_read n st"
  let ?b = "snd (binding_hash H n ?a)"
  let ?c = "?b\<lparr>ps_cache_frames := map (settle n (fst (binding_hash H n ?a))) (ps_cache_frames ?b)\<rparr>"
  have a: "reads_only st ?a" by (simp add: reads_only_def note_cond_read_def settled_names_def split: option.split)
  have "reads_only ?a ?b" by (simp add: reads_only_def binding_hash_def Let_def settled_names_def split: option.split)
  moreover have "reads_only ?b ?c" by (auto simp: reads_only_def settled_names_def settle_frames_last)
  ultimately have "reads_only st ?c" using a reads_only_trans by blast
  then show ?thesis using a unfolding record_read_def Let_def case_prod_beta by presburger
qed

lemma record_read_settles: "ps_cache_frames st \<noteq> [] \<Longrightarrow> n \<in> settled_names (record_read H n st)"
  by (auto simp: record_read_def Let_def case_prod_beta settled_names_def innermost_settled_def settle_frames_last)

lemma is_defined_reads_only: "reads_only st (snd (is_defined_for_conditionals H n st))"
  and is_defined_settles: "ps_cache_frames st \<noteq> [] \<Longrightarrow> n \<in> settled_names (snd (is_defined_for_conditionals H n st))"
  and is_defined_value: "fst (is_defined_for_conditionals H n st) = is_bound n st"
  using record_read_reads_only [of st H n] record_read_settles [of st n H]
  by (auto simp: is_defined_for_conditionals_def Let_def reads_only_def settled_names_def is_bound_def split: option.split)

lemma warn_reads_only: "reads_only st (warn_condition_budget l st)"
  by (auto simp: reads_only_def warn_condition_budget_def warn_def report_def push_diagnostic_def Let_def settled_names_def last_map)

fun step_state :: "PreprocessorState \<Rightarrow> CondStep \<Rightarrow> PreprocessorState" where
  "step_state st (Continue w out i st') = st'"
| "step_state st (OverBudget st') = st'"
| "step_state st Panic = st"

lemma cond_step_reads_only: "reads_only st (step_state st (cond_step H work out i st))"
proof -
  have f: "reads_only st (step_state st0 (expand_function work out i tok name params replacement variadic args next st'))"
    if "reads_only st st'" "reads_only st st0" for st0 st' tok name params replacement variadic args "next"
    using that warn_reads_only [of st'] by (auto simp: expand_function_def Let_def intro: reads_only_trans split: option.split)
  have "reads_only st (step_state st (expand_name H work out i tok name st))" for tok name
    using record_read_reads_only [of st H name] f
    by (auto simp: expand_name_def Let_def split: option.split MacroDef.split)
  moreover have "reads_only st (step_state st (resolve_defined H work out i tok st))" for tok
    using is_defined_reads_only [of st H] by (auto simp: resolve_defined_def Let_def case_prod_beta split: option.split)
  ultimately show ?thesis by (auto simp: cond_step_def Let_def split: TokenKind.split)
qed

lemma cond_loop_reads_only: "cond_loop H work out i steps st = Some (r, st') \<Longrightarrow> reads_only st st'"
proof (induction H work out i steps st rule: cond_loop.induct)
  case (1 H work out i steps st)
  show ?case
  proof (cases "\<not> i < length work \<or> steps + 1 > MAX_STEPS \<or> length work > MAX_TOKENS \<or> length out > MAX_TOKENS")
    case True
    then show ?thesis using 1(2) warn_reads_only [of st] by (subst (asm) cond_loop.simps) (auto split: if_splits)
  next
    case False
    then have go: "cond_loop H work out i steps st =
        (case cond_step H work out i st of
           Continue work' out' i' st' \<Rightarrow> cond_loop H work' out' i' (steps + 1) st' | OverBudget st' \<Rightarrow> Some (None, st') | Panic \<Rightarrow> None)"
      by (subst cond_loop.simps) simp
    show ?thesis
    proof (cases "cond_step H work out i st")
      case (Continue work' out' i' s)
      then have "reads_only s st'" using 1(1) [of work' out' i' s] 1(2) False go by simp
      then show ?thesis using cond_step_reads_only [of st H work out i] Continue by (auto intro: reads_only_trans)
    next
      case (OverBudget s)
      then show ?thesis using cond_step_reads_only [of st H work out i] 1(2) go by simp
    qed (use 1(2) go in simp)
  qed
qed

text \<open>The turns of the loop without its step counter: each starts inside the worklist with worklist and output within the token budget.\<close>

type_synonym worklist = "Token list \<times> Token list \<times> nat \<times> PreprocessorState"

inductive turns :: "(HashItem list \<Rightarrow> 64 word) \<Rightarrow> nat \<Rightarrow> worklist \<Rightarrow> worklist \<Rightarrow> bool" for H where
  no_turn: "turns H 0 c c"
| turn: "i < length work \<Longrightarrow> length work \<le> MAX_TOKENS \<Longrightarrow> length out \<le> MAX_TOKENS \<Longrightarrow>
    cond_step H work out i st = Continue work' out' i' st' \<Longrightarrow> turns H n (work', out', i', st') c \<Longrightarrow> turns H (Suc n) (work, out, i, st) c"

text \<open>A budget is exceeded after \<open>n\<close> turns.\<close>

definition exceeded :: "(HashItem list \<Rightarrow> 64 word) \<Rightarrow> nat \<Rightarrow> worklist \<Rightarrow> bool" where
  "exceeded H n c \<longleftrightarrow> (case c of (work, out, i, st) \<Rightarrow>
     n = MAX_STEPS \<or> length work > MAX_TOKENS \<or> length out > MAX_TOKENS \<or> (\<exists>st'. cond_step H work out i st = OverBudget st'))"

lemma cond_step_output: "cond_step H work out i st = Continue work' out' i' st' \<Longrightarrow> length out' \<le> length out + 1"
  by (auto simp: cond_step_def expand_name_def expand_function_def resolve_defined_def Let_def case_prod_beta
    split: TokenKind.splits option.splits MacroDef.splits if_splits)

lemma turns_output: "turns H n c c' \<Longrightarrow> length (fst (snd c)) \<le> MAX_TOKENS + 1 \<Longrightarrow> length (fst (snd c')) \<le> MAX_TOKENS + 1"
  by (induction rule: turns.induct) (auto dest!: cond_step_output)

lemma cond_loop_turns:
  "cond_loop H work out i steps st = Some (r, st') \<Longrightarrow> steps \<le> MAX_STEPS \<Longrightarrow>
     \<exists>n w x j s. turns H n (work, out, i, st) (w, x, j, s) \<and> steps + n \<le> MAX_STEPS \<and>
       (if j < length w then r = None \<and> exceeded H (steps + n) (w, x, j, s) else r = Some x)"
proof (induction H work out i steps st rule: cond_loop.induct)
  case (1 H work out i steps st)
  show ?case
  proof (cases "\<not> i < length work \<or> steps + 1 > MAX_STEPS \<or> length work > MAX_TOKENS \<or> length out > MAX_TOKENS \<or>
      (\<exists>s'. cond_step H work out i st = OverBudget s')")
    case True
    then have "if i < length work then r = None \<and> exceeded H (steps + 0) (work, out, i, st) else r = Some out"
      using 1(2,3) by (subst (asm) cond_loop.simps) (auto simp: exceeded_def split: if_splits)
    then show ?thesis using turns.no_turn [of H "(work, out, i, st)"] 1(3) by (metis add_0_right)
  next
    case False
    then obtain work' out' i' s' where c: "cond_step H work out i st = Continue work' out' i' s'"
      using cond_step_returns [of H work out i st] by (cases "cond_step H work out i st") auto
    have "cond_loop H work' out' i' (steps + 1) s' = Some (r, st')" using 1(2) False c by (subst (asm) cond_loop.simps) simp
    then obtain n w x j s where n: "turns H n (work', out', i', s') (w, x, j, s)" "steps + 1 + n \<le> MAX_STEPS"
      "if j < length w then r = None \<and> exceeded H (steps + 1 + n) (w, x, j, s) else r = Some x"
      using 1(1) [of work' out' i' s'] False c by fastforce
    moreover have "turns H (Suc n) (work, out, i, st) (w, x, j, s)" using turns.turn [OF _ _ _ c n(1)] False by simp
    moreover have "steps + Suc n = steps + 1 + n" by simp
    ultimately show ?thesis by metis
  qed
qed

text \<open>C23: every condition is decided: with any macros, however they recurse or grow, the expansion of a controlling expression that starts
  within its file never panics and ends after at most \<open>MAX_STEPS\<close> turns with at most \<open>MAX_TOKENS\<close> + 1 tokens of output. When the turns use up the
  worklist, the value is that of the expanded tokens; when they stop inside it, a budget is exceeded and the value is false. The
  position is the end of the line; the macro table, the fallbacks, the conditional stack and the recorded chains are as before.
\<close>

theorem condition_always_decided:
  assumes "start \<le> length tokens"
  shows "\<exists>b st' n work out i s.
     expand_and_eval_condition H tokens start st = Some (b, skip_directive_line tokens start, st') \<and>
     turns H n (drop start (take (skip_directive_line tokens start) tokens), [], 0, st) (work, out, i, s) \<and>
     n \<le> MAX_STEPS \<and> length out \<le> MAX_TOKENS + 1 \<and>
     (if i < length work then exceeded H n (work, out, i, s) \<and> \<not> b else b = eval_pp_tokens out) \<and>
     ps_macros st' = ps_macros st \<and> ps_fallback_macros st' = ps_fallback_macros st \<and>
     ps_conditional_stack st' = ps_conditional_stack st \<and> ps_conditionals st' = ps_conditionals st"
proof -
  let ?toks = "drop start (take (skip_directive_line tokens start) tokens)"
  obtain r st' where loop: "cond_loop H ?toks [] 0 0 st = Some (r, st')" using cond_loop_returns by fastforce
  obtain n work out i s where n: "turns H n (?toks, [], 0, st) (work, out, i, s)" "n \<le> MAX_STEPS"
    "if i < length work then r = None \<and> exceeded H n (work, out, i, s) else r = Some out" using cond_loop_turns [OF loop, unfolded add_0] by auto
  have "expand_and_eval_condition H tokens start st =
      Some (case r of Some expanded \<Rightarrow> eval_pp_tokens expanded | None \<Rightarrow> False, skip_directive_line tokens start, st')"
    using loop by (simp add: eval_condition_within [OF assms] expand_condition_tokens_def)
  moreover have "length out \<le> MAX_TOKENS + 1" using turns_output [OF n(1)] by simp
  moreover have "if i < length work then exceeded H n (work, out, i, s) \<and> \<not> (case r of Some expanded \<Rightarrow> eval_pp_tokens expanded | None \<Rightarrow> False)
      else (case r of Some expanded \<Rightarrow> eval_pp_tokens expanded | None \<Rightarrow> False) = eval_pp_tokens out" using n(3) by (auto split: if_splits)
  ultimately show ?thesis using n(1,2) cond_loop_reads_only [OF loop] unfolding reads_only_def by metis
qed

theorem condition_always_decided_witness:
  "\<exists>b st'. expand_and_eval_condition (\<lambda>_. 7) [Token_new (Identifier (str ''A'')) 1 1, Token_new Newline 1 2] 0
      (empty_state\<lparr>ps_macros := [str ''A'' \<mapsto> MacroObject [Token_new (Identifier (str ''A'')) 1 1]]\<rparr>) = Some (b, 1, st')"
proof -
  let ?tokens = "[Token_new (Identifier (str ''A'')) 1 1, Token_new Newline 1 2]"
  have "skip_directive_line ?tokens 0 = 1" by (simp add: skip_directive_line_def ends_line_def Token_new_def)
  then show ?thesis using condition_always_decided [of 0 ?tokens "\<lambda>_. 7"
      "empty_state\<lparr>ps_macros := [str ''A'' \<mapsto> MacroObject [Token_new (Identifier (str ''A'')) 1 1]]\<rparr>"] by auto
qed

lemma agree_on_mono: "agree_on N st t \<Longrightarrow> M \<subseteq> N \<Longrightarrow> agree_on M st t"
  by (auto simp: agree_on_def)

lemma agree_on_reads: "agree_on N st t \<Longrightarrow> reads_only st st' \<Longrightarrow> reads_only t t' \<Longrightarrow> agree_on N st' t'"
  by (simp add: agree_on_def reads_only_def)

text \<open>A turn of the loop in a state that agrees on the names the turn read does the same.\<close>

fun same_step :: "CondStep \<Rightarrow> CondStep \<Rightarrow> bool" where
  "same_step (Continue w out i st) r \<longleftrightarrow> (\<exists>t. r = Continue w out i t)"
| "same_step (OverBudget st) r \<longleftrightarrow> (\<exists>t. r = OverBudget t)"
| "same_step Panic r \<longleftrightarrow> r = Panic"

lemma expand_function_same:
  "same_step (expand_function work out i tok name params replacement variadic args next st)
     (expand_function work out i tok name params replacement variadic args next t)"
  by (simp add: expand_function_def Let_def split: option.split)

lemma expand_function_settled:
  assumes "n \<in> settled_names st" "ps_cache_frames st \<noteq> []" "parse_cond_macro_args work (i + 1) = Some (args, next)"
  shows "n \<in> settled_names (step_state s (expand_function work out i tok name params replacement variadic args next st))"
  using assms(1,2) warn_reads_only [of st "tok_line tok"] expand_function_returns [OF assms(3), of out tok name params replacement variadic st]
  by (auto simp: expand_function_def Let_def reads_only_def split: option.split if_splits)

lemma cond_step_same:
  assumes "agree_on (settled_names (step_state st (cond_step H work out i st))) st t" "ps_cache_frames st \<noteq> []"
  shows "same_step (cond_step H work out i st) (cond_step H work out i t)"
proof (cases "tok_kind (work ! i)")
  case (Identifier name)
  let ?tok = "work ! i"
  consider (def) "name = str ''defined''" | (line) "name = str ''__LINE__''"
    | (ident) "name \<noteq> str ''defined''" "name \<noteq> str ''__LINE__''" by blast
  then show ?thesis
  proof cases
    case def
    have "is_bound n st = is_bound n t" if "fst (defined_operand work i) = Some n" for n
      using that assms(1) Identifier def is_defined_settles [OF assms(2), of n H]
      by (simp add: cond_step_def resolve_defined_def case_prod_beta agree_on_def is_bound_def Let_def)
    then show ?thesis using Identifier def is_defined_value [of H]
      by (auto simp: cond_step_def resolve_defined_def case_prod_beta Let_def split: option.split)
  next
    case line
    then show ?thesis using Identifier by (simp add: cond_step_def Let_def)
  next
    case ident
    then have c: "cond_step H work out i s = expand_name H work out i ?tok name s" for s using Identifier by (simp add: cond_step_def)
    show ?thesis
    proof (cases "is_hidden name ?tok")
      case True
      then show ?thesis unfolding c by (simp add: expand_name_def)
    next
      case False
      let ?st = "record_read H name st" and ?t = "record_read H name t"
      have env: "ps_macros ?st = ps_macros st" "ps_fallback_macros ?st = ps_fallback_macros st"
        "ps_macros ?t = ps_macros t" "ps_fallback_macros ?t = ps_fallback_macros t"
        using record_read_reads_only [of st H name] record_read_reads_only [of t H name] by (auto simp: reads_only_def)
      have frames: "ps_cache_frames ?st \<noteq> []" using assms(2) record_read_reads_only [of st H name] by (auto simp: reads_only_def)
      have "name \<in> settled_names (step_state st (expand_name H work out i ?tok name st))"
        using record_read_settles [OF assms(2), of name H] False frames
        by (auto simp: expand_name_def Let_def intro: expand_function_settled split: option.split MacroDef.split)
      then have "ps_macros t name = ps_macros st name" "name \<in> ps_fallback_macros t \<longleftrightarrow> name \<in> ps_fallback_macros st"
        using assms(1) unfolding c by (auto simp: agree_on_def)
      then show ?thesis unfolding c using False env expand_function_same
        by (auto simp: expand_name_def Let_def split: option.split MacroDef.split)
    qed
  qed
qed (simp_all add: cond_step_def)

lemma cond_loop_same:
  "cond_loop H work out i steps st = Some (r, st') \<Longrightarrow> agree_on (settled_names st') st t \<Longrightarrow> ps_cache_frames st \<noteq> [] \<Longrightarrow>
     \<exists>t'. cond_loop H work out i steps t = Some (r, t')"
proof (induction H work out i steps st arbitrary: t rule: cond_loop.induct)
  case (1 H work out i steps st)
  show ?case
  proof (cases "\<not> i < length work \<or> steps + 1 > MAX_STEPS \<or> length work > MAX_TOKENS \<or> length out > MAX_TOKENS")
    case True
    then show ?thesis using 1(2) by (subst (asm) cond_loop.simps, subst cond_loop.simps) (auto split: if_splits)
  next
    case False
    then have go: "cond_loop H work out i steps s =
        (case cond_step H work out i s of
           Continue work' out' i' st' \<Rightarrow> cond_loop H work' out' i' (steps + 1) st' | OverBudget st' \<Rightarrow> Some (None, st') | Panic \<Rightarrow> None)" for s
      by (subst cond_loop.simps) simp
    note ro = cond_step_reads_only [of st H work out i]
    show ?thesis
    proof (cases "cond_step H work out i st")
      case (Continue work' out' i' s)
      have loop: "cond_loop H work' out' i' (steps + 1) s = Some (r, st')" using 1(2) go Continue by simp
      have frames: "ps_cache_frames s \<noteq> []" using ro 1(4) Continue by (auto simp: reads_only_def)
      have "settled_names s \<subseteq> settled_names st'" using cond_loop_reads_only [OF loop] frames by (simp add: reads_only_def)
      then have "agree_on (settled_names (step_state st (cond_step H work out i st))) st t" using 1(3) Continue by (auto intro: agree_on_mono)
      from cond_step_same [OF this 1(4)] obtain s' where s': "cond_step H work out i t = Continue work' out' i' s'" using Continue by auto
      have "agree_on (settled_names st') s s'"
        using agree_on_reads [OF 1(3)] ro Continue cond_step_reads_only [of t H work out i] s' by simp
      then show ?thesis using 1(1) [of work' out' i' s s'] False Continue loop frames go [of t] s' by auto
    next
      case (OverBudget s)
      then have st': "st' = s" "r = None" using 1(2) go by auto
      then obtain s' where "cond_step H work out i t = OverBudget s'" using cond_step_same [of st H work out i t] 1(3,4) OverBudget by auto
      then show ?thesis using go [of t] st' by simp
    qed (use 1(2) go in simp)
  qed
qed

text \<open>C24: what a cached header's fingerprint records of a condition is enough to replay it: a state that agrees with the recording run on the
  names its innermost frame has settled (read, or bound by the header itself) expands the condition to the same tokens, or exceeds the
  same budget. So a name missing from the record, bound or unbound anyhow in another unit, cannot change the condition's value.
\<close>

theorem condition_depends_on_recorded_reads:
  assumes "expand_condition_tokens H toks st = Some (r, st')" "ps_cache_frames st \<noteq> []"
    and "\<forall>n \<in> settled_names st'. ps_macros t n = ps_macros st n \<and> (n \<in> ps_fallback_macros t \<longleftrightarrow> n \<in> ps_fallback_macros st)"
  shows "\<exists>t'. expand_condition_tokens H toks t = Some (r, t')"
  using cond_loop_same [of H toks "[]" 0 0 st r st' t] assms by (simp add: expand_condition_tokens_def agree_on_def)

definition sample_env :: PreprocessorState where
  "sample_env = open_frame False (empty_state\<lparr>ps_macros := [str ''N'' \<mapsto> MacroObject [Token_new (Number (str ''1'')) 1 11]]\<rparr>)"

definition sample_condition :: "Token list" where
  "sample_condition = map (\<lambda>k. Token_new k 2 5)
     [Identifier (str ''N''), Punct (str ''&&''), Identifier (str ''defined''), Identifier (str ''M'')]"

lemmas cond_eval = cond_loop.simps cond_step_def expand_name_def resolve_defined_def defined_operand_def ident_name_def is_defined_for_conditionals_def record_read_def
  note_cond_read_def binding_hash_def innermost_settled_def is_bound_def is_hidden_def tok_hidden_def paint_replacement_def settle_def add_dep_def
  set_insert_def MAX_STEPS_def MAX_TOKENS_def Let_def Token_new_def is_alternative_token_def is_punct_def

lemma sample_expands:
  "map_option (\<lambda>(r, st'). (map_option (map tok_kind) r, settled_names st' = {str ''N'', str ''M''})) (expand_condition_tokens (\<lambda>_. 7) sample_condition sample_env)
    = Some (Some [Number (str ''1''), Punct (str ''&&''), Number (str ''0'')], True)"
  unfolding expand_condition_tokens_def sample_condition_def
  by (simp add: cond_eval sample_env_def empty_state_def open_frame_def) (auto simp: settled_names_def)

theorem condition_depends_on_recorded_reads_witness:
  "\<exists>r t'. expand_condition_tokens (\<lambda>_. 7) sample_condition (sample_env\<lparr>ps_macros := (ps_macros sample_env)(str ''Z'' \<mapsto> GmockMethod)\<rparr>) = Some (r, t') \<and>
     map_option (map tok_kind) r = Some [Number (str ''1''), Punct (str ''&&''), Number (str ''0'')]"
proof -
  obtain r st' where e: "expand_condition_tokens (\<lambda>_. 7) sample_condition sample_env = Some (r, st')"
    "map_option (map tok_kind) r = Some [Number (str ''1''), Punct (str ''&&''), Number (str ''0'')]" "settled_names st' = {str ''N'', str ''M''}"
    using sample_expands by auto
  have "ps_cache_frames sample_env \<noteq> []" by (simp add: sample_env_def open_frame_def)
  then show ?thesis
    using condition_depends_on_recorded_reads [OF e(1), of "sample_env\<lparr>ps_macros := (ps_macros sample_env)(str ''Z'' \<mapsto> GmockMethod)\<rparr>"] e(2,3) by auto
qed

section \<open>Two conditions that differ from C\<close>

text \<open>
  Pasting always makes an identifier, so a pasted number is not a number: with \<^verbatim>\<open>#define CAT(a, b) a ## b\<close>, \<^verbatim>\<open>#if CAT(1, 0)\<close> closes its
  branch, where C reads 10.
\<close>

lemma lone_identifier_is_zero:
  assumes "tok_kind tok = Identifier name" "name \<noteq> str ''true''"
  shows "\<not> eval_pp_tokens [tok]"
  using printed_expression_value [of "Lit (Identifier name)" "[tok]" False] assms
  by (simp add: eval_pp_tokens_def from_bool_def truthy_def PpVal_signed_def)

definition cat_body :: "Token list" where
  "cat_body = map (\<lambda>k. Token_new k 1 1) [Identifier (str ''a''), Punct (str ''##''), Identifier (str ''b'')]"

definition cat_state :: PreprocessorState where
  "cat_state = empty_state\<lparr>ps_macros := [str ''CAT'' \<mapsto> MacroFunction [str ''a'', str ''b''] cat_body False]\<rparr>"

definition cat_condition :: "Token list" where
  "cat_condition = map (\<lambda>k. Token_new k 1 1)
     [Identifier (str ''CAT''), Punct (str ''(''), Number (str ''1''), Punct (str '',''), Number (str ''0''), Punct (str '')'')]"

lemma cat_pastes:
  "\<exists>p. map_option apply_concatenation (substitute_macro (str ''CAT'') tok cat_body [str ''a'', str ''b'']
     \<lparr>ma_args = [[Token_new (Number (str ''1'')) 1 1], [Token_new (Number (str ''0'')) 1 1]], ma_separators = [sep]\<rparr> None False) = Some [p] \<and>
     tok_kind p = Identifier (str ''10'')"
  by (simp add: cat_body_def sub_eval arg_is_blank_def is_gnu_comma_paste_def apply_concatenation.simps paste_two_tokens_def case_prod_beta)
    (simp add: str_def)

lemma cat_step: "\<exists>p st. cond_step H cat_condition [] 0 cat_state = Continue [p] [] 0 st \<and> tok_kind p = Identifier (str ''10'') \<and> reads_only cat_state st"
proof -
  let ?args = "\<lparr>ma_args = [[Token_new (Number (str ''1'')) 1 1], [Token_new (Number (str ''0'')) 1 1]], ma_separators = [Token_new (Punct (str '','')) 1 1]\<rparr>"
  let ?tok = "Token_new (Identifier (str ''CAT'')) 1 1"
  let ?st = "record_read H (str ''CAT'') cat_state"
  have env: "ps_macros ?st = ps_macros cat_state" "ps_fallback_macros ?st = ps_fallback_macros cat_state"
    using record_read_reads_only [of cat_state H "str ''CAT''"] by (auto simp: reads_only_def)
  have args: "parse_cond_macro_args cat_condition 1 = Some (?args, 6)"
    by (simp add: cat_condition_def parse_cond_macro_args_def is_punct_def Token_new_def)
  have proj: "projected_substitution_len cat_body [str ''a'', str ''b''] ?args False = 3"
    by (simp add: cat_body_def projected_substitution_len_def projected_width_def param_of_def Token_new_def is_variadic_tail_def arg_tokens_def saturating_add_def)
  obtain p sub where p: "substitute_macro (str ''CAT'') ?tok cat_body [str ''a'', str ''b''] ?args None False = Some sub"
    "apply_concatenation sub = [p]" "tok_kind p = Identifier (str ''10'')" using cat_pastes by blast
  have "expand_function cat_condition [] 0 ?tok (str ''CAT'') [str ''a'', str ''b''] cat_body False ?args 6 ?st = Continue [p] [] 0 ?st"
    using p proj by (simp add: expand_function_def saturating_add_def MAX_TOKENS_def cat_condition_def)
  moreover have "cat_condition ! 0 = ?tok" by (simp add: cat_condition_def)
  ultimately have "cond_step H cat_condition [] 0 cat_state = Continue [p] [] 0 ?st"
    using env args by (simp add: cond_step_def expand_name_def Token_new_def is_hidden_def tok_hidden_def cat_state_def empty_state_def Let_def)
  then show ?thesis using p(3) record_read_reads_only by blast
qed

theorem pasted_number_is_zero: "\<exists>st. expand_and_eval_condition H cat_condition 0 cat_state = Some (False, 6, st)"
proof -
  obtain p s1 where s1: "cond_step H cat_condition [] 0 cat_state = Continue [p] [] 0 s1" "tok_kind p = Identifier (str ''10'')" "reads_only cat_state s1"
    using cat_step by blast
  have "\<exists>s2. cond_step H [p] [] 0 s1 = Continue [p] [p] 1 s2"
    using s1(2,3) record_read_reads_only [of s1 H "str ''10''"]
    by (cases "is_hidden (str ''10'') p") (simp_all add: cond_step_def expand_name_def cat_state_def empty_state_def reads_only_def Let_def)
  then obtain s2 where s2: "cond_step H [p] [] 0 s1 = Continue [p] [p] 1 s2" by blast
  have "cond_loop H cat_condition [] 0 0 cat_state = Some (Some [p], s2)"
    using s1(1) s2 by (subst cond_loop.simps, simp, subst cond_loop.simps, simp, subst cond_loop.simps)
      (simp add: MAX_STEPS_def MAX_TOKENS_def cat_condition_def)
  moreover have "skip_directive_line cat_condition 0 = 6" "drop 0 (take 6 cat_condition) = cat_condition"
    by (simp_all add: skip_directive_line_def cat_condition_def ends_line_def Token_new_def)
  ultimately show ?thesis using lone_identifier_is_zero [OF s1(2)]
    by (simp add: eval_condition_within expand_condition_tokens_def)
qed

text \<open>\<^verbatim>\<open>#define A(x) x(x)\<close>: conditions substitute arguments unpainted, so \<^verbatim>\<open>A(A)\<close> is its own expansion.\<close>

definition self_apply :: MacroDef where
  "self_apply = MacroFunction [str ''x''] (map (\<lambda>k. Token_new k 1 1) [Identifier (str ''x''), Punct (str ''(''), Identifier (str ''x''), Punct (str '')'')]) False"

definition applies_itself :: "Token list \<Rightarrow> bool" where
  "applies_itself work \<longleftrightarrow>
     map tok_kind work = [Punct (str ''!''), Identifier (str ''A''), Punct (str ''(''), Identifier (str ''A''), Punct (str '')'')] \<and>
     \<not> is_hidden (str ''A'') (work ! 1) \<and> \<not> is_hidden (str ''A'') (work ! 3)"

lemma hidden_unpainted: "is_hidden n (with_substitution_provenance t o1 m p None) = is_hidden n t"
  by (auto simp: is_hidden_def tok_hidden_def with_substitution_provenance_def macro_prov_mut_def TokenMacroProvenance_default_def Let_def split: option.split)

lemma self_apply_substitutes:
  assumes "tok_kind arg = Identifier (str ''A'')"
  shows "\<exists>p1 p2 o1 o2. substitute_macro (str ''A'') tok (map (\<lambda>k. Token_new k 1 1) [Identifier (str ''x''), Punct (str ''(''), Identifier (str ''x''), Punct (str '')'')])
      [str ''x''] \<lparr>ma_args = [[arg]], ma_separators = []\<rparr> None False = Some [p1, o1, p2, o2] \<and>
    tok_kind p1 = tok_kind arg \<and> tok_kind p2 = tok_kind arg \<and> tok_kind o1 = Punct (str ''('') \<and> tok_kind o2 = Punct (str '')'') \<and>
    is_hidden n p1 = is_hidden n arg \<and> is_hidden n p2 = is_hidden n arg"
  using assms
  by (simp add: substitute_macro_def sub_loop.simps sub_defs Let_def concat_width_at_def concat_width_after_def is_punct_def Token_new_def param_at_def param_of_def
    collected_def is_variadic_tail_def arg_tokens_def parameter_is_pasted_or_stringized_def is_newline_def push_substituted_def hidden_unpainted)

lemma self_apply_step:
  assumes "applies_itself work" "ps_macros st (str ''A'') = Some self_apply" "str ''A'' \<notin> ps_fallback_macros st"
  shows "\<exists>work' st'. cond_step H work out 1 st = Continue work' out 1 st' \<and> applies_itself work' \<and> reads_only st st'"
proof -
  obtain b a1 op a2 cl where w: "work = [b, a1, op, a2, cl]" using assms(1) by (auto simp: applies_itself_def map_eq_Cons_conv)
  have k: "tok_kind b = Punct (str ''!'')" "tok_kind a1 = Identifier (str ''A'')" "tok_kind op = Punct (str ''('')"
    "tok_kind a2 = Identifier (str ''A'')" "tok_kind cl = Punct (str '')'')" and h: "\<not> is_hidden (str ''A'') a1" "\<not> is_hidden (str ''A'') a2"
    using assms(1) w by (simp_all add: applies_itself_def)
  let ?st = "record_read H (str ''A'') st"
  let ?args = "\<lparr>ma_args = [[a2]], ma_separators = []\<rparr>"
  have env: "ps_macros ?st = ps_macros st" "ps_fallback_macros ?st = ps_fallback_macros st"
    using record_read_reads_only [of st H "str ''A''"] by (auto simp: reads_only_def)
  have args: "parse_cond_macro_args work (1 + 1) = Some (?args, 5)" using k by (simp add: w parse_cond_macro_args_def is_punct_def)
  let ?body = "map (\<lambda>k. Token_new k 1 1) [Identifier (str ''x''), Punct (str ''(''), Identifier (str ''x''), Punct (str '')'')]"
  have proj: "projected_substitution_len ?body [str ''x''] ?args False = 4"
    by (simp add: projected_substitution_len_def projected_width_def param_of_def Token_new_def is_variadic_tail_def arg_tokens_def saturating_add_def)
  obtain p1 p2 o1 o2 where sub: "substitute_macro (str ''A'') a1 ?body [str ''x''] ?args None False = Some [p1, o1, p2, o2]"
    "tok_kind p1 = tok_kind a2" "tok_kind p2 = tok_kind a2" "tok_kind o1 = Punct (str ''('')" "tok_kind o2 = Punct (str '')'')"
    "\<not> is_hidden (str ''A'') p1" "\<not> is_hidden (str ''A'') p2" using self_apply_substitutes [OF k(4), of a1 "str ''A''"] h(2) by blast
  have "apply_concatenation [p1, o1, p2, o2] = [p1, o1, p2, o2]"
    using sub k by (intro apply_concatenation_operands) (simp add: is_operand_def)
  then have "expand_function work out 1 a1 (str ''A'') [str ''x''] ?body False ?args 5 ?st = Continue [b, p1, o1, p2, o2] out 1 ?st"
    using proj sub(1) by (simp add: expand_function_def w saturating_add_def MAX_TOKENS_def)
  then have "cond_step H work out 1 st = Continue [b, p1, o1, p2, o2] out 1 ?st"
    using k h assms(2,3) env args by (simp add: cond_step_def expand_name_def w self_apply_def Let_def)
  moreover have "applies_itself [b, p1, o1, p2, o2]" using sub k by (simp add: applies_itself_def)
  ultimately show ?thesis using record_read_reads_only by blast
qed

lemma self_apply_loop:
  assumes "applies_itself work" "ps_macros st (str ''A'') = Some self_apply" "str ''A'' \<notin> ps_fallback_macros st" "length out \<le> MAX_TOKENS"
  shows "\<exists>st'. cond_loop H work out 1 steps st = Some (None, st')"
  using assms
proof (induction "MAX_STEPS - steps" arbitrary: steps work st)
  case 0
  then have "1 < length work" by (auto simp: applies_itself_def dest: arg_cong [of _ _ length])
  then show ?case using 0 by (subst cond_loop.simps) simp
next
  case (Suc d)
  have len: "length work = 5" using Suc.prems(1) by (auto simp: applies_itself_def dest: arg_cong [of _ _ length])
  obtain work' st' where s: "cond_step H work out 1 st = Continue work' out 1 st'" "applies_itself work'" "reads_only st st'"
    using self_apply_step [OF Suc.prems(1-3)] by blast
  moreover have "ps_macros st' (str ''A'') = Some self_apply" "str ''A'' \<notin> ps_fallback_macros st'"
    using s(3) Suc.prems by (auto simp: reads_only_def)
  ultimately have "\<exists>st''. cond_loop H work' out 1 (steps + 1) st' = Some (None, st'')" using Suc.hyps(1) [of "steps + 1" work' st'] Suc.hyps(2) Suc.prems(4) by simp
  moreover have more: "steps + 1 \<le> MAX_STEPS" using Suc.hyps(2) by linarith
  moreover have "cond_loop H work out 1 steps st = cond_loop H work' out 1 (steps + 1) st'"
    using s(1) len Suc.prems(4) more by (subst cond_loop.simps) (simp add: MAX_TOKENS_def)
  ultimately show ?case by simp
qed

text \<open>
  A function-like macro applied to its own name in a condition is stopped by the budget, not by its hide set: with
  \<^verbatim>\<open>#define A(x) x(x)\<close> the condition \<^verbatim>\<open>!A(A)\<close> expands forever, so after the step budget the branch is closed, although C stops at the second
  \<^verbatim>\<open>A\<close>, reads both as 0 and opens it.
\<close>

theorem self_application_exhausts_budget:
  assumes "applies_itself toks" "ps_macros st (str ''A'') = Some self_apply" "str ''A'' \<notin> ps_fallback_macros st"
  shows "\<exists>st'. expand_condition_tokens H toks st = Some (None, st')"
proof -
  obtain b ts where t: "toks = b # ts" "tok_kind b = Punct (str ''!'')" "length ts = 4"
    using assms(1) by (auto simp: applies_itself_def map_eq_Cons_conv)
  have "cond_loop H toks [] 0 0 st = cond_loop H toks [b] 1 1 st"
    using t by (subst cond_loop.simps) (simp add: cond_step_def MAX_STEPS_def MAX_TOKENS_def)
  then show ?thesis using self_apply_loop [OF assms, of "[b]" H 1] by (simp add: expand_condition_tokens_def MAX_TOKENS_def)
qed

theorem self_application_exhausts_budget_witness:
  "\<exists>st'. expand_condition_tokens (\<lambda>_. 7)
     (map (\<lambda>k. Token_new k 2 5) [Punct (str ''!''), Identifier (str ''A''), Punct (str ''(''), Identifier (str ''A''), Punct (str '')'')])
     (empty_state\<lparr>ps_macros := [str ''A'' \<mapsto> self_apply]\<rparr>) = Some (None, st')"
  by (rule self_application_exhausts_budget)
    (simp_all add: applies_itself_def Token_new_def is_hidden_def tok_hidden_def empty_state_def)

end
