(* ===== verification/Pp_Cond.thy ===== *)
theory Pp_Cond
  imports Pp_Condition
begin

text \<open>
  Conditional compilation (\<^verbatim>\<open>handle_directive\<close> and the conditional stack of \<^verbatim>\<open>trace-preproc/src/preprocessor.rs\<close>, with the chains it records,
  \<^verbatim>\<open>conditionals.rs\<close>). A directive returns the position it stopped at and the state, or the error that aborts the file; \<open>DPanic\<close> is an
  index or a slice out of range, or a depth below zero. The innermost frame comes last, as in the code. Directives with handlers of their own (\<^verbatim>\<open>#include\<close>, \<^verbatim>\<open>#define\<close>, \<^verbatim>\<open>#pragma\<close>) return
  the call they make. The file system's canonical path of a file is the parameter \<open>canon\<close>.
\<close>

section \<open>The stack\<close>

definition is_active :: "PreprocessorState \<Rightarrow> bool" where
  "is_active st \<longleftrightarrow> ps_conditional_stack st = [] \<or> fr_active (last (ps_conditional_stack st))"

definition has_own_cond :: "PreprocessorState \<Rightarrow> bool" where
  "has_own_cond st \<longleftrightarrow> length (ps_conditional_stack st) > ps_cond_base st"

definition push_cond :: "bool \<Rightarrow> nat \<Rightarrow> nat option \<Rightarrow> PreprocessorState \<Rightarrow> PreprocessorState" where
  "push_cond cond line chain st =
     (let parent_active = is_active st; active = parent_active \<and> cond
      in st\<lparr>ps_conditional_stack := ps_conditional_stack st @
           [\<lparr>fr_parent_active = parent_active, fr_active = active, fr_taken = active, fr_else_seen = False, fr_line = line, fr_chain = chain\<rparr>]\<rparr>)"

section \<open>Recording\<close>

definition begin_reads :: "PreprocessorState \<Rightarrow> PreprocessorState" where
  "begin_reads st = (if ps_record_conditionals st then st\<lparr>ps_cond_reads := Some []\<rparr> else st)"

definition end_reads :: "PreprocessorState \<Rightarrow> ConditionRead list \<times> PreprocessorState" where
  "end_reads st = (dedup_reads (case ps_cond_reads st of Some r \<Rightarrow> r | None \<Rightarrow> []), st\<lparr>ps_cond_reads := None\<rparr>)"

text \<open>\<open>None\<close> outside is the panic of a depth below zero, when the file's base is above the stack.\<close>

definition open_chain :: "(ustring \<Rightarrow> ustring) \<Rightarrow> ConditionalArm \<Rightarrow> PreprocessorState \<Rightarrow> (nat option \<times> PreprocessorState) option" where
  "open_chain canon arm st =
     (if \<not> ps_record_conditionals st then Some (None, st)
      else if length (ps_conditional_stack st) < ps_cond_base st then None
      else Some
        (Some (length (ps_conditionals st)),
         st\<lparr>ps_conditionals := ps_conditionals st @
           [\<lparr>cc_file = canon (ps_current_file st), cc_arms = [arm], cc_depth = length (ps_conditional_stack st) - ps_cond_base st,
             cc_terminated = False, cc_include_guard = False\<rparr>]\<rparr>))"

definition update_chain :: "nat option \<Rightarrow> (ConditionalChain \<Rightarrow> ConditionalChain) \<Rightarrow> PreprocessorState \<Rightarrow> PreprocessorState option" where
  "update_chain chain f st =
     (case chain of
        None \<Rightarrow> Some st
      | Some c \<Rightarrow> map_option (\<lambda>cs. st\<lparr>ps_conditionals := cs\<rparr>) (Option.bind (vget (ps_conditionals st) c) (\<lambda>k. vset (ps_conditionals st) c (f k))))"

definition end_last_arm :: "nat \<Rightarrow> ConditionalChain \<Rightarrow> ConditionalChain" where
  "end_last_arm line k =
     (if cc_arms k = [] then k else k\<lparr>cc_arms := butlast (cc_arms k) @ [(last (cc_arms k))\<lparr>arm_end_line := line\<rparr>]\<rparr>)"

definition close_arm :: "nat option \<Rightarrow> nat \<Rightarrow> PreprocessorState \<Rightarrow> PreprocessorState option" where
  "close_arm chain line st = update_chain chain (end_last_arm line) st"

definition add_arm :: "nat option \<Rightarrow> nat \<Rightarrow> ConditionalArm \<Rightarrow> PreprocessorState \<Rightarrow> PreprocessorState option" where
  "add_arm chain line arm st = Option.bind (close_arm chain line st) (update_chain chain (\<lambda>k. k\<lparr>cc_arms := cc_arms k @ [arm]\<rparr>))"

definition mark_include_guard :: "nat option \<Rightarrow> Token list \<Rightarrow> nat \<Rightarrow> PreprocessorState \<Rightarrow> PreprocessorState option" where
  "mark_include_guard chain tokens start st =
     (if chain = None \<or> \<not> ps_guarded_file st then Some st
      else if ps_conditional_stack st = [] then None
      else if length (ps_conditional_stack st) - 1 \<noteq> ps_cond_base st then Some st
      else do {
        before \<leftarrow> vslice tokens 0 start;
        if list_all is_newline before then update_chain chain (\<lambda>k. k\<lparr>cc_include_guard := True\<rparr>) st else Some st
      })"

definition arm_outcome :: "bool \<Rightarrow> bool \<Rightarrow> ArmOutcome" where
  "arm_outcome evaluated taken = (if \<not> evaluated then Unevaluated else if taken then Taken else Skipped)"

definition mk_arm :: "ArmDirective \<Rightarrow> ustring \<Rightarrow> nat \<Rightarrow> ArmOutcome \<Rightarrow> bool \<Rightarrow> ConditionRead list \<Rightarrow> ConditionalArm" where
  "mk_arm directive expression line outcome evaluated reads =
     \<lparr>arm_directive = directive, arm_expression = expression, arm_line = line, arm_end_line = line, arm_outcome_of = outcome,
      arm_evaluated = evaluated, arm_reads = reads\<rparr>"

definition body_lines :: "ConditionalArm \<Rightarrow> nat" where
  "body_lines arm = arm_end_line arm - arm_line arm - 1"

section \<open>Directives\<close>

datatype Directed =
    DNext nat PreprocessorState
  | DError ustring PreprocessorState
  | DInclude nat PreprocessorState
  | DDefine nat PreprocessorState
  | DPragma nat PreprocessorState
  | DPanic

definition directive_error :: "nat \<Rightarrow> ustring \<Rightarrow> PreprocessorState \<Rightarrow> Directed" where
  "directive_error line message st = DError message (report SevError line message st)"

definition skip_newlines :: "Token list \<Rightarrow> nat \<Rightarrow> nat" where
  "skip_newlines tokens i = i + length (takeWhile (\<lambda>t. tok_kind t = Newline) (drop i tokens))"

definition skip_to_newline :: "Token list \<Rightarrow> nat \<Rightarrow> nat" where
  "skip_to_newline tokens i =
     (let j = i + length (takeWhile (\<lambda>t. \<not> is_newline t \<and> \<not> is_eof t) (drop i tokens))
      in if j < length tokens \<and> is_newline (tokens ! j) then j + 1 else j)"

definition read_directive_ident :: "Token list \<Rightarrow> nat \<Rightarrow> (ustring \<times> nat) option" where
  "read_directive_ident tokens i =
     (let j = skip_newlines tokens i
      in if j < length tokens then map_option (\<lambda>name. (name, j + 1)) (ident_name (tokens ! j)) else None)"

definition after :: "PreprocessorState option \<Rightarrow> nat \<Rightarrow> Directed" where
  "after r i = (case r of None \<Rightarrow> DPanic | Some st \<Rightarrow> DNext i st)"

definition handle_ifdef ::
  "(HashItem list \<Rightarrow> 64 word) \<Rightarrow> (ustring \<Rightarrow> ustring) \<Rightarrow> Token list \<Rightarrow> nat \<Rightarrow> nat \<Rightarrow> nat \<Rightarrow> nat \<Rightarrow> bool \<Rightarrow> PreprocessorState \<Rightarrow> Directed" where
  "handle_ifdef H canon tokens start i line record_line negate st =
     (let directive = (if negate then ArmIfndef else ArmIfdef)
      in if is_active st then
           (case read_directive_ident tokens i of
              None \<Rightarrow>
                (let j = skip_newlines tokens i
                 in directive_error (if j < length tokens then tok_line (tokens ! j) else 1) (str ''expected identifier in directive'') st)
            | Some (name, i1) \<Rightarrow>
                (let (def, st1) = is_defined_for_conditionals H name (begin_reads st);
                     (reads, st2) = end_reads st1;
                     cond = (def \<noteq> negate)
                 in case open_chain canon (mk_arm directive name record_line (arm_outcome True cond) True reads) st2 of
                      None \<Rightarrow> DPanic
                    | Some (chain, st3) \<Rightarrow>
                        (let st4 = push_cond cond line chain st3
                         in after (if negate then mark_include_guard chain tokens start st4 else Some st4) i1)))
         else
           (let rest = directive_rest tokens i;
                operand = take (min (length rest) 1) rest
            in case open_chain canon
                  (mk_arm directive (case operand of [] \<Rightarrow> [] | t # _ \<Rightarrow> (case ident_name t of Some n \<Rightarrow> n | None \<Rightarrow> [])) record_line Unevaluated False
                    (map (\<lambda>n. \<lparr>cr_name = n, cr_bound = None\<rparr>) (List.map_filter ident_name operand))) st of
                 None \<Rightarrow> DPanic
               | Some (chain, st1) \<Rightarrow> DNext i (push_cond False line chain st1)))"

text \<open>The condition of \<^verbatim>\<open>#if\<close> and \<^verbatim>\<open>#elif\<close>: evaluated, or skipped to the end of the line, with the reads it made or spells.\<close>

definition controlling ::
  "(HashItem list \<Rightarrow> 64 word) \<Rightarrow> bool \<Rightarrow> Token list \<Rightarrow> nat \<Rightarrow> PreprocessorState \<Rightarrow> (bool \<times> nat \<times> Token list \<times> ConditionRead list \<times> PreprocessorState) option" where
  "controlling H evaluate tokens i st =
     do {
       (cond, j, st1) \<leftarrow> (if evaluate then expand_and_eval_condition H tokens i (begin_reads st) else Some (False, skip_directive_line tokens i, st));
       expr \<leftarrow> vslice tokens i j;
       let (reads, st2) = end_reads st1;
       Some (cond, j, expr, if evaluate then reads else spelled_reads expr, st2)
     }"

definition handle_if ::
  "(HashItem list \<Rightarrow> 64 word) \<Rightarrow> (ustring \<Rightarrow> ustring) \<Rightarrow> Token list \<Rightarrow> nat \<Rightarrow> nat \<Rightarrow> nat \<Rightarrow> nat \<Rightarrow> PreprocessorState \<Rightarrow> Directed" where
  "handle_if H canon tokens start i line record_line st =
     (let evaluate = is_active st
      in case controlling H evaluate tokens i st of
           None \<Rightarrow> DPanic
         | Some (cond, j, expr, reads, st1) \<Rightarrow>
             (case open_chain canon (mk_arm ArmIf (spell_condition expr) record_line (arm_outcome evaluate cond) evaluate reads) st1 of
                None \<Rightarrow> DPanic
              | Some (chain, st2) \<Rightarrow>
                  (let st3 = push_cond cond line chain st2
                   in after (if evaluate \<and> negated_defined_name expr \<noteq> None then mark_include_guard chain tokens start st3 else Some st3) j)))"

definition set_top :: "(CondFrame \<Rightarrow> CondFrame) \<Rightarrow> PreprocessorState \<Rightarrow> PreprocessorState" where
  "set_top f st = st\<lparr>ps_conditional_stack := butlast (ps_conditional_stack st) @ [f (last (ps_conditional_stack st))]\<rparr>"

definition handle_elif ::
  "(HashItem list \<Rightarrow> 64 word) \<Rightarrow> Token list \<Rightarrow> nat \<Rightarrow> nat \<Rightarrow> nat \<Rightarrow> PreprocessorState \<Rightarrow> Directed" where
  "handle_elif H tokens i line record_line st =
     (if \<not> has_own_cond st then directive_error line (str ''#elif without #if'') st
      else
        (let frame = last (ps_conditional_stack st);
             evaluate = (fr_parent_active frame \<and> \<not> fr_taken frame \<and> \<not> fr_else_seen frame)
         in case controlling H evaluate tokens i st of
              None \<Rightarrow> DPanic
            | Some (cond, j, expr, reads, st1) \<Rightarrow>
                (let st2 = (if fr_else_seen frame then warn line (str ''#elif after #else; branch ignored'') st1 else st1);
                     top = last (ps_conditional_stack st2);
                     active = (fr_parent_active top \<and> \<not> fr_taken top \<and> cond);
                     st3 = set_top (\<lambda>f. f\<lparr>fr_active := active, fr_taken := fr_taken f \<or> active\<rparr>) st2
                 in after (add_arm (fr_chain frame) record_line
                      (mk_arm ArmElif (spell_condition expr) record_line (arm_outcome (fr_parent_active frame) active) evaluate reads) st3) j)))"

definition handle_else :: "nat \<Rightarrow> nat \<Rightarrow> nat \<Rightarrow> PreprocessorState \<Rightarrow> Directed" where
  "handle_else i line record_line st =
     (if \<not> has_own_cond st then directive_error line (str ''#else without #if'') st
      else
        (let f = last (ps_conditional_stack st);
             active = (fr_parent_active f \<and> \<not> fr_taken f);
             st1 = set_top (\<lambda>f. f\<lparr>fr_active := active, fr_taken := True, fr_else_seen := True\<rparr>) st
         in after (add_arm (fr_chain f) record_line
              (mk_arm ArmElse [] record_line (arm_outcome (fr_parent_active f) active) False []) st1) i))"

definition handle_endif :: "nat \<Rightarrow> nat \<Rightarrow> nat \<Rightarrow> PreprocessorState \<Rightarrow> Directed" where
  "handle_endif i line record_line st =
     (if \<not> has_own_cond st then directive_error line (str ''#endif without #if'') st
      else
        (let frame = last (ps_conditional_stack st); st1 = st\<lparr>ps_conditional_stack := butlast (ps_conditional_stack st)\<rparr>
         in after (Option.bind (close_arm (fr_chain frame) record_line st1)
              (update_chain (fr_chain frame) (\<lambda>k. k\<lparr>cc_terminated := True\<rparr>))) i))"

definition finish_line :: "Token list \<Rightarrow> Directed \<Rightarrow> Directed" where
  "finish_line tokens r = (case r of DNext i st \<Rightarrow> DNext (skip_to_newline tokens i) st | _ \<Rightarrow> r)"

text \<open>\<open>char::is_whitespace\<close> and \<open>str::trim\<close>.\<close>

definition is_whitespace :: "uchar \<Rightarrow> bool" where
  "is_whitespace c \<longleftrightarrow> 9 \<le> c \<and> c \<le> 13 \<or> 0x2000 \<le> c \<and> c \<le> 0x200A \<or>
     c \<in> {0x20, 0x85, 0xA0, 0x1680, 0x2028, 0x2029, 0x202F, 0x205F, 0x3000}"

definition trim_end :: "ustring \<Rightarrow> ustring" where
  "trim_end s = rev (dropWhile is_whitespace (rev s))"

definition trim :: "ustring \<Rightarrow> ustring" where
  "trim s = trim_end (dropWhile is_whitespace s)"

definition report_message :: "DiagnosticSeverity \<Rightarrow> ustring \<Rightarrow> Token list \<Rightarrow> nat \<Rightarrow> nat \<Rightarrow> PreprocessorState \<Rightarrow> PreprocessorState" where
  "report_message severity directive tokens i line st =
     report severity line (trim_end (str ''#'' @ directive @ [32] @ trim (spell_condition (directive_rest tokens i)))) st"

text \<open>
  The dispatch on the directive's name. A directive that a handler of its own processes ends the model's turn with the call; every
  other one goes on to the end of the line.
\<close>

definition dispatch ::
  "(HashItem list \<Rightarrow> 64 word) \<Rightarrow> (ustring \<Rightarrow> ustring) \<Rightarrow> Token list \<Rightarrow> nat \<Rightarrow> nat \<Rightarrow> nat \<Rightarrow> nat \<Rightarrow> ustring \<Rightarrow> PreprocessorState \<Rightarrow> Directed" where
  "dispatch H canon tokens start i line record_line directive st =
     (if directive = str ''include'' \<and> is_active st then DInclude i st
      else if directive = str ''define'' \<and> is_active st then DDefine i st
      else if directive \<in> {str ''include'', str ''define'', str ''undef''} \<and> \<not> is_active st then DNext i st
      else if directive = str ''ifdef'' then handle_ifdef H canon tokens start i line record_line False st
      else if directive = str ''ifndef'' then handle_ifdef H canon tokens start i line record_line True st
      else if directive = str ''if'' then handle_if H canon tokens start i line record_line st
      else if directive = str ''elif'' then handle_elif H tokens i line record_line st
      else if directive = str ''else'' then handle_else i line record_line st
      else if directive = str ''endif'' then handle_endif i line record_line st
      else if directive = str ''line'' then DNext i st
      else if directive = str ''error'' then DNext i (if is_active st then report_message SevError directive tokens i line st else st)
      else if directive = str ''warning'' then DNext i (if is_active st then report_message SevWarning directive tokens i line st else st)
      else if directive = str ''pragma'' then (if is_active st then DPragma i st else DNext i st)
      else if directive = str ''undef'' then
        (case read_directive_ident tokens i of
           None \<Rightarrow>
             (let j = skip_newlines tokens i
              in directive_error (if j < length tokens then tok_line (tokens ! j) else 1) (str ''expected identifier in directive'') st)
         | Some (name, i1) \<Rightarrow> DNext i1 (remove_macro name st))
      else if is_active st then DNext i (warn (tok_line (tokens ! (i - 1))) (str ''unknown directive #'' @ directive) st)
      else DNext i st)"

definition handle_directive ::
  "(HashItem list \<Rightarrow> 64 word) \<Rightarrow> (ustring \<Rightarrow> ustring) \<Rightarrow> Token list \<Rightarrow> nat \<Rightarrow> PreprocessorState \<Rightarrow> Directed" where
  "handle_directive H canon tokens start st =
     (let i = skip_newlines tokens (start + 1)
      in if \<not> i < length tokens then DNext i st
         else
           (case tok_kind (tokens ! i) of
              Identifier directive \<Rightarrow>
                finish_line tokens (dispatch H canon tokens start (i + 1) (tok_line (tokens ! i)) (tok_line (tokens ! start)) directive st)
            | _ \<Rightarrow>
                if \<not> is_active st then DNext (skip_directive_line tokens i) st
                else directive_error (tok_line (tokens ! i)) (str ''expected directive name after #'') st))"

end
