(* ===== verification/Pp_Cond_Props.thy ===== *)
theory Pp_Cond_Props
  imports Pp_Cond
begin

text \<open>
  Conditional compilation against its specification. The specification is the structure of a file: text and conditional chains
  (\<^verbatim>\<open>#if\<close> with its \<^verbatim>\<open>#elif\<close> and \<^verbatim>\<open>#else\<close> arms), nested; its meaning runs the text of the first arm whose condition holds, and evaluates no
  condition it does not need. The directives, taken one line at a time over the stack of frames, do the same.
\<close>

section \<open>Files\<close>

datatype 'a line = TextLine 'a | DirectiveLine "Token list" nat

text \<open>The lines of a file in turn: text is processed when the innermost frame is active; an error aborts the file.\<close>

fun run_lines ::
  "(HashItem list \<Rightarrow> 64 word) \<Rightarrow> (ustring \<Rightarrow> ustring) \<Rightarrow> ('a \<Rightarrow> PreprocessorState \<Rightarrow> PreprocessorState) \<Rightarrow> 'a line list \<Rightarrow> PreprocessorState \<Rightarrow>
    PreprocessorState option" where
  "run_lines H canon act [] st = Some st"
| "run_lines H canon act (TextLine a # ls) st = run_lines H canon act ls (if is_active st then act a st else st)"
| "run_lines H canon act (DirectiveLine tokens start # ls) st =
     (case handle_directive H canon tokens start st of DNext i st' \<Rightarrow> run_lines H canon act ls st' | _ \<Rightarrow> None)"

type_synonym occurrence = "Token list \<times> nat"

datatype 'a groups = Done | Text 'a "'a groups" | Chain occurrence "'a groups" "'a arms" "'a groups"
and 'a arms = Endif occurrence | Elif occurrence "'a groups" "'a arms" | Else occurrence "'a groups" occurrence

definition directive_line :: "occurrence \<Rightarrow> 'a line" where
  "directive_line o1 = DirectiveLine (fst o1) (snd o1)"

fun print_groups :: "'a groups \<Rightarrow> 'a line list" and print_arms :: "'a arms \<Rightarrow> 'a line list" where
  "print_groups Done = []"
| "print_groups (Text a g) = TextLine a # print_groups g"
| "print_groups (Chain o1 body arms g) = directive_line o1 # print_groups body @ print_arms arms @ print_groups g"
| "print_arms (Endif o1) = [directive_line o1]"
| "print_arms (Elif o1 body arms) = directive_line o1 # print_groups body @ print_arms arms"
| "print_arms (Else o1 body o2) = directive_line o1 # print_groups body @ [directive_line o2]"

text \<open>Which directive a line is, and where its operand starts.\<close>

definition name_pos :: "occurrence \<Rightarrow> nat" where
  "name_pos o1 = skip_newlines (fst o1) (snd o1 + 1)"

definition directive_name :: "occurrence \<Rightarrow> ustring option" where
  "directive_name o1 = (if name_pos o1 < length (fst o1) then ident_name (fst o1 ! name_pos o1) else None)"

definition is_opener :: "occurrence \<Rightarrow> bool" where
  "is_opener o1 \<longleftrightarrow> directive_name o1 = Some (str ''if'') \<or>
     directive_name o1 \<in> {Some (str ''ifdef''), Some (str ''ifndef'')} \<and> read_directive_ident (fst o1) (name_pos o1 + 1) \<noteq> None"

fun wf_groups :: "'a groups \<Rightarrow> bool" and wf_arms :: "'a arms \<Rightarrow> bool" where
  "wf_groups Done \<longleftrightarrow> True"
| "wf_groups (Text a g) \<longleftrightarrow> wf_groups g"
| "wf_groups (Chain o1 body arms g) \<longleftrightarrow> is_opener o1 \<and> wf_groups body \<and> wf_arms arms \<and> wf_groups g"
| "wf_arms (Endif o1) \<longleftrightarrow> directive_name o1 = Some (str ''endif'')"
| "wf_arms (Elif o1 body arms) \<longleftrightarrow> directive_name o1 = Some (str ''elif'') \<and> wf_groups body \<and> wf_arms arms"
| "wf_arms (Else o1 body o2) \<longleftrightarrow> directive_name o1 = Some (str ''else'') \<and> wf_groups body \<and> directive_name o2 = Some (str ''endif'')"

section \<open>Their meaning\<close>

definition holds :: "(HashItem list \<Rightarrow> 64 word) \<Rightarrow> occurrence \<Rightarrow> PreprocessorState \<Rightarrow> bool \<times> PreprocessorState" where
  "holds H o1 st =
     (if directive_name o1 = Some (str ''ifdef'') \<or> directive_name o1 = Some (str ''ifndef'') then
        (case read_directive_ident (fst o1) (name_pos o1 + 1) of
           Some (name, i) \<Rightarrow>
             (let (def, st') = is_defined_for_conditionals H name st in (def \<noteq> (directive_name o1 = Some (str ''ifndef'')), st'))
         | None \<Rightarrow> (False, st))
      else (case expand_and_eval_condition H (fst o1) (name_pos o1 + 1) st of Some (b, i, st') \<Rightarrow> (b, st') | None \<Rightarrow> (False, st)))"

fun exec :: "(HashItem list \<Rightarrow> 64 word) \<Rightarrow> ('a \<Rightarrow> PreprocessorState \<Rightarrow> PreprocessorState) \<Rightarrow> 'a groups \<Rightarrow> PreprocessorState \<Rightarrow> PreprocessorState"
  and exec_arms :: "(HashItem list \<Rightarrow> 64 word) \<Rightarrow> ('a \<Rightarrow> PreprocessorState \<Rightarrow> PreprocessorState) \<Rightarrow> 'a arms \<Rightarrow> PreprocessorState \<Rightarrow> PreprocessorState" where
  "exec H act Done st = st"
| "exec H act (Text a g) st = exec H act g (act a st)"
| "exec H act (Chain o1 body arms g) st =
     exec H act g (let (b, st1) = holds H o1 st in if b then exec H act body st1 else exec_arms H act arms st1)"
| "exec_arms H act (Endif o1) st = st"
| "exec_arms H act (Elif o1 body arms) st = (let (b, st1) = holds H o1 st in if b then exec H act body st1 else exec_arms H act arms st1)"
| "exec_arms H act (Else o1 body o2) st = exec H act body st"

section \<open>Frames do not matter to what is executed\<close>

definition with_stack :: "CondFrame list \<Rightarrow> PreprocessorState \<Rightarrow> PreprocessorState" where
  "with_stack s st = st\<lparr>ps_conditional_stack := s\<rparr>"

lemma with_stack_simps [simp]:
  "ps_conditional_stack (with_stack s st) = s" "with_stack s (with_stack s' st) = with_stack s st"
  "ps_macros (with_stack s st) = ps_macros st" "ps_fallback_macros (with_stack s st) = ps_fallback_macros st"
  "ps_cond_reads (with_stack s st) = ps_cond_reads st" "ps_cond_base (with_stack s st) = ps_cond_base st"
  "ps_record_conditionals (with_stack s st) = ps_record_conditionals st" "ps_conditionals (with_stack s st) = ps_conditionals st"
  "ps_cache_frames (with_stack s st) = ps_cache_frames st" "ps_current_file (with_stack s st) = ps_current_file st"
  "ps_macro_hashes (with_stack s st) = ps_macro_hashes st" "ps_macro_ops (with_stack s st) = ps_macro_ops st"
  "ps_diagnostic_keys (with_stack s st) = ps_diagnostic_keys st" "ps_diagnostics (with_stack s st) = ps_diagnostics st"
  by (simp_all add: with_stack_def)

lemma with_stack_updates [simp]:
  "(with_stack s st)\<lparr>ps_cond_reads := r\<rparr> = with_stack s (st\<lparr>ps_cond_reads := r\<rparr>)"
  "(with_stack s st)\<lparr>ps_cache_frames := c\<rparr> = with_stack s (st\<lparr>ps_cache_frames := c\<rparr>)"
  "(with_stack s st)\<lparr>ps_macro_hashes := h\<rparr> = with_stack s (st\<lparr>ps_macro_hashes := h\<rparr>)"
  "(with_stack s st)\<lparr>ps_diagnostics := d\<rparr> = with_stack s (st\<lparr>ps_diagnostics := d\<rparr>)"
  "(with_stack s st)\<lparr>ps_diagnostic_keys := k\<rparr> = with_stack s (st\<lparr>ps_diagnostic_keys := k\<rparr>)"
  "(with_stack s st)\<lparr>ps_macro_ops := x\<rparr> = with_stack s (st\<lparr>ps_macro_ops := x\<rparr>)"
  "(with_stack s st)\<lparr>ps_macros := m\<rparr> = with_stack s (st\<lparr>ps_macros := m\<rparr>)"
  "(with_stack s st)\<lparr>ps_fallback_macros := f\<rparr> = with_stack s (st\<lparr>ps_fallback_macros := f\<rparr>)"
  "(with_stack s st)\<lparr>ps_conditional_stack := s'\<rparr> = with_stack s' st"
  by (simp_all add: with_stack_def)

lemma with_own_stack [simp]: "with_stack (ps_conditional_stack st) st = st"
  by (simp add: with_stack_def)

lemma is_bound_stack [simp]: "is_bound n (with_stack s st) = is_bound n st"
  by (simp add: is_bound_def)

lemma note_cond_read_stack: "note_cond_read n (with_stack s st) = with_stack s (note_cond_read n st)"
  by (simp add: note_cond_read_def split: option.split)

lemma binding_hash_stack: "binding_hash H n (with_stack s st) = map_prod id (with_stack s) (binding_hash H n st)"
  by (simp add: binding_hash_def Let_def split: option.split)

lemma record_read_stack: "record_read H n (with_stack s st) = with_stack s (record_read H n st)"
proof -
  have i: "innermost_settled n (with_stack s st') = innermost_settled n st'" for st' by (simp add: innermost_settled_def)
  show ?thesis unfolding record_read_def Let_def note_cond_read_stack binding_hash_stack i case_prod_beta by simp
qed

lemma is_defined_stack: "is_defined_for_conditionals H n (with_stack s st) = map_prod id (with_stack s) (is_defined_for_conditionals H n st)"
  unfolding is_defined_for_conditionals_def Let_def record_read_stack by (simp split: option.split)

lemma report_stack: "report v l m (with_stack s st) = with_stack s (report v l m st)"
  by (simp add: report_def push_diagnostic_def Let_def)

fun step_with :: "(PreprocessorState \<Rightarrow> PreprocessorState) \<Rightarrow> CondStep \<Rightarrow> CondStep" where
  "step_with f (Continue w out i st) = Continue w out i (f st)"
| "step_with f (OverBudget st) = OverBudget (f st)"
| "step_with f Panic = Panic"

lemma warn_budget_stack: "warn_condition_budget l (with_stack s st) = with_stack s (warn_condition_budget l st)"
  by (simp add: warn_condition_budget_def warn_def report_stack)

lemma expand_function_stack:
  "expand_function work out i tok name params replacement variadic args next (with_stack s st) =
     step_with (with_stack s) (expand_function work out i tok name params replacement variadic args next st)"
  by (simp add: expand_function_def Let_def warn_budget_stack split: option.split)

lemma cond_step_stack: "cond_step H work out i (with_stack s st) = step_with (with_stack s) (cond_step H work out i st)"
proof -
  have "expand_name H work out i tok name (with_stack s st) = step_with (with_stack s) (expand_name H work out i tok name st)" for tok name
    by (simp add: expand_name_def Let_def record_read_stack expand_function_stack split: option.split MacroDef.split)
  moreover have "resolve_defined H work out i tok (with_stack s st) = step_with (with_stack s) (resolve_defined H work out i tok st)" for tok
    by (simp add: resolve_defined_def Let_def case_prod_beta is_defined_stack split: option.split)
  ultimately show ?thesis by (simp add: cond_step_def Let_def split: TokenKind.split)
qed

lemma cond_loop_stack:
  "cond_loop H work out i steps (with_stack s st) = map_option (map_prod id (with_stack s)) (cond_loop H work out i steps st)"
proof (induction H work out i steps st rule: cond_loop.induct)
  case (1 H work out i steps st)
  then show ?case
    by (subst (1 2) cond_loop.simps) (simp add: cond_step_stack warn_budget_stack id_def split: CondStep.split)
qed

lemma eval_condition_stack:
  "expand_and_eval_condition H tokens i (with_stack s st) =
     map_option (\<lambda>(b, j, st'). (b, j, with_stack s st')) (expand_and_eval_condition H tokens i st)"
proof (cases "i \<le> length tokens")
  case True
  then show ?thesis by (simp add: eval_condition_within expand_condition_tokens_def cond_loop_stack option.map_comp comp_def case_prod_beta)
qed (simp add: expand_and_eval_condition_def line_slice)

lemma holds_stack: "holds H o1 (with_stack s st) = map_prod id (with_stack s) (holds H o1 st)"
  by (simp add: holds_def is_defined_stack eval_condition_stack case_prod_beta split: option.split)

section \<open>Without recording\<close>

text \<open>A run that records no conditionals collects no reads.\<close>

definition quiet :: "PreprocessorState \<Rightarrow> bool" where
  "quiet st \<longleftrightarrow> \<not> ps_record_conditionals st \<and> ps_cond_reads st = None"

lemma record_read_quiet: "ps_cond_reads st = None \<Longrightarrow> ps_cond_reads (record_read H n st) = None"
  by (simp add: record_read_def note_cond_read_def binding_hash_def Let_def split: option.split)

lemma is_defined_quiet: "ps_cond_reads st = None \<Longrightarrow> ps_cond_reads (snd (is_defined_for_conditionals H n st)) = None"
  using record_read_quiet [of st H n] by (simp add: is_defined_for_conditionals_def Let_def)

lemma report_quiet [simp]: "ps_cond_reads (report v l m st) = ps_cond_reads st"
  by (simp add: report_def push_diagnostic_def Let_def)

lemma cond_step_quiet:
  assumes "ps_cond_reads st = None"
  shows "ps_cond_reads (step_state st (cond_step H work out i st)) = None"
proof -
  have "ps_cond_reads (step_state st (expand_function work out i tok name params replacement variadic args next st')) = None"
    if "ps_cond_reads st' = None" for tok name params replacement variadic args "next" st'
    using that assms by (simp add: expand_function_def Let_def warn_condition_budget_def warn_def split: option.split)
  then have "ps_cond_reads (step_state st (expand_name H work out i tok name st)) = None" for tok name
    using assms record_read_quiet [OF assms, of H name] by (auto simp: expand_name_def Let_def split: option.split MacroDef.split)
  moreover have "ps_cond_reads (step_state st (resolve_defined H work out i tok st)) = None" for tok
    using assms is_defined_quiet [OF assms, of H] by (simp add: resolve_defined_def Let_def case_prod_beta split: option.split)
  ultimately show ?thesis using assms by (auto simp: cond_step_def Let_def split: TokenKind.split)
qed

lemma cond_loop_quiet: "cond_loop H work out i steps st = Some (r, st') \<Longrightarrow> ps_cond_reads st = None \<Longrightarrow> ps_cond_reads st' = None"
proof (induction H work out i steps st rule: cond_loop.induct)
  case (1 H work out i steps st)
  show ?case
  proof (cases "cond_step H work out i st")
    case (Continue w' out' i' s)
    then have "ps_cond_reads s = None" using cond_step_quiet [OF 1(3), of H work out i] by simp
    then show ?thesis using 1(1) [of w' out' i' s] 1(2,3) Continue
      by (subst (asm) (2) cond_loop.simps) (auto split: if_splits simp: warn_condition_budget_def warn_def)
  next
    case (OverBudget s)
    then have "ps_cond_reads s = None" using cond_step_quiet [OF 1(3), of H work out i] by simp
    then show ?thesis using 1(2,3) OverBudget by (subst (asm) cond_loop.simps) (auto split: if_splits simp: warn_condition_budget_def warn_def)
  next
    case Panic
    then show ?thesis using 1(2,3) by (subst (asm) cond_loop.simps) (auto split: if_splits simp: warn_condition_budget_def warn_def)
  qed
qed

lemma eval_condition_Some:
  "i \<le> length tokens \<Longrightarrow> \<exists>b st'. expand_and_eval_condition H tokens i st = Some (b, skip_directive_line tokens i, st') \<and> reads_only st st' \<and>
     (ps_cond_reads st = None \<longrightarrow> ps_cond_reads st' = None)"
proof -
  assume i: "i \<le> length tokens"
  let ?toks = "drop i (take (skip_directive_line tokens i) tokens)"
  obtain r st' where "cond_loop H ?toks [] 0 0 st = Some (r, st')" using cond_loop_returns by fastforce
  then show ?thesis using cond_loop_reads_only [of H ?toks "[]" 0 0 st r st'] cond_loop_quiet [of H ?toks "[]" 0 0 st r st']
    by (auto simp: eval_condition_within [OF i] expand_condition_tokens_def Let_def)
qed

lemma eval_condition_None: "\<not> i \<le> length tokens \<Longrightarrow> expand_and_eval_condition H tokens i st = None"
  by (simp add: expand_and_eval_condition_def line_slice)

lemma holds_quiet: "quiet st \<Longrightarrow> quiet (snd (holds H o1 st)) \<and> reads_only st (snd (holds H o1 st))"
  using eval_condition_Some [of "name_pos o1 + 1" "fst o1" H st] eval_condition_None [of "name_pos o1 + 1" "fst o1" H st]
    is_defined_quiet [of st H] is_defined_reads_only [of st H]
  by (cases "name_pos o1 + 1 \<le> length (fst o1)") (auto simp: holds_def quiet_def case_prod_beta reads_only_def split: option.split)

lemma directive_name_within: "directive_name o1 = Some d \<Longrightarrow> name_pos o1 + 1 \<le> length (fst o1)"
  by (simp add: directive_name_def split: if_splits)

lemma controlling_quiet:
  assumes "quiet st" "i \<le> length tokens"
  shows "controlling H True tokens i st = map_option (\<lambda>(b, j, st'). (b, j, drop i (take j tokens), [], st')) (expand_and_eval_condition H tokens i st)"
    "controlling H False tokens i st = Some (False, skip_directive_line tokens i, drop i (take (skip_directive_line tokens i) tokens),
       spelled_reads (drop i (take (skip_directive_line tokens i) tokens)), st)"
proof -
  have e: "end_reads s = ([], s)" if "ps_cond_reads s = None" for s using that by (simp add: end_reads_def dedup_reads_def)
  obtain b s where s: "expand_and_eval_condition H tokens i st = Some (b, skip_directive_line tokens i, s)" "ps_cond_reads s = None"
    using eval_condition_Some [OF assms(2), of H st] assms by (auto simp: quiet_def)
  show "controlling H True tokens i st = map_option (\<lambda>(b, j, st'). (b, j, drop i (take j tokens), [], st')) (expand_and_eval_condition H tokens i st)"
    using s assms e [OF s(2)] by (simp add: controlling_def begin_reads_def quiet_def line_slice)
  show "controlling H False tokens i st = Some (False, skip_directive_line tokens i, drop i (take (skip_directive_line tokens i) tokens),
       spelled_reads (drop i (take (skip_directive_line tokens i) tokens)), st)"
    using assms e [of st] by (simp add: controlling_def quiet_def Let_def line_slice)
qed

definition frame_of :: "bool \<Rightarrow> bool \<Rightarrow> nat \<Rightarrow> CondFrame" where
  "frame_of parent b l =
     \<lparr>fr_parent_active = parent, fr_active = (parent \<and> b), fr_taken = (parent \<and> b), fr_else_seen = False, fr_line = l, fr_chain = None\<rparr>"

lemma push_cond_stack: "push_cond b l None st = with_stack (ps_conditional_stack st @ [frame_of (is_active st) b l]) st"
  by (simp add: push_cond_def frame_of_def with_stack_def Let_def)

lemma quiet_chain: "quiet st \<Longrightarrow> open_chain canon arm st = Some (None, st)" "mark_include_guard None tokens start st = Some st"
  "close_arm None l st = Some st" "add_arm None l arm st = Some st" "update_chain None f st = Some st"
  by (simp_all add: open_chain_def quiet_def mark_include_guard_def close_arm_def add_arm_def update_chain_def)

lemma quiet_push [simp]: "quiet (with_stack s st) = quiet st"
  by (simp add: quiet_def)

lemma directed: "directive_name o1 = Some d \<Longrightarrow> handle_directive H canon (fst o1) (snd o1) st =
    finish_line (fst o1) (dispatch H canon (fst o1) (snd o1) (name_pos o1 + 1) (tok_line (fst o1 ! name_pos o1)) (tok_line (fst o1 ! snd o1)) d st)"
  by (auto simp: directive_name_def name_pos_def handle_directive_def ident_name_def Let_def split: if_splits TokenKind.splits)

lemma is_openerE:
  assumes "is_opener o1"
  obtains (cond) "directive_name o1 = Some (str ''if'')"
    | (def) neg name j where "directive_name o1 = Some (if neg then str ''ifndef'' else str ''ifdef'')"
        "read_directive_ident (fst o1) (name_pos o1 + 1) = Some (name, j)"
proof (cases "directive_name o1 = Some (str ''if'')")
  case False
  then obtain r where r: "read_directive_ident (fst o1) (name_pos o1 + 1) = Some r"
    and "directive_name o1 = Some (str ''ifdef'') \<or> directive_name o1 = Some (str ''ifndef'')" using assms by (auto simp: is_opener_def)
  then have "directive_name o1 = Some (if directive_name o1 = Some (str ''ifndef'') then str ''ifndef'' else str ''ifdef'')" by auto
  then show thesis using r def [of "directive_name o1 = Some (str ''ifndef'')" "fst r" "snd r"] by simp
qed (rule cond)

lemma opener_step:
  assumes "is_opener o1" "quiet st"
  shows "\<exists>i l. handle_directive H canon (fst o1) (snd o1) st = DNext i
    (if is_active st then push_cond (fst (holds H o1 st)) l None (snd (holds H o1 st)) else push_cond False l None st)"
proof -
  have e: "end_reads s = ([], s)" if "ps_cond_reads s = None" for s using that by (simp add: end_reads_def dedup_reads_def)
  have q: "quiet (snd (holds H o1 st))" using holds_quiet [OF assms(2)] by blast
  have qd: "quiet (snd (is_defined_for_conditionals H n st))" for n
    using is_defined_quiet [of st H n] is_defined_reads_only [of st H n] assms(2) by (simp add: quiet_def reads_only_def)
  have b: "begin_reads st = st" using assms(2) by (simp add: begin_reads_def quiet_def)
  consider (cond) "directive_name o1 = Some (str ''if'')"
    | (def) neg name j where "directive_name o1 = Some (if neg then str ''ifndef'' else str ''ifdef'')"
        "read_directive_ident (fst o1) (name_pos o1 + 1) = Some (name, j)"
    by (rule is_openerE [OF assms(1)])
  then show ?thesis
  proof cases
    case cond
    obtain c s where s: "expand_and_eval_condition H (fst o1) (name_pos o1 + 1) st = Some (c, skip_directive_line (fst o1) (name_pos o1 + 1), s)"
      using eval_condition_Some [OF directive_name_within [OF cond]] by blast
    then have h: "holds H o1 st = (c, s)" using cond by (simp add: holds_def)
    then have "quiet s" using q by simp
    then show ?thesis using directed [OF cond, of H canon st] s h assms(2) directive_name_within [OF cond]
      by (auto simp: dispatch_def handle_if_def controlling_quiet quiet_chain after_def finish_line_def Let_def)
  next
    case (def neg name j)
    have h: "holds H o1 st = ((fst (is_defined_for_conditionals H name st)) \<noteq> neg, snd (is_defined_for_conditionals H name st))"
      using def by (cases neg) (auto simp: holds_def case_prod_beta)
    have "dispatch H canon (fst o1) (snd o1) i l r (if neg then str ''ifndef'' else str ''ifdef'') st = handle_ifdef H canon (fst o1) (snd o1) i l r neg st" for i l r
      by (simp add: dispatch_def)
    then show ?thesis using directed [OF def(1), of H canon st] h def(2) b e qd [of name] assms(2)
      by (auto simp: handle_ifdef_def quiet_chain case_prod_beta after_def finish_line_def Let_def quiet_def)
  qed
qed

lemma own_cond: "ps_cond_base st \<le> length S \<Longrightarrow> has_own_cond (with_stack (S @ [fr]) st)"
  by (simp add: has_own_cond_def)

lemma set_top_stack: "set_top f (with_stack (S @ [fr]) st) = with_stack (S @ [f fr]) st"
  by (simp add: set_top_def)

lemma endif_step:
  assumes "directive_name o1 = Some (str ''endif'')" "ps_cond_base st \<le> length S" "fr_chain fr = None"
  shows "\<exists>i. handle_directive H canon (fst o1) (snd o1) (with_stack (S @ [fr]) st) = DNext i (with_stack S st)"
  using directed [OF assms(1), of H canon "with_stack (S @ [fr]) st"] assms(2,3) own_cond [OF assms(2), of fr]
  by (simp add: dispatch_def handle_endif_def quiet_chain after_def finish_line_def Let_def)

lemma else_step:
  assumes "directive_name o1 = Some (str ''else'')" "ps_cond_base st \<le> length S" "fr_chain fr = None"
  shows "\<exists>i. handle_directive H canon (fst o1) (snd o1) (with_stack (S @ [fr]) st) = DNext i (with_stack
    (S @ [fr\<lparr>fr_active := fr_parent_active fr \<and> \<not> fr_taken fr, fr_taken := True, fr_else_seen := True\<rparr>]) st)"
  using directed [OF assms(1), of H canon "with_stack (S @ [fr]) st"] assms(2,3) own_cond [OF assms(2), of fr]
  by (simp add: dispatch_def handle_else_def quiet_chain after_def finish_line_def Let_def set_top_stack)

lemma elif_step:
  assumes "directive_name o1 = Some (str ''elif'')" "ps_cond_base st \<le> length S" "fr_chain fr = None" "\<not> fr_else_seen fr" "quiet st"
  shows "\<exists>i. handle_directive H canon (fst o1) (snd o1) (with_stack (S @ [fr]) st) = DNext i
    (if fr_parent_active fr \<and> \<not> fr_taken fr
     then with_stack (S @ [fr\<lparr>fr_active := fst (holds H o1 st), fr_taken := fst (holds H o1 st)\<rparr>]) (snd (holds H o1 st))
     else with_stack (S @ [fr\<lparr>fr_active := False\<rparr>]) st)"
proof -
  let ?st = "with_stack (S @ [fr]) st"
  note d = directed [OF assms(1), of H canon ?st]
  have q: "quiet ?st" using assms(5) by simp
  have within: "Suc (name_pos o1) \<le> length (fst o1)" using directive_name_within [OF assms(1)] by simp
  show ?thesis
  proof (cases "fr_parent_active fr \<and> \<not> fr_taken fr")
    case True
    obtain c s where s: "expand_and_eval_condition H (fst o1) (name_pos o1 + 1) st = Some (c, skip_directive_line (fst o1) (name_pos o1 + 1), s)"
      "reads_only st s" using eval_condition_Some [OF within, of H st] by auto
    then have "holds H o1 st = (c, s)" using assms(1) by (simp add: holds_def)
    then show ?thesis using d True s own_cond [OF assms(2), of fr] assms(3,4)
      by (simp add: dispatch_def handle_elif_def controlling_quiet [OF q within] eval_condition_stack quiet_chain after_def finish_line_def Let_def set_top_stack)
  next
    case False
    have "(fr_parent_active fr \<and> \<not> fr_taken fr \<and> \<not> fr_else_seen fr) = False" using False by simp
    then show ?thesis using d False own_cond [OF assms(2), of fr] assms(3,4)
      by (auto simp: dispatch_def handle_elif_def controlling_quiet [OF q within] quiet_chain after_def finish_line_def Let_def set_top_stack)
  qed
qed

section \<open>The machine runs the file\<close>

text \<open>What the processing of a line of text promises: it depends on no frame and changes none, and collects no reads.\<close>

locale text_lines =
  fixes act :: "'a \<Rightarrow> PreprocessorState \<Rightarrow> PreprocessorState"
  assumes act_stack: "act a (with_stack s st) = with_stack s (act a st)"
    and act_quiet: "quiet st \<Longrightarrow> quiet (act a st)"
    and act_base: "ps_cond_base (act a st) = ps_cond_base st"
begin

lemma exec_keeps:
  fixes g :: "'a groups" and arms :: "'a arms"
  shows "quiet st \<Longrightarrow> quiet (exec H act g st) \<and> ps_cond_base (exec H act g st) = ps_cond_base st \<and>
      exec H act g (with_stack s st) = with_stack s (exec H act g st)"
    and "quiet st \<Longrightarrow> quiet (exec_arms H act arms st) \<and> ps_cond_base (exec_arms H act arms st) = ps_cond_base st \<and>
      exec_arms H act arms (with_stack s st) = with_stack s (exec_arms H act arms st)"
proof (induction g and arms arbitrary: st s and st s)
  case (Chain o1 body arms g)
  have h: "quiet (snd (holds H o1 st))" "ps_cond_base (snd (holds H o1 st)) = ps_cond_base st"
    using holds_quiet [OF Chain.prems, of H o1] by (auto simp: reads_only_def)
  then show ?case using Chain.IH by (auto simp: holds_stack case_prod_beta)
next
  case (Elif o1 body arms)
  have h: "quiet (snd (holds H o1 st))" "ps_cond_base (snd (holds H o1 st)) = ps_cond_base st"
    using holds_quiet [OF Elif.prems, of H o1] by (auto simp: reads_only_def)
  then show ?case using Elif.IH by (auto simp: holds_stack case_prod_beta)
qed (auto simp: act_stack act_quiet act_base)

lemma own_stack:
  fixes g :: "'a groups" and arms :: "'a arms"
  assumes "quiet st"
  shows "with_stack (ps_conditional_stack st) (exec H act g st) = exec H act g st"
    "with_stack (ps_conditional_stack st) (exec_arms H act arms st) = exec_arms H act arms st"
  using exec_keeps(1) [OF assms, of H g "ps_conditional_stack st"] exec_keeps(2) [OF assms, of H arms "ps_conditional_stack st"] by simp_all

lemma run_groups:
  fixes g :: "'a groups" and arms :: "'a arms"
  shows "wf_groups g \<Longrightarrow> quiet st \<Longrightarrow> ps_cond_base st \<le> length (ps_conditional_stack st) \<Longrightarrow>
      run_lines H canon act (print_groups g @ ls) st = run_lines H canon act ls (if is_active st then exec H act g st else st)"
    and "wf_arms arms \<Longrightarrow> quiet st \<Longrightarrow> ps_cond_base st \<le> length S \<Longrightarrow> fr_chain fr = None \<Longrightarrow> \<not> fr_else_seen fr \<Longrightarrow>
      run_lines H canon act (print_arms arms @ ls) (with_stack (S @ [fr]) st) =
      run_lines H canon act ls (with_stack S (if fr_parent_active fr \<and> \<not> fr_taken fr then exec_arms H act arms st else st))"
proof (induction g and arms arbitrary: st ls and st S fr ls)
  case Done
  then show ?case by simp
next
  case (Text a g)
  have "is_active (act a st) = is_active st" "ps_conditional_stack (act a st) = ps_conditional_stack st"
    using act_stack [of a "ps_conditional_stack st" st] by (metis with_own_stack with_stack_simps(1) is_active_def)+
  then show ?case using Text act_quiet [of st a] act_base [of a st] by simp
next
  case (Chain o1 body arms g)
  let ?b = "fst (holds H o1 st)" and ?s = "snd (holds H o1 st)" and ?S = "ps_conditional_stack st"
  have q: "quiet ?s" "ps_cond_base ?s = ps_cond_base st" "ps_conditional_stack ?s = ?S"
    using holds_quiet [OF Chain.prems(2), of H o1] by (auto simp: reads_only_def)
  have wf: "is_opener o1" "wf_groups body" "wf_arms arms" "wf_groups g" using Chain.prems(1) by auto
  obtain i l where o1: "handle_directive H canon (fst o1) (snd o1) st = DNext i
      (if is_active st then push_cond ?b l None ?s else push_cond False l None st)" using opener_step [OF wf(1) Chain.prems(2)] by blast
  show ?case
  proof (cases "is_active st")
    case True
    then have act: "is_active ?s" using q(3) by (simp add: is_active_def)
    define X where "X = (if ?b then exec H act body ?s else exec_arms H act arms ?s)"
    have X: "with_stack ?S X = X" "quiet X" "ps_cond_base X = ps_cond_base st"
      using own_stack [OF q(1), of H] exec_keeps [OF q(1), of H] q by (auto simp: X_def)
    have "run_lines H canon act (print_groups (Chain o1 body arms g) @ ls) st =
        run_lines H canon act (print_groups body @ print_arms arms @ print_groups g @ ls) (with_stack (?S @ [frame_of True ?b l]) ?s)"
      using o1 True act q(3) by (simp add: directive_line_def push_cond_stack)
    also have "\<dots> = run_lines H canon act (print_arms arms @ print_groups g @ ls)
        (with_stack (?S @ [frame_of True ?b l]) (if ?b then exec H act body ?s else ?s))"
      using Chain.IH(1) [OF wf(2), of "with_stack (?S @ [frame_of True ?b l]) ?s"] q Chain.prems(3) exec_keeps(1) [OF q(1), of H body]
      by (simp add: is_active_def frame_of_def)
    also have "\<dots> = run_lines H canon act (print_groups g @ ls) (with_stack ?S X)"
      using Chain.IH(2) [OF wf(3), of "if ?b then exec H act body ?s else ?s" ?S "frame_of True ?b l"] q Chain.prems(3) exec_keeps(1) [OF q(1), of H body]
      by (auto simp: X_def frame_of_def)
    also have "\<dots> = run_lines H canon act ls (exec H act g X)"
    proof -
      have "is_active X" "ps_conditional_stack X = ?S" using X(1) True by (metis with_stack_simps(1) is_active_def)+
      then show ?thesis using Chain.IH(3) [OF wf(4), of X ls] X Chain.prems(3) by simp
    qed
    finally show ?thesis using True by (simp add: X_def case_prod_beta)
  next
    case False
    have "run_lines H canon act (print_groups (Chain o1 body arms g) @ ls) st =
        run_lines H canon act (print_groups body @ print_arms arms @ print_groups g @ ls) (with_stack (?S @ [frame_of False False l]) st)"
      using o1 False by (simp add: directive_line_def push_cond_stack)
    also have "\<dots> = run_lines H canon act (print_arms arms @ print_groups g @ ls) (with_stack (?S @ [frame_of False False l]) st)"
      using Chain.IH(1) [OF wf(2), of "with_stack (?S @ [frame_of False False l]) st"] Chain.prems by (simp add: is_active_def frame_of_def)
    also have "\<dots> = run_lines H canon act (print_groups g @ ls) st"
      using Chain.IH(2) [OF wf(3), of st ?S "frame_of False False l"] Chain.prems by (simp add: frame_of_def)
    also have "\<dots> = run_lines H canon act ls st" using Chain.IH(3) [OF wf(4)] Chain.prems False by simp
    finally show ?thesis using False by simp
  qed
next
  case (Endif o1)
  then show ?case using endif_step [of o1 st S fr H canon] by (auto simp: directive_line_def)
next
  case (Elif o1 body arms)
  let ?b = "fst (holds H o1 st)" and ?s = "snd (holds H o1 st)"
  have q: "quiet ?s" "ps_cond_base ?s = ps_cond_base st" using holds_quiet [OF Elif.prems(2), of H o1] by (auto simp: reads_only_def)
  have wf: "directive_name o1 = Some (str ''elif'')" "wf_groups body" "wf_arms arms" using Elif.prems(1) by auto
  obtain i where o1: "handle_directive H canon (fst o1) (snd o1) (with_stack (S @ [fr]) st) = DNext i
    (if fr_parent_active fr \<and> \<not> fr_taken fr then with_stack (S @ [fr\<lparr>fr_active := ?b, fr_taken := ?b\<rparr>]) ?s
     else with_stack (S @ [fr\<lparr>fr_active := False\<rparr>]) st)" using elif_step [OF wf(1) Elif.prems(3-5,2)] by blast
  show ?case
  proof (cases "fr_parent_active fr \<and> \<not> fr_taken fr")
    case True
    let ?fr = "fr\<lparr>fr_active := ?b, fr_taken := ?b\<rparr>"
    have "run_lines H canon act (print_arms (Elif o1 body arms) @ ls) (with_stack (S @ [fr]) st) =
        run_lines H canon act (print_groups body @ print_arms arms @ ls) (with_stack (S @ [?fr]) ?s)"
      using o1 True by (simp add: directive_line_def)
    also have "\<dots> = run_lines H canon act (print_arms arms @ ls) (with_stack (S @ [?fr]) (if ?b then exec H act body ?s else ?s))"
      using Elif.IH(1) [OF wf(2), of "with_stack (S @ [?fr]) ?s"] q Elif.prems(3) exec_keeps(1) [OF q(1), of H body] by (simp add: is_active_def)
    also have "\<dots> = run_lines H canon act ls (with_stack S (if ?b then exec H act body ?s else exec_arms H act arms ?s))"
      using Elif.IH(2) [OF wf(3), of "if ?b then exec H act body ?s else ?s" S ?fr] q Elif.prems(3-5) True exec_keeps(1) [OF q(1), of H body] by auto
    finally show ?thesis using True by (simp add: case_prod_beta)
  next
    case False
    let ?fr = "fr\<lparr>fr_active := False\<rparr>"
    have "run_lines H canon act (print_arms (Elif o1 body arms) @ ls) (with_stack (S @ [fr]) st) =
        run_lines H canon act (print_groups body @ print_arms arms @ ls) (with_stack (S @ [?fr]) st)"
      using o1 False by (simp add: directive_line_def)
    also have "\<dots> = run_lines H canon act (print_arms arms @ ls) (with_stack (S @ [?fr]) st)"
      using Elif.IH(1) [OF wf(2), of "with_stack (S @ [?fr]) st"] Elif.prems by (simp add: is_active_def)
    also have "\<dots> = run_lines H canon act ls (with_stack S st)"
      using Elif.IH(2) [OF wf(3), of st S ?fr] Elif.prems False by auto
    finally show ?thesis using False by auto
  qed
next
  case (Else o1 body o2)
  let ?a = "fr_parent_active fr \<and> \<not> fr_taken fr"
  let ?fr = "fr\<lparr>fr_active := ?a, fr_taken := True, fr_else_seen := True\<rparr>"
  have wf: "directive_name o1 = Some (str ''else'')" "wf_groups body" "directive_name o2 = Some (str ''endif'')" using Else.prems(1) by auto
  obtain i where o1: "handle_directive H canon (fst o1) (snd o1) (with_stack (S @ [fr]) st) = DNext i (with_stack (S @ [?fr]) st)"
    using else_step [OF wf(1) Else.prems(3,4)] by blast
  have "run_lines H canon act (print_arms (Else o1 body o2) @ ls) (with_stack (S @ [fr]) st) =
      run_lines H canon act (print_groups body @ directive_line o2 # ls) (with_stack (S @ [?fr]) st)"
    using o1 by (simp add: directive_line_def)
  also have "\<dots> = run_lines H canon act (directive_line o2 # ls) (with_stack (S @ [?fr]) (if ?a then exec H act body st else st))"
    using Else.IH [OF wf(2), of "with_stack (S @ [?fr]) st"] Else.prems exec_keeps(1) [OF Else.prems(2), of H body] by (simp add: is_active_def)
  also have "\<dots> = run_lines H canon act ls (with_stack S (if ?a then exec H act body st else st))"
    using endif_step [OF wf(3), of "if ?a then exec H act body st else st" S ?fr H canon] Else.prems(3,4) exec_keeps(1) [OF Else.prems(2), of H body]
    by (auto simp: directive_line_def)
  finally show ?case by simp
qed

end

text \<open>Lines of text that change or read the macros.\<close>

datatype macro_line = DefineMacro ustring MacroDef | UndefMacro ustring | ReadName ustring

fun run_macro_line :: "(HashItem list \<Rightarrow> 64 word) \<Rightarrow> macro_line \<Rightarrow> PreprocessorState \<Rightarrow> PreprocessorState" where
  "run_macro_line H (DefineMacro n d) st = insert_macro n d st"
| "run_macro_line H (UndefMacro n) st = remove_macro n st"
| "run_macro_line H (ReadName n) st = record_read H n st"

lemma macro_change_stack:
  "insert_macro n d (with_stack s st) = with_stack s (insert_macro n d st)" "remove_macro n (with_stack s st) = with_stack s (remove_macro n st)"
  by (simp_all add: insert_macro_def remove_macro_def note_local_binding_def Let_def)

interpretation macro_lines: text_lines "run_macro_line H" for H
proof
  show "run_macro_line H a (with_stack s st) = with_stack s (run_macro_line H a st)" for a s st
    by (cases a) (simp_all add: macro_change_stack record_read_stack)
  show "quiet st \<Longrightarrow> quiet (run_macro_line H a st)" for a st
    using record_read_quiet [of st H] record_read_reads_only [of st H]
    by (cases a) (auto simp: insert_macro_def remove_macro_def note_local_binding_def Let_def quiet_def reads_only_def)
  show "ps_cond_base (run_macro_line H a st) = ps_cond_base st" for a st
    using record_read_reads_only [of st H]
    by (cases a) (auto simp: insert_macro_def remove_macro_def note_local_binding_def Let_def reads_only_def)
qed

text \<open>C20: the conditional directives implement the structure of a file: processing the lines of any nesting of conditional chains one
  at a time over the stack of frames runs exactly the text of the first arm of each chain whose condition holds (or of its \<^verbatim>\<open>#else\<close>), with
  the macros that text has defined by then, evaluates no condition after a taken arm or inside a skipped group, and leaves the
  stack as it was. Under an inactive frame the whole structure changes nothing.
\<close>

theorem conditionals_follow_structure:
  assumes "wf_groups g" "quiet st" "ps_cond_base st \<le> length (ps_conditional_stack st)"
  shows "run_lines H canon (run_macro_line H) (print_groups g) st =
    Some (if is_active st then exec H (run_macro_line H) g st else st)"
  using macro_lines.run_groups(1) [OF assms, of H canon H "[]"] by simp

definition line_of :: "TokenKind list \<Rightarrow> occurrence" where
  "line_of ks = (map (\<lambda>k. Token_new k 1 1) (Hash # ks @ [Newline]), 0)"

definition sample_file :: "macro_line groups" where
  "sample_file =
     Text (DefineMacro (str ''A'') (MacroObject []))
       (Chain (line_of [Identifier (str ''ifndef''), Identifier (str ''A'')]) (Text (UndefMacro (str ''A'')) Done)
         (Else (line_of [Identifier (str ''else'')]) (Text (DefineMacro (str ''B'') GmockMethod) Done) (line_of [Identifier (str ''endif'')])) Done)"

theorem conditionals_follow_structure_witness:
  "wf_groups sample_file \<and>
   run_lines (\<lambda>_. 7) id (run_macro_line (\<lambda>_. 7)) (print_groups sample_file) empty_state =
     Some (exec (\<lambda>_. 7) (run_macro_line (\<lambda>_. 7)) sample_file empty_state) \<and>
   ps_macros (exec (\<lambda>_. 7) (run_macro_line (\<lambda>_. 7)) sample_file empty_state) (str ''B'') = Some GmockMethod \<and>
   ps_macros (exec (\<lambda>_. 7) (run_macro_line (\<lambda>_. 7)) sample_file empty_state) (str ''A'') = Some (MacroObject [])"
proof -
  have w: "wf_groups sample_file" by code_simp
  have "quiet empty_state" "ps_cond_base empty_state \<le> length (ps_conditional_stack empty_state)" "is_active empty_state"
    by (simp_all add: quiet_def empty_state_def is_active_def)
  moreover have "ps_macros (exec (\<lambda>_. 7) (run_macro_line (\<lambda>_. 7)) sample_file empty_state) (str ''B'') = Some GmockMethod"
    "ps_macros (exec (\<lambda>_. 7) (run_macro_line (\<lambda>_. 7)) sample_file empty_state) (str ''A'') = Some (MacroObject [])" by code_simp+
  ultimately show ?thesis using conditionals_follow_structure [OF w, of empty_state "\<lambda>_. 7" id] w by simp
qed

section \<open>Directives without a chain\<close>

definition stray_message :: "ustring \<Rightarrow> ustring" where
  "stray_message d = str ''#'' @ d @ str '' without #if''"

text \<open>C30: an \<^verbatim>\<open>#elif\<close>, \<^verbatim>\<open>#else\<close> or \<^verbatim>\<open>#endif\<close> with no chain of the same file open aborts the file with its own error, reported on its line; it never
  touches a frame of an including file.
\<close>

theorem stray_directive_aborts:
  assumes "directive_name o1 = Some d" "d \<in> {str ''elif'', str ''else'', str ''endif''}" "length (ps_conditional_stack st) \<le> ps_cond_base st"
  shows "handle_directive H canon (fst o1) (snd o1) st =
    DError (stray_message d) (report SevError (tok_line (fst o1 ! name_pos o1)) (stray_message d) st)"
proof -
  have own: "\<not> has_own_cond st" using assms(3) by (simp add: has_own_cond_def)
  have m: "stray_message (str ''elif'') = str ''#elif without #if''" "stray_message (str ''else'') = str ''#else without #if''"
    "stray_message (str ''endif'') = str ''#endif without #if''" by (simp_all add: stray_message_def) (simp_all add: str_def)
  note d = directed [OF assms(1), of H canon st]
  consider "d = str ''elif''" | "d = str ''else''" | "d = str ''endif''" using assms(2) by blast
  then show ?thesis
  proof cases
    case 1
    then show ?thesis using d own m by (simp add: dispatch_def handle_elif_def directive_error_def finish_line_def)
  next
    case 2
    then show ?thesis using d own m by (simp add: dispatch_def handle_else_def directive_error_def finish_line_def)
  next
    case 3
    then show ?thesis using d own m by (simp add: dispatch_def handle_endif_def directive_error_def finish_line_def)
  qed
qed

theorem stray_directive_aborts_witness:
  "handle_directive (\<lambda>_. 7) id (fst (line_of [Identifier (str ''endif'')])) (snd (line_of [Identifier (str ''endif'')])) empty_state =
     DError (stray_message (str ''endif'')) (report SevError 1 (stray_message (str ''endif'')) empty_state)"
proof -
  have "directive_name (line_of [Identifier (str ''endif'')]) = Some (str ''endif'')" by code_simp
  moreover have "tok_line (fst (line_of [Identifier (str ''endif'')]) ! name_pos (line_of [Identifier (str ''endif'')])) = 1" by code_simp
  ultimately show ?thesis using stray_directive_aborts [of "line_of [Identifier (str ''endif'')]" "str ''endif''" empty_state "\<lambda>_. 7" id]
    by (simp add: empty_state_def)
qed

text \<open>
  A \<^verbatim>\<open>#\<close> alone on its line is C's null directive; the code looks for the directive's name on the next line, which it then discards when the
  name is none it knows.
\<close>

theorem null_directive_swallows_next_line:
  assumes "tokens = hash # nl # t # rest" "tok_kind nl = Newline" "tok_kind t = Identifier (str ''int'')" "is_active st"
  shows "handle_directive H canon tokens 0 st = DNext (skip_to_newline tokens 3) (warn (tok_line t) (str ''unknown directive #int'') st)"
  using assms by (simp add: handle_directive_def skip_newlines_def dispatch_def finish_line_def Let_def numeral_3_eq_3) (simp add: str_def)

end
