(* ===== verification/Pp_File.thy ===== *)
theory Pp_File
  imports Pp_Cond_Props
begin

text \<open>
  One file of a preprocessing run: its include guard, read off the token stream (\<^verbatim>\<open>detect_include_guard\<close>), the token loop
  (\<^verbatim>\<open>process_tokens\<close>) under the resource limits, and the fence around a file (\<^verbatim>\<open>process_file_tokens\<close>) in
  \<^verbatim>\<open>trace-preproc/src/preprocessor.rs\<close>. The loop is followed up to the first token it would expand or print, other than a line's end, or
  the first call of a directive handler that is not modelled; \<open>Emits\<close> and \<open>Calls\<close> say where that is.
\<close>

section \<open>Include guards in the token stream\<close>

definition at_beginning_of_line :: "Token list \<Rightarrow> nat \<Rightarrow> bool" where
  "at_beginning_of_line tokens i \<longleftrightarrow> i = 0 \<or> tok_kind (tokens ! (i - 1)) = Newline"

lemma skip_directive_line_le [simp]: "i \<le> skip_directive_line tokens i"
  by (simp add: skip_directive_line_def)

lemma skip_directive_line_less:
  assumes "i < length tokens" "\<not> ends_line (tokens ! i)"
  shows "i < skip_directive_line tokens i"
proof -
  have "drop i tokens = tokens ! i # drop (Suc i) tokens" using assms(1) by (simp add: Cons_nth_drop_Suc)
  then show ?thesis using assms(2) by (simp add: skip_directive_line_def)
qed

lemma skip_newlines_le [simp]: "i \<le> skip_newlines tokens i"
  by (simp add: skip_newlines_def)

definition ident_at :: "Token list \<Rightarrow> nat \<Rightarrow> ustring option" where
  "ident_at tokens i = (if i < length tokens then ident_name (tokens ! i) else None)"

function next_directive :: "Token list \<Rightarrow> nat \<Rightarrow> (ustring \<times> nat) option" where
  "next_directive tokens i0 =
     (let i = skip_newlines tokens i0
      in if \<not> i < length tokens \<or> tok_kind (tokens ! i) = Eof then None
         else if tok_kind (tokens ! i) = Hash then
           (case ident_at tokens (i + 1) of
              Some keyword \<Rightarrow> Some (keyword, i + 2)
            | None \<Rightarrow> next_directive tokens (skip_directive_line tokens (i + 1)))
         else next_directive tokens (skip_directive_line tokens i))"
  by pat_completeness auto

lemma skip_newlines_kind:
  assumes "skip_newlines tokens i < length tokens"
  shows "tok_kind (tokens ! skip_newlines tokens i) \<noteq> Newline"
  using assms nth_length_takeWhile [of "\<lambda>t. tok_kind t = Newline" "drop i tokens"] by (simp add: skip_newlines_def)

termination next_directive
proof (relation "measure (\<lambda>(tokens, i). length tokens - i)", goal_cases)
  case (2 tokens i0 x)
  then show ?case using skip_newlines_le [of i0 tokens] skip_directive_line_le [of "x + 1" tokens]
    by (simp add: diff_less_mono2 del: skip_newlines_le skip_directive_line_le)
next
  case (3 tokens i0 x)
  have "x < skip_directive_line tokens x"
    using 3 skip_newlines_kind [of tokens i0] by (intro skip_directive_line_less) (auto simp: ends_line_def)
  then show ?case using 3 skip_newlines_le [of i0 tokens] by (simp add: diff_less_mono2 del: skip_newlines_le)
qed simp

declare next_directive.simps [simp del]

definition guard_opener :: "Token list \<Rightarrow> nat \<Rightarrow> (ustring \<times> nat) option" where
  "guard_opener tokens i0 =
     (let i = skip_newlines tokens i0
      in if \<not> i < length tokens \<or> tok_kind (tokens ! i) \<noteq> Hash then None
         else do {
           keyword \<leftarrow> ident_at tokens (i + 1);
           name \<leftarrow> (if keyword = str ''ifndef'' then ident_at tokens (i + 2)
                  else if keyword = str ''if'' then negated_defined_name (directive_rest tokens (i + 2))
                  else None);
           Some (name, skip_directive_line tokens (i + 2))
         })"

text \<open>The three ways on from a position.\<close>

lemma next_directive_cases:
  fixes tokens :: "Token list" and i :: nat
  defines "k \<equiv> skip_newlines tokens i"
  obtains (none) "next_directive tokens i = None" "\<not> k < length tokens \<or> tok_kind (tokens ! k) = Eof"
    | (found) d where "k < length tokens" "tok_kind (tokens ! k) = Hash" "ident_at tokens (k + 1) = Some d" "next_directive tokens i = Some (d, k + 2)"
    | (marker) "k < length tokens" "tok_kind (tokens ! k) = Hash" "ident_at tokens (k + 1) = None"
        "next_directive tokens i = next_directive tokens (skip_directive_line tokens (k + 1))"
    | (text_line) "k < length tokens" "tok_kind (tokens ! k) \<noteq> Hash" "\<not> ends_line (tokens ! k)"
        "next_directive tokens i = next_directive tokens (skip_directive_line tokens k)"
proof -
  consider "\<not> k < length tokens \<or> tok_kind (tokens ! k) = Eof" | d where "k < length tokens" "tok_kind (tokens ! k) = Hash" "ident_at tokens (k + 1) = Some d"
    | "k < length tokens" "tok_kind (tokens ! k) = Hash" "ident_at tokens (k + 1) = None"
    | "k < length tokens" "tok_kind (tokens ! k) \<noteq> Hash" "tok_kind (tokens ! k) \<noteq> Eof" by blast
  then show thesis
  proof cases
    case 1
    then have "next_directive tokens i = None" by (subst next_directive.simps) (auto simp: k_def Let_def)
    then show thesis using none 1 by blast
  next
    case 2
    then have "next_directive tokens i = Some (d, k + 2)" by (subst next_directive.simps) (auto simp: k_def Let_def)
    then show thesis using found 2 by blast
  next
    case 3
    then have "next_directive tokens i = next_directive tokens (skip_directive_line tokens (k + 1))"
      by (subst next_directive.simps) (auto simp: k_def Let_def)
    then show thesis using marker 3 by blast
  next
    case 4
    then have "next_directive tokens i = next_directive tokens (skip_directive_line tokens k)"
      by (subst next_directive.simps) (auto simp: k_def Let_def)
    then show thesis using text_line 4 skip_newlines_kind [of tokens i] by (auto simp: k_def ends_line_def)
  qed
qed

lemma next_directive_shape:
  "next_directive tokens i = Some (d, j) \<Longrightarrow>
     i + 2 \<le> j \<and> j \<le> length tokens \<and> tok_kind (tokens ! (j - 2)) = Hash \<and> tok_kind (tokens ! (j - 1)) = Identifier d"
proof (induction tokens i rule: next_directive.induct)
  case (1 tokens i)
  let ?k = "skip_newlines tokens i"
  have "i \<le> ?k" "?k + 1 \<le> skip_directive_line tokens (?k + 1)" "?k \<le> skip_directive_line tokens ?k" by (rule skip_newlines_le skip_directive_line_le)+
  then have k: "i \<le> ?k" "i \<le> skip_directive_line tokens (?k + 1)" "i \<le> skip_directive_line tokens ?k" by linarith+
  show ?case
  proof (cases tokens i rule: next_directive_cases)
    case none
    then show ?thesis using 1(3) by simp
  next
    case (found d')
    then show ?thesis using 1(3) k(1) by (auto simp: ident_at_def ident_name_def split: if_splits TokenKind.splits)
  next
    case marker
    then show ?thesis using 1(1) [OF refl] 1(3) k(2) by auto
  next
    case text_line
    then show ?thesis using 1(2) [OF refl] 1(3) k(3) by (auto simp: ends_line_def)
  qed
qed

function guard_loop :: "Token list \<Rightarrow> ustring \<Rightarrow> nat \<Rightarrow> nat \<Rightarrow> ustring option" where
  "guard_loop tokens name depth i =
     (case next_directive tokens i of
        None \<Rightarrow> None
      | Some (directive, j) \<Rightarrow>
          if directive \<in> {str ''if'', str ''ifdef'', str ''ifndef''} then guard_loop tokens name (depth + 1) j
          else if directive \<in> {str ''elif'', str ''else''} \<and> depth = 1 then None
          else if directive = str ''endif'' then
            if depth - 1 = 0 then
              (if list_all ends_line (drop (skip_directive_line tokens j) tokens) then Some name else None)
            else guard_loop tokens name (depth - 1) j
          else guard_loop tokens name depth j)"
  by pat_completeness auto

termination guard_loop
  by (relation "measure (\<lambda>(tokens, name, depth, i). length tokens - i)")
    (auto dest!: next_directive_shape intro!: diff_less_mono2)

declare guard_loop.simps [simp del]

definition detect_include_guard :: "Token list \<Rightarrow> ustring option" where
  "detect_include_guard tokens =
     do {
       (name, i) \<leftarrow> guard_opener tokens 0;
       (directive, j) \<leftarrow> next_directive tokens i;
       if directive \<noteq> str ''define'' \<or> ident_at tokens j \<noteq> Some name then None else guard_loop tokens name 1 j
     }"

section \<open>The token loop\<close>

record ResourceLimits =
  max_expanded_tokens :: nat
  max_output_bytes :: nat

record Scan =
  sc_state :: PreprocessorState
  sc_tokens_processed :: nat
  sc_output_len :: nat
  sc_expansion_incomplete :: bool

datatype ScanEnd = Finished Scan | Aborted ustring Scan | Emits nat Scan | Calls Directed Scan | ScanPanic

definition limit_error :: "nat \<Rightarrow> ustring \<Rightarrow> Scan \<Rightarrow> ustring \<times> Scan" where
  "limit_error line message sc =
     (message, sc\<lparr>sc_expansion_incomplete := True, sc_state := report SevError line message (sc_state sc)\<rparr>)"

definition check_resource_limits :: "ResourceLimits \<Rightarrow> nat \<Rightarrow> Scan \<Rightarrow> ustring \<times> Scan + Scan" where
  "check_resource_limits opts line sc0 =
     (let sc = sc0\<lparr>sc_tokens_processed := saturating_add (sc_tokens_processed sc0) 1\<rparr>
      in if sc_tokens_processed sc > max_expanded_tokens opts then
           Inl (limit_error line (str ''preprocessed token budget exceeded ('' @ decimal (max_expanded_tokens opts) @ str '')'') sc)
         else if sc_output_len sc > max_output_bytes opts then
           Inl (limit_error line (str ''preprocessed output exceeded '' @ decimal (max_output_bytes opts) @ str '' bytes'') sc)
         else Inr sc)"

text \<open>A line's end in active text is printed as one byte.\<close>

definition emit_newline :: "Scan \<Rightarrow> Scan" where
  "emit_newline sc = sc\<lparr>sc_output_len := sc_output_len sc + 1\<rparr>"

lemma skip_to_newline_le: "i \<le> skip_to_newline tokens i"
  by (simp add: skip_to_newline_def Let_def)

lemma read_directive_ident_forward: "read_directive_ident tokens i = Some (name, j) \<Longrightarrow> i < j"
  by (auto simp: read_directive_ident_def Let_def less_Suc_eq_le split: if_splits)

lemma controlling_forward: "controlling H e tokens i st = Some (b, j, expr, rs, st') \<Longrightarrow> i \<le> j"
  by (auto simp: controlling_def expand_and_eval_condition_def Let_def case_prod_beta bind_eq_Some_conv split: if_splits)

lemma dispatch_forward:
  assumes "dispatch H canon tokens start i line record_line d st = DNext j st'"
  shows "i \<le> j"
proof -
  have "handle_ifdef H canon tokens start i line record_line neg st = DNext j st' \<Longrightarrow> i \<le> j" for neg
    by (auto simp: handle_ifdef_def Let_def case_prod_beta after_def directive_error_def less_imp_le
      split: if_splits option.splits dest!: read_directive_ident_forward)
  moreover have "handle_if H canon tokens start i line record_line st = DNext j st' \<Longrightarrow> i \<le> j"
    by (auto simp: handle_if_def Let_def case_prod_beta after_def split: if_splits option.splits dest!: controlling_forward)
  moreover have "handle_elif H tokens i line record_line st = DNext j st' \<Longrightarrow> i \<le> j"
    by (auto simp: handle_elif_def Let_def case_prod_beta after_def directive_error_def split: if_splits option.splits dest!: controlling_forward)
  ultimately show ?thesis using assms
    by (auto simp: dispatch_def handle_else_def handle_endif_def after_def directive_error_def Let_def less_imp_le
      split: if_splits option.splits dest!: read_directive_ident_forward)
qed

lemma handle_directive_forward:
  assumes "handle_directive H canon tokens start st = DNext j st'"
  shows "start < j"
proof -
  let ?i = "skip_newlines tokens (start + 1)"
  have i: "start < ?i" using skip_newlines_le [of "start + 1" tokens] by linarith
  show ?thesis
  proof (cases "?i < length tokens \<and> ident_name (tokens ! ?i) \<noteq> None")
    case True
    then obtain d where d: "tok_kind (tokens ! ?i) = Identifier d" by (auto simp: ident_name_def split: TokenKind.splits)
    obtain k s where k: "dispatch H canon tokens start (?i + 1) (tok_line (tokens ! ?i)) (tok_line (tokens ! start)) d st = DNext k s"
      "j = skip_to_newline tokens k"
      using assms True d by (auto simp: handle_directive_def finish_line_def Let_def split: Directed.splits)
    then show ?thesis using dispatch_forward [OF k(1)] skip_to_newline_le [of k tokens] i by simp
  next
    case False
    then have "j = ?i \<or> j = skip_directive_line tokens ?i"
      using assms by (auto simp: handle_directive_def ident_name_def directive_error_def Let_def split: if_splits TokenKind.splits)
    then show ?thesis using i skip_directive_line_le [of ?i tokens] by (auto simp del: skip_directive_line_le)
  qed
qed

function process_tokens ::
  "ResourceLimits \<Rightarrow> (HashItem list \<Rightarrow> 64 word) \<Rightarrow> (ustring \<Rightarrow> ustring) \<Rightarrow> Token list \<Rightarrow> nat \<Rightarrow> Scan \<Rightarrow> ScanEnd" where
  "process_tokens opts H canon tokens i sc0 =
     (if \<not> i < length tokens then Finished sc0
      else
        (case check_resource_limits opts (tok_line (tokens ! i)) sc0 of
           Inl (message, sc) \<Rightarrow> Aborted message sc
         | Inr sc \<Rightarrow>
             if tok_kind (tokens ! i) = Eof then Finished sc
             else if tok_kind (tokens ! i) = Hash \<and> at_beginning_of_line tokens i then
               (case handle_directive H canon tokens i (sc_state sc) of
                  DNext j st \<Rightarrow> process_tokens opts H canon tokens j (sc\<lparr>sc_state := st\<rparr>)
                | DError message st \<Rightarrow> Aborted message (sc\<lparr>sc_state := st\<rparr>)
                | DPanic \<Rightarrow> ScanPanic
                | r \<Rightarrow> Calls r sc)
             else if \<not> is_active (sc_state sc) then process_tokens opts H canon tokens (i + 1) sc
             else if tok_kind (tokens ! i) = Newline then process_tokens opts H canon tokens (i + 1) (emit_newline sc)
             else Emits i sc))"
  by pat_completeness auto
termination
  by (relation "measure (\<lambda>(opts, H, canon, tokens, i, sc). length tokens - i)") (auto dest!: handle_directive_forward intro!: diff_less_mono2)

declare process_tokens.simps [simp del]

section \<open>The fence around a file\<close>

definition last_line :: "Token list \<Rightarrow> nat" where
  "last_line tokens = (if tokens = [] then 1 else as_u32 (tok_line (last tokens) + (if tok_col (last tokens) > 1 then 1 else 0)))"

definition enter_file :: "(ustring \<Rightarrow> ustring) \<Rightarrow> Token list \<Rightarrow> PreprocessorState \<Rightarrow> PreprocessorState" where
  "enter_file canon tokens st =
     (let guard = detect_include_guard tokens;
          st1 = st\<lparr>ps_cond_base := length (ps_conditional_stack st), ps_guarded_file := guard \<noteq> None\<rparr>
      in case guard of Some name \<Rightarrow> record_guard (canon (ps_current_file st1)) (Ifndef name) st1 | None \<Rightarrow> st1)"

definition leave_file :: "Token list \<Rightarrow> nat \<Rightarrow> nat \<Rightarrow> bool \<Rightarrow> bool \<Rightarrow> PreprocessorState \<Rightarrow> PreprocessorState option" where
  "leave_file tokens depth outer_base outer_guarded is_ok st =
     (let st1 = st\<lparr>ps_cond_base := outer_base, ps_guarded_file := outer_guarded\<rparr>;
          open_frames = drop depth (ps_conditional_stack st1);
          st2 = (if is_ok
                 then fold (\<lambda>fr. report SevError (fr_line fr) (str ''unterminated #if; conditional closed at end of file'')) open_frames st1 else st1)
      in map_option (\<lambda>s. s\<lparr>ps_conditional_stack := take depth (ps_conditional_stack s)\<rparr>)
           (foldM (\<lambda>s fr. close_arm (fr_chain fr) (last_line tokens) s) st2 open_frames))"

definition left_file :: "PreprocessorState option \<Rightarrow> Scan \<Rightarrow> (Scan \<Rightarrow> ScanEnd) \<Rightarrow> ScanEnd" where
  "left_file r sc k = (case r of Some st \<Rightarrow> k (sc\<lparr>sc_state := st\<rparr>) | None \<Rightarrow> ScanPanic)"

definition process_file_tokens ::
  "ResourceLimits \<Rightarrow> (HashItem list \<Rightarrow> 64 word) \<Rightarrow> (ustring \<Rightarrow> ustring) \<Rightarrow> Token list \<Rightarrow> Scan \<Rightarrow> ScanEnd" where
  "process_file_tokens opts H canon tokens sc =
     (let st = sc_state sc;
          leave = leave_file tokens (length (ps_conditional_stack st)) (ps_cond_base st) (ps_guarded_file st)
      in case process_tokens opts H canon tokens 0 (sc\<lparr>sc_state := enter_file canon tokens st\<rparr>) of
           Finished sc' \<Rightarrow> left_file (leave True (sc_state sc')) sc' Finished
         | Aborted message sc' \<Rightarrow> left_file (leave False (sc_state sc')) sc' (Aborted message)
         | r \<Rightarrow> r)"

end
