(* ===== verification/Pp_Cond_Chains.thy ===== *)
theory Pp_Cond_Chains
  imports Pp_File
begin

text \<open>
  The recorded chains. Whatever sequence of directives a run meets, with recording on or off, the indices the frames hold are in
  range and the depth a chain records never falls below zero (so no directive panics), no two open frames record into one chain, and a
  chain records at most one arm as taken.
\<close>

section \<open>The invariant\<close>

definition outcomes :: "ConditionalChain \<Rightarrow> ArmOutcome list" where
  "outcomes k = map arm_outcome_of (cc_arms k)"

definition frame_chains :: "CondFrame list \<Rightarrow> nat list" where
  "frame_chains s = List.map_filter fr_chain s"

definition frame_fits :: "ConditionalChain list \<Rightarrow> CondFrame \<Rightarrow> bool" where
  "frame_fits ks fr \<longleftrightarrow> (case fr_chain fr of None \<Rightarrow> True | Some c \<Rightarrow> c < length ks \<and> (Taken \<in> set (outcomes (ks ! c)) \<longrightarrow> fr_taken fr))"

definition chains_ok :: "PreprocessorState \<Rightarrow> bool" where
  "chains_ok st \<longleftrightarrow> list_all (frame_fits (ps_conditionals st)) (ps_conditional_stack st) \<and> distinct (frame_chains (ps_conditional_stack st)) \<and>
     list_all (\<lambda>k. count_list (outcomes k) Taken \<le> 1) (ps_conditionals st)"

lemma frame_chains_simps [simp]:
  "frame_chains [] = []" "frame_chains (s @ s') = frame_chains s @ frame_chains s'"
  "frame_chains [fr] = (case fr_chain fr of None \<Rightarrow> [] | Some c \<Rightarrow> [c])"
  by (simp_all add: frame_chains_def List.map_filter_def split: option.split)

lemma in_frame_chains: "fr \<in> set s \<Longrightarrow> fr_chain fr = Some c \<Longrightarrow> c \<in> set (frame_chains s)"
  by (auto simp: frame_chains_def List.map_filter_def intro!: image_eqI [where x = fr])

lemma frame_chains_bound: "list_all (frame_fits ks) s \<Longrightarrow> c \<in> set (frame_chains s) \<Longrightarrow> c < length ks"
  by (auto simp: frame_chains_def List.map_filter_def list_all_iff frame_fits_def)

lemma outcomes_simps [simp]:
  "outcomes (k\<lparr>cc_arms := arms\<rparr>) = map arm_outcome_of arms" "outcomes (k\<lparr>cc_terminated := b\<rparr>) = outcomes k"
  "outcomes (k\<lparr>cc_include_guard := b\<rparr>) = outcomes k" "outcomes (end_last_arm l k) = outcomes k"
proof -
  have "map arm_outcome_of (butlast xs @ [(last xs)\<lparr>arm_end_line := l\<rparr>]) = map arm_outcome_of xs" if "xs \<noteq> []" for xs :: "ConditionalArm list"
    using that by (cases xs rule: rev_cases) auto
  then show "outcomes (end_last_arm l k) = outcomes k" by (simp add: outcomes_def end_last_arm_def)
qed (simp_all add: outcomes_def)

lemma chains_ok_reads: "reads_only st st' \<Longrightarrow> chains_ok st' = chains_ok st"
  by (simp add: reads_only_def chains_ok_def)

lemma chains_ok_cong:
  "ps_conditional_stack st' = ps_conditional_stack st \<Longrightarrow> ps_conditionals st' = ps_conditionals st \<Longrightarrow> chains_ok st' = chains_ok st"
  by (simp add: chains_ok_def)

text \<open>With the base of the file that is being read, which no directive moves.\<close>

definition cond_ok :: "nat \<Rightarrow> PreprocessorState \<Rightarrow> bool" where
  "cond_ok b st \<longleftrightarrow> chains_ok st \<and> ps_cond_base st = b \<and> b \<le> length (ps_conditional_stack st)"

lemma cond_ok_cong:
  "ps_conditional_stack st' = ps_conditional_stack st \<Longrightarrow> ps_conditionals st' = ps_conditionals st \<Longrightarrow> ps_cond_base st' = ps_cond_base st \<Longrightarrow>
     cond_ok b st' = cond_ok b st"
  by (simp add: cond_ok_def chains_ok_def)

lemma cond_ok_reads: "reads_only st st' \<Longrightarrow> cond_ok b st' = cond_ok b st"
  by (rule cond_ok_cong) (simp_all add: reads_only_def)

section \<open>Opening a chain\<close>

lemma open_chain_ok:
  assumes "chains_ok st" "open_chain canon arm st = Some (chain, st')" "arm_outcome_of arm = Taken \<longrightarrow> is_active st \<and> b"
  shows "chains_ok (push_cond b l chain st')"
proof (cases "ps_record_conditionals st")
  case False
  then show ?thesis using assms by (auto simp: open_chain_def push_cond_def chains_ok_def frame_fits_def Let_def)
next
  case True
  define k where "k = \<lparr>cc_file = canon (ps_current_file st), cc_arms = [arm], cc_depth = length (ps_conditional_stack st) - ps_cond_base st,
             cc_terminated = False, cc_include_guard = False\<rparr>"
  have st': "st' = st\<lparr>ps_conditionals := ps_conditionals st @ [k]\<rparr>" "chain = Some (length (ps_conditionals st))"
    using assms(2) True by (auto simp: open_chain_def k_def split: if_splits)
  have old: "frame_fits (ps_conditionals st @ [k]) fr" if "fr \<in> set (ps_conditional_stack st)" for fr
  proof -
    have "frame_fits (ps_conditionals st) fr" using that assms(1) by (auto simp: chains_ok_def list_all_iff)
    then show ?thesis by (auto simp: frame_fits_def nth_append split: option.splits)
  qed
  have "length (ps_conditionals st) \<notin> set (frame_chains (ps_conditional_stack st))"
    using frame_chains_bound [of "ps_conditionals st" "ps_conditional_stack st" "length (ps_conditionals st)"] assms(1) by (auto simp: chains_ok_def)
  moreover have "outcomes k = [arm_outcome_of arm]" by (simp add: outcomes_def k_def)
  ultimately show ?thesis using assms(1,3) old
    by (auto simp: st' push_cond_def chains_ok_def frame_fits_def list_all_iff Let_def is_active_def)
qed

lemma open_chain_Some:
  assumes "cond_ok b st" "arm_outcome_of arm = Taken \<longrightarrow> is_active st \<and> c"
  shows "\<exists>chain st'. open_chain canon arm st = Some (chain, st') \<and> cond_ok b (push_cond c l chain st') \<and>
    (\<forall>k. chain = Some k \<longrightarrow> k < length (ps_conditionals (push_cond c l chain st')))"
proof -
  obtain chain st' where o1: "open_chain canon arm st = Some (chain, st')" 
    using assms(1) by (cases "ps_record_conditionals st") (auto simp: open_chain_def cond_ok_def)
  have "chains_ok (push_cond c l chain st')" using open_chain_ok [OF _ o1 assms(2)] assms(1) by (simp add: cond_ok_def)
  then have "cond_ok b (push_cond c l chain st')" using o1 assms(1)
    by (auto simp: cond_ok_def open_chain_def push_cond_def Let_def split: if_splits)
  moreover have "k < length (ps_conditionals (push_cond c l chain st'))" if "chain = Some k" for k
    using o1 that by (auto simp: open_chain_def push_cond_def Let_def split: if_splits)
  ultimately show ?thesis using o1 by blast
qed

section \<open>Changing the innermost chain\<close>

lemma update_chain_ok:
  assumes "chains_ok st" "\<And>c. chain = Some c \<Longrightarrow> c < length (ps_conditionals st)" "\<And>k. outcomes (f k) = outcomes k"
  shows "\<exists>st'. update_chain chain f st = Some st' \<and> chains_ok st' \<and> ps_conditional_stack st' = ps_conditional_stack st \<and> ps_cond_base st' = ps_cond_base st \<and>
    length (ps_conditionals st') = length (ps_conditionals st) \<and> (\<forall>c < length (ps_conditionals st). outcomes (ps_conditionals st' ! c) = outcomes (ps_conditionals st ! c))"
proof (cases chain)
  case None
  then show ?thesis using assms(1) by (simp add: update_chain_def)
next
  case (Some c)
  then have c: "c < length (ps_conditionals st)" using assms(2) by simp
  let ?ks = "(ps_conditionals st)[c := f (ps_conditionals st ! c)]"
  have out: "outcomes (?ks ! d) = outcomes (ps_conditionals st ! d)" if "d < length (ps_conditionals st)" for d
    using that c assms(3) [of "ps_conditionals st ! c"] by (cases "c = d") simp_all
  have "frame_fits ?ks fr" if "frame_fits (ps_conditionals st) fr" for fr using that out by (auto simp: frame_fits_def split: option.splits)
  moreover have "list_all (\<lambda>k. count_list (outcomes k) Taken \<le> 1) ?ks"
    using assms(1) out by (simp add: chains_ok_def list_all_length)
  ultimately show ?thesis using Some c assms(1) out
    by (auto simp: update_chain_def vget_def vset_def chains_ok_def list_all_iff)
qed

lemma add_arm_ok:
  assumes "chains_ok (with_stack (S @ [fr]) st)" "arm_outcome_of arm = Taken \<longrightarrow> \<not> fr_taken fr \<and> fr_taken fr'" "fr_taken fr \<longrightarrow> fr_taken fr'"
    "fr_chain fr' = fr_chain fr"
  shows "\<exists>st'. add_arm (fr_chain fr) l arm (with_stack (S @ [fr']) st) = Some st' \<and> chains_ok st' \<and> ps_conditional_stack st' = S @ [fr'] \<and>
    ps_cond_base st' = ps_cond_base st"
proof (cases "fr_chain fr")
  case None
  then show ?thesis using assms(1,4) by (auto simp: add_arm_def close_arm_def update_chain_def chains_ok_def frame_fits_def)
next
  case (Some c)
  have ok: "chains_ok (with_stack (S @ [fr']) st)" using assms(1,3,4) by (auto simp: chains_ok_def frame_fits_def split: option.splits)
  have c: "c < length (ps_conditionals st)" "c \<notin> set (frame_chains S)" and taken: "Taken \<in> set (outcomes (ps_conditionals st ! c)) \<longrightarrow> fr_taken fr"
    using assms(1) Some by (auto simp: chains_ok_def frame_fits_def)
  obtain s where s: "close_arm (Some c) l (with_stack (S @ [fr']) st) = Some s" "chains_ok s" "ps_conditional_stack s = S @ [fr']" "ps_cond_base s = ps_cond_base st"
    "length (ps_conditionals s) = length (ps_conditionals st)" "outcomes (ps_conditionals s ! c) = outcomes (ps_conditionals st ! c)"
    using update_chain_ok [OF ok, of "Some c" "end_last_arm l"] c(1) unfolding close_arm_def by auto
  let ?k = "(ps_conditionals s ! c)\<lparr>cc_arms := cc_arms (ps_conditionals s ! c) @ [arm]\<rparr>"
  have k: "outcomes ?k = outcomes (ps_conditionals st ! c) @ [arm_outcome_of arm]" using s(6) by (simp add: outcomes_def)
  have "frame_fits ((ps_conditionals s)[c := ?k]) f" if "f \<in> set S" for f
  proof -
    have "frame_fits (ps_conditionals s) f" "fr_chain f \<noteq> Some c" using that s(2,3) c(2) in_frame_chains by (auto simp: chains_ok_def list_all_iff)
    then show ?thesis by (auto simp: frame_fits_def split: option.splits)
  qed
  moreover have "frame_fits ((ps_conditionals s)[c := ?k]) fr'"
    using Some assms(2-4) taken c(1) s(5) k by (auto simp: frame_fits_def)
  moreover have "count_list (outcomes ?k) Taken \<le> 1"
  proof -
    have "count_list (outcomes (ps_conditionals st ! c)) Taken \<le> 1" using assms(1) c(1) by (auto simp: chains_ok_def list_all_length)
    then show ?thesis using k taken assms(2) by (auto simp: count_list_0_iff)
  qed
  moreover have "list_all (\<lambda>k. count_list (outcomes k) Taken \<le> 1) (ps_conditionals s)" "distinct (frame_chains (S @ [fr']))"
    using s(2,3) by (auto simp: chains_ok_def)
  ultimately have "chains_ok (s\<lparr>ps_conditionals := (ps_conditionals s)[c := ?k]\<rparr>)"
    using s(3) by (auto simp: chains_ok_def list_all_iff dest!: set_update_subset_insert [THEN subsetD])
  then show ?thesis using Some s c(1) by (simp add: add_arm_def update_chain_def vget_def vset_def)
qed

section \<open>Every directive\<close>

fun directed_state :: "Directed \<Rightarrow> PreprocessorState option" where
  "directed_state (DNext i st) = Some st"
| "directed_state (DError m st) = Some st"
| "directed_state (DInclude i st) = Some st"
| "directed_state (DDefine i st) = Some st"
| "directed_state (DPragma i st) = Some st"
| "directed_state DPanic = None"

definition keeps_chains :: "nat \<Rightarrow> Directed \<Rightarrow> bool" where
  "keeps_chains b r \<longleftrightarrow> (\<exists>st. directed_state r = Some st \<and> cond_ok b st)"

lemma keeps_chains_simps [simp]:
  "keeps_chains b (DNext i st) = cond_ok b st" "keeps_chains b (DError m st) = cond_ok b st" "keeps_chains b (DInclude i st) = cond_ok b st"
  "keeps_chains b (DDefine i st) = cond_ok b st" "keeps_chains b (DPragma i st) = cond_ok b st" "\<not> keeps_chains b DPanic"
  by (simp_all add: keeps_chains_def)

lemma report_reads_only: "reads_only st (report v l m st)"
  by (auto simp: reads_only_def report_def push_diagnostic_def Let_def settled_names_def last_map)

lemma cond_ok_report: "cond_ok b (report v l m st) = cond_ok b st"
  using cond_ok_reads [OF report_reads_only] .

lemma cond_ok_begin [simp]: "cond_ok b (begin_reads st) = cond_ok b st" "ps_conditional_stack (begin_reads st) = ps_conditional_stack st"
  "ps_conditionals (begin_reads st) = ps_conditionals st" "ps_cond_base (begin_reads st) = ps_cond_base st" "is_active (begin_reads st) = is_active st"
  by (simp_all add: begin_reads_def cond_ok_def chains_ok_def is_active_def)

lemma cond_ok_end [simp]: "cond_ok b (snd (end_reads st)) = cond_ok b st" "ps_conditional_stack (snd (end_reads st)) = ps_conditional_stack st"
  "ps_conditionals (snd (end_reads st)) = ps_conditionals st" "ps_cond_base (snd (end_reads st)) = ps_cond_base st" "is_active (snd (end_reads st)) = is_active st"
  by (simp_all add: end_reads_def cond_ok_def chains_ok_def is_active_def)

text \<open>A condition leaves the stack and the chains alone.\<close>

lemma controlling_chains:
  assumes "i \<le> length tokens"
  shows "\<exists>b j expr rs st'. controlling H e tokens i st = Some (b, j, expr, rs, st') \<and> ps_conditional_stack st' = ps_conditional_stack st \<and>
     ps_conditionals st' = ps_conditionals st \<and> ps_cond_base st' = ps_cond_base st \<and> (\<not> e \<longrightarrow> \<not> b)"
proof -
  let ?j = "skip_directive_line tokens i"
  obtain b s where s: "(if e then expand_and_eval_condition H tokens i (begin_reads st) else Some (False, ?j, st)) = Some (b, ?j, s)"
    "ps_conditional_stack s = ps_conditional_stack st" "ps_conditionals s = ps_conditionals st" "ps_cond_base s = ps_cond_base st" "\<not> e \<longrightarrow> \<not> b"
    using eval_condition_Some [OF assms, of H "begin_reads st"] by (cases e) (auto simp: reads_only_def)
  have "controlling H e tokens i st = Some (b, ?j, drop i (take ?j tokens),
      if e then fst (end_reads s) else spelled_reads (drop i (take ?j tokens)), snd (end_reads s))"
    using assms by (simp add: controlling_def s(1) line_slice case_prod_beta Let_def)
  then show ?thesis using s(2-5) by auto
qed

lemma guard_ok:
  assumes "cond_ok b (push_cond c l chain st)" "\<And>k. chain = Some k \<Longrightarrow> k < length (ps_conditionals (push_cond c l chain st))" "start \<le> length tokens"
  shows "keeps_chains b (after (mark_include_guard chain tokens start (push_cond c l chain st)) i)"
proof -
  let ?st = "push_cond c l chain st"
  obtain st' where "update_chain chain (\<lambda>k. k\<lparr>cc_include_guard := True\<rparr>) ?st = Some st'" "cond_ok b st'"
    using update_chain_ok [of ?st chain "\<lambda>k. k\<lparr>cc_include_guard := True\<rparr>"] assms(1,2) by (auto simp: cond_ok_def)
  moreover have "ps_conditional_stack ?st \<noteq> []" by (simp add: push_cond_def Let_def)
  ultimately show ?thesis using assms(1,3) by (auto simp: mark_include_guard_def vslice_def after_def)
qed

lemma outcome_taken [simp]: "arm_outcome e b = Taken \<longleftrightarrow> e \<and> b"
  by (simp add: arm_outcome_def)

lemma mk_arm_outcome [simp]: "arm_outcome_of (mk_arm d e l oc ev rs) = oc"
  by (simp add: mk_arm_def)

lemma handle_ifdef_chains:
  assumes "cond_ok b st" "start \<le> length tokens"
  shows "keeps_chains b (handle_ifdef H canon tokens start i line record_line negate st)"
proof (cases "is_active st")
  case True
  show ?thesis
  proof (cases "read_directive_ident tokens i")
    case None
    then show ?thesis using True assms by (simp add: handle_ifdef_def Let_def directive_error_def cond_ok_report)
  next
    case (Some r)
    obtain name i1 where r: "r = (name, i1)" by fastforce
    let ?d = "is_defined_for_conditionals H name (begin_reads st)"
    let ?s = "snd (end_reads (snd ?d))"
    have s: "cond_ok b ?s" "is_active ?s"
      using assms True is_defined_reads_only [of "begin_reads st" H name] cond_ok_reads [of "begin_reads st" "snd ?d" b]
      by (auto simp: reads_only_def is_active_def)
    define cond where "cond \<longleftrightarrow> fst ?d \<noteq> negate"
    let ?arm = "mk_arm (if negate then ArmIfndef else ArmIfdef) name record_line (arm_outcome True cond) True (fst (end_reads (snd ?d)))"
    obtain chain s3 where o1: "open_chain canon ?arm ?s = Some (chain, s3)" "cond_ok b (push_cond cond line chain s3)"
      "\<And>k. chain = Some k \<Longrightarrow> k < length (ps_conditionals (push_cond cond line chain s3))"
      using open_chain_Some [OF s(1), of ?arm cond canon line] s(2) mk_arm_outcome outcome_taken by metis
    have "handle_ifdef H canon tokens start i line record_line negate st =
        after (if negate then mark_include_guard chain tokens start (push_cond cond line chain s3) else Some (push_cond cond line chain s3)) i1"
      using True Some r o1(1) unfolding cond_def by (simp only: handle_ifdef_def Let_def case_prod_beta if_True option.case prod.case fst_conv snd_conv o1(1))
    then show ?thesis using guard_ok [OF o1(2,3) assms(2)] o1(2) by (auto simp: after_def)
  qed
next
  case False
  let ?op = "take (min (length (directive_rest tokens i)) 1) (directive_rest tokens i)"
  let ?arm = "mk_arm (if negate then ArmIfndef else ArmIfdef) (case ?op of [] \<Rightarrow> [] | t # _ \<Rightarrow> (case ident_name t of Some n \<Rightarrow> n | None \<Rightarrow> []))
    record_line Unevaluated False (map (\<lambda>n. \<lparr>cr_name = n, cr_bound = None\<rparr>) (List.map_filter ident_name ?op))"
  obtain chain s where "open_chain canon ?arm st = Some (chain, s)" "cond_ok b (push_cond False line chain s)"
    using open_chain_Some [OF assms(1), of ?arm False canon line] mk_arm_outcome ArmOutcome.distinct by metis
  then show ?thesis using False by (simp add: handle_ifdef_def Let_def)
qed

lemma handle_if_chains:
  assumes "cond_ok b st" "start \<le> length tokens" "i \<le> length tokens"
  shows "keeps_chains b (handle_if H canon tokens start i line record_line st)"
proof -
  obtain c j expr rs s where c: "controlling H (is_active st) tokens i st = Some (c, j, expr, rs, s)" "ps_conditional_stack s = ps_conditional_stack st"
    "ps_conditionals s = ps_conditionals st" "ps_cond_base s = ps_cond_base st" using controlling_chains [OF assms(3)] by blast
  then have s: "cond_ok b s" "is_active s = is_active st" using assms(1) cond_ok_cong [of s st] by (auto simp: is_active_def)
  let ?arm = "mk_arm ArmIf (spell_condition expr) record_line (arm_outcome (is_active st) c) (is_active st) rs"
  obtain chain s2 where o1: "open_chain canon ?arm s = Some (chain, s2)" "cond_ok b (push_cond c line chain s2)"
    "\<And>k. chain = Some k \<Longrightarrow> k < length (ps_conditionals (push_cond c line chain s2))"
    using open_chain_Some [OF s(1), of ?arm c canon line] s(2) mk_arm_outcome outcome_taken by metis
  show ?thesis using c(1) o1(1,2) guard_ok [OF o1(2,3) assms(2)] by (auto simp: handle_if_def Let_def after_def)
qed

lemma top_cond_frame:
  assumes "has_own_cond st"
  obtains S fr where "st = with_stack (S @ [fr]) st" "ps_conditional_stack st = S @ [fr]"
proof -
  have "ps_conditional_stack st \<noteq> []" using assms by (auto simp: has_own_cond_def)
  then have "ps_conditional_stack st = butlast (ps_conditional_stack st) @ [last (ps_conditional_stack st)]" by simp
  then show thesis using that [of "butlast (ps_conditional_stack st)" "last (ps_conditional_stack st)"] with_own_stack [of st] by metis
qed

lemma handle_else_chains:
  assumes "cond_ok b st"
  shows "keeps_chains b (handle_else i line record_line st)"
proof (cases "has_own_cond st")
  case True
  then obtain S fr where st: "st = with_stack (S @ [fr]) st" "ps_conditional_stack st = S @ [fr]" by (rule top_cond_frame)
  let ?a = "fr_parent_active fr \<and> \<not> fr_taken fr"
  let ?fr = "fr\<lparr>fr_active := ?a, fr_taken := True, fr_else_seen := True\<rparr>"
  have t: "set_top (\<lambda>f. f\<lparr>fr_active := ?a, fr_taken := True, fr_else_seen := True\<rparr>) st = with_stack (S @ [?fr]) st"
    using st set_top_stack by metis
  obtain st' where "add_arm (fr_chain fr) record_line (mk_arm ArmElse [] record_line (arm_outcome (fr_parent_active fr) ?a) False []) (with_stack (S @ [?fr]) st) = Some st'"
    "cond_ok b st'" using add_arm_ok [of S fr st "mk_arm ArmElse [] record_line (arm_outcome (fr_parent_active fr) ?a) False []" ?fr record_line] assms st
    by (auto simp: cond_ok_def)
  then show ?thesis using True st(2) t by (simp add: handle_else_def after_def Let_def)
qed (use assms in \<open>simp add: handle_else_def directive_error_def cond_ok_report\<close>)

lemma handle_elif_chains:
  assumes "cond_ok b st" "i \<le> length tokens"
  shows "keeps_chains b (handle_elif H tokens i line record_line st)"
proof (cases "has_own_cond st")
  case True
  then obtain S fr where st: "st = with_stack (S @ [fr]) st" "ps_conditional_stack st = S @ [fr]" by (rule top_cond_frame)
  let ?e = "fr_parent_active fr \<and> \<not> fr_taken fr \<and> \<not> fr_else_seen fr"
  obtain c j expr rs s where c: "controlling H ?e tokens i st = Some (c, j, expr, rs, s)" "ps_conditional_stack s = S @ [fr]"
    "ps_conditionals s = ps_conditionals st" "ps_cond_base s = ps_cond_base st" using controlling_chains [OF assms(2), of H ?e st] st(2) by auto
  define s2 where "s2 = (if fr_else_seen fr then warn line (str ''#elif after #else; branch ignored'') s else s)"
  have s2: "ps_conditional_stack s2 = S @ [fr]" "ps_conditionals s2 = ps_conditionals st" "ps_cond_base s2 = ps_cond_base st"
    using c(2-4) report_reads_only [of s] by (auto simp: s2_def warn_def reads_only_def)
  then have ok: "chains_ok (with_stack (S @ [fr]) s2)" using assms(1) st(2) chains_ok_cong [of "with_stack (S @ [fr]) s2" st] by (simp add: cond_ok_def)
  let ?a = "fr_parent_active fr \<and> \<not> fr_taken fr \<and> c"
  let ?fr = "fr\<lparr>fr_active := ?a, fr_taken := fr_taken fr \<or> ?a\<rparr>"
  let ?arm = "mk_arm ArmElif (spell_condition expr) record_line (arm_outcome (fr_parent_active fr) ?a) ?e rs"
  have t: "set_top (\<lambda>f. f\<lparr>fr_active := ?a, fr_taken := fr_taken f \<or> ?a\<rparr>) s2 = with_stack (S @ [?fr]) s2"
    using set_top_stack [of _ S fr s2] with_own_stack [of s2] s2(1) by simp
  obtain st' where "add_arm (fr_chain fr) record_line ?arm (with_stack (S @ [?fr]) s2) = Some st'" "cond_ok b st'"
    using add_arm_ok [OF ok, of ?arm ?fr record_line] assms(1) st(2) s2(3) by (auto simp: cond_ok_def)
  then show ?thesis using True st(2) c(1) t s2 by (simp add: handle_elif_def s2_def [symmetric] after_def Let_def)
qed (use assms in \<open>simp add: handle_elif_def directive_error_def cond_ok_report\<close>)

lemma close_chain_ok:
  assumes "chains_ok st" "\<And>c. chain = Some c \<Longrightarrow> c < length (ps_conditionals st)"
  shows "\<exists>st'. close_arm chain l st = Some st' \<and> chains_ok st' \<and> ps_conditional_stack st' = ps_conditional_stack st \<and> ps_cond_base st' = ps_cond_base st \<and>
    length (ps_conditionals st') = length (ps_conditionals st)"
  using update_chain_ok [OF assms(1), of chain "end_last_arm l"] assms(2) by (auto simp: close_arm_def)

lemma chains_ok_take: "chains_ok st \<Longrightarrow> chains_ok (st\<lparr>ps_conditional_stack := take n (ps_conditional_stack st)\<rparr>)"
  using frame_chains_simps(2) [of "take n (ps_conditional_stack st)" "drop n (ps_conditional_stack st)"]
  by (auto simp: chains_ok_def list_all_iff dest: in_set_takeD)

lemma frame_chain_in: "chains_ok st \<Longrightarrow> fr \<in> set (ps_conditional_stack st) \<Longrightarrow> fr_chain fr = Some c \<Longrightarrow> c < length (ps_conditionals st)"
  by (auto simp: chains_ok_def list_all_iff frame_fits_def)

lemma handle_endif_chains:
  assumes "cond_ok b st"
  shows "keeps_chains b (handle_endif i line record_line st)"
proof (cases "has_own_cond st")
  case True
  let ?chain = "fr_chain (last (ps_conditional_stack st))"
  have ok: "chains_ok st" and ne: "ps_conditional_stack st \<noteq> []" using True assms by (auto simp: has_own_cond_def cond_ok_def)
  then have c: "\<And>c. ?chain = Some c \<Longrightarrow> c < length (ps_conditionals st)" using frame_chain_in [OF ok last_in_set] by blast
  let ?s = "st\<lparr>ps_conditional_stack := butlast (ps_conditional_stack st)\<rparr>"
  have "chains_ok ?s" using chains_ok_take [OF ok, of "length (ps_conditional_stack st) - 1"] by (simp add: butlast_conv_take)
  from close_chain_ok [OF this, of ?chain record_line] c obtain s where
    s: "close_arm ?chain record_line ?s = Some s" "chains_ok s" "ps_conditional_stack s = butlast (ps_conditional_stack st)"
      "ps_cond_base s = ps_cond_base st" "length (ps_conditionals s) = length (ps_conditionals st)" by auto
  from update_chain_ok [OF s(2), of ?chain "\<lambda>k. k\<lparr>cc_terminated := True\<rparr>"] c s(5) obtain s' where
    s': "update_chain ?chain (\<lambda>k. k\<lparr>cc_terminated := True\<rparr>) s = Some s'" "chains_ok s'" "ps_conditional_stack s' = butlast (ps_conditional_stack st)"
      "ps_cond_base s' = ps_cond_base st" using s(3,4) by auto
  then have "cond_ok b s'" using True assms by (auto simp: cond_ok_def has_own_cond_def)
  then show ?thesis using True s(1) s'(1) by (simp add: handle_endif_def Let_def after_def)
qed (use assms in \<open>simp add: handle_endif_def directive_error_def cond_ok_report\<close>)

lemma keeps_chains_directive:
  assumes "cond_ok b st"
  shows "keeps_chains b (handle_directive H canon tokens start st)"
proof -
  have rm: "cond_ok b (remove_macro n st) = cond_ok b st" for n
    by (rule cond_ok_cong) (simp_all add: remove_macro_def note_local_binding_def Let_def)
  have d: "keeps_chains b (dispatch H canon tokens start i line record_line d st)" if "start \<le> length tokens" "i \<le> length tokens" for i line record_line d
    using assms that rm handle_ifdef_chains [OF assms] handle_if_chains [OF assms] handle_elif_chains [OF assms] handle_else_chains [OF assms]
      handle_endif_chains [OF assms]
    by (simp add: dispatch_def report_message_def warn_def directive_error_def cond_ok_report Let_def split: option.split)
  moreover have "keeps_chains b (finish_line tokens r) = keeps_chains b r" for r by (cases r) (simp_all add: finish_line_def)
  moreover have "start \<le> length tokens" if "skip_newlines tokens (start + 1) < length tokens"
    using that skip_newlines_le [of "start + 1" tokens] by linarith
  ultimately show ?thesis using assms
    by (simp add: handle_directive_def directive_error_def cond_ok_report Let_def split: TokenKind.split)
qed

section \<open>Every file\<close>

lemma cond_ok_enter: "chains_ok st \<Longrightarrow> cond_ok (length (ps_conditional_stack st)) (enter_file canon tokens st)"
  using chains_ok_cong [of "enter_file canon tokens st" st]
  by (simp add: cond_ok_def enter_file_def record_guard_def Let_def split: option.split)

lemma close_all_ok:
  assumes "chains_ok st" "\<And>fr c. fr \<in> set frs \<Longrightarrow> fr_chain fr = Some c \<Longrightarrow> c < length (ps_conditionals st)"
  shows "\<exists>st'. foldM (\<lambda>s fr. close_arm (fr_chain fr) l s) st frs = Some st' \<and> chains_ok st' \<and> ps_conditional_stack st' = ps_conditional_stack st \<and>
    ps_cond_base st' = ps_cond_base st"
  using assms
proof (induction frs arbitrary: st)
  case (Cons fr frs)
  obtain s where s: "close_arm (fr_chain fr) l st = Some s" "chains_ok s" "ps_conditional_stack s = ps_conditional_stack st" "ps_cond_base s = ps_cond_base st"
    "length (ps_conditionals s) = length (ps_conditionals st)"
    using close_chain_ok [OF Cons.prems(1), of "fr_chain fr" l] Cons.prems(2) [of fr] by auto
  have "\<exists>st'. foldM (\<lambda>s fr. close_arm (fr_chain fr) l s) s frs = Some st' \<and> chains_ok st' \<and> ps_conditional_stack st' = ps_conditional_stack s \<and>
      ps_cond_base st' = ps_cond_base s"
    using Cons.prems(2) s(5) by (intro Cons.IH [OF s(2)]) auto
  then show ?case using s by simp
qed simp

lemma leave_file_ok:
  assumes "chains_ok st"
  shows "\<exists>st'. leave_file tokens depth outer_base outer_guarded is_ok st = Some st' \<and> chains_ok st' \<and>
    ps_conditional_stack st' = take depth (ps_conditional_stack st) \<and> ps_cond_base st' = outer_base"
proof -
  define s1 where "s1 = st\<lparr>ps_cond_base := outer_base, ps_guarded_file := outer_guarded\<rparr>"
  have reports: "reads_only s (fold (\<lambda>fr. report SevError (fr_line fr) m) frs s)" for frs :: "CondFrame list" and m s
  proof (induction frs arbitrary: s)
    case (Cons fr frs)
    then show ?case using reads_only_trans [OF report_reads_only Cons] by simp
  qed simp
  define s2 where "s2 = (if is_ok then fold (\<lambda>fr. report SevError (fr_line fr) (str ''unterminated #if; conditional closed at end of file''))
      (drop depth (ps_conditional_stack s1)) s1 else s1)"
  have "chains_ok s1" using assms chains_ok_cong [of s1 st] by (simp add: s1_def)
  moreover have "reads_only s1 s2" unfolding s2_def using reports by simp
  ultimately have s2: "chains_ok s2" "ps_conditionals s2 = ps_conditionals st" "ps_conditional_stack s2 = ps_conditional_stack st" "ps_cond_base s2 = outer_base"
    using chains_ok_reads [of s1 s2] by (auto simp: reads_only_def s1_def)
  obtain s3 where s3: "foldM (\<lambda>s fr. close_arm (fr_chain fr) (last_line tokens) s) s2 (drop depth (ps_conditional_stack s1)) = Some s3" "chains_ok s3"
    "ps_conditional_stack s3 = ps_conditional_stack st" "ps_cond_base s3 = outer_base"
    using close_all_ok [OF s2(1), of "drop depth (ps_conditional_stack s1)" "last_line tokens"] s2(2-4) frame_chain_in [OF assms]
    by (auto simp: s1_def dest!: in_set_dropD)
  then show ?thesis using chains_ok_take [OF s3(2), of depth] by (simp add: leave_file_def Let_def s1_def [symmetric] s2_def [symmetric])
qed

text \<open>
  The states of a run: directives of any text, files entered and left, and everything else a run does, which leaves frames, chains and base
  alone. Files nest: what \<^verbatim>\<open>process_file_tokens\<close> keeps in its local variables (the depth of the stack, the outer base and the outer guard)
  while it reads a file is the stack \<open>saved\<close>, and the file left is the one entered last.
\<close>

type_synonym saved = "(nat \<times> nat \<times> bool) list"

inductive reached :: "(HashItem list \<Rightarrow> 64 word) \<Rightarrow> (ustring \<Rightarrow> ustring) \<Rightarrow> saved \<Rightarrow> PreprocessorState \<Rightarrow> bool" for H canon where
  start: "ps_conditional_stack st = [] \<Longrightarrow> ps_conditionals st = [] \<Longrightarrow> ps_cond_base st = 0 \<Longrightarrow> reached H canon [] st"
| directive: "reached H canon saved st \<Longrightarrow> directed_state (handle_directive H canon tokens i st) = Some st' \<Longrightarrow> reached H canon saved st'"
| enter: "reached H canon saved st \<Longrightarrow>
    reached H canon ((length (ps_conditional_stack st), ps_cond_base st, ps_guarded_file st) # saved) (enter_file canon tokens st)"
| leave: "reached H canon ((depth, outer_base, outer_guarded) # saved) st \<Longrightarrow>
    leave_file tokens depth outer_base outer_guarded is_ok st = Some st' \<Longrightarrow> reached H canon saved st'"
| other: "reached H canon saved st \<Longrightarrow> ps_conditional_stack st' = ps_conditional_stack st \<Longrightarrow> ps_conditionals st' = ps_conditionals st \<Longrightarrow>
    ps_cond_base st' = ps_cond_base st \<Longrightarrow> reached H canon saved st'"

text \<open>The base is the depth at which the current file was entered, and each outer base is at most that depth.\<close>

fun saved_ok :: "nat \<Rightarrow> saved \<Rightarrow> bool" where
  "saved_ok b [] \<longleftrightarrow> True"
| "saved_ok b ((depth, outer_base, outer_guarded) # saved) \<longleftrightarrow> b = depth \<and> outer_base \<le> depth \<and> saved_ok outer_base saved"

lemma reached_cond_ok: "reached H canon saved st \<Longrightarrow> cond_ok (ps_cond_base st) st \<and> saved_ok (ps_cond_base st) saved"
proof (induction rule: reached.induct)
  case (start st)
  then show ?case by (simp add: cond_ok_def chains_ok_def)
next
  case (directive saved st tokens i st')
  have "keeps_chains (ps_cond_base st) (handle_directive H canon tokens i st)" using directive.IH keeps_chains_directive by blast
  then have "cond_ok (ps_cond_base st) st'" using directive.hyps(2) by (simp add: keeps_chains_def)
  then show ?case using directive.IH by (simp add: cond_ok_def)
next
  case (enter saved st tokens)
  then show ?case using cond_ok_enter [of st canon tokens] by (auto simp: cond_ok_def)
next
  case (leave depth outer_base outer_guarded saved st tokens is_ok st')
  then show ?case using leave_file_ok [of st tokens depth outer_base outer_guarded is_ok] by (auto simp: cond_ok_def)
next
  case (other saved st st')
  then show ?case using cond_ok_cong [of st' st] by simp
qed

text \<open>C32: whatever directives, well placed or stray, and whatever nesting of files a run meets, with conditionals recorded or not, no
  directive and no end of a file panics: no chain that does not exist is indexed, no slice is out of range and the depth recorded with
  a chain is never below zero. Every recorded chain has at most one arm recorded as taken, however many of its conditions hold and however often
  \<^verbatim>\<open>#else\<close> is repeated.
\<close>

theorem recorded_chains_take_one_arm:
  assumes "reached H canon saved st"
  shows "handle_directive H canon tokens i st \<noteq> DPanic \<and> leave_file tokens depth outer_base outer_guarded is_ok st \<noteq> None \<and>
    list_all (\<lambda>k. count_list (map arm_outcome_of (cc_arms k)) Taken \<le> 1) (ps_conditionals st)"
proof -
  have ok: "cond_ok (ps_cond_base st) st" using reached_cond_ok [OF assms] by blast
  then have "handle_directive H canon tokens i st \<noteq> DPanic" using keeps_chains_directive [OF ok, of H canon tokens i] by auto
  moreover have chains: "chains_ok st" using ok by (simp add: cond_ok_def)
  then have "leave_file tokens depth outer_base outer_guarded is_ok st \<noteq> None" using leave_file_ok by fastforce
  ultimately show ?thesis using chains by (simp add: chains_ok_def outcomes_def)
qed

definition recording_state :: PreprocessorState where
  "recording_state = empty_state\<lparr>ps_record_conditionals := True\<rparr>"

theorem recorded_chains_take_one_arm_witness:
  "handle_directive (\<lambda>_. 7) id (fst (line_of [Identifier (str ''ifdef''), Identifier (str ''A'')])) 0 (enter_file id [] recording_state) \<noteq> DPanic"
proof -
  have "reached (\<lambda>_. 7) id [] recording_state" by (rule reached.start) (simp_all add: recording_state_def empty_state_def)
  from recorded_chains_take_one_arm [OF reached.enter [OF this, of "[]"]] show ?thesis by blast
qed

end
