(* ===== verification/Pp_Guard.thy ===== *)
theory Pp_Guard
  imports Pp_File
begin

text \<open>
  Include guards. \<^verbatim>\<open>process_file\<close> skips a repeated include when the guard read off the file's tokens is defined (\<^verbatim>\<open>guard_suppresses\<close>). The skip is
  sound: with the guard defined, running the file prints nothing but line ends and leaves the macros, the conditionals and their stack as they were.
  The loop of \<^verbatim>\<open>detect_include_guard\<close> over directives and the token loop walk the file together, the latter through groups that are all inactive.
\<close>

section \<open>Lines\<close>

definition after_line :: "Token list \<Rightarrow> nat \<Rightarrow> nat" where
  "after_line tokens i = (let e = skip_directive_line tokens i in if e < length tokens \<and> is_newline (tokens ! e) then e + 1 else e)"

definition aligned :: "Token list \<Rightarrow> nat \<Rightarrow> bool" where
  "aligned tokens i \<longleftrightarrow> at_beginning_of_line tokens i \<or> \<not> i < length tokens \<or> ends_line (tokens ! i)"

lemma within_line: "i \<le> m \<Longrightarrow> m < skip_directive_line tokens i \<Longrightarrow> m < length tokens \<and> \<not> ends_line (tokens ! m)"
proof -
  assume m: "i \<le> m" "m < skip_directive_line tokens i"
  let ?n = "length (takeWhile (\<lambda>t. \<not> ends_line t) (drop i tokens))"
  have n: "m - i < ?n" using m by (simp add: skip_directive_line_def)
  then have "takeWhile (\<lambda>t. \<not> ends_line t) (drop i tokens) ! (m - i) = drop i tokens ! (m - i)" by (rule takeWhile_nth)
  moreover have "?n \<le> length (drop i tokens)" by (rule length_takeWhile_le)
  ultimately show ?thesis using n m nth_mem [OF n] set_takeWhileD [of _ "\<lambda>t. \<not> ends_line t" "drop i tokens"] by auto
qed

lemma line_end: "skip_directive_line tokens i < length tokens \<Longrightarrow> ends_line (tokens ! skip_directive_line tokens i)"
  using nth_length_takeWhile [of "\<lambda>t. \<not> ends_line t" "drop i tokens"] by (simp add: skip_directive_line_def)

lemma within_newlines: "i \<le> m \<Longrightarrow> m < skip_newlines tokens i \<Longrightarrow> m < length tokens \<and> tok_kind (tokens ! m) = Newline"
proof -
  assume m: "i \<le> m" "m < skip_newlines tokens i"
  let ?n = "length (takeWhile (\<lambda>t. tok_kind t = Newline) (drop i tokens))"
  have n: "m - i < ?n" using m by (simp add: skip_newlines_def)
  then have "takeWhile (\<lambda>t. tok_kind t = Newline) (drop i tokens) ! (m - i) = drop i tokens ! (m - i)" by (rule takeWhile_nth)
  moreover have "?n \<le> length (drop i tokens)" by (rule length_takeWhile_le)
  ultimately show ?thesis using n m nth_mem [OF n] set_takeWhileD [of _ "\<lambda>t. tok_kind t = Newline" "drop i tokens"] by auto
qed

lemma skip_line_stop: "\<not> i < length tokens \<or> ends_line (tokens ! i) \<Longrightarrow> skip_directive_line tokens i = i"
  by (cases "i < length tokens") (auto simp: skip_directive_line_def Cons_nth_drop_Suc [symmetric])

lemma skip_line_next: "i < length tokens \<Longrightarrow> \<not> ends_line (tokens ! i) \<Longrightarrow> skip_directive_line tokens i = skip_directive_line tokens (i + 1)"
  by (simp add: skip_directive_line_def Cons_nth_drop_Suc [symmetric])

lemma skip_newlines_stop: "\<not> i < length tokens \<or> tok_kind (tokens ! i) \<noteq> Newline \<Longrightarrow> skip_newlines tokens i = i"
  by (cases "i < length tokens") (auto simp: skip_newlines_def Cons_nth_drop_Suc [symmetric])

lemma skip_newlines_next: "i < length tokens \<Longrightarrow> tok_kind (tokens ! i) = Newline \<Longrightarrow> skip_newlines tokens i = skip_newlines tokens (i + 1)"
  by (simp add: skip_newlines_def Cons_nth_drop_Suc [symmetric])

lemma skip_line_within: "i \<le> k \<Longrightarrow> k \<le> skip_directive_line tokens i \<Longrightarrow> skip_directive_line tokens k = skip_directive_line tokens i"
proof (induction "k - i" arbitrary: i)
  case (Suc n)
  then have "i < skip_directive_line tokens i" by linarith
  then have i: "i < length tokens" "\<not> ends_line (tokens ! i)" using within_line [of i i tokens] by auto
  then have "skip_directive_line tokens i = skip_directive_line tokens (i + 1)" by (rule skip_line_next)
  then show ?case using Suc.hyps(1) [of "i + 1"] Suc.hyps(2) Suc.prems by simp
qed simp

lemma skip_to_newline_line: "skip_to_newline tokens i = after_line tokens i"
  by (simp add: skip_to_newline_def after_line_def skip_directive_line_def ends_line_def is_newline_def is_eof_def)

lemma skip_to_newline_within: "i \<le> k \<Longrightarrow> k \<le> skip_directive_line tokens i \<Longrightarrow> skip_to_newline tokens k = after_line tokens i"
  using skip_line_within [of i k tokens] by (simp add: skip_to_newline_line after_line_def)

lemma after_line_aligned: "aligned tokens (after_line tokens i)"
  using line_end [of tokens i] by (auto simp: after_line_def aligned_def at_beginning_of_line_def is_newline_def Let_def)

lemma skip_line_aligned: "aligned tokens (skip_directive_line tokens i)"
  using line_end [of tokens i] by (auto simp: aligned_def)

text \<open>The next directive does not depend on where on its line the previous one was left.\<close>

lemma next_directive_newlines: "skip_newlines tokens i = skip_newlines tokens j \<Longrightarrow> next_directive tokens i = next_directive tokens j"
  by (subst (1 2) next_directive.simps) simp

lemma next_directive_line_end: "next_directive tokens (skip_directive_line tokens i) = next_directive tokens (after_line tokens i)"
  by (rule next_directive_newlines) (auto simp: after_line_def Let_def is_newline_def skip_newlines_next)

lemma next_directive_after:
  assumes "i < length tokens \<Longrightarrow> tok_kind (tokens ! i) \<noteq> Hash"
  shows "next_directive tokens i = next_directive tokens (after_line tokens i)"
proof (cases "i < length tokens \<and> \<not> ends_line (tokens ! i)")
  case True
  then have "skip_newlines tokens i = i" by (intro skip_newlines_stop) (auto simp: ends_line_def)
  then have "next_directive tokens i = next_directive tokens (skip_directive_line tokens i)"
    using True assms by (subst next_directive.simps) (auto simp: Let_def ends_line_def)
  then show ?thesis by (simp add: next_directive_line_end)
next
  case False
  then have "skip_directive_line tokens i = i" by (intro skip_line_stop) auto
  then show ?thesis using next_directive_line_end [of tokens i] by simp
qed

section \<open>The token loop over what it skips\<close>

definition charge_one :: "Scan \<Rightarrow> Scan" where
  "charge_one sc = sc\<lparr>sc_tokens_processed := sc_tokens_processed sc + 1\<rparr>"

text \<open>The limits leave room for the tokens from a position on.\<close>

definition room :: "ResourceLimits \<Rightarrow> Token list \<Rightarrow> nat \<Rightarrow> Scan \<Rightarrow> bool" where
  "room opts tokens i sc \<longleftrightarrow> sc_tokens_processed sc + (length tokens - i) \<le> max_expanded_tokens opts \<and> max_expanded_tokens opts < 2 ^ 64 \<and>
     sc_output_len sc + (length tokens - i) \<le> max_output_bytes opts"

lemma room_charge_one: "room opts tokens i sc \<Longrightarrow> i < length tokens \<Longrightarrow> i < j \<Longrightarrow> room opts tokens j ((charge_one sc)\<lparr>sc_state := st\<rparr>)"
  by (auto simp: room_def charge_one_def)

lemma check_passes: "room opts tokens i sc \<Longrightarrow> i < length tokens \<Longrightarrow> check_resource_limits opts line sc = Inr (charge_one sc)"
  by (auto simp: check_resource_limits_def room_def charge_one_def saturating_add_def Let_def)

definition reaches ::
  "ResourceLimits \<Rightarrow> (HashItem list \<Rightarrow> 64 word) \<Rightarrow> (ustring \<Rightarrow> ustring) \<Rightarrow> Token list \<Rightarrow> nat \<Rightarrow> Scan \<Rightarrow> nat \<Rightarrow> Scan \<Rightarrow> bool" where
  "reaches opts H canon tokens i sc j sc' \<longleftrightarrow>
     process_tokens opts H canon tokens i sc = process_tokens opts H canon tokens j sc' \<and> room opts tokens j sc'"

lemma scan_reaches_trans: "reaches opts H canon tokens i sc j sc' \<Longrightarrow> reaches opts H canon tokens j sc' k sc'' \<Longrightarrow> reaches opts H canon tokens i sc k sc''"
  by (simp add: reaches_def)

lemma reaches_refl: "room opts tokens i sc \<Longrightarrow> reaches opts H canon tokens i sc i sc"
  by (simp add: reaches_def)

lemma reaches_newline:
  assumes "room opts tokens i sc" "i < length tokens" "tok_kind (tokens ! i) = Newline"
  shows "\<exists>sc'. reaches opts H canon tokens i sc (i + 1) sc' \<and> sc_state sc' = sc_state sc"
proof -
  have a: "is_active (sc_state (charge_one sc)) = is_active (sc_state sc)" by (simp add: charge_one_def)
  have "process_tokens opts H canon tokens i sc =
      process_tokens opts H canon tokens (i + 1) (if is_active (sc_state sc) then emit_newline (charge_one sc) else charge_one sc)"
    using assms check_passes [OF assms(1,2)] a by (subst process_tokens.simps) simp
  moreover have "room opts tokens (i + 1) (if is_active (sc_state sc) then emit_newline (charge_one sc) else charge_one sc)"
    using assms(1,2) by (auto simp: room_def charge_one_def emit_newline_def)
  ultimately show ?thesis
    by (intro exI [of _ "if is_active (sc_state sc) then emit_newline (charge_one sc) else charge_one sc"])
      (simp add: reaches_def charge_one_def emit_newline_def)
qed

lemma reaches_skip:
  assumes "room opts tokens i sc" "i < length tokens" "tok_kind (tokens ! i) \<noteq> Eof" "\<not> (tok_kind (tokens ! i) = Hash \<and> at_beginning_of_line tokens i)"
    "\<not> is_active (sc_state sc)"
  shows "reaches opts H canon tokens i sc (i + 1) (charge_one sc)"
proof -
  have "\<not> is_active (sc_state (charge_one sc))" using assms(5) by (simp add: charge_one_def)
  then have "process_tokens opts H canon tokens i sc = process_tokens opts H canon tokens (i + 1) (charge_one sc)"
    using assms check_passes [OF assms(1,2)] by (subst process_tokens.simps) auto
  then show ?thesis using room_charge_one [OF assms(1,2), of "i + 1" "sc_state sc"] by (simp add: reaches_def charge_one_def)
qed

lemma reaches_directive:
  assumes "room opts tokens i sc" "i < length tokens" "tok_kind (tokens ! i) = Hash" "at_beginning_of_line tokens i"
    "handle_directive H canon tokens i (sc_state sc) = DNext j st"
  shows "\<exists>sc'. reaches opts H canon tokens i sc j sc' \<and> sc_state sc' = st"
proof -
  have "process_tokens opts H canon tokens i sc = process_tokens opts H canon tokens j ((charge_one sc)\<lparr>sc_state := st\<rparr>)"
    using assms check_passes [OF assms(1,2)] by (subst process_tokens.simps) (simp add: charge_one_def)
  then show ?thesis using room_charge_one [OF assms(1,2) handle_directive_forward [OF assms(5)], of st]
    by (intro exI [of _ "(charge_one sc)\<lparr>sc_state := st\<rparr>"]) (simp add: reaches_def)
qed

lemma reaches_newlines:
  assumes "\<And>m. i \<le> m \<Longrightarrow> m < j \<Longrightarrow> m < length tokens \<and> tok_kind (tokens ! m) = Newline" "i \<le> j" "room opts tokens i sc"
  shows "\<exists>sc'. reaches opts H canon tokens i sc j sc' \<and> sc_state sc' = sc_state sc"
  using assms
proof (induction "j - i" arbitrary: i sc)
  case 0
  then show ?case using reaches_refl by (intro exI [of _ sc]) simp
next
  case (Suc n)
  have n: "n = j - (i + 1)" "i + 1 \<le> j" using Suc.hyps(2) by linarith+
  obtain s where s: "reaches opts H canon tokens i sc (i + 1) s" "sc_state s = sc_state sc" using reaches_newline [of opts tokens i sc H canon] Suc.prems n by auto
  then have "room opts tokens (i + 1) s" by (simp add: reaches_def)
  then obtain s' where "reaches opts H canon tokens (i + 1) s j s'" "sc_state s' = sc_state s" using Suc.hyps(1) [of "i + 1" s] Suc.prems(1) n by auto
  then show ?case using s scan_reaches_trans by metis
qed

lemma reaches_skipped:
  assumes "\<And>m. i \<le> m \<Longrightarrow> m < j \<Longrightarrow> m < length tokens \<and> tok_kind (tokens ! m) \<noteq> Eof \<and> \<not> (tok_kind (tokens ! m) = Hash \<and> at_beginning_of_line tokens m)"
    "i \<le> j" "room opts tokens i sc" "\<not> is_active (sc_state sc)"
  shows "\<exists>sc'. reaches opts H canon tokens i sc j sc' \<and> sc_state sc' = sc_state sc"
  using assms
proof (induction "j - i" arbitrary: i sc)
  case 0
  then show ?case using reaches_refl by (intro exI [of _ sc]) simp
next
  case (Suc n)
  have n: "n = j - (i + 1)" "i + 1 \<le> j" using Suc.hyps(2) by linarith+
  have s: "reaches opts H canon tokens i sc (i + 1) (charge_one sc)" "sc_state (charge_one sc) = sc_state sc"
    using reaches_skip [of opts tokens i sc H canon] Suc.prems n by (auto simp: charge_one_def)
  then have "room opts tokens (i + 1) (charge_one sc)" by (simp add: reaches_def)
  then obtain s' where "reaches opts H canon tokens (i + 1) (charge_one sc) j s'" "sc_state s' = sc_state (charge_one sc)"
    using Suc.hyps(1) [of "i + 1" "charge_one sc"] Suc.prems(1,4) n s(2) by auto
  then show ?case using s scan_reaches_trans by metis
qed

lemma tail_finishes:
  assumes "list_all ends_line (drop i tokens)" "room opts tokens i sc"
  shows "\<exists>sc'. process_tokens opts H canon tokens i sc = Finished sc' \<and> sc_state sc' = sc_state sc"
  using assms
proof (induction "length tokens - i" arbitrary: i sc)
  case 0
  then show ?case by (subst process_tokens.simps) simp
next
  case (Suc n)
  then have i: "i < length tokens" by linarith
  then have t: "ends_line (tokens ! i)" "list_all ends_line (drop (i + 1) tokens)" using Suc.prems(1) by (simp_all add: Cons_nth_drop_Suc [symmetric])
  show ?case
  proof (cases "tok_kind (tokens ! i) = Newline")
    case True
    obtain s where s: "reaches opts H canon tokens i sc (i + 1) s" "sc_state s = sc_state sc" using reaches_newline [OF Suc.prems(2) i True] by blast
    have n: "n = length tokens - (i + 1)" using Suc.hyps(2) by linarith
    obtain s' where "process_tokens opts H canon tokens (i + 1) s = Finished s'" "sc_state s' = sc_state s"
      using Suc.hyps(1) [OF n t(2), of s] s(1) by (auto simp: reaches_def)
    then show ?thesis using s by (simp add: reaches_def)
  next
    case False
    then have "tok_kind (tokens ! i) = Eof" using t(1) by (simp add: ends_line_def)
    then show ?thesis using check_passes [OF Suc.prems(2) i] i by (subst process_tokens.simps) (simp add: charge_one_def)
  qed
qed

section \<open>Directives of a skipped group\<close>

definition regular_directives :: "Token list \<Rightarrow> bool" where
  "regular_directives tokens \<longleftrightarrow>
     list_all (\<lambda>i. tok_kind (tokens ! i) = Hash \<and> at_beginning_of_line tokens i \<longrightarrow>
         i + 1 < length tokens \<and> tok_kind (tokens ! (i + 1)) \<noteq> Newline \<and>
         (ident_at tokens (i + 1) \<noteq> None \<and> i + 2 < length tokens \<longrightarrow> tok_kind (tokens ! (i + 2)) \<noteq> Hash))
       [0..<length tokens]"

lemma regularD:
  assumes "regular_directives tokens" "i < length tokens" "tok_kind (tokens ! i) = Hash" "at_beginning_of_line tokens i"
  shows "i + 1 < length tokens" "tok_kind (tokens ! (i + 1)) \<noteq> Newline"
    "ident_at tokens (i + 1) \<noteq> None \<Longrightarrow> i + 2 < length tokens \<Longrightarrow> tok_kind (tokens ! (i + 2)) \<noteq> Hash"
  using assms by (auto simp: regular_directives_def list_all_iff)

text \<open>In inactive text the loop walks to the directive that \<open>next_directive\<close> finds.\<close>

lemma walks_to_directive:
  assumes "regular_directives tokens"
  shows "next_directive tokens i = Some (d, j) \<Longrightarrow> aligned tokens i \<Longrightarrow> room opts tokens i sc \<Longrightarrow> \<not> is_active (sc_state sc) \<Longrightarrow>
    \<exists>sc'. reaches opts H canon tokens i sc (j - 2) sc' \<and> sc_state sc' = sc_state sc \<and> at_beginning_of_line tokens (j - 2)"
  using assms
proof (induction tokens i arbitrary: sc rule: next_directive.induct)
  case (1 tokens i)
  let ?k = "skip_newlines tokens i"
  obtain s where s: "reaches opts H canon tokens i sc ?k s" "sc_state s = sc_state sc"
    using reaches_newlines [of i ?k tokens opts sc H canon] within_newlines [of i _ tokens] 1(5) by auto
  have room: "room opts tokens ?k s" using s(1) by (simp add: reaches_def)
  have bol: "at_beginning_of_line tokens ?k" if "?k < length tokens" "tok_kind (tokens ! ?k) \<noteq> Eof"
  proof (cases "?k = i")
    case True
    then show ?thesis using 1(4) that skip_newlines_kind [of tokens i] by (auto simp: aligned_def ends_line_def)
  next
    case False
    then have "i \<le> ?k - 1" "?k - 1 < ?k" using skip_newlines_le [of i tokens] by linarith+
    then show ?thesis using within_newlines [of i "?k - 1" tokens] by (simp add: at_beginning_of_line_def)
  qed
  show ?case
  proof (cases tokens i rule: next_directive_cases)
    case none
    then show ?thesis using 1(3) by simp
  next
    case (found d')
    then show ?thesis using 1(3) s bol by auto
  next
    case marker
    have at: "at_beginning_of_line tokens ?k" using marker bol by simp
    note reg = regularD [OF 1(7) marker(1,2) at]
    have "handle_directive H canon tokens ?k (sc_state s) = DNext (skip_directive_line tokens (?k + 1)) (sc_state s)"
      using reg(1,2) marker(3) 1(6) s(2) skip_newlines_stop [of "?k + 1" tokens]
      by (auto simp: handle_directive_def ident_at_def ident_name_def Let_def split: TokenKind.splits)
    then obtain s' where s': "reaches opts H canon tokens ?k s (skip_directive_line tokens (?k + 1)) s'" "sc_state s' = sc_state sc"
      using reaches_directive [OF room marker(1,2) at, of H canon] s(2) by metis
    then show ?thesis using 1(1) [OF refl, of s'] marker 1(3,6,7) s skip_line_aligned [of tokens "?k + 1"] scan_reaches_trans
      by (auto simp: reaches_def)
  next
    case text_line
    let ?e = "skip_directive_line tokens ?k"
    have "m < length tokens \<and> tok_kind (tokens ! m) \<noteq> Eof \<and> \<not> (tok_kind (tokens ! m) = Hash \<and> at_beginning_of_line tokens m)" if "?k \<le> m" "m < ?e" for m
    proof -
      have "\<not> at_beginning_of_line tokens m" if "m \<noteq> ?k"
        using within_line [of ?k "m - 1" tokens] that \<open>?k \<le> m\<close> \<open>m < ?e\<close> by (auto simp: at_beginning_of_line_def ends_line_def)
      then show ?thesis using within_line [OF that] text_line(2) by (cases "m = ?k") (auto simp: ends_line_def)
    qed
    then obtain s' where s': "reaches opts H canon tokens ?k s ?e s'" "sc_state s' = sc_state sc"
      using reaches_skipped [of ?k ?e tokens opts s H canon] room 1(6) s(2) by auto
    then show ?thesis using 1(2) [OF refl, of s'] text_line 1(3,6,7) s skip_line_aligned [of tokens ?k] scan_reaches_trans
      by (auto simp: reaches_def ends_line_def)
  qed
qed

text \<open>Everything but the stack is as it was, up to what was read and reported.\<close>

definition skims :: "PreprocessorState \<Rightarrow> PreprocessorState \<Rightarrow> bool" where
  "skims st st' \<longleftrightarrow> reads_only (with_stack [] st) (with_stack [] st') \<and> quiet st'"

lemma skims_stack: "quiet st \<Longrightarrow> skims st (with_stack s st)"
  by (simp add: skims_def)

lemma skims_reads: "reads_only st st' \<Longrightarrow> quiet st' \<Longrightarrow> skims st (with_stack s st')"
  by (auto simp: skims_def reads_only_def with_stack_def settled_names_def quiet_def)

lemma skims_trans: "skims st st' \<Longrightarrow> skims st' st'' \<Longrightarrow> skims st st''"
  by (auto simp: skims_def intro: reads_only_trans)

lemma skims_base: "skims st st' \<Longrightarrow> ps_cond_base st' = ps_cond_base st" "skims st st' \<Longrightarrow> quiet st'"
  by (auto simp: skims_def reads_only_def)

lemma report_quiet_reads: "quiet st \<Longrightarrow> quiet (report v l m st)" "reads_only st (report v l m st)"
  by (auto simp: quiet_def report_def push_diagnostic_def reads_only_def Let_def settled_names_def last_map)

text \<open>A directive line in place: its name follows the \<^verbatim>\<open>#\<close>.\<close>

lemma directive_in_place:
  assumes "h + 1 < length tokens" "tok_kind (tokens ! (h + 1)) = Identifier d"
  shows "handle_directive H canon tokens h st =
    finish_line tokens (dispatch H canon tokens h (h + 2) (tok_line (tokens ! (h + 1))) (tok_line (tokens ! h)) d st)"
proof -
  have "name_pos (tokens, h) = h + 1" using assms by (simp add: name_pos_def skip_newlines_stop)
  moreover have "directive_name (tokens, h) = Some d" using assms calculation by (simp add: directive_name_def ident_name_def)
  ultimately show ?thesis using directed [of "(tokens, h)" d H canon st] by simp
qed

definition shut :: "CondFrame \<Rightarrow> bool" where
  "shut fr \<longleftrightarrow> \<not> fr_active fr \<and> fr_chain fr = None"

definition skipped :: "CondFrame list \<Rightarrow> nat \<Rightarrow> PreprocessorState \<Rightarrow> bool" where
  "skipped S depth st \<longleftrightarrow> quiet st \<and> ps_cond_base st \<le> length S \<and>
     (\<exists>fr frs. ps_conditional_stack st = S @ fr # frs \<and> length frs + 1 = depth \<and> shut fr \<and> list_all (\<lambda>f. shut f \<and> \<not> fr_parent_active f) frs)"

lemma skipped_inactive: "skipped S depth st \<Longrightarrow> \<not> is_active st"
  by (auto simp: skipped_def is_active_def shut_def list_all_iff last_ConsR dest: last_in_set split: if_splits)

lemma skipped_top:
  assumes "skipped S depth st"
  obtains T tp where "ps_conditional_stack st = T @ [tp]" "shut tp" "ps_cond_base st \<le> length T" "quiet st"
    "depth = 1 \<Longrightarrow> T = S" "depth \<noteq> 1 \<Longrightarrow> \<not> fr_parent_active tp \<and> 1 < depth \<and> skipped S (depth - 1) (with_stack T st)"
proof -
  obtain fr frs where f: "ps_conditional_stack st = S @ fr # frs" "length frs + 1 = depth" "shut fr" "list_all (\<lambda>f. shut f \<and> \<not> fr_parent_active f) frs"
    "quiet st" "ps_cond_base st \<le> length S" using assms by (auto simp: skipped_def)
  show thesis
  proof (cases frs rule: rev_cases)
    case Nil
    then show thesis using that [of S fr] f by simp
  next
    case (snoc T' tp)
    have "skipped S (depth - 1) (with_stack (S @ fr # T') st)" using f snoc by (auto simp: skipped_def)
    then show thesis using that [of "S @ fr # T'" tp] f snoc by simp
  qed
qed

lemma skipped_push: "skipped S depth st \<Longrightarrow> skipped S (depth + 1) (push_cond False l None st)"
proof -
  assume s: "skipped S depth st"
  then have "\<not> is_active st" by (rule skipped_inactive)
  moreover obtain fr frs where "ps_conditional_stack st = S @ fr # frs" "length frs + 1 = depth" "shut fr" "list_all (\<lambda>f. shut f \<and> \<not> fr_parent_active f) frs"
    "quiet st" "ps_cond_base st \<le> length S" using s by (auto simp: skipped_def)
  ultimately show ?thesis unfolding skipped_def push_cond_stack
    by (auto simp: frame_of_def shut_def intro!: exI [of _ fr] exI [of _ "frs @ [frame_of False False l]"])
qed

lemma skipped_replace:
  assumes "skipped S (depth - 1) (with_stack T st)" "1 < depth" "shut tp" "\<not> fr_parent_active tp" "quiet st'" "ps_cond_base st' = ps_cond_base st"
  shows "skipped S depth (with_stack (T @ [tp]) st')"
proof -
  obtain fr frs where "T = S @ fr # frs" "length frs + 1 = depth - 1" "shut fr" "list_all (\<lambda>f. shut f \<and> \<not> fr_parent_active f) frs" "ps_cond_base st \<le> length S"
    using assms(1) by (auto simp: skipped_def)
  then show ?thesis using assms(2-6) by (auto simp: skipped_def intro!: exI [of _ fr] exI [of _ "frs @ [tp]"])
qed

lemma inactive_opener:
  assumes "quiet st" "\<not> is_active st" "h + 1 < length tokens" "tok_kind (tokens ! (h + 1)) = Identifier d" "d \<in> {str ''if'', str ''ifdef'', str ''ifndef''}"
  shows "\<exists>l. handle_directive H canon tokens h st = DNext (after_line tokens (h + 2)) (push_cond False l None st)"
  using directive_in_place [OF assms(3,4), of H canon st] assms(1-3,5) skip_to_newline_within [of "h + 2" "skip_directive_line tokens (h + 2)" tokens]
  by (auto simp: dispatch_def handle_ifdef_def handle_if_def controlling_quiet quiet_chain after_def finish_line_def Let_def skip_to_newline_line)

lemma skipped_opener:
  assumes "skipped S depth st" "h + 1 < length tokens" "tok_kind (tokens ! (h + 1)) = Identifier d" "d \<in> {str ''if'', str ''ifdef'', str ''ifndef''}"
  shows "\<exists>st'. handle_directive H canon tokens h st = DNext (after_line tokens (h + 2)) st' \<and> skipped S (depth + 1) st' \<and> skims st st'"
proof -
  have q: "quiet st" and i: "\<not> is_active st" using assms(1) skipped_inactive [OF assms(1)] by (simp_all add: skipped_def)
  have "skims st (push_cond False l None st)" for l using q by (simp add: push_cond_stack skims_stack)
  then show ?thesis using inactive_opener [OF q i assms(2-4), of H canon] skipped_push [OF assms(1)] by metis
qed

lemma skipped_arm:
  assumes "skipped S depth st" "depth \<noteq> 1" "h + 1 < length tokens" "tok_kind (tokens ! (h + 1)) = Identifier d" "d \<in> {str ''elif'', str ''else''}"
  shows "\<exists>st'. handle_directive H canon tokens h st = DNext (after_line tokens (h + 2)) st' \<and> skipped S depth st' \<and> skims st st'"
proof -
  obtain T tp where t: "ps_conditional_stack st = T @ [tp]" "shut tp" "ps_cond_base st \<le> length T" "quiet st"
    "\<not> fr_parent_active tp" "1 < depth" "skipped S (depth - 1) (with_stack T st)" using skipped_top [OF assms(1)] assms(2) by metis
  have own: "has_own_cond st" using t(1,3) by (simp add: has_own_cond_def)
  show ?thesis
  proof (cases "d = str ''else''")
    case True
    let ?tp = "tp\<lparr>fr_active := False, fr_taken := True, fr_else_seen := True\<rparr>"
    have "handle_directive H canon tokens h st = DNext (after_line tokens (h + 2)) (with_stack (T @ [?tp]) st)"
      using directive_in_place [OF assms(3,4), of H canon st] True own t(1,2,5)
      by (simp add: dispatch_def handle_else_def set_top_def quiet_chain after_def finish_line_def Let_def skip_to_newline_line shut_def with_stack_def)
    then show ?thesis using skipped_replace [OF t(7,6), of ?tp st] t(2,4,5) skims_stack [OF t(4)] by (auto simp: shut_def)
  next
    case False
    then have d: "d = str ''elif''" using assms(5) by simp
    have within: "Suc (Suc h) \<le> length tokens" using assms(3) by simp
    define s where "s = (if fr_else_seen tp then warn (tok_line (tokens ! (h + 1))) (str ''#elif after #else; branch ignored'') st else st)"
    let ?tp = "tp\<lparr>fr_active := False\<rparr>"
    have s: "quiet s" "reads_only st s" using report_quiet_reads [of st] t(4) by (simp_all add: s_def warn_def)
    then have st: "ps_conditional_stack s = T @ [tp]" "ps_cond_base s = ps_cond_base st" using t(1) by (auto simp: reads_only_def)
    have "handle_directive H canon tokens h st = DNext (after_line tokens (h + 2)) (with_stack (T @ [?tp]) s)"
      using directive_in_place [OF assms(3,4), of H canon st] d own t(1,2,5) st(1) skip_to_newline_within [of "h + 2" "skip_directive_line tokens (h + 2)" tokens]
      by (cases "fr_else_seen tp") (simp_all add: dispatch_def handle_elif_def controlling_quiet [OF t(4) within] set_top_def quiet_chain after_def finish_line_def
        Let_def shut_def with_stack_def s_def)
    then show ?thesis using skipped_replace [OF t(7,6), of ?tp s] t(2,5) s st(2) skims_reads [OF s(2,1)] by (auto simp: shut_def)
  qed
qed

lemma skipped_endif:
  assumes "skipped S depth st" "h + 1 < length tokens" "tok_kind (tokens ! (h + 1)) = Identifier (str ''endif'')"
  shows "\<exists>st'. handle_directive H canon tokens h st = DNext (after_line tokens (h + 2)) st' \<and> skims st st' \<and>
    (if depth = 1 then ps_conditional_stack st' = S else skipped S (depth - 1) st')"
proof -
  obtain T tp where t: "ps_conditional_stack st = T @ [tp]" "shut tp" "ps_cond_base st \<le> length T" "quiet st"
    "depth = 1 \<Longrightarrow> T = S" "depth \<noteq> 1 \<Longrightarrow> skipped S (depth - 1) (with_stack T st)" using skipped_top [OF assms(1)] by metis
  have own: "has_own_cond st" using t(1,3) by (simp add: has_own_cond_def)
  have "handle_directive H canon tokens h st = DNext (after_line tokens (h + 2)) (with_stack T st)"
    using directive_in_place [OF assms(2,3), of H canon st] own t(1,2)
    by (simp add: dispatch_def handle_endif_def quiet_chain after_def finish_line_def Let_def skip_to_newline_line shut_def with_stack_def)
  then show ?thesis using t(5,6) skims_stack [OF t(4)] by auto
qed

lemma skipped_other:
  assumes "skipped S depth st" "h + 1 < length tokens" "tok_kind (tokens ! (h + 1)) = Identifier d"
    "d \<notin> {str ''if'', str ''ifdef'', str ''ifndef'', str ''elif'', str ''else'', str ''endif''}"
  shows "handle_directive H canon tokens h st = DNext (after_line tokens (h + 2)) st"
  using directive_in_place [OF assms(2,3), of H canon st] skipped_inactive [OF assms(1)] assms(4)
  by (simp add: dispatch_def finish_line_def skip_to_newline_line)

section \<open>A guarded file\<close>

lemma guarded_body_skipped:
  assumes "regular_directives tokens"
  shows "guard_loop tokens name depth i = Some nm \<Longrightarrow> next_directive tokens p = next_directive tokens i \<Longrightarrow> aligned tokens p \<Longrightarrow>
    room opts tokens p sc \<Longrightarrow> skipped S depth (sc_state sc) \<Longrightarrow>
    \<exists>sc'. process_tokens opts H canon tokens p sc = Finished sc' \<and> ps_conditional_stack (sc_state sc') = S \<and> skims (sc_state sc) (sc_state sc')"
  using assms
proof (induction tokens name depth i arbitrary: p sc rule: guard_loop.induct)
  case (1 tokens name depth i)
  obtain d j where dj: "next_directive tokens i = Some (d, j)" using 1(4) by (subst (asm) guard_loop.simps) (auto split: option.splits)
  note shape = next_directive_shape [OF dj]
  obtain s where s: "reaches opts H canon tokens p sc (j - 2) s" "sc_state s = sc_state sc" "at_beginning_of_line tokens (j - 2)"
    using walks_to_directive [OF 1(9), of p d j opts sc H canon] 1(5-7) dj skipped_inactive [OF 1(8)] by auto
  have h: "j - 2 < length tokens" "j - 2 + 1 < length tokens" "tok_kind (tokens ! (j - 2)) = Hash" "tok_kind (tokens ! (j - 2 + 1)) = Identifier d"
    "j - 2 + 2 = j"
  proof -
    have "j - 2 + 1 = j - 1" "2 \<le> j" using shape by linarith+
    then show "j - 2 < length tokens" "j - 2 + 1 < length tokens" "tok_kind (tokens ! (j - 2)) = Hash" "tok_kind (tokens ! (j - 2 + 1)) = Identifier d"
      "j - 2 + 2 = j" using shape by auto
  qed
  have room: "room opts tokens (j - 2) s" and run: "process_tokens opts H canon tokens p sc = process_tokens opts H canon tokens (j - 2) s"
    using s(1) by (auto simp: reaches_def)
  have go: "\<exists>s'. process_tokens opts H canon tokens p sc = process_tokens opts H canon tokens (after_line tokens j) s' \<and> sc_state s' = st \<and>
      room opts tokens (after_line tokens j) s'" if "handle_directive H canon tokens (j - 2) (sc_state sc) = DNext (after_line tokens (j - 2 + 2)) st" for st
    using reaches_directive [OF room h(1,3) s(3), of H canon "after_line tokens j" st] that run s(2) h(5) by (auto simp: reaches_def)
  have "next_directive tokens (after_line tokens j) = next_directive tokens j"
    using regularD(3) [OF 1(9) h(1,3) s(3)] h(2,4,5) by (intro next_directive_after [symmetric]) (simp add: ident_at_def ident_name_def)
  note on = this after_line_aligned [of tokens j]
  have finished: ?case if "\<exists>sc'. process_tokens opts H canon tokens (after_line tokens j) s' = Finished sc' \<and> ps_conditional_stack (sc_state sc') = S \<and>
      skims (sc_state s') (sc_state sc')" "process_tokens opts H canon tokens p sc = process_tokens opts H canon tokens (after_line tokens j) s'"
      "skims (sc_state sc) (sc_state s')" for s' using that skims_trans by metis
  note step = 1(4) [unfolded guard_loop.simps [of tokens name depth i]]
  consider (opener) "d \<in> {str ''if'', str ''ifdef'', str ''ifndef''}" | (arm) "d \<in> {str ''elif'', str ''else''}" | (closed) "d = str ''endif''"
    | (other) "d \<notin> {str ''if'', str ''ifdef'', str ''ifndef'', str ''elif'', str ''else'', str ''endif''}" by blast
  then show ?case
  proof cases
    case opener
    obtain st where st: "handle_directive H canon tokens (j - 2) (sc_state sc) = DNext (after_line tokens (j - 2 + 2)) st"
      "skipped S (depth + 1) st" "skims (sc_state sc) st" using skipped_opener [OF 1(8) h(2,4) opener] by blast
    obtain s' where s': "process_tokens opts H canon tokens p sc = process_tokens opts H canon tokens (after_line tokens j) s'" "sc_state s' = st"
      "room opts tokens (after_line tokens j) s'" using go [OF st(1)] by blast
    have loop: "guard_loop tokens name (depth + 1) j = Some nm" using step dj opener by auto
    show ?thesis using 1(1) [OF dj refl opener loop on s'(3) _ 1(9)] s' st by (intro finished [of s']) auto
  next
    case arm
    then have depth: "depth \<noteq> 1" using step dj by auto
    obtain st where st: "handle_directive H canon tokens (j - 2) (sc_state sc) = DNext (after_line tokens (j - 2 + 2)) st"
      "skipped S depth st" "skims (sc_state sc) st" using skipped_arm [OF 1(8) depth h(2,4) arm] by blast
    obtain s' where s': "process_tokens opts H canon tokens p sc = process_tokens opts H canon tokens (after_line tokens j) s'" "sc_state s' = st"
      "room opts tokens (after_line tokens j) s'" using go [OF st(1)] by blast
    have loop: "guard_loop tokens name depth j = Some nm" using step dj arm depth by (auto split: if_splits)
    have d: "\<not> d \<in> {str ''if'', str ''ifdef'', str ''ifndef''}" "\<not> (d \<in> {str ''elif'', str ''else''} \<and> depth = 1)" "d \<noteq> str ''endif''"
      using arm depth by auto
    show ?thesis using 1(3) [OF dj refl d loop on s'(3) _ 1(9)] s' st by (intro finished [of s']) auto
  next
    case closed
    obtain st where st: "handle_directive H canon tokens (j - 2) (sc_state sc) = DNext (after_line tokens (j - 2 + 2)) st" "skims (sc_state sc) st"
      "if depth = 1 then ps_conditional_stack st = S else skipped S (depth - 1) st" using skipped_endif [OF 1(8) h(2)] h(4) closed by blast
    obtain s' where s': "process_tokens opts H canon tokens p sc = process_tokens opts H canon tokens (after_line tokens j) s'" "sc_state s' = st"
      "room opts tokens (after_line tokens j) s'" using go [OF st(1)] by blast
    have pos: "depth \<noteq> 0" using 1(8) by (auto simp: skipped_def)
    show ?thesis
    proof (cases "depth = 1")
      case True
      then have "list_all ends_line (drop (skip_directive_line tokens j) tokens)" using step dj closed by (auto split: if_splits)
      then have "list_all ends_line (drop (after_line tokens j) tokens)"
        using set_drop_subset [of 1 "drop (skip_directive_line tokens j) tokens"] by (auto simp: after_line_def Let_def list_all_iff)
      from tail_finishes [OF this s'(3), of H canon] show ?thesis using s' st True by auto
    next
      case False
      have loop: "guard_loop tokens name (depth - 1) j = Some nm" using step dj closed False pos by (auto split: if_splits)
      have d: "\<not> d \<in> {str ''if'', str ''ifdef'', str ''ifndef''}" "\<not> (d \<in> {str ''elif'', str ''else''} \<and> depth = 1)" "depth - 1 \<noteq> 0"
        using closed False pos by auto
      show ?thesis using 1(2) [OF dj refl d(1,2) closed d(3) loop on s'(3) _ 1(9)] s' st False by (intro finished [of s']) auto
    qed
  next
    case other
    note st = skipped_other [OF 1(8) h(2,4) other, of H canon]
    obtain s' where s': "process_tokens opts H canon tokens p sc = process_tokens opts H canon tokens (after_line tokens j) s'" "sc_state s' = sc_state sc"
      "room opts tokens (after_line tokens j) s'" using go [OF st] by blast
    have loop: "guard_loop tokens name depth j = Some nm" using step dj other by (auto split: if_splits)
    have d: "\<not> d \<in> {str ''if'', str ''ifdef'', str ''ifndef''}" "\<not> (d \<in> {str ''elif'', str ''else''} \<and> depth = 1)" "d \<noteq> str ''endif''"
      using other by auto
    show ?thesis using 1(3) [OF dj refl d loop on s'(3) _ 1(9)] s'(1,2) 1(8) by auto
  qed
qed

lemma not_one_is_false:
  assumes "tok_kind b = Punct (str ''!'')" "tok_kind n = Number (str ''1'')"
  shows "\<not> eval_pp_tokens [b, n]"
proof -
  have "parse_pp_int (str ''1'') = Some (PpVal_signed 1)" by code_simp
  then have "wf_expr (Unop (str ''!'') (Lit (Number (str ''1''))))" "sem (Unop (str ''!'') (Lit (Number (str ''1'')))) = pp_not (PpVal_signed 1)"
    "print_expr (Unop (str ''!'') (Lit (Number (str ''1'')))) = [Punct (str ''!''), Number (str ''1'')]"
    by (simp_all add: c_prefixes_def)
  then show ?thesis using printed_expression_value [of "Unop (str ''!'') (Lit (Number (str ''1'')))" "[b, n]" False] assms
    by (simp add: eval_pp_tokens_def pp_not_def from_bool_def truthy_def PpVal_signed_def)
qed

lemma negated_condition:
  assumes "negated_defined_name (directive_rest tokens i) = Some name" "is_bound name st" "i \<le> length tokens"
  shows "\<exists>st'. expand_and_eval_condition H tokens i st = Some (False, skip_directive_line tokens i, st')"
proof -
  define w where "w = drop i (take (skip_directive_line tokens i) tokens)"
  have w: "directive_rest tokens i = w" by (simp add: directive_rest_def Let_def min_def w_def)
  obtain b d rest where r: "w = b # d # rest" "tok_kind b = Punct (str ''!'')" "tok_kind d = Identifier (str ''defined'')"
    and n: "(\<exists>op n cl. rest = [op, n, cl] \<and> tok_kind op = Punct (str ''('') \<and> tok_kind cl = Punct (str '')'') \<and> tok_kind n = Identifier name) \<or>
      (\<exists>n. rest = [n] \<and> tok_kind n = Identifier name)"
    using assms(1) unfolding w by (auto simp: negated_defined_name_def is_punct_def is_ident_def ident_name_def split: list.splits if_splits TokenKind.splits)
  have op: "defined_operand w 1 = (Some name, length w - 1)" "length w \<le> 5" "2 < length w"
    using n by (auto simp: r(1) defined_operand_def is_punct_def ident_name_def)
  let ?one = "Token_new (Number (str ''1'')) (tok_line d) (tok_col d)"
  define st' where "st' = snd (is_defined_for_conditionals H name st)"
  have s1: "cond_step H w [] 0 st = Continue w [b] 1 st" using r by (simp add: cond_step_def)
  have s2: "cond_step H w [b] 1 st = Continue w [b, ?one] (length w) st'"
    using r op assms(2) is_defined_value [of H name st] by (simp add: cond_step_def resolve_defined_def st'_def case_prod_beta)
  have "cond_loop H w [] 0 0 st = cond_loop H w [b] 1 1 st"
    using s1 op by (subst cond_loop.simps) (auto simp: MAX_STEPS_def MAX_TOKENS_def)
  also have "\<dots> = cond_loop H w [b, ?one] (length w) (Suc 1) st'"
    using s2 op by (subst cond_loop.simps) (simp add: MAX_STEPS_def MAX_TOKENS_def)
  also have "\<dots> = Some (Some [b, ?one], st')" by (subst cond_loop.simps) (simp)
  finally show ?thesis using not_one_is_false [OF r(2), of ?one]
    by (simp add: eval_condition_within [OF assms(3)] expand_condition_tokens_def Token_new_def w_def [symmetric])
qed

lemma guard_opened:
  assumes "guard_opener tokens 0 = Some (name, e)" "room opts tokens 0 sc" "quiet (sc_state sc)" "is_bound name (sc_state sc)"
    "ps_cond_base (sc_state sc) \<le> length (ps_conditional_stack (sc_state sc))"
  shows "\<exists>p s. reaches opts H canon tokens 0 sc p s \<and> aligned tokens p \<and> next_directive tokens p = next_directive tokens e \<and>
    skipped (ps_conditional_stack (sc_state sc)) 1 (sc_state s) \<and> skims (sc_state sc) (sc_state s)"
proof -
  let ?k = "skip_newlines tokens 0" and ?st = "sc_state sc"
  have k: "?k < length tokens" "tok_kind (tokens ! ?k) = Hash" using assms(1) by (auto simp: guard_opener_def Let_def split: if_splits)
  obtain d where d: "ident_at tokens (?k + 1) = Some d" and e: "e = skip_directive_line tokens (?k + 2)"
    and name: "d = str ''ifndef'' \<and> ident_at tokens (?k + 2) = Some name \<or> d = str ''if'' \<and> negated_defined_name (directive_rest tokens (?k + 2)) = Some name"
    using assms(1) k by (auto simp: guard_opener_def Let_def bind_eq_Some_conv split: if_splits)
  have kd: "?k + 1 < length tokens" "tok_kind (tokens ! (?k + 1)) = Identifier d"
    using d by (auto simp: ident_at_def ident_name_def split: if_splits TokenKind.splits)
  obtain s where s: "reaches opts H canon tokens 0 sc ?k s" "sc_state s = ?st"
    using reaches_newlines [of 0 ?k tokens opts sc H canon] within_newlines [of 0 _ tokens] assms(2) by auto
  have bol: "at_beginning_of_line tokens ?k"
    using within_newlines [of 0 "?k - 1" tokens] by (cases "?k = 0") (auto simp: at_beginning_of_line_def)
  have "\<exists>l st'. handle_directive H canon tokens ?k ?st = DNext (after_line tokens (?k + 2)) (push_cond False l None st') \<and> reads_only ?st st' \<and> quiet st'"
  proof (cases "is_active ?st")
    case True
    show ?thesis
    proof (cases "d = str ''if''")
      case eval: True
      obtain st' where c: "expand_and_eval_condition H tokens (?k + 2) ?st = Some (False, skip_directive_line tokens (?k + 2), st')"
        using negated_condition [of tokens "?k + 2" name ?st H] name assms(4) eval kd(1) by auto
      have r: "reads_only ?st st'" "quiet st'" using eval_condition_Some [of "?k + 2" tokens H ?st] c assms(3) kd(1) by (auto simp: quiet_def reads_only_def)
      then show ?thesis using directive_in_place [OF kd, of H canon ?st] True eval c assms(3) kd(1) skip_to_newline_within [of "?k + 2" "skip_directive_line tokens (?k + 2)" tokens]
        by (auto simp: dispatch_def handle_if_def controlling_quiet quiet_chain after_def finish_line_def Let_def)
    next
      case False
      then have n: "d = str ''ifndef''" "ident_at tokens (?k + 2) = Some name" using name by auto
      then have at: "?k + 2 < length tokens" "tok_kind (tokens ! (?k + 2)) = Identifier name"
        by (auto simp: ident_at_def ident_name_def split: if_splits TokenKind.splits)
      have ident: "read_directive_ident tokens (?k + 2) = Some (name, ?k + 3)"
        using at skip_newlines_stop [of "?k + 2" tokens] by (simp add: read_directive_ident_def ident_name_def)
      have pos: "skip_to_newline tokens (?k + 3) = after_line tokens (?k + 2)"
        using skip_directive_line_less [of "?k + 2" tokens] at by (intro skip_to_newline_within) (simp_all add: ends_line_def)
      let ?st' = "snd (is_defined_for_conditionals H name ?st)"
      have r: "reads_only ?st ?st'" "quiet ?st'"
        using is_defined_reads_only [of ?st H name] is_defined_quiet [of ?st H name] assms(3) by (auto simp: quiet_def reads_only_def)
      have e: "begin_reads ?st = ?st" "end_reads ?st' = ([], ?st')" using assms(3) r(2) by (simp_all add: begin_reads_def end_reads_def quiet_def dedup_reads_def)
      have "dispatch H canon tokens ?k (?k + 2) l r d ?st = DNext (?k + 3) (push_cond False l None ?st')" for l r
        using True n ident e r(2) is_defined_value [of H name ?st] assms(4)
        by (simp add: dispatch_def handle_ifdef_def quiet_chain case_prod_beta after_def Let_def)
      then show ?thesis using directive_in_place [OF kd, of H canon ?st] pos r by (auto simp: finish_line_def)
    qed
  next
    case False
    then show ?thesis using inactive_opener [OF assms(3) False kd, of H canon] name assms(3) by (auto intro: reads_only_refl)
  qed
  then obtain l st' where st': "handle_directive H canon tokens ?k (sc_state s) = DNext (after_line tokens (?k + 2)) (push_cond False l None st')"
    "reads_only ?st st'" "quiet st'" using s(2) by auto
  obtain s' where s': "reaches opts H canon tokens ?k s (after_line tokens (?k + 2)) s'" "sc_state s' = push_cond False l None st'"
    using reaches_directive [OF _ k bol st'(1), of opts] s(1) by (auto simp: reaches_def)
  have "ps_conditional_stack st' = ps_conditional_stack ?st" "ps_cond_base st' = ps_cond_base ?st" using st'(2) by (auto simp: reads_only_def)
  then have "skipped (ps_conditional_stack ?st) 1 (sc_state s')"
    unfolding s'(2) push_cond_stack skipped_def using assms(5) st'(3) by (auto simp: shut_def frame_of_def)
  moreover have "skims ?st (sc_state s')" unfolding s'(2) push_cond_stack using skims_reads [OF st'(2,3)] .
  ultimately show ?thesis using scan_reaches_trans [OF s(1) s'(1)] after_line_aligned [of tokens "?k + 2"] next_directive_line_end [of tokens "?k + 2"] e by metis
qed

lemma guard_loop_name: "guard_loop tokens name depth i = Some nm \<Longrightarrow> nm = name"
proof (induction tokens name depth i rule: guard_loop.induct)
  case (1 tokens name depth i)
  then show ?case by (subst (asm) (4) guard_loop.simps) (auto split: option.splits if_splits)
qed

text \<open>C31: skipping a repeated include on its guard is sound. When \<^verbatim>\<open>detect_include_guard\<close> reads a guard off a file whose directives are regular (no null
  directive, no \<^verbatim>\<open>#\<close> behind a directive's name), the guard's name is defined, conditionals are not recorded, and the limits leave room for the
  file's tokens, then running the file
  instead ends normally, prints nothing but line ends, expands nothing and calls no other handler; it leaves the macros, the macro
  operations, the conditional stack and the recorded chains as they were, and the guard it records is one that \<^verbatim>\<open>guard_suppresses\<close> acts on.
\<close>

theorem guarded_file_contributes_nothing:
  assumes "detect_include_guard tokens = Some name" "regular_directives tokens" "is_bound name (sc_state sc)" "quiet (sc_state sc)" "room opts tokens 0 sc"
  shows "\<exists>sc'. process_file_tokens opts H canon tokens sc = Finished sc' \<and>
    reads_only (record_guard (canon (ps_current_file (sc_state sc))) (Ifndef name) (sc_state sc)) (sc_state sc') \<and>
    guard_suppresses (canon (ps_current_file (sc_state sc))) (sc_state sc')"
proof -
  let ?st = "sc_state sc" and ?path = "canon (ps_current_file (sc_state sc))"
  obtain e nm where g: "guard_opener tokens 0 = Some (nm, e)" "guard_loop tokens nm 1 e = Some name"
  proof -
    obtain nm e j where o1: "guard_opener tokens 0 = Some (nm, e)" "next_directive tokens e = Some (str ''define'', j)" "guard_loop tokens nm 1 j = Some name"
      using assms(1) by (auto simp: detect_include_guard_def bind_eq_Some_conv split: if_splits)
    then have "guard_loop tokens nm 1 e = guard_loop tokens nm 1 j" by (subst guard_loop.simps) simp
    then show thesis using that o1 by metis
  qed
  have nm: "nm = name" using guard_loop_name [OF g(2)] by simp
  define sc0 where "sc0 = sc\<lparr>sc_state := enter_file canon tokens ?st\<rparr>"
  have st0: "sc_state sc0 = record_guard ?path (Ifndef name) (?st\<lparr>ps_cond_base := length (ps_conditional_stack ?st), ps_guarded_file := True\<rparr>)"
    using assms(1) by (simp add: sc0_def enter_file_def Let_def)
  have ok0: "quiet (sc_state sc0)" "is_bound name (sc_state sc0)" "ps_conditional_stack (sc_state sc0) = ps_conditional_stack ?st"
    "ps_cond_base (sc_state sc0) = length (ps_conditional_stack ?st)" "room opts tokens 0 sc0"
    using assms(3-5) by (simp_all add: st0 record_guard_def quiet_def is_bound_def room_def Let_def) (simp_all add: sc0_def)
  obtain p s where s: "reaches opts H canon tokens 0 sc0 p s" "aligned tokens p" "next_directive tokens p = next_directive tokens e"
    "skipped (ps_conditional_stack ?st) 1 (sc_state s)" "skims (sc_state sc0) (sc_state s)"
    using guard_opened [OF g(1) ok0(5,1), of H canon] ok0(2-4) nm by auto
  then have "room opts tokens p s" by (simp add: reaches_def)
  then obtain s1 where s1: "process_tokens opts H canon tokens 0 sc0 = Finished s1" "ps_conditional_stack (sc_state s1) = ps_conditional_stack ?st"
    "skims (sc_state s) (sc_state s1)"
    using guarded_body_skipped [OF assms(2) g(2) s(3,2) _ s(4), of opts H canon] s(1) by (auto simp: reaches_def)
  have skims: "skims (sc_state sc0) (sc_state s1)" using s(5) s1(3) by (rule skims_trans)
  define st1 where "st1 = (sc_state s1)\<lparr>ps_cond_base := ps_cond_base ?st, ps_guarded_file := ps_guarded_file ?st\<rparr>"
  have "leave_file tokens (length (ps_conditional_stack ?st)) (ps_cond_base ?st) (ps_guarded_file ?st) True (sc_state s1) = Some st1"
    using s1(2) by (simp add: leave_file_def st1_def Let_def)
  then have "process_file_tokens opts H canon tokens sc = Finished (s1\<lparr>sc_state := st1\<rparr>)"
    using s1(1) by (simp add: process_file_tokens_def sc0_def left_file_def Let_def)
  moreover have r: "reads_only (record_guard ?path (Ifndef name) ?st) st1"
    using skims s1(2) by (auto simp: skims_def st0 st1_def reads_only_def record_guard_def with_stack_def settled_names_def Let_def last_map)
  moreover have "guard_suppresses ?path st1"
    using r assms(3) by (auto simp: guard_suppresses_def reads_only_def record_guard_def is_bound_def Let_def split: option.splits FileGuard.splits)
  ultimately show ?thesis by auto
qed

definition guarded_tokens :: "Token list" where
  "guarded_tokens = map (\<lambda>k. Token_new k 1 1)
     [Newline, Hash, Identifier (str ''ifndef''), Identifier (str ''G''), Newline,
      Hash, Identifier (str ''define''), Identifier (str ''G''), Newline,
      Identifier (str ''x''), Punct (str '';''), Newline,
      Hash, Identifier (str ''ifdef''), Identifier (str ''H''), Newline, Hash, Identifier (str ''else''), Newline, Hash, Identifier (str ''endif''), Newline,
      Hash, Identifier (str ''endif''), Newline, Eof]"

definition guarded_scan :: Scan where
  "guarded_scan = \<lparr>sc_state = empty_state\<lparr>ps_macros := [str ''G'' \<mapsto> MacroObject []]\<rparr>, sc_tokens_processed = 0, sc_output_len = 0, sc_expansion_incomplete = False\<rparr>"

theorem guarded_file_contributes_nothing_witness:
  "detect_include_guard guarded_tokens = Some (str ''G'') \<and> regular_directives guarded_tokens \<and>
   (\<exists>sc'. process_file_tokens \<lparr>max_expanded_tokens = 100, max_output_bytes = 100\<rparr> (\<lambda>_. 7) id guarded_tokens guarded_scan = Finished sc' \<and>
     reads_only (record_guard (str ''a.h'') (Ifndef (str ''G'')) (sc_state guarded_scan)) (sc_state sc') \<and> guard_suppresses (str ''a.h'') (sc_state sc'))"
proof -
  have d: "detect_include_guard guarded_tokens = Some (str ''G'')" "regular_directives guarded_tokens" by code_simp+
  have f: "ps_current_file (sc_state guarded_scan) = str ''a.h''" by (simp add: guarded_scan_def empty_state_def)
  have "is_bound (str ''G'') (sc_state guarded_scan)" "quiet (sc_state guarded_scan)"
    "room \<lparr>max_expanded_tokens = 100, max_output_bytes = 100\<rparr> guarded_tokens 0 guarded_scan"
    by (simp_all add: is_bound_def quiet_def room_def guarded_scan_def guarded_tokens_def empty_state_def)
  from guarded_file_contributes_nothing [OF d this, of "\<lambda>_. 7" id] show ?thesis using d f by simp
qed

text \<open>
  Regular directives are needed: a lone \<^verbatim>\<open>#\<close> before a line \<^verbatim>\<open>endif\<close> is a null directive and a line of text to the guard's loop, but an \<^verbatim>\<open>#endif\<close> to
  \<^verbatim>\<open>handle_directive\<close>. The guard is detected, yet running the file with the guard defined reaches the text behind it.
\<close>

definition null_directive_tokens :: "Token list" where
  "null_directive_tokens = map (\<lambda>k. Token_new k 1 1)
     [Hash, Identifier (str ''ifndef''), Identifier (str ''G''), Newline, Hash, Identifier (str ''define''), Identifier (str ''G''), Newline,
      Hash, Newline, Identifier (str ''endif''), Newline, Identifier (str ''x''), Newline, Hash, Identifier (str ''endif''), Newline, Eof]"

theorem null_directive_opens_guard:
  "detect_include_guard null_directive_tokens = Some (str ''G'') \<and> \<not> regular_directives null_directive_tokens \<and>
   (case process_file_tokens \<lparr>max_expanded_tokens = 100, max_output_bytes = 100\<rparr> (\<lambda>_. 7) id null_directive_tokens guarded_scan of
      Emits i sc \<Rightarrow> i = 12 | _ \<Rightarrow> False)"
  by code_simp
end
