(* ===== verification/Pp_Scope.thy ===== *)
theory Pp_Scope
  imports Token
begin

text \<open>
  The lexical boundary of the printed output (\<^verbatim>\<open>OutputScope\<close> in \<^verbatim>\<open>trace-preproc/src/preprocessor.rs\<close>): whether an include stands between top-level
  declarations. The code keeps the open delimiters as two bits each in a 128-bit word, at most 64 deep; the specification is the list of the
  delimiters that are open, and, for the flags, where in the text a namespace or linkage block was announced and opened.
\<close>

unbundle bit_operations_syntax

record OutputScope =
  os_stack :: "128 word"
  os_depth :: nat
  os_boundary :: bool
  os_declarations :: bool
  os_valid :: bool
  os_namespace_pending :: bool
  os_extern_pending :: bool
  os_linkage_pending :: bool
  os_root_block :: bool
  os_using_declaration :: "(nat \<times> bool) option"
  os_context_effects :: "64 word"

definition OutputScope_default :: OutputScope where
  "OutputScope_default =
     \<lparr>os_stack = 0, os_depth = 0, os_boundary = True, os_declarations = False, os_valid = True, os_namespace_pending = False,
      os_extern_pending = False, os_linkage_pending = False, os_root_block = False, os_using_declaration = None, os_context_effects = 0\<rparr>"

definition at_boundary :: "OutputScope \<Rightarrow> bool" where
  "at_boundary s \<longleftrightarrow> os_valid s \<and> os_depth s = 0 \<and> os_boundary s"

text \<open>A using-declaration that is open, and how a punctuator at its depth ends it.\<close>

definition using_step :: "TokenKind \<Rightarrow> OutputScope \<Rightarrow> OutputScope" where
  "using_step k s0 =
     (let s = (if k = Identifier (str ''using'') then s0\<lparr>os_using_declaration := Some (os_depth s0, True)\<rparr> else s0)
      in case (os_using_declaration s, k) of
           (Some (depth, alias_possible), Punct p) \<Rightarrow>
             if os_depth s = depth then
               (if p = str ''::'' then s\<lparr>os_using_declaration := Some (depth, False)\<rparr>
                else if p = str ''='' \<and> alias_possible then s\<lparr>os_using_declaration := None\<rparr>
                else if p = str '';'' then s\<lparr>os_context_effects := os_context_effects s + 1, os_using_declaration := None\<rparr>
                else s)
             else s
         | _ \<Rightarrow> s)"

definition OPEN_BRACES :: "ustring list" where "OPEN_BRACES = [str ''{'', str ''<%'']"
definition CLOSE_BRACES :: "ustring list" where "CLOSE_BRACES = [str ''}'', str ''%>'']"

definition open_code :: "ustring \<Rightarrow> 128 word option" where
  "open_code p =
     (if p \<in> set OPEN_BRACES then Some 1 else if p = str ''('' then Some 2
      else if p \<in> {str ''['', str ''<:''} then Some 3 else None)"

definition close_code :: "ustring \<Rightarrow> 128 word option" where
  "close_code p =
     (if p \<in> set CLOSE_BRACES then Some 1 else if p = str '')'' then Some 2
      else if p \<in> {str '']'', str '':>''} then Some 3 else None)"

text \<open>The end of a punctuator's step, which the returns on malformed input skip.\<close>

definition end_step :: "ustring \<Rightarrow> OutputScope \<Rightarrow> OutputScope" where
  "end_step p s0 =
     (let s = s0\<lparr>os_boundary := p = str '';'' \<or> p \<in> set CLOSE_BRACES \<and> os_root_block s0\<rparr>
      in if p = str '';'' \<and> os_depth s = 0 then s\<lparr>os_namespace_pending := False, os_root_block := False\<rparr> else s)"

definition open_step :: "ustring \<Rightarrow> 128 word \<Rightarrow> bool \<Rightarrow> OutputScope \<Rightarrow> OutputScope" where
  "open_step p code was_linkage s0 =
     (let s = (if os_depth s0 = 0 \<and> p \<in> set OPEN_BRACES
               then s0\<lparr>os_root_block := os_namespace_pending s0 \<or> was_linkage, os_namespace_pending := False\<rparr> else s0)
      in if os_depth s = 64 then s\<lparr>os_valid := False\<rparr>
         else end_step p (s\<lparr>os_stack := push_bit 2 (os_stack s) OR code, os_depth := os_depth s + 1\<rparr>))"

definition close_step :: "ustring \<Rightarrow> 128 word \<Rightarrow> OutputScope \<Rightarrow> OutputScope" where
  "close_step p code s =
     (if os_depth s = 0 \<or> os_stack s AND 3 \<noteq> code then s\<lparr>os_valid := False\<rparr>
      else end_step p (s\<lparr>os_stack := drop_bit 2 (os_stack s), os_depth := os_depth s - 1\<rparr>))"

definition punct_step :: "ustring \<Rightarrow> bool \<Rightarrow> OutputScope \<Rightarrow> OutputScope" where
  "punct_step p was_linkage s0 =
     (let s = s0\<lparr>os_declarations := True\<rparr>
      in if \<not> os_valid s then s
         else
           (case open_code p of
              Some code \<Rightarrow> open_step p code was_linkage s
            | None \<Rightarrow> (case close_code p of Some code \<Rightarrow> close_step p code s | None \<Rightarrow> end_step p s)))"

definition word_step :: "TokenKind \<Rightarrow> bool \<Rightarrow> OutputScope \<Rightarrow> OutputScope" where
  "word_step k was_extern s0 =
     (let s = (if os_depth s0 = 0 then
                 (let s1 = (case k of
                      Identifier name \<Rightarrow> s0\<lparr>os_namespace_pending := os_namespace_pending s0 \<or> name = str ''namespace'', os_extern_pending := name = str ''extern''\<rparr>
                    | _ \<Rightarrow> s0)
                  in s1\<lparr>os_linkage_pending := was_extern \<and> (case k of String text \<Rightarrow> text = 34 # str ''C'' @ [34] \<or> text = 34 # str ''C++'' @ [34] | _ \<Rightarrow> False)\<rparr>)
               else s0)
      in s\<lparr>os_boundary := False, os_declarations := True\<rparr>)"

definition scope_token :: "TokenKind \<Rightarrow> OutputScope \<Rightarrow> OutputScope" where
  "scope_token k s0 =
     (if k = Newline \<or> k = Eof then s0
      else
        (let s1 = using_step k s0;
             s2 = s1\<lparr>os_extern_pending := False, os_linkage_pending := False\<rparr>
         in case k of Punct p \<Rightarrow> punct_step p (os_linkage_pending s1) s2 | _ \<Rightarrow> word_step k (os_extern_pending s1) s2))"

section \<open>The open delimiters\<close>

definition encode :: "128 word list \<Rightarrow> 128 word" where
  "encode ds = foldr (\<lambda>c w. push_bit 2 w OR c) ds 0"

definition bracket :: "TokenKind \<Rightarrow> 128 word list option \<Rightarrow> 128 word list option" where
  "bracket k r =
     (case (r, k) of
        (Some ds, Punct p) \<Rightarrow>
          (case open_code p of
             Some c \<Rightarrow> if length ds = 64 then None else Some (c # ds)
           | None \<Rightarrow>
               (case close_code p of
                  Some c \<Rightarrow> (case ds of [] \<Rightarrow> None | d # ds' \<Rightarrow> if d = c then Some ds' else None)
                | None \<Rightarrow> r))
      | _ \<Rightarrow> r)"

definition brackets :: "TokenKind list \<Rightarrow> 128 word list option" where
  "brackets ks = fold bracket ks (Some [])"

definition codes_ok :: "128 word list \<Rightarrow> bool" where
  "codes_ok ds \<longleftrightarrow> length ds \<le> 64 \<and> set ds \<subseteq> {1, 2, 3}"

definition scope_rel :: "128 word list option \<Rightarrow> OutputScope \<Rightarrow> bool" where
  "scope_rel r s \<longleftrightarrow>
     (case r of None \<Rightarrow> \<not> os_valid s | Some ds \<Rightarrow> os_valid s \<and> codes_ok ds \<and> os_depth s = length ds \<and> os_stack s = encode ds)"

lemma encode_simps [simp]: "encode [] = 0" "encode (c # ds) = push_bit 2 (encode ds) OR c"
  by (simp_all add: encode_def)

lemma code_bits: "c \<in> {1, 2, 3 :: 128 word} \<Longrightarrow> take_bit 2 c = c \<and> drop_bit 2 c = 0"
  by (elim insertE emptyE) (simp_all add: take_bit_eq_mod drop_bit_eq_div)

lemma code_bit: "c \<in> {1, 2, 3 :: 128 word} \<Longrightarrow> bit c n \<Longrightarrow> n < 2"
  using code_bits [of c] bit_take_bit_iff [of 2 c n] by auto

lemma encode_bit: "set ds \<subseteq> {1, 2, 3} \<Longrightarrow> bit (encode ds) n \<Longrightarrow> n < 2 * length ds"
proof (induction ds arbitrary: n)
  case (Cons c ds)
  then consider "2 \<le> n" "bit (encode ds) (n - 2)" | "bit c n" by (auto simp: bit_or_iff bit_push_bit_iff)
  then show ?case
  proof cases
    case 1
    then have "n - 2 < 2 * length ds" using Cons by auto
    then show ?thesis using 1(1) by simp
  next
    case 2
    then show ?thesis using code_bit [of c n] Cons.prems(1) by auto
  qed
qed simp

lemma encode_top:
  assumes "codes_ok (c # ds)"
  shows "encode (c # ds) AND 3 = c" "drop_bit 2 (encode (c # ds)) = encode ds"
proof -
  have c: "c \<in> {1, 2, 3}" "set ds \<subseteq> {1, 2, 3}" "length ds \<le> 63" using assms by (auto simp: codes_ok_def)
  have "encode (c # ds) AND mask 2 = take_bit 2 (encode (c # ds))" by (simp add: take_bit_eq_mask)
  also have "\<dots> = c" using code_bits [OF c(1)] by (simp add: take_bit_or take_bit_push_bit)
  finally show "encode (c # ds) AND 3 = c" by (simp add: mask_eq_exp_minus_1)
  show "drop_bit 2 (encode (c # ds)) = encode ds"
  proof (rule bit_word_eqI)
    fix n
    have "\<not> bit c (n + 2)" using code_bit [OF c(1), of "n + 2"] by auto
    moreover have "n + 2 < 128" if "bit (encode ds) n" using encode_bit [OF c(2) that] c(3) by simp
    ultimately show "bit (drop_bit 2 (encode (c # ds))) n = bit (encode ds) n"
      by (auto simp: bit_drop_bit_eq bit_or_iff bit_push_bit_iff add.commute)
  qed
qed

section \<open>The code keeps them\<close>

lemma scope_rel_fields:
  "scope_rel r (s\<lparr>os_boundary := b\<rparr>) = scope_rel r s" "scope_rel r (s\<lparr>os_declarations := b\<rparr>) = scope_rel r s"
  "scope_rel r (s\<lparr>os_namespace_pending := b\<rparr>) = scope_rel r s" "scope_rel r (s\<lparr>os_extern_pending := b\<rparr>) = scope_rel r s"
  "scope_rel r (s\<lparr>os_linkage_pending := b\<rparr>) = scope_rel r s" "scope_rel r (s\<lparr>os_root_block := b\<rparr>) = scope_rel r s"
  "scope_rel r (s\<lparr>os_using_declaration := u\<rparr>) = scope_rel r s" "scope_rel r (s\<lparr>os_context_effects := e\<rparr>) = scope_rel r s"
  by (simp_all add: scope_rel_def split: option.split)

lemma scope_rel_steps:
  "scope_rel r (using_step k s) = scope_rel r s" "scope_rel r (end_step p s) = scope_rel r s" "scope_rel r (word_step k b s) = scope_rel r s"
  by (simp_all add: using_step_def end_step_def word_step_def scope_rel_fields Let_def split: option.split TokenKind.split prod.split)

lemma open_code_range: "open_code p = Some c \<Longrightarrow> c \<in> {1, 2, 3}"
  by (auto simp: open_code_def split: if_splits)

lemma punct_step_rel:
  assumes "scope_rel r s"
  shows "scope_rel (bracket (Punct p) r) (punct_step p b s)"
proof (cases r)
  case None
  then show ?thesis using assms by (simp add: bracket_def punct_step_def scope_rel_def)
next
  case (Some ds)
  define s' where "s' = s\<lparr>os_declarations := True\<rparr>"
  have s': "os_valid s'" "codes_ok ds" "os_depth s' = length ds" "os_stack s' = encode ds" using assms Some by (simp_all add: scope_rel_def s'_def)
  consider (opens) c where "open_code p = Some c" | (closes) c where "open_code p = None" "close_code p = Some c"
    | (other) "open_code p = None" "close_code p = None" by fastforce
  then show ?thesis
  proof cases
    case opens
    define s2 where "s2 = (if os_depth s' = 0 \<and> p \<in> set OPEN_BRACES then s'\<lparr>os_root_block := os_namespace_pending s' \<or> b, os_namespace_pending := False\<rparr> else s')"
    have "os_valid s2" "os_depth s2 = length ds" "os_stack s2 = encode ds" using s' by (simp_all add: s2_def)
    then show ?thesis using Some opens open_code_range [OF opens] s'(1,2)
      by (auto simp: bracket_def punct_step_def s'_def [symmetric] open_step_def s2_def [symmetric] scope_rel_steps Let_def) (auto simp: scope_rel_def codes_ok_def)
  next
    case closes
    show ?thesis
    proof (cases ds)
      case Nil
      then show ?thesis using Some closes s' by (simp add: bracket_def punct_step_def s'_def [symmetric] close_step_def scope_rel_def)
    next
      case (Cons d ds')
      have "codes_ok ds'" using s'(2) Cons by (simp add: codes_ok_def)
      then show ?thesis using Some closes s' Cons encode_top [of d ds']
        by (simp add: bracket_def punct_step_def s'_def [symmetric] close_step_def scope_rel_steps del: encode_simps) (auto simp: scope_rel_def simp del: encode_simps)
    qed
  next
    case other
    then show ?thesis using Some s' by (simp add: bracket_def punct_step_def s'_def [symmetric] scope_rel_steps) (simp add: scope_rel_def)
  qed
qed

lemma scope_token_rel:
  assumes "scope_rel r s"
  shows "scope_rel (bracket k r) (scope_token k s)"
proof (cases k)
  case (Punct p)
  have "scope_rel r ((using_step k s)\<lparr>os_extern_pending := False, os_linkage_pending := False\<rparr>)" using assms by (simp add: scope_rel_fields scope_rel_steps)
  then show ?thesis using Punct punct_step_rel by (simp add: scope_token_def Let_def)
qed (use assms in \<open>cases r; simp add: scope_token_def bracket_def scope_rel_fields scope_rel_steps Let_def\<close>)+

lemma scope_rel_fold: "scope_rel (brackets ks) (fold scope_token ks OutputScope_default)"
proof (induction ks rule: rev_induct)
  case Nil
  show ?case by (simp add: brackets_def scope_rel_def codes_ok_def OutputScope_default_def)
next
  case (snoc k ks)
  then show ?case using scope_token_rel by (simp add: brackets_def)
qed

section \<open>The boundary\<close>

definition significant :: "TokenKind list \<Rightarrow> TokenKind list" where
  "significant ks = filter (\<lambda>k. k \<noteq> Newline \<and> k \<noteq> Eof) ks"

text \<open>
  What the flags of the code stand for, told over the text alone. A token is at the top level when no delimiter is open before it.
  \<open>since P E\<close> says that there is a top-level token with \<open>P\<close> of the text before it and itself, and no top-level token with \<open>E\<close> behind it.
\<close>

definition since :: "(TokenKind list \<Rightarrow> TokenKind \<Rightarrow> bool) \<Rightarrow> (TokenKind \<Rightarrow> bool) \<Rightarrow> TokenKind list \<Rightarrow> bool" where
  "since P E ks \<longleftrightarrow> (\<exists>a k b. ks = a @ k # b \<and> brackets a = Some [] \<and> P a k \<and>
     (\<forall>c x d. b = c @ x # d \<and> brackets (a @ k # c) = Some [] \<longrightarrow> \<not> E x))"

definition opens_brace :: "TokenKind \<Rightarrow> bool" where
  "opens_brace k \<longleftrightarrow> k \<in> Punct ` set OPEN_BRACES"

definition ends_head :: "TokenKind \<Rightarrow> bool" where
  "ends_head k \<longleftrightarrow> k = Punct (str '';'') \<or> opens_brace k"

text \<open>A \<^verbatim>\<open>namespace\<close> whose block has not opened, \<^verbatim>\<open>extern "C"\<close> or \<^verbatim>\<open>extern "C++"\<close> as the last two tokens, and a block opened behind either.\<close>

definition namespace_open :: "TokenKind list \<Rightarrow> bool" where
  "namespace_open ks \<longleftrightarrow> since (\<lambda>_ k. k = Identifier (str ''namespace'')) ends_head ks"

definition is_linkage :: "TokenKind \<Rightarrow> bool" where
  "is_linkage k \<longleftrightarrow> k = String (34 # str ''C'' @ [34]) \<or> k = String (34 # str ''C++'' @ [34])"

definition linkage_open :: "TokenKind list \<Rightarrow> bool" where
  "linkage_open ks \<longleftrightarrow> (\<exists>a l. significant ks = a @ [Identifier (str ''extern''), l] \<and> is_linkage l)"

definition in_root_block :: "TokenKind list \<Rightarrow> bool" where
  "in_root_block ks \<longleftrightarrow> since (\<lambda>a k. opens_brace k \<and> (namespace_open a \<or> linkage_open a)) ends_head ks"

definition item_end :: "TokenKind list \<Rightarrow> bool" where
  "item_end ks \<longleftrightarrow> significant ks = [] \<or> last (significant ks) = Punct (str '';'') \<or>
     last (significant ks) \<in> Punct ` set CLOSE_BRACES \<and> in_root_block ks"

lemma brackets_snoc: "brackets (ks @ [k]) = bracket k (brackets ks)"
  by (simp add: brackets_def)

lemma brackets_init: "brackets (ks @ [k]) = Some ds \<Longrightarrow> \<exists>ds'. brackets ks = Some ds'"
  by (cases "brackets ks") (simp_all add: brackets_snoc bracket_def)

lemma since_Nil [simp]: "\<not> since P E []"
  by (simp add: since_def)

lemma since_snoc:
  "since P E (ks @ [k]) \<longleftrightarrow> brackets ks = Some [] \<and> P ks k \<or> since P E ks \<and> \<not> (brackets ks = Some [] \<and> E k)"
proof
  assume "since P E (ks @ [k])"
  then obtain a x b where s: "ks @ [k] = a @ x # b" "brackets a = Some []" "P a x" "\<forall>c y d. b = c @ y # d \<and> brackets (a @ x # c) = Some [] \<longrightarrow> \<not> E y"
    by (auto simp: since_def)
  show "brackets ks = Some [] \<and> P ks k \<or> since P E ks \<and> \<not> (brackets ks = Some [] \<and> E k)"
  proof (cases b rule: rev_cases)
    case Nil
    then show ?thesis using s by simp
  next
    case (snoc b' y)
    then have ks: "ks = a @ x # b'" "y = k" using s(1) by simp_all
    have "\<not> (brackets ks = Some [] \<and> E k)" using s(4) snoc ks by auto
    moreover have "\<not> E z" if "b' = c @ z # d" "brackets (a @ x # c) = Some []" for c z d
      using s(4) [rule_format, of c z "d @ [y]"] that snoc by simp
    ultimately show ?thesis using s(2,3) ks(1) unfolding since_def by blast
  qed
next
  assume "brackets ks = Some [] \<and> P ks k \<or> since P E ks \<and> \<not> (brackets ks = Some [] \<and> E k)"
  then show "since P E (ks @ [k])"
  proof
    assume "brackets ks = Some [] \<and> P ks k"
    then show ?thesis unfolding since_def by (intro exI [of _ ks] exI [of _ k] exI [of _ "[]"]) simp
  next
    assume s: "since P E ks \<and> \<not> (brackets ks = Some [] \<and> E k)"
    then obtain a x b where ks: "ks = a @ x # b" "brackets a = Some []" "P a x" "\<forall>c y d. b = c @ y # d \<and> brackets (a @ x # c) = Some [] \<longrightarrow> \<not> E y"
      by (auto simp: since_def)
    have "\<not> E y" if "b @ [k] = c @ y # d" "brackets (a @ x # c) = Some []" for c y d
      using that ks s by (cases d rule: rev_cases) auto
    then show ?thesis using ks unfolding since_def by (intro exI [of _ a] exI [of _ x] exI [of _ "b @ [k]"]) auto
  qed
qed

subsection \<open>The flags\<close>

lemma using_step_fields [simp]:
  "os_depth (using_step k s) = os_depth s" "os_valid (using_step k s) = os_valid s" "os_namespace_pending (using_step k s) = os_namespace_pending s"
  "os_extern_pending (using_step k s) = os_extern_pending s" "os_linkage_pending (using_step k s) = os_linkage_pending s"
  "os_root_block (using_step k s) = os_root_block s" "os_boundary (using_step k s) = os_boundary s"
  by (simp_all add: using_step_def Let_def split: option.split TokenKind.split prod.split)

definition flags :: "OutputScope \<Rightarrow> bool \<times> bool \<times> bool \<times> bool" where
  "flags s = (os_namespace_pending s, os_root_block s, os_extern_pending s, os_linkage_pending s)"

lemma punct_step_flags:
  assumes "os_valid (punct_step p l s)" "\<not> os_extern_pending s" "\<not> os_linkage_pending s"
  shows "flags (punct_step p l s) =
    (os_namespace_pending s \<and> \<not> (os_depth s = 0 \<and> ends_head (Punct p)),
     os_depth s = 0 \<and> opens_brace (Punct p) \<and> (os_namespace_pending s \<or> l) \<or> os_root_block s \<and> \<not> (os_depth s = 0 \<and> ends_head (Punct p)),
     False, False)"
proof -
  have semi: "open_code (str '';'') = None" "close_code (str '';'') = None" by code_simp+
  have brace: "open_code p = Some 1 \<and> p \<noteq> str '';''" if "p \<in> set OPEN_BRACES" using that by (auto simp: open_code_def OPEN_BRACES_def str_def)
  have close: "p \<noteq> str '';'' \<and> p \<notin> set OPEN_BRACES" if "open_code p = None" "close_code p = Some c" for c
    using that semi brace by auto
  show ?thesis using assms semi brace close
    by (auto simp: flags_def punct_step_def open_step_def close_step_def end_step_def ends_head_def opens_brace_def image_iff Let_def
      split: option.splits if_splits)
qed

lemma scope_token_flags:
  assumes "os_valid (scope_token k s)"
  shows "flags (scope_token k s) =
    (os_depth s = 0 \<and> k = Identifier (str ''namespace'') \<or> os_namespace_pending s \<and> \<not> (os_depth s = 0 \<and> ends_head k),
     os_depth s = 0 \<and> opens_brace k \<and> (os_namespace_pending s \<or> os_linkage_pending s) \<or> os_root_block s \<and> \<not> (os_depth s = 0 \<and> ends_head k),
     if k = Newline \<or> k = Eof then os_extern_pending s else os_depth s = 0 \<and> k = Identifier (str ''extern''),
     if k = Newline \<or> k = Eof then os_linkage_pending s else os_depth s = 0 \<and> os_extern_pending s \<and> is_linkage k)"
proof (cases k)
  case (Punct p)
  let ?s = "(using_step k s)\<lparr>os_extern_pending := False, os_linkage_pending := False\<rparr>"
  have "scope_token k s = punct_step p (os_linkage_pending s) ?s" using Punct by (simp add: scope_token_def Let_def)
  then show ?thesis using punct_step_flags [of p "os_linkage_pending s" ?s] assms Punct by (auto simp: is_linkage_def)
qed (auto simp: flags_def scope_token_def word_step_def ends_head_def opens_brace_def is_linkage_def Let_def)

lemma flags_fold:
  "brackets ks \<noteq> None \<Longrightarrow> flags (fold scope_token ks OutputScope_default) =
     (namespace_open ks, in_root_block ks,
      brackets ks = Some [] \<and> (\<exists>a. significant ks = a @ [Identifier (str ''extern'')]), brackets ks = Some [] \<and> linkage_open ks)"
proof (induction ks rule: rev_induct)
  case Nil
  show ?case by (simp add: flags_def OutputScope_default_def namespace_open_def in_root_block_def significant_def linkage_open_def)
next
  case (snoc k ks)
  let ?s = "fold scope_token ks OutputScope_default"
  obtain ds where ds: "brackets ks = Some ds" using snoc.prems brackets_init by (metis not_None_eq)
  have valid: "os_valid (scope_token k ?s)" using scope_rel_fold [of "ks @ [k]"] snoc.prems by (auto simp: scope_rel_def)
  have depth: "os_depth ?s = 0 \<longleftrightarrow> brackets ks = Some []" using scope_rel_fold [of ks] ds by (simp add: scope_rel_def)
  have IH: "os_namespace_pending ?s = namespace_open ks" "os_root_block ?s = in_root_block ks"
    "os_extern_pending ?s \<longleftrightarrow> brackets ks = Some [] \<and> (\<exists>a. significant ks = a @ [Identifier (str ''extern'')])"
    "os_linkage_pending ?s \<longleftrightarrow> brackets ks = Some [] \<and> linkage_open ks"
    using snoc.IH ds by (simp_all add: flags_def)
  have ns: "namespace_open (ks @ [k]) \<longleftrightarrow> brackets ks = Some [] \<and> k = Identifier (str ''namespace'') \<or> namespace_open ks \<and> \<not> (brackets ks = Some [] \<and> ends_head k)"
    by (simp add: namespace_open_def since_snoc)
  have rb: "in_root_block (ks @ [k]) \<longleftrightarrow> brackets ks = Some [] \<and> opens_brace k \<and> (namespace_open ks \<or> linkage_open ks) \<or>
      in_root_block ks \<and> \<not> (brackets ks = Some [] \<and> ends_head k)" by (simp add: in_root_block_def since_snoc)
  have word: "brackets (ks @ [k]) = brackets ks" if "\<nexists>p. k = Punct p"
    using that by (cases k) (simp_all add: brackets_snoc bracket_def split: option.split)
  have ext: "brackets (ks @ [k]) = Some [] \<and> (\<exists>a. significant (ks @ [k]) = a @ [Identifier (str ''extern'')]) \<longleftrightarrow>
      (if k = Newline \<or> k = Eof then brackets ks = Some [] \<and> (\<exists>a. significant ks = a @ [Identifier (str ''extern'')])
       else brackets ks = Some [] \<and> k = Identifier (str ''extern''))"
    using word by (auto simp: significant_def)
  have link: "brackets (ks @ [k]) = Some [] \<and> linkage_open (ks @ [k]) \<longleftrightarrow>
      (if k = Newline \<or> k = Eof then brackets ks = Some [] \<and> linkage_open ks
       else brackets ks = Some [] \<and> (\<exists>a. significant ks = a @ [Identifier (str ''extern'')]) \<and> is_linkage k)"
    using word by (auto simp: significant_def linkage_open_def is_linkage_def)
  show ?case using scope_token_flags [OF valid] unfolding ns rb ext link depth IH by auto
qed

lemma punct_step_boundary:
  assumes "os_valid (punct_step p b s)"
  shows "os_boundary (punct_step p b s) \<longleftrightarrow> p = str '';'' \<or> p \<in> set CLOSE_BRACES \<and> os_root_block (punct_step p b s)"
proof -
  have e: "os_boundary (end_step p s') \<longleftrightarrow> p = str '';'' \<or> p \<in> set CLOSE_BRACES \<and> os_root_block (end_step p s')" for s'
    by (auto simp: end_step_def Let_def)
  show ?thesis using assms e by (auto simp: punct_step_def open_step_def close_step_def Let_def split: option.splits if_splits)
qed

lemma scope_token_boundary:
  assumes "os_valid (scope_token k s)" "k \<noteq> Newline" "k \<noteq> Eof"
  shows "os_boundary (scope_token k s) \<longleftrightarrow> k = Punct (str '';'') \<or> k \<in> Punct ` set CLOSE_BRACES \<and> os_root_block (scope_token k s)"
proof (cases k)
  case (Punct p)
  then show ?thesis using assms punct_step_boundary by (auto simp: scope_token_def Let_def)
qed (use assms in \<open>auto simp: scope_token_def word_step_def Let_def\<close>)

lemma boundary_fold:
  "brackets ks \<noteq> None \<Longrightarrow> os_boundary (fold scope_token ks OutputScope_default) \<longleftrightarrow> item_end ks"
proof (induction ks rule: rev_induct)
  case Nil
  show ?case by (simp add: item_end_def significant_def OutputScope_default_def)
next
  case (snoc k ks)
  let ?s = "fold scope_token ks OutputScope_default"
  have valid: "os_valid (scope_token k ?s)" using scope_rel_fold [of "ks @ [k]"] snoc.prems by (auto simp: scope_rel_def)
  have root: "os_root_block (scope_token k ?s) = in_root_block (ks @ [k])" using flags_fold [OF snoc.prems] by (simp add: flags_def)
  show ?case
  proof (cases "k = Newline \<or> k = Eof")
    case True
    then have "brackets ks \<noteq> None" "in_root_block (ks @ [k]) = in_root_block ks"
      using snoc.prems brackets_init by (auto simp: in_root_block_def since_snoc opens_brace_def ends_head_def)
    then show ?thesis using snoc.IH True by (auto simp: item_end_def significant_def scope_token_def)
  next
    case False
    then have last: "item_end (ks @ [k]) \<longleftrightarrow> k = Punct (str '';'') \<or> k \<in> Punct ` set CLOSE_BRACES \<and> in_root_block (ks @ [k])"
      by (simp add: item_end_def significant_def)
    then show ?thesis using scope_token_boundary [OF valid] root False by auto
  qed
qed

text \<open>C33: the bit-packed scope is the list of open delimiters. After any tokens the scope is valid exactly when every closing
  delimiter, digraphs included, closed the innermost open one and no more than 64 were open at once; the depth and the bits are
  then those of the open delimiters, nothing having been shifted out of the 128 bits. The output is at a boundary exactly when all
  delimiters are closed and nothing has been printed, or the last token is a semicolon, or it is the closing brace of a namespace or
  linkage block: the last top-level brace opened behind a \<^verbatim>\<open>namespace\<close> (with no top-level semicolon or brace between) or directly behind
  \<^verbatim>\<open>extern "C"\<close> or \<^verbatim>\<open>extern "C++"\<close>, and no top-level semicolon followed.
\<close>

theorem output_scope_tracks_delimiters:
  "case brackets ks of
     None \<Rightarrow> \<not> os_valid (fold scope_token ks OutputScope_default) \<and> \<not> at_boundary (fold scope_token ks OutputScope_default)
   | Some ds \<Rightarrow>
       os_valid (fold scope_token ks OutputScope_default) \<and> length ds \<le> 64 \<and> os_depth (fold scope_token ks OutputScope_default) = length ds \<and>
       os_stack (fold scope_token ks OutputScope_default) = encode ds \<and>
       (at_boundary (fold scope_token ks OutputScope_default) \<longleftrightarrow> ds = [] \<and> item_end ks)"
  using scope_rel_fold [of ks] boundary_fold [of ks]
  by (auto simp: scope_rel_def at_boundary_def codes_ok_def split: option.split)

end
