(* ===== verification/Loc_Bits.thy ===== *)
theory Loc_Bits
  imports Prelude "HOL-Library.Word"
begin

unbundle bit_operations_syntax

text \<open>
  Bit sets of the points-to solver: the flat set of load sources (\<^verbatim>\<open>trace-analysis/src/pag.rs\<close>), the blocked
  mirrors of large sets and the dense numbering they share (\<^verbatim>\<open>trace-analysis/src/solver.rs\<close>). The locale is what both
  bit sets promise; an access out of range, or a counter past its width, is \<open>None\<close>.
\<close>

section \<open>The interface of a bit set\<close>

locale bit_index =
  fixes test :: "'s \<Rightarrow> nat \<Rightarrow> bool option"
    and put :: "'s \<Rightarrow> nat \<Rightarrow> 's option"
    and ok :: "'s \<Rightarrow> bool"
    and start :: 's
  assumes start_ok: "ok start"
    and start_test: "test start n = Some False"
    and test_total: "ok s \<Longrightarrow> test s n \<noteq> None"
    and put_test: "ok s \<Longrightarrow> n \<le> u32_max \<Longrightarrow> \<exists>s'. put s n = Some s' \<and> ok s' \<and> (\<forall>m. test s' m = Some (m = n \<or> test s m = Some True))"
begin

definition members :: "'s \<Rightarrow> nat set" where
  "members s = {n. test s n = Some True}"

lemma members_start: "members start = {}"
  by (simp add: members_def start_test)

lemma test_members: "ok s \<Longrightarrow> test s n = Some (n \<in> members s)"
  using test_total [of s n] by (auto simp: members_def)

lemma put_members: "ok s \<Longrightarrow> n \<le> u32_max \<Longrightarrow> \<exists>s'. put s n = Some s' \<and> ok s' \<and> members s' = insert n (members s)"
  using put_test [of s n] by (auto simp: members_def)

lemma put_all: "ok s \<Longrightarrow> \<forall>n \<in> set ns. n \<le> u32_max \<Longrightarrow> \<exists>s'. foldM put s ns = Some s' \<and> ok s' \<and> members s' = members s \<union> set ns"
proof (induction ns arbitrary: s)
  case (Cons n ns)
  then obtain s1 where s1: "put s n = Some s1" "ok s1" "members s1 = insert n (members s)" using put_members by force
  from Cons.IH [OF s1(2)] Cons.prems(2) show ?case using s1 by auto
qed simp

end

section \<open>Words as rows of bits\<close>

text \<open>\<open>1u64 << k\<close> for \<open>k\<close> below 64.\<close>

definition bit64 :: "nat \<Rightarrow> 64 word" where
  "bit64 k = push_bit k 1"

lemma and_bit64: "k < 64 \<Longrightarrow> w AND bit64 k \<noteq> 0 \<longleftrightarrow> bit w k"
  by (simp add: bit64_def bit_iff_and_push_bit_not_eq_0)

lemma bit_or_bit64: "k < 64 \<Longrightarrow> bit (w OR bit64 j) k \<longleftrightarrow> k = j \<or> bit w k"
  by (auto simp: bit64_def bit_simps)

section \<open>The load sources\<close>

text \<open>\<open>Vec::resize\<close> to a longer length.\<close>

definition resize :: "nat \<Rightarrow> 'a \<Rightarrow> 'a list \<Rightarrow> 'a list" where
  "resize n x xs = xs @ replicate (n - length xs) x"

definition load_bit_put :: "64 word list \<Rightarrow> nat \<Rightarrow> 64 word list option" where
  "load_bit_put bits src =
     (let word = src div 64;
          bits1 = (if word \<ge> length bits then resize (word + 1) 0 bits else bits)
      in do { w \<leftarrow> vget bits1 word; vset bits1 word (w OR bit64 (src mod 64)) })"

definition load_bit_test :: "64 word list \<Rightarrow> nat \<Rightarrow> bool" where
  "load_bit_test bits node = (case vget bits (node div 64) of None \<Rightarrow> False | Some word \<Rightarrow> word AND bit64 (node mod 64) \<noteq> 0)"

record SolverIndices =
  si_copy_src :: "PagNodeId \<rightharpoonup> nat list"
  si_addr_of_dst :: "PagNodeId \<rightharpoonup> nat list"
  si_load_src :: "PagNodeId \<rightharpoonup> nat list"
  si_load_src_bits :: "64 word list"
  si_store_dst :: "PagNodeId \<rightharpoonup> nat list"
  si_store_src :: "PagNodeId \<rightharpoonup> nat list"
  si_gep_src :: "PagNodeId \<rightharpoonup> nat list"
  si_dlsym_src :: "PagNodeId \<rightharpoonup> nat list"
  si_unwrap_src :: "PagNodeId \<rightharpoonup> (nat \<times> TypeId) list"
  si_indirect_by_target :: "PagNodeId \<rightharpoonup> CallSiteId list"

definition SolverIndices_default :: SolverIndices where
  "SolverIndices_default = \<lparr>si_copy_src = Map.empty, si_addr_of_dst = Map.empty, si_load_src = Map.empty, si_load_src_bits = [],
     si_store_dst = Map.empty, si_store_src = Map.empty, si_gep_src = Map.empty, si_dlsym_src = Map.empty, si_unwrap_src = Map.empty,
     si_indirect_by_target = Map.empty\<rparr>"

definition add_load :: "nat \<Rightarrow> nat \<Rightarrow> SolverIndices \<Rightarrow> SolverIndices option" where
  "add_load src idx ix =
     do {
       bits \<leftarrow> load_bit_put (si_load_src_bits ix) src;
       Some (ix\<lparr>si_load_src := (si_load_src ix)(src \<mapsto> (case si_load_src ix src of None \<Rightarrow> [] | Some is \<Rightarrow> is) @ [idx]),
         si_load_src_bits := bits\<rparr>)
     }"

definition is_load_src :: "SolverIndices \<Rightarrow> nat \<Rightarrow> bool" where
  "is_load_src ix node = load_bit_test (si_load_src_bits ix) node"

section \<open>Mirrors\<close>

definition BLOCK_WORDS :: nat where
  "BLOCK_WORDS = 8"

record Mirror =
  mi_dir :: "nat list"
  mi_blocks :: "64 word list list"

definition Mirror_default :: Mirror where
  "Mirror_default = \<lparr>mi_dir = [], mi_blocks = []\<rparr>"

definition locate :: "nat \<Rightarrow> nat \<times> nat \<times> 64 word" where
  "locate n = (let word = n div 64 in (word div BLOCK_WORDS, word mod BLOCK_WORDS, bit64 (n mod 64)))"

definition Mirror_test :: "Mirror \<Rightarrow> nat \<Rightarrow> bool option" where
  "Mirror_test m n =
     (let (block, word, bit) = locate n
      in case vget (mi_dir m) block of
           None \<Rightarrow> Some False
         | Some slot \<Rightarrow>
             if slot \<noteq> 0 then do { b \<leftarrow> vget (mi_blocks m) (slot - 1); w \<leftarrow> vget b word; Some (w AND bit \<noteq> 0) }
             else Some False)"

definition Mirror_set :: "Mirror \<Rightarrow> nat \<Rightarrow> Mirror option" where
  "Mirror_set m n =
     (let (block, word, bit) = locate n;
          dir = (if block \<ge> length (mi_dir m) then resize (block + 1) 0 (mi_dir m) else mi_dir m)
      in do {
        slot \<leftarrow> vget dir block;
        let blocks = (if slot = 0 then mi_blocks m @ [replicate BLOCK_WORDS 0] else mi_blocks m);
        let slot1 = (if slot = 0 then as_u32 (length blocks) else slot);
        b \<leftarrow> vget blocks (slot1 - 1);
        w \<leftarrow> vget b word;
        b1 \<leftarrow> vset b word (w OR bit);
        blocks1 \<leftarrow> vset blocks (slot1 - 1) b1;
        Some \<lparr>mi_dir = dir[block := slot1], mi_blocks = blocks1\<rparr>
      })"

section \<open>The numbering of locations\<close>

record LocBits =
  lb_number :: "nat list"
  lb_next :: nat

definition LocBits_default :: LocBits where
  "LocBits_default = \<lparr>lb_number = [], lb_next = 0\<rparr>"

definition LocBits_test :: "LocBits \<Rightarrow> Mirror \<Rightarrow> LocId \<Rightarrow> bool option" where
  "LocBits_test lb bits loc =
     (case vget (lb_number lb) loc of
        None \<Rightarrow> Some False
      | Some n \<Rightarrow> if n \<noteq> 0 then Mirror_test bits (n - 1) else Some False)"

definition LocBits_set :: "LocBits \<times> Mirror \<Rightarrow> LocId \<Rightarrow> (LocBits \<times> Mirror) option" where
  "LocBits_set lbm loc =
     (let (lb, bits) = lbm;
          number = (if loc \<ge> length (lb_number lb) then resize (loc + 1) 0 (lb_number lb) else lb_number lb)
      in do {
        n \<leftarrow> vget number loc;
        (if n = 0 \<and> lb_next lb \<ge> u32_max then None
         else do {
           let next = (if n = 0 then lb_next lb + 1 else lb_next lb);
           let n1 = (if n = 0 then next else n);
           bits1 \<leftarrow> Mirror_set bits (n1 - 1);
           Some (\<lparr>lb_number = number[loc := n1], lb_next = next\<rparr>, bits1)
         })
      })"

definition LocBits_mirror :: "LocBits \<Rightarrow> LocId list \<Rightarrow> (LocBits \<times> Mirror) option" where
  "LocBits_mirror lb locs = foldM LocBits_set (lb, Mirror_default) locs"

section \<open>Both bit sets keep their promise\<close>

definition grown :: "nat \<Rightarrow> 'a::zero list \<Rightarrow> 'a list" where
  "grown i xs = (if i \<ge> length xs then resize (i + 1) 0 xs else xs)"

lemma length_grown [simp]: "length (grown i xs) = max (length xs) (i + 1)"
  by (simp add: grown_def resize_def)

lemma grown_nth: "j < length (grown i xs) \<Longrightarrow> grown i xs ! j = (if j < length xs then xs ! j else 0)"
  by (auto simp: grown_def resize_def nth_append split: if_splits)

lemma filter_grown: "\<not> P 0 \<Longrightarrow> filter P (grown i xs) = filter P xs"
  by (simp add: grown_def resize_def)

lemma set_grown: "set (grown i xs) \<subseteq> insert 0 (set xs)"
  by (auto simp: grown_def resize_def)

lemma set_grownD: "x \<in> set (grown i xs) \<Longrightarrow> x = 0 \<or> x \<in> set xs"
  using set_grown by blast

interpretation loads: bit_index "\<lambda>bits n. Some (load_bit_test bits n)" load_bit_put "\<lambda>_. True" "[]"
proof
  fix bits :: "64 word list" and n :: nat
  define bits1 where "bits1 = grown (n div 64) bits"
  have l: "n div 64 < length bits1" by (simp add: bits1_def)
  have p: "load_bit_put bits n = Some (bits1[n div 64 := bits1 ! (n div 64) OR bit64 (n mod 64)])"
    using l unfolding load_bit_put_def Let_def bits1_def grown_def [symmetric] by (simp add: vget_in vset_in)
  have "load_bit_test (bits1[n div 64 := bits1 ! (n div 64) OR bit64 (n mod 64)]) m \<longleftrightarrow> m = n \<or> load_bit_test bits m" for m
  proof (cases "m div 64 = n div 64")
    case True
    then have "m = n \<longleftrightarrow> m mod 64 = n mod 64" by (metis mult_div_mod_eq)
    then show ?thesis using True l grown_nth [of "n div 64" "n div 64" bits]
      by (simp add: load_bit_test_def vget_def and_bit64 bit_or_bit64 bits1_def)
  next
    case False
    then show ?thesis using grown_nth [of "m div 64" "n div 64" bits] by (auto simp: load_bit_test_def vget_def bits1_def)
  qed
  then show "\<exists>s'. load_bit_put bits n = Some s' \<and> True \<and> (\<forall>m. Some (load_bit_test s' m) = Some (m = n \<or> Some (load_bit_test bits m) = Some True))"
    using p by auto
qed (auto simp: load_bit_test_def vget_def)

text \<open>The well-formedness of a mirror: one block per entry of its directory.\<close>

definition mirror_ok :: "Mirror \<Rightarrow> bool" where
  "mirror_ok m \<longleftrightarrow> (\<forall>b \<in> set (mi_blocks m). length b = BLOCK_WORDS) \<and> (\<forall>s \<in> set (mi_dir m). s \<le> length (mi_blocks m)) \<and>
     distinct (filter (\<lambda>s. s \<noteq> 0) (mi_dir m)) \<and> length (mi_blocks m) = length (filter (\<lambda>s. s \<noteq> 0) (mi_dir m)) \<and>
     length (mi_dir m) \<le> 8388608"

lemma locate_inj: "m = n \<longleftrightarrow> m div 64 div 8 = n div 64 div 8 \<and> m div 64 mod 8 = n div 64 mod 8 \<and> m mod 64 = n mod (64::nat)"
  by (metis mult_div_mod_eq)

lemma distinct_nonzero:
  fixes xs :: "nat list"
  assumes "distinct (filter (\<lambda>s. s \<noteq> 0) xs)" "i < length xs" "j < length xs" "xs ! i = xs ! j" "xs ! i \<noteq> 0"
  shows "i = j"
proof (rule rank_inj [of i xs j "\<lambda>s. s \<noteq> 0"])
  have "filter (\<lambda>s. s \<noteq> 0) xs ! rank (\<lambda>s. s \<noteq> 0) xs i = filter (\<lambda>s. s \<noteq> 0) xs ! rank (\<lambda>s. s \<noteq> 0) xs j"
    using assms(2-5) by (simp add: nth_filter_rank)
  then show "rank (\<lambda>s. s \<noteq> 0) xs i = rank (\<lambda>s. s \<noteq> 0) xs j"
    using assms rank_less [of i xs "\<lambda>s. s \<noteq> 0"] rank_less [of j xs "\<lambda>s. s \<noteq> 0"] by (simp add: nth_eq_iff_index_eq)
qed (use assms in auto)

lemma filter_update_zero:
  fixes xs :: "nat list"
  assumes "i < length xs" "xs ! i = 0" "v \<noteq> 0"
  shows "length (filter (\<lambda>s. s \<noteq> 0) (xs[i := v])) = Suc (length (filter (\<lambda>s. s \<noteq> 0) xs))"
    and "set (filter (\<lambda>s. s \<noteq> 0) (xs[i := v])) = insert v (set (filter (\<lambda>s. s \<noteq> 0) xs))"
    and "v \<notin> set xs \<Longrightarrow> distinct (filter (\<lambda>s. s \<noteq> 0) xs) \<Longrightarrow> distinct (filter (\<lambda>s. s \<noteq> 0) (xs[i := v]))"
proof -
  have x: "xs = take i xs @ 0 # drop (Suc i) xs" using id_take_nth_drop [OF assms(1)] assms(2) by simp
  have u: "xs[i := v] = take i xs @ v # drop (Suc i) xs" using assms(1) by (rule upd_conv_take_nth_drop)
  have f: "filter (\<lambda>s. s \<noteq> 0) xs = filter (\<lambda>s. s \<noteq> 0) (take i xs) @ filter (\<lambda>s. s \<noteq> 0) (drop (Suc i) xs)" by (subst x) simp
  show "length (filter (\<lambda>s. s \<noteq> 0) (xs[i := v])) = Suc (length (filter (\<lambda>s. s \<noteq> 0) xs))"
    "set (filter (\<lambda>s. s \<noteq> 0) (xs[i := v])) = insert v (set (filter (\<lambda>s. s \<noteq> 0) xs))"
    unfolding f u using assms(3) by auto
  assume "v \<notin> set xs" "distinct (filter (\<lambda>s. s \<noteq> 0) xs)"
  then show "distinct (filter (\<lambda>s. s \<noteq> 0) (xs[i := v]))"
    unfolding f u using assms(3) by (auto dest: in_set_takeD in_set_dropD)
qed

lemma Mirror_test_eq:
  assumes "mirror_ok m"
  shows "Mirror_test m n = Some (n div 64 div 8 < length (mi_dir m) \<and> mi_dir m ! (n div 64 div 8) \<noteq> 0 \<and>
    bit (mi_blocks m ! (mi_dir m ! (n div 64 div 8) - 1) ! (n div 64 mod 8)) (n mod 64))"
proof -
  let ?b = "n div 64 div 8"
  have "mi_dir m ! ?b - 1 < length (mi_blocks m) \<and> length (mi_blocks m ! (mi_dir m ! ?b - 1)) = 8"
    if "?b < length (mi_dir m)" "mi_dir m ! ?b \<noteq> 0"
  proof -
    have M: "\<forall>s \<in> set (mi_dir m). s \<le> length (mi_blocks m)" "\<forall>b \<in> set (mi_blocks m). length b = 8"
      using assms by (auto simp: mirror_ok_def BLOCK_WORDS_def)
    then have "mi_dir m ! ?b \<le> length (mi_blocks m)" using that(1) by simp
    then have "mi_dir m ! ?b - 1 < length (mi_blocks m)" using that(2) by arith
    then show ?thesis using M(2) by simp
  qed
  then show ?thesis by (auto simp: Mirror_test_def locate_def Let_def BLOCK_WORDS_def vget_def and_bit64)
qed

text \<open>The state of \<open>Mirror::set\<close> after the directory has grown and the block exists.\<close>

lemma Mirror_set_eq:
  assumes "mirror_ok m" "n \<le> u32_max"
  defines "b \<equiv> n div 64 div 8" and "w \<equiv> n div 64 mod 8"
  obtains dir slot blocks where
    "Mirror_set m n = Some \<lparr>mi_dir = dir, mi_blocks = blocks[slot - 1 := (blocks ! (slot - 1))[w := blocks ! (slot - 1) ! w OR bit64 (n mod 64)]]\<rparr>"
    "mirror_ok \<lparr>mi_dir = dir, mi_blocks = blocks\<rparr>" "b < length dir" "dir ! b = slot" "slot \<noteq> 0"
    "\<And>k. Mirror_test \<lparr>mi_dir = dir, mi_blocks = blocks\<rparr> k = Mirror_test m k"
proof -
  define dir0 where "dir0 = grown b (mi_dir m)"
  define slot0 where "slot0 = dir0 ! b"
  define blocks where "blocks = (if slot0 = 0 then mi_blocks m @ [replicate BLOCK_WORDS 0] else mi_blocks m)"
  define slot where "slot = (if slot0 = 0 then length blocks else slot0)"
  define dir where "dir = dir0[b := slot]"
  have M: "\<forall>c \<in> set (mi_blocks m). length c = 8" "\<forall>s \<in> set (mi_dir m). s \<le> length (mi_blocks m)"
    "distinct (filter (\<lambda>s. s \<noteq> 0) (mi_dir m))" "length (mi_blocks m) = length (filter (\<lambda>s. s \<noteq> 0) (mi_dir m))" "length (mi_dir m) \<le> 8388608"
    using assms(1) by (auto simp: mirror_ok_def BLOCK_WORDS_def)
  have bl: "b < length dir0" "b < 8388608" using assms(2) by (auto simp: dir0_def b_def u32_max_def)
  have f0: "filter (\<lambda>s. s \<noteq> 0) dir0 = filter (\<lambda>s. s \<noteq> 0) (mi_dir m)" by (simp add: dir0_def filter_grown)
  have d0: "s \<le> length (mi_blocks m)" if "s \<in> set dir0" for s using that set_grownD [of s b "mi_dir m"] M(2) by (auto simp: dir0_def)
  have len: "length dir0 \<le> 8388608" using M(5) bl by (simp add: dir0_def)
  have few: "length (mi_blocks m) < length dir0" if "slot0 = 0"
  proof -
    have "0 \<in> set dir0" using that bl(1) slot0_def by (metis nth_mem)
    then have "length (filter (\<lambda>s. s \<noteq> 0) dir0) < length dir0" by (rule length_filter_less) simp
    then show ?thesis using M(4) f0 by simp
  qed
  have s: "slot \<noteq> 0" "slot - 1 < length blocks" "slot \<le> length blocks"
    using d0 [of slot0] bl(1) by (auto simp: slot_def blocks_def slot0_def)
  have u: "as_u32 (length blocks) = length blocks" if "slot0 = 0" using few [OF that] len that by (simp add: blocks_def as_u32_def)
  have "\<forall>c \<in> set blocks. length c = 8" using M(1) by (auto simp: blocks_def BLOCK_WORDS_def)
  then have bs: "length (blocks ! (slot - 1)) = 8" using nth_mem [OF s(2)] by blast
  have "Mirror_set m n = Some \<lparr>mi_dir = dir, mi_blocks = blocks[slot - 1 := (blocks ! (slot - 1))[w := blocks ! (slot - 1) ! w OR bit64 (n mod 64)]]\<rparr>"
  proof -
    have l: "locate n = (b, w, bit64 (n mod 64))" by (simp add: locate_def b_def w_def BLOCK_WORDS_def Let_def)
    have g: "(if length (mi_dir m) \<le> b then resize (b + 1) 0 (mi_dir m) else mi_dir m) = dir0" by (simp add: dir0_def grown_def)
    have v: "vget dir0 b = Some slot0" using bl(1) by (simp add: vget_in slot0_def)
    have e: "(if slot0 = 0 then as_u32 (length blocks) else slot0) = slot" using u by (simp add: slot_def)
    have "w < 8" by (simp add: w_def)
    then show ?thesis unfolding Mirror_set_def l Let_def prod.case g v Option.bind_lunit blocks_def [symmetric] e
      using s(2) bs by (simp add: vget_in vset_in dir_def)
  qed
  moreover have ok: "mirror_ok \<lparr>mi_dir = dir, mi_blocks = blocks\<rparr>"
  proof (cases "slot0 = 0")
    case True
    have new: "slot \<notin> set dir0" using d0 [of slot] True by (auto simp: slot_def blocks_def)
    note F = filter_update_zero [OF bl(1) True [unfolded slot0_def] s(1)]
    have "x \<le> length blocks" if "x \<in> set dir" for x
      using that d0 [of x] True s(3) set_update_subset_insert [of dir0 b slot] by (auto simp: dir_def blocks_def)
    then show ?thesis using F(1) F(3) [OF new] f0 M True len
      by (auto simp: mirror_ok_def dir_def blocks_def BLOCK_WORDS_def)
  next
    case False
    then have "dir = dir0" by (simp add: dir_def slot_def slot0_def)
    then show ?thesis using False f0 M d0 len by (auto simp: mirror_ok_def blocks_def BLOCK_WORDS_def)
  qed
  moreover have "Mirror_test \<lparr>mi_dir = dir, mi_blocks = blocks\<rparr> k = Mirror_test m k" for k
  proof -
    let ?j = "k div 64 div 8"
    have j: "?j < length dir0 \<and> dir0 ! ?j \<noteq> 0 \<longleftrightarrow> ?j < length (mi_dir m) \<and> mi_dir m ! ?j \<noteq> 0"
      "?j < length (mi_dir m) \<Longrightarrow> dir0 ! ?j = mi_dir m ! ?j"
      using grown_nth [of ?j b "mi_dir m"] by (auto simp: dir0_def split: if_splits)
    have old: "blocks ! (dir0 ! ?j - 1) = mi_blocks m ! (dir0 ! ?j - 1)" if "?j < length dir0" "dir0 ! ?j \<noteq> 0"
      using d0 [of "dir0 ! ?j"] that by (auto simp: blocks_def nth_append)
    have same: "length dir = length dir0" by (simp add: dir_def)
    have E: "Mirror_test \<lparr>mi_dir = dir, mi_blocks = blocks\<rparr> k =
        Some (?j < length dir \<and> dir ! ?j \<noteq> 0 \<and> bit (blocks ! (dir ! ?j - 1) ! (k div 64 mod 8)) (k mod 64))"
      using Mirror_test_eq [OF ok, of k] by (simp only: Mirror.select_convs)
    show ?thesis
    proof (cases "?j = b \<and> slot0 = 0")
      case True
      then have "blocks ! (dir ! ?j - 1) = replicate 8 0" using bl(1) by (simp add: dir_def slot_def blocks_def BLOCK_WORDS_def)
      moreover have "\<not> (?j < length (mi_dir m) \<and> mi_dir m ! ?j \<noteq> 0)" using True j(1) by (simp add: slot0_def)
      ultimately show ?thesis unfolding E Mirror_test_eq [OF assms(1)] by auto
    next
      case False
      then have d: "dir ! ?j = dir0 ! ?j" by (cases "?j = b") (auto simp: dir_def slot_def slot0_def)
      show ?thesis
      proof (cases "?j < length dir0 \<and> dir0 ! ?j \<noteq> 0")
        case True
        then have "?j < length (mi_dir m) \<and> mi_dir m ! ?j \<noteq> 0" using j(1) by blast
        then show ?thesis unfolding E Mirror_test_eq [OF assms(1)] d same using True old j(2) by auto
      next
        case False
        then have "\<not> (?j < length (mi_dir m) \<and> mi_dir m ! ?j \<noteq> 0)" using j(1) by blast
        then show ?thesis unfolding E Mirror_test_eq [OF assms(1)] d same using False by blast
      qed
    qed
  qed
  moreover have "b < length dir" "dir ! b = slot" using bl(1) by (simp_all add: dir_def)
  ultimately show ?thesis using that s(1) by blast
qed

interpretation mirror: bit_index Mirror_test Mirror_set mirror_ok Mirror_default
proof
  show "mirror_ok Mirror_default" by (simp add: mirror_ok_def Mirror_default_def)
  show "Mirror_test Mirror_default n = Some False" for n by (simp add: Mirror_test_def Mirror_default_def locate_def Let_def vget_def)
  show "Mirror_test m n \<noteq> None" if "mirror_ok m" for m n using Mirror_test_eq [OF that] by simp
  show "\<exists>m'. Mirror_set m n = Some m' \<and> mirror_ok m' \<and> (\<forall>k. Mirror_test m' k = Some (k = n \<or> Mirror_test m k = Some True))"
    if ok: "mirror_ok m" "n \<le> u32_max" for m n
  proof -
    let ?b = "n div 64 div 8" and ?w = "n div 64 mod 8"
    obtain dir slot blocks where M: "Mirror_set m n = Some \<lparr>mi_dir = dir,
        mi_blocks = blocks[slot - 1 := (blocks ! (slot - 1))[?w := blocks ! (slot - 1) ! ?w OR bit64 (n mod 64)]]\<rparr>"
      and m1: "mirror_ok \<lparr>mi_dir = dir, mi_blocks = blocks\<rparr>" and b: "?b < length dir" "dir ! ?b = slot" "slot \<noteq> 0"
      and T: "\<And>k. Mirror_test \<lparr>mi_dir = dir, mi_blocks = blocks\<rparr> k = Mirror_test m k" by (rule Mirror_set_eq [OF ok], rule that)
    let ?blk = "(blocks ! (slot - 1))[?w := blocks ! (slot - 1) ! ?w OR bit64 (n mod 64)]"
    have D: "distinct (filter (\<lambda>s. s \<noteq> 0) dir)" "\<forall>s \<in> set dir. s \<le> length blocks" "\<forall>c \<in> set blocks. length c = 8"
      using m1 by (auto simp: mirror_ok_def BLOCK_WORDS_def)
    have "slot \<in> set dir" using b by (metis nth_mem)
    then have sl: "slot - 1 < length blocks" using D(2) b(3) by fastforce
    then have lb: "length ?blk = 8" "length (blocks ! (slot - 1)) = 8" using D(3) by auto
    have m2: "mirror_ok \<lparr>mi_dir = dir, mi_blocks = blocks[slot - 1 := ?blk]\<rparr>"
      using m1 lb by (auto simp: mirror_ok_def BLOCK_WORDS_def dest: set_update_subset_insert [THEN subsetD])
    have "Mirror_test \<lparr>mi_dir = dir, mi_blocks = blocks[slot - 1 := ?blk]\<rparr> k = Some (k = n \<or> Mirror_test \<lparr>mi_dir = dir, mi_blocks = blocks\<rparr> k = Some True)" for k
    proof -
      let ?c = "k div 64 div 8" and ?v = "k div 64 mod 8"
      have same: "dir ! ?c - 1 = slot - 1 \<longleftrightarrow> ?c = ?b" if "?c < length dir" "dir ! ?c \<noteq> 0"
      proof
        assume "dir ! ?c - 1 = slot - 1"
        then have "dir ! ?c = dir ! ?b" using that(2) b(2,3) by arith
        then show "?c = ?b" using distinct_nonzero [OF D(1) that(1) b(1)] that(2) by blast
      qed (use b(2) in simp)
      have row: "blocks[slot - 1 := ?blk] ! (dir ! ?c - 1) ! ?v =
          (if ?c = ?b \<and> ?v = ?w then blocks ! (slot - 1) ! ?w OR bit64 (n mod 64) else blocks ! (dir ! ?c - 1) ! ?v)"
        if "?c < length dir" "dir ! ?c \<noteq> 0"
        using same [OF that] sl lb(2) b(2) by (cases "?c = ?b"; cases "?v = ?w") auto
      have E: "Mirror_test \<lparr>mi_dir = dir, mi_blocks = blocks[slot - 1 := ?blk]\<rparr> k =
          Some (?c < length dir \<and> dir ! ?c \<noteq> 0 \<and> bit (blocks[slot - 1 := ?blk] ! (dir ! ?c - 1) ! ?v) (k mod 64))"
        "Mirror_test \<lparr>mi_dir = dir, mi_blocks = blocks\<rparr> k =
          Some (?c < length dir \<and> dir ! ?c \<noteq> 0 \<and> bit (blocks ! (dir ! ?c - 1) ! ?v) (k mod 64))"
        using Mirror_test_eq [OF m2, of k] Mirror_test_eq [OF m1, of k] by (simp_all only: Mirror.select_convs)
      show ?thesis
      proof (cases "?c < length dir \<and> dir ! ?c \<noteq> 0")
        case True
        have "bit (blocks[slot - 1 := ?blk] ! (dir ! ?c - 1) ! ?v) (k mod 64) \<longleftrightarrow> k = n \<or> bit (blocks ! (dir ! ?c - 1) ! ?v) (k mod 64)"
        proof (cases "?c = ?b \<and> ?v = ?w")
          case same: True
          then have "k = n \<longleftrightarrow> k mod 64 = n mod 64" using locate_inj [of k n] by blast
          then show ?thesis using row True same b(2) by (simp add: bit_or_bit64)
        next
          case False
          then have "k \<noteq> n" by auto
          moreover have "blocks[slot - 1 := ?blk] ! (dir ! ?c - 1) ! ?v = blocks ! (dir ! ?c - 1) ! ?v" using row True False by (simp only: if_False simp_thms)
          ultimately show ?thesis by simp
        qed
        then show ?thesis unfolding E using True by simp
      next
        case False
        then have "k \<noteq> n" using b by auto
        then show ?thesis unfolding E using False by blast
      qed
    qed
    then show ?thesis using M m2 T by auto
  qed
qed

section \<open>The numbering\<close>

definition lb_ok :: "LocBits \<Rightarrow> bool" where
  "lb_ok lb \<longleftrightarrow> distinct (filter (\<lambda>n. n \<noteq> 0) (lb_number lb)) \<and> (\<forall>n \<in> set (lb_number lb). n \<le> lb_next lb) \<and>
     lb_next lb = length (filter (\<lambda>n. n \<noteq> 0) (lb_number lb)) \<and> length (lb_number lb) \<le> u32_max"

text \<open>A mirror over a numbering: it has bits of given numbers only.\<close>

definition mirror_in :: "LocBits \<Rightarrow> Mirror \<Rightarrow> bool" where
  "mirror_in lb m \<longleftrightarrow> mirror_ok m \<and> mirror.members m \<subseteq> {..<lb_next lb}"

definition bits_of :: "LocBits \<Rightarrow> Mirror \<Rightarrow> LocId set" where
  "bits_of lb m = {loc. LocBits_test lb m loc = Some True}"

lemma LocBits_test_eq:
  assumes "mirror_ok m"
  shows "LocBits_test lb m loc = Some (loc < length (lb_number lb) \<and> lb_number lb ! loc \<noteq> 0 \<and> lb_number lb ! loc - 1 \<in> mirror.members m)"
  using mirror.test_members [OF assms] by (auto simp: LocBits_test_def vget_def)

lemma LocBits_test_bits: "mirror_ok m \<Longrightarrow> LocBits_test lb m loc = Some (loc \<in> bits_of lb m)"
  using LocBits_test_eq [of m lb loc] by (auto simp: bits_of_def)

lemma bits_of_eq: "mirror_ok m \<Longrightarrow> bits_of lb m = {loc. loc < length (lb_number lb) \<and> lb_number lb ! loc \<noteq> 0 \<and> lb_number lb ! loc - 1 \<in> mirror.members m}"
  using LocBits_test_eq by (auto simp: bits_of_def)

lemma LocBits_set_result:
  assumes "lb_ok lb" "mirror_in lb m" "loc < u32_max"
  shows "\<exists>lb' m'. LocBits_set (lb, m) loc = Some (lb', m') \<and> lb_ok lb' \<and> mirror_in lb' m' \<and> bits_of lb' m' = insert loc (bits_of lb m) \<and>
    (\<forall>m2. mirror_in lb m2 \<longrightarrow> mirror_in lb' m2 \<and> bits_of lb' m2 = bits_of lb m2)"
proof -
  define num where "num = grown loc (lb_number lb)"
  define n where "n = num ! loc"
  define nxt where "nxt = (if n = 0 then lb_next lb + 1 else lb_next lb)"
  define n1 where "n1 = (if n = 0 then nxt else n)"
  define num1 where "num1 = num[loc := n1]"
  have O: "distinct (filter (\<lambda>n. n \<noteq> 0) (lb_number lb))" "\<forall>n \<in> set (lb_number lb). n \<le> lb_next lb"
    "lb_next lb = length (filter (\<lambda>n. n \<noteq> 0) (lb_number lb))" "length (lb_number lb) \<le> u32_max" using assms(1) by (auto simp: lb_ok_def)
  have l: "loc < length num" "length num \<le> u32_max" using O(4) assms(3) by (auto simp: num_def)
  have f: "filter (\<lambda>n. n \<noteq> 0) num = filter (\<lambda>n. n \<noteq> 0) (lb_number lb)" by (simp add: num_def filter_grown)
  have le: "x \<le> lb_next lb" if "x \<in> set num" for x using that set_grownD [of x loc "lb_number lb"] O(2) by (auto simp: num_def)
  have room: "lb_next lb < u32_max" if "n = 0"
  proof -
    have "0 \<in> set num" using that l(1) n_def by (metis nth_mem)
    then have "length (filter (\<lambda>n. n \<noteq> 0) num) < length num" by (rule length_filter_less) simp
    then show ?thesis using O(3) f l(2) by simp
  qed
  have nl: "n \<le> lb_next lb" using le l(1) by (simp add: n_def)
  have "lb_next lb \<le> u32_max" using O(3,4) length_filter_le by (metis le_trans)
  then have n1: "n1 \<noteq> 0" "n1 \<le> nxt" "n1 - 1 < nxt" "lb_next lb \<le> nxt" "n1 - 1 \<le> u32_max"
    using nl room by (auto simp: n1_def nxt_def)
  have mok: "mirror_ok m" "mirror.members m \<subseteq> {..<lb_next lb}" using assms(2) by (auto simp: mirror_in_def)
  obtain m' where m': "Mirror_set m (n1 - 1) = Some m'" "mirror_ok m'" "mirror.members m' = insert (n1 - 1) (mirror.members m)"
    using mirror.put_members [OF mok(1) n1(5)] by blast
  let ?lb = "\<lparr>lb_number = num1, lb_next = nxt\<rparr>"
  have v: "vget num loc = Some n" using l(1) by (simp add: vget_in n_def)
  have "LocBits_set (lb, m) loc = Some (?lb, m')"
    unfolding LocBits_set_def Let_def prod.case num_def [unfolded grown_def, symmetric] v Option.bind_lunit nxt_def [symmetric] n1_def [symmetric] m'(1)
    using room by (auto simp: num1_def)
  moreover have lb': "lb_ok ?lb"
  proof (cases "n = 0")
    case True
    have z: "num ! loc = 0" using True by (simp add: n_def)
    have "n1 \<notin> set num" using le [of n1] True by (auto simp: n1_def nxt_def)
    then have "distinct (filter (\<lambda>n. n \<noteq> 0) num1)" "length (filter (\<lambda>n. n \<noteq> 0) num1) = nxt"
      using filter_update_zero [OF l(1) z n1(1)] O(1,3) f True by (auto simp: num1_def nxt_def)
    moreover have "x \<le> nxt" if "x \<in> set num1" for x
      using that le [of x] n1(2,4) set_update_subset_insert [of num loc n1] by (auto simp: num1_def)
    ultimately show ?thesis using l(2) by (simp add: lb_ok_def num1_def)
  next
    case False
    then have "num1 = num" by (simp add: num1_def n1_def n_def)
    then show ?thesis using O f le l(2) False by (auto simp: lb_ok_def nxt_def)
  qed
  have at: "k < length num1 \<and> num1 ! k \<noteq> 0 \<longleftrightarrow> k < length (lb_number lb) \<and> lb_number lb ! k \<noteq> 0"
    "k < length (lb_number lb) \<Longrightarrow> num1 ! k = lb_number lb ! k" if "k \<noteq> loc" for k
    using that grown_nth [of k loc "lb_number lb"] by (auto simp: num1_def num_def split: if_splits)
  have loc: "loc < length num1" "num1 ! loc = n1" using l(1) by (auto simp: num1_def)
  have other: "num1 ! k \<noteq> n1" if "k \<noteq> loc" "k < length num1" "num1 ! k \<noteq> 0" for k
    using lb' distinct_nonzero [of num1 k loc] that loc by (auto simp: lb_ok_def)
  have "bits_of ?lb m' = insert loc (bits_of lb m)"
  proof (intro set_eqI)
    fix k
    show "k \<in> bits_of ?lb m' \<longleftrightarrow> k \<in> insert loc (bits_of lb m)"
    proof (cases "k = loc")
      case False
      show ?thesis
      proof (cases "k < length num1 \<and> num1 ! k \<noteq> 0")
        case True
        then have o: "k < length (lb_number lb) \<and> lb_number lb ! k \<noteq> 0" using at(1) [OF False] by blast
        then have e: "num1 ! k = lb_number lb ! k" using at(2) [OF False] by blast
        have "num1 ! k - 1 \<noteq> n1 - 1" using other [OF False] True n1(1) by fastforce
        then show ?thesis using True o e m'(2,3) mok(1) False by (simp add: bits_of_eq)
      next
        case no: False
        then have "\<not> (k < length (lb_number lb) \<and> lb_number lb ! k \<noteq> 0)" using at(1) [OF False] by blast
        then show ?thesis unfolding bits_of_eq [OF m'(2)] bits_of_eq [OF mok(1)] using no False by auto
      qed
    qed (use loc n1(1) m' in \<open>simp add: bits_of_eq\<close>)
  qed
  moreover have "mirror_in ?lb m2 \<and> bits_of ?lb m2 = bits_of lb m2" if "mirror_in lb m2" for m2
  proof
    have m2: "mirror_ok m2" "mirror.members m2 \<subseteq> {..<lb_next lb}" using that by (auto simp: mirror_in_def)
    then show "mirror_in ?lb m2" using n1(4) by (auto simp: mirror_in_def)
    have old: "loc < length (lb_number lb) \<and> lb_number lb ! loc = n" if "n \<noteq> 0"
      using that grown_nth [of loc loc "lb_number lb"] l(1) by (auto simp: n_def num_def split: if_splits)
    have zero: "\<not> (loc < length (lb_number lb) \<and> lb_number lb ! loc \<noteq> 0)" if "n = 0"
      using that grown_nth [of loc loc "lb_number lb"] l(1) by (auto simp: n_def num_def split: if_splits)
    have "n1 - 1 \<notin> mirror.members m2" if "n = 0" using that m2(2) by (auto simp: n1_def nxt_def)
    then have "loc \<in> bits_of ?lb m2 \<longleftrightarrow> loc \<in> bits_of lb m2" using old zero loc m2(1) by (cases "n = 0") (auto simp: bits_of_eq n1_def)
    moreover have "k \<in> bits_of ?lb m2 \<longleftrightarrow> k \<in> bits_of lb m2" if "k \<noteq> loc" for k using at [OF that] m2(1) by (auto simp: bits_of_eq)
    ultimately have "k \<in> bits_of ?lb m2 \<longleftrightarrow> k \<in> bits_of lb m2" for k by (cases "k = loc") simp_all
    then show "bits_of ?lb m2 = bits_of lb m2" by (rule set_eqI)
  qed
  moreover have "mirror_in ?lb m'" using m'(2,3) mok(2) n1(3,4) by (auto simp: mirror_in_def)
  ultimately show ?thesis using lb' by blast
qed

text \<open>What one numbering says stays said by a later one.\<close>

definition lb_extends :: "LocBits \<Rightarrow> LocBits \<Rightarrow> bool" where
  "lb_extends lb lb' \<longleftrightarrow> lb_ok lb' \<and> (\<forall>m. mirror_in lb m \<longrightarrow> mirror_in lb' m \<and> bits_of lb' m = bits_of lb m)"

lemma lb_extends_refl: "lb_ok lb \<Longrightarrow> lb_extends lb lb"
  by (simp add: lb_extends_def)

lemma lb_extends_trans: "lb_extends a b \<Longrightarrow> lb_extends b c \<Longrightarrow> lb_extends a c"
  by (simp add: lb_extends_def)

lemma LocBits_set_all:
  assumes "lb_ok lb" "mirror_in lb m" "\<forall>loc \<in> set locs. loc < u32_max"
  shows "\<exists>lb' m'. foldM LocBits_set (lb, m) locs = Some (lb', m') \<and> lb_extends lb lb' \<and> mirror_in lb' m' \<and> bits_of lb' m' = bits_of lb m \<union> set locs"
  using assms
proof (induction locs arbitrary: lb m)
  case Nil
  then show ?case by (simp add: lb_extends_refl)
next
  case (Cons loc locs)
  obtain lb1 m1 where s1: "LocBits_set (lb, m) loc = Some (lb1, m1)" "lb_ok lb1" "mirror_in lb1 m1" "bits_of lb1 m1 = insert loc (bits_of lb m)"
    "lb_extends lb lb1"
    using LocBits_set_result [OF Cons.prems(1,2), of loc] Cons.prems(3) unfolding lb_extends_def by auto
  obtain lb2 m2 where s2: "foldM LocBits_set (lb1, m1) locs = Some (lb2, m2)" "lb_extends lb1 lb2" "mirror_in lb2 m2" "bits_of lb2 m2 = bits_of lb1 m1 \<union> set locs"
    using Cons.IH [OF s1(2,3)] Cons.prems(3) by auto
  show ?case using s1 s2 lb_extends_trans [OF s1(5) s2(2)] by auto
qed

lemma mirror_in_default: "mirror_in lb Mirror_default" "bits_of lb Mirror_default = {}"
  using mirror.start_ok mirror.members_start by (auto simp: mirror_in_def bits_of_eq)

lemma LocBits_mirror_result:
  assumes "lb_ok lb" "\<forall>loc \<in> set locs. loc < u32_max"
  shows "\<exists>lb' m'. LocBits_mirror lb locs = Some (lb', m') \<and> lb_extends lb lb' \<and> mirror_in lb' m' \<and> bits_of lb' m' = set locs"
  using LocBits_set_all [OF assms(1) mirror_in_default(1) assms(2)] by (simp add: LocBits_mirror_def mirror_in_default)

text \<open>C34: setting a location's bit in one mirror sets exactly that bit: the mirror then holds that location and those it held, and no
  other mirror over the same numbering changes what it says, though the location may get its number now. Nothing is read or
  written out of range and no counter passes its 32 bits.\<close>

theorem loc_bits_exact:
  assumes "lb_ok lb" "mirror_in lb m" "loc < u32_max"
  shows "\<exists>lb' m'. LocBits_set (lb, m) loc = Some (lb', m') \<and> lb_ok lb' \<and> mirror_in lb' m' \<and>
    (\<forall>l. LocBits_test lb' m' l = Some (l = loc \<or> LocBits_test lb m l = Some True)) \<and>
    (\<forall>m2 l. mirror_in lb m2 \<longrightarrow> mirror_in lb' m2 \<and> LocBits_test lb' m2 l = LocBits_test lb m2 l)"
proof -
  obtain lb' m' where r: "LocBits_set (lb, m) loc = Some (lb', m')" "lb_ok lb'" "mirror_in lb' m'" "bits_of lb' m' = insert loc (bits_of lb m)"
    "\<And>m2. mirror_in lb m2 \<Longrightarrow> mirror_in lb' m2 \<and> bits_of lb' m2 = bits_of lb m2" using LocBits_set_result [OF assms] by blast
  have "LocBits_test lb' m' l = Some (l = loc \<or> LocBits_test lb m l = Some True)" for l
    using r(3,4) assms(2) LocBits_test_bits by (auto simp: mirror_in_def)
  moreover have "LocBits_test lb' m2 l = LocBits_test lb m2 l" if "mirror_in lb m2" for m2 l
    using r(5) [OF that] that LocBits_test_bits by (auto simp: mirror_in_def)
  ultimately show ?thesis using r by blast
qed

theorem loc_bits_exact_witness:
  "\<exists>lb' m'. LocBits_set (LocBits_default, Mirror_default) 700 = Some (lb', m') \<and> LocBits_test lb' m' 700 = Some True"
proof -
  have "lb_ok LocBits_default" "700 < u32_max" by (simp_all add: lb_ok_def LocBits_default_def u32_max_def)
  from loc_bits_exact [OF this(1) mirror_in_default(1) this(2)] show ?thesis by fastforce
qed

text \<open>The flat bits of the load sources are kept in step with the map of load constraints: after any number of loads are indexed a node
  tests as a load source exactly when some constraint loads through it.\<close>

lemma load_bits_in_step:
  assumes "\<forall>(src, idx) \<in> set loads. src \<le> u32_max"
  shows "\<exists>ix. foldM (\<lambda>ix (src, idx). add_load src idx ix) SolverIndices_default loads = Some ix \<and>
    (\<forall>node. is_load_src ix node = (si_load_src ix node \<noteq> None)) \<and> dom (si_load_src ix) = fst ` set loads"
  using assms
proof (induction loads rule: rev_induct)
  case Nil
  then show ?case using loads.members_start by (simp add: is_load_src_def load_bit_test_def vget_def SolverIndices_default_def)
next
  case (snoc l loads)
  obtain src idx where l: "l = (src, idx)" by (cases l)
  from snoc obtain ix where ix: "foldM (\<lambda>ix (src, idx). add_load src idx ix) SolverIndices_default loads = Some ix"
    "\<forall>node. is_load_src ix node = (si_load_src ix node \<noteq> None)" "dom (si_load_src ix) = fst ` set loads" by auto
  obtain bits where b: "load_bit_put (si_load_src_bits ix) src = Some bits"
    "\<forall>m. load_bit_test bits m = (m = src \<or> load_bit_test (si_load_src_bits ix) m)"
    using loads.put_test [of src "si_load_src_bits ix"] snoc.prems l by auto
  show ?case using ix b l by (auto simp: foldM_append add_load_def is_load_src_def)
qed

end
