(* ===== verification/Points_To.thy ===== *)
theory Points_To
  imports Call_Graph Loc_Bits
begin

text \<open>
  The state of the points-to solver and its write paths (\<^verbatim>\<open>trace-analysis/src/solver.rs\<close>): difference propagation,
  memory cells, mirrors and the requeueing of loads. A hash set is a set; where the code walks one, the order is the argument
  \<open>iter\<close>, and an \<open>IndexSet\<close> is the list of its elements in insertion order. The borrows that
  \<open>MergeInto\<close> and \<open>Memory\<close> split off the state are the state itself. Scratch buffers that hold nothing between
  calls are local here.
\<close>

section \<open>Locations and filters\<close>

fun filterM :: "('a \<Rightarrow> bool option) \<Rightarrow> 'a list \<Rightarrow> 'a list option" where
  "filterM p [] = Some []"
| "filterM p (x # xs) = do { b \<leftarrow> p x; ys \<leftarrow> filterM p xs; Some (if b then x # ys else ys) }"

lemma filterM_total: "(\<And>x. x \<in> set xs \<Longrightarrow> p x = Some (q x)) \<Longrightarrow> filterM p xs = Some (filter q xs)"
  by (induction xs) auto

datatype PagNodeKind = NodeVar VarId | NullPointer | NodeLoc LocId | CallTarget CallSiteId

text \<open>The fields of \<open>Pag\<close> that the steps read.\<close>

record Pag =
  pag_nodes :: "PagNodeKind list"
  pag_constraints :: "Constraint list"
  pag_locations :: "AbstractLocation list"
  pag_var_node :: "VarId \<rightharpoonup> PagNodeId"
  pag_fn_locations :: "(FnId \<times> LocId) list"
  pag_var_location :: "VarId \<rightharpoonup> LocId"
  pag_field_loc_to_summary :: "LocId \<rightharpoonup> LocId"
  pag_null_temps :: "PagNodeId set"
  pag_indices :: SolverIndices

definition fn_for_loc :: "Pag \<Rightarrow> LocId \<Rightarrow> FnId option option" where
  "fn_for_loc pag loc = do { l \<leftarrow> vget (pag_locations pag) loc; Some (if al_kind l = Function then al_fn_id l else None) }"

definition loc_kind :: "Pag \<Rightarrow> LocId \<Rightarrow> LocKind option" where
  "loc_kind pag loc = map_option al_kind (vget (pag_locations pag) loc)"

definition summary_for_field_loc :: "Pag \<Rightarrow> LocId \<Rightarrow> LocId option" where
  "summary_for_field_loc pag field_loc = pag_field_loc_to_summary pag field_loc"

datatype SlotGuard = FnParams nat | NotFnPtr

datatype FnFilter = AnyFn | NoFn | ArityFn nat

fun FnFilter_of :: "SlotGuard option \<Rightarrow> FnFilter" where
  "FnFilter_of None = AnyFn"
| "FnFilter_of (Some NotFnPtr) = NoFn"
| "FnFilter_of (Some (FnParams n)) = ArityFn n"

fun guard_admits :: "FnFilter \<Rightarrow> (LocId \<rightharpoonup> nat) \<Rightarrow> LocId \<Rightarrow> bool" where
  "guard_admits AnyFn fn_arity loc = True"
| "guard_admits NoFn fn_arity loc = False"
| "guard_admits (ArityFn n) fn_arity loc = (case fn_arity loc of None \<Rightarrow> True | Some p \<Rightarrow> p = n)"

definition admits :: "FnFilter \<Rightarrow> (LocId \<rightharpoonup> nat) \<Rightarrow> Pag \<Rightarrow> LocId \<Rightarrow> bool option" where
  "admits self fn_arity pag loc =
     (if self = AnyFn then Some True
      else do { f \<leftarrow> fn_for_loc pag loc; Some (f = None \<or> guard_admits self fn_arity loc) })"

record StoreViews =
  sv_views :: "(FnFilter \<times> LocId list) list"
  sv_live :: nat

definition StoreViews_reset :: "StoreViews \<Rightarrow> StoreViews" where
  "StoreViews_reset sv = sv\<lparr>sv_live := 0\<rparr>"

definition view :: "FnFilter \<Rightarrow> LocId list \<Rightarrow> Pag \<Rightarrow> (LocId \<rightharpoonup> nat) \<Rightarrow> StoreViews \<Rightarrow> (LocId list \<times> StoreViews) option" where
  "view fltr src pag fn_arity sv =
     (if fltr = AnyFn then Some (src, sv)
      else if sv_live sv > length (sv_views sv) then None
      else
        (case position (\<lambda>(k, _). k = fltr) (take (sv_live sv) (sv_views sv)) of
           Some i \<Rightarrow> do { (_, v) \<leftarrow> vget (sv_views sv) i; Some (v, sv) }
         | None \<Rightarrow>
             (let views = (if sv_live sv = length (sv_views sv) then sv_views sv @ [(fltr, [])] else sv_views sv)
              in do {
                v \<leftarrow> filterM (admits fltr fn_arity pag) src;
                views1 \<leftarrow> vset views (sv_live sv) (fltr, v);
                Some (v, sv\<lparr>sv_views := views1, sv_live := sv_live sv + 1\<rparr>)
              })))"

section \<open>Holders of a location\<close>

record LocationHolders =
  lh_nodes :: "PagNodeId set"
  lh_loaders :: "PagNodeId list"
  lh_cached :: "nat option"

definition LocationHolders_default :: LocationHolders where
  "LocationHolders_default = \<lparr>lh_nodes = {}, lh_loaders = [], lh_cached = None\<rparr>"

definition holders_insert :: "PagNodeId \<Rightarrow> LocationHolders \<Rightarrow> LocationHolders" where
  "holders_insert node h = (if node \<in> lh_nodes h then h else h\<lparr>lh_nodes := insert node (lh_nodes h), lh_cached := None\<rparr>)"

definition loading :: "(nat set \<Rightarrow> nat list) \<Rightarrow> SolverIndices \<Rightarrow> LocationHolders \<Rightarrow> LocationHolders" where
  "loading iter indices h =
     (let load_sources = card (dom (si_load_src indices))
      in if lh_cached h \<noteq> Some load_sources
         then h\<lparr>lh_loaders := filter (is_load_src indices) (iter (lh_nodes h)), lh_cached := Some load_sources\<rparr>
         else h)"

section \<open>The state\<close>

record SolverState =
  st_pts :: "PagNodeId \<rightharpoonup> LocId set"
  st_delta :: "PagNodeId \<rightharpoonup> LocId list"
  st_delta_pending :: "(PagNodeId \<times> LocId) set"
  st_memory_pts :: "LocId \<rightharpoonup> LocId list"
  st_loc_nodes :: "LocId \<rightharpoonup> LocationHolders"
  st_worklist :: "PagNodeId list"
  st_queued :: "PagNodeId set"
  st_seen_once :: "PagNodeId set"
  st_designated :: "PagNodeId \<rightharpoonup> LocId set"
  st_access_pointers :: "PagNodeId set"
  st_slot_guard :: "LocId \<rightharpoonup> SlotGuard"
  st_fn_arity :: "LocId \<rightharpoonup> nat"
  st_addr_taken :: "LocId set"
  st_merge_sizes :: "PagNodeId \<rightharpoonup> (LocId \<rightharpoonup> nat)"
  st_synced_cell :: "PagNodeId \<rightharpoonup> LocId"
  st_cell_owner :: "LocId \<rightharpoonup> PagNodeId"
  st_loc_bits :: LocBits
  st_pts_bits :: "PagNodeId \<rightharpoonup> Mirror"
  st_memory_bits :: "LocId \<rightharpoonup> Mirror"

definition SolverState_default :: SolverState where
  "SolverState_default = \<lparr>st_pts = Map.empty, st_delta = Map.empty, st_delta_pending = {}, st_memory_pts = Map.empty, st_loc_nodes = Map.empty,
     st_worklist = [], st_queued = {}, st_seen_once = {}, st_designated = Map.empty, st_access_pointers = {}, st_slot_guard = Map.empty, st_fn_arity = Map.empty,
     st_addr_taken = {}, st_merge_sizes = Map.empty, st_synced_cell = Map.empty, st_cell_owner = Map.empty, st_loc_bits = LocBits_default, st_pts_bits = Map.empty, st_memory_bits = Map.empty\<rparr>"

definition MIRROR_MIN :: nat where
  "MIRROR_MIN = 64"

text \<open>\<open>entry(k).or_default()\<close>.\<close>

definition entry :: "('k \<rightharpoonup> 'v) \<Rightarrow> 'k \<Rightarrow> 'v \<Rightarrow> 'v" where
  "entry m k d = (case m k of None \<Rightarrow> d | Some v \<Rightarrow> v)"

text \<open>\<open>IndexSet::insert\<close>.\<close>

definition index_insert :: "'a \<Rightarrow> 'a list \<Rightarrow> 'a list" where
  "index_insert x xs = (if x \<in> set xs then xs else xs @ [x])"

definition push :: "PagNodeId \<Rightarrow> SolverState \<Rightarrow> SolverState" where
  "push node st =
     (if node \<in> st_queued st then st
      else st\<lparr>st_queued := insert node (st_queued st), st_worklist := st_worklist st @ [node]\<rparr>)"

definition record_one :: "PagNodeId \<Rightarrow> LocId \<Rightarrow> SolverState \<Rightarrow> SolverState" where
  "record_one node loc st =
     (if (node, loc) \<in> st_delta_pending st then st
      else st\<lparr>st_delta_pending := insert (node, loc) (st_delta_pending st),
              st_delta := (st_delta st)(node \<mapsto> entry (st_delta st) node [] @ [loc])\<rparr>)"

fun record_delta :: "PagNodeId \<Rightarrow> LocId list \<Rightarrow> SolverState \<Rightarrow> SolverState" where
  "record_delta node [] st = st"
| "record_delta node [loc] st = record_one node loc st"
| "record_delta node (l # l' # locs) st =
     fold (record_one node) (l # l' # locs) (st\<lparr>st_delta := (st_delta st)(node \<mapsto> entry (st_delta st) node [])\<rparr>)"

definition touch_loc_holders :: "(nat set \<Rightarrow> nat list) \<Rightarrow> LocId \<Rightarrow> SolverIndices \<Rightarrow> SolverState \<Rightarrow> SolverState" where
  "touch_loc_holders iter loc indices st =
     (case st_loc_nodes st loc of
        None \<Rightarrow> st
      | Some nodes \<Rightarrow>
          (let h = loading iter indices nodes
           in fold (\<lambda>n st. push n (record_delta n [loc] st)) (lh_loaders h) (st\<lparr>st_loc_nodes := (st_loc_nodes st)(loc \<mapsto> h)\<rparr>)))"

definition mirror_pts :: "(nat set \<Rightarrow> nat list) \<Rightarrow> PagNodeId \<Rightarrow> LocId list \<Rightarrow> SolverState \<Rightarrow> SolverState option" where
  "mirror_pts iter dst added st =
     (case st_pts_bits st dst of
        Some bits \<Rightarrow>
          do {
            (lb, bits1) \<leftarrow> foldM LocBits_set (st_loc_bits st, bits) added;
            Some (st\<lparr>st_loc_bits := lb, st_pts_bits := (st_pts_bits st)(dst \<mapsto> bits1)\<rparr>)
          }
      | None \<Rightarrow>
          (case st_pts st dst of
             None \<Rightarrow> Some st
           | Some s \<Rightarrow>
               if card s \<ge> MIRROR_MIN
               then do {
                 (lb, bits) \<leftarrow> LocBits_mirror (st_loc_bits st) (iter s);
                 Some (st\<lparr>st_loc_bits := lb, st_pts_bits := (st_pts_bits st)(dst \<mapsto> bits)\<rparr>)
               }
               else Some st))"

definition add_holder :: "PagNodeId \<Rightarrow> LocId \<Rightarrow> SolverState \<Rightarrow> SolverState" where
  "add_holder dst loc st = st\<lparr>st_loc_nodes := (st_loc_nodes st)(loc \<mapsto> holders_insert dst (entry (st_loc_nodes st) loc LocationHolders_default))\<rparr>"

definition commit_fresh :: "PagNodeId \<Rightarrow> LocId list \<Rightarrow> SolverState \<Rightarrow> SolverState" where
  "commit_fresh dst fresh st =
     (if fresh = [] then st else push dst (record_delta dst fresh (fold (add_holder dst) fresh st)))"

definition finish_merge :: "(nat set \<Rightarrow> nat list) \<Rightarrow> PagNodeId \<Rightarrow> LocId list \<Rightarrow> SolverState \<Rightarrow> SolverState option" where
  "finish_merge iter dst fresh st =
     (if fresh \<noteq> [] then map_option (commit_fresh dst fresh) (mirror_pts iter dst fresh st) else Some st)"

section \<open>Reading memory\<close>

definition bit_held :: "SolverState \<Rightarrow> PagNodeId \<Rightarrow> LocId \<Rightarrow> bool option" where
  "bit_held st dst loc = (case st_pts_bits st dst of None \<Rightarrow> Some False | Some bits \<Rightarrow> LocBits_test (st_loc_bits st) bits loc)"

definition merge_takes :: "Pag \<Rightarrow> SolverState \<Rightarrow> PagNodeId \<Rightarrow> FnFilter \<Rightarrow> LocId \<Rightarrow> bool option" where
  "merge_takes pag st dst fltr loc =
     do {
       a \<leftarrow> admits fltr (st_fn_arity st) pag loc;
       (if \<not> a then Some False
        else do { b \<leftarrow> bit_held st dst loc; Some (\<not> b \<and> loc \<notin> entry (st_pts st) dst {}) })
     }"

definition merge :: "Pag \<Rightarrow> PagNodeId \<Rightarrow> LocId \<Rightarrow> SolverState \<times> LocId list \<Rightarrow> (SolverState \<times> LocId list) option" where
  "merge pag dst mem_loc sf =
     (let (st, fresh) = sf
      in case st_memory_pts st mem_loc of
           None \<Rightarrow> Some (st, fresh)
         | Some mem \<Rightarrow>
             (let cur_len = length mem
              in if cur_len = 0 then Some (st, fresh)
                 else
                   (let sizes = entry (st_merge_sizes st) dst Map.empty;
                        seen = entry sizes mem_loc 0
                    in if cur_len \<le> seen then Some (st\<lparr>st_merge_sizes := (st_merge_sizes st)(dst \<mapsto> sizes(mem_loc \<mapsto> seen))\<rparr>, fresh)
                       else
                         (let st1 = st\<lparr>st_merge_sizes := (st_merge_sizes st)(dst \<mapsto> sizes(mem_loc \<mapsto> cur_len))\<rparr>;
                              fltr = FnFilter_of (st_slot_guard st1 mem_loc)
                          in do {
                            added \<leftarrow> filterM (merge_takes pag st1 dst fltr) (drop seen mem);
                            Some (st1\<lparr>st_pts := (st_pts st1)(dst \<mapsto> entry (st_pts st1) dst {} \<union> set added)\<rparr>, fresh @ added)
                          }))))"

definition merge_memory_into_if_grown :: "(nat set \<Rightarrow> nat list) \<Rightarrow> Pag \<Rightarrow> PagNodeId \<Rightarrow> LocId \<Rightarrow> SolverState \<Rightarrow> SolverState option" where
  "merge_memory_into_if_grown iter pag dst mem_loc st =
     do { (st1, fresh) \<leftarrow> merge pag dst mem_loc (st, []); finish_merge iter dst fresh st1 }"

definition load_one :: "Pag \<Rightarrow> PagNodeId \<Rightarrow> SolverState \<times> LocId list \<times> nat \<Rightarrow> LocId \<Rightarrow> (SolverState \<times> LocId list \<times> nat) option" where
  "load_one pag dst sfm loc =
     (let (st, fresh, merges) = sfm
      in do {
        f \<leftarrow> fn_for_loc pag loc;
        kind \<leftarrow> loc_kind pag loc;
        (if f \<noteq> None then
           (let held = entry (st_pts st) dst {}
            in Some (st\<lparr>st_pts := (st_pts st)(dst \<mapsto> insert loc held)\<rparr>, if loc \<in> held then fresh else fresh @ [loc], merges))
         else if kind = StringLit then Some (st, fresh, merges)
         else do { (st1, fresh1) \<leftarrow> merge pag dst loc (st, fresh); Some (st1, fresh1, merges + 1) })
      })"

definition load_into :: "(nat set \<Rightarrow> nat list) \<Rightarrow> Pag \<Rightarrow> PagNodeId \<Rightarrow> LocId list \<Rightarrow> SolverState \<Rightarrow> (SolverState \<times> nat) option" where
  "load_into iter pag dst locs st =
     do {
       (st1, fresh, merges) \<leftarrow> foldM (load_one pag dst) (st, [], 0) locs;
       st2 \<leftarrow> finish_merge iter dst fresh st1;
       Some (st2, merges)
     }"

section \<open>Writing\<close>

definition propagate_locs :: "(nat set \<Rightarrow> nat list) \<Rightarrow> PagNodeId \<Rightarrow> LocId list \<Rightarrow> SolverState \<Rightarrow> SolverState option" where
  "propagate_locs iter dst locs st =
     (let held = entry (st_pts st) dst {}
      in do {
        fresh \<leftarrow> filterM (\<lambda>loc. do { b \<leftarrow> bit_held st dst loc; Some (\<not> b \<and> loc \<notin> held) }) locs;
        st1 \<leftarrow> mirror_pts iter dst fresh (st\<lparr>st_pts := (st_pts st)(dst \<mapsto> held \<union> set fresh)\<rparr>);
        Some (commit_fresh dst fresh st1)
      })"

definition add_pts :: "(nat set \<Rightarrow> nat list) \<Rightarrow> PagNodeId \<Rightarrow> LocId \<Rightarrow> SolverState \<Rightarrow> SolverState option" where
  "add_pts iter node loc st =
     (let held = entry (st_pts st) node {};
          st1 = st\<lparr>st_pts := (st_pts st)(node \<mapsto> insert loc held)\<rparr>
      in if loc \<in> held then Some st1
         else map_option (\<lambda>st2. push node (record_delta node [loc] (add_holder node loc st2))) (mirror_pts iter node [loc] st1))"

definition point_gep_at :: "(nat set \<Rightarrow> nat list) \<Rightarrow> Pag \<Rightarrow> PagNodeId \<Rightarrow> LocId list \<Rightarrow> SolverState \<Rightarrow> SolverState option" where
  "point_gep_at iter pag dst cells st =
     (let st1 = (if dst \<in> st_access_pointers st
                 then st\<lparr>st_designated := (st_designated st)(dst \<mapsto> entry (st_designated st) dst {} \<union> set cells)\<rparr> else st)
      in do {
        st2 \<leftarrow> propagate_locs iter dst cells st1;
        foldM (\<lambda>st cell. merge_memory_into_if_grown iter pag dst cell st) st2 cells
      })"

definition write_bit :: "LocId list \<times> LocBits \<times> Mirror \<Rightarrow> LocId \<Rightarrow> (LocId list \<times> LocBits \<times> Mirror) option" where
  "write_bit s loc =
     (let (mem, lb, bits) = s
      in do {
        t \<leftarrow> LocBits_test lb bits loc;
        (if t then Some s else do { (lb1, bits1) \<leftarrow> LocBits_set (lb, bits) loc; Some (index_insert loc mem, lb1, bits1) })
      })"

definition write_memory :: "LocId \<Rightarrow> LocId list \<Rightarrow> SolverState \<Rightarrow> (SolverState \<times> bool) option" where
  "write_memory cell locs st =
     (let mem = entry (st_memory_pts st) cell []
      in case st_memory_bits st cell of
           Some bits \<Rightarrow>
             do {
               (mem1, lb, bits1) \<leftarrow> foldM write_bit (mem, st_loc_bits st, bits) locs;
               Some (st\<lparr>st_memory_pts := (st_memory_pts st)(cell \<mapsto> mem1), st_loc_bits := lb,
                 st_memory_bits := (st_memory_bits st)(cell \<mapsto> bits1)\<rparr>, length mem1 > length mem)
             }
         | None \<Rightarrow>
             (let mem1 = fold index_insert locs mem;
                  st1 = st\<lparr>st_memory_pts := (st_memory_pts st)(cell \<mapsto> mem1)\<rparr>
              in if length mem1 \<ge> MIRROR_MIN
                 then do {
                   (lb, bits) \<leftarrow> LocBits_mirror (st_loc_bits st) mem1;
                   Some (st1\<lparr>st_loc_bits := lb, st_memory_bits := (st_memory_bits st)(cell \<mapsto> bits)\<rparr>, length mem1 > length mem)
                 }
                 else Some (st1, length mem1 > length mem)))"

definition write_to_cell :: "(nat set \<Rightarrow> nat list) \<Rightarrow> Pag \<Rightarrow> LocId \<Rightarrow> LocId list \<Rightarrow> SolverState \<Rightarrow> SolverState option" where
  "write_to_cell iter pag cell locs st =
     do {
       written \<leftarrow> filterM (admits (FnFilter_of (st_slot_guard st cell)) (st_fn_arity st) pag) locs;
       (st1, grew) \<leftarrow> write_memory cell written st;
       Some (if grew then touch_loc_holders iter cell (pag_indices pag) st1 else st1)
     }"

definition sync_var_to_cell :: "(nat set \<Rightarrow> nat list) \<Rightarrow> Pag \<Rightarrow> PagNodeId \<Rightarrow> LocId list \<Rightarrow> SolverState \<Rightarrow> SolverState option" where
  "sync_var_to_cell iter pag node delta st =
     (case st_synced_cell st node of None \<Rightarrow> Some st | Some cell \<Rightarrow> write_to_cell iter pag cell delta st)"

definition sync_cell_to_var :: "(nat set \<Rightarrow> nat list) \<Rightarrow> Pag \<Rightarrow> LocId \<Rightarrow> SolverState \<Rightarrow> SolverState option" where
  "sync_cell_to_var iter pag cell st =
     (case st_cell_owner st cell of None \<Rightarrow> Some st | Some node \<Rightarrow> merge_memory_into_if_grown iter pag node cell st)"

definition in_set_order :: "(nat set \<Rightarrow> nat list) \<Rightarrow> LocId set option \<Rightarrow> LocId list \<Rightarrow> LocId list" where
  "in_set_order iter s delta = (case s of None \<Rightarrow> [] | Some locs \<Rightarrow> filter (\<lambda>l. l \<in> set delta) (iter locs))"

section \<open>Stores\<close>

datatype StoreSource = Whole | New "LocId list"

definition SUMMARY_MEM_CAP :: nat where
  "SUMMARY_MEM_CAP = 1024"

definition opt_list :: "'a option \<Rightarrow> 'a list" where
  "opt_list x = (case x of None \<Rightarrow> [] | Some y \<Rightarrow> [y])"

text \<open>The state of the loop over a store's targets: the solver, the views, the summaries written and the locations to requeue.\<close>

type_synonym store_state = "SolverState \<times> StoreViews \<times> LocId set \<times> LocId list"

definition summary_filter :: "bool \<Rightarrow> SlotGuard option \<Rightarrow> FnFilter" where
  "summary_filter src_has_fns guard = (if guard = Some NotFnPtr \<and> src_has_fns then NoFn else AnyFn)"

definition store_summary :: "Pag \<Rightarrow> LocId list \<Rightarrow> bool \<Rightarrow> LocId option \<Rightarrow> LocId \<Rightarrow> SolverState \<times> StoreViews \<times> LocId set \<Rightarrow>
    (SolverState \<times> StoreViews \<times> LocId set \<times> bool) option" where
  "store_summary pag src src_has_fns self_loc summary ssw =
     (let (st, sv, written) = ssw;
          mem = entry (st_memory_pts st) summary [];
          st1 = st\<lparr>st_memory_pts := (st_memory_pts st)(summary \<mapsto> mem)\<rparr>
      in if length mem < SUMMARY_MEM_CAP \<and> summary \<notin> written
         then do {
           (v, sv1) \<leftarrow> view (summary_filter src_has_fns (st_slot_guard st1 summary)) src pag (st_fn_arity st1) sv;
           (st2, changed) \<leftarrow> write_memory summary (v @ opt_list self_loc) st1;
           Some (st2, sv1, insert summary written, changed)
         }
         else Some (st1, sv, written, False))"

definition store_target :: "Pag \<Rightarrow> LocId list \<Rightarrow> bool \<Rightarrow> LocId option \<Rightarrow> store_state \<Rightarrow> LocId \<Rightarrow> store_state option" where
  "store_target pag src src_has_fns self_loc s loc =
     (let (st, sv, written, requeues) = s
      in do {
        f \<leftarrow> fn_for_loc pag loc;
        kind \<leftarrow> loc_kind pag loc;
        (if f \<noteq> None \<or> kind = StringLit then Some s
         else do {
           (v, sv1) \<leftarrow> view (if src_has_fns then FnFilter_of (st_slot_guard st loc) else AnyFn) src pag (st_fn_arity st) sv;
           (st1, loc_changed) \<leftarrow> write_memory loc (v @ opt_list self_loc) st;
           let requeues1 = requeues @ (if loc_changed then [loc] else []);
           (case summary_for_field_loc pag loc of
              None \<Rightarrow> Some (st1, sv1, written, requeues1)
            | Some summary \<Rightarrow>
                do {
                  (st2, sv2, written1, summary_changed) \<leftarrow> store_summary pag src src_has_fns self_loc summary (st1, sv1, written);
                  Some (st2, sv2, written1, requeues1 @ (if summary_changed then [summary] else []))
                })
         })
      })"

definition requeue_one :: "(nat set \<Rightarrow> nat list) \<Rightarrow> Pag \<Rightarrow> SolverState \<times> LocId set \<Rightarrow> LocId \<Rightarrow> (SolverState \<times> LocId set) option" where
  "requeue_one iter pag sr loc =
     (let (st, requeued) = sr
      in if loc \<in> requeued then Some sr
         else map_option (\<lambda>st1. (st1, insert loc requeued)) (sync_cell_to_var iter pag loc (touch_loc_holders iter loc (pag_indices pag) st)))"

definition store_self_loc :: "(VarId \<Rightarrow> bool) \<Rightarrow> Pag \<Rightarrow> PagNodeKind \<Rightarrow> LocId option" where
  "store_self_loc var_is_pointer_like pag kind =
     (case kind of NodeVar v \<Rightarrow> if \<not> var_is_pointer_like v then pag_var_location pag v else None | _ \<Rightarrow> None)"

definition apply_store_to_targets :: "(nat set \<Rightarrow> nat list) \<Rightarrow> (VarId \<Rightarrow> bool) \<Rightarrow> Pag \<Rightarrow> nat \<Rightarrow> LocId list option \<Rightarrow> StoreSource \<Rightarrow>
    StoreViews \<Rightarrow> SolverState \<Rightarrow> SolverState option" where
  "apply_store_to_targets iter var_is_pointer_like pag idx targets written sv st =
     do {
       c \<leftarrow> vget (pag_constraints pag) idx;
       kind \<leftarrow> vget (pag_nodes pag) (c_src c);
       let self_loc = store_self_loc var_is_pointer_like pag kind;
       let src_empty = (case st_pts st (c_src c) of None \<Rightarrow> True | Some s \<Rightarrow> s = {});
       let target_slice = (case targets of Some ts \<Rightarrow> ts | None \<Rightarrow> (case st_pts st (c_dst c) of None \<Rightarrow> [] | Some s \<Rightarrow> iter s));
       (if src_empty \<and> self_loc = None \<or> target_slice = [] then Some st
        else do {
          let src = (case written of Whole \<Rightarrow> (case st_pts st (c_src c) of None \<Rightarrow> [] | Some s \<Rightarrow> iter s) | New locs \<Rightarrow> locs);
          src_has_fns \<leftarrow> anyM (\<lambda>l. map_option (\<lambda>f. f \<noteq> None) (fn_for_loc pag l)) src;
          (st1, _, _, requeues) \<leftarrow> foldM (store_target pag src src_has_fns self_loc) (st, StoreViews_reset sv, {}, []) target_slice;
          (st2, _) \<leftarrow> foldM (requeue_one iter pag) (st1, {}) requeues;
          Some st2
        })
     }"

end
