(* ===== verification/Points_To_Inv.thy ===== *)
theory Points_To_Inv
  imports Points_To
begin

text \<open>
  The invariant of the solver state and the effect of every write path: the worklist and the pending deltas, the index from locations
  to their holders, the mirrors, and the prefixes of memory already merged.
\<close>

section \<open>What the state says\<close>

definition pts_of :: "SolverState \<Rightarrow> PagNodeId \<Rightarrow> LocId set" where
  "pts_of st n = entry (st_pts st) n {}"

definition delta_of :: "SolverState \<Rightarrow> PagNodeId \<Rightarrow> LocId list" where
  "delta_of st n = entry (st_delta st) n []"

definition mem_of :: "SolverState \<Rightarrow> LocId \<Rightarrow> LocId list" where
  "mem_of st c = entry (st_memory_pts st) c []"

definition holders_of :: "SolverState \<Rightarrow> LocId \<Rightarrow> PagNodeId set" where
  "holders_of st l = lh_nodes (entry (st_loc_nodes st) l LocationHolders_default)"

definition seen_of :: "SolverState \<Rightarrow> PagNodeId \<Rightarrow> LocId \<Rightarrow> nat" where
  "seen_of st n c = entry (entry (st_merge_sizes st) n Map.empty) c 0"

lemma entry_upd [simp]: "entry (m(k \<mapsto> v)) k' d = (if k' = k then v else entry m k' d)"
  by (simp add: entry_def)

text \<open>Everything the queue and the index do not touch.\<close>

definition core :: "SolverState \<Rightarrow> SolverState" where
  "core st = st\<lparr>st_delta := Map.empty, st_delta_pending := {}, st_loc_nodes := Map.empty, st_worklist := [], st_queued := {}\<rparr>"

lemma core_eqD:
  assumes "core a = core b"
  shows "st_pts a = st_pts b" "st_memory_pts a = st_memory_pts b" "st_designated a = st_designated b" "st_access_pointers a = st_access_pointers b"
    "st_slot_guard a = st_slot_guard b" "st_fn_arity a = st_fn_arity b" "st_merge_sizes a = st_merge_sizes b" "st_synced_cell a = st_synced_cell b"
    "st_cell_owner a = st_cell_owner b" "st_loc_bits a = st_loc_bits b" "st_pts_bits a = st_pts_bits b" "st_memory_bits a = st_memory_bits b" "st_seen_once a = st_seen_once b"
  using assms by (cases a; cases b; simp add: core_def)+

section \<open>Insertion in order\<close>

lemma set_index_insert [simp]: "set (index_insert x xs) = insert x (set xs)"
  by (auto simp: index_insert_def)

lemma distinct_index_insert: "distinct xs \<Longrightarrow> distinct (index_insert x xs)"
  by (simp add: index_insert_def)

lemma set_fold_index_insert [simp]: "set (fold index_insert ls xs) = set xs \<union> set ls"
  by (induction ls arbitrary: xs) auto

lemma distinct_fold_index_insert: "distinct xs \<Longrightarrow> distinct (fold index_insert ls xs)"
  by (induction ls arbitrary: xs) (auto simp: distinct_index_insert)

lemma fold_index_insert_eq: "fold index_insert ls xs = dedup_onto xs ls"
  by (induction ls arbitrary: xs) (auto simp: index_insert_def)

section \<open>The worklist and the deltas\<close>

definition queue_ok :: "SolverState \<Rightarrow> bool" where
  "queue_ok st \<longleftrightarrow> distinct (st_worklist st) \<and> st_queued st = set (st_worklist st) \<and>
     (\<forall>n. distinct (delta_of st n)) \<and> (\<forall>n l. (n, l) \<in> st_delta_pending st \<longleftrightarrow> l \<in> set (delta_of st n))"

lemma push_queue:
  assumes "queue_ok st"
  shows "queue_ok (push n st)" "core (push n st) = core st" "st_loc_nodes (push n st) = st_loc_nodes st" "delta_of (push n st) = delta_of st"
    "set (st_worklist (push n st)) = insert n (set (st_worklist st))"
  using assms by (auto simp: push_def queue_ok_def core_def delta_of_def)

lemma record_one_queue:
  assumes "queue_ok st"
  shows "queue_ok (record_one n l st)" "core (record_one n l st) = core st" "st_loc_nodes (record_one n l st) = st_loc_nodes st"
    "st_worklist (record_one n l st) = st_worklist st" "delta_of (record_one n l st) = (delta_of st)(n := index_insert l (delta_of st n))"
proof -
  show d: "delta_of (record_one n l st) = (delta_of st)(n := index_insert l (delta_of st n))"
    using assms by (auto simp: record_one_def queue_ok_def delta_of_def index_insert_def fun_eq_iff)
  have p: "st_delta_pending (record_one n l st) = insert (n, l) (st_delta_pending st)" by (auto simp: record_one_def)
  have w: "st_worklist (record_one n l st) = st_worklist st" "st_queued (record_one n l st) = st_queued st" by (simp_all add: record_one_def)
  then show "st_worklist (record_one n l st) = st_worklist st" by simp
  show "queue_ok (record_one n l st)" using assms unfolding queue_ok_def d p w by (auto simp: distinct_index_insert)
qed (simp_all add: record_one_def core_def)

lemma record_all_queue:
  assumes "queue_ok st"
  shows "queue_ok (fold (record_one n) ls st) \<and> core (fold (record_one n) ls st) = core st \<and> st_loc_nodes (fold (record_one n) ls st) = st_loc_nodes st \<and>
    st_worklist (fold (record_one n) ls st) = st_worklist st \<and> delta_of (fold (record_one n) ls st) = (delta_of st)(n := fold index_insert ls (delta_of st n))"
  using assms
proof (induction ls arbitrary: st)
  case (Cons l ls)
  note R = record_one_queue [OF Cons.prems, of n l]
  show ?case using Cons.IH [OF R(1)] R by (simp add: fun_eq_iff)
qed simp

lemma record_delta_queue:
  assumes "queue_ok st"
  shows "queue_ok (record_delta n ls st)" "core (record_delta n ls st) = core st" "st_loc_nodes (record_delta n ls st) = st_loc_nodes st"
    "st_worklist (record_delta n ls st) = st_worklist st" "delta_of (record_delta n ls st) = (delta_of st)(n := fold index_insert ls (delta_of st n))"
proof -
  let ?s = "st\<lparr>st_delta := (st_delta st)(n \<mapsto> entry (st_delta st) n [])\<rparr>"
  have s: "delta_of ?s = delta_of st" by (auto simp: delta_of_def fun_eq_iff)
  then have q: "queue_ok ?s" using assms by (simp add: queue_ok_def)
  have c: "core ?s = core st" by (simp add: core_def)
  have "queue_ok (record_delta n ls st) \<and> core (record_delta n ls st) = core st \<and> st_loc_nodes (record_delta n ls st) = st_loc_nodes st \<and>
      st_worklist (record_delta n ls st) = st_worklist st \<and> delta_of (record_delta n ls st) = (delta_of st)(n := fold index_insert ls (delta_of st n))"
  proof (cases "(n, ls, st)" rule: record_delta.cases)
    case 1
    then show ?thesis using assms by auto
  next
    case (2 m loc)
    then show ?thesis using record_one_queue [OF assms, of n loc] by simp
  next
    case (3 m l l' locs)
    then show ?thesis using record_all_queue [OF q, of n ls] s c by (simp del: fold_simps)
  qed
  then show "queue_ok (record_delta n ls st)" "core (record_delta n ls st) = core st" "st_loc_nodes (record_delta n ls st) = st_loc_nodes st"
    "st_worklist (record_delta n ls st) = st_worklist st" "delta_of (record_delta n ls st) = (delta_of st)(n := fold index_insert ls (delta_of st n))" by auto
qed

section \<open>The index of holders\<close>

definition holders_ok :: "SolverIndices \<Rightarrow> LocationHolders \<Rightarrow> bool" where
  "holders_ok ix h \<longleftrightarrow> finite (lh_nodes h) \<and>
     (\<forall>k. lh_cached h = Some k \<longrightarrow> k \<le> card (dom (si_load_src ix)) \<and>
        (k = card (dom (si_load_src ix)) \<longrightarrow> set (lh_loaders h) = {n \<in> lh_nodes h. is_load_src ix n}))"

definition index_ok :: "SolverIndices \<Rightarrow> SolverState \<Rightarrow> bool" where
  "index_ok ix st \<longleftrightarrow> (\<forall>n l. l \<in> pts_of st n \<longleftrightarrow> n \<in> holders_of st l) \<and> (\<forall>l h. st_loc_nodes st l = Some h \<longrightarrow> holders_ok ix h)"

text \<open>An iteration order of finite sets.\<close>

definition iter_ok :: "(nat set \<Rightarrow> nat list) \<Rightarrow> bool" where
  "iter_ok iter \<longleftrightarrow> (\<forall>s. finite s \<longrightarrow> set (iter s) = s)"

lemma loading_ok:
  assumes "iter_ok iter" "holders_ok ix h"
  shows "holders_ok ix (loading iter ix h)" "lh_nodes (loading iter ix h) = lh_nodes h" "set (lh_loaders (loading iter ix h)) = {n \<in> lh_nodes h. is_load_src ix n}"
  using assms by (auto simp: loading_def holders_ok_def iter_ok_def Let_def)

lemma holders_insert_ok: "holders_ok ix h \<Longrightarrow> holders_ok ix (holders_insert n h) \<and> lh_nodes (holders_insert n h) = insert n (lh_nodes h)"
  by (auto simp: holders_insert_def holders_ok_def)

lemma holders_default_ok: "holders_ok ix LocationHolders_default"
  by (simp add: holders_ok_def LocationHolders_default_def)

lemma touch_fold:
  assumes "queue_ok st"
  shows "queue_ok (fold (\<lambda>n st. push n (record_delta n [loc] st)) ns st) \<and> core (fold (\<lambda>n st. push n (record_delta n [loc] st)) ns st) = core st \<and>
    st_loc_nodes (fold (\<lambda>n st. push n (record_delta n [loc] st)) ns st) = st_loc_nodes st \<and>
    set (st_worklist (fold (\<lambda>n st. push n (record_delta n [loc] st)) ns st)) = set ns \<union> set (st_worklist st) \<and>
    (\<forall>n. set (delta_of (fold (\<lambda>n st. push n (record_delta n [loc] st)) ns st) n) = set (delta_of st n) \<union> (if n \<in> set ns then {loc} else {}))"
  using assms
proof (induction ns arbitrary: st)
  case (Cons n ns)
  let ?s = "push n (record_delta n [loc] st)"
  note R = record_delta_queue [OF Cons.prems, of n "[loc]"]
  note P = push_queue [OF R(1), of n]
  show ?case using Cons.IH [OF P(1)] P R by (auto simp del: record_delta.simps)
qed simp

text \<open>Touching a location puts it into the delta of exactly its loading holders and queues them.\<close>

lemma touch_ok:
  fixes loc :: LocId
  assumes "iter_ok iter" "queue_ok st" "index_ok ix st"
  defines "st' \<equiv> touch_loc_holders iter loc ix st"
  shows "queue_ok st'" "index_ok ix st'" "core st' = core st"
    "set (st_worklist st') = set (st_worklist st) \<union> {n \<in> holders_of st loc. is_load_src ix n}"
    "\<And>n. set (delta_of st' n) = set (delta_of st n) \<union> (if n \<in> holders_of st loc \<and> is_load_src ix n then {loc} else {})"
proof -
  have "queue_ok st' \<and> index_ok ix st' \<and> core st' = core st \<and> set (st_worklist st') = set (st_worklist st) \<union> {n \<in> holders_of st loc. is_load_src ix n} \<and>
      (\<forall>n. set (delta_of st' n) = set (delta_of st n) \<union> (if n \<in> holders_of st loc \<and> is_load_src ix n then {loc} else {}))"
  proof (cases "st_loc_nodes st loc")
    case None
    then show ?thesis using assms by (simp add: touch_loc_holders_def holders_of_def entry_def LocationHolders_default_def)
  next
    case (Some h)
    let ?h = "loading iter ix h"
    let ?s = "st\<lparr>st_loc_nodes := (st_loc_nodes st)(loc \<mapsto> ?h)\<rparr>"
    have h: "holders_ok ix h" using assms(3) Some by (auto simp: index_ok_def)
    note L = loading_ok [OF assms(1) h]
    have hs: "holders_of st loc = lh_nodes h" using Some by (simp add: holders_of_def entry_def)
    have e: "st' = fold (\<lambda>n st. push n (record_delta n [loc] st)) (lh_loaders ?h) ?s" using Some by (simp add: st'_def touch_loc_holders_def Let_def)
    have q: "queue_ok ?s" using assms(2) by (simp add: queue_ok_def delta_of_def)
    note F = touch_fold [OF q, of loc "lh_loaders ?h", folded e]
    have hold: "holders_of ?s = holders_of st" using L(2) hs by (auto simp: holders_of_def fun_eq_iff)
    have "index_ok ix ?s" using assms(3) L(1) hold by (auto simp: index_ok_def pts_of_def)
    moreover have "st_pts st' = st_pts ?s" using F core_eqD(1) by blast
    ultimately have "index_ok ix st'" using F by (auto simp: index_ok_def pts_of_def holders_of_def)
    moreover have "core ?s = core st" "delta_of ?s = delta_of st" by (simp_all add: core_def delta_of_def fun_eq_iff)
    ultimately show ?thesis using F L(3) hs by auto
  qed
  then show "queue_ok st'" "index_ok ix st'" "core st' = core st" "set (st_worklist st') = set (st_worklist st) \<union> {n \<in> holders_of st loc. is_load_src ix n}"
    "\<And>n. set (delta_of st' n) = set (delta_of st n) \<union> (if n \<in> holders_of st loc \<and> is_load_src ix n then {loc} else {})" by auto
qed

definition entries_ok :: "SolverIndices \<Rightarrow> SolverState \<Rightarrow> bool" where
  "entries_ok ix st \<longleftrightarrow> (\<forall>l h. st_loc_nodes st l = Some h \<longrightarrow> holders_ok ix h)"

lemma entries_ok_entry: "entries_ok ix st \<Longrightarrow> holders_ok ix (entry (st_loc_nodes st) l LocationHolders_default)"
  by (auto simp: entries_ok_def entry_def holders_default_ok split: option.splits)

lemma add_holders:
  assumes "entries_ok ix st"
  shows "entries_ok ix (fold (add_holder n) ls st) \<and> core (fold (add_holder n) ls st) = core st \<and>
    st_delta (fold (add_holder n) ls st) = st_delta st \<and> st_delta_pending (fold (add_holder n) ls st) = st_delta_pending st \<and>
    st_worklist (fold (add_holder n) ls st) = st_worklist st \<and> st_queued (fold (add_holder n) ls st) = st_queued st \<and>
    (\<forall>l. holders_of (fold (add_holder n) ls st) l = holders_of st l \<union> (if l \<in> set ls then {n} else {}))"
  using assms
proof (induction ls arbitrary: st)
  case (Cons l ls)
  note H = holders_insert_ok [OF entries_ok_entry [OF Cons.prems, of l], of n]
  have "entries_ok ix (add_holder n l st)" using Cons.prems H by (auto simp: entries_ok_def add_holder_def)
  moreover have "holders_of (add_holder n l st) k = holders_of st k \<union> (if k = l then {n} else {})" for k
    using H by (auto simp: holders_of_def add_holder_def)
  moreover have "core (add_holder n l st) = core st" "st_delta (add_holder n l st) = st_delta st" "st_delta_pending (add_holder n l st) = st_delta_pending st"
    "st_worklist (add_holder n l st) = st_worklist st" "st_queued (add_holder n l st) = st_queued st" by (simp_all add: add_holder_def core_def)
  ultimately show ?case using Cons.IH [of "add_holder n l st"] by auto
qed simp

lemma commit_ok:
  fixes n :: PagNodeId and ls :: "LocId list"
  assumes "queue_ok st" "entries_ok ix st"
  defines "st' \<equiv> commit_fresh n ls st"
  shows "queue_ok st'" "entries_ok ix st'" "core st' = core st"
    "\<And>l. holders_of st' l = holders_of st l \<union> (if l \<in> set ls then {n} else {})"
    "delta_of st' = (delta_of st)(n := fold index_insert ls (delta_of st n))"
    "set (st_worklist st') = set (st_worklist st) \<union> (if ls = [] then {} else {n})"
proof -
  have "queue_ok st' \<and> entries_ok ix st' \<and> core st' = core st \<and> (\<forall>l. holders_of st' l = holders_of st l \<union> (if l \<in> set ls then {n} else {})) \<and>
    delta_of st' = (delta_of st)(n := fold index_insert ls (delta_of st n)) \<and> set (st_worklist st') = set (st_worklist st) \<union> (if ls = [] then {} else {n})"
  proof (cases "ls = []")
    case True
    then show ?thesis using assms by (simp add: st'_def commit_fresh_def)
  next
    case False
    let ?a = "fold (add_holder n) ls st"
    note A = add_holders [OF assms(2), of n ls]
    have q: "queue_ok ?a" using assms(1) A by (simp add: queue_ok_def delta_of_def)
    note R = record_delta_queue [OF q, of n ls]
    note P = push_queue [OF R(1), of n]
    have e: "st' = push n (record_delta n ls ?a)" using False by (simp add: st'_def commit_fresh_def)
    have "st_loc_nodes st' = st_loc_nodes ?a" using P(3) R(3) e by simp
    moreover from this have "holders_of st' = holders_of ?a" by (intro ext) (simp add: holders_of_def)
    moreover have "delta_of ?a = delta_of st" using A by (intro ext) (simp add: delta_of_def)
    ultimately show ?thesis using False A R P e by (simp add: entries_ok_def)
  qed
  then show "queue_ok st'" "entries_ok ix st'" "core st' = core st" "\<And>l. holders_of st' l = holders_of st l \<union> (if l \<in> set ls then {n} else {})"
    "delta_of st' = (delta_of st)(n := fold index_insert ls (delta_of st n))" "set (st_worklist st') = set (st_worklist st) \<union> (if ls = [] then {} else {n})"
    by auto
qed

section \<open>The mirrors\<close>

text \<open>The mirrors of every set but that of one node, which is behind.\<close>

definition bits_ok_but :: "PagNodeId \<Rightarrow> LocId set \<Rightarrow> SolverState \<Rightarrow> bool" where
  "bits_ok_but dst old st \<longleftrightarrow> lb_ok (st_loc_bits st) \<and>
     (\<forall>n m. st_pts_bits st n = Some m \<longrightarrow> mirror_in (st_loc_bits st) m \<and> bits_of (st_loc_bits st) m = (if n = dst then old else pts_of st n)) \<and>
     (\<forall>c m. st_memory_bits st c = Some m \<longrightarrow> mirror_in (st_loc_bits st) m \<and> bits_of (st_loc_bits st) m = set (mem_of st c))"

definition bits_ok :: "SolverState \<Rightarrow> bool" where
  "bits_ok st \<longleftrightarrow> lb_ok (st_loc_bits st) \<and>
     (\<forall>n m. st_pts_bits st n = Some m \<longrightarrow> mirror_in (st_loc_bits st) m \<and> bits_of (st_loc_bits st) m = pts_of st n) \<and>
     (\<forall>c m. st_memory_bits st c = Some m \<longrightarrow> mirror_in (st_loc_bits st) m \<and> bits_of (st_loc_bits st) m = set (mem_of st c))"

lemma bits_ok_but_self: "bits_ok st = bits_ok_but dst (pts_of st dst) st"
  by (auto simp: bits_ok_def bits_ok_but_def)

definition unbitten :: "SolverState \<Rightarrow> SolverState" where
  "unbitten st = st\<lparr>st_loc_bits := LocBits_default, st_pts_bits := Map.empty\<rparr>"

lemma unbitten_eqD:
  assumes "unbitten a = unbitten b"
  shows "st_pts a = st_pts b" "st_memory_pts a = st_memory_pts b" "st_designated a = st_designated b" "st_access_pointers a = st_access_pointers b"
    "st_slot_guard a = st_slot_guard b" "st_fn_arity a = st_fn_arity b" "st_merge_sizes a = st_merge_sizes b" "st_synced_cell a = st_synced_cell b"
    "st_cell_owner a = st_cell_owner b" "st_memory_bits a = st_memory_bits b" "st_delta a = st_delta b" "st_delta_pending a = st_delta_pending b"
    "st_loc_nodes a = st_loc_nodes b" "st_worklist a = st_worklist b" "st_queued a = st_queued b" "st_seen_once a = st_seen_once b"
  using assms by (cases a; cases b; simp add: unbitten_def)+

lemma mirror_pts_ok:
  assumes "iter_ok iter" "bits_ok_but dst old st" "pts_of st dst = old \<union> set added" "finite (pts_of st dst)" "\<forall>l \<in> pts_of st dst. l < u32_max"
  shows "\<exists>st'. mirror_pts iter dst added st = Some st' \<and> bits_ok st' \<and> unbitten st' = unbitten st"
proof -
  have ok: "lb_ok (st_loc_bits st)" using assms(2) by (simp add: bits_ok_but_def)
  have fin: "bits_ok (st\<lparr>st_loc_bits := lb, st_pts_bits := (st_pts_bits st)(dst \<mapsto> m)\<rparr>)"
    if "lb_extends (st_loc_bits st) lb" "mirror_in lb m" "bits_of lb m = pts_of st dst" for lb m
    using that assms(2) by (auto simp: bits_ok_def bits_ok_but_def lb_extends_def pts_of_def mem_of_def split: if_splits)
  have un: "unbitten (st\<lparr>st_loc_bits := lb, st_pts_bits := b\<rparr>) = unbitten st" for lb b by (simp add: unbitten_def)
  show ?thesis
  proof (cases "st_pts_bits st dst")
    case (Some m)
    then have m: "mirror_in (st_loc_bits st) m" "bits_of (st_loc_bits st) m = old" using assms(2) by (auto simp: bits_ok_but_def)
    obtain lb m' where L: "foldM LocBits_set (st_loc_bits st, m) added = Some (lb, m')" "lb_extends (st_loc_bits st) lb" "mirror_in lb m'" "bits_of lb m' = old \<union> set added"
      using LocBits_set_all [OF ok m(1), of added] m(2) assms(3,5) by auto
    show ?thesis using L Some fin [OF L(2,3)] un assms(3) by (simp add: mirror_pts_def)
  next
    case None
    show ?thesis
    proof (cases "\<exists>s. st_pts st dst = Some s \<and> card s \<ge> MIRROR_MIN")
      case True
      then obtain s where s: "st_pts st dst = Some s" "card s \<ge> MIRROR_MIN" by blast
      then have ps: "pts_of st dst = s" by (simp add: pts_of_def entry_def)
      have os: "set (iter s) = s" using assms(1,4) ps by (simp add: iter_ok_def)
      obtain lb m where L: "LocBits_mirror (st_loc_bits st) (iter s) = Some (lb, m)" "lb_extends (st_loc_bits st) lb" "mirror_in lb m" "bits_of lb m = s"
        using LocBits_mirror_result [OF ok, of "iter s"] assms(5) ps os by auto
      show ?thesis using L s None fin [OF L(2,3)] un ps by (simp add: mirror_pts_def)
    next
      case False
      then have "mirror_pts iter dst added st = Some st" using None by (auto simp: mirror_pts_def split: option.splits)
      moreover have "bits_ok st" using assms(2) None by (auto simp: bits_ok_def bits_ok_but_def split: if_splits)
      ultimately show ?thesis by simp
    qed
  qed
qed

section \<open>Merging memory\<close>

definition adm :: "Pag \<Rightarrow> SolverState \<Rightarrow> LocId \<Rightarrow> LocId \<Rightarrow> bool" where
  "adm pag st c l \<longleftrightarrow> admits (FnFilter_of (st_slot_guard st c)) (st_fn_arity st) pag l = Some True"

definition range_ok :: "Pag \<Rightarrow> SolverState \<Rightarrow> bool" where
  "range_ok pag st \<longleftrightarrow> length (pag_locations pag) \<le> u32_max \<and> (\<forall>n. pts_of st n \<subseteq> {..<length (pag_locations pag)}) \<and>
     (\<forall>c. distinct (mem_of st c) \<and> set (mem_of st c) \<subseteq> {..<length (pag_locations pag)})"

text \<open>What was merged before is held.\<close>

definition merged_ok :: "Pag \<Rightarrow> SolverState \<Rightarrow> bool" where
  "merged_ok pag st \<longleftrightarrow> (\<forall>n c. seen_of st n c \<le> length (mem_of st c) \<and>
     (\<forall>l \<in> set (take (seen_of st n c) (mem_of st c)). adm pag st c l \<longrightarrow> l \<in> pts_of st n))"

definition unmerged :: "SolverState \<Rightarrow> SolverState" where
  "unmerged st = st\<lparr>st_pts := Map.empty, st_merge_sizes := Map.empty\<rparr>"

lemma unmerged_eqD:
  assumes "unmerged a = unmerged b"
  shows "st_memory_pts a = st_memory_pts b" "st_designated a = st_designated b" "st_access_pointers a = st_access_pointers b"
    "st_slot_guard a = st_slot_guard b" "st_fn_arity a = st_fn_arity b" "st_synced_cell a = st_synced_cell b"
    "st_cell_owner a = st_cell_owner b" "st_memory_bits a = st_memory_bits b" "st_delta a = st_delta b" "st_delta_pending a = st_delta_pending b"
    "st_loc_nodes a = st_loc_nodes b" "st_worklist a = st_worklist b" "st_queued a = st_queued b" "st_loc_bits a = st_loc_bits b" "st_pts_bits a = st_pts_bits b" "st_seen_once a = st_seen_once b"
  using assms by (cases a; cases b; simp add: unmerged_def)+

lemma fn_for_loc_total: "l < length (pag_locations pag) \<Longrightarrow> \<exists>f. fn_for_loc pag l = Some f"
  by (simp add: fn_for_loc_def vget_in)

lemma admits_total: "l < length (pag_locations pag) \<Longrightarrow> admits f ar pag l = Some (admits f ar pag l = Some True)"
  using fn_for_loc_total [of l pag] by (auto simp: admits_def)

lemma adm_cong: "st_slot_guard a = st_slot_guard b \<Longrightarrow> st_fn_arity a = st_fn_arity b \<Longrightarrow> adm pag a = adm pag b"
  by (intro ext) (simp add: adm_def)

lemma bit_held_ok:
  assumes "bits_ok_but dst old st" "old \<subseteq> pts_of st dst"
  shows "\<exists>b. bit_held st dst l = Some b \<and> (b \<longrightarrow> l \<in> pts_of st dst)"
proof (cases "st_pts_bits st dst")
  case (Some m)
  then have "mirror_in (st_loc_bits st) m" "bits_of (st_loc_bits st) m = old" using assms(1) by (auto simp: bits_ok_but_def)
  then show ?thesis using assms(2) Some LocBits_test_bits [of m "st_loc_bits st" l] by (auto simp: bit_held_def mirror_in_def)
qed (auto simp: bit_held_def)

lemma merge_takes_ok:
  assumes "bits_ok_but dst old st" "old \<subseteq> pts_of st dst" "l < length (pag_locations pag)"
  shows "merge_takes pag st dst (FnFilter_of (st_slot_guard st c)) l = Some (adm pag st c l \<and> l \<notin> pts_of st dst)"
proof -
  obtain b where "bit_held st dst l = Some b" "b \<longrightarrow> l \<in> pts_of st dst" using bit_held_ok [OF assms(1,2)] by blast
  then show ?thesis using admits_total [OF assms(3), of "FnFilter_of (st_slot_guard st c)" "st_fn_arity st"]
    by (cases "adm pag st c l") (auto simp: merge_takes_def adm_def pts_of_def)
qed

lemma merge_ok:
  assumes "bits_ok_but dst old st" "old \<subseteq> pts_of st dst" "range_ok pag st" "merged_ok pag st"
  shows "\<exists>st' added. merge pag dst c (st, fresh) = Some (st', fresh @ added) \<and>
    pts_of st' = (pts_of st)(dst := pts_of st dst \<union> {l \<in> set (mem_of st c). adm pag st c l}) \<and>
    set added = {l \<in> set (mem_of st c). adm pag st c l} - pts_of st dst \<and> distinct added \<and> merged_ok pag st' \<and> unmerged st' = unmerged st"
proof (cases "mem_of st c = []")
  case True
  then have "merge pag dst c (st, fresh) = Some (st, fresh)"
    by (auto simp: merge_def mem_of_def entry_def split: option.splits)
  then show ?thesis using True assms(4) by (intro exI [of _ st] exI [of _ "[]"]) (simp add: fun_eq_iff)
next
  case False
  let ?mem = "mem_of st c" and ?k = "seen_of st dst c"
  have m: "st_memory_pts st c = Some ?mem" using False by (auto simp: mem_of_def entry_def split: option.splits)
  let ?sizes = "entry (st_merge_sizes st) dst Map.empty"
  have kle: "?k \<le> length ?mem" and kin: "\<And>l. l \<in> set (take ?k ?mem) \<Longrightarrow> adm pag st c l \<Longrightarrow> l \<in> pts_of st dst"
    using assms(4) by (auto simp: merged_ok_def)
  have seen: "entry ?sizes c 0 = ?k" by (simp add: seen_of_def)
  show ?thesis
  proof (cases "length ?mem \<le> ?k")
    case True
    then have all: "take ?k ?mem = ?mem" by simp
    let ?s = "st\<lparr>st_merge_sizes := (st_merge_sizes st)(dst \<mapsto> ?sizes(c \<mapsto> ?k))\<rparr>"
    have "merge pag dst c (st, fresh) = Some (?s, fresh)" using m False True by (simp add: merge_def Let_def seen)
    moreover have "seen_of ?s = seen_of st" by (auto simp: seen_of_def fun_eq_iff)
    then have "merged_ok pag ?s" using assms(4) by (simp add: merged_ok_def mem_of_def adm_def pts_of_def)
    moreover have sub: "{l \<in> set ?mem. adm pag st c l} \<subseteq> pts_of st dst" using kin all by auto
    ultimately show ?thesis using sub by (intro exI [of _ ?s] exI [of _ "[]"]) (auto simp: pts_of_def unmerged_def fun_eq_iff)
  next
    case False
    let ?s1 = "st\<lparr>st_merge_sizes := (st_merge_sizes st)(dst \<mapsto> ?sizes(c \<mapsto> length ?mem))\<rparr>"
    let ?added = "filter (\<lambda>l. adm pag st c l \<and> l \<notin> pts_of st dst) (drop ?k ?mem)"
    let ?s = "?s1\<lparr>st_pts := (st_pts st)(dst \<mapsto> pts_of st dst \<union> set ?added)\<rparr>"
    have b1: "bits_ok_but dst old ?s1" "old \<subseteq> pts_of ?s1 dst" using assms(1,2) by (simp_all add: bits_ok_but_def pts_of_def mem_of_def)
    have "merge_takes pag ?s1 dst (FnFilter_of (st_slot_guard ?s1 c)) l = Some (adm pag st c l \<and> l \<notin> pts_of st dst)" if "l \<in> set (drop ?k ?mem)" for l
    proof -
      have "l \<in> set ?mem" using that by (rule in_set_dropD)
      then have "l < length (pag_locations pag)" using assms(3) by (auto simp: range_ok_def)
      from merge_takes_ok [OF b1 this, of c] show ?thesis by (simp add: adm_def pts_of_def)
    qed
    then have "filterM (merge_takes pag ?s1 dst (FnFilter_of (st_slot_guard ?s1 c))) (drop ?k ?mem) = Some ?added" by (rule filterM_total)
    then have e: "merge pag dst c (st, fresh) = Some (?s, fresh @ ?added)"
      using m False \<open>?mem \<noteq> []\<close> by (simp add: merge_def Let_def seen pts_of_def)
    have parts: "set ?mem = set (take ?k ?mem) \<union> set (drop ?k ?mem)" by (metis append_take_drop_id set_append)
    then have add: "set ?added = {l \<in> set ?mem. adm pag st c l} - pts_of st dst" using kin by auto
    have p: "pts_of ?s = (pts_of st)(dst := pts_of st dst \<union> {l \<in> set ?mem. adm pag st c l})"
      using add by (auto simp: pts_of_def fun_eq_iff)
    have sn: "seen_of ?s n d = (if n = dst \<and> d = c then length ?mem else seen_of st n d)" for n d by (auto simp: seen_of_def)
    have mm: "mem_of ?s = mem_of st" "adm pag ?s = adm pag st" by (auto simp: mem_of_def adm_def fun_eq_iff)
    have "merged_ok pag ?s" unfolding merged_ok_def mm p sn using assms(4) by (auto simp: merged_ok_def)
    moreover have "distinct ?added" using assms(3) by (auto simp: range_ok_def)
    moreover have "unmerged ?s = unmerged st" by (simp add: unmerged_def)
    ultimately show ?thesis using e p add by blast
  qed
qed

section \<open>The invariant\<close>

definition solver_ok :: "Pag \<Rightarrow> SolverState \<Rightarrow> bool" where
  "solver_ok pag st \<longleftrightarrow> queue_ok st \<and> index_ok (pag_indices pag) st \<and> bits_ok st \<and> range_ok pag st \<and> merged_ok pag st"

text \<open>A state whose node \<open>dst\<close> has grown from \<open>old\<close>, before its mirror and index follow.\<close>

definition grown_ok :: "Pag \<Rightarrow> PagNodeId \<Rightarrow> LocId set \<Rightarrow> SolverState \<Rightarrow> bool" where
  "grown_ok pag dst old st \<longleftrightarrow> queue_ok st \<and> entries_ok (pag_indices pag) st \<and> bits_ok_but dst old st \<and> range_ok pag st \<and> merged_ok pag st \<and>
     old \<subseteq> pts_of st dst \<and> (\<forall>n l. n \<in> holders_of st l \<longleftrightarrow> l \<in> (if n = dst then old else pts_of st n))"

lemma index_ok_entries: "index_ok ix st \<longleftrightarrow> (\<forall>n l. n \<in> holders_of st l \<longleftrightarrow> l \<in> pts_of st n) \<and> entries_ok ix st"
  by (auto simp: index_ok_def entries_ok_def)

lemma solver_ok_grown: "solver_ok pag st \<longleftrightarrow> grown_ok pag dst (pts_of st dst) st"
  by (auto simp: solver_ok_def grown_ok_def index_ok_entries bits_ok_but_self [of st dst])

text \<open>What no step on points-to sets changes.\<close>

definition aside :: "SolverState \<Rightarrow> (LocId \<rightharpoonup> LocId list) \<times> (LocId \<rightharpoonup> Mirror) \<times> (LocId \<rightharpoonup> SlotGuard) \<times> (LocId \<rightharpoonup> nat) \<times>
    (PagNodeId \<rightharpoonup> LocId) \<times> (LocId \<rightharpoonup> PagNodeId) \<times> PagNodeId set \<times> PagNodeId set" where
  "aside st = (st_memory_pts st, st_memory_bits st, st_slot_guard st, st_fn_arity st, st_synced_cell st, st_cell_owner st, st_access_pointers st,
     st_seen_once st)"

lemma aside_adm: "aside a = aside b \<Longrightarrow> adm pag a = adm pag b"
  by (rule adm_cong) (auto simp: aside_def)

lemma aside_mem: "aside a = aside b \<Longrightarrow> mem_of a = mem_of b"
  by (intro ext) (simp add: aside_def mem_of_def)

lemma settle:
  assumes "iter_ok iter" "grown_ok pag dst old st" "pts_of st dst = old \<union> set fresh"
  shows "\<exists>st'. map_option (commit_fresh dst fresh) (mirror_pts iter dst fresh st) = Some st' \<and> solver_ok pag st' \<and> pts_of st' = pts_of st \<and>
    aside st' = aside st \<and> delta_of st' = (delta_of st)(dst := fold index_insert fresh (delta_of st dst)) \<and>
    set (st_worklist st') = set (st_worklist st) \<union> (if fresh = [] then {} else {dst})"
proof -
  have G: "queue_ok st" "entries_ok (pag_indices pag) st" "bits_ok_but dst old st" "range_ok pag st" "merged_ok pag st"
    "\<And>n l. n \<in> holders_of st l \<longleftrightarrow> l \<in> (if n = dst then old else pts_of st n)" using assms(2) by (auto simp: grown_ok_def)
  have r: "pts_of st dst \<subseteq> {..<length (pag_locations pag)}" "length (pag_locations pag) \<le> u32_max" using G(4) by (auto simp: range_ok_def)
  have "finite (pts_of st dst)" "\<forall>l \<in> pts_of st dst. l < u32_max" using r finite_subset [OF r(1)] by auto
  from mirror_pts_ok [OF assms(1) G(3) assms(3) this] obtain s where s: "mirror_pts iter dst fresh st = Some s" "bits_ok s" "unbitten s = unbitten st" by blast
  note U = unbitten_eqD [OF s(3)]
  have q: "queue_ok s" "entries_ok (pag_indices pag) s" using G(1,2) U by (simp_all add: queue_ok_def entries_ok_def delta_of_def)
  note C = commit_ok [OF q, of dst fresh]
  let ?s = "commit_fresh dst fresh s"
  note E = core_eqD [OF C(3)]
  have eq: "pts_of ?s = pts_of st" "mem_of ?s = mem_of st" "delta_of s = delta_of st" "holders_of s = holders_of st" "seen_of ?s = seen_of st" "adm pag ?s = adm pag st"
    using U E by (auto intro!: ext simp: pts_of_def mem_of_def delta_of_def holders_of_def seen_of_def adm_def)
  have "bits_ok ?s" using s(2) E by (simp add: bits_ok_def pts_of_def mem_of_def)
  moreover have "range_ok pag ?s" "merged_ok pag ?s" using G(4,5) by (simp_all add: range_ok_def merged_ok_def eq)
  moreover have "n \<in> holders_of ?s l \<longleftrightarrow> l \<in> pts_of ?s n" for n l using C(4) [of l] G(6) [of n l] assms(3) eq(1,4) by auto
  ultimately have "solver_ok pag ?s" using C(1,2) by (simp add: solver_ok_def index_ok_entries)
  moreover have "aside ?s = aside st" using U E by (simp add: aside_def)
  ultimately show ?thesis using s(1) C(5,6) eq U(14) by simp
qed

lemma finish_ok:
  assumes "iter_ok iter" "grown_ok pag dst old st" "pts_of st dst = old \<union> set fresh"
  shows "\<exists>st'. finish_merge iter dst fresh st = Some st' \<and> solver_ok pag st' \<and> pts_of st' = pts_of st \<and>
    aside st' = aside st \<and> delta_of st' = (delta_of st)(dst := fold index_insert fresh (delta_of st dst)) \<and>
    set (st_worklist st') = set (st_worklist st) \<union> (if fresh = [] then {} else {dst})"
proof (cases "fresh = []")
  case True
  then have "solver_ok pag st" using assms(2,3) solver_ok_grown [of pag st dst] by simp
  then show ?thesis using True by (simp add: finish_merge_def)
next
  case False
  then show ?thesis using settle [OF assms] by (simp add: finish_merge_def)
qed

lemma grown_merge:
  assumes "grown_ok pag dst old st"
  shows "\<exists>st' added. merge pag dst c (st, fresh) = Some (st', fresh @ added) \<and> grown_ok pag dst old st' \<and>
    pts_of st' = (pts_of st)(dst := pts_of st dst \<union> set added) \<and>
    set added = {l \<in> set (mem_of st c). adm pag st c l} - pts_of st dst \<and> distinct added \<and> aside st' = aside st \<and> delta_of st' = delta_of st \<and> st_worklist st' = st_worklist st"
proof -
  have G: "queue_ok st" "entries_ok (pag_indices pag) st" "bits_ok_but dst old st" "range_ok pag st" "merged_ok pag st" "old \<subseteq> pts_of st dst"
    "\<forall>n l. n \<in> holders_of st l \<longleftrightarrow> l \<in> (if n = dst then old else pts_of st n)" using assms by (auto simp: grown_ok_def)
  obtain st' added where m: "merge pag dst c (st, fresh) = Some (st', fresh @ added)"
    "pts_of st' = (pts_of st)(dst := pts_of st dst \<union> {l \<in> set (mem_of st c). adm pag st c l})"
    "set added = {l \<in> set (mem_of st c). adm pag st c l} - pts_of st dst" "distinct added" "merged_ok pag st'" "unmerged st' = unmerged st"
    using merge_ok [OF G(3,6,4,5)] by blast
  note U = unmerged_eqD [OF m(6)]
  have eq: "mem_of st' = mem_of st" "delta_of st' = delta_of st" "holders_of st' = holders_of st"
    using U by (auto intro!: ext simp: mem_of_def delta_of_def holders_of_def)
  have p: "pts_of st' = (pts_of st)(dst := pts_of st dst \<union> set added)" using m(2,3) by auto
  have "range_ok pag st'" using G(4) m(2) eq(1) by (auto simp: range_ok_def)
  moreover have "bits_ok_but dst old st'" using G(3) U eq(1) p by (auto simp: bits_ok_but_def)
  moreover have "queue_ok st'" "entries_ok (pag_indices pag) st'" using G(1,2) U eq by (simp_all add: queue_ok_def entries_ok_def)
  ultimately have "grown_ok pag dst old st'" using G(6,7) m(5) p eq(3) by (auto simp: grown_ok_def)
  then show ?thesis using m p eq U by (auto simp: aside_def)
qed

end
