(* ===== verification/Points_To_Props.thy ===== *)
theory Points_To_Props
  imports Points_To_Inv
begin

text \<open>
  The properties of the points-to solver's steps: what a load, a propagation and a store compute, that every one of them keeps the
  invariant, and that no loading node misses a change of memory.
\<close>

section \<open>Growing a set\<close>

lemma grow_pts:
  assumes "grown_ok pag dst old st" "new \<subseteq> {..<length (pag_locations pag)}"
  defines "s \<equiv> st\<lparr>st_pts := (st_pts st)(dst \<mapsto> pts_of st dst \<union> new)\<rparr>"
  shows "grown_ok pag dst old s" "pts_of s = (pts_of st)(dst := pts_of st dst \<union> new)" "aside s = aside st" "delta_of s = delta_of st" "st_worklist s = st_worklist st"
proof -
  show p: "pts_of s = (pts_of st)(dst := pts_of st dst \<union> new)" by (intro ext) (simp add: s_def pts_of_def)
  have eq: "mem_of s = mem_of st" "holders_of s = holders_of st" "seen_of s = seen_of st" "adm pag s = adm pag st"
    by (auto intro!: ext simp: s_def mem_of_def holders_of_def seen_of_def adm_def)
  show d: "delta_of s = delta_of st" by (intro ext) (simp add: s_def delta_of_def)
  have G: "queue_ok st" "entries_ok (pag_indices pag) st" "bits_ok_but dst old st" "range_ok pag st" "merged_ok pag st" "old \<subseteq> pts_of st dst"
    "\<forall>n l. n \<in> holders_of st l \<longleftrightarrow> l \<in> (if n = dst then old else pts_of st n)" using assms(1) by (auto simp: grown_ok_def)
  have "queue_ok s" "entries_ok (pag_indices pag) s" using G(1,2) d by (simp_all add: queue_ok_def entries_ok_def s_def)
  moreover have "bits_ok_but dst old s" using G(3) p eq(1) by (auto simp: bits_ok_but_def s_def)
  moreover have "range_ok pag s" using G(4) p eq(1) assms(2) by (auto simp: range_ok_def)
  moreover have "merged_ok pag s" using G(5) p eq by (auto simp: merged_ok_def)
  ultimately show "grown_ok pag dst old s" using G(6,7) p eq(2) by (auto simp: grown_ok_def)
qed (simp_all add: s_def aside_def)

lemma propagate_result:
  assumes "iter_ok iter" "solver_ok pag st" "\<forall>l \<in> set locs. l < length (pag_locations pag)"
  shows "\<exists>st'. propagate_locs iter dst locs st = Some st' \<and> solver_ok pag st' \<and> pts_of st' = (pts_of st)(dst := pts_of st dst \<union> set locs) \<and>
    aside st' = aside st \<and> (\<forall>n. set (delta_of st' n) = set (delta_of st n) \<union> (pts_of st' n - pts_of st n)) \<and>
    set (st_worklist st') = set (st_worklist st) \<union> {n. pts_of st' n \<noteq> pts_of st n}"
proof -
  have g: "grown_ok pag dst (pts_of st dst) st" using assms(2) solver_ok_grown by blast
  let ?fresh = "filter (\<lambda>l. l \<notin> pts_of st dst) locs"
  have "(do { b \<leftarrow> bit_held st dst l; Some (\<not> b \<and> l \<notin> entry (st_pts st) dst {}) }) = Some (l \<notin> pts_of st dst)" for l
    using bit_held_ok [of dst "pts_of st dst" st l] g by (auto simp: grown_ok_def pts_of_def)
  then have f: "filterM (\<lambda>l. do { b \<leftarrow> bit_held st dst l; Some (\<not> b \<and> l \<notin> entry (st_pts st) dst {}) }) locs = Some ?fresh" by (intro filterM_total)
  let ?s = "st\<lparr>st_pts := (st_pts st)(dst \<mapsto> pts_of st dst \<union> set ?fresh)\<rparr>"
  have "set ?fresh \<subseteq> {..<length (pag_locations pag)}" using assms(3) by auto
  note G = grow_pts [OF g this]
  have "pts_of ?s dst = pts_of st dst \<union> set ?fresh" using G(2) by simp
  from settle [OF assms(1) G(1) this] obtain st' where s: "map_option (commit_fresh dst ?fresh) (mirror_pts iter dst ?fresh ?s) = Some st'" "solver_ok pag st'"
    "pts_of st' = pts_of ?s" "aside st' = aside ?s" "delta_of st' = (delta_of ?s)(dst := fold index_insert ?fresh (delta_of ?s dst))"
    "set (st_worklist st') = set (st_worklist ?s) \<union> (if ?fresh = [] then {} else {dst})" by blast
  have "propagate_locs iter dst locs st = Some st'"
    using s(1) unfolding propagate_locs_def Let_def f Option.bind_lunit by (auto simp: pts_of_def map_option_case split: option.splits)
  moreover have "pts_of st dst \<union> set ?fresh = pts_of st dst \<union> set locs" by auto
  then have p: "pts_of st' = (pts_of st)(dst := pts_of st dst \<union> set locs)" using s(3) G(2) by (simp only:)
  moreover have "set (st_worklist st') = set (st_worklist st) \<union> {n. pts_of st' n \<noteq> pts_of st n}"
    using s(6) p by (auto simp: G(5) filter_empty_conv split: if_splits)
  moreover have "set (delta_of st' n) = set (delta_of st n) \<union> (pts_of st' n - pts_of st n)" for n using s(5) p G(4) by auto
  ultimately show ?thesis using s(2,4) G(3) by auto
qed

section \<open>Loads\<close>

text \<open>What a location newly held by the pointer contributes to a load.\<close>

definition contribution :: "Pag \<Rightarrow> SolverState \<Rightarrow> LocId \<Rightarrow> LocId set" where
  "contribution pag st l =
     (if fn_for_loc pag l \<noteq> Some None then {l}
      else if loc_kind pag l = Some StringLit then {}
      else {x \<in> set (mem_of st l). adm pag st l x})"

lemma contribution_cong: "aside a = aside b \<Longrightarrow> contribution pag a = contribution pag b"
  using aside_adm [of a b pag] aside_mem [of a b] by (intro ext) (simp add: contribution_def)

lemma load_step:
  assumes "grown_ok pag dst old s" "pts_of s dst = old \<union> set fresh" "set fresh \<inter> old = {}" "l < length (pag_locations pag)"
  shows "\<exists>s' added. load_one pag dst (s, fresh, k) l =
      Some (s', fresh @ added, k + (if fn_for_loc pag l = Some None \<and> loc_kind pag l \<noteq> Some StringLit then 1 else 0)) \<and>
    grown_ok pag dst old s' \<and> pts_of s' = (pts_of s)(dst := pts_of s dst \<union> contribution pag s l) \<and> pts_of s' dst = old \<union> set (fresh @ added) \<and>
    set (fresh @ added) \<inter> old = {} \<and> aside s' = aside s \<and> delta_of s' = delta_of s \<and> st_worklist s' = st_worklist s"
proof -
  obtain f where f: "fn_for_loc pag l = Some f" using fn_for_loc_total [OF assms(4)] by blast
  obtain kd where kd: "loc_kind pag l = Some kd" using assms(4) by (simp add: loc_kind_def vget_in)
  show ?thesis
  proof (cases "f = None")
    case False
    let ?s = "s\<lparr>st_pts := (st_pts s)(dst \<mapsto> pts_of s dst \<union> {l})\<rparr>"
    have c: "contribution pag s l = {l}" using f False by (simp add: contribution_def)
    have "{l} \<subseteq> {..<length (pag_locations pag)}" using assms(4) by simp
    note G = grow_pts [OF assms(1) this]
    have "load_one pag dst (s, fresh, k) l = Some (?s, fresh @ (if l \<in> pts_of s dst then [] else [l]), k)"
      using f kd False by (simp add: load_one_def Let_def pts_of_def)
    moreover have "pts_of ?s dst = old \<union> set (fresh @ (if l \<in> pts_of s dst then [] else [l]))"
      "set (fresh @ (if l \<in> pts_of s dst then [] else [l])) \<inter> old = {}" using G(2) assms(2,3) by auto
    ultimately show ?thesis using G f False c by auto
  next
    case True
    show ?thesis
    proof (cases "kd = StringLit")
      case str: True
      then have "contribution pag s l = {}" "load_one pag dst (s, fresh, k) l = Some (s, fresh @ [], k)"
        using f True kd by (simp_all add: contribution_def load_one_def)
      then show ?thesis using assms f True kd str by (auto simp: fun_eq_iff)
    next
      case no: False
      obtain s' added where m: "merge pag dst l (s, fresh) = Some (s', fresh @ added)" "grown_ok pag dst old s'"
        "pts_of s' = (pts_of s)(dst := pts_of s dst \<union> set added)" "set added = {x \<in> set (mem_of s l). adm pag s l x} - pts_of s dst"
        "aside s' = aside s" "delta_of s' = delta_of s" "st_worklist s' = st_worklist s" using grown_merge [OF assms(1), of l fresh] by blast
      have c: "contribution pag s l = {x \<in> set (mem_of s l). adm pag s l x}" using f True kd no by (simp add: contribution_def)
      have "load_one pag dst (s, fresh, k) l = Some (s', fresh @ added, k + 1)" using f True kd no m(1) by (simp add: load_one_def)
      moreover have "pts_of s' = (pts_of s)(dst := pts_of s dst \<union> contribution pag s l)" using m(3,4) c by auto
      moreover have "pts_of s' dst = old \<union> set (fresh @ added)" "set (fresh @ added) \<inter> old = {}" using m(3,4) assms(2,3) by auto
      ultimately show ?thesis using m f True kd no by auto
    qed
  qed
qed

lemma load_fold:
  assumes "grown_ok pag dst old s" "pts_of s dst = old \<union> set fresh" "set fresh \<inter> old = {}" "\<forall>l \<in> set locs. l < length (pag_locations pag)"
  shows "\<exists>s' fresh'. foldM (load_one pag dst) (s, fresh, k) locs =
      Some (s', fresh', k + length (filter (\<lambda>l. fn_for_loc pag l = Some None \<and> loc_kind pag l \<noteq> Some StringLit) locs)) \<and>
    grown_ok pag dst old s' \<and> pts_of s' = (pts_of s)(dst := pts_of s dst \<union> (\<Union>l \<in> set locs. contribution pag s l)) \<and> pts_of s' dst = old \<union> set fresh' \<and>
    set fresh' \<inter> old = {} \<and> aside s' = aside s \<and> delta_of s' = delta_of s \<and> st_worklist s' = st_worklist s"
  using assms
proof (induction locs arbitrary: s fresh k)
  case Nil
  then show ?case by (auto simp: fun_eq_iff)
next
  case (Cons l locs)
  have "l < length (pag_locations pag)" using Cons.prems(4) by simp
  from load_step [OF Cons.prems(1-3) this, of k] obtain s1 added where
    s1: "load_one pag dst (s, fresh, k) l = Some (s1, fresh @ added, k + (if fn_for_loc pag l = Some None \<and> loc_kind pag l \<noteq> Some StringLit then 1 else 0))"
    "grown_ok pag dst old s1" "pts_of s1 = (pts_of s)(dst := pts_of s dst \<union> contribution pag s l)" "pts_of s1 dst = old \<union> set (fresh @ added)"
    "set (fresh @ added) \<inter> old = {}" "aside s1 = aside s" "delta_of s1 = delta_of s" "st_worklist s1 = st_worklist s" by blast
  have "\<forall>l \<in> set locs. l < length (pag_locations pag)" using Cons.prems(4) by simp
  from Cons.IH [OF s1(2,4,5) this, of "k + (if fn_for_loc pag l = Some None \<and> loc_kind pag l \<noteq> Some StringLit then 1 else 0)"]
  show ?case using s1 contribution_cong [OF s1(6), of pag] by (auto simp: Un_assoc fun_eq_iff)
qed

lemma load_into_result:
  assumes "iter_ok iter" "solver_ok pag st" "\<forall>l \<in> set locs. l < length (pag_locations pag)"
  shows "\<exists>st'. load_into iter pag dst locs st = Some (st', length (filter (\<lambda>l. fn_for_loc pag l = Some None \<and> loc_kind pag l \<noteq> Some StringLit) locs)) \<and>
    solver_ok pag st' \<and> pts_of st' = (pts_of st)(dst := pts_of st dst \<union> (\<Union>l \<in> set locs. contribution pag st l)) \<and> aside st' = aside st \<and>
    (\<forall>n. set (delta_of st' n) = set (delta_of st n) \<union> (pts_of st' n - pts_of st n)) \<and>
    set (st_worklist st') = set (st_worklist st) \<union> {n. pts_of st' n \<noteq> pts_of st n}"
proof -
  have g: "grown_ok pag dst (pts_of st dst) st" using assms(2) solver_ok_grown by blast
  obtain s fresh where s: "foldM (load_one pag dst) (st, [], 0) locs =
      Some (s, fresh, length (filter (\<lambda>l. fn_for_loc pag l = Some None \<and> loc_kind pag l \<noteq> Some StringLit) locs))"
    "grown_ok pag dst (pts_of st dst) s" "pts_of s = (pts_of st)(dst := pts_of st dst \<union> (\<Union>l \<in> set locs. contribution pag st l))"
    "pts_of s dst = pts_of st dst \<union> set fresh" "set fresh \<inter> pts_of st dst = {}" "aside s = aside st" "delta_of s = delta_of st" "st_worklist s = st_worklist st"
    using load_fold [OF g, of "[]" locs 0] assms(3) by auto
  obtain st' where f: "finish_merge iter dst fresh s = Some st'" "solver_ok pag st'" "pts_of st' = pts_of s" "aside st' = aside s"
    "delta_of st' = (delta_of s)(dst := fold index_insert fresh (delta_of s dst))" "set (st_worklist st') = set (st_worklist s) \<union> (if fresh = [] then {} else {dst})"
    using finish_ok [OF assms(1) s(2,4)] by blast
  have "load_into iter pag dst locs st = Some (st', length (filter (\<lambda>l. fn_for_loc pag l = Some None \<and> loc_kind pag l \<noteq> Some StringLit) locs))"
    using s(1) f(1) by (simp add: load_into_def)
  moreover have p: "pts_of st' n = (if n = dst then pts_of st dst \<union> set fresh else pts_of st n)" for n using f(3) s(3,4) by (auto simp: fun_upd_def)
  moreover have "set (delta_of st' n) = set (delta_of st n) \<union> (pts_of st' n - pts_of st n)" for n using f(5) s(5,7) p by auto
  moreover have "{n. pts_of st' n \<noteq> pts_of st n} = (if fresh = [] then {} else {dst})" using p s(5) by (cases fresh) auto
  ultimately show ?thesis using f s by auto
qed

text \<open>C35: a load \<open>dst = *p\<close> over the locations the pointer newly holds adds to the destination exactly what those locations
  stand for: a function itself, nothing for a string literal, and for any other the whole admitted memory of its cell, although only the part
  since the last merge is read. What is new, and nothing else, enters the delta of the destination, which is queued exactly when it grew. The
  invariant of the state is kept and nothing panics.\<close>

theorem load_into_correct:
  assumes "iter_ok iter" "solver_ok pag st" "\<forall>l \<in> set locs. l < length (pag_locations pag)"
  shows "\<exists>st' merges. load_into iter pag dst locs st = Some (st', merges) \<and> solver_ok pag st' \<and>
    pts_of st' = (pts_of st)(dst := pts_of st dst \<union> (\<Union>l \<in> set locs. contribution pag st l)) \<and>
    (\<forall>n. set (delta_of st' n) = set (delta_of st n) \<union> (pts_of st' n - pts_of st n)) \<and>
    set (st_worklist st') = set (st_worklist st) \<union> {n. pts_of st' n \<noteq> pts_of st n} \<and>
    merges = length (filter (\<lambda>l. fn_for_loc pag l = Some None \<and> loc_kind pag l \<noteq> Some StringLit) locs)"
  using load_into_result [OF assms] by blast

lemma grow_one:
  assumes "iter_ok iter" "solver_ok pag st"
  shows "\<exists>st'. merge_memory_into_if_grown iter pag dst c st = Some st' \<and> solver_ok pag st' \<and>
    pts_of st' = (pts_of st)(dst := pts_of st dst \<union> {l \<in> set (mem_of st c). adm pag st c l}) \<and> aside st' = aside st \<and>
    (\<forall>n. set (delta_of st' n) = set (delta_of st n) \<union> (pts_of st' n - pts_of st n)) \<and>
    set (st_worklist st') = set (st_worklist st) \<union> {n. pts_of st' n \<noteq> pts_of st n}"
proof -
  have g: "grown_ok pag dst (pts_of st dst) st" using assms(2) solver_ok_grown by blast
  obtain s added where s: "merge pag dst c (st, []) = Some (s, added)" "grown_ok pag dst (pts_of st dst) s" "pts_of s = (pts_of st)(dst := pts_of st dst \<union> set added)"
    "set added = {l \<in> set (mem_of st c). adm pag st c l} - pts_of st dst" "aside s = aside st" "delta_of s = delta_of st" "st_worklist s = st_worklist st"
    using grown_merge [OF g, of c "[]"] by auto
  have "pts_of s dst = pts_of st dst \<union> set added" using s(3) by simp
  from finish_ok [OF assms(1) s(2) this] obtain st' where f: "finish_merge iter dst added s = Some st'" "solver_ok pag st'" "pts_of st' = pts_of s" "aside st' = aside s"
    "delta_of st' = (delta_of s)(dst := fold index_insert added (delta_of s dst))" "set (st_worklist st') = set (st_worklist s) \<union> (if added = [] then {} else {dst})" by blast
  have p: "pts_of st' n = (if n = dst then pts_of st dst \<union> set added else pts_of st n)" for n using f(3) s(3) by simp
  have "pts_of st' = (pts_of st)(dst := pts_of st dst \<union> {l \<in> set (mem_of st c). adm pag st c l})" using p s(4) by (auto simp: fun_eq_iff)
  moreover have "set (delta_of st' n) = set (delta_of st n) \<union> (pts_of st' n - pts_of st n)" for n using f(5) s(4,6) p by auto
  moreover have "{n. pts_of st' n \<noteq> pts_of st n} = (if added = [] then {} else {dst})" using p s(4) by (cases added) auto
  ultimately show ?thesis using f s by (auto simp: merge_memory_into_if_grown_def)
qed

section \<open>Writing memory\<close>

lemma write_bits:
  assumes "lb_ok lb" "mirror_in lb m" "bits_of lb m = set mem" "\<forall>l \<in> set locs. l < u32_max"
  shows "\<exists>lb' m'. foldM write_bit (mem, lb, m) locs = Some (fold index_insert locs mem, lb', m') \<and> lb_extends lb lb' \<and> mirror_in lb' m' \<and>
    bits_of lb' m' = set (fold index_insert locs mem)"
  using assms
proof (induction locs arbitrary: lb m mem)
  case Nil
  then show ?case by (simp add: lb_extends_refl)
next
  case (Cons l locs)
  have t: "LocBits_test lb m l = Some (l \<in> set mem)" using LocBits_test_bits [of m lb l] Cons.prems(2,3) by (simp add: mirror_in_def)
  show ?case
  proof (cases "l \<in> set mem")
    case True
    then have "write_bit (mem, lb, m) l = Some (mem, lb, m)" "index_insert l mem = mem" using t by (simp_all add: write_bit_def index_insert_def)
    then show ?thesis using Cons by simp
  next
    case False
    have "l < u32_max" using Cons.prems(4) by simp
    from LocBits_set_result [OF Cons.prems(1,2) this] obtain lb1 m1 where s1: "LocBits_set (lb, m) l = Some (lb1, m1)" "lb_ok lb1" "mirror_in lb1 m1"
      "bits_of lb1 m1 = insert l (set mem)" "lb_extends lb lb1" using Cons.prems(3) unfolding lb_extends_def by auto
    have w: "write_bit (mem, lb, m) l = Some (index_insert l mem, lb1, m1)" using t False s1(1) by (simp add: write_bit_def)
    obtain lb2 m2 where s2: "foldM write_bit (index_insert l mem, lb1, m1) locs = Some (fold index_insert locs (index_insert l mem), lb2, m2)" "lb_extends lb1 lb2"
      "mirror_in lb2 m2" "bits_of lb2 m2 = set (fold index_insert locs (index_insert l mem))"
      using Cons.IH [OF s1(2,3), of "index_insert l mem"] s1(4) Cons.prems(4) by auto
    show ?thesis using w s2 lb_extends_trans [OF s1(5) s2(2)] by simp
  qed
qed

lemma fold_index_insert_prefix: "\<exists>zs. fold index_insert ls xs = xs @ zs"
  using dedup_onto_prefix fold_index_insert_eq by metis

lemma fold_index_insert_grew: "distinct xs \<Longrightarrow> length (fold index_insert ls xs) > length xs \<longleftrightarrow> \<not> set ls \<subseteq> set xs"
proof -
  assume "distinct xs"
  obtain zs where z: "fold index_insert ls xs = xs @ zs" using fold_index_insert_prefix by blast
  have "distinct (xs @ zs)" using distinct_fold_index_insert [OF \<open>distinct xs\<close>, of ls] z by simp
  moreover have "set (xs @ zs) = set xs \<union> set ls" using set_fold_index_insert [of ls xs] unfolding z by simp
  ultimately show ?thesis unfolding z by (cases zs) auto
qed

text \<open>What stays the same when memory is written.\<close>

definition unwritten :: "SolverState \<Rightarrow> SolverState" where
  "unwritten st = st\<lparr>st_memory_pts := Map.empty, st_memory_bits := Map.empty, st_loc_bits := LocBits_default\<rparr>"

lemma unwritten_eqD:
  assumes "unwritten a = unwritten b"
  shows "st_pts a = st_pts b" "st_designated a = st_designated b" "st_access_pointers a = st_access_pointers b"
    "st_slot_guard a = st_slot_guard b" "st_fn_arity a = st_fn_arity b" "st_merge_sizes a = st_merge_sizes b" "st_synced_cell a = st_synced_cell b"
    "st_cell_owner a = st_cell_owner b" "st_delta a = st_delta b" "st_delta_pending a = st_delta_pending b"
    "st_loc_nodes a = st_loc_nodes b" "st_worklist a = st_worklist b" "st_queued a = st_queued b" "st_pts_bits a = st_pts_bits b" "st_seen_once a = st_seen_once b"
  using assms by (cases a; cases b; simp add: unwritten_def)+

lemma solver_ok_written:
  assumes "solver_ok pag st" "unwritten s = unwritten st" "mem_of s = (mem_of st)(c := fold index_insert locs (mem_of st c))" "\<forall>l \<in> set locs. l < length (pag_locations pag)"
    "lb_extends (st_loc_bits st) (st_loc_bits s)" "\<And>d. d \<noteq> c \<Longrightarrow> st_memory_bits s d = st_memory_bits st d"
    "\<And>m. st_memory_bits s c = Some m \<Longrightarrow> mirror_in (st_loc_bits s) m \<and> bits_of (st_loc_bits s) m = set (mem_of s c)"
  shows "solver_ok pag s"
proof -
  note U = unwritten_eqD [OF assms(2)]
  have eq: "pts_of s = pts_of st" "delta_of s = delta_of st" "holders_of s = holders_of st" "seen_of s = seen_of st" "adm pag s = adm pag st"
    using U by (auto intro!: ext simp: pts_of_def delta_of_def holders_of_def seen_of_def adm_def)
  have S: "queue_ok st" "index_ok (pag_indices pag) st" "bits_ok st" "range_ok pag st" "merged_ok pag st" using assms(1) by (auto simp: solver_ok_def)
  have lb: "lb_ok (st_loc_bits s)" "\<And>m. mirror_in (st_loc_bits st) m \<Longrightarrow> mirror_in (st_loc_bits s) m \<and> bits_of (st_loc_bits s) m = bits_of (st_loc_bits st) m"
    using assms(5) by (auto simp: lb_extends_def)
  have "queue_ok s" "index_ok (pag_indices pag) s" using S(1,2) U eq by (simp_all add: queue_ok_def index_ok_def)
  moreover have "mirror_in (st_loc_bits s) m \<and> bits_of (st_loc_bits s) m = pts_of s n" if "st_pts_bits s n = Some m" for n m
    using that S(3) lb(2) [of m] U(14) eq(1) by (simp add: bits_ok_def)
  moreover have "mirror_in (st_loc_bits s) m \<and> bits_of (st_loc_bits s) m = set (mem_of s d)" if "st_memory_bits s d = Some m" for d m
    using that S(3) lb(2) [of m] assms(3,6,7) by (cases "d = c") (auto simp: bits_ok_def)
  ultimately have "bits_ok s" using lb(1) by (auto simp: bits_ok_def)
  moreover have "range_ok pag s" using S(4) assms(3,4) eq(1) by (auto simp: range_ok_def distinct_fold_index_insert)
  moreover have "merged_ok pag s"
  proof -
    obtain zs where z: "fold index_insert locs (mem_of st c) = mem_of st c @ zs" using fold_index_insert_prefix by blast
    show ?thesis using S(5) unfolding merged_ok_def eq assms(3) by (auto simp: z intro: trans_le_add1)
  qed
  ultimately show ?thesis using \<open>queue_ok s\<close> \<open>index_ok (pag_indices pag) s\<close> by (simp add: solver_ok_def)
qed

lemma write_memory_result:
  assumes "solver_ok pag st" "\<forall>l \<in> set locs. l < length (pag_locations pag)"
  shows "\<exists>st'. write_memory c locs st = Some (st', \<not> set locs \<subseteq> set (mem_of st c)) \<and> solver_ok pag st' \<and>
    mem_of st' = (mem_of st)(c := fold index_insert locs (mem_of st c)) \<and> unwritten st' = unwritten st"
proof -
  let ?mem = "mem_of st c" and ?mem1 = "fold index_insert locs (mem_of st c)"
  have S: "bits_ok st" "lb_ok (st_loc_bits st)" "distinct ?mem" "set ?mem \<subseteq> {..<length (pag_locations pag)}" "length (pag_locations pag) \<le> u32_max"
    using assms(1) by (auto simp: solver_ok_def bits_ok_def range_ok_def)
  have small: "\<forall>l \<in> set locs. l < u32_max" "\<forall>l \<in> set ?mem1. l < u32_max" using assms(2) S(4,5) by auto
  have e: "entry (st_memory_pts st) c [] = ?mem" by (simp add: mem_of_def)
  have grew: "length ?mem1 > length ?mem \<longleftrightarrow> \<not> set locs \<subseteq> set ?mem" by (rule fold_index_insert_grew [OF S(3)])
  have mem: "mem_of (st\<lparr>st_memory_pts := (st_memory_pts st)(c \<mapsto> ?mem1), st_loc_bits := lb, st_memory_bits := b\<rparr>) = (mem_of st)(c := ?mem1)" for lb b
    by (intro ext) (simp add: mem_of_def)
  show ?thesis
  proof (cases "st_memory_bits st c")
    case (Some m)
    then have m: "mirror_in (st_loc_bits st) m" "bits_of (st_loc_bits st) m = set ?mem" using S(1) by (auto simp: bits_ok_def)
    obtain lb m' where w: "foldM write_bit (?mem, st_loc_bits st, m) locs = Some (?mem1, lb, m')" "lb_extends (st_loc_bits st) lb" "mirror_in lb m'" "bits_of lb m' = set ?mem1"
      using write_bits [OF S(2) m small(1)] by blast
    let ?s = "st\<lparr>st_memory_pts := (st_memory_pts st)(c \<mapsto> ?mem1), st_loc_bits := lb, st_memory_bits := (st_memory_bits st)(c \<mapsto> m')\<rparr>"
    have "solver_ok pag ?s" using w by (intro solver_ok_written [OF assms(1) _ mem assms(2)]) (auto simp: unwritten_def mem_of_def)
    moreover have "write_memory c locs st = Some (?s, \<not> set locs \<subseteq> set ?mem)" using Some w(1) grew by (simp add: write_memory_def e Let_def)
    ultimately show ?thesis using mem by (auto simp: unwritten_def)
  next
    case None
    let ?s0 = "st\<lparr>st_memory_pts := (st_memory_pts st)(c \<mapsto> ?mem1)\<rparr>"
    have m0: "mem_of ?s0 = (mem_of st)(c := ?mem1)" by (intro ext) (simp add: mem_of_def)
    show ?thesis
    proof (cases "length ?mem1 \<ge> MIRROR_MIN")
      case True
      obtain lb m where L: "LocBits_mirror (st_loc_bits st) ?mem1 = Some (lb, m)" "lb_extends (st_loc_bits st) lb" "mirror_in lb m" "bits_of lb m = set ?mem1"
        using LocBits_mirror_result [OF S(2) small(2)] by blast
      let ?s = "st\<lparr>st_memory_pts := (st_memory_pts st)(c \<mapsto> ?mem1), st_loc_bits := lb, st_memory_bits := (st_memory_bits st)(c \<mapsto> m)\<rparr>"
      have "solver_ok pag ?s" using L by (intro solver_ok_written [OF assms(1) _ mem assms(2)]) (auto simp: unwritten_def mem_of_def)
      moreover have "write_memory c locs st = Some (?s, \<not> set locs \<subseteq> set ?mem)" using None True L(1) grew by (simp add: write_memory_def e Let_def)
      ultimately show ?thesis using mem by (auto simp: unwritten_def)
    next
      case False
      have "solver_ok pag ?s0" using None lb_extends_refl [OF S(2)] by (intro solver_ok_written [OF assms(1) _ m0 assms(2)]) (auto simp: unwritten_def)
      moreover have "write_memory c locs st = Some (?s0, \<not> set locs \<subseteq> set ?mem)" using None False grew by (simp add: write_memory_def e Let_def)
      ultimately show ?thesis using m0 by (auto simp: unwritten_def)
    qed
  qed
qed

lemma solver_ok_touch:
  fixes c :: LocId
  assumes "iter_ok iter" "solver_ok pag st"
  defines "st' \<equiv> touch_loc_holders iter c (pag_indices pag) st"
  shows "solver_ok pag st'" "core st' = core st" "holders_of st' = holders_of st"
    "set (st_worklist st') = set (st_worklist st) \<union> {n \<in> holders_of st c. is_load_src (pag_indices pag) n}"
    "\<And>n. set (delta_of st' n) = set (delta_of st n) \<union> (if n \<in> holders_of st c \<and> is_load_src (pag_indices pag) n then {c} else {})"
proof -
  have S: "queue_ok st" "index_ok (pag_indices pag) st" "bits_ok st" "range_ok pag st" "merged_ok pag st" using assms(2) by (auto simp: solver_ok_def)
  note T = touch_ok [OF assms(1) S(1,2), of c, folded st'_def]
  note E = core_eqD [OF T(3)]
  have eq: "pts_of st' = pts_of st" "mem_of st' = mem_of st" "seen_of st' = seen_of st" "adm pag st' = adm pag st"
    using E by (auto intro!: ext simp: pts_of_def mem_of_def seen_of_def adm_def)
  have "bits_ok st'" using S(3) E eq by (simp add: bits_ok_def)
  moreover have "range_ok pag st'" "merged_ok pag st'" using S(4,5) eq by (simp_all add: range_ok_def merged_ok_def)
  ultimately show "solver_ok pag st'" using T(1,2) by (simp add: solver_ok_def)
  show "holders_of st' = holders_of st" using S(2) T(2) eq(1) unfolding index_ok_def by (intro ext set_eqI) metis
qed (use touch_ok [OF assms(1)] assms(2) in \<open>auto simp: solver_ok_def st'_def\<close>)

text \<open>What is new in a points-to set is pending, and a node with new pending locations is queued.\<close>

definition passes :: "SolverState \<Rightarrow> SolverState \<Rightarrow> bool" where
  "passes a b \<longleftrightarrow> aside b = aside a \<and> (\<forall>n. pts_of a n \<subseteq> pts_of b n) \<and> (\<forall>n. set (delta_of a n) \<union> (pts_of b n - pts_of a n) \<subseteq> set (delta_of b n)) \<and>
     (\<forall>n. set (delta_of b n) \<subseteq> set (delta_of a n) \<union> pts_of b n) \<and> set (st_worklist a) \<union> {n. pts_of b n \<noteq> pts_of a n} \<subseteq> set (st_worklist b) \<and>
     (\<forall>n. set (delta_of b n) \<noteq> set (delta_of a n) \<longrightarrow> n \<in> set (st_worklist b))"

lemma passesD:
  assumes "passes a b"
  shows "aside b = aside a" "pts_of a n \<subseteq> pts_of b n" "set (delta_of a n) \<union> (pts_of b n - pts_of a n) \<subseteq> set (delta_of b n)"
    "set (delta_of b n) \<subseteq> set (delta_of a n) \<union> pts_of b n" "set (st_worklist a) \<union> {n. pts_of b n \<noteq> pts_of a n} \<subseteq> set (st_worklist b)"
    "set (delta_of b n) \<noteq> set (delta_of a n) \<Longrightarrow> n \<in> set (st_worklist b)"
  using assms by (simp_all add: passes_def)

lemma passes_refl: "passes a a"
  by (simp add: passes_def)

lemma passes_trans:
  assumes "passes a b" "passes b c"
  shows "passes a c"
  unfolding passes_def
proof (intro conjI allI impI)
  show "aside c = aside a" using passesD(1) [OF assms(1)] passesD(1) [OF assms(2)] by simp
  fix n
  note A = passesD(2,3,4,6) [OF assms(1), of n] and B = passesD(2,3,4,6) [OF assms(2), of n]
  show "pts_of a n \<subseteq> pts_of c n" "set (delta_of a n) \<union> (pts_of c n - pts_of a n) \<subseteq> set (delta_of c n)"
    "set (delta_of c n) \<subseteq> set (delta_of a n) \<union> pts_of c n" using A(1-3) B(1-3) by blast+
  show "n \<in> set (st_worklist c)" if "set (delta_of c n) \<noteq> set (delta_of a n)" using that A(4) B(4) passesD(5) [OF assms(2)] by blast
qed (use passesD(5) [OF assms(1)] passesD(5) [OF assms(2)] in blast)

lemma passes_grown:
  assumes "aside b = aside a" "\<And>n. pts_of a n \<subseteq> pts_of b n" "\<And>n. set (delta_of b n) = set (delta_of a n) \<union> (pts_of b n - pts_of a n)"
    "set (st_worklist b) = set (st_worklist a) \<union> {n. pts_of b n \<noteq> pts_of a n}"
  shows "passes a b"
  unfolding passes_def using assms by auto

lemma passes_touch:
  assumes "iter_ok iter" "solver_ok pag st"
  shows "passes st (touch_loc_holders iter c (pag_indices pag) st)"
proof -
  let ?s = "touch_loc_holders iter c (pag_indices pag) st"
  note T = solver_ok_touch [OF assms, of c]
  note E = core_eqD [OF T(2)]
  have eq: "pts_of ?s = pts_of st" by (intro ext) (simp add: pts_of_def E)
  have "aside ?s = aside st" by (simp add: aside_def E)
  moreover have "c \<in> pts_of st n" if "n \<in> holders_of st c" for n using that assms(2) by (simp add: solver_ok_def index_ok_def)
  ultimately show ?thesis unfolding passes_def eq T(4,5) by auto
qed

lemma write_to_cell_result:
  assumes "iter_ok iter" "solver_ok pag st" "\<forall>l \<in> set locs. l < length (pag_locations pag)"
  shows "\<exists>s st'. write_to_cell iter pag c locs st = Some st' \<and> solver_ok pag st' \<and> unwritten s = unwritten st \<and> pts_of st' = pts_of st \<and>
    mem_of s = (mem_of st)(c := dedup_onto (mem_of st c) (filter (adm pag st c) locs)) \<and> passes s st' \<and>
    (\<forall>n. set (delta_of st' n) = set (delta_of st n) \<union>
       (if mem_of st' c \<noteq> mem_of st c \<and> c \<in> pts_of st n \<and> is_load_src (pag_indices pag) n then {c} else {})) \<and>
    set (st_worklist st') = set (st_worklist st) \<union> {n. mem_of st' c \<noteq> mem_of st c \<and> c \<in> pts_of st n \<and> is_load_src (pag_indices pag) n}"
proof -
  let ?w = "filter (adm pag st c) locs"
  have "filterM (admits (FnFilter_of (st_slot_guard st c)) (st_fn_arity st) pag) locs = Some ?w"
    using assms(3) admits_total [of _ pag "FnFilter_of (st_slot_guard st c)" "st_fn_arity st"] by (intro filterM_total) (auto simp: adm_def)
  moreover have "\<forall>l \<in> set ?w. l < length (pag_locations pag)" using assms(3) by simp
  from write_memory_result [OF assms(2) this, of c] obtain s where s: "write_memory c ?w st = Some (s, \<not> set ?w \<subseteq> set (mem_of st c))" "solver_ok pag s"
    "mem_of s = (mem_of st)(c := fold index_insert ?w (mem_of st c))" "unwritten s = unwritten st" by blast
  ultimately have w: "write_to_cell iter pag c locs st = Some (if set ?w \<subseteq> set (mem_of st c) then s else touch_loc_holders iter c (pag_indices pag) s)"
    by (simp add: write_to_cell_def)
  note U = unwritten_eqD [OF s(4)] and T = solver_ok_touch [OF assms(1) s(2), of c]
  have eq: "pts_of s = pts_of st" "delta_of s = delta_of st" "holders_of s = holders_of st" using U by (auto intro!: ext simp: pts_of_def delta_of_def holders_of_def)
  have h: "n \<in> holders_of st c \<longleftrightarrow> c \<in> pts_of st n" for n using assms(2) by (simp add: solver_ok_def index_ok_def)
  have "distinct (mem_of st c)" using assms(2) by (simp add: solver_ok_def range_ok_def)
  then have grew: "fold index_insert ?w (mem_of st c) \<noteq> mem_of st c \<longleftrightarrow> \<not> set ?w \<subseteq> set (mem_of st c)"
    using fold_index_insert_grew [of "mem_of st c" ?w] dedup_onto_subset [of ?w "mem_of st c"] fold_index_insert_eq [of ?w "mem_of st c"] by fastforce
  show ?thesis
  proof (cases "set ?w \<subseteq> set (mem_of st c)")
    case True
    then show ?thesis using w s eq U grew by (intro exI [of _ s]) (auto simp: fold_index_insert_eq passes_refl)
  next
    case False
    let ?t = "touch_loc_holders iter c (pag_indices pag) s"
    note E = core_eqD [OF T(2)]
    have te: "pts_of ?t = pts_of st" "mem_of ?t = mem_of s" using E U(1) by (auto intro!: ext simp: pts_of_def mem_of_def)
    have c: "mem_of ?t c \<noteq> mem_of st c" using te(2) s(3) grew False by simp
    have "set (delta_of ?t n) = set (delta_of st n) \<union> (if mem_of ?t c \<noteq> mem_of st c \<and> c \<in> pts_of st n \<and> is_load_src (pag_indices pag) n then {c} else {})" for n
      using T(5) [of n] eq(2,3) h c by simp
    moreover have "set (st_worklist ?t) = set (st_worklist st) \<union> {n. mem_of ?t c \<noteq> mem_of st c \<and> c \<in> pts_of st n \<and> is_load_src (pag_indices pag) n}"
      using T(4) eq(3) h c U(12) by simp
    ultimately show ?thesis using w False T(1) te s(3,4) passes_touch [OF assms(1) s(2)] by (intro exI [of _ s] exI [of _ ?t]) (simp add: fold_index_insert_eq)
  qed
qed

text \<open>C36: writing locations into a cell appends, in order, exactly those the cell's declared type admits and it lacks, through the mirror of
  a large cell as through the set itself. If the cell grew, every node that holds it and loads through it has the cell in its delta and is queued;
  if not, nothing is requeued. The invariant is kept.\<close>

theorem write_to_cell_correct:
  assumes "iter_ok iter" "solver_ok pag st" "\<forall>l \<in> set locs. l < length (pag_locations pag)"
  shows "\<exists>st'. write_to_cell iter pag c locs st = Some st' \<and> solver_ok pag st' \<and> pts_of st' = pts_of st \<and>
    mem_of st' = (mem_of st)(c := dedup_onto (mem_of st c) (filter (adm pag st c) locs)) \<and>
    (\<forall>n. set (delta_of st' n) = set (delta_of st n) \<union>
       (if mem_of st' c \<noteq> mem_of st c \<and> c \<in> pts_of st n \<and> is_load_src (pag_indices pag) n then {c} else {})) \<and>
    set (st_worklist st') = set (st_worklist st) \<union> {n. mem_of st' c \<noteq> mem_of st c \<and> c \<in> pts_of st n \<and> is_load_src (pag_indices pag) n}"
proof -
  obtain s st' where w: "write_to_cell iter pag c locs st = Some st'" "solver_ok pag st'" "pts_of st' = pts_of st"
    "mem_of s = (mem_of st)(c := dedup_onto (mem_of st c) (filter (adm pag st c) locs))" "passes s st'"
    "\<forall>n. set (delta_of st' n) = set (delta_of st n) \<union> (if mem_of st' c \<noteq> mem_of st c \<and> c \<in> pts_of st n \<and> is_load_src (pag_indices pag) n then {c} else {})"
    "set (st_worklist st') = set (st_worklist st) \<union> {n. mem_of st' c \<noteq> mem_of st c \<and> c \<in> pts_of st n \<and> is_load_src (pag_indices pag) n}"
    using write_to_cell_result [OF assms, of c] by blast
  moreover have "mem_of st' = mem_of s" by (rule aside_mem [OF passesD(1) [OF w(5)]])
  ultimately show ?thesis by auto
qed

section \<open>A start\<close>

lemma solver_ok_start:
  assumes "length (pag_locations pag) \<le> u32_max"
    and "\<And>n l. l \<in> entry p n {} \<longleftrightarrow> n \<in> lh_nodes (entry h l LocationHolders_default)" and "\<And>l x. h l = Some x \<Longrightarrow> holders_ok (pag_indices pag) x"
    and "\<And>n. entry p n {} \<subseteq> {..<length (pag_locations pag)}" and "\<And>c. distinct (entry m c []) \<and> set (entry m c []) \<subseteq> {..<length (pag_locations pag)}"
  shows "solver_ok pag (SolverState_default\<lparr>st_pts := p, st_loc_nodes := h, st_memory_pts := m\<rparr>)"
proof -
  let ?s = "SolverState_default\<lparr>st_pts := p, st_loc_nodes := h, st_memory_pts := m\<rparr>"
  have "queue_ok ?s" by (simp add: queue_ok_def SolverState_default_def delta_of_def entry_def)
  moreover have "index_ok (pag_indices pag) ?s" using assms(2,3) by (simp add: index_ok_def pts_of_def holders_of_def SolverState_default_def)
  moreover have "bits_ok ?s" by (simp add: bits_ok_def SolverState_default_def lb_ok_def LocBits_default_def u32_max_def)
  moreover have "range_ok pag ?s" using assms(1,4,5) by (simp add: range_ok_def pts_of_def mem_of_def SolverState_default_def)
  moreover have "merged_ok pag ?s" by (simp add: merged_ok_def seen_of_def SolverState_default_def entry_def)
  ultimately show ?thesis by (simp add: solver_ok_def)
qed

text \<open>\<open>*p = v\<close> and \<open>x = *p\<close>, where \<open>p\<close> holds the cell 1 and \<open>v\<close> the cell 2.\<close>

definition example_loc :: "nat \<Rightarrow> AbstractLocation" where
  "example_loc i = \<lparr>al_id = i, al_kind = Local, al_var = Some i, al_fn_id = None, al_field = None, al_type_id = 0, al_desc = []\<rparr>"

definition example_pag :: Pag where
  "example_pag = \<lparr>pag_nodes = map NodeVar [0, 1, 2],
     pag_constraints = [\<lparr>c_kind = Store, c_dst = 0, c_src = 1, c_field_info = None\<rparr>, \<lparr>c_kind = Load, c_dst = 2, c_src = 0, c_field_info = None\<rparr>],
     pag_locations = map example_loc [0, 1, 2], pag_var_node = Map.empty, pag_fn_locations = [], pag_var_location = Map.empty, pag_field_loc_to_summary = Map.empty, pag_null_temps = {},
     pag_indices = SolverIndices_default\<lparr>si_load_src := [0 \<mapsto> [1]], si_load_src_bits := [1], si_store_dst := [0 \<mapsto> [0]], si_store_src := [1 \<mapsto> [0]]\<rparr>\<rparr>"

definition example_state :: SolverState where
  "example_state = SolverState_default\<lparr>st_pts := [0 \<mapsto> {1}, 1 \<mapsto> {2}],
     st_loc_nodes := [1 \<mapsto> holders_insert 0 LocationHolders_default, 2 \<mapsto> holders_insert 1 LocationHolders_default], st_memory_pts := [1 \<mapsto> [0]]\<rparr>"

lemma example_ok: "solver_ok example_pag example_state"
  unfolding example_state_def
proof (rule solver_ok_start)
  show "holders_ok (pag_indices example_pag) x"
    if "[1 \<mapsto> holders_insert 0 LocationHolders_default, 2 \<mapsto> holders_insert 1 LocationHolders_default] l = Some x" for l x
    using that holders_insert_ok [OF holders_default_ok, of "pag_indices example_pag"] by (auto split: if_splits)
qed (auto simp: entry_def holders_insert_def LocationHolders_default_def example_pag_def u32_max_def)

lemma example_views: "pts_of example_state = (\<lambda>_. {})(0 := {1}, 1 := {2})" "mem_of example_state = (\<lambda>_. [])(1 := [0])" "delta_of example_state = (\<lambda>_. [])"
    "is_load_src (pag_indices example_pag) n \<longleftrightarrow> n = 0"
proof -
  have "word AND bit64 (n mod 64) \<noteq> 0 \<longleftrightarrow> n mod 64 = 0" if "word = 1" for word :: "64 word"
    using that and_bit64 [of "n mod 64" word] by (simp add: bit_1_iff)
  then show "is_load_src (pag_indices example_pag) n \<longleftrightarrow> n = 0"
    by (auto simp: is_load_src_def load_bit_test_def example_pag_def vget_def)
qed (auto simp: fun_eq_iff pts_of_def mem_of_def delta_of_def entry_def example_state_def SolverState_default_def)

lemma example_plain: "c < 3 \<Longrightarrow> fn_for_loc example_pag c = Some None \<and> loc_kind example_pag c = Some Local"
  by (auto simp: fn_for_loc_def loc_kind_def vget_def example_pag_def example_loc_def less_Suc_eq numeral_3_eq_3)

lemma example_adm: "adm example_pag example_state c l"
  by (simp add: adm_def admits_def example_state_def SolverState_default_def)

lemma iter_sorted: "iter_ok sorted_list_of_set"
  by (simp add: iter_ok_def)

theorem load_into_correct_witness:
  "\<exists>st' merges. load_into sorted_list_of_set example_pag 2 [1] example_state = Some (st', merges) \<and> pts_of st' 2 = {0} \<and> merges = 1 \<and> 0 \<in> set (delta_of st' 2)"
proof -
  have r: "\<forall>l \<in> set [1]. l < length (pag_locations example_pag)" by (simp add: example_pag_def)
  have c: "contribution example_pag example_state (Suc 0) = {0}" using example_plain [of 1] by (simp add: contribution_def example_views example_adm)
  from load_into_correct [OF iter_sorted example_ok r, of 2] show ?thesis using example_plain [of 1] by (auto simp: c example_views)
qed

theorem write_to_cell_correct_witness:
  "\<exists>st'. write_to_cell sorted_list_of_set example_pag 1 [0, 2] example_state = Some st' \<and> mem_of st' 1 = [0, 2] \<and> 0 \<in> set (st_worklist st')"
proof -
  have r: "\<forall>l \<in> set [0, 2]. l < length (pag_locations example_pag)" by (simp add: example_pag_def)
  from write_to_cell_correct [OF iter_sorted example_ok r, of 1] obtain st' where
    "write_to_cell sorted_list_of_set example_pag 1 [0, 2] example_state = Some st'"
    "mem_of st' = (mem_of example_state)(1 := dedup_onto (mem_of example_state 1) (filter (adm example_pag example_state 1) [0, 2]))"
    "set (st_worklist st') = set (st_worklist example_state) \<union>
       {n. mem_of st' 1 \<noteq> mem_of example_state 1 \<and> 1 \<in> pts_of example_state n \<and> is_load_src (pag_indices example_pag) n}" by blast
  then show ?thesis by (auto simp: example_views example_adm)
qed

end
