(* ===== verification/Points_To_Stores.thy ===== *)
theory Points_To_Stores
  imports Points_To_Props
begin

text \<open>
  A store of the points-to solver: the loop over the cells it writes, with the views of the source set that the guards of the cells select,
  and the wake-up of every node that loads a cell which changed.
\<close>

section \<open>Stores\<close>

definition views_ok :: "(LocId \<rightharpoonup> nat) \<Rightarrow> Pag \<Rightarrow> LocId list \<Rightarrow> StoreViews \<Rightarrow> bool" where
  "views_ok ar pag src sv \<longleftrightarrow> sv_live sv \<le> length (sv_views sv) \<and>
     (\<forall>i < sv_live sv. snd (sv_views sv ! i) = filter (\<lambda>l. admits (fst (sv_views sv ! i)) ar pag l = Some True) src)"

text \<open>A cached view is the source set as its filter sees it.\<close>

lemma view_ok:
  assumes "views_ok ar pag src sv" "\<forall>l \<in> set src. l < length (pag_locations pag)"
  shows "\<exists>sv'. view f src pag ar sv = Some (filter (\<lambda>l. admits f ar pag l = Some True) src, sv') \<and> views_ok ar pag src sv'"
proof (cases "f = AnyFn")
  case True
  then have "admits f ar pag l = Some True" for l by (simp add: admits_def)
  then show ?thesis using True assms(1) by (simp add: view_def)
next
  case False
  let ?V = "sv_views sv" and ?n = "sv_live sv"
  have n: "?n \<le> length ?V" using assms(1) by (simp add: views_ok_def)
  have adm: "filterM (admits f ar pag) src = Some (filter (\<lambda>l. admits f ar pag l = Some True) src)"
    using assms(2) admits_total by (intro filterM_total) blast
  show ?thesis
  proof (cases "position (\<lambda>(k, _). k = f) (take ?n ?V)")
    case (Some i)
    then have i: "i < ?n" "i < length ?V" "fst (?V ! i) = f" using n by (auto simp: position_Some split_beta)
    then have "?V ! i = (f, filter (\<lambda>l. admits f ar pag l = Some True) src)" using assms(1) by (auto simp: views_ok_def prod_eq_iff)
    then show ?thesis using False Some n i(2) assms(1) by (simp add: view_def vget_in)
  next
    case None
    let ?W = "if ?n = length ?V then ?V @ [(f, [])] else ?V"
    let ?v = "filter (\<lambda>l. admits f ar pag l = Some True) src"
    have l: "?n < length ?W" "\<And>i. i < ?n \<Longrightarrow> ?W ! i = ?V ! i" using n by (auto simp: nth_append)
    have "view f src pag ar sv = Some (?v, sv\<lparr>sv_views := ?W[?n := (f, ?v)], sv_live := ?n + 1\<rparr>)"
      using False None n l(1) adm by (simp add: view_def Let_def vset_in)
    moreover have "views_ok ar pag src (sv\<lparr>sv_views := ?W[?n := (f, ?v)], sv_live := ?n + 1\<rparr>)"
      using assms(1) l by (auto simp: views_ok_def less_Suc_eq)
    ultimately show ?thesis by blast
  qed
qed

text \<open>The cells a store may change, by its targets: those that are no function and no string literal, and the summaries of their fields.\<close>

definition written_cells :: "Pag \<Rightarrow> LocId set \<Rightarrow> LocId set" where
  "written_cells pag targets =
     (let cells = {d \<in> targets. fn_for_loc pag d = Some None \<and> loc_kind pag d \<noteq> Some StringLit}
      in cells \<union> {s. \<exists>d \<in> cells. pag_field_loc_to_summary pag d = Some s})"

text \<open>
  How far a store's loop has come: memory has grown by source locations that the cells admit, only in the cells \<open>T\<close>, and every change is
  recorded.
\<close>

definition storing :: "Pag \<Rightarrow> LocId set \<Rightarrow> LocId list \<Rightarrow> LocId list \<Rightarrow> SolverState \<Rightarrow> LocId list \<Rightarrow> store_state \<Rightarrow> bool" where
  "storing pag T src self st0 ts s \<longleftrightarrow> (case s of (st, sv, written, requeues) \<Rightarrow>
     solver_ok pag st \<and> unwritten st = unwritten st0 \<and> views_ok (st_fn_arity st0) pag src sv \<and>
     (\<forall>c. \<exists>zs. mem_of st c = mem_of st0 c @ zs) \<and> (\<forall>c. mem_of st c \<noteq> mem_of st0 c \<longleftrightarrow> c \<in> set requeues) \<and>
     (\<forall>c. mem_of st c \<noteq> mem_of st0 c \<longrightarrow> c \<in> T) \<and>
     (\<forall>c. \<forall>l \<in> set (mem_of st c) - set (mem_of st0 c). l \<in> set self \<or> l \<in> set src \<and>
        (adm pag st0 c l \<or> c \<in> ran (pag_field_loc_to_summary pag) \<and> st_slot_guard st0 c \<noteq> Some NotFnPtr)) \<and>
     (\<forall>c \<in> set ts. fn_for_loc pag c = Some None \<longrightarrow> loc_kind pag c \<noteq> Some StringLit \<longrightarrow> {l \<in> set src. adm pag st0 c l} \<union> set self \<subseteq> set (mem_of st c)))"

lemma written_cells_range: "d \<in> written_cells pag A \<Longrightarrow> d < length (pag_locations pag) \<or> d \<in> ran (pag_field_loc_to_summary pag)"
  by (auto simp: written_cells_def Let_def fn_for_loc_def vget_def ran_def bind_eq_Some_conv split: if_splits)

lemma adm_nonfn: "fn_for_loc pag l = Some None \<Longrightarrow> adm pag st c l"
  by (simp add: adm_def admits_def)

text \<open>One cell written by a store.\<close>

lemma storing_write:
  assumes "storing pag T src self st0 ts (st, sv, written, rq)" "\<forall>l \<in> set locs. l < length (pag_locations pag)"
    "\<And>l. l \<in> set locs \<Longrightarrow> l \<in> set self \<or> l \<in> set src \<and> (adm pag st0 c l \<or> c \<in> ran (pag_field_loc_to_summary pag) \<and> st_slot_guard st0 c \<noteq> Some NotFnPtr)"
    "views_ok (st_fn_arity st0) pag src sv'" "c \<in> T"
  shows "\<exists>st' g. write_memory c locs st = Some (st', g) \<and> storing pag T src self st0 ts (st', sv', written', rq @ (if g then [c] else [])) \<and> set locs \<subseteq> set (mem_of st' c)"
proof -
  have S: "solver_ok pag st" "unwritten st = unwritten st0" "\<forall>c. \<exists>zs. mem_of st c = mem_of st0 c @ zs" "\<forall>c. mem_of st c \<noteq> mem_of st0 c \<longleftrightarrow> c \<in> set rq"
    using assms(1) by (auto simp: storing_def)
  obtain st' where w: "write_memory c locs st = Some (st', \<not> set locs \<subseteq> set (mem_of st c))" "solver_ok pag st'"
    "mem_of st' = (mem_of st)(c := fold index_insert locs (mem_of st c))" "unwritten st' = unwritten st" using write_memory_result [OF S(1) assms(2)] by blast
  obtain ys where y: "fold index_insert locs (mem_of st c) = mem_of st c @ ys" using fold_index_insert_prefix by blast
  have "distinct (mem_of st c)" using S(1) by (simp add: solver_ok_def range_ok_def)
  then have g: "ys \<noteq> [] \<longleftrightarrow> \<not> set locs \<subseteq> set (mem_of st c)" using fold_index_insert_grew [of "mem_of st c" locs] y by auto
  obtain zs where z: "mem_of st c = mem_of st0 c @ zs" using S(3) by blast
  have ch: "\<forall>d. mem_of st' d \<noteq> mem_of st0 d \<longleftrightarrow> d \<in> set (rq @ (if \<not> set locs \<subseteq> set (mem_of st c) then [c] else []))"
    (is "\<forall>d. ?P d")
  proof (intro allI)
    fix d
    show "?P d"
    proof (cases "d = c")
      case True
      have m: "mem_of st' c = mem_of st c @ ys" using w(3) y by simp
      show ?thesis
      proof (cases "ys = []")
        case ys: True
        then have "\<not> \<not> set locs \<subseteq> set (mem_of st c)" using g by blast
        then show ?thesis using True m S(4) ys by simp
      next
        case ys: False
        then have "\<not> set locs \<subseteq> set (mem_of st c)" using g by blast
        then have "d \<in> set (rq @ (if \<not> set locs \<subseteq> set (mem_of st c) then [c] else []))" using True by simp
        then show ?thesis using True m z ys by simp
      qed
    next
      case False
      then show ?thesis using w(3) S(4) by simp
    qed
  qed
  have "\<exists>zs. mem_of st' d = mem_of st0 d @ zs" for d
  proof -
    obtain zs ys where "mem_of st d = mem_of st0 d @ zs" "fold index_insert locs (mem_of st c) = mem_of st c @ ys"
      using S(3) fold_index_insert_prefix by blast
    then show ?thesis using w(3) by auto
  qed
  then have "storing pag T src self st0 ts (st', sv', written', rq @ (if \<not> set locs \<subseteq> set (mem_of st c) then [c] else []))"
    unfolding storing_def prod.case using w(2,4) S(2) assms(3,4,5) ch assms(1) [unfolded storing_def prod.case] w(3) by auto
  then show ?thesis using w(1,3) by auto
qed

lemma storing_entry:
  assumes "storing pag T src self st0 ts (st, sv, written, rq)"
  shows "storing pag T src self st0 ts (st\<lparr>st_memory_pts := (st_memory_pts st)(c \<mapsto> entry (st_memory_pts st) c [])\<rparr>, sv, written, rq)"
proof -
  let ?s = "st\<lparr>st_memory_pts := (st_memory_pts st)(c \<mapsto> entry (st_memory_pts st) c [])\<rparr>"
  have m: "mem_of ?s = mem_of st" by (intro ext) (simp add: mem_of_def)
  have u: "unwritten ?s = unwritten st" by (simp add: unwritten_def)
  have ok: "solver_ok pag st" using assms by (simp add: storing_def)
  have "lb_extends (st_loc_bits st) (st_loc_bits ?s)" using ok lb_extends_refl by (auto simp: solver_ok_def bits_ok_def)
  then have "solver_ok pag ?s" using m ok
    by (intro solver_ok_written [OF ok u, where c = c and locs = "[]"]) (auto simp: solver_ok_def bits_ok_def)
  then show ?thesis using assms m u by (simp add: storing_def)
qed

lemma storing_done:
  assumes "storing pag T src self st0 ts (st, sv, written, rq)"
    "fn_for_loc pag c = Some None \<Longrightarrow> loc_kind pag c \<noteq> Some StringLit \<Longrightarrow> {l \<in> set src. adm pag st0 c l} \<union> set self \<subseteq> set (mem_of st c)"
  shows "storing pag T src self st0 (ts @ [c]) (st, sv, written, rq)"
  using assms by (auto simp: storing_def)

definition has_fns :: "Pag \<Rightarrow> LocId list \<Rightarrow> bool" where
  "has_fns pag src \<longleftrightarrow> (\<exists>l \<in> set src. fn_for_loc pag l \<noteq> Some None)"

lemma target_view:
  assumes "\<forall>l \<in> set src. l < length (pag_locations pag)"
  shows "{l \<in> set src. admits (if has_fns pag src then FnFilter_of (st_slot_guard st c) else AnyFn) (st_fn_arity st) pag l = Some True} = {l \<in> set src. adm pag st c l}"
proof (cases "has_fns pag src")
  case True
  then show ?thesis by (simp add: adm_def)
next
  case False
  then have "adm pag st c l" "admits AnyFn (st_fn_arity st) pag l = Some True" if "l \<in> set src" for l
    using that adm_nonfn by (auto simp: has_fns_def admits_def)
  then show ?thesis using False by auto
qed

lemma summary_view:
  assumes "l \<in> set src" "admits (summary_filter (has_fns pag src) (st_slot_guard st c)) (st_fn_arity st) pag l = Some True"
  shows "adm pag st c l \<or> st_slot_guard st c \<noteq> Some NotFnPtr"
proof (cases "st_slot_guard st c = Some NotFnPtr")
  case True
  show ?thesis
  proof (cases "has_fns pag src")
    case True': True
    then show ?thesis using assms(2) True by (simp add: summary_filter_def adm_def)
  next
    case False
    then show ?thesis using assms(1) adm_nonfn by (auto simp: has_fns_def)
  qed
qed simp

lemma storing_summary:
  assumes "storing pag T src (opt_list self_loc) st0 ts (st, sv, written, rq)" "\<forall>l \<in> set src \<union> set (opt_list self_loc). l < length (pag_locations pag)"
    "c \<in> ran (pag_field_loc_to_summary pag)" "c \<in> T"
  shows "\<exists>st' sv' written' g. store_summary pag src (has_fns pag src) self_loc c (st, sv, written) = Some (st', sv', written', g) \<and>
    storing pag T src (opt_list self_loc) st0 ts (st', sv', written', rq @ (if g then [c] else []))"
proof -
  let ?s = "st\<lparr>st_memory_pts := (st_memory_pts st)(c \<mapsto> entry (st_memory_pts st) c [])\<rparr>"
  let ?f = "summary_filter (has_fns pag src) (st_slot_guard st0 c)"
  let ?v = "filter (\<lambda>l. admits ?f (st_fn_arity st0) pag l = Some True) src"
  note E = storing_entry [OF assms(1), of c]
  have U: "st_slot_guard ?s = st_slot_guard st0" "st_fn_arity ?s = st_fn_arity st0"
    using assms(1) unwritten_eqD(4,5) [of st st0] by (auto simp: storing_def)
  have sv: "views_ok (st_fn_arity st0) pag src sv" using assms(1) by (simp add: storing_def)
  show ?thesis
  proof (cases "length (entry (st_memory_pts st) c []) < SUMMARY_MEM_CAP \<and> c \<notin> written")
    case False
    then have "store_summary pag src (has_fns pag src) self_loc c (st, sv, written) = Some (?s, sv, written, False)"
      by (auto simp: store_summary_def Let_def)
    then show ?thesis using E by (intro exI [of _ ?s] exI [of _ sv] exI [of _ written] exI [of _ False]) simp
  next
    case True
    have "\<forall>l \<in> set src. l < length (pag_locations pag)" using assms(2) by blast
    from view_ok [OF sv this, of ?f] obtain sv' where v: "view ?f src pag (st_fn_arity st0) sv = Some (?v, sv')" "views_ok (st_fn_arity st0) pag src sv'" by blast
    have r: "\<forall>l \<in> set (?v @ opt_list self_loc). l < length (pag_locations pag)" using assms(2) by auto
    have "l \<in> set (opt_list self_loc) \<or> l \<in> set src \<and> (adm pag st0 c l \<or> c \<in> ran (pag_field_loc_to_summary pag) \<and> st_slot_guard st0 c \<noteq> Some NotFnPtr)"
      if "l \<in> set (?v @ opt_list self_loc)" for l
      using that summary_view [of l src pag st0 c] assms(3) by auto
    from storing_write [OF E r this v(2) assms(4)] obtain st' g where w: "write_memory c (?v @ opt_list self_loc) ?s = Some (st', g)"
      "storing pag T src (opt_list self_loc) st0 ts (st', sv', insert c written, rq @ (if g then [c] else []))" by blast
    have "store_summary pag src (has_fns pag src) self_loc c (st, sv, written) = Some (st', sv', insert c written, g)"
      using True v(1) w(1) U by (simp add: store_summary_def Let_def)
    then show ?thesis using w(2) by blast
  qed
qed

lemma storing_target:
  assumes "storing pag T src (opt_list self_loc) st0 ts s" "\<forall>l \<in> set src \<union> set (opt_list self_loc). l < length (pag_locations pag)" "c < length (pag_locations pag)" "written_cells pag {c} \<subseteq> T"
  shows "\<exists>s'. store_target pag src (has_fns pag src) self_loc s c = Some s' \<and> storing pag T src (opt_list self_loc) st0 (ts @ [c]) s'"
proof -
  obtain st sv written rq where s: "s = (st, sv, written, rq)" by (cases s)
  obtain f where f: "fn_for_loc pag c = Some f" using fn_for_loc_total [OF assms(3)] by blast
  obtain kd where kd: "loc_kind pag c = Some kd" using assms(3) by (simp add: loc_kind_def vget_in)
  have rs: "\<forall>l \<in> set src. l < length (pag_locations pag)" using assms(2) by blast
  show ?thesis
  proof (cases "f \<noteq> None \<or> kd = StringLit")
    case True
    then have "store_target pag src (has_fns pag src) self_loc s c = Some s" using f kd s by (simp add: store_target_def)
    moreover have "storing pag T src (opt_list self_loc) st0 (ts @ [c]) s"
      unfolding s using f kd True by (intro storing_done [OF assms(1) [unfolded s], of c]) auto
    ultimately show ?thesis by blast
  next
    case False
    have cT: "c \<in> T" "pag_field_loc_to_summary pag c = Some sm \<Longrightarrow> sm \<in> T" for sm
      using assms(4) f kd False by (auto simp: written_cells_def)
    define ff where "ff = (if has_fns pag src then FnFilter_of (st_slot_guard st0 c) else AnyFn)"
    let ?v = "filter (\<lambda>l. admits ff (st_fn_arity st0) pag l = Some True) src"
    have U: "st_slot_guard st = st_slot_guard st0" "st_fn_arity st = st_fn_arity st0" and sv: "views_ok (st_fn_arity st0) pag src sv"
      using assms(1) unwritten_eqD(4,5) [of st st0] s by (auto simp: storing_def)
    obtain sv1 where v: "view ff src pag (st_fn_arity st0) sv = Some (?v, sv1)" "views_ok (st_fn_arity st0) pag src sv1" using view_ok [OF sv rs] by blast
    have ff: "(if has_fns pag src then FnFilter_of (st_slot_guard st c) else AnyFn) = ff" using U by (simp add: ff_def)
    have vs: "set ?v = {l \<in> set src. adm pag st0 c l}" using target_view [OF rs, of st0 c] by (simp add: ff_def)
    have r: "\<forall>l \<in> set (?v @ opt_list self_loc). l < length (pag_locations pag)" using assms(2) by auto
    have "l \<in> set (opt_list self_loc) \<or> l \<in> set src \<and> (adm pag st0 c l \<or> c \<in> ran (pag_field_loc_to_summary pag) \<and> st_slot_guard st0 c \<noteq> Some NotFnPtr)"
      if "l \<in> set (?v @ opt_list self_loc)" for l using that vs by (auto simp del: set_filter)
    from storing_write [OF assms(1) [unfolded s] r this v(2) cT(1)] obtain st1 g where w: "write_memory c (?v @ opt_list self_loc) st = Some (st1, g)"
      "storing pag T src (opt_list self_loc) st0 ts (st1, sv1, written, rq @ (if g then [c] else []))" "set (?v @ opt_list self_loc) \<subseteq> set (mem_of st1 c)" by blast
    have J: "storing pag T src (opt_list self_loc) st0 (ts @ [c]) (st1, sv1, written, rq @ (if g then [c] else []))"
      using storing_done [OF w(2)] w(3) vs by (auto simp del: set_filter)
    show ?thesis
    proof (cases "summary_for_field_loc pag c")
      case None
      then have "store_target pag src (has_fns pag src) self_loc s c = Some (st1, sv1, written, rq @ (if g then [c] else []))"
        using f kd False s v(1) w(1) U by (simp add: store_target_def Let_def ff)
      then show ?thesis using J by blast
    next
      case (Some sm)
      then have "sm \<in> ran (pag_field_loc_to_summary pag)" "sm \<in> T" using cT(2) by (auto simp: summary_for_field_loc_def ran_def)
      from storing_summary [OF J assms(2) this] obtain st2 sv2 written2 g2 where
        m: "store_summary pag src (has_fns pag src) self_loc sm (st1, sv1, written) = Some (st2, sv2, written2, g2)"
        "storing pag T src (opt_list self_loc) st0 (ts @ [c]) (st2, sv2, written2, (rq @ (if g then [c] else [])) @ (if g2 then [sm] else []))" by blast
      have "store_target pag src (has_fns pag src) self_loc s c = Some (st2, sv2, written2, (rq @ (if g then [c] else [])) @ (if g2 then [sm] else []))"
        using f kd False s v(1) w(1) U Some m(1) by (simp add: store_target_def Let_def ff)
      then show ?thesis using m(2) by blast
    qed
  qed
qed

section \<open>Waking the loads\<close>

lemma grow_passes:
  assumes "iter_ok iter" "solver_ok pag st"
  shows "\<exists>st'. merge_memory_into_if_grown iter pag dst c st = Some st' \<and> solver_ok pag st' \<and> passes st st' \<and>
    pts_of st' = (pts_of st)(dst := pts_of st dst \<union> {l \<in> set (mem_of st c). adm pag st c l}) \<and>
    set (st_worklist st') = set (st_worklist st) \<union> {n. pts_of st' n \<noteq> pts_of st n}"
proof -
  obtain st' where s: "merge_memory_into_if_grown iter pag dst c st = Some st'" "solver_ok pag st'" "aside st' = aside st"
    "pts_of st' = (pts_of st)(dst := pts_of st dst \<union> {l \<in> set (mem_of st c). adm pag st c l})"
    "\<And>n. set (delta_of st' n) = set (delta_of st n) \<union> (pts_of st' n - pts_of st n)"
    "set (st_worklist st') = set (st_worklist st) \<union> {n. pts_of st' n \<noteq> pts_of st n}" using grow_one [OF assms, of dst c] by blast
  have "passes st st'" using s(4) by (intro passes_grown s) auto
  then show ?thesis using s by blast
qed

text \<open>How far the requeueing has come from the state \<open>st0\<close> that the writes left: the cells \<open>rq\<close> are done.\<close>

definition waking :: "Pag \<Rightarrow> SolverState \<Rightarrow> LocId set \<Rightarrow> SolverState \<Rightarrow> bool" where
  "waking pag st0 rq st \<longleftrightarrow> solver_ok pag st \<and> passes st0 st \<and>
     (\<forall>n. pts_of st n = pts_of st0 n \<union> {l. \<exists>c \<in> rq. st_cell_owner st0 c = Some n \<and> l \<in> set (mem_of st0 c) \<and> adm pag st0 c l}) \<and>
     (\<forall>c \<in> rq. \<forall>n. c \<in> pts_of st0 n \<longrightarrow> is_load_src (pag_indices pag) n \<longrightarrow> c \<in> set (delta_of st n) \<and> n \<in> set (st_worklist st))"

lemma wakingD:
  assumes "waking pag st0 rq st"
  shows "solver_ok pag st" "passes st0 st"
    "\<forall>n. pts_of st n = pts_of st0 n \<union> {l. \<exists>c \<in> rq. st_cell_owner st0 c = Some n \<and> l \<in> set (mem_of st0 c) \<and> adm pag st0 c l}"
    "\<forall>c \<in> rq. \<forall>n. c \<in> pts_of st0 n \<longrightarrow> is_load_src (pag_indices pag) n \<longrightarrow> c \<in> set (delta_of st n) \<and> n \<in> set (st_worklist st)"
  using assms unfolding waking_def by blast+

lemma waking_start: "solver_ok pag st \<Longrightarrow> waking pag st {} st"
  by (simp add: waking_def passes_refl)

lemma waking_touch:
  fixes c :: LocId
  assumes "iter_ok iter" "waking pag st0 rq st"
  defines "s \<equiv> touch_loc_holders iter c (pag_indices pag) st"
  shows "waking pag st0 rq s" "\<And>n. c \<in> pts_of st0 n \<Longrightarrow> is_load_src (pag_indices pag) n \<Longrightarrow> c \<in> set (delta_of s n) \<and> n \<in> set (st_worklist s)"
proof -
  note W = wakingD [OF assms(2)]
  note T = solver_ok_touch [OF assms(1) W(1), of c, folded s_def]
  have eq: "pts_of s = pts_of st" by (intro ext) (simp add: pts_of_def core_eqD [OF T(2)])
  have p: "passes st s" unfolding s_def by (rule passes_touch [OF assms(1) W(1)])
  then have "\<forall>d \<in> rq. \<forall>n. d \<in> pts_of st0 n \<longrightarrow> is_load_src (pag_indices pag) n \<longrightarrow> d \<in> set (delta_of s n) \<and> n \<in> set (st_worklist s)"
    using W(4) passesD(3,5) [OF p] by blast
  then show "waking pag st0 rq s" unfolding waking_def eq using T(1) W(3) passes_trans [OF W(2) p] by blast
  fix n assume n: "c \<in> pts_of st0 n" "is_load_src (pag_indices pag) n"
  then have "n \<in> holders_of st c" using passesD(2) [OF W(2), of n] W(1) by (auto simp: solver_ok_def index_ok_def)
  then show "c \<in> set (delta_of s n) \<and> n \<in> set (st_worklist s)" using n T(4,5) by auto
qed

lemma waking_sync:
  assumes "iter_ok iter" "waking pag st0 rq st"
    "\<And>n. c \<in> pts_of st0 n \<Longrightarrow> is_load_src (pag_indices pag) n \<Longrightarrow> c \<in> set (delta_of st n) \<and> n \<in> set (st_worklist st)"
  shows "\<exists>st'. sync_cell_to_var iter pag c st = Some st' \<and> waking pag st0 (insert c rq) st'"
proof -
  note W = wakingD [OF assms(2)]
  note as = passesD(1) [OF W(2)]
  have eq: "mem_of st = mem_of st0" "adm pag st = adm pag st0" "st_cell_owner st = st_cell_owner st0"
    using aside_mem [OF as] aside_adm [OF as] as by (auto simp: aside_def)
  show ?thesis
  proof (cases "st_cell_owner st0 c")
    case None
    then have e: "{l. \<exists>d \<in> insert c rq. st_cell_owner st0 d = Some n \<and> l \<in> set (mem_of st0 d) \<and> adm pag st0 d l} =
        {l. \<exists>d \<in> rq. st_cell_owner st0 d = Some n \<and> l \<in> set (mem_of st0 d) \<and> adm pag st0 d l}" for n by auto
    have "waking pag st0 (insert c rq) st" unfolding waking_def e using W assms(3) by blast
    then show ?thesis using None eq(3) by (simp add: sync_cell_to_var_def)
  next
    case (Some m)
    obtain st' where g: "merge_memory_into_if_grown iter pag m c st = Some st'" "solver_ok pag st'"
      "pts_of st' = (pts_of st)(m := pts_of st m \<union> {l \<in> set (mem_of st0 c). adm pag st0 c l})" "passes st st'" using grow_passes [OF assms(1) W(1), of m c] eq by auto
    have "pts_of st' n = pts_of st0 n \<union> {l. \<exists>c \<in> insert c rq. st_cell_owner st0 c = Some n \<and> l \<in> set (mem_of st0 c) \<and> adm pag st0 c l}" for n
      using W(3) g(3) Some by auto
    moreover have "\<forall>d \<in> insert c rq. \<forall>n. d \<in> pts_of st0 n \<longrightarrow> is_load_src (pag_indices pag) n \<longrightarrow> d \<in> set (delta_of st' n) \<and> n \<in> set (st_worklist st')"
      using W(4) assms(3) passesD(3,5) [OF g(4)] by blast
    ultimately have "waking pag st0 (insert c rq) st'" unfolding waking_def using g(2) passes_trans [OF W(2) g(4)] by blast
    then show ?thesis using g(1) Some eq(3) by (simp add: sync_cell_to_var_def)
  qed
qed

lemma requeue_result:
  assumes "iter_ok iter" "solver_ok pag st"
  shows "\<exists>st' rq. foldM (requeue_one iter pag) (st, {}) cs = Some (st', rq) \<and> waking pag st (set cs) st'"
proof -
  have "\<exists>t. foldM (requeue_one iter pag) (st, {}) cs = Some t \<and> (snd t = set cs \<and> waking pag st (snd t) (fst t))"
  proof (rule foldM_prefix_rule)
    show "snd (st, {}) = set [] \<and> waking pag st (snd (st, {})) (fst (st, {}))" using waking_start [OF assms(2)] by simp
  next
    fix cs' c s assume I: "snd s = set cs' \<and> waking pag st (snd s) (fst s)"
    note T = waking_touch [OF assms(1) conjunct2 [OF I], of c]
    obtain st' where "sync_cell_to_var iter pag c (touch_loc_holders iter c (pag_indices pag) (fst s)) = Some st'" "waking pag st (insert c (snd s)) st'"
      using waking_sync [OF assms(1) T] by blast
    then show "\<exists>t. requeue_one iter pag s c = Some t \<and> (snd t = set (cs' @ [c]) \<and> waking pag st (snd t) (fst t))"
      using I by (cases s) (auto simp: requeue_one_def insert_absorb)
  qed
  then show ?thesis by auto
qed

section \<open>A store\<close>

text \<open>The locations a store reads and the cells it writes, by its arguments.\<close>

definition store_reads :: "SolverState \<Rightarrow> Constraint \<Rightarrow> StoreSource \<Rightarrow> LocId set" where
  "store_reads st c written = (case written of Whole \<Rightarrow> pts_of st (c_src c) | New locs \<Rightarrow> set locs)"

definition store_writes :: "SolverState \<Rightarrow> Constraint \<Rightarrow> LocId list option \<Rightarrow> LocId set" where
  "store_writes st c targets = (case targets of None \<Rightarrow> pts_of st (c_dst c) | Some ts \<Rightarrow> set ts)"

lemma store_loop:
  assumes "solver_ok pag st" "\<forall>l \<in> set src \<union> set (opt_list self_loc) \<union> set ts. l < length (pag_locations pag)"
  shows "\<exists>s. foldM (store_target pag src (has_fns pag src) self_loc) (st, StoreViews_reset sv, {}, []) ts = Some s \<and>
    storing pag (written_cells pag (set ts)) src (opt_list self_loc) st ts s"
proof (rule foldM_prefix_rule [where I = "storing pag (written_cells pag (set ts)) src (opt_list self_loc) st"])
  show "storing pag (written_cells pag (set ts)) src (opt_list self_loc) st [] (st, StoreViews_reset sv, {}, [])" using assms(1) by (simp add: storing_def StoreViews_reset_def views_ok_def)
next
  fix ds c s assume s: "storing pag (written_cells pag (set ts)) src (opt_list self_loc) st ds s" and c: "c \<in> set ts"
  have "written_cells pag {c} \<subseteq> written_cells pag (set ts)" using c by (auto simp: written_cells_def Let_def)
  then show "\<exists>t. store_target pag src (has_fns pag src) self_loc s c = Some t \<and> storing pag (written_cells pag (set ts)) src (opt_list self_loc) st (ds @ [c]) t"
    using storing_target [OF s] assms(2) c by blast
qed

lemma has_fns_any:
  assumes "\<forall>l \<in> set src. l < length (pag_locations pag)"
  shows "anyM (\<lambda>l. map_option (\<lambda>f. f \<noteq> None) (fn_for_loc pag l)) src = Some (has_fns pag src)"
  using assms
proof (induction src)
  case (Cons l src)
  obtain f where "fn_for_loc pag l = Some f" using fn_for_loc_total Cons.prems by (metis list.set_intros(1))
  then show ?case using Cons by (cases f) (auto simp: has_fns_def)
qed (simp add: has_fns_def)

lemma pts_in_range: "solver_ok pag st \<Longrightarrow> l \<in> pts_of st n \<Longrightarrow> l < length (pag_locations pag)"
  by (auto simp: solver_ok_def range_ok_def)

lemma iter_pts:
  assumes "iter_ok iter" "solver_ok pag st"
  shows "set (case st_pts st n of None \<Rightarrow> [] | Some s \<Rightarrow> iter s) = pts_of st n"
proof -
  have "finite (pts_of st n)" using assms(2) finite_subset [of "pts_of st n" "{..<length (pag_locations pag)}"] by (auto simp: solver_ok_def range_ok_def)
  then show ?thesis using assms(1) by (auto simp: iter_ok_def pts_of_def entry_def split: option.splits)
qed

text \<open>What a store leaves, from the two loops' invariants.\<close>

lemma store_effect:
  assumes "storing pag T src self st0 ts (s, sv, wr, rq)" "waking pag s (set rq) st'" "rq = [] \<Longrightarrow> st' = s"
  shows "solver_ok pag st' \<and> (\<forall>d. \<exists>zs. mem_of st' d = mem_of st0 d @ zs) \<and>
    (\<forall>d \<in> set ts. fn_for_loc pag d = Some None \<longrightarrow> loc_kind pag d \<noteq> Some StringLit \<longrightarrow> {l \<in> set src. adm pag st0 d l} \<union> set self \<subseteq> set (mem_of st' d)) \<and>
    (\<forall>d. \<forall>l \<in> set (mem_of st' d) - set (mem_of st0 d). l \<in> set self \<or> l \<in> set src \<and>
       (adm pag st0 d l \<or> d \<in> ran (pag_field_loc_to_summary pag) \<and> st_slot_guard st0 d \<noteq> Some NotFnPtr)) \<and>
    (\<forall>n. pts_of st' n = pts_of st0 n \<union> {l. \<exists>d. mem_of st' d \<noteq> mem_of st0 d \<and> st_cell_owner st0 d = Some n \<and> l \<in> set (mem_of st' d) \<and> adm pag st0 d l}) \<and>
    (\<forall>n. set (delta_of st0 n) \<union> (pts_of st' n - pts_of st0 n) \<subseteq> set (delta_of st' n)) \<and>
    set (st_worklist st0) \<union> {n. pts_of st' n \<noteq> pts_of st0 n} \<subseteq> set (st_worklist st') \<and>
    (\<forall>d n. mem_of st' d \<noteq> mem_of st0 d \<longrightarrow> d \<in> pts_of st0 n \<longrightarrow> is_load_src (pag_indices pag) n \<longrightarrow> d \<in> set (delta_of st' n) \<and> n \<in> set (st_worklist st')) \<and>
    (\<forall>d. mem_of st' d \<noteq> mem_of st0 d \<longrightarrow> d \<in> T) \<and>
    (\<exists>s. unwritten s = unwritten st0 \<and> passes s st' \<and> (mem_of s = mem_of st0 \<longrightarrow> st' = s))"
proof -
  have U: "unwritten s = unwritten st0" and rq: "\<And>d. mem_of s d \<noteq> mem_of st0 d \<longleftrightarrow> d \<in> set rq" using assms(1) by (auto simp: storing_def)
  have eq: "pts_of s = pts_of st0" "delta_of s = delta_of st0" "st_worklist s = st_worklist st0" "st_cell_owner s = st_cell_owner st0" "adm pag s = adm pag st0"
    by (simp_all add: fun_eq_iff pts_of_def delta_of_def adm_def unwritten_eqD [OF U])
  note W = wakingD [OF assms(2)]
  note P = passesD [OF W(2), unfolded eq] and W' = W(3,4) [unfolded eq]
  have m: "mem_of st' = mem_of s" by (rule aside_mem [OF P(1)])
  have p: "\<forall>n. pts_of st' n = pts_of st0 n \<union> {l. \<exists>d. mem_of st' d \<noteq> mem_of st0 d \<and> st_cell_owner st0 d = Some n \<and> l \<in> set (mem_of st' d) \<and> adm pag st0 d l}"
    using W'(1) unfolding m rq Bex_def .
  have "\<forall>d n. mem_of st' d \<noteq> mem_of st0 d \<longrightarrow> d \<in> pts_of st0 n \<longrightarrow> is_load_src (pag_indices pag) n \<longrightarrow> d \<in> set (delta_of st' n) \<and> n \<in> set (st_worklist st')"
    using W'(2) unfolding m rq by blast
  moreover have "(\<forall>d. \<exists>zs. mem_of st' d = mem_of st0 d @ zs)"
    "(\<forall>d. \<forall>l \<in> set (mem_of st' d) - set (mem_of st0 d). l \<in> set self \<or> l \<in> set src \<and>
       (adm pag st0 d l \<or> d \<in> ran (pag_field_loc_to_summary pag) \<and> st_slot_guard st0 d \<noteq> Some NotFnPtr))"
    "(\<forall>d \<in> set ts. fn_for_loc pag d = Some None \<longrightarrow> loc_kind pag d \<noteq> Some StringLit \<longrightarrow> {l \<in> set src. adm pag st0 d l} \<union> set self \<subseteq> set (mem_of st' d))"
    "(\<forall>d. mem_of st' d \<noteq> mem_of st0 d \<longrightarrow> d \<in> T)"
    using assms(1) unfolding storing_def prod.case m by blast+
  moreover have "\<exists>s. unwritten s = unwritten st0 \<and> passes s st' \<and> (mem_of s = mem_of st0 \<longrightarrow> st' = s)"
    using U W(2) assms(3) rq by (intro exI [of _ s]) (metis list.set_intros(1) neq_Nil_conv)
  ultimately show ?thesis using p W(1) P(3,5) by blast
qed

lemma apply_store_result:
  assumes "iter_ok iter" "solver_ok pag st" "vget (pag_constraints pag) idx = Some c" "vget (pag_nodes pag) (c_src c) = Some kind"
    and "\<forall>ts l. targets = Some ts \<longrightarrow> l \<in> set ts \<longrightarrow> l < length (pag_locations pag)" and "store_reads st c written \<subseteq> pts_of st (c_src c)"
    and "\<forall>l \<in> ran (pag_var_location pag). l < length (pag_locations pag)"
  shows "\<exists>st'. apply_store_to_targets iter is_ptr pag idx targets written sv st = Some st' \<and> solver_ok pag st' \<and>
    (\<forall>d. \<exists>zs. mem_of st' d = mem_of st d @ zs) \<and>
    (\<forall>d \<in> store_writes st c targets. fn_for_loc pag d = Some None \<longrightarrow> loc_kind pag d \<noteq> Some StringLit \<longrightarrow>
       {l \<in> store_reads st c written. adm pag st d l} \<union> set (opt_list (store_self_loc is_ptr pag kind)) \<subseteq> set (mem_of st' d)) \<and>
    (\<forall>d. \<forall>l \<in> set (mem_of st' d) - set (mem_of st d). l \<in> set (opt_list (store_self_loc is_ptr pag kind)) \<or> l \<in> store_reads st c written \<and>
       (adm pag st d l \<or> d \<in> ran (pag_field_loc_to_summary pag) \<and> st_slot_guard st d \<noteq> Some NotFnPtr)) \<and>
    (\<forall>n. pts_of st' n = pts_of st n \<union> {l. \<exists>d. mem_of st' d \<noteq> mem_of st d \<and> st_cell_owner st d = Some n \<and> l \<in> set (mem_of st' d) \<and> adm pag st d l}) \<and>
    (\<forall>n. set (delta_of st n) \<union> (pts_of st' n - pts_of st n) \<subseteq> set (delta_of st' n)) \<and>
    set (st_worklist st) \<union> {n. pts_of st' n \<noteq> pts_of st n} \<subseteq> set (st_worklist st') \<and>
    (\<forall>d n. mem_of st' d \<noteq> mem_of st d \<longrightarrow> d \<in> pts_of st n \<longrightarrow> is_load_src (pag_indices pag) n \<longrightarrow> d \<in> set (delta_of st' n) \<and> n \<in> set (st_worklist st')) \<and>
    (\<forall>d. mem_of st' d \<noteq> mem_of st d \<longrightarrow> d \<in> written_cells pag (store_writes st c targets)) \<and>
    (\<exists>s. unwritten s = unwritten st \<and> passes s st' \<and> (mem_of s = mem_of st \<longrightarrow> st' = s))"
proof -
  let ?self = "store_self_loc is_ptr pag kind"
  define ts where "ts = (case targets of Some ts \<Rightarrow> ts | None \<Rightarrow> (case st_pts st (c_dst c) of None \<Rightarrow> [] | Some s \<Rightarrow> iter s))"
  define src where "src = (case written of Whole \<Rightarrow> (case st_pts st (c_src c) of None \<Rightarrow> [] | Some s \<Rightarrow> iter s) | New locs \<Rightarrow> locs)"
  define none where "none \<longleftrightarrow> (case st_pts st (c_src c) of None \<Rightarrow> True | Some s \<Rightarrow> s = {}) \<and> ?self = None \<or> ts = []"
  have sets: "store_writes st c targets = set ts" "store_reads st c written = set src"
    using iter_pts [OF assms(1,2), of "c_dst c"] iter_pts [OF assms(1,2), of "c_src c"]
    by (cases targets, simp_all add: store_writes_def ts_def) (cases written, simp_all add: store_reads_def src_def)
  have "set (opt_list ?self) \<subseteq> ran (pag_var_location pag)" by (auto simp: store_self_loc_def opt_list_def ran_def split: PagNodeKind.splits option.splits)
  moreover have "\<forall>l \<in> set ts. l < length (pag_locations pag)" using assms(5) sets(1) pts_in_range [OF assms(2)] by (auto simp: store_writes_def split: option.splits)
  ultimately have r: "\<forall>l \<in> set src \<union> set (opt_list ?self) \<union> set ts. l < length (pag_locations pag)"
    using assms(6,7) sets(2) pts_in_range [OF assms(2)] by blast
  have run: "apply_store_to_targets iter is_ptr pag idx targets written sv st =
      (if none then Some st
       else do {
         (st1, _, _, rq) \<leftarrow> foldM (store_target pag src (has_fns pag src) ?self) (st, StoreViews_reset sv, {}, []) ts;
         (st2, _) \<leftarrow> foldM (requeue_one iter pag) (st1, {}) rq;
         Some st2
       })"
    using r has_fns_any [of src pag] unfolding apply_store_to_targets_def assms(3,4) Option.bind_lunit Let_def ts_def [symmetric] src_def [symmetric] none_def by simp
  show ?thesis
  proof (cases none)
    case True
    have "ts = [] \<or> src = [] \<and> ?self = None"
    proof (cases "ts = []")
      case False
      then have "pts_of st (c_src c) = {}" "?self = None" using True by (auto simp: none_def pts_of_def entry_def split: option.splits)
      then show ?thesis using assms(6) sets(2) by simp
    qed simp
    then show ?thesis using True run assms(2) sets by (intro exI [of _ st]) (auto simp: opt_list_def intro!: exI [of _ st] passes_refl)
  next
    case False
    obtain s sv1 wr rq where l: "foldM (store_target pag src (has_fns pag src) ?self) (st, StoreViews_reset sv, {}, []) ts = Some (s, sv1, wr, rq)"
      "storing pag (written_cells pag (set ts)) src (opt_list ?self) st ts (s, sv1, wr, rq)" using store_loop [OF assms(2) r, of sv] by (metis prod_cases4)
    then have "solver_ok pag s" by (simp add: storing_def)
    from requeue_result [OF assms(1) this] obtain st' rq' where q: "foldM (requeue_one iter pag) (s, {}) rq = Some (st', rq')" "waking pag s (set rq) st'" by blast
    have A: "apply_store_to_targets iter is_ptr pag idx targets written sv st = Some st'" using run False l(1) q(1) by simp
    have "st' = s" if "rq = []" using q(1) that by simp
    note E = store_effect [OF l(2) q(2) this]
    show ?thesis unfolding sets by (rule exI [of _ st'], rule conjI [OF A E])
  qed
qed

text \<open>C37: a store \<open>*p = v\<close> writes into every target cell, other than functions and string literals, all the source locations that the
  cell's declared type admits, and the source's own storage when its name denotes it; memory grows only at the end, and only by such locations (a
  field summary that may hold functions takes any), and no cell changes but these targets and the summaries of their fields. Every node that holds a changed cell and loads through it has the cell in its delta and is
  queued, and the variable synced with a changed cell holds its admitted memory; no other points-to set changes, and each that does is queued with what is new
  in its delta. The invariant is kept and nothing panics, whatever views an earlier store cached.\<close>

theorem apply_store_correct:
  assumes "iter_ok iter" "solver_ok pag st" "vget (pag_constraints pag) idx = Some c" "vget (pag_nodes pag) (c_src c) = Some kind"
    and "\<forall>ts l. targets = Some ts \<longrightarrow> l \<in> set ts \<longrightarrow> l < length (pag_locations pag)" and "store_reads st c written \<subseteq> pts_of st (c_src c)"
    and "\<forall>l \<in> ran (pag_var_location pag). l < length (pag_locations pag)"
  shows "\<exists>st'. apply_store_to_targets iter is_ptr pag idx targets written sv st = Some st' \<and> solver_ok pag st' \<and>
    (\<forall>d. \<exists>zs. mem_of st' d = mem_of st d @ zs) \<and>
    (\<forall>d \<in> store_writes st c targets. fn_for_loc pag d = Some None \<longrightarrow> loc_kind pag d \<noteq> Some StringLit \<longrightarrow>
       {l \<in> store_reads st c written. adm pag st d l} \<union> set (opt_list (store_self_loc is_ptr pag kind)) \<subseteq> set (mem_of st' d)) \<and>
    (\<forall>d. \<forall>l \<in> set (mem_of st' d) - set (mem_of st d). l \<in> set (opt_list (store_self_loc is_ptr pag kind)) \<or> l \<in> store_reads st c written \<and>
       (adm pag st d l \<or> d \<in> ran (pag_field_loc_to_summary pag) \<and> st_slot_guard st d \<noteq> Some NotFnPtr)) \<and>
    (\<forall>n. pts_of st' n = pts_of st n \<union> {l. \<exists>d. mem_of st' d \<noteq> mem_of st d \<and> st_cell_owner st d = Some n \<and> l \<in> set (mem_of st' d) \<and> adm pag st d l}) \<and>
    (\<forall>n. set (delta_of st n) \<union> (pts_of st' n - pts_of st n) \<subseteq> set (delta_of st' n)) \<and>
    set (st_worklist st) \<union> {n. pts_of st' n \<noteq> pts_of st n} \<subseteq> set (st_worklist st') \<and>
    (\<forall>d n. mem_of st' d \<noteq> mem_of st d \<longrightarrow> d \<in> pts_of st n \<longrightarrow> is_load_src (pag_indices pag) n \<longrightarrow> d \<in> set (delta_of st' n) \<and> n \<in> set (st_worklist st')) \<and>
    (\<forall>d. mem_of st' d \<noteq> mem_of st d \<longrightarrow> d \<in> written_cells pag (store_writes st c targets))"
  using apply_store_result [OF assms, of is_ptr sv] by (elim exE conjE) (intro exI conjI, assumption+)

theorem apply_store_correct_witness:
  "\<exists>st'. apply_store_to_targets sorted_list_of_set (\<lambda>_. True) example_pag 0 None Whole \<lparr>sv_views = [], sv_live = 0\<rparr> example_state = Some st' \<and>
    2 \<in> set (mem_of st' 1) \<and> 0 \<in> set (st_worklist st')"
proof -
  let ?c = "\<lparr>c_kind = Store, c_dst = 0, c_src = 1, c_field_info = None\<rparr>"
  have a: "vget (pag_constraints example_pag) 0 = Some ?c" "vget (pag_nodes example_pag) (c_src ?c) = Some (NodeVar 1)"
    "\<forall>ts l. None = Some ts \<longrightarrow> l \<in> set ts \<longrightarrow> l < length (pag_locations example_pag)" "store_reads example_state ?c Whole \<subseteq> pts_of example_state (c_src ?c)"
    "\<forall>l \<in> ran (pag_var_location example_pag). l < length (pag_locations example_pag)" by (auto simp: example_pag_def vget_def store_reads_def)
  have w: "store_writes example_state ?c None = {1}" "store_reads example_state ?c Whole = {2}" by (simp_all add: store_writes_def store_reads_def example_views)
  obtain st' where s: "apply_store_to_targets sorted_list_of_set (\<lambda>_. True) example_pag 0 None Whole \<lparr>sv_views = [], sv_live = 0\<rparr> example_state = Some st'"
    "\<forall>d \<in> store_writes example_state ?c None. fn_for_loc example_pag d = Some None \<longrightarrow> loc_kind example_pag d \<noteq> Some StringLit \<longrightarrow>
      {l \<in> store_reads example_state ?c Whole. adm example_pag example_state d l} \<union> set (opt_list (store_self_loc (\<lambda>_. True) example_pag (NodeVar 1))) \<subseteq> set (mem_of st' d)"
    "\<forall>d n. mem_of st' d \<noteq> mem_of example_state d \<longrightarrow> d \<in> pts_of example_state n \<longrightarrow> is_load_src (pag_indices example_pag) n \<longrightarrow>
      d \<in> set (delta_of st' n) \<and> n \<in> set (st_worklist st')"
    using apply_store_correct [OF iter_sorted example_ok a, where is_ptr = "\<lambda>_. True" and sv = "\<lparr>sv_views = [], sv_live = 0\<rparr>"] by blast
  have "2 \<in> set (mem_of st' 1)" using s(2) [unfolded w] example_plain [of 1] by (simp add: example_adm)
  moreover from this have "mem_of st' 1 \<noteq> mem_of example_state 1" by (auto simp: example_views)
  ultimately show ?thesis using s(1,3) by (auto simp: example_views)
qed

end
