(* ===== verification/Solver_Loop.thy ===== *)
theory Solver_Loop
  imports Points_To_Stores
begin

text \<open>
  The worklist loop of the points-to solver (\<^verbatim>\<open>solve\<close> in \<^verbatim>\<open>trace-analysis/src/solver.rs\<close>) and the index of its constraints
  (\<^verbatim>\<open>pag.rs\<close>). One pop takes the node's delta and lets it flow along the copies, address constants, loads, stores and the variable's cell.
  A node that a field access, a smart-pointer unwrap, a \<open>dlsym\<close>, an indirect call or a watched callback depends on leaves the
  model: those steps create locations and constraints from the lowered program, and the result then says \<open>Outside\<close>.
\<close>

section \<open>The index of constraints\<close>

definition index_push :: "('k \<rightharpoonup> 'a list) \<Rightarrow> 'k \<Rightarrow> 'a \<Rightarrow> 'k \<rightharpoonup> 'a list" where
  "index_push m k i = m(k \<mapsto> entry m k [] @ [i])"

definition index_constraint :: "nat \<Rightarrow> Constraint \<Rightarrow> SolverIndices \<times> PagNodeId list \<Rightarrow> (SolverIndices \<times> PagNodeId list) option" where
  "index_constraint i c s =
     (let (ix, srcs) = s
      in case c_kind c of
           Copy \<Rightarrow> Some (ix\<lparr>si_copy_src := index_push (si_copy_src ix) (c_src c) i\<rparr>, srcs @ [c_src c])
         | AddrOf \<Rightarrow> Some (ix\<lparr>si_addr_of_dst := index_push (si_addr_of_dst ix) (c_dst c) i\<rparr>, srcs @ [c_src c])
         | Load \<Rightarrow> map_option (\<lambda>ix1. (ix1, srcs @ [c_src c])) (add_load (c_src c) i ix)
         | Store \<Rightarrow> Some (ix\<lparr>si_store_dst := index_push (si_store_dst ix) (c_dst c) i, si_store_src := index_push (si_store_src ix) (c_src c) i\<rparr>,
                      srcs @ [c_src c, c_dst c])
         | Gep \<Rightarrow> Some (ix\<lparr>si_gep_src := index_push (si_gep_src ix) (c_src c) i\<rparr>, srcs @ [c_src c])
         | Dlsym \<Rightarrow> Some (ix\<lparr>si_dlsym_src := index_push (si_dlsym_src ix) (c_src c) i\<rparr>, srcs @ [c_src c])
         | UnwrapPointer \<Rightarrow> None)"

definition index_new_constraints :: "nat \<Rightarrow> Pag \<Rightarrow> (Pag \<times> PagNodeId list) option" where
  "index_new_constraints from pag =
     do {
       (ix, srcs) \<leftarrow> foldM (\<lambda>s i. do { c \<leftarrow> vget (pag_constraints pag) i; index_constraint i c s }) (pag_indices pag, []) [from..<length (pag_constraints pag)];
       Some (pag\<lparr>pag_indices := ix\<rparr>, srcs)
     }"

definition ensure_param_copy :: "PagNodeId \<Rightarrow> PagNodeId \<Rightarrow> Pag \<times> SolverState \<Rightarrow> Pag \<times> SolverState" where
  "ensure_param_copy actual_node formal_node ps =
     (let (pag, st) = ps;
          constraint_idx = length (pag_constraints pag);
          pag1 = pag\<lparr>pag_constraints := pag_constraints pag @ [\<lparr>c_kind = Copy, c_dst = formal_node, c_src = actual_node, c_field_info = None\<rparr>],
            pag_indices := (pag_indices pag)\<lparr>si_copy_src := index_push (si_copy_src (pag_indices pag)) actual_node constraint_idx\<rparr>\<rparr>
      in (pag1, if (case st_pts st actual_node of None \<Rightarrow> False | Some p \<Rightarrow> p \<noteq> {}) then push actual_node st else st))"

definition wire_epoll_copy :: "(nat set \<Rightarrow> nat list) \<Rightarrow> PagNodeId \<Rightarrow> PagNodeId \<Rightarrow> Pag \<times> SolverState \<Rightarrow> (Pag \<times> SolverState) option" where
  "wire_epoll_copy iter src dst ps =
     (let (pag, st) = ensure_param_copy src dst ps
      in case st_pts st src of
           None \<Rightarrow> Some (pag, st)
         | Some pts \<Rightarrow> map_option (\<lambda>st1. (pag, st1)) (propagate_locs iter dst (iter pts) st))"

section \<open>One pop\<close>

definition take_delta :: "PagNodeId \<Rightarrow> SolverState \<Rightarrow> LocId list \<times> SolverState" where
  "take_delta node st =
     (let delta = entry (st_delta st) node []
      in (delta, st\<lparr>st_delta := (case st_delta st node of None \<Rightarrow> st_delta st | Some _ \<Rightarrow> (st_delta st)(node \<mapsto> [])),
           st_delta_pending := st_delta_pending st - Pair node ` set delta\<rparr>))"

definition apply_addr_ofs :: "(nat set \<Rightarrow> nat list) \<Rightarrow> Pag \<Rightarrow> PagNodeId \<Rightarrow> SolverState \<Rightarrow> SolverState option" where
  "apply_addr_ofs iter pag node st =
     foldM (\<lambda>st idx. do {
         c \<leftarrow> vget (pag_constraints pag) idx;
         kind \<leftarrow> vget (pag_nodes pag) (c_src c);
         (case kind of NodeLoc loc \<Rightarrow> add_pts iter node loc st | _ \<Rightarrow> Some st)
       }) st (entry (si_addr_of_dst (pag_indices pag)) node [])"

definition flow_copies :: "(nat set \<Rightarrow> nat list) \<Rightarrow> Pag \<Rightarrow> PagNodeId \<Rightarrow> LocId list \<Rightarrow> SolverState \<Rightarrow> SolverState option" where
  "flow_copies iter pag node delta st =
     foldM (\<lambda>st idx. do { c \<leftarrow> vget (pag_constraints pag) idx; propagate_locs iter (c_dst c) delta st }) st (entry (si_copy_src (pag_indices pag)) node [])"

definition flow_loads :: "(nat set \<Rightarrow> nat list) \<Rightarrow> Pag \<Rightarrow> PagNodeId \<Rightarrow> LocId list \<Rightarrow> SolverState \<Rightarrow> SolverState option" where
  "flow_loads iter pag node delta st =
     foldM (\<lambda>st idx. do { c \<leftarrow> vget (pag_constraints pag) idx; map_option fst (load_into iter pag (c_dst c) delta st) }) st
       (entry (si_load_src (pag_indices pag)) node [])"

text \<open>The views cached by an earlier store are reset before they are read; each store here starts from none.\<close>

definition no_views :: StoreViews where
  "no_views = \<lparr>sv_views = [], sv_live = 0\<rparr>"

definition flow_stores :: "(nat set \<Rightarrow> nat list) \<Rightarrow> (VarId \<Rightarrow> bool) \<Rightarrow> Pag \<Rightarrow> LocId list option \<Rightarrow> StoreSource \<Rightarrow> nat list \<Rightarrow> SolverState \<Rightarrow> SolverState option" where
  "flow_stores iter var_is_pointer_like pag targets written idxs st =
     foldM (\<lambda>st idx. apply_store_to_targets iter var_is_pointer_like pag idx targets written no_views st) st idxs"

definition pop_outside :: "Pag \<Rightarrow> PagNodeId set \<Rightarrow> PagNodeId \<Rightarrow> bool" where
  "pop_outside pag invoke_watch node \<longleftrightarrow>
     entry (si_unwrap_src (pag_indices pag)) node [] \<noteq> [] \<or> entry (si_gep_src (pag_indices pag)) node [] \<noteq> [] \<or>
     entry (si_dlsym_src (pag_indices pag)) node [] \<noteq> [] \<or> entry (si_indirect_by_target (pag_indices pag)) node [] \<noteq> [] \<or> node \<in> invoke_watch"

datatype pop_result = Popped SolverState | Outside

definition pop_node :: "(nat set \<Rightarrow> nat list) \<Rightarrow> (VarId \<Rightarrow> bool) \<Rightarrow> Pag \<Rightarrow> PagNodeId set \<Rightarrow> PagNodeId \<Rightarrow> SolverState \<Rightarrow> pop_result option" where
  "pop_node iter var_is_pointer_like pag invoke_watch node st =
     (let (delta, st1) = take_delta node st
      in if delta = [] then
           (if node \<in> st_seen_once st1 then Some (Popped st1)
            else do {
              st2 \<leftarrow> apply_addr_ofs iter pag node (st1\<lparr>st_seen_once := insert node (st_seen_once st1)\<rparr>);
              Some (if entry (si_gep_src (pag_indices pag)) node [] \<noteq> [] then Outside else Popped st2)
            })
         else if pop_outside pag invoke_watch node then Some Outside
         else do {
           st2 \<leftarrow> sync_var_to_cell iter pag node delta st1;
           st3 \<leftarrow> flow_copies iter pag node delta st2;
           st4 \<leftarrow> apply_addr_ofs iter pag node st3;
           st5 \<leftarrow> flow_loads iter pag node delta st4;
           st6 \<leftarrow> flow_stores iter var_is_pointer_like pag (Some delta) Whole (entry (si_store_dst (pag_indices pag)) node []) st5;
           st7 \<leftarrow> flow_stores iter var_is_pointer_like pag None (New (in_set_order iter (st_pts st6 node) delta)) (entry (si_store_src (pag_indices pag)) node []) st6;
           Some (Popped st7)
         })"

section \<open>The loop\<close>

datatype solve_result = Solved SolverState nat bool | Unmodelled

definition over_budget :: "nat option \<Rightarrow> nat \<Rightarrow> bool" where
  "over_budget budget pops = (case budget of None \<Rightarrow> False | Some b \<Rightarrow> pops \<ge> b)"

text \<open>\<open>late\<close> says whether the clock has run out of the time budget when it is looked at after that many pops.\<close>

definition over_time :: "(nat \<Rightarrow> bool) option \<Rightarrow> nat \<Rightarrow> bool" where
  "over_time late pops = (case late of None \<Rightarrow> False | Some l \<Rightarrow> pops > 0 \<and> pops mod 10000 = 0 \<and> l pops)"

partial_function (option) solve_loop :: "(nat set \<Rightarrow> nat list) \<Rightarrow> (VarId \<Rightarrow> bool) \<Rightarrow> Pag \<Rightarrow> PagNodeId set \<Rightarrow> nat option \<Rightarrow> (nat \<Rightarrow> bool) option \<Rightarrow> nat \<Rightarrow>
    SolverState \<Rightarrow> solve_result option" where
  "solve_loop iter var_is_pointer_like pag invoke_watch budget late pops st =
     (if st_worklist st = [] then Some (Solved st pops True)
      else
        (let node = last (st_worklist st);
             st1 = st\<lparr>st_worklist := butlast (st_worklist st), st_queued := st_queued st - {node}\<rparr>
         in if over_budget budget pops \<or> over_time late pops then Some (Solved st1 pops False)
            else Option.bind (pop_node iter var_is_pointer_like pag invoke_watch node st1)
              (\<lambda>r. case r of Outside \<Rightarrow> Some Unmodelled
                | Popped st2 \<Rightarrow> solve_loop iter var_is_pointer_like pag invoke_watch budget late (pops + 1) st2)))"

end
