(* ===== verification/Solver_Fixpoint.thy ===== *)
theory Solver_Fixpoint
  imports Solver_Loop
begin

text \<open>
  The loop reaches a solution: a pop moves obligations from the deltas into the sets without losing any, every pop makes the state
  larger or the worklist shorter, and a state with an empty worklist satisfies every constraint.
\<close>

section \<open>Advancing\<close>

definition fixed :: "SolverState \<Rightarrow> (LocId \<rightharpoonup> SlotGuard) \<times> (LocId \<rightharpoonup> nat) \<times> (PagNodeId \<rightharpoonup> LocId) \<times> (LocId \<rightharpoonup> PagNodeId) \<times> PagNodeId set" where
  "fixed st = (st_slot_guard st, st_fn_arity st, st_synced_cell st, st_cell_owner st, st_seen_once st)"

text \<open>A state that has grown: what is new in a set is pending, what is new in a cell is pending for its loads and known to its variable,
  and without growth nothing is queued.\<close>

definition advances :: "Pag \<Rightarrow> SolverState \<Rightarrow> SolverState \<Rightarrow> bool" where
  "advances pag a b \<longleftrightarrow> fixed b = fixed a \<and>
     (\<forall>n. pts_of a n \<subseteq> pts_of b n \<and> (pts_of b n \<noteq> pts_of a n \<longrightarrow> n < length (pag_nodes pag))) \<and>
     (\<forall>n. set (delta_of a n) \<union> (pts_of b n - pts_of a n) \<subseteq> set (delta_of b n) \<and> set (delta_of b n) \<subseteq> set (delta_of a n) \<union> pts_of b n) \<and>
     set (st_worklist a) \<subseteq> set (st_worklist b) \<and> (\<forall>n. set (delta_of b n) \<noteq> set (delta_of a n) \<longrightarrow> n \<in> set (st_worklist b)) \<and>
     (\<forall>c. set (mem_of a c) \<subseteq> set (mem_of b c) \<and> (set (mem_of b c) \<noteq> set (mem_of a c) \<longrightarrow> c < length (pag_locations pag))) \<and>
     (\<forall>c n. set (mem_of b c) \<noteq> set (mem_of a c) \<longrightarrow> c \<in> pts_of a n \<longrightarrow> is_load_src (pag_indices pag) n \<longrightarrow> c \<in> set (delta_of b n)) \<and>
     (\<forall>c n l. st_cell_owner a c = Some n \<longrightarrow> l \<in> set (mem_of b c) - set (mem_of a c) \<longrightarrow> adm pag a c l \<longrightarrow> l \<in> pts_of b n) \<and>
     ((\<forall>n. pts_of b n = pts_of a n) \<longrightarrow> (\<forall>c. set (mem_of b c) = set (mem_of a c)) \<longrightarrow> set (st_worklist b) = set (st_worklist a))"

lemma advancesD:
  assumes "advances pag a b"
  shows "fixed b = fixed a" "\<And>n. pts_of a n \<subseteq> pts_of b n" "\<And>n. pts_of b n \<noteq> pts_of a n \<Longrightarrow> n < length (pag_nodes pag)"
    "\<And>n. set (delta_of a n) \<union> (pts_of b n - pts_of a n) \<subseteq> set (delta_of b n)" "\<And>n. set (delta_of b n) \<subseteq> set (delta_of a n) \<union> pts_of b n"
    "set (st_worklist a) \<subseteq> set (st_worklist b)" "\<And>n. set (delta_of b n) \<noteq> set (delta_of a n) \<Longrightarrow> n \<in> set (st_worklist b)"
    "\<And>c. set (mem_of a c) \<subseteq> set (mem_of b c)" "\<And>c. set (mem_of b c) \<noteq> set (mem_of a c) \<Longrightarrow> c < length (pag_locations pag)"
    "\<And>c n. set (mem_of b c) \<noteq> set (mem_of a c) \<Longrightarrow> c \<in> pts_of a n \<Longrightarrow> is_load_src (pag_indices pag) n \<Longrightarrow> c \<in> set (delta_of b n)"
    "\<And>c n l. st_cell_owner a c = Some n \<Longrightarrow> l \<in> set (mem_of b c) - set (mem_of a c) \<Longrightarrow> adm pag a c l \<Longrightarrow> l \<in> pts_of b n"
    "(\<forall>n. pts_of b n = pts_of a n) \<Longrightarrow> (\<forall>c. set (mem_of b c) = set (mem_of a c)) \<Longrightarrow> set (st_worklist b) = set (st_worklist a)"
  using assms unfolding advances_def by blast+

lemma advancesI:
  assumes "fixed b = fixed a" "\<And>n. pts_of a n \<subseteq> pts_of b n" "\<And>n. pts_of b n \<noteq> pts_of a n \<Longrightarrow> n < length (pag_nodes pag)"
    "\<And>n. set (delta_of a n) \<union> (pts_of b n - pts_of a n) \<subseteq> set (delta_of b n)" "\<And>n. set (delta_of b n) \<subseteq> set (delta_of a n) \<union> pts_of b n"
    "set (st_worklist a) \<subseteq> set (st_worklist b)" "\<And>n. set (delta_of b n) \<noteq> set (delta_of a n) \<Longrightarrow> n \<in> set (st_worklist b)"
    "\<And>c. set (mem_of a c) \<subseteq> set (mem_of b c)" "\<And>c. set (mem_of b c) \<noteq> set (mem_of a c) \<Longrightarrow> c < length (pag_locations pag)"
    "\<And>c n. set (mem_of b c) \<noteq> set (mem_of a c) \<Longrightarrow> c \<in> pts_of a n \<Longrightarrow> is_load_src (pag_indices pag) n \<Longrightarrow> c \<in> set (delta_of b n)"
    "\<And>c n l. st_cell_owner a c = Some n \<Longrightarrow> l \<in> set (mem_of b c) - set (mem_of a c) \<Longrightarrow> adm pag a c l \<Longrightarrow> l \<in> pts_of b n"
    "(\<forall>n. pts_of b n = pts_of a n) \<Longrightarrow> (\<forall>c. set (mem_of b c) = set (mem_of a c)) \<Longrightarrow> set (st_worklist b) = set (st_worklist a)"
  shows "advances pag a b"
  unfolding advances_def by (intro conjI allI impI) (rule assms; assumption)+

lemma fixed_adm: "fixed b = fixed a \<Longrightarrow> adm pag b = adm pag a"
  by (rule adm_cong) (auto simp: fixed_def)

lemma aside_fixed: "aside b = aside a \<Longrightarrow> fixed b = fixed a"
  by (simp add: aside_def fixed_def)

lemma advances_refl: "advances pag a a"
  by (simp add: advances_def)

lemma advances_trans:
  assumes "advances pag a b" "advances pag b c"
  shows "advances pag a c"
proof -
  note A = advancesD [OF assms(1)] and B = advancesD [OF assms(2)]
  have f: "fixed c = fixed a" "adm pag b = adm pag a" "st_cell_owner b = st_cell_owner a"
    using A(1) B(1) fixed_adm [OF A(1)] by (auto simp: fixed_def)
  have p: "pts_of a n \<subseteq> pts_of c n" "pts_of c n \<noteq> pts_of a n \<Longrightarrow> n < length (pag_nodes pag)" for n using A(2,3) [of n] B(2,3) [of n] by auto
  have d: "set (delta_of a n) \<union> (pts_of c n - pts_of a n) \<subseteq> set (delta_of c n)" "set (delta_of c n) \<subseteq> set (delta_of a n) \<union> pts_of c n" for n
    using A(4,5) [of n] B(2,4,5) [of n] by blast+
  have w: "set (st_worklist a) \<subseteq> set (st_worklist c)" "\<And>n. set (delta_of c n) \<noteq> set (delta_of a n) \<Longrightarrow> n \<in> set (st_worklist c)"
    using A(6,7) B(6,7) by blast+
  have m: "set (mem_of a d) \<subseteq> set (mem_of c d)" "set (mem_of c d) \<noteq> set (mem_of a d) \<Longrightarrow> d < length (pag_locations pag)" for d
    using A(8,9) [of d] B(8,9) [of d] by auto
  have l: "d \<in> set (delta_of c n)" if "set (mem_of c d) \<noteq> set (mem_of a d)" "d \<in> pts_of a n" "is_load_src (pag_indices pag) n" for d n
  proof (cases "set (mem_of b d) = set (mem_of a d)")
    case True
    then show ?thesis using that B(10) [of d n] A(2) [of n] by blast
  next
    case False
    then show ?thesis using that A(10) [of d n] B(4) [of n] by blast
  qed
  have o: "x \<in> pts_of c n" if "st_cell_owner a d = Some n" "x \<in> set (mem_of c d) - set (mem_of a d)" "adm pag a d x" for d n x
    using that A(11) [of d n x] B(11) [of d n x] B(2) [of n] f(2,3) by auto
  have q: "set (st_worklist c) = set (st_worklist a)" if "\<forall>n. pts_of c n = pts_of a n" "\<forall>d. set (mem_of c d) = set (mem_of a d)"
  proof -
    have "pts_of b n = pts_of a n" for n using that(1) A(2) [of n] B(2) [of n] by simp
    moreover have "set (mem_of b d) = set (mem_of a d)" for d using that(2) A(8) [of d] B(8) [of d] by (simp add: subset_antisym)
    ultimately show ?thesis using that A(12) B(12) by simp
  qed
  show ?thesis by (rule advancesI [OF f(1) p d w m l o q])
qed

lemma advances_passes:
  assumes "passes a b" "\<And>n. pts_of b n \<noteq> pts_of a n \<Longrightarrow> n < length (pag_nodes pag)"
    "(\<forall>n. pts_of b n = pts_of a n) \<Longrightarrow> set (st_worklist b) \<subseteq> set (st_worklist a)"
  shows "advances pag a b"
proof -
  note P = passesD [OF assms(1)]
  have m: "mem_of b = mem_of a" by (rule aside_mem [OF P(1)])
  have q: "set (st_worklist b) = set (st_worklist a)" if "\<forall>n. pts_of b n = pts_of a n" using assms(3) [OF that] P(5) by blast
  show ?thesis by (rule advancesI [OF aside_fixed [OF P(1)] P(2) assms(2) P(3,4)]) (use P(5,6) q in \<open>auto simp: m\<close>)
qed

lemma advances_written:
  assumes "unwritten s = unwritten a" "passes s b" "\<And>c. set (mem_of a c) \<subseteq> set (mem_of s c)"
    and "\<And>c. set (mem_of s c) \<noteq> set (mem_of a c) \<Longrightarrow> c < length (pag_locations pag)" "\<And>n. pts_of b n \<noteq> pts_of a n \<Longrightarrow> n < length (pag_nodes pag)"
    and "\<And>c n. set (mem_of s c) \<noteq> set (mem_of a c) \<Longrightarrow> c \<in> pts_of a n \<Longrightarrow> is_load_src (pag_indices pag) n \<Longrightarrow> c \<in> set (delta_of b n)"
    and "\<And>c n l. st_cell_owner a c = Some n \<Longrightarrow> l \<in> set (mem_of s c) - set (mem_of a c) \<Longrightarrow> adm pag a c l \<Longrightarrow> l \<in> pts_of b n"
    and "(\<forall>c. set (mem_of s c) = set (mem_of a c)) \<Longrightarrow> set (st_worklist b) \<subseteq> set (st_worklist a)"
  shows "advances pag a b"
proof -
  have eq: "pts_of s = pts_of a" "delta_of s = delta_of a" "st_worklist s = st_worklist a" "fixed s = fixed a"
    by (simp_all add: fun_eq_iff pts_of_def delta_of_def fixed_def unwritten_eqD [OF assms(1)])
  note P = passesD [OF assms(2), unfolded eq]
  have m: "mem_of b = mem_of s" by (rule aside_mem [OF P(1)])
  have f: "fixed b = fixed a" using aside_fixed [OF P(1)] eq(4) by simp
  have w: "set (st_worklist a) \<subseteq> set (st_worklist b)" using P(5) by blast
  have q: "set (st_worklist b) = set (st_worklist a)" if "\<forall>c. set (mem_of s c) = set (mem_of a c)" using assms(8) [OF that] w by blast
  show ?thesis by (rule advancesI [OF f P(2) assms(5) P(3,4) w P(6)]) (use assms(3,4,6,7) q in \<open>simp_all add: m\<close>)
qed

lemma advances_grown:
  assumes "aside b = aside a" "pts_of b = (pts_of a)(dst := pts_of a dst \<union> new)" "\<And>n. set (delta_of b n) = set (delta_of a n) \<union> (pts_of b n - pts_of a n)"
    "set (st_worklist b) = set (st_worklist a) \<union> {n. pts_of b n \<noteq> pts_of a n}" "dst < length (pag_nodes pag)"
  shows "advances pag a b"
proof (rule advances_passes)
  show "passes a b" using assms by (intro passes_grown) auto
qed (use assms in \<open>auto split: if_splits\<close>)

lemma propagate_advances:
  assumes "iter_ok iter" "solver_ok pag st" "\<forall>l \<in> set locs. l < length (pag_locations pag)" "dst < length (pag_nodes pag)"
  shows "\<exists>st'. propagate_locs iter dst locs st = Some st' \<and> solver_ok pag st' \<and> advances pag st st' \<and> set locs \<subseteq> pts_of st' dst"
proof -
  obtain st' where s: "propagate_locs iter dst locs st = Some st'" "solver_ok pag st'" "pts_of st' = (pts_of st)(dst := pts_of st dst \<union> set locs)" "aside st' = aside st"
    "\<forall>n. set (delta_of st' n) = set (delta_of st n) \<union> (pts_of st' n - pts_of st n)" "set (st_worklist st') = set (st_worklist st) \<union> {n. pts_of st' n \<noteq> pts_of st n}"
    using propagate_result [OF assms(1-3), of dst] by blast
  have "advances pag st st'" using s(5) by (intro advances_grown [OF s(4,3) _ s(6) assms(4)]) blast
  then show ?thesis using s(1,2,3) by auto
qed

lemma add_pts_advances:
  assumes "iter_ok iter" "solver_ok pag st" "loc < length (pag_locations pag)" "node < length (pag_nodes pag)"
  shows "\<exists>st'. add_pts iter node loc st = Some st' \<and> solver_ok pag st' \<and> advances pag st st' \<and> loc \<in> pts_of st' node"
proof -
  have g: "grown_ok pag node (pts_of st node) st" using assms(2) solver_ok_grown by blast
  let ?s = "st\<lparr>st_pts := (st_pts st)(node \<mapsto> pts_of st node \<union> {loc})\<rparr>"
  have "{loc} \<subseteq> {..<length (pag_locations pag)}" using assms(3) by simp
  note G = grow_pts [OF g this]
  have e: "add_pts iter node loc st = (if loc \<in> pts_of st node then Some ?s else map_option (commit_fresh node [loc]) (mirror_pts iter node [loc] ?s))"
    by (simp add: add_pts_def pts_of_def fun_eq_iff [of "commit_fresh node [loc]"] commit_fresh_def Let_def cong: map_option_cong)
  show ?thesis
  proof (cases "loc \<in> pts_of st node")
    case True
    then have p: "pts_of ?s = pts_of st" using G(2) by (auto simp: fun_eq_iff)
    then have "solver_ok pag ?s" using G(1) solver_ok_grown [of pag ?s node] by simp
    moreover have "advances pag st ?s" using G(3,4,5) p by (intro advances_passes passes_grown) auto
    ultimately show ?thesis using True e p by simp
  next
    case False
    have "pts_of ?s node = pts_of st node \<union> set [loc]" using G(2) by simp
    from settle [OF assms(1) G(1) this] obtain st' where s: "map_option (commit_fresh node [loc]) (mirror_pts iter node [loc] ?s) = Some st'" "solver_ok pag st'"
      "pts_of st' = pts_of ?s" "aside st' = aside ?s" "delta_of st' = (delta_of ?s)(node := fold index_insert [loc] (delta_of ?s node))"
      "set (st_worklist st') = set (st_worklist ?s) \<union> (if [loc] = [] then {} else {node})" by blast
    have p: "pts_of st' = (pts_of st)(node := pts_of st node \<union> {loc})" using s(3) G(2) by simp
    have "set (delta_of st' n) = set (delta_of st n) \<union> (pts_of st' n - pts_of st n)" for n using p s(5) G(4) False by auto
    moreover have "{n. pts_of st' n \<noteq> pts_of st n} = {node}" using s(3) G(2) False by auto
    ultimately have "advances pag st st'" using s(4,6) G(3,5) assms(4) by (intro advances_grown [OF _ p]) auto
    moreover have "add_pts iter node loc st = Some st'" using e s(1) False by (simp only: if_False)
    ultimately show ?thesis using s(2) p by (intro exI [of _ st']) simp
  qed
qed

lemma load_advances:
  assumes "iter_ok iter" "solver_ok pag st" "\<forall>l \<in> set locs. l < length (pag_locations pag)" "dst < length (pag_nodes pag)"
  shows "\<exists>st' k. load_into iter pag dst locs st = Some (st', k) \<and> solver_ok pag st' \<and> advances pag st st' \<and> mem_of st' = mem_of st \<and>
    (\<Union>l \<in> set locs. contribution pag st l) \<subseteq> pts_of st' dst"
proof -
  obtain st' k where s: "load_into iter pag dst locs st = Some (st', k)" "solver_ok pag st'"
    "pts_of st' = (pts_of st)(dst := pts_of st dst \<union> (\<Union>l \<in> set locs. contribution pag st l))" "aside st' = aside st"
    "\<forall>n. set (delta_of st' n) = set (delta_of st n) \<union> (pts_of st' n - pts_of st n)" "set (st_worklist st') = set (st_worklist st) \<union> {n. pts_of st' n \<noteq> pts_of st n}"
    using load_into_result [OF assms(1-3), of dst] by blast
  have "advances pag st st'" using s(5) by (intro advances_grown [OF s(4,3) _ s(6) assms(4)]) blast
  then show ?thesis using s(1,2,3) aside_mem [OF s(4)] by auto
qed

definition cells_ok :: "Pag \<Rightarrow> SolverState \<Rightarrow> bool" where
  "cells_ok pag st \<longleftrightarrow> (\<forall>n c. st_synced_cell st n = Some c \<longrightarrow> st_cell_owner st c = Some n \<and> c < length (pag_locations pag)) \<and>
     (\<forall>c n. st_cell_owner st c = Some n \<longrightarrow> n < length (pag_nodes pag))"

lemma sync_advances:
  assumes "iter_ok iter" "solver_ok pag st" "cells_ok pag st" "set delta \<subseteq> pts_of st node"
  shows "\<exists>st'. sync_var_to_cell iter pag node delta st = Some st' \<and> solver_ok pag st' \<and> advances pag st st' \<and>
    (\<forall>c. st_synced_cell st node = Some c \<longrightarrow> {l \<in> set delta. adm pag st c l} \<subseteq> set (mem_of st' c))"
proof (cases "st_synced_cell st node")
  case None
  then show ?thesis using assms(2) by (simp add: sync_var_to_cell_def advances_refl)
next
  case (Some c)
  have c: "st_cell_owner st c = Some node" "c < length (pag_locations pag)" using assms(3) Some by (auto simp: cells_ok_def)
  have r: "\<forall>l \<in> set delta. l < length (pag_locations pag)" using assms(4) pts_in_range [OF assms(2)] by blast
  obtain s st' where w: "write_to_cell iter pag c delta st = Some st'" "solver_ok pag st'" "unwritten s = unwritten st" "pts_of st' = pts_of st"
    "mem_of s = (mem_of st)(c := dedup_onto (mem_of st c) (filter (adm pag st c) delta))" "passes s st'"
    "\<And>n. set (delta_of st' n) = set (delta_of st n) \<union> (if mem_of st' c \<noteq> mem_of st c \<and> c \<in> pts_of st n \<and> is_load_src (pag_indices pag) n then {c} else {})"
    "set (st_worklist st') = set (st_worklist st) \<union> {n. mem_of st' c \<noteq> mem_of st c \<and> c \<in> pts_of st n \<and> is_load_src (pag_indices pag) n}"
    using write_to_cell_result [OF assms(1,2) r, of c] by blast
  have m: "mem_of st' = mem_of s" by (rule aside_mem [OF passesD(1) [OF w(6)]])
  have mc: "set (mem_of s c) = set (mem_of st c) \<union> {l \<in> set delta. adm pag st c l}" "\<And>d. d \<noteq> c \<Longrightarrow> mem_of s d = mem_of st d" using w(5) by auto
  have "mem_of s c = mem_of st c" if "set (mem_of s c) = set (mem_of st c)"
  proof -
    have "set (filter (adm pag st c) delta) \<subseteq> set (mem_of st c)" using that mc(1) by auto
    then show ?thesis using w(5) by (simp add: dedup_onto_subset del: set_filter)
  qed
  then have same: "set (mem_of s d) \<noteq> set (mem_of st d) \<longleftrightarrow> d = c \<and> mem_of st' c \<noteq> mem_of st c" for d using mc(2) m by (cases "d = c") auto
  have "advances pag st st'"
  proof (rule advances_written [OF w(3,6)])
    show "set (mem_of st d) \<subseteq> set (mem_of s d)" for d using mc by (cases "d = c") auto
    show "l \<in> pts_of st' n" if "st_cell_owner st d = Some n" "l \<in> set (mem_of s d) - set (mem_of st d)" "adm pag st d l" for d n l
      using that mc c(1) w(4) assms(4) by (cases "d = c") auto
  qed (use same c(2) w(4,7,8) in auto)
  then show ?thesis using w(1,2) Some mc(1) m by (simp add: sync_var_to_cell_def)
qed

lemma set_append_subset_empty: "distinct (xs @ zs) \<Longrightarrow> set (xs @ zs) = set xs \<Longrightarrow> zs = []"
  by (cases zs) auto

lemma store_advances:
  assumes "iter_ok iter" "solver_ok pag st" "vget (pag_constraints pag) idx = Some c" "vget (pag_nodes pag) (c_src c) = Some kind"
    and "\<forall>ts l. targets = Some ts \<longrightarrow> l \<in> set ts \<longrightarrow> l < length (pag_locations pag)" and "store_reads st c written \<subseteq> pts_of st (c_src c)"
    and "\<forall>l \<in> ran (pag_var_location pag) \<union> ran (pag_field_loc_to_summary pag). l < length (pag_locations pag)" and "cells_ok pag st"
  shows "\<exists>st'. apply_store_to_targets iter is_ptr pag idx targets written sv st = Some st' \<and> solver_ok pag st' \<and> advances pag st st' \<and>
    (\<forall>d \<in> store_writes st c targets. fn_for_loc pag d = Some None \<longrightarrow> loc_kind pag d \<noteq> Some StringLit \<longrightarrow>
       {l \<in> store_reads st c written. adm pag st d l} \<union> set (opt_list (store_self_loc is_ptr pag kind)) \<subseteq> set (mem_of st' d))"
proof -
  have r: "\<forall>l \<in> ran (pag_var_location pag). l < length (pag_locations pag)" using assms(7) by blast
  obtain st' s where A: "apply_store_to_targets iter is_ptr pag idx targets written sv st = Some st'" "solver_ok pag st'" "\<forall>d. \<exists>zs. mem_of st' d = mem_of st d @ zs"
    "\<forall>d \<in> store_writes st c targets. fn_for_loc pag d = Some None \<longrightarrow> loc_kind pag d \<noteq> Some StringLit \<longrightarrow>
       {l \<in> store_reads st c written. adm pag st d l} \<union> set (opt_list (store_self_loc is_ptr pag kind)) \<subseteq> set (mem_of st' d)"
    "\<forall>n. pts_of st' n = pts_of st n \<union> {l. \<exists>d. mem_of st' d \<noteq> mem_of st d \<and> st_cell_owner st d = Some n \<and> l \<in> set (mem_of st' d) \<and> adm pag st d l}"
    "\<forall>d n. mem_of st' d \<noteq> mem_of st d \<longrightarrow> d \<in> pts_of st n \<longrightarrow> is_load_src (pag_indices pag) n \<longrightarrow> d \<in> set (delta_of st' n) \<and> n \<in> set (st_worklist st')"
    "\<forall>d. mem_of st' d \<noteq> mem_of st d \<longrightarrow> d \<in> written_cells pag (store_writes st c targets)"
    and B: "unwritten s = unwritten st" "passes s st'" "mem_of s = mem_of st \<longrightarrow> st' = s"
    using apply_store_result [OF assms(1-6) r, of is_ptr sv] by (elim exE conjE)
  have m: "mem_of st' = mem_of s" by (rule aside_mem [OF passesD(1) [OF B(2)]])
  have ne: "mem_of st' d \<noteq> mem_of st d" if "set (mem_of s d) \<noteq> set (mem_of st d)" for d using that m by auto
  have "distinct (mem_of st' d)" for d using A(2) by (simp add: solver_ok_def range_ok_def)
  then have same: "mem_of st' d = mem_of st d" if "set (mem_of s d) = set (mem_of st d)" for d
    using that A(3) [rule_format, of d] m set_append_subset_empty by (metis append_Nil2)
  have "advances pag st st'"
  proof (rule advances_written [OF B(1,2)])
    show "set (mem_of st d) \<subseteq> set (mem_of s d)" for d using A(3) [rule_format, of d] m by auto
    show "d < length (pag_locations pag)" if "set (mem_of s d) \<noteq> set (mem_of st d)" for d using A(7) written_cells_range ne [OF that] assms(7) by blast
    show "n < length (pag_nodes pag)" if "pts_of st' n \<noteq> pts_of st n" for n using that A(5) assms(8) unfolding cells_ok_def by blast
    show "d \<in> set (delta_of st' n)" if "set (mem_of s d) \<noteq> set (mem_of st d)" "d \<in> pts_of st n" "is_load_src (pag_indices pag) n" for d n
      using A(6) ne [OF that(1)] that(2,3) by blast
    show "l \<in> pts_of st' n" if "st_cell_owner st d = Some n" "l \<in> set (mem_of s d) - set (mem_of st d)" "adm pag st d l" for d n l
    proof -
      have "mem_of st' d \<noteq> mem_of st d" using that(2) m by auto
      then show ?thesis using A(5) that m by auto
    qed
    show "set (st_worklist st') \<subseteq> set (st_worklist st)" if "\<forall>d. set (mem_of s d) = set (mem_of st d)"
    proof -
      have "mem_of s = mem_of st" using same that m by auto
      then show ?thesis using B(3) unwritten_eqD(12) [OF B(1)] by simp
    qed
  qed
  then show ?thesis using A(1,2,4) by blast
qed

section \<open>Obligations\<close>

text \<open>What a constraint demands of the locations that are no longer pending: \<open>X\<close> at its source, \<open>Y\<close> at its destination are.\<close>

definition flow_ok :: "(VarId \<Rightarrow> bool) \<Rightarrow> Pag \<Rightarrow> SolverState \<Rightarrow> LocId set \<Rightarrow> LocId set \<Rightarrow> Constraint \<Rightarrow> bool" where
  "flow_ok is_ptr pag st X Y c \<longleftrightarrow>
     (case c_kind c of
        Copy \<Rightarrow> pts_of st (c_src c) - X \<subseteq> pts_of st (c_dst c)
      | Load \<Rightarrow> (\<forall>l \<in> pts_of st (c_src c) - X. contribution pag st l \<subseteq> pts_of st (c_dst c))
      | Store \<Rightarrow> (\<forall>d \<in> pts_of st (c_dst c) - Y. fn_for_loc pag d = Some None \<longrightarrow> loc_kind pag d \<noteq> Some StringLit \<longrightarrow>
          {l \<in> pts_of st (c_src c) - X. adm pag st d l} \<union> set (opt_list (store_self_loc is_ptr pag (pag_nodes pag ! c_src c))) \<subseteq> set (mem_of st d))
      | _ \<Rightarrow> True)"

lemma flow_ok_mono: "flow_ok is_ptr pag st X Y c \<Longrightarrow> X \<subseteq> X' \<Longrightarrow> Y \<subseteq> Y' \<Longrightarrow> flow_ok is_ptr pag st X' Y' c"
  unfolding flow_ok_def by (cases "c_kind c") auto

lemma flow_ok_advances:
  assumes "advances pag a b" "flow_ok is_ptr pag a (set (delta_of a (c_src c)) \<union> X) (set (delta_of a (c_dst c)) \<union> Y) c"
    "c_kind c = Load \<Longrightarrow> is_load_src (pag_indices pag) (c_src c)"
  shows "flow_ok is_ptr pag b (set (delta_of b (c_src c)) \<union> X) (set (delta_of b (c_dst c)) \<union> Y) c"
proof -
  note A = advancesD [OF assms(1)]
  have adm: "adm pag b = adm pag a" by (rule fixed_adm [OF A(1)])
  have old: "l \<in> pts_of a n - (set (delta_of a n) \<union> Z)" if "l \<in> pts_of b n - (set (delta_of b n) \<union> Z)" for l n Z using that A(4) [of n] by blast
  show ?thesis
  proof (cases "c_kind c")
    case Copy
    then show ?thesis using assms(2) old [of _ "c_src c" X] A(2) [of "c_dst c"] unfolding flow_ok_def by auto
  next
    case Load
    have "contribution pag b l \<subseteq> pts_of b (c_dst c)" if "l \<in> pts_of b (c_src c) - (set (delta_of b (c_src c)) \<union> X)" for l
    proof -
      note o = old [OF that]
      have "set (mem_of b l) = set (mem_of a l)" using A(10) [of l "c_src c"] assms(3) Load o that by blast
      then have "contribution pag b l = contribution pag a l" by (simp add: contribution_def adm)
      then show ?thesis using assms(2) Load o A(2) [of "c_dst c"] unfolding flow_ok_def by auto
    qed
    then show ?thesis using Load unfolding flow_ok_def by simp
  next
    case Store
    have "{l \<in> pts_of b (c_src c) - (set (delta_of b (c_src c)) \<union> X). adm pag b d l} \<union> set (opt_list (store_self_loc is_ptr pag (pag_nodes pag ! c_src c))) \<subseteq> set (mem_of b d)"
      if "d \<in> pts_of b (c_dst c) - (set (delta_of b (c_dst c)) \<union> Y)" "fn_for_loc pag d = Some None" "loc_kind pag d \<noteq> Some StringLit" for d
    proof -
      have "{l \<in> pts_of a (c_src c) - (set (delta_of a (c_src c)) \<union> X). adm pag a d l} \<union> set (opt_list (store_self_loc is_ptr pag (pag_nodes pag ! c_src c))) \<subseteq> set (mem_of a d)"
        using assms(2) Store old [OF that(1)] that(2,3) unfolding flow_ok_def by simp
      then show ?thesis using old [of _ "c_src c" X] A(8) [of d] unfolding adm by blast
    qed
    then show ?thesis using Store unfolding flow_ok_def by simp
  qed (simp_all add: flow_ok_def)
qed

text \<open>The index lists exactly the constraints of each kind.\<close>

definition listed :: "Pag \<Rightarrow> ConstraintKind \<Rightarrow> (Constraint \<Rightarrow> PagNodeId) \<Rightarrow> (PagNodeId \<rightharpoonup> nat list) \<Rightarrow> bool" where
  "listed pag k e m \<longleftrightarrow> (\<forall>n. set (entry m n []) = {i. i < length (pag_constraints pag) \<and> c_kind (pag_constraints pag ! i) = k \<and> e (pag_constraints pag ! i) = n})"

definition indexed :: "Pag \<Rightarrow> bool" where
  "indexed pag \<longleftrightarrow> listed pag Copy c_src (si_copy_src (pag_indices pag)) \<and> listed pag AddrOf c_dst (si_addr_of_dst (pag_indices pag)) \<and>
     listed pag Load c_src (si_load_src (pag_indices pag)) \<and> listed pag Store c_dst (si_store_dst (pag_indices pag)) \<and>
     listed pag Store c_src (si_store_src (pag_indices pag)) \<and> (\<forall>n. is_load_src (pag_indices pag) n \<longleftrightarrow> si_load_src (pag_indices pag) n \<noteq> None)"

lemma listedD:
  assumes "listed pag k e m" "i \<in> set (entry m n [])"
  shows "vget (pag_constraints pag) i = Some (pag_constraints pag ! i)" "c_kind (pag_constraints pag ! i) = k" "e (pag_constraints pag ! i) = n"
  using assms by (auto simp: listed_def vget_in)

definition pag_ok :: "Pag \<Rightarrow> bool" where
  "pag_ok pag \<longleftrightarrow> indexed pag \<and> (\<forall>c \<in> set (pag_constraints pag). c_src c < length (pag_nodes pag) \<and> c_dst c < length (pag_nodes pag)) \<and>
     (\<forall>l. NodeLoc l \<in> set (pag_nodes pag) \<longrightarrow> l < length (pag_locations pag)) \<and>
     (\<forall>l \<in> ran (pag_var_location pag) \<union> ran (pag_field_loc_to_summary pag). l < length (pag_locations pag))"

text \<open>Every constraint is met up to what is pending; beside the deltas the locations \<open>X\<close>, \<open>Y\<close> of the \<open>i\<close>-th constraint may be, and
  \<open>Z\<close> for the cell of the node being popped.\<close>

definition settled :: "(VarId \<Rightarrow> bool) \<Rightarrow> Pag \<Rightarrow> (nat \<Rightarrow> LocId set) \<Rightarrow> (nat \<Rightarrow> LocId set) \<Rightarrow> (PagNodeId \<Rightarrow> LocId set) \<Rightarrow> SolverState \<Rightarrow> bool" where
  "settled is_ptr pag X Y Z st \<longleftrightarrow>
     (\<forall>i < length (pag_constraints pag). let c = pag_constraints pag ! i in flow_ok is_ptr pag st (set (delta_of st (c_src c)) \<union> X i) (set (delta_of st (c_dst c)) \<union> Y i) c) \<and>
     (\<forall>n c. st_synced_cell st n = Some c \<longrightarrow> {l \<in> pts_of st n - (set (delta_of st n) \<union> Z n). adm pag st c l} \<subseteq> set (mem_of st c)) \<and>
     (\<forall>c n. st_cell_owner st c = Some n \<longrightarrow> {l \<in> set (mem_of st c). adm pag st c l} \<subseteq> pts_of st n)"

lemma load_listed:
  assumes "pag_ok pag" "i < length (pag_constraints pag)" "c_kind (pag_constraints pag ! i) = Load"
  shows "is_load_src (pag_indices pag) (c_src (pag_constraints pag ! i))"
proof -
  have "i \<in> set (entry (si_load_src (pag_indices pag)) (c_src (pag_constraints pag ! i)) [])" using assms by (auto simp: pag_ok_def indexed_def listed_def)
  then show ?thesis using assms(1) by (auto simp: pag_ok_def indexed_def entry_def split: option.splits)
qed

lemma settled_advances:
  assumes "pag_ok pag" "advances pag a b" "settled is_ptr pag X Y Z a"
  shows "settled is_ptr pag X Y Z b"
proof -
  note A = advancesD [OF assms(2)]
  have eq: "adm pag b = adm pag a" "st_synced_cell b = st_synced_cell a" "st_cell_owner b = st_cell_owner a" using fixed_adm [OF A(1)] A(1) by (auto simp: fixed_def)
  have S: "\<And>n c. st_synced_cell a n = Some c \<Longrightarrow> {l \<in> pts_of a n - (set (delta_of a n) \<union> Z n). adm pag a c l} \<subseteq> set (mem_of a c)"
    "\<And>c n. st_cell_owner a c = Some n \<Longrightarrow> {l \<in> set (mem_of a c). adm pag a c l} \<subseteq> pts_of a n" using assms(3) unfolding settled_def by blast+
  have "flow_ok is_ptr pag b (set (delta_of b (c_src c)) \<union> X i) (set (delta_of b (c_dst c)) \<union> Y i) c" if "i < length (pag_constraints pag)" "c = pag_constraints pag ! i" for i c
    using assms(3) that load_listed [OF assms(1) that(1)] by (intro flow_ok_advances [OF assms(2)]) (simp_all add: settled_def Let_def)
  moreover have "{l \<in> pts_of b n - (set (delta_of b n) \<union> Z n). adm pag b c l} \<subseteq> set (mem_of b c)" if "st_synced_cell b n = Some c" for n c
    using that S(1) [of n c] A(4) [of n] A(8) [of c] unfolding eq by blast
  moreover have "{l \<in> set (mem_of b c). adm pag b c l} \<subseteq> pts_of b n" if "st_cell_owner b c = Some n" for c n
    using that S(2) [of c n] A(11) [of c n] A(2) [of n] unfolding eq by blast
  ultimately show ?thesis unfolding settled_def Let_def by blast
qed

section \<open>The flows of one pop\<close>

lemma settled_constraint:
  assumes "settled is_ptr pag X Y Z st"
    "\<And>j. j < length (pag_constraints pag) \<Longrightarrow>
      flow_ok is_ptr pag st (set (delta_of st (c_src (pag_constraints pag ! j))) \<union> X j) (set (delta_of st (c_dst (pag_constraints pag ! j))) \<union> Y j) (pag_constraints pag ! j) \<Longrightarrow>
      flow_ok is_ptr pag st (set (delta_of st (c_src (pag_constraints pag ! j))) \<union> X' j) (set (delta_of st (c_dst (pag_constraints pag ! j))) \<union> Y' j) (pag_constraints pag ! j)"
  shows "settled is_ptr pag X' Y' Z st"
  using assms unfolding settled_def Let_def by blast

definition without :: "nat list \<Rightarrow> (nat \<Rightarrow> 'a set) \<Rightarrow> nat \<Rightarrow> 'a set" where
  "without is X i = (if i \<in> set is then {} else X i)"

lemma without_simps [simp]: "without [] X = X" "without (is @ [i]) X = (without is X)(i := {})"
  by (auto simp: without_def fun_eq_iff)

definition reached :: "(VarId \<Rightarrow> bool) \<Rightarrow> Pag \<Rightarrow> SolverState \<Rightarrow> (nat \<Rightarrow> LocId set) \<Rightarrow> (nat \<Rightarrow> LocId set) \<Rightarrow> (PagNodeId \<Rightarrow> LocId set) \<Rightarrow> SolverState \<Rightarrow> bool" where
  "reached is_ptr pag st0 X Y Z st \<longleftrightarrow> solver_ok pag st \<and> advances pag st0 st \<and> settled is_ptr pag X Y Z st"

lemma reached_step:
  assumes "pag_ok pag" "reached is_ptr pag st0 X Y Z st" "solver_ok pag st'" "advances pag st st'"
  shows "reached is_ptr pag st0 X Y Z st'"
  using assms advances_trans settled_advances unfolding reached_def by blast

lemma reached_source:
  assumes "reached is_ptr pag st0 X Y Z st"
    "flow_ok is_ptr pag st (set (delta_of st (c_src (pag_constraints pag ! i))) \<union> X i) (set (delta_of st (c_dst (pag_constraints pag ! i))) \<union> Y i) (pag_constraints pag ! i) \<Longrightarrow>
     flow_ok is_ptr pag st (set (delta_of st (c_src (pag_constraints pag ! i)))) (set (delta_of st (c_dst (pag_constraints pag ! i))) \<union> Y i) (pag_constraints pag ! i)"
  shows "reached is_ptr pag st0 (X(i := {})) Y Z st"
proof -
  have "settled is_ptr pag X Y Z st" using assms(1) by (simp add: reached_def)
  from settled_constraint [OF this, of "X(i := {})" Y] show ?thesis using assms unfolding reached_def by (metis Un_empty_right fun_upd_apply)
qed

lemma reached_target:
  assumes "reached is_ptr pag st0 X Y Z st"
    "flow_ok is_ptr pag st (set (delta_of st (c_src (pag_constraints pag ! i))) \<union> X i) (set (delta_of st (c_dst (pag_constraints pag ! i))) \<union> Y i) (pag_constraints pag ! i) \<Longrightarrow>
     flow_ok is_ptr pag st (set (delta_of st (c_src (pag_constraints pag ! i))) \<union> X i) (set (delta_of st (c_dst (pag_constraints pag ! i)))) (pag_constraints pag ! i)"
  shows "reached is_ptr pag st0 X (Y(i := {})) Z st"
proof -
  have "settled is_ptr pag X Y Z st" using assms(1) by (simp add: reached_def)
  from settled_constraint [OF this, of X "Y(i := {})"] show ?thesis using assms unfolding reached_def by (metis Un_empty_right fun_upd_apply)
qed

lemma endpoints:
  assumes "pag_ok pag" "vget (pag_constraints pag) i = Some c"
  shows "c_src c < length (pag_nodes pag)" "c_dst c < length (pag_nodes pag)" "vget (pag_nodes pag) (c_src c) = Some (pag_nodes pag ! c_src c)"
proof -
  have "c \<in> set (pag_constraints pag)" using assms(2) by (auto simp: vget_Some)
  then show "c_src c < length (pag_nodes pag)" "c_dst c < length (pag_nodes pag)" "vget (pag_nodes pag) (c_src c) = Some (pag_nodes pag ! c_src c)"
    using assms(1) by (auto simp: pag_ok_def vget_in)
qed

lemma copies_reached:
  assumes "iter_ok iter" "pag_ok pag" "reached is_ptr pag st0 X Y Z st" "set delta \<subseteq> pts_of st0 node" "solver_ok pag st0" "\<And>i. X i \<subseteq> set delta"
  shows "\<exists>st'. flow_copies iter pag node delta st = Some st' \<and> reached is_ptr pag st0 (without (entry (si_copy_src (pag_indices pag)) node []) X) Y Z st'"
  unfolding flow_copies_def
proof (rule foldM_prefix_rule [where I = "\<lambda>is st. reached is_ptr pag st0 (without is X) Y Z st"])
  show "reached is_ptr pag st0 (without [] X) Y Z st" using assms(3) by simp
  fix "is" i s assume I: "reached is_ptr pag st0 (without is X) Y Z s" and i: "i \<in> set (entry (si_copy_src (pag_indices pag)) node [])"
  have "listed pag Copy c_src (si_copy_src (pag_indices pag))" using assms(2) by (simp add: pag_ok_def indexed_def)
  note L = listedD [OF this i] and N = endpoints [OF assms(2) listedD(1) [OF this i]]
  have r: "\<forall>l \<in> set delta. l < length (pag_locations pag)" using assms(4) pts_in_range [OF assms(5)] by blast
  have "solver_ok pag s" using I by (simp add: reached_def)
  from propagate_advances [OF assms(1) this r N(2)] obtain s' where s': "propagate_locs iter (c_dst (pag_constraints pag ! i)) delta s = Some s'" "solver_ok pag s'" "advances pag s s'"
    "set delta \<subseteq> pts_of s' (c_dst (pag_constraints pag ! i))" by blast
  have "without is X i \<subseteq> set delta" using assms(6) [of i] by (auto simp: without_def)
  then have "reached is_ptr pag st0 ((without is X)(i := {})) Y Z s'" using L(2) s'(4)
    by (intro reached_source [OF reached_step [OF assms(2) I s'(2,3)]]) (auto simp: flow_ok_def)
  then show "\<exists>t. (do { c \<leftarrow> vget (pag_constraints pag) i; propagate_locs iter (c_dst c) delta s }) = Some t \<and> reached is_ptr pag st0 (without (is @ [i]) X) Y Z t"
    using L(1) s'(1) by simp
qed

lemma loads_reached:
  assumes "iter_ok iter" "pag_ok pag" "reached is_ptr pag st0 X Y Z st" "set delta \<subseteq> pts_of st0 node" "solver_ok pag st0" "\<And>i. X i \<subseteq> set delta"
  shows "\<exists>st'. flow_loads iter pag node delta st = Some st' \<and> reached is_ptr pag st0 (without (entry (si_load_src (pag_indices pag)) node []) X) Y Z st'"
  unfolding flow_loads_def
proof (rule foldM_prefix_rule [where I = "\<lambda>is st. reached is_ptr pag st0 (without is X) Y Z st"])
  show "reached is_ptr pag st0 (without [] X) Y Z st" using assms(3) by simp
  fix "is" i s assume I: "reached is_ptr pag st0 (without is X) Y Z s" and i: "i \<in> set (entry (si_load_src (pag_indices pag)) node [])"
  have "listed pag Load c_src (si_load_src (pag_indices pag))" using assms(2) by (simp add: pag_ok_def indexed_def)
  note L = listedD [OF this i] and N = endpoints [OF assms(2) listedD(1) [OF this i]]
  have r: "\<forall>l \<in> set delta. l < length (pag_locations pag)" using assms(4) pts_in_range [OF assms(5)] by blast
  have "solver_ok pag s" using I by (simp add: reached_def)
  from load_advances [OF assms(1) this r N(2)] obtain s' k where s': "load_into iter pag (c_dst (pag_constraints pag ! i)) delta s = Some (s', k)" "solver_ok pag s'" "advances pag s s'"
    "mem_of s' = mem_of s" "(\<Union>l \<in> set delta. contribution pag s l) \<subseteq> pts_of s' (c_dst (pag_constraints pag ! i))" by blast
  have "contribution pag s' = contribution pag s" using s'(4) fixed_adm [OF advancesD(1) [OF s'(3)]] by (simp add: fun_eq_iff contribution_def)
  moreover have "without is X i \<subseteq> set delta" using assms(6) [of i] by (auto simp: without_def)
  ultimately have "reached is_ptr pag st0 ((without is X)(i := {})) Y Z s'" using L(2) s'(5)
    by (intro reached_source [OF reached_step [OF assms(2) I s'(2,3)]]) (simp add: flow_ok_def, blast)
  then show "\<exists>t. (do { c \<leftarrow> vget (pag_constraints pag) i; map_option fst (load_into iter pag (c_dst c) delta s) }) = Some t \<and>
      reached is_ptr pag st0 (without (is @ [i]) X) Y Z t"
    using L(1) s'(1) by simp
qed

lemma reached_cells: "reached is_ptr pag st0 X Y Z st \<Longrightarrow> cells_ok pag st0 \<Longrightarrow> cells_ok pag st"
  using advancesD(1) unfolding reached_def cells_ok_def fixed_def by fastforce

lemma store_targets_reached:
  assumes "iter_ok iter" "pag_ok pag" "reached is_ptr pag st0 X Y Z st" "set delta \<subseteq> pts_of st0 node" "solver_ok pag st0" "cells_ok pag st0" "\<And>i. Y i \<subseteq> set delta"
  shows "\<exists>st'. flow_stores iter is_ptr pag (Some delta) Whole (entry (si_store_dst (pag_indices pag)) node []) st = Some st' \<and>
    reached is_ptr pag st0 X (without (entry (si_store_dst (pag_indices pag)) node []) Y) Z st'"
  unfolding flow_stores_def
proof (rule foldM_prefix_rule [where I = "\<lambda>is st. reached is_ptr pag st0 X (without is Y) Z st"])
  show "reached is_ptr pag st0 X (without [] Y) Z st" using assms(3) by simp
  fix "is" i s assume I: "reached is_ptr pag st0 X (without is Y) Z s" and i: "i \<in> set (entry (si_store_dst (pag_indices pag)) node [])"
  let ?c = "pag_constraints pag ! i"
  have "listed pag Store c_dst (si_store_dst (pag_indices pag))" using assms(2) by (simp add: pag_ok_def indexed_def)
  note L = listedD [OF this i] and N = endpoints [OF assms(2) listedD(1) [OF this i]]
  have r: "\<forall>ts l. Some delta = Some ts \<longrightarrow> l \<in> set ts \<longrightarrow> l < length (pag_locations pag)" using assms(4) pts_in_range [OF assms(5)] by blast
  have v: "\<forall>l \<in> ran (pag_var_location pag) \<union> ran (pag_field_loc_to_summary pag). l < length (pag_locations pag)" using assms(2) unfolding pag_ok_def by blast
  have ok: "solver_ok pag s" using I by (simp add: reached_def)
  have "store_reads s ?c Whole \<subseteq> pts_of s (c_src ?c)" by (simp add: store_reads_def)
  from store_advances [OF assms(1) ok L(1) N(3) r this v reached_cells [OF I assms(6)], of is_ptr no_views] obtain s' where
    s': "apply_store_to_targets iter is_ptr pag i (Some delta) Whole no_views s = Some s'" "solver_ok pag s'" "advances pag s s'"
    "\<forall>d \<in> set delta. fn_for_loc pag d = Some None \<longrightarrow> loc_kind pag d \<noteq> Some StringLit \<longrightarrow>
       {l \<in> pts_of s (c_src ?c). adm pag s d l} \<union> set (opt_list (store_self_loc is_ptr pag (pag_nodes pag ! c_src ?c))) \<subseteq> set (mem_of s' d)"
    by (auto simp: store_reads_def store_writes_def)
  note A = advancesD [OF s'(3)]
  have w: "without is Y i \<subseteq> set delta" using assms(7) [of i] by (auto simp: without_def)
  have "reached is_ptr pag st0 X ((without is Y)(i := {})) Z s'"
  proof (rule reached_target [OF reached_step [OF assms(2) I s'(2,3)]])
    assume F: "flow_ok is_ptr pag s' (set (delta_of s' (c_src ?c)) \<union> X i) (set (delta_of s' (c_dst ?c)) \<union> without is Y i) ?c"
    have "{l \<in> pts_of s' (c_src ?c) - (set (delta_of s' (c_src ?c)) \<union> X i). adm pag s' d l} \<union> set (opt_list (store_self_loc is_ptr pag (pag_nodes pag ! c_src ?c))) \<subseteq> set (mem_of s' d)"
      if d: "d \<in> pts_of s' (c_dst ?c) - set (delta_of s' (c_dst ?c))" "fn_for_loc pag d = Some None" "loc_kind pag d \<noteq> Some StringLit" for d
    proof (cases "d \<in> without is Y i")
      case True
      then have "d \<in> set delta" using w by blast
      then show ?thesis using s'(4) d(2,3) A(4) [of "c_src ?c"] unfolding fixed_adm [OF A(1)] by blast
    next
      case False
      then show ?thesis using F d L(2) unfolding flow_ok_def by simp
    qed
    then show "flow_ok is_ptr pag s' (set (delta_of s' (c_src ?c)) \<union> X i) (set (delta_of s' (c_dst ?c))) ?c" using L(2) unfolding flow_ok_def by simp
  qed
  then show "\<exists>t. apply_store_to_targets iter is_ptr pag i (Some delta) Whole no_views s = Some t \<and> reached is_ptr pag st0 X (without (is @ [i]) Y) Z t"
    using s'(1) by simp
qed

lemma store_sources_reached:
  assumes "iter_ok iter" "pag_ok pag" "reached is_ptr pag st0 X Y Z st" "solver_ok pag st0" "cells_ok pag st0" "\<And>i. X i \<subseteq> set new" "set new \<subseteq> pts_of st node"
  shows "\<exists>st'. flow_stores iter is_ptr pag None (New new) (entry (si_store_src (pag_indices pag)) node []) st = Some st' \<and>
    reached is_ptr pag st0 (without (entry (si_store_src (pag_indices pag)) node []) X) Y Z st' \<and> advances pag st st'"
  unfolding flow_stores_def
proof (rule foldM_prefix_rule [where I = "\<lambda>is st'. reached is_ptr pag st0 (without is X) Y Z st' \<and> advances pag st st'"])
  show "reached is_ptr pag st0 (without [] X) Y Z st \<and> advances pag st st" using assms(3) advances_refl by simp
  fix "is" i s assume I': "reached is_ptr pag st0 (without is X) Y Z s \<and> advances pag st s" and i: "i \<in> set (entry (si_store_src (pag_indices pag)) node [])"
  let ?c = "pag_constraints pag ! i"
  note I = conjunct1 [OF I'] and J = conjunct2 [OF I']
  have "listed pag Store c_src (si_store_src (pag_indices pag))" using assms(2) by (simp add: pag_ok_def indexed_def)
  note L = listedD [OF this i] and N = endpoints [OF assms(2) listedD(1) [OF this i]]
  have r: "\<forall>ts l. None = Some ts \<longrightarrow> l \<in> set ts \<longrightarrow> l < length (pag_locations pag)" by simp
  have v: "\<forall>l \<in> ran (pag_var_location pag) \<union> ran (pag_field_loc_to_summary pag). l < length (pag_locations pag)" using assms(2) unfolding pag_ok_def by blast
  have ok: "solver_ok pag s" using I by (simp add: reached_def)
  have "store_reads s ?c (New new) \<subseteq> pts_of s (c_src ?c)" using L(3) assms(7) advancesD(2) [OF J, of node] by (simp add: store_reads_def)
  from store_advances [OF assms(1) ok L(1) N(3) r this v reached_cells [OF I assms(5)], of is_ptr no_views] obtain s' where
    s': "apply_store_to_targets iter is_ptr pag i None (New new) no_views s = Some s'" "solver_ok pag s'" "advances pag s s'"
    "\<forall>d \<in> pts_of s (c_dst ?c). fn_for_loc pag d = Some None \<longrightarrow> loc_kind pag d \<noteq> Some StringLit \<longrightarrow>
       {l \<in> set new. adm pag s d l} \<union> set (opt_list (store_self_loc is_ptr pag (pag_nodes pag ! c_src ?c))) \<subseteq> set (mem_of s' d)"
    by (auto simp: store_reads_def store_writes_def)
  note A = advancesD [OF s'(3)]
  have w: "without is X i \<subseteq> set new" using assms(6) [of i] by (auto simp: without_def)
  have "reached is_ptr pag st0 ((without is X)(i := {})) Y Z s'"
  proof (rule reached_source [OF reached_step [OF assms(2) I s'(2,3)]])
    assume F: "flow_ok is_ptr pag s' (set (delta_of s' (c_src ?c)) \<union> without is X i) (set (delta_of s' (c_dst ?c)) \<union> Y i) ?c"
    have "{l \<in> pts_of s' (c_src ?c) - set (delta_of s' (c_src ?c)). adm pag s' d l} \<union> set (opt_list (store_self_loc is_ptr pag (pag_nodes pag ! c_src ?c))) \<subseteq> set (mem_of s' d)"
      if d: "d \<in> pts_of s' (c_dst ?c) - (set (delta_of s' (c_dst ?c)) \<union> Y i)" "fn_for_loc pag d = Some None" "loc_kind pag d \<noteq> Some StringLit" for d
    proof -
      have "d \<in> pts_of s (c_dst ?c)" using d(1) A(4) [of "c_dst ?c"] by blast
      then have n: "{l \<in> set new. adm pag s' d l} \<subseteq> set (mem_of s' d)" using s'(4) d(2,3) unfolding fixed_adm [OF A(1)] by blast
      have "{l \<in> pts_of s' (c_src ?c) - (set (delta_of s' (c_src ?c)) \<union> without is X i). adm pag s' d l} \<union> set (opt_list (store_self_loc is_ptr pag (pag_nodes pag ! c_src ?c))) \<subseteq> set (mem_of s' d)"
        using F d L(2) unfolding flow_ok_def by simp
      then show ?thesis using n w by blast
    qed
    then show "flow_ok is_ptr pag s' (set (delta_of s' (c_src ?c))) (set (delta_of s' (c_dst ?c)) \<union> Y i) ?c" using L(2) unfolding flow_ok_def by simp
  qed
  then show "\<exists>t. apply_store_to_targets iter is_ptr pag i None (New new) no_views s = Some t \<and> (reached is_ptr pag st0 (without (is @ [i]) X) Y Z t \<and> advances pag st t)"
    using s'(1) advances_trans [OF J s'(3)] by simp
qed

lemma addr_ofs_reached:
  assumes "iter_ok iter" "pag_ok pag" "reached is_ptr pag st0 X Y Z st"
  shows "\<exists>st'. apply_addr_ofs iter pag node st = Some st' \<and> reached is_ptr pag st0 X Y Z st' \<and> advances pag st st' \<and>
    (\<forall>i loc. i < length (pag_constraints pag) \<longrightarrow> c_kind (pag_constraints pag ! i) = AddrOf \<longrightarrow> c_dst (pag_constraints pag ! i) = node \<longrightarrow>
       pag_nodes pag ! c_src (pag_constraints pag ! i) = NodeLoc loc \<longrightarrow> loc \<in> pts_of st' node)"
proof -
  let ?l = "entry (si_addr_of_dst (pag_indices pag)) node []"
  let ?f = "\<lambda>st idx. do { c \<leftarrow> vget (pag_constraints pag) idx; kind \<leftarrow> vget (pag_nodes pag) (c_src c);
    (case kind of NodeLoc loc \<Rightarrow> add_pts iter node loc st | _ \<Rightarrow> Some st) }"
  let ?I = "\<lambda>is st'. reached is_ptr pag st0 X Y Z st' \<and> advances pag st st' \<and>
    (\<forall>i \<in> set is. \<forall>loc. pag_nodes pag ! c_src (pag_constraints pag ! i) = NodeLoc loc \<longrightarrow> loc \<in> pts_of st' node)"
  have list: "listed pag AddrOf c_dst (si_addr_of_dst (pag_indices pag))" using assms(2) by (simp add: pag_ok_def indexed_def)
  have "\<exists>st'. foldM ?f st ?l = Some st' \<and> ?I ?l st'"
  proof (rule foldM_prefix_rule)
    show "?I [] st" using assms(3) advances_refl by simp
    fix "is" i s assume I: "?I is s" and i: "i \<in> set ?l"
    note L = listedD [OF list i] and N = endpoints [OF assms(2) listedD(1) [OF list i]]
    show "\<exists>t. ?f s i = Some t \<and> ?I (is @ [i]) t"
    proof (cases "pag_nodes pag ! c_src (pag_constraints pag ! i)")
      case (NodeLoc loc)
      have "NodeLoc loc \<in> set (pag_nodes pag)" using N(1) NodeLoc nth_mem by metis
      then have "loc < length (pag_locations pag)" "solver_ok pag s" "node < length (pag_nodes pag)" using assms(2) I N(2) L(3) by (auto simp: pag_ok_def reached_def)
      from add_pts_advances [OF assms(1) this(2,1,3)] obtain s' where s': "add_pts iter node loc s = Some s'" "solver_ok pag s'" "advances pag s s'" "loc \<in> pts_of s' node" by blast
      have "?I (is @ [i]) s'" using I reached_step [OF assms(2) _ s'(2,3)] advances_trans [OF _ s'(3)] s'(4) NodeLoc advancesD(2) [OF s'(3), of node] by auto
      then show ?thesis using L(1) N(3) NodeLoc s'(1) by simp
    qed (use I L(1) N(3) in auto)
  qed
  then show ?thesis using list unfolding apply_addr_ofs_def listed_def by auto
qed

section \<open>The invariant of the loop\<close>

definition seeded :: "Pag \<Rightarrow> PagNodeId set \<Rightarrow> SolverState \<Rightarrow> bool" where
  "seeded pag W st \<longleftrightarrow> (\<forall>i loc. i < length (pag_constraints pag) \<longrightarrow> c_kind (pag_constraints pag ! i) = AddrOf \<longrightarrow>
     pag_nodes pag ! c_src (pag_constraints pag ! i) = NodeLoc loc \<longrightarrow>
     loc \<in> pts_of st (c_dst (pag_constraints pag ! i)) \<or> c_dst (pag_constraints pag ! i) \<in> W - st_seen_once st)"

definition bounded :: "Pag \<Rightarrow> SolverState \<Rightarrow> bool" where
  "bounded pag st \<longleftrightarrow> (\<forall>n. set (delta_of st n) \<subseteq> pts_of st n \<and> (pts_of st n \<noteq> {} \<longrightarrow> n < length (pag_nodes pag))) \<and> (\<forall>c. mem_of st c \<noteq> [] \<longrightarrow> c < length (pag_locations pag))"

text \<open>The nodes of \<open>W\<close> are still to be popped.\<close>

definition loop_ok :: "(VarId \<Rightarrow> bool) \<Rightarrow> Pag \<Rightarrow> PagNodeId set \<Rightarrow> SolverState \<Rightarrow> bool" where
  "loop_ok is_ptr pag W st \<longleftrightarrow> solver_ok pag st \<and> cells_ok pag st \<and> settled is_ptr pag (\<lambda>_. {}) (\<lambda>_. {}) (\<lambda>_. {}) st \<and> seeded pag W st \<and> bounded pag st \<and>
     (\<forall>n. delta_of st n \<noteq> [] \<longrightarrow> n \<in> W)"

lemma loop_okD:
  assumes "loop_ok is_ptr pag W st"
  shows "solver_ok pag st" "cells_ok pag st" "settled is_ptr pag (\<lambda>_. {}) (\<lambda>_. {}) (\<lambda>_. {}) st" "seeded pag W st" "bounded pag st" "\<And>n. delta_of st n \<noteq> [] \<Longrightarrow> n \<in> W"
  using assms by (auto simp: loop_ok_def)

lemma bounded_advances:
  assumes "advances pag a b" "bounded pag a"
  shows "bounded pag b"
proof -
  note A = advancesD [OF assms(1)]
  have "set (delta_of b n) \<subseteq> pts_of b n" "pts_of b n \<noteq> {} \<Longrightarrow> n < length (pag_nodes pag)" for n
    using assms(2) A(2,3,5) [of n] unfolding bounded_def by blast+
  moreover have "c < length (pag_locations pag)" if "mem_of b c \<noteq> []" for c
    using that assms(2) A(9) [of c] unfolding bounded_def by (cases "mem_of a c = []") auto
  ultimately show ?thesis unfolding bounded_def by blast
qed

lemma seeded_advances:
  assumes "advances pag a b" "seeded pag W a" "W \<subseteq> W'"
  shows "seeded pag W' b"
proof -
  have "st_seen_once b = st_seen_once a" using advancesD(1) [OF assms(1)] by (simp add: fixed_def)
  then show ?thesis using assms(2,3) advancesD(2) [OF assms(1)] unfolding seeded_def by blast
qed

lemma flow_ok_cong:
  assumes "pts_of a = pts_of b" "mem_of a = mem_of b" "adm pag a = adm pag b"
  shows "flow_ok is_ptr pag a = flow_ok is_ptr pag b"
proof -
  have "contribution pag a = contribution pag b" by (simp add: fun_eq_iff contribution_def assms(2,3))
  then show ?thesis by (simp add: fun_eq_iff flow_ok_def assms cong: ConstraintKind.case_cong)
qed

text \<open>What a pop takes off the queue and the delta.\<close>

lemma solver_ok_queue:
  assumes "solver_ok pag a" "queue_ok b" "core b = core a" "st_loc_nodes b = st_loc_nodes a"
  shows "solver_ok pag b" "pts_of b = pts_of a" "mem_of b = mem_of a" "adm pag b = adm pag a" "fixed b = fixed a"
proof -
  note E = core_eqD [OF assms(3)]
  show eq: "pts_of b = pts_of a" "mem_of b = mem_of a" "adm pag b = adm pag a" "fixed b = fixed a"
    using E by (auto intro!: ext simp: pts_of_def mem_of_def adm_def fixed_def)
  have eq': "seen_of b = seen_of a" "holders_of b = holders_of a" using E assms(4) by (auto intro!: ext simp: seen_of_def holders_of_def)
  have "index_ok (pag_indices pag) b = index_ok (pag_indices pag) a" "bits_ok b = bits_ok a" "range_ok pag b = range_ok pag a" "merged_ok pag b = merged_ok pag a"
    by (simp_all add: index_ok_def bits_ok_def range_ok_def merged_ok_def eq eq' E assms(4))
  then show "solver_ok pag b" using assms(1,2) by (simp add: solver_ok_def)
qed

lemma dequeued:
  assumes "solver_ok pag st" "st_worklist st \<noteq> []"
  defines "s \<equiv> st\<lparr>st_worklist := butlast (st_worklist st), st_queued := st_queued st - {last (st_worklist st)}\<rparr>"
  shows "queue_ok s" "core s = core st" "st_loc_nodes s = st_loc_nodes st" "delta_of s = delta_of st" "st_worklist s = butlast (st_worklist st)"
proof -
  obtain ws n where w: "st_worklist st = ws @ [n]" using assms(2) by (metis rev_exhaust)
  show "queue_ok s" using assms(1) w by (auto simp: solver_ok_def queue_ok_def s_def delta_of_def)
qed (simp_all add: s_def core_def delta_of_def fun_eq_iff)

lemma taken:
  assumes "queue_ok st" "take_delta node st = (delta, s)"
  shows "delta = delta_of st node" "queue_ok s" "core s = core st" "st_loc_nodes s = st_loc_nodes st" "delta_of s = (delta_of st)(node := [])" "st_worklist s = st_worklist st"
proof -
  show d: "delta = delta_of st node" using assms(2) by (simp add: take_delta_def Let_def delta_of_def)
  have s: "s = st\<lparr>st_delta := (case st_delta st node of None \<Rightarrow> st_delta st | Some _ \<Rightarrow> (st_delta st)(node \<mapsto> [])), st_delta_pending := st_delta_pending st - Pair node ` set delta\<rparr>"
    using assms(2) by (auto simp: take_delta_def Let_def)
  show e: "delta_of s = (delta_of st)(node := [])" unfolding s by (auto simp: delta_of_def entry_def fun_eq_iff split: option.splits)
  show "queue_ok s" using assms(1) d unfolding queue_ok_def e by (auto simp: s)
qed (use assms(2) in \<open>auto simp: take_delta_def Let_def core_def\<close>)

lemma settled_taken:
  assumes "settled is_ptr pag (\<lambda>_. {}) (\<lambda>_. {}) (\<lambda>_. {}) a" "pts_of b = pts_of a" "mem_of b = mem_of a" "adm pag b = adm pag a"
    "st_synced_cell b = st_synced_cell a" "st_cell_owner b = st_cell_owner a" "delta_of b = (delta_of a)(node := [])"
  shows "settled is_ptr pag (\<lambda>i. if c_src (pag_constraints pag ! i) = node then set (delta_of a node) else {})
    (\<lambda>i. if c_dst (pag_constraints pag ! i) = node then set (delta_of a node) else {}) (\<lambda>n. if n = node then set (delta_of a node) else {}) b"
proof -
  have d: "set (delta_of b n) \<union> (if n = node then set (delta_of a node) else {}) = set (delta_of a n)" for n using assms(7) by simp
  have f: "flow_ok is_ptr pag b = flow_ok is_ptr pag a" by (rule flow_ok_cong [OF assms(2-4)])
  show ?thesis using assms(1) unfolding settled_def Let_def d f assms(2-6) by simp
qed

text \<open>The sets from which a constraint was still owed are empty once every list of the node is done.\<close>

lemma settled_done:
  assumes "pag_ok pag" "\<And>i. c_src (pag_constraints pag ! i) \<noteq> node \<Longrightarrow> X i = {}" "\<And>i. c_dst (pag_constraints pag ! i) \<noteq> node \<Longrightarrow> Y i = {}"
    "settled is_ptr pag (without (entry (si_store_src (pag_indices pag)) node []) (without (entry (si_load_src (pag_indices pag)) node [])
       (without (entry (si_copy_src (pag_indices pag)) node []) X))) (without (entry (si_store_dst (pag_indices pag)) node []) Y) Z st"
  shows "settled is_ptr pag (\<lambda>_. {}) (\<lambda>_. {}) Z st"
proof (rule settled_constraint [OF assms(4)])
  let ?ix = "pag_indices pag"
  fix j assume j: "j < length (pag_constraints pag)"
  let ?c = "pag_constraints pag ! j" and ?X = "without (entry (si_store_src ?ix) node []) (without (entry (si_load_src ?ix) node []) (without (entry (si_copy_src ?ix) node []) X)) j"
    and ?Y = "without (entry (si_store_dst ?ix) node []) Y j"
  have ix: "listed pag Copy c_src (si_copy_src ?ix)" "listed pag Load c_src (si_load_src ?ix)" "listed pag Store c_dst (si_store_dst ?ix)" "listed pag Store c_src (si_store_src ?ix)"
    using assms(1) by (auto simp: pag_ok_def indexed_def)
  have X: "?X = {}" if "c_kind ?c = Copy \<or> c_kind ?c = Load \<or> c_kind ?c = Store"
    using that j ix assms(2) [of j] by (cases "c_src ?c = node") (auto simp: without_def listed_def)
  have Y: "?Y = {}" if "c_kind ?c = Store" using that j ix assms(3) [of j] by (cases "c_dst ?c = node") (auto simp: without_def listed_def)
  assume "flow_ok is_ptr pag st (set (delta_of st (c_src ?c)) \<union> ?X) (set (delta_of st (c_dst ?c)) \<union> ?Y) ?c"
  then show "flow_ok is_ptr pag st (set (delta_of st (c_src ?c)) \<union> {}) (set (delta_of st (c_dst ?c)) \<union> {}) ?c"
    using X Y by (cases "c_kind ?c") (auto simp: flow_ok_def)
qed

lemma settled_synced:
  assumes "settled is_ptr pag X Y (\<lambda>n. if n = node then D else {}) st" "\<forall>c. st_synced_cell st node = Some c \<longrightarrow> {l \<in> D. adm pag st c l} \<subseteq> set (mem_of st c)"
  shows "settled is_ptr pag X Y (\<lambda>_. {}) st"
proof -
  have "{l \<in> pts_of st n - (set (delta_of st n) \<union> {}). adm pag st c l} \<subseteq> set (mem_of st c)" if c: "st_synced_cell st n = Some c" for n c
  proof -
    have "{l \<in> pts_of st n - (set (delta_of st n) \<union> (if n = node then D else {})). adm pag st c l} \<subseteq> set (mem_of st c)" using assms(1) c unfolding settled_def by blast
    then show ?thesis using assms(2) c by (cases "n = node") auto
  qed
  then show ?thesis using assms(1) unfolding settled_def by blast
qed

text \<open>The flows of a nonempty delta settle the node.\<close>

lemma flows_settle:
  assumes "iter_ok iter" "pag_ok pag" "solver_ok pag st0" "cells_ok pag st0" "set delta \<subseteq> pts_of st0 node"
    "settled is_ptr pag (\<lambda>i. if c_src (pag_constraints pag ! i) = node then set delta else {}) (\<lambda>i. if c_dst (pag_constraints pag ! i) = node then set delta else {})
       (\<lambda>n. if n = node then set delta else {}) st0"
  shows "\<exists>st2 st3 st4 st5 st6 st7. sync_var_to_cell iter pag node delta st0 = Some st2 \<and> flow_copies iter pag node delta st2 = Some st3 \<and>
    apply_addr_ofs iter pag node st3 = Some st4 \<and> flow_loads iter pag node delta st4 = Some st5 \<and>
    flow_stores iter is_ptr pag (Some delta) Whole (entry (si_store_dst (pag_indices pag)) node []) st5 = Some st6 \<and>
    flow_stores iter is_ptr pag None (New (in_set_order iter (st_pts st6 node) delta)) (entry (si_store_src (pag_indices pag)) node []) st6 = Some st7 \<and>
    reached is_ptr pag st0 (\<lambda>_. {}) (\<lambda>_. {}) (\<lambda>_. {}) st7 \<and>
    (\<forall>i loc. i < length (pag_constraints pag) \<longrightarrow> c_kind (pag_constraints pag ! i) = AddrOf \<longrightarrow> c_dst (pag_constraints pag ! i) = node \<longrightarrow>
       pag_nodes pag ! c_src (pag_constraints pag ! i) = NodeLoc loc \<longrightarrow> loc \<in> pts_of st7 node)"
proof -
  let ?X = "\<lambda>i. if c_src (pag_constraints pag ! i) = node then set delta else {}" and ?Y = "\<lambda>i. if c_dst (pag_constraints pag ! i) = node then set delta else {}"
  let ?Z = "\<lambda>_ :: PagNodeId. {} :: LocId set" and ?ix = "pag_indices pag"
  have sub: "?X i \<subseteq> set delta" and sub': "?Y i \<subseteq> set delta" for i by simp_all
  obtain st2 where s2: "sync_var_to_cell iter pag node delta st0 = Some st2" "solver_ok pag st2" "advances pag st0 st2"
    "\<forall>c. st_synced_cell st0 node = Some c \<longrightarrow> {l \<in> set delta. adm pag st0 c l} \<subseteq> set (mem_of st2 c)" using sync_advances [OF assms(1,3,4,5)] by blast
  have "\<forall>c. st_synced_cell st2 node = Some c \<longrightarrow> {l \<in> set delta. adm pag st2 c l} \<subseteq> set (mem_of st2 c)"
    using s2(4) fixed_adm [OF advancesD(1) [OF s2(3)]] advancesD(1) [OF s2(3)] by (simp add: fixed_def)
  from settled_synced [OF settled_advances [OF assms(2) s2(3) assms(6)] this] have r2: "reached is_ptr pag st0 ?X ?Y ?Z st2" using s2 by (simp add: reached_def)
  obtain st3 where s3: "flow_copies iter pag node delta st2 = Some st3" and r3: "reached is_ptr pag st0 (without (entry (si_copy_src ?ix) node []) ?X) ?Y ?Z st3"
    using copies_reached [OF assms(1,2) r2 assms(5,3) sub] by blast
  obtain st4 where s4: "apply_addr_ofs iter pag node st3 = Some st4" and r4: "reached is_ptr pag st0 (without (entry (si_copy_src ?ix) node []) ?X) ?Y ?Z st4"
    and seed: "\<forall>i loc. i < length (pag_constraints pag) \<longrightarrow> c_kind (pag_constraints pag ! i) = AddrOf \<longrightarrow> c_dst (pag_constraints pag ! i) = node \<longrightarrow>
       pag_nodes pag ! c_src (pag_constraints pag ! i) = NodeLoc loc \<longrightarrow> loc \<in> pts_of st4 node" using addr_ofs_reached [OF assms(1,2) r3] by blast
  have ok4: "solver_ok pag st4" "advances pag st0 st4" and b4: "reached is_ptr pag st4 (without (entry (si_copy_src ?ix) node []) ?X) ?Y ?Z st4"
    using r4 advances_refl by (auto simp: reached_def)
  have c4: "cells_ok pag st4" "set delta \<subseteq> pts_of st4 node" using reached_cells [OF r4 assms(4)] assms(5) advancesD(2) [OF ok4(2), of node] by auto
  have "without (entry (si_copy_src ?ix) node []) ?X i \<subseteq> set delta" for i by (auto simp: without_def)
  from loads_reached [OF assms(1,2) b4 c4(2) ok4(1) this] obtain st5 where s5: "flow_loads iter pag node delta st4 = Some st5"
    and r5: "reached is_ptr pag st4 (without (entry (si_load_src ?ix) node []) (without (entry (si_copy_src ?ix) node []) ?X)) ?Y ?Z st5" by blast
  obtain st6 where s6: "flow_stores iter is_ptr pag (Some delta) Whole (entry (si_store_dst ?ix) node []) st5 = Some st6"
    and r6: "reached is_ptr pag st4 (without (entry (si_load_src ?ix) node []) (without (entry (si_copy_src ?ix) node []) ?X)) (without (entry (si_store_dst ?ix) node []) ?Y) ?Z st6"
    using store_targets_reached [OF assms(1,2) r5 c4(2) ok4(1) c4(1) sub'] by blast
  have p6: "set delta \<subseteq> pts_of st6 node" "solver_ok pag st6" using c4(2) r6 advancesD(2) [of pag st4 st6 node] by (auto simp: reached_def)
  have new: "set (in_set_order iter (st_pts st6 node) delta) = set delta"
    using p6(1) iter_pts [OF assms(1) p6(2), of node] by (auto simp: in_set_order_def pts_of_def entry_def split: option.splits)
  have "without (entry (si_load_src ?ix) node []) (without (entry (si_copy_src ?ix) node []) ?X) i \<subseteq> set (in_set_order iter (st_pts st6 node) delta)" for i
    unfolding new by (auto simp: without_def)
  from store_sources_reached [OF assms(1,2) r6 ok4(1) c4(1) this] obtain st7 where
    s7: "flow_stores iter is_ptr pag None (New (in_set_order iter (st_pts st6 node) delta)) (entry (si_store_src ?ix) node []) st6 = Some st7"
    and r7: "reached is_ptr pag st4 (without (entry (si_store_src ?ix) node []) (without (entry (si_load_src ?ix) node []) (without (entry (si_copy_src ?ix) node []) ?X)))
      (without (entry (si_store_dst ?ix) node []) ?Y) ?Z st7" using p6(1) new by blast
  have a7: "solver_ok pag st7" "advances pag st4 st7" using r7 by (auto simp: reached_def)
  have "settled is_ptr pag (\<lambda>_. {}) (\<lambda>_. {}) ?Z st7" using r7 by (intro settled_done [OF assms(2), where X = ?X and Y = ?Y]) (auto simp: reached_def)
  then have "reached is_ptr pag st0 (\<lambda>_. {}) (\<lambda>_. {}) ?Z st7" using a7 advances_trans [OF ok4(2) a7(2)] by (simp add: reached_def)
  moreover have "\<forall>i loc. i < length (pag_constraints pag) \<longrightarrow> c_kind (pag_constraints pag ! i) = AddrOf \<longrightarrow> c_dst (pag_constraints pag ! i) = node \<longrightarrow>
       pag_nodes pag ! c_src (pag_constraints pag ! i) = NodeLoc loc \<longrightarrow> loc \<in> pts_of st7 node" using seed advancesD(2) [OF a7(2), of node] by blast
  ultimately show ?thesis using s2(1) s3 s4 s5 s6 s7 by blast
qed

end
