(* ===== verification/Solver_Props.thy ===== *)
theory Solver_Props
  imports Solver_Fixpoint
begin

text \<open>
  The properties of the solver's loop: it keeps its invariant, it ends, and where it ends it has a solution of the constraints.
\<close>

section \<open>One pop keeps the invariant\<close>

lemma seen_once_free:
  "solver_ok pag (st\<lparr>st_seen_once := x\<rparr>) = solver_ok pag st" "pts_of (st\<lparr>st_seen_once := x\<rparr>) = pts_of st" "mem_of (st\<lparr>st_seen_once := x\<rparr>) = mem_of st"
  "delta_of (st\<lparr>st_seen_once := x\<rparr>) = delta_of st" "adm pag (st\<lparr>st_seen_once := x\<rparr>) = adm pag st" "cells_ok pag (st\<lparr>st_seen_once := x\<rparr>) = cells_ok pag st"
proof -
  show eq: "pts_of (st\<lparr>st_seen_once := x\<rparr>) = pts_of st" "mem_of (st\<lparr>st_seen_once := x\<rparr>) = mem_of st" "delta_of (st\<lparr>st_seen_once := x\<rparr>) = delta_of st"
    "adm pag (st\<lparr>st_seen_once := x\<rparr>) = adm pag st" by (simp_all add: fun_eq_iff pts_of_def mem_of_def delta_of_def adm_def)
  have "holders_of (st\<lparr>st_seen_once := x\<rparr>) = holders_of st" "seen_of (st\<lparr>st_seen_once := x\<rparr>) = seen_of st" by (simp_all add: fun_eq_iff holders_of_def seen_of_def)
  then show "solver_ok pag (st\<lparr>st_seen_once := x\<rparr>) = solver_ok pag st"
    by (simp add: solver_ok_def queue_ok_def index_ok_def bits_ok_def range_ok_def merged_ok_def eq)
qed (simp add: cells_ok_def)

lemma settled_cong:
  assumes "pts_of b = pts_of a" "mem_of b = mem_of a" "adm pag b = adm pag a" "delta_of b = delta_of a" "st_synced_cell b = st_synced_cell a" "st_cell_owner b = st_cell_owner a"
  shows "settled is_ptr pag X Y Z b = settled is_ptr pag X Y Z a"
  unfolding settled_def assms flow_ok_cong [OF assms(1-3)] by simp

lemma loop_ok_advanced:
  assumes "advances pag b st" "solver_ok pag st" "settled is_ptr pag (\<lambda>_. {}) (\<lambda>_. {}) (\<lambda>_. {}) st" "cells_ok pag b" "bounded pag b"
    "\<And>n. delta_of b n \<noteq> [] \<Longrightarrow> n \<in> set (st_worklist b)" "seeded pag (set (st_worklist b)) st"
  shows "loop_ok is_ptr pag (set (st_worklist st)) st"
proof -
  note A = advancesD [OF assms(1)]
  have "cells_ok pag st" using assms(4) A(1) by (simp add: cells_ok_def fixed_def)
  moreover have "n \<in> set (st_worklist st)" if "delta_of st n \<noteq> []" for n
    using that A(6) A(7) [of n] assms(6) [of n] by (metis set_empty subsetD)
  moreover have "seeded pag (set (st_worklist st)) st" using assms(7) A(6) unfolding seeded_def by blast
  ultimately show ?thesis using assms(2,3) bounded_advances [OF assms(1,5)] by (simp add: loop_ok_def)
qed

text \<open>A pop that returns a state returns one that again satisfies the invariant.\<close>

definition popped_ok :: "(VarId \<Rightarrow> bool) \<Rightarrow> Pag \<Rightarrow> SolverState \<Rightarrow> SolverState \<Rightarrow> bool" where
  "popped_ok is_ptr pag b st \<longleftrightarrow> loop_ok is_ptr pag (set (st_worklist st)) st \<and> (\<forall>n. pts_of b n \<subseteq> pts_of st n) \<and> (\<forall>c. set (mem_of b c) \<subseteq> set (mem_of st c)) \<and>
     ((\<forall>n. pts_of st n = pts_of b n) \<longrightarrow> (\<forall>c. set (mem_of st c) = set (mem_of b c)) \<longrightarrow> set (st_worklist st) = set (st_worklist b))"

lemma popped_advanced:
  assumes "advances pag b st" "solver_ok pag st" "settled is_ptr pag (\<lambda>_. {}) (\<lambda>_. {}) (\<lambda>_. {}) st" "cells_ok pag b" "bounded pag b"
    "\<And>n. delta_of b n \<noteq> [] \<Longrightarrow> n \<in> set (st_worklist b)" "seeded pag (set (st_worklist b)) st"
  shows "popped_ok is_ptr pag b st"
  using loop_ok_advanced [OF assms] advancesD(2,8,12) [OF assms(1)] unfolding popped_ok_def by blast

lemma seeded_rest:
  assumes "seeded pag (insert node W) a" "\<And>n. pts_of a n \<subseteq> pts_of b n" "st_seen_once b \<subseteq> insert node (st_seen_once a)"
    "\<forall>i loc. i < length (pag_constraints pag) \<longrightarrow> c_kind (pag_constraints pag ! i) = AddrOf \<longrightarrow> c_dst (pag_constraints pag ! i) = node \<longrightarrow>
       pag_nodes pag ! c_src (pag_constraints pag ! i) = NodeLoc loc \<longrightarrow> loc \<in> pts_of b node"
  shows "seeded pag W b"
  unfolding seeded_def
proof (intro allI impI)
  fix i loc assume i: "i < length (pag_constraints pag)" "c_kind (pag_constraints pag ! i) = AddrOf" "pag_nodes pag ! c_src (pag_constraints pag ! i) = NodeLoc loc"
  let ?d = "c_dst (pag_constraints pag ! i)"
  show "loc \<in> pts_of b ?d \<or> ?d \<in> W - st_seen_once b"
  proof (cases "?d = node")
    case True
    then show ?thesis using assms(4) i by blast
  next
    case False
    have "loc \<in> pts_of a ?d \<or> ?d \<in> insert node W - st_seen_once a" using assms(1) i unfolding seeded_def by blast
    then show ?thesis using False assms(2) [of ?d] assms(3) by blast
  qed
qed

lemma pop_ok:
  assumes "iter_ok iter" "pag_ok pag" "loop_ok is_ptr pag (insert node (set (st_worklist st))) st" "\<not> pop_outside pag watch node"
  shows "\<exists>st'. pop_node iter is_ptr pag watch node st = Some (Popped st') \<and> popped_ok is_ptr pag st st'"
proof -
  note I = loop_okD [OF assms(3)]
  obtain delta s where td: "take_delta node st = (delta, s)" by fastforce
  have "queue_ok st" using I(1) by (simp add: solver_ok_def)
  note T = taken [OF this td] and Q = solver_ok_queue [OF I(1) taken(2-4) [OF this td]]
  have fx: "st_synced_cell s = st_synced_cell st" "st_cell_owner s = st_cell_owner st" "st_seen_once s = st_seen_once st" using Q(5) by (simp_all add: fixed_def)
  have c: "cells_ok pag s" using I(2) fx by (simp add: cells_ok_def)
  have b: "bounded pag s" using I(5) unfolding bounded_def Q(2,3) T(5) by auto
  have dw: "n \<in> set (st_worklist s)" if "delta_of s n \<noteq> []" for n using that I(6) [of n] T(5,6) by (auto split: if_splits)
  have sub: "set delta \<subseteq> pts_of s node" using I(5) T(1) Q(2) by (simp add: bounded_def)
  note S = settled_taken [OF I(3) Q(2-4) fx(1,2) T(5), folded T(1)]
  have undo: "popped_ok is_ptr pag st st'" if "popped_ok is_ptr pag s' st'" "pts_of s' = pts_of s" "mem_of s' = mem_of s" "st_worklist s' = st_worklist s" for st' s'
    using that unfolding popped_ok_def Q(2,3) T(6) by (simp add: Q(2,3) T(6))
  show ?thesis
  proof (cases "delta = []")
    case True
    have S0: "settled is_ptr pag (\<lambda>_. {}) (\<lambda>_. {}) (\<lambda>_. {}) s" using S unfolding True by (simp only: list.set(1) if_cancel)
    show ?thesis
    proof (cases "node \<in> st_seen_once s")
      case seen: True
      have "seeded pag (set (st_worklist s)) s" using I(4) seen fx(3) T(6) unfolding seeded_def Q(2) by auto
      then have "popped_ok is_ptr pag s s" using dw by (intro popped_advanced [OF advances_refl Q(1) S0 c b]) auto
      then show ?thesis using undo td True seen by (simp add: pop_node_def)
    next
      case False
      let ?s = "s\<lparr>st_seen_once := insert node (st_seen_once s)\<rparr>"
      have "reached is_ptr pag ?s (\<lambda>_. {}) (\<lambda>_. {}) (\<lambda>_. {}) ?s"
        using Q(1) S0 advances_refl settled_cong [of ?s s pag is_ptr] by (simp add: reached_def seen_once_free)
      from addr_ofs_reached [OF assms(1,2) this, of node] obtain st' where a: "apply_addr_ofs iter pag node ?s = Some st'"
        "solver_ok pag st'" "advances pag ?s st'" "settled is_ptr pag (\<lambda>_. {}) (\<lambda>_. {}) (\<lambda>_. {}) st'"
        "\<forall>i loc. i < length (pag_constraints pag) \<longrightarrow> c_kind (pag_constraints pag ! i) = AddrOf \<longrightarrow> c_dst (pag_constraints pag ! i) = node \<longrightarrow>
           pag_nodes pag ! c_src (pag_constraints pag ! i) = NodeLoc loc \<longrightarrow> loc \<in> pts_of st' node" unfolding reached_def by blast
      have "st_seen_once st' = insert node (st_seen_once s)" using advancesD(1) [OF a(3)] by (simp add: fixed_def)
      then have sd: "seeded pag (set (st_worklist st)) st'"
        using advancesD(2) [OF a(3)] fx(3) by (intro seeded_rest [OF I(4) _ _ a(5)]) (simp_all add: seen_once_free Q(2))
      have b': "bounded pag ?s" using b unfolding bounded_def seen_once_free by simp
      have "popped_ok is_ptr pag ?s st'" using sd T(6) dw
        by (intro popped_advanced [OF a(3,2,4) _ b']) (auto simp: seen_once_free c)
      then have "popped_ok is_ptr pag st st'" by (rule undo) (simp_all add: seen_once_free)
      moreover have "entry (si_gep_src (pag_indices pag)) node [] = []" using assms(4) by (simp add: pop_outside_def)
      ultimately show ?thesis using a(1) td True False by (simp add: pop_node_def)
    qed
  next
    case False
    obtain st2 st3 st4 st5 st6 st7 where f: "sync_var_to_cell iter pag node delta s = Some st2" "flow_copies iter pag node delta st2 = Some st3"
      "apply_addr_ofs iter pag node st3 = Some st4" "flow_loads iter pag node delta st4 = Some st5"
      "flow_stores iter is_ptr pag (Some delta) Whole (entry (si_store_dst (pag_indices pag)) node []) st5 = Some st6"
      "flow_stores iter is_ptr pag None (New (in_set_order iter (st_pts st6 node) delta)) (entry (si_store_src (pag_indices pag)) node []) st6 = Some st7"
      "reached is_ptr pag s (\<lambda>_. {}) (\<lambda>_. {}) (\<lambda>_. {}) st7"
      "\<forall>i loc. i < length (pag_constraints pag) \<longrightarrow> c_kind (pag_constraints pag ! i) = AddrOf \<longrightarrow> c_dst (pag_constraints pag ! i) = node \<longrightarrow>
         pag_nodes pag ! c_src (pag_constraints pag ! i) = NodeLoc loc \<longrightarrow> loc \<in> pts_of st7 node"
      using flows_settle [OF assms(1,2) Q(1) c sub S] by (elim exE conjE)
    have a: "solver_ok pag st7" "advances pag s st7" "settled is_ptr pag (\<lambda>_. {}) (\<lambda>_. {}) (\<lambda>_. {}) st7" using f(7) unfolding reached_def by blast+
    have "st_seen_once st7 = st_seen_once st" using advancesD(1) [OF a(2)] fx(3) by (simp add: fixed_def)
    then have "seeded pag (set (st_worklist st)) st7" using advancesD(2) [OF a(2)] by (intro seeded_rest [OF I(4) _ _ f(8)]) (auto simp: Q(2))
    then have "popped_ok is_ptr pag s st7" using dw T(6) by (intro popped_advanced [OF a(2,1,3) c b]) auto
    then have "popped_ok is_ptr pag st st7" by (rule undo) simp_all
    moreover have "pop_node iter is_ptr pag watch node st = Some (Popped st7)"
      using td False assms(4) f(1-6) by (simp add: pop_node_def)
    ultimately show ?thesis by blast
  qed
qed

section \<open>The loop ends\<close>

text \<open>The room left in the points-to sets and in memory.\<close>

definition room :: "Pag \<Rightarrow> SolverState \<Rightarrow> nat" where
  "room pag st = (\<Sum>n < length (pag_nodes pag). length (pag_locations pag) - card (pts_of st n)) +
     (\<Sum>c < length (pag_locations pag). length (pag_locations pag) - card (set (mem_of st c)))"

lemma room_sum:
  fixes f g :: "nat \<Rightarrow> nat set"
  assumes "\<And>n. f n \<subseteq> g n" "\<And>n. g n \<subseteq> {..<k}" "\<And>n. g n \<noteq> f n \<Longrightarrow> n < m"
  shows "(\<Sum>n < m. k - card (g n)) \<le> (\<Sum>n < m. k - card (f n))" "g \<noteq> f \<Longrightarrow> (\<Sum>n < m. k - card (g n)) < (\<Sum>n < m. k - card (f n))"
proof -
  have fin: "finite (g n)" for n using assms(2) finite_subset by blast
  have le: "k - card (g n) \<le> k - card (f n)" for n using card_mono [OF fin assms(1)] by (simp add: diff_le_mono2)
  then show "(\<Sum>n < m. k - card (g n)) \<le> (\<Sum>n < m. k - card (f n))" by (simp add: sum_mono)
  assume "g \<noteq> f"
  then obtain n where n: "g n \<noteq> f n" by blast
  have "card (f n) < card (g n)" using psubset_card_mono [OF fin, of "f n" n] assms(1) n by blast
  moreover have "card (g n) \<le> k" using card_mono [OF _ assms(2), of n] by simp
  ultimately have "k - card (g n) < k - card (f n)" by simp
  then show "(\<Sum>n < m. k - card (g n)) < (\<Sum>n < m. k - card (f n))" using assms(3) [OF n] le by (intro sum_strict_mono_ex1) auto
qed

lemma popped_smaller:
  assumes "popped_ok is_ptr pag b st"
  shows "room pag st < room pag b \<or> room pag st = room pag b \<and> set (st_worklist st) = set (st_worklist b)"
proof -
  have P: "\<And>n. pts_of b n \<subseteq> pts_of st n" "\<And>c. set (mem_of b c) \<subseteq> set (mem_of st c)" "loop_ok is_ptr pag (set (st_worklist st)) st"
    "(\<forall>n. pts_of st n = pts_of b n) \<Longrightarrow> (\<forall>c. set (mem_of st c) = set (mem_of b c)) \<Longrightarrow> set (st_worklist st) = set (st_worklist b)"
    using assms unfolding popped_ok_def by blast+
  note I = loop_okD [OF P(3)]
  have r: "\<And>n. pts_of st n \<subseteq> {..<length (pag_locations pag)}" "\<And>c. set (mem_of st c) \<subseteq> {..<length (pag_locations pag)}" using I(1) by (auto simp: solver_ok_def range_ok_def)
  have s: "pts_of st n \<noteq> pts_of b n \<Longrightarrow> n < length (pag_nodes pag)" "set (mem_of st c) \<noteq> set (mem_of b c) \<Longrightarrow> c < length (pag_locations pag)" for n c
    using I(5) P(1) [of n] P(2) [of c] unfolding bounded_def by (blast, metis empty_subsetI set_empty subset_antisym)
  have A: "(\<Sum>n < length (pag_nodes pag). length (pag_locations pag) - card (pts_of st n)) < (\<Sum>n < length (pag_nodes pag). length (pag_locations pag) - card (pts_of b n))"
    if "pts_of st \<noteq> pts_of b" using room_sum(2) [of "pts_of b" "pts_of st"] P(1) r(1) s(1) that by blast
  note B = room_sum [of "\<lambda>c. set (mem_of b c)" "\<lambda>c. set (mem_of st c)" _ "length (pag_locations pag)", OF P(2) r(2)]
  show ?thesis
  proof (cases "pts_of st = pts_of b \<and> (\<lambda>c. set (mem_of st c)) = (\<lambda>c. set (mem_of b c))")
    case True
    then have "\<forall>n. pts_of st n = pts_of b n" "\<forall>c. set (mem_of st c) = set (mem_of b c)" by (auto simp: fun_eq_iff)
    then show ?thesis using P(4) by (simp add: room_def)
  next
    case False
    then have "room pag st < room pag b"
    proof (cases "pts_of st = pts_of b")
      case pts: True
      then show ?thesis using B(2) s(2) False unfolding room_def by simp
    next
      case pts: False
      show ?thesis using A [OF pts] B(1) s(2) unfolding room_def by (simp add: add_less_le_mono)
    qed
    then show ?thesis ..
  qed
qed

lemma dequeue_ok:
  assumes "loop_ok is_ptr pag (set (st_worklist st)) st" "st_worklist st \<noteq> []"
  defines "s \<equiv> st\<lparr>st_worklist := butlast (st_worklist st), st_queued := st_queued st - {last (st_worklist st)}\<rparr>"
  shows "loop_ok is_ptr pag (insert (last (st_worklist st)) (set (st_worklist s))) s" "pts_of s = pts_of st" "mem_of s = mem_of st" "card (set (st_worklist s)) < card (set (st_worklist st))"
proof -
  note I = loop_okD [OF assms(1)]
  note D = dequeued [OF I(1) assms(2), folded s_def] and Q = solver_ok_queue [OF I(1) dequeued(1-3) [OF I(1) assms(2)], folded s_def]
  show "pts_of s = pts_of st" "mem_of s = mem_of st" by (rule Q(2), rule Q(3))
  obtain ws n where w: "st_worklist st = ws @ [n]" using assms(2) by (metis rev_exhaust)
  then have W: "insert (last (st_worklist st)) (set (st_worklist s)) = set (st_worklist st)" using D(5) by simp
  have fx: "st_synced_cell s = st_synced_cell st" "st_cell_owner s = st_cell_owner st" "st_seen_once s = st_seen_once st" using Q(5) by (simp_all add: fixed_def)
  have "settled is_ptr pag (\<lambda>_. {}) (\<lambda>_. {}) (\<lambda>_. {}) s" using I(3) settled_cong [OF Q(2-4) D(4) fx(1,2), of is_ptr] by simp
  moreover have "cells_ok pag s" "bounded pag s" "seeded pag (set (st_worklist st)) s" using I(2,4,5) fx D(4) Q(2,3) by (simp_all add: cells_ok_def bounded_def seeded_def)
  ultimately show "loop_ok is_ptr pag (insert (last (st_worklist st)) (set (st_worklist s))) s" unfolding W loop_ok_def using Q(1) I(6) D(4) by simp
  have "distinct (ws @ [n])" using I(1) w by (simp add: solver_ok_def queue_ok_def)
  then show "card (set (st_worklist s)) < card (set (st_worklist st))" using D(5) w by (simp add: distinct_card)
qed

lemma solve_loop_result:
  assumes "iter_ok iter" "pag_ok pag" "\<And>n. \<not> pop_outside pag watch n" "loop_ok is_ptr pag (set (st_worklist st)) st"
  shows "\<exists>st' k conv. solve_loop iter is_ptr pag watch budget late pops st = Some (Solved st' k conv) \<and> pops \<le> k \<and>
    (conv \<longrightarrow> st_worklist st' = [] \<and> loop_ok is_ptr pag {} st') \<and> (\<not> conv \<longrightarrow> over_budget budget k \<or> over_time late k) \<and>
    (\<forall>n. pts_of st n \<subseteq> pts_of st' n) \<and> (\<forall>c. set (mem_of st c) \<subseteq> set (mem_of st' c))"
  using assms(4)
proof (induction "(room pag st, card (set (st_worklist st)))" arbitrary: st pops rule: wf_induct_rule [OF wf_lex_prod [OF wf_less wf_less]])
  case (1 st)
  let ?run = "solve_loop iter is_ptr pag watch budget late pops st"
  show ?case
  proof (cases "st_worklist st = []")
    case True
    then have "?run = Some (Solved st pops True)" by (subst solve_loop.simps) simp
    then show ?thesis using 1(2) True by (intro exI [of _ st] exI [of _ pops] exI [of _ True]) simp
  next
    case False
    let ?s = "st\<lparr>st_worklist := butlast (st_worklist st), st_queued := st_queued st - {last (st_worklist st)}\<rparr>"
    note D = dequeue_ok [OF 1(2) False]
    show ?thesis
    proof (cases "over_budget budget pops \<or> over_time late pops")
      case True
      then have "?run = Some (Solved ?s pops False)" using False by (subst solve_loop.simps) (simp add: Let_def)
      then show ?thesis using True D(2,3) by (intro exI [of _ ?s] exI [of _ pops] exI [of _ False]) simp
    next
      case go: False
      obtain st' where p: "pop_node iter is_ptr pag watch (last (st_worklist st)) ?s = Some (Popped st')" "popped_ok is_ptr pag ?s st'" using pop_ok [OF assms(1,2) D(1) assms(3)] by blast
      have r: "?run = solve_loop iter is_ptr pag watch budget late (pops + 1) st'" using False go p(1) by (subst solve_loop.simps) (simp add: Let_def)
      have m: "((room pag st', card (set (st_worklist st'))), (room pag st, card (set (st_worklist st)))) \<in> {(x, y). x < y} <*lex*> {(x, y). x < y}"
        using popped_smaller [OF p(2)] D(2-4) by (auto simp: room_def)
      have P: "loop_ok is_ptr pag (set (st_worklist st')) st'" "\<And>n. pts_of st n \<subseteq> pts_of st' n" "\<And>c. set (mem_of st c) \<subseteq> set (mem_of st' c)"
        using p(2) D(2,3) unfolding popped_ok_def by auto
      from 1(1) [OF m P(1), of "pops + 1"] show ?thesis unfolding r using P(2,3) by (meson add_leD1 order_trans)
    qed
  qed
qed

section \<open>The index\<close>

definition listed_upto :: "Pag \<Rightarrow> nat \<Rightarrow> ConstraintKind \<Rightarrow> (Constraint \<Rightarrow> PagNodeId) \<Rightarrow> (PagNodeId \<rightharpoonup> nat list) \<Rightarrow> bool" where
  "listed_upto pag k kind e m \<longleftrightarrow> (\<forall>n. set (entry m n []) = {i. i < k \<and> c_kind (pag_constraints pag ! i) = kind \<and> e (pag_constraints pag ! i) = n})"

lemma listed_upto_push:
  assumes "listed_upto pag k kind e m" "c_kind (pag_constraints pag ! k) = kind" "e (pag_constraints pag ! k) = n"
  shows "listed_upto pag (Suc k) kind e (index_push m n k)"
  using assms unfolding listed_upto_def index_push_def by (auto simp: less_Suc_eq)

lemma listed_upto_skip: "listed_upto pag k kind e m \<Longrightarrow> c_kind (pag_constraints pag ! k) \<noteq> kind \<Longrightarrow> listed_upto pag (Suc k) kind e m"
  unfolding listed_upto_def by (auto simp: less_Suc_eq)

definition indexed_upto :: "Pag \<Rightarrow> nat \<Rightarrow> SolverIndices \<Rightarrow> bool" where
  "indexed_upto pag k ix \<longleftrightarrow> listed_upto pag k Copy c_src (si_copy_src ix) \<and> listed_upto pag k AddrOf c_dst (si_addr_of_dst ix) \<and>
     listed_upto pag k Load c_src (si_load_src ix) \<and> listed_upto pag k Store c_dst (si_store_dst ix) \<and> listed_upto pag k Store c_src (si_store_src ix) \<and>
     listed_upto pag k Gep c_src (si_gep_src ix) \<and> listed_upto pag k Dlsym c_src (si_dlsym_src ix) \<and> si_unwrap_src ix = Map.empty \<and> si_indirect_by_target ix = Map.empty \<and>
     (\<forall>n. is_load_src ix n \<longleftrightarrow> si_load_src ix n \<noteq> None)"

lemma index_constraint_ok:
  assumes "indexed_upto pag k ix" "c_kind (pag_constraints pag ! k) \<noteq> UnwrapPointer" "c_src (pag_constraints pag ! k) \<le> u32_max"
  shows "\<exists>ix' srcs'. index_constraint k (pag_constraints pag ! k) (ix, srcs) = Some (ix', srcs') \<and> indexed_upto pag (Suc k) ix'"
proof (cases "c_kind (pag_constraints pag ! k)")
  case Load
  let ?n = "c_src (pag_constraints pag ! k)"
  obtain bits where b: "load_bit_put (si_load_src_bits ix) ?n = Some bits" "\<forall>m. load_bit_test bits m = (m = ?n \<or> load_bit_test (si_load_src_bits ix) m)"
    using loads.put_test [OF TrueI assms(3), of "si_load_src_bits ix"] by auto
  let ?ix = "ix\<lparr>si_load_src := index_push (si_load_src ix) ?n k, si_load_src_bits := bits\<rparr>"
  have "index_constraint k (pag_constraints pag ! k) (ix, srcs) = Some (?ix, srcs @ [?n])"
    using Load b(1) by (simp add: index_constraint_def add_load_def index_push_def entry_def)
  moreover have "\<forall>n. is_load_src ?ix n \<longleftrightarrow> si_load_src ?ix n \<noteq> None" using assms(1) b(2) unfolding indexed_upto_def is_load_src_def by (simp add: index_push_def)
  then have "indexed_upto pag (Suc k) ?ix" using assms(1) Load unfolding indexed_upto_def by (simp add: listed_upto_push listed_upto_skip)
  ultimately show ?thesis by blast
next
  case UnwrapPointer
  then show ?thesis using assms(2) by simp
qed (use assms(1) in \<open>simp_all add: index_constraint_def indexed_upto_def listed_upto_push listed_upto_skip is_load_src_def\<close>)

lemma index_result:
  assumes "pag_indices pag = SolverIndices_default" "\<forall>c \<in> set (pag_constraints pag). c_kind c \<noteq> UnwrapPointer \<and> c_src c \<le> u32_max"
  shows "\<exists>ix srcs. index_new_constraints 0 pag = Some (pag\<lparr>pag_indices := ix\<rparr>, srcs) \<and> indexed_upto pag (length (pag_constraints pag)) ix"
proof -
  let ?f = "\<lambda>s i. do { c \<leftarrow> vget (pag_constraints pag) i; index_constraint i c s }"
  have "\<exists>ix srcs. foldM ?f (pag_indices pag, []) [0..<k] = Some (ix, srcs) \<and> indexed_upto pag k ix" if "k \<le> length (pag_constraints pag)" for k
    using that
  proof (induction k)
    case 0
    then show ?case
      by (simp add: assms(1) indexed_upto_def listed_upto_def SolverIndices_default_def entry_def is_load_src_def load_bit_test_def vget_def)
  next
    case (Suc k)
    then obtain ix srcs where r: "foldM ?f (pag_indices pag, []) [0..<k] = Some (ix, srcs)" "indexed_upto pag k ix" by auto
    have k: "k < length (pag_constraints pag)" using Suc.prems by simp
    then obtain ix' srcs' where "index_constraint k (pag_constraints pag ! k) (ix, srcs) = Some (ix', srcs')" "indexed_upto pag (Suc k) ix'"
      using index_constraint_ok [OF r(2), of srcs] assms(2) nth_mem by blast
    then show ?case using r(1) k by (simp add: foldM_append vget_in)
  qed
  from this [OF order_refl] show ?thesis by (auto simp: index_new_constraints_def)
qed

end
