(* ===== verification/Solver_Start.thy ===== *)
theory Solver_Start
  imports Solver_Loop
begin

text \<open>
  The start of a solve (\<^verbatim>\<open>solve\<close> in \<^verbatim>\<open>trace-analysis/src/solver.rs\<close>): the guards that the declared types put on memory cells,
  the parameter counts of the functions, the queue, the address constants and the variables whose name denotes their storage. The program's tables are
  the fields that are read: descriptors by type id, the names of classes guessed and declared, variables and functions by
  id.
\<close>

section \<open>Types and variables\<close>

datatype TypeDesc =
    TVoid | TChar | TBool | TShort | TInt | TLong | TLongLong | TFloat | TDouble | TSizeT | TUnknown
  | TPtr TypeDesc
  | TArray TypeDesc "nat option"
  | TStruct string "(string \<times> TypeDesc) list"
  | TUnion string "(string \<times> TypeDesc) list"
  | TFnPtr TypeDesc "TypeDesc list"

fun is_pointer_like :: "TypeDesc \<Rightarrow> bool" where
  "is_pointer_like (TPtr pointee) = True"
| "is_pointer_like (TFnPtr ret params) = True"
| "is_pointer_like desc = False"

text \<open>The loop of \<open>innermost\<close> over \<open>pointee\<close>, with the layers counted.\<close>

fun innermost :: "TypeDesc \<Rightarrow> TypeDesc \<times> nat" where
  "innermost (TPtr pointee) = (let (desc, layers) = innermost pointee in (desc, layers + 1))"
| "innermost desc = (desc, 0)"

datatype StorageClass = SGlobal | SFileStatic | SFnStatic | SParam | SLocal

record Variable =
  v_id :: VarId
  v_name :: string
  v_type_id :: TypeId
  v_storage :: StorageClass
  v_fn_id :: "FnId option"
  v_is_pointer :: bool

record FnEntry =
  fe_params :: "VarId list"
  fe_is_defined :: bool

record Program =
  pr_types :: "TypeDesc list"
  pr_guessed_tags :: "string set"
  pr_declared_structs :: "string set"
  pr_variables :: "Variable list"
  pr_functions :: "FnId \<rightharpoonup> FnEntry"

definition is_guessed_class :: "Program \<Rightarrow> TypeDesc \<Rightarrow> bool" where
  "is_guessed_class program desc =
     (case desc of
        TStruct name members \<Rightarrow> pr_guessed_tags program \<noteq> {} \<and> name \<in> pr_guessed_tags program \<and> name \<notin> pr_declared_structs program
      | TUnion name members \<Rightarrow> pr_guessed_tags program \<noteq> {} \<and> name \<in> pr_guessed_tags program \<and> name \<notin> pr_declared_structs program
      | _ \<Rightarrow> False)"

definition variable_by_id :: "Program \<Rightarrow> VarId \<Rightarrow> Variable option" where
  "variable_by_id program var = (case vget (pr_variables program) var of None \<Rightarrow> None | Some v \<Rightarrow> if v_id v = var then Some v else None)"

definition var_is_pointer_like :: "Program \<Rightarrow> VarId \<Rightarrow> bool option" where
  "var_is_pointer_like program var =
     (case variable_by_id program var of
        None \<Rightarrow> Some False
      | Some v \<Rightarrow> do { desc \<leftarrow> vget (pr_types program) (v_type_id v); Some (case desc of TArray elem n \<Rightarrow> False | _ \<Rightarrow> v_is_pointer v \<or> is_pointer_like desc) })"

definition seeds_own_location :: "Program \<Rightarrow> VarId \<Rightarrow> bool option" where
  "seeds_own_location program var =
     (if (case variable_by_id program var of None \<Rightarrow> False | Some v \<Rightarrow> v_storage v \<in> {SGlobal, SFileStatic, SFnStatic})
      then map_option Not (var_is_pointer_like program var) else Some False)"

section \<open>Guards\<close>

fun slot_guard_of :: "TypeDesc \<Rightarrow> SlotGuard option" where
  "slot_guard_of (TPtr (TFnPtr ret params)) = (if params \<noteq> [] then Some (FnParams (length params)) else None)"
| "slot_guard_of (TPtr TVoid) = None"
| "slot_guard_of (TPtr TUnknown) = None"
| "slot_guard_of (TPtr pointee) = Some NotFnPtr"
| "slot_guard_of (TArray elem n) = slot_guard_of elem"
| "slot_guard_of (TFnPtr ret params) = (if params \<noteq> [] then Some (FnParams (length params)) else None)"
| "slot_guard_of (TStruct name members) = Some NotFnPtr"
| "slot_guard_of (TUnion name members) = Some NotFnPtr"
| "slot_guard_of desc = None"

definition slot_guard_for :: "Program \<Rightarrow> TypeId \<Rightarrow> SlotGuard option option" where
  "slot_guard_for program cell_type =
     do {
       desc \<leftarrow> vget (pr_types program) cell_type;
       Some (if is_guessed_class program (fst (innermost desc)) then None else slot_guard_of desc)
     }"

definition fill_guard :: "Program \<Rightarrow> SolverState \<Rightarrow> AbstractLocation \<Rightarrow> SolverState option" where
  "fill_guard program st loc =
     do {
       g \<leftarrow> slot_guard_for program (al_type_id loc);
       Some (case g of None \<Rightarrow> st | Some g \<Rightarrow> st\<lparr>st_slot_guard := (st_slot_guard st)(al_id loc \<mapsto> g)\<rparr>)
     }"

definition fill_arity :: "Program \<Rightarrow> SolverState \<Rightarrow> FnId \<times> LocId \<Rightarrow> SolverState option" where
  "fill_arity program st fl =
     (let (fn_id, loc) = fl
      in do { f \<leftarrow> pr_functions program fn_id; Some (if fe_params f \<noteq> [] then st\<lparr>st_fn_arity := (st_fn_arity st)(loc \<mapsto> length (fe_params f))\<rparr> else st) })"

section \<open>Variable cells\<close>

definition register_synced_cell :: "(nat set \<Rightarrow> nat list) \<Rightarrow> Pag \<Rightarrow> Program \<Rightarrow> LocId \<Rightarrow> SolverState \<Rightarrow> SolverState option" where
  "register_synced_cell iter pag program cell st =
     do {
       l \<leftarrow> vget (pag_locations pag) cell;
       (case al_var l of
          None \<Rightarrow> Some st
        | Some v \<Rightarrow>
            if pag_var_location pag v \<noteq> Some cell then Some st
            else do {
              ptr \<leftarrow> var_is_pointer_like program v;
              (if \<not> ptr then Some st
               else
                 (case pag_var_node pag v of
                    None \<Rightarrow> Some st
                  | Some node \<Rightarrow>
                      (let st1 = st\<lparr>st_synced_cell := (st_synced_cell st)(node \<mapsto> cell), st_cell_owner := (st_cell_owner st)(cell \<mapsto> node)\<rparr>;
                           held = sort (case st_pts st1 node of None \<Rightarrow> [] | Some s \<Rightarrow> iter s)
                       in do { st2 \<leftarrow> write_to_cell iter pag cell held st1; merge_memory_into_if_grown iter pag node cell st2 })))
            })
     }"

definition seed_addr_of :: "(nat set \<Rightarrow> nat list) \<Rightarrow> Pag \<Rightarrow> Program \<Rightarrow> SolverState \<Rightarrow> Constraint \<Rightarrow> SolverState option" where
  "seed_addr_of iter pag program st c =
     do {
       kind \<leftarrow> vget (pag_nodes pag) (c_src c);
       (case kind of
          NodeLoc loc \<Rightarrow>
            if c_kind c \<noteq> AddrOf then Some st
            else do {
              st1 \<leftarrow> (if loc \<in> st_addr_taken st then Some st
                else do {
                  l \<leftarrow> vget (pag_locations pag) loc;
                  st2 \<leftarrow> (if st_slot_guard st loc \<noteq> None then Some (st\<lparr>st_addr_taken := insert loc (st_addr_taken st)\<rparr>)
                    else do {
                      g \<leftarrow> slot_guard_for program (al_type_id l);
                      Some (st\<lparr>st_addr_taken := insert loc (st_addr_taken st), st_slot_guard := (st_slot_guard st)(loc := g)\<rparr>)
                    });
                  register_synced_cell iter pag program loc st2
                });
              add_pts iter (c_dst c) loc st1
            }
        | _ \<Rightarrow> Some st)
     }"

definition seed_own :: "(nat set \<Rightarrow> nat list) \<Rightarrow> Pag \<Rightarrow> Program \<Rightarrow> SolverState \<Rightarrow> Variable \<Rightarrow> SolverState option" where
  "seed_own iter pag program st var =
     do {
       own \<leftarrow> seeds_own_location program (v_id var);
       (if \<not> own then Some st
        else case pag_var_location pag (v_id var) of
          None \<Rightarrow> Some st
        | Some loc \<Rightarrow> do { node \<leftarrow> pag_var_node pag (v_id var); add_pts iter node loc st })
     }"

section \<open>The start\<close>

definition access_pointers :: "Pag \<Rightarrow> VarId list \<Rightarrow> PagNodeId set" where
  "access_pointers pag passed =
     (let gep_dsts = c_dst ` {c \<in> set (pag_constraints pag). c_kind c = Gep};
          accessed = c_src ` {c \<in> set (pag_constraints pag). c_kind c = Load} \<union> c_dst ` {c \<in> set (pag_constraints pag). c_kind c = Store};
          nodes = {n. \<exists>v \<in> set passed. pag_var_node pag v = Some n}
      in (accessed \<union> nodes) \<inter> gep_dsts)"

definition push_ends :: "Pag \<Rightarrow> SolverState \<Rightarrow> SolverState" where
  "push_ends pag st = fold (\<lambda>c st. push (c_src c) (push (c_dst c) st)) (pag_constraints pag) st"

definition mark_seeded :: "Pag \<Rightarrow> SolverState \<Rightarrow> SolverState" where
  "mark_seeded pag st = st\<lparr>st_seen_once := st_seen_once st \<union> c_dst ` {c \<in> set (pag_constraints pag). c_kind c = AddrOf}\<rparr>"

text \<open>\<open>passed\<close> are the variables that the call sites pass as arguments.\<close>

definition solve_start :: "(nat set \<Rightarrow> nat list) \<Rightarrow> Pag \<Rightarrow> Program \<Rightarrow> VarId list \<Rightarrow> SolverState option" where
  "solve_start iter pag program passed =
     do {
       st1 \<leftarrow> foldM (fill_guard program) (SolverState_default\<lparr>st_access_pointers := access_pointers pag passed\<rparr>) (pag_locations pag);
       st2 \<leftarrow> foldM (fill_arity program) st1 (pag_fn_locations pag);
       st4 \<leftarrow> foldM (seed_addr_of iter pag program) (push_ends pag st2) (pag_constraints pag);
       foldM (seed_own iter pag program) (mark_seeded pag st4) (pr_variables program)
     }"

end
