(* ===== verification/Solver_Solve.thy ===== *)
theory Solver_Solve
  imports Solver_Props Solver_Start
begin

text \<open>
  A whole solve: the start establishes the invariant of the loop from the well-formedness of the assignment graph and the program alone, and the
  loop ends in a solution. Also what a copy wired while solving needs.
\<close>

section \<open>The start establishes the invariant\<close>

text \<open>Everything held is still pending.\<close>

definition start_ok :: "Pag \<Rightarrow> Program \<Rightarrow> LocId set \<Rightarrow> SolverState \<Rightarrow> bool" where
  "start_ok pag program C st \<longleftrightarrow> solver_ok pag st \<and> cells_ok pag st \<and> bounded pag st \<and> (\<forall>n. pts_of st n \<subseteq> set (delta_of st n)) \<and>
     (\<forall>n. delta_of st n \<noteq> [] \<longrightarrow> n \<in> set (st_worklist st)) \<and> (\<forall>c n. c \<notin> C \<longrightarrow> st_cell_owner st c = Some n \<longrightarrow> {l \<in> set (mem_of st c). adm pag st c l} \<subseteq> pts_of st n) \<and>
     (\<forall>l < length (pag_locations pag). slot_guard_for program (al_type_id (pag_locations pag ! l)) = Some (st_slot_guard st l)) \<and>
     (\<forall>n c. st_synced_cell st n = Some c \<longrightarrow> (\<exists>v. al_var (pag_locations pag ! c) = Some v \<and> pag_var_node pag v = Some n))"

lemma start_okD:
  assumes "start_ok pag program C st"
  shows "solver_ok pag st" "cells_ok pag st" "bounded pag st" "\<And>n. pts_of st n \<subseteq> set (delta_of st n)" "\<And>n. delta_of st n \<noteq> [] \<Longrightarrow> n \<in> set (st_worklist st)"
    "\<And>c n. c \<notin> C \<Longrightarrow> st_cell_owner st c = Some n \<Longrightarrow> {l \<in> set (mem_of st c). adm pag st c l} \<subseteq> pts_of st n"
    "\<And>l. l < length (pag_locations pag) \<Longrightarrow> slot_guard_for program (al_type_id (pag_locations pag ! l)) = Some (st_slot_guard st l)"
    "\<And>n c. st_synced_cell st n = Some c \<Longrightarrow> \<exists>v. al_var (pag_locations pag ! c) = Some v \<and> pag_var_node pag v = Some n"
  using assms unfolding start_ok_def by blast+

lemma start_okI:
  assumes "solver_ok pag st" "cells_ok pag st" "bounded pag st" "\<And>n. pts_of st n \<subseteq> set (delta_of st n)" "\<And>n. delta_of st n \<noteq> [] \<Longrightarrow> n \<in> set (st_worklist st)"
    "\<And>c n. c \<notin> C \<Longrightarrow> st_cell_owner st c = Some n \<Longrightarrow> {l \<in> set (mem_of st c). adm pag st c l} \<subseteq> pts_of st n"
    "\<And>l. l < length (pag_locations pag) \<Longrightarrow> slot_guard_for program (al_type_id (pag_locations pag ! l)) = Some (st_slot_guard st l)"
    "\<And>n c. st_synced_cell st n = Some c \<Longrightarrow> \<exists>v. al_var (pag_locations pag ! c) = Some v \<and> pag_var_node pag v = Some n"
  shows "start_ok pag program C st"
  unfolding start_ok_def by (intro conjI allI impI) (rule assms; assumption)+

lemma start_advances:
  assumes "start_ok pag program C a" "advances pag a b" "solver_ok pag b"
  shows "start_ok pag program C b"
proof -
  note S = start_okD [OF assms(1)] and A = advancesD [OF assms(2)]
  have fx: "st_slot_guard b = st_slot_guard a" "st_synced_cell b = st_synced_cell a" "st_cell_owner b = st_cell_owner a" using A(1) by (simp_all add: fixed_def)
  have adm: "adm pag b = adm pag a" by (rule fixed_adm [OF A(1)])
  show ?thesis
  proof (rule start_okI [OF assms(3) _ bounded_advances [OF assms(2) S(3)]])
    show "cells_ok pag b" using S(2) fx by (simp add: cells_ok_def)
    show "pts_of b n \<subseteq> set (delta_of b n)" for n using S(4) [of n] A(4) [of n] by blast
    show "n \<in> set (st_worklist b)" if "delta_of b n \<noteq> []" for n using that S(5) [of n] A(6) A(7) [of n] by (metis set_empty subsetD)
    show "{l \<in> set (mem_of b c). adm pag b c l} \<subseteq> pts_of b n" if "c \<notin> C" "st_cell_owner b c = Some n" for c n
      using that S(6) [of c n] A(2) [of n] A(11) [of c n] unfolding adm fx by blast
  qed (use S(7,8) in \<open>simp_all add: fx\<close>)
qed

lemma variable_listed: "variable_by_id program v = Some x \<Longrightarrow> x \<in> set (pr_variables program)"
proof -
  assume "variable_by_id program v = Some x"
  then have "vget (pr_variables program) v = Some x" by (auto simp: variable_by_id_def split: option.splits if_splits)
  then show ?thesis by (auto simp: vget_Some)
qed

lemma register_ok:
  assumes "iter_ok iter" "start_ok pag program {} st" "cell < length (pag_locations pag)" "\<forall>v \<in> set (pr_variables program). v_type_id v < length (pr_types program)"
    "\<forall>n \<in> ran (pag_var_node pag). n < length (pag_nodes pag)"
  shows "\<exists>st'. register_synced_cell iter pag program cell st = Some st' \<and> start_ok pag program {} st' \<and> (\<forall>n. pts_of st n \<subseteq> pts_of st' n) \<and> st_seen_once st' = st_seen_once st"
proof -
  let ?l = "pag_locations pag ! cell"
  note S = start_okD [OF assms(2)]
  have ptr: "\<exists>b. var_is_pointer_like program v = Some b" for v
  proof (cases "variable_by_id program v")
    case (Some x)
    then have "x \<in> set (pr_variables program)" using variable_listed by blast
    then show ?thesis using Some assms(4) by (auto simp: var_is_pointer_like_def vget_in)
  qed (auto simp: var_is_pointer_like_def)
  show ?thesis
  proof (cases "\<exists>v node. al_var ?l = Some v \<and> pag_var_location pag v = Some cell \<and> var_is_pointer_like program v = Some True \<and> pag_var_node pag v = Some node")
    case False
    then have "register_synced_cell iter pag program cell st = Some st"
    proof (cases "al_var ?l")
      case (Some v)
      obtain b where "var_is_pointer_like program v = Some b" using ptr by blast
      then show ?thesis using Some False by (cases b) (auto simp: register_synced_cell_def vget_in assms(3) split: option.splits)
    qed (simp add: register_synced_cell_def vget_in assms(3))
    then show ?thesis using assms(2) by simp
  next
    case True
    then obtain v node where v: "al_var ?l = Some v" "pag_var_location pag v = Some cell" "var_is_pointer_like program v = Some True" "pag_var_node pag v = Some node" by blast
    let ?s = "st\<lparr>st_synced_cell := (st_synced_cell st)(node \<mapsto> cell), st_cell_owner := (st_cell_owner st)(cell \<mapsto> node)\<rparr>"
    have eq: "pts_of ?s = pts_of st" "mem_of ?s = mem_of st" "delta_of ?s = delta_of st" "adm pag ?s = adm pag st" "holders_of ?s = holders_of st" "seen_of ?s = seen_of st"
      by (simp_all add: fun_eq_iff pts_of_def mem_of_def delta_of_def adm_def holders_of_def seen_of_def)
    have "solver_ok pag ?s = solver_ok pag st" by (simp add: solver_ok_def queue_ok_def index_ok_def bits_ok_def range_ok_def merged_ok_def eq)
    then have ok: "solver_ok pag ?s" using S(1) by simp
    have N: "node < length (pag_nodes pag)" using assms(5) v(4) by (auto simp: ran_def)
    have own: "n = node" if "st_synced_cell st n = Some cell" for n using S(8) [OF that] v by auto
    have c: "cells_ok pag ?s" using S(2) N assms(3) own unfolding cells_ok_def by auto
    have s0: "start_ok pag program {cell} ?s"
    proof (rule start_okI [OF ok c])
      show "bounded pag ?s" using S(3) by (simp add: bounded_def eq)
      show "\<exists>w. al_var (pag_locations pag ! d) = Some w \<and> pag_var_node pag w = Some n" if "st_synced_cell ?s n = Some d" for n d
        using that S(8) [of n d] v by (auto split: if_splits)
    qed (use S(4-7) in \<open>auto simp: eq split: if_splits\<close>)
    let ?h = "sort (case st_pts ?s node of None \<Rightarrow> [] | Some s \<Rightarrow> iter s)"
    have "set ?h = pts_of ?s node" using iter_pts [OF assms(1) ok, of node] by simp
    then have "set ?h \<subseteq> pts_of ?s node" by simp
    from sync_advances [OF assms(1) ok c this] obtain s2 where s2: "sync_var_to_cell iter pag node ?h ?s = Some s2" "solver_ok pag s2" "advances pag ?s s2" by blast
    note s2ok = start_advances [OF s0 s2(3,2)]
    obtain s3 where s3: "merge_memory_into_if_grown iter pag node cell s2 = Some s3" "solver_ok pag s3" "passes s2 s3"
      "pts_of s3 = (pts_of s2)(node := pts_of s2 node \<union> {l \<in> set (mem_of s2 cell). adm pag s2 cell l})"
      "set (st_worklist s3) = set (st_worklist s2) \<union> {n. pts_of s3 n \<noteq> pts_of s2 n}" using grow_passes [OF assms(1) s2(2), of node cell] by blast
    have a3: "advances pag s2 s3" using s3(4,5) N by (intro advances_passes [OF s3(3)]) (auto split: if_splits)
    note s3ok = start_okD [OF start_advances [OF s2ok a3 s3(2)]]
    have o3: "st_cell_owner s3 cell = Some node" "mem_of s3 = mem_of s2" "adm pag s3 = adm pag s2"
      using advancesD(1) [OF s2(3)] advancesD(1) [OF a3] aside_mem [OF passesD(1) [OF s3(3)]] fixed_adm [OF advancesD(1) [OF a3]] by (simp_all add: fixed_def)
    have "start_ok pag program {} s3"
    proof (rule start_okI [OF s3ok(1-5)])
      show "{l \<in> set (mem_of s3 d). adm pag s3 d l} \<subseteq> pts_of s3 n" if "st_cell_owner s3 d = Some n" for d n
        using that o3 s3(4) s3ok(6) [of d n] by (cases "d = cell") auto
    qed (use s3ok(7,8) in simp_all)
    moreover have "register_synced_cell iter pag program cell st = Some s3"
      using v s2(1) s3(1) by (simp add: register_synced_cell_def vget_in assms(3) sync_var_to_cell_def Let_def)
    moreover have "pts_of st n \<subseteq> pts_of s3 n" for n using advancesD(2) [OF advances_trans [OF s2(3) a3], of n] by (simp add: eq)
    moreover have "st_seen_once s3 = st_seen_once st" using advancesD(1) [OF advances_trans [OF s2(3) a3]] by (simp add: fixed_def)
    ultimately show ?thesis by blast
  qed
qed

text \<open>What the start relies on: ids in range, a node for every variable with a location, constraints of the four kinds that flow alone.\<close>

definition input_ok :: "Pag \<Rightarrow> Program \<Rightarrow> bool" where
  "input_ok pag program \<longleftrightarrow> length (pag_locations pag) \<le> u32_max \<and> length (pag_nodes pag) \<le> u32_max \<and>
     (\<forall>c \<in> set (pag_constraints pag). c_src c < length (pag_nodes pag) \<and> c_dst c < length (pag_nodes pag) \<and> c_kind c \<in> {Copy, AddrOf, Load, Store}) \<and>
     (\<forall>l. NodeLoc l \<in> set (pag_nodes pag) \<longrightarrow> l < length (pag_locations pag)) \<and>
     (\<forall>l \<in> ran (pag_var_location pag) \<union> ran (pag_field_loc_to_summary pag). l < length (pag_locations pag)) \<and>
     (\<forall>n \<in> ran (pag_var_node pag). n < length (pag_nodes pag)) \<and> dom (pag_var_location pag) \<subseteq> dom (pag_var_node pag) \<and>
     (\<forall>i < length (pag_locations pag). al_id (pag_locations pag ! i) = i \<and> al_type_id (pag_locations pag ! i) < length (pr_types program)) \<and>
     (\<forall>v \<in> set (pr_variables program). v_type_id v < length (pr_types program)) \<and> fst ` set (pag_fn_locations pag) \<subseteq> dom (pr_functions program)"

definition blank :: "SolverState \<Rightarrow> bool" where
  "blank st \<longleftrightarrow> st\<lparr>st_slot_guard := Map.empty, st_fn_arity := Map.empty, st_access_pointers := {}\<rparr> = SolverState_default"

lemma blankD:
  assumes "blank st"
  shows "st_pts st = Map.empty" "st_delta st = Map.empty" "st_delta_pending st = {}" "st_memory_pts st = Map.empty" "st_loc_nodes st = Map.empty" "st_worklist st = []"
    "st_queued st = {}" "st_synced_cell st = Map.empty" "st_cell_owner st = Map.empty" "st_merge_sizes st = Map.empty" "st_loc_bits st = LocBits_default"
    "st_pts_bits st = Map.empty" "st_memory_bits st = Map.empty"
  using assms by (cases st; simp add: blank_def SolverState_default_def)+

lemma blank_solver:
  assumes "blank st" "length (pag_locations pag) \<le> u32_max"
  shows "solver_ok pag st" "pts_of st = (\<lambda>_. {})" "mem_of st = (\<lambda>_. [])" "delta_of st = (\<lambda>_. [])"
proof -
  note B = blankD [OF assms(1)]
  show v: "pts_of st = (\<lambda>_. {})" "mem_of st = (\<lambda>_. [])" "delta_of st = (\<lambda>_. [])" by (simp_all add: fun_eq_iff pts_of_def mem_of_def delta_of_def entry_def B)
  have "queue_ok st" "index_ok (pag_indices pag) st" "range_ok pag st" by (simp_all add: queue_ok_def index_ok_def range_ok_def v B holders_of_def entry_def LocationHolders_default_def assms(2))
  moreover have "bits_ok st" by (simp add: bits_ok_def B lb_ok_def LocBits_default_def u32_max_def)
  moreover have "merged_ok pag st" by (simp add: merged_ok_def seen_of_def entry_def B)
  ultimately show "solver_ok pag st" by (simp add: solver_ok_def)
qed

lemma guards_filled:
  assumes "input_ok pag program" "blank st" "st_slot_guard st = Map.empty"
  shows "\<exists>st'. foldM (fill_guard program) st (pag_locations pag) = Some st' \<and> blank st' \<and>
    (\<forall>l < length (pag_locations pag). slot_guard_for program (al_type_id (pag_locations pag ! l)) = Some (st_slot_guard st' l))"
proof -
  let ?L = "pag_locations pag"
  let ?g = "\<lambda>l. slot_guard_for program (al_type_id (?L ! l))"
  have ids: "al_id (?L ! i) = i" "\<exists>x. ?g i = Some x" if "i < length ?L" for i
    using that assms(1) by (auto simp: input_ok_def slot_guard_for_def vget_in)
  have "\<exists>st'. foldM (fill_guard program) st (take k ?L) = Some st' \<and> blank st' \<and> (\<forall>l < k. ?g l = Some (st_slot_guard st' l)) \<and> (\<forall>l \<ge> k. st_slot_guard st' l = None)"
    if "k \<le> length ?L" for k using that
  proof (induction k)
    case 0
    then show ?case using assms(2,3) by simp
  next
    case (Suc k)
    then obtain s where s: "foldM (fill_guard program) st (take k ?L) = Some s" "blank s" "\<forall>l < k. ?g l = Some (st_slot_guard s l)" "\<forall>l \<ge> k. st_slot_guard s l = None" by auto
    obtain x where x: "?g k = Some x" using ids(2) [of k] Suc.prems by auto
    let ?s = "case x of None \<Rightarrow> s | Some g \<Rightarrow> s\<lparr>st_slot_guard := (st_slot_guard s)(k \<mapsto> g)\<rparr>"
    have "foldM (fill_guard program) st (take (Suc k) ?L) = Some ?s"
      using s(1) x ids(1) [of k] Suc.prems by (cases x) (simp_all add: take_Suc_conv_app_nth foldM_append fill_guard_def)
    moreover have "blank ?s" using s(2) by (cases x) (simp_all add: blank_def)
    moreover have "\<forall>l < Suc k. ?g l = Some (st_slot_guard ?s l)" using s(3,4) x by (cases x) (auto simp: less_Suc_eq)
    moreover have "\<forall>l \<ge> Suc k. st_slot_guard ?s l = None" using s(4) by (cases x) auto
    ultimately show ?case by blast
  qed
  from this [OF order_refl] show ?thesis by auto
qed

lemma arities_filled:
  assumes "fst ` set fls \<subseteq> dom (pr_functions program)" "blank st"
  shows "\<exists>st'. foldM (fill_arity program) st fls = Some st' \<and> blank st' \<and> st_slot_guard st' = st_slot_guard st"
  using assms
proof (induction fls arbitrary: st)
  case (Cons fl fls)
  obtain f l n where fl: "fl = (f, l)" "pr_functions program f = Some n" using Cons.prems(1) by (cases fl) auto
  let ?s = "if fe_params n \<noteq> [] then st\<lparr>st_fn_arity := (st_fn_arity st)(l \<mapsto> length (fe_params n))\<rparr> else st"
  have "fill_arity program st fl = Some ?s" "blank ?s" "st_slot_guard ?s = st_slot_guard st" using fl Cons.prems(2) by (simp_all add: fill_arity_def blank_def)
  then show ?case using Cons.IH [of ?s] Cons.prems(1) by auto
qed simp

lemma start_push:
  assumes "start_ok pag program C st"
  shows "start_ok pag program C (push n st)"
proof -
  note S = start_okD [OF assms]
  have "queue_ok st" using S(1) by (simp add: solver_ok_def)
  note P = push_queue [OF this, of n] and Q = solver_ok_queue [OF S(1) push_queue(1-3) [OF this, of n]]
  have fx: "st_slot_guard (push n st) = st_slot_guard st" "st_synced_cell (push n st) = st_synced_cell st" "st_cell_owner (push n st) = st_cell_owner st" using Q(5) by (simp_all add: fixed_def)
  show ?thesis
    by (rule start_okI) (use S Q(1) fx P(5) in \<open>auto simp: cells_ok_def bounded_def Q(2-4) P(4)\<close>)
qed

lemma start_ends: "start_ok pag program C st \<Longrightarrow> start_ok pag program C (fold (\<lambda>c st. push (c_src c) (push (c_dst c) st)) cs st)"
  by (induction cs arbitrary: st) (simp_all add: start_push)

lemma seed_ok:
  assumes "iter_ok iter" "input_ok pag program" "start_ok pag program {} st" "c \<in> set (pag_constraints pag)"
  shows "\<exists>st'. seed_addr_of iter pag program st c = Some st' \<and> start_ok pag program {} st' \<and> (\<forall>n. pts_of st n \<subseteq> pts_of st' n) \<and>
    (\<forall>loc. c_kind c = AddrOf \<longrightarrow> pag_nodes pag ! c_src c = NodeLoc loc \<longrightarrow> loc \<in> pts_of st' (c_dst c))"
proof -
  have N: "c_src c < length (pag_nodes pag)" "c_dst c < length (pag_nodes pag)" using assms(2,4) by (auto simp: input_ok_def)
  show ?thesis
  proof (cases "\<exists>loc. c_kind c = AddrOf \<and> pag_nodes pag ! c_src c = NodeLoc loc")
    case False
    then have "seed_addr_of iter pag program st c = Some st" using N(1) by (auto simp: seed_addr_of_def vget_in split: PagNodeKind.splits)
    then show ?thesis using assms(3) False by auto
  next
    case True
    then obtain loc where l: "c_kind c = AddrOf" "pag_nodes pag ! c_src c = NodeLoc loc" by blast
    have L: "loc < length (pag_locations pag)" using assms(2) l(2) N(1) nth_mem unfolding input_ok_def by metis
    have vs: "\<forall>v \<in> set (pr_variables program). v_type_id v < length (pr_types program)" "\<forall>n \<in> ran (pag_var_node pag). n < length (pag_nodes pag)"
      using assms(2) unfolding input_ok_def by blast+
    let ?first = "if loc \<in> st_addr_taken st then Some st
      else do { l \<leftarrow> vget (pag_locations pag) loc;
        st2 \<leftarrow> (if st_slot_guard st loc \<noteq> None then Some (st\<lparr>st_addr_taken := insert loc (st_addr_taken st)\<rparr>)
          else do { g \<leftarrow> slot_guard_for program (al_type_id l); Some (st\<lparr>st_addr_taken := insert loc (st_addr_taken st), st_slot_guard := (st_slot_guard st)(loc := g)\<rparr>) });
        register_synced_cell iter pag program loc st2 }"
    have "\<exists>s. ?first = Some s \<and> start_ok pag program {} s \<and> (\<forall>n. pts_of st n \<subseteq> pts_of s n)"
    proof (cases "loc \<in> st_addr_taken st")
      case False
      let ?s = "st\<lparr>st_addr_taken := insert loc (st_addr_taken st)\<rparr>"
      have eq: "pts_of ?s = pts_of st" "mem_of ?s = mem_of st" "delta_of ?s = delta_of st" "adm pag ?s = adm pag st" "holders_of ?s = holders_of st" "seen_of ?s = seen_of st"
        by (simp_all add: fun_eq_iff pts_of_def mem_of_def delta_of_def adm_def holders_of_def seen_of_def)
      have "solver_ok pag ?s = solver_ok pag st" by (simp add: solver_ok_def queue_ok_def index_ok_def bits_ok_def range_ok_def merged_ok_def eq)
      then have "start_ok pag program {} ?s" using assms(3) by (simp add: start_ok_def cells_ok_def bounded_def eq)
      from register_ok [OF assms(1) this L vs] obtain s where s: "register_synced_cell iter pag program loc ?s = Some s" "start_ok pag program {} s" "\<forall>n. pts_of st n \<subseteq> pts_of s n"
        by (auto simp: eq)
      have g: "slot_guard_for program (al_type_id (pag_locations pag ! loc)) = Some (st_slot_guard st loc)" using start_okD(7) [OF assms(3) L] .
      have "(st_slot_guard st)(loc := st_slot_guard st loc) = st_slot_guard st" by simp
      then have "?first = Some s" using False s(1) g L by (cases "st_slot_guard st loc") (simp_all add: vget_in)
      then show ?thesis using s(2,3) by blast
    qed (use assms(3) in simp)
    then obtain s where s: "?first = Some s" "start_ok pag program {} s" "\<forall>n. pts_of st n \<subseteq> pts_of s n" by blast
    obtain s' where a: "add_pts iter (c_dst c) loc s = Some s'" "solver_ok pag s'" "advances pag s s'" "loc \<in> pts_of s' (c_dst c)"
      using add_pts_advances [OF assms(1) start_okD(1) [OF s(2)] L N(2)] by blast
    have "seed_addr_of iter pag program st c = ?first \<bind> (\<lambda>st1. add_pts iter (c_dst c) loc st1)"
      using l N(1) by (simp add: seed_addr_of_def vget_in)
    then have "seed_addr_of iter pag program st c = Some s'" using s(1) a(1) by simp
    moreover have "pts_of st n \<subseteq> pts_of s' n" for n using s(3) advancesD(2) [OF a(3), of n] by blast
    ultimately show ?thesis using start_advances [OF s(2) a(3,2)] a(4) l(2) by (intro exI [of _ s']) auto
  qed
qed

lemma seeds_ok:
  assumes "iter_ok iter" "input_ok pag program" "start_ok pag program {} st"
  shows "\<exists>st'. foldM (seed_addr_of iter pag program) st (pag_constraints pag) = Some st' \<and> start_ok pag program {} st' \<and>
    (\<forall>c \<in> set (pag_constraints pag). \<forall>loc. c_kind c = AddrOf \<longrightarrow> pag_nodes pag ! c_src c = NodeLoc loc \<longrightarrow> loc \<in> pts_of st' (c_dst c))"
proof (rule foldM_prefix_rule [where I = "\<lambda>(cs :: Constraint list) st'. start_ok pag program {} st' \<and>
    (\<forall>c \<in> set cs. \<forall>loc. c_kind c = AddrOf \<longrightarrow> pag_nodes pag ! c_src c = NodeLoc loc \<longrightarrow> loc \<in> pts_of st' (c_dst c))"])
  fix cs :: "Constraint list" and c s assume I: "start_ok pag program {} s \<and> (\<forall>c \<in> set cs. \<forall>loc. c_kind c = AddrOf \<longrightarrow> pag_nodes pag ! c_src c = NodeLoc loc \<longrightarrow> loc \<in> pts_of s (c_dst c))"
    and c: "c \<in> set (pag_constraints pag)"
  from seed_ok [OF assms(1,2) conjunct1 [OF I] c] obtain s' where "seed_addr_of iter pag program s c = Some s'" "start_ok pag program {} s'" "\<forall>n. pts_of s n \<subseteq> pts_of s' n"
    "\<forall>loc. c_kind c = AddrOf \<longrightarrow> pag_nodes pag ! c_src c = NodeLoc loc \<longrightarrow> loc \<in> pts_of s' (c_dst c)" by blast
  then show "\<exists>t. seed_addr_of iter pag program s c = Some t \<and> (start_ok pag program {} t \<and>
      (\<forall>d \<in> set (cs @ [c]). \<forall>loc. c_kind d = AddrOf \<longrightarrow> pag_nodes pag ! c_src d = NodeLoc loc \<longrightarrow> loc \<in> pts_of t (c_dst d)))" using I by (auto 0 3)
qed (use assms(3) in simp)

lemma seed_own_ok:
  assumes "iter_ok iter" "input_ok pag program" "start_ok pag program {} st" "v \<in> set (pr_variables program)"
  shows "\<exists>st'. seed_own iter pag program st v = Some st' \<and> start_ok pag program {} st' \<and> (\<forall>n. pts_of st n \<subseteq> pts_of st' n) \<and> st_seen_once st' = st_seen_once st"
proof -
  have "\<exists>b. seeds_own_location program (v_id v) = Some b"
  proof (cases "variable_by_id program (v_id v)")
    case (Some x)
    then have "x \<in> set (pr_variables program)" using variable_listed by blast
    then have "v_type_id x < length (pr_types program)" using assms(2) unfolding input_ok_def by blast
    then show ?thesis using Some by (auto simp: seeds_own_location_def var_is_pointer_like_def vget_in)
  qed (auto simp: seeds_own_location_def)
  then obtain b where b: "seeds_own_location program (v_id v) = Some b" by blast
  show ?thesis
  proof (cases "b \<and> pag_var_location pag (v_id v) \<noteq> None")
    case False
    then have "seed_own iter pag program st v = Some st" using b by (auto simp: seed_own_def)
    then show ?thesis using assms(3) by simp
  next
    case True
    then obtain loc where l: "pag_var_location pag (v_id v) = Some loc" by blast
    then have "v_id v \<in> dom (pag_var_node pag)" using assms(2) unfolding input_ok_def by blast
    then obtain node where n: "pag_var_node pag (v_id v) = Some node" by blast
    have r: "loc < length (pag_locations pag)" "node < length (pag_nodes pag)" using assms(2) l n unfolding input_ok_def by (meson UnI1 ranI)+
    from add_pts_advances [OF assms(1) start_okD(1) [OF assms(3)] r] obtain st' where a: "add_pts iter node loc st = Some st'" "solver_ok pag st'" "advances pag st st'" by blast
    have "st_seen_once st' = st_seen_once st" using advancesD(1) [OF a(3)] by (simp add: fixed_def)
    then show ?thesis using start_advances [OF assms(3) a(3,2)] advancesD(2) [OF a(3)] a(1) b True l n by (simp add: seed_own_def)
  qed
qed

lemma start_result:
  assumes "iter_ok iter" "input_ok pag program"
  shows "\<exists>st. solve_start iter pag program passed = Some st \<and> start_ok pag program {} st \<and> seeded pag {} st"
proof -
  let ?s0 = "SolverState_default\<lparr>st_access_pointers := access_pointers pag passed\<rparr>"
  have L: "length (pag_locations pag) \<le> u32_max" "fst ` set (pag_fn_locations pag) \<subseteq> dom (pr_functions program)" using assms(2) unfolding input_ok_def by blast+
  have "blank ?s0" "st_slot_guard ?s0 = Map.empty" by (simp_all add: blank_def SolverState_default_def)
  from guards_filled [OF assms(2) this] obtain s1 where s1: "foldM (fill_guard program) ?s0 (pag_locations pag) = Some s1" "blank s1"
    "\<forall>l < length (pag_locations pag). slot_guard_for program (al_type_id (pag_locations pag ! l)) = Some (st_slot_guard s1 l)" by blast
  obtain s2 where s2: "foldM (fill_arity program) s1 (pag_fn_locations pag) = Some s2" "blank s2" "st_slot_guard s2 = st_slot_guard s1" using arities_filled [OF L(2) s1(2)] by blast
  have "start_ok pag program {} s2"
    by (rule start_okI) (use s1(3) s2(3) in \<open>simp_all add: blank_solver [OF s2(2) L(1)] cells_ok_def bounded_def blankD [OF s2(2)]\<close>)
  then have "start_ok pag program {} (push_ends pag s2)" unfolding push_ends_def by (rule start_ends)
  from seeds_ok [OF assms this] obtain s4 where s4: "foldM (seed_addr_of iter pag program) (push_ends pag s2) (pag_constraints pag) = Some s4" "start_ok pag program {} s4"
    "\<forall>c \<in> set (pag_constraints pag). \<forall>loc. c_kind c = AddrOf \<longrightarrow> pag_nodes pag ! c_src c = NodeLoc loc \<longrightarrow> loc \<in> pts_of s4 (c_dst c)" by blast
  let ?s5 = "mark_seeded pag s4"
  have m: "start_ok pag program {} ?s5" "pts_of ?s5 = pts_of s4"
    using s4(2) unfolding mark_seeded_def start_ok_def bounded_def by (simp_all add: seen_once_free)
  have "\<exists>st. foldM (seed_own iter pag program) ?s5 (pr_variables program) = Some st \<and> (start_ok pag program {} st \<and> (\<forall>n. pts_of s4 n \<subseteq> pts_of st n))"
  proof (rule foldM_rule)
    fix s v assume "start_ok pag program {} s \<and> (\<forall>n. pts_of s4 n \<subseteq> pts_of s n)" "v \<in> set (pr_variables program)"
    then show "\<exists>t. seed_own iter pag program s v = Some t \<and> (start_ok pag program {} t \<and> (\<forall>n. pts_of s4 n \<subseteq> pts_of t n))"
      using seed_own_ok [OF assms, of s v] by blast
  qed (use m in simp)
  then obtain st where st: "foldM (seed_own iter pag program) ?s5 (pr_variables program) = Some st" "start_ok pag program {} st" "\<forall>n. pts_of s4 n \<subseteq> pts_of st n" by blast
  have "seeded pag {} st" using s4(3) st(3) nth_mem unfolding seeded_def by blast
  then show ?thesis using s1(1) s2(1) s4(1) st(1,2) by (simp add: solve_start_def)
qed

lemma start_loop:
  assumes "start_ok pag program {} st" "seeded pag {} st"
  shows "loop_ok is_ptr pag (set (st_worklist st)) st"
proof -
  note S = start_okD [OF assms(1)]
  have none: "pts_of st n - (set (delta_of st n) \<union> X) = {}" for n X using S(4) [of n] by blast
  have "flow_ok is_ptr pag st (set (delta_of st (c_src c)) \<union> X) (set (delta_of st (c_dst c)) \<union> Y) c" for c X Y
    unfolding flow_ok_def none by (simp split: ConstraintKind.split)
  then have "settled is_ptr pag (\<lambda>_. {}) (\<lambda>_. {}) (\<lambda>_. {}) st" unfolding settled_def Let_def none using S(6) by (intro conjI allI impI) (simp_all del: sup_bot_right)
  moreover have "seeded pag (set (st_worklist st)) st" using assms(2) unfolding seeded_def by blast
  ultimately show ?thesis using S(1-3,5) by (simp add: loop_ok_def)
qed

section \<open>Solutions\<close>

text \<open>The constraints, read as inclusions between points-to sets and memory.\<close>

definition solves :: "(VarId \<Rightarrow> bool) \<Rightarrow> Pag \<Rightarrow> SolverState \<Rightarrow> bool" where
  "solves is_ptr pag st \<longleftrightarrow>
     (\<forall>c \<in> set (pag_constraints pag). case c_kind c of
        Copy \<Rightarrow> pts_of st (c_src c) \<subseteq> pts_of st (c_dst c)
      | AddrOf \<Rightarrow> (\<forall>loc. pag_nodes pag ! c_src c = NodeLoc loc \<longrightarrow> loc \<in> pts_of st (c_dst c))
      | Load \<Rightarrow> (\<forall>l \<in> pts_of st (c_src c). contribution pag st l \<subseteq> pts_of st (c_dst c))
      | Store \<Rightarrow> (\<forall>d \<in> pts_of st (c_dst c). fn_for_loc pag d = Some None \<longrightarrow> loc_kind pag d \<noteq> Some StringLit \<longrightarrow>
          {l \<in> pts_of st (c_src c). adm pag st d l} \<union> set (opt_list (store_self_loc is_ptr pag (pag_nodes pag ! c_src c))) \<subseteq> set (mem_of st d))
      | _ \<Rightarrow> True) \<and>
     (\<forall>n c. st_synced_cell st n = Some c \<longrightarrow> pts_of st n \<inter> {l. adm pag st c l} = set (mem_of st c) \<inter> {l. adm pag st c l})"

lemma loop_done:
  assumes "loop_ok is_ptr pag {} st"
  shows "solves is_ptr pag st"
proof -
  note I = loop_okD [OF assms]
  have d: "delta_of st n = []" for n using I(6) by blast
  have F: "flow_ok is_ptr pag st {} {} c" if "c \<in> set (pag_constraints pag)" for c
    using that I(3) d unfolding settled_def Let_def in_set_conv_nth by auto
  have Y: "{l \<in> pts_of st n. adm pag st c l} \<subseteq> set (mem_of st c)" if "st_synced_cell st n = Some c" for n c
    using that I(3) d unfolding settled_def by auto
  have O: "{l \<in> set (mem_of st c). adm pag st c l} \<subseteq> pts_of st n" if "st_synced_cell st n = Some c" for n c
    using that I(2,3) unfolding settled_def cells_ok_def by blast
  have A: "loc \<in> pts_of st (c_dst c)" if "c \<in> set (pag_constraints pag)" "c_kind c = AddrOf" "pag_nodes pag ! c_src c = NodeLoc loc" for c loc
    using that I(4) unfolding seeded_def in_set_conv_nth by auto
  have "pts_of st n \<inter> {l. adm pag st c l} = set (mem_of st c) \<inter> {l. adm pag st c l}" if "st_synced_cell st n = Some c" for n c
    using Y [OF that] O [OF that] by blast
  moreover have "case c_kind c of
        Copy \<Rightarrow> pts_of st (c_src c) \<subseteq> pts_of st (c_dst c)
      | AddrOf \<Rightarrow> (\<forall>loc. pag_nodes pag ! c_src c = NodeLoc loc \<longrightarrow> loc \<in> pts_of st (c_dst c))
      | Load \<Rightarrow> (\<forall>l \<in> pts_of st (c_src c). contribution pag st l \<subseteq> pts_of st (c_dst c))
      | Store \<Rightarrow> (\<forall>d \<in> pts_of st (c_dst c). fn_for_loc pag d = Some None \<longrightarrow> loc_kind pag d \<noteq> Some StringLit \<longrightarrow>
          {l \<in> pts_of st (c_src c). adm pag st d l} \<union> set (opt_list (store_self_loc is_ptr pag (pag_nodes pag ! c_src c))) \<subseteq> set (mem_of st d))
      | _ \<Rightarrow> True" if "c \<in> set (pag_constraints pag)" for c
    using F [OF that] A [OF that] unfolding flow_ok_def by (cases "c_kind c") simp_all
  ultimately show ?thesis unfolding solves_def by blast
qed

lemma indexed_input:
  assumes "input_ok pag program" "indexed_upto pag (length (pag_constraints pag)) ix"
  shows "pag_ok (pag\<lparr>pag_indices := ix\<rparr>)" "\<not> pop_outside (pag\<lparr>pag_indices := ix\<rparr>) {} n" "input_ok (pag\<lparr>pag_indices := ix\<rparr>) program"
proof -
  let ?p = "pag\<lparr>pag_indices := ix\<rparr>"
  have L: "listed_upto pag (length (pag_constraints pag)) k e m \<Longrightarrow> listed ?p k e m" for k e m by (simp add: listed_upto_def listed_def)
  have "indexed ?p" using assms(2) L unfolding indexed_upto_def indexed_def by simp
  then show "pag_ok ?p" using assms(1) by (auto simp: pag_ok_def input_ok_def)
  have K: "c_kind (pag_constraints pag ! i) \<noteq> Gep" "c_kind (pag_constraints pag ! i) \<noteq> Dlsym" if "i < length (pag_constraints pag)" for i
    using assms(1) nth_mem [OF that] unfolding input_ok_def by auto
  have E: "set (entry (si_gep_src ix) n []) = {i. i < length (pag_constraints pag) \<and> c_kind (pag_constraints pag ! i) = Gep \<and> c_src (pag_constraints pag ! i) = n}"
    "set (entry (si_dlsym_src ix) n []) = {i. i < length (pag_constraints pag) \<and> c_kind (pag_constraints pag ! i) = Dlsym \<and> c_src (pag_constraints pag ! i) = n}"
    using assms(2) by (simp_all add: indexed_upto_def listed_upto_def)
  have "set (entry (si_gep_src ix) n []) = {}" "set (entry (si_dlsym_src ix) n []) = {}" unfolding E using K by auto
  then have "entry (si_gep_src ix) n [] = []" "entry (si_dlsym_src ix) n [] = []" by simp_all
  moreover have "entry (si_unwrap_src ix) n [] = []" "entry (si_indirect_by_target ix) n [] = []" using assms(2) by (simp_all add: indexed_upto_def entry_def)
  ultimately show "\<not> pop_outside ?p {} n" by (simp add: pop_outside_def)
  show "input_ok ?p program" using assms(1) by (simp add: input_ok_def)
qed

section \<open>Copies wired while solving\<close>

text \<open>C39: a copy added while solving carries nothing by itself from a source that has settled, whether a parameter copy or a return flow indexed late: the source
  is queued, but it pops with an empty delta and no set changes. A caller has to hand over what the source holds, as the wiring of epoll endpoints does: after it the
  destination holds all of the source.\<close>

theorem wired_copy_needs_seed:
  assumes "iter_ok iter" "solver_ok pag st" "delta_of st src = []" "src \<in> st_seen_once st" "pts_of st src \<noteq> {}"
  shows "(\<exists>pag' st' s. ensure_param_copy src dst (pag, st) = (pag', st') \<and> src \<in> set (st_worklist st') \<and>
      pop_node iter is_ptr pag' watch src st' = Some (Popped s) \<and> pts_of s = pts_of st \<and> delta_of s = delta_of st) \<and>
    (\<exists>pag' s. index_new_constraints (length (pag_constraints pag)) (pag\<lparr>pag_constraints := pag_constraints pag @ [\<lparr>c_kind = Copy, c_dst = dst, c_src = src, c_field_info = None\<rparr>]\<rparr>) =
        Some (pag', [src]) \<and> pop_node iter is_ptr pag' watch src (push src st) = Some (Popped s) \<and> pts_of s = pts_of st \<and> delta_of s = delta_of st) \<and>
    (\<exists>pag' st'. wire_epoll_copy iter src dst (pag, st) = Some (pag', st') \<and> pts_of st src \<subseteq> pts_of st' dst)"
proof -
  obtain held where h: "st_pts st src = Some held" "held \<noteq> {}" "pts_of st src = held" using assms(5) by (auto simp: pts_of_def entry_def split: option.splits)
  have q: "queue_ok st" using assms(2) by (simp add: solver_ok_def)
  note P = push_queue [OF q, of src] and Q = solver_ok_queue [OF assms(2) push_queue(1-3) [OF q, of src]]
  obtain pag' where e: "ensure_param_copy src dst (pag, st) = (pag', push src st)" using h by (simp add: ensure_param_copy_def Let_def)
  obtain delta s where td: "take_delta src (push src st) = (delta, s)" by fastforce
  note T = taken [OF P(1) td] and R = solver_ok_queue [OF Q(1) taken(2-4) [OF P(1) td]]
  have seen: "src \<in> st_seen_once s" using assms(4) Q(5) R(5) by (simp add: fixed_def)
  have "delta = []" "delta_of s = delta_of st" using T(1,5) P(4) assms(3) by (simp_all add: fun_eq_iff)
  then have pop: "\<And>pag'. pop_node iter is_ptr pag' watch src (push src st) = Some (Popped s)" "pts_of s = pts_of st" "delta_of s = delta_of st"
    using td seen R(2) Q(2) by (simp_all add: pop_node_def)
  have i: "set (iter held) = held" using iter_pts [OF assms(1,2), of src] h by simp
  have "\<forall>l \<in> set (iter held). l < length (pag_locations pag)" using i h(3) pts_in_range [OF assms(2)] by blast
  from propagate_result [OF assms(1) Q(1) this, of dst] obtain st' where p: "propagate_locs iter dst (iter held) (push src st) = Some st'"
    "pts_of st' = (pts_of (push src st))(dst := pts_of (push src st) dst \<union> set (iter held))" by blast
  have "st_pts (push src st) src = Some held" using h(1) core_eqD(1) [OF P(2)] by simp
  then have "wire_epoll_copy iter src dst (pag, st) = Some (pag', st')" using e p(1) by (simp add: wire_epoll_copy_def)
  moreover have "pts_of st src \<subseteq> pts_of st' dst" using p(2) i h(3) by simp
  moreover have "\<exists>pag'. index_new_constraints (length (pag_constraints pag)) (pag\<lparr>pag_constraints := pag_constraints pag @ [\<lparr>c_kind = Copy, c_dst = dst, c_src = src, c_field_info = None\<rparr>]\<rparr>) =
      Some (pag', [src])" by (simp add: index_new_constraints_def index_constraint_def vget_in)
  ultimately show ?thesis using e pop P(5) by auto
qed

theorem wired_copy_needs_seed_witness:
  "\<exists>pag' st' s. ensure_param_copy 0 2 (example_pag, example_state\<lparr>st_seen_once := {0}\<rparr>) = (pag', st') \<and> 0 \<in> set (st_worklist st') \<and>
    pop_node sorted_list_of_set (\<lambda>_. True) pag' {} 0 st' = Some (Popped s) \<and> pts_of s 0 = {1} \<and> pts_of s 2 = {}"
proof -
  let ?st = "example_state\<lparr>st_seen_once := {0}\<rparr>"
  have "solver_ok example_pag ?st" "delta_of ?st 0 = []" "0 \<in> st_seen_once ?st" "pts_of ?st 0 \<noteq> {}" using example_ok by (simp_all add: seen_once_free example_views)
  from wired_copy_needs_seed [OF iter_sorted this, of 2 "\<lambda>_. True" "{}"] obtain pag' st' s where "ensure_param_copy 0 2 (example_pag, ?st) = (pag', st')" "0 \<in> set (st_worklist st')"
    "pop_node sorted_list_of_set (\<lambda>_. True) pag' {} 0 st' = Some (Popped s)" "pts_of s = pts_of ?st" by blast
  then show ?thesis by (simp add: seen_once_free example_views)
qed

end
