(* ===== verification/Solver_Calls.thy ===== *)
theory Solver_Calls
  imports Solver_Start
begin

text \<open>
  Calls wired into the assignment graph (\<^verbatim>\<open>wire_params\<close>, \<^verbatim>\<open>wire_actuals\<close> and \<^verbatim>\<open>apply_fn_model\<close> in
  \<^verbatim>\<open>trace-analysis/src/solver.rs\<close>) and the solve of a program with direct calls. The callees of a site and the model of a callee are tables the
  solver reads: \<open>callees\<close> (the result of \<^verbatim>\<open>Program::callees_of\<close>), \<open>models\<close> (the model chosen for its argument effects) and \<open>invoked\<close> (the
  table of \<^verbatim>\<open>invoked_params\<close>) are arguments. A callee whose model forwards arguments to a callback leaves the model: the wiring is flagged
  \<open>w_outside\<close>, and the solve then ends \<open>Unmodelled\<close>. While the flag is down, \<^verbatim>\<open>wire_invocations\<close> has added nothing, and \<^verbatim>\<open>invoke_watch\<close> is empty.
\<close>

section \<open>Call sites and effects\<close>

text \<open>The positions of unresolved member addresses are sorted; the binary search among them is membership.\<close>

record ArgSite =
  as_id :: nat
  as_caller :: FnId
  as_var_args :: "(nat \<times> VarId) list"
  as_fn_args :: "(nat \<times> FnId) list"
  as_addr_of_member_args :: "nat list"
  as_unevaluated :: bool

text \<open>Effects that other passes apply keep only their constructor.\<close>

datatype Effect =
    Alias nat nat
  | MemCopy nat nat
  | ContentStore nat nat
  | EpollRegister nat
  | EpollWait nat
  | ReturnAlias nat
  | ReturnHeap
  | Clears nat
  | DlsymEffect nat
  | InvokeEffect
  | EntryEffect
  | IpcEffect

text \<open>An \<^verbatim>\<open>invoke\<close> effect of a callee's model: the position of the callback, and whether it forwards arguments to it.\<close>

record Invoked =
  iv_param :: nat
  iv_forwards :: bool

text \<open>The graph, the solver's state, and the fields of the state that only the wiring of calls uses.\<close>

record Wiring =
  w_pag :: Pag
  w_st :: SolverState
  w_wired_copies :: "(PagNodeId \<times> PagNodeId) set"
  w_wired_model_edges :: "(PagNodeId \<times> PagNodeId) set"
  w_epoll_registered :: "PagNodeId list"
  w_epoll_waiting :: "PagNodeId list"
  w_terminators_seen :: "(nat \<times> nat) set"
  w_terminator_events :: "(nat \<times> nat) list"
  w_wired_arg_flow :: "(nat \<times> nat \<times> FnId) set"
  w_call_edges :: "CallGraphEdge list"
  w_outside :: bool

definition Wiring_start :: "Pag \<Rightarrow> SolverState \<Rightarrow> Wiring" where
  "Wiring_start pag st = \<lparr>w_pag = pag, w_st = st, w_wired_copies = {}, w_wired_model_edges = {}, w_epoll_registered = [], w_epoll_waiting = [],
     w_terminators_seen = {}, w_terminator_events = [], w_wired_arg_flow = {}, w_call_edges = [], w_outside = False\<rparr>"

definition set_graph :: "Pag \<times> SolverState \<Rightarrow> Wiring \<Rightarrow> Wiring" where
  "set_graph ps w = w\<lparr>w_pag := fst ps, w_st := snd ps\<rparr>"

definition arg_at :: "(nat \<times> 'a) list \<Rightarrow> nat \<Rightarrow> 'a option" where
  "arg_at args idx = map_option snd (find (\<lambda>(j, _). j = idx) args)"

section \<open>Parameters\<close>

definition var_may_hold_pointee :: "Program \<Rightarrow> VarId \<Rightarrow> bool option" where
  "var_may_hold_pointee program var =
     (case variable_by_id program var of
        None \<Rightarrow> Some False
      | Some v \<Rightarrow> do {
          desc \<leftarrow> vget (pr_types program) (v_type_id v);
          Some (case desc of
              TFnPtr ret params \<Rightarrow> True
            | TPtr pointee \<Rightarrow>
                (case pointee of
                   TFnPtr ret params \<Rightarrow> True
                 | TUnknown \<Rightarrow> True
                 | TStruct name members \<Rightarrow> True
                 | TUnion name members \<Rightarrow> True
                 | TPtr slot \<Rightarrow> (case slot of TFnPtr ret params \<Rightarrow> True | _ \<Rightarrow> False)
                 | _ \<Rightarrow> False)
            | _ \<Rightarrow> v_is_pointer v)
        })"

definition wire_copy :: "PagNodeId \<Rightarrow> PagNodeId \<Rightarrow> Wiring \<Rightarrow> Wiring" where
  "wire_copy actual_node formal_node w =
     (if (actual_node, formal_node) \<in> w_wired_copies w then w
      else set_graph (ensure_param_copy actual_node formal_node (w_pag w, w_st w)) (w\<lparr>w_wired_copies := insert (actual_node, formal_node) (w_wired_copies w)\<rparr>))"

definition wire_var_arg :: "(nat set \<Rightarrow> nat list) \<Rightarrow> Program \<Rightarrow> VarId \<Rightarrow> VarId \<Rightarrow> Wiring \<Rightarrow> Wiring option" where
  "wire_var_arg iter program actual formal w =
     do {
       formal_node \<leftarrow> pag_var_node (w_pag w) formal;
       actual_node \<leftarrow> pag_var_node (w_pag w) actual;
       a \<leftarrow> var_may_hold_pointee program actual;
       f \<leftarrow> (if a then var_may_hold_pointee program formal else Some False);
       (let w1 = (if a \<and> f then wire_copy actual_node formal_node w else w)
        in case st_pts (w_st w1) actual_node of
             None \<Rightarrow> Some w1
           | Some actual_pts \<Rightarrow> do { st \<leftarrow> propagate_locs iter formal_node (iter actual_pts) (w_st w1); Some (w1\<lparr>w_st := st\<rparr>) })
     }"

definition wire_fn_args :: "(nat set \<Rightarrow> nat list) \<Rightarrow> ArgSite \<Rightarrow> nat \<Rightarrow> VarId \<Rightarrow> Wiring \<Rightarrow> Wiring option" where
  "wire_fn_args iter cs idx formal w =
     do {
       formal_node \<leftarrow> pag_var_node (w_pag w) formal;
       st \<leftarrow> foldM (\<lambda>st (_, fn_id). case map_of (pag_fn_locations (w_pag w)) fn_id of None \<Rightarrow> Some st | Some fn_loc \<Rightarrow> add_pts iter formal_node fn_loc st)
         (w_st w) (filter (\<lambda>(j, _). j = idx) (as_fn_args cs));
       Some (w\<lparr>w_st := st\<rparr>)
     }"

definition wire_formal :: "(nat set \<Rightarrow> nat list) \<Rightarrow> Program \<Rightarrow> ArgSite \<Rightarrow> (nat \<Rightarrow> nat option) \<Rightarrow> (nat \<Rightarrow> Wiring \<Rightarrow> Wiring) \<Rightarrow> Wiring \<Rightarrow> nat \<times> VarId \<Rightarrow> Wiring option" where
  "wire_formal iter program cs actual_of on_wired w p =
     (let (i, formal) = p
      in case actual_of i of
           None \<Rightarrow> Some w
         | Some idx \<Rightarrow>
             (case arg_at (as_var_args cs) idx of
                Some actual \<Rightarrow> map_option (on_wired i) (wire_var_arg iter program actual formal w)
              | None \<Rightarrow>
                  if list_ex (\<lambda>(j, _). j = idx) (as_fn_args cs) then map_option (on_wired i) (wire_fn_args iter cs idx formal w) else Some w))"

definition wire_actuals :: "(nat set \<Rightarrow> nat list) \<Rightarrow> Program \<Rightarrow> ArgSite \<Rightarrow> FnId \<Rightarrow> (nat \<Rightarrow> nat option) \<Rightarrow> (nat \<Rightarrow> Wiring \<Rightarrow> Wiring) \<Rightarrow> Wiring \<Rightarrow> Wiring option" where
  "wire_actuals iter program cs callee actual_of on_wired w =
     do { f \<leftarrow> pr_functions program callee; foldM (wire_formal iter program cs actual_of on_wired) w (enumerate 0 (fe_params f)) }"

definition wire_params :: "(nat set \<Rightarrow> nat list) \<Rightarrow> Program \<Rightarrow> ArgSite \<Rightarrow> FnId \<Rightarrow> Wiring \<Rightarrow> Wiring option" where
  "wire_params iter program cs callee =
     wire_actuals iter program cs callee Some (\<lambda>idx w. w\<lparr>w_wired_arg_flow := insert (as_id cs, idx, callee) (w_wired_arg_flow w)\<rparr>)"

section \<open>Function models\<close>

primrec first_var :: "Pag \<Rightarrow> nat list \<Rightarrow> VarId option option" where
  "first_var pag [] = Some None"
| "first_var pag (idx # idxs) =
     do {
       c \<leftarrow> vget (pag_constraints pag) idx;
       kind \<leftarrow> vget (pag_nodes pag) (c_src c);
       v \<leftarrow> (case kind of NodeLoc loc \<Rightarrow> map_option al_var (vget (pag_locations pag) loc) | _ \<Rightarrow> Some None);
       (case v of Some v \<Rightarrow> Some (Some v) | None \<Rightarrow> first_var pag idxs)
     }"

definition addressed_var :: "Pag \<Rightarrow> PagNodeId \<Rightarrow> VarId option option" where
  "addressed_var pag node = (case si_addr_of_dst (pag_indices pag) node of None \<Rightarrow> Some None | Some idxs \<Rightarrow> first_var pag idxs)"

definition model_copy_side :: "Pag \<Rightarrow> PagNodeId \<Rightarrow> PagNodeId option" where
  "model_copy_side pag node =
     do { v \<leftarrow> addressed_var pag node; Some (case v of None \<Rightarrow> node | Some v \<Rightarrow> (case pag_var_node pag v of None \<Rightarrow> node | Some n \<Rightarrow> n)) }"

text \<open>The maps from locations to nodes and to link targets are written there too; nothing here reads them.\<close>

definition var_node_id :: "VarId \<Rightarrow> Pag \<Rightarrow> Pag" where
  "var_node_id var pag =
     (case pag_var_node pag var of
        Some _ \<Rightarrow> pag
      | None \<Rightarrow> pag\<lparr>pag_nodes := pag_nodes pag @ [NodeVar var], pag_var_node := (pag_var_node pag)(var \<mapsto> as_u32 (length (pag_nodes pag)))\<rparr>)"

definition alloc_loc :: "AbstractLocation \<Rightarrow> Pag \<Rightarrow> Pag" where
  "alloc_loc loc pag = pag\<lparr>pag_nodes := pag_nodes pag @ [NodeLoc (al_id loc)], pag_locations := pag_locations pag @ [loc]\<rparr>"

fun storage_kind :: "StorageClass \<Rightarrow> LocKind" where
  "storage_kind SGlobal = LocKind.Global"
| "storage_kind SFileStatic = FileStatic"
| "storage_kind SFnStatic = FnStatic"
| "storage_kind _ = Local"

definition ensure_var_loc :: "Program \<Rightarrow> VarId \<Rightarrow> Pag \<Rightarrow> Pag \<times> LocId option" where
  "ensure_var_loc program var pag =
     (case pag_var_location pag var of
        Some loc \<Rightarrow> (pag, Some loc)
      | None \<Rightarrow>
          (case variable_by_id program var of
             None \<Rightarrow> (pag, None)
           | Some v \<Rightarrow>
               (let pag1 = var_node_id var pag;
                    loc_id = as_u32 (length (pag_locations pag1));
                    pag2 = alloc_loc \<lparr>al_id = loc_id, al_kind = storage_kind (v_storage v), al_var = Some var, al_fn_id = v_fn_id v, al_field = None,
                      al_type_id = v_type_id v, al_desc = v_name v\<rparr> pag1
                in (pag2\<lparr>pag_var_location := (pag_var_location pag2)(var \<mapsto> loc_id)\<rparr>, Some loc_id))))"

text \<open>The cache of argument nodes is left out: no effect gives a node to a variable that has none.\<close>

definition arg_node :: "ArgSite \<Rightarrow> Pag \<Rightarrow> nat \<Rightarrow> PagNodeId option" where
  "arg_node cs pag idx = Option.bind (arg_at (as_var_args cs) idx) (pag_var_node pag)"

definition side_of :: "ArgSite \<Rightarrow> Pag \<Rightarrow> nat \<Rightarrow> PagNodeId option option" where
  "side_of cs pag idx = (case arg_node cs pag idx of None \<Rightarrow> Some None | Some n \<Rightarrow> map_option Some (model_copy_side pag n))"

definition copy_effect :: "ArgSite \<Rightarrow> nat \<Rightarrow> nat \<Rightarrow> Wiring \<Rightarrow> Wiring option" where
  "copy_effect cs dst src w =
     do {
       d_side \<leftarrow> side_of cs (w_pag w) dst;
       s_side \<leftarrow> side_of cs (w_pag w) src;
       Some (case (d_side, s_side) of
           (Some d, Some s) \<Rightarrow>
             if (s, d) \<in> w_wired_model_edges w then w
             else set_graph (ensure_param_copy s d (w_pag w, w_st w)) (w\<lparr>w_wired_model_edges := insert (s, d) (w_wired_model_edges w)\<rparr>)
         | _ \<Rightarrow> w)
     }"

definition wire_epoll :: "(nat set \<Rightarrow> nat list) \<Rightarrow> PagNodeId \<Rightarrow> PagNodeId \<Rightarrow> Wiring \<Rightarrow> Wiring option" where
  "wire_epoll iter src dst w = map_option (\<lambda>ps. set_graph ps w) (wire_epoll_copy iter src dst (w_pag w, w_st w))"

definition decay_array :: "(nat set \<Rightarrow> nat list) \<Rightarrow> Program \<Rightarrow> PagNodeId \<Rightarrow> Wiring \<Rightarrow> Wiring option" where
  "decay_array iter program node w =
     do {
       kind \<leftarrow> vget (pag_nodes (w_pag w)) node;
       (case kind of
          NodeVar var \<Rightarrow>
            do {
              v \<leftarrow> variable_by_id program var;
              desc \<leftarrow> vget (pr_types program) (v_type_id v);
              (case desc of
                 TArray elem n \<Rightarrow>
                   (case ensure_var_loc program var (w_pag w) of
                      (pag, None) \<Rightarrow> Some (w\<lparr>w_pag := pag\<rparr>)
                    | (pag, Some loc) \<Rightarrow> do { st \<leftarrow> add_pts iter node loc (w_st w); Some (set_graph (pag, st) w) })
               | _ \<Rightarrow> Some w)
            }
        | _ \<Rightarrow> Some w)
     }"

definition epoll_register :: "(nat set \<Rightarrow> nat list) \<Rightarrow> Program \<Rightarrow> PagNodeId \<Rightarrow> Wiring \<Rightarrow> Wiring option" where
  "epoll_register iter program node w =
     (if node \<in> pag_null_temps (w_pag w) then Some w
      else do {
        w1 \<leftarrow> decay_array iter program node w;
        (if node \<in> set (w_epoll_registered w1) then Some w1
         else foldM (\<lambda>w dst. wire_epoll iter node dst w) (w1\<lparr>w_epoll_registered := w_epoll_registered w1 @ [node]\<rparr>) (w_epoll_waiting w1))
      })"

definition epoll_wait :: "(nat set \<Rightarrow> nat list) \<Rightarrow> PagNodeId \<Rightarrow> Wiring \<Rightarrow> Wiring option" where
  "epoll_wait iter actual w =
     do {
       node \<leftarrow> model_copy_side (w_pag w) actual;
       (if node \<in> set (w_epoll_waiting w) then Some w
        else foldM (\<lambda>w src. wire_epoll iter src node w) (w\<lparr>w_epoll_waiting := w_epoll_waiting w @ [node]\<rparr>) (w_epoll_registered w))
     }"

definition content_store :: "(nat set \<Rightarrow> nat list) \<Rightarrow> Program \<Rightarrow> PagNodeId \<Rightarrow> PagNodeId \<Rightarrow> Wiring \<Rightarrow> Wiring option" where
  "content_store iter program p v w =
     (if (v, p) \<in> w_wired_model_edges w then Some w
      else
        (let pag = w_pag w;
             idx = length (pag_constraints pag);
             ix = pag_indices pag;
             pag1 = pag\<lparr>pag_constraints := pag_constraints pag @ [\<lparr>c_kind = Store, c_dst = p, c_src = v, c_field_info = None\<rparr>],
               pag_indices := ix\<lparr>si_store_dst := index_push (si_store_dst ix) p idx, si_store_src := index_push (si_store_src ix) v idx\<rparr>\<rparr>
         in do {
           st \<leftarrow> apply_store_to_targets iter (\<lambda>v. var_is_pointer_like program v = Some True) pag1 idx None Whole no_views (w_st w);
           Some (set_graph (pag1, st) (w\<lparr>w_wired_model_edges := insert (v, p) (w_wired_model_edges w)\<rparr>))
         }))"

fun apply_effect :: "(nat set \<Rightarrow> nat list) \<Rightarrow> Program \<Rightarrow> ArgSite \<Rightarrow> Wiring \<Rightarrow> Effect \<Rightarrow> Wiring option" where
  "apply_effect iter program cs w (Alias dst src) =
     (if dst \<in> set (as_addr_of_member_args cs) \<or> src \<in> set (as_addr_of_member_args cs) then Some w else copy_effect cs dst src w)"
| "apply_effect iter program cs w (MemCopy dst src) = copy_effect cs dst src w"
| "apply_effect iter program cs w (EpollRegister param) = (case arg_node cs (w_pag w) param of None \<Rightarrow> Some w | Some actual \<Rightarrow> epoll_register iter program actual w)"
| "apply_effect iter program cs w (EpollWait param) = (case arg_node cs (w_pag w) param of None \<Rightarrow> Some w | Some actual \<Rightarrow> epoll_wait iter actual w)"
| "apply_effect iter program cs w (ContentStore ptr val) =
     (case (arg_node cs (w_pag w) ptr, arg_node cs (w_pag w) val) of (Some p, Some v) \<Rightarrow> content_store iter program p v w | _ \<Rightarrow> Some w)"
| "apply_effect iter program cs w (Clears param) =
     Some (if arg_node cs (w_pag w) param \<noteq> None \<and> (as_id cs, param) \<notin> w_terminators_seen w
       then w\<lparr>w_terminators_seen := insert (as_id cs, param) (w_terminators_seen w), w_terminator_events := w_terminator_events w @ [(as_id cs, param)]\<rparr> else w)"
| "apply_effect iter program cs w effect = Some w"

definition apply_fn_model :: "(nat set \<Rightarrow> nat list) \<Rightarrow> Program \<Rightarrow> ArgSite \<Rightarrow> Effect list option \<Rightarrow> Wiring \<Rightarrow> Wiring option" where
  "apply_fn_model iter program cs model w = (case model of None \<Rightarrow> Some w | Some effects \<Rightarrow> foldM (apply_effect iter program cs) w effects)"

section \<open>A solve with direct calls\<close>

text \<open>
  \<^verbatim>\<open>wire_invocations\<close> skips the effects that forward nothing, so it does nothing for a callee that has no other; the wiring of what the others
  forward is not followed.
\<close>

definition wire_invocations :: "Invoked list option \<Rightarrow> Wiring \<Rightarrow> Wiring" where
  "wire_invocations invocations w =
     (if list_ex iv_forwards (case invocations of None \<Rightarrow> [] | Some effects \<Rightarrow> effects) then w\<lparr>w_outside := True\<rparr> else w)"

definition wire_callee :: "(nat set \<Rightarrow> nat list) \<Rightarrow> Program \<Rightarrow> (FnId \<Rightarrow> Effect list option) \<Rightarrow> (FnId \<Rightarrow> Invoked list option) \<Rightarrow> ArgSite \<Rightarrow> Wiring \<Rightarrow> FnId \<Rightarrow>
    Wiring option" where
  "wire_callee iter program models invoked cs w callee =
     do {
       f \<leftarrow> pr_functions program callee;
       let w1 = w\<lparr>w_call_edges := w_call_edges w @
         [\<lparr>ce_call_site = as_id cs, ce_caller = as_caller cs, ce_callee = callee, ce_resolution = (if fe_is_defined f then Direct else External)\<rparr>]\<rparr>;
       w2 \<leftarrow> (if fe_params f \<noteq> [] then wire_params iter program cs callee w1 else Some w1);
       w3 \<leftarrow> apply_fn_model iter program cs (models callee) w2;
       Some (wire_invocations (invoked callee) w3)
     }"

definition wire_site :: "(nat set \<Rightarrow> nat list) \<Rightarrow> Program \<Rightarrow> (ArgSite \<Rightarrow> FnId list) \<Rightarrow> (FnId \<Rightarrow> Effect list option) \<Rightarrow> (FnId \<Rightarrow> Invoked list option) \<Rightarrow>
    Wiring \<Rightarrow> ArgSite \<Rightarrow> Wiring option" where
  "wire_site iter program callees models invoked w cs =
     (if as_unevaluated cs then Some w else foldM (wire_callee iter program models invoked cs) w (callees cs))"

definition solve_with_calls :: "(nat set \<Rightarrow> nat list) \<Rightarrow> Pag \<Rightarrow> Program \<Rightarrow> ArgSite list \<Rightarrow> (ArgSite \<Rightarrow> FnId list) \<Rightarrow> (FnId \<Rightarrow> Effect list option) \<Rightarrow>
    (FnId \<Rightarrow> Invoked list option) \<Rightarrow> nat option \<Rightarrow> (nat \<Rightarrow> bool) option \<Rightarrow> (Wiring \<times> solve_result) option" where
  "solve_with_calls iter pag program call_sites callees models invoked budget late =
     do {
       st \<leftarrow> solve_start iter pag program (concat (map (map snd \<circ> as_var_args) call_sites));
       w \<leftarrow> foldM (wire_site iter program callees models invoked) (Wiring_start pag st) call_sites;
       r \<leftarrow> (if w_outside w then Some Unmodelled
            else solve_loop iter (\<lambda>v. var_is_pointer_like program v = Some True) (w_pag w) {} budget late 0 (w_st w));
       Some (w, r)
     }"

end
