(* ===== verification/Solver_Wiring.thy ===== *)
theory Solver_Wiring
  imports Solver_Solve Solver_Calls "HOL-Library.Sublist"
begin

text \<open>
  Direct calls keep what the start of a solve establishes, and their arguments reach the parameters.
\<close>

section \<open>Adding constraints\<close>

definition base :: "Program \<Rightarrow> Pag \<Rightarrow> SolverState \<Rightarrow> bool" where
  "base program pag st \<longleftrightarrow> input_ok pag program \<and> indexed_upto pag (length (pag_constraints pag)) (pag_indices pag) \<and> start_ok pag program {} st \<and> seeded pag {} st"

lemma baseD:
  assumes "base program pag st"
  shows "input_ok pag program" "indexed_upto pag (length (pag_constraints pag)) (pag_indices pag)" "start_ok pag program {} st" "seeded pag {} st" "solver_ok pag st"
  using assms unfolding base_def start_ok_def by blast+

lemma base_step:
  assumes "base program pag st" "advances pag st st'" "solver_ok pag st'"
  shows "base program pag st'"
proof -
  note B = baseD [OF assms(1)] and A = advancesD [OF assms(2)]
  have "seeded pag {} st'" using B(4) A(2) unfolding seeded_def by blast
  then show ?thesis using B(1,2) start_advances [OF B(3) assms(2,3)] by (simp add: base_def)
qed

lemma base_push: "base program pag st \<Longrightarrow> base program pag (push n st) \<and> pts_of (push n st) = pts_of st"
proof -
  assume b: "base program pag st"
  note B = baseD [OF b]
  have "queue_ok st" using B(5) by (simp add: solver_ok_def)
  then have p: "pts_of (push n st) = pts_of st" using solver_ok_queue(2) [OF B(5) push_queue(1-3)] by blast
  then show ?thesis using B(1,2,4) start_push [OF B(3), of n] by (simp add: base_def seeded_def)
qed

lemma base_extend:
  fixes ix :: SolverIndices
  assumes "base program pag st" "c_kind c \<in> {Copy, Store}" "c_src c < length (pag_nodes pag)" "c_dst c < length (pag_nodes pag)"
  defines "pag' \<equiv> pag\<lparr>pag_constraints := pag_constraints pag @ [c], pag_indices := ix\<rparr>"
  assumes "si_load_src ix = si_load_src (pag_indices pag)" "si_load_src_bits ix = si_load_src_bits (pag_indices pag)"
    "indexed_upto pag' (Suc (length (pag_constraints pag))) ix"
  shows "base program pag' st"
proof -
  note B = baseD [OF assms(1)]
  have l: "is_load_src ix = is_load_src (pag_indices pag)" using assms(7) by (simp add: is_load_src_def fun_eq_iff)
  have a: "adm pag' st = adm pag st" for st by (simp add: pag'_def adm_def admits_def fn_for_loc_def fun_eq_iff)
  have h: "holders_ok ix = holders_ok (pag_indices pag)" by (simp add: holders_ok_def fun_eq_iff l assms(6))
  have "solver_ok pag' st = solver_ok pag st"
    by (simp add: solver_ok_def index_ok_def range_ok_def merged_ok_def a) (simp add: pag'_def h)
  then have "start_ok pag' program {} st = start_ok pag program {} st"
    by (simp add: start_ok_def cells_ok_def bounded_def a) (simp add: pag'_def)
  moreover have "input_ok pag' program" using B(1) assms(2-4) by (auto simp: pag'_def input_ok_def)
  moreover have "seeded pag' {} st" using B(4) assms(2) by (auto simp: seeded_def pag'_def nth_append)
  ultimately show ?thesis using B(3) assms(8) by (simp add: base_def pag'_def)
qed

lemma indexed_upto_more:
  assumes "indexed_upto pag (length (pag_constraints pag)) ix"
  shows "indexed_upto (pag\<lparr>pag_constraints := pag_constraints pag @ [c], pag_indices := ix'\<rparr>) (length (pag_constraints pag)) ix"
proof -
  have "listed_upto (pag\<lparr>pag_constraints := pag_constraints pag @ [c], pag_indices := ix'\<rparr>) (length (pag_constraints pag)) k e m =
      listed_upto pag (length (pag_constraints pag)) k e m" for k e m
    by (auto simp: listed_upto_def nth_append cong: conj_cong)
  then show ?thesis using assms by (simp add: indexed_upto_def)
qed

abbreviation copy_constraint :: "PagNodeId \<Rightarrow> PagNodeId \<Rightarrow> Constraint" where
  "copy_constraint src dst \<equiv> \<lparr>c_kind = Copy, c_dst = dst, c_src = src, c_field_info = None\<rparr>"

text \<open>The parts of the graph that wiring leaves alone.\<close>

definition frame :: "Pag \<Rightarrow> Pag" where
  "frame pag = pag\<lparr>pag_constraints := [], pag_indices := SolverIndices_default\<rparr>"

lemma frameD:
  assumes "frame a = frame b"
  shows "pag_nodes a = pag_nodes b" "pag_locations a = pag_locations b" "pag_var_node a = pag_var_node b" "pag_fn_locations a = pag_fn_locations b"
    "pag_var_location a = pag_var_location b" "pag_null_temps a = pag_null_temps b"
  using assms by (cases a; cases b; simp add: frame_def)+

lemma copy_base:
  assumes "base program pag st" "src < length (pag_nodes pag)" "dst < length (pag_nodes pag)"
  shows "\<exists>pag' st'. ensure_param_copy src dst (pag, st) = (pag', st') \<and> base program pag' st' \<and> frame pag' = frame pag \<and>
    pag_constraints pag' = pag_constraints pag @ [copy_constraint src dst] \<and> pts_of st' = pts_of st"
proof -
  let ?ix = "(pag_indices pag)\<lparr>si_copy_src := index_push (si_copy_src (pag_indices pag)) src (length (pag_constraints pag))\<rparr>"
  let ?p = "pag\<lparr>pag_constraints := pag_constraints pag @ [copy_constraint src dst], pag_indices := ?ix\<rparr>"
  note I = indexed_upto_more [OF baseD(2) [OF assms(1)], where c = "copy_constraint src dst" and ix' = ?ix]
  have "indexed_upto ?p (Suc (length (pag_constraints pag))) ?ix"
    using I unfolding indexed_upto_def by (simp add: listed_upto_push listed_upto_skip is_load_src_def)
  then have b: "base program ?p st" using assms by (intro base_extend) simp_all
  then show ?thesis using base_push [OF b, of src] by (auto simp: ensure_param_copy_def Let_def frame_def)
qed

lemma epoll_base:
  assumes "iter_ok iter" "base program pag st" "src < length (pag_nodes pag)" "dst < length (pag_nodes pag)"
  shows "\<exists>pag' st'. wire_epoll_copy iter src dst (pag, st) = Some (pag', st') \<and> base program pag' st' \<and> frame pag' = frame pag \<and>
    pag_constraints pag' = pag_constraints pag @ [copy_constraint src dst] \<and> (\<forall>n. pts_of st n \<subseteq> pts_of st' n)"
proof -
  obtain p s where c: "ensure_param_copy src dst (pag, st) = (p, s)" "base program p s" "frame p = frame pag"
    "pag_constraints p = pag_constraints pag @ [copy_constraint src dst]" "pts_of s = pts_of st" using copy_base [OF assms(2-4)] by blast
  show ?thesis
  proof (cases "st_pts s src")
    case None
    then show ?thesis using c by (simp add: wire_epoll_copy_def)
  next
    case (Some held)
    have "set (iter held) = pts_of s src" using iter_pts [OF assms(1) baseD(5) [OF c(2)], of src] Some by simp
    then have "\<forall>l \<in> set (iter held). l < length (pag_locations p)" using pts_in_range [OF baseD(5) [OF c(2)]] by blast
    from propagate_advances [OF assms(1) baseD(5) [OF c(2)] this, of dst] obtain s' where s: "propagate_locs iter dst (iter held) s = Some s'" "solver_ok p s'" "advances p s s'"
      using assms(4) frameD(1) [OF c(3)] by auto
    show ?thesis using c Some s(1) base_step [OF c(2) s(3,2)] advancesD(2) [OF s(3)] by (simp add: wire_epoll_copy_def)
  qed
qed

lemma store_base:
  assumes "iter_ok iter" "base program pag st" "p < length (pag_nodes pag)" "v < length (pag_nodes pag)"
  defines "idx \<equiv> length (pag_constraints pag)" and "ix \<equiv> pag_indices pag"
  defines "pag' \<equiv> pag\<lparr>pag_constraints := pag_constraints pag @ [\<lparr>c_kind = Store, c_dst = p, c_src = v, c_field_info = None\<rparr>],
    pag_indices := ix\<lparr>si_store_dst := index_push (si_store_dst ix) p idx, si_store_src := index_push (si_store_src ix) v idx\<rparr>\<rparr>"
  shows "\<exists>st'. apply_store_to_targets iter is_ptr pag' idx None Whole no_views st = Some st' \<and> base program pag' st' \<and> (\<forall>n. pts_of st n \<subseteq> pts_of st' n)"
proof -
  let ?c = "\<lparr>c_kind = Store, c_dst = p, c_src = v, c_field_info = None\<rparr>"
  note B = baseD [OF assms(2)]
  have "indexed_upto pag' (Suc idx) (pag_indices pag')"
    using indexed_upto_more [OF B(2), where c = ?c and ix' = "pag_indices pag'"] unfolding indexed_upto_def pag'_def idx_def ix_def by (simp add: listed_upto_push listed_upto_skip is_load_src_def)
  then have b: "base program pag' st" unfolding pag'_def idx_def using assms(2-4) by (intro base_extend) (simp_all add: ix_def)
  note B' = baseD [OF b]
  have n: "vget (pag_constraints pag') idx = Some ?c" "vget (pag_nodes pag') (c_src ?c) = Some (pag_nodes pag ! v)"
    using assms(4) by (simp_all add: vget_in pag'_def idx_def)
  have r: "\<forall>l \<in> ran (pag_var_location pag') \<union> ran (pag_field_loc_to_summary pag'). l < length (pag_locations pag')" using B'(1) unfolding input_ok_def by blast
  have "store_reads st ?c Whole \<subseteq> pts_of st (c_src ?c)" by (simp add: store_reads_def)
  from store_advances [OF assms(1) B'(5) n _ this r start_okD(2) [OF B'(3)], of None is_ptr no_views] obtain st' where
    "apply_store_to_targets iter is_ptr pag' idx None Whole no_views st = Some st'" "solver_ok pag' st'" "advances pag' st st'" by auto
  then show ?thesis using base_step [OF b] advancesD(2) by blast
qed

section \<open>Wiring\<close>

text \<open>The copies remembered as wired are constraints of the graph, and so is every pair of epoll endpoints outside \<open>P\<close>.\<close>

definition wiring_ok :: "Program \<Rightarrow> Pag \<Rightarrow> (PagNodeId \<times> PagNodeId) set \<Rightarrow> Wiring \<Rightarrow> bool" where
  "wiring_ok program pag P w \<longleftrightarrow> base program (w_pag w) (w_st w) \<and> frame (w_pag w) = frame pag \<and> prefix (pag_constraints pag) (pag_constraints (w_pag w)) \<and>
     (\<forall>(a, f) \<in> w_wired_copies w. copy_constraint a f \<in> set (pag_constraints (w_pag w))) \<and>
     set (w_epoll_registered w) \<union> set (w_epoll_waiting w) \<subseteq> {..<length (pag_nodes pag)} \<and>
     (\<forall>r \<in> set (w_epoll_registered w). \<forall>d \<in> set (w_epoll_waiting w). (r, d) \<notin> P \<longrightarrow> copy_constraint r d \<in> set (pag_constraints (w_pag w))) \<and>
     \<not> w_outside w"

lemma wiringD:
  assumes "wiring_ok program pag P w"
  shows "base program (w_pag w) (w_st w)" "frame (w_pag w) = frame pag" "prefix (pag_constraints pag) (pag_constraints (w_pag w))"
    "\<And>a f. (a, f) \<in> w_wired_copies w \<Longrightarrow> copy_constraint a f \<in> set (pag_constraints (w_pag w))"
    "\<And>r. r \<in> set (w_epoll_registered w) \<Longrightarrow> r < length (pag_nodes pag)" "\<And>d. d \<in> set (w_epoll_waiting w) \<Longrightarrow> d < length (pag_nodes pag)"
    "\<And>r d. r \<in> set (w_epoll_registered w) \<Longrightarrow> d \<in> set (w_epoll_waiting w) \<Longrightarrow> (r, d) \<notin> P \<Longrightarrow> copy_constraint r d \<in> set (pag_constraints (w_pag w))"
    "\<not> w_outside w"
  using assms unfolding wiring_ok_def by blast+

definition wires_more :: "Wiring \<Rightarrow> Wiring \<Rightarrow> bool" where
  "wires_more a b \<longleftrightarrow> (\<forall>n. pts_of (w_st a) n \<subseteq> pts_of (w_st b) n) \<and> w_wired_copies a \<subseteq> w_wired_copies b"

lemma wires_more_refl [simp]: "wires_more w w"
  by (simp add: wires_more_def)

lemma wires_more_trans: "wires_more a b \<Longrightarrow> wires_more b c \<Longrightarrow> wires_more a c"
  unfolding wires_more_def by blast

definition reaches :: "Program \<Rightarrow> Pag \<Rightarrow> (PagNodeId \<times> PagNodeId) set \<Rightarrow> Wiring \<Rightarrow> Wiring \<Rightarrow> bool" where
  "reaches program pag P a b \<longleftrightarrow> wiring_ok program pag P b \<and> wires_more a b"

lemma reaches_trans: "reaches program pag P a b \<Longrightarrow> reaches program pag Q b c \<Longrightarrow> reaches program pag Q a c"
  using wires_more_trans unfolding reaches_def by blast

lemma graph_reaches:
  assumes "wiring_ok program pag P w" "base program pag' st'" "frame pag' = frame (w_pag w)" "prefix (pag_constraints (w_pag w)) (pag_constraints pag')"
    "\<And>n. pts_of (w_st w) n \<subseteq> pts_of st' n"
  shows "reaches program pag P w (set_graph (pag', st') w)"
proof -
  note W = wiringD [OF assms(1)]
  have "set (pag_constraints (w_pag w)) \<subseteq> set (pag_constraints pag')" using assms(4) by (rule set_mono_prefix)
  then have "wiring_ok program pag P (set_graph (pag', st') w)"
    unfolding wiring_ok_def set_graph_def using assms(2,3) W(2) prefix_order.trans [OF W(3) assms(4)] W(4-8) by auto
  then show ?thesis using assms(5) by (simp add: reaches_def wires_more_def set_graph_def)
qed

lemma state_reaches:
  assumes "wiring_ok program pag P w" "advances (w_pag w) (w_st w) st'" "solver_ok (w_pag w) st'"
  shows "reaches program pag P w (w\<lparr>w_st := st'\<rparr>)"
proof -
  have "reaches program pag P w (set_graph (w_pag w, st') w)"
    using base_step [OF wiringD(1) [OF assms(1)] assms(2,3)] advancesD(2) [OF assms(2)] by (intro graph_reaches [OF assms(1)]) simp_all
  then show ?thesis by (simp add: set_graph_def)
qed

lemma node_bound:
  assumes "wiring_ok program pag P w" "pag_var_node pag v = Some n"
  shows "n < length (pag_nodes pag)"
proof -
  note W = wiringD [OF assms(1)] and F = frameD [OF wiringD(2) [OF assms(1)]]
  have "\<forall>n \<in> ran (pag_var_node (w_pag w)). n < length (pag_nodes (w_pag w))" using baseD(1) [OF W(1)] unfolding input_ok_def by blast
  then show ?thesis using assms(2) unfolding F by (auto intro: ranI)
qed

section \<open>Arguments\<close>

lemma may_hold_total:
  assumes "input_ok pag program"
  shows "\<exists>b. var_may_hold_pointee program v = Some b"
proof (cases "variable_by_id program v")
  case (Some x)
  then have "v_type_id x < length (pr_types program)" using variable_listed [OF Some] assms unfolding input_ok_def by blast
  then show ?thesis using Some by (simp add: var_may_hold_pointee_def vget_in)
qed (auto simp: var_may_hold_pointee_def)

lemma wire_copy_reaches:
  assumes "wiring_ok program pag P w" "a < length (pag_nodes pag)" "f < length (pag_nodes pag)"
  shows "reaches program pag P w (wire_copy a f w) \<and> (a, f) \<in> w_wired_copies (wire_copy a f w)"
proof (cases "(a, f) \<in> w_wired_copies w")
  case True
  then show ?thesis using assms(1) by (simp add: wire_copy_def reaches_def)
next
  case False
  note W = wiringD [OF assms(1)] and F = frameD [OF wiringD(2) [OF assms(1)]]
  obtain p s where c: "ensure_param_copy a f (w_pag w, w_st w) = (p, s)" "base program p s" "frame p = frame (w_pag w)"
    "pag_constraints p = pag_constraints (w_pag w) @ [copy_constraint a f]" "pts_of s = pts_of (w_st w)" using copy_base [OF W(1), of a f] assms(2,3) F(1) by auto
  have "reaches program pag P w (set_graph (p, s) w)" using c by (intro graph_reaches [OF assms(1)]) simp_all
  then have r: "wiring_ok program pag P (set_graph (p, s) w)" "wires_more w (set_graph (p, s) w)" by (simp_all add: reaches_def)
  have e: "wire_copy a f w = (set_graph (p, s) w)\<lparr>w_wired_copies := insert (a, f) (w_wired_copies w)\<rparr>" using False c(1) by (simp add: wire_copy_def set_graph_def)
  have "wiring_ok program pag P (wire_copy a f w)" using r(1) c(4) unfolding e wiring_ok_def by (auto simp: set_graph_def)
  then show ?thesis using r(2) by (auto simp: reaches_def e wires_more_def set_graph_def)
qed

lemma wire_var_arg_reaches:
  assumes "iter_ok iter" "wiring_ok program pag P w" "pag_var_node pag actual = Some a" "pag_var_node pag formal = Some f"
  shows "\<exists>w'. wire_var_arg iter program actual formal w = Some w' \<and> reaches program pag P w w' \<and>
    (var_may_hold_pointee program actual = Some True \<longrightarrow> var_may_hold_pointee program formal = Some True \<longrightarrow> (a, f) \<in> w_wired_copies w')"
proof -
  note F = frameD [OF wiringD(2) [OF assms(2)]]
  obtain x y where xy: "var_may_hold_pointee program actual = Some x" "var_may_hold_pointee program formal = Some y"
    using may_hold_total [OF baseD(1) [OF wiringD(1) [OF assms(2)]]] by blast
  let ?w = "if x \<and> y then wire_copy a f w else w"
  have r: "reaches program pag P w ?w" "x \<Longrightarrow> y \<Longrightarrow> (a, f) \<in> w_wired_copies ?w"
    using wire_copy_reaches [OF assms(2) node_bound [OF assms(2,3)] node_bound [OF assms(2,4)]] assms(2) by (simp_all add: reaches_def)
  then have ok: "wiring_ok program pag P ?w" by (simp add: reaches_def)
  note W = wiringD [OF ok] and F' = frameD [OF wiringD(2) [OF ok]]
  have e: "wire_var_arg iter program actual formal w = (case st_pts (w_st ?w) a of None \<Rightarrow> Some ?w
      | Some held \<Rightarrow> do { st \<leftarrow> propagate_locs iter f (iter held) (w_st ?w); Some (?w\<lparr>w_st := st\<rparr>) })"
    using assms(3,4) F(3) xy by (cases x) (simp_all add: wire_var_arg_def Let_def)
  show ?thesis
  proof (cases "st_pts (w_st ?w) a")
    case None
    then show ?thesis using e r xy by (intro exI [of _ ?w]) simp
  next
    case (Some held)
    have "set (iter held) = pts_of (w_st ?w) a" using iter_pts [OF assms(1) baseD(5) [OF W(1)], of a] Some by simp
    then have "\<forall>l \<in> set (iter held). l < length (pag_locations (w_pag ?w))" using pts_in_range [OF baseD(5) [OF W(1)]] by blast
    from propagate_advances [OF assms(1) baseD(5) [OF W(1)] this, of f] obtain s where s: "propagate_locs iter f (iter held) (w_st ?w) = Some s"
      "solver_ok (w_pag ?w) s" "advances (w_pag ?w) (w_st ?w) s" using node_bound [OF assms(2,4)] F'(1) by auto
    have "reaches program pag P w (?w\<lparr>w_st := s\<rparr>)" by (rule reaches_trans [OF r(1) state_reaches [OF ok s(3,2)]])
    then show ?thesis using e Some s(1) r(2) xy by (intro exI [of _ "?w\<lparr>w_st := s\<rparr>"]) simp
  qed
qed

lemma wire_fn_args_reaches:
  assumes "iter_ok iter" "wiring_ok program pag P w" "pag_var_node pag formal = Some f" "\<forall>l \<in> snd ` set (pag_fn_locations pag). l < length (pag_locations pag)"
  shows "\<exists>w'. wire_fn_args iter cs idx formal w = Some w' \<and> reaches program pag P w w' \<and>
    (\<forall>fn l. (idx, fn) \<in> set (as_fn_args cs) \<longrightarrow> map_of (pag_fn_locations pag) fn = Some l \<longrightarrow> l \<in> pts_of (w_st w') f)"
proof -
  note W = wiringD [OF assms(2)] and F = frameD [OF wiringD(2) [OF assms(2)]]
  let ?g = "\<lambda>st (_ :: nat, fn_id). case map_of (pag_fn_locations pag) fn_id of None \<Rightarrow> Some st | Some fn_loc \<Rightarrow> add_pts iter f fn_loc st"
  let ?in = "\<lambda>args st. \<forall>(j :: nat, fn) \<in> set args. \<forall>l. map_of (pag_fn_locations pag) fn = Some l \<longrightarrow> l \<in> pts_of st f"
  have N: "f < length (pag_nodes (w_pag w))" using node_bound [OF assms(2,3)] F(1) by simp
  let ?args = "filter (\<lambda>(j, _). j = idx) (as_fn_args cs)"
  have "\<exists>st. foldM ?g (w_st w) ?args = Some st \<and> (solver_ok (w_pag w) st \<and> advances (w_pag w) (w_st w) st \<and> ?in ?args st)"
  proof (rule foldM_prefix_rule)
    fix xs :: "(nat \<times> FnId) list" and x :: "nat \<times> FnId" and st assume I: "solver_ok (w_pag w) st \<and> advances (w_pag w) (w_st w) st \<and> ?in xs st"
    obtain j fn where x: "x = (j, fn)" by (cases x)
    show "\<exists>t. ?g st x = Some t \<and> (solver_ok (w_pag w) t \<and> advances (w_pag w) (w_st w) t \<and> ?in (xs @ [x]) t)"
    proof (cases "map_of (pag_fn_locations pag) fn")
      case (Some l)
      have "l < length (pag_locations (w_pag w))" using assms(4) map_of_SomeD [OF Some] F(2) by force
      from add_pts_advances [OF assms(1) _ this N] I obtain t where t: "add_pts iter f l st = Some t" "solver_ok (w_pag w) t" "advances (w_pag w) st t" "l \<in> pts_of t f" by blast
      have "advances (w_pag w) (w_st w) t" using I advances_trans t(3) by blast
      moreover have "?in (xs @ [x]) t" using I t(4) advancesD(2) [OF t(3), of f] Some x by fastforce
      ultimately show ?thesis using t(1,2) Some x by simp
    qed (use I x in simp)
  qed (use baseD(5) [OF W(1)] in \<open>simp add: advances_refl\<close>)
  then obtain st where st: "foldM ?g (w_st w) ?args = Some st" "solver_ok (w_pag w) st" "advances (w_pag w) (w_st w) st" "?in ?args st" by blast
  have "wire_fn_args iter cs idx formal w = Some (w\<lparr>w_st := st\<rparr>)" using st(1) assms(3) F(3,4) by (simp add: wire_fn_args_def)
  then show ?thesis using state_reaches [OF assms(2) st(3,2)] st(4) by fastforce
qed

text \<open>What a site owes a parameter of its callee.\<close>

definition arg_wired :: "Program \<Rightarrow> Pag \<Rightarrow> ArgSite \<Rightarrow> Wiring \<Rightarrow> nat \<times> VarId \<Rightarrow> bool" where
  "arg_wired program pag cs w p \<longleftrightarrow>
     (case arg_at (as_var_args cs) (fst p) of
        Some actual \<Rightarrow> var_may_hold_pointee program actual = Some True \<longrightarrow> var_may_hold_pointee program (snd p) = Some True \<longrightarrow>
          (the (pag_var_node pag actual), the (pag_var_node pag (snd p))) \<in> w_wired_copies w
      | None \<Rightarrow> \<forall>fn l. (fst p, fn) \<in> set (as_fn_args cs) \<longrightarrow> map_of (pag_fn_locations pag) fn = Some l \<longrightarrow> l \<in> pts_of (w_st w) (the (pag_var_node pag (snd p))))"

lemma arg_wired_more: "arg_wired program pag cs a p \<Longrightarrow> wires_more a b \<Longrightarrow> arg_wired program pag cs b p"
  unfolding arg_wired_def wires_more_def by (cases "arg_at (as_var_args cs) (fst p)") (simp_all, blast+)

lemma arg_at_in: "arg_at args i = Some v \<Longrightarrow> (i, v) \<in> set args"
  by (auto simp: arg_at_def find_Some_iff in_set_conv_nth)

definition callee_ok :: "Program \<Rightarrow> Pag \<Rightarrow> ArgSite \<Rightarrow> FnId \<Rightarrow> bool" where
  "callee_ok program pag cs callee \<longleftrightarrow> callee \<in> dom (pr_functions program) \<and> set (fe_params (the (pr_functions program callee))) \<subseteq> dom (pag_var_node pag) \<and>
     snd ` set (as_var_args cs) \<subseteq> dom (pag_var_node pag)"

lemma wire_formal_reaches:
  fixes callee :: FnId
  assumes "iter_ok iter" "wiring_ok program pag P w" "\<forall>l \<in> snd ` set (pag_fn_locations pag). l < length (pag_locations pag)"
    "snd ` set (as_var_args cs) \<subseteq> dom (pag_var_node pag)" "formal \<in> dom (pag_var_node pag)"
  defines "rec \<equiv> \<lambda>idx w. w\<lparr>w_wired_arg_flow := insert (as_id cs, idx, callee) (w_wired_arg_flow w)\<rparr>"
  shows "\<exists>w'. wire_formal iter program cs Some rec w (i, formal) = Some w' \<and> reaches program pag P w w' \<and> arg_wired program pag cs w' (i, formal)"
proof -
  obtain f where f: "pag_var_node pag formal = Some f" using assms(5) by blast
  have rec: "reaches program pag P w (rec i w') = reaches program pag P w w'" "arg_wired program pag cs (rec i w') p = arg_wired program pag cs w' p" for w' p
    by (simp_all add: rec_def reaches_def wiring_ok_def wires_more_def arg_wired_def split: option.split)
  show ?thesis
  proof (cases "arg_at (as_var_args cs) i")
    case (Some v)
    then obtain a where a: "pag_var_node pag v = Some a" using assms(4) arg_at_in by force
    from wire_var_arg_reaches [OF assms(1,2) a f] obtain w' where w: "wire_var_arg iter program v formal w = Some w'" "reaches program pag P w w'"
      "var_may_hold_pointee program v = Some True \<longrightarrow> var_may_hold_pointee program formal = Some True \<longrightarrow> (a, f) \<in> w_wired_copies w'" by blast
    have "arg_wired program pag cs w' (i, formal)" using w(3) Some a f by (simp add: arg_wired_def)
    then show ?thesis using w(1,2) Some rec by (simp add: wire_formal_def)
  next
    case None
    show ?thesis
    proof (cases "\<exists>fn. (i, fn) \<in> set (as_fn_args cs)")
      case True
      from wire_fn_args_reaches [OF assms(1,2) f assms(3), of cs i] obtain w' where w: "wire_fn_args iter cs i formal w = Some w'" "reaches program pag P w w'"
        "\<forall>fn l. (i, fn) \<in> set (as_fn_args cs) \<longrightarrow> map_of (pag_fn_locations pag) fn = Some l \<longrightarrow> l \<in> pts_of (w_st w') f" by blast
      have "arg_wired program pag cs w' (i, formal)" using w(3) None f by (simp add: arg_wired_def)
      moreover have "list_ex (\<lambda>(j, _). j = i) (as_fn_args cs)" using True by (auto simp: list_ex_iff)
      ultimately show ?thesis using w(1,2) None rec by (simp add: wire_formal_def)
    next
      case False
      then have "\<not> list_ex (\<lambda>(j, _). j = i) (as_fn_args cs)" "arg_wired program pag cs w (i, formal)" using None by (auto simp: list_ex_iff arg_wired_def)
      then show ?thesis using None assms(2) by (simp add: wire_formal_def reaches_def)
    qed
  qed
qed

lemma wire_params_reaches:
  assumes "iter_ok iter" "wiring_ok program pag P w" "\<forall>l \<in> snd ` set (pag_fn_locations pag). l < length (pag_locations pag)"
    "callee_ok program pag cs callee" "pr_functions program callee = Some f"
  shows "\<exists>w'. wire_params iter program cs callee w = Some w' \<and> reaches program pag P w w' \<and> (\<forall>p \<in> set (enumerate 0 (fe_params f)). arg_wired program pag cs w' p)"
proof -
  let ?rec = "\<lambda>idx w. w\<lparr>w_wired_arg_flow := insert (as_id cs, idx, callee) (w_wired_arg_flow w)\<rparr>"
  have C: "set (fe_params f) \<subseteq> dom (pag_var_node pag)" "snd ` set (as_var_args cs) \<subseteq> dom (pag_var_node pag)" using assms(4,5) by (simp_all add: callee_ok_def)
  have "\<exists>w'. foldM (wire_formal iter program cs Some ?rec) w (enumerate 0 (fe_params f)) = Some w' \<and>
    (reaches program pag P w w' \<and> (\<forall>p \<in> set (enumerate 0 (fe_params f)). arg_wired program pag cs w' p))"
  proof (rule foldM_prefix_rule)
    fix xs :: "(nat \<times> VarId) list" and x v assume I: "reaches program pag P w v \<and> (\<forall>p \<in> set xs. arg_wired program pag cs v p)" and x: "x \<in> set (enumerate 0 (fe_params f))"
    obtain i formal where p: "x = (i, formal)" by (cases x)
    have "formal \<in> dom (pag_var_node pag)" using x p C(1) nth_mem by (fastforce simp: in_set_enumerate_eq)
    from wire_formal_reaches [OF assms(1) _ assms(3) C(2) this, where callee = callee and i = i] I obtain t where
      t: "wire_formal iter program cs Some ?rec v x = Some t" "reaches program pag P v t" "arg_wired program pag cs t x" unfolding reaches_def p by blast
    have "\<forall>q \<in> set (xs @ [x]). arg_wired program pag cs t q" using I t(2,3) arg_wired_more unfolding reaches_def by (metis UnE empty_iff insert_iff list.set(1,2) set_append)
    then show "\<exists>t. wire_formal iter program cs Some ?rec v x = Some t \<and> (reaches program pag P w t \<and> (\<forall>q \<in> set (xs @ [x]). arg_wired program pag cs t q))"
      using I t(1,2) reaches_trans by blast
  qed (use assms(2) in \<open>simp add: reaches_def\<close>)
  then show ?thesis using assms(5) by (simp add: wire_params_def wire_actuals_def)
qed

section \<open>Effects\<close>

lemma first_var_total:
  assumes "\<forall>i \<in> set idxs. i < length (pag_constraints pag)" "input_ok pag program"
  shows "\<exists>v. first_var pag idxs = Some v"
  using assms(1)
proof (induction idxs)
  case (Cons i idxs)
  have s: "c_src (pag_constraints pag ! i) < length (pag_nodes pag)" using Cons.prems assms(2) nth_mem unfolding input_ok_def by fastforce
  have "\<exists>v. (case pag_nodes pag ! c_src (pag_constraints pag ! i) of NodeLoc loc \<Rightarrow> map_option al_var (vget (pag_locations pag) loc) | _ \<Rightarrow> Some None) = Some v"
  proof (cases "pag_nodes pag ! c_src (pag_constraints pag ! i)")
    case (NodeLoc l)
    then have "l < length (pag_locations pag)" using assms(2) nth_mem [OF s] unfolding input_ok_def by metis
    then show ?thesis using NodeLoc by (simp add: vget_in)
  qed simp_all
  then show ?case using Cons s by (auto simp: vget_in split: option.split)
qed simp

lemma model_copy_side_total:
  assumes "base program pag st" "node < length (pag_nodes pag)"
  shows "\<exists>n. model_copy_side pag node = Some n \<and> n < length (pag_nodes pag)"
proof -
  note B = baseD [OF assms(1)]
  have "set (entry (si_addr_of_dst (pag_indices pag)) node []) \<subseteq> {..<length (pag_constraints pag)}" using B(2) by (auto simp: indexed_upto_def listed_upto_def)
  then have "\<exists>v. addressed_var pag node = Some v"
    using first_var_total [OF _ B(1)] by (auto simp: addressed_var_def entry_def split: option.splits) (meson lessThan_iff subsetD)
  then obtain v where v: "addressed_var pag node = Some v" by blast
  have "\<forall>n \<in> ran (pag_var_node pag). n < length (pag_nodes pag)" using B(1) unfolding input_ok_def by blast
  then show ?thesis using v assms(2) by (auto simp: model_copy_side_def ran_def split: option.split)
qed

lemma arg_node_bound:
  assumes "wiring_ok program pag P w" "arg_node cs (w_pag w) i = Some n"
  shows "n < length (pag_nodes pag)" "n < length (pag_nodes (w_pag w))" "\<exists>v. arg_at (as_var_args cs) i = Some v \<and> pag_var_node pag v = Some n"
proof -
  note F = frameD [OF wiringD(2) [OF assms(1)]]
  from assms(2) obtain v where "arg_at (as_var_args cs) i = Some v" "pag_var_node pag v = Some n" unfolding arg_node_def F by (cases "arg_at (as_var_args cs) i") auto
  then show "n < length (pag_nodes pag)" "n < length (pag_nodes (w_pag w))" "\<exists>v. arg_at (as_var_args cs) i = Some v \<and> pag_var_node pag v = Some n"
    using node_bound [OF assms(1)] F(1) by auto
qed

lemma side_total:
  assumes "wiring_ok program pag P w"
  shows "\<exists>s. side_of cs (w_pag w) i = Some s \<and> (\<forall>n. s = Some n \<longrightarrow> n < length (pag_nodes (w_pag w)))"
proof (cases "arg_node cs (w_pag w) i")
  case (Some n)
  from model_copy_side_total [OF wiringD(1) [OF assms] arg_node_bound(2) [OF assms Some]] show ?thesis using Some by (auto simp: side_of_def)
qed (simp add: side_of_def)

lemma copy_effect_reaches:
  assumes "wiring_ok program pag P w"
  shows "\<exists>w'. copy_effect cs dst src w = Some w' \<and> reaches program pag P w w'"
proof -
  obtain d s where ds: "side_of cs (w_pag w) dst = Some d" "side_of cs (w_pag w) src = Some s" "\<forall>n. d = Some n \<longrightarrow> n < length (pag_nodes (w_pag w))"
    "\<forall>n. s = Some n \<longrightarrow> n < length (pag_nodes (w_pag w))" using side_total [OF assms] by metis
  show ?thesis
  proof (cases "\<exists>m n. d = Some m \<and> s = Some n \<and> (n, m) \<notin> w_wired_model_edges w")
    case False
    then have "copy_effect cs dst src w = Some w" using ds(1,2) by (cases d; cases s) (auto simp: copy_effect_def)
    then show ?thesis using assms by (simp add: reaches_def)
  next
    case True
    then obtain m n where mn: "d = Some m" "s = Some n" "(n, m) \<notin> w_wired_model_edges w" by blast
    obtain p t where c: "ensure_param_copy n m (w_pag w, w_st w) = (p, t)" "base program p t" "frame p = frame (w_pag w)"
      "pag_constraints p = pag_constraints (w_pag w) @ [copy_constraint n m]" "pts_of t = pts_of (w_st w)" using copy_base [OF wiringD(1) [OF assms], of n m] ds(3,4) mn by auto
    have "reaches program pag P w (set_graph (p, t) w)" using c by (intro graph_reaches [OF assms]) simp_all
    moreover have "copy_effect cs dst src w = Some (set_graph (p, t) (w\<lparr>w_wired_model_edges := insert (n, m) (w_wired_model_edges w)\<rparr>))" using ds(1,2) mn c(1) by (simp add: copy_effect_def)
    ultimately show ?thesis by (simp add: reaches_def wiring_ok_def wires_more_def set_graph_def)
  qed
qed

lemma content_store_reaches:
  assumes "iter_ok iter" "wiring_ok program pag P w" "p < length (pag_nodes (w_pag w))" "v < length (pag_nodes (w_pag w))"
  shows "\<exists>w'. content_store iter program p v w = Some w' \<and> reaches program pag P w w'"
proof (cases "(v, p) \<in> w_wired_model_edges w")
  case True
  then show ?thesis using assms(2) by (simp add: content_store_def reaches_def)
next
  case False
  let ?ix = "pag_indices (w_pag w)" and ?i = "length (pag_constraints (w_pag w))"
  let ?p = "(w_pag w)\<lparr>pag_constraints := pag_constraints (w_pag w) @ [\<lparr>c_kind = Store, c_dst = p, c_src = v, c_field_info = None\<rparr>],
    pag_indices := ?ix\<lparr>si_store_dst := index_push (si_store_dst ?ix) p ?i, si_store_src := index_push (si_store_src ?ix) v ?i\<rparr>\<rparr>"
  from store_base [OF assms(1) wiringD(1) [OF assms(2)] assms(3,4), of "\<lambda>v. var_is_pointer_like program v = Some True"] obtain st' where
    s: "apply_store_to_targets iter (\<lambda>v. var_is_pointer_like program v = Some True) ?p ?i None Whole no_views (w_st w) = Some st'" "base program ?p st'"
    "\<forall>n. pts_of (w_st w) n \<subseteq> pts_of st' n" by blast
  have "reaches program pag P w (set_graph (?p, st') w)" using s(2,3) by (intro graph_reaches [OF assms(2)]) (simp_all add: frame_def)
  moreover have "content_store iter program p v w = Some (set_graph (?p, st') (w\<lparr>w_wired_model_edges := insert (v, p) (w_wired_model_edges w)\<rparr>))"
    using False s(1) by (simp add: content_store_def Let_def)
  ultimately show ?thesis by (simp add: reaches_def wiring_ok_def wires_more_def set_graph_def)
qed

lemma wire_epoll_reaches:
  assumes "iter_ok iter" "wiring_ok program pag P w" "src < length (pag_nodes pag)" "dst < length (pag_nodes pag)"
  shows "\<exists>w'. wire_epoll iter src dst w = Some w' \<and> reaches program pag (P - {(src, dst)}) w w' \<and> w_epoll_registered w' = w_epoll_registered w \<and> w_epoll_waiting w' = w_epoll_waiting w"
proof -
  note F = frameD [OF wiringD(2) [OF assms(2)]]
  from epoll_base [OF assms(1) wiringD(1) [OF assms(2)], of src dst] obtain p s where e: "wire_epoll_copy iter src dst (w_pag w, w_st w) = Some (p, s)" "base program p s"
    "frame p = frame (w_pag w)" "pag_constraints p = pag_constraints (w_pag w) @ [copy_constraint src dst]" "\<forall>n. pts_of (w_st w) n \<subseteq> pts_of s n" using assms(3,4) F(1) by auto
  have r: "reaches program pag P w (set_graph (p, s) w)" using e by (intro graph_reaches [OF assms(2)]) simp_all
  have "copy_constraint src dst \<in> set (pag_constraints (w_pag (set_graph (p, s) w)))" using e(4) by (simp add: set_graph_def)
  then have "reaches program pag (P - {(src, dst)}) w (set_graph (p, s) w)" using r unfolding reaches_def wiring_ok_def by blast
  then show ?thesis using e(1) by (simp add: wire_epoll_def set_graph_def)
qed

text \<open>The endpoints opposite to a new one are wired one after the other.\<close>

lemma wire_epoll_all:
  assumes "iter_ok iter" "wiring_ok program pag (f ` set xs) w" "\<And>x. x \<in> set xs \<Longrightarrow> fst (f x) < length (pag_nodes pag) \<and> snd (f x) < length (pag_nodes pag)"
  shows "\<exists>w'. foldM (\<lambda>w x. wire_epoll iter (fst (f x)) (snd (f x)) w) w xs = Some w' \<and> reaches program pag {} w w'"
  using assms(2,3)
proof (induction xs arbitrary: w)
  case Nil
  then show ?case by (simp add: reaches_def)
next
  case (Cons x xs)
  from wire_epoll_reaches [OF assms(1) Cons.prems(1), of "fst (f x)" "snd (f x)"] Cons.prems(2) obtain w1 where
    w1: "wire_epoll iter (fst (f x)) (snd (f x)) w = Some w1" "reaches program pag (f ` set (x # xs) - {f x}) w w1" by auto
  have "wiring_ok program pag (f ` set xs) w1" using w1(2) unfolding reaches_def wiring_ok_def by auto
  from Cons.IH [OF this] Cons.prems(2) obtain w' where "foldM (\<lambda>w x. wire_epoll iter (fst (f x)) (snd (f x)) w) w1 xs = Some w'" "reaches program pag {} w1 w'" by auto
  then show ?case using w1 reaches_trans by auto
qed

text \<open>An array registered as an event has a location already, so that registering it creates none.\<close>

definition event_ok :: "Program \<Rightarrow> Pag \<Rightarrow> VarId \<Rightarrow> bool" where
  "event_ok program pag v \<longleftrightarrow>
     (case variable_by_id program v of
        None \<Rightarrow> False
      | Some x \<Rightarrow> (case pr_types program ! v_type_id x of TArray elem n \<Rightarrow> v \<in> dom (pag_var_location pag) | _ \<Rightarrow> True))"

lemma decay_reaches:
  assumes "iter_ok iter" "wiring_ok program pag P w" "event_ok program pag v" "pag_var_node pag v = Some node" "pag_nodes pag ! node = NodeVar v"
  shows "\<exists>w'. decay_array iter program node w = Some w' \<and> reaches program pag P w w' \<and> w_epoll_registered w' = w_epoll_registered w \<and> w_epoll_waiting w' = w_epoll_waiting w"
proof -
  note W = wiringD [OF assms(2)] and F = frameD [OF wiringD(2) [OF assms(2)]]
  have N: "node < length (pag_nodes (w_pag w))" using node_bound [OF assms(2,4)] F(1) by simp
  then have k: "vget (pag_nodes (w_pag w)) node = Some (NodeVar v)" using assms(5) F(1) by (simp add: vget_in)
  obtain x where x: "variable_by_id program v = Some x" using assms(3) by (auto simp: event_ok_def split: option.splits)
  have t: "vget (pr_types program) (v_type_id x) = Some (pr_types program ! v_type_id x)"
    using variable_listed [OF x] baseD(1) [OF W(1)] unfolding input_ok_def by (auto simp: vget_in)
  show ?thesis
  proof (cases "\<exists>elem n. pr_types program ! v_type_id x = TArray elem n")
    case False
    then have "decay_array iter program node w = Some w" using k x t by (auto simp: decay_array_def split: TypeDesc.split)
    then show ?thesis using assms(2) by (simp add: reaches_def)
  next
    case True
    then obtain l where l: "pag_var_location (w_pag w) v = Some l" using assms(3) x F(5) by (auto simp: event_ok_def)
    have "l < length (pag_locations (w_pag w))" using baseD(1) [OF W(1)] l unfolding input_ok_def by (meson UnI1 ranI)
    from add_pts_advances [OF assms(1) baseD(5) [OF W(1)] this N] obtain st where s: "add_pts iter node l (w_st w) = Some st" "solver_ok (w_pag w) st" "advances (w_pag w) (w_st w) st" by blast
    have "decay_array iter program node w = Some (w\<lparr>w_st := st\<rparr>)" using True k x t l s(1) by (auto simp: decay_array_def ensure_var_loc_def set_graph_def)
    then show ?thesis using state_reaches [OF assms(2) s(3,2)] by simp
  qed
qed

lemma epoll_register_reaches:
  assumes "iter_ok iter" "wiring_ok program pag {} w" "event_ok program pag v" "pag_var_node pag v = Some node" "pag_nodes pag ! node = NodeVar v"
  shows "\<exists>w'. epoll_register iter program node w = Some w' \<and> reaches program pag {} w w'"
proof -
  from decay_reaches [OF assms] obtain w1 where w1: "decay_array iter program node w = Some w1" "reaches program pag {} w w1" by blast
  then have ok: "wiring_ok program pag {} w1" by (simp add: reaches_def)
  show ?thesis
  proof (cases "node \<in> pag_null_temps (w_pag w) \<or> node \<in> set (w_epoll_registered w1)")
    case True
    then show ?thesis using assms(2) w1 by (auto simp: epoll_register_def reaches_def)
  next
    case False
    let ?w = "w1\<lparr>w_epoll_registered := w_epoll_registered w1 @ [node]\<rparr>"
    have "wiring_ok program pag (Pair node ` set (w_epoll_waiting w1)) ?w" using ok node_bound [OF assms(2,4)] by (auto simp: wiring_ok_def)
    from wire_epoll_all [OF assms(1) this] obtain w' where w': "foldM (\<lambda>w dst. wire_epoll iter node dst w) ?w (w_epoll_waiting w1) = Some w'" "reaches program pag {} ?w w'"
      using wiringD(6) [OF ok] node_bound [OF assms(2,4)] by auto
    have "reaches program pag {} w1 w'" using w'(2) by (simp add: reaches_def wires_more_def)
    then show ?thesis using False w1 w'(1) reaches_trans by (auto simp: epoll_register_def)
  qed
qed

lemma epoll_wait_reaches:
  assumes "iter_ok iter" "wiring_ok program pag {} w" "actual < length (pag_nodes (w_pag w))"
  shows "\<exists>w'. epoll_wait iter actual w = Some w' \<and> reaches program pag {} w w'"
proof -
  note F = frameD [OF wiringD(2) [OF assms(2)]]
  from model_copy_side_total [OF wiringD(1) [OF assms(2)] assms(3)] obtain node where n: "model_copy_side (w_pag w) actual = Some node" "node < length (pag_nodes pag)" using F(1) by auto
  show ?thesis
  proof (cases "node \<in> set (w_epoll_waiting w)")
    case True
    then show ?thesis using assms(2) n(1) by (simp add: epoll_wait_def reaches_def)
  next
    case False
    let ?w = "w\<lparr>w_epoll_waiting := w_epoll_waiting w @ [node]\<rparr>"
    have "wiring_ok program pag ((\<lambda>r. (r, node)) ` set (w_epoll_registered w)) ?w" using assms(2) n(2) by (auto simp: wiring_ok_def)
    from wire_epoll_all [OF assms(1) this] obtain w' where "foldM (\<lambda>w src. wire_epoll iter src node w) ?w (w_epoll_registered w) = Some w'" "reaches program pag {} ?w w'"
      using wiringD(5) [OF assms(2)] n(2) by auto
    then show ?thesis using False n(1) by (simp add: epoll_wait_def reaches_def wires_more_def)
  qed
qed

lemma apply_effect_reaches:
  assumes "iter_ok iter" "wiring_ok program pag {} w" "\<And>v n. pag_var_node pag v = Some n \<Longrightarrow> pag_nodes pag ! n = NodeVar v"
    "\<And>param v. effect = EpollRegister param \<Longrightarrow> arg_at (as_var_args cs) param = Some v \<Longrightarrow> event_ok program pag v"
  shows "\<exists>w'. apply_effect iter program cs w effect = Some w' \<and> reaches program pag {} w w'"
proof -
  have stay: "reaches program pag {} w w" using assms(2) by (simp add: reaches_def)
  show ?thesis
  proof (cases effect)
    case (ContentStore p v)
    then show ?thesis using content_store_reaches [OF assms(1,2)] arg_node_bound(2) [OF assms(2)] stay by (simp split: option.split)
  next
    case (EpollRegister param)
    show ?thesis
    proof (cases "arg_node cs (w_pag w) param")
      case (Some n)
      obtain v where v: "arg_at (as_var_args cs) param = Some v" "pag_var_node pag v = Some n" using arg_node_bound(3) [OF assms(2) Some] by blast
      from epoll_register_reaches [OF assms(1,2) assms(4) [OF EpollRegister v(1)] v(2) assms(3) [OF v(2)]] show ?thesis using EpollRegister Some by simp
    qed (use stay EpollRegister in simp)
  next
    case (EpollWait param)
    then show ?thesis using epoll_wait_reaches [OF assms(1,2)] arg_node_bound(2) [OF assms(2)] stay by (simp split: option.split)
  next
    case (Clears param)
    then show ?thesis using stay by (simp add: reaches_def wiring_ok_def wires_more_def)
  qed (use stay copy_effect_reaches [OF assms(2)] in simp_all)
qed

section \<open>Direct calls\<close>

definition calls_ok :: "Program \<Rightarrow> Pag \<Rightarrow> ArgSite list \<Rightarrow> (ArgSite \<Rightarrow> FnId list) \<Rightarrow> (FnId \<Rightarrow> Effect list option) \<Rightarrow>
    (FnId \<Rightarrow> Invoked list option) \<Rightarrow> bool" where
  "calls_ok program pag sites callees models invoked \<longleftrightarrow> (\<forall>v n. pag_var_node pag v = Some n \<longrightarrow> pag_nodes pag ! n = NodeVar v) \<and>
     (\<forall>l \<in> snd ` set (pag_fn_locations pag). l < length (pag_locations pag)) \<and>
     (\<forall>cs \<in> set sites. \<not> as_unevaluated cs \<longrightarrow> (\<forall>callee \<in> set (callees cs). callee_ok program pag cs callee \<and>
        (\<forall>effects param v. models callee = Some effects \<longrightarrow> EpollRegister param \<in> set effects \<longrightarrow> arg_at (as_var_args cs) param = Some v \<longrightarrow> event_ok program pag v) \<and>
        (\<forall>effects. invoked callee = Some effects \<longrightarrow> \<not> list_ex iv_forwards effects)))"

lemma calls_okD:
  assumes "calls_ok program pag sites callees models invoked"
  shows "\<And>v n. pag_var_node pag v = Some n \<Longrightarrow> pag_nodes pag ! n = NodeVar v" "\<forall>l \<in> snd ` set (pag_fn_locations pag). l < length (pag_locations pag)"
    "\<And>cs callee. cs \<in> set sites \<Longrightarrow> \<not> as_unevaluated cs \<Longrightarrow> callee \<in> set (callees cs) \<Longrightarrow> callee_ok program pag cs callee"
    "\<And>cs callee effects param v. cs \<in> set sites \<Longrightarrow> \<not> as_unevaluated cs \<Longrightarrow> callee \<in> set (callees cs) \<Longrightarrow> models callee = Some effects \<Longrightarrow>
       EpollRegister param \<in> set effects \<Longrightarrow> arg_at (as_var_args cs) param = Some v \<Longrightarrow> event_ok program pag v"
    "\<And>cs callee effects. cs \<in> set sites \<Longrightarrow> \<not> as_unevaluated cs \<Longrightarrow> callee \<in> set (callees cs) \<Longrightarrow> invoked callee = Some effects \<Longrightarrow> \<not> list_ex iv_forwards effects"
  using assms by (simp_all add: calls_ok_def)

definition args_wired :: "Program \<Rightarrow> Pag \<Rightarrow> ArgSite \<Rightarrow> Wiring \<Rightarrow> FnId \<Rightarrow> bool" where
  "args_wired program pag cs w callee \<longleftrightarrow> (\<forall>f. pr_functions program callee = Some f \<longrightarrow> (\<forall>p \<in> set (enumerate 0 (fe_params f)). arg_wired program pag cs w p))"

lemma args_wired_more: "args_wired program pag cs a callee \<Longrightarrow> wires_more a b \<Longrightarrow> args_wired program pag cs b callee"
  using arg_wired_more unfolding args_wired_def by blast

lemma wire_callee_reaches:
  assumes "iter_ok iter" "calls_ok program pag sites callees models invoked" "cs \<in> set sites" "\<not> as_unevaluated cs" "callee \<in> set (callees cs)" "wiring_ok program pag {} w"
  shows "\<exists>w'. wire_callee iter program models invoked cs w callee = Some w' \<and> reaches program pag {} w w' \<and> args_wired program pag cs w' callee"
proof -
  have ok: "callee_ok program pag cs callee" "\<And>v n. pag_var_node pag v = Some n \<Longrightarrow> pag_nodes pag ! n = NodeVar v" "\<forall>l \<in> snd ` set (pag_fn_locations pag). l < length (pag_locations pag)"
    "\<And>effects param v. models callee = Some effects \<Longrightarrow> EpollRegister param \<in> set effects \<Longrightarrow> arg_at (as_var_args cs) param = Some v \<Longrightarrow> event_ok program pag v"
    using calls_okD [OF assms(2)] assms(3-5) by simp_all
  obtain f where f: "pr_functions program callee = Some f" using ok(1) by (auto simp: callee_ok_def)
  define w1 where "w1 = w\<lparr>w_call_edges := w_call_edges w @
    [\<lparr>ce_call_site = as_id cs, ce_caller = as_caller cs, ce_callee = callee, ce_resolution = (if fe_is_defined f then Direct else External)\<rparr>]\<rparr>"
  have r1: "reaches program pag {} w w1" using assms(6) by (simp add: w1_def reaches_def wiring_ok_def wires_more_def)
  then have "wiring_ok program pag {} w1" by (simp add: reaches_def)
  from wire_params_reaches [OF assms(1) this ok(3,1) f] obtain w2' where p: "wire_params iter program cs callee w1 = Some w2'" "reaches program pag {} w1 w2'"
    "\<forall>p \<in> set (enumerate 0 (fe_params f)). arg_wired program pag cs w2' p" by blast
  define w2 where "w2 = (if fe_params f \<noteq> [] then w2' else w1)"
  have w2: "reaches program pag {} w w2" "args_wired program pag cs w2 callee" using p(2,3) r1 reaches_trans f by (auto simp: w2_def args_wired_def)
  have "\<exists>w'. apply_fn_model iter program cs (models callee) w2 = Some w' \<and> reaches program pag {} w2 w'"
  proof (cases "models callee")
    case (Some effects)
    have "\<exists>w'. foldM (apply_effect iter program cs) w2 effects = Some w' \<and> reaches program pag {} w2 w'"
    proof (rule foldM_rule)
      fix s e assume s: "reaches program pag {} w2 s" and e: "e \<in> set effects"
      have "wiring_ok program pag {} s" using s by (simp add: reaches_def)
      moreover have "event_ok program pag v" if "e = EpollRegister param" "arg_at (as_var_args cs) param = Some v" for param v using ok(4) [OF Some] e that by blast
      ultimately obtain t where "apply_effect iter program cs s e = Some t" "reaches program pag {} s t" using apply_effect_reaches [OF assms(1) _ ok(2), of program s e cs] by blast
      then show "\<exists>t. apply_effect iter program cs s e = Some t \<and> reaches program pag {} w2 t" using reaches_trans [OF s] by blast
    qed (use w2(1) in \<open>simp add: reaches_def\<close>)
    then show ?thesis using Some by (simp add: apply_fn_model_def)
  qed (use w2(1) in \<open>simp add: apply_fn_model_def reaches_def\<close>)
  then obtain w' where m: "apply_fn_model iter program cs (models callee) w2 = Some w'" "reaches program pag {} w2 w'" by blast
  have "wire_invocations (invoked callee) w' = w'" using calls_okD(5) [OF assms(2-5)] by (auto simp: wire_invocations_def split: option.split)
  then have "wire_callee iter program models invoked cs w callee = Some w'" using f p(1) m(1) by (auto simp: wire_callee_def w1_def w2_def Let_def split: if_splits)
  moreover have "args_wired program pag cs w' callee" using args_wired_more [OF w2(2)] m(2) by (simp add: reaches_def)
  ultimately show ?thesis using reaches_trans [OF w2(1) m(2)] by blast
qed

lemma wire_site_reaches:
  assumes "iter_ok iter" "calls_ok program pag sites callees models invoked" "cs \<in> set sites" "wiring_ok program pag {} w"
  shows "\<exists>w'. wire_site iter program callees models invoked w cs = Some w' \<and> reaches program pag {} w w' \<and> (\<not> as_unevaluated cs \<longrightarrow> (\<forall>callee \<in> set (callees cs). args_wired program pag cs w' callee))"
proof (cases "as_unevaluated cs")
  case True
  then show ?thesis using assms(4) by (simp add: wire_site_def reaches_def)
next
  case False
  have "\<exists>w'. foldM (wire_callee iter program models invoked cs) w (callees cs) = Some w' \<and> (reaches program pag {} w w' \<and> (\<forall>callee \<in> set (callees cs). args_wired program pag cs w' callee))"
  proof (rule foldM_prefix_rule)
    fix xs and x :: FnId and v assume I: "reaches program pag {} w v \<and> (\<forall>callee \<in> set xs. args_wired program pag cs v callee)" and x: "x \<in> set (callees cs)"
    have "wiring_ok program pag {} v" using I by (simp add: reaches_def)
    from wire_callee_reaches [OF assms(1-3) False x this] obtain t where t: "wire_callee iter program models invoked cs v x = Some t" "reaches program pag {} v t" "args_wired program pag cs t x" by blast
    have "\<forall>callee \<in> set (xs @ [x]). args_wired program pag cs t callee" using I t(2,3) args_wired_more unfolding reaches_def by fastforce
    then show "\<exists>t. wire_callee iter program models invoked cs v x = Some t \<and> (reaches program pag {} w t \<and> (\<forall>callee \<in> set (xs @ [x]). args_wired program pag cs t callee))"
      using t(1) reaches_trans [OF conjunct1 [OF I] t(2)] by blast
  qed (use assms(4) in \<open>simp add: reaches_def\<close>)
  then show ?thesis using False by (simp add: wire_site_def)
qed

definition sites_wired :: "Program \<Rightarrow> Pag \<Rightarrow> (ArgSite \<Rightarrow> FnId list) \<Rightarrow> ArgSite set \<Rightarrow> Wiring \<Rightarrow> bool" where
  "sites_wired program pag callees sites w \<longleftrightarrow> (\<forall>cs \<in> sites. \<not> as_unevaluated cs \<longrightarrow> (\<forall>callee \<in> set (callees cs). args_wired program pag cs w callee))"

lemma wire_sites_reaches:
  assumes "iter_ok iter" "calls_ok program pag sites callees models invoked" "wiring_ok program pag {} w"
  shows "\<exists>w'. foldM (wire_site iter program callees models invoked) w sites = Some w' \<and> (reaches program pag {} w w' \<and> sites_wired program pag callees (set sites) w')"
proof (rule foldM_prefix_rule)
  fix xs and cs :: ArgSite and v assume I: "reaches program pag {} w v \<and> sites_wired program pag callees (set xs) v" and x: "cs \<in> set sites"
  have "wiring_ok program pag {} v" using I by (simp add: reaches_def)
  from wire_site_reaches [OF assms(1,2) x this] obtain t where t: "wire_site iter program callees models invoked v cs = Some t" "reaches program pag {} v t"
    "\<not> as_unevaluated cs \<longrightarrow> (\<forall>callee \<in> set (callees cs). args_wired program pag cs t callee)" by blast
  have "sites_wired program pag callees (set (xs @ [cs])) t" using I t(2,3) args_wired_more unfolding reaches_def sites_wired_def by fastforce
  then show "\<exists>t. wire_site iter program callees models invoked v cs = Some t \<and> (reaches program pag {} w t \<and> sites_wired program pag callees (set (xs @ [cs])) t)"
    using t(1) reaches_trans [OF conjunct1 [OF I] t(2)] by blast
qed (use assms(3) in \<open>simp add: reaches_def sites_wired_def\<close>)

section \<open>A solve with direct calls\<close>

text \<open>Every pointer-carrying argument of the site reaches its parameter: the parameter holds what the passed variable holds, or the functions passed by name.\<close>

definition args_flow :: "Program \<Rightarrow> Pag \<Rightarrow> ArgSite \<Rightarrow> SolverState \<Rightarrow> FnId \<Rightarrow> bool" where
  "args_flow program pag cs st callee \<longleftrightarrow>
     (\<forall>(i, formal) \<in> set (enumerate 0 (fe_params (the (pr_functions program callee)))).
        case arg_at (as_var_args cs) i of
          Some actual \<Rightarrow> var_may_hold_pointee program actual = Some True \<longrightarrow> var_may_hold_pointee program formal = Some True \<longrightarrow>
            pts_of st (the (pag_var_node pag actual)) \<subseteq> pts_of st (the (pag_var_node pag formal))
        | None \<Rightarrow> \<forall>fn l. (i, fn) \<in> set (as_fn_args cs) \<longrightarrow> map_of (pag_fn_locations pag) fn = Some l \<longrightarrow> l \<in> pts_of st (the (pag_var_node pag formal)))"

lemma copies_met:
  assumes "solves is_ptr pag st" "copy_constraint a f \<in> set (pag_constraints pag)"
  shows "pts_of st a \<subseteq> pts_of st f"
  using assms unfolding solves_def by fastforce

lemma args_wired_flow:
  assumes "args_wired program pag cs w callee" "wiring_ok program pag {} w" "solves is_ptr (w_pag w) st" "\<And>n. pts_of (w_st w) n \<subseteq> pts_of st n" "callee \<in> dom (pr_functions program)"
  shows "args_flow program pag cs st callee"
proof -
  obtain f where f: "pr_functions program callee = Some f" using assms(5) by blast
  have c: "pts_of st a \<subseteq> pts_of st b" if "(a, b) \<in> w_wired_copies w" for a b using copies_met [OF assms(3) wiringD(4) [OF assms(2) that]] .
  show ?thesis unfolding args_flow_def f option.sel case_prod_beta
  proof (rule ballI)
    fix p assume "p \<in> set (enumerate 0 (fe_params f))"
    then have "arg_wired program pag cs w p" using assms(1) f unfolding args_wired_def by blast
    then show "case arg_at (as_var_args cs) (fst p) of
        Some actual \<Rightarrow> var_may_hold_pointee program actual = Some True \<longrightarrow> var_may_hold_pointee program (snd p) = Some True \<longrightarrow>
          pts_of st (the (pag_var_node pag actual)) \<subseteq> pts_of st (the (pag_var_node pag (snd p)))
      | None \<Rightarrow> \<forall>fn l. (fst p, fn) \<in> set (as_fn_args cs) \<longrightarrow> map_of (pag_fn_locations pag) fn = Some l \<longrightarrow> l \<in> pts_of st (the (pag_var_node pag (snd p)))"
      using c assms(4) unfolding arg_wired_def by (cases "arg_at (as_var_args cs) (fst p)") (simp_all, blast)
  qed
qed

lemma start_wiring:
  assumes "iter_ok iter" "input_ok pag0 program" "pag_indices pag0 = SolverIndices_default"
  shows "\<exists>ix srcs st. index_new_constraints 0 pag0 = Some (pag0\<lparr>pag_indices := ix\<rparr>, srcs) \<and> indexed_upto pag0 (length (pag_constraints pag0)) ix \<and>
    solve_start iter (pag0\<lparr>pag_indices := ix\<rparr>) program passed = Some st \<and>
    wiring_ok program (pag0\<lparr>pag_indices := ix\<rparr>) {} (Wiring_start (pag0\<lparr>pag_indices := ix\<rparr>) st)"
proof -
  have "\<forall>c \<in> set (pag_constraints pag0). c_kind c \<noteq> UnwrapPointer \<and> c_src c \<le> u32_max" using assms(2) unfolding input_ok_def by auto
  from index_result [OF assms(3) this] obtain ix srcs where i: "index_new_constraints 0 pag0 = Some (pag0\<lparr>pag_indices := ix\<rparr>, srcs)"
    "indexed_upto pag0 (length (pag_constraints pag0)) ix" by blast
  let ?p = "pag0\<lparr>pag_indices := ix\<rparr>"
  note P = indexed_input [OF assms(2) i(2)]
  obtain st where s: "solve_start iter ?p program passed = Some st" "start_ok ?p program {} st" "seeded ?p {} st" using start_result [OF assms(1) P(3)] by blast
  have "indexed_upto ?p (length (pag_constraints ?p)) (pag_indices ?p)" using i(2) by (simp add: indexed_upto_def listed_upto_def)
  then have "base program ?p st" using P(3) s(2,3) by (simp add: base_def)
  then have "wiring_ok program ?p {} (Wiring_start ?p st)" by (simp add: wiring_ok_def Wiring_start_def)
  then show ?thesis using i s(1) by blast
qed

text \<open>C38: a solve of a program with direct calls whose constraints are copies, address constants, loads and stores (no field access, smart-pointer unwrap,
  \<^verbatim>\<open>dlsym\<close> or indirect call), and whose callees' models forward no arguments to callbacks, returns, for every order in which the hash sets are walked. Wiring the calls
  only adds constraints. If neither budget stops the loop, it has converged, and a converged result is a solution: every copy, load and store, those that
  calls and function models added included, is met as an inclusion, every address constant is held, and a pointer variable and its memory cell hold the
  same admitted locations, although each pop looked at nothing but the locations new since the last one; every argument variable that may hold a pointee reaches its
  parameter that may, every function passed by name is held by its parameter, and every registered event every buffer that waits for events. If it has not converged, the pop or time budget is spent.\<close>

theorem solve_reaches_solution:
  assumes "iter_ok iter" "input_ok pag0 program" "pag_indices pag0 = SolverIndices_default" "calls_ok program pag0 sites callees models invoked"
  shows "\<exists>pag srcs w st k conv. index_new_constraints 0 pag0 = Some (pag, srcs) \<and>
    solve_with_calls iter pag program sites callees models invoked budget late = Some (w, Solved st k conv) \<and>
    frame (w_pag w) = frame pag0 \<and> prefix (pag_constraints pag0) (pag_constraints (w_pag w)) \<and>
    (conv \<longrightarrow> st_worklist st = [] \<and> solves (\<lambda>v. var_is_pointer_like program v = Some True) (w_pag w) st \<and>
       (\<forall>cs \<in> set sites. \<not> as_unevaluated cs \<longrightarrow> (\<forall>callee \<in> set (callees cs). args_flow program pag0 cs st callee)) \<and>
       (\<forall>r \<in> set (w_epoll_registered w). \<forall>d \<in> set (w_epoll_waiting w). pts_of st r \<subseteq> pts_of st d)) \<and>
    (\<not> conv \<longrightarrow> over_budget budget k \<or> over_time late k)"
proof -
  from start_wiring [OF assms(1-3)] obtain ix srcs st where i: "index_new_constraints 0 pag0 = Some (pag0\<lparr>pag_indices := ix\<rparr>, srcs)"
    and s: "solve_start iter (pag0\<lparr>pag_indices := ix\<rparr>) program (concat (map (map snd \<circ> as_var_args) sites)) = Some st"
    and ok: "wiring_ok program (pag0\<lparr>pag_indices := ix\<rparr>) {} (Wiring_start (pag0\<lparr>pag_indices := ix\<rparr>) st)" by blast
  let ?p = "pag0\<lparr>pag_indices := ix\<rparr>" and ?ptr = "\<lambda>v. var_is_pointer_like program v = Some True"
  have "calls_ok program ?p sites callees models invoked" using assms(4) by (simp add: calls_ok_def callee_ok_def event_ok_def cong: option.case_cong TypeDesc.case_cong)
  then obtain w where w: "foldM (wire_site iter program callees models invoked) (Wiring_start ?p st) sites = Some w" "wiring_ok program ?p {} w" "sites_wired program ?p callees (set sites) w"
    using wire_sites_reaches [OF assms(1) _ ok] unfolding reaches_def by blast
  note W = wiringD [OF w(2)] and B = baseD [OF wiringD(1) [OF w(2)]]
  note Q = indexed_input [OF B(1,2), simplified]
  obtain st' k conv where r: "solve_loop iter ?ptr (w_pag w) {} budget late 0 (w_st w) = Some (Solved st' k conv)" "conv \<longrightarrow> st_worklist st' = [] \<and> loop_ok ?ptr (w_pag w) {} st'"
    "\<not> conv \<longrightarrow> over_budget budget k \<or> over_time late k" "\<forall>n. pts_of (w_st w) n \<subseteq> pts_of st' n"
    using solve_loop_result [OF assms(1) Q(1,2) start_loop [OF B(3,4)], where budget = budget and late = late and pops = 0] by blast
  have f: "frame (w_pag w) = frame pag0" using W(2) by (simp add: frame_def)
  have "solve_with_calls iter ?p program sites callees models invoked budget late = Some (w, Solved st' k conv)" using s w(1) r(1) W(8) by (simp add: solve_with_calls_def)
  moreover have "solves ?ptr (w_pag w) st'" if conv using r(2) that loop_done by blast
  moreover have "args_flow program pag0 cs st' callee" if conv "cs \<in> set sites" "\<not> as_unevaluated cs" "callee \<in> set (callees cs)" for cs callee
  proof -
    have "args_wired program ?p cs w callee" using w(3) that unfolding sites_wired_def by blast
    moreover have "callee \<in> dom (pr_functions program)" using calls_okD(3) [OF assms(4) that(2-4)] by (simp add: callee_ok_def)
    ultimately have "args_flow program ?p cs st' callee" using args_wired_flow w(2) \<open>conv \<Longrightarrow> solves ?ptr (w_pag w) st'\<close> that(1) r(4) by blast
    then show ?thesis by (simp add: args_flow_def cong: option.case_cong prod.case_cong)
  qed
  moreover have "pts_of st' a \<subseteq> pts_of st' d" if conv "a \<in> set (w_epoll_registered w)" "d \<in> set (w_epoll_waiting w)" for a d
    using copies_met [OF _ W(7) [OF that(2,3)]] \<open>conv \<Longrightarrow> solves ?ptr (w_pag w) st'\<close> that(1) by blast
  ultimately show ?thesis using i f W(3) r(2,3)
    by (intro exI [of _ ?p] exI [of _ srcs] exI [of _ w] exI [of _ st'] exI [of _ k] exI [of _ conv]) simp
qed

text \<open>\<open>p = &x; f(p);\<close> with \<open>void f(struct s *q)\<close>.\<close>

definition tiny_program :: Program where
  "tiny_program = \<lparr>pr_types = [TStruct ''s'' [], TPtr (TStruct ''s'' [])], pr_guessed_tags = {}, pr_declared_structs = {},
     pr_variables = [\<lparr>v_id = 0, v_name = ''x'', v_type_id = 0, v_storage = SGlobal, v_fn_id = None, v_is_pointer = False\<rparr>,
       \<lparr>v_id = 1, v_name = ''p'', v_type_id = 1, v_storage = SLocal, v_fn_id = Some 1, v_is_pointer = True\<rparr>,
       \<lparr>v_id = 2, v_name = ''q'', v_type_id = 1, v_storage = SParam, v_fn_id = Some 0, v_is_pointer = True\<rparr>],
     pr_functions = [0 \<mapsto> \<lparr>fe_params = [2], fe_is_defined = True\<rparr>]\<rparr>"

definition tiny_pag :: Pag where
  "tiny_pag = \<lparr>pag_nodes = [NodeVar 0, NodeVar 1, NodeVar 2, NodeLoc 0],
     pag_constraints = [\<lparr>c_kind = AddrOf, c_dst = 1, c_src = 3, c_field_info = None\<rparr>],
     pag_locations = [example_loc 0], pag_var_node = [0 \<mapsto> 0, 1 \<mapsto> 1, 2 \<mapsto> 2], pag_fn_locations = [], pag_var_location = [0 \<mapsto> 0],
     pag_field_loc_to_summary = Map.empty, pag_null_temps = {}, pag_indices = SolverIndices_default\<rparr>"

definition tiny_site :: ArgSite where
  "tiny_site = \<lparr>as_id = 0, as_caller = 1, as_var_args = [(0, 1)], as_fn_args = [], as_addr_of_member_args = [], as_unevaluated = False\<rparr>"

lemma tiny_ok: "input_ok tiny_pag tiny_program" "calls_ok tiny_program tiny_pag [tiny_site] (\<lambda>_. [0]) (\<lambda>_. None) (\<lambda>_. None)"
  by (auto simp: input_ok_def tiny_pag_def tiny_program_def example_loc_def u32_max_def ran_def calls_ok_def callee_ok_def tiny_site_def split: if_splits)

theorem solve_reaches_solution_witness:
  "\<exists>pag srcs w st k. index_new_constraints 0 tiny_pag = Some (pag, srcs) \<and>
    solve_with_calls sorted_list_of_set pag tiny_program [tiny_site] (\<lambda>_. [0]) (\<lambda>_. None) (\<lambda>_. None) None None = Some (w, Solved st k True) \<and> 0 \<in> pts_of st 2"
proof -
  have "pag_indices tiny_pag = SolverIndices_default" by (simp add: tiny_pag_def)
  from solve_reaches_solution [OF iter_sorted tiny_ok(1) this tiny_ok(2), of None None] obtain pag srcs w st k conv where
    r: "index_new_constraints 0 tiny_pag = Some (pag, srcs)" "solve_with_calls sorted_list_of_set pag tiny_program [tiny_site] (\<lambda>_. [0]) (\<lambda>_. None) (\<lambda>_. None) None None = Some (w, Solved st k conv)"
    "frame (w_pag w) = frame tiny_pag" "prefix (pag_constraints tiny_pag) (pag_constraints (w_pag w))"
    "conv \<longrightarrow> solves (\<lambda>v. var_is_pointer_like tiny_program v = Some True) (w_pag w) st" "conv \<longrightarrow> args_flow tiny_program tiny_pag tiny_site st 0" "conv"
    by (auto simp: over_budget_def over_time_def tiny_site_def)
  have "\<lparr>c_kind = AddrOf, c_dst = 1, c_src = 3, c_field_info = None\<rparr> \<in> set (pag_constraints (w_pag w))" using set_mono_prefix [OF r(4)] by (simp add: tiny_pag_def)
  then have "0 \<in> pts_of st 1" using r(5,7) frameD(1) [OF r(3)] unfolding solves_def by (fastforce simp: tiny_pag_def)
  moreover have "pts_of st 1 \<subseteq> pts_of st 2" using r(6,7)
    by (simp add: args_flow_def tiny_program_def tiny_pag_def tiny_site_def arg_at_def var_may_hold_pointee_def variable_by_id_def vget_def)
  ultimately show ?thesis using r(1,2,7) by auto
qed

section \<open>Effects that share a key\<close>

lemma first_var_more:
  assumes "\<forall>i \<in> set idxs. i < length (pag_constraints pag)"
  shows "first_var (pag\<lparr>pag_constraints := pag_constraints pag @ cs, pag_indices := ix\<rparr>) idxs = first_var pag idxs"
  using assms by (induction idxs) (simp_all add: vget_in nth_append cong: PagNodeKind.case_cong option.case_cong)

lemma side_more:
  assumes "base program pag st" "si_addr_of_dst ix = si_addr_of_dst (pag_indices pag)"
  shows "model_copy_side (pag\<lparr>pag_constraints := pag_constraints pag @ cs, pag_indices := ix\<rparr>) n = model_copy_side pag n"
proof -
  have "set (entry (si_addr_of_dst (pag_indices pag)) n []) \<subseteq> {..<length (pag_constraints pag)}" using baseD(2) [OF assms(1)] by (auto simp: indexed_upto_def listed_upto_def)
  then have "addressed_var (pag\<lparr>pag_constraints := pag_constraints pag @ cs, pag_indices := ix\<rparr>) n = addressed_var pag n"
    using first_var_more [where pag = pag and cs = cs and ix = ix] assms(2) by (cases "si_addr_of_dst (pag_indices pag) n") (auto simp: addressed_var_def entry_def)
  then show ?thesis by (simp add: model_copy_side_def cong: option.case_cong)
qed

text \<open>Between two arguments that are no address of a variable (\<^verbatim>\<open>model_copy_side\<close> is then the argument itself) a copy and a store that models ask for share one key. Once the one is wired, the other is dropped: after an alias of the
  pointer with the value no store through the pointer is added, and after a content store no copy is.\<close>

theorem model_edges_share_key:
  assumes "iter_ok iter" "wiring_ok program pag {} w" "arg_node cs (w_pag w) p = Some pn" "arg_node cs (w_pag w) v = Some vn" "model_copy_side (w_pag w) pn = Some pn"
    "model_copy_side (w_pag w) vn = Some vn" "(vn, pn) \<notin> w_wired_model_edges w" "p \<notin> set (as_addr_of_member_args cs)" "v \<notin> set (as_addr_of_member_args cs)"
  shows "\<exists>a b. apply_fn_model iter program cs (Some [Alias p v, ContentStore p v]) w = Some a \<and> pag_constraints (w_pag a) = pag_constraints (w_pag w) @ [copy_constraint vn pn] \<and>
    apply_fn_model iter program cs (Some [ContentStore p v, Alias p v]) w = Some b \<and>
    pag_constraints (w_pag b) = pag_constraints (w_pag w) @ [\<lparr>c_kind = Store, c_dst = pn, c_src = vn, c_field_info = None\<rparr>]"
proof -
  note B = wiringD(1) [OF assms(2)] and N = arg_node_bound(2) [OF assms(2,3)] arg_node_bound(2) [OF assms(2,4)]
  obtain q s where c: "ensure_param_copy vn pn (w_pag w, w_st w) = (q, s)" "frame q = frame (w_pag w)" "pag_constraints q = pag_constraints (w_pag w) @ [copy_constraint vn pn]"
    using copy_base [OF B N(2,1)] by blast
  let ?a = "set_graph (q, s) (w\<lparr>w_wired_model_edges := insert (vn, pn) (w_wired_model_edges w)\<rparr>)"
  have "apply_effect iter program cs w (Alias p v) = Some ?a" using assms(3-9) c(1) by (simp add: copy_effect_def side_of_def)
  moreover have "apply_effect iter program cs ?a (ContentStore p v) = Some ?a"
    using assms(3,4) frameD(3) [OF c(2)] by (simp add: set_graph_def arg_node_def content_store_def)
  ultimately have a: "apply_fn_model iter program cs (Some [Alias p v, ContentStore p v]) w = Some ?a" by (simp add: apply_fn_model_def del: apply_effect.simps)
  let ?ix = "pag_indices (w_pag w)" and ?i = "length (pag_constraints (w_pag w))" and ?c = "\<lparr>c_kind = Store, c_dst = pn, c_src = vn, c_field_info = None\<rparr>"
  let ?jx = "?ix\<lparr>si_store_dst := index_push (si_store_dst ?ix) pn ?i, si_store_src := index_push (si_store_src ?ix) vn ?i\<rparr>"
  let ?p = "(w_pag w)\<lparr>pag_constraints := pag_constraints (w_pag w) @ [?c], pag_indices := ?jx\<rparr>"
  obtain t where t: "apply_store_to_targets iter (\<lambda>v. var_is_pointer_like program v = Some True) ?p ?i None Whole no_views (w_st w) = Some t"
    using store_base [OF assms(1) B N, of "\<lambda>v. var_is_pointer_like program v = Some True"] by blast
  let ?b = "set_graph (?p, t) (w\<lparr>w_wired_model_edges := insert (vn, pn) (w_wired_model_edges w)\<rparr>)"
  have "apply_effect iter program cs w (ContentStore p v) = Some ?b" using assms(3,4,7) t by (simp add: content_store_def Let_def)
  moreover have "model_copy_side ?p pn = Some pn" "model_copy_side ?p vn = Some vn" using side_more [OF B, of ?jx] assms(5,6) by simp_all
  then have "apply_effect iter program cs ?b (Alias p v) = Some ?b" using assms(3,4,8,9) by (simp add: set_graph_def arg_node_def copy_effect_def side_of_def)
  ultimately have "apply_fn_model iter program cs (Some [ContentStore p v, Alias p v]) w = Some ?b" by (simp add: apply_fn_model_def del: apply_effect.simps)
  moreover have "pag_constraints (w_pag ?a) = pag_constraints (w_pag w) @ [copy_constraint vn pn]" "pag_constraints (w_pag ?b) = pag_constraints (w_pag w) @ [?c]"
    using c(3) by (simp_all add: set_graph_def)
  ultimately show ?thesis using a by blast
qed

definition key_site :: ArgSite where
  "key_site = \<lparr>as_id = 1, as_caller = 1, as_var_args = [(0, 2), (1, 0)], as_fn_args = [], as_addr_of_member_args = [], as_unevaluated = False\<rparr>"

theorem model_edges_share_key_witness:
  "\<exists>pag srcs st a. index_new_constraints 0 tiny_pag = Some (pag, srcs) \<and> solve_start sorted_list_of_set pag tiny_program [] = Some st \<and>
    apply_fn_model sorted_list_of_set tiny_program key_site (Some [Alias 0 1, ContentStore 0 1]) (Wiring_start pag st) = Some a \<and>
    pag_constraints (w_pag a) = pag_constraints tiny_pag @ [copy_constraint 0 2]"
proof -
  have d: "pag_indices tiny_pag = SolverIndices_default" by (simp add: tiny_pag_def)
  from start_wiring [OF iter_sorted tiny_ok(1) d] obtain ix srcs st where i: "index_new_constraints 0 tiny_pag = Some (tiny_pag\<lparr>pag_indices := ix\<rparr>, srcs)"
    "indexed_upto tiny_pag (length (pag_constraints tiny_pag)) ix" "solve_start sorted_list_of_set (tiny_pag\<lparr>pag_indices := ix\<rparr>) tiny_program [] = Some st"
    "wiring_ok tiny_program (tiny_pag\<lparr>pag_indices := ix\<rparr>) {} (Wiring_start (tiny_pag\<lparr>pag_indices := ix\<rparr>) st)" by blast
  let ?p = "tiny_pag\<lparr>pag_indices := ix\<rparr>"
  have none: "entry (si_addr_of_dst ix) n [] = []" if "n \<noteq> 1" for n using i(2) that by (auto simp: indexed_upto_def listed_upto_def tiny_pag_def simp flip: set_empty)
  have side: "model_copy_side ?p n = Some n" if "n \<noteq> 1" for n
    using none [OF that] by (cases "si_addr_of_dst ix n") (simp_all add: model_copy_side_def addressed_var_def entry_def)
  let ?w = "Wiring_start ?p st"
  have h: "arg_node key_site (w_pag ?w) 0 = Some 2" "arg_node key_site (w_pag ?w) 1 = Some 0" "model_copy_side (w_pag ?w) 2 = Some 2" "model_copy_side (w_pag ?w) 0 = Some 0"
    "(0, 2) \<notin> w_wired_model_edges ?w" "0 \<notin> set (as_addr_of_member_args key_site)" "1 \<notin> set (as_addr_of_member_args key_site)"
    using side by (simp_all add: Wiring_start_def arg_node_def arg_at_def key_site_def tiny_pag_def)
  have "pag_constraints (w_pag ?w) = pag_constraints tiny_pag" by (simp add: Wiring_start_def)
  then show ?thesis using i(1,3) model_edges_share_key [OF iter_sorted i(4) h] by auto
qed

end
