(* ===== verification/Spec2Isabelle.thy ===== *)
theory Spec2Isabelle
  imports Cfg_Variants Cfg_Compact Line_Map Seq_Relate Contexts Lexer_Props Pp_Cond_Chains Pp_Guard Pp_Scope Solver_Wiring
begin

text \<open>
  \<^bold>\<open>A verification library for trace.\<close> Trace is a static analyzer for C and C++ written in Rust. A unit is
  tokenized and preprocessed (\<^verbatim>\<open>trace-preproc\<close>), parsed and lowered to functions with control-flow graphs
  (\<^verbatim>\<open>trace-parse\<close>, \<^verbatim>\<open>trace-ir\<close>), linked and solved (\<^verbatim>\<open>trace-analysis\<close>), stored
  in a database and queried (\<^verbatim>\<open>trace-db\<close>). The library models the parts of that pipeline that compute in memory on
  the analyzer's own data.

  \<^bold>\<open>Prelude.\<close> \<open>Prelude\<close> has the identifiers, spans, vectors and loops that every theory shares. A Rust vector is
  a list; a read or write out of range panics, and an operation that can panic is a computation in the option monad
  with \<open>None\<close> as the panic; \<open>vslice\<close> is the slice of a range. That an operation does not panic is then part of its theorem. Machine widths are
  written out where the code casts and where it counts lines and columns, as in a build without debug assertions and overflow checks: \<open>as_u32\<close> wraps, and a
  theorem that needs the exact number bounds the input. Hashers and other foreign code are arguments of the definitions.

  \<^bold>\<open>Control-flow graphs\<close> (\<^verbatim>\<open>trace-ir/src/cfg.rs\<close>). \<open>Kinds\<close> has the named enumerations of events, edges,
  lanes and orders and that their names read back; the locale \<open>named_kind\<close> is their shared interface, interpreted for each.
  \<open>Cfg\<close> has the graph records, their well-formedness, deduplication of edges and the table of mapped call sites.
  \<open>Cfg_Order\<close> models splicing an event out of the local order and shows that the order among the others
  is exactly the old one. \<open>Cfg_Remap\<close> renumbers a graph into another program, keeps
  it well formed and keeps the sequencing of the surviving events. \<open>Cfg_Variants\<close> keeps one graph per build configuration;
  the comparison under a renumbering equals comparison of the renumbered graphs, with or without fingerprints.
  \<open>Cfg_Compact\<close> removes empty blocks and shows that reachability among the kept blocks and all events survive.

  \<^bold>\<open>Line map\<close> (\<^verbatim>\<open>trace-preproc/src/line_map.rs\<close>). \<open>Line_Map\<close> models the interned, run-length map from output lines
  to source places and shows each operation against the list of the lines' origins it stands for.

  \<^bold>\<open>Tokens\<close> (\<^verbatim>\<open>trace-preproc/src/lexer.rs\<close>). \<open>Token\<close> has tokens, hide sets and the 64-bit expansion fingerprint.
  \<open>Lexer\<close> has the position and the line splices with the invariant \<open>lexer_ok\<close>; \<open>Tokenize\<close> the readers and
  the token loop; \<open>Lexer_View\<close> that a run of the lexer walks the spliced text; \<open>Lexer_Spec\<close> the tokens of a list
  of characters as the relation \<open>scan\<close> and the simulation; \<open>Lexer_Props\<close> the properties. The loop
  over tokens is a partial function and is shown to return. Line and column are 32-bit counters, exact for texts of fewer than 2 ^ 32 - 1 characters.

  \<^bold>\<open>Preprocessor\<close> (\<^verbatim>\<open>trace-preproc/src/preprocessor.rs\<close>, \<^verbatim>\<open>conditionals.rs\<close>, \<^verbatim>\<open>macros.rs\<close>, \<^verbatim>\<open>options.rs\<close>).
  \<open>Pp_Expr\<close> has the evaluator of \<^verbatim>\<open>#if\<close> conditions; \<open>Pp_Expr_Props\<close> its grammar and that the evaluator decides it, \<open>Pp_Expr_Ints\<close> that
  its words implement C's typed integers. \<open>Pp_Macro\<close> has the substitution of arguments with stringizing and pasting, \<open>Pp_Macro_Props\<close> its
  bound, the chains of \<^verbatim>\<open>##\<close> and the painting of expansions. \<open>Pp_Env\<close> has the macro table with the cache frames that record what a header
  read of it, and the invariant \<open>env_inv\<close>; the locale \<open>frame_writer\<close> is the shared contract of everything that writes frames. \<open>Pp_Condition\<close> expands a
  condition under its budgets and shows that it is always decided within them and depends only on the reads it recorded. \<open>Pp_Cond\<close> has the stack of
  conditional frames, the recorded chains and the dispatch of directives; \<open>Pp_Cond_Props\<close> shows that taking a file line by line runs the
  arms its nested structure selects, for every action of text lines that satisfies the locale \<open>text_lines\<close>. \<open>Pp_File\<close> has the include guard
  read off a file's tokens, the token loop under its limits, followed up to the first token it would expand or print, and the fence around a file;
  \<open>Pp_Cond_Chains\<close> shows over all states a run reaches, with files entered and left in nesting order, that no directive panics and recorded chains take at
  most one arm, \<open>Pp_Guard\<close> that skipping a file with regular directives on its guard loses nothing. \<open>Pp_Scope\<close> has the boundary of the printed output, with the
  delimiters packed into a 128-bit word, against the list of open ones and the places where namespace and linkage blocks open. The hasher of macro bindings and the file
  system's canonical paths are arguments.

  \<^bold>\<open>Order queries\<close> (\<^verbatim>\<open>trace-db/src/inspect/sequence.rs\<close>). \<open>Seq_Search\<close> has the layout of blocks and events and
  the breadth-first searches; \<open>Seq_Dominance\<close> the dominator tree; \<open>Seq_Control\<close> the control facts of an event;
  \<open>Seq_Relate\<close> the relation of two events and the combination over configurations. A reported
  order is shown to hold on every path of the graph.

  \<^bold>\<open>Calls and contexts\<close> (\<^verbatim>\<open>trace-analysis/src/callgraph.rs\<close>, \<^verbatim>\<open>contexts.rs\<close>, \<^verbatim>\<open>constraints.rs\<close>). \<open>Call_Graph\<close> has the search for
  call chains and that it finds exactly the bounded simple ones. \<open>Scc\<close> has the iterative component algorithm, its exploration as an
  inductive relation, and that it returns the strongly connected components. \<open>Contexts\<close> has the spread of
  execution contexts over the components against a reachability specification.

  \<^bold>\<open>Points-to solver\<close> (\<^verbatim>\<open>trace-analysis/src/solver.rs\<close>, \<^verbatim>\<open>pag.rs\<close>). \<open>Loc_Bits\<close> has the bit sets that mirror large sets
  and the bits of the load sources; the locale \<open>bit_index\<close> is their shared interface. \<open>Points_To\<close> has the solver state and its write paths,
  \<open>Points_To_Inv\<close> the invariant \<open>solver_ok\<close> (queue, deltas, index of holders, mirrors, merged prefixes), \<open>Points_To_Props\<close>
  loads and writes of cells, \<open>Points_To_Stores\<close> stores and the wake-up of the loads they affect.
  \<open>Solver_Loop\<close> has the index of the constraints and the worklist loop with its pop and time budgets; the steps that create locations or
  constraints while solving (field accesses, unwraps of smart pointers, \<open>dlsym\<close>, indirect calls, watched callbacks) end the model with
  the value \<open>Outside\<close>. \<open>Solver_Start\<close> has what \<^verbatim>\<open>solve\<close> does before the loop: guards from declared types, the queue, address constants,
  cells in step with pointer variables. \<open>Solver_Fixpoint\<close> has the loop's invariant (everything that is not in a delta has flowed), \<open>Solver_Props\<close>
  that a pop keeps it and that the loop ends, since each pop that does work uses up room in the points-to sets or in memory, and \<open>Solver_Solve\<close> that the
  start establishes the invariant and that a copy added while solving has to be seeded. \<open>Solver_Calls\<close> has the wiring of arguments into parameters and the
  effects of function models, with the callees of a site and the models of a callee as arguments; a model that forwards arguments to a callback ends the
  model with \<open>Unmodelled\<close>. It is followed by \<open>Solver_Wiring\<close>: a solve of a program with
  direct calls, without field accesses, indirect calls and forwarding models, returns a solution in which the arguments that may hold pointers reach their parameters.

  \<^bold>\<open>Bounds and fuel.\<close> No definition uses fuel. The expansion of a condition counts its steps and tokens against the code's own
  constants, and that count is its measure. Loops whose end is not evident from their arguments are
  partial functions into the option type, and the theorems state that they return.

  \<^bold>\<open>Not modelled.\<close> Lowering of syntax trees, which a third-party parser builds; the handlers of
  \<^verbatim>\<open>#include\<close>, \<^verbatim>\<open>#define\<close> and \<^verbatim>\<open>#pragma\<close>, the rescan and printing of expanded text, and the stored expansions of headers, which read files and share
  state between units; the construction of the assignment graph, the resolution of callees by name, and the field accesses, indirect calls, callbacks
  and return flows that extend the graph while solving, which read the lowered program and its type registry; the database layer, which is SQL; build
  discovery; the language server, the C interface and the command line.
\<close>

end
